(* ===== verification/Prelude.thy ===== *)
theory Prelude
  imports Main "HOL-Library.Sublist"
begin

text \<open>
  The prelude of the development: the lemma collections the component proofs share, the error
  type of the model (a Python exception is a value), the result of a call that may raise or may
  hand back an awaitable, and generic facts about lists and association lists.
\<close>

named_theorems res_iffs \<open>when a computation that may raise returns, and what\<close>
named_theorems dict_simps \<open>reading a dict after it was written\<close>

section \<open>Exceptions and results\<close>

text \<open>
  Python exceptions by class, with the text they carry. \<open>HostError\<close> is any exception a host
  callable raises.
\<close>

datatype exn =
    ValueError string
  | KeyError string
  | TypeError string
  | AttributeError string
  | IndexError string
  | AssertionError string
  | RecursionError
  | GraphQLError string
  | HostError string

type_synonym 'a res = "exn + 'a"

definition bind_res :: "'a res \<Rightarrow> ('a \<Rightarrow> 'b res) \<Rightarrow> 'b res" where
  "bind_res m f = (case m of Inl e \<Rightarrow> Inl e | Inr x \<Rightarrow> f x)"

lemma bind_res_simps [simp]:
  "bind_res (Inl e) f = Inl e"
  "bind_res (Inr x) f = f x"
  by (simp_all add: bind_res_def)

lemma bind_res_Inr_iff [res_iffs]: "bind_res m f = Inr y \<longleftrightarrow> (\<exists>x. m = Inr x \<and> f x = Inr y)"
  by (cases m) simp_all

lemma bind_res_cong [fundef_cong]:
  "m = m' \<Longrightarrow> (\<And>x. m' = Inr x \<Longrightarrow> f x = f' x) \<Longrightarrow> bind_res m f = bind_res m' f'"
  by (cases m') simp_all

text \<open>
  What calling a Python callable gives: it raises, returns a value, or returns an awaitable that
  raises or resolves to a value when it is awaited.
\<close>

datatype 'a call = Raised exn | Returned 'a | Awaitable "'a res"

fun is_await :: "'a call \<Rightarrow> bool" where
  "is_await (Awaitable _) = True"
| "is_await _ = False"

text \<open>The result of the call once it has been awaited where that is needed.\<close>

fun settle :: "'a call \<Rightarrow> 'a res" where
  "settle (Raised e) = Inl e"
| "settle (Returned x) = Inr x"
| "settle (Awaitable r) = r"

fun map_res :: "('a \<Rightarrow> 'b res) \<Rightarrow> 'a list \<Rightarrow> 'b list res" where
  "map_res f [] = Inr []"
| "map_res f (x # xs) = bind_res (f x) (\<lambda>y. bind_res (map_res f xs) (\<lambda>ys. Inr (y # ys)))"

lemma map_res_Inr: "(\<And>x. x \<in> set xs \<Longrightarrow> f x = Inr (g x)) \<Longrightarrow> map_res f xs = Inr (map g xs)"
  by (induction xs) simp_all

lemma map_res_cong [fundef_cong]:
  "xs = ys \<Longrightarrow> (\<And>x. x \<in> set ys \<Longrightarrow> f x = g x) \<Longrightarrow> map_res f xs = map_res g ys"
  by (induction xs arbitrary: ys) auto

section \<open>Lists\<close>

lemma map_nth_upt [simp]: "length xs = n \<Longrightarrow> map (\<lambda>i. xs ! i) [0..<n] = xs"
  by (metis map_nth)

lemma map_nth_upt_comp: "length xs = n \<Longrightarrow> map (\<lambda>i. f (xs ! i)) [0..<n] = map f xs"
  by (metis (no_types, lifting) list.map_comp comp_apply map_eq_conv map_nth)

lemma map_upt_const: "(\<And>i. i < n \<Longrightarrow> g i = c) \<Longrightarrow> map g [0..<n] = replicate n c"
  by (intro nth_equalityI) simp_all

lemma filter_eq_Nil_iff: "filter P xs = [] \<longleftrightarrow> (\<forall>x \<in> set xs. \<not> P x)"
  by (simp add: filter_empty_conv)

lemma distinct_snoc: "distinct (xs @ [x]) \<longleftrightarrow> distinct xs \<and> x \<notin> set xs"
  by auto

lemma set_take_mono: "i \<le> j \<Longrightarrow> set (take i xs) \<subseteq> set (take j xs)"
  by (simp add: set_take_subset_set_take)

section \<open>Association lists as insertion-ordered dicts\<close>

text \<open>
  A Python dict keeps the position of a key at its first insertion: \<open>d[k] = v\<close> overwrites in
  place, or appends when the key is new. The library's update of association lists does the same.
\<close>

fun dict_set :: "('k \<times> 'v) list \<Rightarrow> 'k \<Rightarrow> 'v \<Rightarrow> ('k \<times> 'v) list" where
  "dict_set [] k v = [(k, v)]"
| "dict_set ((k', v') # d) k v = (if k' = k then (k, v) # d else (k', v') # dict_set d k v)"

lemma map_of_dict_set [simp]: "map_of (dict_set d k v) = (map_of d)(k \<mapsto> v)"
  by (induction d) auto

lemma keys_dict_set [dict_simps]: "set (map fst (dict_set d k v)) = insert k (set (map fst d))"
  by (induction d k v rule: dict_set.induct) auto

lemma distinct_dict_set: "distinct (map fst d) \<Longrightarrow> distinct (map fst (dict_set d k v))"
proof (induction d)
  case (Cons kv d)
  then show ?case using keys_dict_set [of d k v] by (cases kv) auto
qed simp

lemma map_of_snoc_fresh:
  "b \<notin> fst ` set xs \<Longrightarrow> map_of (xs @ [(b, v)]) a = (if a = b then Some v else map_of xs a)"
  by (induction xs) auto

text \<open>\<open>d.update(e)\<close>.\<close>

definition dict_update :: "('k \<times> 'v) list \<Rightarrow> ('k \<times> 'v) list \<Rightarrow> ('k \<times> 'v) list" where
  "dict_update d e = foldl (\<lambda>m (k, v). dict_set m k v) d e"

lemma dict_update_simps [simp]:
  "dict_update d [] = d"
  "dict_update d ((k, v) # e) = dict_update (dict_set d k v) e"
  by (simp_all add: dict_update_def)

lemma map_of_dict_update [dict_simps]:
  "distinct (map fst e) \<Longrightarrow> map_of (dict_update d e) = map_of d ++ map_of e"
proof (induction e arbitrary: d)
  case (Cons kv e)
  obtain k v where kv: "kv = (k, v)" by (cases kv)
  with Cons.prems have "map_of e k = None" by (simp add: map_of_eq_None_iff)
  with Cons kv show ?case by (auto simp: fun_eq_iff map_add_def split: option.split)
qed simp

lemma keys_dict_update [dict_simps]: "fst ` set (dict_update d e) = fst ` set d \<union> fst ` set e"
proof (induction e arbitrary: d)
  case (Cons kv e)
  then show ?case using keys_dict_set [of d "fst kv" "snd kv"] by (cases kv) auto
qed simp

lemma dict_set_fresh: "k \<notin> set (map fst d) \<Longrightarrow> dict_set d k v = d @ [(k, v)]"
  by (induction d) auto

end
