(* ===== verification/Py_Values.thy ===== *)
theory Py_Values
  imports Prelude
begin

text \<open>
  The Python values that flow through step columns and request inputs, with the operations of the
  language the source uses on them: truthiness, equality, indexing and attribute access.

  An object (\<open>VObj\<close>) is a plain attribute object: its identity and its attributes. Attributes of
  built-in values (the methods of \<open>list\<close>, \<open>str\<close>, \<open>int\<close>) and floats are not modelled. A dict has
  string keys, in insertion order. \<open>VAwait v\<close> is an awaitable; awaiting it gives \<open>v\<close>, where
  \<open>VExc e\<close> stands for raising \<open>e\<close>.
\<close>

datatype pyval =
    VNone
  | VUndefined
  | VBool bool
  | VInt int
  | VStr string
  | VList "pyval list"
  | VTuple "pyval list"
  | VDict "(string \<times> pyval) list"
  | VObj nat "(string \<times> pyval) list"
  | VExc exn
  | VAwait pyval

fun is_exc :: "pyval \<Rightarrow> bool" where
  "is_exc (VExc _) = True"
| "is_exc _ = False"

fun is_awaitable :: "pyval \<Rightarrow> bool" where
  "is_awaitable (VAwait _) = True"
| "is_awaitable _ = False"

fun truthy :: "pyval \<Rightarrow> bool" where
  "truthy VNone = False"
| "truthy VUndefined = False"
| "truthy (VBool b) = b"
| "truthy (VInt n) = (n \<noteq> 0)"
| "truthy (VStr s) = (s \<noteq> [])"
| "truthy (VList xs) = (xs \<noteq> [])"
| "truthy (VTuple xs) = (xs \<noteq> [])"
| "truthy (VDict d) = (d \<noteq> [])"
| "truthy _ = True"

text \<open>The built-in \<open>type(v)\<close>, as a tag.\<close>

datatype py_type =
    TNone | TUndefined | TBool | TInt | TStr | TList | TTuple | TDict | TObj | TExc | TAwait

fun type_of :: "pyval \<Rightarrow> py_type" where
  "type_of VNone = TNone"
| "type_of VUndefined = TUndefined"
| "type_of (VBool _) = TBool"
| "type_of (VInt _) = TInt"
| "type_of (VStr _) = TStr"
| "type_of (VList _) = TList"
| "type_of (VTuple _) = TTuple"
| "type_of (VDict _) = TDict"
| "type_of (VObj _ _) = TObj"
| "type_of (VExc _) = TExc"
| "type_of (VAwait _) = TAwait"

text \<open>
  Python \<open>==\<close>. A bool is an int (\<open>True == 1\<close>); lists and tuples compare element by element and
  never with each other; dicts compare as sets of entries; objects compare by identity. Two
  exceptions, or two awaitables, are equal when they carry the same thing.
\<close>

fun py_eq :: "pyval \<Rightarrow> pyval \<Rightarrow> bool"
and py_eqs :: "pyval list \<Rightarrow> pyval list \<Rightarrow> bool"
and py_eq_entries :: "(string \<times> pyval) list \<Rightarrow> (string \<times> pyval) list \<Rightarrow> bool" where
  "py_eq VNone b = (b = VNone)"
| "py_eq VUndefined b = (b = VUndefined)"
| "py_eq (VBool a) b =
     (case b of VBool c \<Rightarrow> a = c | VInt n \<Rightarrow> (if a then 1 else 0) = n | _ \<Rightarrow> False)"
| "py_eq (VInt m) b =
     (case b of VInt n \<Rightarrow> m = n | VBool c \<Rightarrow> m = (if c then 1 else 0) | _ \<Rightarrow> False)"
| "py_eq (VStr s) b = (b = VStr s)"
| "py_eq (VList xs) b = (case b of VList ys \<Rightarrow> py_eqs xs ys | _ \<Rightarrow> False)"
| "py_eq (VTuple xs) b = (case b of VTuple ys \<Rightarrow> py_eqs xs ys | _ \<Rightarrow> False)"
| "py_eq (VDict d) b =
     (case b of VDict e \<Rightarrow> length d = length e \<and> py_eq_entries d e | _ \<Rightarrow> False)"
| "py_eq (VObj i as) b = (case b of VObj j bs \<Rightarrow> i = j | _ \<Rightarrow> False)"
| "py_eq (VExc e) b = (b = VExc e)"
| "py_eq (VAwait v) b = (b = VAwait v)"
| "py_eqs [] ys = (ys = [])"
| "py_eqs (x # xs) ys = (case ys of [] \<Rightarrow> False | y # ys' \<Rightarrow> py_eq x y \<and> py_eqs xs ys')"
| "py_eq_entries [] e = True"
| "py_eq_entries (kv # d) e =
     ((case map_of e (fst kv) of None \<Rightarrow> False | Some w \<Rightarrow> py_eq (snd kv) w)
      \<and> py_eq_entries d e)"

text \<open>The well-formed values: every dict inside has each key once, as a Python dict does.\<close>

fun py_wf :: "pyval \<Rightarrow> bool" where
  "py_wf (VList xs) = (\<forall>x \<in> set xs. py_wf x)"
| "py_wf (VTuple xs) = (\<forall>x \<in> set xs. py_wf x)"
| "py_wf (VDict d) = (distinct (map fst d) \<and> (\<forall>kv \<in> set d. py_wf (snd kv)))"
| "py_wf (VAwait v) = py_wf v"
| "py_wf _ = True"

lemma py_eqs_refl: "(\<And>x. x \<in> set xs \<Longrightarrow> py_eq x x) \<Longrightarrow> py_eqs xs xs"
  by (induction xs) auto

lemma py_eq_entries_refl:
  assumes "distinct (map fst e)" and "\<And>kv. kv \<in> set e \<Longrightarrow> py_eq (snd kv) (snd kv)"
    and "set d \<subseteq> set e"
  shows "py_eq_entries d e"
  using assms(3)
proof (induction d)
  case (Cons kv d)
  obtain k v where kv: "kv = (k, v)" by (cases kv)
  with Cons.prems have "(k, v) \<in> set e" by simp
  with assms(1) assms(2) [of "(k, v)"] have "map_of e k = Some v" and "py_eq v v" by simp_all
  with kv Cons show ?case by simp
qed simp

lemma py_eq_refl: "py_wf v \<Longrightarrow> py_eq v v"
proof (induction v rule: py_wf.induct)
  case (3 d)
  then have "py_eq_entries d d" by (intro py_eq_entries_refl) auto
  then show ?case by simp
qed (auto intro: py_eqs_refl)

text \<open>Equality is symmetric and transitive on well-formed values.\<close>

lemma py_eqs_iff: "py_eqs xs ys \<longleftrightarrow> list_all2 py_eq xs ys"
proof (induction xs arbitrary: ys)
  case (Cons x xs)
  then show ?case by (cases ys) simp_all
qed simp

lemma py_eq_entries_iff:
  "py_eq_entries d e \<longleftrightarrow> (\<forall>kv \<in> set d. \<exists>w. map_of e (fst kv) = Some w \<and> py_eq (snd kv) w)"
  by (induction d) (auto split: option.split)

lemma dict_eq_sym:
  assumes d: "distinct (map fst d)" and e: "distinct (map fst e)" and len: "length d = length e"
    and le: "\<forall>kv \<in> set d. \<exists>w. map_of e (fst kv) = Some w \<and> P (snd kv) w"
    and sym: "\<And>k v w. (k, v) \<in> set d \<Longrightarrow> (k, w) \<in> set e \<Longrightarrow> P v w \<Longrightarrow> Q w v"
  shows "\<forall>kv \<in> set e. \<exists>v. map_of d (fst kv) = Some v \<and> Q (snd kv) v"
proof
  fix kv
  assume kv: "kv \<in> set e"
  have "fst ` set d \<subseteq> fst ` set e" using le by (force dest: map_of_SomeD)
  moreover have "card (fst ` set d) = card (fst ` set e)"
    using distinct_card [OF d] distinct_card [OF e] len by simp
  ultimately have "fst ` set d = fst ` set e" by (intro card_subset_eq) simp_all
  with kv obtain v where v: "(fst kv, v) \<in> set d" by force
  with le obtain w where w: "map_of e (fst kv) = Some w" "P v w" by force
  moreover have "map_of e (fst kv) = Some (snd kv)" using kv e by simp
  ultimately have "Q (snd kv) v" using sym v by (metis map_of_SomeD option.inject)
  with v d show "\<exists>v. map_of d (fst kv) = Some v \<and> Q (snd kv) v" by auto
qed

lemma py_eq_sym: "py_wf a \<Longrightarrow> py_wf b \<Longrightarrow> py_eq a b \<Longrightarrow> py_eq b a"
proof (induction a arbitrary: b)
  case (VList xs)
  then obtain ys where b: "b = VList ys" by (cases b) auto
  with VList show ?case by (auto simp: py_eqs_iff list_all2_conv_all_nth)
next
  case (VTuple xs)
  then obtain ys where b: "b = VTuple ys" by (cases b) auto
  with VTuple show ?case by (auto simp: py_eqs_iff list_all2_conv_all_nth)
next
  case (VDict d)
  then obtain e where b: "b = VDict e" by (cases b) auto
  have "\<forall>kv \<in> set e. \<exists>v. map_of d (fst kv) = Some v \<and> py_eq (snd kv) v"
  proof (rule dict_eq_sym [of d e py_eq])
    show "py_eq w v" if "(k, v) \<in> set d" "(k, w) \<in> set e" "py_eq v w" for k v w
      using VDict.IH [of "(k, v)" v w] VDict.prems(1,2) that b by force
  qed (use VDict.prems b in \<open>auto simp: py_eq_entries_iff\<close>)
  with VDict.prems(3) b show ?case by (auto simp: py_eq_entries_iff)
qed (auto split: pyval.splits)

lemma py_eq_trans: "py_eq a b \<Longrightarrow> py_eq b c \<Longrightarrow> py_eq a c"
proof (induction a arbitrary: b c)
  case (VList xs)
  then obtain ys where b: "b = VList ys" by (cases b) auto
  with VList.prems(2) obtain zs where c: "c = VList zs" by (cases c) auto
  have "py_eq (xs ! i) (zs ! i)" if "i < length xs" for i
    using VList.IH [of "xs ! i" "ys ! i" "zs ! i"] VList.prems b c that
    by (auto simp: py_eqs_iff list_all2_conv_all_nth)
  with VList.prems b c show ?case by (auto simp: py_eqs_iff list_all2_conv_all_nth)
next
  case (VTuple xs)
  then obtain ys where b: "b = VTuple ys" by (cases b) auto
  with VTuple.prems(2) obtain zs where c: "c = VTuple zs" by (cases c) auto
  have "py_eq (xs ! i) (zs ! i)" if "i < length xs" for i
    using VTuple.IH [of "xs ! i" "ys ! i" "zs ! i"] VTuple.prems b c that
    by (auto simp: py_eqs_iff list_all2_conv_all_nth)
  with VTuple.prems b c show ?case by (auto simp: py_eqs_iff list_all2_conv_all_nth)
next
  case (VDict d)
  then obtain e where b: "b = VDict e" by (cases b) auto
  with VDict.prems(2) obtain f where c: "c = VDict f" by (cases c) auto
  have "\<exists>u. map_of f (fst kv) = Some u \<and> py_eq (snd kv) u" if kv: "kv \<in> set d" for kv
  proof -
    obtain w where w: "map_of e (fst kv) = Some w" "py_eq (snd kv) w"
      using VDict.prems(1) b kv by (auto simp: py_eq_entries_iff)
    then obtain u where "map_of f (fst kv) = Some u" "py_eq w u"
      using VDict.prems(2) b c by (force simp: py_eq_entries_iff dest: map_of_SomeD)
    with VDict.IH [of kv "snd kv" w u] kv w show ?thesis by (cases kv) auto
  qed
  with VDict.prems b c show ?case by (simp add: py_eq_entries_iff)
qed (auto split: pyval.splits if_splits)

section \<open>Indexing and attribute access\<close>

text \<open>A path segment: a string key or attribute name, or an integer index.\<close>

datatype seg = SKey string | SIdx int

text \<open>\<open>xs[i]\<close> on a Python sequence: negative indices count from the end.\<close>

definition seq_index :: "'a list \<Rightarrow> int \<Rightarrow> 'a res" where
  "seq_index xs i =
     (if int (length xs) \<le> i \<or> i < - int (length xs)
      then Inl (IndexError ''sequence index out of range'')
      else if 0 \<le> i then Inr (xs ! nat i)
      else Inr (xs ! (length xs - nat (- i))))"

text \<open>\<open>value[segment]\<close>: a mapping by key, a sequence by index, a TypeError elsewhere.\<close>

fun getitem :: "pyval \<Rightarrow> seg \<Rightarrow> pyval res" where
  "getitem (VDict d) (SKey k) =
     (case map_of d k of None \<Rightarrow> Inl (KeyError k) | Some v \<Rightarrow> Inr v)"
| "getitem (VDict d) (SIdx i) = Inl (KeyError ''int key'')"
| "getitem (VList xs) (SIdx i) = seq_index xs i"
| "getitem (VTuple xs) (SIdx i) = seq_index xs i"
| "getitem (VStr s) (SIdx i) = bind_res (seq_index s i) (\<lambda>c. Inr (VStr [c]))"
| "getitem _ _ = Inl (TypeError ''not subscriptable'')"

text \<open>\<open>getattr(value, segment)\<close>; an integer segment is a TypeError.\<close>

fun getattr :: "pyval \<Rightarrow> seg \<Rightarrow> pyval res" where
  "getattr (VObj _ attrs) (SKey k) =
     (case map_of attrs k of None \<Rightarrow> Inl (AttributeError k) | Some v \<Rightarrow> Inr v)"
| "getattr _ (SKey k) = Inl (AttributeError k)"
| "getattr _ (SIdx i) = Inl (TypeError ''attribute name must be string'')"

lemma seq_index_in_range:
  "0 \<le> i \<Longrightarrow> i < int (length xs) \<Longrightarrow> seq_index xs i = Inr (xs ! nat i)"
  by (simp add: seq_index_def)

lemma seq_index_last: "xs \<noteq> [] \<Longrightarrow> seq_index xs (-1) = Inr (last xs)"
  by (simp add: seq_index_def last_conv_nth)

end
