(* ===== verification/Constraints.thy ===== *)
theory Constraints
  imports Py_Values "HOL-Library.List_Lexorder" "HOL-Library.Char_ord"
begin

text \<open>
  Request-input constraints (\<open>src/src/grafast_py/constraints.py\<close>): the constraint records, their
  replay against a request (\<open>value_at\<close>, \<open>values_equal\<close>, \<open>matches\<close>, \<open>constraints_match\<close>), the
  plan-time context gate and the tracked variables. A path of the model is a list of keys; the
  sentinel \<open>ABSENT\<close> is \<open>None\<close>. A plan resolver, which is host code, is an interaction tree whose
  nodes are the reads the gate and the tracked variables offer.
\<close>

section \<open>Facts and constraints\<close>

record facts =
  variable_values :: "(string \<times> pyval) list"
  context_value :: pyval

definition scope_value :: "facts \<Rightarrow> string \<Rightarrow> pyval res" where
  "scope_value f scope =
     (if scope = ''variables'' then Inr (VDict (variable_values f))
      else if scope = ''context'' then Inr (context_value f)
      else Inl (ValueError (''unknown constraint scope '' @ scope)))"

fun value_at :: "pyval \<Rightarrow> string list \<Rightarrow> pyval option" where
  "value_at v [] = Some v"
| "value_at v (k # ks) =
     (case v of
        VDict d \<Rightarrow> (case map_of d k of None \<Rightarrow> None | Some w \<Rightarrow> value_at w ks)
      | VNone \<Rightarrow> None
      | VObj i attrs \<Rightarrow> (case map_of attrs k of None \<Rightarrow> None | Some w \<Rightarrow> value_at w ks)
      | _ \<Rightarrow> None)"

definition values_equal :: "pyval option \<Rightarrow> pyval option \<Rightarrow> bool" where
  "values_equal a b =
     (case (a, b) of
        (Some v, Some w) \<Rightarrow> (if type_of v \<noteq> type_of w then False else py_eq v w)
      | (None, None) \<Rightarrow> True
      | _ \<Rightarrow> False)"

text \<open>
  The four constraint records, and a customizer's constraint (\<open>pg/customize.py\<close>), whose \<open>matches\<close>
  re-invokes host code and ignores the facts: the customizer is named by a number, and what its
  invocation gives under the requesting request (the value-agnostic keys of its predicates, or an
  exception) is the parameter \<open>cust\<close>.
\<close>

datatype request_constraint =
    ValueC string "string list" "pyval option"
  | EqualityC string "string list" pyval bool
  | ExistsC string "string list" bool
  | KeysC string "string list" "string list"
  | CustomizerC nat "string list"

type_synonym customizers = "nat \<Rightarrow> string list res"

fun c_matches :: "customizers \<Rightarrow> request_constraint \<Rightarrow> facts \<Rightarrow> bool res" where
  "c_matches cust (ValueC scope path v) f =
     bind_res (scope_value f scope) (\<lambda>s. Inr (values_equal (value_at s path) v))"
| "c_matches cust (EqualityC scope path expected passed) f =
     bind_res (scope_value f scope)
       (\<lambda>s. Inr (values_equal (value_at s path) (Some expected) = passed))"
| "c_matches cust (ExistsC scope path exs) f =
     bind_res (scope_value f scope) (\<lambda>s. Inr ((value_at s path \<noteq> None) = exs))"
| "c_matches cust (KeysC scope path keys) f =
     bind_res (scope_value f scope)
       (\<lambda>s. Inr (case value_at s path of
                    Some (VDict d) \<Rightarrow> sort (map fst d) = keys
                  | _ \<Rightarrow> False))"
| "c_matches cust (CustomizerC n keys) f = bind_res (cust n) (\<lambda>fresh. Inr (fresh = keys))"

fun constraints_match :: "customizers \<Rightarrow> request_constraint list \<Rightarrow> facts \<Rightarrow> bool res" where
  "constraints_match cust [] f = Inr True"
| "constraints_match cust (c # cs) f =
     bind_res (c_matches cust c f) (\<lambda>ok. if ok then constraints_match cust cs f else Inr False)"

lemma constraints_match_append:
  "constraints_match cust (cs @ ds) f = Inr True \<longleftrightarrow>
     constraints_match cust cs f = Inr True \<and> constraints_match cust ds f = Inr True"
  by (induction cs) (auto simp: bind_res_def split: sum.splits)

lemma constraints_match_iff:
  "constraints_match cust cs f = Inr True \<longleftrightarrow> (\<forall>c \<in> set cs. c_matches cust c f = Inr True)"
  by (induction cs) (auto simp: bind_res_def split: sum.splits)

lemma values_equal_refl: "(\<And>v. a = Some v \<Longrightarrow> py_wf v) \<Longrightarrow> values_equal a a"
  by (cases a) (auto simp: values_equal_def intro: py_eq_refl)

lemma values_equal_None [simp]:
  "values_equal None b \<longleftrightarrow> b = None" "values_equal a None \<longleftrightarrow> a = None"
  by (cases b; simp add: values_equal_def) (cases a; simp add: values_equal_def)

text \<open>The values on which \<open>values_equal\<close> is exact: everything but containers and objects.\<close>

fun scalar :: "pyval \<Rightarrow> bool" where
  "scalar (VList _) = False"
| "scalar (VTuple _) = False"
| "scalar (VDict _) = False"
| "scalar (VObj _ _) = False"
| "scalar _ = True"

lemma values_equal_scalar:
  "scalar v \<Longrightarrow> values_equal (Some v) (Some w) \<longleftrightarrow> v = w"
  by (cases v; cases w) (auto simp: values_equal_def)

section \<open>The context gate\<close>

text \<open>
  \<open>_read\<close>: a mapping by key, anything else by attribute; a missing key raises. Every operation
  that records takes the sink and returns it extended.
\<close>

definition gate_read :: "pyval \<Rightarrow> string \<Rightarrow> pyval res" where
  "gate_read ctx key =
     (case ctx of
        VDict d \<Rightarrow> (case map_of d key of None \<Rightarrow> Inl (KeyError key) | Some v \<Rightarrow> Inr v)
      | _ \<Rightarrow> getattr ctx (SKey key))"

text \<open>A bare read gives a value-less token (its source tag) and records nothing.\<close>

definition gate_getitem :: "seg \<Rightarrow> string res" where
  "gate_getitem key =
     (case key of
        SKey k \<Rightarrow> Inr (''ctx:'' @ k)
      | SIdx i \<Rightarrow> Inl (TypeError ''the plan-time context gate is not iterable/indexable''))"

definition gate_get :: "string \<Rightarrow> pyval option \<Rightarrow> string res" where
  "gate_get key dflt =
     (case dflt of
        Some _ \<Rightarrow> Inl (TypeError ''a plan-time context token has no default'')
      | None \<Rightarrow> Inr (''ctx:'' @ key))"

definition gate_contains :: "string \<Rightarrow> bool res" where
  "gate_contains key = Inl (TypeError ''a plan-time membership check is a planning decision'')"

definition token_bool :: "string \<Rightarrow> bool res" where
  "token_bool source = Inl (TypeError ''a plan-time context read is a value-less token'')"

definition gate_eval ::
  "pyval \<Rightarrow> request_constraint list \<Rightarrow> string \<Rightarrow> pyval res \<times> request_constraint list" where
  "gate_eval ctx sink key =
     (case gate_read ctx key of
        Inl e \<Rightarrow> (Inl e, sink)
      | Inr v \<Rightarrow> (Inr v, sink @ [ValueC ''context'' [key] (Some v)]))"

definition gate_eval_is ::
  "pyval \<Rightarrow> request_constraint list \<Rightarrow> string \<Rightarrow> pyval \<Rightarrow> bool res \<times> request_constraint list" where
  "gate_eval_is ctx sink key expected =
     (case gate_read ctx key of
        Inl e \<Rightarrow> (Inl e, sink)
      | Inr v \<Rightarrow>
          (let passed = values_equal (Some v) (Some expected)
           in (Inr passed,
               sink @ [ExistsC ''context'' [key] True,
                       EqualityC ''context'' [key] expected passed])))"

definition gate_has :: "pyval \<Rightarrow> string \<Rightarrow> bool" where
  "gate_has ctx key =
     (case ctx of
        VDict d \<Rightarrow> map_of d key \<noteq> None
      | _ \<Rightarrow> (case getattr ctx (SKey key) of Inl _ \<Rightarrow> False | Inr _ \<Rightarrow> True))"

definition gate_eval_has ::
  "pyval \<Rightarrow> request_constraint list \<Rightarrow> string \<Rightarrow> bool \<times> request_constraint list" where
  "gate_eval_has ctx sink key =
     (let exs = gate_has ctx key in (exs, sink @ [ExistsC ''context'' [key] exs]))"

section \<open>Tracked variables\<close>

definition tracked_getitem ::
  "(string \<times> pyval) list \<Rightarrow> request_constraint list \<Rightarrow> string
   \<Rightarrow> pyval res \<times> request_constraint list" where
  "tracked_getitem vars sink name =
     (case map_of vars name of
        None \<Rightarrow> (Inl (KeyError name), sink)
      | Some v \<Rightarrow> (Inr v, sink @ [ValueC ''variables'' [name] (Some v)]))"

definition tracked_get ::
  "(string \<times> pyval) list \<Rightarrow> request_constraint list \<Rightarrow> string \<Rightarrow> pyval
   \<Rightarrow> pyval \<times> request_constraint list" where
  "tracked_get vars sink name dflt =
     (let v = map_of vars name
      in (case v of None \<Rightarrow> dflt | Some w \<Rightarrow> w, sink @ [ValueC ''variables'' [name] v]))"

definition tracked_contains ::
  "(string \<times> pyval) list \<Rightarrow> request_constraint list \<Rightarrow> string \<Rightarrow> bool \<times> request_constraint list" where
  "tracked_contains vars sink name =
     (let exs = map_of vars name \<noteq> None in (exs, sink @ [ExistsC ''variables'' [name] exs]))"

definition note_keys ::
  "(string \<times> pyval) list \<Rightarrow> request_constraint list \<Rightarrow> request_constraint list" where
  "note_keys vars sink = sink @ [KeysC ''variables'' [] (sort (map fst vars))]"

definition tracked_iter ::
  "(string \<times> pyval) list \<Rightarrow> request_constraint list \<Rightarrow> string list \<times> request_constraint list" where
  "tracked_iter vars sink = (map fst vars, note_keys vars sink)"

definition tracked_len ::
  "(string \<times> pyval) list \<Rightarrow> request_constraint list \<Rightarrow> nat \<times> request_constraint list" where
  "tracked_len vars sink = (length vars, note_keys vars sink)"

section \<open>Reads of one operation replay\<close>

text \<open>
  For each read: when the constraint it records holds for a request, the same read on that request
  gives an equal answer; and the recording request itself satisfies the constraint.
\<close>

lemma gate_read_value_at:
  "gate_read ctx key = Inr v \<longleftrightarrow> value_at ctx [key] = Some v"
  by (cases ctx) (auto simp: gate_read_def split: option.splits)

lemma gate_has_value_at: "gate_has ctx key \<longleftrightarrow> value_at ctx [key] \<noteq> None"
  by (cases ctx) (auto simp: gate_has_def split: option.splits)

lemma scope_context [simp]: "scope_value f ''context'' = Inr (context_value f)"
  by (simp add: scope_value_def)

lemma scope_variables [simp]: "scope_value f ''variables'' = Inr (VDict (variable_values f))"
  by (simp add: scope_value_def)

lemma values_equal_SomeE:
  assumes "values_equal a (Some v)"
  obtains w where "a = Some w" and "values_equal (Some w) (Some v)"
  using assms by (cases a) auto

section \<open>Plan resolvers as trees of reads\<close>

text \<open>
  The reads a plan resolver can make, through the gate (\<open>info.context\<close>), the tracked variables
  (\<open>info.variable_values\<close>) and the customizers its steps resolve, and the answers they give. The
  predicates of a customizer whose plan is cached bind placeholders only, so that the plan depends
  on their keys.
\<close>

datatype read =
    Read_Token string
  | Eval string
  | Eval_Is string pyval
  | Eval_Has string
  | Var_Item string
  | Var_Get string pyval
  | Var_Has string
  | Var_Keys
  | Customize nat

datatype answer =
    A_Source string | A_Value pyval | A_Bool bool | A_Keys "string list" | A_Shape "string list"

fun do_read ::
  "customizers \<Rightarrow> read \<Rightarrow> facts \<Rightarrow> request_constraint list
   \<Rightarrow> answer res \<times> request_constraint list" where
  "do_read cust (Read_Token key) f sink =
     (bind_res (gate_getitem (SKey key)) (Inr \<circ> A_Source), sink)"
| "do_read cust (Eval key) f sink =
     apfst (\<lambda>r. bind_res r (Inr \<circ> A_Value)) (gate_eval (context_value f) sink key)"
| "do_read cust (Eval_Is key expected) f sink =
     apfst (\<lambda>r. bind_res r (Inr \<circ> A_Bool)) (gate_eval_is (context_value f) sink key expected)"
| "do_read cust (Eval_Has key) f sink =
     apfst (Inr \<circ> A_Bool) (gate_eval_has (context_value f) sink key)"
| "do_read cust (Var_Item name) f sink =
     apfst (\<lambda>r. bind_res r (Inr \<circ> A_Value)) (tracked_getitem (variable_values f) sink name)"
| "do_read cust (Var_Get name dflt) f sink =
     apfst (Inr \<circ> A_Value) (tracked_get (variable_values f) sink name dflt)"
| "do_read cust (Var_Has name) f sink =
     apfst (Inr \<circ> A_Bool) (tracked_contains (variable_values f) sink name)"
| "do_read cust Var_Keys f sink = apfst (Inr \<circ> A_Keys) (tracked_iter (variable_values f) sink)"
| "do_read cust (Customize n) f sink =
     (case cust n of
        Inl e \<Rightarrow> (Inl e, sink)
      | Inr ks \<Rightarrow> (Inr (A_Shape ks), sink @ [CustomizerC n ks]))"

text \<open>
  A plan resolver is host code: a tree of reads whose subtrees are what it does with each answer. A
  read that raises ends it (it does not catch the exception).
\<close>

datatype 'p resolver = Plan_Out 'p | Read read "answer \<Rightarrow> 'p resolver"

primrec run_resolver ::
  "'p resolver \<Rightarrow> customizers \<Rightarrow> facts \<Rightarrow> request_constraint list
   \<Rightarrow> 'p res \<times> request_constraint list" where
  "run_resolver (Plan_Out p) cust f sink = (Inr p, sink)"
| "run_resolver (Read r k) cust f sink =
     (case do_read cust r f sink of
        (Inl e, sink') \<Rightarrow> (Inl e, sink')
      | (Inr a, sink') \<Rightarrow> run_resolver (k a) cust f sink')"

text \<open>
  Answers the constraints do not tell apart: values up to \<open>values_equal\<close>, and the variables in any
  order (they come in the operation's declaration order, the same for every request of one
  document). A resolver is respectful when it does the same on such answers.
\<close>

fun same_answer :: "answer \<Rightarrow> answer \<Rightarrow> bool" where
  "same_answer (A_Source s) b = (b = A_Source s)"
| "same_answer (A_Value v) b =
     (case b of A_Value w \<Rightarrow> v = w \<or> values_equal (Some v) (Some w) | _ \<Rightarrow> False)"
| "same_answer (A_Bool x) b = (b = A_Bool x)"
| "same_answer (A_Shape ks) b = (b = A_Shape ks)"
| "same_answer (A_Keys ks) b = (case b of A_Keys ks' \<Rightarrow> sort ks = sort ks' | _ \<Rightarrow> False)"

primrec respectful :: "'p resolver \<Rightarrow> bool" where
  "respectful (Plan_Out p) = True"
| "respectful (Read r k) =
     ((\<forall>a. respectful (k a)) \<and> (\<forall>a b. same_answer a b \<longrightarrow> k a = k b))"

text \<open>What one read appends to the sink, and that its replay gives the same answer.\<close>

lemmas read_defs = gate_eval_def gate_eval_is_def gate_eval_has_def gate_getitem_def
  tracked_getitem_def tracked_get_def tracked_contains_def tracked_iter_def note_keys_def Let_def

lemma do_read_appends: "\<exists>cs. \<forall>sink. do_read cust r f sink = (fst (do_read cust r f []), sink @ cs)"
  by (cases r) (auto simp: read_defs split: sum.split option.split)

lemma do_read_replay:
  assumes "do_read cu r f [] = (Inr a, cs)" and "\<forall>c \<in> set cs. c_matches cust c g = Inr True"
  shows "\<exists>b. fst (do_read cust r g []) = Inr b \<and> same_answer b a"
proof (cases r)
  case (Eval key)
  with assms obtain v where v: "a = A_Value v" "cs = [ValueC ''context'' [key] (Some v)]"
    by (auto simp: read_defs split: sum.splits)
  with assms(2) have "values_equal (value_at (context_value g) [key]) (Some v)" by simp
  then obtain w where "gate_read (context_value g) key = Inr w"
    "values_equal (Some w) (Some v)" by (metis values_equal_SomeE gate_read_value_at)
  with Eval v show ?thesis by (auto simp: read_defs)
next
  case (Eval_Is key expected)
  with assms obtain v where v: "a = A_Bool (values_equal (Some v) (Some expected))"
    "cs = [ExistsC ''context'' [key] True,
           EqualityC ''context'' [key] expected (values_equal (Some v) (Some expected))]"
    by (auto simp: read_defs split: sum.splits)
  with assms(2) obtain w where w: "value_at (context_value g) [key] = Some w"
    "values_equal (Some w) (Some expected) = values_equal (Some v) (Some expected)" by auto
  then have "gate_read (context_value g) key = Inr w" by (simp only: gate_read_value_at)
  with Eval_Is v w(2) show ?thesis by (auto simp: read_defs)
next
  case (Var_Item name)
  with assms obtain v where v: "a = A_Value v" "cs = [ValueC ''variables'' [name] (Some v)]"
    by (auto simp: read_defs split: option.splits)
  with assms(2) have "values_equal (map_of (variable_values g) name) (Some v)"
    by (auto split: option.splits)
  then obtain w where "map_of (variable_values g) name = Some w"
    "values_equal (Some w) (Some v)" by (rule values_equal_SomeE)
  with Var_Item v show ?thesis by (auto simp: read_defs)
next
  case (Var_Get name dflt)
  with assms have "values_equal (map_of (variable_values g) name) (map_of (variable_values f) name)"
    by (auto simp: read_defs split: option.splits)
  with Var_Get assms(1) show ?thesis
    by (cases "map_of (variable_values f) name"; cases "map_of (variable_values g) name")
      (auto simp: read_defs)
qed (use assms in \<open>auto simp: read_defs gate_has_value_at bind_res_def
    split: option.splits sum.splits\<close>)

lemma run_resolver_appends:
  "\<exists>cs. \<forall>sink. run_resolver s cust f sink = (fst (run_resolver s cust f []), sink @ cs)"
proof (induction s)
  case (Read r k)
  obtain cs where cs: "\<forall>sink. do_read cust r f sink = (fst (do_read cust r f []), sink @ cs)"
    using do_read_appends by blast
  show ?case
  proof (cases "fst (do_read cust r f [])")
    case (Inl e)
    with cs show ?thesis by (auto intro!: exI [of _ cs] split: prod.splits)
  next
    case (Inr a)
    from Read.IH [of "k a"] obtain ds where
      ds: "\<And>sink. run_resolver (k a) cust f sink = (fst (run_resolver (k a) cust f []), sink @ ds)" by auto
    have "run_resolver (Read r k) cust f sink = (fst (run_resolver (k a) cust f []), sink @ (cs @ ds))" for sink
      using cs [rule_format, of sink] Inr ds [of "sink @ cs"] by simp
    then show ?thesis by (metis fst_conv)
  qed
qed simp

lemma run_resolver_ReadE:
  assumes "run_resolver (Read r k) cust f [] = (Inr p, cs)"
  obtains a c1 c2 where "do_read cust r f [] = (Inr a, c1)" and "cs = c1 @ c2"
    and "run_resolver (k a) cust f [] = (Inr p, c2)"
proof -
  obtain x c1 where r: "do_read cust r f [] = (x, c1)" by fastforce
  with assms obtain a where a: "x = Inr a" by (cases x) auto
  obtain c2 where c2: "\<forall>sink. run_resolver (k a) cust f sink = (fst (run_resolver (k a) cust f []), sink @ c2)"
    using run_resolver_appends by blast
  have "run_resolver (k a) cust f c1 = (Inr p, cs)" using assms r a by simp
  with c2 [rule_format, of c1] c2 [rule_format, of "[]"]
  have "cs = c1 @ c2" "run_resolver (k a) cust f [] = (Inr p, c2)" by (metis Pair_inject append_Nil)+
  with r a that show thesis by blast
qed

text \<open>
  The replay lemma: a resolver that built a plan for one request builds the same plan for every
  request its recorded constraints accept.
\<close>

lemma resolver_replay:
  assumes "run_resolver s cu f [] = (Inr p, cs)" and "respectful s"
    and "\<forall>c \<in> set cs. c_matches cust c g = Inr True"
  shows "fst (run_resolver s cust g []) = Inr p"
  using assms
proof (induction s arbitrary: cs)
  case (Read r k)
  obtain a c1 c2 where r: "do_read cu r f [] = (Inr a, c1)" and cs: "cs = c1 @ c2"
    and k: "run_resolver (k a) cu f [] = (Inr p, c2)"
    by (rule run_resolver_ReadE [OF Read.prems(1)])
  from cs Read.prems(3) have "\<forall>c \<in> set c1. c_matches cust c g = Inr True" by auto
  with r obtain b where b: "fst (do_read cust r g []) = Inr b" and "same_answer b a"
    using do_read_replay by blast
  with Read.prems(2) have kb: "k b = k a" by simp
  have "fst (run_resolver (k a) cust g []) = Inr p"
    using Read.IH [of "k a" c2] k cs Read.prems(2,3) by simp
  moreover have "fst (run_resolver (Read r k) cust g []) = fst (run_resolver (k b) cust g [])"
  proof -
    obtain d where d: "do_read cust r g [] = (Inr b, d)" using b by (cases "do_read cust r g []") simp
    obtain e where "\<forall>sink. run_resolver (k b) cust g sink = (fst (run_resolver (k b) cust g []), sink @ e)"
      using run_resolver_appends by blast
    then have "fst (run_resolver (k b) cust g d) = fst (run_resolver (k b) cust g [])" by (metis fst_conv)
    with d show ?thesis by simp
  qed
  ultimately show ?case using kb by simp
qed simp

text \<open>The recording request itself satisfies what it recorded.\<close>

definition facts_wf :: "facts \<Rightarrow> bool" where
  "facts_wf f \<longleftrightarrow> py_wf (VDict (variable_values f))
     \<and> py_wf (context_value f) \<and> (\<forall>k v. value_at (context_value f) [k] = Some v \<longrightarrow> py_wf v)"

lemma facts_wf_var: "facts_wf f \<Longrightarrow> map_of (variable_values f) k = Some v \<Longrightarrow> py_wf v"
  by (auto simp: facts_wf_def dest: map_of_SomeD)

lemma do_read_self:
  assumes "facts_wf f" and "c \<in> set (snd (do_read cust r f []))"
  shows "c_matches cust c f = Inr True"
proof -
  have var: "values_equal (map_of (variable_values f) k) (map_of (variable_values f) k)" for k
    using assms(1) by (intro values_equal_refl) (auto dest: facts_wf_var)
  have ctx: "values_equal (Some v) (Some v)" if "gate_read (context_value f) k = Inr v" for k v
    using assms(1) that unfolding gate_read_value_at
    by (intro values_equal_refl) (auto simp: facts_wf_def)
  show ?thesis
  proof (cases r)
    case (Eval key)
    with assms(2) obtain v where "gate_read (context_value f) key = Inr v"
      "c = ValueC ''context'' [key] (Some v)" by (auto simp: read_defs split: sum.splits)
    then show ?thesis
      using ctx by (simp del: value_at.simps add: gate_read_value_at)
  next
    case (Eval_Is key expected)
    with assms(2) obtain v where "gate_read (context_value f) key = Inr v"
      "c = ExistsC ''context'' [key] True
        \<or> c = EqualityC ''context'' [key] expected (values_equal (Some v) (Some expected))"
      by (auto simp: read_defs split: sum.splits)
    then show ?thesis by (auto simp del: value_at.simps simp: gate_read_value_at)
  next
    case (Eval_Has key)
    with assms(2) show ?thesis
      by (auto simp del: value_at.simps simp: read_defs gate_has_value_at)
  next
    case (Var_Item name)
    with assms(2) var [of name] show ?thesis
      by (auto simp: read_defs split: option.splits)
  next
    case (Var_Get name dflt)
    with assms(2) var [of name] show ?thesis
      by (auto simp: read_defs split: option.splits)
  qed (use assms(2) in \<open>auto simp: read_defs split: option.splits sum.splits\<close>)
qed

lemma resolver_self:
  assumes "facts_wf f" and "run_resolver s cust f [] = (Inr p, cs)" and "c \<in> set cs"
  shows "c_matches cust c f = Inr True"
  using assms(2,3)
proof (induction s arbitrary: cs)
  case (Read r k)
  obtain a c1 c2 where "do_read cust r f [] = (Inr a, c1)" and "cs = c1 @ c2"
    and "run_resolver (k a) cust f [] = (Inr p, c2)"
    by (rule run_resolver_ReadE [OF Read.prems(1)])
  with Read.IH [of "k a" c2] Read.prems(2) do_read_self [OF assms(1), of c cust r] show ?case by auto
qed simp

end
