(* ===== verification/Dag_Order.thy ===== *)
theory Dag_Order
  imports Constraints
begin

text \<open>
  Step objects in memory and the two orderings of \<open>dag.py\<close>. A step object is mutable and is
  referenced by identity: the heap is the list of the step objects, a reference is an index into
  it. \<open>sid\<close> is the plan id (-1 until the planner assigns one); \<open>deps\<close> are references. The
  attributes a class or instance carries (\<open>type\<close>, \<open>peer_key\<close>, \<open>dedup_params()\<close>, the flags) are
  fields of the object.
\<close>

type_synonym ref = nat

record step_obj =
  sid :: int
  deps :: "ref list"
  sclass :: string
  peer_key :: string
  dedup_params :: "pyval list"
  dedupable :: bool
  hoistable :: bool
  wants_extra :: bool
  unary :: bool
  sync_safe :: bool

type_synonym heap = "step_obj list"

definition obj :: "heap \<Rightarrow> ref \<Rightarrow> step_obj" where
  "obj h r = h ! r"

definition deps_of :: "heap \<Rightarrow> ref \<Rightarrow> ref list" where
  "deps_of h r = (if r < length h then deps (h ! r) else [])"

section \<open>Depth-first post-order\<close>

text \<open>
  \<open>for step in rs: visit(step)\<close>, where \<open>visit\<close> returns at a visited step, marks it, returns at a
  step \<open>stop\<close> holds of, visits its dependencies and then appends it. The recursion on the
  dependencies is nested in the loop; it ends because the visited steps only grow.
\<close>

function visits :: "heap \<Rightarrow> (ref \<Rightarrow> bool) \<Rightarrow> ref list \<Rightarrow> ref list \<Rightarrow> ref list \<Rightarrow> ref list \<times> ref list" where
  "visits h stop [] visited ordered = (visited, ordered)"
| "visits h stop (r # rs) visited ordered =
     (if r \<in> set visited then visits h stop rs visited ordered
      else if stop r then visits h stop rs (r # visited) ordered
      else (case visits h stop (deps_of h r) (r # visited) ordered of
              (visited', ordered') \<Rightarrow> visits h stop rs visited' (ordered' @ [r])))"
  by pat_completeness auto

lemma visits_dom_grows:
  "visits_dom (h, stop, rs, vis, ord) \<Longrightarrow> set vis \<subseteq> set (fst (visits h stop rs vis ord))"
proof (induction h stop rs vis ord rule: visits.pinduct)
  case (1 h stop vis ord)
  then show ?case by (simp add: visits.psimps)
next
  case (2 h stop r rs vis ord)
  obtain vis1 ord1 where v1: "visits h stop (deps_of h r) (r # vis) ord = (vis1, ord1)"
    by fastforce
  show ?case
  proof (cases "r \<in> set vis \<or> stop r")
    case True
    with 2 show ?thesis by (auto simp: visits.psimps)
  next
    case False
    with 2 v1 have "set (r # vis) \<subseteq> set vis1" by fastforce
    moreover have "set vis1 \<subseteq> set (fst (visits h stop rs vis1 (ord1 @ [r])))"
      using 2 v1 False by metis
    ultimately show ?thesis using "2.hyps" v1 False by (auto simp: visits.psimps)
  qed
qed

definition unvisited :: "heap \<Rightarrow> ref list \<Rightarrow> nat" where
  "unvisited h vis = card ({..<length h} - set vis)"

lemma unvisited_mono: "set vis \<subseteq> set vis' \<Longrightarrow> unvisited h vis' \<le> unvisited h vis"
  unfolding unvisited_def by (rule card_mono) auto

lemma unvisited_less: "r < length h \<Longrightarrow> r \<notin> set vis \<Longrightarrow> unvisited h (r # vis) < unvisited h vis"
  unfolding unvisited_def by (rule psubset_card_mono) auto

lemma unvisited_out: "\<not> r < length h \<Longrightarrow> unvisited h (r # vis) = unvisited h vis"
  unfolding unvisited_def by (rule arg_cong [where f = card]) auto

lemma unvisited_Cons: "unvisited h (r # vis) \<le> unvisited h vis"
  by (rule unvisited_mono) auto

termination visits
proof (relation "measures [\<lambda>(h, stop, rs, vis, ord). unvisited h vis,
      \<lambda>(h, stop, rs, vis, ord). length rs]", goal_cases)
  case (3 h stop r rs vis ord)
  show ?case using unvisited_Cons [of h r vis] by auto
next
  case (4 h stop r rs vis ord)
  show ?case
  proof (cases "r < length h")
    case True
    with unvisited_less 4 show ?thesis by simp
  next
    case False
    then show ?thesis by (simp add: unvisited_out deps_of_def)
  qed
next
  case (5 h stop r rs vis ord vis' ord')
  have "set (r # vis) \<subseteq> set (fst (visits h stop (deps_of h r) (r # vis) ord))"
    using 5(4) by (rule visits_dom_grows)
  with 5(3)[symmetric] have "unvisited h vis' \<le> unvisited h vis" by (intro unvisited_mono) auto
  then show ?case by simp arith
qed auto

lemma visits_grows: "visits h stop rs vis ord = (vis', ord') \<Longrightarrow> set vis \<subseteq> set vis'"
proof (induction h stop rs vis ord arbitrary: vis' ord' rule: visits.induct)
  case (2 h stop r rs vis ord)
  consider (seen) "r \<in> set vis" | (stop) "r \<notin> set vis" "stop r" | (new) "r \<notin> set vis" "\<not> stop r"
    by blast
  then show ?case
  proof cases
    case seen
    have "visits h stop rs vis ord = (vis', ord')" using "2.prems" seen by simp
    then show ?thesis by (rule "2.IH"(1) [OF seen])
  next
    case stop
    have "visits h stop rs (r # vis) ord = (vis', ord')" using "2.prems" stop by simp
    then have "set (r # vis) \<subseteq> set vis'" by (rule "2.IH"(2) [OF stop])
    then show ?thesis by simp
  next
    case new
    obtain vis1 ord1 where v1: "visits h stop (deps_of h r) (r # vis) ord = (vis1, ord1)"
      by fastforce
    have "set (r # vis) \<subseteq> set vis1" by (rule "2.IH"(3) [OF new v1])
    have v2: "visits h stop rs vis1 (ord1 @ [r]) = (vis', ord')"
      using "2.prems" new v1 by simp
    have "set vis1 \<subseteq> set vis'" by (rule "2.IH"(4) [OF new v1 [symmetric] v2])
    with \<open>set (r # vis) \<subseteq> set vis1\<close> show ?thesis by auto
  qed
qed simp

section \<open>The specification of an order\<close>

text \<open>\<open>topo h stop done rs\<close>: every step of \<open>rs\<close> comes after its dependencies, but for those in
  \<open>done\<close> and those behind the boundary.\<close>

fun topo :: "heap \<Rightarrow> (ref \<Rightarrow> bool) \<Rightarrow> ref set \<Rightarrow> ref list \<Rightarrow> bool" where
  "topo h stop done [] = True"
| "topo h stop done (r # rs) =
     ((\<forall>d \<in> set (deps_of h r). stop d \<or> d \<in> done) \<and> topo h stop (insert r done) rs)"

lemma topo_append:
  "topo h stop done (xs @ ys) \<longleftrightarrow> topo h stop done xs \<and> topo h stop (done \<union> set xs) ys"
  by (induction xs arbitrary: "done") auto

lemma topo_snoc:
  "topo h stop done (xs @ [r]) \<longleftrightarrow>
     topo h stop done xs \<and> (\<forall>d \<in> set (deps_of h r). stop d \<or> d \<in> done \<union> set xs)"
  by (simp add: topo_append)

lemma topo_mono: "topo h stop D xs \<Longrightarrow> D \<subseteq> E \<Longrightarrow> topo h stop E xs"
proof (induction xs arbitrary: D E)
  case (Cons r xs)
  then show ?case using Cons.IH [of "insert r D" "insert r E"] by auto
qed simp

lemma topo_closed:
  "topo h stop D xs \<Longrightarrow> r \<in> set xs \<Longrightarrow> d \<in> set (deps_of h r) \<Longrightarrow> stop d \<or> d \<in> D \<union> set xs"
  by (induction xs arbitrary: D) auto

text \<open>The steps reachable from the targets without crossing the boundary.\<close>

inductive_set reach :: "heap \<Rightarrow> (ref \<Rightarrow> bool) \<Rightarrow> ref set \<Rightarrow> ref set"
  for h stop ts where
  reach_target: "r \<in> ts \<Longrightarrow> \<not> stop r \<Longrightarrow> r \<in> reach h stop ts"
| reach_dep: "r \<in> reach h stop ts \<Longrightarrow> d \<in> set (deps_of h r) \<Longrightarrow> \<not> stop d \<Longrightarrow> d \<in> reach h stop ts"

text \<open>A heap is acyclic when some ranking decreases along every dependency.\<close>

definition ranked :: "heap \<Rightarrow> (ref \<Rightarrow> nat) \<Rightarrow> bool" where
  "ranked h rank \<longleftrightarrow> (\<forall>r. \<forall>d \<in> set (deps_of h r). rank d < rank r)"

definition acyclic_heap :: "heap \<Rightarrow> bool" where
  "acyclic_heap h \<longleftrightarrow> (\<exists>rank. ranked h rank)"

text \<open>\<open>closed_heap\<close>: every dependency is an object of the heap.\<close>

definition closed_heap :: "heap \<Rightarrow> bool" where
  "closed_heap h \<longleftrightarrow> (\<forall>r. set (deps_of h r) \<subseteq> {..<length h})"

lemma rankedD: "ranked h rank \<Longrightarrow> d \<in> set (deps_of h r) \<Longrightarrow> rank d < rank r"
  by (auto simp: ranked_def)

text \<open>
  The invariant of the traversal: the visited steps that are neither ordered nor boundary are the
  ones on the stack, and none of them can be reached again.
\<close>

definition visit_inv :: "heap \<Rightarrow> (ref \<Rightarrow> bool) \<Rightarrow> ref list \<Rightarrow> ref list \<Rightarrow> bool" where
  "visit_inv h stop vis ord \<longleftrightarrow>
     set ord \<subseteq> set vis \<and> distinct ord \<and> topo h stop {} ord \<and> (\<forall>r \<in> set ord. \<not> stop r)"

definition on_stack :: "(ref \<Rightarrow> bool) \<Rightarrow> ref list \<Rightarrow> ref list \<Rightarrow> ref set" where
  "on_stack stop vis ord = {r \<in> set vis. \<not> stop r \<and> r \<notin> set ord}"

lemma visits_spec:
  assumes "ranked h rank" and "visits h stop rs vis ord = (vis', ord')"
    and "visit_inv h stop vis ord"
    and "\<forall>r \<in> set rs. \<forall>g \<in> on_stack stop vis ord. rank r < rank g"
  shows "visit_inv h stop vis' ord' \<and> on_stack stop vis' ord' = on_stack stop vis ord
    \<and> set rs \<subseteq> set vis' \<and> set ord \<subseteq> set ord'"
  using assms
proof (induction h stop rs vis ord arbitrary: vis' ord' rule: visits.induct)
  case (2 h stop r rs vis ord)
  consider (seen) "r \<in> set vis" | (stop) "r \<notin> set vis" "stop r" | (new) "r \<notin> set vis" "\<not> stop r"
    by blast
  then show ?case
  proof cases
    case seen
    with "2.prems" have "visits h stop rs vis ord = (vis', ord')" by simp
    with "2.IH"(1) [OF seen] "2.prems" seen have
      "visit_inv h stop vis' ord' \<and> on_stack stop vis' ord' = on_stack stop vis ord
        \<and> set rs \<subseteq> set vis' \<and> set ord \<subseteq> set ord'" by simp
    with seen visits_grows [OF \<open>visits h stop rs vis ord = (vis', ord')\<close>] show ?thesis by auto
  next
    case stop
    with "2.prems" have v: "visits h stop rs (r # vis) ord = (vis', ord')" by simp
    have g: "on_stack stop (r # vis) ord = on_stack stop vis ord" using stop by (auto simp: on_stack_def)
    have "visit_inv h stop (r # vis) ord" using "2.prems"(3) by (auto simp: visit_inv_def)
    with "2.IH"(2) [OF stop "2.prems"(1) v] "2.prems"(4) g
    have "visit_inv h stop vis' ord' \<and> on_stack stop vis' ord' = on_stack stop vis ord
        \<and> set rs \<subseteq> set vis' \<and> set ord \<subseteq> set ord'" by simp
    with visits_grows [OF v] show ?thesis by auto
  next
    case new
    obtain vis1 ord1 where v1: "visits h stop (deps_of h r) (r # vis) ord = (vis1, ord1)"
      by fastforce
    with new "2.prems" have v2: "visits h stop rs vis1 (ord1 @ [r]) = (vis', ord')" by simp
    have r_ord: "r \<notin> set ord" using new "2.prems"(3) by (auto simp: visit_inv_def)
    have g: "on_stack stop (r # vis) ord = insert r (on_stack stop vis ord)"
      using new r_ord by (auto simp: on_stack_def)
    have below: "rank d < rank r" if "d \<in> set (deps_of h r)" for d
      using "2.prems"(1) that by (rule rankedD)
    have "\<forall>d \<in> set (deps_of h r). \<forall>y \<in> on_stack stop (r # vis) ord. rank d < rank y"
      using below "2.prems"(4) unfolding g by fastforce
    moreover have "visit_inv h stop (r # vis) ord" using "2.prems"(3) by (auto simp: visit_inv_def)
    ultimately have 1: "visit_inv h stop vis1 ord1" "on_stack stop vis1 ord1 = on_stack stop (r # vis) ord"
      "set (deps_of h r) \<subseteq> set vis1" "set ord \<subseteq> set ord1"
      using "2.IH"(3) [OF new "2.prems"(1) v1] by simp_all
    have r1: "r \<notin> set ord1" "r \<in> set vis1"
      using 1(2) g new(2) by (auto simp: on_stack_def)
    have "d \<in> set ord1" if "d \<in> set (deps_of h r)" "\<not> stop d" for d
    proof (rule ccontr)
      assume "d \<notin> set ord1"
      with that 1(3) have "d \<in> on_stack stop vis1 ord1" by (auto simp: on_stack_def)
      then have "d = r \<or> d \<in> on_stack stop vis ord" using 1(2) g by auto
      with below [OF that(1)] "2.prems"(4) show False by fastforce
    qed
    with 1(1) r1 new(2) have inv: "visit_inv h stop vis1 (ord1 @ [r])"
      by (auto simp: visit_inv_def topo_snoc)
    have g2: "on_stack stop vis1 (ord1 @ [r]) = on_stack stop vis ord"
      using 1(2) g r1 new by (auto simp: on_stack_def)
    with "2.IH"(4) [OF new v1 [symmetric] "2.prems"(1) v2] inv "2.prems"(4)
    have "visit_inv h stop vis' ord' \<and> on_stack stop vis' ord' = on_stack stop vis1 (ord1 @ [r])
      \<and> set rs \<subseteq> set vis' \<and> set (ord1 @ [r]) \<subseteq> set ord'" by simp
    with g2 r1 1(4) visits_grows [OF v2] show ?thesis by auto
  qed
qed auto

text \<open>Whatever the traversal adds is reachable from its targets.\<close>

lemma visits_reach:
  "visits h stop rs vis ord = (vis', ord') \<Longrightarrow> set rs - Collect stop \<subseteq> reach h stop ts \<Longrightarrow>
   set ord' \<subseteq> set ord \<union> reach h stop ts"
proof (induction h stop rs vis ord arbitrary: vis' ord' rule: visits.induct)
  case (2 h stop r rs vis ord)
  show ?case
  proof (cases "r \<in> set vis \<or> stop r")
    case True
    with 2 show ?thesis by (auto split: if_splits)
  next
    case False
    obtain vis1 ord1 where v1: "visits h stop (deps_of h r) (r # vis) ord = (vis1, ord1)"
      by fastforce
    have r: "r \<in> reach h stop ts" using "2.prems"(2) False by auto
    then have "set (deps_of h r) - Collect stop \<subseteq> reach h stop ts" by (auto intro: reach_dep)
    with "2.IH"(3) v1 False have "set ord1 \<subseteq> set ord \<union> reach h stop ts" by auto
    moreover have "set ord' \<subseteq> set (ord1 @ [r]) \<union> reach h stop ts"
      using "2.IH"(4) [of vis1 ord1] v1 False "2.prems" by auto
    ultimately show ?thesis using r by auto
  qed
qed auto


section \<open>The interface of a dependency order\<close>

text \<open>
  What the planner and the executor rely on when they ask for an order of steps: the steps
  reachable from the targets without crossing the boundary, each once and after its dependencies.
  A consumer that folds over the order, giving each step a value computed from the values of its
  dependencies, computes a solution of the dependency equations.
\<close>

locale dependency_order =
  fixes order :: "heap \<Rightarrow> ref list \<Rightarrow> ref list"
    and stop :: "heap \<Rightarrow> ref \<Rightarrow> bool"
  assumes order_distinct: "acyclic_heap h \<Longrightarrow> distinct (order h ts)"
    and order_topo: "acyclic_heap h \<Longrightarrow> topo h (stop h) {} (order h ts)"
    and order_set: "acyclic_heap h \<Longrightarrow> set (order h ts) = reach h (stop h) (set ts)"

text \<open>\<open>settle_vals f h vals rs\<close>: visit the steps of \<open>rs\<close> in turn and record the value of each.\<close>

definition settle_vals :: "(ref \<Rightarrow> 'v list \<Rightarrow> 'v) \<Rightarrow> heap \<Rightarrow> (ref \<Rightarrow> 'v) \<Rightarrow> ref list \<Rightarrow> (ref \<Rightarrow> 'v)" where
  "settle_vals f h vals rs = foldl (\<lambda>vs r. vs(r := f r (map vs (deps_of h r)))) vals rs"

lemma settle_vals_simps [simp]:
  "settle_vals f h vals [] = vals"
  "settle_vals f h vals (r # rs) = settle_vals f h (vals(r := f r (map vals (deps_of h r)))) rs"
  by (simp_all add: settle_vals_def)

lemma settle_vals_other: "r \<notin> set rs \<Longrightarrow> settle_vals f h vals rs r = vals r"
  by (induction rs arbitrary: vals) auto

lemma settle_vals_solves:
  assumes "distinct rs" and "topo h stop D rs" and "D \<inter> set rs = {}"
    and "\<forall>b. stop b \<longrightarrow> b \<notin> set rs" and "ranked h rank" and "r \<in> set rs"
  shows "settle_vals f h vals rs r = f r (map (settle_vals f h vals rs) (deps_of h r))"
  using assms
proof (induction rs arbitrary: vals D)
  case (Cons q rs)
  let ?vals = "vals(q := f q (map vals (deps_of h q)))"
  show ?case
  proof (cases "r = q")
    case False
    have "(insert q D) \<inter> set rs = {}" using Cons.prems(1,3) by auto
    with Cons.prems False have "settle_vals f h ?vals rs r = f r (map (settle_vals f h ?vals rs) (deps_of h r))"
      by (intro Cons.IH [of "insert q D" ?vals]) auto
    then show ?thesis by (simp only: settle_vals_simps)
  next
    case True
    have "settle_vals f h ?vals rs d = vals d" if "d \<in> set (deps_of h q)" for d
    proof -
      from that Cons.prems(5) have "rank d < rank q" by (rule rankedD [rotated])
      then have "d \<noteq> q" by auto
      moreover have "stop d \<or> d \<in> D" using that Cons.prems(2) by auto
      then have "d \<notin> set (q # rs)" using Cons.prems(3,4) by blast
      ultimately show ?thesis by (simp add: settle_vals_other)
    qed
    then have "map (settle_vals f h ?vals rs) (deps_of h q) = map vals (deps_of h q)"
      by (intro map_cong refl)
    moreover have "settle_vals f h ?vals rs q = f q (map vals (deps_of h q))"
      using Cons.prems(1) by (simp add: settle_vals_other)
    ultimately show ?thesis using True by (simp only: settle_vals_simps)
  qed
qed simp

context dependency_order
begin

lemma order_deps_first:
  assumes "acyclic_heap h" and "order h ts = xs @ r # ys" and "d \<in> set (deps_of h r)"
  shows "stop h d \<or> d \<in> set xs"
  using order_topo [OF assms(1), of ts] assms(2,3) by (simp add: topo_append)

lemma order_not_stop: "acyclic_heap h \<Longrightarrow> r \<in> set (order h ts) \<Longrightarrow> \<not> stop h r"
  by (auto simp: order_set elim: reach.cases)

lemma order_targets: "acyclic_heap h \<Longrightarrow> t \<in> set ts \<Longrightarrow> \<not> stop h t \<Longrightarrow> t \<in> set (order h ts)"
  by (simp add: order_set reach_target)

lemma order_closed:
  "acyclic_heap h \<Longrightarrow> r \<in> set (order h ts) \<Longrightarrow> d \<in> set (deps_of h r) \<Longrightarrow> \<not> stop h d
   \<Longrightarrow> d \<in> set (order h ts)"
  by (auto simp: order_set intro: reach_dep)

lemma order_solves:
  assumes "acyclic_heap h" and "r \<in> set (order h ts)"
  shows "settle_vals f h vals (order h ts) r
     = f r (map (settle_vals f h vals (order h ts)) (deps_of h r))"
proof -
  obtain rank where "ranked h rank" using assms(1) by (auto simp: acyclic_heap_def)
  then show ?thesis
    using settle_vals_solves [OF order_distinct [OF assms(1)] order_topo [OF assms(1)], of ts rank]
      assms(2) order_not_stop [OF assms(1)] by blast
qed

lemma order_keeps_boundary:
  "acyclic_heap h \<Longrightarrow> stop h b \<Longrightarrow> settle_vals f h vals (order h ts) b = vals b"
  using order_not_stop by (intro settle_vals_other) auto

end

section \<open>order_steps and order_steps_within\<close>

definition order_refs :: "heap \<Rightarrow> ref list \<Rightarrow> ref list" where
  "order_refs h targets = snd (visits h (\<lambda>r. False) targets [] [])"

text \<open>\<open>while next_id in used: next_id += 1\<close>\<close>

function next_free :: "int set \<Rightarrow> int \<Rightarrow> int" where
  "next_free used n = (if finite used \<and> n \<in> used then next_free used (n + 1) else n)"
  by pat_completeness auto
termination
proof (relation "measure (\<lambda>(used, n). card {m \<in> used. n \<le> m})", goal_cases)
  case (2 used n)
  have "{m \<in> used. n + 1 \<le> m} \<subseteq> {m \<in> used. n \<le> m}" by auto
  moreover have "n \<in> {m \<in> used. n \<le> m}" "n \<notin> {m \<in> used. n + 1 \<le> m}" using 2 by auto
  ultimately have "{m \<in> used. n + 1 \<le> m} \<subset> {m \<in> used. n \<le> m}" by blast
  with 2 show ?case by (auto intro!: psubset_card_mono)
qed simp

declare next_free.simps [simp del]

lemma next_free_fresh: "finite used \<Longrightarrow> next_free used n \<notin> used \<and> n \<le> next_free used n"
proof (induction used n rule: next_free.induct)
  case (1 used n)
  then show ?case by (subst (1 2) next_free.simps) auto
qed

fun assign_ids :: "heap \<Rightarrow> int set \<Rightarrow> int \<Rightarrow> ref list \<Rightarrow> heap" where
  "assign_ids h used next_id [] = h"
| "assign_ids h used next_id (r # rs) =
     (if sid (obj h r) < 0
      then (let n = next_free used next_id
            in assign_ids (h[r := (obj h r)\<lparr>sid := n\<rparr>]) (insert n used) n rs)
      else assign_ids h used next_id rs)"

definition order_steps :: "heap \<Rightarrow> ref list \<Rightarrow> heap \<times> ref list" where
  "order_steps h targets =
     (let ordered = order_refs h targets
      in (assign_ids h {s \<in> set (map (\<lambda>r. sid (obj h r)) ordered). 0 \<le> s} 0 ordered, ordered))"

definition order_steps_within :: "heap \<Rightarrow> ref list \<Rightarrow> int set \<Rightarrow> ref list" where
  "order_steps_within h targets boundary_ids =
     snd (visits h (\<lambda>r. sid (obj h r) \<in> boundary_ids) targets [] [])"

lemma visits_complete:
  assumes "acyclic_heap h" and v: "visits h stop ts [] [] = (vis, ord)"
  shows "distinct ord \<and> topo h stop {} ord \<and> set ord = reach h stop (set ts)"
proof -
  obtain rank where rank: "ranked h rank" using assms(1) by (auto simp: acyclic_heap_def)
  have "visit_inv h stop vis ord \<and> on_stack stop vis ord = on_stack stop [] []
     \<and> set ts \<subseteq> set vis \<and> set [] \<subseteq> set ord"
    using visits_spec [OF rank v] by (simp add: visit_inv_def on_stack_def)
  then have inv: "visit_inv h stop vis ord" and none: "on_stack stop vis ord = {}"
    and ts: "set ts \<subseteq> set vis" by (simp_all add: on_stack_def)
  have done_vis: "r \<in> set ord" if "r \<in> set vis" "\<not> stop r" for r
    using that none by (auto simp: on_stack_def)
  have "set ord \<subseteq> reach h stop (set ts)"
    using visits_reach [OF v, of "set ts"] by (auto intro: reach_target)
  moreover have "r \<in> set ord" if "r \<in> reach h stop (set ts)" for r
    using that
  proof induction
    case (reach_target r)
    with ts done_vis show ?case by auto
  next
    case (reach_dep r d)
    with inv show ?case using topo_closed [of h stop "{}" ord r d] by (auto simp: visit_inv_def)
  qed
  ultimately show ?thesis using inv by (auto simp: visit_inv_def)
qed

interpretation full_order: dependency_order order_refs "\<lambda>h r. False"
proof unfold_locales
  fix h ts
  assume "acyclic_heap h"
  moreover obtain vis ord where "visits h (\<lambda>r. False) ts [] [] = (vis, ord)" by fastforce
  ultimately show "distinct (order_refs h ts)" "topo h (\<lambda>r. False) {} (order_refs h ts)"
    "set (order_refs h ts) = reach h (\<lambda>r. False) (set ts)"
    using visits_complete by (simp_all add: order_refs_def)
qed

interpretation bucket_order: dependency_order
  "\<lambda>h ts. order_steps_within h ts B" "\<lambda>h r. sid (obj h r) \<in> B" for B
proof unfold_locales
  fix h ts
  assume "acyclic_heap h"
  moreover obtain vis ord where "visits h (\<lambda>r. sid (obj h r) \<in> B) ts [] [] = (vis, ord)" by fastforce
  ultimately show "distinct (order_steps_within h ts B)"
    "topo h (\<lambda>r. sid (obj h r) \<in> B) {} (order_steps_within h ts B)"
    "set (order_steps_within h ts B) = reach h (\<lambda>r. sid (obj h r) \<in> B) (set ts)"
    using visits_complete by (simp_all add: order_steps_within_def)
qed

end
