(* ===== verification/Dag.thy ===== *)
theory Dag
  imports Dag_Order
begin

text \<open>
  The plan DAG of \<open>src/src/grafast_py/dag.py\<close>: class \<open>Plan\<close> (registration, the reverse index of
  dependents, \<open>eradicate\<close>, the optimize and deduplicate passes, \<open>tree_shake\<close>) and the remap
  functions. A dict of the passes is an insertion-ordered association list; a loop that may run
  forever is a partial function whose value \<open>None\<close> stands for not returning.
\<close>

section \<open>The plan\<close>

record plan =
  p_heap :: heap
  p_steps :: "ref list"
  p_seen :: "ref set"
  p_inline_relations :: bool
  p_placeholders :: bool
  p_cache_plans :: bool
  p_cacheable :: bool
  p_request_constraints :: "request_constraint list"
  p_hoist :: bool
  p_is_mutation :: bool
  p_incremental :: bool
  p_side_replacements :: "(ref \<times> ref) list"
  p_dependents_index :: "int \<rightharpoonup> (ref \<times> nat) list"
  p_dead_ids :: "int set"

definition new_plan :: "heap \<Rightarrow> plan" where
  "new_plan h = \<lparr>p_heap = h, p_steps = [], p_seen = {}, p_inline_relations = False,
     p_placeholders = False, p_cache_plans = False, p_cacheable = True,
     p_request_constraints = [], p_hoist = False, p_is_mutation = False, p_incremental = False,
     p_side_replacements = [], p_dependents_index = Map.empty, p_dead_ids = {}\<rparr>"

definition step_id :: "plan \<Rightarrow> ref \<Rightarrow> int" where
  "step_id p r = sid (obj (p_heap p) r)"

definition edges :: "plan \<Rightarrow> int \<Rightarrow> (ref \<times> nat) list" where
  "edges p i = (case p_dependents_index p i of None \<Rightarrow> [] | Some es \<Rightarrow> es)"

section \<open>Registration\<close>

definition enum :: "'a list \<Rightarrow> (nat \<times> 'a) list" where
  "enum xs = zip [0..<length xs] xs"

text \<open>\<open>self._dependents_index.setdefault(dep.id, []).append((step, idx))\<close>\<close>

definition add_edge ::
  "heap \<Rightarrow> ref \<Rightarrow> (int \<rightharpoonup> (ref \<times> nat) list) \<Rightarrow> nat \<times> ref \<Rightarrow> (int \<rightharpoonup> (ref \<times> nat) list)" where
  "add_edge h r index e =
     (case e of (idx, dep) \<Rightarrow>
        index(sid (obj h dep) \<mapsto>
          (case index (sid (obj h dep)) of None \<Rightarrow> [] | Some es \<Rightarrow> es) @ [(r, idx)]))"

definition enroll :: "plan \<Rightarrow> ref \<Rightarrow> plan" where
  "enroll p r =
     (let h = (p_heap p)[r := (obj (p_heap p) r)\<lparr>sid := int (length (p_steps p))\<rparr>]
      in p\<lparr>p_seen := insert r (p_seen p),
           p_heap := h,
           p_steps := p_steps p @ [r],
           p_dependents_index := foldl (add_edge h r) (p_dependents_index p) (enum (deps_of h r))\<rparr>)"

text \<open>
  \<open>for dep in deps: self._register(dep)\<close>. \<open>_register\<close> marks a step as seen only after its
  dependencies, so a cycle recurses until the interpreter raises: the first argument is the depth
  the recursion may still reach.
\<close>

function register_all :: "nat \<Rightarrow> plan \<Rightarrow> ref list \<Rightarrow> plan res" where
  "register_all n p [] = Inr p"
| "register_all n p (r # rs) =
     (if r \<in> p_seen p then register_all n p rs
      else (case n of
              0 \<Rightarrow> Inl RecursionError
            | Suc m \<Rightarrow>
                bind_res (register_all m p (deps_of (p_heap p) r))
                  (\<lambda>p'. register_all n (enroll p' r) rs)))"
  by pat_completeness auto
termination by (relation "measures [\<lambda>(n, p, rs). n, \<lambda>(n, p, rs). length rs]") auto

definition add_step :: "nat \<Rightarrow> plan \<Rightarrow> ref \<Rightarrow> plan res" where
  "add_step depth p r = register_all depth p [r]"

definition topo_order :: "plan \<Rightarrow> plan \<times> ref list" where
  "topo_order p =
     (case order_steps (p_heap p) (p_steps p) of (h, ordered) \<Rightarrow> (p\<lparr>p_heap := h\<rparr>, ordered))"

section \<open>Dependents and eradication\<close>

definition dependents_of :: "plan \<Rightarrow> ref \<Rightarrow> ref list" where
  "dependents_of p r =
     foldl (\<lambda>out e. if fst e \<in> set out then out else out @ [fst e]) [] (edges p (step_id p r))"

definition record_replacement :: "plan \<Rightarrow> ref \<Rightarrow> ref \<Rightarrow> plan" where
  "record_replacement p old new =
     p\<lparr>p_side_replacements := p_side_replacements p @ [(old, new)]\<rparr>"

text \<open>One move of \<open>eradicate\<close>: repoint one dependency slot, and narrow unariness.\<close>

definition repoint :: "ref \<Rightarrow> heap \<Rightarrow> ref \<times> nat \<Rightarrow> heap" where
  "repoint survivor h e =
     (case e of (x, i) \<Rightarrow>
        (let h' = h[x := (obj h x)\<lparr>deps := (deps (obj h x))[i := survivor]\<rparr>]
         in if unary (obj h' survivor) then h' else h'[x := (obj h' x)\<lparr>unary := False\<rparr>]))"

definition drop_edge ::
  "heap \<Rightarrow> ref \<Rightarrow> (int \<rightharpoonup> (ref \<times> nat) list) \<Rightarrow> nat \<times> ref \<Rightarrow> (int \<rightharpoonup> (ref \<times> nat) list)" where
  "drop_edge h r index e =
     (case e of (idx, dep) \<Rightarrow>
        (case index (sid (obj h dep)) of
           None \<Rightarrow> index
         | Some es \<Rightarrow> index(sid (obj h dep) \<mapsto> filter (\<lambda>x. x \<noteq> (r, idx)) es)))"

definition eradicate :: "plan \<Rightarrow> ref \<Rightarrow> ref \<Rightarrow> plan" where
  "eradicate p dead survivor =
     (if dead = survivor then p
      else
        let moved = edges p (step_id p dead);
            popped = (p_dependents_index p)(step_id p dead := None);
            kept = (case popped (step_id p survivor) of None \<Rightarrow> [] | Some es \<Rightarrow> es);
            h = foldl (repoint survivor) (p_heap p) moved;
            index = popped(step_id p survivor \<mapsto> kept @ moved)
        in p\<lparr>p_heap := h,
             p_dependents_index := foldl (drop_edge h dead) index (enum (deps_of h dead)),
             p_dead_ids := insert (step_id p dead) (p_dead_ids p)\<rparr>)"

definition sweep_dead :: "plan \<Rightarrow> plan" where
  "sweep_dead p =
     (if p_dead_ids p = {} then p
      else p\<lparr>p_steps := filter (\<lambda>r. step_id p r \<notin> p_dead_ids p) (p_steps p), p_dead_ids := {}\<rparr>)"

section \<open>The optimize pass\<close>

text \<open>
  A step's \<open>optimize\<close> hook is a method of its class: here a parameter that takes the plan and the
  step, and gives the plan it leaves behind (it may allocate, register and record side
  replacements) and the step it returns. \<open>depth\<close> is the recursion the interpreter allows.
\<close>

type_synonym optimizer = "plan \<Rightarrow> ref \<Rightarrow> (plan \<times> ref) res"

type_synonym remap = "(int \<times> ref) list"

definition ensure_registered :: "nat \<Rightarrow> plan \<Rightarrow> ref \<Rightarrow> plan res" where
  "ensure_registered depth p r = (if step_id p r < 0 then add_step depth p r else Inr p)"

fun drain_side :: "nat \<Rightarrow> plan \<Rightarrow> remap \<Rightarrow> (ref \<times> ref) list \<Rightarrow> (plan \<times> remap) res" where
  "drain_side depth p merged [] = Inr (p, merged)"
| "drain_side depth p merged ((old_child, replacement) # rest) =
     bind_res (ensure_registered depth p replacement)
       (\<lambda>p1. let p2 = eradicate p1 old_child replacement
             in drain_side depth p2 (dict_set merged (step_id p2 old_child) replacement) rest)"

fun optimize_pass ::
  "nat \<Rightarrow> optimizer \<Rightarrow> ref list \<Rightarrow> plan \<Rightarrow> remap \<Rightarrow> bool \<Rightarrow> (plan \<times> remap \<times> bool) res" where
  "optimize_pass depth hook [] p merged changed = Inr (p, merged, changed)"
| "optimize_pass depth hook (r # rs) p merged changed =
     (if step_id p r \<in> p_dead_ids p then optimize_pass depth hook rs p merged changed
      else
        bind_res (hook p r) (\<lambda>(p1, new).
        bind_res (drain_side depth p1 merged (p_side_replacements p1)) (\<lambda>(p2, merged2).
          let changed2 = (changed \<or> p_side_replacements p1 \<noteq> []);
              p3 = p2\<lparr>p_side_replacements := []\<rparr>
          in if new = r then optimize_pass depth hook rs p3 merged2 changed2
             else
               bind_res (ensure_registered depth p3 new) (\<lambda>p4.
                 let p5 = eradicate p4 r new
                 in optimize_pass depth hook rs p5 (dict_set merged2 (step_id p5 r) new) True))))"

definition max_optimization_loops :: nat where
  "max_optimization_loops = 1000"

text \<open>The first argument counts the passes left; running out is the warning and the stop.\<close>

fun optimize_loop :: "nat \<Rightarrow> nat \<Rightarrow> optimizer \<Rightarrow> plan \<Rightarrow> remap \<Rightarrow> (plan \<times> remap) res" where
  "optimize_loop 0 depth hook p merged = Inr (p, merged)"
| "optimize_loop (Suc n) depth hook p merged =
     (case topo_order p of (p1, ordered) \<Rightarrow>
        bind_res (optimize_pass depth hook ordered p1 merged False) (\<lambda>(p2, merged2, changed).
          if changed then optimize_loop n depth hook p2 merged2 else Inr (p2, merged2)))"

text \<open>\<open>while final.id in merged and merged[final.id] is not final: final = merged[final.id]\<close>, where
  \<open>idof\<close> reads a step's id.\<close>

partial_function (option) follow :: "(ref \<Rightarrow> int) \<Rightarrow> remap \<Rightarrow> ref \<Rightarrow> ref option" where
  "follow idof merged r =
     (case map_of merged (idof r) of
        None \<Rightarrow> Some r
      | Some r' \<Rightarrow> if r' = r then Some r else follow idof merged r')"

declare follow.simps [code]

fun resolve_entries :: "plan \<Rightarrow> remap \<Rightarrow> (int \<times> ref) list \<Rightarrow> remap option" where
  "resolve_entries p merged [] = Some []"
| "resolve_entries p merged ((old, r) # rest) =
     (case follow (step_id p) merged r of
        None \<Rightarrow> None
      | Some final \<Rightarrow>
          (case resolve_entries p merged rest of
             None \<Rightarrow> None
           | Some out \<Rightarrow> Some ((old, final) # out)))"

definition resolve_merged :: "plan \<Rightarrow> remap \<Rightarrow> remap option" where
  "resolve_merged p merged = resolve_entries p merged merged"

text \<open>\<open>Plan.optimize\<close>: \<open>None\<close> is a chain of replacements that never ends.\<close>

definition optimize :: "nat \<Rightarrow> optimizer \<Rightarrow> plan \<Rightarrow> (plan \<times> remap) res option" where
  "optimize depth hook p =
     (case optimize_loop max_optimization_loops depth hook p [] of
        Inl e \<Rightarrow> Some (Inl e)
      | Inr (p1, merged) \<Rightarrow>
          (let p2 = sweep_dead p1
           in case resolve_merged p2 merged of
                None \<Rightarrow> None
              | Some out \<Rightarrow> Some (Inr (p2, out))))"

definition identity_hook :: optimizer where
  "identity_hook p r = Inr (p, r)"

section \<open>Deduplication\<close>

text \<open>\<open>_structural_key\<close>; dict lookup compares the tuples with Python equality.\<close>

type_synonym skey = "string \<times> string \<times> int list \<times> pyval list"

definition structural_key :: "heap \<Rightarrow> ref \<Rightarrow> skey" where
  "structural_key h r =
     (sclass (obj h r), peer_key (obj h r), map (\<lambda>d. sid (obj h d)) (deps_of h r),
      dedup_params (obj h r))"

definition key_eq :: "skey \<Rightarrow> skey \<Rightarrow> bool" where
  "key_eq k k' =
     (case (k, k') of ((c, pk, ds, ps), (c', pk', ds', ps')) \<Rightarrow>
        c = c' \<and> pk = pk' \<and> ds = ds' \<and> py_eqs ps' ps)"

fun find_key :: "skey \<Rightarrow> (skey \<times> ref) list \<Rightarrow> ref option" where
  "find_key k [] = None"
| "find_key k ((k', r) # rest) = (if key_eq k k' then Some r else find_key k rest)"

fun dedup_pass ::
  "ref list \<Rightarrow> plan \<Rightarrow> remap \<Rightarrow> (skey \<times> ref) list \<Rightarrow> bool \<Rightarrow> plan \<times> remap \<times> bool" where
  "dedup_pass [] p merged by_key changed = (p, merged, changed)"
| "dedup_pass (r # rs) p merged by_key changed =
     (if step_id p r \<in> p_dead_ids p \<or> \<not> dedupable (obj (p_heap p) r)
      then dedup_pass rs p merged by_key changed
      else
        let key = structural_key (p_heap p) r
        in case find_key key by_key of
             None \<Rightarrow> dedup_pass rs p merged (by_key @ [(key, r)]) changed
           | Some winner \<Rightarrow>
               (let p' = eradicate p r winner
                in dedup_pass rs p' (dict_set merged (step_id p' r) winner) by_key True))"

partial_function (option) dedup_loop :: "plan \<Rightarrow> remap \<Rightarrow> (plan \<times> remap) option" where
  "dedup_loop p merged =
     (case topo_order p of (p1, ordered) \<Rightarrow>
        (case dedup_pass ordered p1 merged [] False of (p2, merged2, changed) \<Rightarrow>
           if changed then dedup_loop p2 merged2 else Some (p2, merged2)))"

declare dedup_loop.simps [code]

fun full_remap :: "plan \<Rightarrow> remap \<Rightarrow> ref list \<Rightarrow> remap \<Rightarrow> remap option" where
  "full_remap p merged [] out = Some out"
| "full_remap p merged (r # rs) out =
     (case follow (step_id p) merged r of
        None \<Rightarrow> None
      | Some final \<Rightarrow> full_remap p merged rs (dict_set out (step_id p r) final))"

definition deduplicate :: "plan \<Rightarrow> (plan \<times> remap) option" where
  "deduplicate p =
     (case dedup_loop p [] of
        None \<Rightarrow> None
      | Some (p1, merged) \<Rightarrow>
          (let p2 = sweep_dead p1
           in case full_remap p2 merged (p_steps p) [] of
                None \<Rightarrow> None
              | Some out \<Rightarrow> Some (p2, out)))"

section \<open>Tree shaking and remaps\<close>

text \<open>
  \<open>tree_shake\<close> orders the consumption roots first and the side-effecting steps second; both
  orders may assign ids.
\<close>

definition tree_shake :: "plan \<Rightarrow> ref list \<Rightarrow> plan \<times> ref list" where
  "tree_shake p consumption_roots =
     (case order_steps (p_heap p) consumption_roots of (h1, ord1) \<Rightarrow>
        let reachable = (\<lambda>r. sid (obj h1 r)) ` set ord1;
            side_effecting = filter (\<lambda>r. \<not> dedupable (obj h1 r)) (p_steps p)
        in case order_steps h1 side_effecting of (h2, ord2) \<Rightarrow>
             let keep = reachable \<union> (\<lambda>r. sid (obj h2 r)) ` set ord2;
                 index = (\<lambda>i. if i \<in> keep
                              then map_option (filter (\<lambda>e. sid (obj h2 (fst e)) \<in> keep))
                                     (p_dependents_index p i)
                              else None)
             in (p\<lparr>p_heap := h2,
                   p_steps := filter (\<lambda>r. sid (obj h2 r) \<in> keep) (p_steps p),
                   p_dependents_index := index\<rparr>,
                 filter (\<lambda>r. sid (obj h2 r) \<notin> reachable) side_effecting))"

definition compose_remaps :: "plan \<Rightarrow> remap \<Rightarrow> remap \<Rightarrow> remap" where
  "compose_remaps p first second =
     foldl (\<lambda>out (old_id, survivor).
              if map_of out old_id = None then out @ [(old_id, survivor)] else out)
       (foldl (\<lambda>out (old_id, mid).
                 dict_set out old_id
                   (case map_of second (step_id p mid) of None \<Rightarrow> mid | Some s \<Rightarrow> s))
          [] first)
       second"

end
