(* ===== verification/Dag_Laws.thy ===== *)
theory Dag_Laws
  imports Dag
begin

text \<open>
  The invariant of the plan DAG and what its operations keep of it: ids are unique, the live steps
  are closed under dependencies, the reverse index is exactly the inverse of the live dependency
  slots, and the heap stays acyclic.
\<close>

section \<open>Frames\<close>

lemma in_enum [simp]: "(i, x) \<in> set (enum xs) \<longleftrightarrow> i < length xs \<and> xs ! i = x"
  by (force simp: enum_def in_set_conv_nth)

text \<open>Everything of a step but its dependencies and its unariness.\<close>

definition same_attrs :: "step_obj \<Rightarrow> step_obj \<Rightarrow> bool" where
  "same_attrs a b \<longleftrightarrow> sid a = sid b \<and> sclass a = sclass b \<and> peer_key a = peer_key b
     \<and> dedup_params a = dedup_params b \<and> dedupable a = dedupable b \<and> hoistable a = hoistable b
     \<and> wants_extra a = wants_extra b \<and> sync_safe a = sync_safe b"

lemma same_attrs_refl [simp]: "same_attrs a a"
  by (simp add: same_attrs_def)

lemma same_attrs_trans: "same_attrs a b \<Longrightarrow> same_attrs b c \<Longrightarrow> same_attrs a c"
  by (simp add: same_attrs_def)

lemma length_repoint [simp]: "length (repoint s h e) = length h"
  by (cases e) (simp add: repoint_def Let_def)

lemma length_repoints [simp]: "length (foldl (repoint s) h es) = length h"
  by (induction es arbitrary: h) simp_all

lemma obj_update: "r < length h \<Longrightarrow> obj (h[x := v]) r = (if x = r then v else obj h r)"
  by (simp add: obj_def nth_list_update)

lemma obj_repoint:
  assumes "r < length h"
  shows "\<exists>u. obj (repoint s h (x, i)) r =
    (if x = r then (obj h r)\<lparr>deps := (deps (obj h r))[i := s], unary := u \<and> unary (obj h r)\<rparr>
     else obj h r)"
proof (cases "x = r")
  case True
  then show ?thesis
    using assms by (cases "unary (obj (h[x := (obj h x)\<lparr>deps := (deps (obj h x))[i := s]\<rparr>]) s)")
      (auto simp: repoint_def Let_def obj_update intro: exI [of _ True] exI [of _ False])
next
  case False
  with assms show ?thesis by (simp add: repoint_def Let_def obj_update)
qed

lemma repoint_attrs:
  assumes "r < length h"
  shows "same_attrs (obj (repoint s h e) r) (obj h r)"
    and "unary (obj (repoint s h e) r) \<Longrightarrow> unary (obj h r)"
    and "deps (obj (repoint s h e) r) = (if fst e = r then (deps (obj h r))[snd e := s] else deps (obj h r))"
proof -
  obtain x i where e: "e = (x, i)" by (cases e)
  obtain u where u: "obj (repoint s h e) r =
    (if x = r then (obj h r)\<lparr>deps := (deps (obj h r))[i := s], unary := u \<and> unary (obj h r)\<rparr>
     else obj h r)"
    unfolding e using obj_repoint [OF assms, of s x i] by blast
  show "same_attrs (obj (repoint s h e) r) (obj h r)"
    unfolding u by (simp add: same_attrs_def)
  show "unary (obj h r)" if "unary (obj (repoint s h e) r)"
    using that unfolding u by (simp split: if_splits)
  show "deps (obj (repoint s h e) r) = (if fst e = r then (deps (obj h r))[snd e := s] else deps (obj h r))"
    unfolding u by (simp add: e)
qed

lemma repoints_attrs:
  "r < length h \<Longrightarrow> same_attrs (obj (foldl (repoint s) h es) r) (obj h r)"
proof (induction es arbitrary: h)
  case (Cons e es)
  then show ?case
    using same_attrs_trans [OF Cons.IH [of "repoint s h e"] repoint_attrs(1) [of r h s e]] by simp
qed simp

lemma repoints_unary:
  "r < length h \<Longrightarrow> unary (obj (foldl (repoint s) h es) r) \<Longrightarrow> unary (obj h r)"
proof (induction es arbitrary: h)
  case (Cons e es)
  have "unary (obj (foldl (repoint s) (repoint s h e) es) r)" using Cons.prems(2) by simp
  moreover have "r < length (repoint s h e)" using Cons.prems(1) by simp
  ultimately have "unary (obj (repoint s h e) r)" using Cons.IH by blast
  with Cons.prems(1) show ?case by (rule repoint_attrs(2))
qed simp

lemma repoints_deps:
  "r < length h \<Longrightarrow> deps (obj (foldl (repoint s) h es) r)
     = map (\<lambda>i. if (r, i) \<in> set es then s else deps (obj h r) ! i) [0..<length (deps (obj h r))]"
proof (induction es arbitrary: h)
  case Nil
  then show ?case by (simp add: map_nth)
next
  case (Cons e es)
  obtain x i where e: "e = (x, i)" by (cases e)
  have "deps (obj (foldl (repoint s) h (e # es)) r)
    = map (\<lambda>j. if (r, j) \<in> set es then s else deps (obj (repoint s h e) r) ! j)
        [0..<length (deps (obj (repoint s h e) r))]"
    using Cons.IH [of "repoint s h e"] Cons.prems by simp
  also have "\<dots> = map (\<lambda>j. if (r, j) \<in> set (e # es) then s else deps (obj h r) ! j)
        [0..<length (deps (obj h r))]"
    using Cons.prems e by (cases "x = r") (auto simp: repoint_attrs(3) nth_list_update)
  finally show ?case .
qed

lemma deps_of_obj: "r < length h \<Longrightarrow> deps_of h r = deps (obj h r)"
  by (simp add: deps_of_def obj_def)

lemma deps_of_out: "\<not> r < length h \<Longrightarrow> deps_of h r = []"
  by (simp add: deps_of_def)

lemma drop_edges:
  "foldl (drop_edge h d) ix es j
     = map_option (filter (\<lambda>x. \<not> (\<exists>e \<in> set es. x = (d, fst e) \<and> sid (obj h (snd e)) = j))) (ix j)"
proof (induction es arbitrary: ix)
  case Nil
  then show ?case by (cases "ix j") simp_all
next
  case (Cons e es)
  show ?case unfolding foldl_Cons Cons.IH
    by (cases e; cases "ix j")
      (auto simp: drop_edge_def split: option.split intro!: filter_cong)
qed

section \<open>The invariant\<close>

definition live :: "plan \<Rightarrow> ref list" where
  "live p = filter (\<lambda>r. step_id p r \<notin> p_dead_ids p) (p_steps p)"

text \<open>The dependency slots of the live steps that hold \<open>d\<close>.\<close>

definition slots :: "plan \<Rightarrow> ref \<Rightarrow> (ref \<times> nat) set" where
  "slots p d = {(x, i). x \<in> set (live p) \<and> i < length (deps_of (p_heap p) x)
     \<and> deps_of (p_heap p) x ! i = d}"

definition plan_inv :: "plan \<Rightarrow> bool" where
  "plan_inv p \<longleftrightarrow>
     distinct (p_steps p) \<and> set (p_steps p) \<subseteq> {..<length (p_heap p)}
     \<and> inj_on (step_id p) (set (p_steps p)) \<and> (\<forall>r \<in> set (p_steps p). 0 \<le> step_id p r)
     \<and> (\<forall>r \<in> set (p_steps p). set (deps_of (p_heap p) r) \<subseteq> set (p_steps p))
     \<and> (\<forall>r \<in> set (live p). set (deps_of (p_heap p) r) \<subseteq> set (live p))
     \<and> (\<forall>d \<in> set (live p). set (edges p (step_id p d)) = slots p d)
     \<and> acyclic_heap (p_heap p)"

lemma set_live: "set (live p) = {r \<in> set (p_steps p). step_id p r \<notin> p_dead_ids p}"
  by (auto simp: live_def)

lemma plan_invD:
  assumes "plan_inv p"
  shows "distinct (p_steps p)" "\<And>r. r \<in> set (p_steps p) \<Longrightarrow> r < length (p_heap p)"
    "inj_on (step_id p) (set (p_steps p))" "\<And>r. r \<in> set (p_steps p) \<Longrightarrow> 0 \<le> step_id p r"
    "\<And>r. r \<in> set (p_steps p) \<Longrightarrow> set (deps_of (p_heap p) r) \<subseteq> set (p_steps p)"
    "\<And>r. r \<in> set (live p) \<Longrightarrow> set (deps_of (p_heap p) r) \<subseteq> set (live p)"
    "\<And>d. d \<in> set (live p) \<Longrightarrow> set (edges p (step_id p d)) = slots p d"
    "acyclic_heap (p_heap p)"
  using assms by (auto simp: plan_inv_def)

text \<open>Repointing dependents of \<open>d\<close> to an \<open>s\<close> that does not reach \<open>d\<close> keeps the heap acyclic.\<close>

lemma reach_trans:
  "a \<in> reach h stop {b} \<Longrightarrow> b \<in> reach h stop {c} \<Longrightarrow> a \<in> reach h stop {c}"
  by (induction rule: reach.induct) (auto intro: reach_dep)

lemma ranked_repoint:
  assumes rank: "ranked h rank" and nreach: "d \<notin> reach h (\<lambda>r. False) {s}"
    and deps': "\<And>x y. y \<in> set (deps_of h' x) \<Longrightarrow>
      y \<in> set (deps_of h x) \<or> y = s \<and> d \<in> set (deps_of h x)"
  shows "acyclic_heap h'"
proof -
  define above where "above x \<longleftrightarrow> d \<in> reach h (\<lambda>r. False) {x}" for x
  define rank' where "rank' x = (if above x then rank x + rank s + 1 else rank x)" for x
  have step: "above x" if "y \<in> set (deps_of h x)" "above y" for x y
  proof -
    have "y \<in> reach h (\<lambda>r. False) {x}"
      using that(1) by (intro reach_dep [OF reach_target [of x]]) auto
    with that(2) show ?thesis unfolding above_def by (rule reach_trans)
  qed
  have d: "above d" by (auto simp: above_def intro: reach_target)
  have "rank' y < rank' x" if "y \<in> set (deps_of h' x)" for x y
    using deps' [OF that]
  proof
    assume y: "y \<in> set (deps_of h x)"
    with rank have "rank y < rank x" by (rule rankedD)
    with step [OF y] show ?thesis by (auto simp: rank'_def)
  next
    assume "y = s \<and> d \<in> set (deps_of h x)"
    moreover from this step d have "above x" by auto
    ultimately show ?thesis using nreach by (simp add: rank'_def above_def)
  qed
  then show ?thesis by (auto simp: acyclic_heap_def ranked_def)
qed

section \<open>Eradicate\<close>

lemma eradicate_frame [simp]:
  "p_steps (eradicate p d s) = p_steps p"
  "length (p_heap (eradicate p d s)) = length (p_heap p)"
  "p_seen (eradicate p d s) = p_seen p"
  by (simp_all add: eradicate_def Let_def)

lemma case_map_option_filter:
  "(case map_option (filter P) m of None \<Rightarrow> [] | Some es \<Rightarrow> es)
    = filter P (case m of None \<Rightarrow> [] | Some es \<Rightarrow> es)"
  by (cases m) simp_all

lemma eradicate_edges_raw:
  assumes "d \<noteq> s"
  shows "edges (eradicate p d s) j = filter
    (\<lambda>y. \<not> (\<exists>x \<in> set (enum (deps_of (p_heap (eradicate p d s)) d)).
             y = (d, fst x) \<and> sid (obj (p_heap (eradicate p d s)) (snd x)) = j))
    (case ((p_dependents_index p)(step_id p d := None, step_id p s \<mapsto>
         (case ((p_dependents_index p)(step_id p d := None)) (step_id p s) of None \<Rightarrow> [] | Some es \<Rightarrow> es)
          @ edges p (step_id p d))) j of None \<Rightarrow> [] | Some es \<Rightarrow> es)"
proof -
  have heap: "p_heap (eradicate p d s) = foldl (repoint s) (p_heap p) (edges p (step_id p d))"
    using assms by (simp add: eradicate_def Let_def)
  have index: "p_dependents_index (eradicate p d s) =
    foldl (drop_edge (p_heap (eradicate p d s)) d)
      ((p_dependents_index p)(step_id p d := None, step_id p s \<mapsto>
         (case ((p_dependents_index p)(step_id p d := None)) (step_id p s) of None \<Rightarrow> [] | Some es \<Rightarrow> es)
          @ edges p (step_id p d)))
      (enum (deps_of (p_heap (eradicate p d s)) d))"
    using assms unfolding heap by (simp add: eradicate_def Let_def)
  show ?thesis
    unfolding edges_def [of "eradicate p d s"] index drop_edges case_map_option_filter ..
qed

lemma eradicate_attrs:
  "r < length (p_heap p) \<Longrightarrow> same_attrs (obj (p_heap (eradicate p d s)) r) (obj (p_heap p) r)"
  by (simp add: eradicate_def Let_def repoints_attrs)

lemma eradicate_unary:
  "r < length (p_heap p) \<Longrightarrow> unary (obj (p_heap (eradicate p d s)) r) \<Longrightarrow> unary (obj (p_heap p) r)"
  by (auto simp: eradicate_def Let_def dest: repoints_unary split: if_splits)

lemma eradicate_step_id:
  "r < length (p_heap p) \<Longrightarrow> step_id (eradicate p d s) r = step_id p r"
  using eradicate_attrs [of r p d s] by (simp add: step_id_def same_attrs_def)

lemma eradicate_dead:
  "p_dead_ids (eradicate p d s) = (if d = s then p_dead_ids p else insert (step_id p d) (p_dead_ids p))"
  by (simp add: eradicate_def Let_def)

lemma eradicate_deps:
  assumes "plan_inv p" and "d \<in> set (live p)" and "d \<noteq> s" and "r < length (p_heap p)"
  shows "deps_of (p_heap (eradicate p d s)) r =
     (if r \<in> set (live p) then map (\<lambda>x. if x = d then s else x) (deps_of (p_heap p) r)
      else deps_of (p_heap p) r)"
proof -
  have "deps_of (p_heap (eradicate p d s)) r
    = map (\<lambda>i. if (r, i) \<in> slots p d then s else deps_of (p_heap p) r ! i) [0..<length (deps_of (p_heap p) r)]"
    using assms plan_invD(7) [OF assms(1,2)]
    by (simp add: eradicate_def Let_def deps_of_obj repoints_deps)
  moreover have "\<dots> = (if r \<in> set (live p) then map (\<lambda>x. if x = d then s else x) (deps_of (p_heap p) r)
      else deps_of (p_heap p) r)"
    by (rule nth_equalityI) (auto simp: slots_def)
  ultimately show ?thesis by simp
qed

lemma live_eradicate:
  assumes "plan_inv p" and "d \<in> set (live p)" and "d \<noteq> s"
  shows "live (eradicate p d s) = filter (\<lambda>r. r \<noteq> d) (live p)"
proof -
  have "step_id (eradicate p d s) r \<notin> p_dead_ids (eradicate p d s)
      \<longleftrightarrow> r \<noteq> d \<and> step_id p r \<notin> p_dead_ids p" if "r \<in> set (p_steps p)" for r
    using that assms plan_invD(2,3) [OF assms(1)]
    by (auto simp: eradicate_step_id eradicate_dead set_live dest: inj_onD)
  then have "filter (\<lambda>r. step_id (eradicate p d s) r \<notin> p_dead_ids (eradicate p d s)) (p_steps p)
    = filter (\<lambda>r. r \<noteq> d \<and> step_id p r \<notin> p_dead_ids p) (p_steps p)"
    by (intro filter_cong refl) simp
  then show ?thesis by (simp add: live_def conj_commute)
qed

lemma not_self_dep: "acyclic_heap h \<Longrightarrow> d \<notin> set (deps_of h d)"
  by (auto simp: acyclic_heap_def dest: rankedD)

lemma eradicate_edges:
  assumes inv: "plan_inv p" and d: "d \<in> set (live p)" and s: "s \<in> set (live p)" and "d \<noteq> s"
    and e: "e \<in> set (live p)" "e \<noteq> d"
  shows "set (edges (eradicate p d s) (step_id p e)) =
     {(x, i) \<in> slots p e \<union> (if e = s then slots p d else {}). x \<noteq> d}"
proof -
  let ?h = "p_heap (eradicate p d s)"
  have steps: "r \<in> set (p_steps p)" if "r \<in> set (live p)" for r using that by (simp add: set_live)
  have dep_d: "deps_of ?h d = deps_of (p_heap p) d"
    using eradicate_deps [OF inv d \<open>d \<noteq> s\<close>, of d] plan_invD(2) [OF inv steps [OF d]]
      not_self_dep [OF plan_invD(8) [OF inv], of d] by (auto intro: map_idI)
  have sids: "sid (obj ?h r) = step_id p r" if "r \<in> set (p_steps p)" for r
    using eradicate_step_id plan_invD(2) [OF inv that] by (simp add: step_id_def)
  have ids: "step_id p a = step_id p b \<longleftrightarrow> a = b" if "a \<in> set (live p)" "b \<in> set (live p)" for a b
    using that steps plan_invD(3) [OF inv] by (auto dest: inj_onD)
  have dropped: "(\<exists>x \<in> set (enum (deps_of ?h d)). y = (d, fst x) \<and> sid (obj ?h (snd x)) = step_id p e)
    \<longleftrightarrow> y \<in> slots p e \<and> fst y = d" for y
  proof
    assume "\<exists>x \<in> set (enum (deps_of ?h d)). y = (d, fst x) \<and> sid (obj ?h (snd x)) = step_id p e"
    then obtain i x where x: "i < length (deps_of (p_heap p) d)" "deps_of (p_heap p) d ! i = x" "y = (d, i)"
      "sid (obj ?h x) = step_id p e" unfolding dep_d by (auto simp: Bex_def)
    then have "x \<in> set (live p)" using plan_invD(6) [OF inv d] by force
    with x(4) sids steps ids e have "x = e" by simp
    with x d show "y \<in> slots p e \<and> fst y = d" by (auto simp: slots_def)
  next
    assume y: "y \<in> slots p e \<and> fst y = d"
    then obtain i where "y = (d, i)" "i < length (deps_of (p_heap p) d)" "deps_of (p_heap p) d ! i = e"
      by (auto simp: slots_def)
    with sids [OF steps [OF e(1)]] show "\<exists>x \<in> set (enum (deps_of ?h d)). y = (d, fst x) \<and> sid (obj ?h (snd x)) = step_id p e"
      unfolding dep_d by (intro bexI [of _ "(i, e)"]) auto
  qed
  have base: "set (case ((p_dependents_index p)(step_id p d := None, step_id p s \<mapsto>
         (case ((p_dependents_index p)(step_id p d := None)) (step_id p s) of None \<Rightarrow> [] | Some es \<Rightarrow> es)
          @ edges p (step_id p d))) (step_id p e) of None \<Rightarrow> [] | Some es \<Rightarrow> es)
    = slots p e \<union> (if e = s then slots p d else {})"
    using plan_invD(7) [OF inv d] plan_invD(7) [OF inv e(1)] ids [OF d s] ids [OF e(1) s] ids [OF e(1) d] e(2) \<open>d \<noteq> s\<close>
    by (auto simp: edges_def split: option.splits)
  have "set (edges (eradicate p d s) (step_id p e))
    = {y \<in> slots p e \<union> (if e = s then slots p d else {}). \<not> (y \<in> slots p e \<and> fst y = d)}"
    unfolding eradicate_edges_raw [OF \<open>d \<noteq> s\<close>] set_filter base dropped ..
  moreover have "(d, b) \<notin> slots p d" for b
    using not_self_dep [OF plan_invD(8) [OF inv], of d] by (auto simp: slots_def dest: nth_mem)
  ultimately show ?thesis by (auto split: if_splits)
qed

lemma eradicate_slots:
  assumes inv: "plan_inv p" and d: "d \<in> set (live p)" and s: "s \<in> set (live p)" and "d \<noteq> s"
    and e: "e \<in> set (live p)" "e \<noteq> d"
  shows "slots (eradicate p d s) e =
     {(x, i) \<in> slots p e \<union> (if e = s then slots p d else {}). x \<noteq> d}"
proof -
  have "deps_of (p_heap (eradicate p d s)) x = map (\<lambda>y. if y = d then s else y) (deps_of (p_heap p) x)"
    if "x \<in> set (live p)" for x
    using eradicate_deps [OF inv d \<open>d \<noteq> s\<close>, of x] that plan_invD(2) [OF inv, of x]
    by (simp add: set_live)
  then show ?thesis
    using e \<open>d \<noteq> s\<close> by (auto simp: slots_def live_eradicate [OF inv d \<open>d \<noteq> s\<close>] split: if_splits)
qed

lemma eradicate_acyclic:
  assumes inv: "plan_inv p" and d: "d \<in> set (live p)" and "d \<noteq> s"
    and "d \<notin> reach (p_heap p) (\<lambda>r. False) {s}"
  shows "acyclic_heap (p_heap (eradicate p d s))"
proof -
  obtain rank where "ranked (p_heap p) rank"
    using plan_invD(8) [OF inv] by (auto simp: acyclic_heap_def)
  then show ?thesis using assms(4)
  proof (rule ranked_repoint)
    fix x y
    assume y: "y \<in> set (deps_of (p_heap (eradicate p d s)) x)"
    then have "x < length (p_heap p)" by (auto simp: deps_of_def split: if_splits)
    with y show "y \<in> set (deps_of (p_heap p) x) \<or> y = s \<and> d \<in> set (deps_of (p_heap p) x)"
      using eradicate_deps [OF inv d \<open>d \<noteq> s\<close>, of x] by (auto split: if_splits)
  qed
qed

lemma eradicate_inv:
  assumes inv: "plan_inv p" and d: "d \<in> set (live p)" and s: "s \<in> set (live p)" and ne: "d \<noteq> s"
    and "d \<notin> reach (p_heap p) (\<lambda>r. False) {s}"
  shows "plan_inv (eradicate p d s)"
proof -
  let ?q = "eradicate p d s"
  have steps: "r \<in> set (p_steps p)" if "r \<in> set (live p)" for r using that by (simp add: set_live)
  note in_heap = plan_invD(2) [OF inv]
  have ids: "step_id ?q r = step_id p r" if "r \<in> set (p_steps p)" for r
    using that in_heap by (simp add: eradicate_step_id)
  have deps: "set (deps_of (p_heap ?q) r) \<subseteq> insert s (set (deps_of (p_heap p) r))"
    if "r \<in> set (p_steps p)" for r
    using eradicate_deps [OF inv d ne in_heap [OF that]] by auto
  have live_deps: "set (deps_of (p_heap ?q) r) \<subseteq> set (live ?q)" if "r \<in> set (live ?q)" for r
    using that eradicate_deps [OF inv d ne, of r] in_heap [of r] steps [of r] plan_invD(6) [OF inv, of r] s ne
    by (auto simp: live_eradicate [OF inv d ne])
  have "inj_on (step_id ?q) (set (p_steps p))"
    using plan_invD(3) [OF inv] ids by (auto simp: inj_on_def)
  moreover have "set (edges ?q (step_id ?q e)) = slots ?q e" if "e \<in> set (live ?q)" for e
    using that eradicate_edges [OF inv d s ne, of e] eradicate_slots [OF inv d s ne, of e] ids steps
    by (simp add: live_eradicate [OF inv d ne])
  ultimately show ?thesis
    using plan_invD(1,2,4,5) [OF inv] ids deps live_deps steps [OF s] eradicate_acyclic [OF inv d ne assms(5)]
    unfolding plan_inv_def by (simp add: subset_iff) blast
qed

text \<open>After \<open>eradicate\<close> nothing live refers to the dead step.\<close>

lemma eradicate_gone:
  assumes inv: "plan_inv p" and d: "d \<in> set (live p)" and ne: "d \<noteq> s"
    and "r \<in> set (live (eradicate p d s))"
  shows "d \<notin> set (deps_of (p_heap (eradicate p d s)) r)"
  using assms(4) eradicate_deps [OF inv d ne, of r] plan_invD(2) [OF inv, of r] ne
  by (auto simp: live_eradicate [OF inv d ne] set_live)

section \<open>Dependents\<close>

lemma dependents_fold:
  "distinct out \<Longrightarrow>
   distinct (foldl (\<lambda>out e. if fst e \<in> set out then out else out @ [fst e]) out es)
   \<and> set (foldl (\<lambda>out e. if fst e \<in> set out then out else out @ [fst e]) out es) = set out \<union> fst ` set es"
  by (induction es arbitrary: out) auto

lemma dependents_exact:
  assumes "plan_inv p" and "d \<in> set (live p)"
  shows "distinct (dependents_of p d)
    \<and> set (dependents_of p d) = {x \<in> set (live p). d \<in> set (deps_of (p_heap p) x)}"
proof -
  have "fst ` slots p d = {x \<in> set (live p). d \<in> set (deps_of (p_heap p) x)}" (is "?l = ?r")
  proof
    show "?r \<subseteq> ?l"
    proof
      fix x
      assume "x \<in> ?r"
      then obtain i where "(x, i) \<in> slots p d" by (auto simp: slots_def in_set_conv_nth)
      then show "x \<in> ?l" by force
    qed
  qed (auto simp: slots_def)
  then show ?thesis
    using dependents_fold [of "[]" "edges p (step_id p d)"] plan_invD(7) [OF assms]
    by (simp add: dependents_of_def)
qed

section \<open>Registration\<close>

text \<open>
  While the planner only adds steps, the plan is in its growth phase: a step's id is its position,
  the registered steps are closed under dependencies and listed dependencies first, and a step
  outside the plan still has the id -1.
\<close>

definition grow_inv :: "plan \<Rightarrow> bool" where
  "grow_inv p \<longleftrightarrow>
     distinct (p_steps p) \<and> set (p_steps p) = p_seen p \<and> p_seen p \<subseteq> {..<length (p_heap p)}
     \<and> p_dead_ids p = {} \<and> (\<forall>i < length (p_steps p). step_id p (p_steps p ! i) = int i)
     \<and> (\<forall>r < length (p_heap p). r \<notin> p_seen p \<longrightarrow> step_id p r = -1)
     \<and> topo (p_heap p) (\<lambda>r. False) {} (p_steps p)
     \<and> (\<forall>d \<in> p_seen p. set (edges p (step_id p d)) = slots p d)
     \<and> (\<forall>i. (\<forall>d \<in> p_seen p. step_id p d \<noteq> i) \<longrightarrow> edges p i = [])
     \<and> acyclic_heap (p_heap p)"

lemma grow_invD:
  assumes "grow_inv p"
  shows "distinct (p_steps p)" "set (p_steps p) = p_seen p" "p_seen p \<subseteq> {..<length (p_heap p)}"
    "p_dead_ids p = {}" "\<And>i. i < length (p_steps p) \<Longrightarrow> step_id p (p_steps p ! i) = int i"
    "\<And>r. r < length (p_heap p) \<Longrightarrow> r \<notin> p_seen p \<Longrightarrow> step_id p r = -1"
    "topo (p_heap p) (\<lambda>r. False) {} (p_steps p)"
    "\<And>d. d \<in> p_seen p \<Longrightarrow> set (edges p (step_id p d)) = slots p d"
    "\<And>i. \<forall>d \<in> p_seen p. step_id p d \<noteq> i \<Longrightarrow> edges p i = []"
    "acyclic_heap (p_heap p)"
  using assms by (auto simp: grow_inv_def)

lemma grow_live: "grow_inv p \<Longrightarrow> live p = p_steps p"
  by (simp add: live_def grow_invD(4))

lemma grow_inj: "grow_inv p \<Longrightarrow> inj_on (step_id p) (p_seen p)"
  unfolding grow_inv_def inj_on_def by (metis in_set_conv_nth of_nat_eq_iff)

lemma grow_id_bounds:
  assumes "grow_inv p" and "r \<in> p_seen p"
  shows "0 \<le> step_id p r" and "step_id p r < int (length (p_steps p))"
proof -
  obtain i where "i < length (p_steps p)" "p_steps p ! i = r"
    using assms grow_invD(2) by (metis in_set_conv_nth)
  with grow_invD(5) [OF assms(1)] show "0 \<le> step_id p r" "step_id p r < int (length (p_steps p))"
    by auto
qed

lemma grow_plan_inv: "grow_inv p \<Longrightarrow> plan_inv p"
  using grow_invD [of p] grow_live [of p] grow_inj [of p] grow_id_bounds [of p]
    topo_closed [of "p_heap p" "\<lambda>r. False" "{}" "p_steps p"]
  by (auto simp: plan_inv_def)

lemma new_plan_grow:
  assumes "acyclic_heap h" and "\<forall>r < length h. sid (obj h r) = -1"
  shows "grow_inv (new_plan h)"
  using assms by (simp add: grow_inv_def new_plan_def step_id_def edges_def)

lemma deps_of_set_sid: "deps_of (h[r := (obj h r)\<lparr>sid := i\<rparr>]) x = deps_of h x"
  by (cases "r = x") (auto simp: deps_of_def obj_def nth_list_update)

lemma add_edges:
  "(case foldl (add_edge h r) ix es j of None \<Rightarrow> [] | Some xs \<Rightarrow> xs)
     = (case ix j of None \<Rightarrow> [] | Some xs \<Rightarrow> xs)
       @ map (\<lambda>e. (r, fst e)) (filter (\<lambda>e. sid (obj h (snd e)) = j) es)"
proof (induction es arbitrary: ix)
  case (Cons e es)
  show ?case unfolding foldl_Cons Cons.IH
    by (cases e) (auto simp: add_edge_def split: option.split)
qed simp

lemma enroll_simps [simp]:
  "p_steps (enroll p r) = p_steps p @ [r]"
  "p_seen (enroll p r) = insert r (p_seen p)"
  "p_dead_ids (enroll p r) = p_dead_ids p"
  "length (p_heap (enroll p r)) = length (p_heap p)"
  "deps_of (p_heap (enroll p r)) x = deps_of (p_heap p) x"
  by (simp_all add: enroll_def Let_def deps_of_set_sid)

lemma enroll_step_id:
  "x < length (p_heap p) \<Longrightarrow>
   step_id (enroll p r) x = (if x = r then int (length (p_steps p)) else step_id p x)"
  by (simp add: enroll_def Let_def step_id_def obj_update)

lemma enroll_edges:
  "edges (enroll p r) j = edges p j
     @ map (\<lambda>e. (r, fst e)) (filter (\<lambda>e. step_id (enroll p r) (snd e) = j) (enum (deps_of (p_heap p) r)))"
  unfolding edges_def
  by (simp add: enroll_def Let_def add_edges deps_of_set_sid step_id_def)

lemma topo_same_deps: "(\<And>x. deps_of h' x = deps_of h x) \<Longrightarrow> topo h' stop D rs = topo h stop D rs"
  by (induction rs arbitrary: D) simp_all

lemma acyclic_same_deps: "(\<And>x. deps_of h' x = deps_of h x) \<Longrightarrow> acyclic_heap h' = acyclic_heap h"
  by (simp add: acyclic_heap_def ranked_def)

lemma enroll_slots:
  assumes inv: "grow_inv p" and "r \<notin> p_seen p" and deps: "set (deps_of (p_heap p) r) \<subseteq> p_seen p"
    and r: "r < length (p_heap p)"
  shows "slots (enroll p r) d = slots p d
     \<union> {(r, i) | i. i < length (deps_of (p_heap p) r) \<and> deps_of (p_heap p) r ! i = d}"
proof -
  have "live (enroll p r) = p_steps p @ [r]"
    using grow_invD(4) [OF inv] by (simp add: live_def)
  then show ?thesis by (auto simp: slots_def grow_live [OF inv])
qed

lemma enroll_grow:
  assumes inv: "grow_inv p" and new: "r \<notin> p_seen p" and deps: "set (deps_of (p_heap p) r) \<subseteq> p_seen p"
    and r: "r < length (p_heap p)"
  shows "grow_inv (enroll p r)"
proof -
  let ?q = "enroll p r" and ?n = "int (length (p_steps p))"
  note I = grow_invD [OF inv]
  have id_r: "step_id ?q r = ?n" using r by (simp add: enroll_step_id)
  have id_seen: "step_id ?q d = step_id p d" if "d \<in> p_seen p" for d
    using that new I(3) by (auto simp: enroll_step_id)
  have ids_lt: "step_id p d \<noteq> ?n" if "d \<in> p_seen p" for d
    using grow_id_bounds [OF inv that] by simp
  have ids: "step_id ?q (deps_of (p_heap p) r ! i) = step_id p (deps_of (p_heap p) r ! i)"
    "deps_of (p_heap p) r ! i \<in> p_seen p" if "i < length (deps_of (p_heap p) r)" for i
    using id_seen deps that by (auto dest: nth_mem)
  have new_edges: "set (edges ?q j) = set (edges p j)
      \<union> {(r, i) | i. i < length (deps_of (p_heap p) r) \<and> step_id p (deps_of (p_heap p) r ! i) = j}" for j
    using ids by (auto simp: enroll_edges image_iff)
  have "set (edges ?q (step_id ?q d)) = slots ?q d" if "d \<in> insert r (p_seen p)" for d
  proof (cases "d = r")
    case True
    have "r \<notin> set (deps_of (p_heap p) x)" if "x \<in> p_seen p" for x
      using topo_closed [OF I(7), of x r] that I(2) new by auto
    then have "slots p r = {}" by (auto simp: slots_def grow_live [OF inv] I(2) dest: nth_mem)
    moreover have "deps_of (p_heap p) r ! i \<noteq> r \<and> step_id p (deps_of (p_heap p) r ! i) \<noteq> ?n"
      if "i < length (deps_of (p_heap p) r)" for i
      using ids(2) [OF that] new ids_lt by auto
    moreover have "edges p ?n = []" by (rule I(9)) (use ids_lt in blast)
    ultimately show ?thesis
      unfolding True id_r new_edges enroll_slots [OF inv new deps r] by auto
  next
    case False
    with that have d: "d \<in> p_seen p" by simp
    have "step_id p (deps_of (p_heap p) r ! i) = step_id p d \<longleftrightarrow> deps_of (p_heap p) r ! i = d"
      if "i < length (deps_of (p_heap p) r)" for i
      using ids(2) [OF that] d grow_inj [OF inv] by (auto dest: inj_onD)
    then show ?thesis
      unfolding id_seen [OF d] new_edges enroll_slots [OF inv new deps r] I(8) [OF d] by auto
  qed
  moreover have "edges ?q i = []" if "\<forall>d \<in> insert r (p_seen p). step_id ?q d \<noteq> i" for i
  proof -
    have "\<forall>d \<in> p_seen p. step_id p d \<noteq> i" using that id_seen by auto
    with I(9) [of i] new_edges [of i] ids(2) have "set (edges ?q i) = {}" by auto
    then show ?thesis by simp
  qed
  moreover have "step_id ?q ((p_steps p @ [r]) ! i) = int i" if "i < Suc (length (p_steps p))" for i
  proof (cases "i = length (p_steps p)")
    case False
    with that have i: "i < length (p_steps p)" by simp
    then have "p_steps p ! i \<in> p_seen p" unfolding I(2) [symmetric] by (rule nth_mem)
    then have "step_id ?q (p_steps p ! i) = int i" using I(5) [OF i] by (simp add: id_seen)
    with i show ?thesis by (simp only: nth_append if_True)
  qed (simp add: id_r)
  moreover have "topo (p_heap ?q) (\<lambda>r. False) {} (p_steps p @ [r])"
    using I(2,7) deps by (auto simp: topo_snoc topo_same_deps [of "p_heap ?q" "p_heap p"])
  moreover have "acyclic_heap (p_heap ?q)"
    using I(10) acyclic_same_deps [of "p_heap ?q" "p_heap p"] by simp
  moreover have "\<forall>x < length (p_heap p). x \<notin> insert r (p_seen p) \<longrightarrow> step_id ?q x = -1"
    using I(6) by (auto simp: enroll_step_id)
  ultimately show ?thesis
    unfolding grow_inv_def enroll_simps length_append
    using I(1-4) new r by simp
qed

lemma reach_rank:
  assumes "ranked h rank" and "x \<in> reach h stop ts"
  shows "\<exists>t \<in> ts. rank x \<le> rank t"
  using assms(2)
proof (induction rule: reach.induct)
  case (reach_dep r d)
  then obtain t where "t \<in> ts" "rank r \<le> rank t" by blast
  moreover have "rank d < rank r" using assms(1) reach_dep(2) by (rule rankedD)
  ultimately show ?case by (intro bexI [of _ t]) auto
qed auto

lemma reach_mono: "x \<in> reach h stop ts \<Longrightarrow> ts \<subseteq> ts' \<Longrightarrow> x \<in> reach h stop ts'"
  by (induction rule: reach.induct) (auto intro: reach.intros)

lemma reach_from_deps:
  "x \<in> reach h (\<lambda>r. False) (set (deps_of h r)) \<Longrightarrow> r \<in> ts \<Longrightarrow> x \<in> reach h (\<lambda>r. False) ts"
proof (induction rule: reach.induct)
  case (reach_target x)
  then have "r \<in> reach h (\<lambda>r. False) ts" by (simp add: reach.reach_target)
  then show ?case using reach_target(1) by (rule reach_dep) simp
next
  case (reach_dep x d)
  from reach_dep(4) [OF reach_dep(5)] reach_dep(2,3) show ?case by (rule reach.reach_dep)
qed

lemma reach_same_deps:
  assumes "\<And>x. deps_of h' x = deps_of h x" shows "reach h' stop ts = reach h stop ts"
proof -
  have "x \<in> reach h' stop ts \<Longrightarrow> x \<in> reach h stop ts" for x
    by (induction rule: reach.induct) (auto intro: reach.intros simp: assms)
  moreover have "x \<in> reach h stop ts \<Longrightarrow> x \<in> reach h' stop ts" for x
    by (induction rule: reach.induct) (auto intro: reach.intros simp: assms)
  ultimately show ?thesis by blast
qed

text \<open>What registering \<open>rs\<close> does to the plan \<open>p\<close>.\<close>

definition registered :: "plan \<Rightarrow> ref list \<Rightarrow> plan \<Rightarrow> bool" where
  "registered p rs p' \<longleftrightarrow> grow_inv p' \<and> (\<forall>x. deps_of (p_heap p') x = deps_of (p_heap p) x)
     \<and> length (p_heap p') = length (p_heap p) \<and> prefix (p_steps p) (p_steps p')
     \<and> p_seen p \<union> set rs \<subseteq> p_seen p' \<and> p_seen p' \<subseteq> p_seen p \<union> reach (p_heap p) (\<lambda>r. False) (set rs)"

lemma register_all_spec:
  assumes "grow_inv p" and "ranked (p_heap p) rank" and "closed_heap (p_heap p)"
    and "\<forall>r \<in> set rs. r < length (p_heap p) \<and> rank r < n"
  shows "\<exists>p'. register_all n p rs = Inr p' \<and> registered p rs p'"
  using assms
proof (induction n p rs rule: register_all.induct)
  case (1 n p)
  then show ?case by (simp add: registered_def)
next
  case (2 n p r rs)
  show ?case
  proof (cases "r \<in> p_seen p")
    case True
    with 2 obtain p' where "register_all n p rs = Inr p'" "registered p rs p'" by auto
    moreover from this(2) True have "registered p (r # rs) p'"
      by (auto simp: registered_def dest: reach_mono [of _ _ _ "set rs" "insert r (set rs)"])
    ultimately show ?thesis using True by simp
  next
    case False
    obtain m where n: "n = Suc m" using "2.prems"(4) by (cases n) auto
    let ?h = "p_heap p" and ?ds = "deps_of (p_heap p) r"
    have "\<forall>d \<in> set ?ds. d < length ?h \<and> rank d < m"
      using rankedD [OF "2.prems"(2), of _ r] "2.prems"(3,4) n by (force simp: closed_heap_def)
    with "2.IH"(2) [OF False n] "2.prems"(1-3) obtain p1 where
      p1: "register_all m p ?ds = Inr p1" "registered p ?ds p1" by auto
    note same = p1(2) [unfolded registered_def]
    have "r \<notin> reach ?h (\<lambda>r. False) (set ?ds)"
      using reach_rank [OF "2.prems"(2), of r "\<lambda>r. False" "set ?ds"] rankedD [OF "2.prems"(2), of _ r]
      by force
    with False same have r1: "r \<notin> p_seen p1" by blast
    let ?q = "enroll p1 r"
    have q: "grow_inv ?q" using same r1 "2.prems"(4) by (intro enroll_grow) auto
    have "ranked (p_heap ?q) rank" "closed_heap (p_heap ?q)"
      using same "2.prems"(2,3) by (simp_all add: ranked_def closed_heap_def)
    with "2.IH"(3) [OF False n p1(1) q] same "2.prems"(4) obtain p2 where
      p2: "register_all n ?q rs = Inr p2" "registered ?q rs p2" by auto
    have "registered p (r # rs) p2"
    proof -
      have "prefix (p_steps p) (p_steps p1)" "prefix (p_steps p1) (p_steps ?q)"
        "prefix (p_steps ?q) (p_steps p2)" using same p2(2) by (simp_all add: registered_def)
      then have "prefix (p_steps p) (p_steps p2)" using prefix_order.order_trans by blast
      moreover have "reach (p_heap ?q) (\<lambda>r. False) (set rs) = reach ?h (\<lambda>r. False) (set rs)"
        using same by (intro reach_same_deps) simp
      moreover have "p_seen p2 \<subseteq> p_seen p \<union> reach ?h (\<lambda>r. False) (set (r # rs))"
      proof
        fix x
        assume "x \<in> p_seen p2"
        with p2(2) calculation(2) same have "x = r \<or> x \<in> p_seen p
          \<or> x \<in> reach ?h (\<lambda>r. False) (set ?ds) \<or> x \<in> reach ?h (\<lambda>r. False) (set rs)"
          unfolding registered_def by auto
        then show "x \<in> p_seen p \<union> reach ?h (\<lambda>r. False) (set (r # rs))"
          using reach_mono [of x ?h "\<lambda>r. False" "set rs" "set (r # rs)"]
            reach_from_deps [of x ?h r "set (r # rs)"] reach_target [of r "set (r # rs)" "\<lambda>r. False" ?h]
          by auto
      qed
      ultimately show ?thesis
        using same p2(2) by (auto simp: registered_def)
    qed
    with p1(1) p2(1) False n show ?thesis by simp
  qed
qed

end
