(* ===== verification/Dag_Passes.thy ===== *)
theory Dag_Passes
  imports Dag_Laws
begin

text \<open>
  The deduplication pass of \<open>dag.py\<close>: it ends, merges every pair of structurally identical steps,
  never touches a side-effecting one, and its remap sends each step to a live step of the same
  value.
\<close>

section \<open>Following merges\<close>

text \<open>
  \<open>chain_ok f m\<close>: no entry points at a step that an entry at or before it removed. \<open>f\<close> gives a
  step's id.
\<close>

fun chain_ok :: "(ref \<Rightarrow> int) \<Rightarrow> remap \<Rightarrow> bool" where
  "chain_ok f [] = True"
| "chain_ok f (e # m) = ((\<forall>e' \<in> set (e # m). f (snd e') \<noteq> fst e) \<and> chain_ok f m)"

lemma chain_ok_snoc:
  "chain_ok f (m @ [(i, w)]) \<longleftrightarrow> chain_ok f m \<and> f w \<noteq> i \<and> f w \<notin> fst ` set m"
  by (induction m) auto

lemma chain_ok_cong:
  "(\<And>e. e \<in> set m \<Longrightarrow> f (snd e) = g (snd e)) \<Longrightarrow> chain_ok f m = chain_ok g m"
  by (induction m) simp_all

lemma chain_ok_split:
  "chain_ok f (pre @ (i, w) # post) \<Longrightarrow> f w \<notin> fst ` set (pre @ [(i, w)])"
  by (induction pre) auto

lemma follow_ends:
  assumes "chain_ok (step_id p) (pre @ m)" and "distinct (map fst (pre @ m))"
    and "step_id p r \<notin> fst ` set pre"
    and targets: "\<forall>e \<in> set (pre @ m). Q (snd e) \<and> (\<forall>x. Q x \<longrightarrow> step_id p x = fst e \<longrightarrow> R x (snd e))"
    and "Q r" and R: "\<And>x. Q x \<Longrightarrow> R x x" "\<And>x y z. R x y \<Longrightarrow> R y z \<Longrightarrow> R x z"
  shows "\<exists>f. follow (step_id p) (pre @ m) r = Some f \<and> Q f \<and> step_id p f \<notin> fst ` set (pre @ m) \<and> R r f"
  using assms(1-5)
proof (induction "length m" arbitrary: pre m r rule: less_induct)
  case less
  show ?case
  proof (cases "step_id p r \<in> fst ` set (pre @ m)")
    case False
    then have "map_of (pre @ m) (step_id p r) = None"
      unfolding map_of_eq_None_iff .
    then have "follow (step_id p) (pre @ m) r = Some r" by (subst follow.simps) (simp del: map_of_append)
    with False less.prems(5) R(1) show ?thesis by blast
  next
    case True
    with less.prems(3) obtain w where "(step_id p r, w) \<in> set m" by auto
    then obtain m1 m2 where m: "m = m1 @ (step_id p r, w) # m2" by (meson split_list)
    have eq: "pre @ m = (pre @ m1 @ [(step_id p r, w)]) @ m2" using m by simp
    have w: "step_id p w \<notin> fst ` set (pre @ m1 @ [(step_id p r, w)])"
      using chain_ok_split [of "step_id p" "pre @ m1" "step_id p r" w m2] less.prems(1) m by simp
    have map: "map_of (pre @ m) (step_id p r) = Some w"
      using less.prems(2) m by (intro map_of_is_SomeI) auto
    have Q: "Q w" "R r w" using less.prems(4,5) m by auto
    have "w \<noteq> r" using w by auto
    then have "follow (step_id p) (pre @ m) r = follow (step_id p) (pre @ m) w"
      using map by (subst follow.simps) simp
    moreover have "\<exists>f. follow (step_id p) ((pre @ m1 @ [(step_id p r, w)]) @ m2) w = Some f \<and> Q f
      \<and> step_id p f \<notin> fst ` set ((pre @ m1 @ [(step_id p r, w)]) @ m2) \<and> R w f"
      using less.prems(1,2,4) unfolding eq
      by (intro less.hyps) (use m w Q in simp_all)
    ultimately show ?thesis using R(2) [OF Q(2)] unfolding eq by auto
  qed
qed

section \<open>The order of a well-formed plan\<close>

lemma assign_ids_noop: "\<forall>r \<in> set rs. 0 \<le> sid (obj h r) \<Longrightarrow> assign_ids h used n rs = h"
  by (induction rs) auto

lemma order_refs_steps:
  assumes "plan_inv p"
  shows "set (order_refs (p_heap p) (p_steps p)) = set (p_steps p)"
proof -
  have "r \<in> set (p_steps p)" if "r \<in> reach (p_heap p) (\<lambda>r. False) (set (p_steps p))" for r
    using that plan_invD(5) [OF assms] by induction auto
  then show ?thesis
    using full_order.order_set [OF plan_invD(8) [OF assms]] by (auto intro: reach_target)
qed

lemma topo_order_inv:
  assumes "plan_inv p"
  shows "topo_order p = (p, order_refs (p_heap p) (p_steps p))"
proof -
  have "\<forall>r \<in> set (order_refs (p_heap p) (p_steps p)). 0 \<le> sid (obj (p_heap p) r)"
    using order_refs_steps [OF assms] plan_invD(4) [OF assms] by (auto simp: step_id_def)
  then show ?thesis
    by (simp add: topo_order_def order_steps_def Let_def assign_ids_noop)
qed

section \<open>One merge\<close>

text \<open>
  What a step computes: \<open>sem r\<close> is a function of the values of its dependencies, the same for
  steps of one class, peer key and parameters. A valuation is consistent when every live step has
  the value it computes.
\<close>

definition key_determines :: "heap \<Rightarrow> (ref \<Rightarrow> 'v list \<Rightarrow> 'v) \<Rightarrow> bool" where
  "key_determines h sem \<longleftrightarrow>
     (\<forall>r < length h. \<forall>w < length h.
        dedupable (obj h r) \<and> dedupable (obj h w) \<and> sclass (obj h r) = sclass (obj h w)
        \<and> peer_key (obj h r) = peer_key (obj h w)
        \<and> py_eqs (dedup_params (obj h w)) (dedup_params (obj h r)) \<longrightarrow> sem r = sem w)"

definition consistent :: "(ref \<Rightarrow> 'v list \<Rightarrow> 'v) \<Rightarrow> (ref \<Rightarrow> 'v) \<Rightarrow> plan \<Rightarrow> bool" where
  "consistent sem val p \<longleftrightarrow> (\<forall>r \<in> set (live p). val r = sem r (map val (deps_of (p_heap p) r)))"

lemma key_determines_attrs:
  assumes "key_determines h sem" and "length h' = length h"
    and "\<And>r. r < length h \<Longrightarrow> same_attrs (obj h' r) (obj h r)"
  shows "key_determines h' sem"
  unfolding key_determines_def assms(2)
proof (intro allI impI)
  fix r w
  assume rw: "r < length h" "w < length h"
    "dedupable (obj h' r) \<and> dedupable (obj h' w) \<and> sclass (obj h' r) = sclass (obj h' w)
        \<and> peer_key (obj h' r) = peer_key (obj h' w)
        \<and> py_eqs (dedup_params (obj h' w)) (dedup_params (obj h' r))"
  with assms(3) [OF rw(1)] assms(3) [OF rw(2)] assms(1) show "sem r = sem w"
    unfolding key_determines_def same_attrs_def by metis
qed

lemma key_eq_deps:
  assumes inv: "plan_inv p" and r: "r \<in> set (p_steps p)" and w: "w \<in> set (p_steps p)"
    and "key_eq (structural_key (p_heap p) r) (structural_key (p_heap p) w)"
  shows "deps_of (p_heap p) r = deps_of (p_heap p) w"
proof (rule inj_on_map_eq_map [THEN iffD1])
  show "map (step_id p) (deps_of (p_heap p) r) = map (step_id p) (deps_of (p_heap p) w)"
    using assms(4) by (simp add: key_eq_def structural_key_def step_id_def [abs_def])
  show "inj_on (step_id p) (set (deps_of (p_heap p) r) \<union> set (deps_of (p_heap p) w))"
    using plan_invD(3) [OF inv] plan_invD(5) [OF inv r] plan_invD(5) [OF inv w]
    by (metis inj_on_subset Un_least)
qed

lemma merge_values:
  assumes inv: "plan_inv p" and r: "r \<in> set (live p)" and w: "w \<in> set (live p)"
    and key: "key_eq (structural_key (p_heap p) r) (structural_key (p_heap p) w)"
    and dd: "dedupable (obj (p_heap p) r)" "dedupable (obj (p_heap p) w)"
    and sem: "key_determines (p_heap p) sem" "consistent sem val p"
  shows "val r = val w"
proof -
  have steps: "r \<in> set (p_steps p)" "w \<in> set (p_steps p)" using r w by (simp_all add: set_live)
  have "sem r = sem w"
    using sem(1) dd key plan_invD(2) [OF inv steps(1)] plan_invD(2) [OF inv steps(2)]
    by (simp add: key_determines_def key_eq_def structural_key_def)
  with sem(2) r w key_eq_deps [OF inv steps key] show ?thesis by (simp add: consistent_def)
qed

lemma merge_consistent:
  assumes inv: "plan_inv p" and r: "r \<in> set (live p)" and ne: "r \<noteq> w" and "val r = val w"
    and "consistent sem val p"
  shows "consistent sem val (eradicate p r w)"
  unfolding consistent_def
proof
  fix x
  assume "x \<in> set (live (eradicate p r w))"
  then have x: "x \<in> set (live p)" by (simp add: live_eradicate [OF inv r ne])
  then have "x < length (p_heap p)" using plan_invD(2) [OF inv] by (simp add: set_live)
  then have "map val (deps_of (p_heap (eradicate p r w)) x) = map val (deps_of (p_heap p) x)"
    using x assms(4) by (simp add: eradicate_deps [OF inv r ne])
  with assms(5) x show "val x = sem x (map val (deps_of (p_heap (eradicate p r w)) x))"
    by (simp add: consistent_def)
qed

lemma topo_repoint:
  assumes inv: "plan_inv p" and r: "r \<in> set (live p)" and ne: "r \<noteq> w" and "w \<in> D"
    and "topo (p_heap p) (\<lambda>r. False) D rs"
  shows "topo (p_heap (eradicate p r w)) (\<lambda>r. False) D rs"
  using assms(4,5)
proof (induction rs arbitrary: D)
  case (Cons x rs)
  have "set (deps_of (p_heap (eradicate p r w)) x) \<subseteq> insert w (set (deps_of (p_heap p) x))"
    by (cases "x < length (p_heap p)") (auto simp: eradicate_deps [OF inv r ne] deps_of_out)
  with Cons.prems Cons.IH [of "insert x D"] show ?case by auto
qed simp

lemma topo_unchanged:
  "(\<And>x. x \<in> set rs \<Longrightarrow> deps_of h' x = deps_of h x) \<Longrightarrow> topo h' stop D rs = topo h stop D rs"
  by (induction rs arbitrary: D) simp_all

section \<open>The pass\<close>

text \<open>
  The state of a pass between two steps: \<open>dn\<close> is the part of the order already walked, \<open>rs\<close>
  the rest. \<open>val\<close> is a consistent valuation, which every merge keeps.
\<close>

definition merge_log :: "plan \<Rightarrow> (ref \<Rightarrow> 'v) \<Rightarrow> remap \<Rightarrow> bool" where
  "merge_log p val merged \<longleftrightarrow>
     fst ` set merged = p_dead_ids p \<and> distinct (map fst merged) \<and> chain_ok (step_id p) merged
     \<and> (\<forall>e \<in> set merged. snd e \<in> set (p_steps p)
         \<and> (\<exists>r \<in> set (p_steps p). step_id p r = fst e \<and> dedupable (obj (p_heap p) r) \<and> val r = val (snd e)))"

definition keys_ok :: "plan \<Rightarrow> ref list \<Rightarrow> (skey \<times> ref) list \<Rightarrow> bool" where
  "keys_ok p dn by_key \<longleftrightarrow>
     (\<forall>e \<in> set by_key. fst e = structural_key (p_heap p) (snd e) \<and> snd e \<in> set (live p)
        \<and> dedupable (obj (p_heap p) (snd e)) \<and> snd e \<in> set dn)
     \<and> (\<forall>r \<in> set dn \<inter> set (live p). dedupable (obj (p_heap p) r) \<longrightarrow> r \<in> snd ` set by_key)
     \<and> sorted_wrt (\<lambda>a b. \<not> key_eq (fst b) (fst a)) by_key"

definition pass_inv ::
  "(ref \<Rightarrow> 'v list \<Rightarrow> 'v) \<Rightarrow> (ref \<Rightarrow> 'v) \<Rightarrow> plan \<Rightarrow> remap \<Rightarrow> ref list \<Rightarrow> ref list \<Rightarrow> (skey \<times> ref) list \<Rightarrow> bool" where
  "pass_inv sem val p merged dn rs by_key \<longleftrightarrow>
     plan_inv p \<and> distinct (dn @ rs) \<and> set (dn @ rs) = set (p_steps p)
     \<and> topo (p_heap p) (\<lambda>r. False) {} (dn @ rs) \<and> keys_ok p dn by_key \<and> merge_log p val merged
     \<and> key_determines (p_heap p) sem \<and> consistent sem val p"

lemma find_key_Some: "find_key k by_key = Some w \<Longrightarrow> \<exists>k'. (k', w) \<in> set by_key \<and> key_eq k k'"
  by (induction by_key rule: find_key.induct) (auto split: if_splits)

lemma find_key_None: "find_key k by_key = None \<longleftrightarrow> (\<forall>e \<in> set by_key. \<not> key_eq k (fst e))"
  by (induction by_key rule: find_key.induct) auto

lemma pass_skip:
  assumes "pass_inv sem val p merged dn (r # rs) by_key"
    and "step_id p r \<in> p_dead_ids p \<or> \<not> dedupable (obj (p_heap p) r)"
  shows "pass_inv sem val p merged (dn @ [r]) rs by_key"
  using assms by (auto simp: pass_inv_def keys_ok_def set_live)

lemma pass_new:
  assumes inv: "pass_inv sem val p merged dn (r # rs) by_key"
    and "step_id p r \<notin> p_dead_ids p" "dedupable (obj (p_heap p) r)"
    and none: "find_key (structural_key (p_heap p) r) by_key = None"
  shows "pass_inv sem val p merged (dn @ [r]) rs (by_key @ [(structural_key (p_heap p) r, r)])"
proof -
  have "r \<in> set (live p)" using inv assms(2) by (auto simp: pass_inv_def set_live)
  with inv assms(3) none show ?thesis
    by (auto simp: pass_inv_def keys_ok_def sorted_wrt_append find_key_None)
qed

lemma reach_closed:
  assumes "x \<in> reach h stop ts" and "ts \<subseteq> D" and "\<And>r d. r \<in> D \<Longrightarrow> d \<in> set (deps_of h r) \<Longrightarrow> d \<in> D"
  shows "x \<in> D"
  using assms by (induction rule: reach.induct) auto

lemma structural_key_unchanged:
  assumes "\<And>x. x \<in> insert w (set (deps_of h w)) \<Longrightarrow> same_attrs (obj h' x) (obj h x)"
    and "deps_of h' w = deps_of h w"
  shows "structural_key h' w = structural_key h w"
  using assms by (auto simp: structural_key_def same_attrs_def)

lemma pass_merge:
  assumes inv: "pass_inv sem val p merged dn (r # rs) by_key"
    and alive: "step_id p r \<notin> p_dead_ids p" and dd: "dedupable (obj (p_heap p) r)"
    and found: "find_key (structural_key (p_heap p) r) by_key = Some w"
  shows "r \<in> set (live p)" and "r \<noteq> w"
    and "pass_inv sem val (eradicate p r w) (dict_set merged (step_id (eradicate p r w) r) w)
           (dn @ [r]) rs by_key"
proof -
  let ?q = "eradicate p r w"
  note I = inv [unfolded pass_inv_def]
  have pinv: "plan_inv p" using I by simp
  have steps: "r \<in> set (p_steps p)" using I by auto
  show r: "r \<in> set (live p)" using steps alive by (simp add: set_live)
  obtain k where "(k, w) \<in> set by_key" and key: "key_eq (structural_key (p_heap p) r) k"
    using find_key_Some [OF found] by auto
  with I have w: "w \<in> set (live p)" "w \<in> set dn" "dedupable (obj (p_heap p) w)"
    and k: "k = structural_key (p_heap p) w" by (auto simp: keys_ok_def)
  show ne: "r \<noteq> w" using w(2) I by auto
  have w_steps: "w \<in> set (p_steps p)" using w(1) by (simp add: set_live)
  have topo_dn: "topo (p_heap p) (\<lambda>r. False) {} dn" and topo_rs: "topo (p_heap p) (\<lambda>r. False) (set dn) (r # rs)"
    using I by (simp_all add: topo_append)
  have dn_closed: "d \<in> set dn" if "x \<in> set dn" "d \<in> set (deps_of (p_heap p) x)" for x d
    using topo_closed [OF topo_dn that] by simp
  have "r \<notin> reach (p_heap p) (\<lambda>r. False) {w}"
    using reach_closed [of r "p_heap p" "\<lambda>r. False" "{w}" "set dn"] dn_closed w(2) I by auto
  then have qinv: "plan_inv ?q" by (rule eradicate_inv [OF pinv r w(1) ne])
  note in_heap = plan_invD(2) [OF pinv]
  have dn_deps: "deps_of (p_heap ?q) x = deps_of (p_heap p) x" if "x \<in> set dn" for x
  proof -
    have "r \<notin> set (deps_of (p_heap p) x)" using dn_closed [OF that, of r] I by auto
    then have "map (\<lambda>y. if y = r then w else y) (deps_of (p_heap p) x) = deps_of (p_heap p) x"
      by (auto intro: map_idI)
    moreover have "x \<in> set (p_steps p)" using that I by auto
    ultimately show ?thesis using eradicate_deps [OF pinv r ne in_heap, of x] by simp
  qed
  have r_deps: "deps_of (p_heap ?q) r = deps_of (p_heap p) r"
    using eradicate_deps [OF pinv r ne in_heap [OF steps]] not_self_dep [of "p_heap p" r] plan_invD(8) [OF pinv]
    by (auto intro: map_idI)
  have topo_q: "topo (p_heap ?q) (\<lambda>r. False) {} (dn @ r # rs)"
  proof -
    have "topo (p_heap ?q) (\<lambda>r. False) {} dn"
      using topo_dn dn_deps topo_unchanged [of dn "p_heap ?q" "p_heap p"] by simp
    moreover have "topo (p_heap ?q) (\<lambda>r. False) (set dn) (r # rs)"
      using topo_repoint [OF pinv r ne w(2) topo_rs] .
    ultimately show ?thesis by (simp add: topo_append)
  qed
  have attrs: "same_attrs (obj (p_heap ?q) x) (obj (p_heap p) x)" if "x \<in> set (p_steps p)" for x
    using that in_heap by (simp add: eradicate_attrs)
  have "keys_ok ?q (dn @ [r]) by_key"
  proof -
    have "structural_key (p_heap ?q) x = structural_key (p_heap p) x" if "x \<in> set dn" for x
      using that dn_deps [OF that] plan_invD(5) [OF pinv, of x] attrs I
      by (intro structural_key_unchanged) auto
    moreover have "x \<in> set (live ?q)" if "x \<in> set (live p)" "x \<in> set dn" for x
      using that I by (auto simp: live_eradicate [OF pinv r ne])
    moreover have "dedupable (obj (p_heap ?q) x) = dedupable (obj (p_heap p) x)" if "x \<in> set (live p)" for x
      using attrs [of x] that by (simp add: set_live same_attrs_def)
    ultimately show ?thesis
      using I unfolding keys_ok_def live_eradicate [OF pinv r ne] by (fastforce simp: set_live)
  qed
  moreover have val_eq: "val r = val w"
  proof (rule merge_values [OF pinv r w(1) _ dd w(3)])
    show "key_eq (structural_key (p_heap p) r) (structural_key (p_heap p) w)" using key k by simp
    show "key_determines (p_heap p) sem" "consistent sem val p" using I by simp_all
  qed
  moreover have "merge_log ?q val (dict_set merged (step_id ?q r) w)"
  proof -
    have ids: "step_id ?q x = step_id p x" if "x \<in> set (p_steps p)" for x
      using that in_heap by (simp add: eradicate_step_id)
    have log: "merge_log p val merged" using I by simp
    have fresh: "step_id p r \<notin> fst ` set merged" "step_id p w \<notin> fst ` set merged"
      using log alive w(1) by (simp_all add: merge_log_def set_live)
    have set_eq: "dict_set merged (step_id ?q r) w = merged @ [(step_id p r, w)]"
      using fresh ids [OF steps] by (simp add: dict_set_fresh)
    have "step_id p w \<noteq> step_id p r"
      using plan_invD(3) [OF pinv] steps w_steps ne by (auto dest: inj_onD)
    moreover have "chain_ok (step_id ?q) m = chain_ok (step_id p) m"
      if "snd ` set m \<subseteq> set (p_steps p)" for m
      using that ids by (intro chain_ok_cong) auto
    ultimately have "chain_ok (step_id ?q) (merged @ [(step_id p r, w)])"
      using log fresh(2) w_steps ids [OF w_steps]
      by (auto simp: chain_ok_snoc merge_log_def)
    moreover have "dedupable (obj (p_heap ?q) x) = dedupable (obj (p_heap p) x)" if "x \<in> set (p_steps p)" for x
      using attrs [OF that] by (simp add: same_attrs_def)
    ultimately show ?thesis
      using log fresh ne steps w_steps dd val_eq ids
      unfolding merge_log_def set_eq eradicate_dead by (auto simp: image_Un)
  qed
  moreover have "key_determines (p_heap ?q) sem"
    using I eradicate_attrs [of _ p r w] by (auto intro: key_determines_attrs [of "p_heap p"])
  ultimately show "pass_inv sem val ?q (dict_set merged (step_id ?q r) w) (dn @ [r]) rs by_key"
    using I qinv topo_q merge_consistent [OF pinv r ne val_eq]
    by (simp add: pass_inv_def)
qed

text \<open>What a pass, and the loop of passes, keeps of the plan it started on.\<close>

definition same_plan :: "plan \<Rightarrow> plan \<Rightarrow> bool" where
  "same_plan p q \<longleftrightarrow> p_steps q = p_steps p \<and> length (p_heap q) = length (p_heap p)
     \<and> (\<forall>r < length (p_heap p). same_attrs (obj (p_heap q) r) (obj (p_heap p) r))"

lemma same_plan_refl [simp]: "same_plan p p"
  by (simp add: same_plan_def)

lemma same_plan_trans: "same_plan p q \<Longrightarrow> same_plan q s \<Longrightarrow> same_plan p s"
  unfolding same_plan_def by (metis same_attrs_trans)

lemma same_plan_eradicate: "same_plan p (eradicate p d s)"
  by (simp add: same_plan_def eradicate_attrs)

lemma dedup_pass_changed: "dedup_pass rs p merged by_key True = (p', merged', changed') \<Longrightarrow> changed'"
  by (induction rs arbitrary: p merged by_key)
    (auto simp: Let_def split: if_splits option.splits)

lemma dedup_pass_spec:
  assumes "pass_inv sem val p merged dn rs by_key"
    and "dedup_pass rs p merged by_key changed = (p', merged', changed')"
  shows "(\<exists>by_key'. pass_inv sem val p' merged' (dn @ rs) [] by_key') \<and> same_plan p p'
    \<and> (if changed' then changed \<or> length (live p') < length (live p) else p' = p \<and> merged' = merged)
    \<and> length (live p') \<le> length (live p)"
  using assms
proof (induction rs p merged by_key changed arbitrary: dn rule: dedup_pass.induct)
  case (2 r rs p merged by_key changed)
  let ?dead = "step_id p r \<in> p_dead_ids p \<or> \<not> dedupable (obj (p_heap p) r)"
  let ?key = "structural_key (p_heap p) r"
  consider (skip) ?dead | (new) "\<not> ?dead" "find_key ?key by_key = None"
    | (merge) w where "\<not> ?dead" "find_key ?key by_key = Some w" by fastforce
  then show ?case
  proof cases
    case skip
    with "2.IH"(1) [OF skip pass_skip [OF "2.prems"(1) skip]] "2.prems"(2) show ?thesis by simp
  next
    case new
    have inv: "pass_inv sem val p merged (dn @ [r]) rs (by_key @ [(?key, r)])"
      using pass_new [OF "2.prems"(1)] new by simp
    have eq: "dedup_pass rs p merged (by_key @ [(?key, r)]) changed = (p', merged', changed')"
      using "2.prems"(2) new by (simp add: Let_def)
    show ?thesis using "2.IH"(2) [OF new(1) refl new(2) inv eq] by simp
  next
    case merge
    let ?q = "eradicate p r w"
    note m = pass_merge [OF "2.prems"(1) _ _ merge(2)]
    have alive: "step_id p r \<notin> p_dead_ids p" "dedupable (obj (p_heap p) r)" using merge(1) by simp_all
    have pinv: "plan_inv p" using "2.prems"(1) by (simp add: pass_inv_def)
    have less: "length (live ?q) < length (live p)"
      using m(1) [OF alive] live_eradicate [OF pinv m(1) [OF alive] m(2) [OF alive]]
      by (simp add: length_filter_less)
    have eq: "dedup_pass rs ?q (dict_set merged (step_id ?q r) w) by_key True = (p', merged', changed')"
      using "2.prems"(2) merge by (simp add: Let_def)
    have "(\<exists>by_key'. pass_inv sem val p' merged' (dn @ r # rs) [] by_key') \<and> same_plan ?q p'
      \<and> length (live p') \<le> length (live ?q)"
      using "2.IH"(3) [OF merge(1) refl merge(2) refl m(3) [OF alive] eq] by simp
    moreover have "changed'"
      using eq by (rule dedup_pass_changed)
    ultimately show ?thesis using less same_plan_trans [OF same_plan_eradicate] by auto
  qed
qed auto

text \<open>No two live steps are structurally identical.\<close>

definition no_twins :: "plan \<Rightarrow> bool" where
  "no_twins p \<longleftrightarrow>
     (\<forall>a \<in> set (live p). \<forall>b \<in> set (live p). a \<noteq> b \<and> dedupable (obj (p_heap p) a) \<and> dedupable (obj (p_heap p) b) \<longrightarrow>
        \<not> (key_eq (structural_key (p_heap p) a) (structural_key (p_heap p) b)
           \<and> key_eq (structural_key (p_heap p) b) (structural_key (p_heap p) a)))"

lemma sorted_wrt_pair:
  "sorted_wrt P xs \<Longrightarrow> x \<in> set xs \<Longrightarrow> y \<in> set xs \<Longrightarrow> x \<noteq> y \<Longrightarrow> P x y \<or> P y x"
  by (induction xs) auto

lemma keys_no_twins:
  assumes "keys_ok p dn by_key" and "set (live p) \<subseteq> set dn"
  shows "no_twins p"
  unfolding no_twins_def
proof (intro ballI impI)
  fix a b
  assume ab: "a \<in> set (live p)" "b \<in> set (live p)"
    "a \<noteq> b \<and> dedupable (obj (p_heap p) a) \<and> dedupable (obj (p_heap p) b)"
  with assms have "a \<in> snd ` set by_key" "b \<in> snd ` set by_key" by (auto simp: keys_ok_def)
  then obtain x y where "x \<in> set by_key" "y \<in> set by_key" "snd x = a" "snd y = b" by auto
  moreover from this assms have "fst x = structural_key (p_heap p) a" "fst y = structural_key (p_heap p) b"
    by (auto simp: keys_ok_def)
  moreover have "x \<noteq> y" using calculation ab by auto
  ultimately show "\<not> (key_eq (structural_key (p_heap p) a) (structural_key (p_heap p) b)
           \<and> key_eq (structural_key (p_heap p) b) (structural_key (p_heap p) a))"
    using assms(1) sorted_wrt_pair [of "\<lambda>a b. \<not> key_eq (fst b) (fst a)" by_key x y]
    by (auto simp: keys_ok_def)
qed

lemma dedup_loop_spec:
  assumes "plan_inv p" and "merge_log p val merged" and "key_determines (p_heap p) sem"
    and "consistent sem val p"
  shows "\<exists>p' merged'. dedup_loop p merged = Some (p', merged') \<and> plan_inv p' \<and> merge_log p' val merged'
    \<and> consistent sem val p' \<and> no_twins p' \<and> same_plan p p'"
  using assms
proof (induction "length (live p)" arbitrary: p merged rule: less_induct)
  case less
  let ?ord = "order_refs (p_heap p) (p_steps p)"
  have ac: "acyclic_heap (p_heap p)" using less.prems(1) by (rule plan_invD)
  have start: "pass_inv sem val p merged [] ?ord []"
    using less.prems order_refs_steps [OF less.prems(1)] full_order.order_distinct [OF ac]
      full_order.order_topo [OF ac]
    by (simp add: pass_inv_def keys_ok_def)
  obtain p1 merged1 ch where pass: "dedup_pass ?ord p merged [] False = (p1, merged1, ch)"
    by (cases "dedup_pass ?ord p merged [] False")
  obtain by_key where end1: "pass_inv sem val p1 merged1 ?ord [] by_key" and same: "same_plan p p1"
    and ch: "if ch then False \<or> length (live p1) < length (live p) else p1 = p \<and> merged1 = merged"
    using dedup_pass_spec [OF start pass] by (elim conjE exE) (simp only: append_Nil)
  have inv1: "plan_inv p1" "merge_log p1 val merged1" "key_determines (p_heap p1) sem" "consistent sem val p1"
    using end1 by (simp_all add: pass_inv_def)
  show ?case
  proof (cases ch)
    case False
    then have "dedup_loop p merged = Some (p1, merged1)"
      using pass by (subst dedup_loop.simps) (simp add: topo_order_inv [OF less.prems(1)])
    moreover have "no_twins p1"
      using end1 by (intro keys_no_twins [of _ ?ord by_key]) (auto simp: pass_inv_def set_live)
    ultimately show ?thesis using inv1 same by blast
  next
    case True
    then have "dedup_loop p merged = dedup_loop p1 merged1"
      using pass by (subst dedup_loop.simps) (simp add: topo_order_inv [OF less.prems(1)])
    with less.hyps [OF _ inv1] ch True same_plan_trans [OF same] show ?thesis by fastforce
  qed
qed

section \<open>Sweeping and the full remap\<close>

lemma sweep_simps [simp]:
  "p_heap (sweep_dead p) = p_heap p" "p_dead_ids (sweep_dead p) = {}"
  "p_steps (sweep_dead p) = live p" "step_id (sweep_dead p) = step_id p"
  "edges (sweep_dead p) = edges p" "live (sweep_dead p) = live p"
  by (auto simp: sweep_dead_def live_def step_id_def [abs_def] edges_def [abs_def])

lemma sweep_inv: "plan_inv p \<Longrightarrow> plan_inv (sweep_dead p)"
proof -
  assume inv: "plan_inv p"
  have "distinct (live p)" using plan_invD(1) [OF inv] by (simp add: live_def)
  moreover have "slots (sweep_dead p) d = slots p d" for d by (simp add: slots_def)
  ultimately show ?thesis
    using plan_invD(2-8) [OF inv] unfolding plan_inv_def
    by (auto simp: set_live inj_on_def)
qed

lemma full_remap_spec:
  assumes "\<And>r. r \<in> set rs \<Longrightarrow> follow (step_id p) m r = Some (f r)" and "distinct rs"
    and "inj_on (step_id p) (set rs)"
  shows "\<exists>out'. full_remap p m rs out = Some out'
    \<and> (\<forall>r \<in> set rs. map_of out' (step_id p r) = Some (f r))
    \<and> (\<forall>i. i \<notin> step_id p ` set rs \<longrightarrow> map_of out' i = map_of out i)"
  using assms
proof (induction rs arbitrary: out)
  case (Cons r rs)
  then obtain out' where "full_remap p m rs (dict_set out (step_id p r) (f r)) = Some out'"
    "\<forall>x \<in> set rs. map_of out' (step_id p x) = Some (f x)"
    "\<forall>i. i \<notin> step_id p ` set rs \<longrightarrow> map_of out' i = map_of (dict_set out (step_id p r) (f r)) i"
    by (metis distinct.simps(2) inj_on_insert list.set_intros(2) list.simps(15))
  moreover have "step_id p r \<notin> step_id p ` set rs" using Cons.prems(2,3) by auto
  ultimately show ?case using Cons.prems(1) by (intro exI [of _ out']) auto
qed simp

lemma deduplicate_spec:
  assumes inv: "plan_inv p" and "p_dead_ids p = {}" and sem: "key_determines (p_heap p) sem" "consistent sem val p"
  shows "\<exists>p' out. deduplicate p = Some (p', out) \<and> plan_inv p' \<and> no_twins p' \<and> consistent sem val p'
    \<and> set (p_steps p') \<subseteq> set (p_steps p)
    \<and> (\<forall>r \<in> set (p_steps p). \<exists>f \<in> set (p_steps p'). map_of out (step_id p r) = Some f \<and> val f = val r)
    \<and> (\<forall>r \<in> set (p_steps p'). map_of out (step_id p r) = Some r)
    \<and> (\<forall>r \<in> set (p_steps p). \<not> dedupable (obj (p_heap p) r) \<longrightarrow> r \<in> set (p_steps p'))
    \<and> (\<forall>r < length (p_heap p). same_attrs (obj (p_heap p') r) (obj (p_heap p) r))"
proof -
  have "merge_log p val []" using assms(2) by (simp add: merge_log_def)
  with dedup_loop_spec [OF inv _ sem] obtain p1 merged where loop: "dedup_loop p [] = Some (p1, merged)"
    and inv1: "plan_inv p1" and log: "merge_log p1 val merged" and cons: "consistent sem val p1"
    and twins: "no_twins p1" and same: "same_plan p p1" by metis
  have steps: "p_steps p1 = p_steps p" using same by (simp add: same_plan_def)
  have ids: "step_id p1 r = step_id p r" if "r \<in> set (p_steps p)" for r
    using that plan_invD(2) [OF inv, of r] same by (simp add: same_plan_def same_attrs_def step_id_def)
  have same_val: "val x = val (snd e)" if "e \<in> set merged" "x \<in> set (p_steps p)" "step_id p1 x = fst e" for e x
    using that log plan_invD(3) [OF inv1] unfolding merge_log_def steps by (metis inj_onD)
  have "\<exists>f. follow (step_id p1) merged r = Some f \<and> f \<in> set (p_steps p) \<and> step_id p1 f \<notin> fst ` set merged \<and> val r = val f"
    if "r \<in> set (p_steps p)" for r
    using follow_ends [of p1 "[]" merged r "\<lambda>x. x \<in> set (p_steps p)" "\<lambda>x y. val x = val y"] log same_val that
    by (simp add: merge_log_def steps)
  then obtain f where f: "\<And>r. r \<in> set (p_steps p) \<Longrightarrow> follow (step_id p1) merged r = Some (f r)
      \<and> f r \<in> set (p_steps p) \<and> step_id p1 (f r) \<notin> p_dead_ids p1 \<and> val r = val (f r)"
    using log unfolding merge_log_def by metis
  have "inj_on (step_id p1) (set (p_steps p))" using plan_invD(3) [OF inv1] steps by simp
  with full_remap_spec [of "p_steps p" "sweep_dead p1" merged f "[]"] f plan_invD(1) [OF inv]
  obtain out where out: "full_remap (sweep_dead p1) merged (p_steps p) [] = Some out"
    "\<And>r. r \<in> set (p_steps p) \<Longrightarrow> map_of out (step_id p1 r) = Some (f r)"
    by auto
  have self: "f r = r" if "r \<in> set (live p1)" for r
  proof -
    have "map_of merged (step_id p1 r) = None"
      using that log by (auto simp: merge_log_def set_live map_of_eq_None_iff)
    then have "follow (step_id p1) merged r = Some r" by (subst follow.simps) simp
    with f [of r] that steps show ?thesis by (simp add: set_live)
  qed
  have live_f: "f r \<in> set (live p1)" if "r \<in> set (p_steps p)" for r
    using f [OF that] steps by (simp add: set_live)
  have kept: "r \<in> set (live p1)" if "r \<in> set (p_steps p)" "\<not> dedupable (obj (p_heap p) r)" for r
  proof (rule ccontr)
    assume "r \<notin> set (live p1)"
    with that steps log have "step_id p1 r \<in> fst ` set merged" by (simp add: set_live merge_log_def)
    then obtain e where "e \<in> set merged" "fst e = step_id p1 r" by force
    with log obtain x where "x \<in> set (p_steps p1)" "step_id p1 x = step_id p1 r" "dedupable (obj (p_heap p1) x)"
      by (auto simp: merge_log_def)
    with that steps plan_invD(3) [OF inv1] have "dedupable (obj (p_heap p1) r)" by (metis inj_onD)
    with that same plan_invD(2) [OF inv, of r] show False by (simp add: same_plan_def same_attrs_def)
  qed
  have "no_twins (sweep_dead p1)" using twins by (simp add: no_twins_def)
  moreover have "consistent sem val (sweep_dead p1)" using cons by (simp add: consistent_def)
  moreover have "set (p_steps (sweep_dead p1)) \<subseteq> set (p_steps p)" using steps by (auto simp: set_live)
  moreover have "\<forall>r \<in> set (p_steps p). \<exists>g \<in> set (p_steps (sweep_dead p1)).
      map_of out (step_id p r) = Some g \<and> val g = val r"
    using f out(2) ids live_f by (metis sweep_simps(3))
  moreover have "\<forall>r \<in> set (p_steps (sweep_dead p1)). map_of out (step_id p r) = Some r"
    using out(2) ids self steps by (simp add: set_live) metis
  ultimately show ?thesis
    using loop out(1) sweep_inv [OF inv1] kept same
    by (intro exI [of _ "sweep_dead p1"] exI [of _ out])
      (simp add: deduplicate_def Let_def same_plan_def)
qed

section \<open>Tree shaking\<close>

lemma reach_steps:
  assumes "plan_inv p" and "ts \<subseteq> set (p_steps p)" and "r \<in> reach (p_heap p) (\<lambda>r. False) ts"
  shows "r \<in> set (p_steps p)"
proof (rule reach_closed [OF assms(3,2)])
  fix x d
  assume "x \<in> set (p_steps p)" "d \<in> set (deps_of (p_heap p) x)"
  with plan_invD(5) [OF assms(1)] show "d \<in> set (p_steps p)" by blast
qed

lemma order_steps_inv:
  assumes "plan_inv p" and "set ts \<subseteq> set (p_steps p)"
  shows "order_steps (p_heap p) ts = (p_heap p, order_refs (p_heap p) ts)"
    and "set (order_refs (p_heap p) ts) = reach (p_heap p) (\<lambda>r. False) (set ts)"
proof -
  show set_eq: "set (order_refs (p_heap p) ts) = reach (p_heap p) (\<lambda>r. False) (set ts)"
    using plan_invD(8) [OF assms(1)] by (rule full_order.order_set)
  then have "\<forall>r \<in> set (order_refs (p_heap p) ts). 0 \<le> sid (obj (p_heap p) r)"
    using reach_steps [OF assms] plan_invD(4) [OF assms(1)] by (auto simp: step_id_def)
  then show "order_steps (p_heap p) ts = (p_heap p, order_refs (p_heap p) ts)"
    by (simp add: order_steps_def Let_def assign_ids_noop)
qed

lemma reach_Un:
  "reach h stop (A \<union> B) = reach h stop A \<union> reach h stop B"
proof -
  have "x \<in> reach h stop A \<union> reach h stop B" if "x \<in> reach h stop (A \<union> B)" for x
    using that by induction (auto intro: reach.intros)
  then show ?thesis by (auto intro: reach_mono)
qed

lemma tree_shake_spec:
  assumes inv: "plan_inv p" and none: "p_dead_ids p = {}" and roots: "set roots \<subseteq> set (p_steps p)"
    and shake: "tree_shake p roots = (p', orphans)"
  shows "plan_inv p'" and "p_heap p' = p_heap p" and "p_dead_ids p' = {}"
    and "set (p_steps p') = reach (p_heap p) (\<lambda>r. False)
           (set roots \<union> {r \<in> set (p_steps p). \<not> dedupable (obj (p_heap p) r)})"
    and "set orphans = {r \<in> set (p_steps p). \<not> dedupable (obj (p_heap p) r)
           \<and> r \<notin> reach (p_heap p) (\<lambda>r. False) (set roots)}"
proof -
  let ?h = "p_heap p"
  define eff where "eff = filter (\<lambda>r. \<not> dedupable (obj ?h r)) (p_steps p)"
  define A where "A = reach ?h (\<lambda>r. False) (set roots)"
  define K where "K = reach ?h (\<lambda>r. False) (set roots \<union> set eff)"
  have eff: "set eff \<subseteq> set (p_steps p)" by (auto simp: eff_def)
  have K: "K = A \<union> reach ?h (\<lambda>r. False) (set eff)" by (simp add: K_def A_def reach_Un)
  have K_steps: "K \<subseteq> set (p_steps p)"
    using reach_steps [OF inv, of "set roots \<union> set eff"] roots eff by (auto simp: K_def)
  have A_steps: "A \<subseteq> set (p_steps p)" using K K_steps by blast
  have mem: "step_id p r \<in> step_id p ` S \<longleftrightarrow> r \<in> S" if "S \<subseteq> set (p_steps p)" "r \<in> set (p_steps p)" for r S
    using that plan_invD(3) [OF inv] by (meson inj_on_image_mem_iff)
  let ?keep = "step_id p ` K"
  have reach_ids: "step_id p ` set (order_refs ?h roots) = step_id p ` A"
    by (simp add: order_steps_inv(2) [OF inv roots] A_def step_id_def [abs_def])
  have keep_ids: "step_id p ` A \<union> step_id p ` set (order_refs ?h eff) = ?keep"
    by (simp add: order_steps_inv(2) [OF inv eff] K image_Un step_id_def [abs_def])
  have shape: "p' = p\<lparr>p_steps := filter (\<lambda>r. step_id p r \<in> ?keep) (p_steps p),
      p_dependents_index := (\<lambda>i. if i \<in> ?keep
        then map_option (filter (\<lambda>e. step_id p (fst e) \<in> ?keep)) (p_dependents_index p i) else None)\<rparr>"
    and orph: "orphans = filter (\<lambda>r. step_id p r \<notin> step_id p ` A) eff"
    using shake unfolding tree_shake_def order_steps_inv(1) [OF inv roots] prod.case Let_def
      eff_def [symmetric] order_steps_inv(1) [OF inv eff] step_id_def [symmetric]
    unfolding reach_ids keep_ids by (simp_all add: eff_def)
  have steps': "p_steps p' = filter (\<lambda>r. r \<in> K) (p_steps p)"
    using mem [OF K_steps] unfolding shape by (auto intro: filter_cong)
  show heap: "p_heap p' = ?h" and dead: "p_dead_ids p' = {}" using none by (simp_all add: shape)
  have ids: "step_id p' = step_id p" by (simp add: step_id_def [abs_def] heap)
  show "set (p_steps p') = reach ?h (\<lambda>r. False)
           (set roots \<union> {r \<in> set (p_steps p). \<not> dedupable (obj ?h r)})"
    using K_steps unfolding steps' K_def eff_def by auto
  show "set orphans = {r \<in> set (p_steps p). \<not> dedupable (obj ?h r) \<and> r \<notin> reach ?h (\<lambda>r. False) (set roots)}"
    using mem [OF A_steps] unfolding orph eff_def A_def by auto
  have live': "live p' = p_steps p'" by (simp add: live_def dead)
  have live_p: "live p = p_steps p" by (simp add: live_def none)
  have closed: "x \<in> K" if "r \<in> K" "x \<in> set (deps_of ?h r)" for r x
    using that by (auto simp: K_def intro: reach_dep)
  have "set (edges p' (step_id p' d)) = slots p' d" if "d \<in> K" for d
  proof -
    have "edges p' (step_id p d) = filter (\<lambda>e. step_id p (fst e) \<in> ?keep) (edges p (step_id p d))"
      using that by (auto simp: edges_def shape split: option.split)
    moreover have "set (edges p (step_id p d)) = slots p d"
      using that K_steps by (intro plan_invD(7) [OF inv]) (auto simp: live_p)
    ultimately have "set (edges p' (step_id p d)) = {e \<in> slots p d. step_id p (fst e) \<in> ?keep}" by simp
    also have "\<dots> = {e \<in> slots p d. fst e \<in> K}"
    proof (rule Collect_cong, rule conj_cong [OF refl])
      fix e
      assume "e \<in> slots p d"
      then have "fst e \<in> set (p_steps p)" by (auto simp: slots_def live_p)
      then show "step_id p (fst e) \<in> ?keep \<longleftrightarrow> fst e \<in> K" by (rule mem [OF K_steps])
    qed
    finally have "set (edges p' (step_id p d)) = {e \<in> slots p d. fst e \<in> K}" .
    then show ?thesis using K_steps by (auto simp: ids slots_def live' live_p steps' heap)
  qed
  then show "plan_inv p'"
    using plan_invD(1-4,8) [OF inv] closed K_steps unfolding plan_inv_def live' ids heap
    by (auto simp: steps' inj_on_def)
qed

section \<open>The optimize pass with hooks that keep every step\<close>

lemma no_side_replacements: "p_side_replacements p = [] \<Longrightarrow> p\<lparr>p_side_replacements := []\<rparr> = p"
  by simp

lemma optimize_pass_identity:
  "p_side_replacements p = [] \<Longrightarrow> optimize_pass depth identity_hook rs p merged ch = Inr (p, merged, ch)"
  by (induction rs) (simp_all add: identity_hook_def Let_def no_side_replacements)

lemma optimize_identity_noop:
  assumes "plan_inv p" and "p_dead_ids p = {}" and "p_side_replacements p = []"
  shows "optimize depth identity_hook p = Some (Inr (p, []))"
proof -
  have "optimize_loop (Suc n) depth identity_hook p [] = Inr (p, [])" for n
    by (simp add: topo_order_inv [OF assms(1)] optimize_pass_identity [OF assms(3)])
  from this [of 999] show ?thesis using assms(2)
    by (simp add: optimize_def max_optimization_loops_def sweep_dead_def resolve_merged_def)
qed

section \<open>Composed remaps\<close>

text \<open>\<open>compose_remaps\<close> is the composition: an id the first remap moved follows the second through
  the id of its replacement; an id only the second knows goes where the second sends it.\<close>

lemma compose_fold1:
  "map_of (foldl (\<lambda>out (old_id, mid). dict_set out old_id (g mid)) out0 xs) i
     = (case map_of (rev xs) i of None \<Rightarrow> map_of out0 i | Some mid \<Rightarrow> Some (g mid))"
proof (induction xs arbitrary: out0)
  case (Cons x xs)
  show ?case unfolding foldl_Cons Cons.IH
    by (cases x) (auto simp: map_add_def split: option.split)
qed simp

lemma compose_fold2:
  "map_of (foldl (\<lambda>out (old_id, s). if map_of out old_id = None then out @ [(old_id, s)] else out) out0 xs) i
     = (case map_of out0 i of None \<Rightarrow> map_of xs i | Some r \<Rightarrow> Some r)"
proof (induction xs arbitrary: out0)
  case (Cons x xs)
  show ?case unfolding foldl_Cons Cons.IH
    by (cases x) (auto simp: map_add_def split: option.split)
qed (auto split: option.split)

lemma map_of_rev: "distinct (map fst xs) \<Longrightarrow> map_of (rev xs) = map_of xs"
  using map_of_inject_set [of "rev xs" xs] by (simp add: rev_map [symmetric])

lemma compose_remaps_spec:
  assumes "distinct (map fst first)"
  shows "map_of (compose_remaps p first second) i =
     (case map_of first i of
        Some mid \<Rightarrow> Some (case map_of second (step_id p mid) of None \<Rightarrow> mid | Some s \<Rightarrow> s)
      | None \<Rightarrow> map_of second i)"
  unfolding compose_remaps_def compose_fold1 compose_fold2
  by (simp add: map_of_rev [OF assms] split: option.split)

end
