(* ===== verification/Dag_Properties.thy ===== *)
theory Dag_Properties
  imports Dag_Passes
begin

text \<open>
  The correctness properties of the plan DAG: orders, ids, registration, the reverse index,
  deduplication, tree shaking and remaps, each with an instance on a concrete plan.
\<close>

section \<open>Ids\<close>

lemma assign_ids_spec:
  assumes "finite used" and "0 \<le> n" and "distinct rs" and "set rs \<subseteq> {..<length h}"
    and "\<forall>r \<in> set rs. 0 \<le> sid (obj h r) \<longrightarrow> sid (obj h r) \<in> used"
    and "inj_on (\<lambda>r. sid (obj h r)) {r \<in> set rs. 0 \<le> sid (obj h r)}"
  shows "(\<forall>r \<in> set rs. 0 \<le> sid (obj (assign_ids h used n rs) r))
    \<and> inj_on (\<lambda>r. sid (obj (assign_ids h used n rs) r)) (set rs)
    \<and> (\<forall>r. r \<notin> set rs \<or> 0 \<le> sid (obj h r) \<longrightarrow> obj (assign_ids h used n rs) r = obj h r)
    \<and> (\<forall>r \<in> set rs. sid (obj h r) < 0 \<longrightarrow> sid (obj (assign_ids h used n rs) r) \<notin> used)"
  using assms
proof (induction rs arbitrary: h used n)
  case (Cons r rs)
  show ?case
  proof (cases "sid (obj h r) < 0")
    case True
    define m where "m = next_free used n"
    define h1 where "h1 = h[r := (obj h r)\<lparr>sid := m\<rparr>]"
    define h2 where "h2 = assign_ids h1 (insert m used) m rs"
    have eq: "assign_ids h used n (r # rs) = h2" using True by (simp add: m_def h1_def h2_def Let_def)
    have m: "m \<notin> used" "0 \<le> m" using next_free_fresh [OF Cons.prems(1), of n] Cons.prems(2)
      by (auto simp: m_def)
    have other: "obj h1 x = obj h x" if "x \<noteq> r" for x using that by (simp add: h1_def obj_def)
    have self: "sid (obj h1 r) = m" using Cons.prems(4) by (simp add: h1_def obj_def)
    have r: "r \<notin> set rs" using Cons.prems(3) by simp
    have same: "\<forall>x \<in> set rs. obj h1 x = obj h x"
    proof
      fix x assume "x \<in> set rs"
      with r have "x \<noteq> r" by auto
      then show "obj h1 x = obj h x" by (rule other)
    qed
    have "inj_on (\<lambda>r. sid (obj h1 r)) {r \<in> set rs. 0 \<le> sid (obj h1 r)}"
      using Cons.prems(6) same by (auto simp: inj_on_def)
    then have IH: "(\<forall>r \<in> set rs. 0 \<le> sid (obj h2 r)) \<and> inj_on (\<lambda>r. sid (obj h2 r)) (set rs)
        \<and> (\<forall>r. r \<notin> set rs \<or> 0 \<le> sid (obj h1 r) \<longrightarrow> obj h2 r = obj h1 r)
        \<and> (\<forall>r \<in> set rs. sid (obj h1 r) < 0 \<longrightarrow> sid (obj h2 r) \<notin> insert m used)"
      unfolding h2_def using Cons.prems m same by (intro Cons.IH) (auto simp: h1_def)
    have r2: "sid (obj h2 r) = m" using IH r self by simp
    have "sid (obj h2 x) \<noteq> m" if "x \<in> set rs" for x
    proof (cases "sid (obj h x) < 0")
      case True
      with IH that same show ?thesis by auto
    next
      case False
      with IH same that have "obj h2 x = obj h x" by simp
      with False Cons.prems(5) that m(1) show ?thesis by auto
    qed
    then have "m \<notin> (\<lambda>r. sid (obj h2 r)) ` set rs" by force
    then have "inj_on (\<lambda>r. sid (obj h2 r)) (set (r # rs))" using IH r2 r by (simp add: inj_on_insert)
    moreover have "\<forall>x. x \<notin> set (r # rs) \<or> 0 \<le> sid (obj h x) \<longrightarrow> obj h2 x = obj h x"
    proof (intro allI impI)
      fix x assume x: "x \<notin> set (r # rs) \<or> 0 \<le> sid (obj h x)"
      with True have "x \<noteq> r" by auto
      then have "obj h1 x = obj h x" by (rule other)
      with IH x show "obj h2 x = obj h x" by auto
    qed
    moreover have "\<forall>x \<in> set (r # rs). sid (obj h x) < 0 \<longrightarrow> sid (obj h2 x) \<notin> used"
      using IH r2 m(1) same by simp
    moreover have "\<forall>x \<in> set (r # rs). 0 \<le> sid (obj h2 x)" using IH r2 m(2) by simp
    ultimately show ?thesis unfolding eq by blast
  next
    case False
    define h2 where "h2 = assign_ids h used n rs"
    have eq: "assign_ids h used n (r # rs) = h2" using False by (simp add: h2_def)
    have IH: "(\<forall>r \<in> set rs. 0 \<le> sid (obj h2 r)) \<and> inj_on (\<lambda>r. sid (obj h2 r)) (set rs)
        \<and> (\<forall>r. r \<notin> set rs \<or> 0 \<le> sid (obj h r) \<longrightarrow> obj h2 r = obj h r)
        \<and> (\<forall>r \<in> set rs. sid (obj h r) < 0 \<longrightarrow> sid (obj h2 r) \<notin> used)"
      unfolding h2_def using Cons.prems by (intro Cons.IH) (auto simp: inj_on_def)
    have r2: "obj h2 r = obj h r" using IH False by simp
    have "sid (obj h2 x) \<noteq> sid (obj h r)" if "x \<in> set rs" for x
    proof (cases "sid (obj h x) < 0")
      case True
      with IH that Cons.prems(5) False show ?thesis by auto
    next
      case nonneg: False
      with IH that have "obj h2 x = obj h x" by simp
      moreover have "x \<noteq> r" using that Cons.prems(3) by auto
      ultimately show ?thesis using inj_onD [OF Cons.prems(6), of x r] that False nonneg by auto
    qed
    then have "sid (obj h2 r) \<notin> (\<lambda>r. sid (obj h2 r)) ` set rs" using r2 by force
    moreover have "r \<notin> set rs" using Cons.prems(3) by simp
    ultimately have "inj_on (\<lambda>r. sid (obj h2 r)) (set (r # rs))" using IH by (simp add: inj_on_insert)
    then show ?thesis unfolding eq using IH r2 False by simp
  qed
qed simp

section \<open>A concrete plan\<close>

definition example_step :: "string \<Rightarrow> pyval list \<Rightarrow> ref list \<Rightarrow> step_obj" where
  "example_step c ps ds = \<lparr>sid = -1, deps = ds, sclass = c, peer_key = [], dedup_params = ps,
     dedupable = (c \<noteq> ''Effect''), hoistable = True, wants_extra = False, unary = True, sync_safe = True\<rparr>"

text \<open>A constant 5, a constant 5 again, a list of both, a step of effect on the second one.\<close>

definition example_heap :: heap where
  "example_heap = [example_step ''ConstantStep'' [VInt 5] [], example_step ''ConstantStep'' [VInt 5] [],
     example_step ''ListStep'' [] [0, 1], example_step ''Effect'' [] [1]]"

definition example_plan :: plan where
  "example_plan = (case register_all 3 (new_plan example_heap) [2, 3] of Inr p \<Rightarrow> p | Inl e \<Rightarrow> new_plan [])"

lemma example_deps [simp]:
  "deps_of example_heap 0 = []" "deps_of example_heap (Suc 0) = []" "deps_of example_heap 2 = [0, 1]"
  "deps_of example_heap 3 = [1]" "3 < r \<Longrightarrow> deps_of example_heap r = []"
  by (simp_all add: deps_of_def example_heap_def example_step_def)

lemma example_length: "length example_heap = 4"
  by (simp add: example_heap_def)

lemma example_ranked: "ranked example_heap (\<lambda>r. if r < 2 then 0 else 1)"
  unfolding ranked_def
proof (intro allI ballI)
  fix r d assume d: "d \<in> set (deps_of example_heap r)"
  consider "r = 0" | "r = Suc 0" | "r = 2" | "r = 3" | "3 < r" by linarith
  then have "2 \<le> r \<and> d < 2" by cases (use d in simp_all, use d in auto)
  then show "(if d < 2 then 0 else 1) < (if r < 2 then 0 else 1 :: nat)" by simp
qed

lemma example_acyclic: "acyclic_heap example_heap"
  using example_ranked unfolding acyclic_heap_def by blast

lemma example_closed: "closed_heap example_heap"
  unfolding closed_heap_def
proof
  fix r
  consider "r = 0" | "r = Suc 0" | "r = 2" | "r = 3" | "3 < r" by linarith
  then show "set (deps_of example_heap r) \<subseteq> {..<length example_heap}"
    by cases (auto simp: example_heap_def [THEN arg_cong [where f = length]])
qed

lemma example_fresh: "grow_inv (new_plan example_heap)"
proof (intro new_plan_grow example_acyclic allI impI)
  fix r assume "r < length example_heap"
  then have "r = 0 \<or> r = 1 \<or> r = 2 \<or> r = 3" by (auto simp: example_heap_def)
  then show "sid (obj example_heap r) = -1" by (auto simp: example_heap_def obj_def example_step_def)
qed

lemma example_register: "register_all 3 (new_plan example_heap) [2, 3] = Inr example_plan"
  "registered (new_plan example_heap) [2, 3] example_plan"
proof -
  have "\<forall>r \<in> set [2, 3]. r < length (p_heap (new_plan example_heap)) \<and> (if r < 2 then 0 else 1) < (3::nat)"
    by (simp add: new_plan_def example_heap_def)
  then obtain p where "register_all 3 (new_plan example_heap) [2, 3] = Inr p"
    "registered (new_plan example_heap) [2, 3] p"
    using register_all_spec [OF example_fresh, of "\<lambda>r. if r < 2 then 0 else 1" "[2, 3]" 3]
      example_ranked example_closed by (auto simp: new_plan_def)
  then show "register_all 3 (new_plan example_heap) [2, 3] = Inr example_plan"
    "registered (new_plan example_heap) [2, 3] example_plan" by (simp_all add: example_plan_def)
qed

lemma example_grow: "grow_inv example_plan" and example_inv: "plan_inv example_plan"
  using example_register(2) grow_plan_inv by (auto simp: registered_def)

lemma example_plan_simps:
  "p_heap example_plan = [(example_heap ! 0)\<lparr>sid := 0\<rparr>, (example_heap ! 1)\<lparr>sid := 1\<rparr>,
     (example_heap ! 2)\<lparr>sid := 2\<rparr>, (example_heap ! 3)\<lparr>sid := 3\<rparr>]"
  "p_steps example_plan = [0, 1, 2, 3]" "p_dead_ids example_plan = {}" "p_side_replacements example_plan = []"
  by (simp_all add: example_plan_def new_plan_def example_heap_def example_step_def deps_of_def enroll_def
      obj_def Let_def enum_def eval_nat_numeral)

definition example_sem :: "ref \<Rightarrow> pyval list \<Rightarrow> pyval" where
  "example_sem r vs = (if r = 2 then VList vs else if r = 3 then VTuple vs else VInt 5)"

definition example_val :: "ref \<Rightarrow> pyval" where
  "example_val r = (if r = 2 then VList [VInt 5, VInt 5] else if r = 3 then VTuple [VInt 5] else VInt 5)"

lemma example_deps_plan [simp]:
  "deps_of (p_heap example_plan) 0 = []" "deps_of (p_heap example_plan) (Suc 0) = []"
  "deps_of (p_heap example_plan) 2 = [0, 1]" "deps_of (p_heap example_plan) 3 = [1]"
  by (simp_all add: example_plan_simps deps_of_def example_heap_def example_step_def)

lemma example_closed_plan: "closed_heap (p_heap example_plan)"
proof -
  have "deps_of (p_heap example_plan) r = deps_of example_heap r" for r
    using example_register(2) by (simp add: registered_def new_plan_def)
  moreover have "length (p_heap example_plan) = length example_heap" by (simp add: example_plan_simps example_length)
  ultimately show ?thesis using example_closed by (simp add: closed_heap_def)
qed

lemma example_live: "live example_plan = [0, 1, 2, 3]"
  by (simp add: live_def example_plan_simps)

lemma example_consistent: "consistent example_sem example_val example_plan"
  by (simp add: consistent_def example_live example_sem_def example_val_def)

lemma example_keys: "key_determines (p_heap example_plan) example_sem"
proof -
  have "length (p_heap example_plan) = 4" by (simp add: example_plan_simps)
  moreover have "example_sem r = example_sem w"
    if "r < 4" "w < 4" "dedupable (obj (p_heap example_plan) r)"
      "sclass (obj (p_heap example_plan) r) = sclass (obj (p_heap example_plan) w)" for r w
  proof -
    have "r = 0 \<or> r = 1 \<or> r = 2 \<or> r = 3" "w = 0 \<or> w = 1 \<or> w = 2 \<or> w = 3" using that(1,2) by linarith+
    then show ?thesis using that(3,4)
      by (elim disjE) (simp_all add: example_plan_simps obj_def example_heap_def example_step_def,
          simp_all add: example_sem_def fun_eq_iff)
  qed
  ultimately show ?thesis unfolding key_determines_def by metis
qed

section \<open>Orders and ids\<close>

lemma reach_within_heap:
  assumes "closed_heap h" and "T \<subseteq> {..<length h}" and "r \<in> reach h stop T"
  shows "r < length h"
  using assms(3)
proof induction
  case (reach_dep r d)
  then show ?case using assms(1) unfolding closed_heap_def by blast
qed (use assms(2) in auto)

text \<open>C25: \<open>order_steps\<close> returns the targets and everything they depend on, each step once and after all
  of its dependencies.\<close>

lemma order_steps_topological:
  assumes "acyclic_heap h" and "order_steps h targets = (h', ordered)"
  shows "distinct ordered \<and> topo h (\<lambda>r. False) {} ordered \<and> set ordered = reach h (\<lambda>r. False) (set targets)"
  using assms full_order.order_distinct full_order.order_topo full_order.order_set
  by (auto simp: order_steps_def Let_def)

lemma order_steps_topological_witness:
  "distinct (snd (order_steps example_heap [3, 2])) \<and> topo example_heap (\<lambda>r. False) {} (snd (order_steps example_heap [3, 2]))
   \<and> set (snd (order_steps example_heap [3, 2])) = reach example_heap (\<lambda>r. False) (set [3, 2])"
  by (rule order_steps_topological [OF example_acyclic, of _ "fst (order_steps example_heap [3, 2])"]) simp

text \<open>\<open>order_steps\<close> leaves every assigned id alone and gives the unassigned steps fresh ids, so that no
  two ordered steps share one.\<close>

lemma order_steps_ids:
  assumes "acyclic_heap h" and "closed_heap h" and "set targets \<subseteq> {..<length h}"
    and "inj_on (\<lambda>r. sid (obj h r)) {r. r < length h \<and> 0 \<le> sid (obj h r)}"
    and "order_steps h targets = (h', ordered)"
  shows "(\<forall>r \<in> set ordered. 0 \<le> sid (obj h' r)) \<and> inj_on (\<lambda>r. sid (obj h' r)) (set ordered)
    \<and> (\<forall>r. 0 \<le> sid (obj h r) \<longrightarrow> obj h' r = obj h r)"
proof -
  let ?used = "{s \<in> set (map (\<lambda>r. sid (obj h r)) ordered). 0 \<le> s}"
  have o: "ordered = order_refs h targets" "h' = assign_ids h ?used 0 ordered"
    using assms(5) by (auto simp: order_steps_def Let_def)
  have sub: "set ordered \<subseteq> {..<length h}"
    using reach_within_heap [OF assms(2,3)] full_order.order_set [OF assms(1)] o(1) by auto
  have "inj_on (\<lambda>r. sid (obj h r)) {r \<in> set ordered. 0 \<le> sid (obj h r)}"
    by (rule inj_on_subset [OF assms(4)]) (use sub in auto)
  then show ?thesis
    using assign_ids_spec [of ?used 0 ordered h] full_order.order_distinct [OF assms(1)] sub o by auto
qed

lemma order_steps_ids_witness:
  "inj_on (\<lambda>r. sid (obj (fst (order_steps example_heap [3, 2])) r)) (set (snd (order_steps example_heap [3, 2])))"
proof -
  have "{r. r < length example_heap \<and> 0 \<le> sid (obj example_heap r)} = {}"
    using example_fresh by (auto simp: grow_inv_def new_plan_def step_id_def)
  then have "inj_on (\<lambda>r. sid (obj example_heap r)) {r. r < length example_heap \<and> 0 \<le> sid (obj example_heap r)}"
    by (simp only: inj_on_empty)
  then show ?thesis
    using order_steps_ids [OF example_acyclic example_closed, of "[3, 2]" "fst (order_steps example_heap [3, 2])"
        "snd (order_steps example_heap [3, 2])"] by (simp add: example_length)
qed

text \<open>\<open>order_steps_within\<close> never includes a boundary step, and orders the rest of what the targets reach
  without crossing the boundary so that only boundary steps are missing from in front of a step.\<close>

lemma order_steps_within_boundary:
  assumes "acyclic_heap h"
  shows "distinct (order_steps_within h targets B)
    \<and> topo h (\<lambda>r. sid (obj h r) \<in> B) {} (order_steps_within h targets B)
    \<and> set (order_steps_within h targets B) = reach h (\<lambda>r. sid (obj h r) \<in> B) (set targets)
    \<and> (\<forall>r \<in> set (order_steps_within h targets B). sid (obj h r) \<notin> B)"
  using assms bucket_order.order_distinct bucket_order.order_topo bucket_order.order_set
    bucket_order.order_not_stop by blast

lemma order_steps_within_boundary_witness:
  "distinct (order_steps_within (p_heap example_plan) [2, 3] {1})
   \<and> set (order_steps_within (p_heap example_plan) [2, 3] {1}) \<inter> {r. sid (obj (p_heap example_plan) r) = 1} = {}"
proof -
  have "acyclic_heap (p_heap example_plan)" using example_inv by (simp add: plan_inv_def)
  from order_steps_within_boundary [OF this, of "[2, 3]" "{1}"] show ?thesis by blast
qed

section \<open>Registration and the reverse index\<close>

text \<open>\<open>Plan.add_step\<close> on a plan under construction registers the step and what it depends on in dependency
  order, appends to \<open>steps\<close>, and keeps ids dense and the reverse index exact; a depth above the rank of the
  step is enough.\<close>

lemma add_step_registers:
  assumes "grow_inv p" and "ranked (p_heap p) rank" and "closed_heap (p_heap p)"
    and "r < length (p_heap p)" and "rank r < depth"
  shows "\<exists>p'. add_step depth p r = Inr p' \<and> grow_inv p' \<and> plan_inv p' \<and> prefix (p_steps p) (p_steps p')
    \<and> r \<in> set (p_steps p') \<and> (\<forall>x. deps_of (p_heap p') x = deps_of (p_heap p) x)"
proof -
  obtain p' where p': "register_all depth p [r] = Inr p'" "registered p [r] p'"
    using register_all_spec [OF assms(1-3), of "[r]" depth] assms(4,5) by auto
  then have "grow_inv p'" by (simp add: registered_def)
  moreover from this have "plan_inv p'" "p_seen p' = set (p_steps p')"
    by (simp_all add: grow_plan_inv grow_inv_def)
  ultimately show ?thesis using p' by (auto simp: add_step_def registered_def)
qed

lemma add_step_registers_witness:
  "\<exists>p'. add_step 3 (new_plan example_heap) 2 = Inr p' \<and> grow_inv p' \<and> 2 \<in> set (p_steps p')"
proof -
  have "\<exists>p'. add_step 3 (new_plan example_heap) 2 = Inr p' \<and> grow_inv p' \<and> plan_inv p'
      \<and> prefix (p_steps (new_plan example_heap)) (p_steps p') \<and> 2 \<in> set (p_steps p')
      \<and> (\<forall>x. deps_of (p_heap p') x = deps_of (p_heap (new_plan example_heap)) x)"
    by (rule add_step_registers [OF example_fresh, of "\<lambda>r. if r < 2 then 0 else 1"])
      (simp_all add: new_plan_def example_ranked example_closed example_length)
  then show ?thesis by blast
qed

text \<open>C37: \<open>eradicate\<close> moves every dependent of the dead step to the survivor and keeps the plan well formed:
  acyclic, ids distinct, and the reverse index exact; the survivor must not depend on the dead step.\<close>

lemma eradicate_keeps_plan:
  assumes "plan_inv p" and "dead \<in> set (live p)" and "survivor \<in> set (live p)" and "dead \<noteq> survivor"
    and "dead \<notin> reach (p_heap p) (\<lambda>r. False) {survivor}"
  shows "plan_inv (eradicate p dead survivor)
    \<and> (\<forall>r \<in> set (live (eradicate p dead survivor)). dead \<notin> set (deps_of (p_heap (eradicate p dead survivor)) r))"
  using assms eradicate_inv eradicate_gone by blast

lemma reach_leaf: "x \<in> reach h stop {s} \<Longrightarrow> deps_of h s = [] \<Longrightarrow> x = s"
  by (induction rule: reach.induct) auto

lemma eradicate_keeps_plan_witness: "plan_inv (eradicate example_plan 1 0)"
proof -
  have "1 \<notin> reach (p_heap example_plan) (\<lambda>r. False) {0}"
    using reach_leaf [of 1 "p_heap example_plan" "\<lambda>r. False" 0] by auto
  then show ?thesis
    using eradicate_keeps_plan [OF example_inv, of 1 0] by (simp add: example_live)
qed

text \<open>\<open>dependents_of\<close> lists exactly the live steps that depend on a step, each once.\<close>

lemma dependents_of_exact:
  assumes "plan_inv p" and "d \<in> set (live p)"
  shows "distinct (dependents_of p d)
    \<and> set (dependents_of p d) = {x \<in> set (live p). d \<in> set (deps_of (p_heap p) x)}"
  using assms by (rule dependents_exact)

lemma dependents_of_exact_witness: "set (dependents_of example_plan 1) = {2, 3}"
proof -
  have "1 \<in> set (live example_plan)" by (simp add: example_live)
  from dependents_of_exact [OF example_inv this]
  have "set (dependents_of example_plan 1) = {x \<in> set (live example_plan). 1 \<in> set (deps_of (p_heap example_plan) x)}" by blast
  also have "\<dots> = set (filter (\<lambda>x. 1 \<in> set (deps_of (p_heap example_plan) x)) (live example_plan))" by simp
  finally show ?thesis by (simp add: example_live)
qed

section \<open>The passes\<close>

text \<open>C6: \<open>deduplicate\<close> returns: every step of the plan is remapped to a surviving step that computes the same
  value, a survivor to itself, and what survives is a well-formed plan in which every step still computes its
  value from its (possibly repointed) dependencies.\<close>

lemma deduplicate_sound:
  assumes "plan_inv p" and "p_dead_ids p = {}" and "key_determines (p_heap p) sem" and "consistent sem val p"
  shows "\<exists>p' out. deduplicate p = Some (p', out) \<and> plan_inv p' \<and> consistent sem val p'
    \<and> (\<forall>r \<in> set (p_steps p). \<exists>f \<in> set (p_steps p'). map_of out (step_id p r) = Some f \<and> val f = val r)
    \<and> (\<forall>r \<in> set (p_steps p'). map_of out (step_id p r) = Some r)"
  using deduplicate_spec [OF assms] by blast

lemma deduplicate_sound_witness:
  "\<exists>p' out. deduplicate example_plan = Some (p', out)
     \<and> (\<exists>f. map_of out 1 = Some f \<and> example_val f = VInt 5) \<and> consistent example_sem example_val p'"
proof -
  obtain p' out where d: "deduplicate example_plan = Some (p', out)" "consistent example_sem example_val p'"
    and m: "\<forall>r \<in> set (p_steps example_plan). \<exists>f \<in> set (p_steps p').
      map_of out (step_id example_plan r) = Some f \<and> example_val f = example_val r"
    using deduplicate_sound [OF example_inv _ example_keys example_consistent] by (auto simp: example_plan_simps)
  have "step_id example_plan 1 = 1" by (simp add: step_id_def example_plan_simps obj_def)
  moreover have "example_val 1 = VInt 5" by (simp add: example_val_def)
  moreover have "1 \<in> set (p_steps example_plan)" by (simp add: example_plan_simps)
  ultimately have "\<exists>f. map_of out 1 = Some f \<and> example_val f = VInt 5" using m by metis
  with d show ?thesis by blast
qed

text \<open>C38: \<open>deduplicate\<close> runs to a fixed point: no two surviving dedupable steps have equal structural keys.\<close>

lemma deduplicate_no_twins:
  assumes "plan_inv p" and "p_dead_ids p = {}"
  shows "\<exists>p' out. deduplicate p = Some (p', out) \<and> no_twins p'"
proof -
  have "key_determines (p_heap p) (\<lambda>r vs. ())" "consistent (\<lambda>r vs. ()) (\<lambda>r. ()) p"
    by (simp_all add: key_determines_def consistent_def)
  from deduplicate_spec [OF assms this] show ?thesis by blast
qed

lemma deduplicate_no_twins_witness: "\<exists>p' out. deduplicate example_plan = Some (p', out) \<and> no_twins p'"
  by (rule deduplicate_no_twins [OF example_inv]) (simp add: example_plan_simps)

text \<open>deduplication never merges away a step that opted out of it (a side effect), and removes steps
  only: ids, classes and parameters of the steps are untouched.\<close>

lemma deduplicate_keeps_effects:
  assumes "plan_inv p" and "p_dead_ids p = {}"
  shows "\<exists>p' out. deduplicate p = Some (p', out) \<and> set (p_steps p') \<subseteq> set (p_steps p)
    \<and> (\<forall>r \<in> set (p_steps p). \<not> dedupable (obj (p_heap p) r) \<longrightarrow> r \<in> set (p_steps p'))
    \<and> (\<forall>r < length (p_heap p). same_attrs (obj (p_heap p') r) (obj (p_heap p) r))"
proof -
  have "key_determines (p_heap p) (\<lambda>r vs. ())" "consistent (\<lambda>r vs. ()) (\<lambda>r. ()) p"
    by (simp_all add: key_determines_def consistent_def)
  from deduplicate_spec [OF assms this] show ?thesis by blast
qed

lemma deduplicate_keeps_effects_witness:
  "\<exists>p' out. deduplicate example_plan = Some (p', out) \<and> 3 \<in> set (p_steps p')"
proof -
  have "\<not> dedupable (obj (p_heap example_plan) 3)"
    by (simp add: example_plan_simps obj_def example_heap_def example_step_def)
  with deduplicate_keeps_effects [OF example_inv] show ?thesis by (force simp: example_plan_simps)
qed

text \<open>C26: \<open>tree_shake\<close> keeps exactly what the consumption roots and the side effects reach, returns exactly the
  side effects the roots do not reach, and keeps the plan well formed.\<close>

lemma tree_shake_exact:
  assumes "plan_inv p" and "p_dead_ids p = {}" and "set roots \<subseteq> set (p_steps p)"
    and "tree_shake p roots = (p', orphans)"
  shows "plan_inv p'
    \<and> set (p_steps p') = reach (p_heap p) (\<lambda>r. False)
        (set roots \<union> {r \<in> set (p_steps p). \<not> dedupable (obj (p_heap p) r)})
    \<and> set orphans = {r \<in> set (p_steps p). \<not> dedupable (obj (p_heap p) r)
        \<and> r \<notin> reach (p_heap p) (\<lambda>r. False) (set roots)}"
  using tree_shake_spec [OF assms] by blast

lemma tree_shake_exact_witness:
  "3 \<in> set (snd (tree_shake example_plan [0])) \<and> 2 \<notin> set (p_steps (fst (tree_shake example_plan [0])))"
proof -
  let ?eff = "{r \<in> set (p_steps example_plan). \<not> dedupable (obj (p_heap example_plan) r)}"
  have eff: "?eff = {3}"
    by (rule set_eqI) (auto simp: example_plan_simps obj_def example_heap_def example_step_def)
  have "p_dead_ids example_plan = {}" "set [0] \<subseteq> set (p_steps example_plan)" by (simp_all add: example_plan_simps)
  then have t: "set (p_steps (fst (tree_shake example_plan [0]))) = reach (p_heap example_plan) (\<lambda>r. False) (set [0] \<union> {3})
    \<and> set (snd (tree_shake example_plan [0])) = {r \<in> set (p_steps example_plan). \<not> dedupable (obj (p_heap example_plan) r)
        \<and> r \<notin> reach (p_heap example_plan) (\<lambda>r. False) (set [0])}"
    using tree_shake_exact [OF example_inv, of "[0]" "fst (tree_shake example_plan [0])" "snd (tree_shake example_plan [0])"]
    unfolding eff by simp
  have leaf: "3 \<notin> reach (p_heap example_plan) (\<lambda>r. False) (set [0])"
    using reach_leaf [of 3 "p_heap example_plan" _ 0] by auto
  have "2 \<notin> reach (p_heap example_plan) (\<lambda>r. False) (set [0] \<union> {3})"
  proof
    assume "2 \<in> reach (p_heap example_plan) (\<lambda>r. False) (set [0] \<union> {3})"
    moreover have "x \<in> {0, Suc 0, 3}" if "x \<in> reach (p_heap example_plan) (\<lambda>r. False) (set [0] \<union> {3})" for x
      using that by induction auto
    ultimately have "2 \<in> {0, Suc 0, 3 :: nat}" by blast
    then show False by simp
  qed
  then have "2 \<notin> set (p_steps (fst (tree_shake example_plan [0])))" using t by simp
  moreover have "3 \<in> set (snd (tree_shake example_plan [0]))" using t eff leaf by auto
  ultimately show ?thesis by blast
qed

text \<open>with no optimize hook overridden, \<open>Plan.optimize\<close> leaves the plan as it is and returns an empty
  remap.\<close>

lemma optimize_without_rewrites:
  assumes "plan_inv p" and "p_dead_ids p = {}" and "p_side_replacements p = []"
  shows "optimize depth identity_hook p = Some (Inr (p, []))"
  using assms by (rule optimize_identity_noop)

lemma optimize_without_rewrites_witness: "optimize 9 identity_hook example_plan = Some (Inr (example_plan, []))"
  by (rule optimize_without_rewrites [OF example_inv]) (simp_all add: example_plan_simps)

text \<open>\<open>_compose_remaps\<close> is the composition: an id of the first remap goes where the second sends its
  survivor, an id of the second alone goes where the second sends it.\<close>

lemma compose_remaps_correct:
  assumes "distinct (map fst first)"
  shows "map_of (compose_remaps p first second) i =
     (case map_of first i of
        Some mid \<Rightarrow> Some (case map_of second (step_id p mid) of None \<Rightarrow> mid | Some s \<Rightarrow> s)
      | None \<Rightarrow> map_of second i)"
  using assms by (rule compose_remaps_spec)

lemma compose_remaps_correct_witness:
  "map_of (compose_remaps example_plan [(7, 1)] [(1, 0), (9, 2)]) 7 = Some 0"
  by (subst compose_remaps_correct) (simp_all add: step_id_def example_plan_simps obj_def)

end
