(* ===== verification/Step_Model.thy ===== *)
theory Step_Model
  imports Dag_Order
begin

text \<open>
  The bucket executor of \<open>src/src/grafast_py/step_model.py\<close>: \<open>add_dependency\<close>, \<open>run_steps\<close> with its
  synchronous loop and its asynchronous continuation, \<open>_bucket_unariness\<close>, \<open>_gather_cols\<close> and
  \<open>_store\<close>. What a step's \<open>execute\<close> does is a parameter \<open>beh\<close>; the tracing hook is a parameter
  \<open>traced\<close> (the steps for which it returns a span) and the spans are a trace of events. The
  semaphore only bounds how many awaits run at once and is not modelled.
\<close>

section \<open>Wiring\<close>

text \<open>\<open>Step.add_dependency\<close>: append the edge, narrow unariness, return the dependency index.\<close>

definition add_dependency :: "heap \<Rightarrow> ref \<Rightarrow> ref \<Rightarrow> heap \<times> nat" where
  "add_dependency h r d =
     (let index = length (deps (obj h r));
          h1 = h[r := (obj h r)\<lparr>deps := deps (obj h r) @ [d]\<rparr>]
      in (if unary (obj h1 d) then h1 else h1[r := (obj h1 r)\<lparr>unary := False\<rparr>], index))"

section \<open>Columns\<close>

type_synonym column = "pyval list"
type_synonym columns = "int \<rightharpoonup> column"
type_synonym 'x behaviour = "ref \<Rightarrow> 'x option \<Rightarrow> nat \<Rightarrow> column list \<Rightarrow> column call"

text \<open>\<open>_bucket_unariness\<close>: which steps run once in this bucket.\<close>

fun unariness_from :: "heap \<Rightarrow> int set \<Rightarrow> (int \<rightharpoonup> bool) \<Rightarrow> ref list \<Rightarrow> (int \<rightharpoonup> bool)" where
  "unariness_from h seeded unary_here [] = unary_here"
| "unariness_from h seeded unary_here (r # rs) =
     (let eff = (unary (obj h r) \<and> sync_safe (obj h r)
                 \<and> (\<forall>d \<in> set (deps_of h r).
                      \<not> (sid (obj h d) \<in> seeded \<or> unary_here (sid (obj h d)) \<noteq> Some True)))
      in unariness_from h seeded (unary_here(sid (obj h r) \<mapsto> eff)) rs)"

definition bucket_unariness :: "heap \<Rightarrow> ref list \<Rightarrow> int set \<Rightarrow> nat \<Rightarrow> (int \<rightharpoonup> bool)" where
  "bucket_unariness h ordered seeded count =
     (if count \<le> 0 then map_of (map (\<lambda>r. (sid (obj h r), False)) ordered)
      else unariness_from h seeded Map.empty ordered)"

fun gather_cols :: "columns \<Rightarrow> heap \<Rightarrow> ref list \<Rightarrow> bool \<Rightarrow> column list res" where
  "gather_cols results h [] un = Inr []"
| "gather_cols results h (d # ds) un =
     (case results (sid (obj h d)) of
        None \<Rightarrow> Inl (KeyError ''step id'')
      | Some c \<Rightarrow>
          bind_res (if un then bind_res (seq_index c 0) (\<lambda>v. Inr [v]) else Inr c) (\<lambda>col.
          bind_res (gather_cols results h ds un) (\<lambda>cols. Inr (col # cols))))"

definition store :: "columns \<Rightarrow> heap \<Rightarrow> ref \<Rightarrow> nat \<Rightarrow> column \<Rightarrow> bool \<Rightarrow> columns res" where
  "store results h r count out un =
     (if un then
        (if length out \<noteq> 1 then Inl (AssertionError ''unary step must return exactly 1'')
         else if is_awaitable (out ! 0) then Inl (AssertionError ''run-once step produced an awaitable'')
         else Inr (results(sid (obj h r) \<mapsto> concat (replicate count out))))
      else if length out \<noteq> count then Inl (AssertionError ''wrong number of values for the bucket'')
      else Inr (results(sid (obj h r) \<mapsto> out)))"

section \<open>The executor\<close>

datatype event = Enter ref | Exec ref nat | Leave ref

text \<open>
  A run ends at once, or hands out a coroutine: the events up to there, and what awaiting it does.
\<close>

datatype run = Done "event list" "columns res" | Pending "event list" "event list" "columns res"

definition span_events :: "(ref \<Rightarrow> bool) \<Rightarrow> ref \<Rightarrow> event list \<times> event list" where
  "span_events traced r = (if traced r then ([Enter r], [Leave r]) else ([], []))"

fun prepend :: "event list \<Rightarrow> run \<Rightarrow> run" where
  "prepend es (Done fs x) = Done (es @ fs) x"
| "prepend es (Pending fs gs x) = Pending (es @ fs) gs x"

definition call_step :: "heap \<Rightarrow> 'x behaviour \<Rightarrow> 'x \<Rightarrow> ref \<Rightarrow> nat \<Rightarrow> column list \<Rightarrow> column call" where
  "call_step h beh extra r n cols = beh r (if wants_extra (obj h r) then Some extra else None) n cols"

definition is_unary_here :: "(int \<rightharpoonup> bool) \<Rightarrow> heap \<Rightarrow> ref \<Rightarrow> bool" where
  "is_unary_here uh h r = (uh (sid (obj h r)) = Some True)"

text \<open>The loop of \<open>_run_steps_async\<close>: a further awaitable column is awaited in place.\<close>

fun run_rest ::
  "heap \<Rightarrow> 'x behaviour \<Rightarrow> 'x \<Rightarrow> (ref \<Rightarrow> bool) \<Rightarrow> nat \<Rightarrow> (int \<rightharpoonup> bool) \<Rightarrow> columns \<Rightarrow> ref list
   \<Rightarrow> event list \<times> columns res" where
  "run_rest h beh extra traced count uh results [] = ([], Inr results)"
| "run_rest h beh extra traced count uh results (r # rs) =
     (let un = is_unary_here uh h r; n = (if un then 1 else count) in
      case gather_cols results h (deps_of h r) un of
        Inl e \<Rightarrow> ([], Inl e)
      | Inr cols \<Rightarrow>
          (case span_events traced r of (enter, leave) \<Rightarrow>
             let es = enter @ [Exec r n] @ leave in
             case settle (call_step h beh extra r n cols) of
               Inl e \<Rightarrow> (es, Inl e)
             | Inr out \<Rightarrow>
                 (case store results h r count out un of
                    Inl e \<Rightarrow> (es, Inl e)
                  | Inr results' \<Rightarrow>
                      (case run_rest h beh extra traced count uh results' rs of
                         (es', x) \<Rightarrow> (es @ es', x)))))"

text \<open>\<open>_run_steps_async\<close>: await the pending column, close its span, store it, run the rest.\<close>

definition run_async ::
  "heap \<Rightarrow> 'x behaviour \<Rightarrow> 'x \<Rightarrow> (ref \<Rightarrow> bool) \<Rightarrow> nat \<Rightarrow> (int \<rightharpoonup> bool) \<Rightarrow> columns \<Rightarrow> ref \<Rightarrow> column res
   \<Rightarrow> ref list \<Rightarrow> event list \<times> columns res" where
  "run_async h beh extra traced count uh results r pending rs =
     (let leave = snd (span_events traced r) in
      case pending of
        Inl e \<Rightarrow> (leave, Inl e)
      | Inr out \<Rightarrow>
          (case store results h r count out (is_unary_here uh h r) of
             Inl e \<Rightarrow> (leave, Inl e)
           | Inr results' \<Rightarrow>
               (case run_rest h beh extra traced count uh results' rs of
                  (es, x) \<Rightarrow> (leave @ es, x))))"

fun run_loop ::
  "heap \<Rightarrow> 'x behaviour \<Rightarrow> 'x \<Rightarrow> (ref \<Rightarrow> bool) \<Rightarrow> nat \<Rightarrow> (int \<rightharpoonup> bool) \<Rightarrow> columns \<Rightarrow> ref list \<Rightarrow> run" where
  "run_loop h beh extra traced count uh results [] = Done [] (Inr results)"
| "run_loop h beh extra traced count uh results (r # rs) =
     (let un = is_unary_here uh h r; n = (if un then 1 else count) in
      case gather_cols results h (deps_of h r) un of
        Inl e \<Rightarrow> Done [] (Inl e)
      | Inr cols \<Rightarrow>
          (case span_events traced r of (enter, leave) \<Rightarrow>
             (case call_step h beh extra r n cols of
                Raised e \<Rightarrow> Done (enter @ [Exec r n] @ leave) (Inl e)
              | Awaitable pending \<Rightarrow>
                  (case run_async h beh extra traced count uh results r pending rs of
                     (es, x) \<Rightarrow> Pending (enter @ [Exec r n]) es x)
              | Returned out \<Rightarrow>
                  (case store results h r count out un of
                     Inl e \<Rightarrow> Done (enter @ [Exec r n] @ leave) (Inl e)
                   | Inr results' \<Rightarrow>
                       prepend (enter @ [Exec r n] @ leave)
                         (run_loop h beh extra traced count uh results' rs)))))"

definition run_steps ::
  "heap \<Rightarrow> 'x behaviour \<Rightarrow> 'x \<Rightarrow> (ref \<Rightarrow> bool) \<Rightarrow> nat \<Rightarrow> columns \<Rightarrow> ref list \<Rightarrow> run" where
  "run_steps h beh extra traced count seed ordered =
     run_loop h beh extra traced count (bucket_unariness h ordered (dom seed) count) seed ordered"

text \<open>What a run comes to once awaited, and every event on the way.\<close>

fun outcome :: "run \<Rightarrow> columns res" where
  "outcome (Done es x) = x"
| "outcome (Pending es fs x) = x"

fun events :: "run \<Rightarrow> event list" where
  "events (Done es x) = es"
| "events (Pending es fs x) = es @ fs"

lemma outcome_prepend [simp]: "outcome (prepend es k) = outcome k"
  by (cases k) simp_all

lemma events_prepend [simp]: "events (prepend es k) = es @ events k"
  by (cases k) simp_all

section \<open>The synchronous loop and its continuation agree\<close>

lemma run_loop_rest:
  "(events (run_loop h beh extra traced count uh results rs), outcome (run_loop h beh extra traced count uh results rs))
     = run_rest h beh extra traced count uh results rs"
proof (induction rs arbitrary: results)
  case (Cons r rs)
  let ?un = "is_unary_here uh h r"
  let ?n = "if ?un then 1 else count"
  show ?case
  proof (cases "gather_cols results h (deps_of h r) ?un")
    case (Inr cols)
    show ?thesis
    proof (cases "call_step h beh extra r ?n cols")
      case (Returned out)
      show ?thesis
      proof (cases "store results h r count out ?un")
        case (Inr results')
        obtain es x where es: "run_rest h beh extra traced count uh results' rs = (es, x)" by fastforce
        with Cons.IH [of results'] have
          "events (run_loop h beh extra traced count uh results' rs) = es"
          "outcome (run_loop h beh extra traced count uh results' rs) = x" by simp_all
        with es Inr \<open>gather_cols _ _ _ _ = Inr cols\<close> Returned show ?thesis
          by (simp add: Let_def span_events_def)
      qed (use Inr Returned in \<open>simp add: Let_def span_events_def\<close>)
    next
      case (Awaitable pending)
      with Inr show ?thesis
        by (cases pending)
          (auto simp: Let_def span_events_def run_async_def split: sum.split prod.split)
    qed (use Inr in \<open>simp add: Let_def span_events_def\<close>)
  qed (simp add: Let_def)
qed simp

section \<open>Spans\<close>

text \<open>A balanced trace: each span is closed before the next one opens.\<close>

fun balanced :: "event list \<Rightarrow> bool" where
  "balanced [] = True"
| "balanced (Exec r n # es) = balanced es"
| "balanced (Enter r # Exec r' n # Leave r'' # es) = (r = r' \<and> r' = r'' \<and> balanced es)"
| "balanced es = False"

lemma run_rest_balanced: "balanced (fst (run_rest h beh extra traced count uh results rs))"
proof (induction rs arbitrary: results)
  case (Cons r rs)
  then show ?case
    by (auto simp: Let_def span_events_def split: sum.split prod.split)
      (metis fst_conv)+
qed simp

text \<open>The executions of a trace.\<close>

fun executed :: "event list \<Rightarrow> (ref \<times> nat) list" where
  "executed [] = []"
| "executed (Exec r n # es) = (r, n) # executed es"
| "executed (e # es) = executed es"

lemma executed_append: "executed (es @ fs) = executed es @ executed fs"
  by (induction es rule: executed.induct) simp_all

lemma executed_span [simp]:
  "executed (fst (span_events traced r)) = []" "executed (snd (span_events traced r)) = []"
  by (simp_all add: span_events_def)

lemma run_rest_executed:
  "run_rest h beh extra traced count uh results rs = (es, x) \<Longrightarrow>
   prefix (executed es) (map (\<lambda>r. (r, if is_unary_here uh h r then 1 else count)) rs)
   \<and> ((\<exists>y. x = Inr y) \<longrightarrow> executed es = map (\<lambda>r. (r, if is_unary_here uh h r then 1 else count)) rs)"
proof (induction rs arbitrary: results es x)
  case (Cons r rs)
  then show ?case
    by (auto simp: Let_def span_events_def split: sum.splits prod.splits if_splits)
qed simp

section \<open>The execute contract\<close>

text \<open>
  The contract of a step in a bucket of \<open>size\<close> entries: \<open>execute(size, values)\<close> gives a list of
  exactly \<open>size\<close> values, and the value at a position is computed from the position and the
  dependency values there.
\<close>

definition row :: "column list \<Rightarrow> nat \<Rightarrow> pyval list" where
  "row cols i = map (\<lambda>c. c ! i) cols"

locale step_contract =
  fixes size :: nat
    and arity :: nat
    and execute :: "nat \<Rightarrow> column list \<Rightarrow> column call"
    and compute :: "nat \<Rightarrow> pyval list \<Rightarrow> pyval"
  assumes pointwise: "length cols = arity \<Longrightarrow> \<forall>c \<in> set cols. length c = size \<Longrightarrow>
    settle (execute size cols) = Inr (map (\<lambda>i. compute i (row cols i)) [0..<size])"
begin

lemma length_contract:
  "length cols = arity \<Longrightarrow> \<forall>c \<in> set cols. length c = size \<Longrightarrow> settle (execute size cols) = Inr out
   \<Longrightarrow> length out = size"
  by (auto simp: pointwise)

end

text \<open>
  The purity contract of a value step: at any size, the value at a position is a function of the
  dependency values there alone.
\<close>

locale uniform_contract =
  fixes arity :: nat
    and execute :: "nat \<Rightarrow> column list \<Rightarrow> column call"
    and compute :: "pyval list \<Rightarrow> pyval"
  assumes uniform: "length cols = arity \<Longrightarrow> \<forall>c \<in> set cols. length c = n \<Longrightarrow>
    settle (execute n cols) = Inr (map (\<lambda>i. compute (row cols i)) [0..<n])"
begin

text \<open>Over equal entries, one run on a representative and a broadcast is the full run.\<close>

lemma run_once:
  assumes len: "length cols = arity" and col: "\<forall>c \<in> set cols. length c = n"
    and same: "\<forall>c \<in> set cols. \<forall>i < n. c ! i = c ! 0" and "0 < n"
  shows "settle (execute 1 (map (\<lambda>c. [c ! 0]) cols)) = Inr [compute (row cols 0)]"
    and "settle (execute n cols) = Inr (replicate n (compute (row cols 0)))"
proof -
  have "row (map (\<lambda>c. [c ! 0]) cols) 0 = row cols 0" by (simp add: row_def)
  then show "settle (execute 1 (map (\<lambda>c. [c ! 0]) cols)) = Inr [compute (row cols 0)]"
    using len by (simp add: uniform)
  have "row cols i = row cols 0" if "i < n" for i
    unfolding row_def using that same by (intro map_cong refl) blast
  then have "map (\<lambda>i. compute (row cols i)) [0..<n] = replicate n (compute (row cols 0))"
    by (intro map_upt_const arg_cong [of _ _ compute])
  with uniform [OF len col]
  show "settle (execute n cols) = Inr (replicate n (compute (row cols 0)))" by simp
qed

end

sublocale uniform_contract \<subseteq> sized: step_contract n arity execute "\<lambda>i. compute" for n
  by unfold_locales (rule uniform)

section \<open>Unariness in a bucket\<close>

lemma unariness_from_other:
  "i \<notin> (\<lambda>r. sid (obj h r)) ` set rs \<Longrightarrow> unariness_from h seeded uh rs i = uh i"
  by (induction rs arbitrary: uh) (auto simp: Let_def)

lemma unariness_from_spec:
  assumes "inj_on (\<lambda>r. sid (obj h r)) (set rs)" and "distinct rs"
    and "dom uh \<inter> (\<lambda>r. sid (obj h r)) ` set rs = {}" and "r \<in> set rs"
    and "unariness_from h seeded uh rs (sid (obj h r)) = Some True"
  shows "unary (obj h r) \<and> sync_safe (obj h r) \<and> (\<forall>d \<in> set (deps_of h r).
    sid (obj h d) \<notin> seeded \<and> unariness_from h seeded uh rs (sid (obj h d)) = Some True)"
  using assms
proof (induction rs arbitrary: uh)
  case (Cons q rs)
  let ?eff = "unary (obj h q) \<and> sync_safe (obj h q) \<and> (\<forall>d \<in> set (deps_of h q).
     \<not> (sid (obj h d) \<in> seeded \<or> uh (sid (obj h d)) \<noteq> Some True))"
  let ?uh = "uh(sid (obj h q) \<mapsto> ?eff)"
  have q: "sid (obj h q) \<notin> (\<lambda>r. sid (obj h r)) ` set rs" using Cons.prems(1,2) by auto
  have step: "unariness_from h seeded uh (q # rs) = unariness_from h seeded ?uh rs"
    by (simp add: Let_def)
  show ?case
  proof (cases "r = q")
    case True
    have "unariness_from h seeded ?uh rs (sid (obj h q)) = Some ?eff"
      by (subst unariness_from_other [OF q]) simp
    then have "Some ?eff = Some True" using Cons.prems(5) unfolding True step by (rule subst)
    then have eff: ?eff by blast
    have "unariness_from h seeded ?uh rs (sid (obj h d)) = Some True" if "d \<in> set (deps_of h q)" for d
    proof -
      have "uh (sid (obj h d)) = Some True" using eff that by blast
      moreover from this have "sid (obj h d) \<notin> (\<lambda>r. sid (obj h r)) ` set (q # rs)"
        using Cons.prems(3) by blast
      ultimately show ?thesis by (simp add: unariness_from_other)
    qed
    with eff True show ?thesis unfolding step by blast
  next
    case False
    have "inj_on (\<lambda>r. sid (obj h r)) (set rs)" "distinct rs"
      using Cons.prems(1,2) by auto
    moreover have "dom ?uh \<inter> (\<lambda>r. sid (obj h r)) ` set rs = {}" using Cons.prems(3) q by auto
    moreover have "r \<in> set rs" using Cons.prems(4) False by simp
    ultimately show ?thesis using Cons.prems(5) unfolding step by (rule Cons.IH)
  qed
qed simp

lemma bucket_unariness_spec:
  assumes "inj_on (\<lambda>r. sid (obj h r)) (set rs)" and "distinct rs" and "r \<in> set rs"
    and "bucket_unariness h rs seeded count (sid (obj h r)) = Some True"
  shows "0 < count \<and> unary (obj h r) \<and> sync_safe (obj h r) \<and> (\<forall>d \<in> set (deps_of h r).
    sid (obj h d) \<notin> seeded \<and> bucket_unariness h rs seeded count (sid (obj h d)) = Some True)"
proof (cases "count = 0")
  case True
  then show ?thesis using assms(4) by (auto simp: bucket_unariness_def dest: map_of_SomeD)
next
  case False
  then show ?thesis
    using unariness_from_spec [OF assms(1,2) _ assms(3), of Map.empty seeded] assms(4)
    by (simp add: bucket_unariness_def)
qed

section \<open>The executor computes every entry's value\<close>

text \<open>
  The specification: entry by entry, the value of a step is computed from the values of its
  dependencies (\<open>settle_vals\<close>), with no batching and no run-once.
\<close>

definition entry_value ::
  "heap \<Rightarrow> (ref \<Rightarrow> nat \<Rightarrow> pyval list \<Rightarrow> pyval) \<Rightarrow> columns \<Rightarrow> ref list \<Rightarrow> nat \<Rightarrow> ref \<Rightarrow> pyval" where
  "entry_value h f seed ordered i r =
     settle_vals (\<lambda>q. f q i) h (\<lambda>b. case seed (sid (obj h b)) of None \<Rightarrow> VNone | Some c \<Rightarrow> c ! i) ordered r"

definition col_ok :: "heap \<Rightarrow> nat \<Rightarrow> columns \<Rightarrow> (nat \<Rightarrow> ref \<Rightarrow> pyval) \<Rightarrow> ref \<Rightarrow> bool" where
  "col_ok h count results vals r \<longleftrightarrow>
     (\<exists>c. results (sid (obj h r)) = Some c \<and> length c = count \<and> (\<forall>i < count. c ! i = vals i r))"

lemma gather_batch:
  assumes "\<forall>d \<in> set ds. col_ok h count results vals d"
  shows "\<exists>cols. gather_cols results h ds False = Inr cols \<and> length cols = length ds \<and> (\<forall>c \<in> set cols. length c = count)
    \<and> (\<forall>i < count. row cols i = map (vals i) ds)"
  using assms
proof (induction ds)
  case (Cons d ds)
  then obtain cols c where "gather_cols results h ds False = Inr cols" "length cols = length ds" "\<forall>c \<in> set cols. length c = count"
    "\<forall>i < count. row cols i = map (vals i) ds" "results (sid (obj h d)) = Some c" "length c = count"
    "\<forall>i < count. c ! i = vals i d" by (auto simp: col_ok_def)
  then show ?case by (intro exI [of _ "c # cols"]) (simp add: row_def)
qed (simp add: row_def)

lemma gather_unary:
  assumes "\<forall>d \<in> set ds. col_ok h count results vals d" and "0 < count"
  shows "\<exists>cols. gather_cols results h ds True = Inr cols \<and> length cols = length ds \<and> (\<forall>c \<in> set cols. length c = 1)
    \<and> row cols 0 = map (vals 0) ds"
  using assms
proof (induction ds)
  case (Cons d ds)
  then obtain cols c where "gather_cols results h ds True = Inr cols" "length cols = length ds" "\<forall>c \<in> set cols. length c = 1"
    "row cols 0 = map (vals 0) ds" "results (sid (obj h d)) = Some c" "length c = count"
    "\<forall>i < count. c ! i = vals i d" by (auto simp: col_ok_def)
  moreover from this Cons.prems(2) have "seq_index c 0 = Inr (c ! 0)"
    by (simp add: seq_index_in_range)
  ultimately show ?case using Cons.prems(2) by (intro exI [of _ "[c ! 0] # cols"]) (simp add: row_def)
qed (simp add: row_def)

lemma topo_boundary: "topo h stop D rs \<Longrightarrow> topo h (\<lambda>d. stop' d) D' rs"
  if "\<And>d. stop d \<or> d \<in> D \<Longrightarrow> stop' d \<or> d \<in> D'"
  using that
proof (induction rs arbitrary: D D')
  case (Cons r rs)
  then show ?case using Cons.IH [of "insert r D" "insert r D'"] by auto
qed simp

lemma concat_replicate_single: "concat (replicate n [x]) = replicate n x"
  by (induction n) simp_all

text \<open>One step, batch or run-once, stores the column of its entry values.\<close>

text \<open>What running a step once and sharing its value asks of it.\<close>

definition share_ok :: "heap \<Rightarrow> 'x behaviour \<Rightarrow> 'x \<Rightarrow> (ref \<Rightarrow> nat \<Rightarrow> pyval list \<Rightarrow> pyval) \<Rightarrow> ref \<Rightarrow> bool" where
  "share_ok h beh extra f r \<longleftrightarrow>
     uniform_contract (length (deps_of h r)) (call_step h beh extra r) (f r 0)
     \<and> (\<forall>i. f r i = f r 0) \<and> (\<forall>vs. \<not> is_awaitable (f r 0 vs))"

lemma step_column:
  assumes c: "step_contract count (length (deps_of h r)) (call_step h beh extra r) (f r)"
    and cols: "\<forall>d \<in> set (deps_of h r). col_ok h count results vals d"
    and un: "un \<Longrightarrow> 0 < count \<and> (\<forall>d \<in> set (deps_of h r). \<forall>i < count. vals i d = vals 0 d)
      \<and> share_ok h beh extra f r"
  shows "\<exists>cs out results'. gather_cols results h (deps_of h r) un = Inr cs
    \<and> settle (call_step h beh extra r (if un then 1 else count) cs) = Inr out
    \<and> store results h r count out un = Inr results'
    \<and> results' = results(sid (obj h r) \<mapsto> map (\<lambda>i. f r i (map (vals i) (deps_of h r))) [0..<count])"
proof (cases un)
  case False
  obtain cs where "gather_cols results h (deps_of h r) False = Inr cs" "length cs = length (deps_of h r)" "\<forall>c \<in> set cs. length c = count"
    and rows: "\<forall>i < count. row cs i = map (vals i) (deps_of h r)"
    using gather_batch [OF cols] by blast
  moreover from this step_contract.pointwise [OF c]
  have "settle (call_step h beh extra r count cs) = Inr (map (\<lambda>i. f r i (row cs i)) [0..<count])" by blast
  moreover from rows have "map (\<lambda>i. f r i (row cs i)) [0..<count] = map (\<lambda>i. f r i (map (vals i) (deps_of h r))) [0..<count]"
    by simp
  ultimately show ?thesis using False by (simp add: store_def)
next
  case True
  note u = un [OF True]
  obtain cs where cs: "gather_cols results h (deps_of h r) True = Inr cs" "length cs = length (deps_of h r)" "\<forall>c \<in> set cs. length c = 1"
    and rows: "row cs 0 = map (vals 0) (deps_of h r)"
    using gather_unary [OF cols] u by blast
  from u have "uniform_contract (length (deps_of h r)) (call_step h beh extra r) (f r 0)"
    and index: "f r i = f r 0" and conc: "\<not> is_awaitable (f r 0 vs)" for i vs
    unfolding share_ok_def by blast+
  from uniform_contract.uniform [OF this(1) cs(2,3)] rows
  have out: "settle (call_step h beh extra r 1 cs) = Inr [f r 0 (map (vals 0) (deps_of h r))]" by simp
  have eq: "map (vals i) (deps_of h r) = map (vals 0) (deps_of h r)" if "i < count" for i
    using that u by (intro map_cong refl) blast
  have "map (\<lambda>i. f r i (map (vals i) (deps_of h r))) [0..<count] = replicate count (f r 0 (map (vals 0) (deps_of h r)))"
    by (rule map_upt_const, subst index, rule arg_cong [where f = "f r 0"], rule eq)
  with cs out True conc show ?thesis by (simp add: store_def concat_replicate_single)
qed

lemma run_rest_entries:
  assumes contract: "\<forall>r \<in> set rs. step_contract count (length (deps_of h r)) (call_step h beh extra r) (f r)"
    and inj: "inj_on (\<lambda>r. sid (obj h r)) U" and U: "set rs \<union> B \<subseteq> U" "\<forall>r \<in> set rs. set (deps_of h r) \<subseteq> U"
    and dist: "distinct rs" "B \<inter> set rs = {}"
    and topo: "topo h (\<lambda>d. d \<in> B) {} rs"
    and uh: "\<forall>r \<in> set rs. is_unary_here uh h r \<longrightarrow> 0 < count
      \<and> (\<forall>d \<in> set (deps_of h r). is_unary_here uh h d) \<and> share_ok h beh extra f r"
    and B: "\<forall>b \<in> B. col_ok h count results vals b
      \<and> (is_unary_here uh h b \<longrightarrow> (\<forall>i < count. vals i b = vals 0 b))"
  shows "\<exists>es results'. run_rest h beh extra traced count uh results rs = (es, Inr results')
    \<and> (\<forall>r \<in> B \<union> set rs. col_ok h count results' (\<lambda>i. settle_vals (\<lambda>q. f q i) h (vals i) rs) r)"
  using assms
proof (induction rs arbitrary: results vals B)
  case Nil
  then show ?case by simp
next
  case (Cons r rs)
  let ?un = "is_unary_here uh h r"
  have deps_B: "set (deps_of h r) \<subseteq> B" using Cons.prems(7) by auto
  have un: "0 < count \<and> (\<forall>d \<in> set (deps_of h r). \<forall>i < count. vals i d = vals 0 d)
      \<and> share_ok h beh extra f r" if ?un
  proof -
    have u: "0 < count \<and> (\<forall>d \<in> set (deps_of h r). is_unary_here uh h d) \<and> share_ok h beh extra f r"
      using that bspec [OF Cons.prems(8), of r] by simp
    have "vals i d = vals 0 d" if "d \<in> set (deps_of h r)" "i < count" for d i
      using bspec [OF Cons.prems(9), of d] deps_B u that by blast
    with u show ?thesis by blast
  qed
  have contract_r: "step_contract count (length (deps_of h r)) (call_step h beh extra r) (f r)" using Cons.prems(1) by simp
  have cols_r: "\<forall>d \<in> set (deps_of h r). col_ok h count results vals d"
    using Cons.prems(9) deps_B by blast
  obtain cs out results' where step: "gather_cols results h (deps_of h r) ?un = Inr cs"
    "settle (call_step h beh extra r (if ?un then 1 else count) cs) = Inr out"
    "store results h r count out ?un = Inr results'"
    and results': "results' = results(sid (obj h r) \<mapsto> map (\<lambda>i. f r i (map (vals i) (deps_of h r))) [0..<count])"
    using step_column [of count h r beh extra f results vals ?un, OF contract_r cols_r un] by blast
  define vals' where "vals' i = (vals i)(r := f r i (map (vals i) (deps_of h r)))" for i
  have r: "r \<notin> B" "r \<notin> set rs" using Cons.prems(5,6) by auto
  have new: "col_ok h count results' vals' b \<and> (is_unary_here uh h b \<longrightarrow> (\<forall>i < count. vals' i b = vals' 0 b))"
    if "b \<in> insert r B" for b
  proof (cases "b = r")
    case True
    have "vals' i r = vals' 0 r" if "?un" "i < count" for i
    proof -
      have eq: "map (vals i) (deps_of h r) = map (vals 0) (deps_of h r)"
        using un [OF that(1)] that(2) by (intro map_cong refl) blast
      have index: "f r i = f r 0" using un [OF that(1)] unfolding share_ok_def by blast
      show ?thesis unfolding vals'_def fun_upd_same index eq ..
    qed
    moreover have "col_ok h count results' vals' r" by (simp add: col_ok_def results' vals'_def)
    ultimately show ?thesis unfolding True by blast
  next
    case False
    with that have b: "b \<in> B" by simp
    have "b \<in> U" "r \<in> U" using b Cons.prems(3) by auto
    with False Cons.prems(2) have "sid (obj h b) \<noteq> sid (obj h r)" by (auto dest: inj_onD)
    moreover have "vals' i b = vals i b" for i using False by (simp add: vals'_def)
    ultimately have "col_ok h count results' vals' b = col_ok h count results vals b"
      by (simp add: col_ok_def results')
    then show ?thesis
      unfolding \<open>\<And>i. vals' i b = vals i b\<close> using bspec [OF Cons.prems(9) b] by blast
  qed
  have "\<exists>es results''. run_rest h beh extra traced count uh results' rs = (es, Inr results'')
    \<and> (\<forall>x \<in> insert r B \<union> set rs. col_ok h count results'' (\<lambda>i. settle_vals (\<lambda>q. f q i) h (vals' i) rs) x)"
  proof (rule Cons.IH)
    show "topo h (\<lambda>d. d \<in> insert r B) {} rs"
    proof -
      have "topo h (\<lambda>d. d \<in> B) {r} rs" using Cons.prems(7) by simp
      then show ?thesis by (rule topo_boundary [rotated]) auto
    qed
    show "\<forall>b \<in> insert r B. col_ok h count results' vals' b
      \<and> (is_unary_here uh h b \<longrightarrow> (\<forall>i < count. vals' i b = vals' 0 b))" using new by blast
    show "\<forall>q \<in> set rs. step_contract count (length (deps_of h q)) (call_step h beh extra q) (f q)" using Cons.prems(1) by simp
    show "inj_on (\<lambda>r. sid (obj h r)) U" by (rule Cons.prems(2))
    show "set rs \<union> insert r B \<subseteq> U" using Cons.prems(3) by simp
    show "\<forall>q \<in> set rs. set (deps_of h q) \<subseteq> U" using Cons.prems(4) by simp
    show "distinct rs" "insert r B \<inter> set rs = {}" using Cons.prems(5,6) by auto
    show "\<forall>q \<in> set rs. is_unary_here uh h q \<longrightarrow> 0 < count
      \<and> (\<forall>d \<in> set (deps_of h q). is_unary_here uh h d) \<and> share_ok h beh extra f q"
      using Cons.prems(8) by (meson list.set_intros(2))
  qed
  then obtain es results'' where rest: "run_rest h beh extra traced count uh results' rs = (es, Inr results'')"
    "\<forall>x \<in> insert r B \<union> set rs. col_ok h count results'' (\<lambda>i. settle_vals (\<lambda>q. f q i) h (vals' i) rs) x" by blast
  have "settle_vals (\<lambda>q. f q i) h (vals i) (r # rs) = settle_vals (\<lambda>q. f q i) h (vals' i) rs" for i
    by (simp add: vals'_def)
  with rest step show ?case by (auto simp: Let_def span_events_def split: prod.split)
qed

lemma bucket_unariness_dom:
  "bucket_unariness h ordered seeded count i = Some b \<Longrightarrow> i \<in> (\<lambda>r. sid (obj h r)) ` set ordered"
  using unariness_from_other [of i h ordered seeded Map.empty]
  by (force simp: bucket_unariness_def split: if_splits dest: map_of_SomeD)

lemma reach_closed_heap:
  "r \<in> reach h stop ts \<Longrightarrow> ts \<subseteq> {..<length h} \<Longrightarrow> closed_heap h \<Longrightarrow> r \<in> {..<length h}"
  by (induction rule: reach.induct) (auto simp: closed_heap_def)

lemma topo_drop:
  "topo h (\<lambda>d. stop d \<or> out d) D rs \<Longrightarrow> (\<And>r d. d \<in> set (deps_of h r) \<Longrightarrow> \<not> out d) \<Longrightarrow> topo h stop D rs"
  by (induction rs arbitrary: D) auto

lemma run_steps_rest:
  "outcome (run_steps h beh extra traced count seed ordered)
     = snd (run_rest h beh extra traced count (bucket_unariness h ordered (dom seed) count) seed ordered)"
  "events (run_steps h beh extra traced count seed ordered)
     = fst (run_rest h beh extra traced count (bucket_unariness h ordered (dom seed) count) seed ordered)"
  unfolding run_steps_def run_loop_rest [symmetric] by simp_all

text \<open>Every object of the heap carries an id of its own.\<close>

definition unique_ids :: "heap \<Rightarrow> bool" where
  "unique_ids h \<longleftrightarrow> inj_on (\<lambda>r. sid (obj h r)) {..<length h}"

lemma run_steps_entries:
  assumes ac: "acyclic_heap h" and cl: "closed_heap h" and ids: "unique_ids h"
    and targets: "set targets \<subseteq> {..<length h}"
    and ordered: "ordered = order_steps_within h targets (dom seed)"
    and seed: "\<forall>c \<in> ran seed. length c = count"
    and contract: "\<forall>r \<in> set ordered. step_contract count (length (deps_of h r)) (call_step h beh extra r) (f r)"
    and share: "\<forall>r \<in> set ordered. unary (obj h r) \<and> sync_safe (obj h r) \<longrightarrow> share_ok h beh extra f r"
  shows "\<exists>results. outcome (run_steps h beh extra traced count seed ordered) = Inr results
    \<and> (\<forall>r \<in> set ordered. \<exists>c. results (sid (obj h r)) = Some c \<and> length c = count
        \<and> (\<forall>i < count. c ! i = entry_value h f seed ordered i r))"
proof -
  let ?stop = "\<lambda>r. sid (obj h r) \<in> dom seed"
  let ?uh = "bucket_unariness h ordered (dom seed) count"
  define B where "B = {b \<in> {..<length h}. ?stop b}"
  have topo: "topo h ?stop {} ordered" and dist: "distinct ordered"
    using bucket_order.order_topo [OF ac] bucket_order.order_distinct [OF ac] unfolding ordered by auto
  have not_stop: "\<not> ?stop r" if "r \<in> set ordered" for r
    using bucket_order.order_not_stop [OF ac] that unfolding ordered by blast
  have in_heap: "set ordered \<subseteq> {..<length h}"
  proof
    fix r
    assume "r \<in> set ordered"
    then have "r \<in> reach h ?stop (set targets)"
      using bucket_order.order_set [OF ac] unfolding ordered by blast
    then show "r \<in> {..<length h}"
      using targets cl by (rule reach_closed_heap)
  qed
  have deps_in: "set (deps_of h r) \<subseteq> {..<length h}" for r using cl by (auto simp: closed_heap_def)
  have inj: "inj_on (\<lambda>r. sid (obj h r)) {..<length h}" using ids by (simp add: unique_ids_def)
  have inj_o: "inj_on (\<lambda>r. sid (obj h r)) (set ordered)" using inj in_heap by (rule inj_on_subset)
  have uh: "is_unary_here ?uh h r \<longrightarrow> 0 < count \<and> (\<forall>d \<in> set (deps_of h r). is_unary_here ?uh h d)
      \<and> share_ok h beh extra f r" if "r \<in> set ordered" for r
    using bucket_unariness_spec [OF inj_o dist that] share that by (auto simp: is_unary_here_def)
  have topo_B: "topo h (\<lambda>d. d \<in> B) {} ordered"
  proof -
    have "topo h (\<lambda>d. d \<in> B \<or> d \<notin> {..<length h}) {} ordered"
      using _ topo by (rule topo_boundary) (auto simp: B_def)
    then show ?thesis by (rule topo_drop) (use deps_in in auto)
  qed
  have "\<exists>es results. run_rest h beh extra traced count ?uh seed ordered = (es, Inr results)
    \<and> (\<forall>r \<in> B \<union> set ordered. col_ok h count results
        (\<lambda>i. settle_vals (\<lambda>q. f q i) h (\<lambda>b. case seed (sid (obj h b)) of None \<Rightarrow> VNone | Some c \<Rightarrow> c ! i) ordered) r)"
  proof (rule run_rest_entries [OF contract inj])
    show "\<forall>b \<in> B. col_ok h count seed (\<lambda>i b. case seed (sid (obj h b)) of None \<Rightarrow> VNone | Some c \<Rightarrow> c ! i) b
      \<and> (is_unary_here ?uh h b \<longrightarrow> (\<forall>i < count.
           (case seed (sid (obj h b)) of None \<Rightarrow> VNone | Some c \<Rightarrow> c ! i)
           = (case seed (sid (obj h b)) of None \<Rightarrow> VNone | Some c \<Rightarrow> c ! 0)))"
    proof
      fix b
      assume b: "b \<in> B"
      then obtain c where "seed (sid (obj h b)) = Some c" by (auto simp: B_def)
      moreover from this seed have "length c = count" by (auto simp: ran_def)
      moreover have "\<not> is_unary_here ?uh h b"
      proof
        assume "is_unary_here ?uh h b"
        then obtain r where "r \<in> set ordered" "sid (obj h b) = sid (obj h r)"
          using bucket_unariness_dom [of h ordered "dom seed" count "sid (obj h b)" True]
          by (auto simp: is_unary_here_def)
        with b not_stop [of r] show False by (simp add: B_def)
      qed
      ultimately show "col_ok h count seed (\<lambda>i b. case seed (sid (obj h b)) of None \<Rightarrow> VNone | Some c \<Rightarrow> c ! i) b
        \<and> (is_unary_here ?uh h b \<longrightarrow> (\<forall>i < count.
             (case seed (sid (obj h b)) of None \<Rightarrow> VNone | Some c \<Rightarrow> c ! i)
             = (case seed (sid (obj h b)) of None \<Rightarrow> VNone | Some c \<Rightarrow> c ! 0)))"
        by (simp add: col_ok_def)
    qed
    show "B \<inter> set ordered = {}" using not_stop by (auto simp: B_def)
  qed (use in_heap deps_in dist topo_B uh in \<open>auto simp: B_def\<close>)
  then show ?thesis
    unfolding run_steps_rest by (auto simp: col_ok_def entry_value_def)
qed

section \<open>What a successful run read and stored\<close>

lemma gather_cols_mono:
  "gather_cols m h ds un = Inr cols \<Longrightarrow> m \<subseteq>\<^sub>m m' \<Longrightarrow> gather_cols m' h ds un = Inr cols"
proof (induction ds arbitrary: cols)
  case (Cons d ds)
  then obtain c where c: "m (sid (obj h d)) = Some c" by (auto split: option.splits)
  with Cons.prems(2) have "m' (sid (obj h d)) = Some c" by (metis domI map_le_def)
  with Cons c show ?case by (auto simp: bind_res_Inr_iff)
qed simp

lemma gather_cols_whole: "gather_cols m h ds False = Inr cols \<Longrightarrow> map (\<lambda>d. m (sid (obj h d))) ds = map Some cols"
  by (induction ds arbitrary: cols) (auto simp: bind_res_Inr_iff split: option.splits)

text \<open>A column that is the same for all entries is read by its first.\<close>

lemma gather_cols_constant:
  assumes "gather_cols m h ds True = Inr cols" and "0 < count"
    and "\<And>d. d \<in> set ds \<Longrightarrow> \<exists>v. m (sid (obj h d)) = Some (replicate count v)"
  shows "\<exists>vs. cols = map (\<lambda>v. [v]) vs \<and> map (\<lambda>d. m (sid (obj h d))) ds = map (\<lambda>v. Some (replicate count v)) vs"
  using assms(1,3)
proof (induction ds arbitrary: cols)
  case (Cons d ds)
  obtain v where v: "m (sid (obj h d)) = Some (replicate count v)" using Cons.prems(2) by force
  moreover have "seq_index (replicate count v) 0 = Inr v" using assms(2) by (simp add: seq_index_in_range)
  ultimately obtain rest where rest: "gather_cols m h ds True = Inr rest" "cols = [v] # rest"
    using Cons.prems(1) by (auto simp: bind_res_Inr_iff)
  from Cons.IH [OF rest(1)] Cons.prems(2) obtain vs where
    "rest = map (\<lambda>v. [v]) vs" "map (\<lambda>d. m (sid (obj h d))) ds = map (\<lambda>v. Some (replicate count v)) vs"
    by auto
  with rest(2) v show ?case by (intro exI [of _ "v # vs"]) simp
qed simp

definition kept_column :: "nat \<Rightarrow> bool \<Rightarrow> column \<Rightarrow> column \<Rightarrow> bool" where
  "kept_column count un out c \<longleftrightarrow>
     (if un then \<exists>w. out = [w] \<and> \<not> is_awaitable w \<and> c = replicate count w else length out = count \<and> c = out)"

lemma store_stored:
  "store m h r count out un = Inr m' \<Longrightarrow> \<exists>c. kept_column count un out c \<and> m' = m(sid (obj h r) \<mapsto> c)"
  by (cases out) (auto simp: store_def kept_column_def concat_replicate_single split: if_splits)

lemma run_rest_records:
  assumes "run_rest h beh extra traced count uh m rs = (es, Inr m')"
    and "inj_on (\<lambda>r. sid (obj h r)) (set rs)" and "distinct rs" and "\<forall>r \<in> set rs. m (sid (obj h r)) = None"
  shows "m \<subseteq>\<^sub>m m' \<and> (\<forall>r \<in> set rs. \<exists>cols out c. gather_cols m' h (deps_of h r) (is_unary_here uh h r) = Inr cols
    \<and> settle (call_step h beh extra r (if is_unary_here uh h r then 1 else count) cols) = Inr out
    \<and> kept_column count (is_unary_here uh h r) out c \<and> m' (sid (obj h r)) = Some c)"
  using assms
proof (induction rs arbitrary: m es)
  case (Cons r rs)
  let ?un = "is_unary_here uh h r"
  obtain cols where cols: "gather_cols m h (deps_of h r) ?un = Inr cols"
    using Cons.prems(1) by (auto simp: Let_def split: sum.splits)
  obtain out where out: "settle (call_step h beh extra r (if ?un then 1 else count) cols) = Inr out"
    using Cons.prems(1) cols by (auto simp: Let_def span_events_def split: sum.splits prod.splits)
  obtain m1 where m1: "store m h r count out ?un = Inr m1"
    using Cons.prems(1) cols out by (auto simp: Let_def span_events_def split: sum.splits prod.splits)
  obtain es1 where rest: "run_rest h beh extra traced count uh m1 rs = (es1, Inr m')"
    using Cons.prems(1) cols out m1 by (auto simp: Let_def span_events_def split: sum.splits prod.splits)
  obtain c where c: "kept_column count ?un out c" "m1 = m(sid (obj h r) \<mapsto> c)" using store_stored [OF m1] by blast
  have "\<forall>q \<in> set rs. m1 (sid (obj h q)) = None"
    using Cons.prems(2-4) c(2) by (auto simp: inj_on_def)
  with Cons.IH [OF rest] Cons.prems(2,3) have ih: "m1 \<subseteq>\<^sub>m m'"
    "\<forall>q \<in> set rs. \<exists>cols out c. gather_cols m' h (deps_of h q) (is_unary_here uh h q) = Inr cols
      \<and> settle (call_step h beh extra q (if is_unary_here uh h q then 1 else count) cols) = Inr out
      \<and> kept_column count (is_unary_here uh h q) out c \<and> m' (sid (obj h q)) = Some c"
    by (auto simp: inj_on_def)
  have "m \<subseteq>\<^sub>m m1" using Cons.prems(4) c(2) by (auto simp: map_le_def)
  then have le: "m \<subseteq>\<^sub>m m'" using ih(1) map_le_trans by blast
  have "m' (sid (obj h r)) = Some c" using ih(1) c(2) by (auto simp: map_le_def)
  moreover have "gather_cols m' h (deps_of h r) ?un = Inr cols" by (rule gather_cols_mono [OF cols le])
  ultimately show ?case using le ih(2) out c(1) by auto
qed simp

end
