(* ===== verification/Text_Codec.thy ===== *)
theory Text_Codec
  imports Py_Values "HOL-Library.Char_ord"
begin

text \<open>
  What the sources use of Python's \<open>json\<close> and \<open>base64\<close>: \<open>json.dumps\<close> with compact separators and
  ASCII output, \<open>json.loads\<close>, \<open>urlsafe_b64encode\<close> and the validating \<open>b64decode\<close>. Text and bytes
  are char lists, so a text of the model has code points below 256. Floats are outside the value
  model: a JSON number with a fraction or an exponent, and an escape above 255, is refused.
\<close>

section \<open>Decimal numbers\<close>

definition digit_char :: "nat \<Rightarrow> char" where
  "digit_char n = char_of (48 + n)"

definition is_digit :: "char \<Rightarrow> bool" where
  "is_digit c \<longleftrightarrow> 48 \<le> (of_char c :: nat) \<and> (of_char c :: nat) \<le> 57"

definition digit_val :: "char \<Rightarrow> nat" where
  "digit_val c = of_char c - 48"

fun show_nat :: "nat \<Rightarrow> string" where
  "show_nat n = (if n < 10 then [digit_char n] else show_nat (n div 10) @ [digit_char (n mod 10)])"

declare show_nat.simps [simp del]

definition show_int :: "int \<Rightarrow> string" where
  "show_int i = (if i < 0 then ''-'' @ show_nat (nat (- i)) else show_nat (nat i))"

definition read_digits :: "string \<Rightarrow> nat" where
  "read_digits s = foldl (\<lambda>a c. 10 * a + digit_val c) 0 s"

lemma of_char_digit [simp]: "n < 10 \<Longrightarrow> of_char (digit_char n) = (48 + n :: nat)"
  by (simp add: digit_char_def)

lemma digit_char_props [simp]:
  assumes "n < 10"
  shows "is_digit (digit_char n)" and "digit_val (digit_char n) = n"
  using assms by (simp_all add: is_digit_def digit_val_def)

lemma show_nat_digits: "c \<in> set (show_nat n) \<Longrightarrow> is_digit c"
proof (induction n rule: show_nat.induct)
  case (1 n)
  then show ?case by (subst (asm) (2) show_nat.simps) (auto split: if_splits)
qed

lemma show_nat_read: "read_digits (show_nat n) = n"
proof (induction n rule: show_nat.induct)
  case (1 n)
  then show ?case
    by (subst show_nat.simps) (simp add: read_digits_def)
qed

lemma show_nat_ne: "show_nat n \<noteq> []"
  by (subst show_nat.simps) simp

lemma show_nat_zero: "hd (show_nat n) = CHR ''0'' \<Longrightarrow> show_nat n = ''0''"
proof (induction n rule: show_nat.induct)
  case (1 n)
  show ?case
  proof (cases "n < 10")
    case True
    have "(of_char (digit_char n) :: nat) = of_char (CHR ''0'')" if "digit_char n = CHR ''0''"
      using that by simp
    with True 1 show ?thesis by (subst show_nat.simps) (subst (asm) (3) show_nat.simps, simp)
  next
    case False
    then have eq: "show_nat n = show_nat (n div 10) @ [digit_char (n mod 10)]"
      by (subst show_nat.simps) simp
    with 1 False have "show_nat (n div 10) = ''0''" by (simp add: show_nat_ne)
    then have "n div 10 = 0" using show_nat_read [of "n div 10"] by (simp add: read_digits_def digit_val_def)
    with False show ?thesis by simp
  qed
qed

section \<open>JSON\<close>

definition quote :: char where "quote = CHR 0x22"
definition backslash :: char where "backslash = CHR 0x5C"

definition hex_digit :: "nat \<Rightarrow> char" where
  "hex_digit n = (if n < 10 then char_of (48 + n) else char_of (87 + n))"

definition hex_val :: "char \<Rightarrow> nat option" where
  "hex_val c = (let n = of_char c :: nat in
     if 48 \<le> n \<and> n \<le> 57 then Some (n - 48)
     else if 97 \<le> n \<and> n \<le> 102 then Some (n - 87)
     else if 65 \<le> n \<and> n \<le> 70 then Some (n - 55)
     else None)"

text \<open>The escapes of \<open>json.dumps\<close> (\<open>ensure_ascii\<close>): anything outside the printable ASCII range.\<close>

definition escape_char :: "char \<Rightarrow> string" where
  "escape_char c = (let n = of_char c :: nat in
     if c = quote then [backslash, quote]
     else if c = backslash then [backslash, backslash]
     else if n = 10 then [backslash, CHR ''n'']
     else if n = 13 then [backslash, CHR ''r'']
     else if n = 9 then [backslash, CHR ''t'']
     else if n = 8 then [backslash, CHR ''b'']
     else if n = 12 then [backslash, CHR ''f'']
     else if n < 32 \<or> 126 < n then [backslash, CHR ''u'', CHR ''0'', CHR ''0'', hex_digit (n div 16), hex_digit (n mod 16)]
     else [c])"

definition json_string :: "string \<Rightarrow> string" where
  "json_string s = [quote] @ concat (map escape_char s) @ [quote]"

fun intercalate :: "'a list \<Rightarrow> 'a list list \<Rightarrow> 'a list" where
  "intercalate sep [] = []"
| "intercalate sep [x] = x"
| "intercalate sep (x # y # xs) = x @ sep @ intercalate sep (y # xs)"

text \<open>\<open>json.dumps(v, separators=(",", ":"))\<close>; a tuple is written as an array, any other object is a
  TypeError.\<close>

fun json_dumps :: "pyval \<Rightarrow> string res" and json_dumps_all :: "pyval list \<Rightarrow> string list res"
  and json_dumps_members :: "(string \<times> pyval) list \<Rightarrow> string list res" where
  "json_dumps VNone = Inr ''null''"
| "json_dumps (VBool b) = Inr (if b then ''true'' else ''false'')"
| "json_dumps (VInt i) = Inr (show_int i)"
| "json_dumps (VStr s) = Inr (json_string s)"
| "json_dumps (VList xs) = bind_res (json_dumps_all xs) (\<lambda>ts. Inr (''['' @ intercalate '','' ts @ '']''))"
| "json_dumps (VTuple xs) = bind_res (json_dumps_all xs) (\<lambda>ts. Inr (''['' @ intercalate '','' ts @ '']''))"
| "json_dumps (VDict d) = bind_res (json_dumps_members d) (\<lambda>ts. Inr (''{'' @ intercalate '','' ts @ ''}''))"
| "json_dumps VUndefined = Inl (TypeError ''not JSON serializable'')"
| "json_dumps (VObj i a) = Inl (TypeError ''not JSON serializable'')"
| "json_dumps (VExc e) = Inl (TypeError ''not JSON serializable'')"
| "json_dumps (VAwait v) = Inl (TypeError ''not JSON serializable'')"
| "json_dumps_all [] = Inr []"
| "json_dumps_all (x # xs) = bind_res (json_dumps x) (\<lambda>t. bind_res (json_dumps_all xs) (\<lambda>ts. Inr (t # ts)))"
| "json_dumps_members [] = Inr []"
| "json_dumps_members (kv # d) =
     bind_res (json_dumps (snd kv)) (\<lambda>t. bind_res (json_dumps_members d)
       (\<lambda>ts. Inr ((json_string (fst kv) @ '':'' @ t) # ts)))"

definition is_ws :: "char \<Rightarrow> bool" where
  "is_ws c \<longleftrightarrow> (of_char c :: nat) \<in> {9, 10, 13, 32}"

definition skip_ws :: "string \<Rightarrow> string" where
  "skip_ws s = dropWhile is_ws s"

definition read_escape :: "char \<Rightarrow> char option" where
  "read_escape c =
     (if c = quote then Some quote else if c = backslash then Some backslash
      else if c = CHR ''/'' then Some (CHR ''/'')
      else if c = CHR ''n'' then Some (char_of (10::nat)) else if c = CHR ''r'' then Some (char_of (13::nat))
      else if c = CHR ''t'' then Some (char_of (9::nat)) else if c = CHR ''b'' then Some (char_of (8::nat))
      else if c = CHR ''f'' then Some (char_of (12::nat)) else None)"

definition read_hex4 :: "string \<Rightarrow> (char \<times> string) option" where
  "read_hex4 s =
     (case s of
        a # b # c # d # rest \<Rightarrow>
          (case (hex_val a, hex_val b, hex_val c, hex_val d) of
             (Some w, Some x, Some y, Some z) \<Rightarrow>
               (if w = 0 \<and> x = 0 then Some (char_of (16 * y + z), rest) else None)
           | _ \<Rightarrow> None)
      | _ \<Rightarrow> None)"

text \<open>The body of a string, up to and past its closing quote.\<close>

function json_body :: "string \<Rightarrow> (string \<times> string) option" where
  "json_body s =
     (case s of
        [] \<Rightarrow> None
      | c # cs \<Rightarrow>
          if c = quote then Some ([], cs)
          else if c = backslash then
            (case cs of
               [] \<Rightarrow> None
             | e # es \<Rightarrow>
                 if e = CHR ''u'' then
                   (case read_hex4 es of
                      None \<Rightarrow> None
                    | Some (x, rest) \<Rightarrow>
                        (if length rest < length s
                         then map_option (\<lambda>(t, r). (x # t, r)) (json_body rest) else None))
                 else
                   (case read_escape e of
                      None \<Rightarrow> None
                    | Some x \<Rightarrow> map_option (\<lambda>(t, r). (x # t, r)) (json_body es)))
          else if (of_char c :: nat) < 32 then None
          else map_option (\<lambda>(t, r). (c # t, r)) (json_body cs))"
  by pat_completeness auto
termination by (relation "measure length") auto

declare json_body.simps [simp del]

definition strip_prefix :: "string \<Rightarrow> string \<Rightarrow> string option" where
  "strip_prefix p s = (if take (length p) s = p then Some (drop (length p) s) else None)"

text \<open>\<open>-?(0|[1-9][0-9]*)\<close>; a fraction or an exponent behind it makes it a float.\<close>

definition json_nat :: "string \<Rightarrow> (nat \<times> string) option" where
  "json_nat s =
     (let ds = takeWhile is_digit s;
          body = (if ds \<noteq> [] \<and> hd ds = CHR ''0'' then ''0'' else ds);
          rest = drop (length body) s
      in if body = [] \<or> (rest \<noteq> [] \<and> hd rest \<in> {CHR ''.'', CHR ''e'', CHR ''E''}) then None
         else Some (read_digits body, rest))"

definition json_number :: "string \<Rightarrow> (pyval \<times> string) option" where
  "json_number s =
     (case s of
        [] \<Rightarrow> None
      | c # cs \<Rightarrow>
          if c = CHR ''-'' then map_option (\<lambda>(n, r). (VInt (- int n), r)) (json_nat cs)
          else map_option (\<lambda>(n, r). (VInt (int n), r)) (json_nat s))"

text \<open>The grammar; the first argument bounds the recursion, and \<open>json_loads\<close> starts with more than
  the text can use: every call consumes a character.\<close>

fun json_value :: "nat \<Rightarrow> string \<Rightarrow> (pyval \<times> string) option"
and json_elems :: "nat \<Rightarrow> string \<Rightarrow> (pyval list \<times> string) option"
and json_members :: "nat \<Rightarrow> string \<Rightarrow> ((string \<times> pyval) list \<times> string) option" where
  "json_value 0 s = None"
| "json_value (Suc n) s =
     (case skip_ws s of
        [] \<Rightarrow> None
      | c # cs \<Rightarrow>
          if c = quote then map_option (\<lambda>(t, r). (VStr t, r)) (json_body cs)
          else if c = CHR ''['' then
            (case skip_ws cs of
               [] \<Rightarrow> None
             | d # ds \<Rightarrow>
                 if d = CHR '']'' then Some (VList [], ds)
                 else map_option (\<lambda>(xs, r). (VList xs, r)) (json_elems n cs))
          else if c = CHR ''{'' then
            (case skip_ws cs of
               [] \<Rightarrow> None
             | d # ds \<Rightarrow>
                 if d = CHR ''}'' then Some (VDict [], ds)
                 else map_option (\<lambda>(xs, r). (VDict (foldl (\<lambda>m (k, v). dict_set m k v) [] xs), r)) (json_members n cs))
          else (case strip_prefix ''null'' (c # cs) of
                  Some r \<Rightarrow> Some (VNone, r)
                | None \<Rightarrow>
                    (case strip_prefix ''true'' (c # cs) of
                       Some r \<Rightarrow> Some (VBool True, r)
                     | None \<Rightarrow>
                         (case strip_prefix ''false'' (c # cs) of
                            Some r \<Rightarrow> Some (VBool False, r)
                          | None \<Rightarrow> json_number (c # cs)))))"
| "json_elems 0 s = None"
| "json_elems (Suc n) s =
     (case json_value n s of
        None \<Rightarrow> None
      | Some (v, r) \<Rightarrow>
          (case skip_ws r of
             [] \<Rightarrow> None
           | d # ds \<Rightarrow>
               if d = CHR '']'' then Some ([v], ds)
               else if d = CHR '','' then map_option (\<lambda>(xs, r'). (v # xs, r')) (json_elems n ds)
               else None))"
| "json_members 0 s = None"
| "json_members (Suc n) s =
     (case skip_ws s of
        [] \<Rightarrow> None
      | c # cs \<Rightarrow>
          if c \<noteq> quote then None
          else (case json_body cs of
                  None \<Rightarrow> None
                | Some (k, r) \<Rightarrow>
                    (case skip_ws r of
                       [] \<Rightarrow> None
                     | d # ds \<Rightarrow>
                         if d \<noteq> CHR '':'' then None
                         else (case json_value n ds of
                                 None \<Rightarrow> None
                               | Some (v, r2) \<Rightarrow>
                                   (case skip_ws r2 of
                                      [] \<Rightarrow> None
                                    | e # es \<Rightarrow>
                                        if e = CHR ''}'' then Some ([(k, v)], es)
                                        else if e = CHR '','' then
                                          map_option (\<lambda>(xs, r'). ((k, v) # xs, r')) (json_members n es)
                                        else None)))))"

definition json_loads :: "string \<Rightarrow> pyval res" where
  "json_loads s =
     (case json_value (Suc (2 * length s)) s of
        None \<Rightarrow> Inl (ValueError ''invalid JSON'')
      | Some (v, r) \<Rightarrow> (if skip_ws r = [] then Inr v else Inl (ValueError ''invalid JSON'')))"

section \<open>The JSON round trip\<close>

lemma hex_val_digit [simp]: "n < 16 \<Longrightarrow> hex_val (hex_digit n) = Some n"
  by (simp add: hex_val_def hex_digit_def Let_def)

lemma char_of_of_char: "(of_char c :: nat) = n \<Longrightarrow> c = char_of n"
  by auto

lemma of_char_lt [simp]: "(of_char (c :: char) :: nat) < 256"
  using nat_of_char_less_256 .

lemma hex4_escape:
  "read_hex4 (CHR ''0'' # CHR ''0'' # hex_digit (of_char c div 16) # hex_digit (of_char c mod 16) # rest)
     = Some (c, rest)"
proof -
  have "(of_char c :: nat) div 16 < 16" using of_char_lt [of c] by linarith
  moreover have "hex_val (CHR ''0'') = Some 0" by (simp add: hex_val_def)
  moreover have "16 * ((of_char c :: nat) div 16) + of_char c mod 16 = of_char c" by simp
  ultimately show ?thesis by (simp add: read_hex4_def)
qed

lemma json_body_escape:
  assumes "json_body rest = Some (t, r)"
  shows "json_body (escape_char c @ rest) = Some (c # t, r)"
proof -
  have q: "quote \<noteq> backslash" "quote \<noteq> CHR ''u''" "backslash \<noteq> CHR ''u''" "backslash \<noteq> quote"
    by (simp_all add: quote_def backslash_def)
  let ?n = "of_char c :: nat"
  consider "c = quote" | "c = backslash" | "c \<noteq> quote" "c \<noteq> backslash" "?n = 10"
    | "c \<noteq> quote" "c \<noteq> backslash" "?n = 13" | "c \<noteq> quote" "c \<noteq> backslash" "?n = 9"
    | "c \<noteq> quote" "c \<noteq> backslash" "?n = 8" | "c \<noteq> quote" "c \<noteq> backslash" "?n = 12"
    | (hex) "c \<noteq> quote" "c \<noteq> backslash" "?n \<notin> {8, 9, 10, 12, 13}" "?n < 32 \<or> 126 < ?n"
    | (plain) "c \<noteq> quote" "c \<noteq> backslash" "?n \<notin> {8, 9, 10, 12, 13}" "\<not> (?n < 32 \<or> 126 < ?n)"
    by auto
  then show ?thesis
  proof cases
    case hex
    have "read_hex4 (CHR ''0'' # CHR ''0'' # hex_digit (?n div 16) # hex_digit (?n mod 16) # rest) = Some (c, rest)"
      by (rule hex4_escape)
    with hex q assms show ?thesis
      by (simp add: escape_char_def Let_def) (subst json_body.simps, simp)
  next
    case plain
    with assms show ?thesis
      by (simp add: escape_char_def Let_def) (subst json_body.simps, simp)
  qed (use assms q in \<open>simp add: escape_char_def Let_def;
        subst json_body.simps; simp add: read_escape_def quote_def backslash_def; auto dest: char_of_of_char\<close>)+
qed

lemma json_body_string: "json_body (concat (map escape_char s) @ quote # rest) = Some (s, rest)"
proof (induction s)
  case Nil
  show ?case by (simp) (subst json_body.simps, simp)
next
  case (Cons c s)
  then show ?case using json_body_escape by simp
qed

text \<open>What may follow a value inside a JSON text.\<close>

definition ends_value :: "string \<Rightarrow> bool" where
  "ends_value rest \<longleftrightarrow> rest = [] \<or> hd rest \<in> {CHR '','', CHR '']'', CHR ''}''}"

lemma json_nat_show:
  assumes "ends_value rest"
  shows "json_nat (show_nat n @ rest) = Some (n, rest)"
proof -
  have stop: "takeWhile is_digit rest = []"
    using assms by (cases rest) (auto simp: ends_value_def is_digit_def)
  have "takeWhile is_digit (show_nat n @ rest) = show_nat n"
    using stop show_nat_digits by (simp add: takeWhile_append2)
  moreover have "(if show_nat n \<noteq> [] \<and> hd (show_nat n) = CHR ''0'' then ''0'' else show_nat n) = show_nat n"
    using show_nat_zero by auto
  moreover have "\<not> (rest \<noteq> [] \<and> hd rest \<in> {CHR ''.'', CHR ''e'', CHR ''E''})"
    using assms by (auto simp: ends_value_def)
  ultimately show ?thesis by (simp add: json_nat_def Let_def show_nat_read show_nat_ne)
qed

lemma show_nat_hd: "\<exists>c cs. show_nat n = c # cs \<and> is_digit c"
  using show_nat_ne [of n] show_nat_digits [of _ n] by (cases "show_nat n") auto

lemma json_number_show:
  assumes "ends_value rest"
  shows "json_number (show_int i @ rest) = Some (VInt i, rest)"
proof (cases "i < 0")
  case True
  then show ?thesis using json_nat_show [OF assms, of "nat (- i)"]
    by (simp add: show_int_def json_number_def)
next
  case False
  obtain c cs where c: "show_nat (nat i) = c # cs" "is_digit c" using show_nat_hd by blast
  then have "c \<noteq> CHR ''-''" by (auto simp: is_digit_def)
  with c json_nat_show [OF assms, of "nat i"] False show ?thesis
    by (simp add: show_int_def json_number_def)
qed

lemma show_int_hd: "\<exists>c cs. show_int i = c # cs \<and> (is_digit c \<or> c = CHR ''-'')"
  using show_nat_hd [of "nat i"] by (cases "i < 0") (auto simp: show_int_def)

lemma is_digit_not [simp]:
  "\<not> is_digit quote" "\<not> is_digit (CHR ''['')" "\<not> is_digit (CHR ''{'')" "\<not> is_digit (CHR ''n'')"
  "\<not> is_digit (CHR ''t'')" "\<not> is_digit (CHR ''f'')"
  by (simp_all add: is_digit_def quote_def)

lemma json_value_int:
  assumes "ends_value rest"
  shows "json_value (Suc n) (show_int i @ rest) = Some (VInt i, rest)"
proof -
  obtain c cs where c: "show_int i = c # cs" "is_digit c \<or> c = CHR ''-''" using show_int_hd by blast
  then have "\<not> is_ws c" "c \<noteq> quote" "c \<noteq> CHR ''[''" "c \<noteq> CHR ''{''" "c \<noteq> CHR ''n''" "c \<noteq> CHR ''t''" "c \<noteq> CHR ''f''"
    by (auto simp: is_digit_def is_ws_def quote_def)
  with c json_number_show [OF assms, of i] show ?thesis
    by (simp add: skip_ws_def strip_prefix_def)
qed

text \<open>The values \<open>json.dumps\<close> writes and \<open>json.loads\<close> reads back as they are (a tuple comes back as
  a list).\<close>

fun json_native :: "pyval \<Rightarrow> bool" where
  "json_native VNone = True"
| "json_native (VBool b) = True"
| "json_native (VInt i) = True"
| "json_native (VStr s) = True"
| "json_native (VList xs) = (\<forall>x \<in> set xs. json_native x)"
| "json_native (VDict d) = (distinct (map fst d) \<and> (\<forall>kv \<in> set d. json_native (snd kv)))"
| "json_native v = False"

lemma quote_simps [simp]: "\<not> is_ws quote" "quote \<noteq> CHR ''[''" "quote \<noteq> CHR ''{''" "quote \<noteq> CHR '']''" "quote \<noteq> CHR ''}''"
  "CHR ''['' \<noteq> quote" "CHR ''{'' \<noteq> quote" "CHR '']'' \<noteq> quote" "CHR ''}'' \<noteq> quote"
  by (simp_all add: is_ws_def quote_def)

lemma ws_simps [simp]:
  "\<not> is_ws (CHR '','')" "\<not> is_ws (CHR '']'')" "\<not> is_ws (CHR ''}'')" "\<not> is_ws (CHR '':'')"
  "\<not> is_ws (CHR ''['')" "\<not> is_ws (CHR ''{'')" "\<not> is_ws (CHR ''n'')" "\<not> is_ws (CHR ''t'')" "\<not> is_ws (CHR ''f'')"
  by (simp_all add: is_ws_def)

lemma skip_ws_Cons [simp]: "skip_ws (c # cs) = (if is_ws c then skip_ws cs else c # cs)"
  by (simp add: skip_ws_def)

lemma dict_set_foldl: "distinct (map fst (m @ xs)) \<Longrightarrow> foldl (\<lambda>m (k, v). dict_set m k v) m xs = m @ xs"
proof (induction xs arbitrary: m)
  case (Cons x xs)
  obtain k v where x: "x = (k, v)" by (cases x)
  with Cons.prems have "dict_set m k v = m @ [(k, v)]" by (intro dict_set_fresh) auto
  with Cons x show ?case by simp
qed simp

lemma json_dumps_native: "json_native v \<Longrightarrow> \<exists>t. json_dumps v = Inr t"
proof (induction v rule: json_native.induct)
  case (5 xs)
  then have "\<exists>ts. json_dumps_all ys = Inr ts" if "set ys \<subseteq> set xs" for ys
    using that by (induction ys) fastforce+
  then obtain ts where "json_dumps_all xs = Inr ts" by blast
  then show ?case by simp
next
  case (6 d)
  then have "\<exists>ts. json_dumps_members e = Inr ts" if "set e \<subseteq> set d" for e
    using that by (induction e) fastforce+
  then obtain ts where "json_dumps_members d = Inr ts" by blast
  then show ?case by simp
qed simp_all

lemma json_dumps_hd:
  assumes "json_native v" and "json_dumps v = Inr t"
  shows "\<exists>c cs. t = c # cs \<and> \<not> is_ws c \<and> c \<noteq> CHR '']'' \<and> c \<noteq> CHR ''}''"
proof (cases v)
  case (VInt i)
  obtain c cs where "show_int i = c # cs" "is_digit c \<or> c = CHR ''-''" using show_int_hd by blast
  moreover from this(2) have "\<not> is_ws c" "c \<noteq> CHR '']''" "c \<noteq> CHR ''}''"
    by (auto simp: is_ws_def is_digit_def)
  moreover have "t = show_int i" using VInt assms(2) by simp
  ultimately show ?thesis by simp
next
  case (VBool b)
  with assms(2) have "t = ''true'' \<or> t = ''false''" by (cases b) simp_all
  then show ?thesis by (elim disjE) simp_all
next
  case (VStr x)
  with assms(2) have "t = quote # concat (map escape_char x) @ [quote]" by (simp add: json_string_def)
  then show ?thesis by simp
next
  case (VList xs)
  with assms(2) obtain u where "t = ''['' @ u" by (cases "json_dumps_all xs") auto
  then show ?thesis by simp
next
  case (VDict d)
  with assms(2) obtain u where "t = ''{'' @ u" by (cases "json_dumps_members d") auto
  then show ?thesis by simp
next
  case VNone
  with assms(2) have "t = ''null''" by simp
  then show ?thesis by simp
qed (use assms in simp_all)

definition reads_back :: "pyval \<Rightarrow> bool" where
  "reads_back v \<longleftrightarrow> (\<forall>t rest n. json_dumps v = Inr t \<longrightarrow> ends_value rest \<longrightarrow> 2 * length t \<le> n + 1
     \<longrightarrow> json_value n (t @ rest) = Some (v, rest))"

lemma reads_backD:
  "reads_back v \<Longrightarrow> json_dumps v = Inr t \<Longrightarrow> ends_value rest \<Longrightarrow> 2 * length t \<le> n + 1
   \<Longrightarrow> json_value n (t @ rest) = Some (v, rest)"
  by (simp add: reads_back_def)

lemma ends_value_simps [simp]:
  "ends_value (CHR '','' # r)" "ends_value (CHR '']'' # r)" "ends_value (CHR ''}'' # r)"
  by (simp_all add: ends_value_def)

lemma intercalate_Cons: "ts \<noteq> [] \<Longrightarrow> intercalate sep (t # ts) = t @ sep @ intercalate sep ts"
  by (cases ts) simp_all

lemma json_dumps_all_ne: "json_dumps_all (x # xs) = Inr ts \<Longrightarrow> ts \<noteq> []"
  by (auto simp: bind_res_Inr_iff)

lemma json_elems_back:
  assumes "xs \<noteq> []" and "\<forall>x \<in> set xs. reads_back x" and "json_dumps_all xs = Inr ts"
    and "2 * Suc (length (intercalate '','' ts)) \<le> n + 1"
  shows "json_elems n (intercalate '','' ts @ CHR '']'' # rest) = Some (xs, rest)"
  using assms
proof (induction xs arbitrary: ts n)
  case (Cons x xs)
  obtain t ts' where t: "json_dumps x = Inr t" "json_dumps_all xs = Inr ts'" "ts = t # ts'"
    using Cons.prems(3) by (auto simp: bind_res_Inr_iff)
  obtain m where n: "n = Suc m" using Cons.prems(4) by (cases n) auto
  show ?case
  proof (cases xs)
    case Nil
    with t have ts: "ts = [t]" by simp
    have "json_value m (t @ CHR '']'' # rest) = Some (x, CHR '']'' # rest)"
      using Cons.prems(2,4) t(1) n ts by (intro reads_backD) auto
    with ts n Nil show ?thesis by simp
  next
    case (Cons y ys)
    then have ne: "ts' \<noteq> []" using t(2) json_dumps_all_ne by auto
    have len: "length (intercalate '','' ts) = length t + 1 + length (intercalate '','' ts')"
      using t(3) ne by (simp add: intercalate_Cons)
    have "json_value m (t @ CHR '','' # intercalate '','' ts' @ CHR '']'' # rest)
      = Some (x, CHR '','' # intercalate '','' ts' @ CHR '']'' # rest)"
      using Cons.prems(2,4) t(1) n len by (intro reads_backD) auto
    moreover have "json_elems m (intercalate '','' ts' @ CHR '']'' # rest) = Some (xs, rest)"
      using Cons.prems(2,4) Cons t(2) n len by (intro Cons.IH) auto
    ultimately show ?thesis using t(3) ne n by (simp add: intercalate_Cons)
  qed
qed simp

lemma json_members_back:
  assumes "d \<noteq> []" and "\<forall>kv \<in> set d. reads_back (snd kv)" and "json_dumps_members d = Inr ts"
    and "2 * Suc (length (intercalate '','' ts)) \<le> n + 1"
  shows "json_members n (intercalate '','' ts @ CHR ''}'' # rest) = Some (d, rest)"
  using assms
proof (induction d arbitrary: ts n)
  case (Cons kv d)
  obtain k v where kv: "kv = (k, v)" by (cases kv)
  obtain t ts' where t: "json_dumps v = Inr t" "json_dumps_members d = Inr ts'"
    "ts = (json_string k @ '':'' @ t) # ts'"
    using Cons.prems(3) kv by (auto simp: bind_res_Inr_iff)
  obtain m where n: "n = Suc m" using Cons.prems(4) by (cases n) auto
  show ?case
  proof (cases d)
    case Nil
    with t have ts: "ts = [json_string k @ '':'' @ t]" by simp
    have "json_value m (t @ CHR ''}'' # rest) = Some (v, CHR ''}'' # rest)"
      using Cons.prems(2,4) t(1) n ts kv by (intro reads_backD) (auto simp: json_string_def)
    with ts n Nil kv show ?thesis by (simp add: json_string_def json_body_string)
  next
    case (Cons y ys)
    then have ne: "ts' \<noteq> []" using t(2) by (cases y) (auto simp: bind_res_Inr_iff)
    have len: "length (intercalate '','' ts) = length (json_string k) + 1 + length t + 1 + length (intercalate '','' ts')"
      using t(3) ne by (simp add: intercalate_Cons)
    have "json_value m (t @ CHR '','' # intercalate '','' ts' @ CHR ''}'' # rest)
      = Some (v, CHR '','' # intercalate '','' ts' @ CHR ''}'' # rest)"
      using Cons.prems(2,4) t(1) n len kv by (intro reads_backD) auto
    moreover have "json_members m (intercalate '','' ts' @ CHR ''}'' # rest) = Some (d, rest)"
      using Cons.prems(2,4) Cons t(2) n len by (intro Cons.IH) auto
    ultimately show ?thesis using t(3) ne n kv
      by (simp add: intercalate_Cons json_string_def json_body_string)
  qed
qed simp

lemma json_reads_back: "json_native v \<Longrightarrow> reads_back v"
proof (induction v rule: json_native.induct)
  case 1
  show ?case unfolding reads_back_def
  proof (intro allI impI)
    fix t rest n
    assume "json_dumps VNone = Inr t" "2 * length t \<le> n + 1"
    then show "json_value n (t @ rest) = Some (VNone, rest)"
      by (cases n) (auto simp: strip_prefix_def quote_def)
  qed
next
  case (2 b)
  show ?case unfolding reads_back_def
  proof (intro allI impI)
    fix t rest n
    assume "json_dumps (VBool b) = Inr t" "2 * length t \<le> n + 1"
    then show "json_value n (t @ rest) = Some (VBool b, rest)"
      by (cases n; cases b) (auto simp: strip_prefix_def quote_def)
  qed
next
  case (3 i)
  show ?case unfolding reads_back_def
  proof (intro allI impI)
    fix t rest n
    assume a: "json_dumps (VInt i) = Inr t" "ends_value rest" "2 * length t \<le> n + 1"
    then have "t = show_int i" by simp
    moreover obtain c cs where "show_int i = c # cs" using show_int_hd by blast
    ultimately have "\<exists>m. n = Suc m" using a(3) by (cases n) auto
    with \<open>t = show_int i\<close> a(2) show "json_value n (t @ rest) = Some (VInt i, rest)"
      using json_value_int by auto
  qed
next
  case (4 s)
  show ?case unfolding reads_back_def
  proof (intro allI impI)
    fix t rest n
    assume "json_dumps (VStr s) = Inr t" "2 * length t \<le> n + 1"
    then show "json_value n (t @ rest) = Some (VStr s, rest)"
      by (cases n) (auto simp: json_string_def json_body_string)
  qed
next
  case (5 xs)
  show ?case unfolding reads_back_def
  proof (intro allI impI)
    fix t rest n
    assume a: "json_dumps (VList xs) = Inr t" "2 * length t \<le> n + 1"
    then obtain ts where ts: "json_dumps_all xs = Inr ts" "t = ''['' @ intercalate '','' ts @ '']''"
      by (auto simp: bind_res_Inr_iff)
    obtain m where n: "n = Suc m" using a(2) ts(2) by (cases n) auto
    show "json_value n (t @ rest) = Some (VList xs, rest)"
    proof (cases xs)
      case Nil
      with ts n show ?thesis by simp
    next
      case (Cons y ys)
      obtain u us where u: "json_dumps y = Inr u" "ts = u # us"
        using ts(1) Cons by (auto simp: bind_res_Inr_iff)
      obtain c cs where c: "u = c # cs" "\<not> is_ws c" "c \<noteq> CHR '']''"
        using json_dumps_hd [OF _ u(1)] 5 Cons by auto
      have "\<exists>cs'. intercalate '','' ts = c # cs'" using u(2) c(1) by (cases us) simp_all
      then obtain cs' where "intercalate '','' ts = c # cs'" by blast
      moreover have "json_elems m (intercalate '','' ts @ CHR '']'' # rest) = Some (xs, rest)"
        using 5 Cons ts a(2) n by (intro json_elems_back) auto
      ultimately show ?thesis using ts(2) n c by simp
    qed
  qed
next
  case (6 d)
  show ?case unfolding reads_back_def
  proof (intro allI impI)
    fix t rest n
    assume a: "json_dumps (VDict d) = Inr t" "2 * length t \<le> n + 1"
    then obtain ts where ts: "json_dumps_members d = Inr ts" "t = ''{'' @ intercalate '','' ts @ ''}''"
      by (auto simp: bind_res_Inr_iff)
    obtain m where n: "n = Suc m" using a(2) ts(2) by (cases n) auto
    show "json_value n (t @ rest) = Some (VDict d, rest)"
    proof (cases d)
      case Nil
      with ts n show ?thesis by simp
    next
      case (Cons y ys)
      obtain us u where u: "ts = (json_string (fst y) @ u) # us"
        using ts(1) Cons by (auto simp: bind_res_Inr_iff)
      have "\<exists>cs'. intercalate '','' ts = quote # cs'" using u by (cases us) (simp_all add: json_string_def)
      then obtain cs' where "intercalate '','' ts = quote # cs'" by blast
      moreover have "json_members m (intercalate '','' ts @ CHR ''}'' # rest) = Some (d, rest)"
        using 6 Cons ts a(2) n by (intro json_members_back) auto
      moreover have "foldl (\<lambda>m (k, v). dict_set m k v) [] d = d" using dict_set_foldl [of "[]" d] 6 by simp
      ultimately show ?thesis using ts(2) n by simp
    qed
  qed
qed simp_all

lemma json_round_trip:
  assumes "json_native v"
  shows "\<exists>t. json_dumps v = Inr t \<and> json_loads t = Inr v"
proof -
  obtain t where t: "json_dumps v = Inr t" using json_dumps_native [OF assms] by blast
  have "json_value (Suc (2 * length t)) (t @ []) = Some (v, [])"
    using json_reads_back [OF assms] t by (rule reads_backD) (simp_all add: ends_value_def)
  with t show ?thesis by (simp add: json_loads_def skip_ws_def)
qed

section \<open>The text is ASCII\<close>

definition ascii :: "string \<Rightarrow> bool" where
  "ascii s \<longleftrightarrow> (\<forall>c \<in> set s. (of_char c :: nat) < 128)"

lemma ascii_simps [simp]:
  "ascii []" "ascii (c # s) \<longleftrightarrow> (of_char c :: nat) < 128 \<and> ascii s"
  "ascii (s @ t) \<longleftrightarrow> ascii s \<and> ascii t"
  by (auto simp: ascii_def)

lemma hex_digit_ascii [simp]: "n < 16 \<Longrightarrow> (of_char (hex_digit n) :: nat) < 128"
  by (simp add: hex_digit_def)

lemma escape_char_ascii: "ascii (escape_char c)"
proof -
  have "(of_char c :: nat) div 16 < 16" using of_char_lt [of c] by linarith
  then show ?thesis by (simp add: escape_char_def Let_def quote_def backslash_def)
qed

lemma json_string_ascii: "ascii (json_string s)"
proof -
  have "ascii (concat (map escape_char s))" by (induction s) (simp_all add: escape_char_ascii)
  then show ?thesis by (simp add: json_string_def quote_def)
qed

lemma digits_ascii: "(\<And>c. c \<in> set s \<Longrightarrow> is_digit c) \<Longrightarrow> ascii s"
  unfolding ascii_def
proof
  fix c
  assume "\<And>c. c \<in> set s \<Longrightarrow> is_digit c" and "c \<in> set s"
  then have "is_digit c" by blast
  then show "(of_char c :: nat) < 128" by (simp add: is_digit_def)
qed

lemma show_int_ascii: "ascii (show_int i)"
  using digits_ascii [OF show_nat_digits] by (simp add: show_int_def)

lemma intercalate_ascii: "(\<And>t. t \<in> set ts \<Longrightarrow> ascii t) \<Longrightarrow> ascii sep \<Longrightarrow> ascii (intercalate sep ts)"
  by (induction sep ts rule: intercalate.induct) auto

lemma json_dumps_ascii: "json_dumps v = Inr t \<Longrightarrow> ascii t"
  and json_dumps_all_ascii: "json_dumps_all xs = Inr ts \<Longrightarrow> u \<in> set ts \<Longrightarrow> ascii u"
  and json_dumps_members_ascii: "json_dumps_members d = Inr ts \<Longrightarrow> u \<in> set ts \<Longrightarrow> ascii u"
proof (induction v and xs and d arbitrary: t and ts u and ts u
    rule: json_dumps_json_dumps_all_json_dumps_members.induct)
  case (2 b)
  then show ?case by (cases b) auto
next
  case (3 i)
  then show ?case using show_int_ascii by auto
next
  case (4 s)
  then show ?case using json_string_ascii by auto
next
  case (5 xs)
  then obtain ts where "json_dumps_all xs = Inr ts" "t = ''['' @ intercalate '','' ts @ '']''"
    by (auto simp: bind_res_Inr_iff)
  with 5 show ?case using intercalate_ascii [of ts "'',''"] by auto
next
  case (6 xs)
  then obtain ts where "json_dumps_all xs = Inr ts" "t = ''['' @ intercalate '','' ts @ '']''"
    by (auto simp: bind_res_Inr_iff)
  with 6 show ?case using intercalate_ascii [of ts "'',''"] by auto
next
  case (7 d)
  then obtain ts where "json_dumps_members d = Inr ts" "t = ''{'' @ intercalate '','' ts @ ''}''"
    by (auto simp: bind_res_Inr_iff)
  with 7 show ?case using intercalate_ascii [of ts "'',''"] by auto
next
  case (13 x xs)
  then show ?case by (auto simp: bind_res_Inr_iff)
next
  case (15 kv d)
  then show ?case using json_string_ascii by (auto simp: bind_res_Inr_iff)
qed auto

section \<open>UTF-8\<close>

text \<open>\<open>bytes.decode()\<close>, for the code points of the model: below 128, and the two-byte sequences up
  to 255.\<close>

fun utf8_decode :: "string \<Rightarrow> string option" where
  "utf8_decode [] = Some []"
| "utf8_decode (c # cs) =
     (let n = of_char c :: nat in
      if n < 128 then map_option (\<lambda>t. c # t) (utf8_decode cs)
      else if n = 194 \<or> n = 195 then
        (case cs of
           [] \<Rightarrow> None
         | d # ds \<Rightarrow>
             (let m = of_char d :: nat in
              if 128 \<le> m \<and> m < 192
              then map_option (\<lambda>t. char_of (if n = 194 then m else m + 64) # t) (utf8_decode ds)
              else None))
      else None)"

lemma utf8_decode_ascii: "ascii s \<Longrightarrow> utf8_decode s = Some s"
  by (induction s) (simp_all add: Let_def)

section \<open>Base64\<close>

text \<open>The standard alphabet, and the URL-safe one (\<open>altchars=b"-_"\<close>).\<close>

datatype alphabet = Standard | Url_Safe

definition sextet_char :: "alphabet \<Rightarrow> nat \<Rightarrow> char" where
  "sextet_char al n =
     (if n < 26 then char_of (65 + n) else if n < 52 then char_of (71 + n)
      else if n < 62 then char_of (n - 4) else if al = Url_Safe then (if n = 62 then CHR ''-'' else CHR ''_'')
      else (if n = 62 then CHR ''+'' else CHR ''/''))"

text \<open>\<open>altchars\<close> are translated to the standard characters before decoding, so that the decoder of
  the URL-safe alphabet accepts both.\<close>

definition sextet_val :: "alphabet \<Rightarrow> char \<Rightarrow> nat option" where
  "sextet_val al c = (let n = of_char c :: nat in
     if 65 \<le> n \<and> n \<le> 90 then Some (n - 65)
     else if 97 \<le> n \<and> n \<le> 122 then Some (n - 71)
     else if 48 \<le> n \<and> n \<le> 57 then Some (n + 4)
     else if n = 43 \<or> al = Url_Safe \<and> n = 45 then Some 62
     else if n = 47 \<or> al = Url_Safe \<and> n = 95 then Some 63
     else None)"

definition pad :: char where "pad = CHR ''=''"

fun b64_encode :: "alphabet \<Rightarrow> string \<Rightarrow> string" where
  "b64_encode al [] = []"
| "b64_encode al [a] =
     (let x = of_char a :: nat in [sextet_char al (x div 4), sextet_char al (x mod 4 * 16), pad, pad])"
| "b64_encode al [a, b] =
     (let x = of_char a :: nat; y = of_char b :: nat
      in [sextet_char al (x div 4), sextet_char al (x mod 4 * 16 + y div 16), sextet_char al (y mod 16 * 4), pad])"
| "b64_encode al (a # b # c # rest) =
     (let x = of_char a :: nat; y = of_char b :: nat; z = of_char c :: nat
      in sextet_char al (x div 4) # sextet_char al (x mod 4 * 16 + y div 16)
         # sextet_char al (y mod 16 * 4 + z div 64) # sextet_char al (z mod 64) # b64_encode al rest)"

fun b64_decode :: "alphabet \<Rightarrow> string \<Rightarrow> string option" where
  "b64_decode al [] = Some []"
| "b64_decode al (a # b # c # d # rest) =
     (if d = pad then
        (if rest \<noteq> [] then None
         else if c = pad then
           (case (sextet_val al a, sextet_val al b) of
              (Some w, Some x) \<Rightarrow> Some [char_of (w * 4 + x div 16)]
            | _ \<Rightarrow> None)
         else
           (case (sextet_val al a, sextet_val al b, sextet_val al c) of
              (Some w, Some x, Some y) \<Rightarrow> Some [char_of (w * 4 + x div 16), char_of (x mod 16 * 16 + y div 4)]
            | _ \<Rightarrow> None))
      else
        (case (sextet_val al a, sextet_val al b, sextet_val al c, sextet_val al d) of
           (Some w, Some x, Some y, Some z) \<Rightarrow>
             map_option (\<lambda>t. char_of (w * 4 + x div 16) # char_of (x mod 16 * 16 + y div 4)
                              # char_of (y mod 4 * 64 + z) # t) (b64_decode al rest)
         | _ \<Rightarrow> None))"
| "b64_decode al _ = None"

lemma sextet_val_char [simp]: "n < 64 \<Longrightarrow> sextet_val al (sextet_char al n) = Some n"
  by (auto simp: sextet_val_def sextet_char_def Let_def)

lemma sextet_not_pad [simp]: "n < 64 \<Longrightarrow> sextet_char al n \<noteq> pad"
proof
  assume "n < 64" "sextet_char al n = pad"
  then have "sextet_val al pad = Some n" using sextet_val_char by metis
  then show False by (simp add: sextet_val_def pad_def)
qed

lemma b64_bits:
  fixes x y z :: nat
  assumes "x < 256" and "y < 256" and "z < 256"
  shows "x div 4 < 64" "x mod 4 * 16 < 64" "x mod 4 * 16 + y div 16 < 64" "y mod 16 * 4 < 64"
    "y mod 16 * 4 + z div 64 < 64" "z mod 64 < 64"
    "x div 4 * 4 + (x mod 4 * 16) div 16 = x"
    "x div 4 * 4 + (x mod 4 * 16 + y div 16) div 16 = x"
    "(x mod 4 * 16 + y div 16) mod 16 * 16 + (y mod 16 * 4) div 4 = y"
    "(x mod 4 * 16 + y div 16) mod 16 * 16 + (y mod 16 * 4 + z div 64) div 4 = y"
    "(y mod 16 * 4 + z div 64) mod 4 * 64 + z mod 64 = z"
proof -
  have q: "y div 16 < 16" "z div 64 < 4" using assms by auto
  then have d: "(x mod 4 * 16 + y div 16) div 16 = x mod 4" "(x mod 4 * 16 + y div 16) mod 16 = y div 16"
    "(y mod 16 * 4 + z div 64) div 4 = y mod 16" "(y mod 16 * 4 + z div 64) mod 4 = z div 64"
    by simp_all
  show "x div 4 < 64" using assms by auto
  show "x mod 4 * 16 < 64" using mod_less_divisor [of 4 x] by linarith
  show "x mod 4 * 16 + y div 16 < 64" using mod_less_divisor [of 4 x] q by linarith
  show "y mod 16 * 4 < 64" using mod_less_divisor [of 16 y] by linarith
  show "y mod 16 * 4 + z div 64 < 64" using mod_less_divisor [of 16 y] q by linarith
  show "z mod 64 < 64" by simp
  show "x div 4 * 4 + (x mod 4 * 16) div 16 = x" by simp
  show "x div 4 * 4 + (x mod 4 * 16 + y div 16) div 16 = x" unfolding d by simp
  show "(x mod 4 * 16 + y div 16) mod 16 * 16 + (y mod 16 * 4) div 4 = y" unfolding d by simp
  show "(x mod 4 * 16 + y div 16) mod 16 * 16 + (y mod 16 * 4 + z div 64) div 4 = y" unfolding d by simp
  show "(y mod 16 * 4 + z div 64) mod 4 * 64 + z mod 64 = z" unfolding d by simp
qed

lemma b64_round_trip: "b64_decode al (b64_encode al s) = Some s"
proof (induction al s rule: b64_encode.induct)
  case (2 al a)
  note b = b64_bits [OF of_char_lt [of a] of_char_lt [of a] of_char_lt [of a]]
  show ?case using b(1,2,7) by (simp add: Let_def)
next
  case (3 al a b)
  note b = b64_bits [OF of_char_lt [of a] of_char_lt [of b] of_char_lt [of b]]
  show ?case using b(1,3,4,8,9) by (simp add: Let_def del: mult_mod_right)
next
  case (4 al a b c rest)
  note b = b64_bits [OF of_char_lt [of a] of_char_lt [of b] of_char_lt [of c]]
  show ?case using b(1,3,5,6,8,10,11) 4 by (simp add: Let_def)
qed simp

section \<open>A JSON value as an opaque token\<close>

definition wrap_json :: "alphabet \<Rightarrow> pyval \<Rightarrow> string res" where
  "wrap_json al v = bind_res (json_dumps v) (\<lambda>raw. Inr (b64_encode al raw))"

text \<open>\<open>None\<close> is any of the failures of the decoding chain, which the callers turn into a ValueError.\<close>

definition unwrap_json :: "alphabet \<Rightarrow> string \<Rightarrow> pyval option" where
  "unwrap_json al s =
     (case b64_decode al s of
        None \<Rightarrow> None
      | Some raw \<Rightarrow>
          (case utf8_decode raw of
             None \<Rightarrow> None
           | Some t \<Rightarrow> (case json_loads t of Inl e \<Rightarrow> None | Inr v \<Rightarrow> Some v)))"

lemma wrap_json_round_trip:
  assumes "json_native v"
  obtains t where "wrap_json al v = Inr t" and "unwrap_json al t = Some v"
proof -
  obtain t where t: "json_dumps v = Inr t" "json_loads t = Inr v" using json_round_trip [OF assms] by blast
  moreover have "utf8_decode t = Some t" using t(1) by (intro utf8_decode_ascii json_dumps_ascii)
  ultimately show thesis
    using that [of "b64_encode al t"] by (simp add: wrap_json_def unwrap_json_def b64_round_trip)
qed

section \<open>The interface of a token codec\<close>

text \<open>An encoder and a decoder of opaque tokens; what is valid comes back, and nothing else is
  forged from it.\<close>

locale token_codec =
  fixes valid :: "'a \<Rightarrow> bool" and encode :: "'a \<Rightarrow> string res" and decode :: "string \<Rightarrow> 'a res"
  assumes comes_back: "valid x \<Longrightarrow> \<exists>t. encode x = Inr t \<and> decode t = Inr x"
begin

lemma encode_total: "valid x \<Longrightarrow> \<exists>t. encode x = Inr t"
  using comes_back by blast

lemma round_trip: "valid x \<Longrightarrow> encode x = Inr t \<Longrightarrow> decode t = Inr x"
  using comes_back [of x] by auto

lemma encode_inj: "valid x \<Longrightarrow> valid y \<Longrightarrow> encode x = encode y \<Longrightarrow> x = y"
  using comes_back [of x] comes_back [of y] by auto

end

end
