(* ===== verification/Core_Steps.thy ===== *)
theory Core_Steps
  imports Step_Model Text_Codec
begin

text \<open>
  The plan steps of \<open>src/src/grafast_py/core_steps.py\<close> and the resolver adapter of \<open>steps.py\<close>: what
  each class's \<open>execute\<close> does with its dependency columns, the flags and dedup identity its
  constructor sets, and the Relay global ids. Host callables (lambdas, loaders, predicates,
  resolvers) are parameters. Columns have length \<open>count\<close>, as \<open>_store\<close> enforces.
\<close>

section \<open>Path access\<close>

fun get_in :: "pyval \<Rightarrow> seg list \<Rightarrow> pyval \<Rightarrow> pyval" where
  "get_in v [] fallback = v"
| "get_in v (s # path) fallback =
     (if v = VNone then fallback
      else
        (case v of
           VDict d \<Rightarrow>
             (case s of
                SKey k \<Rightarrow> (case map_of d k of None \<Rightarrow> fallback | Some w \<Rightarrow> get_in w path fallback)
              | SIdx i \<Rightarrow> fallback)
         | _ \<Rightarrow>
             (case getitem v s of
                Inr w \<Rightarrow> get_in w path fallback
              | Inl _ \<Rightarrow>
                  (case getattr v s of
                     Inr w \<Rightarrow> get_in w path fallback
                   | Inl _ \<Rightarrow> fallback))))"

section \<open>The value steps\<close>

definition constant_execute :: "pyval \<Rightarrow> nat \<Rightarrow> column list \<Rightarrow> column call" where
  "constant_execute data count values = Returned (replicate count data)"

definition access_execute :: "seg list \<Rightarrow> pyval \<Rightarrow> nat \<Rightarrow> column list \<Rightarrow> column call" where
  "access_execute path fallback count values =
     (let parents = values ! 0 in
      Returned (map (\<lambda>i. if is_exc (parents ! i) then parents ! i
                         else get_in (parents ! i) path fallback) [0..<count]))"

text \<open>\<open>LambdaStep._apply\<close>: a raise is carried as the entry's value; an async function leaves its
  coroutine in the column.\<close>

definition apply_fn :: "(pyval \<Rightarrow> pyval call) \<Rightarrow> pyval \<Rightarrow> pyval" where
  "apply_fn fn v =
     (if is_exc v then v
      else (case fn v of
              Returned w \<Rightarrow> w
            | Raised e \<Rightarrow> VExc e
            | Awaitable r \<Rightarrow> VAwait (case r of Inl e \<Rightarrow> VExc e | Inr w \<Rightarrow> w)))"

definition lambda_execute :: "(pyval \<Rightarrow> pyval call) \<Rightarrow> nat \<Rightarrow> column list \<Rightarrow> column call" where
  "lambda_execute fn count values =
     (let col = values ! 0 in Returned (map (\<lambda>i. apply_fn fn (col ! i)) [0..<count]))"

definition list_execute :: "nat \<Rightarrow> column list \<Rightarrow> column call" where
  "list_execute count values = Returned (map (\<lambda>i. VList (map (\<lambda>c. c ! i) values)) [0..<count])"

definition object_execute :: "string list \<Rightarrow> nat \<Rightarrow> column list \<Rightarrow> column call" where
  "object_execute ks count values =
     Returned (map (\<lambda>i. VDict (map (\<lambda>(d, key). (key, (values ! d) ! i)) (zip [0..<length ks] ks))) [0..<count])"

definition item_execute :: "pyval list \<Rightarrow> nat \<Rightarrow> column list \<Rightarrow> column call" where
  "item_execute items count values = Returned items"

definition root_execute :: "nat \<Rightarrow> column list \<Rightarrow> column call" where
  "root_execute count values = Raised (AssertionError ''RootStep is seeded at the bucket boundary'')"

section \<open>The list transforms\<close>

text \<open>\<open>for item in entry\<close>: lists and tuples by element, a string by character, a dict by key.\<close>

definition iter_items :: "pyval \<Rightarrow> pyval list res" where
  "iter_items v =
     (case v of
        VList xs \<Rightarrow> Inr xs
      | VTuple xs \<Rightarrow> Inr xs
      | VStr s \<Rightarrow> Inr (map (\<lambda>c. VStr [c]) s)
      | VDict d \<Rightarrow> Inr (map (\<lambda>kv. VStr (fst kv)) d)
      | _ \<Rightarrow> Inl (TypeError ''object is not iterable''))"

text \<open>\<open>[item for item in items if predicate(item)]\<close>; an awaitable is truthy.\<close>

fun filter_items :: "(pyval \<Rightarrow> pyval call) \<Rightarrow> pyval list \<Rightarrow> pyval list res" where
  "filter_items predicate [] = Inr []"
| "filter_items predicate (x # xs) =
     (case predicate x of
        Raised e \<Rightarrow> Inl e
      | Returned v \<Rightarrow>
          bind_res (filter_items predicate xs) (\<lambda>ys. Inr (if truthy v then x # ys else ys))
      | Awaitable r \<Rightarrow> bind_res (filter_items predicate xs) (\<lambda>ys. Inr (x # ys)))"

definition filter_entry :: "(pyval \<Rightarrow> pyval call) \<Rightarrow> pyval \<Rightarrow> pyval" where
  "filter_entry predicate entry =
     (if entry = VNone \<or> is_exc entry then entry
      else (case bind_res (iter_items entry) (filter_items predicate) of
              Inl e \<Rightarrow> VExc e
            | Inr ys \<Rightarrow> VList ys))"

definition filter_execute :: "(pyval \<Rightarrow> pyval call) \<Rightarrow> nat \<Rightarrow> column list \<Rightarrow> column call" where
  "filter_execute predicate count values =
     (let col = values ! 0 in Returned (map (\<lambda>i. filter_entry predicate (col ! i)) [0..<count]))"

text \<open>\<open>first\<close> and \<open>last\<close> index outside any \<open>try\<close>: an entry that cannot be indexed raises out of
  \<open>execute\<close>.\<close>

definition end_entry :: "int \<Rightarrow> pyval \<Rightarrow> pyval res" where
  "end_entry i entry =
     (if is_exc entry then Inr entry
      else if truthy entry then getitem entry (SIdx i)
      else Inr VNone)"

definition returned_res :: "'a res \<Rightarrow> 'a call" where
  "returned_res r = (case r of Inl e \<Rightarrow> Raised e | Inr x \<Rightarrow> Returned x)"

definition first_execute :: "nat \<Rightarrow> column list \<Rightarrow> column call" where
  "first_execute count values =
     (let col = values ! 0 in returned_res (map_res (\<lambda>i. end_entry 0 (col ! i)) [0..<count]))"

definition last_execute :: "nat \<Rightarrow> column list \<Rightarrow> column call" where
  "last_execute count values =
     (let col = values ! 0 in returned_res (map_res (\<lambda>i. end_entry (-1) (col ! i)) [0..<count]))"

definition reverse_entry :: "pyval \<Rightarrow> pyval res" where
  "reverse_entry entry =
     (if entry = VNone \<or> is_exc entry then Inr entry
      else bind_res (iter_items entry) (\<lambda>xs. Inr (VList (rev xs))))"

definition reverse_execute :: "nat \<Rightarrow> column list \<Rightarrow> column call" where
  "reverse_execute count values =
     (let col = values ! 0 in returned_res (map_res (\<lambda>i. reverse_entry (col ! i)) [0..<count]))"

section \<open>The batch loads\<close>

fun hashable :: "pyval \<Rightarrow> bool" where
  "hashable (VList xs) = False"
| "hashable (VDict d) = False"
| "hashable (VTuple xs) = (\<forall>x \<in> set xs. hashable x)"
| "hashable _ = True"

text \<open>A dict keyed by any value, looked up with Python equality.\<close>

fun slot_get :: "(pyval \<times> 'a) list \<Rightarrow> pyval \<Rightarrow> 'a option" where
  "slot_get [] k = None"
| "slot_get ((k', i) # m) k = (if py_eq k' k then Some i else slot_get m k)"

text \<open>One key of the column: the unique keys, the slots by key, the slot of each entry so far.\<close>

definition coalesce_step ::
  "pyval list \<times> (pyval \<times> nat) list \<times> nat list \<Rightarrow> pyval
   \<Rightarrow> pyval list \<times> (pyval \<times> nat) list \<times> nat list" where
  "coalesce_step st key =
     (case st of (unique_keys, slot_for_key, entry_slot) \<Rightarrow>
        if \<not> hashable key
        then (unique_keys @ [key], slot_for_key, entry_slot @ [length unique_keys])
        else (case slot_get slot_for_key key of
                None \<Rightarrow> (unique_keys @ [key], slot_for_key @ [(key, length unique_keys)],
                         entry_slot @ [length unique_keys])
              | Some slot \<Rightarrow> (unique_keys, slot_for_key, entry_slot @ [slot])))"

definition coalesce :: "pyval list \<Rightarrow> pyval list \<times> nat list" where
  "coalesce keys =
     (case foldl coalesce_step ([], [], []) keys of (unique_keys, _, entry_slot) \<Rightarrow> (unique_keys, entry_slot))"

definition scatter :: "pyval list \<Rightarrow> nat list \<Rightarrow> nat \<Rightarrow> nat \<Rightarrow> column res" where
  "scatter loaded entry_slot count n_keys =
     (if length loaded \<noteq> n_keys then Inl (AssertionError ''load_fn result length'')
      else Inr (map (\<lambda>i. loaded ! (entry_slot ! i)) [0..<count]))"

definition load_execute :: "(pyval list \<Rightarrow> pyval list call) \<Rightarrow> nat \<Rightarrow> column list \<Rightarrow> column call" where
  "load_execute load_fn count values =
     (case coalesce (take count (values ! 0)) of (unique_keys, entry_slot) \<Rightarrow>
        (case load_fn unique_keys of
           Raised e \<Rightarrow> Returned (replicate count (VExc e))
         | Returned loaded \<Rightarrow> returned_res (scatter loaded entry_slot count (length unique_keys))
         | Awaitable r \<Rightarrow>
             Awaitable (case r of
                          Inl e \<Rightarrow> Inr (replicate count (VExc e))
                        | Inr loaded \<Rightarrow> scatter loaded entry_slot count (length unique_keys))))"

section \<open>Global ids\<close>

definition encode_global_id :: "string \<Rightarrow> pyval list \<Rightarrow> string res" where
  "encode_global_id typename id_parts =
     (if id_parts = [] then Inl (ValueError ''cannot encode a global id with no id parts'')
      else wrap_json Url_Safe (VList (VStr typename # id_parts)))"

definition decode_global_id :: "pyval \<Rightarrow> (string \<times> pyval list) res" where
  "decode_global_id global_id =
     (case global_id of
        VStr s \<Rightarrow>
          (case unwrap_json Url_Safe s of
             None \<Rightarrow> Inl (ValueError ''malformed global id'')
           | Some (VList (VStr typename # id_parts)) \<Rightarrow>
               (if id_parts = [] then Inl (ValueError ''malformed global id: expected [typename, id, ...]'')
                else Inr (typename, id_parts))
           | Some _ \<Rightarrow> Inl (ValueError ''malformed global id''))
      | _ \<Rightarrow> Inl (ValueError ''malformed global id: expected a string''))"

section \<open>The node step\<close>

type_synonym loader = "pyval list \<Rightarrow> pyval list call"

text \<open>What decoding an entry gives: an error to carry, or a type and a key.\<close>

definition node_entry :: "(string \<times> loader) list \<Rightarrow> pyval \<Rightarrow> pyval + (string \<times> pyval)" where
  "node_entry loaders raw =
     (if is_exc raw then Inl raw
      else (case decode_global_id raw of
              Inl e \<Rightarrow> Inl (VExc e)
            | Inr (typename, id_parts) \<Rightarrow>
                (case map_of loaders typename of
                   None \<Rightarrow> Inl (VExc (KeyError (''node(id): no loader registered for type '' @ typename)))
                 | Some _ \<Rightarrow>
                     Inr (typename, if length id_parts = 1 then id_parts ! 0 else VTuple id_parts))))"

definition keys_append :: "(string \<times> pyval list) list \<Rightarrow> string \<Rightarrow> pyval \<Rightarrow> (string \<times> pyval list) list" where
  "keys_append m t k = dict_set m t ((case map_of m t of None \<Rightarrow> [] | Some ks \<Rightarrow> ks) @ [k])"

definition keys_by_type :: "(pyval + (string \<times> pyval)) list \<Rightarrow> (string \<times> pyval list) list" where
  "keys_by_type entries =
     foldl (\<lambda>m e. case e of Inl _ \<Rightarrow> m | Inr (t, k) \<Rightarrow> keys_append m t k) [] entries"

text \<open>The batch of one type: its exception or its records, now or once awaited.\<close>

definition load_type :: "(string \<times> loader) list \<Rightarrow> string \<Rightarrow> pyval list \<Rightarrow> pyval list call" where
  "load_type loaders t ks = (case map_of loaders t of None \<Rightarrow> Raised (KeyError t) | Some fn \<Rightarrow> fn ks)"

fun aligned :: "(string \<times> pyval list) list \<Rightarrow> (string \<times> pyval list res) list \<Rightarrow> bool" where
  "aligned [] loaded = True"
| "aligned ((t, ks) # rest) loaded =
     ((case map_of loaded t of Some (Inr rs) \<Rightarrow> length rs = length ks | _ \<Rightarrow> True) \<and> aligned rest loaded)"

text \<open>The running cursor of \<open>_scatter_nodes\<close>: the n-th entry of a type takes its n-th record.\<close>

fun scatter_entries ::
  "(pyval + (string \<times> pyval)) list \<Rightarrow> (string \<times> pyval list res) list \<Rightarrow> (string \<Rightarrow> nat) \<Rightarrow> column res" where
  "scatter_entries [] loaded next_pos = Inr []"
| "scatter_entries (e # es) loaded next_pos =
     (case e of
        Inl v \<Rightarrow> bind_res (scatter_entries es loaded next_pos) (\<lambda>out. Inr (v # out))
      | Inr (t, k) \<Rightarrow>
          (case map_of loaded t of
             None \<Rightarrow> Inl (KeyError t)
           | Some (Inl x) \<Rightarrow> bind_res (scatter_entries es loaded next_pos) (\<lambda>out. Inr (VExc x # out))
           | Some (Inr rs) \<Rightarrow>
               bind_res (seq_index rs (int (next_pos t))) (\<lambda>v.
               bind_res (scatter_entries es loaded (next_pos(t := next_pos t + 1))) (\<lambda>out. Inr (v # out)))))"

definition scatter_nodes ::
  "(pyval + (string \<times> pyval)) list \<Rightarrow> (string \<times> pyval list) list \<Rightarrow> (string \<times> pyval list res) list \<Rightarrow> column res" where
  "scatter_nodes entries by_type loaded =
     (if \<not> aligned by_type loaded then Inl (AssertionError ''node(id) loader result length'')
      else scatter_entries entries loaded (\<lambda>t. 0))"

definition node_execute :: "(string \<times> loader) list \<Rightarrow> nat \<Rightarrow> column list \<Rightarrow> column call" where
  "node_execute loaders count values =
     (let entries = map (node_entry loaders) (take count (values ! 0));
          by_type = keys_by_type entries;
          batches = map (\<lambda>(t, ks). (t, load_type loaders t ks)) by_type;
          out = scatter_nodes entries by_type (map (\<lambda>(t, c). (t, settle c)) batches)
      in if \<exists>b \<in> set batches. is_await (snd b) then Awaitable out else returned_res out)"

section \<open>The resolver adapter\<close>

text \<open>
  \<open>ResolveStep.execute\<close>. A resolver takes the parent, the resolve info (which the request builds
  from the field's path) and the arguments. \<open>field_resolver\<close> is the field's own resolver or the
  context's default; \<open>middleware\<close> wraps it when the context has a middleware manager.
\<close>

type_synonym resolver_fn = "pyval \<Rightarrow> seg list \<Rightarrow> (string \<times> pyval) list \<Rightarrow> pyval call"

record resolve_field =
  own_resolver :: "resolver_fn option"
  response_name :: string
  coerced_args :: "(string \<times> pyval) list option"
  args_error :: "exn option"

record bucket_extra =
  default_resolver :: resolver_fn
  middleware :: "(resolver_fn \<Rightarrow> resolver_fn) option"
  parent_paths :: "seg list list"

definition effective_resolver :: "resolve_field \<Rightarrow> bucket_extra \<Rightarrow> resolver_fn" where
  "effective_resolver fld extra =
     (let fn = (case own_resolver fld of None \<Rightarrow> default_resolver extra | Some f \<Rightarrow> f)
      in case middleware extra of None \<Rightarrow> fn | Some wrap \<Rightarrow> wrap fn)"

definition resolve_entry :: "resolve_field \<Rightarrow> bucket_extra \<Rightarrow> pyval \<times> seg list \<Rightarrow> pyval" where
  "resolve_entry fld extra entry =
     (case args_error fld of
        Some e \<Rightarrow> VExc e
      | None \<Rightarrow>
          (let args = (case coerced_args fld of None \<Rightarrow> [] | Some a \<Rightarrow> a)
           in case effective_resolver fld extra (fst entry) (snd entry @ [SKey (response_name fld)]) args of
                Raised e \<Rightarrow> VExc e
              | Returned v \<Rightarrow> v
              | Awaitable r \<Rightarrow> VAwait (case r of Inl e \<Rightarrow> VExc e | Inr w \<Rightarrow> w)))"

definition resolve_execute :: "resolve_field \<Rightarrow> bucket_extra \<Rightarrow> nat \<Rightarrow> column list \<Rightarrow> column call" where
  "resolve_execute fld extra count values =
     Returned (map (resolve_entry fld extra) (zip (values ! 0) (parent_paths extra)))"

section \<open>The each step\<close>

text \<open>
  \<open>EachStep.execute\<close> explodes the lists, builds the mapper's transient steps over an item source,
  runs them once over the flat bucket and groups the mapped column back by owner. The mapper is
  plan-time host code: it takes the heap and the item step and gives the heap it leaves behind and
  the mapped step.
\<close>

type_synonym mapper = "heap \<Rightarrow> ref \<Rightarrow> heap \<times> ref"

definition item_step :: step_obj where
  "item_step = \<lparr>sid = -1, deps = [], sclass = ''ItemStep'', peer_key = ''ItemStep'', dedup_params = [],
     dedupable = True, hoistable = True, wants_extra = False, unary = False, sync_safe = True\<rparr>"

text \<open>\<open>per_parent_lists[i] or []\<close>, iterated.\<close>

definition entry_items :: "pyval \<Rightarrow> pyval list res" where
  "entry_items v = (if truthy v then iter_items v else Inr [])"

definition owners_of :: "pyval list list \<Rightarrow> nat list" where
  "owners_of groups = concat (map (\<lambda>(i, xs). replicate (length xs) i) (zip [0..<length groups] groups))"

definition regroup :: "nat \<Rightarrow> nat list \<Rightarrow> column \<Rightarrow> column res" where
  "regroup count owners col =
     bind_res
       (foldl (\<lambda>g (k, owner). bind_res g (\<lambda>grouped. bind_res (seq_index col (int k)) (\<lambda>v.
                 Inr (grouped[owner := grouped ! owner @ [v]]))))
          (Inr (replicate count [])) (zip [0..<length owners] owners))
       (\<lambda>grouped. Inr (map VList grouped))"

definition each_regroup :: "heap \<Rightarrow> ref \<Rightarrow> nat \<Rightarrow> nat list \<Rightarrow> columns res \<Rightarrow> column res" where
  "each_regroup h mapped count owners results =
     bind_res results (\<lambda>cols.
       case cols (sid (obj h mapped)) of
         None \<Rightarrow> Inl (KeyError ''mapped step'')
       | Some col \<Rightarrow> regroup count owners col)"

definition each_execute ::
  "heap \<Rightarrow> 'x option behaviour \<Rightarrow> mapper \<Rightarrow> nat \<Rightarrow> column list \<Rightarrow> column call" where
  "each_execute h beh mapper count values =
     (case map_res entry_items (take count (values ! 0)) of
        Inl e \<Rightarrow> Raised e
      | Inr groups \<Rightarrow>
          (let flat_items = concat groups;
               item = length h in
           case mapper (h @ [item_step]) item of
             (h1, mapped) \<Rightarrow>
               (case order_steps h1 [mapped] of
                  (h2, ordered0) \<Rightarrow>
                    let ordered = (if item \<in> set ordered0 then ordered0 else item # ordered0);
                        beh' = beh(item := (\<lambda>extra n cols. item_execute flat_items n cols))
                    in case run_steps h2 beh' None (\<lambda>r. False) (length flat_items) Map.empty ordered of
                         Done es x \<Rightarrow> returned_res (each_regroup h2 mapped count (owners_of groups) x)
                       | Pending es fs x \<Rightarrow> Awaitable (each_regroup h2 mapped count (owners_of groups) x))))"

section \<open>Constructors\<close>

text \<open>
  What a constructor builds: the class attributes (\<open>is_sync_and_safe\<close>, \<open>_is_unary\<close>, \<open>hoistable\<close>,
  \<open>dedupable\<close>, \<open>wants_extra\<close>) with the instance overrides, and the dedup identity. Host callables
  are named by their \<open>id()\<close>; \<open>repr\<close> is Python's.
\<close>

datatype core_cfg =
    CConstant pyval
  | CAccess "seg list" pyval
  | CLambda nat
  | CList nat
  | CObject "string list"
  | CEach nat
  | CItem "pyval list"
  | CRoot nat
  | CLoadOne nat
  | CLoadMany nat
  | CNode "(string \<times> nat) list"
  | CFilter nat
  | CFirst
  | CLast
  | CReverse
  | CResolve nat

fun type_name :: "py_type \<Rightarrow> string" where
  "type_name TNone = ''NoneType''"
| "type_name TUndefined = ''UndefinedType''"
| "type_name TBool = ''bool''"
| "type_name TInt = ''int''"
| "type_name TStr = ''str''"
| "type_name TList = ''list''"
| "type_name TTuple = ''tuple''"
| "type_name TDict = ''dict''"
| "type_name TObj = ''object''"
| "type_name TExc = ''Exception''"
| "type_name TAwait = ''coroutine''"

fun seg_val :: "seg \<Rightarrow> pyval" where
  "seg_val (SKey k) = VStr k"
| "seg_val (SIdx i) = VInt i"

definition value_step :: "string \<Rightarrow> string \<Rightarrow> pyval list \<Rightarrow> step_obj" where
  "value_step cls key params = \<lparr>sid = -1, deps = [], sclass = cls, peer_key = key, dedup_params = params,
     dedupable = True, hoistable = True, wants_extra = False, unary = True, sync_safe = True\<rparr>"

definition batch_step :: "string \<Rightarrow> string \<Rightarrow> pyval list \<Rightarrow> step_obj" where
  "batch_step cls key params = (value_step cls key params)\<lparr>unary := False, sync_safe := False\<rparr>"

definition loader_ids :: "(string \<times> nat) list \<Rightarrow> pyval list" where
  "loader_ids loaders =
     map (\<lambda>(t, i). VTuple [VStr t, VInt (int i)]) (sort_key fst loaders)"

definition constant_step :: "(pyval \<Rightarrow> string) \<Rightarrow> pyval \<Rightarrow> step_obj" where
  "constant_step repr data =
     value_step ''ConstantStep'' (''constant|'' @ type_name (type_of data) @ ''|'' @ repr data) [VStr (repr data)]"

definition access_step :: "(pyval \<Rightarrow> string) \<Rightarrow> seg list \<Rightarrow> pyval \<Rightarrow> step_obj" where
  "access_step repr path fallback =
     value_step ''AccessStep''
       (''access|'' @ (if fallback \<noteq> VNone then ''True'' else ''False'') @ ''|'' @ repr (VTuple (map seg_val path)))
       [VTuple (map seg_val path), VStr (repr fallback)]"

definition lambda_step :: "(nat \<Rightarrow> bool) \<Rightarrow> nat \<Rightarrow> step_obj" where
  "lambda_step is_async fn =
     (value_step ''LambdaStep'' (''lambda|'' @ show_nat fn) [VInt (int fn)])
       \<lparr>sync_safe := \<not> is_async fn, hoistable := \<not> is_async fn\<rparr>"

definition list_step :: "nat \<Rightarrow> step_obj" where
  "list_step n = value_step ''ListStep'' (''list|'' @ show_nat n) [VInt (int n)]"

definition object_step :: "(pyval \<Rightarrow> string) \<Rightarrow> string list \<Rightarrow> step_obj" where
  "object_step repr ks =
     value_step ''ObjectStep'' (''object|'' @ repr (VTuple (map VStr ks))) [VTuple (map VStr ks)]"

definition each_step :: "nat \<Rightarrow> step_obj" where
  "each_step fn = batch_step ''EachStep'' (''each|'' @ show_nat fn) [VInt (int fn)]"

definition root_step :: "nat \<Rightarrow> step_obj" where
  "root_step i = (value_step ''RootStep'' (''root|'' @ show_nat i) [VInt (int i)])\<lparr>unary := False\<rparr>"

text \<open>\<open>LoadOneStep\<close> and \<open>LoadManyStep\<close> differ in the class name only.\<close>

definition load_step :: "string \<Rightarrow> nat \<Rightarrow> step_obj" where
  "load_step cls fn = batch_step cls (cls @ ''|'' @ show_nat fn) [VInt (int fn)]"

definition node_step :: "(pyval \<Rightarrow> string) \<Rightarrow> (string \<times> nat) list \<Rightarrow> step_obj" where
  "node_step repr loaders =
     batch_step ''NodeStep'' (''node|'' @ repr (VTuple (loader_ids loaders))) (loader_ids loaders)"

definition filter_step :: "nat \<Rightarrow> step_obj" where
  "filter_step fn = value_step ''FilterStep'' (''filter|'' @ show_nat fn) [VInt (int fn)]"

definition first_step :: step_obj where
  "first_step = value_step ''FirstStep'' ''first'' []"

definition last_step :: step_obj where
  "last_step = value_step ''LastStep'' ''last'' []"

definition reverse_step :: step_obj where
  "reverse_step = value_step ''ReverseStep'' ''reverse'' []"

definition resolve_step :: "nat \<Rightarrow> step_obj" where
  "resolve_step i =
     (batch_step ''ResolveStep'' (''resolve|'' @ show_nat i) [VInt (int i)])
       \<lparr>dedupable := False, hoistable := False, wants_extra := True\<rparr>"

lemmas step_classes = constant_step_def access_step_def lambda_step_def list_step_def object_step_def
  each_step_def item_step_def root_step_def load_step_def node_step_def filter_step_def first_step_def
  last_step_def reverse_step_def resolve_step_def

fun new_step :: "(pyval \<Rightarrow> string) \<Rightarrow> (nat \<Rightarrow> bool) \<Rightarrow> core_cfg \<Rightarrow> step_obj" where
  "new_step repr is_async (CConstant data) = constant_step repr data"
| "new_step repr is_async (CAccess path fallback) = access_step repr path fallback"
| "new_step repr is_async (CLambda fn) = lambda_step is_async fn"
| "new_step repr is_async (CList n) = list_step n"
| "new_step repr is_async (CObject ks) = object_step repr ks"
| "new_step repr is_async (CEach fn) = each_step fn"
| "new_step repr is_async (CItem items) = item_step"
| "new_step repr is_async (CRoot i) = root_step i"
| "new_step repr is_async (CLoadOne fn) = load_step ''LoadOneStep'' fn"
| "new_step repr is_async (CLoadMany fn) = load_step ''LoadManyStep'' fn"
| "new_step repr is_async (CNode loaders) = node_step repr loaders"
| "new_step repr is_async (CFilter fn) = filter_step fn"
| "new_step repr is_async CFirst = first_step"
| "new_step repr is_async CLast = last_step"
| "new_step repr is_async CReverse = reverse_step"
| "new_step repr is_async (CResolve i) = resolve_step i"

text \<open>A constructor allocates the object and wires its dependencies in order.\<close>

definition build_step ::
  "(pyval \<Rightarrow> string) \<Rightarrow> (nat \<Rightarrow> bool) \<Rightarrow> heap \<Rightarrow> core_cfg \<Rightarrow> ref list \<Rightarrow> heap \<times> ref" where
  "build_step repr is_async h cfg ds =
     (let r = length h
      in (foldl (\<lambda>h d. fst (add_dependency h r d)) (h @ [new_step repr is_async cfg]) ds, r))"

text \<open>The host callables by \<open>id()\<close> (an each step's transient run and a resolver's call, which need
  more than the columns, are \<open>each_execute\<close> and \<open>resolve_execute\<close> at their arguments), and what each value or batch step of the configuration executes.\<close>

record host =
  fn_of :: "nat \<Rightarrow> pyval \<Rightarrow> pyval call"
  loader_of :: "nat \<Rightarrow> loader"
  each_of :: "nat \<Rightarrow> nat \<Rightarrow> column list \<Rightarrow> column call"
  resolve_of :: "nat \<Rightarrow> nat \<Rightarrow> column list \<Rightarrow> column call"

fun core_execute :: "host \<Rightarrow> core_cfg \<Rightarrow> nat \<Rightarrow> column list \<Rightarrow> column call" where
  "core_execute H (CConstant data) = constant_execute data"
| "core_execute H (CAccess path fallback) = access_execute path fallback"
| "core_execute H (CLambda fn) = lambda_execute (fn_of H fn)"
| "core_execute H (CList n) = list_execute"
| "core_execute H (CObject ks) = object_execute ks"
| "core_execute H (CItem items) = item_execute items"
| "core_execute H (CLoadOne fn) = load_execute (loader_of H fn)"
| "core_execute H (CLoadMany fn) = load_execute (loader_of H fn)"
| "core_execute H (CNode loaders) = node_execute (map (\<lambda>(t, i). (t, loader_of H i)) loaders)"
| "core_execute H (CFilter fn) = filter_execute (fn_of H fn)"
| "core_execute H CFirst = first_execute"
| "core_execute H CLast = last_execute"
| "core_execute H CReverse = reverse_execute"
| "core_execute H (CRoot i) = root_execute"
| "core_execute H (CEach fn) = each_of H fn"
| "core_execute H (CResolve i) = resolve_of H i"

end
