(* ===== verification/Core_Laws.thy ===== *)
theory Core_Laws
  imports Core_Steps Dag_Passes
begin

text \<open>
  What the plan steps satisfy: each value step meets the uniform contract of the executor, the batch
  steps call their loader once and give every entry its own record, global ids round-trip, and the
  dedup identity of a value step determines what it computes.
\<close>

section \<open>The value steps meet the contract\<close>

lemma column1: "length cols = Suc 0 \<Longrightarrow> \<exists>c. cols = [c]"
  by (cases cols) auto

interpretation constant_step: uniform_contract 0 "constant_execute data" "\<lambda>vs. data" for data
  by unfold_locales (simp add: constant_execute_def map_replicate_const)

definition access_value :: "seg list \<Rightarrow> pyval \<Rightarrow> pyval \<Rightarrow> pyval" where
  "access_value path fallback v = (if is_exc v then v else get_in v path fallback)"

interpretation access_step: uniform_contract 1 "access_execute path fallback"
  "\<lambda>vs. access_value path fallback (vs ! 0)" for path fallback
  by unfold_locales (auto dest!: column1 simp: access_execute_def access_value_def row_def Let_def)

interpretation lambda_step: uniform_contract 1 "lambda_execute fn" "\<lambda>vs. apply_fn fn (vs ! 0)" for fn
  by unfold_locales (auto dest!: column1 simp: lambda_execute_def row_def Let_def)

interpretation list_step: uniform_contract n list_execute VList for n
  by unfold_locales (simp add: list_execute_def row_def)

interpretation object_step: uniform_contract "length ks" "object_execute ks" "\<lambda>vs. VDict (zip ks vs)" for ks
proof
  fix cols :: "column list" and n
  assume len: "length cols = length ks"
  have "map (\<lambda>(d, key). (key, (cols ! d) ! i)) (zip [0..<length ks] ks) = zip ks (row cols i)" for i
    using len by (intro nth_equalityI) (simp_all add: row_def)
  then show "settle (object_execute ks n cols) = Inr (map (\<lambda>i. VDict (zip ks (row cols i))) [0..<n])"
    by (simp add: object_execute_def)
qed

interpretation filter_step: uniform_contract 1 "filter_execute predicate"
  "\<lambda>vs. filter_entry predicate (vs ! 0)" for predicate
  by unfold_locales (auto dest!: column1 simp: filter_execute_def row_def Let_def)

interpretation item_step: step_contract "length items" 0 "item_execute items" "\<lambda>i vs. items ! i" for items
  by unfold_locales (simp add: item_execute_def map_nth)

text \<open>A predicate that returns filters the list, item by item.\<close>

lemma filter_items_returned:
  "(\<And>x. x \<in> set xs \<Longrightarrow> predicate x = Returned (VBool (P x))) \<Longrightarrow>
   filter_items predicate xs = Inr (filter P xs)"
  by (induction xs) auto

text \<open>\<open>first\<close>, \<open>last\<close> and \<open>reverse\<close> on a column of lists.\<close>

lemma end_entry_list:
  "end_entry 0 (VList xs) = Inr (if xs = [] then VNone else hd xs)"
  "end_entry (-1) (VList xs) = Inr (if xs = [] then VNone else last xs)"
  by (simp_all add: end_entry_def seq_index_in_range hd_conv_nth seq_index_last)

lemma first_lists:
  "first_execute (length xss) [map VList xss] = Returned (map (\<lambda>xs. if xs = [] then VNone else hd xs) xss)"
proof -
  have "map_res (\<lambda>i. end_entry 0 (map VList xss ! i)) [0..<length xss]
    = Inr (map (\<lambda>i. if xss ! i = [] then VNone else hd (xss ! i)) [0..<length xss])"
    by (rule map_res_Inr) (simp add: end_entry_list)
  then show ?thesis
    by (simp add: first_execute_def Let_def returned_res_def map_nth_upt_comp [of xss _ "\<lambda>xs. if xs = [] then VNone else hd xs"])
qed

lemma last_lists:
  "last_execute (length xss) [map VList xss] = Returned (map (\<lambda>xs. if xs = [] then VNone else last xs) xss)"
proof -
  have "map_res (\<lambda>i. end_entry (-1) (map VList xss ! i)) [0..<length xss]
    = Inr (map (\<lambda>i. if xss ! i = [] then VNone else last (xss ! i)) [0..<length xss])"
    by (rule map_res_Inr) (simp add: end_entry_list)
  then show ?thesis
    by (simp add: last_execute_def Let_def returned_res_def map_nth_upt_comp [of xss _ "\<lambda>xs. if xs = [] then VNone else last xs"])
qed

lemma reverse_lists:
  "reverse_execute (length xss) [map VList xss] = Returned (map (\<lambda>xs. VList (rev xs)) xss)"
proof -
  have "map_res (\<lambda>i. reverse_entry (map VList xss ! i)) [0..<length xss]
    = Inr (map (\<lambda>i. VList (rev (xss ! i))) [0..<length xss])"
    by (rule map_res_Inr) (simp add: reverse_entry_def iter_items_def)
  then show ?thesis
    by (simp add: reverse_execute_def Let_def returned_res_def map_nth_upt_comp [of xss _ "\<lambda>xs. VList (rev xs)"])
qed

section \<open>Coalescing keys\<close>

text \<open>\<open>same_key\<close>: two keys that share a slot.\<close>

definition same_key :: "pyval \<Rightarrow> pyval \<Rightarrow> bool" where
  "same_key k k' \<longleftrightarrow> k = k' \<or> hashable k \<and> hashable k' \<and> py_eq k k'"

definition coalesce_inv :: "pyval list \<Rightarrow> pyval list \<times> (pyval \<times> nat) list \<times> nat list \<Rightarrow> bool" where
  "coalesce_inv ks st \<longleftrightarrow>
     (case st of (u, m, es) \<Rightarrow>
        length es = length ks
        \<and> (\<forall>i < length ks. es ! i < length u \<and> same_key (u ! (es ! i)) (ks ! i))
        \<and> (\<forall>e \<in> set m. hashable (fst e) \<and> snd e < length u \<and> u ! (snd e) = fst e)
        \<and> (\<forall>k \<in> set u. hashable k \<longrightarrow> k \<in> fst ` set m)
        \<and> sorted_wrt (\<lambda>a b. \<not> py_eq (fst a) (fst b)) m
        \<and> map fst m = filter hashable u
        \<and> set u \<subseteq> set ks)"

lemma slot_get_Some: "slot_get m k = Some i \<Longrightarrow> \<exists>k'. (k', i) \<in> set m \<and> py_eq k' k"
  by (induction m k rule: slot_get.induct) (auto split: if_splits)

lemma slot_get_None: "slot_get m k = None \<longleftrightarrow> (\<forall>e \<in> set m. \<not> py_eq (fst e) k)"
  by (induction m k rule: slot_get.induct) auto

lemma coalesce_step_inv:
  assumes "coalesce_inv ks st"
  shows "coalesce_inv (ks @ [k]) (coalesce_step st k)"
proof -
  obtain u m es where st: "st = (u, m, es)" by (cases st)
  note I = assms [unfolded st coalesce_inv_def prod.case]
  have grow: "\<forall>i < length (ks @ [k]). (es @ [j]) ! i < length u' \<and> same_key (u' ! ((es @ [j]) ! i)) ((ks @ [k]) ! i)"
    if "j < length u'" "same_key (u' ! j) k" "prefix u u'" for j u'
  proof (intro allI impI)
    fix i
    assume i: "i < length (ks @ [k])"
    show "(es @ [j]) ! i < length u' \<and> same_key (u' ! ((es @ [j]) ! i)) ((ks @ [k]) ! i)"
    proof (cases "i = length ks")
      case True
      have "length es = length ks" using I by simp
      with True that(1,2) show ?thesis by (simp add: nth_append)
    next
      case False
      with i have "i < length ks" by simp
      with I have "es ! i < length u" "same_key (u ! (es ! i)) (ks ! i)" by simp_all
      with \<open>i < length ks\<close> I that(3) show ?thesis by (auto simp: nth_append prefix_def)
    qed
  qed
  have refs: "\<forall>e \<in> set m. hashable (fst e) \<and> snd e < length (u @ w) \<and> (u @ w) ! (snd e) = fst e" for w
    using I by (auto simp: nth_append)
  show ?thesis
  proof (cases "hashable k")
    case False
    then have "coalesce_step st k = (u @ [k], m, es @ [length u])" by (simp add: st coalesce_step_def)
    moreover have "\<forall>k' \<in> set (u @ [k]). hashable k' \<longrightarrow> k' \<in> fst ` set m" using I False by simp
    moreover have "set (u @ [k]) \<subseteq> set (ks @ [k])" "map fst m = filter hashable (u @ [k])" using I False by auto
    ultimately show ?thesis
      using I grow [of "length u" "u @ [k]"] refs [of "[k]"] by (simp add: coalesce_inv_def same_key_def)
  next
    case True
    show ?thesis
    proof (cases "slot_get m k")
      case None
      with True have "coalesce_step st k = (u @ [k], m @ [(k, length u)], es @ [length u])"
        by (simp add: st coalesce_step_def)
      moreover have "sorted_wrt (\<lambda>a b. \<not> py_eq (fst a) (fst b)) (m @ [(k, length u)])"
        using I None by (simp add: sorted_wrt_append slot_get_None)
      moreover have "set (u @ [k]) \<subseteq> set (ks @ [k])" "map fst (m @ [(k, length u)]) = filter hashable (u @ [k])"
        using I True by auto
      ultimately show ?thesis
        using I True grow [of "length u" "u @ [k]"] refs [of "[k]"] by (simp add: coalesce_inv_def same_key_def)
    next
      case (Some i)
      obtain k' where k': "(k', i) \<in> set m" "py_eq k' k" using slot_get_Some [OF Some] by blast
      with I have u: "i < length u" "u ! i = k'" "hashable k'" by force+
      have "coalesce_step st k = (u, m, es @ [i])" using True Some by (simp add: st coalesce_step_def)
      moreover have "set u \<subseteq> set (ks @ [k])" using I by auto
      ultimately show ?thesis
        using I grow [of i u] u k' True by (simp add: coalesce_inv_def same_key_def)
    qed
  qed
qed

lemma coalesce_inv_foldl: "coalesce_inv ks0 st \<Longrightarrow> coalesce_inv (ks0 @ ks) (foldl coalesce_step st ks)"
proof (induction ks arbitrary: ks0 st)
  case (Cons k ks)
  then have "coalesce_inv ((ks0 @ [k]) @ ks) (foldl coalesce_step (coalesce_step st k) ks)"
    by (intro Cons.IH coalesce_step_inv)
  then show ?case by simp
qed simp

lemma coalesce_spec:
  assumes "coalesce ks = (u, es)"
  shows "length es = length ks" and "\<forall>i < length ks. es ! i < length u \<and> same_key (u ! (es ! i)) (ks ! i)"
    and "set u \<subseteq> set ks" and "sorted_wrt (\<lambda>a b. \<not> py_eq a b) (filter hashable u)"
proof -
  obtain m where m: "foldl coalesce_step ([], [], []) ks = (u, m, es)"
    using assms by (auto simp: coalesce_def split: prod.splits)
  have "coalesce_inv [] ([], [], [])" by (simp add: coalesce_inv_def)
  from coalesce_inv_foldl [OF this, of ks] m have "coalesce_inv ks (u, m, es)" by simp
  note inv = this [unfolded coalesce_inv_def prod.case]
  then show "length es = length ks" and "\<forall>i < length ks. es ! i < length u \<and> same_key (u ! (es ! i)) (ks ! i)"
    and "set u \<subseteq> set ks" by simp_all
  have keys: "map fst m = filter hashable u" using inv by simp
  show "sorted_wrt (\<lambda>a b. \<not> py_eq a b) (filter hashable u)"
    unfolding keys [symmetric] sorted_wrt_map using inv by blast
qed

section \<open>The load step\<close>

text \<open>A batch loader: given any keys it comes to a record per key, the same for keys that are equal.\<close>

definition batch_loader :: "loader \<Rightarrow> (pyval \<Rightarrow> pyval) \<Rightarrow> bool" where
  "batch_loader load g \<longleftrightarrow> (\<forall>ks. settle (load ks) = Inr (map g ks)) \<and> (\<forall>k k'. same_key k k' \<longrightarrow> g k = g k')"

lemma load_once:
  "\<exists>u es. coalesce (take count (values ! 0)) = (u, es) \<and> settle (load_execute load count values) =
     (case settle (load u) of
        Inl e \<Rightarrow> Inr (replicate count (VExc e))
      | Inr loaded \<Rightarrow> scatter loaded es count (length u))"
proof -
  obtain u es where "coalesce (take count (values ! 0)) = (u, es)" by fastforce
  then show ?thesis
    by (cases "load u") (auto simp: load_execute_def returned_res_def split: sum.split)
qed

lemma load_contract:
  assumes "batch_loader load g"
  shows "uniform_contract 1 (load_execute load) (\<lambda>vs. g (vs ! 0))"
proof
  fix cols :: "column list" and n
  assume "length cols = 1" and "\<forall>c \<in> set cols. length c = n"
  then obtain ks where ks: "cols = [ks]" "length ks = n" by (auto dest: column1)
  obtain u es where u: "coalesce ks = (u, es)" and load: "settle (load_execute load n cols) =
     (case settle (load u) of
        Inl e \<Rightarrow> Inr (replicate n (VExc e))
      | Inr loaded \<Rightarrow> scatter loaded es n (length u))"
    using load_once [of n cols load] ks by auto
  have "map (\<lambda>i. map g u ! (es ! i)) [0..<n] = map (\<lambda>i. g (row cols i ! 0)) [0..<n]"
    using coalesce_spec(2) [OF u] ks assms by (simp add: row_def batch_loader_def)
  then show "settle (load_execute load n cols) = Inr (map (\<lambda>i. g (row cols i ! 0)) [0..<n])"
    using assms by (simp add: load batch_loader_def scatter_def)
qed

section \<open>Global ids\<close>

definition valid_global_id :: "string \<times> pyval list \<Rightarrow> bool" where
  "valid_global_id x \<longleftrightarrow> snd x \<noteq> [] \<and> (\<forall>v \<in> set (snd x). json_native v)"

interpretation global_ids: token_codec valid_global_id
  "\<lambda>(typename, id_parts). encode_global_id typename id_parts" "\<lambda>g. decode_global_id (VStr g)"
proof
  fix x assume "valid_global_id x"
  then obtain typename id_parts where x: "x = (typename, id_parts)" "id_parts \<noteq> []"
    "\<forall>v \<in> set id_parts. json_native v" by (cases x) (auto simp: valid_global_id_def)
  then have "json_native (VList (VStr typename # id_parts))" by simp
  then obtain t where "wrap_json Url_Safe (VList (VStr typename # id_parts)) = Inr t"
    "unwrap_json Url_Safe t = Some (VList (VStr typename # id_parts))" by (rule wrap_json_round_trip)
  with x show "\<exists>t. (case x of (typename, id_parts) \<Rightarrow> encode_global_id typename id_parts) = Inr t
      \<and> decode_global_id (VStr t) = Inr x"
    by (simp add: encode_global_id_def decode_global_id_def)
qed

lemma decode_global_id_Inr:
  "decode_global_id v = Inr (t, ps) \<Longrightarrow> (\<exists>s. v = VStr s) \<and> ps \<noteq> []"
  by (auto simp: decode_global_id_def split: pyval.splits option.splits sum.splits list.splits if_splits)

lemma decode_global_id_Inl: "decode_global_id v = Inl e \<Longrightarrow> \<exists>m. e = ValueError m"
  by (auto simp: decode_global_id_def split: pyval.splits option.splits sum.splits list.splits if_splits)

section \<open>The node step\<close>

fun entry_keys :: "string \<Rightarrow> (pyval + (string \<times> pyval)) list \<Rightarrow> pyval list" where
  "entry_keys t [] = []"
| "entry_keys t (e # es) =
     (case e of Inl _ \<Rightarrow> entry_keys t es
      | Inr (t', k) \<Rightarrow> if t' = t then k # entry_keys t es else entry_keys t es)"

lemma entry_keys_append: "entry_keys t (es @ fs) = entry_keys t es @ entry_keys t fs"
  by (induction es) (auto split: sum.split)

lemma map_of_keys_append:
  "map_of (keys_append m t k) t' =
     (if t' = t then Some ((case map_of m t of None \<Rightarrow> [] | Some ks \<Rightarrow> ks) @ [k]) else map_of m t')"
  by (simp add: keys_append_def)

lemma keys_by_type_fold:
  "map_of (foldl (\<lambda>m e. case e of Inl _ \<Rightarrow> m | Inr (t, k) \<Rightarrow> keys_append m t k) m es) t =
     (if entry_keys t es = [] then map_of m t
      else Some ((case map_of m t of None \<Rightarrow> [] | Some ks \<Rightarrow> ks) @ entry_keys t es))"
proof (induction es arbitrary: m)
  case (Cons e es)
  show ?case unfolding foldl_Cons Cons.IH
    by (cases e) (auto simp: map_of_keys_append split: prod.split option.split)
qed simp

lemma keys_by_type_spec:
  "map_of (keys_by_type es) t = (if entry_keys t es = [] then None else Some (entry_keys t es))"
  by (simp add: keys_by_type_def keys_by_type_fold)

lemma keys_by_type_distinct: "distinct (map fst (keys_by_type es))"
proof -
  have "distinct (map fst m) \<Longrightarrow> distinct (map fst
      (foldl (\<lambda>m e. case e of Inl _ \<Rightarrow> m | Inr (t, k) \<Rightarrow> keys_append m t k) m es))"
    for m :: "(string \<times> pyval list) list"
  proof (induction es arbitrary: m)
    case (Cons e es)
    then show ?case by (cases e) (auto simp: keys_append_def distinct_dict_set split: prod.split)
  qed simp
  then show ?thesis by (simp add: keys_by_type_def)
qed

lemma map_of_map_pair: "map_of (map (\<lambda>(t, ks). (t, F t ks)) xs) t = map_option (F t) (map_of xs t)"
  by (induction xs) auto

text \<open>What a type's batch comes to: it fails as a whole, or gives each key its record.\<close>

definition loader_ok :: "loader \<Rightarrow> exn + (pyval \<Rightarrow> pyval) \<Rightarrow> bool" where
  "loader_ok fn b \<longleftrightarrow> (\<forall>ks. settle (fn ks) = (case b of Inl e \<Rightarrow> Inl e | Inr g \<Rightarrow> Inr (map g ks)))"

text \<open>The specification of one entry, on its own.\<close>

definition entry_record :: "(string \<Rightarrow> exn + (pyval \<Rightarrow> pyval)) \<Rightarrow> pyval + (string \<times> pyval) \<Rightarrow> pyval" where
  "entry_record b e =
     (case e of Inl v \<Rightarrow> v | Inr (t, k) \<Rightarrow> (case b t of Inl x \<Rightarrow> VExc x | Inr g \<Rightarrow> g k))"

definition node_value :: "(string \<times> loader) list \<Rightarrow> (string \<Rightarrow> exn + (pyval \<Rightarrow> pyval)) \<Rightarrow> pyval \<Rightarrow> pyval" where
  "node_value loaders b raw = entry_record b (node_entry loaders raw)"

lemma scatter_entries_spec:
  assumes "\<And>t. entry_keys t (pre @ es) \<noteq> [] \<Longrightarrow>
      map_of loaded t = Some (case b t of Inl x \<Rightarrow> Inl x | Inr g \<Rightarrow> Inr (map g (entry_keys t (pre @ es))))"
    and "\<And>t. np t = length (entry_keys t pre) \<or> (\<exists>x. b t = Inl x)"
  shows "scatter_entries es loaded np = Inr (map (entry_record b) es)"
  using assms
proof (induction es arbitrary: pre np)
  case (Cons e es)
  have pre: "map_of loaded t' = Some (case b t' of Inl x \<Rightarrow> Inl x | Inr g \<Rightarrow> Inr (map g (entry_keys t' ((pre @ [e]) @ es))))"
    if "entry_keys t' ((pre @ [e]) @ es) \<noteq> []" for t'
  proof -
    have eq: "(pre @ [e]) @ es = pre @ e # es" by simp
    show ?thesis using Cons.prems(1) [of t'] that unfolding eq by blast
  qed
  show ?case
  proof (cases e)
    case (Inl v)
    have "scatter_entries es loaded np = Inr (map (entry_record b) es)"
      using Cons.prems(2) Inl by (intro Cons.IH [OF pre]) (simp_all add: entry_keys_append)
    with Inl show ?thesis by (simp add: entry_record_def)
  next
    case (Inr p)
    obtain t k where e: "e = Inr (t, k)" using Inr by (cases p) simp
    have loaded: "map_of loaded t = Some (case b t of Inl x \<Rightarrow> Inl x | Inr g \<Rightarrow> Inr (map g (entry_keys t (pre @ e # es))))"
      by (rule Cons.prems(1)) (simp add: entry_keys_append e)
    show ?thesis
    proof (cases "b t")
      case (Inl x)
      have "scatter_entries es loaded np = Inr (map (entry_record b) es)"
        using Cons.prems(2) Inl e by (intro Cons.IH [OF pre]) (auto simp: entry_keys_append)
      with loaded Inl e show ?thesis by (simp add: entry_record_def)
    next
      case (Inr g)
      have np: "np t = length (entry_keys t pre)" using Cons.prems(2) [of t] Inr by auto
      have rec: "scatter_entries es loaded (np(t := np t + 1)) = Inr (map (entry_record b) es)"
        using Cons.prems(2) np e by (intro Cons.IH [OF pre]) (auto simp: entry_keys_append)
      have "seq_index (map g (entry_keys t (pre @ e # es))) (int (np t)) = Inr (g k)"
        by (simp add: np e entry_keys_append seq_index_in_range nth_append)
      with loaded Inr e rec show ?thesis by (simp add: entry_record_def)
    qed
  qed
qed simp

lemma aligned_intro:
  "(\<And>t ks. (t, ks) \<in> set m \<Longrightarrow> (case map_of loaded t of Some (Inr rs) \<Rightarrow> length rs = length ks | _ \<Rightarrow> True))
   \<Longrightarrow> aligned m loaded"
  by (induction m) auto

lemma node_entry_Inr: "node_entry loaders raw = Inr (t, k) \<Longrightarrow> \<exists>fn. map_of loaders t = Some fn"
  by (auto simp: node_entry_def split: if_splits sum.splits option.splits prod.splits)

lemma entry_keys_mem: "k \<in> set (entry_keys t es) \<Longrightarrow> Inr (t, k) \<in> set es"
  by (induction es) (auto split: sum.splits if_splits)

lemma settle_returned [simp]: "settle (returned_res r) = r"
  by (cases r) (simp_all add: returned_res_def)

lemma node_spec:
  assumes ok: "\<And>t fn. map_of loaders t = Some fn \<Longrightarrow> loader_ok fn (b t)"
  shows "settle (node_execute loaders count values) = Inr (map (node_value loaders b) (take count (values ! 0)))"
proof -
  define es where "es = map (node_entry loaders) (take count (values ! 0))"
  define loaded where "loaded = map (\<lambda>(t, c). (t, settle c)) (map (\<lambda>(t, ks). (t, load_type loaders t ks)) (keys_by_type es))"
  have known: "\<exists>fn. map_of loaders t = Some fn" if "entry_keys t es \<noteq> []" for t
  proof -
    obtain k where "k \<in> set (entry_keys t es)" using \<open>entry_keys t es \<noteq> []\<close> by (cases "entry_keys t es") auto
    then have "Inr (t, k) \<in> set es" by (rule entry_keys_mem)
    then obtain raw where "node_entry loaders raw = Inr (t, k)" by (auto simp: es_def)
    then show ?thesis by (rule node_entry_Inr)
  qed
  have "map_of loaded t = map_option (\<lambda>ks. settle (load_type loaders t ks)) (map_of (keys_by_type es) t)" for t
    unfolding loaded_def map_of_map_pair by (simp add: option.map_comp comp_def)
  then have loaded: "map_of loaded t = (if entry_keys t es = [] then None
      else Some (case b t of Inl x \<Rightarrow> Inl x | Inr g \<Rightarrow> Inr (map g (entry_keys t es))))" for t
    using known [of t] ok [of t] by (auto simp: keys_by_type_spec load_type_def loader_ok_def)
  have "aligned (keys_by_type es) loaded"
  proof (rule aligned_intro)
    fix t ks
    assume "(t, ks) \<in> set (keys_by_type es)"
    then have "map_of (keys_by_type es) t = Some ks" using keys_by_type_distinct by simp
    then have "entry_keys t es = ks" by (auto simp: keys_by_type_spec split: if_splits)
    then show "case map_of loaded t of Some (Inr rs) \<Rightarrow> length rs = length ks | _ \<Rightarrow> True"
      by (auto simp: loaded split: sum.split)
  qed
  moreover have "scatter_entries es loaded (\<lambda>t. 0) = Inr (map (entry_record b) es)"
  proof (rule scatter_entries_spec [of "[]"])
    show "map_of loaded t = Some (case b t of Inl x \<Rightarrow> Inl x | Inr g \<Rightarrow> Inr (map g (entry_keys t ([] @ es))))"
      if "entry_keys t ([] @ es) \<noteq> []" for t
      using that loaded [of t] unfolding append_Nil by simp
  qed simp
  ultimately have "scatter_nodes es (keys_by_type es) loaded = Inr (map (entry_record b) es)"
    by (simp add: scatter_nodes_def)
  moreover have "settle (node_execute loaders count values) = scatter_nodes es (keys_by_type es) loaded"
    unfolding node_execute_def Let_def es_def [symmetric] loaded_def [symmetric]
    by (simp split: if_split)
  ultimately show ?thesis by (simp add: es_def node_value_def comp_def)
qed

section \<open>The each step\<close>

lemma owners_snoc: "owners_of (gs @ [xs]) = owners_of gs @ replicate (length xs) (length gs)"
  by (simp add: owners_of_def)

lemma length_owners: "length (owners_of gs) = sum_list (map length gs)"
  by (induction gs rule: rev_induct) (simp_all add: owners_snoc, simp add: owners_of_def)

definition regroup_step ::
  "column \<Rightarrow> column list res \<Rightarrow> nat \<times> nat \<Rightarrow> column list res" where
  "regroup_step col g e = bind_res g (\<lambda>grouped. bind_res (seq_index col (int (fst e))) (\<lambda>v.
     Inr (grouped[snd e := grouped ! snd e @ [v]])))"

lemma regroup_step_Inr:
  "k < length col \<Longrightarrow> regroup_step col (Inr g) (k, j) = Inr (g[j := g ! j @ [col ! k]])"
  by (simp add: regroup_step_def seq_index_in_range)

lemma regroup_eq:
  "regroup count owners col =
     bind_res (foldl (regroup_step col) (Inr (replicate count [])) (zip [0..<length owners] owners))
       (\<lambda>grouped. Inr (map VList grouped))"
proof -
  have "(\<lambda>g (k, owner). bind_res g (\<lambda>grouped. bind_res (seq_index col (int k)) (\<lambda>v.
      Inr (grouped[owner := grouped ! owner @ [v]])))) = regroup_step col"
    by (auto simp: regroup_step_def fun_eq_iff)
  then show ?thesis by (simp add: regroup_def)
qed

lemma regroup_one:
  assumes "a + n \<le> length col" and "j < length grouped"
  shows "foldl (regroup_step col) (Inr grouped) (zip [a..<a + n] (replicate n j))
     = Inr (grouped[j := grouped ! j @ take n (drop a col)])"
  using assms
proof (induction n)
  case (Suc n)
  have z: "zip [a..<a + Suc n] (replicate (Suc n) j) = zip [a..<a + n] (replicate n j) @ [(a + n, j)]"
  proof -
    have r: "replicate (Suc n) j = replicate n j @ [j]" by (simp add: replicate_append_same)
    show ?thesis unfolding r by simp
  qed
  have "take (Suc n) (drop a col) = take n (drop a col) @ [col ! (a + n)]"
    using Suc.prems(1) by (subst take_Suc_conv_app_nth) (simp_all add: add.commute)
  with Suc show ?case
    unfolding z foldl_append by (simp add: regroup_step_Inr)
qed simp

lemma zip_upt_append:
  "zip [0..<length (xs @ ys)] (xs @ ys) = zip [0..<length xs] xs @ zip [length xs..<length xs + length ys] ys"
proof -
  have "[0..<length (xs @ ys)] = [0..<length xs] @ [length xs..<length xs + length ys]"
    using upt_add_eq_append [of 0 "length xs" "length ys"] by simp
  then show ?thesis by simp
qed

lemma regroup_fold:
  assumes "map length rs = map length gs" and "prefix (concat rs) col" and "length gs \<le> count"
  shows "foldl (regroup_step col) (Inr (replicate count [])) (zip [0..<length (owners_of gs)] (owners_of gs))
     = Inr (rs @ replicate (count - length gs) [])"
  using assms
proof (induction gs arbitrary: rs rule: rev_induct)
  case Nil
  then show ?case by (simp add: owners_of_def)
next
  case (snoc xs gs)
  obtain rs' r where rs: "rs = rs' @ [r]" using snoc.prems(1) by (cases rs rule: rev_cases) auto
  have len: "map length rs' = map length gs" "length r = length xs" using snoc.prems(1) rs by simp_all
  then have lens: "length rs' = length gs" by (metis length_map)
  obtain rest where col: "col = concat rs' @ r @ rest" using snoc.prems(2) rs by (auto simp: prefix_def)
  have own: "length (owners_of gs) = length (concat rs')"
    using len(1) by (simp add: length_owners length_concat)
  have IH: "foldl (regroup_step col) (Inr (replicate count [])) (zip [0..<length (owners_of gs)] (owners_of gs))
    = Inr (rs' @ replicate (count - length gs) [])"
    using snoc.prems(3) len col by (intro snoc.IH) simp_all
  have "count - length gs = Suc (count - Suc (length gs))" using snoc.prems(3) by simp
  then have "(rs' @ replicate (count - length gs) [])[length gs := (rs' @ replicate (count - length gs) []) ! length gs @ r]
    = rs' @ r # replicate (count - Suc (length gs)) []"
    using lens by (simp add: nth_append list_update_append)
  moreover have "take (length xs) (drop (length (concat rs')) col) = r"
    using len(2) by (simp add: col)
  ultimately show ?case
    unfolding owners_snoc zip_upt_append foldl_append own IH [unfolded own] length_replicate
    using len(2) lens snoc.prems(3) rs col
    by (subst regroup_one) simp_all
qed

text \<open>Regrouping cuts the mapped column back into the lists it came from.\<close>

lemma regroup_spec:
  assumes "map length rs = map length gs" and "col = concat rs"
  shows "regroup (length gs) (owners_of gs) col = Inr (map VList rs)"
  using regroup_fold [OF assms(1), of col "length gs"] assms(2) by (simp add: regroup_eq)

text \<open>One poisoned entry raises out of an each step, for the whole bucket.\<close>

lemma map_res_Inl: "x \<in> set xs \<Longrightarrow> f x = Inl e \<Longrightarrow> \<exists>e'. map_res f xs = Inl e'"
proof (induction xs)
  case (Cons y xs)
  then show ?case by (cases "f y"; cases "map_res f xs") auto
qed simp

lemma each_poisoned:
  assumes "VExc e \<in> set (take count (values ! 0))"
  shows "\<exists>e'. each_execute h beh mapper count values = Raised e'"
proof -
  have "entry_items (VExc e) = Inl (TypeError ''object is not iterable'')"
    by (simp add: entry_items_def iter_items_def)
  from map_res_Inl [of _ _ entry_items, OF assms this] obtain e' where
    "map_res entry_items (take count (values ! 0)) = Inl e'" ..
  then show ?thesis by (simp add: each_execute_def)
qed

section \<open>The value a configuration computes\<close>

fun value_cfg :: "core_cfg \<Rightarrow> bool" where
  "value_cfg (CConstant data) = True"
| "value_cfg (CAccess path fallback) = True"
| "value_cfg (CLambda fn) = True"
| "value_cfg (CList n) = True"
| "value_cfg (CObject ks) = True"
| "value_cfg (CFilter fn) = True"
| "value_cfg _ = False"

fun cfg_arity :: "core_cfg \<Rightarrow> nat" where
  "cfg_arity (CConstant data) = 0"
| "cfg_arity (CItem items) = 0"
| "cfg_arity (CRoot i) = 0"
| "cfg_arity (CList n) = n"
| "cfg_arity (CObject ks) = length ks"
| "cfg_arity _ = 1"

fun cfg_value :: "host \<Rightarrow> core_cfg \<Rightarrow> pyval list \<Rightarrow> pyval" where
  "cfg_value H (CConstant data) vs = data"
| "cfg_value H (CAccess path fallback) vs = access_value path fallback (vs ! 0)"
| "cfg_value H (CLambda fn) vs = apply_fn (fn_of H fn) (vs ! 0)"
| "cfg_value H (CList n) vs = VList vs"
| "cfg_value H (CObject ks) vs = VDict (zip ks vs)"
| "cfg_value H (CFilter fn) vs = filter_entry (fn_of H fn) (vs ! 0)"
| "cfg_value H cfg vs = VNone"

lemma cfg_contract:
  "value_cfg cfg \<Longrightarrow> uniform_contract (cfg_arity cfg) (core_execute H cfg) (cfg_value H cfg)"
  using constant_step.uniform_contract_axioms access_step.uniform_contract_axioms
    lambda_step.uniform_contract_axioms list_step.uniform_contract_axioms
    object_step.uniform_contract_axioms filter_step.uniform_contract_axioms
  by (cases cfg) (simp_all add: fun_eq_iff [symmetric] uniform_contract_def)

section \<open>The dedup identity\<close>

declare step_classes [simp]

lemma sclass_cases:
  "sclass (new_step repr a c) = ''ConstantStep'' \<Longrightarrow> \<exists>d. c = CConstant d"
  "sclass (new_step repr a c) = ''AccessStep'' \<Longrightarrow> \<exists>p f. c = CAccess p f"
  "sclass (new_step repr a c) = ''LambdaStep'' \<Longrightarrow> \<exists>i. c = CLambda i"
  "sclass (new_step repr a c) = ''ListStep'' \<Longrightarrow> \<exists>i. c = CList i"
  "sclass (new_step repr a c) = ''ObjectStep'' \<Longrightarrow> \<exists>ks. c = CObject ks"
  "sclass (new_step repr a c) = ''EachStep'' \<Longrightarrow> \<exists>i. c = CEach i"
  "sclass (new_step repr a c) = ''ItemStep'' \<Longrightarrow> \<exists>xs. c = CItem xs"
  "sclass (new_step repr a c) = ''RootStep'' \<Longrightarrow> \<exists>i. c = CRoot i"
  by (cases c; simp add: value_step_def batch_step_def)+

lemma sclass_cases2:
  "sclass (new_step repr a c) = ''LoadOneStep'' \<Longrightarrow> \<exists>i. c = CLoadOne i"
  "sclass (new_step repr a c) = ''LoadManyStep'' \<Longrightarrow> \<exists>i. c = CLoadMany i"
  "sclass (new_step repr a c) = ''NodeStep'' \<Longrightarrow> \<exists>ls. c = CNode ls"
  "sclass (new_step repr a c) = ''FilterStep'' \<Longrightarrow> \<exists>i. c = CFilter i"
  "sclass (new_step repr a c) = ''FirstStep'' \<Longrightarrow> c = CFirst"
  "sclass (new_step repr a c) = ''LastStep'' \<Longrightarrow> c = CLast"
  "sclass (new_step repr a c) = ''ReverseStep'' \<Longrightarrow> c = CReverse"
  "sclass (new_step repr a c) = ''ResolveStep'' \<Longrightarrow> \<exists>i. c = CResolve i"
  by (cases c; simp add: value_step_def batch_step_def)+

lemma seg_vals_eq: "py_eqs (map seg_val p) (map seg_val q) \<Longrightarrow> p = q"
proof (induction p arbitrary: q)
  case Nil
  then show ?case by simp
next
  case (Cons s p)
  then obtain t q' where q: "q = t # q'" by (cases q) auto
  with Cons.prems have "py_eq (seg_val s) (seg_val t)" "py_eqs (map seg_val p) (map seg_val q')" by simp_all
  then have "s = t" by (cases s; cases t) simp_all
  with Cons.IH q \<open>py_eqs (map seg_val p) _\<close> show ?case by simp
qed

lemma strs_eq: "py_eqs (map VStr p) (map VStr q) \<Longrightarrow> p = q"
proof (induction p arbitrary: q)
  case (Cons s p)
  then show ?case by (cases q) auto
qed simp

lemma loader_ids_eq: "py_eqs (loader_ids p) (loader_ids q) \<Longrightarrow> sort_key fst p = sort_key fst q"
proof -
  have "py_eqs (map (\<lambda>(t, i). VTuple [VStr t, VInt (int i)]) xs) (map (\<lambda>(t, i). VTuple [VStr t, VInt (int i)]) ys)
    \<Longrightarrow> xs = ys" for xs ys :: "(string \<times> nat) list"
  proof (induction xs arbitrary: ys)
    case (Cons x xs)
    then show ?case by (cases ys) (auto split: prod.splits)
  qed simp
  then show "py_eqs (loader_ids p) (loader_ids q) \<Longrightarrow> ?thesis" unfolding loader_ids_def by blast
qed

lemma map_of_sort_key: "distinct (map fst p) \<Longrightarrow> map_of (sort_key fst p) = map_of p"
proof -
  assume d: "distinct (map fst p)"
  have "card (set (map fst (sort_key fst p))) = length (map fst (sort_key fst p))"
    using distinct_card [OF d] by simp
  then have "distinct (map fst (sort_key fst p))" by (rule card_distinct)
  with d show ?thesis by (intro map_of_inject_set [THEN iffD2]) simp_all
qed

lemma node_execute_cong:
  assumes "map_of p = map_of q"
  shows "node_execute p = node_execute q"
proof -
  have "node_entry p = node_entry q" by (rule ext) (simp only: node_entry_def assms)
  moreover have "load_type p = load_type q" by (intro ext) (simp only: load_type_def assms)
  ultimately show ?thesis by (intro ext) (simp only: node_execute_def)
qed

lemma type_name_inj: "type_name a = type_name b \<Longrightarrow> a = b"
  by (cases a; cases b) simp_all

text \<open>Distinct keys in every loader registry, as in a dict.\<close>

fun cfg_ok :: "core_cfg \<Rightarrow> bool" where
  "cfg_ok (CNode ls) = distinct (map fst ls)"
| "cfg_ok (CItem xs) = False"
| "cfg_ok _ = True"

text \<open>The values whose \<open>repr\<close> enters a deduplication key.\<close>

fun rendered :: "core_cfg \<Rightarrow> pyval set" where
  "rendered (CConstant data) = {data}"
| "rendered (CAccess path fallback) = {fallback}"
| "rendered _ = {}"

lemma dedup_identity:
  assumes repr: "inj_on repr (rendered c \<union> rendered c')" and ok: "cfg_ok c" "cfg_ok c'"
    and cls: "sclass (new_step repr a c) = sclass (new_step repr a c')"
    and params: "py_eqs (dedup_params (new_step repr a c)) (dedup_params (new_step repr a c'))"
  shows "core_execute H c = core_execute H c'"
proof (cases c)
  case (CNode ls)
  with cls obtain ls' where c': "c' = CNode ls'"
    using sclass_cases2(3) [of repr a c'] by (auto simp: batch_step_def value_step_def)
  with CNode params have "sort_key fst ls = sort_key fst ls'"
    by (intro loader_ids_eq) (simp add: batch_step_def value_step_def)
  moreover have "map_of ls = map_of (sort_key fst ls)" "map_of ls' = map_of (sort_key fst ls')"
    using ok c' CNode map_of_sort_key [of ls] map_of_sort_key [of ls'] by simp_all
  ultimately have "map_of ls = map_of ls'" by simp
  then have "map_of (map (\<lambda>(t, i). (t, loader_of H i)) ls) = map_of (map (\<lambda>(t, i). (t, loader_of H i)) ls')"
    by (simp add: map_of_map)
  from node_execute_cong [OF this] CNode c' show ?thesis by simp
next
  case (CAccess p f)
  with cls obtain p' f' where c': "c' = CAccess p' f'"
    using sclass_cases(2) [of repr a c'] by (auto simp: value_step_def)
  with CAccess params repr have "p = p'" "f = f'"
    by (auto simp: value_step_def dest: seg_vals_eq inj_onD)
  with c' CAccess show ?thesis by simp
next
  case (CObject ks)
  with cls obtain ks' where c': "c' = CObject ks'"
    using sclass_cases(5) [of repr a c'] by (auto simp: value_step_def)
  with CObject params show ?thesis by (auto simp: value_step_def dest: strs_eq)
next
  case (CConstant d)
  with cls obtain d' where "c' = CConstant d'"
    using sclass_cases(1) [of repr a c'] by (auto simp: value_step_def)
  with CConstant params repr show ?thesis by (auto simp: value_step_def dest: inj_onD)
next
  case (CLambda i)
  with cls obtain j where "c' = CLambda j"
    using sclass_cases(3) [of repr a c'] by (auto simp: value_step_def)
  with CLambda params show ?thesis by (simp add: value_step_def)
next
  case (CList i)
  with cls obtain j where "c' = CList j"
    using sclass_cases(4) [of repr a c'] by (auto simp: value_step_def)
  with CList show ?thesis by simp
next
  case (CEach i)
  with cls obtain j where "c' = CEach j"
    using sclass_cases(6) [of repr a c'] by (auto simp: batch_step_def value_step_def)
  with CEach params show ?thesis by (simp add: batch_step_def value_step_def)
next
  case (CRoot i)
  with cls obtain j where "c' = CRoot j"
    using sclass_cases(8) [of repr a c'] by (auto simp: value_step_def)
  with CRoot show ?thesis by simp
next
  case (CLoadOne i)
  with cls obtain j where "c' = CLoadOne j"
    using sclass_cases2(1) [of repr a c'] by (auto simp: batch_step_def value_step_def)
  with CLoadOne params show ?thesis by (simp add: batch_step_def value_step_def)
next
  case (CLoadMany i)
  with cls obtain j where "c' = CLoadMany j"
    using sclass_cases2(2) [of repr a c'] by (auto simp: batch_step_def value_step_def)
  with CLoadMany params show ?thesis by (simp add: batch_step_def value_step_def)
next
  case (CFilter i)
  with cls obtain j where "c' = CFilter j"
    using sclass_cases2(4) [of repr a c'] by (auto simp: value_step_def)
  with CFilter params show ?thesis by (simp add: value_step_def)
next
  case CFirst
  with cls have "c' = CFirst" using sclass_cases2(5) [of repr a c'] by (auto simp: value_step_def)
  with CFirst show ?thesis by simp
next
  case CLast
  with cls have "c' = CLast" using sclass_cases2(6) [of repr a c'] by (auto simp: value_step_def)
  with CLast show ?thesis by simp
next
  case CReverse
  with cls have "c' = CReverse" using sclass_cases2(7) [of repr a c'] by (auto simp: value_step_def)
  with CReverse show ?thesis by simp
next
  case (CResolve i)
  with cls obtain j where "c' = CResolve j"
    using sclass_cases2(8) [of repr a c'] by (auto simp: batch_step_def value_step_def)
  with CResolve params show ?thesis by (simp add: batch_step_def value_step_def)
qed (use ok in simp)

end
