(* ===== verification/Step_Properties.thy ===== *)
theory Step_Properties
  imports Dag_Properties Core_Laws
begin

text \<open>
  The correctness properties of the bucket executor and of the built-in steps, each with an instance
  on a concrete bucket.
\<close>

section \<open>The executor\<close>

definition core_behaviour :: "host \<Rightarrow> (ref \<Rightarrow> core_cfg) \<Rightarrow> unit behaviour" where
  "core_behaviour H cfgs = (\<lambda>r extra n cols. core_execute H (cfgs r) n cols)"

definition example_cfgs :: "ref \<Rightarrow> core_cfg" where
  "example_cfgs r = (if r = 2 then CList 2 else if r = 3 then CList 1 else CConstant (VInt 5))"

lemma example_order: "order_steps_within (p_heap example_plan) [2] {} = [0, 1, 2]"
  by (simp add: order_steps_within_def example_plan_simps deps_of_def example_heap_def example_step_def)

lemma example_cases: "r \<in> set [0, 1, 2] \<Longrightarrow> r = 0 \<or> r = 1 \<or> r = (2 :: ref)"
  by simp

text \<open>C4: \<open>run_steps\<close> computes, for every step of the ordered bucket and every entry, the value that the step's
  function gives on its dependencies' values at that entry, with the seeded columns as inputs; running a
  request-constant step once and broadcasting changes nothing. A whole column has the bucket's length.\<close>

lemma run_steps_computes_entries:
  assumes "acyclic_heap h" and "closed_heap h" and "unique_ids h" and "set targets \<subseteq> {..<length h}"
    and "ordered = order_steps_within h targets (dom seed)" and "\<forall>c \<in> ran seed. length c = count"
    and "\<forall>r \<in> set ordered. step_contract count (length (deps_of h r)) (call_step h beh extra r) (f r)"
    and "\<forall>r \<in> set ordered. unary (obj h r) \<and> sync_safe (obj h r) \<longrightarrow> share_ok h beh extra f r"
  shows "\<exists>results. outcome (run_steps h beh extra traced count seed ordered) = Inr results
    \<and> (\<forall>r \<in> set ordered. \<exists>c. results (sid (obj h r)) = Some c \<and> length c = count
        \<and> (\<forall>i < count. c ! i = entry_value h f seed ordered i r))"
  using assms by (rule run_steps_entries)

lemma example_ids: "unique_ids (p_heap example_plan)"
proof -
  have "inj_on (step_id example_plan) (set (p_steps example_plan))" using example_inv by (simp add: plan_inv_def)
  moreover have "set (p_steps example_plan) = {..<length (p_heap example_plan)}"
    by (auto simp: example_plan_simps)
  ultimately show ?thesis by (simp add: unique_ids_def step_id_def [abs_def])
qed

lemma example_uniform:
  assumes "r \<in> set [0, 1, 2]"
  shows "uniform_contract (length (deps_of (p_heap example_plan) r))
    (call_step (p_heap example_plan) (core_behaviour H example_cfgs) () r) (cfg_value H (example_cfgs r))"
proof -
  have "call_step (p_heap example_plan) (core_behaviour H example_cfgs) () r = core_execute H (example_cfgs r)"
    by (simp add: call_step_def core_behaviour_def fun_eq_iff)
  moreover have "cfg_arity (example_cfgs r) = length (deps_of (p_heap example_plan) r)"
    "value_cfg (example_cfgs r)"
    using example_cases [OF assms] by (auto simp: example_cfgs_def)
  ultimately show ?thesis using cfg_contract [of "example_cfgs r" H] by simp
qed

lemma uniform_sized:
  "uniform_contract n execute compute \<Longrightarrow> step_contract k n execute (\<lambda>i. compute)"
  by (simp add: uniform_contract_def step_contract_def)

lemma run_steps_computes_entries_witness:
  "\<forall>H. \<exists>results c. outcome (run_steps (p_heap example_plan) (core_behaviour H example_cfgs) () (\<lambda>_. True) 3 Map.empty [0, 1, 2])
     = Inr results \<and> results 2 = Some c \<and> c ! 1 = VList [VInt 5, VInt 5]"
proof
  fix H
  let ?h = "p_heap example_plan" and ?beh = "core_behaviour H example_cfgs" and ?f = "\<lambda>r i. cfg_value H (example_cfgs r)"
  have ac: "acyclic_heap ?h" using example_inv by (simp add: plan_inv_def)
  have cl: "closed_heap ?h" by (rule example_closed_plan)
  have ordered: "[0, 1, 2] = order_steps_within ?h [2] (dom Map.empty)" by (simp add: example_order)
  have sc: "\<forall>r \<in> set [0, 1, 2]. step_contract 3 (length (deps_of ?h r)) (call_step ?h ?beh () r) (?f r)"
    using uniform_sized [OF example_uniform] by blast
  have "\<not> is_awaitable (cfg_value H (example_cfgs r) vs)" if "r \<in> set [0, 1, 2]" for r vs
    using example_cases [OF that] by (auto simp: example_cfgs_def)
  then have share: "\<forall>r \<in> set [0, 1, 2]. unary (obj ?h r) \<and> sync_safe (obj ?h r) \<longrightarrow> share_ok ?h ?beh () ?f r"
    using example_uniform by (simp add: share_ok_def)
  obtain results where run: "outcome (run_steps ?h ?beh () (\<lambda>_. True) 3 Map.empty [0, 1, 2]) = Inr results"
    and cols: "\<forall>r \<in> set [0, 1, 2]. \<exists>c. results (sid (obj ?h r)) = Some c \<and> length c = 3
        \<and> (\<forall>i < 3. c ! i = entry_value ?h ?f Map.empty [0, 1, 2] i r)"
    using run_steps_computes_entries [OF ac cl example_ids _ ordered _ sc share, of "\<lambda>_. True"]
    by (auto simp: example_plan_simps)
  have "sid (obj ?h 2) = 2" by (simp add: example_plan_simps obj_def)
  then obtain c where "results 2 = Some c" "c ! 1 = entry_value ?h ?f Map.empty [0, 1, 2] 1 2"
    using cols by auto
  moreover have "entry_value ?h ?f Map.empty [0, 1, 2] 1 2 = VList [VInt 5, VInt 5]"
    by (simp add: entry_value_def example_cfgs_def)
  ultimately show "\<exists>results c. outcome (run_steps ?h ?beh () (\<lambda>_. True) 3 Map.empty [0, 1, 2]) = Inr results
      \<and> results 2 = Some c \<and> c ! 1 = VList [VInt 5, VInt 5]"
    using run by auto
qed

text \<open>whatever columns turn out to be awaitable, \<open>run_steps\<close> and its asynchronous continuation have the
  events and the outcome of one sequential loop that awaits each column in dependency order.\<close>

lemma run_steps_sequential:
  "(events (run_steps h beh extra traced count seed ordered), outcome (run_steps h beh extra traced count seed ordered))
     = run_rest h beh extra traced count (bucket_unariness h ordered (dom seed) count) seed ordered"
  using run_steps_rest by (metis prod.collapse)

text \<open>every tracing span that is opened is closed, around one execution and before the next span, on
  success, on a synchronous raise and on a raise in an awaited column.\<close>

lemma run_steps_spans_balanced: "balanced (events (run_steps h beh extra traced count seed ordered))"
  using run_rest_balanced run_steps_rest by metis

text \<open>the executions of a run are a prefix of the ordered steps, each once and at its bucket size, and all
  of them when the run succeeds.\<close>

lemma run_steps_executes_once:
  assumes "outcome (run_steps h beh extra traced count seed ordered) = Inr results"
  shows "executed (events (run_steps h beh extra traced count seed ordered))
    = map (\<lambda>r. (r, if is_unary_here (bucket_unariness h ordered (dom seed) count) h r then 1 else count)) ordered"
proof -
  let ?run = "run_rest h beh extra traced count (bucket_unariness h ordered (dom seed) count) seed ordered"
  have "\<exists>y. snd ?run = Inr y" using assms run_steps_rest(1) by metis
  then have "executed (fst ?run)
      = map (\<lambda>r. (r, if is_unary_here (bucket_unariness h ordered (dom seed) count) h r then 1 else count)) ordered"
    using run_rest_executed [of h beh extra traced count _ seed ordered "fst ?run" "snd ?run"] by simp
  then show ?thesis using run_steps_rest(2) by metis
qed

lemma run_steps_executes_once_witness:
  "\<forall>H. executed (events (run_steps (p_heap example_plan) (core_behaviour H example_cfgs) () (\<lambda>_. True) 3 Map.empty [0]))
     = [(0, 1)]"
proof
  fix H
  let ?h = "p_heap example_plan" and ?beh = "core_behaviour H example_cfgs"
  have u: "bucket_unariness ?h [0] {} 3 = [0 \<mapsto> True]"
    by (simp add: bucket_unariness_def example_plan_simps obj_def example_heap_def example_step_def deps_of_def)
  then have "outcome (run_steps ?h ?beh () (\<lambda>_. True) 3 Map.empty [0]) = Inr [0 \<mapsto> [VInt 5, VInt 5, VInt 5]]"
    by (simp add: run_steps_def Let_def is_unary_here_def span_events_def call_step_def core_behaviour_def
        example_cfgs_def constant_execute_def store_def example_plan_simps obj_def deps_of_def example_heap_def
        example_step_def eval_nat_numeral)
  from run_steps_executes_once [OF this] show "executed (events (run_steps ?h ?beh () (\<lambda>_. True) 3 Map.empty [0])) = [(0, 1)]"
    using u by (simp add: is_unary_here_def example_plan_simps obj_def)
qed



end
