(* ===== verification/Core_Properties.thy ===== *)
theory Core_Properties
  imports Step_Properties
begin

text \<open>
  The correctness properties of the built-in steps of \<open>core_steps.py\<close>: batching, node dispatch, global
  ids, the list steps and the deduplication identity, each with an instance.
\<close>

section \<open>Batched loads\<close>

definition text_loader :: loader where
  "text_loader ks = Returned (map (\<lambda>k. case k of VStr s \<Rightarrow> VStr s | _ \<Rightarrow> VNone) ks)"

definition text_record :: "pyval \<Rightarrow> pyval" where
  "text_record k = (case k of VStr s \<Rightarrow> VStr s | _ \<Rightarrow> VNone)"

lemma text_loader_batch: "batch_loader text_loader text_record"
proof -
  have "text_record k = text_record k'" if "same_key k k'" for k k'
    using that by (cases k; cases k') (auto simp: same_key_def text_record_def)
  then show ?thesis by (auto simp: batch_loader_def text_loader_def text_record_def)
qed

text \<open>a load step calls its loader once, with one key per group of equal keys; every entry gets the record
  at its key's slot, an exception of the call is carried by every entry, and a result of the wrong length is an
  assertion error.\<close>

lemma load_calls_once:
  assumes "coalesce (take count (values ! 0)) = (keys, entry_slots)"
  shows "settle (load_execute load count values) =
      (case settle (load keys) of
         Inl e \<Rightarrow> Inr (replicate count (VExc e))
       | Inr loaded \<Rightarrow>
           if length loaded \<noteq> length keys then Inl (AssertionError ''load_fn result length'')
           else Inr (map (\<lambda>i. loaded ! (entry_slots ! i)) [0..<count]))
    \<and> set keys \<subseteq> set (take count (values ! 0))
    \<and> sorted_wrt (\<lambda>a b. \<not> py_eq a b) (filter hashable keys)"
  using load_once [of count "values" load] coalesce_spec [OF assms] assms
  by (auto simp: scatter_def split: sum.split)

lemma load_calls_once_witness:
  "settle (load_execute text_loader 3 [[VStr ''a'', VStr ''b'', VStr ''a'']]) = Inr [VStr ''a'', VStr ''b'', VStr ''a'']"
proof -
  have "coalesce (take 3 ([[VStr ''a'', VStr ''b'', VStr ''a'']] ! 0)) = ([VStr ''a'', VStr ''b''], [0, 1, 0])"
    by (simp add: coalesce_def coalesce_step_def)
  from load_calls_once [OF this, of text_loader] show ?thesis
    by (simp add: text_loader_def eval_nat_numeral)
qed

text \<open>C36: with a loader that answers each key on its own and equal keys alike, a load step is a pointwise lookup
  of the key column: batching and coalescing are not observable.\<close>

lemma load_is_pointwise:
  assumes "batch_loader load g" and "length keys = count"
  shows "settle (load_execute load count [keys]) = Inr (map g keys)"
proof -
  have u: "uniform_contract 1 (load_execute load) (\<lambda>vs. g (vs ! 0))" by (rule load_contract [OF assms(1)])
  show ?thesis
    using uniform_contract.uniform [OF u, of "[keys]" count] assms(2)
    by (simp add: row_def map_nth_upt_comp)
qed

lemma load_is_pointwise_witness:
  "settle (load_execute text_loader 2 [[VStr ''a'', VInt 1]]) = Inr (map text_record [VStr ''a'', VInt 1])"
  by (rule load_is_pointwise [OF text_loader_batch]) simp

text \<open>A node step dispatches every entry to its type's loader at its own key and puts each record at its
  entry; an undecodable id, an unregistered type and a failed batch are errors of the entries concerned only.\<close>

lemma node_is_pointwise:
  assumes "\<And>t fn. map_of loaders t = Some fn \<Longrightarrow> loader_ok fn (b t)"
  shows "settle (node_execute loaders count values) = Inr (map (node_value loaders b) (take count (values ! 0)))"
  using assms by (rule node_spec)

lemma node_is_pointwise_witness:
  "settle (node_execute [(''User'', text_loader), (''Post'', \<lambda>ks. Raised (HostError ''down''))] 2 [[VStr ''?'', VNone]])
     = Inr [VExc (ValueError ''malformed global id''), VExc (ValueError ''malformed global id: expected a string'')]"
proof -
  let ?ls = "[(''User'', text_loader), (''Post'', \<lambda>ks. Raised (HostError ''down''))]"
  let ?b = "\<lambda>t. if t = ''User'' then Inr text_record else Inl (HostError ''down'')"
  have "loader_ok fn (?b t)" if "map_of ?ls t = Some fn" for t fn
    using that by (auto simp: loader_ok_def text_loader_def text_record_def split: if_splits)
  from node_is_pointwise [of ?ls ?b 2 "[[VStr ''?'', VNone]]", OF this] show ?thesis
    by (simp add: node_value_def entry_record_def node_entry_def decode_global_id_def unwrap_json_def)
qed

section \<open>Global ids\<close>

text \<open>C30: a global id decodes to the type name and the id parts it was encoded from, for any non-empty list of
  JSON-native parts, and two different ones never share an id.\<close>

lemma global_id_round_trip:
  assumes "valid_global_id (typename, parts)" and "encode_global_id typename parts = Inr g"
  shows "decode_global_id (VStr g) = Inr (typename, parts)
    \<and> (\<forall>t ps. valid_global_id (t, ps) \<and> encode_global_id t ps = Inr g \<longrightarrow> t = typename \<and> ps = parts)"
proof -
  have "t = typename \<and> ps = parts" if "valid_global_id (t, ps)" "encode_global_id t ps = Inr g" for t ps
  proof -
    have "(t, ps) = (typename, parts)"
      by (rule global_ids.encode_inj) (simp_all add: assms that)
    then show ?thesis by simp
  qed
  moreover have "decode_global_id (VStr g) = Inr (typename, parts)"
    using global_ids.round_trip [of "(typename, parts)" g] assms by simp
  ultimately show ?thesis by blast
qed

lemma global_id_round_trip_witness:
  "\<exists>g. encode_global_id ''User'' [VInt 5, VStr ''x''] = Inr g \<and> decode_global_id (VStr g) = Inr (''User'', [VInt 5, VStr ''x''])"
proof -
  have v: "valid_global_id (''User'', [VInt 5, VStr ''x''])" by (simp add: valid_global_id_def)
  then obtain g where "encode_global_id ''User'' [VInt 5, VStr ''x''] = Inr g"
    using global_ids.encode_total [of "(''User'', [VInt 5, VStr ''x''])"] by auto
  with global_id_round_trip [OF v this] show ?thesis by blast
qed

text \<open>decoding is total on garbage: it gives a type name with at least one part, from a string, or a
  ValueError; no other exception and no empty key.\<close>

lemma global_id_errors:
  "case decode_global_id v of
     Inl e \<Rightarrow> (case e of ValueError m \<Rightarrow> True | _ \<Rightarrow> False)
   | Inr r \<Rightarrow> type_of v = TStr \<and> snd r \<noteq> []"
  using decode_global_id_Inr [of v] decode_global_id_Inl [of v]
  by (cases "decode_global_id v") auto

section \<open>List steps\<close>

text \<open>\<open>FirstStep\<close>, \<open>LastStep\<close> and \<open>ReverseStep\<close> compute, on columns of lists, the first element, the last
  element (\<open>None\<close> for an empty list) and the reversed list.\<close>

lemma list_ends:
  "first_execute (length xss) [map VList xss] = Returned (map (\<lambda>xs. if xs = [] then VNone else hd xs) xss)
   \<and> last_execute (length xss) [map VList xss] = Returned (map (\<lambda>xs. if xs = [] then VNone else last xs) xss)
   \<and> reverse_execute (length xss) [map VList xss] = Returned (map (\<lambda>xs. VList (rev xs)) xss)"
  using first_lists last_lists reverse_lists by blast

text \<open>an exception carried by an entry makes \<open>EachStep\<close> raise for the whole bucket, while \<open>FirstStep\<close> and
  \<open>ReverseStep\<close> pass it through.\<close>

lemma each_poisons_bucket:
  assumes "i < count" and "length col = count" and "col ! i = VExc e"
  shows "(\<exists>e'. each_execute h beh mapper count [col] = Raised e')
    \<and> end_entry 0 (col ! i) = Inr (VExc e) \<and> reverse_entry (col ! i) = Inr (VExc e)"
proof -
  have "VExc e \<in> set (take count ([col] ! 0))" using assms nth_mem [of i col] by simp
  from each_poisoned [of e count "[col]" h beh mapper, OF this] show ?thesis
    using assms(3) by (simp add: end_entry_def reverse_entry_def)
qed

lemma each_poisons_bucket_witness:
  "\<forall>h beh mapper. \<exists>e'. each_execute h beh mapper 2 [[VList [VInt 1], VExc (HostError ''x'')]] = Raised e'"
proof (intro allI)
  fix h beh mapper
  show "\<exists>e'. each_execute h beh mapper 2 [[VList [VInt 1], VExc (HostError ''x'')]] = Raised e'"
    by (rule each_poisons_bucket [of 1 2 "[VList [VInt 1], VExc (HostError ''x'')]" "HostError ''x''", THEN conjunct1])
      simp_all
qed

section \<open>The deduplication identity\<close>

text \<open>When \<open>repr\<close> tells the constants and fallbacks concerned apart, two steps built by the
  constructors with the same class and equal deduplication parameters execute alike, so that merging them is
  sound; a node step's loaders may be registered in any order.\<close>

lemma built_steps_dedup_identity:
  assumes "inj_on repr (rendered c \<union> rendered c')" and "cfg_ok c" and "cfg_ok c'"
    and "sclass (new_step repr a c) = sclass (new_step repr a c')"
    and "py_eqs (dedup_params (new_step repr a c)) (dedup_params (new_step repr a c'))"
  shows "core_execute H c = core_execute H c'"
  using assms by (rule dedup_identity)

lemma built_steps_dedup_identity_witness:
  "\<forall>H. core_execute H (CNode [(''B'', 1), (''A'', 0)]) = core_execute H (CNode [(''A'', 0), (''B'', 1)])"
proof
  fix H
  show "core_execute H (CNode [(''B'', 1), (''A'', 0)]) = core_execute H (CNode [(''A'', 0), (''B'', 1)])"
    by (rule built_steps_dedup_identity [of "\<lambda>v. ''r''" _ _ "\<lambda>n. False"])
      (simp_all add: batch_step_def value_step_def loader_ids_def)
qed

end
