(* ===== verification/Field_Args.thy ===== *)
theory Field_Args
  imports Constraints
begin

text \<open>
  A field's arguments as a plan resolver sees them: the variable provenance of the argument AST
  (\<open>plan.variable_provenance\<close>), the accessor \<open>FieldArgs\<close> of \<open>schema.py\<close> with its bookkeeping, and
  the conversion of that bookkeeping into request constraints
  (\<open>plan.record_field_args_constraints\<close>). Python sets are HOL sets; \<open>sorted(s)\<close> is the sorted list
  of the set.
\<close>

section \<open>Provenance\<close>

text \<open>An argument value node: a variable, a list or object literal, or any other literal.\<close>

datatype arg_ast =
    VarNode string
  | ListNode "arg_ast list"
  | ObjectNode "(string \<times> arg_ast) list"
  | LitNode pyval

fun nested_variables :: "arg_ast \<Rightarrow> string set" where
  "nested_variables (ListNode vs) = (\<Union>v \<in> set vs. nested_variables v)"
| "nested_variables (ObjectNode fs) = (\<Union>f \<in> set fs. nested_variables (snd f))"
| "nested_variables (VarNode x) = {x}"
| "nested_variables (LitNode v) = {}"

record provenance =
  p_variable_args :: "string set"
  p_variable_sources :: "(string \<times> string) list"
  p_nested :: "(string \<times> string set) list"

definition no_provenance :: provenance where
  "no_provenance = \<lparr>p_variable_args = {}, p_variable_sources = [], p_nested = []\<rparr>"

definition provenance_step :: "provenance \<Rightarrow> string \<times> arg_ast \<Rightarrow> provenance" where
  "provenance_step p arg =
     (case snd arg of
        VarNode x \<Rightarrow>
          p\<lparr>p_variable_args := insert (fst arg) (p_variable_args p),
            p_variable_sources := dict_set (p_variable_sources p) (fst arg) x\<rparr>
      | ast \<Rightarrow>
          (let nested = nested_variables ast
           in if nested \<noteq> {} then p\<lparr>p_nested := dict_set (p_nested p) (fst arg) nested\<rparr> else p))"

definition variable_provenance :: "(string \<times> arg_ast) list \<Rightarrow> provenance" where
  "variable_provenance arguments = foldl provenance_step no_provenance arguments"

section \<open>The accessor\<close>

record field_args =
  fa_args :: "(string \<times> pyval) list"
  variable_args :: "string set"
  variable_sources :: "(string \<times> string) list"
  nested_variable_args :: "(string \<times> string set) list"
  literal_variable_reads :: "string set"
  placeholdered_variable_args :: "string set"
  membership_checks :: "string set"
  equality_checks :: "(string \<times> pyval \<times> bool) list"

definition new_field_args :: "(string \<times> pyval) list \<Rightarrow> provenance \<Rightarrow> field_args" where
  "new_field_args args p =
     \<lparr>fa_args = args, variable_args = p_variable_args p,
      variable_sources = p_variable_sources p, nested_variable_args = p_nested p,
      literal_variable_reads = {}, placeholdered_variable_args = {},
      membership_checks = {}, equality_checks = []\<rparr>"

definition nested_names :: "field_args \<Rightarrow> string set" where
  "nested_names fa = set (map fst (nested_variable_args fa))"

definition note_literal_read :: "field_args \<Rightarrow> string \<Rightarrow> field_args" where
  "note_literal_read fa name =
     (if name \<in> variable_args fa \<or> name \<in> nested_names fa
      then fa\<lparr>literal_variable_reads := insert name (literal_variable_reads fa)\<rparr> else fa)"

definition fa_get :: "field_args \<Rightarrow> string \<Rightarrow> pyval \<Rightarrow> pyval \<times> field_args" where
  "fa_get fa name dflt =
     (case map_of (fa_args fa) name of None \<Rightarrow> dflt | Some v \<Rightarrow> v, note_literal_read fa name)"

definition fa_getitem :: "field_args \<Rightarrow> string \<Rightarrow> pyval res \<times> field_args" where
  "fa_getitem fa name =
     (case map_of (fa_args fa) name of None \<Rightarrow> Inl (KeyError name) | Some v \<Rightarrow> Inr v,
      note_literal_read fa name)"

definition fa_raw :: "field_args \<Rightarrow> (string \<times> pyval) list \<times> field_args" where
  "fa_raw fa =
     (fa_args fa,
      fa\<lparr>literal_variable_reads :=
           literal_variable_reads fa \<union> variable_args fa \<union> nested_names fa\<rparr>)"

definition inlined_variable_args :: "field_args \<Rightarrow> string set" where
  "inlined_variable_args fa = literal_variable_reads fa - placeholdered_variable_args fa"

definition fa_contains :: "field_args \<Rightarrow> string \<Rightarrow> bool \<times> field_args" where
  "fa_contains fa name =
     (map_of (fa_args fa) name \<noteq> None,
      if name \<in> variable_args fa
      then fa\<lparr>membership_checks := insert name (membership_checks fa)\<rparr> else fa)"

definition fa_eval :: "field_args \<Rightarrow> string \<Rightarrow> pyval \<Rightarrow> pyval \<times> field_args" where
  "fa_eval fa name dflt = fa_get fa name dflt"

definition fa_eval_is :: "field_args \<Rightarrow> string \<Rightarrow> pyval \<Rightarrow> bool \<times> field_args" where
  "fa_eval_is fa name expected =
     (let v = (case map_of (fa_args fa) name of None \<Rightarrow> VNone | Some w \<Rightarrow> w);
          passed = values_equal (Some v) (Some expected)
      in (passed,
          if name \<in> variable_args fa
          then fa\<lparr>equality_checks := equality_checks fa @ [(name, expected, passed)]\<rparr>
          else if name \<in> nested_names fa
          then fa\<lparr>literal_variable_reads := insert name (literal_variable_reads fa)\<rparr>
          else fa))"

definition fa_eval_has :: "field_args \<Rightarrow> string \<Rightarrow> bool \<times> field_args" where
  "fa_eval_has fa name = fa_contains fa name"

definition fa_is_variable :: "field_args \<Rightarrow> string \<Rightarrow> bool" where
  "fa_is_variable fa name \<longleftrightarrow> name \<in> variable_args fa"

definition fa_source :: "field_args \<Rightarrow> string \<Rightarrow> string res \<times> field_args" where
  "fa_source fa name =
     (if name \<in> nested_names fa
      then (Inl (ValueError (''argument cannot be placeholdered: '' @ name)), fa)
      else
        (Inr (''var:'' @ (case map_of (variable_sources fa) name of None \<Rightarrow> name | Some x \<Rightarrow> x)),
         if name \<in> variable_args fa
         then fa\<lparr>placeholdered_variable_args := insert name (placeholdered_variable_args fa)\<rparr>
         else fa))"

section \<open>Conversion into constraints\<close>

definition inlined_names :: "field_args \<Rightarrow> string set" where
  "inlined_names fa =
     (\<Union>arg \<in> inlined_variable_args fa.
        (case map_of (variable_sources fa) arg of None \<Rightarrow> {} | Some x \<Rightarrow> {x})
        \<union> (case map_of (nested_variable_args fa) arg of None \<Rightarrow> {} | Some xs \<Rightarrow> xs))"

definition equality_constraints ::
  "field_args \<Rightarrow> (string \<times> pyval) list \<Rightarrow> string \<times> pyval \<times> bool \<Rightarrow> request_constraint list" where
  "equality_constraints fa vars check =
     (case check of (arg, expected, passed) \<Rightarrow>
        (case map_of (variable_sources fa) arg of
           None \<Rightarrow> []
         | Some x \<Rightarrow>
             (let present = map_of vars x \<noteq> None
              in ExistsC ''variables'' [x] present
                 # (if present then [EqualityC ''variables'' [x] expected passed] else []))))"

definition membership_constraints ::
  "field_args \<Rightarrow> (string \<times> pyval) list \<Rightarrow> string \<Rightarrow> request_constraint list" where
  "membership_constraints fa vars arg =
     (case map_of (variable_sources fa) arg of
        None \<Rightarrow> []
      | Some x \<Rightarrow> [ExistsC ''variables'' [x] (map_of vars x \<noteq> None)])"

definition record_field_args_constraints ::
  "request_constraint list \<Rightarrow> field_args \<Rightarrow> (string \<times> pyval) list \<Rightarrow> request_constraint list" where
  "record_field_args_constraints sink fa vars =
     sink
     @ map (\<lambda>x. ValueC ''variables'' [x] (map_of vars x)) (sorted_list_of_set (inlined_names fa))
     @ concat (map (equality_constraints fa vars) (equality_checks fa))
     @ concat (map (membership_constraints fa vars) (sorted_list_of_set (membership_checks fa)))"

section \<open>A resolver's sequence of reads\<close>

datatype fa_op =
    F_Get string pyval | F_Item string | F_Raw | F_Contains string
  | F_Eval string pyval | F_Eval_Is string pyval | F_Eval_Has string | F_Source string

fun fa_step :: "field_args \<Rightarrow> fa_op \<Rightarrow> field_args" where
  "fa_step fa (F_Get name dflt) = snd (fa_get fa name dflt)"
| "fa_step fa (F_Item name) = snd (fa_getitem fa name)"
| "fa_step fa F_Raw = snd (fa_raw fa)"
| "fa_step fa (F_Contains name) = snd (fa_contains fa name)"
| "fa_step fa (F_Eval name dflt) = snd (fa_eval fa name dflt)"
| "fa_step fa (F_Eval_Is name expected) = snd (fa_eval_is fa name expected)"
| "fa_step fa (F_Eval_Has name) = snd (fa_eval_has fa name)"
| "fa_step fa (F_Source name) = snd (fa_source fa name)"

definition fa_run :: "field_args \<Rightarrow> fa_op list \<Rightarrow> field_args" where
  "fa_run fa ops = foldl fa_step fa ops"

text \<open>The argument whose value an operation hands out (\<open>raw\<close> hands out every one).\<close>

fun reads_value :: "fa_op \<Rightarrow> string \<Rightarrow> bool" where
  "reads_value (F_Get name dflt) a = (a = name)"
| "reads_value (F_Item name) a = (a = name)"
| "reads_value F_Raw a = True"
| "reads_value (F_Eval name dflt) a = (a = name)"
| "reads_value _ a = False"

lemmas fa_defs = fa_get_def fa_getitem_def fa_raw_def fa_contains_def fa_eval_def fa_eval_is_def
  fa_eval_has_def fa_source_def note_literal_read_def nested_names_def Let_def

lemma fa_step_frame [simp]:
  "variable_args (fa_step fa op) = variable_args fa"
  "variable_sources (fa_step fa op) = variable_sources fa"
  "nested_variable_args (fa_step fa op) = nested_variable_args fa"
  "fa_args (fa_step fa op) = fa_args fa"
  by (cases op; simp add: fa_defs)+

lemma fa_step_mono:
  "literal_variable_reads fa \<subseteq> literal_variable_reads (fa_step fa op)"
  "placeholdered_variable_args fa \<subseteq> placeholdered_variable_args (fa_step fa op)"
  "membership_checks fa \<subseteq> membership_checks (fa_step fa op)"
  "set (equality_checks fa) \<subseteq> set (equality_checks (fa_step fa op))"
  by (cases op; auto simp: fa_defs)+

lemma fa_run_frame [simp]:
  "variable_args (fa_run fa ops) = variable_args fa"
  "variable_sources (fa_run fa ops) = variable_sources fa"
  "nested_variable_args (fa_run fa ops) = nested_variable_args fa"
  by (induction ops arbitrary: fa) (simp_all add: fa_run_def)

lemma fa_run_Cons [simp]: "fa_run fa (op # ops) = fa_run (fa_step fa op) ops"
  by (simp add: fa_run_def)

lemma fa_run_Nil [simp]: "fa_run fa [] = fa"
  by (simp add: fa_run_def)

lemma fa_run_mono:
  "literal_variable_reads fa \<subseteq> literal_variable_reads (fa_run fa ops)"
  by (induction ops arbitrary: fa) (auto dest: fa_step_mono(1) [THEN subsetD])

text \<open>An observed variable-derived argument is noted, whatever comes before or after the read.\<close>

lemma fa_step_notes_read:
  "reads_value op a \<Longrightarrow> a \<in> variable_args fa \<union> nested_names fa
   \<Longrightarrow> a \<in> literal_variable_reads (fa_step fa op)"
  by (cases op) (auto simp: fa_defs)

lemma fa_run_notes_reads:
  assumes "op \<in> set ops" and "reads_value op a" and "a \<in> variable_args fa \<union> nested_names fa"
  shows "a \<in> literal_variable_reads (fa_run fa ops)"
  using assms
proof (induction ops arbitrary: fa)
  case (Cons o1 ops)
  show ?case
  proof (cases "op = o1")
    case True
    have "a \<in> literal_variable_reads (fa_step fa op)"
      using Cons.prems(2,3) by (rule fa_step_notes_read)
    with True show ?thesis using fa_run_mono [of "fa_step fa op" ops] by auto
  next
    case False
    with Cons show ?thesis by (simp add: nested_names_def)
  qed
qed simp

lemma fa_run_placeholdered:
  "placeholdered_variable_args (fa_run fa ops)
     = placeholdered_variable_args fa
       \<union> {a. F_Source a \<in> set ops \<and> a \<in> variable_args fa \<and> a \<notin> nested_names fa}"
proof (induction ops arbitrary: fa)
  case (Cons op ops)
  show ?case unfolding fa_run_Cons Cons.IH
    by (cases op) (auto simp: fa_defs)
qed simp

section \<open>What the provenance of an argument list says\<close>

text \<open>Argument names are unique in a field (the document is validated before execution).\<close>

lemma variable_provenance_snoc:
  "variable_provenance (args @ [arg]) = provenance_step (variable_provenance args) arg"
  by (simp add: variable_provenance_def)

lemma provenance_of:
  assumes "distinct (map fst args)"
  shows "p_variable_args (variable_provenance args) = {a. \<exists>x. (a, VarNode x) \<in> set args}"
    and "map_of (p_variable_sources (variable_provenance args)) a =
           (case map_of args a of Some (VarNode x) \<Rightarrow> Some x | _ \<Rightarrow> None)"
    and "map_of (p_nested (variable_provenance args)) a =
           (case map_of args a of
              None \<Rightarrow> None
            | Some (VarNode x) \<Rightarrow> None
            | Some ast \<Rightarrow> (if nested_variables ast = {} then None else Some (nested_variables ast)))"
proof -
  have "p_variable_args (variable_provenance args) = {a. \<exists>x. (a, VarNode x) \<in> set args}
    \<and> map_of (p_variable_sources (variable_provenance args)) a =
           (case map_of args a of Some (VarNode x) \<Rightarrow> Some x | _ \<Rightarrow> None)
    \<and> map_of (p_nested (variable_provenance args)) a =
           (case map_of args a of
              None \<Rightarrow> None
            | Some (VarNode x) \<Rightarrow> None
            | Some ast \<Rightarrow> (if nested_variables ast = {} then None else Some (nested_variables ast)))"
    using assms
  proof (induction args rule: rev_induct)
    case Nil
    then show ?case by (simp add: variable_provenance_def no_provenance_def)
  next
    case (snoc arg args)
    obtain b ast where arg: "arg = (b, ast)" by (cases arg)
    with snoc.prems have b: "b \<notin> fst ` set args" and "distinct (map fst args)" by auto
    moreover from b have "map_of args b = None" by (simp add: map_of_eq_None_iff)
    ultimately show ?case using snoc.IH arg
      by (cases ast)
        (auto simp: variable_provenance_snoc provenance_step_def Let_def map_of_snoc_fresh [OF b]
          simp del: map_of_append)
  qed
  then show "p_variable_args (variable_provenance args) = {a. \<exists>x. (a, VarNode x) \<in> set args}"
    and "map_of (p_variable_sources (variable_provenance args)) a =
           (case map_of args a of Some (VarNode x) \<Rightarrow> Some x | _ \<Rightarrow> None)"
    and "map_of (p_nested (variable_provenance args)) a =
           (case map_of args a of
              None \<Rightarrow> None
            | Some (VarNode x) \<Rightarrow> None
            | Some ast \<Rightarrow> (if nested_variables ast = {} then None else Some (nested_variables ast)))"
    by blast+
qed

text \<open>The constraints name exactly the variables behind the inlined arguments.\<close>

lemma finite_nested_variables [simp]: "finite (nested_variables ast)"
  by (induction ast rule: nested_variables.induct) auto

lemma inlined_names_cover:
  assumes "distinct (map fst args)" and "(a, ast) \<in> set args"
    and fa: "variable_sources fa = p_variable_sources (variable_provenance args)"
      "nested_variable_args fa = p_nested (variable_provenance args)"
    and "a \<in> inlined_variable_args fa"
  shows "nested_variables ast \<subseteq> inlined_names fa"
proof -
  have "map_of args a = Some ast" using assms(1,2) by simp
  with provenance_of(2,3) [OF assms(1), of a] fa
  have "nested_variables ast =
     (case map_of (variable_sources fa) a of None \<Rightarrow> {} | Some x \<Rightarrow> {x})
     \<union> (case map_of (nested_variable_args fa) a of None \<Rightarrow> {} | Some xs \<Rightarrow> xs)"
    by (cases ast) (simp_all del: nested_variables.simps(1,2))
  with assms(5) show ?thesis by (auto simp: inlined_names_def)
qed

lemma finite_inlined_names:
  assumes "distinct (map fst args)"
    and fa: "variable_sources fa = p_variable_sources (variable_provenance args)"
      "nested_variable_args fa = p_nested (variable_provenance args)"
    and "inlined_variable_args fa \<subseteq> fst ` set args"
  shows "finite (inlined_names fa)"
proof -
  have "finite (inlined_variable_args fa)" using assms(4) by (rule finite_subset) simp
  moreover have "finite xs" if "map_of (nested_variable_args fa) a = Some xs" for a xs
    using that unfolding fa(2) provenance_of(3) [OF assms(1)]
    by (auto split: option.splits arg_ast.splits if_splits simp del: nested_variables.simps)
  ultimately show ?thesis
    by (auto simp: inlined_names_def split: option.split)
qed

lemma literal_reads_derived:
  "literal_variable_reads fa \<subseteq> variable_args fa \<union> nested_names fa
   \<Longrightarrow> literal_variable_reads (fa_run fa ops) \<subseteq> variable_args fa \<union> nested_names fa"
proof (induction ops arbitrary: fa)
  case (Cons op ops)
  have "literal_variable_reads (fa_step fa op) \<subseteq> variable_args fa \<union> nested_names fa"
    using Cons.prems by (cases op) (auto simp: fa_defs)
  with Cons.IH [of "fa_step fa op"] show ?case by (simp add: nested_names_def)
qed simp

lemma derived_names_in_args:
  assumes "distinct (map fst args)"
  shows "variable_args (new_field_args d (variable_provenance args))
     \<union> nested_names (new_field_args d (variable_provenance args)) \<subseteq> fst ` set args"
proof -
  have "a \<in> fst ` set args" if "a \<in> fst ` set (p_nested (variable_provenance args))" for a
  proof -
    from that have "map_of (p_nested (variable_provenance args)) a \<noteq> None"
      by (simp add: map_of_eq_None_iff)
    then have "map_of args a \<noteq> None"
      by (cases "map_of args a") (auto simp: provenance_of(3) [OF assms])
    then show ?thesis by (metis map_of_eq_None_iff)
  qed
  moreover have "a \<in> fst ` set args" if "(a, ast) \<in> set args" for a ast
    using that by force
  ultimately show ?thesis
    by (auto simp: new_field_args_def nested_names_def provenance_of(1) [OF assms])
qed


section \<open>Observed arguments replay\<close>

text \<open>
  The whole protocol for one field: the arguments are coerced from the variables (by graphql-core:
  the parameter \<open>coerce\<close>), the resolver reads them, and the planner records the constraints.
\<close>

definition field_constraints ::
  "((string \<times> pyval) list \<Rightarrow> (string \<times> pyval) list) \<Rightarrow> (string \<times> arg_ast) list \<Rightarrow> fa_op list
   \<Rightarrow> (string \<times> pyval) list \<Rightarrow> request_constraint list" where
  "field_constraints coerce arguments ops vars =
     record_field_args_constraints []
       (fa_run (new_field_args (coerce vars) (variable_provenance arguments)) ops) vars"

lemma field_constraints_value:
  assumes dist: "distinct (map fst arguments)" and arg: "(a, ast) \<in> set arguments"
    and op: "op \<in> set ops" "reads_value op a" and src: "F_Source a \<notin> set ops"
    and x: "x \<in> nested_variables ast"
  shows "ValueC ''variables'' [x] (map_of vars x) \<in> set (field_constraints coerce arguments ops vars)"
proof -
  let ?new = "new_field_args (coerce vars) (variable_provenance arguments)"
  let ?fa = "fa_run ?new ops"
  have fa: "variable_sources ?fa = p_variable_sources (variable_provenance arguments)"
    "nested_variable_args ?fa = p_nested (variable_provenance arguments)"
    by (simp_all add: new_field_args_def)
  have "map_of arguments a = Some ast" using dist arg by simp
  with x have "a \<in> variable_args ?new \<or> map_of (p_nested (variable_provenance arguments)) a \<noteq> None"
    using provenance_of(1) [OF dist] provenance_of(3) [OF dist, of a] arg
    by (cases ast) (auto simp: new_field_args_def)
  then have "a \<in> variable_args ?new \<union> nested_names ?new"
    by (auto simp: nested_names_def new_field_args_def map_of_eq_None_iff)
  with op have "a \<in> literal_variable_reads ?fa" by (rule fa_run_notes_reads)
  moreover have "a \<notin> placeholdered_variable_args ?fa"
    using src by (simp add: fa_run_placeholdered) (simp add: new_field_args_def)
  ultimately have a: "a \<in> inlined_variable_args ?fa" by (simp add: inlined_variable_args_def)
  have "literal_variable_reads ?fa \<subseteq> fst ` set arguments"
    using literal_reads_derived [of ?new ops] derived_names_in_args [OF dist, of "coerce vars"]
    by (auto simp: new_field_args_def)
  then have "inlined_variable_args ?fa \<subseteq> fst ` set arguments"
    by (auto simp: inlined_variable_args_def)
  with dist fa have "finite (inlined_names ?fa)" by (rule finite_inlined_names)
  moreover have "x \<in> inlined_names ?fa" using inlined_names_cover [OF dist arg fa a] x by auto
  ultimately show ?thesis by (auto simp: field_constraints_def record_field_args_constraints_def)
qed

end
