(* ===== verification/Directives.thy ===== *)
theory Directives
  imports Field_Args
begin

text \<open>
  The variables a plan observes before planning starts: the plan-time directives
  (\<open>directive_variable_constraints\<close> in \<open>src/src/grafast_py/constraints.py\<close>), whose arguments are
  resolved while the fields are collected.
\<close>

section \<open>Variables of plan-time directives\<close>

text \<open>A selection: a field, a fragment spread or an inline fragment, with its directives. A directive
  is its name and its arguments.\<close>

type_synonym directive = "string \<times> (string \<times> arg_ast) list"

datatype selection =
    FieldSel string "directive list" "(string \<times> arg_ast) list" "selection list"
  | SpreadSel string "directive list"
  | InlineSel "directive list" "selection list"

fun sel_directives :: "selection \<Rightarrow> directive list" where
  "sel_directives (FieldSel n ds args sub) = ds"
| "sel_directives (SpreadSel n ds) = ds"
| "sel_directives (InlineSel ds sub) = ds"

definition plan_time_directives :: "string list" where
  "plan_time_directives = [''skip'', ''include'', ''defer'', ''stream'']"

definition directive_vars :: "selection \<Rightarrow> string set" where
  "directive_vars s =
     set [x. d \<leftarrow> sel_directives s, fst d \<in> set plan_time_directives, (a, VarNode x) \<leftarrow> snd d]"

text \<open>\<open>scan_selection_set\<close>: a spread not yet visited on this path is visited once for the rest of its
  selection set.\<close>

function scan_selections ::
  "(string \<times> selection list) list \<Rightarrow> string set \<Rightarrow> selection list \<Rightarrow> string set" where
  "scan_selections frags visited [] = {}"
| "scan_selections frags visited (FieldSel n ds args sub # rest) =
     directive_vars (FieldSel n ds args sub) \<union> scan_selections frags visited sub
     \<union> scan_selections frags visited rest"
| "scan_selections frags visited (InlineSel ds sub # rest) =
     directive_vars (InlineSel ds sub) \<union> scan_selections frags visited sub
     \<union> scan_selections frags visited rest"
| "scan_selections frags visited (SpreadSel n ds # rest) =
     directive_vars (SpreadSel n ds) \<union>
     (if n \<in> visited then scan_selections frags visited rest
      else (case map_of frags n of
              None \<Rightarrow> {}
            | Some body \<Rightarrow> scan_selections frags (insert n visited) body)
           \<union> scan_selections frags (insert n visited) rest)"
  by pat_completeness auto
termination
proof (relation "measures [\<lambda>(frags, visited, sel). card (fst ` set frags - visited),
      \<lambda>(frags, visited, sel). size_list size sel]", goal_cases)
  case (7 frags visited n ds rest body)
  then have "n \<in> fst ` set frags - visited" by (force dest: map_of_SomeD)
  then have "card (fst ` set frags - insert n visited) < card (fst ` set frags - visited)"
    by (intro psubset_card_mono) auto
  then show ?case by simp
next
  case (8 frags visited n ds rest)
  have "card (fst ` set frags - insert n visited) \<le> card (fst ` set frags - visited)"
    by (intro card_mono) auto
  then show ?case by auto
qed auto

definition directive_variable_constraints ::
  "selection list \<Rightarrow> (string \<times> selection list) list \<Rightarrow> (string \<times> pyval) list \<Rightarrow> request_constraint list" where
  "directive_variable_constraints sel frags vars =
     map (\<lambda>x. ValueC ''variables'' [x] (map_of vars x)) (sorted_list_of_set (scan_selections frags {} sel))"

text \<open>A plan-time directive variable, and the fragments it is reached through.\<close>

inductive directive_use ::
  "(string \<times> selection list) list \<Rightarrow> string list \<Rightarrow> selection list \<Rightarrow> string \<Rightarrow> bool" for frags where
  use_here: "s \<in> set sel \<Longrightarrow> x \<in> directive_vars s \<Longrightarrow> directive_use frags [] sel x"
| use_field: "FieldSel n ds args sub \<in> set sel \<Longrightarrow> directive_use frags fs sub x \<Longrightarrow> directive_use frags fs sel x"
| use_inline: "InlineSel ds sub \<in> set sel \<Longrightarrow> directive_use frags fs sub x \<Longrightarrow> directive_use frags fs sel x"
| use_spread: "SpreadSel n ds \<in> set sel \<Longrightarrow> map_of frags n = Some body \<Longrightarrow> directive_use frags fs body x
    \<Longrightarrow> directive_use frags (n # fs) sel x"

lemma use_mono: "directive_use frags fs sel x \<Longrightarrow> set sel \<subseteq> set sel' \<Longrightarrow> directive_use frags fs sel' x"
  by (induction rule: directive_use.induct) (auto intro: directive_use.intros)

lemma use_via:
  "directive_use frags fs sel x \<Longrightarrow> fs = fs1 @ n # fs2 \<Longrightarrow> \<exists>body. map_of frags n = Some body \<and> directive_use frags fs2 body x"
proof (induction arbitrary: fs1 rule: directive_use.induct)
  case (use_spread m ds sel body fs x)
  then show ?case by (cases fs1) auto
qed auto

lemma use_distinct: "directive_use frags fs sel x \<Longrightarrow> \<exists>fs'. distinct fs' \<and> directive_use frags fs' sel x"
proof (induction rule: directive_use.induct)
  case (use_here s sel x)
  then show ?case by (meson directive_use.use_here distinct.simps(1))
next
  case (use_spread n ds sel body fs x)
  then obtain fs' where fs': "distinct fs'" "directive_use frags fs' body x" by blast
  show ?case
  proof (cases "n \<in> set fs'")
    case False
    with fs' use_spread(1,2) show ?thesis
      by (intro exI [of _ "n # fs'"]) (auto intro: directive_use.use_spread)
  next
    case True
    then obtain fs1 fs2 where split: "fs' = fs1 @ n # fs2" by (meson split_list)
    with fs' use_spread(2) have "directive_use frags fs2 body x" using use_via by fastforce
    with fs'(1) split use_spread(1,2) show ?thesis
      by (intro exI [of _ "n # fs2"]) (auto intro: directive_use.use_spread)
  qed
qed (meson directive_use.intros)+

lemma use_ConsE:
  assumes "directive_use frags fs (s # rest) x"
  obtains (rest) "directive_use frags fs rest x"
  | (here) "fs = []" "x \<in> directive_vars s"
  | (field) n ds args sub where "s = FieldSel n ds args sub" "directive_use frags fs sub x"
  | (inline) ds sub where "s = InlineSel ds sub" "directive_use frags fs sub x"
  | (spread) n ds body fs' where "s = SpreadSel n ds" "fs = n # fs'" "map_of frags n = Some body"
      "directive_use frags fs' body x"
  using assms by cases (auto intro: directive_use.intros)

lemma scan_complete:
  "directive_use frags fs sel x \<Longrightarrow> distinct fs \<Longrightarrow> set fs \<inter> visited = {} \<Longrightarrow> x \<in> scan_selections frags visited sel"
proof (induction frags visited sel arbitrary: fs x rule: scan_selections.induct)
  case (1 frags visited)
  then show ?case by (auto elim: directive_use.cases)
next
  case (2 frags visited n ds args sub rest)
  from 2(3) show ?case by (cases rule: use_ConsE) (use 2 in auto)
next
  case (3 frags visited ds sub rest)
  from 3(3) show ?case by (cases rule: use_ConsE) (use 3 in auto)
next
  case (4 frags visited n ds rest)
  from 4(4) show ?case
  proof (cases rule: use_ConsE)
    case rest
    show ?thesis
    proof (cases "n \<in> visited")
      case True
      with 4(1) [OF True rest 4(5,6)] show ?thesis by simp
    next
      case new: False
      show ?thesis
      proof (cases "n \<in> set fs")
        case False
        with 4(3) [OF new rest 4(5)] 4(6) new show ?thesis by simp
      next
        case True
        then obtain fs1 fs2 where split: "fs = fs1 @ n # fs2" by (meson split_list)
        obtain body where body: "map_of frags n = Some body" "directive_use frags fs2 body x"
          using use_via [OF rest split] by blast
        with 4(2) [OF new body] 4(5,6) split new show ?thesis by auto
      qed
    qed
  next
    case (spread m ds' body fs')
    with 4(5,6) have "n \<notin> visited" "set fs' \<inter> insert n visited = {}" "distinct fs'" by auto
    with spread 4(2) [of body fs' x] show ?thesis by simp
  qed auto
qed

text \<open>The scan reads the fragments by name only, and reaches finitely many variables.\<close>

lemma finite_directive_vars [simp]: "finite (directive_vars s)"
  unfolding directive_vars_def by (rule finite_set)

lemma finite_scan [simp]: "finite (scan_selections frags visited sel)"
  by (induction frags visited sel rule: scan_selections.induct) (auto split: option.split)

lemma scan_cong:
  "map_of frags = map_of frags' \<Longrightarrow> scan_selections frags visited sel = scan_selections frags' visited sel"
  by (induction frags visited sel rule: scan_selections.induct) (auto split: option.split)

lemma directive_constraints_vars:
  "set (directive_variable_constraints sel frags vars)
     = (\<lambda>x. ValueC ''variables'' [x] (map_of vars x)) ` scan_selections frags {} sel"
  by (simp add: directive_variable_constraints_def)

text \<open>The constraints hold for a request exactly when it agrees on every directive variable.\<close>

lemma directive_constraints_accept:
  assumes "\<forall>c \<in> set (directive_variable_constraints sel frags vars). c_matches cust c g = Inr True"
    and "directive_use frags fs sel x"
  shows "values_equal (map_of (variable_values g) x) (map_of vars x)"
proof -
  obtain fs' where "distinct fs'" "directive_use frags fs' sel x" using use_distinct [OF assms(2)] by blast
  then have "x \<in> scan_selections frags {} sel" by (intro scan_complete) auto
  with assms(1) show ?thesis unfolding directive_constraints_vars
    by (auto simp: image_iff split: option.splits dest!: bspec)
qed

end
