(* ===== verification/Plan_Cache.thy ===== *)
theory Plan_Cache
  imports Directives
begin

text \<open>
  The cross-request plan cache (\<open>src/src/grafast_py/cache.py\<close>): the key, the \<open>PlanCache\<close> class
  with one operation per critical section of its lock, and the source map. The printer, the hash
  and the plan object itself are parameters.
\<close>

section \<open>The cache key\<close>

record config =
  inline_relations :: bool
  placeholders :: bool
  cache_plans :: bool
  hoist :: bool

type_synonym fingerprint = "bool \<times> bool \<times> bool \<times> bool"

definition config_fingerprint :: "config option \<Rightarrow> fingerprint" where
  "config_fingerprint cfg =
     (case cfg of
        None \<Rightarrow> (False, False, False, False)
      | Some c \<Rightarrow> (inline_relations c, placeholders c, cache_plans c, hoist c))"

text \<open>The walk of \<open>variable_arg_fingerprint\<close>: an inline fragment has no name, a spread no
  arguments and no selections.\<close>

fun arg_pairs :: "string list \<Rightarrow> selection list \<Rightarrow> string list list" where
  "arg_pairs path [] = []"
| "arg_pairs path (FieldSel n ds args sub # rest) =
     map (\<lambda>a. (path @ [n]) @ [fst a]) (filter (\<lambda>a. case snd a of VarNode x \<Rightarrow> True | _ \<Rightarrow> False) args)
     @ arg_pairs (path @ [n]) sub @ arg_pairs path rest"
| "arg_pairs path (SpreadSel n ds # rest) = arg_pairs path rest"
| "arg_pairs path (InlineSel ds sub # rest) = arg_pairs (path @ [[]]) sub @ arg_pairs path rest"

definition variable_arg_fingerprint :: "selection list \<Rightarrow> string list list" where
  "variable_arg_fingerprint sel = sorted_list_of_set (set (arg_pairs [] sel))"

record operation =
  op_name :: "string option"
  op_mutation :: bool
  op_variables :: "string list"
  op_selections :: "selection list"

type_synonym fragments = "(string \<times> selection list) list"

text \<open>What the key takes from elsewhere: the printer of \<open>graphql-core\<close> and the built-in hash.\<close>

record printer =
  print_operation :: "operation \<Rightarrow> string"
  print_fragment :: "string \<Rightarrow> selection list \<Rightarrow> string"
  text_hash :: "string \<Rightarrow> int"

definition document_text :: "printer \<Rightarrow> operation \<Rightarrow> fragments \<Rightarrow> string" where
  "document_text pr op frags =
     print_operation pr op
     @ concat (map (\<lambda>n. ''\<newline>'' @ print_fragment pr n (the (map_of frags n))) (sort (map fst frags)))"

type_synonym cache_key = "nat \<times> int \<times> string option \<times> string list list \<times> fingerprint \<times> bool"

definition compute_cache_key ::
  "printer \<Rightarrow> nat \<Rightarrow> operation \<Rightarrow> fragments \<Rightarrow> config option \<Rightarrow> bool \<Rightarrow> cache_key" where
  "compute_cache_key pr schema_id op frags cfg incremental =
     (schema_id, text_hash pr (document_text pr op frags), op_name op,
      variable_arg_fingerprint (op_selections op), config_fingerprint cfg, incremental)"

section \<open>Candidates\<close>

text \<open>
  A candidate has an object identity of its own; \<open>c_schema\<close> is the identity of the schema. A
  constraint is a named tuple, so that two constraints are equal when their fields are, whatever
  their classes: \<open>F_Absent\<close> is the sentinel and \<open>F_Custom\<close> a callable, which only equal themselves.
\<close>

record 'p cached =
  c_ident :: nat
  c_schema :: nat
  c_plan :: 'p
  c_survivors :: "(nat \<times> string list) list"
  c_constraints :: "request_constraint list"

datatype field = F_Absent | F_Value pyval | F_Custom nat

fun constraint_fields :: "request_constraint \<Rightarrow> field list" where
  "constraint_fields (ValueC s p v) =
     [F_Value (VStr s), F_Value (VTuple (map VStr p)), case v of None \<Rightarrow> F_Absent | Some w \<Rightarrow> F_Value w]"
| "constraint_fields (EqualityC s p e b) =
     [F_Value (VStr s), F_Value (VTuple (map VStr p)), F_Value e, F_Value (VBool b)]"
| "constraint_fields (ExistsC s p b) =
     [F_Value (VStr s), F_Value (VTuple (map VStr p)), F_Value (VBool b)]"
| "constraint_fields (KeysC s p ks) =
     [F_Value (VStr s), F_Value (VTuple (map VStr p)), F_Value (VTuple (map VStr ks))]"
| "constraint_fields (CustomizerC n ks) = [F_Custom n, F_Value (VTuple (map VStr ks))]"

fun field_eq :: "field \<Rightarrow> field \<Rightarrow> bool" where
  "field_eq (F_Value v) (F_Value w) = py_eq v w"
| "field_eq a b = (a = b)"

definition constraint_eq :: "request_constraint \<Rightarrow> request_constraint \<Rightarrow> bool" where
  "constraint_eq c d = list_all2 field_eq (constraint_fields c) (constraint_fields d)"

definition same_variant :: "'p cached \<Rightarrow> 'p cached \<Rightarrow> bool" where
  "same_variant c d \<longleftrightarrow>
     c_schema c = c_schema d \<and> list_all2 constraint_eq (c_constraints c) (c_constraints d)"

section \<open>The cache\<close>

text \<open>The entries of the ordered dict, least recently used first.\<close>

type_synonym ('k, 'p) entries = "('k \<times> 'p cached list) list"

record ('k, 'p) plan_cache =
  max_entries :: nat
  entries :: "('k, 'p) entries"
  hits :: nat
  misses :: nat
  evictions :: nat

definition MAX_VARIANTS_PER_KEY :: nat where "MAX_VARIANTS_PER_KEY = 8"

definition make_cache :: "int \<Rightarrow> ('k, 'p) plan_cache res" where
  "make_cache m =
     (if m < 1 then Inl (ValueError ''PlanCache max_entries must be >= 1'')
      else Inr \<lparr>max_entries = nat m, entries = [], hits = 0, misses = 0, evictions = 0\<rparr>)"

definition move_to_end :: "'k \<Rightarrow> 'v \<Rightarrow> ('k \<times> 'v) list \<Rightarrow> ('k \<times> 'v) list" where
  "move_to_end k v es = filter (\<lambda>kv. fst kv \<noteq> k) es @ [(k, v)]"

text \<open>\<open>get\<close>, first section: count a miss, or mark the bucket used and take a snapshot of it.\<close>

definition cache_begin ::
  "'k \<Rightarrow> ('k, 'p) plan_cache \<Rightarrow> 'p cached list option \<times> ('k, 'p) plan_cache" where
  "cache_begin k c =
     (case map_of (entries c) k of
        None \<Rightarrow> (None, c\<lparr>misses := misses c + 1\<rparr>)
      | Some bucket \<Rightarrow> (Some bucket, c\<lparr>entries := move_to_end k bucket (entries c)\<rparr>))"

text \<open>Outside the lock: the first candidate of the snapshot that validates. Validation may raise.\<close>

fun choose_candidate :: "('p cached \<Rightarrow> bool res) \<Rightarrow> 'p cached list \<Rightarrow> 'p cached option res" where
  "choose_candidate validate [] = Inr None"
| "choose_candidate validate (x # xs) =
     bind_res (validate x) (\<lambda>ok. if ok then Inr (Some x) else choose_candidate validate xs)"

text \<open>\<open>get\<close>, second section: hoist the candidate when it is still in the bucket, count a hit.\<close>

fun remove_first :: "('a \<Rightarrow> bool) \<Rightarrow> 'a list \<Rightarrow> 'a list" where
  "remove_first P [] = []"
| "remove_first P (x # xs) = (if P x then xs else x # remove_first P xs)"

definition hoist_bucket :: "'p cached \<Rightarrow> 'p cached list \<Rightarrow> 'p cached list" where
  "hoist_bucket x bucket =
     (case find (\<lambda>y. c_ident y = c_ident x) bucket of
        None \<Rightarrow> bucket
      | Some y \<Rightarrow> y # remove_first (\<lambda>y. c_ident y = c_ident x) bucket)"

definition cache_hit :: "'k \<Rightarrow> 'p cached \<Rightarrow> ('k, 'p) plan_cache \<Rightarrow> ('k, 'p) plan_cache" where
  "cache_hit k x c =
     c\<lparr>entries := map (\<lambda>(k', b). (k', if k' = k then hoist_bucket x b else b)) (entries c),
       hits := hits c + 1\<rparr>"

definition cache_miss :: "('k, 'p) plan_cache \<Rightarrow> ('k, 'p) plan_cache" where
  "cache_miss c = c\<lparr>misses := misses c + 1\<rparr>"

text \<open>\<open>get\<close> run without interruption.\<close>

definition cache_get ::
  "'k \<Rightarrow> ('p cached \<Rightarrow> bool res) \<Rightarrow> ('k, 'p) plan_cache
   \<Rightarrow> 'p cached option res \<times> ('k, 'p) plan_cache" where
  "cache_get k validate c =
     (case cache_begin k c of
        (None, c') \<Rightarrow> (Inr None, c')
      | (Some snapshot, c') \<Rightarrow>
          (case choose_candidate validate snapshot of
             Inl e \<Rightarrow> (Inl e, c')
           | Inr None \<Rightarrow> (Inr None, cache_miss c')
           | Inr (Some x) \<Rightarrow> (Inr (Some x), cache_hit k x c')))"

text \<open>\<open>put\<close>: replace the first variant with equal constraints, prepend, mark the bucket used, and
  evict over both caps.\<close>

fun evict :: "nat \<Rightarrow> ('k, 'p) entries \<Rightarrow> nat \<Rightarrow> ('k, 'p) entries \<times> nat" where
  "evict m [] n = ([], n)"
| "evict m (e # es) n = (if m < length (e # es) then evict m es (n + 1) else (e # es, n))"

definition cache_put :: "'k \<Rightarrow> 'p cached \<Rightarrow> ('k, 'p) plan_cache \<Rightarrow> ('k, 'p) plan_cache" where
  "cache_put k x c =
     (let bucket = (case map_of (entries c) k of None \<Rightarrow> [] | Some b \<Rightarrow> b);
          grown = x # remove_first (\<lambda>y. same_variant y x) bucket;
          capped = take MAX_VARIANTS_PER_KEY grown;
          dropped = (if MAX_VARIANTS_PER_KEY < length grown then 1 else 0);
          (es, n) = evict (max_entries c) (move_to_end k capped (entries c)) (evictions c + dropped)
      in c\<lparr>entries := es, evictions := n\<rparr>)"

definition cache_clear :: "('k, 'p) plan_cache \<Rightarrow> ('k, 'p) plan_cache" where
  "cache_clear c = c\<lparr>entries := []\<rparr>"

definition cache_len :: "('k, 'p) plan_cache \<Rightarrow> nat" where
  "cache_len c = length (entries c)"

text \<open>The map from source tags to the request's values; a declared variable the request omits is
  bound to \<open>None\<close>.\<close>

definition values_by_source ::
  "(string \<times> pyval) list \<Rightarrow> operation option \<Rightarrow> (string \<times> pyval) list" where
  "values_by_source vars op =
     foldl (\<lambda>m x. if map_of m (''var:'' @ x) = None then m @ [(''var:'' @ x, VNone)] else m)
       (map (\<lambda>(x, v). (''var:'' @ x, v)) vars)
       (case op of None \<Rightarrow> [] | Some p \<Rightarrow> op_variables p)"

section \<open>Any interleaving of the critical sections\<close>

datatype ('k, 'p) cache_event =
  Begin 'k | Hit 'k "'p cached" | Miss | Put 'k "'p cached" | Clear

fun cache_step :: "('k, 'p) cache_event \<Rightarrow> ('k, 'p) plan_cache \<Rightarrow> ('k, 'p) plan_cache" where
  "cache_step (Begin k) c = snd (cache_begin k c)"
| "cache_step (Hit k x) c = cache_hit k x c"
| "cache_step Miss c = cache_miss c"
| "cache_step (Put k x) c = cache_put k x c"
| "cache_step Clear c = cache_clear c"

definition cache_run :: "('k, 'p) cache_event list \<Rightarrow> ('k, 'p) plan_cache \<Rightarrow> ('k, 'p) plan_cache" where
  "cache_run evs c = foldl (\<lambda>c ev. cache_step ev c) c evs"

text \<open>The keys used along a run, in order: a read of a present key and a store each use their key.\<close>

fun keys_used :: "('k, 'p) cache_event list \<Rightarrow> ('k, 'p) plan_cache \<Rightarrow> 'k list \<Rightarrow> 'k list" where
  "keys_used [] c us = us"
| "keys_used (ev # evs) c us =
     keys_used evs (cache_step ev c)
       (case ev of
          Begin k \<Rightarrow> if map_of (entries c) k = None then us else us @ [k]
        | Put k x \<Rightarrow> us @ [k]
        | Clear \<Rightarrow> []
        | _ \<Rightarrow> us)"

end
