(* ===== verification/Cache_Laws.thy ===== *)
theory Cache_Laws
  imports Plan_Cache
begin

text \<open>
  The laws of the plan cache: the bounds and the bucket invariant under every interleaving of its
  critical sections, the recency order of the keys, and what a read after a store returns.
\<close>

section \<open>Variants\<close>

fun field_wf :: "field \<Rightarrow> bool" where
  "field_wf (F_Value v) = py_wf v"
| "field_wf _ = True"

definition cached_wf :: "'p cached \<Rightarrow> bool" where
  "cached_wf x \<longleftrightarrow> (\<forall>c \<in> set (c_constraints x). \<forall>a \<in> set (constraint_fields c). field_wf a)"

lemma field_eq_refl: "field_wf a \<Longrightarrow> field_eq a a"
  by (cases a) (auto intro: py_eq_refl)

lemma field_eq_sym: "field_wf a \<Longrightarrow> field_wf b \<Longrightarrow> field_eq a b \<Longrightarrow> field_eq b a"
  by (cases a; cases b) (auto intro: py_eq_sym)

lemma field_eq_trans: "field_eq a b \<Longrightarrow> field_eq b c \<Longrightarrow> field_eq a c"
  by (cases a; cases b; cases c) (auto intro: py_eq_trans)

lemma list_all2_symI:
  assumes "list_all2 R xs ys" and "\<And>x y. x \<in> set xs \<Longrightarrow> y \<in> set ys \<Longrightarrow> R x y \<Longrightarrow> R y x"
  shows "list_all2 R ys xs"
  using assms by (auto simp: list_all2_conv_all_nth)

lemma same_variant_refl: "cached_wf x \<Longrightarrow> same_variant x x"
  by (auto simp: same_variant_def constraint_eq_def cached_wf_def
      intro!: list.rel_refl_strong field_eq_refl)

lemma same_variant_sym: "cached_wf x \<Longrightarrow> cached_wf y \<Longrightarrow> same_variant x y \<Longrightarrow> same_variant y x"
  unfolding same_variant_def constraint_eq_def cached_wf_def
  by (auto elim!: list_all2_symI intro: field_eq_sym)

lemma constraint_eq_trans: "constraint_eq a b \<Longrightarrow> constraint_eq b c \<Longrightarrow> constraint_eq a c"
  unfolding constraint_eq_def using list_all2_trans [of field_eq field_eq field_eq] field_eq_trans
  by blast

lemma same_variant_trans: "same_variant x y \<Longrightarrow> same_variant y z \<Longrightarrow> same_variant x z"
  unfolding same_variant_def
  using list_all2_trans [of constraint_eq constraint_eq constraint_eq] constraint_eq_trans by metis

section \<open>Buckets\<close>

lemma remove_first_split:
  "find P xs = Some y \<Longrightarrow> \<exists>us vs. xs = us @ y # vs \<and> remove_first P xs = us @ vs \<and> P y
     \<and> (\<forall>u \<in> set us. \<not> P u)"
proof (induction xs)
  case (Cons x xs)
  show ?case
  proof (cases "P x")
    case True
    with Cons.prems show ?thesis by (intro exI [of _ "[]"] exI [of _ xs]) simp
  next
    case False
    with Cons obtain us vs where "xs = us @ y # vs" "remove_first P xs = us @ vs" "P y"
      "\<forall>u \<in> set us. \<not> P u" by auto
    with False show ?thesis by (intro exI [of _ "x # us"] exI [of _ vs]) auto
  qed
qed simp

lemma remove_first_none: "find P xs = None \<Longrightarrow> remove_first P xs = xs"
  by (induction xs) (auto split: if_splits)

lemma set_remove_first: "set (remove_first P xs) \<subseteq> set xs"
  by (induction xs) auto

lemma length_remove_first: "length (remove_first P xs) \<le> length xs"
  by (induction xs) auto

lemma sorted_wrt_remove_first: "sorted_wrt R xs \<Longrightarrow> sorted_wrt R (remove_first P xs)"
  by (induction xs) (auto dest: set_remove_first [THEN subsetD])

definition bucket_ok :: "'p cached list \<Rightarrow> bool" where
  "bucket_ok b \<longleftrightarrow> b \<noteq> [] \<and> length b \<le> MAX_VARIANTS_PER_KEY \<and> (\<forall>x \<in> set b. cached_wf x)
     \<and> sorted_wrt (\<lambda>x y. \<not> same_variant x y) b"

lemma hoist_bucket_ok:
  assumes "bucket_ok b"
  shows "bucket_ok (hoist_bucket x b)" and "set (hoist_bucket x b) = set b"
proof -
  have *: "bucket_ok (hoist_bucket x b) \<and> set (hoist_bucket x b) = set b"
  proof (cases "find (\<lambda>y. c_ident y = c_ident x) b")
    case None
    with assms show ?thesis by (simp add: hoist_bucket_def)
  next
    case (Some y)
    then obtain us vs where b: "b = us @ y # vs"
      "remove_first (\<lambda>y. c_ident y = c_ident x) b = us @ vs" using remove_first_split [OF Some] by blast
    with Some have hb: "hoist_bucket x b = y # us @ vs" by (simp add: hoist_bucket_def)
    have wf: "\<forall>z \<in> set b. cached_wf z" and srt: "sorted_wrt (\<lambda>x y. \<not> same_variant x y) (us @ y # vs)"
      using assms b(1) by (simp_all add: bucket_ok_def)
    have "\<not> same_variant y u" if "u \<in> set us" for u
    proof
      assume "same_variant y u"
      moreover have "cached_wf y" "cached_wf u" using that wf b(1) by simp_all
      ultimately have "same_variant u y" by (rule same_variant_sym [rotated 2])
      with that srt show False by (simp add: sorted_wrt_append)
    qed
    with srt have "sorted_wrt (\<lambda>x y. \<not> same_variant x y) (y # us @ vs)"
      by (auto simp: sorted_wrt_append)
    with assms wf b(1) hb show ?thesis unfolding bucket_ok_def by simp
  qed
  then show "bucket_ok (hoist_bucket x b)" "set (hoist_bucket x b) = set b" by blast+
qed

lemma replace_no_variant:
  assumes "sorted_wrt (\<lambda>x y. \<not> same_variant x y) b" and "\<forall>y \<in> set b. cached_wf y" and "cached_wf x"
    and "y \<in> set (remove_first (\<lambda>y. same_variant y x) b)"
  shows "\<not> same_variant y x"
proof (cases "find (\<lambda>y. same_variant y x) b")
  case None
  with assms(4) show ?thesis using remove_first_none [OF None] by (auto simp: find_None_iff)
next
  case (Some z)
  then obtain us vs where b: "b = us @ z # vs" "remove_first (\<lambda>y. same_variant y x) b = us @ vs"
    and z: "same_variant z x" "\<forall>u \<in> set us. \<not> same_variant u x" using remove_first_split [OF Some] by blast
  from assms(4) b(2) consider "y \<in> set us" | "y \<in> set vs" by auto
  then show ?thesis
  proof cases
    case 2
    with assms(1) b(1) have "\<not> same_variant z y" by (simp add: sorted_wrt_append)
    moreover have "same_variant x y" if "same_variant y x"
    proof -
      have "cached_wf y" using 2 assms(2) b(1) by simp
      then show ?thesis using assms(3) that by (rule same_variant_sym)
    qed
    ultimately show ?thesis using z(1) same_variant_trans by blast
  qed (use z in simp)
qed

lemma sorted_wrt_take: "sorted_wrt R xs \<Longrightarrow> sorted_wrt R (take n xs)"
  by (metis append_take_drop_id sorted_wrt_append)

lemma replace_bucket_ok:
  assumes b: "b = [] \<or> bucket_ok b" and x: "cached_wf x"
  shows "bucket_ok (take MAX_VARIANTS_PER_KEY (x # remove_first (\<lambda>y. same_variant y x) b))"
proof -
  let ?r = "remove_first (\<lambda>y. same_variant y x) b"
  have wf: "\<forall>y \<in> set b. cached_wf y" and srt: "sorted_wrt (\<lambda>x y. \<not> same_variant x y) b"
    using b by (auto simp: bucket_ok_def)
  have "\<not> same_variant x y" if "y \<in> set ?r" for y
    using replace_no_variant [OF srt wf x that] same_variant_sym [OF x, of y] wf that
      set_remove_first [of _ b] by blast
  then have "sorted_wrt (\<lambda>x y. \<not> same_variant x y) (x # ?r)"
    using sorted_wrt_remove_first [OF srt] by simp
  moreover have "\<forall>y \<in> set (x # ?r). cached_wf y" using wf x set_remove_first [of _ b] by auto
  ultimately show ?thesis
    unfolding bucket_ok_def using sorted_wrt_take set_take_subset
    by (auto simp: MAX_VARIANTS_PER_KEY_def dest: in_set_takeD)
qed

section \<open>The invariant of the cache\<close>

definition cache_ok :: "('k, 'p) plan_cache \<Rightarrow> bool" where
  "cache_ok c \<longleftrightarrow> 1 \<le> max_entries c \<and> length (entries c) \<le> max_entries c
     \<and> distinct (map fst (entries c)) \<and> (\<forall>kv \<in> set (entries c). bucket_ok (snd kv))"

lemma length_filter_key:
  "distinct (map fst es) \<Longrightarrow> map_of es k = Some v \<Longrightarrow> length (filter (\<lambda>kv. fst kv \<noteq> k) es) + 1 = length es"
proof (induction es)
  case (Cons kv es)
  show ?case
  proof (cases "fst kv = k")
    case True
    with Cons.prems have "filter (\<lambda>kv. fst kv \<noteq> k) es = es"
      by (auto simp: filter_id_conv image_iff)
    with True show ?thesis by simp
  qed (use Cons in auto)
qed simp

lemma map_fst_filter: "map fst (filter (\<lambda>kv. fst kv \<noteq> k) es) = filter (\<lambda>k'. k' \<noteq> k) (map fst es)"
  by (induction es) auto

lemma keys_move_to_end: "map fst (move_to_end k v es) = filter (\<lambda>k'. k' \<noteq> k) (map fst es) @ [k]"
  by (simp add: move_to_end_def map_fst_filter)

lemma map_of_filter_key:
  "map_of (filter (\<lambda>kv. fst kv \<noteq> k) es) k' = (if k' = k then None else map_of es k')"
  by (induction es) auto

lemma map_of_move_to_end [simp]: "map_of (move_to_end k v es) = (map_of es)(k \<mapsto> v)"
  by (rule ext) (simp add: move_to_end_def map_add_def map_of_filter_key split: option.split)

lemma distinct_move_to_end: "distinct (map fst es) \<Longrightarrow> distinct (map fst (move_to_end k v es))"
  by (simp add: keys_move_to_end)

lemma evict_spec: "fst (evict m es n) = drop (length es - m) es"
  by (induction m es n rule: evict.induct) (auto simp: Suc_diff_le)

lemma evict_count: "snd (evict m es n) = n + (length es - m)"
  by (induction m es n rule: evict.induct) auto

lemma cache_begin_ok:
  assumes "cache_ok c" shows "cache_ok (snd (cache_begin k c))"
proof (cases "map_of (entries c) k")
  case (Some b)
  then have "(k, b) \<in> set (entries c)" by (rule map_of_SomeD)
  with Some assms length_filter_key [of "entries c" k b] distinct_move_to_end [of "entries c" k b]
  show ?thesis by (auto simp: cache_begin_def cache_ok_def move_to_end_def)
qed (use assms in \<open>simp add: cache_begin_def cache_ok_def\<close>)

lemma cache_hit_keys [simp]: "map fst (entries (cache_hit k x c)) = map fst (entries c)"
  by (simp add: cache_hit_def case_prod_beta' o_def)

lemma cache_hit_ok: "cache_ok c \<Longrightarrow> cache_ok (cache_hit k x c)"
  unfolding cache_ok_def using cache_hit_keys [of k x c]
  by (auto simp: cache_hit_def hoist_bucket_ok(1) case_prod_beta' o_def)

lemma cache_put_entries:
  "entries (cache_put k x c) =
     (let b = (case map_of (entries c) k of None \<Rightarrow> [] | Some b \<Rightarrow> b);
          es = move_to_end k (take MAX_VARIANTS_PER_KEY (x # remove_first (\<lambda>y. same_variant y x) b)) (entries c)
      in drop (length es - max_entries c) es)"
  unfolding cache_put_def Let_def by (simp add: evict_spec case_prod_beta' del: take_Suc_Cons)

lemma cache_put_max [simp]: "max_entries (cache_put k x c) = max_entries c"
  by (simp add: cache_put_def Let_def split: prod.split)

lemma cache_put_ok:
  assumes "cache_ok c" and "cached_wf x"
  shows "cache_ok (cache_put k x c)"
proof -
  define b where "b = (case map_of (entries c) k of None \<Rightarrow> [] | Some b \<Rightarrow> b)"
  define es where "es = move_to_end k (take MAX_VARIANTS_PER_KEY (x # remove_first (\<lambda>y. same_variant y x) b)) (entries c)"
  have "b = [] \<or> bucket_ok b"
    using assms(1) by (auto simp: b_def cache_ok_def dest!: map_of_SomeD split: option.split)
  then have "\<forall>kv \<in> set es. bucket_ok (snd kv)"
    using assms replace_bucket_ok by (auto simp: es_def move_to_end_def cache_ok_def)
  moreover have "distinct (map fst es)"
    using assms(1) by (simp add: es_def cache_ok_def distinct_move_to_end)
  moreover have "entries (cache_put k x c) = drop (length es - max_entries c) es"
    by (simp add: cache_put_entries es_def b_def Let_def)
  ultimately show ?thesis
    using assms(1) by (auto simp: cache_ok_def drop_map [symmetric] dest: in_set_dropD)
qed

fun event_wf :: "('k, 'p) cache_event \<Rightarrow> bool" where
  "event_wf (Put k x) = cached_wf x"
| "event_wf _ = True"

lemma cache_step_ok: "cache_ok c \<Longrightarrow> event_wf ev \<Longrightarrow> cache_ok (cache_step ev c)"
  by (cases ev) (auto simp: cache_begin_ok cache_hit_ok cache_put_ok,
      auto simp: cache_ok_def cache_miss_def cache_clear_def)

lemma cache_run_ok: "cache_ok c \<Longrightarrow> list_all event_wf evs \<Longrightarrow> cache_ok (cache_run evs c)"
  unfolding cache_run_def by (induction evs arbitrary: c) (auto intro: cache_step_ok)

lemma make_cache_ok: "make_cache m = Inr c \<Longrightarrow> cache_ok c \<and> entries c = [] \<and> int (max_entries c) = m"
  by (auto simp: make_cache_def cache_ok_def split: if_splits)

section \<open>Recency\<close>

text \<open>The last occurrence of each key of a list of uses, the oldest first.\<close>

lemma remdups_snoc: "remdups (us @ [k]) = filter (\<lambda>k'. k' \<noteq> k) (remdups us) @ [k]"
  by (induction us) auto

definition recent :: "nat \<Rightarrow> 'k list \<Rightarrow> 'k list" where
  "recent m us = drop (length (remdups us) - m) (remdups us)"

lemma length_filter_out:
  "distinct xs \<Longrightarrow> length (filter (\<lambda>x. x \<noteq> k) xs) = (if k \<in> set xs then length xs - 1 else length xs)"
proof (induction xs)
  case (Cons x xs)
  show ?case
  proof (cases "x = k")
    case True
    with Cons.prems have "filter (\<lambda>x. x \<noteq> k) xs = xs" by (auto simp: filter_id_conv)
    with True show ?thesis by simp
  next
    case False
    with Cons length_pos_if_in_set [of k xs] show ?thesis by auto
  qed
qed simp

lemma filter_drop_out:
  assumes "distinct xs" and "k \<in> set (drop n xs)"
  shows "filter (\<lambda>x. x \<noteq> k) (drop n xs) = drop n (filter (\<lambda>x. x \<noteq> k) xs)"
proof -
  have "xs = take n xs @ drop n xs" by simp
  with assms have k: "k \<notin> set (take n xs)" by (metis IntI distinct_append empty_iff)
  then have "filter (\<lambda>x. x \<noteq> k) (take n xs) = take n xs" by (auto simp: filter_id_conv)
  then have f: "filter (\<lambda>x. x \<noteq> k) xs = take n xs @ filter (\<lambda>x. x \<noteq> k) (drop n xs)"
    by (metis append_take_drop_id filter_append)
  show ?thesis
  proof (cases "n \<le> length xs")
    case True
    then show ?thesis by (subst f) simp
  qed (use assms in simp)
qed

lemma recent_use_present:
  assumes "k \<in> set (recent m us)"
  shows "recent m (us @ [k]) = filter (\<lambda>k'. k' \<noteq> k) (recent m us) @ [k]"
proof -
  let ?r = "remdups us"
  have k: "k \<in> set ?r" using assms by (auto simp: recent_def dest: in_set_dropD)
  then have "length (remdups (us @ [k])) = length ?r"
    using length_filter_out [of ?r k] length_pos_if_in_set [OF k] by (simp add: remdups_snoc del: set_remdups)
  moreover have "filter (\<lambda>k'. k' \<noteq> k) (drop (length ?r - m) ?r)
      = drop (length ?r - m) (filter (\<lambda>k'. k' \<noteq> k) ?r)"
    using assms by (intro filter_drop_out) (simp_all add: recent_def)
  moreover have "length ?r - m \<le> length (filter (\<lambda>k'. k' \<noteq> k) ?r)"
    using assms k length_filter_out [of ?r k] by (cases m) (auto simp: recent_def simp del: set_remdups)
  ultimately show ?thesis by (simp add: recent_def remdups_snoc)
qed

lemma drop_filter_absent:
  assumes "distinct xs" and "k \<notin> set (drop n xs)"
  shows "drop (length (filter (\<lambda>x. x \<noteq> k) xs) - (length xs - n)) (filter (\<lambda>x. x \<noteq> k) xs) = drop n xs"
proof -
  have "filter (\<lambda>x. x \<noteq> k) (drop n xs) = drop n xs"
    using assms(2) by (intro filter_True) auto
  then have f: "filter (\<lambda>x. x \<noteq> k) xs = filter (\<lambda>x. x \<noteq> k) (take n xs) @ drop n xs"
    by (metis append_take_drop_id filter_append)
  show ?thesis by (simp add: f)
qed

lemma recent_use_absent:
  assumes "k \<notin> set (recent m us)" and "1 \<le> m"
  shows "recent m (us @ [k]) = drop (length (recent m us) + 1 - m) (recent m us @ [k])"
proof -
  let ?r = "remdups us" and ?f = "filter (\<lambda>k'. k' \<noteq> k) (remdups us)"
  have d: "drop (length ?f - (length ?r - (length ?r - m))) ?f = drop (length ?r - m) ?r"
    using assms(1) by (intro drop_filter_absent) (simp_all add: recent_def)
  show ?thesis
  proof (cases "m \<le> length ?r")
    case True
    then have l: "length (recent m us) = m" by (simp add: recent_def)
    have fl: "m \<le> length ?f"
    proof (cases "k \<in> set ?r")
      case True
      with assms(1) have "length ?r \<noteq> m" by (auto simp: recent_def)
      with \<open>m \<le> length ?r\<close> length_filter_out [of ?r k] show ?thesis by (simp split: if_splits)
    qed (use \<open>m \<le> length ?r\<close> length_filter_out [of ?r k] in simp)
    have "recent m (us @ [k]) = drop (length ?f + 1 - m) ?f @ [k]"
      using fl assms(2) by (simp add: recent_def remdups_snoc)
    also have "drop (length ?f + 1 - m) ?f = drop 1 (drop (length ?f - m) ?f)"
      using fl by (simp add: Suc_diff_le)
    also have "\<dots> = drop 1 (recent m us)" using d True by (simp add: recent_def)
    finally show ?thesis using l assms(2) by simp
  next
    case False
    then have "recent m us = ?r" by (simp add: recent_def)
    with assms(1) have "?f = ?r" by (auto simp: filter_id_conv)
    with False \<open>recent m us = ?r\<close> show ?thesis by (simp add: recent_def remdups_snoc)
  qed
qed

lemma length_recent: "length (recent m us) \<le> m"
  by (simp add: recent_def)

lemma put_keys:
  "map fst (entries (cache_put k x c)) =
     (let ks = filter (\<lambda>k'. k' \<noteq> k) (map fst (entries c)) @ [k] in drop (length ks - max_entries c) ks)"
proof -
  define es where "es = move_to_end k (take MAX_VARIANTS_PER_KEY (x # remove_first (\<lambda>y. same_variant y x)
    (case map_of (entries c) k of None \<Rightarrow> [] | Some b \<Rightarrow> b))) (entries c)"
  have "entries (cache_put k x c) = drop (length es - max_entries c) es"
    by (simp add: cache_put_entries es_def Let_def)
  moreover have "map fst es = filter (\<lambda>k'. k' \<noteq> k) (map fst (entries c)) @ [k]"
    by (simp add: es_def keys_move_to_end)
  moreover from this have "length es = length (filter (\<lambda>k'. k' \<noteq> k) (map fst (entries c)) @ [k])"
    by (metis length_map)
  ultimately show ?thesis by (simp add: drop_map [symmetric])
qed

lemma put_recent:
  assumes "map fst (entries c) = recent (max_entries c) us" and "1 \<le> max_entries c"
  shows "map fst (entries (cache_put k x c)) = recent (max_entries c) (us @ [k])"
proof (cases "k \<in> set (recent (max_entries c) us)")
  case True
  then have "length (filter (\<lambda>k'. k' \<noteq> k) (recent (max_entries c) us)) < length (recent (max_entries c) us)"
    by (intro length_filter_less [of k]) auto
  then have "length (filter (\<lambda>k'. k' \<noteq> k) (recent (max_entries c) us)) < max_entries c"
    using length_recent [of "max_entries c" us] by linarith
  with assms True show ?thesis by (simp add: put_keys recent_use_present Let_def)
next
  case False
  then have "filter (\<lambda>k'. k' \<noteq> k) (recent (max_entries c) us) = recent (max_entries c) us"
    by (intro filter_True) auto
  with assms False show ?thesis by (simp add: put_keys recent_use_absent Let_def)
qed

lemma begin_keys:
  "map fst (entries (snd (cache_begin k c))) =
     (if map_of (entries c) k = None then map fst (entries c)
      else filter (\<lambda>k'. k' \<noteq> k) (map fst (entries c)) @ [k])"
  by (simp add: cache_begin_def keys_move_to_end split: option.split)

lemma cache_step_max [simp]: "max_entries (cache_step ev c) = max_entries c"
  by (cases ev) (simp_all add: cache_begin_def cache_hit_def cache_miss_def cache_clear_def split: option.split)

lemma cache_run_recent:
  assumes "map fst (entries c) = recent (max_entries c) us" and "1 \<le> max_entries c"
  shows "map fst (entries (cache_run evs c)) = recent (max_entries c) (keys_used evs c us)"
  using assms
proof (induction evs arbitrary: c us)
  case (Cons ev evs)
  let ?us = "case ev of Begin k \<Rightarrow> if map_of (entries c) k = None then us else us @ [k]
    | Put k x \<Rightarrow> us @ [k] | Clear \<Rightarrow> [] | _ \<Rightarrow> us"
  have "map fst (entries (cache_step ev c)) = recent (max_entries c) ?us"
  proof (cases ev)
    case (Begin k)
    show ?thesis
    proof (cases "map_of (entries c) k")
      case (Some b)
      then have "k \<in> set (recent (max_entries c) us)"
        using Cons.prems(1) map_of_SomeD [OF Some] by (metis fst_conv image_eqI set_map)
      with Some Begin Cons.prems(1) show ?thesis by (simp add: begin_keys recent_use_present)
    qed (use Begin Cons.prems(1) in \<open>simp add: begin_keys\<close>)
  next
    case (Put k x)
    with Cons.prems show ?thesis by (simp add: put_recent)
  qed (use Cons.prems in \<open>simp_all add: cache_miss_def cache_clear_def recent_def\<close>)
  with Cons.IH [of "cache_step ev c" ?us] Cons.prems(2) show ?case by (simp add: cache_run_def)
qed (simp add: cache_run_def)

section \<open>A read after a store\<close>

lemma cache_put_lookup:
  assumes "cache_ok c"
  obtains b where "map_of (entries (cache_put k x c)) k = Some (x # b)"
proof -
  define es where "es = move_to_end k (take MAX_VARIANTS_PER_KEY (x # remove_first (\<lambda>y. same_variant y x)
    (case map_of (entries c) k of None \<Rightarrow> [] | Some b \<Rightarrow> b))) (entries c)"
  let ?f = "filter (\<lambda>kv. fst kv \<noteq> k) (entries c)"
  obtain b where b: "es = ?f @ [(k, x # b)]" by (simp add: es_def move_to_end_def MAX_VARIANTS_PER_KEY_def)
  have "entries (cache_put k x c) = drop (length es - max_entries c) es"
    by (simp add: cache_put_entries es_def Let_def)
  also have "\<dots> = drop (length es - max_entries c) ?f @ [(k, x # b)]"
    using assms b by (simp add: cache_ok_def)
  moreover have "map_of (drop n ?f) k = None" for n
    by (auto simp: map_of_eq_None_iff dest: in_set_dropD)
  ultimately show thesis using that [of b] by (simp add: map_add_def)
qed

lemma cache_get_put:
  assumes "cache_ok c" and "validate x = Inr True"
  shows "fst (cache_get k validate (cache_put k x c)) = Inr (Some x)"
proof -
  obtain b where "map_of (entries (cache_put k x c)) k = Some (x # b)"
    by (rule cache_put_lookup [OF assms(1)])
  with assms(2) show ?thesis by (simp add: cache_get_def cache_begin_def)
qed

lemma choose_validates:
  "choose_candidate validate b = Inr (Some x) \<Longrightarrow> x \<in> set b \<and> validate x = Inr True"
  by (induction b) (auto simp: bind_res_Inr_iff split: if_splits)

lemma choose_first:
  "choose_candidate validate (us @ x # vs) = Inr (Some x)"
  if "\<forall>u \<in> set us. validate u = Inr False" and "validate x = Inr True"
  using that by (induction us) auto

end
