(* ===== verification/Plan_Serving.thy ===== *)
theory Plan_Serving
  imports Cache_Laws
begin

text \<open>
  The lookup and store protocol of \<open>plan_operation\<close> around the plan cache
  (\<open>lookup_cached_plan\<close>, \<open>store_cached_plan\<close> in \<open>src/src/grafast_py/plan.py\<close>), for any number of
  requests whose critical sections interleave.

  The planner proper is the parameter \<open>build\<close>: what it does with the request is a tree of reads
  (\<open>Constraints.resolver\<close>), chosen by the document, the planning mode and the values of the
  directive variables, which \<open>graphql-core\<close> resolves while it collects the fields.
\<close>

section \<open>Requests\<close>

record request =
  rq_schema :: nat
  rq_operation :: operation
  rq_fragments :: fragments
  rq_config :: config
  rq_incremental :: bool
  rq_facts :: facts
  rq_customizers :: customizers

text \<open>What the planner reads of a request besides the reads it records: the schema, the document,
  the plan-affecting configuration, the mode and the variable values.\<close>

record planning_input =
  in_schema :: nat
  in_operation :: operation
  in_fragment :: "string \<Rightarrow> selection list option"
  in_config :: fingerprint
  in_incremental :: bool
  in_directive_values :: "string \<Rightarrow> pyval option"

definition planning_input_of :: "request \<Rightarrow> planning_input" where
  "planning_input_of r =
     \<lparr>in_schema = rq_schema r, in_operation = rq_operation r, in_fragment = map_of (rq_fragments r),
      in_config = config_fingerprint (Some (rq_config r)), in_incremental = rq_incremental r,
      in_directive_values = map_of (variable_values (rq_facts r))\<rparr>"

text \<open>The plan object and the two facts about it the protocol reads: whether it may be cached, and
  the customizer-bearing steps that survive optimization, with their predicate keys.\<close>

record 'p plan_out =
  po_plan :: 'p
  po_cacheable :: bool
  po_survivors :: "(nat \<times> string list) list"

record 'p planner =
  build :: "planning_input \<Rightarrow> 'p plan_out resolver"
  printer_of :: printer
  schema_address :: "nat \<Rightarrow> nat"

definition request_key :: "'p planner \<Rightarrow> request \<Rightarrow> cache_key" where
  "request_key P r =
     compute_cache_key (printer_of P) (schema_address P (rq_schema r)) (rq_operation r)
       (rq_fragments r) (Some (rq_config r)) (rq_incremental r)"

definition plan_run :: "'p planner \<Rightarrow> request \<Rightarrow> 'p plan_out res \<times> request_constraint list" where
  "plan_run P r =
     run_resolver (build P (planning_input_of r)) (rq_customizers r) (rq_facts r) []"

text \<open>The plan a request gets when it plans for itself.\<close>

definition fresh_plan :: "'p planner \<Rightarrow> request \<Rightarrow> 'p res" where
  "fresh_plan P r = bind_res (fst (plan_run P r)) (\<lambda>p. Inr (po_plan p))"

section \<open>Lookup and store\<close>

definition validate_candidate :: "request \<Rightarrow> 'p cached \<Rightarrow> bool res" where
  "validate_candidate r x =
     (if c_schema x \<noteq> rq_schema r then Inr False
      else bind_res
        (constraints_match (rq_customizers r) (map (\<lambda>(n, ks). CustomizerC n ks) (c_survivors x)) (rq_facts r))
        (\<lambda>ok. if ok then constraints_match (rq_customizers r) (c_constraints x) (rq_facts r)
              else Inr False))"

fun is_customizer :: "request_constraint \<Rightarrow> bool" where
  "is_customizer (CustomizerC n ks) = True"
| "is_customizer _ = False"

text \<open>The full constraint set of a fresh plan: the directive variables, the recorded reads, then the
  customizers.\<close>

definition all_constraints :: "request \<Rightarrow> request_constraint list \<Rightarrow> request_constraint list" where
  "all_constraints r recorded =
     directive_variable_constraints (op_selections (rq_operation r)) (rq_fragments r)
       (variable_values (rq_facts r))
     @ filter (\<lambda>c. \<not> is_customizer c) recorded @ filter is_customizer recorded"

definition candidate_of ::
  "request \<Rightarrow> 'p plan_out \<Rightarrow> request_constraint list \<Rightarrow> nat \<Rightarrow> 'p cached" where
  "candidate_of r p recorded ident =
     \<lparr>c_ident = ident, c_schema = rq_schema r, c_plan = po_plan p, c_survivors = po_survivors p,
      c_constraints = all_constraints r recorded\<rparr>"

section \<open>Interleaved requests\<close>

text \<open>What one request has done so far: it has its key (\<open>Waiting\<close>), a snapshot of its bucket
  (\<open>Validating\<close>), no candidate (\<open>Planning\<close>), or its answer.\<close>

datatype 'p phase =
    Waiting
  | Validating "'p cached list"
  | Planning
  | Answered "'p res"

record 'p server =
  sv_cache :: "(cache_key, 'p) plan_cache"
  sv_phase :: "nat \<Rightarrow> 'p phase"

text \<open>The steps of request \<open>i\<close>.\<close>

inductive request_step ::
  "'p planner \<Rightarrow> (nat \<Rightarrow> request) \<Rightarrow> nat \<Rightarrow> 'p server \<Rightarrow> 'p server \<Rightarrow> bool" for P reqs where
  begin_absent: "sv_phase s i = Waiting \<Longrightarrow>
    cache_begin (request_key P (reqs i)) (sv_cache s) = (None, c) \<Longrightarrow>
    request_step P reqs i s \<lparr>sv_cache = c, sv_phase = (sv_phase s)(i := Planning)\<rparr>"
| begin_present: "sv_phase s i = Waiting \<Longrightarrow>
    cache_begin (request_key P (reqs i)) (sv_cache s) = (Some snapshot, c) \<Longrightarrow>
    request_step P reqs i s \<lparr>sv_cache = c, sv_phase = (sv_phase s)(i := Validating snapshot)\<rparr>"
| hit: "sv_phase s i = Validating snapshot \<Longrightarrow>
    choose_candidate (validate_candidate (reqs i)) snapshot = Inr (Some x) \<Longrightarrow>
    request_step P reqs i s \<lparr>sv_cache = cache_hit (request_key P (reqs i)) x (sv_cache s),
                    sv_phase = (sv_phase s)(i := Answered (Inr (c_plan x)))\<rparr>"
| no_candidate: "sv_phase s i = Validating snapshot \<Longrightarrow>
    choose_candidate (validate_candidate (reqs i)) snapshot = Inr None \<Longrightarrow>
    request_step P reqs i s \<lparr>sv_cache = cache_miss (sv_cache s), sv_phase = (sv_phase s)(i := Planning)\<rparr>"
| validate_raises: "sv_phase s i = Validating snapshot \<Longrightarrow>
    choose_candidate (validate_candidate (reqs i)) snapshot = Inl e \<Longrightarrow>
    request_step P reqs i s (s\<lparr>sv_phase := (sv_phase s)(i := Answered (Inl e))\<rparr>)"
| plan_raises: "sv_phase s i = Planning \<Longrightarrow> plan_run P (reqs i) = (Inl e, recorded) \<Longrightarrow>
    request_step P reqs i s (s\<lparr>sv_phase := (sv_phase s)(i := Answered (Inl e))\<rparr>)"
| plan_keeps: "sv_phase s i = Planning \<Longrightarrow> plan_run P (reqs i) = (Inr p, recorded) \<Longrightarrow>
    \<not> po_cacheable p \<Longrightarrow>
    request_step P reqs i s (s\<lparr>sv_phase := (sv_phase s)(i := Answered (Inr (po_plan p)))\<rparr>)"
| plan_stores: "sv_phase s i = Planning \<Longrightarrow> plan_run P (reqs i) = (Inr p, recorded) \<Longrightarrow>
    po_cacheable p \<Longrightarrow>
    request_step P reqs i s \<lparr>sv_cache = cache_put (request_key P (reqs i))
                                  (candidate_of (reqs i) p recorded ident) (sv_cache s),
                    sv_phase = (sv_phase s)(i := Answered (Inr (po_plan p)))\<rparr>"

text \<open>A server takes a step of any request, or its cache is cleared.\<close>

inductive serve ::
  "'p planner \<Rightarrow> (nat \<Rightarrow> request) \<Rightarrow> 'p server \<Rightarrow> 'p server \<Rightarrow> bool" for P reqs where
  request: "request_step P reqs i s s' \<Longrightarrow> serve P reqs s s'"
| clear: "serve P reqs s (s\<lparr>sv_cache := cache_clear (sv_cache s)\<rparr>)"

inductive reachable :: "'p planner \<Rightarrow> (nat \<Rightarrow> request) \<Rightarrow> nat \<Rightarrow> 'p server \<Rightarrow> bool" for P reqs m where
  start: "make_cache (int m) = Inr c \<Longrightarrow>
    reachable P reqs m \<lparr>sv_cache = c, sv_phase = \<lambda>_. Waiting\<rparr>"
| step: "reachable P reqs m s \<Longrightarrow> serve P reqs s s' \<Longrightarrow> reachable P reqs m s'"

text \<open>A run with the requests that take its steps; \<open>None\<close> is a clear.\<close>

inductive serving ::
  "'p planner \<Rightarrow> (nat \<Rightarrow> request) \<Rightarrow> 'p server \<Rightarrow> nat option list \<Rightarrow> 'p server \<Rightarrow> bool" for P reqs where
  idle: "serving P reqs s [] s"
| request: "request_step P reqs i s s' \<Longrightarrow> serving P reqs s' tr t \<Longrightarrow> serving P reqs s (Some i # tr) t"
| clear: "serving P reqs (s\<lparr>sv_cache := cache_clear (sv_cache s)\<rparr>) tr t \<Longrightarrow> serving P reqs s (None # tr) t"

inductive_cases request_stepE: "request_step P reqs i s s'"
inductive_cases serveE: "serve P reqs s s'"

end
