(* ===== verification/Serving_Laws.thy ===== *)
theory Serving_Laws
  imports Plan_Serving
begin

text \<open>
  What the protocol needs of the cache, as an interface; and that a request is only ever served the
  plan it would have built for itself, under every interleaving.
\<close>

section \<open>The interface of a plan store\<close>

text \<open>
  A store of candidates by key. No operation makes up a candidate: what a key holds afterwards it
  held before, or it has just been put there.
\<close>

locale plan_store =
  fixes held :: "'s \<Rightarrow> 'k \<Rightarrow> 'x set"
    and snapshot :: "'k \<Rightarrow> 's \<Rightarrow> 'x list option \<times> 's"
    and store_put :: "'k \<Rightarrow> 'x \<Rightarrow> 's \<Rightarrow> 's"
    and touch :: "'k \<Rightarrow> 'x \<Rightarrow> 's \<Rightarrow> 's"
    and count_miss :: "'s \<Rightarrow> 's"
    and empty_out :: "'s \<Rightarrow> 's"
  assumes snapshot_held: "fst (snapshot k s) = Some xs \<Longrightarrow> set xs \<subseteq> held s k"
    and held_snapshot: "held (snd (snapshot k s)) k' \<subseteq> held s k'"
    and held_put: "held (store_put k x s) k' \<subseteq> held s k' \<union> (if k' = k then {x} else {})"
    and held_touch: "held (touch k x s) k' \<subseteq> held s k'"
    and held_miss: "held (count_miss s) k' \<subseteq> held s k'"
    and held_empty: "held (empty_out s) k' \<subseteq> held s k'"
begin

definition all_held :: "('k \<Rightarrow> 'x \<Rightarrow> bool) \<Rightarrow> 's \<Rightarrow> bool" where
  "all_held G s \<longleftrightarrow> (\<forall>k. \<forall>x \<in> held s k. G k x)"

lemma snapshot_good: "all_held G s \<Longrightarrow> snapshot k s = (Some xs, s') \<Longrightarrow> x \<in> set xs \<Longrightarrow> G k x"
  using snapshot_held [of k s xs] unfolding all_held_def by auto

lemma all_held_snapshot: "all_held G s \<Longrightarrow> snapshot k s = (r, s') \<Longrightarrow> all_held G s'"
  using held_snapshot [of k s] unfolding all_held_def by (metis snd_conv subsetD)

lemma all_held_put: "all_held G s \<Longrightarrow> G k x \<Longrightarrow> all_held G (store_put k x s)"
  using held_put [of k x s] unfolding all_held_def by (fastforce split: if_splits)

lemma all_held_keep:
  assumes "all_held G s"
  shows "all_held G (touch k x s)" "all_held G (count_miss s)" "all_held G (empty_out s)"
  using assms held_touch [of k x s] held_miss [of s] held_empty [of s]
  unfolding all_held_def subset_iff by simp_all

end

definition bucket_of :: "('k, 'p) plan_cache \<Rightarrow> 'k \<Rightarrow> 'p cached set" where
  "bucket_of c k = {x. \<exists>b. (k, b) \<in> set (entries c) \<and> x \<in> set b}"

lemma set_hoist_bucket: "set (hoist_bucket x b) \<subseteq> set b"
proof (cases "find (\<lambda>y. c_ident y = c_ident x) b")
  case (Some y)
  then have "y \<in> set b" by (auto simp: find_Some_iff)
  with Some set_remove_first [of _ b] show ?thesis by (auto simp: hoist_bucket_def)
qed (simp add: hoist_bucket_def)

lemma bucket_of_hit: "bucket_of (cache_hit k x c) k' \<subseteq> bucket_of c k'"
  using set_hoist_bucket [of x] by (force simp: bucket_of_def cache_hit_def split: if_splits)

lemma bucket_of_put: "bucket_of (cache_put k x c) k' \<subseteq> bucket_of c k' \<union> (if k' = k then {x} else {})"
proof
  fix y assume "y \<in> bucket_of (cache_put k x c) k'"
  then obtain b where b: "(k', b) \<in> set (entries (cache_put k x c))" "y \<in> set b"
    by (auto simp: bucket_of_def)
  define b0 where "b0 = (case map_of (entries c) k of None \<Rightarrow> [] | Some b \<Rightarrow> b)"
  from b(1) have "(k', b) \<in> set (entries c)
      \<or> k' = k \<and> b = take MAX_VARIANTS_PER_KEY (x # remove_first (\<lambda>y. same_variant y x) b0)"
    by (auto simp: cache_put_entries b0_def Let_def move_to_end_def simp del: take_Suc_Cons dest!: in_set_dropD)
  moreover have "set b0 \<subseteq> bucket_of c k"
    by (cases "map_of (entries c) k") (auto simp: b0_def bucket_of_def dest: map_of_SomeD)
  ultimately show "y \<in> bucket_of c k' \<union> (if k' = k then {x} else {})"
    using b(2) set_remove_first [of "\<lambda>y. same_variant y x" b0]
    by (auto simp: bucket_of_def dest!: in_set_takeD)
qed

interpretation cache_store: plan_store bucket_of cache_begin cache_put cache_hit cache_miss cache_clear
proof
  show "bucket_of (cache_put k x s) k' \<subseteq> bucket_of s k' \<union> (if k' = k then {x} else {})"
    for k k' :: 'a and x :: "'b cached" and s by (rule bucket_of_put)
  show "bucket_of (cache_hit k x s) k' \<subseteq> bucket_of s k'" for k k' :: 'a and x :: "'b cached" and s
    by (rule bucket_of_hit)
qed (auto simp: bucket_of_def cache_begin_def cache_miss_def cache_clear_def move_to_end_def
    dest: map_of_SomeD split: option.splits)

section \<open>Recorded constraints raise only through customizers\<close>

lemma do_read_raises:
  assumes "c \<in> set (snd (do_read cu r f []))" and "c_matches cust c g = Inl e"
  shows "\<exists>n. cust n = Inl e"
  using assms by (cases r) (auto simp: read_defs bind_res_def split: sum.splits option.splits)

lemma run_resolver_raises:
  assumes "run_resolver s cu f [] = (Inr p, cs)" and "c \<in> set cs" and "c_matches cust c g = Inl e"
  shows "\<exists>n. cust n = Inl e"
  using assms(1,2)
proof (induction s arbitrary: cs)
  case (Read r k)
  obtain a c1 c2 where "do_read cu r f [] = (Inr a, c1)" and "cs = c1 @ c2"
    and "run_resolver (k a) cu f [] = (Inr p, c2)"
    by (rule run_resolver_ReadE [OF Read.prems(1)])
  with Read.IH [of "k a" c2] Read.prems(2) do_read_raises [of c cu r f cust g e] assms(3)
  show ?case by auto
qed simp

lemma constraints_match_Inl:
  "constraints_match cust cs g = Inl e \<Longrightarrow> \<exists>c \<in> set cs. c_matches cust c g = Inl e"
  by (induction cs) (auto simp: bind_res_def split: sum.splits if_splits)

lemma choose_Inl: "choose_candidate validate b = Inl e \<Longrightarrow> \<exists>x \<in> set b. validate x = Inl e"
  by (induction b) (auto simp: bind_res_def split: sum.splits if_splits)

section \<open>A validated candidate is the request's own plan\<close>

definition uses_directive :: "planning_input \<Rightarrow> string \<Rightarrow> bool" where
  "uses_directive inp x \<longleftrightarrow>
     (\<exists>frags fs. map_of frags = in_fragment inp
        \<and> directive_use frags fs (op_selections (in_operation inp)) x)"

text \<open>
  What is relied on: the printed text's hash tells the documents of the requests apart; the planner
  sees the variables, outside the reads it records, through the plan-time directives only; and its
  reads answer for everything it does.
\<close>

definition planner_ok :: "'p planner \<Rightarrow> (nat \<Rightarrow> request) \<Rightarrow> bool" where
  "planner_ok P reqs \<longleftrightarrow>
     (\<forall>i j. text_hash (printer_of P) (document_text (printer_of P) (rq_operation (reqs i)) (rq_fragments (reqs i)))
          = text_hash (printer_of P) (document_text (printer_of P) (rq_operation (reqs j)) (rq_fragments (reqs j)))
        \<longrightarrow> rq_operation (reqs i) = rq_operation (reqs j)
          \<and> map_of (rq_fragments (reqs i)) = map_of (rq_fragments (reqs j)))
   \<and> (\<forall>inp. respectful (build P inp))
   \<and> (\<forall>inp v. (\<forall>x. uses_directive inp x \<longrightarrow> values_equal (v x) (in_directive_values inp x))
        \<longrightarrow> build P (inp\<lparr>in_directive_values := v\<rparr>) = build P inp)"

definition built_for :: "'p planner \<Rightarrow> (nat \<Rightarrow> request) \<Rightarrow> cache_key \<Rightarrow> 'p cached \<Rightarrow> bool" where
  "built_for P reqs k x \<longleftrightarrow>
     (\<exists>j p recorded ident. k = request_key P (reqs j) \<and> plan_run P (reqs j) = (Inr p, recorded)
        \<and> x = candidate_of (reqs j) p recorded ident)"

lemma set_all_constraints:
  "set (all_constraints r recorded) =
     set (directive_variable_constraints (op_selections (rq_operation r)) (rq_fragments r)
            (variable_values (rq_facts r))) \<union> set recorded"
  by (auto simp: all_constraints_def)

lemma validate_candidate_Inr:
  "validate_candidate r x = Inr True \<Longrightarrow>
     c_schema x = rq_schema r
     \<and> (\<forall>c \<in> set (c_constraints x). c_matches (rq_customizers r) c (rq_facts r) = Inr True)"
  by (auto simp: validate_candidate_def bind_res_def constraints_match_iff split: if_splits sum.splits)

lemma validated_plan:
  assumes P: "planner_ok P reqs" and x: "built_for P reqs (request_key P (reqs i)) x"
    and v: "validate_candidate (reqs i) x = Inr True"
  shows "fresh_plan P (reqs i) = Inr (c_plan x)"
proof -
  let ?i = "reqs i"
  obtain j p recorded ident where key: "request_key P ?i = request_key P (reqs j)"
    and run: "plan_run P (reqs j) = (Inr p, recorded)"
    and cand: "x = candidate_of (reqs j) p recorded ident"
    using x unfolding built_for_def by blast
  let ?j = "reqs j"
  have schema: "rq_schema ?i = rq_schema ?j"
    and accept: "\<forall>c \<in> set (all_constraints ?j recorded). c_matches (rq_customizers ?i) c (rq_facts ?i) = Inr True"
    using validate_candidate_Inr [OF v] cand by (simp_all add: candidate_of_def)
  from key have "text_hash (printer_of P) (document_text (printer_of P) (rq_operation ?i) (rq_fragments ?i))
      = text_hash (printer_of P) (document_text (printer_of P) (rq_operation ?j) (rq_fragments ?j))"
    by (simp add: request_key_def compute_cache_key_def)
  with P have doc: "rq_operation ?i = rq_operation ?j" "map_of (rq_fragments ?i) = map_of (rq_fragments ?j)"
    unfolding planner_ok_def by blast+
  have "values_equal (map_of (variable_values (rq_facts ?i)) x) (in_directive_values (planning_input_of ?j) x)"
    if "uses_directive (planning_input_of ?j) x" for x
  proof -
    from that obtain frags fs where frags: "map_of frags = map_of (rq_fragments ?j)"
      and use: "directive_use frags fs (op_selections (rq_operation ?j)) x"
      by (auto simp: uses_directive_def planning_input_of_def)
    have "directive_variable_constraints (op_selections (rq_operation ?j)) (rq_fragments ?j)
        (variable_values (rq_facts ?j))
      = directive_variable_constraints (op_selections (rq_operation ?j)) frags (variable_values (rq_facts ?j))"
      by (simp add: directive_variable_constraints_def scan_cong [OF frags])
    with accept have "\<forall>c \<in> set (directive_variable_constraints (op_selections (rq_operation ?j)) frags
        (variable_values (rq_facts ?j))). c_matches (rq_customizers ?i) c (rq_facts ?i) = Inr True"
      by (simp add: set_all_constraints)
    from directive_constraints_accept [OF this use] show ?thesis by (simp add: planning_input_of_def)
  qed
  moreover have "planning_input_of ?i
      = (planning_input_of ?j)\<lparr>in_directive_values := map_of (variable_values (rq_facts ?i))\<rparr>"
    using key schema doc by (simp add: planning_input_of_def request_key_def compute_cache_key_def)
  ultimately have same: "build P (planning_input_of ?i) = build P (planning_input_of ?j)"
    using P unfolding planner_ok_def by metis
  have "fst (run_resolver (build P (planning_input_of ?j)) (rq_customizers ?i) (rq_facts ?i) []) = Inr p"
  proof (rule resolver_replay)
    show "run_resolver (build P (planning_input_of ?j)) (rq_customizers ?j) (rq_facts ?j) [] = (Inr p, recorded)"
      using run by (simp add: plan_run_def)
    show "respectful (build P (planning_input_of ?j))" using P by (simp add: planner_ok_def)
    show "\<forall>c \<in> set recorded. c_matches (rq_customizers ?i) c (rq_facts ?i) = Inr True"
      using accept by (simp add: set_all_constraints)
  qed
  then show ?thesis using cand same by (simp add: fresh_plan_def plan_run_def candidate_of_def)
qed

lemma validation_raises:
  assumes x: "built_for P reqs k x" and v: "validate_candidate r x = Inl e"
  shows "\<exists>n. rq_customizers r n = Inl e"
proof -
  obtain j p recorded ident where run: "plan_run P (reqs j) = (Inr p, recorded)"
    and cand: "x = candidate_of (reqs j) p recorded ident"
    using x unfolding built_for_def by blast
  let ?cs = "map (\<lambda>(n, ks). CustomizerC n ks) (c_survivors x)"
  have "constraints_match (rq_customizers r) ?cs (rq_facts r) = Inl e
      \<or> constraints_match (rq_customizers r) (all_constraints (reqs j) recorded) (rq_facts r) = Inl e"
    using v cand by (auto simp: validate_candidate_def candidate_of_def bind_res_def split: if_splits sum.splits)
  then consider c where "c \<in> set ?cs" "c_matches (rq_customizers r) c (rq_facts r) = Inl e"
    | c where "c \<in> set (all_constraints (reqs j) recorded)" "c_matches (rq_customizers r) c (rq_facts r) = Inl e"
    using constraints_match_Inl by metis
  then show ?thesis
  proof cases
    case 2
    then show ?thesis
      using run_resolver_raises [OF run [unfolded plan_run_def]]
      by (auto simp: set_all_constraints directive_constraints_vars)
  qed (auto simp: bind_res_def split: sum.splits)
qed

section \<open>Every reachable state\<close>

definition answer_ok :: "'p planner \<Rightarrow> request \<Rightarrow> 'p res \<Rightarrow> bool" where
  "answer_ok P r a \<longleftrightarrow>
     (case a of
        Inr p \<Rightarrow> fresh_plan P r = Inr p
      | Inl e \<Rightarrow> fresh_plan P r = Inl e \<or> (\<exists>n. rq_customizers r n = Inl e))"

fun phase_ok :: "'p planner \<Rightarrow> (nat \<Rightarrow> request) \<Rightarrow> nat \<Rightarrow> 'p phase \<Rightarrow> bool" where
  "phase_ok P reqs i (Validating xs) = (\<forall>x \<in> set xs. built_for P reqs (request_key P (reqs i)) x)"
| "phase_ok P reqs i (Answered a) = answer_ok P (reqs i) a"
| "phase_ok P reqs i ph = True"

definition server_ok :: "'p planner \<Rightarrow> (nat \<Rightarrow> request) \<Rightarrow> 'p server \<Rightarrow> bool" where
  "server_ok P reqs s \<longleftrightarrow>
     cache_store.all_held (built_for P reqs) (sv_cache s) \<and> (\<forall>i. phase_ok P reqs i (sv_phase s i))"

lemma server_ok_update:
  "cache_store.all_held (built_for P reqs) c \<Longrightarrow> \<forall>i. phase_ok P reqs i (sv_phase s i) \<Longrightarrow> phase_ok P reqs i ph \<Longrightarrow>
     server_ok P reqs \<lparr>sv_cache = c, sv_phase = (sv_phase s)(i := ph)\<rparr>"
  by (simp add: server_ok_def)

lemma fresh_plan_raises: "plan_run P r = (Inl e, recorded) \<Longrightarrow> fresh_plan P r = Inl e"
  and fresh_plan_returns: "plan_run P r = (Inr p, recorded) \<Longrightarrow> fresh_plan P r = Inr (po_plan p)"
  by (simp_all add: fresh_plan_def)

lemma server_state_split: "s\<lparr>sv_phase := ph\<rparr> = \<lparr>sv_cache = sv_cache s, sv_phase = ph\<rparr>"
  by (cases s) simp

lemma act_ok:
  assumes P: "planner_ok P reqs" and ok: "server_ok P reqs s" and st: "request_step P reqs k s s'"
  shows "server_ok P reqs s'"
proof -
  note held = ok [unfolded server_ok_def, THEN conjunct1]
    and phases = ok [unfolded server_ok_def, THEN conjunct2]
  from st show ?thesis
  proof (cases rule: request_step.cases)
    case (begin_absent c)
    show ?thesis unfolding begin_absent(1)
      by (rule server_ok_update [OF cache_store.all_held_snapshot [OF held begin_absent(3)] phases]) simp
  next
    case (begin_present snapshot c)
    show ?thesis unfolding begin_present(1)
      by (rule server_ok_update [OF cache_store.all_held_snapshot [OF held begin_present(3)] phases])
        (use cache_store.snapshot_good [OF held begin_present(3)] in simp)
  next
    case (hit snapshot x)
    have "built_for P reqs (request_key P (reqs k)) x"
      using phases [rule_format, of k] hit(2) choose_validates [OF hit(3)] by simp
    with P choose_validates [OF hit(3)] have "fresh_plan P (reqs k) = Inr (c_plan x)"
      by (blast intro: validated_plan)
    then show ?thesis unfolding hit(1)
      by (intro server_ok_update phases cache_store.all_held_keep(1) [OF held]) (simp add: answer_ok_def)
  next
    case (no_candidate snapshot)
    show ?thesis unfolding no_candidate(1)
      by (intro server_ok_update phases cache_store.all_held_keep(2) [OF held]) simp
  next
    case (validate_raises snapshot e)
    then have "\<exists>n. rq_customizers (reqs k) n = Inl e"
      using phases [rule_format, of k] choose_Inl validation_raises by (metis phase_ok.simps(1))
    then show ?thesis unfolding validate_raises(1) server_state_split
      by (intro server_ok_update phases held) (simp add: answer_ok_def)
  next
    case (plan_raises e recorded)
    show ?thesis unfolding plan_raises(1) server_state_split
      by (intro server_ok_update phases held)
        (simp add: answer_ok_def fresh_plan_raises [OF plan_raises(3)])
  next
    case (plan_keeps p recorded)
    show ?thesis unfolding plan_keeps(1) server_state_split
      by (intro server_ok_update phases held)
        (simp add: answer_ok_def fresh_plan_returns [OF plan_keeps(3)])
  next
    case (plan_stores p recorded ident)
    have "built_for P reqs (request_key P (reqs k)) (candidate_of (reqs k) p recorded ident)"
      using plan_stores(3) unfolding built_for_def by blast
    then show ?thesis unfolding plan_stores(1)
      by (intro server_ok_update phases cache_store.all_held_put held)
        (simp_all add: answer_ok_def fresh_plan_returns [OF plan_stores(3)])
  qed
qed

lemma serve_ok:
  assumes "planner_ok P reqs" and "server_ok P reqs s" and "serve P reqs s s'"
  shows "server_ok P reqs s'"
  using assms(3)
proof cases
  case clear
  then show ?thesis using assms(2) cache_store.all_held_keep(3) by (auto simp: server_ok_def)
qed (rule act_ok [OF assms(1,2)])

lemma reachable_ok: "reachable P reqs m s \<Longrightarrow> planner_ok P reqs \<Longrightarrow> server_ok P reqs s"
proof (induction rule: reachable.induct)
  case (start c)
  then have "entries c = []" using make_cache_ok by blast
  then show ?case by (simp add: server_ok_def cache_store.all_held_def bucket_of_def)
qed (blast intro: serve_ok)

section \<open>Progress\<close>

fun phase_rank :: "'p phase \<Rightarrow> nat" where
  "phase_rank Waiting = 3"
| "phase_rank (Validating xs) = 2"
| "phase_rank Planning = 1"
| "phase_rank (Answered a) = 0"

lemma phase_rank_0: "phase_rank ph = 0 \<longleftrightarrow> (\<exists>a. ph = Answered a)"
  by (cases ph) auto

text \<open>A request that is not answered can take a step, whatever the cache holds.\<close>

lemma act_enabled:
  assumes "phase_rank (sv_phase s i) \<noteq> 0"
  shows "\<exists>s'. request_step P reqs i s s'"
proof (cases "sv_phase s i")
  case Waiting
  obtain r c where "cache_begin (request_key P (reqs i)) (sv_cache s) = (r, c)" by fastforce
  with Waiting show ?thesis
    by (cases r) (force dest: request_step.begin_absent [where P = P] request_step.begin_present [where P = P])+
next
  case (Validating xs)
  show ?thesis
  proof (cases "choose_candidate (validate_candidate (reqs i)) xs")
    case (Inl e)
    with Validating show ?thesis by (force dest: request_step.validate_raises [where P = P])
  next
    case (Inr r)
    with Validating show ?thesis
      by (cases r) (force dest: request_step.no_candidate [where P = P] request_step.hit [where P = P])+
  qed
next
  case Planning
  obtain r cs where run: "plan_run P (reqs i) = (r, cs)" by fastforce
  show ?thesis
  proof (cases r)
    case (Inl e)
    with Planning run show ?thesis by (force dest: request_step.plan_raises)
  next
    case (Inr p)
    with Planning run show ?thesis
      by (cases "po_cacheable p") (force dest: request_step.plan_keeps request_step.plan_stores)+
  qed
qed (use assms in simp)

text \<open>Each of its steps brings it nearer to its answer, and no other request touches its phase.\<close>

lemma act_own: "request_step P reqs i s s' \<Longrightarrow> phase_rank (sv_phase s' i) < phase_rank (sv_phase s i)"
  by (erule request_stepE) auto

lemma act_other: "request_step P reqs i s s' \<Longrightarrow> j \<noteq> i \<Longrightarrow> sv_phase s' j = sv_phase s j"
  by (erule request_stepE) auto

lemma act_rank: "request_step P reqs i s s' \<Longrightarrow>
    (if j = i then 1 else 0) + phase_rank (sv_phase s' j) \<le> phase_rank (sv_phase s j)"
  by (cases "j = i") (simp_all add: Suc_le_eq act_own act_other [of P reqs i s s' j])

lemma serving_rank:
  "serving P reqs s tr t \<Longrightarrow> count_list tr (Some i) + phase_rank (sv_phase t i) \<le> phase_rank (sv_phase s i)"
proof (induction rule: serving.induct)
  case (request j s s' tr t)
  then show ?case using act_rank [OF request.hyps(1), of i] by (cases "i = j") auto
qed auto

lemma serving_keeps:
  "serving P reqs s tr t \<Longrightarrow> sv_phase s i = Answered a \<Longrightarrow> sv_phase t i = Answered a"
proof (induction rule: serving.induct)
  case (request j s s' tr t)
  then have "j \<noteq> i" using act_own [OF request.hyps(1)] by (cases "j = i") auto
  with request act_other show ?case by metis
qed auto

text \<open>Hence a request that is scheduled again and again is answered, in any infinite run.\<close>

lemma fair_run_answers:
  assumes run: "\<And>n. (case who n of Some j \<Rightarrow> request_step P reqs j (\<sigma> n) (\<sigma> (Suc n))
                      | None \<Rightarrow> \<sigma> (Suc n) = \<sigma> n\<lparr>sv_cache := cache_clear (sv_cache (\<sigma> n))\<rparr>)"
    and fair: "\<And>n. phase_rank (sv_phase (\<sigma> n) i) = 0 \<or> (\<exists>m \<ge> n. who m = Some i)"
  shows "\<exists>m \<ge> n. \<exists>a. sv_phase (\<sigma> m) i = Answered a"
proof (induction "phase_rank (sv_phase (\<sigma> n) i)" arbitrary: n rule: less_induct)
  case less
  have down: "phase_rank (sv_phase (\<sigma> (Suc k)) i) \<le> phase_rank (sv_phase (\<sigma> k) i)" for k
    using run [of k] act_rank [of P reqs _ "\<sigma> k" "\<sigma> (Suc k)" i] by (fastforce split: option.splits)
  then have later: "n \<le> m \<Longrightarrow> phase_rank (sv_phase (\<sigma> m) i) \<le> phase_rank (sv_phase (\<sigma> n) i)" for m
    by (rule lift_Suc_antimono_le)
  show ?case
  proof (cases "phase_rank (sv_phase (\<sigma> n) i) = 0")
    case False
    with fair [of n] obtain m where m: "n \<le> m" "who m = Some i" by blast
    then have "phase_rank (sv_phase (\<sigma> (Suc m)) i) < phase_rank (sv_phase (\<sigma> m) i)"
      using run [of m] act_own by simp
    with later [OF m(1)] have "phase_rank (sv_phase (\<sigma> (Suc m)) i) < phase_rank (sv_phase (\<sigma> n) i)" by simp
    from less [OF this] m(1) show ?thesis by (meson Suc_leD le_trans)
  qed (auto simp: phase_rank_0)
qed

section \<open>A stored plan is found again\<close>

lemma directive_constraints_self:
  assumes "facts_wf f" and "c \<in> set (directive_variable_constraints sel frags (variable_values f))"
  shows "c_matches cust c f = Inr True"
proof -
  obtain x where "c = ValueC ''variables'' [x] (map_of (variable_values f) x)"
    using assms(2) by (auto simp: directive_constraints_vars)
  moreover have "values_equal (map_of (variable_values f) x) (map_of (variable_values f) x)"
    using assms(1) by (intro values_equal_refl) (rule facts_wf_var)
  ultimately show ?thesis by (auto split: option.split)
qed

lemma own_candidate_validates:
  assumes wf: "facts_wf (rq_facts r)" and run: "plan_run P r = (Inr p, recorded)"
    and surv: "\<forall>(n, ks) \<in> set (po_survivors p). CustomizerC n ks \<in> set recorded"
  shows "validate_candidate r (candidate_of r p recorded ident) = Inr True"
proof -
  have rec: "c_matches (rq_customizers r) c (rq_facts r) = Inr True" if "c \<in> set recorded" for c
    using resolver_self [OF wf run [unfolded plan_run_def] that] .
  have "constraints_match (rq_customizers r) (all_constraints r recorded) (rq_facts r) = Inr True"
    unfolding constraints_match_iff set_all_constraints
    using rec directive_constraints_self [OF wf] by blast
  moreover have "constraints_match (rq_customizers r) (map (\<lambda>(n, ks). CustomizerC n ks) (po_survivors p))
      (rq_facts r) = Inr True"
    unfolding constraints_match_iff using surv rec by auto
  ultimately show ?thesis by (simp add: validate_candidate_def candidate_of_def)
qed

lemma stored_plan_found:
  assumes "cache_ok c" and "facts_wf (rq_facts r)" and "plan_run P r = (Inr p, recorded)"
    and "\<forall>(n, ks) \<in> set (po_survivors p). CustomizerC n ks \<in> set recorded"
  shows "fst (cache_get (request_key P r) (validate_candidate r)
           (cache_put (request_key P r) (candidate_of r p recorded ident) c))
         = Inr (Some (candidate_of r p recorded ident))"
  using assms by (intro cache_get_put own_candidate_validates)

end
