(* ===== verification/Request_Properties.thy ===== *)
theory Request_Properties
  imports Serving_Laws
begin

text \<open>
  The correctness properties of the request-input constraints, the plan cache and the serving
  protocol, each with an instance.
\<close>

section \<open>An instance: a resolver that plans by one variable\<close>

definition flag_resolver :: "bool plan_out resolver" where
  "flag_resolver = Read (Var_Get ''n'' VNone)
     (\<lambda>a. Plan_Out \<lparr>po_plan = (a = A_Value (VBool True)), po_cacheable = True, po_survivors = []\<rparr>)"

definition flag_planner :: "bool planner" where
  "flag_planner = \<lparr>build = \<lambda>inp. flag_resolver,
     printer_of = \<lparr>print_operation = \<lambda>op. ''query q'', print_fragment = \<lambda>n b. n, text_hash = \<lambda>s. 7\<rparr>,
     schema_address = \<lambda>n. n\<rparr>"

definition flag_request :: "bool \<Rightarrow> request" where
  "flag_request b = \<lparr>rq_schema = 1,
     rq_operation = \<lparr>op_name = Some ''q'', op_mutation = False, op_variables = [''n''],
       op_selections = [FieldSel ''f'' [] [(''a'', VarNode ''n'')] []]\<rparr>,
     rq_fragments = [],
     rq_config = \<lparr>inline_relations = True, placeholders = True, cache_plans = True, hoist = False\<rparr>,
     rq_incremental = False,
     rq_facts = \<lparr>variable_values = [(''n'', VBool b)], context_value = VNone\<rparr>,
     rq_customizers = \<lambda>n. Inr []\<rparr>"

definition flag_key :: cache_key where
  "flag_key = (1, 7, Some ''q'', [[''f'', ''a'']], (True, True, True, False), False)"

definition flag_candidate :: "bool \<Rightarrow> bool cached" where
  "flag_candidate b = \<lparr>c_ident = 0, c_schema = 1, c_plan = b, c_survivors = [],
     c_constraints = [ValueC ''variables'' [''n''] (Some (VBool b))]\<rparr>"

lemma flag_key [simp]: "request_key flag_planner (flag_request b) = flag_key"
  by (simp add: request_key_def compute_cache_key_def flag_planner_def flag_request_def flag_key_def
      variable_arg_fingerprint_def config_fingerprint_def)

lemma flag_run [simp]:
  "plan_run flag_planner (flag_request b) =
     (Inr \<lparr>po_plan = b, po_cacheable = True, po_survivors = []\<rparr>,
      [ValueC ''variables'' [''n''] (Some (VBool b))])"
  by (simp add: plan_run_def flag_planner_def flag_resolver_def flag_request_def tracked_get_def)

lemma flag_candidate_of [simp]:
  "candidate_of (flag_request b) \<lparr>po_plan = b, po_cacheable = True, po_survivors = []\<rparr>
     [ValueC ''variables'' [''n''] (Some (VBool b))] 0 = flag_candidate b"
  by (simp add: candidate_of_def flag_candidate_def flag_request_def all_constraints_def
      directive_variable_constraints_def directive_vars_def)

lemma flag_candidate_plan [simp]: "c_plan (flag_candidate b) = b"
  by (simp add: flag_candidate_def)

lemma flag_variant [simp]: "same_variant (flag_candidate a) (flag_candidate b) = (a = b)"
  by (simp add: same_variant_def flag_candidate_def constraint_eq_def)

lemma flag_put [simp]:
  "cache_put k (flag_candidate b) c =
     (let bucket = (case map_of (entries c) k of None \<Rightarrow> [] | Some bs \<Rightarrow> bs);
          grown = flag_candidate b # remove_first (\<lambda>y. same_variant y (flag_candidate b)) bucket;
          (es, n) = evict (max_entries c) (move_to_end k (take 8 grown) (entries c))
            (evictions c + (if 8 < length grown then 1 else 0))
      in c\<lparr>entries := es, evictions := n\<rparr>)"
  by (simp add: cache_put_def MAX_VARIANTS_PER_KEY_def)

lemma flag_validate [simp]: "validate_candidate (flag_request b) (flag_candidate b') = Inr (b = b')"
  by (simp add: validate_candidate_def flag_request_def flag_candidate_def values_equal_def)

lemma flag_told: "values_equal (Some v) (Some w) \<Longrightarrow> (v = VBool t) = (w = VBool t)"
  by (cases v; cases w) (auto simp: values_equal_def)

lemma flag_respectful: "respectful flag_resolver"
proof -
  have "(a = A_Value (VBool True)) = (b = A_Value (VBool True))" if same: "same_answer a b" for a b
  proof (cases a)
    case (A_Value v)
    with same obtain w where "b = A_Value w" "v = w \<or> values_equal (Some v) (Some w)"
      by (cases b) auto
    with A_Value flag_told [of v w True] show ?thesis by auto
  qed (use same in \<open>cases b; simp\<close>)+
  then show ?thesis by (simp add: flag_resolver_def)
qed

lemma flag_planner_ok: "planner_ok flag_planner (\<lambda>i. flag_request (f i))"
  by (simp add: planner_ok_def flag_planner_def flag_respectful flag_request_def)

lemma flag_facts_wf: "facts_wf (rq_facts (flag_request b))"
  by (auto simp: facts_wf_def flag_request_def)

text \<open>Request 0 plans and stores, and request 1 is served what it stored.\<close>

lemma flag_hit:
  assumes "f 0" and "f (Suc 0)"
  shows "\<exists>s. reachable flag_planner (\<lambda>i. flag_request (f i)) 4 s \<and> sv_phase s 0 = Answered (Inr True)
     \<and> sv_phase s 1 = Answered (Inr True) \<and> hits (sv_cache s) = 1 \<and> misses (sv_cache s) = 1"
proof -
  let ?r = "\<lambda>i. flag_request (f i)"
  let ?reach = "reachable flag_planner ?r 4"
  define c0 :: "(cache_key, bool) plan_cache" where "c0 = \<lparr>max_entries = 4, entries = [], hits = 0, misses = 0, evictions = 0\<rparr>"
  define c1 where "c1 = c0\<lparr>misses := 1\<rparr>"
  define c2 where "c2 = c1\<lparr>entries := [(flag_key, [flag_candidate True])]\<rparr>"
  define s0 :: "bool server" where "s0 = \<lparr>sv_cache = c0, sv_phase = \<lambda>_. Waiting\<rparr>"
  define s1 where "s1 = \<lparr>sv_cache = c1, sv_phase = (sv_phase s0)(0 := Planning)\<rparr>"
  define s2 where "s2 = \<lparr>sv_cache = c2, sv_phase = (sv_phase s1)(0 := Answered (Inr True))\<rparr>"
  define s3 where "s3 = \<lparr>sv_cache = c2, sv_phase = (sv_phase s2)(1 := Validating [flag_candidate True])\<rparr>"
  define s4 where "s4 = \<lparr>sv_cache = cache_hit flag_key (flag_candidate True) c2,
      sv_phase = (sv_phase s3)(1 := Answered (Inr True))\<rparr>"
  have "?reach s0" unfolding s0_def by (rule reachable.start) (simp add: make_cache_def c0_def)
  moreover have "serve flag_planner ?r s0 s1" unfolding s1_def
    using serve.request [OF request_step.begin_absent [of s0 0 flag_planner ?r c1]]
    by (simp add: s0_def cache_begin_def c0_def c1_def)
  moreover have "cache_put flag_key (flag_candidate True) c1 = c2"
    by (simp add: cache_put_def c2_def c1_def c0_def MAX_VARIANTS_PER_KEY_def move_to_end_def)
  with assms have "serve flag_planner ?r s1 s2" unfolding s2_def
    using serve.request [OF request_step.plan_stores [of s1 0 flag_planner ?r _ _ 0]] by (simp add: s1_def)
  moreover have "serve flag_planner ?r s2 s3" unfolding s3_def
    using serve.request [OF request_step.begin_present [of s2 1 flag_planner ?r "[flag_candidate True]" c2]]
    by (simp add: s2_def s1_def s0_def cache_begin_def c2_def move_to_end_def)
  moreover have "serve flag_planner ?r s3 s4"
  proof -
    have "sv_phase s3 1 = Validating [flag_candidate True]" by (simp add: s3_def)
    moreover have "choose_candidate (validate_candidate (?r 1)) [flag_candidate True] = Inr (Some (flag_candidate True))"
      using assms by simp
    ultimately show ?thesis unfolding s4_def
      using serve.request [OF request_step.hit [of s3 1 "[flag_candidate True]" ?r "flag_candidate True" flag_planner]]
      by (simp add: s3_def)
  qed
  ultimately have "?reach s4" by (blast intro: reachable.step)
  moreover have "sv_phase s4 0 = Answered (Inr True)" "sv_phase s4 1 = Answered (Inr True)"
    "hits (sv_cache s4) = 1" "misses (sv_cache s4) = 1"
    by (simp_all add: s4_def s3_def s2_def cache_hit_def c2_def c1_def c0_def)
  ultimately show ?thesis by blast
qed

section \<open>Serving through the cache\<close>

text \<open>C3: under every interleaving of any number of requests, evictions and clears, a request that is answered
  a plan is answered exactly the plan it would have built for itself, whether it came from the cache or not;
  an exception is the planner's own or one its customizers raise while a candidate is validated.\<close>

lemma served_plan_is_fresh:
  assumes "planner_ok P reqs" and "reachable P reqs m s" and "sv_phase s i = Answered a"
  shows "case a of
           Inr p \<Rightarrow> fresh_plan P (reqs i) = Inr p
         | Inl e \<Rightarrow> fresh_plan P (reqs i) = Inl e \<or> (\<exists>n. rq_customizers (reqs i) n = Inl e)"
proof -
  have "phase_ok P reqs i (sv_phase s i)"
    using reachable_ok [OF assms(2,1)] by (simp add: server_ok_def)
  with assms(3) show ?thesis by (simp add: answer_ok_def)
qed

lemma served_plan_is_fresh_witness:
  "\<exists>s. reachable flag_planner (\<lambda>i. flag_request (i \<noteq> 2)) 4 s \<and> hits (sv_cache s) = 1
     \<and> sv_phase s 1 = Answered (Inr True) \<and> fresh_plan flag_planner (flag_request True) = Inr True"
proof -
  obtain s where s: "reachable flag_planner (\<lambda>i. flag_request (i \<noteq> 2)) 4 s" "sv_phase s 1 = Answered (Inr True)"
    "hits (sv_cache s) = 1"
    using flag_hit [of "\<lambda>i. i \<noteq> 2"] by auto
  from served_plan_is_fresh [OF flag_planner_ok s(1,2)] s show ?thesis by auto
qed

text \<open>C35: in any run of any number of requests, with the cache cleared at any moment, a request takes at most
  three steps of its own; it is answered, and keeps its answer, or has taken fewer than three and can take its
  next one now. So a request that is scheduled three times is answered, whatever the others do in between.\<close>

lemma every_request_is_answered:
  assumes "serving P reqs s tr t"
  shows "count_list tr (Some i) \<le> 3
    \<and> ((\<exists>a. sv_phase t i = Answered a) \<or> count_list tr (Some i) < 3 \<and> (\<exists>t'. request_step P reqs i t t'))
    \<and> (\<forall>a. sv_phase s i = Answered a \<longrightarrow> sv_phase t i = Answered a \<and> count_list tr (Some i) = 0)"
proof -
  have "phase_rank (sv_phase s i) \<le> 3" by (cases "sv_phase s i") simp_all
  with serving_rank [OF assms, of i] have le: "count_list tr (Some i) + phase_rank (sv_phase t i) \<le> 3" by simp
  moreover have "phase_rank (sv_phase t i) = 0 \<or> count_list tr (Some i) < 3 \<and> (\<exists>t'. request_step P reqs i t t')"
    using act_enabled [of t i P reqs] le by (cases "phase_rank (sv_phase t i) = 0") simp_all
  moreover have "count_list tr (Some i) = 0" if "sv_phase s i = Answered a" for a
    using serving_rank [OF assms, of i] that by simp
  ultimately show ?thesis using serving_keeps [OF assms] by (auto simp: phase_rank_0)
qed

lemma every_request_is_answered_witness:
  "\<exists>t a. serving flag_planner (\<lambda>i. flag_request True)
       \<lparr>sv_cache = \<lparr>max_entries = 4, entries = [], hits = 0, misses = 0, evictions = 0\<rparr>, sv_phase = \<lambda>_. Waiting\<rparr>
       [Some 0, None, Some 0] t
     \<and> sv_phase t 0 = Answered a \<and> (\<exists>t'. request_step flag_planner (\<lambda>i. flag_request True) 5 t t')"
proof -
  let ?r = "\<lambda>i. flag_request True"
  let ?c = "\<lparr>max_entries = 4, entries = [], hits = 0, misses = 0, evictions = 0\<rparr> :: (cache_key, bool) plan_cache"
  define s0 :: "bool server" where "s0 = \<lparr>sv_cache = ?c, sv_phase = \<lambda>_. Waiting\<rparr>"
  define s1 where "s1 = \<lparr>sv_cache = ?c\<lparr>misses := 1\<rparr>, sv_phase = (sv_phase s0)(0 := Planning)\<rparr>"
  define s2 where "s2 = s1\<lparr>sv_cache := cache_clear (sv_cache s1)\<rparr>"
  define s3 where "s3 = \<lparr>sv_cache = cache_put flag_key (flag_candidate True) (sv_cache s2),
      sv_phase = (sv_phase s2)(0 := Answered (Inr True))\<rparr>"
  have "request_step flag_planner ?r 0 s0 s1" unfolding s1_def
    using request_step.begin_absent [of s0 0 flag_planner ?r "?c\<lparr>misses := 1\<rparr>"] by (simp add: s0_def cache_begin_def)
  moreover have "request_step flag_planner ?r 0 s2 s3" unfolding s3_def
    using request_step.plan_stores [of s2 0 flag_planner ?r _ _ 0] by (simp add: s2_def s1_def)
  ultimately have run: "serving flag_planner ?r s0 [Some 0, None, Some 0] s3"
    unfolding s2_def by (blast intro: serving.intros)
  have waits: "sv_phase s3 5 = Waiting" "sv_phase s3 0 = Answered (Inr True)"
    by (simp_all add: s3_def s2_def s1_def s0_def)
  with every_request_is_answered [OF run, of 5] have "\<exists>t'. request_step flag_planner ?r 5 s3 t'" by simp
  with run waits show ?thesis unfolding s0_def by blast
qed

text \<open>A plan that was just stored is found again by the request that built it: its own facts satisfy the
  directive constraints, the recorded reads and the customizers' shapes.\<close>

lemma stored_plan_is_found:
  assumes "cache_ok c" and "facts_wf (rq_facts r)" and "plan_run P r = (Inr p, recorded)"
    and "\<forall>(n, ks) \<in> set (po_survivors p). CustomizerC n ks \<in> set recorded"
  shows "fst (cache_get (request_key P r) (validate_candidate r)
           (cache_put (request_key P r) (candidate_of r p recorded ident) c))
         = Inr (Some (candidate_of r p recorded ident))"
  using assms by (rule stored_plan_found)

lemma stored_plan_is_found_witness:
  "\<exists>c. make_cache 1 = Inr c \<and>
     fst (cache_get flag_key (validate_candidate (flag_request True)) (cache_put flag_key (flag_candidate True) c))
       = Inr (Some (flag_candidate True))"
proof -
  obtain c :: "(cache_key, bool) plan_cache" where c: "make_cache 1 = Inr c" by (simp add: make_cache_def)
  then have "cache_ok c" using make_cache_ok by blast
  from stored_plan_is_found [OF this flag_facts_wf flag_run [of True], of 0] have
    "fst (cache_get flag_key (validate_candidate (flag_request True)) (cache_put flag_key (flag_candidate True) c))
       = Inr (Some (flag_candidate True))" by simp
  with c show ?thesis by blast
qed

section \<open>The plan cache\<close>

text \<open>C27: under every interleaving of the cache's critical sections, a cache of \<open>m\<close> entries holds at most \<open>m\<close>
  keys, each once, and one to eight variants per key, no two of them interchangeable.\<close>

lemma cache_bounds:
  assumes "make_cache m = Inr c" and "list_all event_wf evs" and "c' = cache_run evs c"
  shows "int (cache_len c') \<le> m \<and> distinct (map fst (entries c'))
    \<and> (\<forall>(k, b) \<in> set (entries c'). b \<noteq> [] \<and> length b \<le> 8 \<and> sorted_wrt (\<lambda>x y. \<not> same_variant x y) b)"
proof -
  have "max_entries (cache_run evs c) = max_entries c"
    unfolding cache_run_def by (induction evs arbitrary: c) simp_all
  moreover have "cache_ok (cache_run evs c)"
    using make_cache_ok [OF assms(1)] assms(2) by (blast intro: cache_run_ok)
  ultimately show ?thesis using make_cache_ok [OF assms(1)] assms(3)
    by (auto simp: cache_ok_def bucket_ok_def MAX_VARIANTS_PER_KEY_def cache_len_def)
qed

lemma cache_bounds_witness:
  "\<exists>c. make_cache 1 = Inr c \<and> entries (cache_run [Put (0::nat) (flag_candidate True), Put 1 (flag_candidate True),
     Put 1 (flag_candidate False)] c) = [(1, [flag_candidate False, flag_candidate True])]
     \<and> cache_len (cache_run [Put (0::nat) (flag_candidate True), Put 1 (flag_candidate True),
     Put 1 (flag_candidate False)] c) \<le> 1"
proof -
  let ?evs = "[Put (0::nat) (flag_candidate True), Put 1 (flag_candidate True), Put 1 (flag_candidate False)]"
  obtain c :: "(nat, bool) plan_cache" where c: "make_cache 1 = Inr c" by (simp add: make_cache_def)
  have wf: "list_all event_wf ?evs" by (simp add: cached_wf_def flag_candidate_def)
  have "c = \<lparr>max_entries = 1, entries = [], hits = 0, misses = 0, evictions = 0\<rparr>"
    using c by (simp add: make_cache_def)
  then have "entries (cache_run ?evs c) = [(1, [flag_candidate False, flag_candidate True])]"
    by (simp add: cache_run_def move_to_end_def Let_def)
  with c cache_bounds [OF c wf refl] show ?thesis by auto
qed

text \<open>C28: the cache is least-recently-used: after any interleaving the keys it holds are the last \<open>m\<close> distinct
  keys that were stored or read, the most recent last.\<close>

lemma cache_is_lru:
  assumes "make_cache m = Inr c"
  shows "map fst (entries (cache_run evs c)) = recent (nat m) (keys_used evs c [])"
proof -
  have c: "cache_ok c" "entries c = []" "int (max_entries c) = m" using make_cache_ok [OF assms] by auto
  then have "1 \<le> max_entries c" by (simp add: cache_ok_def)
  with c cache_run_recent [of c "[]" evs] show ?thesis by (auto simp: recent_def)
qed

lemma cache_is_lru_witness:
  "\<exists>c. make_cache 2 = Inr c \<and>
     map fst (entries (cache_run [Put (0::nat) (flag_candidate True), Put 1 (flag_candidate True), Begin 0,
       Put 2 (flag_candidate True)] c)) = [0, 2]"
proof -
  let ?evs = "[Put (0::nat) (flag_candidate True), Put 1 (flag_candidate True), Begin 0, Put 2 (flag_candidate True)]"
  obtain c :: "(nat, bool) plan_cache" where c: "make_cache 2 = Inr c" by (simp add: make_cache_def)
  then have "c = \<lparr>max_entries = 2, entries = [], hits = 0, misses = 0, evictions = 0\<rparr>"
    by (simp add: make_cache_def)
  then have "map fst (entries (cache_run ?evs c)) = [0, 2]"
    unfolding cache_is_lru [OF c] by (simp add: recent_def cache_begin_def move_to_end_def Let_def)
  with c show ?thesis by (intro exI [of _ c] conjI)
qed

section \<open>Recorded reads\<close>

text \<open>C32: a resolver that built a plan for one request builds the same plan for every request that satisfies the
  constraints its reads recorded, and the recording request satisfies them itself.\<close>

lemma recorded_reads_replay:
  assumes "run_resolver s cu f [] = (Inr p, cs)" and "respectful s"
  shows "(constraints_match cust cs g = Inr True \<longrightarrow> fst (run_resolver s cust g []) = Inr p)
    \<and> (facts_wf f \<longrightarrow> constraints_match cu cs f = Inr True)"
  using resolver_replay [OF assms, of cust g] resolver_self [OF _ assms(1)]
  by (simp add: constraints_match_iff)

lemma recorded_reads_replay_witness:
  "fst (run_resolver flag_resolver (\<lambda>n. Inr []) \<lparr>variable_values = [(''m'', VInt 3), (''n'', VBool True)],
     context_value = VNone\<rparr> []) = Inr \<lparr>po_plan = True, po_cacheable = True, po_survivors = []\<rparr>"
proof -
  have "run_resolver flag_resolver (\<lambda>n. Inr []) \<lparr>variable_values = [(''n'', VBool True)], context_value = VNone\<rparr> []
    = (Inr \<lparr>po_plan = True, po_cacheable = True, po_survivors = []\<rparr>, [ValueC ''variables'' [''n''] (Some (VBool True))])"
    by (simp add: flag_resolver_def tracked_get_def)
  from recorded_reads_replay [OF this flag_respectful, of "\<lambda>n. Inr []"
      "\<lparr>variable_values = [(''m'', VInt 3), (''n'', VBool True)], context_value = VNone\<rparr>"]
  show ?thesis by (simp add: values_equal_def)
qed

text \<open>C33: an argument a resolver observes by value, in any sequence of accessor calls that does not defer it,
  pins every variable its literal mentions, nested ones included.\<close>

lemma observed_arguments_are_pinned:
  assumes "distinct (map fst arguments)" and "(a, ast) \<in> set arguments"
    and "op \<in> set ops" and "reads_value op a" and "F_Source a \<notin> set ops"
    and "x \<in> nested_variables ast"
    and "constraints_match cust (field_constraints coerce arguments ops vars) g = Inr True"
  shows "values_equal (map_of (variable_values g) x) (map_of vars x)"
proof -
  have "ValueC ''variables'' [x] (map_of vars x) \<in> set (field_constraints coerce arguments ops vars)"
    using assms(1-6) by (rule field_constraints_value)
  with assms(7) show ?thesis by (auto simp: constraints_match_iff split: option.splits dest!: bspec)
qed

lemma observed_arguments_are_pinned_witness:
  "values_equal (map_of [(''u'', VNone), (''v'', VInt 1)] ''v'') (map_of [(''v'', VInt 1)] ''v'')"
proof -
  let ?args = "[(''where'', ListNode [VarNode ''v''])]"
  let ?ops = "[F_Contains ''where'', F_Item ''where'']"
  let ?coerce = "\<lambda>vs. [(''where'', VList (map snd vs))]"
  let ?g = "\<lparr>variable_values = [(''u'', VNone), (''v'', VInt 1)], context_value = VNone\<rparr>"
  have "inlined_names (fa_run (new_field_args (?coerce [(''v'', VInt 1)]) (variable_provenance ?args)) ?ops) = {''v''}"
    by (simp add: inlined_names_def inlined_variable_args_def fa_defs new_field_args_def variable_provenance_def
        provenance_step_def no_provenance_def)
  then have "constraints_match (\<lambda>n. Inr []) (field_constraints ?coerce ?args ?ops [(''v'', VInt 1)]) ?g = Inr True"
    by (simp add: field_constraints_def record_field_args_constraints_def values_equal_def
        fa_defs new_field_args_def variable_provenance_def provenance_step_def no_provenance_def)
  from observed_arguments_are_pinned [of ?args "''where''" "ListNode [VarNode ''v'']" "F_Item ''where''" ?ops "''v''", OF _ _ _ _ _ _ this]
  show ?thesis by simp
qed

text \<open>C34: the directive scan finds every variable a plan-time directive uses, through any chain of fragment
  spreads, cyclic ones included; a request passes its constraints only with equal values for all of them.\<close>

lemma directive_scan_is_complete:
  assumes "directive_use frags fs sel x"
    and "constraints_match cust (directive_variable_constraints sel frags vars) g = Inr True"
  shows "x \<in> scan_selections frags {} sel \<and> values_equal (map_of (variable_values g) x) (map_of vars x)"
proof -
  obtain fs' where "distinct fs'" "directive_use frags fs' sel x" using use_distinct [OF assms(1)] by blast
  then have "x \<in> scan_selections frags {} sel" by (intro scan_complete) auto
  moreover have "values_equal (map_of (variable_values g) x) (map_of vars x)"
    using assms(2) by (intro directive_constraints_accept [OF _ assms(1)]) (simp add: constraints_match_iff)
  ultimately show ?thesis by blast
qed

lemma directive_scan_is_complete_witness:
  "let frags = [(''F'', [SpreadSel ''F'' [], FieldSel ''a'' [(''skip'', [(''if'', VarNode ''v'')])] [] []])]
   in ''v'' \<in> scan_selections frags {} [SpreadSel ''F'' []]"
proof -
  let ?body = "[SpreadSel ''F'' [], FieldSel ''a'' [(''skip'', [(''if'', VarNode ''v'')])] [] []]"
  let ?frags = "[(''F'', ?body)]"
  have "directive_use ?frags [] ?body ''v''"
    by (rule use_here [of "FieldSel ''a'' [(''skip'', [(''if'', VarNode ''v'')])] [] []"])
      (simp_all add: directive_vars_def plan_time_directives_def)
  then have used: "directive_use ?frags [''F''] [SpreadSel ''F'' []] ''v''"
    by (intro use_spread [of "''F''" "[]" _ _ ?body]) simp_all
  have accepted: "constraints_match (\<lambda>n. Inr []) (directive_variable_constraints [SpreadSel ''F'' []] ?frags [])
      \<lparr>variable_values = [], context_value = VNone\<rparr> = Inr True"
    by (simp add: constraints_match_iff directive_constraints_vars)
  from directive_scan_is_complete [OF used accepted] show ?thesis by simp
qed

section \<open>Identities that are too coarse\<close>

text \<open>The constraints of a stored plan are compared as tuples, which forgets their class: the plan of a request
  that read a value replaces the plan of one that only asked whether it exists, though a request may be
  accepted by the one and not the other.\<close>

lemma variants_not_interchangeable:
  "\<exists>x y :: bool cached. same_variant x y
     \<and> constraints_match (\<lambda>n. Inr []) (c_constraints x) \<lparr>variable_values = [(''a'', VInt 5)], context_value = VNone\<rparr> = Inr True
     \<and> constraints_match (\<lambda>n. Inr []) (c_constraints y) \<lparr>variable_values = [(''a'', VInt 5)], context_value = VNone\<rparr> = Inr False"
proof (intro exI conjI)
  let ?x = "(flag_candidate True)\<lparr>c_constraints := [ExistsC ''variables'' [''a''] True]\<rparr>"
  let ?y = "(flag_candidate True)\<lparr>c_constraints := [ValueC ''variables'' [''a''] (Some (VBool True))]\<rparr>"
  show "same_variant ?x ?y" by (simp add: same_variant_def constraint_eq_def)
  show "constraints_match (\<lambda>n. Inr []) (c_constraints ?x) \<lparr>variable_values = [(''a'', VInt 5)], context_value = VNone\<rparr> = Inr True"
    by (simp add: scope_value_def values_equal_def)
  show "constraints_match (\<lambda>n. Inr []) (c_constraints ?y) \<lparr>variable_values = [(''a'', VInt 5)], context_value = VNone\<rparr> = Inr False"
    by (simp add: scope_value_def values_equal_def)
qed

text \<open>The pinned type of a constraint's value is that of its top level alone.\<close>

lemma nested_types_alias:
  "\<not> values_equal (Some (VBool True)) (Some (VInt 1))"
  "values_equal (Some (VList [VBool True])) (Some (VList [VInt 1]))"
  by (simp_all add: values_equal_def)

end
