(* ===== verification/Pg_Sql.thy ===== *)
theory Pg_Sql
  imports Py_Values
begin

text \<open>
  The SQL predicates the pg steps build, structured filters (\<open>src/src/grafast_py/pg/conditions.py\<close>)
  and orderings (\<open>src/src/grafast_py/pg/ordering.py\<close>).

  A predicate of the query builder is the tree of the calls that make it; its meaning is that of
  PostgreSQL: three-valued, \<open>None\<close> being NULL. Column values form a linear order; what the database
  makes of a bound parameter, and the pattern match of \<open>LIKE\<close>, are parameters.
\<close>

section \<open>Predicates\<close>

datatype comparison = Eq | Ne | Lt | Le | Gt | Ge

datatype sql_expr =
    Column string
  | Bind string pyval "string option"
  | Literal pyval

datatype predicate =
    Cmp comparison sql_expr sql_expr
  | Is_Null sql_expr
  | Not_Null sql_expr
  | Not_Distinct sql_expr sql_expr
  | In_List sql_expr "pyval list"
  | Like bool sql_expr pyval
  | And_All "predicate list"
  | Or_Any "predicate list"
  | Negate predicate
  | True_Const
  | False_Const

record 'v database =
  coerce :: "string option \<Rightarrow> pyval \<Rightarrow> 'v option"
  like_match :: "bool \<Rightarrow> 'v \<Rightarrow> 'v \<Rightarrow> bool"

type_synonym 'v cells = "string \<Rightarrow> 'v option"

fun eval_expr :: "'v database \<Rightarrow> 'v cells \<Rightarrow> sql_expr \<Rightarrow> 'v option" where
  "eval_expr db r (Column c) = r c"
| "eval_expr db r (Bind name v ty) = coerce db ty v"
| "eval_expr db r (Literal v) = coerce db None v"

definition and3 :: "bool option list \<Rightarrow> bool option" where
  "and3 xs = (if Some False \<in> set xs then Some False else if None \<in> set xs then None else Some True)"

definition or3 :: "bool option list \<Rightarrow> bool option" where
  "or3 xs = (if Some True \<in> set xs then Some True else if None \<in> set xs then None else Some False)"

definition lift2 :: "('v \<Rightarrow> 'v \<Rightarrow> bool) \<Rightarrow> 'v option \<Rightarrow> 'v option \<Rightarrow> bool option" where
  "lift2 f a b = (case (a, b) of (Some x, Some y) \<Rightarrow> Some (f x y) | _ \<Rightarrow> None)"

fun compares :: "comparison \<Rightarrow> 'v::linorder \<Rightarrow> 'v \<Rightarrow> bool" where
  "compares Eq x y = (x = y)"
| "compares Ne x y = (x \<noteq> y)"
| "compares Lt x y = (x < y)"
| "compares Le x y = (x \<le> y)"
| "compares Gt x y = (y < x)"
| "compares Ge x y = (y \<le> x)"

fun sql_eval :: "('v::linorder) database \<Rightarrow> 'v cells \<Rightarrow> predicate \<Rightarrow> bool option" where
  "sql_eval db r (Cmp op a b) = lift2 (compares op) (eval_expr db r a) (eval_expr db r b)"
| "sql_eval db r (Is_Null a) = Some (eval_expr db r a = None)"
| "sql_eval db r (Not_Null a) = Some (eval_expr db r a \<noteq> None)"
| "sql_eval db r (Not_Distinct a b) = Some (eval_expr db r a = eval_expr db r b)"
| "sql_eval db r (In_List a vs) =
     or3 (map (\<lambda>v. lift2 (=) (eval_expr db r a) (coerce db None v)) vs)"
| "sql_eval db r (Like ci a v) = lift2 (like_match db ci) (eval_expr db r a) (coerce db None v)"
| "sql_eval db r (And_All ps) = and3 (map (sql_eval db r) ps)"
| "sql_eval db r (Or_Any ps) = or3 (map (sql_eval db r) ps)"
| "sql_eval db r (Negate p) = map_option Not (sql_eval db r p)"
| "sql_eval db r True_Const = Some True"
| "sql_eval db r False_Const = Some False"

text \<open>A WHERE clause keeps the rows on which it is true; NULL is not true.\<close>

definition sql_true :: "('v::linorder) database \<Rightarrow> 'v cells \<Rightarrow> predicate \<Rightarrow> bool" where
  "sql_true db r p \<longleftrightarrow> sql_eval db r p = Some True"

lemma and3_true: "and3 xs = Some True \<longleftrightarrow> (\<forall>x \<in> set xs. x = Some True)"
  by (auto simp: and3_def) (metis (full_types) not_None_eq)+

lemma or3_true: "or3 xs = Some True \<longleftrightarrow> Some True \<in> set xs"
  by (simp add: or3_def)

lemma sql_true_simps [simp]:
  "sql_true db r (And_All ps) \<longleftrightarrow> (\<forall>p \<in> set ps. sql_true db r p)"
  "sql_true db r (Or_Any ps) \<longleftrightarrow> (\<exists>p \<in> set ps. sql_true db r p)"
  "sql_true db r (Is_Null a) \<longleftrightarrow> eval_expr db r a = None"
  "sql_true db r (Not_Null a) \<longleftrightarrow> eval_expr db r a \<noteq> None"
  "sql_true db r (Not_Distinct a b) \<longleftrightarrow> eval_expr db r a = eval_expr db r b"
  "sql_true db r (Cmp op a b) \<longleftrightarrow>
     (\<exists>x y. eval_expr db r a = Some x \<and> eval_expr db r b = Some y \<and> compares op x y)"
  by (force simp: sql_true_def and3_true or3_true lift2_def split: option.splits)+

section \<open>Structured filters\<close>

datatype condition =
    Compare string string pyval
  | And_C "condition list"
  | Or_C "condition list"
  | Not_C condition

definition compare_op :: "string \<Rightarrow> comparison option" where
  "compare_op op =
     (if op = ''eq'' then Some Eq else if op = ''ne'' then Some Ne else if op = ''lt'' then Some Lt
      else if op = ''le'' then Some Le else if op = ''gt'' then Some Gt else if op = ''ge'' then Some Ge
      else None)"

definition supported_ops :: "string list" where
  "supported_ops = [''eq'', ''ne'', ''lt'', ''le'', ''gt'', ''ge'', ''in'', ''like'', ''ilike'', ''is_null'']"

definition make_compare :: "string \<Rightarrow> string \<Rightarrow> pyval \<Rightarrow> condition res" where
  "make_compare field op value =
     (if op \<in> set supported_ops then Inr (Compare field op value)
      else Inl (ValueError (''unsupported filter operator '' @ op)))"

text \<open>
  \<open>_BINARY_OPS\<close>. The builder turns \<open>== None\<close> and \<open>!= None\<close> into IS [NOT] NULL and refuses the other
  comparisons with None, True and False; the members of IN come from a sequence.
\<close>

definition binary_op :: "string \<Rightarrow> string \<Rightarrow> pyval \<Rightarrow> predicate res" where
  "binary_op op field value =
     (case compare_op op of
        Some c \<Rightarrow>
          (if value = VNone \<and> c = Eq then Inr (Is_Null (Column field))
           else if value = VNone \<and> c = Ne then Inr (Not_Null (Column field))
           else if (value = VNone \<or> type_of value = TBool) \<and> c \<noteq> Eq \<and> c \<noteq> Ne
           then Inl (HostError ''ArgumentError'')
           else Inr (Cmp c (Column field) (Literal value)))
      | None \<Rightarrow>
          (if op = ''in'' then
             (case value of
                VList vs \<Rightarrow> Inr (In_List (Column field) vs)
              | VTuple vs \<Rightarrow> Inr (In_List (Column field) vs)
              | _ \<Rightarrow> Inl (HostError ''ArgumentError''))
           else if op = ''like'' then Inr (Like False (Column field) value)
           else if op = ''ilike'' then Inr (Like True (Column field) value)
           else Inl (KeyError op)))"

fun to_predicate :: "condition \<Rightarrow> predicate res" where
  "to_predicate (Compare field op value) =
     (if op = ''is_null'' then
        Inr (if truthy value then Is_Null (Column field) else Not_Null (Column field))
      else binary_op op field value)"
| "to_predicate (And_C cs) =
     (if cs = [] then Inr True_Const
      else bind_res (map_res to_predicate cs) (\<lambda>ps. Inr (And_All ps)))"
| "to_predicate (Or_C cs) =
     (if cs = [] then Inr False_Const
      else bind_res (map_res to_predicate cs) (\<lambda>ps. Inr (Or_Any ps)))"
| "to_predicate (Not_C c) = bind_res (to_predicate c) (\<lambda>p. Inr (Negate p))"

definition compile_condition :: "condition \<Rightarrow> predicate res" where
  "compile_condition c = to_predicate c"

text \<open>What a filter means, two-valued, on a row whose mentioned columns and operands are not NULL.\<close>

fun members_of :: "pyval \<Rightarrow> pyval list" where
  "members_of (VList vs) = vs"
| "members_of (VTuple vs) = vs"
| "members_of v = []"

fun mentions :: "condition \<Rightarrow> string set" where
  "mentions (Compare field op value) = {field}"
| "mentions (And_C cs) = (\<Union>c \<in> set cs. mentions c)"
| "mentions (Or_C cs) = (\<Union>c \<in> set cs. mentions c)"
| "mentions (Not_C c) = mentions c"

fun operands :: "condition \<Rightarrow> pyval set" where
  "operands (Compare field op value) =
     (if op = ''is_null'' then {} else if op = ''in''
      then set (members_of value) else {value})"
| "operands (And_C cs) = (\<Union>c \<in> set cs. operands c)"
| "operands (Or_C cs) = (\<Union>c \<in> set cs. operands c)"
| "operands (Not_C c) = operands c"

fun accepts :: "('v::linorder) database \<Rightarrow> (string \<Rightarrow> 'v) \<Rightarrow> condition \<Rightarrow> bool" where
  "accepts db r (Compare field op value) =
     (let x = r field; y = the (coerce db None value) in
      if op = ''is_null'' then \<not> truthy value
      else if op = ''eq'' then x = y
      else if op = ''ne'' then x \<noteq> y
      else if op = ''lt'' then x < y
      else if op = ''le'' then x \<le> y
      else if op = ''gt'' then x > y
      else if op = ''ge'' then x \<ge> y
      else if op = ''in'' then x \<in> (\<lambda>v. the (coerce db None v)) ` set (members_of value)
      else like_match db (op = ''ilike'') x y)"
| "accepts db r (And_C cs) = (\<forall>c \<in> set cs. accepts db r c)"
| "accepts db r (Or_C cs) = (\<exists>c \<in> set cs. accepts db r c)"
| "accepts db r (Not_C c) = (\<not> accepts db r c)"

text \<open>What a filter means on any row: a comparison with a NULL on either side is unknown, \<open>eq\<close> and \<open>ne\<close> with
  None ask for NULL, a membership is unknown when it is not found and a NULL is involved, and the connectives
  are Kleene's.\<close>

definition both_known :: "('v \<Rightarrow> 'v \<Rightarrow> bool) \<Rightarrow> 'v option \<Rightarrow> 'v option \<Rightarrow> bool option" where
  "both_known f x y = (if x = None \<or> y = None then None else Some (f (the x) (the y)))"

definition member_verdict :: "'v option \<Rightarrow> 'v option list \<Rightarrow> bool option" where
  "member_verdict x ys =
     (if x \<noteq> None \<and> x \<in> set ys then Some True
      else if ys \<noteq> [] \<and> (x = None \<or> None \<in> set ys) then None else Some False)"

fun filter_verdict :: "('v::linorder) database \<Rightarrow> 'v cells \<Rightarrow> condition \<Rightarrow> bool option" where
  "filter_verdict db r (Compare field op value) =
     (let x = r field; y = coerce db None value in
      if op = ''is_null'' then Some (if truthy value then x = None else x \<noteq> None)
      else if op = ''eq'' then (if value = VNone then Some (x = None) else both_known (\<lambda>a b. a = b) x y)
      else if op = ''ne'' then (if value = VNone then Some (x \<noteq> None) else both_known (\<lambda>a b. a \<noteq> b) x y)
      else if op = ''lt'' then both_known (\<lambda>a b. a < b) x y
      else if op = ''le'' then both_known (\<lambda>a b. a \<le> b) x y
      else if op = ''gt'' then both_known (\<lambda>a b. a > b) x y
      else if op = ''ge'' then both_known (\<lambda>a b. a \<ge> b) x y
      else if op = ''in'' then member_verdict x (map (coerce db None) (members_of value))
      else both_known (like_match db (op = ''ilike'')) x y)"
| "filter_verdict db r (And_C cs) =
     (if \<forall>c \<in> set cs. filter_verdict db r c = Some True then Some True
      else if \<exists>c \<in> set cs. filter_verdict db r c = Some False then Some False else None)"
| "filter_verdict db r (Or_C cs) =
     (if \<forall>c \<in> set cs. filter_verdict db r c = Some False then Some False
      else if \<exists>c \<in> set cs. filter_verdict db r c = Some True then Some True else None)"
| "filter_verdict db r (Not_C c) =
     (if filter_verdict db r c = Some True then Some False
      else if filter_verdict db r c = Some False then Some True else None)"

lemma map_res_list_all2: "map_res f xs = Inr ys \<longleftrightarrow> list_all2 (\<lambda>x y. f x = Inr y) xs ys"
proof (induction xs arbitrary: ys)
  case (Cons x xs)
  then show ?case by (cases ys) (auto simp: bind_res_Inr_iff)
qed auto

lemma both_known: "both_known = lift2"
  by (auto simp: both_known_def lift2_def fun_eq_iff split: option.split)

lemma and3_map: "and3 (map f cs) = (if \<forall>c \<in> set cs. f c = Some True then Some True
    else if \<exists>c \<in> set cs. f c = Some False then Some False else None)"
  by (auto simp: and3_def image_iff) (metis (full_types) not_None_eq)+

lemma or3_map: "or3 (map f cs) = (if \<forall>c \<in> set cs. f c = Some False then Some False
    else if \<exists>c \<in> set cs. f c = Some True then Some True else None)"
  by (auto simp: or3_def image_iff) (metis (full_types) not_None_eq)+

lemma or3_membership: "or3 (map (\<lambda>v. lift2 (=) x (f v)) vs) = member_verdict x (map f vs)"
proof (cases x)
  case None
  then show ?thesis by (cases vs) (auto simp: or3_def member_verdict_def lift2_def)
next
  case (Some a)
  have "Some True = lift2 (=) x (f v) \<longleftrightarrow> x = f v" "None = lift2 (=) x (f v) \<longleftrightarrow> None = f v" for v
    using Some by (cases "f v"; simp add: lift2_def)+
  then have "Some True \<in> (\<lambda>v. lift2 (=) x (f v)) ` set vs \<longleftrightarrow> x \<in> f ` set vs"
    "None \<in> (\<lambda>v. lift2 (=) x (f v)) ` set vs \<longleftrightarrow> None \<in> f ` set vs"
    by (simp_all add: image_iff)
  then show ?thesis using Some by (simp add: or3_def member_verdict_def)
qed

lemma compares_ops: "compares Eq = (=)" "compares Ne = (\<noteq>)" "compares Lt = (<)" "compares Le = (\<le>)"
  "compares Gt = (>)" "compares Ge = (\<ge>)"
  by (simp_all add: fun_eq_iff)

lemma binary_op_verdict:
  assumes "binary_op op field value = Inr p" and "op \<noteq> ''is_null''"
  shows "sql_eval db r p = filter_verdict db r (Compare field op value)"
proof (cases "compare_op op")
  case (Some c)
  with assms show ?thesis
    by (cases c) (auto simp: binary_op_def compare_op_def both_known compares_ops split: if_splits)
next
  case None
  consider "op = ''in''" | "op = ''like''" | "op = ''ilike''"
    using assms(1) None by (auto simp: binary_op_def split: if_splits)
  then show ?thesis
    using assms(1) None by cases (auto simp: binary_op_def both_known or3_membership o_def split: pyval.splits)
qed

lemma filter_meaning:
  "to_predicate c = Inr p \<Longrightarrow> sql_eval db r p = filter_verdict db r c"
proof (induction c arbitrary: p)
  case (Compare field op v)
  then show ?case
    using binary_op_verdict [of op field v p db r] by (cases "op = ''is_null''") (auto split: if_splits)
next
  case (And_C cs)
  show ?case
  proof (cases "cs = []")
    case False
    with And_C.prems obtain ps where ps: "p = And_All ps" "list_all2 (\<lambda>c p. to_predicate c = Inr p) cs ps"
      by (auto simp: bind_res_Inr_iff map_res_list_all2)
    have "map (sql_eval db r) ps = map (filter_verdict db r) cs"
      using ps(2) And_C.IH by (intro nth_equalityI) (auto simp: list_all2_conv_all_nth)
    with ps(1) show ?thesis by (simp add: and3_map)
  qed (use And_C.prems in simp)
next
  case (Or_C cs)
  show ?case
  proof (cases "cs = []")
    case False
    with Or_C.prems obtain ps where ps: "p = Or_Any ps" "list_all2 (\<lambda>c p. to_predicate c = Inr p) cs ps"
      by (auto simp: bind_res_Inr_iff map_res_list_all2)
    have "map (sql_eval db r) ps = map (filter_verdict db r) cs"
      using ps(2) Or_C.IH by (intro nth_equalityI) (auto simp: list_all2_conv_all_nth)
    with ps(1) show ?thesis by (simp add: or3_map)
  qed (use Or_C.prems in simp)
next
  case (Not_C c)
  then obtain q where q: "p = Negate q" "sql_eval db r q = filter_verdict db r c" by (auto simp: bind_res_Inr_iff)
  then show ?case by (cases "filter_verdict db r c") auto
qed

text \<open>Where nothing is NULL the verdict is two-valued.\<close>

lemma verdict_known:
  assumes "\<forall>x \<in> mentions c. r x = Some (row x)" and "\<forall>v \<in> operands c. v \<noteq> VNone \<and> coerce db None v \<noteq> None"
  shows "filter_verdict db r c = Some (accepts db row c)"
  using assms
proof (induction c)
  case (Compare field op v)
  show ?case
  proof (cases "op = ''in''")
    case True
    let ?vs = "map (coerce db None) (members_of v)"
    have known: "\<forall>w \<in> set (members_of v). coerce db None w = Some (the (coerce db None w))"
      using Compare(2) True by auto
    have "r field = Some (row field)" using Compare(1) by simp
    moreover have "None \<notin> set ?vs" using known by force
    moreover have "Some (row field) \<in> set ?vs \<longleftrightarrow> row field \<in> (\<lambda>w. the (coerce db None w)) ` set (members_of v)"
    proof -
      have "coerce db None w = Some (row field) \<longleftrightarrow> the (coerce db None w) = row field" if "w \<in> set (members_of v)" for w
        using known that by (metis option.sel)
      then show ?thesis by (auto simp: image_iff eq_commute [of "Some (row field)"] eq_commute [of "row field"])
    qed
    ultimately show ?thesis using True by (simp add: Let_def member_verdict_def)
  next
    case False
    show ?thesis
    proof (cases "op = ''is_null''")
      case no: False
      with Compare(2) False obtain y where "v \<noteq> VNone" "coerce db None v = Some y" by auto
      with Compare(1) False no show ?thesis by (simp add: Let_def both_known_def)
    qed (use Compare(1) in \<open>simp add: Let_def\<close>)
  qed
next
  case (Not_C c)
  then show ?case by simp
qed simp_all

text \<open>Which filters compile.\<close>

fun compilable :: "condition \<Rightarrow> bool" where
  "compilable (Compare field op value) \<longleftrightarrow>
     op \<in> {''is_null'', ''eq'', ''ne'', ''like'', ''ilike''}
     \<or> op \<in> {''lt'', ''le'', ''gt'', ''ge''} \<and> value \<noteq> VNone \<and> type_of value \<noteq> TBool
     \<or> op = ''in'' \<and> (\<exists>vs. value = VList vs \<or> value = VTuple vs)"
| "compilable (And_C cs) \<longleftrightarrow> (\<forall>c \<in> set cs. compilable c)"
| "compilable (Or_C cs) \<longleftrightarrow> (\<forall>c \<in> set cs. compilable c)"
| "compilable (Not_C c) \<longleftrightarrow> compilable c"

lemma map_res_total: "(\<exists>ys. map_res f xs = Inr ys) \<longleftrightarrow> (\<forall>x \<in> set xs. \<exists>y. f x = Inr y)"
  by (induction xs) (auto simp: bind_res_Inr_iff)

lemma compiles_iff: "(\<exists>p. to_predicate c = Inr p) \<longleftrightarrow> compilable c"
proof (induction c)
  case (Compare field op v)
  have "(\<exists>p. binary_op op field v = Inr p) \<longleftrightarrow> compilable (Compare field op v)" if "op \<noteq> ''is_null''"
    using that by (cases v) (auto simp: binary_op_def compare_op_def)
  then show ?case by (cases "op = ''is_null''") auto
next
  case (And_C cs)
  then have "(\<exists>ps. map_res to_predicate cs = Inr ps) \<longleftrightarrow> (\<forall>c \<in> set cs. compilable c)" by (auto simp: map_res_total)
  then show ?case by (cases "cs = []") (auto simp: bind_res_Inr_iff)
next
  case (Or_C cs)
  then have "(\<exists>ps. map_res to_predicate cs = Inr ps) \<longleftrightarrow> (\<forall>c \<in> set cs. compilable c)" by (auto simp: map_res_total)
  then show ?case by (cases "cs = []") (auto simp: bind_res_Inr_iff)
next
  case (Not_C c)
  then show ?case by (auto simp: bind_res_Inr_iff)
qed

end
