(* ===== verification/Pg_Order.thy ===== *)
theory Pg_Order
  imports Pg_Sql Text_Codec "HOL-Library.List_Lexorder"
begin

text \<open>
  Orderings (\<open>src/src/grafast_py/pg/ordering.py\<close>) and the keyset comparator of
  \<open>src/src/grafast_py/pg/cursor.py\<close>: a predicate for the rows strictly after, or before, a cursor row.
\<close>

section \<open>Column values\<close>

text \<open>The native column values, as one linear order: values of one column have one type, within which
  the order is that of the type.\<close>

datatype pg_value = PgBool bool | PgInt int | PgText string

fun pg_rank :: "pg_value \<Rightarrow> nat" where
  "pg_rank (PgBool b) = 0"
| "pg_rank (PgInt i) = 1"
| "pg_rank (PgText s) = 2"

instantiation pg_value :: linorder
begin

fun less_eq_pg_value :: "pg_value \<Rightarrow> pg_value \<Rightarrow> bool" where
  "less_eq_pg_value (PgBool a) (PgBool b) = (a \<le> b)"
| "less_eq_pg_value (PgInt i) (PgInt j) = (i \<le> j)"
| "less_eq_pg_value (PgText s) (PgText t) = (s \<le> t)"
| "less_eq_pg_value x y = (pg_rank x \<le> pg_rank y)"

definition less_pg_value :: "pg_value \<Rightarrow> pg_value \<Rightarrow> bool" where
  "less_pg_value x y \<longleftrightarrow> x \<le> y \<and> \<not> y \<le> x"

instance
proof
  fix x y z :: pg_value
  show "(x < y) = (x \<le> y \<and> \<not> y \<le> x)" by (simp add: less_pg_value_def)
  show "x \<le> x" by (cases x) simp_all
  show "x \<le> y \<Longrightarrow> y \<le> z \<Longrightarrow> x \<le> z" by (cases x; cases y; cases z) auto
  show "x \<le> y \<Longrightarrow> y \<le> x \<Longrightarrow> x = y" by (cases x; cases y) auto
  show "x \<le> y \<or> y \<le> x" by (cases x; cases y) (auto simp: linear)
qed

end

section \<open>Order terms\<close>

record order_term =
  ot_column :: string
  ot_descending :: bool
  ot_nulls :: "string option"

definition make_order_term :: "string \<Rightarrow> bool \<Rightarrow> string option \<Rightarrow> order_term res" where
  "make_order_term c d n =
     (if n \<in> {None, Some ''first'', Some ''last''}
      then Inr \<lparr>ot_column = c, ot_descending = d, ot_nulls = n\<rparr>
      else Inl (ValueError ''OrderTerm.nulls must be None, first or last''))"

definition ascending :: "string \<Rightarrow> order_term" where
  "ascending c = \<lparr>ot_column = c, ot_descending = False, ot_nulls = None\<rparr>"

definition normalize_order :: "(string + order_term) list \<Rightarrow> string \<Rightarrow> bool \<Rightarrow> order_term list" where
  "normalize_order order_by primary_key order_is_unique =
     (let terms = map (case_sum ascending id) order_by;
          tied = (if \<not> order_is_unique \<and> \<not> (\<exists>t \<in> set terms. ot_column t = primary_key)
                  then terms @ [ascending primary_key] else terms)
      in if tied = [] then [ascending primary_key] else tied)"

text \<open>The emitted ORDER BY: a column, DESC, and NULLS FIRST/LAST when the term says so.\<close>

record order_clause =
  oc_column :: string
  oc_desc :: bool
  oc_nulls_first :: "bool option"

definition order_clauses :: "order_term list \<Rightarrow> order_clause list" where
  "order_clauses terms =
     map (\<lambda>t. \<lparr>oc_column = ot_column t, oc_desc = ot_descending t,
               oc_nulls_first = (if ot_nulls t = Some ''first'' then Some True
                                 else if ot_nulls t = Some ''last'' then Some False else None)\<rparr>) terms"

text \<open>PostgreSQL sorts NULLs last under ASC and first under DESC unless the clause says otherwise.\<close>

definition cell_before :: "bool \<Rightarrow> bool \<Rightarrow> 'v::linorder option \<Rightarrow> 'v option \<Rightarrow> bool" where
  "cell_before desc nulls_first a b =
     (case (a, b) of
        (None, None) \<Rightarrow> False
      | (None, Some y) \<Rightarrow> nulls_first
      | (Some x, None) \<Rightarrow> \<not> nulls_first
      | (Some x, Some y) \<Rightarrow> (if desc then y < x else x < y))"

fun row_before :: "order_clause list \<Rightarrow> ('v::linorder) cells \<Rightarrow> 'v cells \<Rightarrow> bool" where
  "row_before [] r s = False"
| "row_before (c # cs) r s \<longleftrightarrow>
     cell_before (oc_desc c) (case oc_nulls_first c of None \<Rightarrow> oc_desc c | Some b \<Rightarrow> b)
       (r (oc_column c)) (s (oc_column c))
     \<or> r (oc_column c) = s (oc_column c) \<and> row_before cs r s"

lemma cell_before_irrefl [simp]: "\<not> cell_before d n a a"
  by (cases a) (auto simp: cell_before_def)

lemma cell_before_trans: "cell_before d n a b \<Longrightarrow> cell_before d n b c \<Longrightarrow> cell_before d n a c"
  by (cases a; cases b; cases c) (auto simp: cell_before_def split: if_splits)

lemma row_before_irrefl [simp]: "\<not> row_before cs r r"
  by (induction cs) auto

lemma row_before_trans: "row_before cs a b \<Longrightarrow> row_before cs b c \<Longrightarrow> row_before cs a c"
  by (induction cs) (auto dest: cell_before_trans)

section \<open>The keyset comparator\<close>

definition effective_nulls :: "order_term \<Rightarrow> string" where
  "effective_nulls t =
     (case ot_nulls t of Some n \<Rightarrow> n | None \<Rightarrow> if ot_descending t then ''first'' else ''last'')"

definition flip_nulls :: "order_term \<Rightarrow> string option" where
  "flip_nulls t = Some (if effective_nulls t = ''first'' then ''last'' else ''first'')"

definition bind_value :: "pyval \<Rightarrow> nat \<Rightarrow> string option \<Rightarrow> sql_expr" where
  "bind_value v index ty = Bind (''__ks_'' @ show_nat index) v ty"

definition column_after :: "order_term \<Rightarrow> sql_expr \<Rightarrow> pyval \<Rightarrow> sql_expr option \<Rightarrow> predicate" where
  "column_after t bound v column_expr =
     (let col = (case column_expr of None \<Rightarrow> Column (ot_column t) | Some e \<Rightarrow> e);
          placement = effective_nulls t;
          value_is_null = (v = VNone)
      in if \<not> ot_descending t \<and> placement = ''last'' then
           (if value_is_null then Cmp Ne col col else Or_Any [Is_Null col, Cmp Gt col bound])
         else if \<not> ot_descending t \<and> placement = ''first'' then
           (if value_is_null then Not_Null col else And_All [Not_Null col, Cmp Gt col bound])
         else if ot_descending t \<and> placement = ''first'' then
           (if value_is_null then Not_Null col else And_All [Not_Null col, Cmp Lt col bound])
         else (if value_is_null then Cmp Ne col col else Or_Any [Is_Null col, Cmp Lt col bound]))"

text \<open>\<open>_recursive_after\<close>, on the terms with their values and bounds; no term at all is an index error.\<close>

fun recursive_after ::
  "(order_term \<times> pyval \<times> sql_expr) list \<Rightarrow> (string \<Rightarrow> sql_expr option) \<Rightarrow> predicate res" where
  "recursive_after [] exprs = Inl (IndexError ''list index out of range'')"
| "recursive_after [(t, v, b)] exprs = Inr (column_after t b v (exprs (ot_column t)))"
| "recursive_after ((t, v, b) # x # xs) exprs =
     (let expr = exprs (ot_column t);
          col = (case expr of None \<Rightarrow> Column (ot_column t) | Some e \<Rightarrow> e);
          gt = column_after t b v expr
      in bind_res (recursive_after (x # xs) exprs)
           (\<lambda>rest. Inr (Or_Any [gt, And_All [Not_Distinct col b, rest]])))"

definition flip_term :: "order_term \<Rightarrow> order_term" where
  "flip_term t = \<lparr>ot_column = ot_column t, ot_descending = \<not> ot_descending t, ot_nulls = flip_nulls t\<rparr>"

definition keyset_where ::
  "order_term list \<Rightarrow> pyval list \<Rightarrow> bool \<Rightarrow> (string \<Rightarrow> string option)
   \<Rightarrow> (string \<Rightarrow> sql_expr option) \<Rightarrow> predicate res" where
  "keyset_where order_terms vals after types exprs =
     (let terms = (if after then order_terms
                   else map flip_term order_terms)
      in bind_res
           (map_res (\<lambda>(i, t). if i < length vals
              then Inr (t, vals ! i, bind_value (vals ! i) i (types (ot_column t)))
              else Inl (IndexError ''list index out of range'')) (enumerate 0 terms))
           (\<lambda>xs. recursive_after xs exprs))"

section \<open>The comparator and the ORDER BY agree\<close>

definition valid_term :: "order_term \<Rightarrow> bool" where
  "valid_term t \<longleftrightarrow> ot_nulls t \<in> {None, Some ''first'', Some ''last''}"

definition term_before :: "order_term \<Rightarrow> ('v::linorder) cells \<Rightarrow> 'v cells \<Rightarrow> bool" where
  "term_before t r s =
     cell_before (ot_descending t) (effective_nulls t = ''first'') (r (ot_column t)) (s (ot_column t))"

fun terms_before :: "order_term list \<Rightarrow> ('v::linorder) cells \<Rightarrow> 'v cells \<Rightarrow> bool" where
  "terms_before [] r s = False"
| "terms_before (t # ts) r s \<longleftrightarrow>
     term_before t r s \<or> r (ot_column t) = s (ot_column t) \<and> terms_before ts r s"

lemma effective_nulls_valid: "valid_term t \<Longrightarrow> effective_nulls t = ''first'' \<or> effective_nulls t = ''last''"
  by (auto simp: valid_term_def effective_nulls_def)

lemma row_before_terms:
  "\<forall>t \<in> set ts. valid_term t \<Longrightarrow> row_before (order_clauses ts) r s = terms_before ts r s"
proof (induction ts)
  case (Cons t ts)
  then have IH: "row_before (order_clauses ts) r s = terms_before ts r s" by simp
  from Cons.prems consider "ot_nulls t = None" | "ot_nulls t = Some ''first''" | "ot_nulls t = Some ''last''"
    by (auto simp: valid_term_def)
  then show ?case
    by cases (use IH in \<open>simp_all add: order_clauses_def term_before_def effective_nulls_def\<close>)
qed (simp add: order_clauses_def)

text \<open>One column: the predicate of \<open>column_after\<close> holds exactly on the rows after the bound value.\<close>

lemma column_after_true:
  assumes t: "valid_term t" and col: "eval_expr db r (case e of None \<Rightarrow> Column (ot_column t) | Some x \<Rightarrow> x) = q (ot_column t)"
    and b: "eval_expr db r b = s (ot_column t)" and v: "(v = VNone) = (s (ot_column t) = None)"
  shows "sql_true db r (column_after t b v e) \<longleftrightarrow> term_before t s q"
  using effective_nulls_valid [OF t] col b v
  by (cases "ot_descending t"; cases "s (ot_column t)"; cases "q (ot_column t)")
    (auto simp: column_after_def term_before_def cell_before_def Let_def)

text \<open>What the database makes of the bounds: the cursor row's cells.\<close>

definition binds_row ::
  "('v::linorder) database \<Rightarrow> 'v cells \<Rightarrow> (order_term \<times> pyval \<times> sql_expr) list \<Rightarrow> bool" where
  "binds_row db s xs \<longleftrightarrow>
     (\<forall>(t, v, b) \<in> set xs. (\<forall>r. eval_expr db r b = s (ot_column t)) \<and> (v = VNone) = (s (ot_column t) = None))"

text \<open>The cells a column stands for, or the expression given in its place.\<close>

definition exprs_give ::
  "('v::linorder) database \<Rightarrow> 'v cells \<Rightarrow> (string \<Rightarrow> sql_expr option) \<Rightarrow> string set \<Rightarrow> 'v cells \<Rightarrow> bool" where
  "exprs_give db r exprs cols q \<longleftrightarrow>
     (\<forall>c \<in> cols. eval_expr db r (case exprs c of None \<Rightarrow> Column c | Some x \<Rightarrow> x) = q c)"

definition exprs_ok :: "('v::linorder) database \<Rightarrow> 'v cells \<Rightarrow> (string \<Rightarrow> sql_expr option) \<Rightarrow> bool" where
  "exprs_ok db r exprs \<longleftrightarrow> (\<forall>c e. exprs c = Some e \<longrightarrow> eval_expr db r e = r c)"

lemma exprs_ok_give: "exprs_ok db r exprs \<Longrightarrow> exprs_give db r exprs cols r"
  by (auto simp: exprs_ok_def exprs_give_def split: option.split)

lemma recursive_after_true:
  assumes "recursive_after xs exprs = Inr p" and "binds_row db s xs" and "exprs_give db r exprs (ot_column ` fst ` set xs) q"
    and "\<forall>t \<in> fst ` set xs. valid_term t"
  shows "sql_true db r p \<longleftrightarrow> terms_before (map fst xs) s q"
  using assms
proof (induction xs exprs arbitrary: p rule: recursive_after.induct)
  case (2 t v b exprs)
  then have "sql_true db r (column_after t b v (exprs (ot_column t))) \<longleftrightarrow> term_before t s q"
    by (intro column_after_true) (auto simp: binds_row_def exprs_give_def)
  with 2 show ?case by simp
next
  case (3 t v b x xs exprs)
  from 3(2) obtain rest where rest: "recursive_after (x # xs) exprs = Inr rest"
    and p: "p = Or_Any [column_after t b v (exprs (ot_column t)),
      And_All [Not_Distinct (case exprs (ot_column t) of None \<Rightarrow> Column (ot_column t) | Some e \<Rightarrow> e) b, rest]]"
    by (auto simp: bind_res_Inr_iff Let_def)
  have col: "eval_expr db r (case exprs (ot_column t) of None \<Rightarrow> Column (ot_column t) | Some e \<Rightarrow> e) = q (ot_column t)"
    using 3(4) by (simp add: exprs_give_def)
  have "sql_true db r (column_after t b v (exprs (ot_column t))) \<longleftrightarrow> term_before t s q"
    using 3(3,5) col by (intro column_after_true) (auto simp: binds_row_def)
  moreover have "sql_true db r rest \<longleftrightarrow> terms_before (map fst (x # xs)) s q"
    using 3(3-5) by (intro 3(1) [OF refl refl refl rest]) (auto simp: binds_row_def exprs_give_def)
  moreover have "eval_expr db r b = s (ot_column t)" using 3(3) by (simp add: binds_row_def)
  ultimately show ?case using col by (simp add: p) auto
qed simp

lemma recursive_after_total: "xs \<noteq> [] \<Longrightarrow> \<exists>p. recursive_after xs exprs = Inr p"
proof (induction xs exprs rule: recursive_after.induct)
  case (3 t v b x xs exprs)
  then obtain q where "recursive_after (x # xs) exprs = Inr q" by blast
  then show ?case by (simp add: Let_def)
qed simp_all

lemma flip_term_before:
  "valid_term t \<Longrightarrow> term_before (flip_term t) r s = term_before t s r"
  using effective_nulls_valid [of t]
  by (cases "r (ot_column t)"; cases "s (ot_column t)")
    (auto simp: term_before_def flip_term_def flip_nulls_def effective_nulls_def cell_before_def)

lemma flip_terms_before:
  "\<forall>t \<in> set ts. valid_term t \<Longrightarrow> terms_before (map flip_term ts) r s = terms_before ts s r"
  by (induction ts) (auto simp: flip_term_before, auto simp: flip_term_def)

section \<open>The keyset predicate\<close>

text \<open>The cells of the cursor row are what the database makes of the cursor's values.\<close>

definition cursor_row ::
  "('v::linorder) database \<Rightarrow> (string \<Rightarrow> string option) \<Rightarrow> order_term list \<Rightarrow> pyval list \<Rightarrow> 'v cells \<Rightarrow> bool" where
  "cursor_row db types ts vals s \<longleftrightarrow> length vals = length ts
     \<and> (\<forall>i < length ts. coerce db (types (ot_column (ts ! i))) (vals ! i) = s (ot_column (ts ! i))
          \<and> (vals ! i = VNone) = (s (ot_column (ts ! i)) = None))"

lemma keyset_entries:
  assumes len: "length vals = length ts"
  shows "map_res (\<lambda>(i, t). if i < length vals
              then Inr (t, vals ! i, bind_value (vals ! i) i (types (ot_column t)))
              else Inl (IndexError ''list index out of range'')) (enumerate 0 ts)
         = Inr (map (\<lambda>(i, t). (t, vals ! i, bind_value (vals ! i) i (types (ot_column t)))) (enumerate 0 ts))"
  using len by (intro map_res_Inr) (auto simp: in_set_enumerate_eq)

lemma keyset_gives:
  assumes cursor: "cursor_row db types ts vals s" and ts: "\<forall>t \<in> set ts. valid_term t" "ts \<noteq> []"
    and exprs: "exprs_give db r exprs (ot_column ` set ts) q"
  obtains p where "keyset_where ts vals after types exprs = Inr p"
    and "sql_true db r p \<longleftrightarrow> (if after then terms_before ts s q else terms_before ts q s)"
proof -
  define us where "us = (if after then ts else map flip_term ts)"
  have len: "length vals = length us" using cursor by (simp add: us_def cursor_row_def)
  have cols: "ot_column (us ! i) = ot_column (ts ! i)" if "i < length us" for i
    using that by (auto simp: us_def flip_term_def split: if_splits)
  define xs where "xs = map (\<lambda>(i, t). (t, vals ! i, bind_value (vals ! i) i (types (ot_column t)))) (enumerate 0 us)"
  have fst_xs: "map fst xs = us"
    by (simp add: xs_def o_def case_prod_beta' enumerate_eq_zip snd_def [symmetric])
  have "us \<noteq> []" using ts(2) by (simp add: us_def)
  with fst_xs have "xs \<noteq> []" by auto
  then obtain p where p: "recursive_after xs exprs = Inr p" using recursive_after_total by blast
  have "binds_row db s xs"
    using cursor len cols by (auto simp: binds_row_def xs_def in_set_enumerate_eq bind_value_def cursor_row_def us_def)
  moreover have "\<forall>t \<in> fst ` set xs. valid_term t"
  proof -
    have "fst ` set xs = set us" using fst_xs by (metis set_map)
    with ts(1) show ?thesis by (auto simp: us_def flip_term_def valid_term_def flip_nulls_def)
  qed
  moreover have "ot_column ` fst ` set xs = ot_column ` set ts"
  proof -
    have "fst ` set xs = set us" using fst_xs by (metis set_map)
    then show ?thesis by (auto simp: us_def flip_term_def image_image)
  qed
  ultimately have "sql_true db r p \<longleftrightarrow> terms_before us s q"
    using recursive_after_true [OF p, of db s r q] exprs fst_xs by simp
  also have "\<dots> \<longleftrightarrow> (if after then terms_before ts s q else terms_before ts q s)"
    using ts(1) by (simp add: us_def flip_terms_before)
  finally show thesis
    using that [of p] p keyset_entries [OF len, of types]
    by (simp add: keyset_where_def us_def xs_def Let_def)
qed

lemma keyset_true:
  assumes "cursor_row db types ts vals s" and "\<forall>t \<in> set ts. valid_term t" "ts \<noteq> []" and "exprs_ok db r exprs"
  obtains p where "keyset_where ts vals after types exprs = Inr p"
    and "sql_true db r p \<longleftrightarrow> (if after then terms_before ts s r else terms_before ts r s)"
  by (rule keyset_gives [OF assms(1-3) exprs_ok_give [OF assms(4)], of "after"], rule that)

end
