(* ===== verification/Pg_Page.thy ===== *)
theory Pg_Page
  imports Pg_Order Plan_Cache
begin

text \<open>
  The per-parent window slice (\<open>src/src/grafast_py/pg/pagination.py\<close>), value-less placeholders
  (\<open>src/src/grafast_py/pg/placeholders.py\<close>) and the parameters a shared statement is rendered with
  (\<open>where_params\<close> in \<open>src/src/grafast_py/pg/customize.py\<close>).
\<close>

section \<open>Placeholders\<close>

text \<open>A pagination value: what a plan fixed, or the source tag of a request value. A context token is
  its source tag.\<close>

datatype page_value = Plain pyval | Placeholder string

definition placeholder_eq :: "page_value \<Rightarrow> page_value \<Rightarrow> bool" where
  "placeholder_eq a b =
     (case (a, b) of
        (Placeholder s, Placeholder t) \<Rightarrow> s = t
      | (Plain v, Plain w) \<Rightarrow> py_eq v w
      | _ \<Rightarrow> False)"

definition placeholder_source_tag :: "page_value \<Rightarrow> string option" where
  "placeholder_source_tag v = (case v of Placeholder s \<Rightarrow> Some s | Plain _ \<Rightarrow> None)"

definition is_ctx_source :: "string \<Rightarrow> bool" where
  "is_ctx_source source = (take 4 source = ''ctx:'')"

text \<open>A value of the request by its source tag: a context entry, read afresh and failing loudly, or a
  variable, \<open>None\<close> when the map has none.\<close>

definition source_value :: "pyval \<Rightarrow> (string \<times> pyval) list \<Rightarrow> string \<Rightarrow> pyval res" where
  "source_value context source_values source =
     (if is_ctx_source source then
        (case context of
           VDict d \<Rightarrow> (case map_of d (drop 4 source) of None \<Rightarrow> Inl (KeyError (drop 4 source)) | Some v \<Rightarrow> Inr v)
         | _ \<Rightarrow> getattr context (SKey (drop 4 source)))
      else Inr (case map_of source_values source of None \<Rightarrow> VNone | Some v \<Rightarrow> v))"

definition resolve_placeholder :: "page_value \<Rightarrow> pyval \<Rightarrow> (string \<times> pyval) list \<Rightarrow> pyval res" where
  "resolve_placeholder v context source_values =
     (case v of Placeholder s \<Rightarrow> source_value context source_values s | Plain w \<Rightarrow> Inr w)"

text \<open>A bind of a WHERE predicate: its name comes from a process-wide counter, the source tag and the
  transform are side attributes. A placeholder carries no value and does not require one; the binds a
  comparison makes have a value and no source.\<close>

record 'f bind_param =
  bp_name :: string
  bp_type :: "string option"
  bp_source :: "string option"
  bp_transform :: "'f option"
  bp_value :: pyval
  bp_required :: bool

definition pg_placeholder ::
  "nat \<Rightarrow> string \<Rightarrow> string option \<Rightarrow> 'f option \<Rightarrow> 'f bind_param \<times> nat" where
  "pg_placeholder counter source ty transform =
     (\<lparr>bp_name = ''grafast_ph_'' @ show_nat counter, bp_type = ty, bp_source = Some source,
       bp_transform = transform, bp_value = VNone, bp_required = False\<rparr>, counter + 1)"

text \<open>The registry of a step: placeholder binds by name, and their transforms.\<close>

record 'f customization =
  cz_binds :: "(string \<times> string) list"
  cz_transforms :: "(string \<times> 'f) list"

definition register_placeholder_binds ::
  "'f bind_param list \<Rightarrow> 'f customization \<Rightarrow> 'f customization" where
  "register_placeholder_binds bs cz =
     cz\<lparr>cz_binds := foldl (\<lambda>m b. case bp_source b of None \<Rightarrow> m | Some s \<Rightarrow> dict_set m (bp_name b) s) (cz_binds cz) bs,
        cz_transforms := foldl (\<lambda>m b. case bp_transform b of None \<Rightarrow> m | Some f \<Rightarrow> dict_set m (bp_name b) f)
          (cz_transforms cz) bs\<rparr>"

definition where_params ::
  "('f \<Rightarrow> pyval \<Rightarrow> pyval res) \<Rightarrow> pyval \<Rightarrow> (string \<times> pyval) list \<Rightarrow> 'f customization
   \<Rightarrow> (string \<times> pyval) list res" where
  "where_params call_transform context source_values cz =
     map_res (\<lambda>(name, source).
       bind_res (source_value context source_values source) (\<lambda>v.
         bind_res (case map_of (cz_transforms cz) name of None \<Rightarrow> Inr v | Some f \<Rightarrow> call_transform f v)
           (\<lambda>w. Inr (name, w)))) (cz_binds cz)"

section \<open>A shared statement is rendered with the request's own values\<close>

lemma map_of_tagged: "map_of (map (\<lambda>(x, v). (tag @ x, v)) vars) (tag @ y) = map_of vars y"
  for tag :: string
  by (induction vars) auto

lemma map_of_defaults:
  fixes tag :: string
  shows "map_of (foldl (\<lambda>m x. if map_of m (tag @ x) = None then m @ [(tag @ x, VNone)] else m) m ys) (tag @ x)
    = (case map_of m (tag @ x) of Some v \<Rightarrow> Some v | None \<Rightarrow> if x \<in> set ys then Some VNone else None)"
proof (induction ys arbitrary: m)
  case (Cons y ys)
  then show ?case by (cases "x = y") (auto simp: map_add_def split: option.split)
qed (simp split: option.split)

lemma values_by_source_lookup:
  "map_of (values_by_source vars op) (''var:'' @ x) =
     (case map_of vars x of
        Some v \<Rightarrow> Some v
      | None \<Rightarrow> (case op of None \<Rightarrow> None | Some p \<Rightarrow> if x \<in> set (op_variables p) then Some VNone else None))"
  unfolding values_by_source_def map_of_defaults map_of_tagged by (cases op) (simp_all split: option.split)

lemma ctx_tag: "is_ctx_source (''ctx:'' @ k)" "drop 4 (''ctx:'' @ k) = k"
  by (simp_all add: is_ctx_source_def)

lemma var_tag: "\<not> is_ctx_source (''var:'' @ x)"
  by (simp add: is_ctx_source_def)

lemma source_value_var:
  "source_value context (values_by_source vars op) (''var:'' @ x)
     = Inr (case map_of vars x of Some v \<Rightarrow> v | None \<Rightarrow> VNone)"
  unfolding source_value_def if_not_P [OF var_tag] values_by_source_lookup
  by (cases op) (auto split: option.split)

lemma source_value_ctx:
  "source_value (VDict d) source_values (''ctx:'' @ k)
     = (case map_of d k of None \<Rightarrow> Inl (KeyError k) | Some v \<Rightarrow> Inr v)"
  unfolding source_value_def if_P [OF ctx_tag(1)] ctx_tag(2) by simp

lemma where_params_result:
  assumes "where_params call_transform context source_values cz = Inr params"
  shows "map fst params = map fst (cz_binds cz)
    \<and> (\<forall>i < length params. \<exists>v. source_value context source_values (snd (cz_binds cz ! i)) = Inr v
         \<and> (case map_of (cz_transforms cz) (fst (cz_binds cz ! i)) of
               None \<Rightarrow> snd (params ! i) = v
             | Some f \<Rightarrow> call_transform f v = Inr (snd (params ! i))))"
proof -
  have *: "list_all2 (\<lambda>b q. fst q = fst b \<and> (\<exists>v. source_value context source_values (snd b) = Inr v
      \<and> (case map_of (cz_transforms cz) (fst b) of None \<Rightarrow> snd q = v | Some f \<Rightarrow> call_transform f v = Inr (snd q))))
      (cz_binds cz) params"
    using assms unfolding where_params_def map_res_list_all2
  proof (rule list_all2_mono)
    fix b q
    assume "(case b of (name, source) \<Rightarrow> bind_res (source_value context source_values source) (\<lambda>v.
        bind_res (case map_of (cz_transforms cz) name of None \<Rightarrow> Inr v | Some f \<Rightarrow> call_transform f v)
          (\<lambda>w. Inr (name, w)))) = Inr q"
    then obtain v w where "source_value context source_values (snd b) = Inr v"
      "(case map_of (cz_transforms cz) (fst b) of None \<Rightarrow> Inr v | Some f \<Rightarrow> call_transform f v) = Inr w"
      "q = (fst b, w)" by (auto simp: bind_res_Inr_iff case_prod_beta')
    then show "fst q = fst b \<and> (\<exists>v. source_value context source_values (snd b) = Inr v
      \<and> (case map_of (cz_transforms cz) (fst b) of None \<Rightarrow> snd q = v | Some f \<Rightarrow> call_transform f v = Inr (snd q)))"
      by (cases "map_of (cz_transforms cz) (fst b)") auto
  qed
  then have "map fst params = map fst (cz_binds cz)"
    by (intro nth_equalityI) (simp_all add: list_all2_conv_all_nth)
  with * show ?thesis by (simp add: list_all2_conv_all_nth)
qed

text \<open>Bind names are never used twice, whatever order the placeholders are made in.\<close>

lemma show_nat_inj: "show_nat m = show_nat n \<Longrightarrow> m = n"
  by (metis show_nat_read)

lemma placeholder_names_distinct:
  "bp_name (fst (pg_placeholder m s t f)) = bp_name (fst (pg_placeholder n s' t' f')) \<longleftrightarrow> m = n"
  by (auto simp: pg_placeholder_def dest: show_nat_inj)

section \<open>The window slice\<close>

datatype key_match = Any_Key string | Tuple_In "string list"

definition match_clause :: "string list \<Rightarrow> key_match" where
  "match_clause match_columns =
     (case match_columns of [c] \<Rightarrow> Any_Key c | cs \<Rightarrow> Tuple_In cs)"

record window_query =
  wq_table :: "string \<times> string"
  wq_inner_columns :: "string list"
  wq_match :: key_match
  wq_where :: "predicate list"
  wq_partition :: "string list"
  wq_order :: "order_clause list"
  wq_columns :: "string list"
  wq_bounded :: bool

definition window_slice ::
  "string \<Rightarrow> string \<Rightarrow> string list \<Rightarrow> string list \<Rightarrow> order_term list \<Rightarrow> pyval option
   \<Rightarrow> predicate list \<Rightarrow> string list \<Rightarrow> window_query" where
  "window_slice schema table_name columns match_columns order_by first where_predicates computed =
     \<lparr>wq_table = (schema, table_name), wq_inner_columns = columns @ computed,
      wq_match = match_clause match_columns, wq_where = where_predicates,
      wq_partition = match_columns, wq_order = order_clauses order_by,
      wq_columns = columns @ computed, wq_bounded = (first \<noteq> None)\<rparr>"

definition window_slice_params :: "pyval option \<Rightarrow> pyval \<Rightarrow> (string \<times> pyval) list" where
  "window_slice_params first offset =
     (''offset'', offset) # (case first of None \<Rightarrow> [] | Some f \<Rightarrow> [(''first'', f)])"

text \<open>
  What the database returns for the statement. \<open>row_number()\<close> counts a row's predecessors in its
  partition; the outer query keeps the bounded numbers and orders by them.
\<close>

definition key_cells :: "key_match \<Rightarrow> 'v cells \<Rightarrow> 'v option list" where
  "key_cells m r = (case m of Any_Key c \<Rightarrow> [r c] | Tuple_In cs \<Rightarrow> map r cs)"

definition matches_key :: "key_match \<Rightarrow> 'v list set \<Rightarrow> 'v cells \<Rightarrow> bool" where
  "matches_key m keys r \<longleftrightarrow> (\<exists>k \<in> keys. key_cells m r = map Some k)"

definition inner_rows ::
  "('v::linorder) database \<Rightarrow> window_query \<Rightarrow> 'v list set \<Rightarrow> 'v cells list \<Rightarrow> 'v cells list" where
  "inner_rows db q keys rows =
     filter (\<lambda>r. matches_key (wq_match q) keys r \<and> (\<forall>p \<in> set (wq_where q). sql_true db r p)) rows"

definition row_number :: "window_query \<Rightarrow> ('v::linorder) cells list \<Rightarrow> 'v cells \<Rightarrow> nat" where
  "row_number q rows r =
     Suc (length (filter (\<lambda>s. map s (wq_partition q) = map r (wq_partition q) \<and> row_before (wq_order q) s r) rows))"

definition run_window ::
  "('v::linorder) database \<Rightarrow> window_query \<Rightarrow> 'v list set \<Rightarrow> int \<Rightarrow> int \<Rightarrow> 'v cells list \<Rightarrow> 'v cells list" where
  "run_window db q keys offset first rows =
     (let inner = inner_rows db q keys rows;
          rn = row_number q inner
      in sort_key rn (filter (\<lambda>r. offset < int (rn r) \<and> (wq_bounded q \<longrightarrow> int (rn r) \<le> offset + first)) inner))"

section \<open>Every parent gets its own page\<close>

lemma mem_drop: "r \<in> set (drop m xs) \<longleftrightarrow> (\<exists>i < length xs. r = xs ! i \<and> m \<le> i)"
proof
  assume "r \<in> set (drop m xs)"
  then obtain j where "j < length xs - m" "r = xs ! (m + j)" by (auto simp: in_set_conv_nth)
  then show "\<exists>i < length xs. r = xs ! i \<and> m \<le> i" by (intro exI [of _ "m + j"]) auto
next
  assume "\<exists>i < length xs. r = xs ! i \<and> m \<le> i"
  then obtain i where "i < length xs" "r = xs ! i" "m \<le> i" by blast
  then show "r \<in> set (drop m xs)"
    by (auto simp: in_set_conv_nth intro!: exI [of _ "i - m"])
qed

lemma mem_slice: "r \<in> set (take n (drop m xs)) \<longleftrightarrow> (\<exists>i < length xs. r = xs ! i \<and> m \<le> i \<and> i < m + n)"
proof -
  have "take n (drop m xs) = drop m (take (m + n) xs)" by (simp add: drop_take)
  then show ?thesis by (simp only: mem_drop) auto
qed

lemma sorted_predecessors:
  assumes "sorted_wrt R xs" and "\<And>x. \<not> R x x" and "\<And>x y z. R x y \<Longrightarrow> R y z \<Longrightarrow> R x z" and "i < length xs"
  shows "length (filter (\<lambda>s. R s (xs ! i)) xs) = i"
proof -
  have "R (xs ! j) (xs ! i) \<longleftrightarrow> j < i" if "j < length xs" for j
    using assms that by (metis linorder_neqE_nat sorted_wrt_nth_less)
  then have "{j. j < length xs \<and> R (xs ! j) (xs ! i)} = {..<i}" using assms(4) by auto
  then show ?thesis by (simp add: length_filter_conv_card)
qed

lemma sort_key_unique:
  fixes f :: "'a \<Rightarrow> nat"
  assumes "set xs = set ys" and "distinct xs" and "distinct ys" and "sorted_wrt (\<lambda>a b. f a < f b) ys"
  shows "sort_key f xs = ys"
proof -
  have inj: "inj_on f (set ys)"
  proof (rule inj_onI)
    fix x y assume "x \<in> set ys" "y \<in> set ys" "f x = f y"
    with assms(4) show "x = y" by (metis in_set_conv_nth linorder_neqE_nat nat_neq_iff sorted_wrt_nth_less)
  qed
  have "sorted (map f ys)" using assms(4) by (simp add: sorted_wrt_map sorted_wrt_mono_rel [of _ "\<lambda>a b. f a < f b"])
  then have "map f (sort_key f xs) = map f ys"
    using assms(1,2,3) inj
    by (intro sorted_distinct_set_unique) (auto simp: distinct_map)
  then show ?thesis using inj assms(1)
    by (metis (no_types, lifting) inj_on_map_eq_map set_sort sup.idem)
qed

lemma filter_sort_key: "filter P (sort_key f xs) = sort_key f (filter P xs)"
  by (rule filter_sort)

text \<open>A slice of numbered rows: when a class of rows is numbered from one in the order \<open>xs\<close>, keeping an
  interval of numbers keeps an interval of \<open>xs\<close>.\<close>

lemma numbered_slice:
  fixes rn :: "'a \<Rightarrow> nat"
  assumes rn: "\<And>i. i < length xs \<Longrightarrow> rn (xs ! i) = Suc i"
    and xs: "set xs = {r \<in> set inner. P r}" "distinct xs" and di: "distinct inner"
    and off: "0 \<le> offset" and fst: "0 \<le> first"
  shows "filter P (sort_key rn (filter (\<lambda>r. offset < int (rn r) \<and> (bounded \<longrightarrow> int (rn r) \<le> offset + first)) inner))
    = (if bounded then take (nat first) (drop (nat offset) xs) else drop (nat offset) xs)"
proof -
  let ?keep = "\<lambda>r. offset < int (rn r) \<and> (bounded \<longrightarrow> int (rn r) \<le> offset + first)"
  let ?ys = "if bounded then take (nat first) (drop (nat offset) xs) else drop (nat offset) xs"
  have set_ys: "set ?ys = {r \<in> set xs. ?keep r}"
  proof -
    have "r \<in> set ?ys \<longleftrightarrow> (\<exists>i < length xs. r = xs ! i \<and> nat offset \<le> i \<and> (bounded \<longrightarrow> i < nat offset + nat first))" for r
      by (cases bounded) (simp_all add: mem_drop mem_slice)
    moreover have "r \<in> set xs \<and> ?keep r
        \<longleftrightarrow> (\<exists>i < length xs. r = xs ! i \<and> nat offset \<le> i \<and> (bounded \<longrightarrow> i < nat offset + nat first))" for r
      using off fst by (auto simp: in_set_conv_nth rn)
    ultimately show ?thesis by blast
  qed
  have "sorted_wrt (\<lambda>a b. rn a < rn b) xs" by (simp add: sorted_wrt_iff_nth_less rn)
  then have srt: "sorted_wrt (\<lambda>a b. rn a < rn b) ?ys" by (simp add: sorted_wrt_drop sorted_wrt_take)
  have "filter P (sort_key rn (filter ?keep inner)) = sort_key rn (filter P (filter ?keep inner))"
    by (rule filter_sort_key)
  also have "\<dots> = ?ys"
    using di xs set_ys srt by (intro sort_key_unique) auto
  finally show ?thesis .
qed

text \<open>The number of a row in its partition is its place in the sorted partition.\<close>

lemma partition_number:
  assumes di: "distinct inner" and xs: "set xs = {r \<in> set inner. P r}" "distinct xs"
    and srt: "sorted_wrt R xs" and R: "\<And>x. \<not> R x x" "\<And>x y z. R x y \<Longrightarrow> R y z \<Longrightarrow> R x z" and i: "i < length xs"
  shows "length (filter (\<lambda>s. P s \<and> R s (xs ! i)) inner) = i"
proof -
  have "length (filter (\<lambda>s. P s \<and> R s (xs ! i)) inner) = card {s \<in> set inner. P s \<and> R s (xs ! i)}"
    using di by (simp add: distinct_length_filter Int_def conj_commute)
  also have "\<dots> = card {s \<in> set xs. R s (xs ! i)}"
    using xs(1) by (intro arg_cong [where f = card]) auto
  also have "\<dots> = length (filter (\<lambda>s. R s (xs ! i)) xs)"
    using xs(2) by (metis distinct_card distinct_filter set_filter)
  also have "\<dots> = i" by (rule sorted_predecessors [OF srt R i])
  finally show ?thesis .
qed

lemma window_page:
  fixes rows :: "('v::linorder) cells list"
  assumes inner: "inner = inner_rows db q keys rows" and d: "distinct rows"
    and q: "wq_partition q = cols"
    and page: "set xs = {r \<in> set inner. map r cols = key}" "distinct xs" "sorted_wrt (row_before (wq_order q)) xs"
    and off: "0 \<le> offset" and fst: "0 \<le> first"
  shows "filter (\<lambda>r. map r cols = key) (run_window db q keys offset first rows)
    = (if wq_bounded q then take (nat first) (drop (nat offset) xs) else drop (nat offset) xs)"
proof -
  have di: "distinct inner" using d by (simp add: inner inner_rows_def)
  have rn: "row_number q inner (xs ! i) = Suc i" if "i < length xs" for i
  proof -
    have "map (xs ! i) cols = key" using page(1) that nth_mem by blast
    then show ?thesis
      using partition_number [OF di page(1,2,3) row_before_irrefl row_before_trans that]
      by (simp add: row_number_def q)
  qed
  show ?thesis
    using numbered_slice [OF rn page(1,2) di off fst, of "wq_bounded q"]
    by (simp add: run_window_def Let_def inner)
qed

end
