(* ===== verification/Pg_Cursor.thy ===== *)
theory Pg_Cursor
  imports Pg_Order
begin

text \<open>
  Keyset cursors (\<open>src/src/grafast_py/pg/cursor.py\<close>): the opaque token, its validation, and what
  seeking by it selects. The hash and the text of non-native values (\<open>isoformat\<close>, \<open>str\<close>) are
  parameters.
\<close>

section \<open>Encoding and decoding\<close>

definition order_digest :: "(string \<Rightarrow> string) \<Rightarrow> order_term list \<Rightarrow> string res" where
  "order_digest sha256 order_terms =
     bind_res (json_dumps (VList (map (\<lambda>t. VTuple [VStr (ot_column t), VBool (ot_descending t),
                                                VStr (effective_nulls t)]) order_terms)))
       (\<lambda>raw. Inr (take 12 (sha256 raw)))"

fun encode_value :: "(pyval \<Rightarrow> string) \<Rightarrow> pyval \<Rightarrow> pyval" where
  "encode_value to_text VNone = VNone"
| "encode_value to_text (VInt i) = VInt i"
| "encode_value to_text (VStr s) = VStr s"
| "encode_value to_text (VBool b) = VBool b"
| "encode_value to_text v = VStr (to_text v)"

definition encode_keyset_cursor ::
  "(string \<Rightarrow> string) \<Rightarrow> (pyval \<Rightarrow> string) \<Rightarrow> order_term list \<Rightarrow> (string \<times> pyval) list \<Rightarrow> string res" where
  "encode_keyset_cursor sha256 to_text order_terms row =
     bind_res (order_digest sha256 order_terms) (\<lambda>digest.
     bind_res (map_res (\<lambda>t. case map_of row (ot_column t) of
                 None \<Rightarrow> Inl (ValueError ''cannot encode keyset cursor: order column is not present in the row'')
               | Some v \<Rightarrow> Inr (encode_value to_text v)) order_terms) (\<lambda>vals.
     wrap_json Standard (VList (VStr digest # vals))))"

definition decode_keyset_cursor ::
  "(string \<Rightarrow> string) \<Rightarrow> string \<Rightarrow> order_term list \<Rightarrow> pyval list res" where
  "decode_keyset_cursor sha256 cursor order_terms =
     (case unwrap_json Standard cursor of
        None \<Rightarrow> Inl (ValueError ''malformed keyset cursor'')
      | Some (VList (digest # vals)) \<Rightarrow>
          bind_res (order_digest sha256 order_terms) (\<lambda>expected.
            if \<not> py_eq digest (VStr expected)
            then Inl (ValueError ''keyset cursor was minted for a different ordering'')
            else if length vals \<noteq> length order_terms
            then Inl (ValueError ''keyset cursor has a different number of values than the order has columns'')
            else Inr vals)
      | Some _ \<Rightarrow> Inl (ValueError ''malformed keyset cursor: not a value array''))"

section \<open>Round trip and rejection\<close>

definition canonical :: "order_term list \<Rightarrow> (string \<times> bool \<times> string) list" where
  "canonical ts = map (\<lambda>t. (ot_column t, ot_descending t, effective_nulls t)) ts"

definition canonical_json :: "(string \<times> bool \<times> string) list \<Rightarrow> pyval" where
  "canonical_json cs = VList (map (\<lambda>(c, d, n). VTuple [VStr c, VBool d, VStr n]) cs)"

lemma order_digest_canonical:
  "order_digest sha256 ts = bind_res (json_dumps (canonical_json (canonical ts))) (\<lambda>raw. Inr (take 12 (sha256 raw)))"
  by (simp add: order_digest_def canonical_def canonical_json_def o_def)

text \<open>The text that is hashed, and that it tells any two orderings apart.\<close>

definition canonical_text :: "(string \<times> bool \<times> string) list \<Rightarrow> string" where
  "canonical_text cs = (case json_dumps (canonical_json cs) of Inr raw \<Rightarrow> raw | Inl e \<Rightarrow> [])"

definition canonical_lists :: "(string \<times> bool \<times> string) list \<Rightarrow> pyval" where
  "canonical_lists cs = VList (map (\<lambda>(c, d, n). VList [VStr c, VBool d, VStr n]) cs)"

lemma canonical_lists_dumps: "json_dumps (canonical_json cs) = json_dumps (canonical_lists cs)"
proof -
  have "json_dumps_all (map (\<lambda>(c, d, n). VTuple [VStr c, VBool d, VStr n]) cs)
      = json_dumps_all (map (\<lambda>(c, d, n). VList [VStr c, VBool d, VStr n]) cs)"
    by (induction cs) auto
  then show ?thesis by (simp add: canonical_json_def canonical_lists_def)
qed

lemma canonical_text: "json_dumps (canonical_lists cs) = Inr (canonical_text cs)"
  and canonical_text_loads: "json_loads (canonical_text cs) = Inr (canonical_lists cs)"
proof -
  have "json_native (canonical_lists cs)" by (auto simp: canonical_lists_def)
  then obtain t where t: "json_dumps (canonical_lists cs) = Inr t" "json_loads t = Inr (canonical_lists cs)"
    using json_round_trip by blast
  then have "canonical_text cs = t" by (simp add: canonical_text_def canonical_lists_dumps)
  with t show "json_dumps (canonical_lists cs) = Inr (canonical_text cs)"
    and "json_loads (canonical_text cs) = Inr (canonical_lists cs)" by simp_all
qed

lemma canonical_lists_inj: "canonical_lists cs = canonical_lists ds \<Longrightarrow> cs = ds"
proof (induction cs arbitrary: ds)
  case (Cons c cs)
  then obtain e es where "ds = e # es" by (cases ds) (auto simp: canonical_lists_def)
  with Cons show ?case by (auto simp: canonical_lists_def split: prod.splits)
qed (auto simp: canonical_lists_def)

lemma canonical_text_inj: "canonical_text cs = canonical_text ds \<Longrightarrow> cs = ds"
  using canonical_text_loads [of cs] canonical_text_loads [of ds] canonical_lists_inj by simp

lemma order_digest_text: "order_digest sha256 ts = Inr (take 12 (sha256 (canonical_text (canonical ts))))"
  by (simp add: order_digest_canonical canonical_lists_dumps canonical_text)

text \<open>Two orderings with one canonical form rank all rows alike.\<close>

lemma canonical_ranks:
  assumes "canonical ts = canonical us"
  shows "terms_before ts r s = terms_before us r s"
  using assms
proof (induction ts arbitrary: us)
  case (Cons t ts)
  then obtain u vs where u: "us = u # vs" by (cases us) (auto simp: canonical_def)
  with Cons.prems have "term_before t r s = term_before u r s" "ot_column t = ot_column u" "canonical ts = canonical vs"
    by (simp_all add: canonical_def term_before_def)
  with Cons.IH [of vs] u show ?case by simp
qed (auto simp: canonical_def)

lemma json_dumps_all_total: "(\<And>x. x \<in> set xs \<Longrightarrow> \<exists>t. json_dumps x = Inr t) \<Longrightarrow> \<exists>ts. json_dumps_all xs = Inr ts"
proof (induction xs)
  case (Cons x xs)
  obtain ts where "json_dumps_all xs = Inr ts" using Cons by force
  moreover obtain t where "json_dumps x = Inr t" using Cons.prems [of x] by force
  ultimately show ?case by simp
qed simp

lemma order_digest_total: "\<exists>d. order_digest sha256 ts = Inr d"
proof -
  have "\<exists>us. json_dumps_all (map (\<lambda>t. VTuple [VStr (ot_column t), VBool (ot_descending t),
      VStr (effective_nulls t)]) ts) = Inr us"
    by (rule json_dumps_all_total) auto
  then show ?thesis by (auto simp: order_digest_def)
qed

definition encodable :: "(pyval \<Rightarrow> string) \<Rightarrow> order_term list \<Rightarrow> (string \<times> pyval) list \<Rightarrow> bool" where
  "encodable to_text ts row \<longleftrightarrow> (\<forall>t \<in> set ts. map_of row (ot_column t) \<noteq> None)"

definition cursor_values :: "(pyval \<Rightarrow> string) \<Rightarrow> order_term list \<Rightarrow> (string \<times> pyval) list \<Rightarrow> pyval list" where
  "cursor_values to_text ts row = map (\<lambda>t. encode_value to_text (the (map_of row (ot_column t)))) ts"

lemma json_native_encode_value: "json_native (encode_value to_text v)"
  by (cases v) simp_all

lemma encode_keyset_values:
  assumes "encodable to_text ts row" and "order_digest sha256 ts = Inr d"
  shows "encode_keyset_cursor sha256 to_text ts row
    = wrap_json Standard (VList (VStr d # cursor_values to_text ts row))"
proof -
  have "map_res (\<lambda>t. case map_of row (ot_column t) of
      None \<Rightarrow> Inl (ValueError ''cannot encode keyset cursor: order column is not present in the row'')
    | Some v \<Rightarrow> Inr (encode_value to_text v)) ts = Inr (cursor_values to_text ts row)"
    unfolding cursor_values_def
    by (rule map_res_Inr) (use assms(1) in \<open>auto simp: encodable_def\<close>)
  with assms(2) show ?thesis by (simp add: encode_keyset_cursor_def)
qed

lemma cursor_round_trip:
  assumes "encodable to_text ts row"
  shows "\<exists>t. encode_keyset_cursor sha256 to_text ts row = Inr t
           \<and> decode_keyset_cursor sha256 t ts = Inr (cursor_values to_text ts row)"
proof -
  obtain d where d: "order_digest sha256 ts = Inr d" using order_digest_total by blast
  have "json_native (VList (VStr d # cursor_values to_text ts row))"
    by (auto simp: cursor_values_def json_native_encode_value)
  then obtain t where "wrap_json Standard (VList (VStr d # cursor_values to_text ts row)) = Inr t"
    "unwrap_json Standard t = Some (VList (VStr d # cursor_values to_text ts row))"
    by (rule wrap_json_round_trip)
  with encode_keyset_values [OF assms d] d show ?thesis
    by (simp add: decode_keyset_cursor_def cursor_values_def)
qed

text \<open>Under one ordering, what a cursor carries is the values of the order columns.\<close>

fun native_value :: "pyval \<Rightarrow> bool" where
  "native_value VNone = True"
| "native_value (VInt i) = True"
| "native_value (VStr s) = True"
| "native_value (VBool b) = True"
| "native_value v = False"

lemma encode_native: "native_value v \<Longrightarrow> encode_value to_text v = v"
  by (cases v) simp_all

definition values_row :: "order_term list \<Rightarrow> pyval list \<Rightarrow> (string \<times> pyval) list" where
  "values_row ts vals = zip (map ot_column ts) vals"

definition valid_values :: "order_term list \<Rightarrow> pyval list \<Rightarrow> bool" where
  "valid_values ts vals \<longleftrightarrow>
     length vals = length ts \<and> distinct (map ot_column ts) \<and> (\<forall>v \<in> set vals. native_value v)"

lemma cursor_values_row:
  assumes "valid_values ts vals"
  shows "encodable to_text ts (values_row ts vals)" and "cursor_values to_text ts (values_row ts vals) = vals"
proof -
  have look: "map_of (values_row ts vals) (ot_column (ts ! i)) = Some (vals ! i)" if "i < length ts" for i
    using assms that map_of_zip_nth [of "map ot_column ts" vals i]
    by (simp add: valid_values_def values_row_def)
  then show "encodable to_text ts (values_row ts vals)"
    by (auto simp: encodable_def in_set_conv_nth)
  show "cursor_values to_text ts (values_row ts vals) = vals"
    using look assms
    by (intro nth_equalityI) (auto simp: cursor_values_def valid_values_def encode_native)
qed

interpretation cursors: token_codec "valid_values ts"
  "\<lambda>vals. encode_keyset_cursor sha256 to_text ts (values_row ts vals)"
  "\<lambda>c. decode_keyset_cursor sha256 c ts" for sha256 to_text ts
proof
  fix vals assume v: "valid_values ts vals"
  show "\<exists>t. encode_keyset_cursor sha256 to_text ts (values_row ts vals) = Inr t
      \<and> decode_keyset_cursor sha256 t ts = Inr vals"
    using cursor_round_trip [OF cursor_values_row(1) [OF v], of sha256 to_text]
      cursor_values_row(2) [OF v, of to_text] by simp
qed

lemma map_res_mem: "map_res f xs = Inr ys \<Longrightarrow> y \<in> set ys \<Longrightarrow> \<exists>x \<in> set xs. f x = Inr y"
  by (auto simp: map_res_list_all2 list_all2_conv_all_nth in_set_conv_nth) (metis nth_mem)

lemma decode_cursor_order:
  assumes enc: "encode_keyset_cursor sha256 to_text ts row = Inr t"
    and dec: "decode_keyset_cursor sha256 t us = Inr vals"
  shows "order_digest sha256 us = order_digest sha256 ts"
proof -
  obtain d where d: "order_digest sha256 ts = Inr d" using order_digest_total by blast
  obtain e where e: "order_digest sha256 us = Inr e" using order_digest_total by blast
  from enc d obtain vs where vs: "wrap_json Standard (VList (VStr d # vs)) = Inr t"
    and vals: "map_res (\<lambda>t. case map_of row (ot_column t) of
      None \<Rightarrow> Inl (ValueError ''cannot encode keyset cursor: order column is not present in the row'')
    | Some v \<Rightarrow> Inr (encode_value to_text v)) ts = Inr vs"
    unfolding encode_keyset_cursor_def by (auto simp: bind_res_Inr_iff)
  have native: "\<forall>v \<in> set vs. json_native v"
  proof
    fix v assume "v \<in> set vs"
    from map_res_mem [OF vals this] show "json_native v"
      by (auto simp: json_native_encode_value split: option.splits)
  qed
  have "json_native (VList (VStr d # vs))" using native by simp
  then have "unwrap_json Standard t = Some (VList (VStr d # vs))"
    using vs wrap_json_round_trip [of "VList (VStr d # vs)" Standard] by (metis sum.inject(2))
  with dec d e show ?thesis by (auto simp: decode_keyset_cursor_def split: if_splits)
qed

lemma decode_cursor_error: "decode_keyset_cursor sha256 t ts = Inl e \<Longrightarrow> \<exists>m. e = ValueError m"
  using order_digest_total [of sha256 ts]
  by (auto simp: decode_keyset_cursor_def split: option.splits pyval.splits list.splits if_splits)

lemma decode_cursor_length: "decode_keyset_cursor sha256 t ts = Inr vals \<Longrightarrow> length vals = length ts"
  by (auto simp: decode_keyset_cursor_def bind_res_Inr_iff split: option.splits pyval.splits list.splits if_splits)

section \<open>The order is strict and, with a key, total\<close>

lemma cell_before_total: "a = b \<or> cell_before d n a b \<or> cell_before d n b a"
  by (cases a; cases b) (auto simp: cell_before_def)

lemma terms_before_irrefl [simp]: "\<not> terms_before ts r r"
  by (induction ts) (auto simp: term_before_def)

lemma terms_before_trans: "terms_before ts a b \<Longrightarrow> terms_before ts b c \<Longrightarrow> terms_before ts a c"
  by (induction ts) (auto simp: term_before_def dest: cell_before_trans)

lemma terms_before_total:
  "(\<forall>t \<in> set ts. r (ot_column t) = s (ot_column t)) \<or> terms_before ts r s \<or> terms_before ts s r"
proof (induction ts)
  case (Cons t ts)
  then show ?case
    using cell_before_total [of "r (ot_column t)" "s (ot_column t)"
        "ot_descending t" "effective_nulls t = ''first''"]
    by (auto simp: term_before_def)
qed simp

lemma normalize_order_key:
  "primary_key \<in> ot_column ` set (normalize_order order_by primary_key False)"
  by (auto simp: normalize_order_def Let_def ascending_def image_iff)

lemma normalize_order_ne: "normalize_order order_by primary_key u \<noteq> []"
  by (simp add: normalize_order_def Let_def)

lemma normalize_order_valid:
  "\<forall>t. Inr t \<in> set order_by \<longrightarrow> valid_term t \<Longrightarrow> t \<in> set (normalize_order order_by primary_key u) \<Longrightarrow> valid_term t"
  by (auto simp: normalize_order_def Let_def ascending_def valid_term_def split: if_splits sum.splits)

section \<open>Seeking\<close>

lemma filter_sorted_after:
  assumes "sorted_wrt R xs" and "\<And>x. \<not> R x x" and "\<And>x y z. R x y \<Longrightarrow> R y z \<Longrightarrow> R x z" and "k < length xs"
  shows "filter (R (xs ! k)) xs = drop (Suc k) xs" and "filter (\<lambda>x. R x (xs ! k)) xs = take k xs"
proof -
  have xs: "xs = take k xs @ xs ! k # drop (Suc k) xs" using assms(4) by (simp add: id_take_nth_drop)
  have before: "R x (xs ! k)" if "x \<in> set (take k xs)" for x
    using assms(1,4) that xs by (metis list.set_intros(1) sorted_wrt_append)
  have after: "R (xs ! k) x" if "x \<in> set (drop (Suc k) xs)" for x
    using assms(1,4) that xs by (metis sorted_wrt.simps(2) sorted_wrt_append)
  have "filter (R (xs ! k)) (take k xs) = []" "filter (R (xs ! k)) (drop (Suc k) xs) = drop (Suc k) xs"
    using before after assms(2) assms(3) [of "xs ! k" _ "xs ! k"]
    by (auto simp: filter_empty_conv filter_id_conv)
  with xs assms(2) show "filter (R (xs ! k)) xs = drop (Suc k) xs"
    by (metis append.left_neutral filter.simps(2) filter_append)
  have "filter (\<lambda>x. R x (xs ! k)) (take k xs) = take k xs" "filter (\<lambda>x. R x (xs ! k)) (drop (Suc k) xs) = []"
    using before after assms(2) assms(3) [of "xs ! k" _ "xs ! k"]
    by (auto simp: filter_empty_conv filter_id_conv)
  with xs assms(2) show "filter (\<lambda>x. R x (xs ! k)) xs = take k xs"
    by (metis append.right_neutral filter.simps(2) filter_append)
qed

text \<open>
  The rows of a result, as Python dicts, and the cells they stand for. What is relied on: every order
  column is in the row, and the database turns the value the cursor carries back into the cell.
\<close>

definition lossless ::
  "('v::linorder) database \<Rightarrow> (string \<Rightarrow> string option) \<Rightarrow> (pyval \<Rightarrow> string) \<Rightarrow> order_term list
   \<Rightarrow> ((string \<times> pyval) list \<Rightarrow> 'v cells) \<Rightarrow> (string \<times> pyval) list \<Rightarrow> bool" where
  "lossless db types to_text ts view row \<longleftrightarrow>
     (\<forall>t \<in> set ts. \<exists>v. map_of row (ot_column t) = Some v
        \<and> coerce db (types (ot_column t)) (encode_value to_text v) = view row (ot_column t)
        \<and> (encode_value to_text v = VNone) = (view row (ot_column t) = None))"

lemma lossless_cursor_row:
  "lossless db types to_text ts view row \<Longrightarrow> cursor_row db types ts (cursor_values to_text ts row) (view row)"
  unfolding cursor_row_def lossless_def cursor_values_def using nth_mem [of _ ts] by fastforce

lemma cursor_seek:
  assumes rows: "sorted_wrt (\<lambda>a b. terms_before ts (view a) (view b)) rows" and k: "k < length rows"
    and ll: "lossless db types to_text ts view (rows ! k)"
    and ts: "\<forall>t \<in> set ts. valid_term t" "ts \<noteq> []"
    and exprs: "\<forall>r \<in> set rows. exprs_ok db (view r) exprs"
  shows "\<exists>c vals p. encode_keyset_cursor sha256 to_text ts (rows ! k) = Inr c
           \<and> decode_keyset_cursor sha256 c ts = Inr vals
           \<and> keyset_where ts vals after types exprs = Inr p
           \<and> filter (\<lambda>r. sql_true db (view r) p) rows = (if after then drop (Suc k) rows else take k rows)"
proof -
  let ?row = "rows ! k"
  have "encodable to_text ts ?row" using ll by (force simp: encodable_def lossless_def)
  then obtain c where c: "encode_keyset_cursor sha256 to_text ts ?row = Inr c"
    "decode_keyset_cursor sha256 c ts = Inr (cursor_values to_text ts ?row)"
    using cursor_round_trip by blast
  note row = lossless_cursor_row [OF ll]
  have "\<exists>p. keyset_where ts (cursor_values to_text ts ?row) after types exprs = Inr p"
    using keyset_true [OF row ts] exprs k by (metis nth_mem)
  then obtain p where p: "keyset_where ts (cursor_values to_text ts ?row) after types exprs = Inr p" by blast
  have "sql_true db (view r) p \<longleftrightarrow>
      (if after then terms_before ts (view ?row) (view r) else terms_before ts (view r) (view ?row))"
    if "r \<in> set rows" for r
    using keyset_true [OF row ts exprs [rule_format, OF that], of "after"] p by (metis sum.inject(2))
  then have "filter (\<lambda>r. sql_true db (view r) p) rows
      = filter (\<lambda>r. if after then terms_before ts (view ?row) (view r) else terms_before ts (view r) (view ?row)) rows"
    by (intro filter_cong) auto
  also have "\<dots> = (if after then drop (Suc k) rows else take k rows)"
  proof -
    note f = filter_sorted_after [OF rows terms_before_irrefl terms_before_trans k]
    show ?thesis using f by (cases "after") simp_all
  qed
  finally show ?thesis using c p by blast
qed

end
