(* ===== verification/Pg_Properties.thy ===== *)
theory Pg_Properties
  imports Pg_Page Pg_Cursor
begin

text \<open>
  The correctness properties of orderings, keyset cursors, window slices, filters and statement
  parameters, each with an instance on a small table.
\<close>

section \<open>An instance: a table of names\<close>

fun pg_cell :: "pyval \<Rightarrow> pg_value option" where
  "pg_cell (VBool b) = Some (PgBool b)"
| "pg_cell (VInt i) = Some (PgInt i)"
| "pg_cell (VStr s) = Some (PgText s)"
| "pg_cell _ = None"

definition small_db :: "pg_value database" where
  "small_db = \<lparr>coerce = \<lambda>ty v. pg_cell v, like_match = \<lambda>ci x y. x = y\<rparr>"

definition small_row :: "pyval \<Rightarrow> int \<Rightarrow> (string \<times> pyval) list" where
  "small_row name i = [(''name'', name), (''id'', VInt i)]"

definition view_row :: "(string \<times> pyval) list \<Rightarrow> pg_value cells" where
  "view_row row c = (case map_of row c of None \<Rightarrow> None | Some v \<Rightarrow> pg_cell v)"

text \<open>Names descending, NULLs first, then the key.\<close>

definition small_order :: "order_term list" where
  "small_order = normalize_order [Inr \<lparr>ot_column = ''name'', ot_descending = True, ot_nulls = None\<rparr>] ''id'' False"

lemma small_order_terms:
  "small_order = [\<lparr>ot_column = ''name'', ot_descending = True, ot_nulls = None\<rparr>, ascending ''id'']"
  by (simp add: small_order_def normalize_order_def ascending_def)

lemma small_order_valid: "\<forall>t \<in> set small_order. valid_term t" "small_order \<noteq> []"
  by (simp_all add: small_order_terms valid_term_def ascending_def)

definition small_rows :: "(string \<times> pyval) list list" where
  "small_rows = [small_row VNone 7, small_row (VInt 5) 1, small_row (VInt 5) 2, small_row (VInt 3) 0]"

lemmas small_defs = small_db_def small_row_def view_row_def small_order_terms small_rows_def ascending_def
  term_before_def cell_before_def effective_nulls_def less_pg_value_def

lemma small_rows_sorted: "sorted_wrt (\<lambda>a b. terms_before small_order (view_row a) (view_row b)) small_rows"
  by (simp add: small_defs)

lemma small_lossless: "lossless small_db (\<lambda>c. None) repr small_order view_row (small_row name i)"
  if "pg_cell name \<noteq> None \<or> name = VNone"
  using that by (cases name) (auto simp: lossless_def small_defs)

section \<open>Keyset pagination\<close>

text \<open>C5: on rows sorted by the ordering, the cursor of the \<open>k\<close>-th row seeks exactly the rows after it, or
  before it: it encodes, decodes under the same ordering, and its predicate keeps precisely those rows, NULL
  cells, descending columns and placements included.\<close>

lemma keyset_seek:
  assumes "sorted_wrt (\<lambda>a b. terms_before ts (view a) (view b)) rows" and "k < length rows"
    and "lossless db types to_text ts view (rows ! k)"
    and "\<forall>t \<in> set ts. valid_term t" and "ts \<noteq> []"
    and "\<forall>r \<in> set rows. exprs_ok db (view r) exprs"
  shows "\<exists>c vals p. encode_keyset_cursor sha256 to_text ts (rows ! k) = Inr c
           \<and> decode_keyset_cursor sha256 c ts = Inr vals
           \<and> keyset_where ts vals after types exprs = Inr p
           \<and> filter (\<lambda>r. sql_true db (view r) p) rows = (if after then drop (Suc k) rows else take k rows)"
  using assms by (rule cursor_seek)

lemma keyset_seek_witness:
  "\<exists>c vals p. encode_keyset_cursor id (\<lambda>v. []) small_order (small_row (VInt 5) 1) = Inr c
     \<and> decode_keyset_cursor id c small_order = Inr vals
     \<and> keyset_where small_order vals True (\<lambda>c. None) (\<lambda>c. None) = Inr p
     \<and> filter (\<lambda>r. sql_true small_db (view_row r) p) small_rows = [small_row (VInt 5) 2, small_row (VInt 3) 0]"
proof -
  have k: "1 < length small_rows" by (simp add: small_rows_def)
  have "lossless small_db (\<lambda>c. None) (\<lambda>v. []) small_order view_row (small_rows ! 1)"
    using small_lossless [of "VInt 5" _ 1] by (simp add: small_rows_def)
  from keyset_seek [OF small_rows_sorted k this small_order_valid, of "\<lambda>c. None" id "True"]
  show ?thesis by (simp add: exprs_ok_def) (simp add: small_rows_def)
qed

text \<open>C31: a keyset cursor decodes to the values of the order columns, and two rows with one cursor agree on
  them.\<close>

lemma keyset_cursor_round_trip:
  assumes "encodable to_text ts row"
  shows "\<exists>t. encode_keyset_cursor sha256 to_text ts row = Inr t
           \<and> decode_keyset_cursor sha256 t ts = Inr (cursor_values to_text ts row)
           \<and> (\<forall>row'. encodable to_text ts row' \<and> encode_keyset_cursor sha256 to_text ts row' = Inr t
                \<longrightarrow> cursor_values to_text ts row' = cursor_values to_text ts row)"
proof -
  obtain t where t: "encode_keyset_cursor sha256 to_text ts row = Inr t"
    "decode_keyset_cursor sha256 t ts = Inr (cursor_values to_text ts row)"
    using cursor_round_trip [OF assms] by blast
  have "cursor_values to_text ts row' = cursor_values to_text ts row"
    if "encodable to_text ts row'" "encode_keyset_cursor sha256 to_text ts row' = Inr t" for row'
    using cursor_round_trip [OF that(1), of sha256] that(2) t(2) by auto
  with t show ?thesis by blast
qed

lemma keyset_cursor_round_trip_witness:
  "\<exists>t. encode_keyset_cursor id (\<lambda>v. ''2024-01-01'') small_order (small_row (VObj 1 []) 4) = Inr t
     \<and> decode_keyset_cursor id t small_order = Inr [VStr ''2024-01-01'', VInt 4]"
proof -
  have "encodable (\<lambda>v. ''2024-01-01'') small_order (small_row (VObj 1 []) 4)"
    by (simp add: encodable_def small_order_terms small_row_def ascending_def)
  from keyset_cursor_round_trip [OF this, of id] show ?thesis
    by (auto simp: cursor_values_def small_order_terms small_row_def ascending_def)
qed

text \<open>C40: a cursor is refused with a ValueError under every other ordering: one with other columns, another
  sequence of them, another direction or another placement of nulls, the defaults resolved. What is asked of
  the hash is that its first twelve digits tell the two JSON texts apart.\<close>

lemma stale_cursor_refused:
  assumes "encode_keyset_cursor sha256 to_text ts row = Inr t"
    and "map (\<lambda>u. (ot_column u, ot_descending u, effective_nulls u)) us
       \<noteq> map (\<lambda>u. (ot_column u, ot_descending u, effective_nulls u)) ts"
    and "inj_on (\<lambda>raw. take 12 (sha256 raw)) {canonical_text (canonical us), canonical_text (canonical ts)}"
  shows "\<exists>m. decode_keyset_cursor sha256 t us = Inl (ValueError m)"
proof -
  have "canonical us \<noteq> canonical ts" using assms(2) by (simp add: canonical_def)
  then have "canonical_text (canonical us) \<noteq> canonical_text (canonical ts)" using canonical_text_inj by blast
  then have "order_digest sha256 us \<noteq> order_digest sha256 ts"
    using assms(3) by (auto simp: order_digest_text inj_on_def)
  then show ?thesis
    using decode_cursor_order [OF assms(1)] decode_cursor_error by (cases "decode_keyset_cursor sha256 t us") auto
qed

text \<open>Two orderings by one column that differ only in the direction, and two that differ only in where the
  nulls go.\<close>

lemma stale_cursor_refused_witness:
  "(\<exists>t m. encode_keyset_cursor id (\<lambda>v. []) [\<lparr>ot_column = ''a'', ot_descending = False, ot_nulls = Some ''last''\<rparr>] [(''a'', VInt 1)] = Inr t
     \<and> decode_keyset_cursor id t [\<lparr>ot_column = ''a'', ot_descending = True, ot_nulls = Some ''last''\<rparr>] = Inl (ValueError m))
   \<and> (\<exists>t m. encode_keyset_cursor rev (\<lambda>v. []) [\<lparr>ot_column = ''a'', ot_descending = False, ot_nulls = None\<rparr>] [(''a'', VInt 1)] = Inr t
     \<and> decode_keyset_cursor rev t [\<lparr>ot_column = ''a'', ot_descending = False, ot_nulls = Some ''first''\<rparr>] = Inl (ValueError m))"
proof -
  note texts = canonical_text_def canonical_json_def canonical_def effective_nulls_def json_string_def escape_char_def
    quote_def backslash_def
  have stale: "\<exists>t m. encode_keyset_cursor h (\<lambda>v. []) [a] [(''a'', VInt 1)] = Inr t
      \<and> decode_keyset_cursor h t [b] = Inl (ValueError m)"
    if "ot_column a = ''a''" "canonical [b] \<noteq> canonical [a]"
      "take 12 (h (canonical_text (canonical [b]))) \<noteq> take 12 (h (canonical_text (canonical [a])))" for h a b
  proof -
    have "encodable (\<lambda>v. []) [a] [(''a'', VInt 1)]" using that(1) by (simp add: encodable_def)
    then obtain t where t: "encode_keyset_cursor h (\<lambda>v. []) [a] [(''a'', VInt 1)] = Inr t"
      using cursor_round_trip by blast
    have "\<exists>m. decode_keyset_cursor h t [b] = Inl (ValueError m)"
      by (rule stale_cursor_refused [OF t]) (use that in \<open>auto simp: canonical_def\<close>)
    with t show ?thesis by blast
  qed
  show ?thesis by (intro conjI stale) (simp_all add: texts)
qed

text \<open>decoding any text gives one value per order column or a ValueError.\<close>

lemma cursor_decoding_is_total:
  "case decode_keyset_cursor sha256 t ts of
     Inl e \<Rightarrow> (case e of ValueError m \<Rightarrow> True | _ \<Rightarrow> False)
   | Inr vals \<Rightarrow> length vals = length ts"
proof (cases "decode_keyset_cursor sha256 t ts")
  case (Inl e)
  with decode_cursor_error [OF Inl] show ?thesis by auto
next
  case (Inr vals)
  with decode_cursor_length [OF Inr] show ?thesis by simp
qed

text \<open>The ordering a step is built with, the primary key as a tie-break, is a strict total order of the rows
  by the emitted ORDER BY: of two rows with different keys exactly one comes first, and the relation is
  transitive.\<close>

lemma order_is_total:
  assumes "\<forall>t. Inr t \<in> set order_by \<longrightarrow> valid_term t" and "r primary_key \<noteq> s primary_key"
  shows "row_before (order_clauses (normalize_order order_by primary_key False)) r s
      \<noteq> row_before (order_clauses (normalize_order order_by primary_key False)) s r
    \<and> (\<forall>q. row_before (order_clauses (normalize_order order_by primary_key False)) q r
          \<and> row_before (order_clauses (normalize_order order_by primary_key False)) r s
        \<longrightarrow> row_before (order_clauses (normalize_order order_by primary_key False)) q s)"
proof -
  let ?ts = "normalize_order order_by primary_key False"
  have v: "\<forall>t \<in> set ?ts. valid_term t" using normalize_order_valid [OF assms(1)] by blast
  note terms = row_before_terms [OF v]
  have "\<not> (\<forall>t \<in> set ?ts. r (ot_column t) = s (ot_column t))"
    using normalize_order_key [of primary_key order_by] assms(2) by auto
  then have "terms_before ?ts r s \<or> terms_before ?ts s r" using terms_before_total [of ?ts r s] by blast
  moreover have "\<not> (terms_before ?ts r s \<and> terms_before ?ts s r)"
    using terms_before_trans [of ?ts r s r] by auto
  ultimately show ?thesis unfolding terms using terms_before_trans [of ?ts] by blast
qed

lemma order_is_total_witness:
  "row_before (order_clauses small_order) (view_row (small_row VNone 1)) (view_row (small_row VNone 2))
   \<noteq> row_before (order_clauses small_order) (view_row (small_row VNone 2)) (view_row (small_row VNone 1))"
  unfolding small_order_def
  by (rule order_is_total [THEN conjunct1]) (auto simp: valid_term_def small_defs)

section \<open>Window slices\<close>

text \<open>A windowed query over many parents gives each parent its own page: the parent's matching rows in the
  order of the ORDER BY, with \<open>offset\<close> rows dropped and, when it is bounded, \<open>first\<close> kept, whatever the
  other parents' rows are.\<close>

lemma window_pages_each_parent:
  fixes rows :: "('v::linorder) cells list"
  assumes "q = window_slice schema tab columns match_columns ts first wps computed"
    and "inner = inner_rows db q keys rows" and "distinct rows"
    and "set xs = {r \<in> set inner. map r match_columns = key}" and "distinct xs"
    and "sorted_wrt (row_before (order_clauses ts)) xs" and "0 \<le> offset" and "0 \<le> n"
  shows "filter (\<lambda>r. map r match_columns = key) (run_window db q keys offset n rows)
    = (if first = None then drop (nat offset) xs else take (nat n) (drop (nat offset) xs))"
proof -
  have q: "wq_partition q = match_columns" "wq_order q = order_clauses ts" "wq_bounded q = (first \<noteq> None)"
    using assms(1) by (simp_all add: window_slice_def)
  show ?thesis
    using window_page [OF assms(2,3) q(1) assms(4,5) _ assms(7,8)] assms(6) q by simp
qed

lemma window_pages_each_parent_witness:
  "filter (\<lambda>r. map r [''id''] = [Some (PgInt 1)])
     (run_window small_db (window_slice ''public'' ''t'' [''id'', ''name''] [''id''] [ascending ''name''] (Some (VInt 1)) [] [])
        {[PgInt 1], [PgInt 2]} 1 1
        [view_row (small_row (VInt 3) 1), view_row (small_row (VInt 9) 2), view_row (small_row (VInt 2) 1)])
   = [view_row (small_row (VInt 3) 1)]"
proof -
  let ?a = "view_row (small_row (VInt 3) 1)" and ?b = "view_row (small_row (VInt 9) 2)"
    and ?c = "view_row (small_row (VInt 2) 1)"
  let ?q = "window_slice ''public'' ''t'' [''id'', ''name''] [''id''] [ascending ''name''] (Some (VInt 1)) [] []"
  let ?keys = "{[PgInt 1], [PgInt 2]}"
  have ne: "?a \<noteq> ?b" "?a \<noteq> ?c" "?b \<noteq> ?c"
    by (auto simp: fun_eq_iff view_row_def small_row_def intro!: exI [of _ "''name''"])
  have inner: "inner_rows small_db ?q ?keys [?a, ?b, ?c] = [?a, ?b, ?c]"
    by (simp add: inner_rows_def window_slice_def match_clause_def matches_key_def key_cells_def view_row_def small_row_def)
  have xs: "set [?c, ?a] = {r \<in> set [?a, ?b, ?c]. map r [''id''] = [Some (PgInt 1)]}"
    by (auto simp: view_row_def small_row_def)
  have srt: "sorted_wrt (row_before (order_clauses [ascending ''name''])) [?c, ?a]"
    by (simp add: order_clauses_def small_defs)
  from window_pages_each_parent [OF refl inner [symmetric] _ xs _ srt, of 1 1] ne show ?thesis by simp
qed

section \<open>Filters\<close>



section \<open>Statement parameters\<close>

lemma foldl_dict_set_fresh:
  assumes "distinct (map fst kvs)" and "set (map fst kvs) \<inter> set (map fst m) = {}"
  shows "foldl (\<lambda>m (k, v). dict_set m k v) m kvs = m @ kvs"
  using assms
proof (induction kvs arbitrary: m)
  case (Cons kv kvs)
  obtain k v where kv: "kv = (k, v)" by (cases kv)
  with Cons.prems have "dict_set m k v = m @ [(k, v)]" by (intro dict_set_fresh) auto
  moreover have "foldl (\<lambda>m (k, v). dict_set m k v) (m @ [(k, v)]) kvs = (m @ [(k, v)]) @ kvs"
    using Cons.prems kv by (intro Cons.IH) auto
  ultimately show ?case using kv by simp
qed simp

text \<open>A statement shared between requests is rendered with the requesting request's own values: the
  placeholders of any list of variables, however often a variable repeats, give one parameter each, under
  distinct names, with the value the request binds to the variable or None.\<close>

lemma shared_statement_parameters:
  "where_params call_transform context (values_by_source vars op)
     (register_placeholder_binds
        (map (\<lambda>(n, x). fst (pg_placeholder n (''var:'' @ x) ty None)) (enumerate k xs))
        \<lparr>cz_binds = [], cz_transforms = []\<rparr>)
   = Inr (map (\<lambda>(n, x). (''grafast_ph_'' @ show_nat n, case map_of vars x of Some v \<Rightarrow> v | None \<Rightarrow> VNone)) (enumerate k xs))"
proof -
  let ?es = "enumerate k xs"
  let ?name = "\<lambda>n. ''grafast_ph_'' @ show_nat n"
  let ?cz = "register_placeholder_binds (map (\<lambda>(n, x). fst (pg_placeholder n (''var:'' @ x) ty None)) ?es)
      \<lparr>cz_binds = [], cz_transforms = []\<rparr>"
  have "inj_on (\<lambda>(n, x). ?name n) (set ?es)"
    by (auto intro!: inj_onI dest!: show_nat_inj simp: in_set_enumerate_eq)
  then have "distinct (map fst (map (\<lambda>(n, x). (?name n, ''var:'' @ x)) ?es))"
    by (simp add: distinct_map o_def case_prod_beta')
  then have binds: "cz_binds ?cz = map (\<lambda>(n, x). (?name n, ''var:'' @ x)) ?es"
    using foldl_dict_set_fresh [of "map (\<lambda>(n, x). (?name n, ''var:'' @ x)) ?es" "[]"]
    by (simp add: register_placeholder_binds_def pg_placeholder_def foldl_map case_prod_beta')
  have transforms: "cz_transforms ?cz = []"
  proof -
    have "foldl (\<lambda>m b. case bp_transform b of None \<Rightarrow> m | Some f \<Rightarrow> dict_set m (bp_name b) f) []
        (map (\<lambda>(n, x). fst (pg_placeholder n (''var:'' @ x) ty None)) es) = []" for es
      by (induction es) (auto simp: pg_placeholder_def)
    then show ?thesis by (simp add: register_placeholder_binds_def)
  qed
  show ?thesis
    unfolding where_params_def binds transforms map_res_list_all2
    by (auto simp: list_all2_conv_all_nth nth_enumerate_eq source_value_var [simplified])
qed

end
