(* ===== verification/Output_Plan.thy ===== *)
theory Output_Plan
  imports Dag_Passes
begin

text \<open>
  The output plan of \<open>src/src/grafast_py/plan.py\<close> and the completer tree of \<open>completion.py\<close>: object
  plans, their layers, and the passes of \<open>finalize_plan\<close> over them (\<open>remap_object_plan\<close>,
  \<open>collect_consumption_root_steps\<close>, \<open>attach_effect_steps\<close>, \<open>hoist_steps\<close>, \<open>populate_layers\<close>). A step is
  a reference into the heap of the step DAG.
\<close>

section \<open>The tree\<close>

datatype layer_reason = Root | Nested | Defer | Stream

record layer_plan =
  l_reason :: layer_reason
  l_parent :: "ref option"
  l_effects :: "ref list"
  l_run :: "ref list"
  l_ordered :: "ref list option"
  l_hoisted_in :: "ref list"
  l_hoisted_out :: "int set"

definition new_layer :: "layer_reason \<Rightarrow> ref option \<Rightarrow> layer_plan" where
  "new_layer reason parent = \<lparr>l_reason = reason, l_parent = parent, l_effects = [], l_run = [],
     l_ordered = None, l_hoisted_in = [], l_hoisted_out = {}\<rparr>"

text \<open>
  A completer names its leaf, object or abstract type. An object completer has no child plan until
  the planner attaches one; an abstract completer carries the plan of each concrete type, which the
  executor builds when it first meets the type.
\<close>

datatype completer =
    Leaf_C string
  | Object_C string "object_plan option"
  | List_C completer
  | Abstract_C string "(string \<times> object_plan) list"
  | NonNull_C completer
and field_plan =
    Field_Plan (fp_name: string) (fp_label: string) (fp_step: "ref option") (fp_completer: completer)
and object_plan =
    Object_Plan (op_type: string) (op_fields: "field_plan list") (op_layer: layer_plan)

section \<open>Building completers\<close>

text \<open>An output type of the schema, by the five kinds \<open>build_completer\<close> tells apart.\<close>

datatype output_type =
    Leaf_T string
  | Object_T string
  | Abstract_T string
  | List_T output_type
  | NonNull_T output_type

fun build_completer :: "output_type \<Rightarrow> completer" where
  "build_completer (NonNull_T t) = NonNull_C (build_completer t)"
| "build_completer (List_T t) = List_C (build_completer t)"
| "build_completer (Leaf_T n) = Leaf_C n"
| "build_completer (Object_T n) = Object_C n None"
| "build_completer (Abstract_T n) = Abstract_C n []"

fun find_object_completer :: "completer \<Rightarrow> (string \<times> object_plan option) option" where
  "find_object_completer (Object_C n p) = Some (n, p)"
| "find_object_completer (NonNull_C c) = find_object_completer c"
| "find_object_completer (List_C c) = find_object_completer c"
| "find_object_completer _ = None"

fun attach_child_plan :: "completer \<Rightarrow> object_plan \<Rightarrow> completer" where
  "attach_child_plan (Object_C n p) child = Object_C n (Some child)"
| "attach_child_plan (NonNull_C c) child = NonNull_C (attach_child_plan c child)"
| "attach_child_plan (List_C c) child = List_C (attach_child_plan c child)"
| "attach_child_plan c child = c"

text \<open>\<open>child is not None and child.child_plan is not None\<close>\<close>

definition child_plan :: "field_plan \<Rightarrow> object_plan option" where
  "child_plan fp = (case find_object_completer (fp_completer fp) of Some (n, Some p) \<Rightarrow> Some p | _ \<Rightarrow> None)"

definition with_child :: "field_plan \<Rightarrow> object_plan \<Rightarrow> field_plan" where
  "with_child fp child =
     Field_Plan (fp_name fp) (fp_label fp) (fp_step fp) (attach_child_plan (fp_completer fp) child)"

definition field_steps :: "field_plan list \<Rightarrow> ref list" where
  "field_steps fs = concat (map (\<lambda>fp. case fp_step fp of None \<Rightarrow> [] | Some s \<Rightarrow> [s]) fs)"

lemma find_object_size: "find_object_completer c = Some (n, Some p) \<Longrightarrow> size p < size c"
  by (induction c rule: find_object_completer.induct) auto

lemma child_plan_size: "child_plan fp = Some p \<Longrightarrow> size p < size fp"
  using find_object_size [of "fp_completer fp" _ p]
  by (cases fp) (force simp: child_plan_def split: option.splits)

lemma child_plan_in_size [termination_simp]:
  "fp \<in> set fs \<Longrightarrow> child_plan fp = Some p \<Longrightarrow> size p < Suc (size_list size fs)"
  using child_plan_size [of fp p] size_list_estimation' [of fp fs "size fp" size] by fastforce

lemma find_attach:
  "find_object_completer c = Some (n, p) \<Longrightarrow> find_object_completer (attach_child_plan c q) = Some (n, Some q)"
  by (induction c rule: find_object_completer.induct) auto

lemma child_plan_with_child: "child_plan fp = Some p \<Longrightarrow> child_plan (with_child fp q) = Some q"
  using find_attach by (cases fp) (fastforce simp: child_plan_def with_child_def split: option.splits)

lemma with_child_simps [simp]:
  "fp_name (with_child fp q) = fp_name fp" "fp_label (with_child fp q) = fp_label fp"
  "fp_step (with_child fp q) = fp_step fp"
  by (simp_all add: with_child_def)

section \<open>Remapping to the survivors\<close>

fun remap_ref :: "heap \<Rightarrow> remap \<Rightarrow> ref option \<Rightarrow> ref option" where
  "remap_ref h m None = None"
| "remap_ref h m (Some s) = Some (case map_of m (sid (obj h s)) of None \<Rightarrow> s | Some s' \<Rightarrow> s')"

definition with_step :: "field_plan \<Rightarrow> ref option \<Rightarrow> field_plan" where
  "with_step fp s = Field_Plan (fp_name fp) (fp_label fp) s (fp_completer fp)"

function remap_object_plan :: "heap \<Rightarrow> remap \<Rightarrow> object_plan \<Rightarrow> object_plan" where
  "remap_object_plan h m (Object_Plan t fs l) =
     Object_Plan t
       (map (\<lambda>fp. let fp' = (case child_plan fp of None \<Rightarrow> fp | Some p \<Rightarrow> with_child fp (remap_object_plan h m p))
                  in with_step fp' (remap_ref h m (fp_step fp))) fs)
       (l\<lparr>l_parent := remap_ref h m (l_parent l)\<rparr>)"
  by pat_completeness auto
termination by (relation "measure (\<lambda>(h, m, p). size p)") (auto intro: child_plan_in_size)

section \<open>The consumption roots\<close>

text \<open>A dict from step ids to steps, in the order of first insertion.\<close>

type_synonym steps_by_id = "(int \<times> ref) list"

definition add_by_id :: "heap \<Rightarrow> steps_by_id \<Rightarrow> ref \<Rightarrow> steps_by_id" where
  "add_by_id h d s = dict_set d (sid (obj h s)) s"

function collect_roots :: "heap \<Rightarrow> object_plan \<Rightarrow> steps_by_id \<Rightarrow> steps_by_id" where
  "collect_roots h (Object_Plan t fs l) seen =
     foldl (\<lambda>seen fp.
         let seen' = (case fp_step fp of None \<Rightarrow> seen | Some s \<Rightarrow> add_by_id h seen s)
         in case child_plan fp of None \<Rightarrow> seen' | Some p \<Rightarrow> collect_roots h p seen')
       (case l_parent l of None \<Rightarrow> seen | Some s \<Rightarrow> add_by_id h seen s) fs"
  by pat_completeness auto
termination by (relation "measure (\<lambda>(h, p, seen). size p)") (auto intro: child_plan_in_size)

definition collect_consumption_root_steps :: "heap \<Rightarrow> object_plan \<Rightarrow> ref list" where
  "collect_consumption_root_steps h p = map snd (collect_roots h p [])"

section \<open>Orphaned side effects\<close>

text \<open>The walk of \<open>_deepest_owner_parent_id\<close>: the best id so far and its depth.\<close>

function deepest_owner :: "heap \<Rightarrow> int set \<Rightarrow> object_plan \<Rightarrow> nat \<Rightarrow> (int \<times> int) \<Rightarrow> (int \<times> int)" where
  "deepest_owner h boundary_ids (Object_Plan t fs l) depth best =
     foldl (\<lambda>best fp. case child_plan fp of None \<Rightarrow> best | Some p \<Rightarrow> deepest_owner h boundary_ids p (Suc depth) best)
       (case l_parent l of
          None \<Rightarrow> best
        | Some s \<Rightarrow> (if sid (obj h s) \<in> boundary_ids \<and> snd best < int depth
                     then (sid (obj h s), int depth) else best)) fs"
  by pat_completeness auto
termination by (relation "measure (\<lambda>(h, b, p, d, best). size p)") (auto intro: child_plan_in_size)

definition deepest_owner_parent_id :: "heap \<Rightarrow> object_plan \<Rightarrow> int set \<Rightarrow> int res" where
  "deepest_owner_parent_id h p boundary_ids =
     (let best_id = fst (deepest_owner h boundary_ids p 0 (-1, -1))
      in if 0 \<le> best_id then Inr best_id
         else case l_parent (op_layer p) of
                Some s \<Rightarrow> Inr (sid (obj h s))
              | None \<Rightarrow> Inl (AssertionError ''orphaned side-effecting step has no bucket to run it for effect''))"

function rebuild_effects :: "heap \<Rightarrow> (ref \<times> int) list \<Rightarrow> object_plan \<Rightarrow> object_plan" where
  "rebuild_effects h owners (Object_Plan t fs l) =
     (let fs' = map (\<lambda>fp. case child_plan fp of None \<Rightarrow> fp | Some p \<Rightarrow> with_child fp (rebuild_effects h owners p)) fs;
          mine = map fst (filter (\<lambda>(e, i). case l_parent l of None \<Rightarrow> False | Some s \<Rightarrow> i = sid (obj h s)) owners)
      in Object_Plan t fs' (if mine \<noteq> [] then l\<lparr>l_effects := l_effects l @ mine\<rparr> else l))"
  by pat_completeness auto
termination by (relation "measure (\<lambda>(h, owners, p). size p)") (auto intro: child_plan_in_size)

text \<open>What a step depends on, itself included: \<open>{dep.id for dep in order_steps([effect])}\<close>.\<close>

definition dependency_ids :: "heap \<Rightarrow> ref \<Rightarrow> int set" where
  "dependency_ids h e = (case order_steps h [e] of (h', rs) \<Rightarrow> (\<lambda>r. sid (obj h' r)) ` set rs)"

definition attach_effect_steps :: "heap \<Rightarrow> object_plan \<Rightarrow> ref list \<Rightarrow> object_plan res" where
  "attach_effect_steps h p orphaned =
     bind_res
       (map_res (\<lambda>e. bind_res (deepest_owner_parent_id h p (dependency_ids h e)) (\<lambda>i. Inr (e, i))) orphaned)
       (\<lambda>owners. Inr (rebuild_effects h owners p))"

section \<open>Hoisting\<close>

text \<open>\<open>_is_hoistable\<close>: the arguments the code does not read are left out.\<close>

definition is_hoistable :: "heap \<Rightarrow> ref \<Rightarrow> int set \<Rightarrow> bool" where
  "is_hoistable h s liftable_above =
     (if \<not> dedupable (obj h s) then False
      else if \<not> hoistable (obj h s) then False
      else if sclass (obj h s) \<in> {''RootStep'', ''ItemStep''} then False
      else (\<forall>d \<in> set (deps_of h s). sid (obj h d) \<in> liftable_above))"

text \<open>One pass over \<open>own_steps.items()\<close>, then passes until one lifts nothing.\<close>

definition lift_pass :: "heap \<Rightarrow> int set \<Rightarrow> steps_by_id \<Rightarrow> ref list \<Rightarrow> int set \<Rightarrow> ref list \<times> int set" where
  "lift_pass h available_above own lift_out lift_out_ids =
     (let liftable_above = available_above \<union> lift_out_ids
      in foldl (\<lambda>(out, ids) (i, s).
           if i \<in> ids then (out, ids)
           else if is_hoistable h s liftable_above then (out @ [s], insert i ids)
           else (out, ids)) (lift_out, lift_out_ids) own)"

lemma lift_fold_ids:
  "foldl (\<lambda>(out, ids) (i, s). if i \<in> ids then (out, ids) else if P s then (out @ [s], insert i ids) else (out, ids))
     (out, ids) own = (out', ids') \<Longrightarrow> ids \<subseteq> ids' \<and> ids' \<subseteq> ids \<union> fst ` set own"
proof (induction own arbitrary: out ids)
  case (Cons x own)
  obtain i s where x: "x = (i, s)" by fastforce
  with Cons.prems Cons.IH [of out ids] Cons.IH [of "out @ [s]" "insert i ids"]
  show ?case by (auto split: if_splits)
qed simp

lemma lift_pass_ids:
  "lift_pass h avail own out ids = (out', ids') \<Longrightarrow> ids \<subseteq> ids' \<and> ids' \<subseteq> ids \<union> fst ` set own"
  unfolding lift_pass_def Let_def by (rule lift_fold_ids)

function lift_loop :: "heap \<Rightarrow> int set \<Rightarrow> steps_by_id \<Rightarrow> ref list \<Rightarrow> int set \<Rightarrow> ref list \<times> int set" where
  "lift_loop h avail own out ids =
     (case lift_pass h avail own out ids of (out', ids') \<Rightarrow>
        if ids' = ids then (out', ids') else lift_loop h avail own out' ids')"
  by pat_completeness auto
termination
proof (relation "measure (\<lambda>(h, avail, own, out, ids). card (fst ` set own - ids))", goal_cases)
  case (2 h avail own out ids out' ids')
  then have "ids \<subseteq> ids'" "ids' \<subseteq> ids \<union> fst ` set own"
    using lift_pass_ids [of h avail own out ids out' ids'] by simp_all
  with 2(2) have "fst ` set own - ids' \<subset> fst ` set own - ids" by blast
  then show ?case by (simp add: psubset_card_mono)
qed simp

declare lift_loop.simps [simp del]

text \<open>The steps a child lifted into this layer join its own.\<close>

definition take_lifted ::
  "heap \<Rightarrow> steps_by_id \<times> ref list \<Rightarrow> ref list \<Rightarrow> steps_by_id \<times> ref list" where
  "take_lifted h st lifted =
     foldl (\<lambda>(own, hoisted_in) s.
       if sid (obj h s) \<in> fst ` set own then (own, hoisted_in)
       else (own @ [(sid (obj h s), s)], hoisted_in @ [s])) st lifted"

definition parent_ids :: "heap \<Rightarrow> layer_plan \<Rightarrow> int set" where
  "parent_ids h l = (case l_parent l of None \<Rightarrow> {} | Some s \<Rightarrow> {sid (obj h s)})"

definition own_steps :: "heap \<Rightarrow> field_plan list \<Rightarrow> layer_plan \<Rightarrow> int set \<Rightarrow> steps_by_id" where
  "own_steps h fs l here_boundary =
     (if l_parent l = None then []
      else foldl (add_by_id h) [] (order_steps_within h (field_steps fs @ l_effects l) here_boundary))"

function hoist_layer :: "heap \<Rightarrow> int set \<Rightarrow> bool \<Rightarrow> object_plan \<Rightarrow> object_plan \<times> ref list" where
  "hoist_layer h available_above is_top (Object_Plan t fs l) =
     (let here_boundary = available_above \<union> parent_ids h l;
          own0 = own_steps h fs l here_boundary;
          available_here = here_boundary \<union> fst ` set own0
      in case foldl (\<lambda>acc fp. case acc of (new_fields, st) \<Rightarrow>
             case child_plan fp of
               None \<Rightarrow> (new_fields @ [fp], st)
             | Some p \<Rightarrow>
                 (case hoist_layer h (available_here - parent_ids h (op_layer p)) False p of
                    (rebuilt, lifted) \<Rightarrow> (new_fields @ [with_child fp rebuilt], take_lifted h st lifted)))
             ([], own0, l_hoisted_in l) fs of
           (new_fields, own, hoisted_in) \<Rightarrow>
             (case (if is_top then ([], {}) else lift_loop h available_above own [] {}) of
                (lift_out, lift_out_ids) \<Rightarrow>
                  (Object_Plan t new_fields
                     (l\<lparr>l_hoisted_in := filter (\<lambda>s. sid (obj h s) \<notin> lift_out_ids) hoisted_in,
                        l_hoisted_out := l_hoisted_out l \<union> lift_out_ids\<rparr>), lift_out)))"
  by pat_completeness auto
termination by (relation "measure (\<lambda>(h, avail, top, p). size p)") (auto intro: child_plan_in_size)

definition hoist_steps :: "heap \<Rightarrow> object_plan \<Rightarrow> object_plan" where
  "hoist_steps h p = fst (hoist_layer h {} True p)"

section \<open>The run set of each layer\<close>

function populate_layers :: "heap \<Rightarrow> object_plan \<Rightarrow> object_plan" where
  "populate_layers h (Object_Plan t fs l) =
     (let new_fields = map (\<lambda>fp. case child_plan fp of None \<Rightarrow> fp | Some p \<Rightarrow> with_child fp (populate_layers h p)) fs;
          run = field_steps new_fields @ l_effects l @ l_hoisted_in l;
          boundary_ids = (if l_parent l = None then {} else parent_ids h l \<union> l_hoisted_out l);
          ordered = (if l_parent l \<noteq> None \<and> run \<noteq> [] then Some (order_steps_within h run boundary_ids) else None)
      in Object_Plan t new_fields (l\<lparr>l_run := run, l_ordered := ordered\<rparr>))"
  by pat_completeness auto
termination by (relation "measure (\<lambda>(h, p). size p)") (auto intro: child_plan_in_size)

section \<open>Abstract fields\<close>

fun completer_has_abstract :: "completer \<Rightarrow> bool" where
  "completer_has_abstract (Abstract_C n ps) = True"
| "completer_has_abstract (NonNull_C c) = completer_has_abstract c"
| "completer_has_abstract (List_C c) = completer_has_abstract c"
| "completer_has_abstract _ = False"

function owns_abstract_field :: "object_plan \<Rightarrow> bool" where
  "owns_abstract_field (Object_Plan t fs l) =
     (\<exists>fp \<in> set fs. completer_has_abstract (fp_completer fp)
        \<or> (case child_plan fp of None \<Rightarrow> False | Some p \<Rightarrow> owns_abstract_field p))"
  by pat_completeness auto
termination by (relation "measure size") (auto intro: child_plan_in_size)

section \<open>Finalizing\<close>

text \<open>
  \<open>finalize_plan\<close>: \<open>None\<close> is an optimize or deduplicate pass that does not return. Composing the
  remaps reads the ids of the steps, which the passes never change.
\<close>

definition finalize_plan ::
  "nat \<Rightarrow> optimizer \<Rightarrow> plan \<Rightarrow> object_plan \<Rightarrow> (plan \<times> object_plan) res option" where
  "finalize_plan depth hook p op =
     (case optimize depth hook p of
        None \<Rightarrow> None
      | Some (Inl e) \<Rightarrow> Some (Inl e)
      | Some (Inr (p1, opt_remap)) \<Rightarrow>
          (case deduplicate p1 of
             None \<Rightarrow> None
           | Some (p2, dedup_remap) \<Rightarrow>
               (let remapped = remap_object_plan (p_heap p2) (compose_remaps p2 opt_remap dedup_remap) op;
                    roots = collect_consumption_root_steps (p_heap p2) remapped
                in case tree_shake p2 roots of
                     (p3, orphaned) \<Rightarrow>
                       Some (bind_res
                         (if orphaned = [] then Inr remapped
                          else attach_effect_steps (p_heap p3) remapped orphaned)
                         (\<lambda>attached.
                            let hoisted = (if p_hoist p3 \<and> \<not> p_is_mutation p3
                                           then hoist_steps (p_heap p3) attached else attached)
                            in Inr (p3, populate_layers (p_heap p3) hoisted))))))"

end
