(* ===== verification/Completion.thy ===== *)
theory Completion
  imports Output_Plan Core_Steps "HOL-Library.Multiset"
begin

text \<open>
  The value completers of \<open>src/src/grafast_py/completion.py\<close> that do not recurse: leaves, the
  non-null check, the flattening and re-collection of lists, the guards of objects, the runtime
  types of abstract values, and the hoist bridge. \<open>Bubble\<close> is \<open>bubble.py\<close>.

  Completion appends errors to the request and may hand out a coroutine. A \<open>work\<close> says what a call
  does: \<open>Now es x\<close> appends \<open>es\<close> and ends with \<open>x\<close>; \<open>Later es fs x\<close> appends \<open>es\<close> and hands out a
  coroutine that appends \<open>fs\<close> and ends with \<open>x\<close> when it is awaited, and does nothing if it never is.
\<close>

section \<open>Synchronous and pending work\<close>

datatype ('e, 'a) work = Now "'e list" "'a res" | Later "'e list" "'e list" "'a res"

fun outcome_of :: "('e, 'a) work \<Rightarrow> 'a res" where
  "outcome_of (Now es x) = x"
| "outcome_of (Later es fs x) = x"

fun errors_of :: "('e, 'a) work \<Rightarrow> 'e list" where
  "errors_of (Now es x) = es"
| "errors_of (Later es fs x) = es @ fs"

definition of_res :: "'a res \<Rightarrow> ('e, 'a) work" where
  "of_res x = Now [] x"

definition ret :: "'a \<Rightarrow> ('e, 'a) work" where
  "ret x = Now [] (Inr x)"

fun after_errors :: "'e list \<Rightarrow> ('e, 'a) work \<Rightarrow> ('e, 'a) work" where
  "after_errors es (Now fs x) = Now (es @ fs) x"
| "after_errors es (Later fs gs x) = Later (es @ fs) gs x"

text \<open>Whatever follows an await belongs to the coroutine.\<close>

fun bind_work :: "('e, 'a) work \<Rightarrow> ('a \<Rightarrow> ('e, 'b) work) \<Rightarrow> ('e, 'b) work" where
  "bind_work (Now es (Inl e)) f = Now es (Inl e)"
| "bind_work (Now es (Inr x)) f = after_errors es (f x)"
| "bind_work (Later es fs (Inl e)) f = Later es fs (Inl e)"
| "bind_work (Later es fs (Inr x)) f = Later es (fs @ errors_of (f x)) (outcome_of (f x))"

text \<open>
  Calls made one after the other whose coroutines are gathered: a call that raises ends them all at
  once, and the coroutines handed out before it are never awaited.
\<close>

fun gather_work :: "('e, 'a) work list \<Rightarrow> ('e, 'a list) work" where
  "gather_work [] = Now [] (Inr [])"
| "gather_work (Now es (Inl e) # ws) = Now es (Inl e)"
| "gather_work (Now es (Inr x) # ws) =
     (case gather_work ws of
        Now fs r \<Rightarrow> Now (es @ fs) (bind_res r (\<lambda>xs. Inr (x # xs)))
      | Later fs gs r \<Rightarrow> Later (es @ fs) gs (bind_res r (\<lambda>xs. Inr (x # xs))))"
| "gather_work (Later es fs q # ws) =
     (case gather_work ws of
        Now gs (Inl e) \<Rightarrow> Now (es @ gs) (Inl e)
      | Now gs (Inr xs) \<Rightarrow> Later (es @ gs) fs (bind_res q (\<lambda>x. Inr (x # xs)))
      | Later gs hs r \<Rightarrow> Later (es @ gs) (fs @ hs) (bind_res q (\<lambda>x. bind_res r (\<lambda>xs. Inr (x # xs)))))"

lemma bind_of_res [simp]:
  "bind_work (of_res (Inl e)) f = Now [] (Inl e)" "bind_work (of_res (Inr x)) f = f x"
  by (cases "f x"; simp add: of_res_def)+

lemma bind_ret [simp]: "bind_work (ret x) f = f x"
  by (cases "f x") (simp_all add: ret_def)

lemma gather_work_now:
  "list_all2 (\<lambda>w p. w = Now (fst p) (Inr (snd p))) ws ps \<Longrightarrow>
   gather_work ws = Now (concat (map fst ps)) (Inr (map snd ps))"
  by (induction ws ps rule: list_all2_induct) simp_all

section \<open>What a request brings to completion\<close>

text \<open>
  \<open>located\<close> and \<open>ensure_valid\<close> are graphql-core's \<open>located_error\<close> (on an exception and a path) and
  \<open>ensure_valid_runtime_type\<close>; \<open>bare\<close> is a \<open>GraphQLError\<close> raised without a location. The schema
  gives \<open>serialize\<close> and \<open>type_guard\<close> (an object type's \<open>is_type_of\<close>, if it has one) by type name, and
  \<open>type_resolver\<close> for abstract types. A resolve info is known by the field's path. \<open>schedule\<close> is the
  order in which the event loop ends the pending fields of a bucket.
\<close>

record 'e exec_context =
  located :: "exn \<Rightarrow> seg list \<Rightarrow> 'e"
  bare :: "exn \<Rightarrow> 'e"
  serialize :: "string \<Rightarrow> pyval \<Rightarrow> pyval res"
  type_guard :: "string \<Rightarrow> (pyval \<Rightarrow> seg list \<Rightarrow> pyval res) option"
  type_resolver :: "string \<Rightarrow> pyval \<Rightarrow> seg list \<Rightarrow> pyval res"
  ensure_valid :: "pyval \<Rightarrow> string \<Rightarrow> seg list \<Rightarrow> pyval \<Rightarrow> string res"
  step_heap :: heap
  behave :: "bucket_extra option behaviour"
  traced_steps :: "ref \<Rightarrow> bool"
  field_resolver :: resolver_fn
  middleware_wrap :: "(resolver_fn \<Rightarrow> resolver_fn) option"
  schedule :: "seg list list \<Rightarrow> nat \<Rightarrow> nat list"

datatype 'e completed = Value pyval | Bubble 'e

fun null_value :: "pyval \<Rightarrow> bool" where
  "null_value VNone = True"
| "null_value VUndefined = True"
| "null_value v = False"

text \<open>What awaiting a value gives, with a rejection kept as its exception.\<close>

fun settled :: "pyval \<Rightarrow> pyval" where
  "settled (VAwait v) = v"
| "settled v = v"

definition resolve_awaitable_values :: "pyval list \<Rightarrow> ('e, pyval list) work" where
  "resolve_awaitable_values vs =
     (if list_ex is_awaitable vs then Later [] [] (Inr (map settled vs)) else ret vs)"

section \<open>Leaves\<close>

definition serialize_leaf :: "'e exec_context \<Rightarrow> string \<Rightarrow> pyval \<Rightarrow> pyval res" where
  "serialize_leaf ctx leaf_type v =
     bind_res (serialize ctx leaf_type v) (\<lambda>w.
       if null_value w then Inl (TypeError ''Expected serialize to return non-nullable value'') else Inr w)"

text \<open>\<open>except (GraphQLError, TypeError, ValueError)\<close>\<close>

fun leaf_error :: "exn \<Rightarrow> bool" where
  "leaf_error (GraphQLError m) = True"
| "leaf_error (TypeError m) = True"
| "leaf_error (ValueError m) = True"
| "leaf_error e = False"

definition complete_single_leaf ::
  "'e exec_context \<Rightarrow> string \<Rightarrow> pyval \<Rightarrow> seg list \<Rightarrow> 'e completed res" where
  "complete_single_leaf ctx leaf_type v path =
     (case v of
        VExc e \<Rightarrow> Inr (Bubble (located ctx e path))
      | _ \<Rightarrow>
          (if null_value v then Inr (Value VNone)
           else case serialize_leaf ctx leaf_type v of
                  Inr w \<Rightarrow> Inr (Value w)
                | Inl e \<Rightarrow> (if leaf_error e then Inr (Bubble (located ctx e path)) else Inl e)))"

definition complete_leaf_values ::
  "'e exec_context \<Rightarrow> string \<Rightarrow> pyval list \<Rightarrow> seg list list \<Rightarrow> ('e, 'e completed list) work" where
  "complete_leaf_values ctx leaf_type vs paths =
     bind_work (resolve_awaitable_values vs) (\<lambda>vs.
       of_res (map_res (\<lambda>(v, p). complete_single_leaf ctx leaf_type v p) (zip vs paths)))"

section \<open>Non-null\<close>

definition non_null_error :: "string \<Rightarrow> exn" where
  "non_null_error field_label =
     TypeError (''Cannot return null for non-nullable field '' @ field_label @ ''.'')"

definition enforce_non_null ::
  "'e exec_context \<Rightarrow> string \<Rightarrow> seg list \<Rightarrow> 'e completed \<Rightarrow> 'e completed" where
  "enforce_non_null ctx field_label path completed =
     (case completed of
        Bubble e \<Rightarrow> Bubble e
      | Value v \<Rightarrow> (if v = VNone then Bubble (located ctx (non_null_error field_label) path) else Value v))"

section \<open>Lists\<close>

text \<open>\<open>is_iterable\<close> on the modelled values: lists and tuples, never strings or mappings.\<close>

fun list_items :: "pyval \<Rightarrow> pyval list option" where
  "list_items (VList xs) = Some xs"
| "list_items (VTuple xs) = Some xs"
| "list_items v = None"

definition items_in :: "pyval \<Rightarrow> pyval list" where
  "items_in v = (case list_items v of None \<Rightarrow> [] | Some xs \<Rightarrow> xs)"

text \<open>\<open>except (GraphQLError, TypeError, ValueError, RuntimeError)\<close>: a recursion error is a runtime error.\<close>

fun list_await_error :: "exn \<Rightarrow> bool" where
  "list_await_error RecursionError = True"
| "list_await_error e = leaf_error e"

fun settle_list_value :: "pyval \<Rightarrow> pyval res" where
  "settle_list_value (VAwait (VExc e)) = (if list_await_error e then Inr (VExc e) else Inl e)"
| "settle_list_value (VAwait v) = Inr v"
| "settle_list_value v = Inr v"

definition prepare_list_inputs :: "pyval list \<Rightarrow> ('e, pyval list) work" where
  "prepare_list_inputs vs =
     (if list_ex is_awaitable vs then Later [] [] (map_res settle_list_value vs) else ret vs)"

text \<open>The span of a source list in the flat batch: null, invalid with its error, or start and length.\<close>

datatype 'e span = Null_Span | Invalid_Span 'e | Item_Span nat nat

definition list_span ::
  "'e exec_context \<Rightarrow> string \<Rightarrow> nat \<Rightarrow> pyval \<Rightarrow> seg list \<Rightarrow> 'e span" where
  "list_span ctx field_label start v path =
     (case v of
        VExc e \<Rightarrow> Invalid_Span (located ctx e path)
      | _ \<Rightarrow>
          (if null_value v then Null_Span
           else case list_items v of
                  None \<Rightarrow> Invalid_Span (located ctx (GraphQLError
                    (''Expected Iterable, but did not find one for field '' @ field_label @ ''.'')) path)
                | Some xs \<Rightarrow> Item_Span start (length xs)))"

text \<open>The flat batch, built source list by source list: items, their paths, infos and spans.\<close>

fun flatten_lists ::
  "'e exec_context \<Rightarrow> string \<Rightarrow> nat \<Rightarrow> (pyval \<times> seg list \<times> seg list) list
   \<Rightarrow> pyval list \<times> seg list list \<times> seg list list \<times> 'e span list" where
  "flatten_lists ctx field_label start [] = ([], [], [], [])"
| "flatten_lists ctx field_label start ((v, path, info) # rest) =
     (case flatten_lists ctx field_label (start + length (items_in v)) rest of
        (items, item_paths, item_infos, spans) \<Rightarrow>
          (items_in v @ items,
           map (\<lambda>k. path @ [SIdx (int k)]) [0..<length (items_in v)] @ item_paths,
           replicate (length (items_in v)) info @ item_infos,
           list_span ctx field_label start v path # spans))"

text \<open>A hoisted column reshapes in lockstep: its value at a source list is repeated for each item.\<close>

definition item_column :: "pyval list \<Rightarrow> column \<Rightarrow> column" where
  "item_column vs col = concat (map2 (\<lambda>v x. replicate (length (items_in v)) x) vs col)"

fun collect_items :: "bool \<Rightarrow> 'e completed list \<Rightarrow> pyval list \<Rightarrow> 'e list \<times> 'e completed" where
  "collect_items item_is_non_null [] out = ([], Value (VList out))"
| "collect_items item_is_non_null (Value v # rest) out = collect_items item_is_non_null rest (out @ [v])"
| "collect_items item_is_non_null (Bubble e # rest) out =
     (if item_is_non_null then ([], Bubble e)
      else case collect_items item_is_non_null rest (out @ [VNone]) of (es, c) \<Rightarrow> (e # es, c))"

fun collect_span :: "bool \<Rightarrow> 'e completed list \<Rightarrow> 'e span \<Rightarrow> 'e list \<times> 'e completed" where
  "collect_span item_is_non_null completed_items (Invalid_Span e) = ([], Bubble e)"
| "collect_span item_is_non_null completed_items Null_Span = ([], Value VNone)"
| "collect_span item_is_non_null completed_items (Item_Span start len) =
     collect_items item_is_non_null (take len (drop start completed_items)) []"

definition collect_lists ::
  "bool \<Rightarrow> 'e completed list \<Rightarrow> 'e span list \<Rightarrow> ('e, 'e completed list) work" where
  "collect_lists item_is_non_null completed_items spans =
     (let rs = map (collect_span item_is_non_null completed_items) spans
      in Now (concat (map fst rs)) (Inr (map snd rs)))"

fun is_non_null :: "completer \<Rightarrow> bool" where
  "is_non_null (NonNull_C c) = True"
| "is_non_null c = False"

section \<open>Objects\<close>

text \<open>A value with its position in the batch and its path.\<close>

type_synonym entry = "nat \<times> pyval \<times> seg list"

definition entries_of :: "pyval list \<Rightarrow> seg list list \<Rightarrow> entry list" where
  "entries_of vs paths = zip [0..<length vs] (zip vs paths)"

text \<open>\<open>results[origin[k]] = child\<close>\<close>

definition scatter_results :: "'a list \<Rightarrow> nat list \<Rightarrow> 'a list \<Rightarrow> 'a list" where
  "scatter_results results origin children = foldl (\<lambda>rs (k, c). rs[k := c]) results (zip origin children)"

definition own_result :: "'e exec_context \<Rightarrow> pyval \<Rightarrow> seg list \<Rightarrow> 'e completed" where
  "own_result ctx v path = (case v of VExc e \<Rightarrow> Bubble (located ctx e path) | _ \<Rightarrow> Value VNone)"

definition is_child :: "entry \<Rightarrow> bool" where
  "is_child x = (case x of (i, v, p) \<Rightarrow> \<not> is_exc v \<and> \<not> null_value v)"

definition gather_guard :: "pyval list \<Rightarrow> ('e, pyval list) work" where
  "gather_guard guard =
     (if list_ex is_awaitable guard
      then Later [] [] (map_res (\<lambda>g. case g of VAwait (VExc e) \<Rightarrow> Inl e | _ \<Rightarrow> Inr (settled g)) guard)
      else ret guard)"

definition invalid_return_type_error :: "string \<Rightarrow> exn" where
  "invalid_return_type_error object_type = GraphQLError (''Expected value of type '' @ object_type)"

definition reject_failed ::
  "'e exec_context \<Rightarrow> string \<Rightarrow> 'e completed list \<Rightarrow> entry list \<Rightarrow> 'e completed list" where
  "reject_failed ctx object_type results failed =
     foldl (\<lambda>rs (i, v, p). rs[i := Bubble (located ctx (invalid_return_type_error object_type) p)]) results failed"

text \<open>
  \<open>run_object_bucket\<close> up to the child bucket, and the filter of \<open>run_object_children\<close>: the results of
  the values that are no child, and the children that pass the type guard.
\<close>

definition run_object_bucket ::
  "'e exec_context \<Rightarrow> string \<Rightarrow> pyval list \<Rightarrow> seg list list \<Rightarrow> ('e, 'e completed list \<times> entry list) work" where
  "run_object_bucket ctx object_type vs paths =
     (let results = map2 (own_result ctx) vs paths;
          children = filter is_child (entries_of vs paths)
      in if children = [] then ret (results, [])
         else case type_guard ctx object_type of
                None \<Rightarrow> ret (results, children)
              | Some is_type_of \<Rightarrow>
                  bind_work (of_res (map_res (\<lambda>(i, v, p). is_type_of v p) children)) (\<lambda>guard.
                  bind_work (gather_guard guard) (\<lambda>guard.
                    ret (reject_failed ctx object_type results
                           (map fst (filter (\<lambda>(x, g). \<not> truthy g) (zip children guard))),
                         map fst (filter (\<lambda>(x, g). truthy g) (zip children guard))))))"

section \<open>The hoist bridge\<close>

text \<open>A dict from step ids to columns.\<close>

type_synonym id_columns = "(int \<times> column) list"

definition pick :: "column \<Rightarrow> nat list \<Rightarrow> column res" where
  "pick c positions = map_res (\<lambda>p. seq_index c (int p)) positions"

text \<open>\<open>{hid: [columns[hid][p] for p in positions] for hid in hoisted_out}\<close>\<close>

definition pick_columns :: "columns \<Rightarrow> int set \<Rightarrow> nat list \<Rightarrow> id_columns res" where
  "pick_columns cols hoisted_out positions =
     map_res (\<lambda>hid. case cols hid of
                      None \<Rightarrow> Inl (KeyError ''hoisted step id'')
                    | Some c \<Rightarrow> bind_res (pick c positions) (\<lambda>x. Inr (hid, x)))
       (sorted_list_of_set hoisted_out)"

definition build_hoist_parent_store ::
  "layer_plan \<Rightarrow> id_columns option \<Rightarrow> nat list \<Rightarrow> id_columns option res" where
  "build_hoist_parent_store child_layer bridge keep_origin =
     (if l_hoisted_out child_layer = {} then Inr None
      else case bridge of
             None \<Rightarrow> Inl (AssertionError ''hoist bridge missing'')
           | Some columns \<Rightarrow>
               bind_res (pick_columns (map_of columns) (l_hoisted_out child_layer) keep_origin)
                 (\<lambda>st. Inr (Some st)))"

definition hoist_bridge_for_field ::
  "field_plan \<Rightarrow> columns \<Rightarrow> nat list \<Rightarrow> id_columns option res" where
  "hoist_bridge_for_field fp step_columns live_idx =
     (case child_plan fp of
        None \<Rightarrow> Inr None
      | Some child \<Rightarrow>
          (if l_hoisted_out (op_layer child) = {} then Inr None
           else bind_res (pick_columns step_columns (l_hoisted_out (op_layer child)) live_idx) (\<lambda>columns.
             if list_ex (\<lambda>(hid, col). list_ex is_awaitable col) columns
             then Inl (AssertionError ''hoisted step produced an awaitable'')
             else Inr (Some columns))))"

section \<open>Abstract values\<close>

definition runtime_of :: "'e exec_context \<Rightarrow> string \<Rightarrow> pyval \<times> seg list \<Rightarrow> pyval" where
  "runtime_of ctx abstract_type x =
     (case x of (v, info) \<Rightarrow>
        if is_exc v \<or> null_value v then VNone
        else case type_resolver ctx abstract_type v info of Inl e \<Rightarrow> VExc e | Inr runtime \<Rightarrow> runtime)"

definition resolve_abstract_bucket ::
  "'e exec_context \<Rightarrow> string \<Rightarrow> pyval list \<Rightarrow> seg list list \<Rightarrow> ('e, pyval list) work" where
  "resolve_abstract_bucket ctx abstract_type vs infos =
     resolve_awaitable_values (map (runtime_of ctx abstract_type) (zip vs infos))"

text \<open>One value: its own result, or the name of its concrete type.\<close>

fun is_graphql_error :: "exn \<Rightarrow> bool" where
  "is_graphql_error (GraphQLError m) = True"
| "is_graphql_error e = False"

definition dispatch_entry ::
  "'e exec_context \<Rightarrow> string \<Rightarrow> pyval \<Rightarrow> seg list \<Rightarrow> seg list \<Rightarrow> pyval \<Rightarrow> ('e completed + string) res" where
  "dispatch_entry ctx abstract_type v path info runtime =
     (if is_exc v then Inr (Inl (own_result ctx v path))
      else if null_value v then Inr (Inl (Value VNone))
      else if is_exc runtime then Inr (Inl (own_result ctx runtime path))
      else case ensure_valid ctx runtime abstract_type info v of
             Inr object_type \<Rightarrow> Inr (Inr object_type)
           | Inl e \<Rightarrow> (if is_graphql_error e then Inr (Inl (Bubble (located ctx e path))) else Inl e))"

text \<open>The groups by concrete type, in the order of first appearance.\<close>

definition group_entries :: "('e completed + string) list \<Rightarrow> entry list \<Rightarrow> (string \<times> entry list) list" where
  "group_entries dispatched entries =
     foldl (\<lambda>groups (d, x).
        case d of
          Inl c \<Rightarrow> groups
        | Inr t \<Rightarrow> dict_set groups t ((case map_of groups t of None \<Rightarrow> [] | Some g \<Rightarrow> g) @ [x]))
       [] (zip dispatched entries)"

definition own_dispatched :: "('e completed + string) \<Rightarrow> 'e completed" where
  "own_dispatched d = (case d of Inl c \<Rightarrow> c | Inr t \<Rightarrow> Value VNone)"

end
