(* ===== verification/Execute.thy ===== *)
theory Execute
  imports Completion
begin

text \<open>
  The bucket executor of \<open>src/src/grafast_py/execute.py\<close> with the recursion of \<open>completion.py\<close>: a
  layer runs once over its bucket, each field completes over the live parents, an object field
  executes its child plan over the bucket of its values. The incremental sinks are absent: no field
  is streamed and no fragment deferred.
\<close>

section \<open>The state of a bucket\<close>

record 'e field_completion =
  outputs :: "(string \<times> pyval) list option list"
  bubbles :: "'e option list"

definition new_completion :: "nat \<Rightarrow> 'e field_completion" where
  "new_completion n = \<lparr>outputs = replicate n (Some []), bubbles = replicate n None\<rparr>"

definition is_live :: "'e field_completion \<Rightarrow> nat \<Rightarrow> bool" where
  "is_live st i = (bubbles st ! i = None \<and> outputs st ! i \<noteq> None)"

definition live_indices :: "nat \<Rightarrow> 'e field_completion \<Rightarrow> nat list" where
  "live_indices n st = filter (is_live st) [0..<n]"

definition is_non_null_field :: "field_plan \<Rightarrow> bool" where
  "is_non_null_field fp = is_non_null (fp_completer fp)"

text \<open>The errors appended, and the state after the write.\<close>

definition write_value ::
  "field_plan \<Rightarrow> nat \<Rightarrow> 'e completed \<Rightarrow> 'e field_completion \<Rightarrow> 'e list \<times> 'e field_completion" where
  "write_value fp i completed st =
     (let put = (\<lambda>v. case outputs st ! i of
                   None \<Rightarrow> st
                 | Some d \<Rightarrow> st\<lparr>outputs := (outputs st)[i := Some (dict_set d (fp_name fp) v)]\<rparr>)
      in case completed of
           Bubble e \<Rightarrow>
             (if is_non_null_field fp
              then ([], st\<lparr>outputs := (outputs st)[i := None], bubbles := (bubbles st)[i := Some e]\<rparr>)
              else ([e], put VNone))
         | Value v \<Rightarrow> ([], put v))"

definition scatter_field ::
  "field_plan \<Rightarrow> nat list \<Rightarrow> 'e completed list \<Rightarrow> 'e field_completion \<Rightarrow> 'e list \<times> 'e field_completion" where
  "scatter_field fp live_idx completed st =
     foldl (\<lambda>(es, st) (i, c). case write_value fp i c st of (fs, st') \<Rightarrow> (es @ fs, st'))
       ([], st) (zip live_idx completed)"

definition assemble :: "'e field_completion \<Rightarrow> 'e completed list" where
  "assemble st =
     map2 (\<lambda>out b. case b of
             Some e \<Rightarrow> Bubble e
           | None \<Rightarrow> Value (case out of None \<Rightarrow> VNone | Some d \<Rightarrow> VDict d)) (outputs st) (bubbles st)"

section \<open>Running a layer\<close>

fun work_of_run :: "run \<Rightarrow> ('e, columns) work" where
  "work_of_run (Done es x) = Now [] x"
| "work_of_run (Pending es fs x) = Later [] [] x"

definition request_extra :: "'e exec_context \<Rightarrow> seg list list \<Rightarrow> bucket_extra" where
  "request_extra ctx paths =
     \<lparr>default_resolver = field_resolver ctx, middleware = middleware_wrap ctx, parent_paths = paths\<rparr>"

definition run_layer ::
  "'e exec_context \<Rightarrow> layer_plan \<Rightarrow> pyval list \<Rightarrow> seg list list \<Rightarrow> id_columns option
   \<Rightarrow> ('e, columns option) work" where
  "run_layer ctx layer parents paths parent_store =
     (case l_parent layer of
        None \<Rightarrow> ret None
      | Some parent_step \<Rightarrow>
          (if l_run layer = [] then ret None
           else let seed = (map_of (case parent_store of None \<Rightarrow> [] | Some cols \<Rightarrow> cols))
                             (sid (obj (step_heap ctx) parent_step) \<mapsto> parents)
                in case l_ordered layer of
                     None \<Rightarrow> of_res (Inl (TypeError ''NoneType object is not iterable''))
                   | Some ordered \<Rightarrow>
                       bind_work (work_of_run
                         (run_steps (step_heap ctx) (behave ctx) (Some (request_extra ctx paths)) (traced_steps ctx)
                            (length parents) seed ordered))
                         (\<lambda>columns. ret (Some columns))))"

section \<open>The value column of a field\<close>

definition field_paths :: "field_plan \<Rightarrow> seg list list \<Rightarrow> nat list \<Rightarrow> seg list list" where
  "field_paths fp paths live_idx = map (\<lambda>i. paths ! i @ [SKey (fp_name fp)]) live_idx"

definition plan_field_outcome :: "heap \<Rightarrow> field_plan \<Rightarrow> nat list \<Rightarrow> columns \<Rightarrow> pyval list res" where
  "plan_field_outcome h fp live_idx step_columns =
     (case fp_step fp of
        None \<Rightarrow> Inl (AttributeError ''NoneType object has no attribute id'')
      | Some s \<Rightarrow>
          (case step_columns (sid (obj h s)) of
             None \<Rightarrow> Inl (KeyError ''step id'')
           | Some c \<Rightarrow> pick c live_idx))"

text \<open>A field of the batched path whose completion is pending: where to write, and what it comes to.\<close>

type_synonym 'e pending_field = "field_plan \<times> nat list \<times> 'e list \<times> 'e completed list res"

text \<open>\<open>finish\<close> of \<open>complete_field\<close>, for each pending field in the order the event loop ends them.\<close>

fun settle_pending ::
  "'e pending_field list \<Rightarrow> 'e field_completion \<Rightarrow> 'e list \<times> 'e field_completion res" where
  "settle_pending [] st = ([], Inr st)"
| "settle_pending ((fp, live_idx, es, Inl e) # pending) st = (es, Inl e)"
| "settle_pending ((fp, live_idx, es, Inr completed) # pending) st =
     (case scatter_field fp live_idx completed st of (fs, st') \<Rightarrow>
        case settle_pending pending st' of (gs, r) \<Rightarrow> (es @ fs @ gs, r))"

text \<open>The end of \<open>walk_output\<close>, after the synchronous pass over the fields.\<close>

definition finish_walk ::
  "'e exec_context \<Rightarrow> seg list list \<Rightarrow> 'e list \<Rightarrow> ('e field_completion \<times> 'e pending_field list) res
   \<Rightarrow> ('e, 'e completed list) work" where
  "finish_walk ctx paths es r =
     (case r of
        Inl e \<Rightarrow> Now es (Inl e)
      | Inr (st, pending) \<Rightarrow>
          (if pending = [] \<or> list_all (\<lambda>b. b \<noteq> None) (bubbles st) then Now es (Inr (assemble st))
           else case settle_pending (map (nth pending) (schedule ctx paths (length pending))) st of
                  (fs, x) \<Rightarrow> Later es fs (bind_res x (\<lambda>st. Inr (assemble st)))))"

text \<open>What the synchronous pass does with one completed field.\<close>

fun note_field ::
  "field_plan \<Rightarrow> nat list \<Rightarrow> 'e list \<Rightarrow> 'e field_completion \<Rightarrow> 'e pending_field list
   \<Rightarrow> ('e, 'e completed list) work \<Rightarrow> 'e list \<times> ('e field_completion \<times> 'e pending_field list) res" where
  "note_field fp live_idx es st pending (Now fs (Inl e)) = (es @ fs, Inl e)"
| "note_field fp live_idx es st pending (Now fs (Inr completed)) =
     (case scatter_field fp live_idx completed st of (gs, st') \<Rightarrow> (es @ fs @ gs, Inr (st', pending)))"
| "note_field fp live_idx es st pending (Later fs gs x) =
     (es @ fs, Inr (st, pending @ [(fp, live_idx, gs, x)]))"

section \<open>Completing and executing\<close>

lemma fp_completer_size: "fp \<in> set fs \<Longrightarrow> size (fp_completer fp) < Suc (size_list size fs)"
  using size_list_estimation' [of fp fs "size fp" size] by (cases fp) fastforce

lemma field_completer_size: "size (fp_completer fp) < size fp"
  by (cases fp) simp

lemma field_plan_in_size: "fp \<in> set fs \<Longrightarrow> size fp < Suc (size_list size fs)"
  using size_list_estimation' [of fp fs "size fp" size] by simp

lemma map_of_size: "map_of ps t = Some p \<Longrightarrow> size p < size_list (size_prod (\<lambda>x. 0) size) ps"
  by (induction ps) (auto split: if_splits)

function complete_values ::
  "'e exec_context \<Rightarrow> completer \<Rightarrow> pyval list \<Rightarrow> seg list list \<Rightarrow> seg list list \<Rightarrow> string
   \<Rightarrow> id_columns option \<Rightarrow> ('e, 'e completed list) work"
and complete_non_null_values ::
  "'e exec_context \<Rightarrow> completer \<Rightarrow> pyval list \<Rightarrow> seg list list \<Rightarrow> seg list list \<Rightarrow> string
   \<Rightarrow> id_columns option \<Rightarrow> ('e, 'e completed list) work"
and complete_list_values ::
  "'e exec_context \<Rightarrow> completer \<Rightarrow> pyval list \<Rightarrow> seg list list \<Rightarrow> seg list list \<Rightarrow> string
   \<Rightarrow> id_columns option \<Rightarrow> ('e, 'e completed list) work"
and build_list_results ::
  "'e exec_context \<Rightarrow> completer \<Rightarrow> pyval list \<Rightarrow> seg list list \<Rightarrow> seg list list \<Rightarrow> string
   \<Rightarrow> id_columns option \<Rightarrow> ('e, 'e completed list) work"
and complete_object_values ::
  "'e exec_context \<Rightarrow> string \<Rightarrow> object_plan option \<Rightarrow> pyval list \<Rightarrow> seg list list
   \<Rightarrow> id_columns option \<Rightarrow> ('e, 'e completed list) work"
and run_object_children ::
  "'e exec_context \<Rightarrow> object_plan option \<Rightarrow> 'e completed list \<Rightarrow> entry list
   \<Rightarrow> id_columns option \<Rightarrow> ('e, 'e completed list) work"
and complete_abstract_values ::
  "'e exec_context \<Rightarrow> string \<Rightarrow> (string \<times> object_plan) list \<Rightarrow> pyval list \<Rightarrow> seg list list \<Rightarrow> seg list list
   \<Rightarrow> id_columns option \<Rightarrow> ('e, 'e completed list) work"
and dispatch_abstract ::
  "'e exec_context \<Rightarrow> string \<Rightarrow> (string \<times> object_plan) list \<Rightarrow> pyval list \<Rightarrow> seg list list \<Rightarrow> seg list list
   \<Rightarrow> pyval list \<Rightarrow> id_columns option \<Rightarrow> ('e, 'e completed list) work"
and execute_object_plan ::
  "'e exec_context \<Rightarrow> object_plan \<Rightarrow> pyval list \<Rightarrow> seg list list \<Rightarrow> id_columns option
   \<Rightarrow> ('e, 'e completed list) work"
and walk_output ::
  "'e exec_context \<Rightarrow> object_plan \<Rightarrow> pyval list \<Rightarrow> seg list list \<Rightarrow> columns option
   \<Rightarrow> ('e, 'e completed list) work"
and complete_field ::
  "'e exec_context \<Rightarrow> field_plan \<Rightarrow> seg list list \<Rightarrow> columns option \<Rightarrow> nat list
   \<Rightarrow> ('e, 'e completed list) work" where
  "complete_values ctx (Leaf_C t) vs paths infos field_label bridge = complete_leaf_values ctx t vs paths"
| "complete_values ctx (NonNull_C c) vs paths infos field_label bridge =
     complete_non_null_values ctx c vs paths infos field_label bridge"
| "complete_values ctx (List_C c) vs paths infos field_label bridge =
     complete_list_values ctx c vs paths infos field_label bridge"
| "complete_values ctx (Object_C t child) vs paths infos field_label bridge =
     complete_object_values ctx t child vs paths bridge"
| "complete_values ctx (Abstract_C t plans) vs paths infos field_label bridge =
     complete_abstract_values ctx t plans vs paths infos bridge"
| "complete_non_null_values ctx c vs paths infos field_label bridge =
     bind_work (complete_values ctx c vs paths infos field_label bridge)
       (\<lambda>inner. ret (map2 (enforce_non_null ctx field_label) paths inner))"
| "complete_list_values ctx c vs paths infos field_label bridge =
     bind_work (prepare_list_inputs vs) (\<lambda>vs. build_list_results ctx c vs paths infos field_label bridge)"
| "build_list_results ctx c vs paths infos field_label bridge =
     (case flatten_lists ctx field_label 0 (zip vs (zip paths infos)) of
        (item_values, item_paths, item_infos, spans) \<Rightarrow>
          bind_work
            (complete_values ctx c item_values item_paths item_infos field_label
               (map_option (map (\<lambda>(hid, col). (hid, item_column vs col))) bridge))
            (\<lambda>completed_items. collect_lists (is_non_null c) completed_items spans))"
| "complete_object_values ctx t child vs paths bridge =
     bind_work (resolve_awaitable_values vs) (\<lambda>vs.
     bind_work (run_object_bucket ctx t vs paths) (\<lambda>(results, keep).
       run_object_children ctx child results keep bridge))"
| "run_object_children ctx child results keep bridge =
     (if keep = [] then ret results
      else case child of
             None \<Rightarrow> of_res (Inl (AttributeError ''NoneType object has no attribute layer''))
           | Some p \<Rightarrow>
               bind_work (of_res (build_hoist_parent_store (op_layer p) bridge (map fst keep))) (\<lambda>parent_store.
               bind_work
                 (execute_object_plan ctx p (map (\<lambda>(i, v, p). v) keep) (map (\<lambda>(i, v, p). p) keep) parent_store)
                 (\<lambda>children. ret (scatter_results results (map fst keep) children))))"
| "complete_abstract_values ctx t plans vs paths infos bridge =
     bind_work (resolve_awaitable_values vs) (\<lambda>vs.
     bind_work (resolve_abstract_bucket ctx t vs infos) (\<lambda>runtimes.
       dispatch_abstract ctx t plans vs paths infos runtimes bridge))"
| "dispatch_abstract ctx t plans vs paths infos runtimes bridge =
     bind_work (of_res (map_res (\<lambda>(v, p, i, r). dispatch_entry ctx t v p i r)
                          (zip vs (zip paths (zip infos runtimes))))) (\<lambda>dispatched.
     bind_work (gather_work
       (map (\<lambda>(name, group).
          case map_of plans name of
            None \<Rightarrow> of_res (Inl (HostError ''no plan for the type''))
          | Some p \<Rightarrow>
              bind_work (of_res (build_hoist_parent_store (op_layer p) bridge (map fst group))) (\<lambda>parent_store.
              bind_work
                (execute_object_plan ctx p (map (\<lambda>(i, v, p). v) group) (map (\<lambda>(i, v, p). p) group) parent_store)
                (\<lambda>children. ret (map fst group, children))))
          (group_entries dispatched (entries_of vs paths)))) (\<lambda>done_groups.
       ret (foldl (\<lambda>rs (origin, children). scatter_results rs origin children)
              (map own_dispatched dispatched) done_groups)))"
| "execute_object_plan ctx p parents paths parent_store =
     bind_work (run_layer ctx (op_layer p) parents paths parent_store) (\<lambda>columns.
       walk_output ctx p parents paths columns)"
| "walk_output ctx (Object_Plan t fs layer) parents paths columns =
     (case foldl (\<lambda>acc fp. case acc of (es, r) \<Rightarrow>
             case r of
               Inl e \<Rightarrow> (es, Inl e)
             | Inr (st, pending) \<Rightarrow>
                 (let live_idx = live_indices (length parents) st
                  in if live_idx = [] then (es, Inr (st, pending))
                     else note_field fp live_idx es st pending (complete_field ctx fp paths columns live_idx)))
             ([], Inr (new_completion (length parents), [])) fs of
        (es, r) \<Rightarrow> finish_walk ctx paths es r)"
| "complete_field ctx fp paths columns live_idx =
     bind_work (of_res (case columns of
         None \<Rightarrow> Inl (AttributeError ''NoneType object has no attribute id'')
       | Some step_columns \<Rightarrow>
           bind_res (plan_field_outcome (step_heap ctx) fp live_idx step_columns) (\<lambda>vs.
           bind_res (hoist_bridge_for_field fp step_columns live_idx) (\<lambda>bridge. Inr (vs, bridge)))))
       (\<lambda>(vs, bridge). complete_values ctx (fp_completer fp) vs (field_paths fp paths live_idx)
                         (field_paths fp paths live_idx) (fp_label fp) bridge)"
  by pat_completeness auto
termination
  by (relation "measure
      (case_sum
        (case_sum
          (case_sum (\<lambda>(ctx, c, r). 4 * size c) (\<lambda>(ctx, c, r). 4 * size c + 1))
          (case_sum (\<lambda>(ctx, c, r). 4 * size c + 2)
            (case_sum (\<lambda>(ctx, c, r). 4 * size c + 1) (\<lambda>(ctx, t, child, r). 4 * size_option size child + 2))))
        (case_sum
          (case_sum (\<lambda>(ctx, child, r). 4 * size_option size child + 1)
            (case_sum (\<lambda>(ctx, t, plans, r). 4 * size_list (size_prod (\<lambda>x. 0) size) plans + 2)
              (\<lambda>(ctx, t, plans, r). 4 * size_list (size_prod (\<lambda>x. 0) size) plans + 1)))
          (case_sum (\<lambda>(ctx, p, r). 4 * size p + 2)
            (case_sum (\<lambda>(ctx, p, r). 4 * size p + 1) (\<lambda>(ctx, fp, r). 4 * size fp)))))")
    (auto dest!: map_of_size dest: field_plan_in_size simp: field_completer_size)

section \<open>The serial path of a mutation\<close>

text \<open>The column of one field's own steps over the live parents.\<close>

definition run_serial_plan_field ::
  "'e exec_context \<Rightarrow> field_plan \<Rightarrow> pyval list \<Rightarrow> seg list list \<Rightarrow> ref option \<Rightarrow> ('e, pyval list) work" where
  "run_serial_plan_field ctx fp live_parents live_paths parent_step =
     (let h = step_heap ctx in
      case (parent_step, fp_step fp) of
        (Some b, Some s) \<Rightarrow>
          bind_work (work_of_run
            (run_steps h (behave ctx) (Some (request_extra ctx live_paths)) (traced_steps ctx)
               (length live_parents) [sid (obj h b) \<mapsto> live_parents] (order_steps_within h [s] {sid (obj h b)})))
            (\<lambda>columns. of_res (case columns (sid (obj h s)) of
               None \<Rightarrow> Inl (KeyError ''step id'') | Some c \<Rightarrow> Inr c))
      | _ \<Rightarrow> of_res (Inl (AttributeError ''NoneType object has no attribute id'')))"

definition complete_serial_field ::
  "'e exec_context \<Rightarrow> pyval list \<Rightarrow> seg list list \<Rightarrow> ref option \<Rightarrow> field_plan \<Rightarrow> 'e field_completion
   \<Rightarrow> ('e, 'e field_completion) work" where
  "complete_serial_field ctx parents paths parent_step fp st =
     (let live_idx = live_indices (length parents) st;
          field_path = field_paths fp paths live_idx
      in if live_idx = [] then ret st
         else bind_work
           (run_serial_plan_field ctx fp (map (nth parents) live_idx) (map (nth paths) live_idx) parent_step) (\<lambda>vs.
              bind_work (complete_values ctx (fp_completer fp) vs field_path field_path (fp_label fp) None) (\<lambda>completed.
                case scatter_field fp live_idx completed st of (es, st') \<Rightarrow> Now es (Inr st'))))"

definition execute_object_plan_serially_fields ::
  "'e exec_context \<Rightarrow> object_plan \<Rightarrow> pyval list \<Rightarrow> seg list list \<Rightarrow> 'e field_completion
   \<Rightarrow> ('e, 'e completed list) work" where
  "execute_object_plan_serially_fields ctx p parents paths st =
     bind_work
       (foldl (\<lambda>w fp. bind_work w (complete_serial_field ctx parents paths (l_parent (op_layer p)) fp))
          (ret st) (op_fields p))
       (\<lambda>st. ret (assemble st))"

text \<open>The orphaned effects run without a bucket extra, and their columns are dropped.\<close>

definition run_effect_steps :: "'e exec_context \<Rightarrow> object_plan \<Rightarrow> pyval list \<Rightarrow> ('e, unit) work" where
  "run_effect_steps ctx p parents =
     (let h = step_heap ctx in
      case l_parent (op_layer p) of
        None \<Rightarrow> of_res (Inl (AttributeError ''NoneType object has no attribute id''))
      | Some b \<Rightarrow>
          bind_work (work_of_run
            (run_steps h (behave ctx) None (traced_steps ctx) (length parents) [sid (obj h b) \<mapsto> parents]
               (order_steps_within h (l_effects (op_layer p)) {sid (obj h b)})))
            (\<lambda>columns. ret ()))"

definition execute_object_plan_serially ::
  "'e exec_context \<Rightarrow> object_plan \<Rightarrow> pyval list \<Rightarrow> seg list list \<Rightarrow> ('e, 'e completed list) work" where
  "execute_object_plan_serially ctx p parents paths =
     bind_work (if l_effects (op_layer p) = [] then ret () else run_effect_steps ctx p parents)
       (\<lambda>_. execute_object_plan_serially_fields ctx p parents paths (new_completion (length parents)))"

section \<open>The operation\<close>

text \<open>
  \<open>run_planned_operation\<close> of \<open>entry.py\<close> from the finished plan on: the root is a bucket of one. The
  spans, the log line, the timeout and the semaphore are left out.
\<close>

definition run_planned_operation ::
  "'e exec_context \<Rightarrow> bool \<Rightarrow> object_plan \<Rightarrow> pyval \<Rightarrow> ('e, 'e completed) work" where
  "run_planned_operation ctx is_mutation p root_value =
     bind_work (if is_mutation then execute_object_plan_serially ctx p [root_value] [[]]
                else execute_object_plan ctx p [root_value] [[]] None)
       (\<lambda>results. of_res (seq_index results 0))"

text \<open>\<open>make_result\<close> of \<open>_compat.py\<close>: the errors sorted by their location, path and message.\<close>

definition make_result :: "('e \<Rightarrow> 'k::linorder) \<Rightarrow> pyval \<Rightarrow> 'e list \<Rightarrow> pyval \<times> 'e list option" where
  "make_result key d errors = (d, if errors = [] then None else Some (sort_key key errors))"

text \<open>
  \<open>root_output\<close> and the end of \<open>grafast_execute\<close>: a bubble at the root, or a \<open>GraphQLError\<close> that
  escapes, is one more error and the data is null; any other exception escapes.
\<close>

definition respond ::
  "('e \<Rightarrow> 'k::linorder) \<Rightarrow> 'e exec_context \<Rightarrow> bool \<Rightarrow> object_plan \<Rightarrow> pyval \<Rightarrow> (pyval \<times> 'e list option) res" where
  "respond key ctx is_mutation p root_value =
     (let w = run_planned_operation ctx is_mutation p root_value in
      case outcome_of w of
        Inr (Value d) \<Rightarrow> Inr (make_result key d (errors_of w))
      | Inr (Bubble e) \<Rightarrow> Inr (make_result key VNone (errors_of w @ [e]))
      | Inl (GraphQLError m) \<Rightarrow> Inr (make_result key VNone (errors_of w @ [bare ctx (GraphQLError m)]))
      | Inl e \<Rightarrow> Inl e)"

end
