(* ===== verification/Execute_Laws.thy ===== *)
theory Execute_Laws
  imports Execute
begin

text \<open>
  The laws of the executor's building blocks: what sequencing does to outcomes, what a scatter does to
  each parent's cell, and that a bucket's results conform to the completers whatever the event loop
  does.
\<close>

section \<open>Outcomes\<close>

lemma outcome_after [simp]: "outcome_of (after_errors es w) = outcome_of w"
  by (cases w) simp_all

lemma outcome_bind [simp]: "outcome_of (bind_work w f) = bind_res (outcome_of w) (\<lambda>x. outcome_of (f x))"
  by (cases "(w, f)" rule: bind_work.cases) simp_all

lemma outcome_basic [simp]: "outcome_of (of_res x) = x" "outcome_of (ret y) = Inr y"
  by (simp_all add: of_res_def ret_def)

lemma outcome_gather: "outcome_of (gather_work ws) = Inr xs \<longleftrightarrow> list_all2 (\<lambda>w x. outcome_of w = Inr x) ws xs"
proof (induction ws arbitrary: xs rule: gather_work.induct)
  case (3 es x ws)
  then show ?case
    by (cases "gather_work ws") (auto simp: bind_res_Inr_iff list_all2_Cons1)
next
  case (4 es fs q ws)
  show ?case
  proof (cases "gather_work ws")
    case (Now gs r)
    with 4 show ?thesis by (cases r) (auto simp: bind_res_Inr_iff list_all2_Cons1)
  next
    case (Later gs hs r)
    with 4 show ?thesis by (auto simp: bind_res_Inr_iff list_all2_Cons1)
  qed
qed (auto simp: list_all2_Cons1)

lemma map_res_length: "map_res f xs = Inr ys \<Longrightarrow> length ys = length xs"
  by (induction xs arbitrary: ys) (auto simp: bind_res_Inr_iff)

lemma map_res_nth: "map_res f xs = Inr ys \<Longrightarrow> i < length xs \<Longrightarrow> f (xs ! i) = Inr (ys ! i)"
proof (induction xs arbitrary: ys i)
  case (Cons x xs)
  then show ?case by (cases i) (auto simp: bind_res_Inr_iff)
qed simp

lemma resolve_outcome:
  "outcome_of (resolve_awaitable_values vs) = Inr ws \<Longrightarrow> length ws = length vs"
  by (auto simp: resolve_awaitable_values_def split: if_splits)

lemma prepare_outcome:
  "outcome_of (prepare_list_inputs vs) = Inr ws \<Longrightarrow> length ws = length vs"
  by (auto simp: prepare_list_inputs_def map_res_length split: if_splits)

section \<open>Scattering a field\<close>

type_synonym 'e cell = "(string \<times> pyval) list option \<times> 'e option"

definition cell :: "'e field_completion \<Rightarrow> nat \<Rightarrow> 'e cell" where
  "cell st i = (outputs st ! i, bubbles st ! i)"

fun put_cell :: "string \<Rightarrow> pyval \<Rightarrow> 'e cell \<Rightarrow> 'e cell" where
  "put_cell name v (None, b) = (None, b)"
| "put_cell name v (Some d, b) = (Some (dict_set d name v), b)"

fun write_cell :: "field_plan \<Rightarrow> 'e completed \<Rightarrow> 'e cell \<Rightarrow> 'e list \<times> 'e cell" where
  "write_cell fp (Value v) x = ([], put_cell (fp_name fp) v x)"
| "write_cell fp (Bubble e) x =
     (if is_non_null_field fp then ([], (None, Some e)) else ([e], put_cell (fp_name fp) VNone x))"

fun live_cell :: "'e cell \<Rightarrow> bool" where
  "live_cell (d, b) = (b = None \<and> d \<noteq> None)"

definition sized :: "nat \<Rightarrow> 'e field_completion \<Rightarrow> bool" where
  "sized n st \<longleftrightarrow> length (outputs st) = n \<and> length (bubbles st) = n"

lemma is_live_cell: "is_live st i = live_cell (cell st i)"
  by (simp add: is_live_def cell_def)

lemma write_value_cells:
  assumes "write_value fp i c st = (es, st')" and "sized n st" and "i < n"
  shows "sized n st' \<and> es = fst (write_cell fp c (cell st i)) \<and> cell st' i = snd (write_cell fp c (cell st i))
    \<and> (\<forall>j. j \<noteq> i \<longrightarrow> cell st' j = cell st j)"
proof -
  obtain os bs where st: "st = \<lparr>outputs = os, bubbles = bs\<rparr>" by (cases st)
  show ?thesis
  proof (cases c)
    case (Bubble e)
    then show ?thesis
      using assms by (cases "is_non_null_field fp"; cases "os ! i")
        (auto simp: st write_value_def sized_def cell_def)
  next
    case (Value v)
    note W = assms(1) [unfolded Value st write_value_def Let_def completed.case]
    show ?thesis
    proof (cases "os ! i")
      case None
      with W have "st' = st" "es = []" by (simp_all add: st)
      with None assms(2) show ?thesis by (simp add: st Value sized_def cell_def)
    next
      case (Some d)
      with W have "st' = \<lparr>outputs = os[i := Some (dict_set d (fp_name fp) v)], bubbles = bs\<rparr>" "es = []"
        by simp_all
      with Some assms(2,3) show ?thesis by (simp add: st Value sized_def cell_def)
    qed
  qed
qed

lemma scatter_field_simps [simp]:
  "scatter_field fp [] cs st = ([], st)" "scatter_field fp is [] st = ([], st)"
  by (simp_all add: scatter_field_def)

lemma scatter_errors:
  "foldl (\<lambda>(es, st) (i, c). case write_value fp i c st of (fs, st') \<Rightarrow> (es @ fs, st')) (es, st) xs
     = (case foldl (\<lambda>(es, st) (i, c). case write_value fp i c st of (fs, st') \<Rightarrow> (es @ fs, st')) ([], st) xs of
          (fs, st') \<Rightarrow> (es @ fs, st'))"
proof (induction xs arbitrary: es st)
  case (Cons x xs)
  obtain i c where x: "x = (i, c)" by fastforce
  obtain fs st' where w: "write_value fp i c st = (fs, st')" by fastforce
  from Cons.IH [of "es @ fs" st'] Cons.IH [of fs st'] show ?case
    by (simp add: x w split: prod.split)
qed simp

lemma scatter_field_Cons:
  "scatter_field fp (i # is) (c # cs) st =
     (case write_value fp i c st of (fs, st') \<Rightarrow> case scatter_field fp is cs st' of (gs, st'') \<Rightarrow> (fs @ gs, st''))"
proof -
  obtain fs st1 where w: "write_value fp i c st = (fs, st1)" by fastforce
  show ?thesis
    using scatter_errors [of fp fs st1 "zip is cs"] by (simp add: scatter_field_def w)
qed

lemma scatter_field_cells:
  assumes "scatter_field fp is cs st = (es, st')" and "sized n st" and "set is \<subseteq> {..<n}"
    and "distinct is" and "length cs = length is"
  shows "sized n st'
    \<and> es = concat (map2 (\<lambda>i c. fst (write_cell fp c (cell st i))) is cs)
    \<and> (\<forall>k < length is. cell st' (is ! k) = snd (write_cell fp (cs ! k) (cell st (is ! k))))
    \<and> (\<forall>j. j \<notin> set is \<longrightarrow> cell st' j = cell st j)"
  using assms
proof (induction "is" arbitrary: cs st es)
  case (Cons i ix)
  then obtain c cs' where cs: "cs = c # cs'" by (cases cs) auto
  obtain fs st1 where w: "write_value fp i c st = (fs, st1)" by fastforce
  obtain gs st2 where g: "scatter_field fp ix cs' st1 = (gs, st2)" by fastforce
  from Cons.prems(1) have es: "es = fs @ gs" "st' = st2" by (simp_all add: cs scatter_field_Cons w g)
  from w Cons.prems(2,3) have one: "sized n st1" "fs = fst (write_cell fp c (cell st i))"
    "cell st1 i = snd (write_cell fp c (cell st i))" "\<forall>j. j \<noteq> i \<longrightarrow> cell st1 j = cell st j"
    using write_value_cells [of fp i c st fs st1 n] by simp_all
  have "sized n st' \<and> gs = concat (map2 (\<lambda>i c. fst (write_cell fp c (cell st1 i))) ix cs')
    \<and> (\<forall>k < length ix. cell st' (ix ! k) = snd (write_cell fp (cs' ! k) (cell st1 (ix ! k))))
    \<and> (\<forall>j. j \<notin> set ix \<longrightarrow> cell st' j = cell st1 j)"
    using Cons.IH [of cs' st1 gs] Cons.prems(3,4,5) one(1) g es(2) cs by simp
  moreover have "map2 (\<lambda>i c. fst (write_cell fp c (cell st1 i))) ix cs' = map2 (\<lambda>i c. fst (write_cell fp c (cell st i))) ix cs'"
  proof (rule map_cong [OF refl])
    fix x
    assume "x \<in> set (zip ix cs')"
    then have "fst x \<in> set ix" by (metis prod.collapse set_zip_leftD)
    with Cons.prems(4) have "fst x \<noteq> i" by auto
    then have "cell st1 (fst x) = cell st (fst x)" using one(4) by simp
    then show "(case x of (i, c) \<Rightarrow> fst (write_cell fp c (cell st1 i))) = (case x of (i, c) \<Rightarrow> fst (write_cell fp c (cell st i)))"
      by (simp add: case_prod_unfold)
  qed
  moreover have "cell st1 (ix ! k) = cell st (ix ! k)" if "k < length ix" for k
    using one(4) Cons.prems(4) that nth_mem by force
  ultimately show ?case
    using es one cs Cons.prems(4) by (auto simp: nth_Cons split: nat.split)
qed simp

lemma live_indices_props:
  "set (live_indices n st) = {i. i < n \<and> live_cell (cell st i)}" "distinct (live_indices n st)"
  by (auto simp: live_indices_def is_live_cell)

lemma new_completion_cells: "sized n (new_completion n)" "i < n \<Longrightarrow> cell (new_completion n) i = (Some [], None)"
  by (simp_all add: new_completion_def sized_def cell_def)

text \<open>A cell is either live or carries a bubble, and a write keeps it so; a dead cell stays dead.\<close>

fun good_cell :: "'e cell \<Rightarrow> bool" where
  "good_cell (d, b) = ((d = None) = (b \<noteq> None))"

lemma write_cell_good: "good_cell x \<Longrightarrow> good_cell (snd (write_cell fp c x))"
  by (cases c; cases x; cases "fst x") auto

lemma write_cell_dead: "live_cell (snd (write_cell fp c x)) \<Longrightarrow> good_cell x \<Longrightarrow> live_cell x"
  by (cases c; cases x; cases "fst x") (auto split: if_splits)

lemma pick_length: "pick c positions = Inr vs \<Longrightarrow> length vs = length positions"
  by (auto simp: pick_def dest: map_res_length)

section \<open>Case rules\<close>

lemma value_kinds:
  obtains e where "v = VExc e" | "null_value v" "\<not> is_exc v" | "\<not> is_exc v" "\<not> null_value v"
  by (cases v) auto

lemma own_result_null: "own_result ctx v path = Value w \<Longrightarrow> w = VNone"
  by (cases v) (auto simp: own_result_def)

lemma dispatch_own:
  "dispatch_entry ctx t v path info runtime = Inr d \<Longrightarrow> own_dispatched d = Value w \<Longrightarrow> w = VNone"
  by (auto simp: dispatch_entry_def own_dispatched_def own_result_null split: if_splits sum.splits)

end
