(* ===== verification/Conformance.thy ===== *)
theory Conformance
  imports Execute_Laws
begin

text \<open>
  What a completed value looks like by its completer, and the proof that completion gives nothing
  else, in whatever order the event loop ends the pending fields of each bucket.
\<close>

section \<open>The shape of a completed value\<close>

lemma abstract_plan_size: "(t, p) \<in> set ps \<Longrightarrow> size p < Suc (size_list (size_prod (\<lambda>x. 0) size) ps)"
  using size_list_estimation' [of "(t, p)" ps "size p" "size_prod (\<lambda>x. 0) size"] by simp

function conforms :: "completer \<Rightarrow> pyval \<Rightarrow> bool"
and object_conforms :: "object_plan \<Rightarrow> pyval \<Rightarrow> bool" where
  "conforms (Leaf_C t) v = True"
| "conforms (NonNull_C c) v = (v \<noteq> VNone \<and> conforms c v)"
| "conforms (List_C c) v =
     (v = VNone \<or> (case v of VList xs \<Rightarrow> (\<forall>x \<in> set xs. conforms c x) | _ \<Rightarrow> False))"
| "conforms (Object_C t child) v =
     (v = VNone \<or> (case child of None \<Rightarrow> False | Some p \<Rightarrow> object_conforms p v))"
| "conforms (Abstract_C t plans) v = (v = VNone \<or> (\<exists>tp \<in> set plans. object_conforms (snd tp) v))"
| "object_conforms (Object_Plan t fs l) v =
     (case v of
        VDict d \<Rightarrow> distinct (map fst d) \<and> set (map fst d) = fp_name ` set fs
          \<and> (\<forall>fp \<in> set fs. case map_of d (fp_name fp) of None \<Rightarrow> False | Some w \<Rightarrow> conforms (fp_completer fp) w)
      | _ \<Rightarrow> False)"
  by pat_completeness auto
termination
  by (relation "measure (\<lambda>x. case x of Inl (c, v) \<Rightarrow> size c | Inr (p, v) \<Rightarrow> size p)")
    (auto intro: fp_completer_size abstract_plan_size)

text \<open>The response names of each object are distinct.\<close>

function completer_named :: "completer \<Rightarrow> bool"
and plan_named :: "object_plan \<Rightarrow> bool" where
  "completer_named (Leaf_C t) = True"
| "completer_named (NonNull_C c) = completer_named c"
| "completer_named (List_C c) = completer_named c"
| "completer_named (Object_C t child) = (case child of None \<Rightarrow> True | Some p \<Rightarrow> plan_named p)"
| "completer_named (Abstract_C t plans) = (\<forall>tp \<in> set plans. plan_named (snd tp))"
| "plan_named (Object_Plan t fs l) =
     (distinct (map fp_name fs) \<and> (\<forall>fp \<in> set fs. completer_named (fp_completer fp)))"
  by pat_completeness auto
termination
  by (relation "measure (\<lambda>x. case x of Inl c \<Rightarrow> size c | Inr p \<Rightarrow> size p)")
    (auto intro: fp_completer_size abstract_plan_size)

lemma conforms_null: "\<not> is_non_null c \<Longrightarrow> conforms c VNone"
  by (cases c) auto

text \<open>The event loop ends every pending field of a bucket once.\<close>

definition fair_schedule :: "'e exec_context \<Rightarrow> bool" where
  "fair_schedule ctx \<longleftrightarrow> (\<forall>paths n. mset (schedule ctx paths n) = mset [0..<n])"

section \<open>Scatters and lists\<close>

lemma scatter_fold_set:
  "length (foldl (\<lambda>rs (k, c). rs[k := c]) rs xs) = length rs
   \<and> set (foldl (\<lambda>rs (k, c). rs[k := c]) rs xs) \<subseteq> set rs \<union> snd ` set xs"
proof (induction xs arbitrary: rs)
  case (Cons x xs)
  obtain k c where x: "x = (k, c)" by fastforce
  have "set (rs[k := c]) \<subseteq> insert c (set rs)" by (rule set_update_subset_insert)
  with Cons.IH [of "rs[k := c]"] show ?case by (auto simp: x)
qed simp

lemma scatter_results_set:
  "length (scatter_results rs os cs) = length rs" "set (scatter_results rs os cs) \<subseteq> set rs \<union> set cs"
proof -
  have "snd ` set (zip os cs) \<subseteq> set cs" by (auto dest: set_zip_rightD)
  with scatter_fold_set [of rs "zip os cs"]
  show "length (scatter_results rs os cs) = length rs" "set (scatter_results rs os cs) \<subseteq> set rs \<union> set cs"
    unfolding scatter_results_def by blast+
qed

lemma collect_items_conforms:
  assumes "collect_items (is_non_null c) items out = (es, Value v)"
    and "\<forall>x. Value x \<in> set items \<longrightarrow> conforms c x" and "\<forall>x \<in> set out. conforms c x"
  shows "conforms (List_C c) v"
  using assms
proof (induction items arbitrary: out es)
  case (Cons x items)
  show ?case
  proof (cases x)
    case (Value w)
    with Cons.prems show ?thesis by (intro Cons.IH [of "out @ [w]" es]) auto
  next
    case (Bubble e)
    with Cons.prems(1) obtain fs where "\<not> is_non_null c" "collect_items (is_non_null c) items (out @ [VNone]) = (fs, Value v)"
      by (auto split: if_splits prod.splits)
    with Cons.prems show ?thesis by (intro Cons.IH [of "out @ [VNone]" fs]) (auto simp: conforms_null)
  qed
qed auto

lemma collect_span_conforms:
  assumes "collect_span (is_non_null c) items s = (es, Value v)" and "\<forall>x. Value x \<in> set items \<longrightarrow> conforms c x"
  shows "conforms (List_C c) v"
proof (cases s)
  case (Item_Span start len)
  have "set (take len (drop start items)) \<subseteq> set items" by (meson order_trans set_drop_subset set_take_subset)
  with assms(2) have "\<forall>x. Value x \<in> set (take len (drop start items)) \<longrightarrow> conforms c x" by blast
  moreover have "collect_items (is_non_null c) (take len (drop start items)) [] = (es, Value v)"
    using assms(1) Item_Span by simp
  ultimately show ?thesis by (intro collect_items_conforms [of c _ "[]" es]) auto
qed (use assms in auto)

lemma flatten_lengths:
  "flatten_lists ctx label start xs = (items, paths, infos, spans) \<Longrightarrow>
   length paths = length items \<and> length infos = length items \<and> length spans = length xs"
  by (induction xs arbitrary: start items paths infos spans) (auto split: prod.splits)

section \<open>The walk over the fields\<close>

text \<open>The synchronous pass of \<open>walk_output\<close>, over what each field comes to on the live parents.\<close>

definition walk_fields ::
  "nat \<Rightarrow> (field_plan \<Rightarrow> nat list \<Rightarrow> ('e, 'e completed list) work) \<Rightarrow> field_plan list
   \<Rightarrow> 'e list \<times> ('e field_completion \<times> 'e pending_field list) res
   \<Rightarrow> 'e list \<times> ('e field_completion \<times> 'e pending_field list) res" where
  "walk_fields n complete fs acc =
     foldl (\<lambda>acc fp. case acc of (es, r) \<Rightarrow>
        case r of
          Inl e \<Rightarrow> (es, Inl e)
        | Inr (st, pending) \<Rightarrow>
            (let live_idx = live_indices n st
             in if live_idx = [] then (es, Inr (st, pending))
                else note_field fp live_idx es st pending (complete fp live_idx))) acc fs"

lemma walk_output_fields:
  "walk_output ctx (Object_Plan t fs layer) parents paths columns =
     (case walk_fields (length parents) (\<lambda>fp. complete_field ctx fp paths columns) fs
             ([], Inr (new_completion (length parents), [])) of
        (es, r) \<Rightarrow> finish_walk ctx paths es r)"
  unfolding walk_output.simps walk_fields_def ..

declare walk_output.simps [simp del] complete_field.simps [simp del]

lemma walk_fields_simps [simp]:
  "walk_fields n complete [] acc = acc"
  "walk_fields n complete (fp # fs) (es, Inl e) = walk_fields n complete fs (es, Inl e)"
  "walk_fields n complete (fp # fs) (es, Inr (st, pending)) =
     walk_fields n complete fs
       (if live_indices n st = [] then (es, Inr (st, pending))
        else note_field fp (live_indices n st) es st pending (complete fp (live_indices n st)))"
  by (simp_all add: walk_fields_def Let_def)

lemma walk_fields_raised [simp]: "walk_fields n complete fs (es, Inl e) = (es, Inl e)"
  by (induction fs) simp_all

text \<open>The state after the fields of \<open>D\<close> have been written.\<close>

definition field_ok :: "field_plan \<Rightarrow> (string \<times> pyval) list \<Rightarrow> bool" where
  "field_ok fp d \<longleftrightarrow> (\<exists>w. map_of d (fp_name fp) = Some w \<and> conforms (fp_completer fp) w)"

definition written :: "nat \<Rightarrow> field_plan set \<Rightarrow> 'e field_completion \<Rightarrow> bool" where
  "written n D st \<longleftrightarrow> sized n st \<and> (\<forall>i < n. good_cell (cell st i)
     \<and> (live_cell (cell st i) \<longrightarrow> (\<exists>d. fst (cell st i) = Some d \<and> distinct (map fst d)
          \<and> set (map fst d) = fp_name ` D \<and> (\<forall>fp \<in> D. field_ok fp d))))"

definition covers :: "nat \<Rightarrow> nat list \<Rightarrow> 'e field_completion \<Rightarrow> bool" where
  "covers n live_idx st \<longleftrightarrow> set live_idx \<subseteq> {..<n} \<and> distinct live_idx
     \<and> (\<forall>i < n. live_cell (cell st i) \<longrightarrow> i \<in> set live_idx)"

definition delivers :: "field_plan \<Rightarrow> nat list \<Rightarrow> 'e completed list res \<Rightarrow> bool" where
  "delivers fp live_idx x \<longleftrightarrow> (\<forall>cs. x = Inr cs \<longrightarrow> length cs = length live_idx
     \<and> (\<forall>v. Value v \<in> set cs \<longrightarrow> conforms (fp_completer fp) v))"

definition dies :: "nat \<Rightarrow> 'e field_completion \<Rightarrow> 'e field_completion \<Rightarrow> bool" where
  "dies n st st' \<longleftrightarrow> (\<forall>i < n. live_cell (cell st' i) \<longrightarrow> live_cell (cell st i))"

lemma put_ok:
  assumes "distinct (map fst d)" and "set (map fst d) = fp_name ` D" and "\<forall>fp \<in> D. field_ok fp d"
    and "conforms (fp_completer fp) v" and "fp_name fp \<notin> fp_name ` D"
  shows "distinct (map fst (dict_set d (fp_name fp) v)) \<and> set (map fst (dict_set d (fp_name fp) v)) = fp_name ` insert fp D
    \<and> (\<forall>q \<in> insert fp D. field_ok q (dict_set d (fp_name fp) v))"
proof -
  have "field_ok q (dict_set d (fp_name fp) v)" if "q \<in> D" for q
  proof -
    from that assms(5) have "fp_name q \<noteq> fp_name fp" by (metis imageI)
    with that assms(3) show ?thesis by (simp add: field_ok_def)
  qed
  moreover have "field_ok fp (dict_set d (fp_name fp) v)" using assms(4) by (simp add: field_ok_def)
  ultimately show ?thesis
    using assms(1,2) keys_dict_set [of d "fp_name fp" v] distinct_dict_set [of d "fp_name fp" v] by simp
qed

lemma scatter_field_written:
  assumes "scatter_field fp live_idx cs st = (es, st')" and "written n D st" and "covers n live_idx st"
    and "delivers fp live_idx (Inr cs)" and "fp_name fp \<notin> fp_name ` D"
  shows "written n (insert fp D) st' \<and> dies n st st'"
proof -
  have len: "length cs = length live_idx" and vals: "\<And>v. Value v \<in> set cs \<Longrightarrow> conforms (fp_completer fp) v"
    using assms(4) by (auto simp: delivers_def)
  have sz: "sized n st" using assms(2) by (simp add: written_def)
  note sc = scatter_field_cells [OF assms(1) sz _ _ len]
  have cells: "sized n st'" "\<forall>k < length live_idx. cell st' (live_idx ! k) = snd (write_cell fp (cs ! k) (cell st (live_idx ! k)))"
    "\<forall>j. j \<notin> set live_idx \<longrightarrow> cell st' j = cell st j"
    using sc assms(3) by (simp_all add: covers_def)
  have "good_cell (cell st' i) \<and> (live_cell (cell st' i) \<longrightarrow> live_cell (cell st i) \<and> (\<exists>d. fst (cell st' i) = Some d
      \<and> distinct (map fst d) \<and> set (map fst d) = fp_name ` insert fp D \<and> (\<forall>q \<in> insert fp D. field_ok q d)))"
    if "i < n" for i
  proof (cases "i \<in> set live_idx")
    case False
    with cells(3) assms(3) that have "cell st' i = cell st i" "\<not> live_cell (cell st i)" by (auto simp: covers_def)
    with assms(2) that show ?thesis by (simp add: written_def)
  next
    case True
    then obtain k where k: "k < length live_idx" "i = live_idx ! k" by (auto simp: in_set_conv_nth)
    with cells(2) have c': "cell st' i = snd (write_cell fp (cs ! k) (cell st i))" by simp
    have good: "good_cell (cell st i)" using assms(2) that by (simp add: written_def)
    have "\<exists>d. fst (cell st' i) = Some d \<and> distinct (map fst d) \<and> set (map fst d) = fp_name ` insert fp D
        \<and> (\<forall>q \<in> insert fp D. field_ok q d)" if live': "live_cell (cell st' i)"
    proof -
      have live: "live_cell (cell st i)" using write_cell_dead [of fp "cs ! k"] live' good c' by simp
      with assms(2) \<open>i < n\<close> obtain d where d: "cell st i = (Some d, None)" "distinct (map fst d)"
        "set (map fst d) = fp_name ` D" "\<forall>q \<in> D. field_ok q d"
        unfolding written_def by (cases "cell st i") auto
      obtain v where "fst (cell st' i) = Some (dict_set d (fp_name fp) v)" "conforms (fp_completer fp) v"
      proof (cases "cs ! k")
        case (Value v)
        then have "Value v \<in> set cs" using k len by (metis nth_mem)
        with Value c' d vals show ?thesis by (intro that [of v]) auto
      next
        case (Bubble e)
        with c' live' d have "\<not> is_non_null_field fp" by (auto split: if_splits)
        with Bubble c' d show ?thesis
          by (intro that [of VNone]) (auto simp: is_non_null_field_def conforms_null)
      qed
      with put_ok [OF d(2,3,4) _ assms(5)] show ?thesis by blast
    qed
    with c' good show ?thesis using write_cell_good write_cell_dead by metis
  qed
  with cells(1) show ?thesis by (auto simp: written_def dies_def)
qed

lemma covers_dies: "covers n live_idx st \<Longrightarrow> dies n st st' \<Longrightarrow> covers n live_idx st'"
  by (auto simp: covers_def dies_def)

text \<open>The pending fields, whatever order they end in.\<close>

definition pending_names :: "'e pending_field list \<Rightarrow> string list" where
  "pending_names pending = map (\<lambda>q. fp_name (fst q)) pending"

lemma pending_names_simps [simp]:
  "pending_names [] = []" "pending_names (q # pending) = fp_name (fst q) # pending_names pending"
  "pending_names (pending @ pending1) = pending_names pending @ pending_names pending1"
  by (simp_all add: pending_names_def)

definition pending_ok :: "nat \<Rightarrow> 'e field_completion \<Rightarrow> 'e pending_field list \<Rightarrow> bool" where
  "pending_ok n st pending \<longleftrightarrow>
     (\<forall>(fp, live_idx, es, x) \<in> set pending. covers n live_idx st \<and> delivers fp live_idx x)"

lemma pending_ok_dies: "pending_ok n st pending \<Longrightarrow> dies n st st' \<Longrightarrow> pending_ok n st' pending"
  using covers_dies by (fastforce simp: pending_ok_def)

lemma settle_pending_Cons:
  "snd (settle_pending ((fp, live_idx, es, x) # pending) st) =
     bind_res x (\<lambda>cs. snd (settle_pending pending (snd (scatter_field fp live_idx cs st))))"
  by (cases x) (simp_all split: prod.split)

lemma settle_pending_written:
  assumes "snd (settle_pending pending st) = Inr st'" and "written n D st" and "pending_ok n st pending"
    and "distinct (pending_names pending)" and "fp_name ` D \<inter> set (pending_names pending) = {}"
  shows "written n (D \<union> fst ` set pending) st'"
  using assms
proof (induction pending arbitrary: st D)
  case (Cons q pending)
  obtain fp live_idx fs x where q: "q = (fp, live_idx, fs, x)" by (metis prod_cases4)
  from Cons.prems(1) obtain cs where cs: "x = Inr cs" "snd (settle_pending pending (snd (scatter_field fp live_idx cs st))) = Inr st'"
    unfolding q settle_pending_Cons bind_res_Inr_iff by blast
  obtain gs st1 where sc: "scatter_field fp live_idx cs st = (gs, st1)" by fastforce
  have "written n (insert fp D) st1 \<and> dies n st st1"
  proof (rule scatter_field_written [OF sc Cons.prems(2)])
    show "covers n live_idx st" "delivers fp live_idx (Inr cs)"
      using Cons.prems(3) by (simp_all add: pending_ok_def q cs(1))
    show "fp_name fp \<notin> fp_name ` D" using Cons.prems(5) by (simp add: q)
  qed
  note st1 = conjunct1 [OF this] conjunct2 [OF this]
  have "pending_ok n st pending" using Cons.prems(3) by (simp add: pending_ok_def)
  with st1(2) have "pending_ok n st1 pending" by (rule pending_ok_dies [rotated])
  moreover have "snd (settle_pending pending st1) = Inr st'" using cs(2) sc by simp
  moreover have "distinct (pending_names pending)" "fp_name ` insert fp D \<inter> set (pending_names pending) = {}"
    using Cons.prems(4,5) by (simp_all add: q)
  ultimately have "written n (insert fp D \<union> fst ` set pending) st'" by (intro Cons.IH [of st1] st1(1))
  then show ?case by (simp add: q)
qed simp

text \<open>The synchronous pass.\<close>

lemma walk_fields_written:
  assumes "walk_fields n complete fs (es, Inr (st, pending)) = (es', Inr (st', pending'))"
    and complete: "\<And>fp live_idx. fp \<in> set fs \<Longrightarrow> delivers fp live_idx (outcome_of (complete fp live_idx))"
    and "written n D st" and "pending_ok n st pending"
    and "distinct (map fp_name fs @ pending_names pending)"
    and "fp_name ` D \<inter> (fp_name ` set fs \<union> set (pending_names pending)) = {}"
  shows "\<exists>D'. written n D' st' \<and> pending_ok n st' pending' \<and> distinct (pending_names pending')
    \<and> fp_name ` D' \<inter> set (pending_names pending') = {}
    \<and> D' \<union> fst ` set pending' = D \<union> fst ` set pending \<union> set fs"
  using assms
proof (induction fs arbitrary: es st pending D)
  case Nil
  then show ?case by (intro exI [of _ D]) auto
next
  case (Cons fp fs)
  let ?live = "live_indices n st"
  have cov: "covers n ?live st" using live_indices_props [of n st] by (auto simp: covers_def)
  have del: "delivers fp ?live (outcome_of (complete fp ?live))" using Cons.prems(2) by simp
  have step: "\<exists>D'. written n D' st' \<and> pending_ok n st' pending' \<and> distinct (pending_names pending')
    \<and> fp_name ` D' \<inter> set (pending_names pending') = {}
    \<and> D' \<union> fst ` set pending' = D1 \<union> fst ` set pending1 \<union> set fs"
    if "walk_fields n complete fs (es1, Inr (st1, pending1)) = (es', Inr (st', pending'))"
      and "written n D1 st1" and "pending_ok n st1 pending1"
      and "D1 = insert fp D \<and> pending1 = pending \<or> D1 = D \<and> fst ` set pending1 = insert fp (fst ` set pending)
             \<and> pending_names pending1 = pending_names pending @ [fp_name fp]"
    for es1 st1 pending1 D1
  proof (rule Cons.IH [OF that(1) _ that(2,3)])
    show "distinct (map fp_name fs @ pending_names pending1)"
      using Cons.prems(5) that(4) by (auto simp: disjoint_iff image_iff) metis+
    show "fp_name ` D1 \<inter> (fp_name ` set fs \<union> set (pending_names pending1)) = {}"
      using Cons.prems(5,6) that(4) by (auto simp: disjoint_iff image_iff)
  qed (use Cons.prems(2) in auto)
  show ?case
  proof (cases "?live = []")
    case True
    then have "written n (insert fp D) st"
      using Cons.prems(3) cov by (auto simp: written_def covers_def)
    with True Cons.prems(1,4) obtain D' where "written n D' st' \<and> pending_ok n st' pending' \<and> distinct (pending_names pending')
      \<and> fp_name ` D' \<inter> set (pending_names pending') = {}
      \<and> D' \<union> fst ` set pending' = insert fp D \<union> fst ` set pending \<union> set fs"
      using step [of es st pending "insert fp D"] by auto
    then show ?thesis by (intro exI [of _ D']) auto
  next
    case False
    show ?thesis
    proof (cases "complete fp ?live")
      case (Later gs hs x)
      let ?p = "pending @ [(fp, ?live, hs, x)]"
      have "pending_ok n st ?p"
        using Cons.prems(4) cov del Later by (auto simp: pending_ok_def)
      moreover have "walk_fields n complete fs (es @ gs, Inr (st, ?p)) = (es', Inr (st', pending'))"
        using Cons.prems(1) False Later by simp
      ultimately show ?thesis using step [of "es @ gs" st ?p D] Cons.prems(3) by auto
    next
      case (Now gs x)
      with Cons.prems(1) False obtain cs where cs: "x = Inr cs" by (cases x) auto
      obtain hs st1 where sc: "scatter_field fp ?live cs st = (hs, st1)" by fastforce
      have "fp_name fp \<notin> fp_name ` D" using Cons.prems(6) by auto
      then have "written n (insert fp D) st1 \<and> dies n st st1"
        using scatter_field_written [OF sc Cons.prems(3) cov] del Now cs by simp
      moreover from this have "pending_ok n st1 pending" using Cons.prems(4) pending_ok_dies by blast
      moreover have "walk_fields n complete fs (es @ gs @ hs, Inr (st1, pending)) = (es', Inr (st', pending'))"
        using Cons.prems(1) False Now cs sc by simp
      ultimately show ?thesis using step [of "es @ gs @ hs" st1 pending "insert fp D"] by auto
    qed
  qed
qed

section \<open>Completion conforms\<close>

lemma assemble_Value:
  assumes "Value v \<in> set (assemble st)" and "sized n st"
  obtains i where "i < n" "bubbles st ! i = None" "v = (case outputs st ! i of None \<Rightarrow> VNone | Some d \<Rightarrow> VDict d)"
  using assms by (fastforce simp: assemble_def sized_def in_set_conv_nth split: option.splits)

lemma written_cell:
  assumes "written n D st" and "i < n" and "bubbles st ! i = None"
  obtains d where "outputs st ! i = Some d" "distinct (map fst d)" "set (map fst d) = fp_name ` D" "\<forall>fp \<in> D. field_ok fp d"
proof -
  have "good_cell (cell st i)" using assms(1,2) by (simp add: written_def)
  with assms(3) have "live_cell (cell st i)" by (simp add: cell_def)
  with assms(1,2) obtain d where "fst (cell st i) = Some d" "distinct (map fst d)" "set (map fst d) = fp_name ` D"
    "\<forall>fp \<in> D. field_ok fp d" unfolding written_def by blast
  then show thesis using that by (simp add: cell_def)
qed

lemma assemble_conforms:
  assumes "written n (set fs) st" and "Value v \<in> set (assemble st)"
  shows "object_conforms (Object_Plan t fs l) v"
proof -
  have "sized n st" using assms(1) by (simp add: written_def)
  with assms(2) obtain i where i: "i < n" "bubbles st ! i = None"
    "v = (case outputs st ! i of None \<Rightarrow> VNone | Some d \<Rightarrow> VDict d)" by (rule assemble_Value)
  from assms(1) i(1,2) obtain d where "outputs st ! i = Some d" "distinct (map fst d)"
    "set (map fst d) = fp_name ` set fs" "\<forall>fp \<in> set fs. field_ok fp d" by (rule written_cell)
  with i(3) show ?thesis by (auto simp: field_ok_def)
qed

lemma finish_walk_conforms:
  assumes "outcome_of (case walk_fields n complete fs ([], Inr (new_completion n, [])) of
      (es, r) \<Rightarrow> finish_walk ctx paths es r) = Inr outs"
    and "\<And>fp live_idx. fp \<in> set fs \<Longrightarrow> delivers fp live_idx (outcome_of (complete fp live_idx))"
    and "distinct (map fp_name fs)" and "fair_schedule ctx"
  shows "length outs = n \<and> (\<forall>v. Value v \<in> set outs \<longrightarrow> object_conforms (Object_Plan t fs l) v)"
proof -
  obtain es r where w: "walk_fields n complete fs ([], Inr (new_completion n, [])) = (es, r)" by fastforce
  with assms(1) obtain st pending where r: "r = Inr (st, pending)"
    by (cases r) (auto simp: finish_walk_def)
  have start: "written n {} (new_completion n)"
    by (simp add: written_def new_completion_cells)
  have "\<exists>D'. written n D' st \<and> pending_ok n st pending \<and> distinct (pending_names pending)
    \<and> fp_name ` D' \<inter> set (pending_names pending) = {}
    \<and> D' \<union> fst ` set pending = {} \<union> fst ` set ([] :: 'a pending_field list) \<union> set fs"
    by (rule walk_fields_written [OF w [unfolded r] assms(2) start]) (use assms(3) in \<open>simp_all add: pending_ok_def\<close>)
  then obtain D where D: "written n D st" "pending_ok n st pending" "distinct (pending_names pending)"
    "fp_name ` D \<inter> set (pending_names pending) = {}" "D \<union> fst ` set pending = set fs" by auto
  have lenA: "length (assemble st') = n" if "written n X st'" for X and st' :: "'a field_completion"
    using that by (simp add: assemble_def written_def sized_def)
  show ?thesis
  proof (cases "pending = [] \<or> list_all (\<lambda>b. b \<noteq> None) (bubbles st)")
    case True
    with assms(1) w r have outs: "outs = assemble st" by (simp add: finish_walk_def)
    have "object_conforms (Object_Plan t fs l) v" if "Value v \<in> set outs" for v
    proof (cases "pending = []")
      case True
      with D outs that show ?thesis by (intro assemble_conforms [of n fs st]) simp_all
    next
      case False
      have sz: "sized n st" using D(1) by (simp add: written_def)
      from that outs sz obtain i where "i < n" "bubbles st ! i = None" by (auto elim: assemble_Value)
      moreover from this sz have "bubbles st ! i \<in> set (bubbles st)" unfolding sized_def by (metis nth_mem)
      ultimately show ?thesis using True False by (auto simp: list_all_iff)
    qed
    with outs lenA [OF D(1)] show ?thesis by simp
  next
    case False
    define order where "order = map (nth pending) (schedule ctx paths (length pending))"
    have "mset (schedule ctx paths (length pending)) = mset [0..<length pending]"
      using assms(4) by (simp add: fair_schedule_def)
    then have perm: "mset order = mset pending"
      unfolding order_def by (metis map_nth mset_map)
    then have same: "set order = set pending" by (metis set_mset_mset)
    have "mset (pending_names order) = mset (pending_names pending)"
      by (simp add: pending_names_def perm)
    then have names: "distinct (pending_names order)" "set (pending_names order) = set (pending_names pending)"
      using D(3) by (metis mset_eq_imp_distinct_iff, metis mset_eq_setD)
    from assms(1) w r False obtain st' where st': "snd (settle_pending order st) = Inr st'" "outs = assemble st'"
      by (auto simp: finish_walk_def bind_res_Inr_iff order_def split: prod.splits)
    have "written n (D \<union> fst ` set order) st'"
      by (rule settle_pending_written [OF st'(1) D(1)]) (use D names same in \<open>simp_all add: pending_ok_def\<close>)
    then have "written n (set fs) st'" using D(5) by (simp add: same)
    with st'(2) lenA show ?thesis using assemble_conforms by blast
  qed
qed

lemma single_leaf_length:
  "outcome_of (complete_leaf_values ctx t vs paths) = Inr outs \<Longrightarrow> length paths = length vs \<Longrightarrow> length outs = length vs"
  by (auto simp: complete_leaf_values_def bind_res_Inr_iff dest!: resolve_outcome map_res_length)

lemma enforce_conforms: "enforce_non_null ctx l p x = Value v \<Longrightarrow> x = Value v \<and> v \<noteq> VNone"
  by (auto simp: enforce_non_null_def split: completed.splits if_splits)

lemma run_object_bucket_outcome:
  assumes "outcome_of (run_object_bucket ctx t vs paths) = Inr (results, keep)" and "length paths = length vs"
  shows "length results = length vs \<and> (\<forall>v. Value v \<in> set results \<longrightarrow> v = VNone)"
proof -
  let ?own = "map2 (own_result ctx) vs paths"
  have own: "length ?own = length vs \<and> (\<forall>v. Value v \<in> set ?own \<longrightarrow> v = VNone)"
    using assms(2) by (auto simp: own_result_def split: pyval.splits)
  have fold: "length (reject_failed ctx t rs xs) = length rs
      \<and> (\<forall>v. Value v \<in> set (reject_failed ctx t rs xs) \<longrightarrow> Value v \<in> set rs)" for rs xs
    unfolding reject_failed_def
  proof (induction xs arbitrary: rs)
    case (Cons x xs)
    obtain i v p where x: "x = (i, v, p)" by (metis prod.collapse)
    show ?case
      using Cons.IH [of "rs[i := Bubble (located ctx (invalid_return_type_error t) p)]"]
        set_update_subset_insert [of rs i "Bubble (located ctx (invalid_return_type_error t) p)"]
      by (auto simp: x)
  qed simp
  from assms(1) have "\<exists>xs. results = reject_failed ctx t ?own xs"
    by (cases "type_guard ctx t"; cases "filter is_child (entries_of vs paths) = []")
      (auto simp: run_object_bucket_def Let_def bind_res_Inr_iff reject_failed_def intro: exI [of _ "[]"])
  with own fold show ?thesis by metis
qed

lemma done_groups_fold:
  "length (foldl (\<lambda>rs (origin, children). scatter_results rs origin children) rs xs) = length rs
   \<and> set (foldl (\<lambda>rs (origin, children). scatter_results rs origin children) rs xs) \<subseteq> set rs \<union> \<Union> (set ` snd ` set xs)"
proof (induction xs arbitrary: rs)
  case (Cons x xs)
  obtain origin children where x: "x = (origin, children)" by fastforce
  show ?case
    using Cons.IH [of "scatter_results rs origin children"] scatter_results_set [of rs origin children]
    by (auto simp: x)
qed simp

lemma plan_field_outcome_length:
  "plan_field_outcome h fp live_idx cols = Inr vs \<Longrightarrow> length vs = length live_idx"
  by (auto simp: plan_field_outcome_def pick_length split: option.splits)

lemma complete_conforms:
  assumes fair: "fair_schedule ctx"
  shows "completer_named c \<Longrightarrow> length paths = length vs \<Longrightarrow> length infos = length vs
      \<Longrightarrow> outcome_of (complete_values ctx c vs paths infos label bridge) = Inr outs
      \<Longrightarrow> length outs = length vs \<and> (\<forall>v. Value v \<in> set outs \<longrightarrow> conforms c v)"
    and "completer_named (fp_completer fp) \<Longrightarrow> length paths = length vs \<Longrightarrow> length infos = length vs
      \<Longrightarrow> outcome_of (complete_values ctx (fp_completer fp) vs paths infos label bridge) = Inr outs
      \<Longrightarrow> length outs = length vs \<and> (\<forall>v. Value v \<in> set outs \<longrightarrow> conforms (fp_completer fp) v)"
    and "plan_named p \<Longrightarrow> length paths = length parents
      \<Longrightarrow> outcome_of (execute_object_plan ctx p parents paths parent_store) = Inr outs
      \<Longrightarrow> length outs = length parents \<and> (\<forall>v. Value v \<in> set outs \<longrightarrow> object_conforms p v)"
proof (induction c and fp and p arbitrary: vs paths infos label bridge outs and vs paths infos label bridge outs
    and parents paths parent_store outs)
  case (Leaf_C t)
  then show ?case using single_leaf_length by simp
next
  case (Object_C t child)
  from Object_C.prems(4) obtain ws results keep where
    ws: "outcome_of (resolve_awaitable_values vs :: ('a, pyval list) work) = Inr ws"
    and bucket: "outcome_of (run_object_bucket ctx t ws paths) = Inr (results, keep)"
    and rest: "keep = [] \<and> outs = results \<or> (\<exists>p ps children. child = Some p
      \<and> outcome_of (execute_object_plan ctx p (map (\<lambda>(i, v, p). v) keep) (map (\<lambda>(i, v, p). p) keep) ps) = Inr children
      \<and> outs = scatter_results results (map fst keep) children)"
    by (fastforce simp: bind_res_Inr_iff split: if_splits option.splits)
  have res: "length results = length vs \<and> (\<forall>v. Value v \<in> set results \<longrightarrow> v = VNone)"
    using run_object_bucket_outcome [OF bucket] resolve_outcome [OF ws] Object_C.prems(2) by simp
  from rest show ?case
  proof
    assume "\<exists>p ps children. child = Some p
      \<and> outcome_of (execute_object_plan ctx p (map (\<lambda>(i, v, p). v) keep) (map (\<lambda>(i, v, p). p) keep) ps) = Inr children
      \<and> outs = scatter_results results (map fst keep) children"
    then obtain p ps children where p: "child = Some p" "outs = scatter_results results (map fst keep) children"
      and run: "outcome_of (execute_object_plan ctx p (map (\<lambda>(i, v, p). v) keep) (map (\<lambda>(i, v, p). p) keep) ps) = Inr children"
      by blast
    from p(1) Object_C.prems(1) have "\<forall>v. Value v \<in> set children \<longrightarrow> object_conforms p v"
      using Object_C.IH [of p, OF _ _ _ run] by simp
    with res p scatter_results_set [of results "map fst keep" children] show ?thesis by auto
  qed (use res in auto)
next
  case (List_C c)
  from List_C.prems(4) obtain ws where ws: "outcome_of (prepare_list_inputs vs :: ('a, pyval list) work) = Inr ws"
    by (auto simp: bind_res_Inr_iff)
  obtain items item_paths item_infos spans where
    fl: "flatten_lists ctx label 0 (zip ws (zip paths infos)) = (items, item_paths, item_infos, spans)"
    by (metis prod_cases4)
  from List_C.prems(4) ws fl obtain cs where
    cs: "outcome_of (complete_values ctx c items item_paths item_infos label
      (map_option (map (\<lambda>(hid, col). (hid, item_column ws col))) bridge)) = Inr cs"
    and outs: "outs = map snd (map (collect_span (is_non_null c) cs) spans)"
    by (auto simp: bind_res_Inr_iff collect_lists_def Let_def)
  have lens: "length item_paths = length items" "length item_infos = length items" "length spans = length vs"
    using flatten_lengths [OF fl] prepare_outcome [OF ws] List_C.prems(2,3) by simp_all
  have "\<forall>v. Value v \<in> set cs \<longrightarrow> conforms c v"
    using List_C.IH [OF _ lens(1,2) cs] List_C.prems(1) by simp
  moreover have "conforms (List_C c) v" if "Value v \<in> set outs" and "\<forall>v. Value v \<in> set cs \<longrightarrow> conforms c v" for v
  proof -
    from that(1) outs obtain s where "snd (collect_span (is_non_null c) cs s) = Value v" by auto
    then have "collect_span (is_non_null c) cs s = (fst (collect_span (is_non_null c) cs s), Value v)" by (metis prod.collapse)
    then show ?thesis using that(2) by (rule collect_span_conforms)
  qed
  ultimately show ?case using outs lens(3) by auto
next
  case (Abstract_C t plans)
  from Abstract_C.prems(4) obtain ws runtimes dispatched groups where
    ws: "outcome_of (resolve_awaitable_values vs :: ('a, pyval list) work) = Inr ws"
    and rt: "outcome_of (resolve_abstract_bucket ctx t ws infos :: ('a, pyval list) work) = Inr runtimes"
    and di: "map_res (\<lambda>(v, p, i, r). dispatch_entry ctx t v p i r) (zip ws (zip paths (zip infos runtimes))) = Inr dispatched"
    and gr: "outcome_of (gather_work
       (map (\<lambda>(name, group).
          case map_of plans name of
            None \<Rightarrow> of_res (Inl (HostError ''no plan for the type''))
          | Some p \<Rightarrow>
              bind_work (of_res (build_hoist_parent_store (op_layer p) bridge (map fst group))) (\<lambda>parent_store.
              bind_work
                (execute_object_plan ctx p (map (\<lambda>(i, v, p). v) group) (map (\<lambda>(i, v, p). p) group) parent_store)
                (\<lambda>children. ret (map fst group, children))))
          (group_entries dispatched (entries_of ws paths)))) = Inr groups"
    and outs: "outs = foldl (\<lambda>rs (origin, children). scatter_results rs origin children) (map own_dispatched dispatched) groups"
    by (auto simp: bind_res_Inr_iff simp del: foldl_map)
  have len: "length ws = length vs" using resolve_outcome [OF ws] .
  with rt have "length runtimes = length vs"
    using Abstract_C.prems(3) by (auto simp: resolve_abstract_bucket_def dest!: resolve_outcome)
  with di len have "length dispatched = length vs"
    using Abstract_C.prems(2,3) by (auto dest: map_res_length)
  moreover have own: "v = VNone" if "Value v \<in> set (map own_dispatched dispatched)" for v
  proof -
    from that obtain k where k: "k < length dispatched" "own_dispatched (dispatched ! k) = Value v"
      by (auto simp: in_set_conv_nth)
    obtain x p i r where "zip ws (zip paths (zip infos runtimes)) ! k = (x, p, i, r)" by (metis prod_cases4)
    with map_res_nth [OF di, of k] map_res_length [OF di] k(1)
    have "dispatch_entry ctx t x p i r = Inr (dispatched ! k)" by simp
    then show ?thesis using k(2) by (rule dispatch_own)
  qed
  moreover have child: "\<exists>tp \<in> set plans. object_conforms (snd tp) v"
    if "children \<in> snd ` set groups" and "Value v \<in> set children" for children v
  proof -
    let ?gs = "group_entries dispatched (entries_of ws paths)"
    from that(1) obtain k origin where k: "k < length groups" "groups ! k = (origin, children)"
      by (auto simp: in_set_conv_nth)
    obtain name group where g: "?gs ! k = (name, group)" by fastforce
    from gr k(1) have "length ?gs = length groups"
      unfolding outcome_gather by (simp add: list_all2_lengthD [symmetric])
    with gr k g have "outcome_of (case map_of plans name of
            None \<Rightarrow> of_res (Inl (HostError ''no plan for the type''))
          | Some p \<Rightarrow>
              bind_work (of_res (build_hoist_parent_store (op_layer p) bridge (map fst group))) (\<lambda>parent_store.
              bind_work
                (execute_object_plan ctx p (map (\<lambda>(i, v, p). v) group) (map (\<lambda>(i, v, p). p) group) parent_store)
                (\<lambda>children. ret (map fst group, children)))) = Inr (origin, children)"
      unfolding outcome_gather list_all2_conv_all_nth by fastforce
    then obtain p ps where p: "map_of plans name = Some p"
      and run: "outcome_of (execute_object_plan ctx p (map (\<lambda>(i, v, p). v) group) (map (\<lambda>(i, v, p). p) group) ps) = Inr children"
      by (auto simp: bind_res_Inr_iff split: option.splits)
    from p have mem: "(name, p) \<in> set plans" by (rule map_of_SomeD)
    with Abstract_C.prems(1) have named: "plan_named p" by force
    have "\<forall>v. Value v \<in> set children \<longrightarrow> object_conforms p v"
      by (rule conjunct2 [OF Abstract_C.IH [OF mem _ named _ run]]) simp_all
    with that(2) mem show ?thesis by force
  qed
  moreover have "conforms (Abstract_C t plans) v" if "Value v \<in> set outs" for v
  proof -
    from that outs done_groups_fold [of "map own_dispatched dispatched" groups]
    have "Value v \<in> set (map own_dispatched dispatched) \<or> (\<exists>children \<in> snd ` set groups. Value v \<in> set children)"
      by blast
    then show ?thesis using own child by (auto simp del: set_map)
  qed
  ultimately show ?case
    using outs done_groups_fold [of "map own_dispatched dispatched" groups] by simp
next
  case (NonNull_C c)
  from NonNull_C.prems(4) obtain cs where cs: "outcome_of (complete_values ctx c vs paths infos label bridge) = Inr cs"
    "outs = map2 (enforce_non_null ctx label) paths cs" by (auto simp: bind_res_Inr_iff)
  with NonNull_C.IH [OF _ NonNull_C.prems(2,3) cs(1)] NonNull_C.prems(1,2) have
    "length cs = length vs" "\<forall>v. Value v \<in> set cs \<longrightarrow> conforms c v" by simp_all
  moreover have "conforms (NonNull_C c) v" if "Value v \<in> set outs" and "\<forall>v. Value v \<in> set cs \<longrightarrow> conforms c v" for v
  proof -
    from that(1) cs(2) have "Value v \<in> (\<lambda>(q, x). enforce_non_null ctx label q x) ` set (zip paths cs)" by simp
    then obtain q x where "(q, x) \<in> set (zip paths cs)" "enforce_non_null ctx label q x = Value v" by auto
    then have "x = Value v" "v \<noteq> VNone" "x \<in> set cs" by (auto dest: enforce_conforms set_zip_rightD)
    with that(2) show ?thesis by simp
  qed
  ultimately show ?case using cs(2) NonNull_C.prems(2) by simp
next
  case (Field_Plan name label step c)
  then show ?case by simp
next
  case (Object_Plan t fs layer)
  from Object_Plan.prems(3) obtain columns where
    w: "outcome_of (case walk_fields (length parents) (\<lambda>fp. complete_field ctx fp paths columns) fs
              ([], Inr (new_completion (length parents), [])) of
         (es, r) \<Rightarrow> finish_walk ctx paths es r) = Inr outs"
    by (auto simp: walk_output_fields bind_res_Inr_iff)
  have "delivers fp live_idx (outcome_of (complete_field ctx fp paths columns live_idx))"
    if "fp \<in> set fs" for fp live_idx
    unfolding delivers_def
  proof (intro allI impI)
    fix cs
    assume "outcome_of (complete_field ctx fp paths columns live_idx) = Inr cs"
    then obtain vs bridge where vs: "length vs = length live_idx"
      and run: "outcome_of (complete_values ctx (fp_completer fp) vs (field_paths fp paths live_idx)
                         (field_paths fp paths live_idx) (fp_label fp) bridge) = Inr cs"
      by (auto simp: complete_field.simps bind_res_Inr_iff dest: plan_field_outcome_length split: option.splits)
    have "completer_named (fp_completer fp)" using Object_Plan.prems(1) that by simp
    then show "length cs = length live_idx \<and> (\<forall>v. Value v \<in> set cs \<longrightarrow> conforms (fp_completer fp) v)"
      using Object_Plan.IH [OF that _ _ _ run] vs by (simp add: field_paths_def)
  qed
  with finish_walk_conforms [OF w _ _ fair] Object_Plan.prems(1) show ?case by simp
qed

section \<open>The serial path and the response\<close>

lemma store_lengths:
  "store results h r k out un = Inr results' \<Longrightarrow> \<forall>c \<in> ran results. length c = k \<Longrightarrow> \<forall>c \<in> ran results'. length c = k"
proof -
  assume st: "store results h r k out un = Inr results'" and len: "\<forall>c \<in> ran results. length c = k"
  then have "\<exists>c. results' = results(sid (obj h r) \<mapsto> c) \<and> length c = k"
    by (cases out) (auto simp: store_def concat_replicate_single split: if_splits)
  then obtain c where c: "results' = results(sid (obj h r) \<mapsto> c)" "length c = k" by blast
  moreover have "ran (results(sid (obj h r) \<mapsto> c)) \<subseteq> insert c (ran results)" by (auto simp: ran_def)
  ultimately show "\<forall>c \<in> ran results'. length c = k" using len by blast
qed

lemma run_rest_lengths:
  "run_rest h beh extra traced k uh results rs = (es, Inr results') \<Longrightarrow> \<forall>c \<in> ran results. length c = k
   \<Longrightarrow> \<forall>c \<in> ran results'. length c = k"
proof (induction rs arbitrary: results es)
  case (Cons r rs)
  from Cons.prems(1) obtain out un results1 es1 where "store results h r k out un = Inr results1"
    "run_rest h beh extra traced k uh results1 rs = (es1, Inr results')"
    by (auto simp: Let_def span_events_def split: sum.splits prod.splits)
  with Cons.IH [of results1 es1] Cons.prems(2) store_lengths show ?case by blast
qed simp

lemma run_steps_lengths:
  "outcome (run_steps h beh extra traced k seed ordered) = Inr results \<Longrightarrow> \<forall>c \<in> ran seed. length c = k
   \<Longrightarrow> \<forall>c \<in> ran results. length c = k"
  using run_rest_lengths unfolding run_steps_rest by (metis prod.collapse)

lemma outcome_work_of_run [simp]: "outcome_of (work_of_run run) = outcome run"
  by (cases run) simp_all

lemma serial_column_length:
  assumes "outcome_of (run_serial_plan_field ctx fp ps pths b) = Inr vs"
  shows "length vs = length ps"
proof -
  from assms obtain q s where qs: "b = Some q" "fp_step fp = Some s"
    by (cases b; cases "fp_step fp") (simp_all add: run_serial_plan_field_def Let_def)
  with assms obtain columns where
    run: "outcome (run_steps (step_heap ctx) (behave ctx) (Some (request_extra ctx pths)) (traced_steps ctx)
       (length ps) [sid (obj (step_heap ctx) q) \<mapsto> ps] (order_steps_within (step_heap ctx) [s] {sid (obj (step_heap ctx) q)})) = Inr columns"
    and col: "columns (sid (obj (step_heap ctx) s)) = Some vs"
    by (auto simp: run_serial_plan_field_def Let_def bind_res_Inr_iff qs split: option.splits)
  from col have "vs \<in> ran columns" by (rule ranI)
  moreover have "\<forall>c \<in> ran columns. length c = length ps" by (rule run_steps_lengths [OF run]) simp
  ultimately show ?thesis by blast
qed

lemma serial_fields_outcome:
  "outcome_of (foldl (\<lambda>w fp. bind_work w (complete_serial_field ctx parents paths b fp)) w fs)
     = foldl (\<lambda>r fp. bind_res r (\<lambda>st. outcome_of (complete_serial_field ctx parents paths b fp st))) (outcome_of w) fs"
  by (induction fs arbitrary: w) simp_all

lemma foldl_bind_raised: "foldl (\<lambda>r fp. bind_res r (f fp)) (Inl e) fs = Inl e"
  by (induction fs) simp_all

lemma serial_fields_written:
  assumes "foldl (\<lambda>r fp. bind_res r (\<lambda>st. outcome_of (complete_serial_field ctx parents paths b fp st))) (Inr st) fs = Inr st'"
    and fair: "fair_schedule ctx" and len: "length paths = length parents"
    and "\<forall>fp \<in> set fs. completer_named (fp_completer fp)"
    and "written (length parents) D st" and "distinct (map fp_name fs)" and "fp_name ` D \<inter> fp_name ` set fs = {}"
  shows "written (length parents) (D \<union> set fs) st'"
  using assms(1,4-7)
proof (induction fs arbitrary: st D)
  case (Cons fp fs)
  let ?live = "live_indices (length parents) st"
  have cov: "covers (length parents) ?live st" using live_indices_props [of _ st] by (auto simp: covers_def)
  from Cons.prems(1) obtain st1 where one: "outcome_of (complete_serial_field ctx parents paths b fp st) = Inr st1"
    and rest: "foldl (\<lambda>r fp. bind_res r (\<lambda>st. outcome_of (complete_serial_field ctx parents paths b fp st))) (Inr st1) fs = Inr st'"
    by (cases "outcome_of (complete_serial_field ctx parents paths b fp st)") (simp_all add: foldl_bind_raised)
  have fresh: "fp_name fp \<notin> fp_name ` D" using Cons.prems(5) by auto
  have "written (length parents) (insert fp D) st1"
  proof (cases "?live = []")
    case True
    with one Cons.prems(3) cov show ?thesis
      by (auto simp: complete_serial_field_def written_def covers_def)
  next
    case False
    with one obtain vs cs where vs: "outcome_of (run_serial_plan_field ctx fp (map (nth parents) ?live) (map (nth paths) ?live) b) = Inr vs"
      and cs: "outcome_of (complete_values ctx (fp_completer fp) vs (field_paths fp paths ?live) (field_paths fp paths ?live) (fp_label fp) None) = Inr cs"
      and st1: "snd (scatter_field fp ?live cs st) = st1"
      by (auto simp: complete_serial_field_def Let_def bind_res_Inr_iff case_prod_unfold)
    then obtain es where sc: "scatter_field fp ?live cs st = (es, st1)" by (metis prod.collapse)
    have "length vs = length ?live" using serial_column_length [OF vs] by simp
    then have "delivers fp ?live (Inr cs)"
      using complete_conforms(1) [OF fair _ _ _ cs] Cons.prems(2) by (simp add: delivers_def field_paths_def)
    with scatter_field_written [OF sc Cons.prems(3) cov _ fresh] show ?thesis by simp
  qed
  then have "written (length parents) (insert fp D \<union> set fs) st'"
    using Cons.prems(2,4,5) by (intro Cons.IH [OF rest]) auto
  then show ?case by simp
qed simp

lemma serial_conforms:
  assumes fair: "fair_schedule ctx" and "plan_named p" and "length paths = length parents"
    and run: "outcome_of (execute_object_plan_serially ctx p parents paths) = Inr outs"
  shows "length outs = length parents \<and> (\<forall>v. Value v \<in> set outs \<longrightarrow> object_conforms p v)"
proof -
  obtain t fs l where p: "p = Object_Plan t fs l" by (cases p)
  let ?n = "length parents"
  from run obtain st where st: "foldl (\<lambda>r fp. bind_res r (\<lambda>st. outcome_of (complete_serial_field ctx parents paths (l_parent l) fp st)))
      (Inr (new_completion ?n)) fs = Inr st" and outs: "outs = assemble st"
    by (auto simp: p execute_object_plan_serially_def execute_object_plan_serially_fields_def bind_res_Inr_iff
        serial_fields_outcome)
  have "written ?n {} (new_completion ?n)" by (simp add: written_def new_completion_cells)
  from serial_fields_written [OF st fair assms(3) _ this] assms(2) have w: "written ?n (set fs) st" by (simp add: p)
  then have "length outs = ?n" by (simp add: outs assemble_def written_def sized_def)
  with w outs assemble_conforms show ?thesis by (auto simp: p)
qed

lemma run_planned_conforms:
  assumes "fair_schedule ctx" and "plan_named p"
    and "outcome_of (run_planned_operation ctx is_mutation p root) = Inr (Value d)"
  shows "object_conforms p d"
proof -
  from assms(3) obtain rs where rs: "(if is_mutation then outcome_of (execute_object_plan_serially ctx p [root] [[]])
      else outcome_of (execute_object_plan ctx p [root] [[]] None)) = Inr rs" and "seq_index rs 0 = Inr (Value d)"
    by (auto simp: run_planned_operation_def bind_res_Inr_iff split: if_splits)
  then have "Value d \<in> set rs" by (cases rs) (auto simp: seq_index_def split: if_splits)
  with rs show ?thesis
    using serial_conforms [OF assms(1,2), of "[[]]" "[root]"] complete_conforms(3) [OF assms(1,2), of "[[]]" "[root]"]
    by (auto split: if_splits)
qed

lemma respond_conforms:
  assumes "fair_schedule ctx" and "plan_named p" and "respond key ctx is_mutation p root = Inr (d, errs)"
  shows "object_conforms p d \<or> (d = VNone \<and> errs \<noteq> None)"
proof -
  let ?x = "outcome_of (run_planned_operation ctx is_mutation p root)"
  show ?thesis
  proof (cases ?x)
    case (Inl e)
    with assms(3) show ?thesis by (cases e) (auto simp: respond_def make_result_def Let_def)
  next
    case (Inr c)
    with assms(3) run_planned_conforms [OF assms(1,2)] show ?thesis
      by (cases c) (auto simp: respond_def make_result_def Let_def)
  qed
qed

end
