(* ===== verification/Depth_First.thy ===== *)
theory Depth_First
  imports Conformance
begin

text \<open>
  The specification of a synchronous execution: every value is completed on its own, depth first, with
  no batch, no flattening, no grouping and no shared columns. \<open>f\<close> gives what a step computes at one
  entry from the entry's path and its dependencies' values. \<open>None\<close> is an exception that escapes.
\<close>

section \<open>One entry\<close>

type_synonym 'e one = "('e list \<times> 'e completed) option"
type_synonym meaning = "ref \<Rightarrow> seg list \<Rightarrow> pyval list \<Rightarrow> pyval"

definition run_one :: "heap \<Rightarrow> (ref \<Rightarrow> pyval list \<Rightarrow> pyval) \<Rightarrow> (int \<rightharpoonup> pyval) \<Rightarrow> ref list \<Rightarrow> (int \<rightharpoonup> pyval)" where
  "run_one h g seed ordered =
     foldl (\<lambda>s r. s(sid (obj h r) \<mapsto> g r (map (\<lambda>d. the (s (sid (obj h d)))) (deps_of h r)))) seed ordered"

text \<open>The values of a layer's steps for one parent.\<close>

definition one_store ::
  "'e exec_context \<Rightarrow> meaning \<Rightarrow> layer_plan \<Rightarrow> pyval \<Rightarrow> seg list \<Rightarrow> (int \<rightharpoonup> pyval) \<Rightarrow> (int \<rightharpoonup> pyval)" where
  "one_store ctx f layer parent path hoisted =
     (let h = step_heap ctx;
          seed = (case l_parent layer of None \<Rightarrow> hoisted | Some b \<Rightarrow> hoisted(sid (obj h b) \<mapsto> parent))
      in run_one h (\<lambda>r. f r path) seed (case l_ordered layer of None \<Rightarrow> [] | Some rs \<Rightarrow> rs))"

definition one_value :: "heap \<Rightarrow> (int \<rightharpoonup> pyval) \<Rightarrow> field_plan \<Rightarrow> pyval" where
  "one_value h vals fp = (case fp_step fp of None \<Rightarrow> VNone | Some s \<Rightarrow> the (vals (sid (obj h s))))"

definition one_errors :: "'e one \<Rightarrow> 'e multiset" where
  "one_errors r = mset (fst (the r))"

definition one_result :: "'e one \<Rightarrow> 'e completed" where
  "one_result r = snd (the r)"

lemma one_simps [simp]: "one_errors (Some (es, c)) = mset es" "one_result (Some (es, c)) = c"
  by (simp_all add: one_errors_def one_result_def)

fun cell_result :: "'e cell \<Rightarrow> 'e completed" where
  "cell_result (d, Some e) = Bubble e"
| "cell_result (None, None) = Value VNone"
| "cell_result (Some d, None) = Value (VDict d)"

definition numbered :: "'a list \<Rightarrow> (nat \<times> 'a) list" where
  "numbered xs = zip [0..<length xs] xs"

lemma numbered_snd: "(k, x) \<in> set (numbered xs) \<Longrightarrow> x \<in> set xs"
  by (auto simp: numbered_def dest: set_zip_rightD)

text \<open>One field of one parent, unless the parent is dead.\<close>

definition field_one :: "field_plan \<Rightarrow> 'e one \<Rightarrow> ('e list \<times> 'e cell) option \<Rightarrow> ('e list \<times> 'e cell) option" where
  "field_one fp r acc =
     (case acc of
        None \<Rightarrow> None
      | Some (es, x) \<Rightarrow>
          (if \<not> live_cell x then Some (es, x)
           else map_option (\<lambda>(fs, c). case write_cell fp c x of (gs, x') \<Rightarrow> (es @ fs @ gs, x')) r))"

function one_completed ::
  "'e exec_context \<Rightarrow> meaning \<Rightarrow> completer \<Rightarrow> pyval \<Rightarrow> seg list \<Rightarrow> seg list \<Rightarrow> string \<Rightarrow> (int \<rightharpoonup> pyval) \<Rightarrow> 'e one"
and one_object ::
  "'e exec_context \<Rightarrow> meaning \<Rightarrow> object_plan \<Rightarrow> pyval \<Rightarrow> seg list \<Rightarrow> (int \<rightharpoonup> pyval) \<Rightarrow> 'e one" where
  "one_completed ctx f (Leaf_C t) v path info label hoisted =
     (case complete_single_leaf ctx t v path of Inl e \<Rightarrow> None | Inr c \<Rightarrow> Some ([], c))"
| "one_completed ctx f (NonNull_C c) v path info label hoisted =
     map_option (\<lambda>(es, x). (es, enforce_non_null ctx label path x)) (one_completed ctx f c v path info label hoisted)"
| "one_completed ctx f (List_C c) v path info label hoisted =
     (if is_exc v \<or> null_value v then Some ([], own_result ctx v path)
      else case list_items v of
             None \<Rightarrow> Some ([], Bubble (located ctx (GraphQLError
               (''Expected Iterable, but did not find one for field '' @ label @ ''.'')) path))
           | Some xs \<Rightarrow>
               (let rs = map (\<lambda>(k, x). one_completed ctx f c x (path @ [SIdx (int k)]) info label hoisted) (numbered xs)
                in if None \<in> set rs then None
                   else case collect_items (is_non_null c) (map one_result rs) [] of
                          (es, x) \<Rightarrow> Some (concat (map (fst \<circ> the) rs) @ es, x)))"
| "one_completed ctx f (Object_C t child) v path info label hoisted =
     (if is_exc v \<or> null_value v then Some ([], own_result ctx v path)
      else case (case type_guard ctx t of None \<Rightarrow> Inr (VBool True) | Some is_type_of \<Rightarrow> is_type_of v path) of
             Inl e \<Rightarrow> None
           | Inr ok \<Rightarrow>
               (if \<not> truthy ok then Some ([], Bubble (located ctx (invalid_return_type_error t) path))
                else case child of
                       None \<Rightarrow> None
                     | Some p \<Rightarrow> one_object ctx f p v path (hoisted |` l_hoisted_out (op_layer p))))"
| "one_completed ctx f (Abstract_C t plans) v path info label hoisted =
     (case dispatch_entry ctx t v path info (runtime_of ctx t (v, info)) of
        Inl e \<Rightarrow> None
      | Inr (Inl c) \<Rightarrow> Some ([], c)
      | Inr (Inr name) \<Rightarrow>
          (case map_of plans name of
             None \<Rightarrow> None
           | Some p \<Rightarrow> one_object ctx f p v path (hoisted |` l_hoisted_out (op_layer p))))"
| "one_object ctx f (Object_Plan t fs layer) parent path hoisted =
     (let vals = one_store ctx f layer parent path hoisted in
      map_option (\<lambda>(es, x). (es, cell_result x))
        (foldl (\<lambda>acc fp. field_one fp
             (one_completed ctx f (fp_completer fp) (one_value (step_heap ctx) vals fp)
                (path @ [SKey (fp_name fp)]) (path @ [SKey (fp_name fp)]) (fp_label fp) vals) acc)
           (Some ([], (Some [], None))) fs))"
  by pat_completeness auto
termination
  by (relation "measure (case_sum (\<lambda>(ctx, f, c, r). size c) (\<lambda>(ctx, f, p, r). size p))")
    (auto dest!: map_of_size intro: fp_completer_size)

section \<open>What the batched execution owes the specification\<close>

definition agrees :: "('e, 'e completed list) work \<Rightarrow> 'e one list \<Rightarrow> bool" where
  "agrees w refs \<longleftrightarrow>
     (if None \<in> set refs then \<exists>es e. w = Now es (Inl e)
      else \<exists>es. w = Now es (Inr (map one_result refs)) \<and> mset es = sum_list (map one_errors refs))"

section \<open>Synchronous requests\<close>

fun plain :: "pyval \<Rightarrow> bool" where
  "plain (VAwait v) = False"
| "plain (VList xs) = list_all plain xs"
| "plain (VTuple xs) = list_all plain xs"
| "plain (VDict d) = list_all (\<lambda>kv. plain (snd kv)) d"
| "plain (VObj i d) = list_all (\<lambda>kv. plain (snd kv)) d"
| "plain v = True"

text \<open>
  The steps of \<open>R\<close> return at once and compute each entry by \<open>f\<close>; a step the executor may run once and
  share does not look at the paths.
\<close>

definition pointwise_steps :: "'e exec_context \<Rightarrow> meaning \<Rightarrow> ref set \<Rightarrow> bool" where
  "pointwise_steps ctx f R \<longleftrightarrow>
     (\<forall>r \<in> R. (\<forall>n paths cols. length cols = length (deps_of (step_heap ctx) r) \<longrightarrow>
        (\<forall>c \<in> set cols. length c = n \<and> list_all plain c) \<longrightarrow> length paths = n \<longrightarrow>
        call_step (step_heap ctx) (behave ctx) (Some (request_extra ctx paths)) r n cols
          = Returned (map (\<lambda>i. f r (paths ! i) (row cols i)) [0..<n]))
      \<and> (unary (obj (step_heap ctx) r) \<and> sync_safe (obj (step_heap ctx) r) \<longrightarrow>
          (\<forall>paths path cols. length cols = length (deps_of (step_heap ctx) r) \<longrightarrow>
             (\<forall>c \<in> set cols. length c = 1 \<and> list_all plain c) \<longrightarrow>
             call_step (step_heap ctx) (behave ctx) (Some (request_extra ctx paths)) r 1 cols
               = Returned [f r path (row cols 0)]))
      \<and> (\<forall>path vs. list_all plain vs \<longrightarrow> plain (f r path vs)))"

definition synchronous :: "'e exec_context \<Rightarrow> meaning \<Rightarrow> ref set \<Rightarrow> bool" where
  "synchronous ctx f R \<longleftrightarrow> pointwise_steps ctx f R
     \<and> (\<forall>t g v path w. type_guard ctx t = Some g \<longrightarrow> g v path = Inr w \<longrightarrow> \<not> is_awaitable w)
     \<and> (\<forall>t v info w. type_resolver ctx t v info = Inr w \<longrightarrow> \<not> is_awaitable w)"

section \<open>Ready plans\<close>

text \<open>Each step's dependencies are there when it runs.\<close>

fun runnable :: "heap \<Rightarrow> int set \<Rightarrow> ref list \<Rightarrow> bool" where
  "runnable h have [] = True"
| "runnable h have (r # rs) =
     ((\<forall>d \<in> set (deps_of h r). sid (obj h d) \<in> have) \<and> runnable h (insert (sid (obj h r)) have) rs)"

definition layer_ids :: "heap \<Rightarrow> layer_plan \<Rightarrow> int set" where
  "layer_ids h l = parent_ids h l \<union> l_hoisted_out l
     \<union> (case l_ordered l of None \<Rightarrow> {} | Some rs \<Rightarrow> (\<lambda>r. sid (obj h r)) ` set rs)"

definition layer_ready :: "heap \<Rightarrow> ref set \<Rightarrow> layer_plan \<Rightarrow> bool" where
  "layer_ready h R l \<longleftrightarrow>
     (\<exists>rs. l_parent l \<noteq> None \<and> finite (l_hoisted_out l) \<and> l_run l \<noteq> [] \<and> l_ordered l = Some rs \<and> set rs \<subseteq> R
       \<and> distinct (map (\<lambda>r. sid (obj h r)) rs)
       \<and> (parent_ids h l \<union> l_hoisted_out l) \<inter> (\<lambda>r. sid (obj h r)) ` set rs = {}
       \<and> runnable h (parent_ids h l \<union> l_hoisted_out l) rs)"

text \<open>
  A plan is ready when every layer's steps can run in order from its parent's value and the columns
  hoisted out of it, every field's step is among them, and what a child hoisted out its parent has.
\<close>

function completer_ready :: "heap \<Rightarrow> ref set \<Rightarrow> int set \<Rightarrow> completer \<Rightarrow> bool"
and plan_ready :: "heap \<Rightarrow> ref set \<Rightarrow> object_plan \<Rightarrow> bool" where
  "completer_ready h R have (Leaf_C t) = True"
| "completer_ready h R have (NonNull_C c) = completer_ready h R have c"
| "completer_ready h R have (List_C c) = completer_ready h R have c"
| "completer_ready h R have (Object_C t child) =
     (case child of None \<Rightarrow> True | Some p \<Rightarrow> l_hoisted_out (op_layer p) \<subseteq> have \<and> plan_ready h R p)"
| "completer_ready h R have (Abstract_C t plans) =
     (\<forall>tp \<in> set plans. l_hoisted_out (op_layer (snd tp)) = {} \<and> plan_ready h R (snd tp))"
| "plan_ready h R (Object_Plan t fs l) =
     (if fs = [] \<and> l_run l = [] then finite (l_hoisted_out l)
      else layer_ready h R l
        \<and> (\<forall>fp \<in> set fs. (case fp_step fp of None \<Rightarrow> False | Some s \<Rightarrow> sid (obj h s) \<in> layer_ids h l)
             \<and> completer_ready h R (layer_ids h l) (fp_completer fp)))"
  by pat_completeness auto
termination
  by (relation "measure (case_sum (\<lambda>(h, R, have, c). size c) (\<lambda>(h, R, p). size p))")
    (auto intro: fp_completer_size abstract_plan_size)

end
