(* ===== verification/Batch_Laws.thy ===== *)
theory Batch_Laws
  imports Depth_First
begin

text \<open>
  The batched execution agrees with the depth-first specification: first a layer's columns, then the
  completers, one by one.
\<close>

section \<open>A layer's columns\<close>

definition columns_of :: "nat \<Rightarrow> columns \<Rightarrow> (nat \<Rightarrow> int \<rightharpoonup> pyval) \<Rightarrow> bool" where
  "columns_of n cols ss \<longleftrightarrow>
     (\<forall>i c. cols i = Some c \<longrightarrow> length c = n \<and> list_all plain c \<and> (\<forall>k < n. ss k i = Some (c ! k)))
     \<and> (\<forall>i. cols i = None \<longrightarrow> (\<forall>k < n. ss k i = None))"

lemma columns_of_Some:
  "columns_of n cols ss \<Longrightarrow> cols i = Some c \<Longrightarrow> length c = n \<and> list_all plain c \<and> (\<forall>k < n. ss k i = Some (c ! k))"
  by (simp add: columns_of_def)

lemma columns_of_update:
  assumes "columns_of n cols ss" and "length c = n" and "list_all plain c" and "\<And>k. k < n \<Longrightarrow> v k = c ! k"
  shows "columns_of n (cols(i \<mapsto> c)) (\<lambda>k. (ss k)(i \<mapsto> v k))"
  using assms by (auto simp: columns_of_def)

lemma run_one_simps [simp]:
  "run_one h g s [] = s"
  "run_one h g s (r # rs) = run_one h g (s(sid (obj h r) \<mapsto> g r (map (\<lambda>d. the (s (sid (obj h d)))) (deps_of h r)))) rs"
  by (simp_all add: run_one_def)

lemma run_one_other: "i \<notin> (\<lambda>r. sid (obj h r)) ` set rs \<Longrightarrow> run_one h g s rs i = s i"
  by (induction rs arbitrary: s) auto

lemma run_one_dom: "dom (run_one h g s rs) = dom s \<union> (\<lambda>r. sid (obj h r)) ` set rs"
  by (induction rs arbitrary: s) auto

lemma gather_columns:
  assumes "columns_of n cols ss" and "\<forall>d \<in> set ds. cols (sid (obj h d)) \<noteq> None" and "un \<Longrightarrow> 0 < n"
  shows "\<exists>cs. gather_cols cols h ds un = Inr cs \<and> length cs = length ds
    \<and> (\<forall>c \<in> set cs. length c = (if un then 1 else n) \<and> list_all plain c)
    \<and> (\<forall>k < (if un then 1 else n). row cs k = map (\<lambda>d. the (ss k (sid (obj h d)))) ds)"
  using assms(2)
proof (induction ds)
  case (Cons d ds)
  then obtain c where c: "cols (sid (obj h d)) = Some c" by auto
  with columns_of_Some [OF assms(1)] have col: "length c = n" "list_all plain c" "\<forall>k < n. ss k (sid (obj h d)) = Some (c ! k)"
    by blast+
  from Cons obtain cs where cs: "gather_cols cols h ds un = Inr cs" "length cs = length ds"
    "\<forall>c \<in> set cs. length c = (if un then 1 else n) \<and> list_all plain c"
    "\<forall>k < (if un then 1 else n). row cs k = map (\<lambda>d. the (ss k (sid (obj h d)))) ds" by auto
  show ?case
  proof (cases un)
    case True
    with assms(3) col have "seq_index c 0 = Inr (c ! 0)" "plain (c ! 0)" by (auto simp: seq_index_def list_all_length)
    with c cs True col assms(3) show ?thesis by (auto simp: row_def)
  next
    case False
    with c cs col show ?thesis by (auto simp: row_def)
  qed
qed (simp add: row_def)

lemma pointwise_batch:
  "pointwise_steps ctx f R \<Longrightarrow> r \<in> R \<Longrightarrow> length cols = length (deps_of (step_heap ctx) r)
   \<Longrightarrow> \<forall>c \<in> set cols. length c = n \<and> list_all plain c \<Longrightarrow> length paths = n
   \<Longrightarrow> call_step (step_heap ctx) (behave ctx) (Some (request_extra ctx paths)) r n cols
         = Returned (map (\<lambda>i. f r (paths ! i) (row cols i)) [0..<n])"
  unfolding pointwise_steps_def by blast

lemma pointwise_once:
  "pointwise_steps ctx f R \<Longrightarrow> r \<in> R \<Longrightarrow> unary (obj (step_heap ctx) r) \<and> sync_safe (obj (step_heap ctx) r)
   \<Longrightarrow> length cols = length (deps_of (step_heap ctx) r) \<Longrightarrow> \<forall>c \<in> set cols. length c = 1 \<and> list_all plain c
   \<Longrightarrow> call_step (step_heap ctx) (behave ctx) (Some (request_extra ctx paths)) r 1 cols = Returned [f r path (row cols 0)]"
  unfolding pointwise_steps_def by blast

lemma pointwise_plain: "pointwise_steps ctx f R \<Longrightarrow> r \<in> R \<Longrightarrow> list_all plain vs \<Longrightarrow> plain (f r path vs)"
  unfolding pointwise_steps_def by blast

lemma run_loop_pointwise:
  assumes steps: "pointwise_steps ctx f R" and h: "h = step_heap ctx" and len: "length paths = n"
    and "set rs \<subseteq> R" and "columns_of n cols ss" and "have \<subseteq> dom cols" and "runnable h have rs"
    and "\<forall>r \<in> set rs. is_unary_here uh h r \<longrightarrow> 0 < n \<and> unary (obj h r) \<and> sync_safe (obj h r)
           \<and> (\<forall>d \<in> set (deps_of h r). uh (sid (obj h d)) = Some True)"
    and "\<forall>i c. uh i = Some True \<longrightarrow> cols i = Some c \<longrightarrow> (\<forall>k < n. c ! k = c ! 0)"
  shows "\<exists>es cols'. run_loop h (behave ctx) (Some (request_extra ctx paths)) traced n uh cols rs = Done es (Inr cols')
    \<and> columns_of n cols' (\<lambda>k. run_one h (\<lambda>r. f r (paths ! k)) (ss k) rs)
    \<and> dom cols' = dom cols \<union> (\<lambda>r. sid (obj h r)) ` set rs"
  using assms(4-9)
proof (induction rs arbitrary: cols ss "have")
  case (Cons r rs)
  let ?un = "is_unary_here uh h r" and ?i = "sid (obj h r)"
  let ?x = "\<lambda>k. map (\<lambda>d. the (ss k (sid (obj h d)))) (deps_of h r)"
  have un: "?un \<Longrightarrow> 0 < n" "?un \<Longrightarrow> unary (obj h r) \<and> sync_safe (obj h r)"
    using Cons.prems(5) by auto
  have "\<forall>d \<in> set (deps_of h r). cols (sid (obj h d)) \<noteq> None" using Cons.prems(3,4) by auto
  from gather_columns [OF Cons.prems(2) this un(1)] obtain cs where
    cs: "gather_cols cols h (deps_of h r) ?un = Inr cs" "length cs = length (deps_of h r)"
    "\<forall>c \<in> set cs. length c = (if ?un then 1 else n) \<and> list_all plain c"
    "\<forall>k < (if ?un then 1 else n). row cs k = ?x k" by blast
  have r: "r \<in> R" using Cons.prems(1) by simp
  have plain: "plain (f r (paths ! k) (row cs k'))" if "k' < (if ?un then 1 else n)" for k k'
  proof -
    have "\<forall>c \<in> set cs. plain (c ! k')" using cs(3) that by (simp add: list_all_length)
    then have "list_all plain (row cs k')" by (simp add: row_def list_all_iff)
    with steps r show ?thesis by (rule pointwise_plain)
  qed
  have "\<exists>out. call_step h (behave ctx) (Some (request_extra ctx paths)) r (if ?un then 1 else n) cs = Returned out
      \<and> (\<exists>c. store cols h r n out ?un = Inr (cols(?i \<mapsto> c)) \<and> length c = n \<and> list_all plain c
           \<and> (\<forall>k < n. c ! k = f r (paths ! k) (?x k)) \<and> (?un \<longrightarrow> (\<forall>k < n. c ! k = c ! 0)))"
  proof (cases ?un)
    case False
    let ?out = "map (\<lambda>i. f r (paths ! i) (row cs i)) [0..<n]"
    have "call_step h (behave ctx) (Some (request_extra ctx paths)) r n cs = Returned ?out"
      using pointwise_batch [OF steps r _ _ len, of cs] cs(2,3) False by (simp add: h)
    moreover have "list_all plain ?out" using plain False by (simp add: list_all_length)
    ultimately show ?thesis
      using False cs(4) by (intro exI [of _ ?out] conjI) (auto simp: store_def intro!: exI [of _ ?out])
  next
    case True
    have once: "call_step h (behave ctx) (Some (request_extra ctx paths)) r 1 cs = Returned [f r path (row cs 0)]" for path
      using pointwise_once [OF steps r _ _ _, of cs] cs(2,3) un(2) [OF True] True by (simp add: h)
    let ?v = "f r (paths ! 0) (row cs 0)"
    have v: "f r path (row cs 0) = ?v" for path using once [of path] once [of "paths ! 0"] by simp
    have "row cs 0 = ?x 0" using cs(4) True by simp
    moreover have "?x k = ?x 0" if "k < n" for k
    proof (rule map_cong [OF refl])
      fix d
      assume d: "d \<in> set (deps_of h r)"
      with Cons.prems(3,4) obtain c where c: "cols (sid (obj h d)) = Some c" by auto
      moreover have "uh (sid (obj h d)) = Some True" using Cons.prems(5) True d by simp
      ultimately have "c ! k = c ! 0" using Cons.prems(6) that by blast
      with columns_of_Some [OF Cons.prems(2) c] that show "the (ss k (sid (obj h d))) = the (ss 0 (sid (obj h d)))" by simp
    qed
    ultimately have "\<forall>k < n. f r (paths ! k) (?x k) = ?v" using v by metis
    moreover have "plain ?v" using plain [of 0 0] True by simp
    moreover from this have "\<not> is_awaitable ?v" by (cases ?v) auto
    ultimately show ?thesis
      using True once [of "paths ! 0"]
      by (intro exI [of _ "[?v]"] exI [of _ "replicate n ?v"] conjI)
        (simp_all add: store_def concat_replicate_single list_all_length del: One_nat_def)
  qed
  then obtain out c where call: "call_step h (behave ctx) (Some (request_extra ctx paths)) r (if ?un then 1 else n) cs = Returned out"
    and st: "store cols h r n out ?un = Inr (cols(?i \<mapsto> c))" and c: "length c = n" "list_all plain c"
      "\<forall>k < n. c ! k = f r (paths ! k) (?x k)" "?un \<longrightarrow> (\<forall>k < n. c ! k = c ! 0)" by blast
  let ?ss = "\<lambda>k. (ss k)(?i \<mapsto> f r (paths ! k) (?x k))"
  have "\<exists>es cols'. run_loop h (behave ctx) (Some (request_extra ctx paths)) traced n uh (cols(?i \<mapsto> c)) rs = Done es (Inr cols')
    \<and> columns_of n cols' (\<lambda>k. run_one h (\<lambda>r. f r (paths ! k)) (?ss k) rs)
    \<and> dom cols' = dom (cols(?i \<mapsto> c)) \<union> (\<lambda>r. sid (obj h r)) ` set rs"
  proof (rule Cons.IH)
    show "columns_of n (cols(?i \<mapsto> c)) ?ss" using Cons.prems(2) c by (intro columns_of_update) auto
    show "insert ?i have \<subseteq> dom (cols(?i \<mapsto> c))" using Cons.prems(3) by auto
    show "\<forall>i c'. uh i = Some True \<longrightarrow> (cols(?i \<mapsto> c)) i = Some c' \<longrightarrow> (\<forall>k < n. c' ! k = c' ! 0)"
    proof (intro allI impI)
      fix i c' k
      assume i: "uh i = Some True" "(cols(?i \<mapsto> c)) i = Some c'" "k < n"
      show "c' ! k = c' ! 0"
      proof (cases "i = ?i")
        case True
        with i(1) have "?un" by (simp add: is_unary_here_def)
        with i True c(4) show ?thesis by (metis fun_upd_same option.inject)
      next
        case False
        with i Cons.prems(6) show ?thesis by (metis fun_upd_other)
      qed
    qed
    show "set rs \<subseteq> R" "runnable h (insert ?i have) rs" using Cons.prems(1,4) by simp_all
    show "\<forall>r \<in> set rs. is_unary_here uh h r \<longrightarrow> 0 < n \<and> unary (obj h r) \<and> sync_safe (obj h r)
           \<and> (\<forall>d \<in> set (deps_of h r). uh (sid (obj h d)) = Some True)"
      using Cons.prems(5) by simp
  qed
  then obtain es cols' where rest: "run_loop h (behave ctx) (Some (request_extra ctx paths)) traced n uh (cols(?i \<mapsto> c)) rs = Done es (Inr cols')"
    and res: "columns_of n cols' (\<lambda>k. run_one h (\<lambda>r. f r (paths ! k)) (?ss k) rs)"
      "dom cols' = dom (cols(?i \<mapsto> c)) \<union> (\<lambda>r. sid (obj h r)) ` set rs" by blast
  have "\<exists>es. run_loop h (behave ctx) (Some (request_extra ctx paths)) traced n uh cols (r # rs) = Done es (Inr cols')"
    unfolding run_loop.simps Let_def cs(1) sum.case by (simp add: span_events_def call st rest del: One_nat_def)
  then show ?case using res by auto
qed simp

definition seeds :: "id_columns option \<Rightarrow> int set \<Rightarrow> (nat \<Rightarrow> int \<rightharpoonup> pyval) \<Rightarrow> nat \<Rightarrow> bool" where
  "seeds parent_store S hs n \<longleftrightarrow>
     columns_of n (map_of (case parent_store of None \<Rightarrow> [] | Some cols \<Rightarrow> cols)) hs
     \<and> S \<subseteq> dom (map_of (case parent_store of None \<Rightarrow> [] | Some cols \<Rightarrow> cols))"

lemma run_layer_pointwise:
  assumes sync: "pointwise_steps ctx f R" and ready: "layer_ready (step_heap ctx) R l"
    and len: "length paths = length parents" and plain: "list_all plain parents"
    and store: "seeds parent_store (l_hoisted_out l) hs (length parents)"
    and dom: "\<And>k. dom (hs k) \<subseteq> l_hoisted_out l" "dom (map_of (case parent_store of None \<Rightarrow> [] | Some cols \<Rightarrow> cols)) \<subseteq> l_hoisted_out l"
  shows "\<exists>cols. run_layer ctx l parents paths parent_store = Now [] (Inr (Some cols))
    \<and> columns_of (length parents) cols (\<lambda>k. one_store ctx f l (parents ! k) (paths ! k) (hs k))
    \<and> layer_ids (step_heap ctx) l \<subseteq> dom cols"
proof -
  let ?h = "step_heap ctx" and ?n = "length parents"
  from ready obtain b rs where b: "l_parent l = Some b" and rs: "l_ordered l = Some rs" "set rs \<subseteq> R" "l_run l \<noteq> []"
    and dist: "distinct (map (\<lambda>r. sid (obj ?h r)) rs)"
    and disj: "(parent_ids ?h l \<union> l_hoisted_out l) \<inter> (\<lambda>r. sid (obj ?h r)) ` set rs = {}"
    and run: "runnable ?h (parent_ids ?h l \<union> l_hoisted_out l) rs" unfolding layer_ready_def by blast
  let ?ps = "map_of (case parent_store of None \<Rightarrow> [] | Some cols \<Rightarrow> cols)"
  let ?seed = "?ps(sid (obj ?h b) \<mapsto> parents)"
  let ?ss = "\<lambda>k. (hs k)(sid (obj ?h b) \<mapsto> parents ! k)"
  let ?uh = "bucket_unariness ?h rs (dom ?seed) ?n"
  have ids: "parent_ids ?h l = {sid (obj ?h b)}" by (simp add: parent_ids_def b)
  have cols: "columns_of ?n ?seed ?ss"
    using store plain by (intro columns_of_update) (simp_all add: seeds_def)
  have dom_seed: "parent_ids ?h l \<union> l_hoisted_out l \<subseteq> dom ?seed" "dom ?seed \<subseteq> parent_ids ?h l \<union> l_hoisted_out l"
    using store dom(2) by (auto simp: seeds_def ids)
  have inj: "inj_on (\<lambda>r. sid (obj ?h r)) (set rs)" "distinct rs"
    using dist by (simp_all add: distinct_map)
  have un: "\<forall>r \<in> set rs. is_unary_here ?uh ?h r \<longrightarrow> 0 < ?n \<and> unary (obj ?h r) \<and> sync_safe (obj ?h r)
           \<and> (\<forall>d \<in> set (deps_of ?h r). ?uh (sid (obj ?h d)) = Some True)"
    using bucket_unariness_spec [OF inj] by (auto simp: is_unary_here_def)
  have seed_uh: "\<not> (?uh i = Some True \<and> ?seed i = Some c)" for i c
    using bucket_unariness_dom [of ?h rs "dom ?seed" ?n i True] dom_seed(2) disj by blast
  obtain es cols' where loop: "run_loop ?h (behave ctx) (Some (request_extra ctx paths)) (traced_steps ctx) ?n ?uh ?seed rs = Done es (Inr cols')"
    and res: "columns_of ?n cols' (\<lambda>k. run_one ?h (\<lambda>r. f r (paths ! k)) (?ss k) rs)"
      "dom cols' = dom ?seed \<union> (\<lambda>r. sid (obj ?h r)) ` set rs"
    using run_loop_pointwise [OF sync refl len rs(2) cols dom_seed(1) run un] seed_uh by blast
  have "run_layer ctx l parents paths parent_store = Now [] (Inr (Some cols'))"
    unfolding run_layer_def by (simp add: b rs run_steps_def loop ret_def del: dom_fun_upd)
  moreover have "one_store ctx f l (parents ! k) (paths ! k) (hs k) = run_one ?h (\<lambda>r. f r (paths ! k)) (?ss k) rs" for k
    by (simp add: one_store_def b rs(1) Let_def)
  moreover have "layer_ids ?h l \<subseteq> dom cols'"
    using dom_seed(1) by (auto simp: res(2) layer_ids_def rs(1))
  ultimately show ?thesis using res by (intro exI [of _ cols']) simp
qed

section \<open>Agreement\<close>

lemma agrees_raised: "agrees w refs \<Longrightarrow> None \<in> set refs \<Longrightarrow> \<exists>es e. w = Now es (Inl e)"
  by (simp add: agrees_def)

lemma agrees_done:
  assumes "agrees w refs" and "None \<notin> set refs"
  obtains es where "w = Now es (Inr (map one_result refs))" "mset es = sum_list (map one_errors refs)"
  using assms by (auto simp: agrees_def)

lemma agrees_bind_map:
  assumes "agrees w (map F xs)"
    and "\<And>x. x \<in> set xs \<Longrightarrow> G x = map_option (\<lambda>(es, c). (es, g x c)) (F x)"
    and "\<And>cs. cs = map (one_result \<circ> F) xs \<Longrightarrow> k cs = ret (map2 g xs cs)"
  shows "agrees (bind_work w k) (map G xs)"
proof (cases "None \<in> set (map F xs)")
  case True
  then have "None \<in> set (map G xs)" using assms(2) by force
  with True agrees_raised [OF assms(1)] show ?thesis by (auto simp: agrees_def)
next
  case False
  with assms(1) obtain es where w: "w = Now es (Inr (map one_result (map F xs)))"
    "mset es = sum_list (map one_errors (map F xs))" by (rule agrees_done)
  have G: "G x \<noteq> None \<and> one_result (G x) = g x (one_result (F x)) \<and> one_errors (G x) = one_errors (F x)" if "x \<in> set xs" for x
  proof -
    from False that obtain fs c where "F x = Some (fs, c)" by (cases "F x") (auto simp: image_iff)
    with assms(2) [OF that] show ?thesis by simp
  qed
  then have "None \<notin> set (map G xs)" by force
  moreover have "sum_list (map (one_errors \<circ> G) xs) = sum_list (map (one_errors \<circ> F) xs)"
    by (rule arg_cong [where f = sum_list]) (use G in simp)
  moreover have "map one_result (map G xs) = map2 g xs (map (one_result \<circ> F) xs)"
    using G by (induction xs) simp_all
  ultimately show ?thesis using w assms(3) [OF refl] unfolding agrees_def map_map by (simp add: ret_def)
qed

section \<open>Scattering the results of groups\<close>

lemma scatter_results_nth:
  "i < length rs \<Longrightarrow> scatter_results rs K (map \<phi> K) ! i = (if i \<in> set K then \<phi> i else rs ! i)"
proof (induction K arbitrary: rs)
  case (Cons k K)
  have "scatter_results rs (k # K) (map \<phi> (k # K)) = scatter_results (rs[k := \<phi> k]) K (map \<phi> K)"
    by (simp add: scatter_results_def)
  with Cons.IH [of "rs[k := \<phi> k]"] Cons.prems show ?case by (auto simp: nth_list_update)
qed (simp add: scatter_results_def)

lemma scatter_groups_nth:
  "length (foldl (\<lambda>rs (K, cs). scatter_results rs K cs) rs (map (\<lambda>K. (K, map \<phi> K)) Ks)) = length rs
   \<and> (\<forall>i < length rs. foldl (\<lambda>rs (K, cs). scatter_results rs K cs) rs (map (\<lambda>K. (K, map \<phi> K)) Ks) ! i
        = (if i \<in> set (concat Ks) then \<phi> i else rs ! i))"
proof (induction Ks arbitrary: rs)
  case (Cons K Ks)
  from Cons.IH [of "scatter_results rs K (map \<phi> K)"] scatter_results_set(1) [of rs K "map \<phi> K"]
  show ?case by (auto simp: scatter_results_nth)
qed simp

text \<open>Where each index of the batch is either done or asks for a child.\<close>

definition ask :: "('x \<Rightarrow> 'e one) \<Rightarrow> 'e completed + 'x \<Rightarrow> 'e one" where
  "ask g d = (case d of Inl c \<Rightarrow> Some ([], c) | Inr x \<Rightarrow> g x)"

lemma ask_simps [simp]: "ask g (Inl c) = Some ([], c)" "ask g (Inr x) = g x"
  by (simp_all add: ask_def)

lemma scatter_groups:
  assumes "length rs = length ds" and "\<forall>i < length ds. \<forall>c. ds ! i = Inl c \<longrightarrow> rs ! i = c"
    and "set (concat Ks) = {i. i < length ds \<and> \<not> isl (ds ! i)}"
  shows "foldl (\<lambda>rs (K, cs). scatter_results rs K cs) rs
      (map (\<lambda>K. (K, map (\<lambda>i. one_result (ask g (ds ! i))) K)) Ks) = map (\<lambda>d. one_result (ask g d)) ds"
proof (rule nth_equalityI)
  let ?\<phi> = "\<lambda>i. one_result (ask g (ds ! i))"
  show "length (foldl (\<lambda>rs (K, cs). scatter_results rs K cs) rs (map (\<lambda>K. (K, map ?\<phi> K)) Ks)) = length (map (\<lambda>d. one_result (ask g d)) ds)"
    using scatter_groups_nth [of rs ?\<phi> Ks] assms(1) by simp
  fix i
  assume "i < length (foldl (\<lambda>rs (K, cs). scatter_results rs K cs) rs (map (\<lambda>K. (K, map ?\<phi> K)) Ks))"
  then have i: "i < length ds" using scatter_groups_nth [of rs ?\<phi> Ks] assms(1) by simp
  show "foldl (\<lambda>rs (K, cs). scatter_results rs K cs) rs (map (\<lambda>K. (K, map ?\<phi> K)) Ks) ! i = map (\<lambda>d. one_result (ask g d)) ds ! i"
  proof (cases "ds ! i")
    case (Inl c)
    with i assms(3) have "i \<notin> set (concat Ks)" by auto
    with Inl i assms(1,2) scatter_groups_nth [of rs ?\<phi> Ks] show ?thesis by simp
  next
    case (Inr x)
    with i assms(3) have "i \<in> set (concat Ks)" by auto
    with Inr i assms(1) scatter_groups_nth [of rs ?\<phi> Ks] show ?thesis by simp
  qed
qed

lemma sum_list_filter_zero: "(\<And>x. x \<in> set xs \<Longrightarrow> \<not> P x \<Longrightarrow> \<psi> x = (0 :: 'a::comm_monoid_add)) \<Longrightarrow>
    sum_list (map \<psi> (filter P xs)) = sum_list (map \<psi> xs)"
  by (induction xs) auto

lemma group_errors:
  fixes \<psi> :: "nat \<Rightarrow> 'e multiset"
  assumes "distinct (concat Ks)" and "set (concat Ks) = {i. i < n \<and> P i}" and "\<And>i. i < n \<Longrightarrow> \<not> P i \<Longrightarrow> \<psi> i = {#}"
  shows "sum_list (map (\<lambda>K. sum_list (map \<psi> K)) Ks) = sum_list (map \<psi> [0..<n])"
proof -
  have "sum_list (map (\<lambda>K. sum_list (map \<psi> K)) Ks) = sum_list (map \<psi> (concat Ks))"
    by (induction Ks) simp_all
  also have "\<dots> = sum_list (map \<psi> (filter P [0..<n]))"
  proof -
    have "mset (concat Ks) = mset (filter P [0..<n])"
      using assms(1,2) by (intro set_eq_iff_mset_eq_distinct [THEN iffD1]) auto
    then have "mset (map \<psi> (concat Ks)) = mset (map \<psi> (filter P [0..<n]))" by (metis mset_map)
    then show ?thesis by (metis sum_mset_sum_list)
  qed
  also have "\<dots> = sum_list (map \<psi> [0..<n])" using assms(3) by (intro sum_list_filter_zero) auto
  finally show ?thesis .
qed

section \<open>Values without awaitables\<close>

lemma plain_settled: "plain v \<Longrightarrow> \<not> is_awaitable v"
  by (cases v) auto

lemma no_awaitables: "list_all plain vs \<Longrightarrow> \<not> list_ex is_awaitable vs"
  using plain_settled by (auto simp: list_all_iff list_ex_iff)

lemma plain_ret:
  "list_all plain vs \<Longrightarrow> resolve_awaitable_values vs = ret vs" "list_all plain vs \<Longrightarrow> prepare_list_inputs vs = ret vs"
  by (simp_all add: resolve_awaitable_values_def prepare_list_inputs_def no_awaitables)

lemma plain_items: "plain v \<Longrightarrow> list_all plain (items_in v)"
  by (cases v) (simp_all add: items_in_def)

section \<open>Lists\<close>

text \<open>An entry of a batch: its value, path, info and hoisted values.\<close>

type_synonym item = "pyval \<times> seg list \<times> seg list \<times> (int \<rightharpoonup> pyval)"

abbreviation v_of :: "item \<Rightarrow> pyval" where "v_of x \<equiv> fst x"
abbreviation p_of :: "item \<Rightarrow> seg list" where "p_of x \<equiv> fst (snd x)"
abbreviation i_of :: "item \<Rightarrow> seg list" where "i_of x \<equiv> fst (snd (snd x))"
abbreviation h_of :: "item \<Rightarrow> (int \<rightharpoonup> pyval)" where "h_of x \<equiv> snd (snd (snd x))"

definition sub_items :: "item \<Rightarrow> item list" where
  "sub_items x = map (\<lambda>(k, y). (y, p_of x @ [SIdx (int k)], i_of x, h_of x)) (numbered (items_in (v_of x)))"

fun spans_at :: "'e exec_context \<Rightarrow> string \<Rightarrow> nat \<Rightarrow> item list \<Rightarrow> 'e span list" where
  "spans_at ctx label start [] = []"
| "spans_at ctx label start (x # xs) =
     list_span ctx label start (v_of x) (p_of x) # spans_at ctx label (start + length (items_in (v_of x))) xs"

lemma sub_items_simps:
  "length (sub_items x) = length (items_in (v_of x))" "map v_of (sub_items x) = items_in (v_of x)"
  "map p_of (sub_items x) = map (\<lambda>k. p_of x @ [SIdx (int k)]) [0..<length (items_in (v_of x))]"
  "map i_of (sub_items x) = replicate (length (items_in (v_of x))) (i_of x)"
  "map h_of (sub_items x) = replicate (length (items_in (v_of x))) (h_of x)"
  by (auto simp: sub_items_def numbered_def intro!: nth_equalityI)

lemma flatten_items:
  "flatten_lists ctx label start (zip (map v_of xs) (zip (map p_of xs) (map i_of xs))) =
     (map v_of (concat (map sub_items xs)), map p_of (concat (map sub_items xs)),
      map i_of (concat (map sub_items xs)), spans_at ctx label start xs)"
  by (induction xs arbitrary: start) (simp_all add: sub_items_simps)

lemma item_column_sub:
  "map Some col = map (\<lambda>x. h_of x i) xs \<Longrightarrow>
   map Some (item_column (map v_of xs) col) = map (\<lambda>x. h_of x i) (concat (map sub_items xs))"
proof (induction xs arbitrary: col)
  case (Cons x xs)
  then obtain c col' where col: "col = c # col'" "h_of x i = Some c" "map Some col' = map (\<lambda>x. h_of x i) xs"
    by (cases col) auto
  have "map (\<lambda>y. h_of y i) (sub_items x) = map (\<lambda>h. h i) (map h_of (sub_items x))" by simp
  then have "map (\<lambda>y. h_of y i) (sub_items x) = replicate (length (items_in (v_of x))) (Some c)"
    unfolding sub_items_simps(5) by (simp add: col(2))
  with Cons.IH [OF col(3)] show ?case by (simp add: col(1) item_column_def)
qed (simp add: item_column_def)

lemma one_completed_list:
  "one_completed ctx f (List_C c) (v_of x) (p_of x) info label (h_of x) =
     (let rs = map (\<lambda>y. one_completed ctx f c (v_of y) (p_of y) info label (h_of y)) (sub_items x)
      in if None \<in> set rs then None
         else case collect_span (is_non_null c) (map one_result rs) (list_span ctx label 0 (v_of x) (p_of x)) of
                (es, r) \<Rightarrow> Some (concat (map (fst \<circ> the) rs) @ es, r))"
proof -
  have sub: "map (\<lambda>y. one_completed ctx f c (v_of y) (p_of y) info label (h_of y)) (sub_items x)
      = map (\<lambda>(k, y). one_completed ctx f c y (p_of x @ [SIdx (int k)]) info label (h_of x)) (numbered (items_in (v_of x)))"
    by (simp add: sub_items_def case_prod_unfold comp_def)
  show ?thesis
  proof (cases "v_of x" rule: value_kinds)
    case (1 e)
    then show ?thesis
      unfolding sub by (simp add: numbered_def items_in_def list_span_def own_result_def)
  next
    case 2
    then have "items_in (v_of x) = []" by (cases "v_of x") (simp_all add: items_in_def)
    moreover have "list_span ctx label 0 (v_of x) (p_of x) = Null_Span" "own_result ctx (v_of x) (p_of x) = Value VNone"
      using 2 by (cases "v_of x"; simp add: list_span_def own_result_def)+
    ultimately show ?thesis unfolding sub using 2 by (simp add: numbered_def)
  next
    case 3
    show ?thesis
    proof (cases "list_items (v_of x)")
      case None
      then have "items_in (v_of x) = []" by (simp add: items_in_def)
      moreover have "list_span ctx label 0 (v_of x) (p_of x) = Invalid_Span (located ctx (GraphQLError
               (''Expected Iterable, but did not find one for field '' @ label @ ''.'')) (p_of x))"
        using 3 None by (cases "v_of x") (simp_all add: list_span_def)
      ultimately show ?thesis unfolding sub using 3 None by (simp add: numbered_def)
    next
      case (Some xs)
      then have "items_in (v_of x) = xs" by (simp add: items_in_def)
      moreover have "list_span ctx label 0 (v_of x) (p_of x) = Item_Span 0 (length xs)"
        using 3 Some by (cases "v_of x") (simp_all add: list_span_def)
      ultimately show ?thesis unfolding sub using 3 Some by (simp add: numbered_def Let_def)
    qed
  qed
qed

text \<open>Re-collecting the flat batch gives each list its own items.\<close>

lemma collect_spans_at:
  assumes "length pre = start"
  shows "map (collect_span nn (pre @ map r (concat (map sub_items xs)))) (spans_at ctx label start xs)
    = map (\<lambda>x. collect_span nn (map r (sub_items x)) (list_span ctx label 0 (v_of x) (p_of x))) xs"
  using assms
proof (induction xs arbitrary: pre start)
  case (Cons x xs)
  let ?n = "length (items_in (v_of x))"
  have "collect_span nn (pre @ map r (concat (map sub_items (x # xs)))) (list_span ctx label start (v_of x) (p_of x))
      = collect_span nn (map r (sub_items x)) (list_span ctx label 0 (v_of x) (p_of x))"
  proof -
    have "list_span ctx label start (v_of x) (p_of x) = Item_Span start ?n \<and> list_span ctx label 0 (v_of x) (p_of x) = Item_Span 0 ?n
        \<or> list_span ctx label start (v_of x) (p_of x) = list_span ctx label 0 (v_of x) (p_of x)
          \<and> (\<forall>s l. list_span ctx label 0 (v_of x) (p_of x) \<noteq> Item_Span s l)"
      by (cases "v_of x") (auto simp: list_span_def items_in_def)
    then show ?thesis
    proof
      assume "list_span ctx label start (v_of x) (p_of x) = list_span ctx label 0 (v_of x) (p_of x)
          \<and> (\<forall>s l. list_span ctx label 0 (v_of x) (p_of x) \<noteq> Item_Span s l)"
      then show ?thesis by (cases "list_span ctx label 0 (v_of x) (p_of x)") auto
    qed (use Cons.prems sub_items_simps(1) [of x] in simp)
  qed
  moreover have "map (collect_span nn ((pre @ map r (sub_items x)) @ map r (concat (map sub_items xs)))) (spans_at ctx label (start + ?n) xs)
      = map (\<lambda>x. collect_span nn (map r (sub_items x)) (list_span ctx label 0 (v_of x) (p_of x))) xs"
    by (rule Cons.IH) (simp add: Cons.prems sub_items_simps(1))
  ultimately show ?case by simp
qed simp

definition hoist_ids :: "completer \<Rightarrow> int set" where
  "hoist_ids c = (case find_object_completer c of Some (n, Some p) \<Rightarrow> l_hoisted_out (op_layer p) | _ \<Rightarrow> {})"

lemma hoist_ids_simps [simp]:
  "hoist_ids (NonNull_C c) = hoist_ids c" "hoist_ids (List_C c) = hoist_ids c"
  "hoist_ids (Object_C t None) = {}" "hoist_ids (Object_C t (Some p)) = l_hoisted_out (op_layer p)"
  by (simp_all add: hoist_ids_def)

text \<open>The bridge carries the entries' hoisted values.\<close>

definition bridged :: "id_columns option \<Rightarrow> int set \<Rightarrow> item list \<Rightarrow> bool" where
  "bridged bridge S xs \<longleftrightarrow>
     S = {} \<or> (\<exists>cols. bridge = Some cols \<and> (\<forall>i \<in> S. \<exists>c. map_of cols i = Some c \<and> list_all plain c
        \<and> map Some c = map (\<lambda>x. h_of x i) xs))"

lemma map_of_map_snd: "map_of (map (\<lambda>(k, v). (k, g v)) kvs) i = map_option g (map_of kvs i)"
  by (induction kvs) auto

lemma item_column_plain: "list_all plain col \<Longrightarrow> list_all plain (item_column vs col)"
  by (auto simp: item_column_def list_all_iff dest: set_zip_rightD)

lemma bridged_sub:
  assumes "bridged bridge S xs"
  shows "bridged (map_option (map (\<lambda>(hid, col). (hid, item_column (map v_of xs) col))) bridge) S (concat (map sub_items xs))"
proof (cases "S = {}")
  case False
  with assms obtain cols where cols: "bridge = Some cols" "\<forall>i \<in> S. \<exists>c. map_of cols i = Some c \<and> list_all plain c
        \<and> map Some c = map (\<lambda>x. h_of x i) xs" by (auto simp: bridged_def)
  have "\<exists>c. map_of (map (\<lambda>(hid, col). (hid, item_column (map v_of xs) col)) cols) i = Some c \<and> list_all plain c
      \<and> map Some c = map (\<lambda>x. h_of x i) (concat (map sub_items xs))" if "i \<in> S" for i
  proof -
    from cols(2) that obtain c where c: "map_of cols i = Some c" "list_all plain c" "map Some c = map (\<lambda>x. h_of x i) xs" by blast
    then show ?thesis
      using item_column_sub [OF c(3)] item_column_plain [OF c(2)]
      by (intro exI [of _ "item_column (map v_of xs) c"]) (simp add: map_of_map_snd)
  qed
  with cols(1) show ?thesis by (simp add: bridged_def)
qed (simp add: bridged_def)

end
