(* ===== verification/Batch_Objects.thy ===== *)
theory Batch_Objects
  imports Batch_Laws
begin

text \<open>
  The parts of the agreement that deal with objects: the guards and the kept children, the groups of
  an abstract field, the hoisted columns handed down, and the walk over the fields.
\<close>

section \<open>The kept children of an object batch\<close>

definition guarded :: "'e exec_context \<Rightarrow> string \<Rightarrow> pyval \<Rightarrow> seg list \<Rightarrow> pyval res" where
  "guarded ctx t v path = (case type_guard ctx t of None \<Rightarrow> Inr (VBool True) | Some is_type_of \<Rightarrow> is_type_of v path)"

definition asks :: "item \<Rightarrow> bool" where
  "asks x \<longleftrightarrow> \<not> is_exc (v_of x) \<and> \<not> null_value (v_of x)"

definition object_ask :: "'e exec_context \<Rightarrow> string \<Rightarrow> item \<Rightarrow> 'e completed + item" where
  "object_ask ctx t x =
     (if \<not> asks x then Inl (own_result ctx (v_of x) (p_of x))
      else case guarded ctx t (v_of x) (p_of x) of
             Inl e \<Rightarrow> Inl (Value VNone)
           | Inr ok \<Rightarrow> (if truthy ok then Inr x
                        else Inl (Bubble (located ctx (invalid_return_type_error t) (p_of x)))))"

definition entry_at :: "item list \<Rightarrow> nat \<Rightarrow> entry" where
  "entry_at xs i = (i, v_of (xs ! i), p_of (xs ! i))"

lemma entries_of_items: "entries_of (map v_of xs) (map p_of xs) = map (entry_at xs) [0..<length xs]"
  by (auto simp: entries_of_def entry_at_def intro!: nth_equalityI)

lemma filter_map': "filter P (map g xs) = map g (filter (\<lambda>x. P (g x)) xs)"
  by (induction xs) auto

lemma reject_failed_nth:
  "length (reject_failed ctx t rs (map (entry_at xs) F)) = length rs
   \<and> (\<forall>i < length rs. reject_failed ctx t rs (map (entry_at xs) F) ! i
        = (if i \<in> set F then Bubble (located ctx (invalid_return_type_error t) (p_of (xs ! i))) else rs ! i))"
proof (induction F arbitrary: rs)
  case (Cons k F)
  have "reject_failed ctx t rs (map (entry_at xs) (k # F))
      = reject_failed ctx t (rs[k := Bubble (located ctx (invalid_return_type_error t) (p_of (xs ! k)))]) (map (entry_at xs) F)"
    by (simp add: reject_failed_def entry_at_def)
  with Cons.IH [of "rs[k := Bubble (located ctx (invalid_return_type_error t) (p_of (xs ! k)))]"]
  show ?case by (auto simp: nth_list_update)
qed (simp add: reject_failed_def)

lemma map_res_raises: "(\<exists>x \<in> set xs. \<exists>e. f x = Inl e) \<Longrightarrow> \<exists>e. map_res f xs = Inl e"
proof (induction xs)
  case (Cons x xs)
  then show ?case by (cases "f x"; cases "map_res f xs") auto
qed simp

lemma zip_filter_map:
  "map fst (filter (\<lambda>(x, g). P g) (zip xs (map G xs))) = filter (\<lambda>x. P (G x)) xs"
  by (induction xs) auto

lemma run_object_bucket_items:
  assumes guards: "\<And>g v p w. type_guard ctx t = Some g \<Longrightarrow> g v p = Inr w \<Longrightarrow> \<not> is_awaitable w"
  shows "if \<exists>x \<in> set xs. asks x \<and> (\<exists>e. guarded ctx t (v_of x) (p_of x) = Inl e)
    then \<exists>e. run_object_bucket ctx t (map v_of xs) (map p_of xs) = Now [] (Inl e)
    else \<exists>results. run_object_bucket ctx t (map v_of xs) (map p_of xs)
        = ret (results, map (entry_at xs) (filter (\<lambda>i. \<not> isl (object_ask ctx t (xs ! i))) [0..<length xs]))
      \<and> length results = length xs \<and> (\<forall>i < length xs. \<forall>c. object_ask ctx t (xs ! i) = Inl c \<longrightarrow> results ! i = c)"
proof -
  let ?n = "length xs"
  let ?C = "filter (\<lambda>i. asks (xs ! i)) [0..<?n]"
  let ?own = "map2 (own_result ctx) (map v_of xs) (map p_of xs)"
  have children: "filter is_child (entries_of (map v_of xs) (map p_of xs)) = map (entry_at xs) ?C"
    by (simp add: entries_of_items filter_map' is_child_def entry_at_def asks_def)
  have own: "length ?own = ?n" "\<And>i. i < ?n \<Longrightarrow> ?own ! i = own_result ctx (v_of (xs ! i)) (p_of (xs ! i))" by simp_all
  show ?thesis
  proof (cases "type_guard ctx t")
    case None
    then have g: "guarded ctx t v p = Inr (VBool True)" for v p by (simp add: guarded_def)
    then have K: "filter (\<lambda>i. \<not> isl (object_ask ctx t (xs ! i))) [0..<?n] = ?C"
      by (intro filter_cong) (auto simp: object_ask_def)
    have "run_object_bucket ctx t (map v_of xs) (map p_of xs) = ret (?own, map (entry_at xs) ?C)"
      unfolding run_object_bucket_def Let_def children None by simp
    moreover have "\<forall>i < ?n. \<forall>c. object_ask ctx t (xs ! i) = Inl c \<longrightarrow> ?own ! i = c"
      using own(2) g by (auto simp: object_ask_def split: if_splits)
    ultimately show ?thesis using g K own(1) by auto
  next
    case (Some g)
    then have gd: "guarded ctx t v p = g v p" for v p by (simp add: guarded_def)
    show ?thesis
    proof (cases "\<exists>x \<in> set xs. asks x \<and> (\<exists>e. guarded ctx t (v_of x) (p_of x) = Inl e)")
      case True
      then obtain i e where i: "i < ?n" "asks (xs ! i)" "g (v_of (xs ! i)) (p_of (xs ! i)) = Inl e"
        by (auto simp: gd in_set_conv_nth)
      then have "entry_at xs i \<in> set (map (entry_at xs) ?C)" by auto
      moreover have "(\<lambda>(i, v, p). g v p) (entry_at xs i) = Inl e" using i(3) by (simp add: entry_at_def)
      ultimately obtain e' where "map_res (\<lambda>(i, v, p). g v p) (map (entry_at xs) ?C) = Inl e'"
        using map_res_raises [of "map (entry_at xs) ?C" "\<lambda>(i, v, p). g v p"] by blast
      moreover have "map (entry_at xs) ?C \<noteq> []" using i(1,2) by (auto simp: filter_empty_conv)
      ultimately have "\<exists>e. run_object_bucket ctx t (map v_of xs) (map p_of xs) = Now [] (Inl e)"
        unfolding run_object_bucket_def Let_def children Some by simp
      with True show ?thesis by simp
    next
      case False
      define G where "G = (\<lambda>i. projr (g (v_of (xs ! i)) (p_of (xs ! i))))"
      have G: "g (v_of (xs ! i)) (p_of (xs ! i)) = Inr (G i)" if "i \<in> set ?C" for i
      proof -
        from that have "xs ! i \<in> set xs" "asks (xs ! i)" by auto
        with False obtain w where "g (v_of (xs ! i)) (p_of (xs ! i)) = Inr w"
          by (cases "g (v_of (xs ! i)) (p_of (xs ! i))") (auto simp: gd)
        then show ?thesis by (simp add: G_def)
      qed
      have "map_res (\<lambda>(i, v, p). g v p) (map (entry_at xs) ?C) = Inr (map (\<lambda>(i, v, p). G i) (map (entry_at xs) ?C))"
        using G by (intro map_res_Inr) (auto simp: entry_at_def)
      then have mr: "map_res (\<lambda>(i, v, p). g v p) (map (entry_at xs) ?C) = Inr (map G ?C)"
        by (simp add: entry_at_def comp_def)
      have "\<not> list_ex is_awaitable (map G ?C)"
        using guards [OF Some] G by (auto simp: list_ex_iff)
      then have gg: "gather_guard (map G ?C) = ret (map G ?C)" by (simp add: gather_guard_def)
      have keep: "map fst (filter (\<lambda>(x, g). P g) (zip (map (entry_at xs) ?C) (map G ?C)))
          = map (entry_at xs) (filter (\<lambda>i. P (G i)) ?C)" for P
      proof -
        have "zip (map (entry_at xs) ?C) (map G ?C) = zip (map (entry_at xs) ?C) (map (G \<circ> fst) (map (entry_at xs) ?C))"
          by (simp add: entry_at_def comp_def)
        then show ?thesis using zip_filter_map [of P "map (entry_at xs) ?C" "G \<circ> fst"]
          by (simp add: filter_map' entry_at_def)
      qed
      let ?F = "filter (\<lambda>i. \<not> truthy (G i)) ?C"
      have K: "filter (\<lambda>i. \<not> isl (object_ask ctx t (xs ! i))) [0..<?n] = filter (\<lambda>i. truthy (G i)) ?C"
        unfolding filter_filter by (intro filter_cong) (auto simp: object_ask_def gd G)
      have "run_object_bucket ctx t (map v_of xs) (map p_of xs)
          = ret (reject_failed ctx t ?own (map (entry_at xs) ?F), map (entry_at xs) (filter (\<lambda>i. truthy (G i)) ?C))"
      proof (cases "?C = []")
        case True
        then show ?thesis
          unfolding run_object_bucket_def Let_def children Some by (simp add: reject_failed_def del: filter_filter)
      next
        case False
        then show ?thesis
          unfolding run_object_bucket_def Let_def children Some
          by (simp add: mr gg keep [of "\<lambda>g. \<not> truthy g"] keep [of truthy] del: filter_filter)
      qed
      moreover have "\<forall>i < ?n. \<forall>c. object_ask ctx t (xs ! i) = Inl c \<longrightarrow>
          reject_failed ctx t ?own (map (entry_at xs) ?F) ! i = c"
        using reject_failed_nth [of ctx t ?own xs ?F] own
        by (auto simp: object_ask_def gd G split: if_splits sum.splits)
      moreover have "length (reject_failed ctx t ?own (map (entry_at xs) ?F)) = ?n"
        using reject_failed_nth [of ctx t ?own xs ?F] own(1) by simp
      ultimately show ?thesis using False K by auto
    qed
  qed
qed

section \<open>Groups by concrete type\<close>

definition group_of :: "('e completed + string) list \<Rightarrow> string \<Rightarrow> nat list" where
  "group_of ds t = filter (\<lambda>i. ds ! i = Inr t) [0..<length ds]"

lemma group_of_snoc: "group_of (ds @ [d]) t = group_of ds t @ (if d = Inr t then [length ds] else [])"
  by (auto simp: group_of_def nth_append intro!: filter_cong)

lemma group_entries_map_of:
  "distinct (map fst (group_entries ds (map E [0..<length ds])))
   \<and> (\<forall>t. map_of (group_entries ds (map E [0..<length ds])) t
        = (if Inr t \<in> set ds then Some (map E (group_of ds t)) else None))"
proof (induction ds rule: rev_induct)
  case (snoc d ds)
  let ?G = "group_entries ds (map E [0..<length ds])"
  have G: "group_entries (ds @ [d]) (map E [0..<length (ds @ [d])]) =
      (case d of Inl c \<Rightarrow> ?G | Inr t \<Rightarrow> dict_set ?G t ((case map_of ?G t of None \<Rightarrow> [] | Some g \<Rightarrow> g) @ [E (length ds)]))"
    unfolding group_entries_def by simp
  show ?case
  proof (cases d)
    case (Inl c)
    with snoc G show ?thesis by (simp add: group_of_snoc)
  next
    case (Inr t)
    have "map_of ?G t = (if Inr t \<in> set ds then Some (map E (group_of ds t)) else None)" using snoc by blast
    moreover have "Inr t \<notin> set ds \<Longrightarrow> group_of ds t = []"
      by (auto simp: group_of_def filter_empty_conv in_set_conv_nth)
    ultimately have "(case map_of ?G t of None \<Rightarrow> [] | Some g \<Rightarrow> g) = map E (group_of ds t)" by simp
    with snoc G Inr show ?thesis by (auto simp: group_of_snoc distinct_dict_set)
  qed
qed (simp add: group_entries_def)

lemma group_entries_set:
  assumes "(t, g) \<in> set (group_entries ds (map E [0..<length ds]))"
  shows "g = map E (group_of ds t)" "Inr t \<in> set ds"
proof -
  have "map_of (group_entries ds (map E [0..<length ds])) t = Some g"
    using assms group_entries_map_of by (metis map_of_is_SomeI)
  then show "g = map E (group_of ds t)" "Inr t \<in> set ds"
    using group_entries_map_of [of ds E] by (auto split: if_splits)
qed

lemma groups_partition:
  assumes "ts = map fst (group_entries ds (map E [0..<length ds]))"
  shows "distinct (concat (map (group_of ds) ts))"
    and "set (concat (map (group_of ds) ts)) = {i. i < length ds \<and> \<not> isl (ds ! i)}"
proof -
  have "distinct ts" using assms group_entries_map_of by blast
  then show "distinct (concat (map (group_of ds) ts))"
    by (induction ts) (auto simp: group_of_def)
  have "set ts = dom (map_of (group_entries ds (map E [0..<length ds])))"
    by (simp add: assms dom_map_of_conv_image_fst)
  then have "set ts = {t. Inr t \<in> set ds}"
    using group_entries_map_of [of ds E] by (auto simp: dom_def)
  then show "set (concat (map (group_of ds) ts)) = {i. i < length ds \<and> \<not> isl (ds ! i)}"
    by (auto simp: group_of_def isl_def) (metis nth_mem sum.exhaust)
qed

section \<open>Hoisted columns\<close>

lemma pick_nth: "\<forall>p \<in> set K. p < length c \<Longrightarrow> pick c K = Inr (map (nth c) K)"
  unfolding pick_def by (intro map_res_Inr) (auto simp: seq_index_def)

lemma pick_columns_Inr:
  assumes "finite S" and "\<forall>i \<in> S. \<exists>c. cols i = Some c \<and> (\<forall>p \<in> set K. p < length c)"
  shows "\<exists>st. pick_columns cols S K = Inr st
    \<and> map_of st = (\<lambda>i. if i \<in> S then Some (map (nth (the (cols i))) K) else None)
    \<and> fst ` set st = S \<and> (\<forall>hid c. (hid, c) \<in> set st \<longrightarrow> c = map (nth (the (cols hid))) K)"
proof -
  let ?g = "\<lambda>i. (i, map (nth (the (cols i))) K)"
  have "pick_columns cols S K = Inr (map ?g (sorted_list_of_set S))"
    unfolding pick_columns_def using assms by (intro map_res_Inr) (force simp: pick_nth)
  moreover have "map_of (map ?g (sorted_list_of_set S)) = (\<lambda>i. if i \<in> S then Some (map (nth (the (cols i))) K) else None)"
    using assms(1) by (auto simp: map_of_map_restrict restrict_map_def)
  ultimately show ?thesis using assms(1) by (intro exI [of _ "map ?g (sorted_list_of_set S)"]) force
qed

text \<open>What the parent's bridge gives the bucket of the kept children.\<close>

lemma build_hoist_parent_store_seeds:
  assumes "finite (l_hoisted_out l)" and "bridged bridge (l_hoisted_out l) xs" and "\<forall>i \<in> set K. i < length xs"
  shows "\<exists>st. build_hoist_parent_store l bridge K = Inr st
    \<and> seeds st (l_hoisted_out l) (\<lambda>k. h_of (xs ! (K ! k)) |` l_hoisted_out l) (length K)
    \<and> dom (map_of (case st of None \<Rightarrow> [] | Some cols \<Rightarrow> cols)) \<subseteq> l_hoisted_out l"
proof (cases "l_hoisted_out l = {}")
  case True
  then show ?thesis by (auto simp: build_hoist_parent_store_def seeds_def columns_of_def)
next
  case False
  let ?S = "l_hoisted_out l"
  from False assms(2) obtain cols where b: "bridge = Some cols" and cols: "\<forall>i \<in> ?S. \<exists>c. map_of cols i = Some c
      \<and> list_all plain c \<and> map Some c = map (\<lambda>x. h_of x i) xs" by (auto simp: bridged_def)
  have len: "length c = length xs" if "map Some c = map (\<lambda>x. h_of x i) xs" for c i
    using that by (metis length_map)
  have "\<forall>i \<in> ?S. \<exists>c. map_of cols i = Some c \<and> (\<forall>p \<in> set K. p < length c)"
    using cols len assms(3) by metis
  from pick_columns_Inr [OF assms(1) this] obtain st where st: "pick_columns (map_of cols) ?S K = Inr st"
    "map_of st = (\<lambda>i. if i \<in> ?S then Some (map (nth (the (map_of cols i))) K) else None)" by blast
  have "columns_of (length K) (map_of st) (\<lambda>k. h_of (xs ! (K ! k)) |` ?S)"
    unfolding columns_of_def
  proof (intro conjI allI impI)
    fix i c
    assume "map_of st i = Some c"
    then have i: "i \<in> ?S" "c = map (nth (the (map_of cols i))) K" by (auto simp: st(2) split: if_splits)
    with cols obtain d where d: "map_of cols i = Some d" "list_all plain d" "map Some d = map (\<lambda>x. h_of x i) xs" by blast
    have "\<forall>j < length xs. h_of (xs ! j) i = Some (d ! j)"
      using d(3) len [OF d(3)] by (metis nth_map)
    then show "length c = length K" "list_all plain c" "\<And>k. k < length K \<Longrightarrow> (h_of (xs ! (K ! k)) |` ?S) i = Some (c ! k)"
      using i d(1,2) assms(3) len [OF d(3)] by (auto simp: list_all_length)
  qed (auto simp: st(2) split: if_splits)
  with b st False show ?thesis
    by (auto simp: build_hoist_parent_store_def seeds_def split: if_splits)
qed

section \<open>The walk over the fields\<close>

lemma map2_self: "map2 g xs (map h xs) = map (\<lambda>x. g x (h x)) xs"
  by (induction xs) simp_all

definition tracks ::
  "nat \<Rightarrow> 'e list \<times> ('e field_completion \<times> 'e pending_field list) res \<Rightarrow> (nat \<Rightarrow> ('e list \<times> 'e cell) option) \<Rightarrow> bool" where
  "tracks n acc accs \<longleftrightarrow>
     (if \<exists>i < n. accs i = None then \<exists>e. snd acc = Inl e
      else \<exists>st. snd acc = Inr (st, []) \<and> sized n st \<and> (\<forall>i < n. cell st i = snd (the (accs i)))
             \<and> mset (fst acc) = (\<Sum>i < n. mset (fst (the (accs i)))))"

lemma tracks_raised: "tracks n acc accs \<Longrightarrow> i < n \<Longrightarrow> accs i = None \<Longrightarrow> \<exists>e. snd acc = Inl e"
  unfolding tracks_def by (metis (full_types))

lemma tracks_stopped: "i < n \<Longrightarrow> accs i = None \<Longrightarrow> tracks n (es, Inl e) accs"
  unfolding tracks_def by (simp only: snd_conv) metis

lemma tracks_intro:
  "\<forall>i < n. accs i \<noteq> None \<Longrightarrow> sized n st \<Longrightarrow> \<forall>i < n. cell st i = snd (the (accs i))
   \<Longrightarrow> mset es = (\<Sum>i < n. mset (fst (the (accs i)))) \<Longrightarrow> tracks n (es, Inr (st, [])) accs"
  by (simp add: tracks_def)

lemma tracks_going:
  assumes "tracks n (es, r) accs" and "\<forall>i < n. accs i \<noteq> None"
  obtains st where "r = Inr (st, [])" "sized n st" "\<forall>i < n. cell st i = snd (the (accs i))"
    "mset es = (\<Sum>i < n. mset (fst (the (accs i))))"
proof -
  from assms(2) have "\<not> (\<exists>i < n. accs i = None)" by blast
  with assms(1) show thesis using that unfolding tracks_def by auto
qed

lemma field_one_None [simp]: "field_one fp r None = None"
  by (simp add: field_one_def)

lemma fold_field_one_None: "foldl (\<lambda>acc fp. field_one fp (R fp) acc) None fs = None"
  by (induction fs) simp_all

lemma sum_live:
  fixes g :: "nat \<Rightarrow> 'e multiset"
  assumes "distinct ixs" and "set ixs \<subseteq> {..<n}"
  shows "(\<Sum>i < n. if i \<in> set ixs then g i else {#}) = sum_list (map g ixs)"
  using assms by (simp add: sum_list_distinct_conv_sum_set sum.inter_restrict [symmetric] Int_absorb1)

lemma tracks_step:
  assumes tr: "tracks n (es, Inr (st, [])) accs" and all: "\<forall>i < n. accs i \<noteq> None"
    and lix: "ixs = live_indices n st" "ixs \<noteq> []"
    and agree: "agrees w (map R ixs)"
  shows "tracks n (note_field fp ixs es st [] w) (\<lambda>i. field_one fp (R i) (accs i))"
proof -
  from tr all have sz: "sized n st" and cells: "\<forall>i < n. cell st i = snd (the (accs i))"
    and es: "mset es = (\<Sum>i < n. mset (fst (the (accs i))))"
    by (blast elim: tracks_going dest: sum.inject(2) [THEN iffD1])+
  have lv: "set ixs = {i. i < n \<and> live_cell (cell st i)}" "distinct ixs"
    using live_indices_props lix(1) by auto
  show ?thesis
  proof (cases "None \<in> set (map R ixs)")
    case True
    then obtain i where "i \<in> set ixs" "R i = None" by (metis imageE list.set_map)
    with lv(1) have i: "i < n" "live_cell (cell st i)" "R i = None" by simp_all
    moreover obtain es' x where "accs i = Some (es', x)" using all i(1) by (metis not_None_eq prod.collapse)
    ultimately have "field_one fp (R i) (accs i) = None" using cells by (auto simp: field_one_def)
    moreover obtain fs e where "w = Now fs (Inl e)" using agrees_raised [OF agree True] by blast
    ultimately show ?thesis using i(1) by (auto simp: tracks_def)
  next
    case False
    with agree obtain fs where w: "w = Now fs (Inr (map one_result (map R ixs)))"
      and fs: "mset fs = sum_list (map one_errors (map R ixs))" by (rule agrees_done)
    obtain gs st' where sc: "scatter_field fp ixs (map one_result (map R ixs)) st = (gs, st')" by fastforce
    have sub: "set ixs \<subseteq> {..<n}" using lv(1) by auto
    note sp = scatter_field_cells [OF sc sz sub lv(2)]
    let ?w = "\<lambda>i. write_cell fp (one_result (R i)) (cell st i)"
    have gs: "gs = concat (map (\<lambda>i. fst (?w i)) ixs)"
      using sp by (simp add: map2_self)
    have c_live: "cell st' i = snd (?w i)" if "i \<in> set ixs" for i
      using sp that by (auto simp: in_set_conv_nth)
    have c_dead: "cell st' i = cell st i" if "i \<notin> set ixs" for i using sp that by simp
    let ?accs' = "\<lambda>i. field_one fp (R i) (accs i)"
    have a: "?accs' i = Some (if i \<in> set ixs then (fst (the (accs i)) @ fst (the (R i)) @ fst (?w i), snd (?w i)) else the (accs i))"
      if "i < n" for i
    proof -
      obtain es' x where ac: "accs i = Some (es', x)" using all \<open>i < n\<close> by auto
      with cells that have x: "cell st i = x" by simp
      show ?thesis
      proof (cases "i \<in> set ixs")
        case True
        with False obtain fs' c where "R i = Some (fs', c)" by (cases "R i") (auto simp: image_iff)
        with True lv(1) ac x show ?thesis by (simp add: field_one_def split: prod.split)
      next
        case nl: False
        with lv(1) that x ac show ?thesis by (simp add: field_one_def)
      qed
    qed
    have "mset (es @ fs @ gs) = (\<Sum>i < n. mset (fst (the (?accs' i))))"
    proof -
      have "(\<Sum>i < n. mset (fst (the (?accs' i)))) = (\<Sum>i < n. mset (fst (the (accs i)))
          + (if i \<in> set ixs then one_errors (R i) + mset (fst (?w i)) else {#}))"
        using a by (intro sum.cong refl) (auto simp: one_errors_def)
      also have "\<dots> = mset es + sum_list (map (\<lambda>i. one_errors (R i) + mset (fst (?w i))) ixs)"
        by (simp add: sum.distrib es sum_live [OF lv(2) sub])
      also have "\<dots> = mset (es @ fs @ gs)"
        by (simp add: fs gs mset_concat comp_def sum_list_addf)
      finally show ?thesis ..
    qed
    moreover have "\<forall>i < n. cell st' i = snd (the (?accs' i))"
      using a c_live c_dead cells by simp
    moreover have "note_field fp ixs es st [] w = (es @ fs @ gs, Inr (st', []))"
      by (simp only: w note_field.simps sc prod.case)
    moreover have "\<forall>i < n. ?accs' i \<noteq> None" using a by simp
    moreover have "sized n st'" using sp by simp
    ultimately show ?thesis by (simp only: tracks_intro)
  qed
qed

lemma tracks_walk:
  assumes "tracks n acc accs"
    and "\<forall>fp \<in> set fs. \<forall>ixs. ixs \<noteq> [] \<longrightarrow> set ixs \<subseteq> {..<n} \<longrightarrow> agrees (complete fp ixs) (map (R fp) ixs)"
  shows "tracks n (walk_fields n complete fs acc) (\<lambda>i. foldl (\<lambda>acc fp. field_one fp (R fp i) acc) (accs i) fs)"
  using assms
proof (induction fs arbitrary: acc accs)
  case (Cons fp fs)
  show ?case
  proof (cases "\<exists>i < n. accs i = None")
    case True
    with Cons.prems(1) obtain es e where acc: "acc = (es, Inl e)" using tracks_raised by (metis prod.collapse)
    from True obtain i where i: "i < n" "accs i = None" by blast
    have "foldl (\<lambda>acc fp. field_one fp (R fp i) acc) (accs i) (fp # fs) = None"
      unfolding i(2) by (rule fold_field_one_None)
    with i(1) show ?thesis unfolding acc walk_fields_raised by (rule tracks_stopped)
  next
    case False
    then have some: "\<forall>i < n. accs i \<noteq> None" by simp
    obtain es r where "acc = (es, r)" by fastforce
    with Cons.prems(1) some obtain st where acc: "acc = (es, Inr (st, []))"
      and cells: "\<forall>i < n. cell st i = snd (the (accs i))" using tracks_going [of n es r accs] by blast
    let ?live = "live_indices n st"
    have "tracks n (if ?live = [] then acc else note_field fp ?live es st [] (complete fp ?live))
        (\<lambda>i. field_one fp (R fp i) (accs i))"
    proof (cases "?live = []")
      case True
      then have dead: "\<not> live_cell (cell st i)" if "i < n" for i
        using live_indices_props(1) [of n st] that by auto
      have "field_one fp (R fp i) (accs i) = accs i" if "i < n" for i
        using some cells dead [OF that] that by (auto simp: field_one_def)
      with True Cons.prems(1) show ?thesis unfolding tracks_def by (simp cong: sum.cong_simp conj_cong)
    next
      case nonempty: False
      have "set ?live \<subseteq> {..<n}" using live_indices_props(1) [of n st] by auto
      with nonempty Cons.prems(2) have "agrees (complete fp ?live) (map (R fp) ?live)" by simp
      with tracks_step [OF _ some refl nonempty this] nonempty Cons.prems(1) acc show ?thesis by simp
    qed
    moreover have "walk_fields n complete (fp # fs) acc
        = walk_fields n complete fs (if ?live = [] then acc else note_field fp ?live es st [] (complete fp ?live))"
      by (simp add: acc)
    ultimately show ?thesis using Cons.IH Cons.prems(2) by simp
  qed
qed simp

lemma assemble_nth: "sized n st \<Longrightarrow> i < n \<Longrightarrow> assemble st ! i = cell_result (cell st i)"
  by (auto simp: assemble_def sized_def cell_def split: option.splits)

lemma walk_agrees:
  assumes "\<forall>fp \<in> set fs. \<forall>ixs. ixs \<noteq> [] \<longrightarrow> set ixs \<subseteq> {..<n} \<longrightarrow> agrees (complete fp ixs) (map (R fp) ixs)"
  shows "agrees (case walk_fields n complete fs ([], Inr (new_completion n, [])) of (es, r) \<Rightarrow> finish_walk ctx paths es r)
    (map (\<lambda>i. map_option (\<lambda>(es, x). (es, cell_result x))
            (foldl (\<lambda>acc fp. field_one fp (R fp i) acc) (Some ([], (Some [], None))) fs)) [0..<n])"
proof -
  let ?accs = "\<lambda>i. foldl (\<lambda>acc fp. field_one fp (R fp i) acc) (Some ([], (Some [], None))) fs"
  have "tracks n ([], Inr (new_completion n, [])) (\<lambda>i. Some ([], (Some [], None)))"
    by (simp add: tracks_def new_completion_cells)
  from tracks_walk [OF this assms] have tr: "tracks n (walk_fields n complete fs ([], Inr (new_completion n, []))) ?accs" .
  obtain es r where w: "walk_fields n complete fs ([], Inr (new_completion n, [])) = (es, r)" by fastforce
  show ?thesis
  proof (cases "\<exists>i < n. ?accs i = None")
    case True
    then obtain i where i: "i < n" "?accs i = None" by blast
    with tracks_raised [OF tr] w obtain e where "r = Inl e" by auto
    moreover from i have "None \<in> set (map (\<lambda>i. map_option (\<lambda>(es, x). (es, cell_result x)) (?accs i)) [0..<n])"
      by (auto simp: image_iff intro!: bexI [of _ i])
    ultimately show ?thesis using w by (simp only: agrees_def if_True prod.case) (simp add: finish_walk_def)
  next
    case False
    then have "\<forall>i < n. ?accs i \<noteq> None" by simp
    with tr w obtain st where r: "r = Inr (st, [])" "sized n st" "\<forall>i < n. cell st i = snd (the (?accs i))"
      "mset es = (\<Sum>i < n. mset (fst (the (?accs i))))" using tracks_going [of n es r ?accs] by auto
    have len: "length (assemble st) = n" using r(2) by (simp add: assemble_def sized_def)
    have "assemble st = map (\<lambda>i. one_result (map_option (\<lambda>(es, x). (es, cell_result x)) (?accs i))) [0..<n]"
    proof (rule nth_equalityI)
      fix i
      assume "i < length (assemble st)"
      with len have i: "i < n" by simp
      with False obtain es x where "?accs i = Some (es, x)" by auto
      with i r(2,3) show "assemble st ! i = map (\<lambda>i. one_result (map_option (\<lambda>(es, x). (es, cell_result x)) (?accs i))) [0..<n] ! i"
        by (simp add: assemble_nth)
    qed (simp add: len)
    moreover have "mset es = sum_list (map (\<lambda>i. one_errors (map_option (\<lambda>(es, x). (es, cell_result x)) (?accs i))) [0..<n])"
    proof -
      have "one_errors (map_option (\<lambda>(es, x). (es, cell_result x)) (?accs i)) = mset (fst (the (?accs i)))" if "i < n" for i
        using False that by (cases "?accs i") auto
      then show ?thesis
        unfolding r(4) interv_sum_list_conv_sum_set_nat by (simp add: atLeast0LessThan)
    qed
    moreover have "None \<notin> set (map (\<lambda>i. map_option (\<lambda>(es, x). (es, cell_result x)) (?accs i)) [0..<n])"
      using False by (auto simp: image_iff)
    ultimately show ?thesis by (simp add: agrees_def w finish_walk_def r(1) comp_def)
  qed
qed

end
