(* ===== verification/Batch_Execution.thy ===== *)
theory Batch_Execution
  imports Batch_Objects
begin

text \<open>
  Batched execution agrees with the depth-first specification: the induction over plans and
  completers, in which every list, object and abstract field regroups its batch.
\<close>

section \<open>One field over the live parents\<close>

lemma plan_field_outcome_columns:
  assumes "fp_step fp = Some s" and "cols (sid (obj h s)) = Some c" and "\<forall>i \<in> set ixs. i < length c"
  shows "plan_field_outcome h fp ixs cols = Inr (map (nth c) ixs)"
  using assms by (simp add: plan_field_outcome_def pick_nth)

lemma hoist_bridge_columns:
  assumes cols: "columns_of n cols ss" and sub: "hoist_ids (fp_completer fp) \<subseteq> dom cols"
    and fin: "finite (hoist_ids (fp_completer fp))" and ixs: "\<forall>i \<in> set ixs. i < n"
    and xs: "xs = map (\<lambda>i. (v i, q i, r i, ss i)) ixs"
  shows "\<exists>bridge. hoist_bridge_for_field fp cols ixs = Inr bridge \<and> bridged bridge (hoist_ids (fp_completer fp)) xs"
proof (cases "child_plan fp")
  case None
  then have "hoist_ids (fp_completer fp) = {}"
    by (auto simp: child_plan_def hoist_ids_def split: option.splits)
  with None show ?thesis by (simp add: hoist_bridge_for_field_def bridged_def)
next
  case (Some p)
  then have S: "hoist_ids (fp_completer fp) = l_hoisted_out (op_layer p)"
    by (auto simp: child_plan_def hoist_ids_def split: option.splits)
  let ?S = "l_hoisted_out (op_layer p)"
  show ?thesis
  proof (cases "?S = {}")
    case True
    with Some S show ?thesis by (simp add: hoist_bridge_for_field_def bridged_def)
  next
    case False
    have "\<forall>i \<in> ?S. \<exists>c. cols i = Some c \<and> (\<forall>p \<in> set ixs. p < length c)"
    proof
      fix i
      assume "i \<in> ?S"
      with sub S obtain c where c: "cols i = Some c" by auto
      with columns_of_Some [OF cols c] ixs show "\<exists>c. cols i = Some c \<and> (\<forall>p \<in> set ixs. p < length c)" by simp
    qed
    from pick_columns_Inr [OF fin [unfolded S] this] obtain st where st: "pick_columns cols ?S ixs = Inr st"
      "map_of st = (\<lambda>i. if i \<in> ?S then Some (map (nth (the (cols i))) ixs) else None)"
      "fst ` set st = ?S" "\<forall>hid c. (hid, c) \<in> set st \<longrightarrow> c = map (nth (the (cols hid))) ixs" by blast
    have plain: "list_all plain (map (nth (the (cols i))) ixs)" if "i \<in> ?S" for i
    proof -
      from that sub S obtain c where "cols i = Some c" by auto
      with columns_of_Some [OF cols this] ixs show ?thesis by (simp add: list_all_length) (simp add: list_all_iff)?
    qed
    have "\<not> list_ex (\<lambda>(hid, col). list_ex is_awaitable col) st"
    proof
      assume "list_ex (\<lambda>(hid, col). list_ex is_awaitable col) st"
      then obtain hid col where m: "(hid, col) \<in> set st" "list_ex is_awaitable col" by (auto simp: list_ex_iff)
      with st(3) have "hid \<in> ?S" by force
      with plain st(4) m(1) have "list_all plain col" by blast
      with m(2) no_awaitables show False by blast
    qed
    moreover have "bridged (Some st) ?S xs"
      unfolding bridged_def
    proof (rule disjI2, rule exI [of _ st], intro conjI refl ballI)
      fix i
      assume i: "i \<in> ?S"
      then obtain c where c: "cols i = Some c" using sub S by auto
      have "map Some (map (nth c) ixs) = map (\<lambda>x. h_of x i) xs"
        using columns_of_Some [OF cols c] ixs by (simp add: xs)
      with i c plain [OF i] show "\<exists>c. map_of st i = Some c \<and> list_all plain c \<and> map Some c = map (\<lambda>x. h_of x i) xs"
        by (intro exI [of _ "map (nth c) ixs"]) (simp add: st(2))
    qed
    ultimately show ?thesis using Some False st(1) S by (simp add: hoist_bridge_for_field_def)
  qed
qed

lemma completer_ready_hoist: "completer_ready h R have c \<Longrightarrow> hoist_ids c \<subseteq> have"
  by (induction c rule: find_object_completer.induct) (auto simp: hoist_ids_def split: option.splits)

lemma plan_ready_finite: "plan_ready h R p \<Longrightarrow> finite (l_hoisted_out (op_layer p))"
  by (cases p) (auto simp: layer_ready_def split: if_splits)

lemma completer_ready_finite: "completer_ready h R have c \<Longrightarrow> finite (hoist_ids c)"
  using plan_ready_finite
  by (induction c rule: find_object_completer.induct) (auto simp: hoist_ids_def split: option.splits)

section \<open>The induction\<close>

abbreviation one_of :: "'e exec_context \<Rightarrow> meaning \<Rightarrow> completer \<Rightarrow> string \<Rightarrow> item \<Rightarrow> 'e one" where
  "one_of ctx f c label x \<equiv> one_completed ctx f c (v_of x) (p_of x) (i_of x) label (h_of x)"

definition batch_ok :: "'e exec_context \<Rightarrow> meaning \<Rightarrow> completer \<Rightarrow> bool" where
  "batch_ok ctx f c \<longleftrightarrow>
     (\<forall>xs label bridge. list_all plain (map v_of xs) \<longrightarrow> bridged bridge (hoist_ids c) xs \<longrightarrow>
        agrees (complete_values ctx c (map v_of xs) (map p_of xs) (map i_of xs) label bridge)
          (map (one_of ctx f c label) xs))"

definition bucket_ok :: "'e exec_context \<Rightarrow> meaning \<Rightarrow> object_plan \<Rightarrow> bool" where
  "bucket_ok ctx f p \<longleftrightarrow>
     (\<forall>parents paths parent_store hs. list_all plain parents \<longrightarrow> length paths = length parents \<longrightarrow>
        seeds parent_store (l_hoisted_out (op_layer p)) hs (length parents) \<longrightarrow>
        (\<forall>k. dom (hs k) \<subseteq> l_hoisted_out (op_layer p)) \<longrightarrow>
        dom (map_of (case parent_store of None \<Rightarrow> [] | Some cols \<Rightarrow> cols)) \<subseteq> l_hoisted_out (op_layer p) \<longrightarrow>
        agrees (execute_object_plan ctx p parents paths parent_store)
          (map (\<lambda>k. one_object ctx f p (parents ! k) (paths ! k) (hs k)) [0..<length parents]))"

lemma batch_leaf: "batch_ok ctx f (Leaf_C t)"
  unfolding batch_ok_def
proof (intro allI impI)
  fix xs :: "item list" and label bridge
  assume "list_all plain (map v_of xs)"
  have zip: "zip (map v_of xs) (map p_of xs) = map (\<lambda>x. (v_of x, p_of x)) xs" by (induction xs) simp_all
  have w: "complete_values ctx (Leaf_C t) (map v_of xs) (map p_of xs) (map i_of xs) label bridge
      = of_res (map_res (\<lambda>x. complete_single_leaf ctx t (v_of x) (p_of x)) xs)"
  proof -
    have "map_res g (map k xs) = map_res (\<lambda>x. g (k x)) xs" for g :: "pyval \<times> seg list \<Rightarrow> 'a completed res" and k
      by (induction xs) simp_all
    then show ?thesis using plain_ret(1) [OF \<open>list_all plain (map v_of xs)\<close>, where ?'a = 'a]
      by (simp add: complete_leaf_values_def zip)
  qed
  show "agrees (complete_values ctx (Leaf_C t) (map v_of xs) (map p_of xs) (map i_of xs) label bridge)
      (map (one_of ctx f (Leaf_C t) label) xs)"
  proof (cases "\<exists>x \<in> set xs. \<exists>e. complete_single_leaf ctx t (v_of x) (p_of x) = Inl e")
    case True
    then obtain e where "map_res (\<lambda>x. complete_single_leaf ctx t (v_of x) (p_of x)) xs = Inl e"
      using map_res_raises [of xs "\<lambda>x. complete_single_leaf ctx t (v_of x) (p_of x)"] by blast
    moreover have "None \<in> set (map (one_of ctx f (Leaf_C t) label) xs)" using True by force
    ultimately show ?thesis unfolding w by (simp add: agrees_def of_res_def)
  next
    case False
    then have "\<exists>c. complete_single_leaf ctx t (v_of x) (p_of x) = Inr c" if "x \<in> set xs" for x
      using that by (cases "complete_single_leaf ctx t (v_of x) (p_of x)") auto
    then obtain g where g: "\<And>x. x \<in> set xs \<Longrightarrow> complete_single_leaf ctx t (v_of x) (p_of x) = Inr (g x)" by metis
    have "map_res (\<lambda>x. complete_single_leaf ctx t (v_of x) (p_of x)) xs = Inr (map g xs)"
      using g by (rule map_res_Inr)
    moreover have R: "map (one_of ctx f (Leaf_C t) label) xs = map (\<lambda>x. Some ([], g x)) xs" using g by simp
    moreover have "sum_list (map (\<lambda>x. {#}) xs) = ({#} :: 'a multiset)" by (induction xs) simp_all
    ultimately show ?thesis unfolding w R by (auto simp: agrees_def of_res_def comp_def)
  qed
qed

lemma batch_non_null: "batch_ok ctx f c \<Longrightarrow> batch_ok ctx f (NonNull_C c)"
  unfolding batch_ok_def
proof (intro allI impI)
  fix xs :: "item list" and label bridge
  assume ok: "\<forall>xs label bridge. list_all plain (map v_of xs) \<longrightarrow> bridged bridge (hoist_ids c) xs \<longrightarrow>
        agrees (complete_values ctx c (map v_of xs) (map p_of xs) (map i_of xs) label bridge) (map (one_of ctx f c label) xs)"
    and pl: "list_all plain (map v_of xs)" and br: "bridged bridge (hoist_ids (NonNull_C c)) xs"
  then have inner: "agrees (complete_values ctx c (map v_of xs) (map p_of xs) (map i_of xs) label bridge) (map (one_of ctx f c label) xs)"
    by simp
  have "map2 (enforce_non_null ctx label) (map p_of xs) cs = map2 (\<lambda>x. enforce_non_null ctx label (p_of x)) xs cs" for cs
    by (induction xs arbitrary: cs) (auto simp: zip_Cons1 split: list.split)
  then show "agrees (complete_values ctx (NonNull_C c) (map v_of xs) (map p_of xs) (map i_of xs) label bridge)
      (map (one_of ctx f (NonNull_C c) label) xs)"
    unfolding complete_values.simps complete_non_null_values.simps
    by (intro agrees_bind_map [OF inner, of _ "\<lambda>x. enforce_non_null ctx label (p_of x)"]) simp_all
qed

text \<open>Collecting the flat batch of the items, list by list.\<close>

lemma agrees_lists:
  fixes F :: "item \<Rightarrow> 'e one"
  assumes inner: "agrees w (map F (concat (map sub_items xs)))"
    and G: "\<And>x. G x = (let rs = map F (sub_items x) in if None \<in> set rs then None
         else case collect_span nn (map one_result rs) (list_span ctx label 0 (v_of x) (p_of x)) of
                (es, r) \<Rightarrow> Some (concat (map (fst \<circ> the) rs) @ es, r))"
  shows "agrees (bind_work w (\<lambda>cs. collect_lists nn cs (spans_at ctx label 0 xs))) (map G xs)"
proof (cases "None \<in> set (map F (concat (map sub_items xs)))")
  case True
  then have "\<exists>x \<in> set xs. None \<in> set (map F (sub_items x))"
    unfolding set_map set_concat image_Union image_image by blast
  then obtain x where "x \<in> set xs" "None \<in> set (map F (sub_items x))" by blast
  then have x: "x \<in> set xs" "G x = None" unfolding G Let_def by (simp_all only: if_True)
  from x(1) have "G x \<in> set (map G xs)" unfolding set_map by (rule imageI)
  then have "None \<in> set (map G xs)" unfolding x(2) .
  with agrees_raised [OF inner True] show ?thesis by (auto simp: agrees_def)
next
  case False
  let ?ys = "concat (map sub_items xs)"
  from inner False obtain es where w: "w = Now es (Inr (map one_result (map F ?ys)))"
    and es: "mset es = sum_list (map one_errors (map F ?ys))" by (rule agrees_done)
  let ?col = "\<lambda>x. collect_span nn (map one_result (map F (sub_items x))) (list_span ctx label 0 (v_of x) (p_of x))"
  have some: "G x = Some (concat (map (fst \<circ> the) (map F (sub_items x))) @ fst (?col x), snd (?col x))" if "x \<in> set xs" for x
  proof -
    have "None \<notin> set (map F (sub_items x))" using False that by force
    then show ?thesis unfolding G Let_def by (simp only: if_False) (simp add: case_prod_unfold)
  qed
  have "map (collect_span nn (map one_result (map F ?ys))) (spans_at ctx label 0 xs) = map ?col xs"
    using collect_spans_at [of "[]" 0 nn "\<lambda>y. one_result (F y)" xs ctx label] by (simp add: comp_def)
  then have "collect_lists nn (map one_result (map F ?ys)) (spans_at ctx label 0 xs)
      = Now (concat (map (\<lambda>x. fst (?col x)) xs)) (Inr (map (\<lambda>x. snd (?col x)) xs))"
    unfolding collect_lists_def Let_def by (simp add: comp_def)
  moreover have "map one_result (map G xs) = map (\<lambda>x. snd (?col x)) xs" using some by simp
  moreover have "mset (es @ concat (map (\<lambda>x. fst (?col x)) xs)) = sum_list (map one_errors (map G xs))"
  proof -
    have e: "one_errors (G x) = sum_list (map (\<lambda>y. one_errors (F y)) (sub_items x)) + mset (fst (?col x))" if "x \<in> set xs" for x
      by (simp add: some [OF that] mset_concat one_errors_def comp_def)
    have "sum_list (map one_errors (map G xs))
        = sum_list (map (\<lambda>x. sum_list (map (\<lambda>y. one_errors (F y)) (sub_items x)) + mset (fst (?col x))) xs)"
      unfolding map_map by (intro arg_cong [where f = sum_list] map_cong refl) (simp add: e)
    also have "\<dots> = sum_list (map (\<lambda>y. one_errors (F y)) ?ys) + sum_list (map (\<lambda>x. mset (fst (?col x))) xs)"
      by (induction xs) simp_all
    finally show ?thesis by (simp add: es mset_concat comp_def)
  qed
  moreover have "None \<notin> set (map G xs)" using some by (auto simp: image_iff)
  ultimately show ?thesis unfolding w by (simp add: agrees_def)
qed

lemma batch_list:
  assumes ok: "batch_ok ctx f c"
  shows "batch_ok ctx f (List_C c)"
  unfolding batch_ok_def
proof (intro allI impI)
  fix xs :: "item list" and label bridge
  assume pl: "list_all plain (map v_of xs)" and br: "bridged bridge (hoist_ids (List_C c)) xs"
  let ?ys = "concat (map sub_items xs)" and ?nn = "is_non_null c"
  let ?F = "one_of ctx f c label" and ?G = "one_of ctx f (List_C c) label"
  let ?span = "\<lambda>x. list_span ctx label 0 (v_of x) (p_of x)"
  let ?bridge = "map_option (map (\<lambda>(hid, col). (hid, item_column (map v_of xs) col))) bridge"
  have info: "one_completed ctx f c (v_of y) (p_of y) (i_of x) label (h_of y) = ?F y" if "y \<in> set (sub_items x)" for x y
    using that by (auto simp: sub_items_def)
  have G: "?G x = (let rs = map ?F (sub_items x) in if None \<in> set rs then None
         else case collect_span ?nn (map one_result rs) (?span x) of (es, r) \<Rightarrow> Some (concat (map (fst \<circ> the) rs) @ es, r))" for x
  proof -
    have "map (\<lambda>y. one_completed ctx f c (v_of y) (p_of y) (i_of x) label (h_of y)) (sub_items x) = map ?F (sub_items x)"
      using info by simp
    then show ?thesis unfolding one_completed_list by (simp only: Let_def)
  qed
  have "list_all plain (map v_of ?ys)"
  proof -
    have "plain (v_of y)" if "x \<in> set xs" "y \<in> set (sub_items x)" for x y
    proof -
      from that(1) pl have "plain (v_of x)" by (simp add: list_all_iff)
      then have "list_all plain (items_in (v_of x))" by (rule plain_items)
      moreover have "v_of y \<in> set (map v_of (sub_items x))" using that(2) by simp
      ultimately show ?thesis unfolding sub_items_simps(2) by (simp add: list_all_iff)
    qed
    then show ?thesis by (simp add: list_all_iff)
  qed
  moreover have "bridged ?bridge (hoist_ids c) ?ys" using bridged_sub [OF br] by simp
  ultimately have inner: "agrees (complete_values ctx c (map v_of ?ys) (map p_of ?ys) (map i_of ?ys) label ?bridge) (map ?F ?ys)"
    using ok unfolding batch_ok_def by blast
  have w: "complete_values ctx (List_C c) (map v_of xs) (map p_of xs) (map i_of xs) label bridge
      = bind_work (complete_values ctx c (map v_of ?ys) (map p_of ?ys) (map i_of ?ys) label ?bridge)
          (\<lambda>cs. collect_lists ?nn cs (spans_at ctx label 0 xs))"
    using plain_ret(2) [OF pl, where ?'b = 'a] by (simp add: flatten_items)
  from agrees_lists [OF inner G] show "agrees (complete_values ctx (List_C c) (map v_of xs) (map p_of xs) (map i_of xs) label bridge) (map ?G xs)"
    unfolding w .
qed

text \<open>The bucket of the entries that ask for a child, in the order of their positions.\<close>

lemma bucket_of_entries:
  assumes ok: "bucket_ok ctx f p" and fin: "finite (l_hoisted_out (op_layer p))"
    and pl: "list_all plain (map v_of xs)" and br: "bridged bridge (l_hoisted_out (op_layer p)) xs"
    and K: "\<forall>i \<in> set K. i < length xs"
  shows "\<exists>st. build_hoist_parent_store (op_layer p) bridge (map fst (map (entry_at xs) K)) = Inr st
    \<and> agrees (execute_object_plan ctx p (map (\<lambda>(i, v, p). v) (map (entry_at xs) K)) (map (\<lambda>(i, v, p). p) (map (entry_at xs) K)) st)
        (map (\<lambda>i. one_object ctx f p (v_of (xs ! i)) (p_of (xs ! i)) (h_of (xs ! i) |` l_hoisted_out (op_layer p))) K)"
proof -
  let ?S = "l_hoisted_out (op_layer p)"
  have cols: "map fst (map (entry_at xs) K) = K" "map (\<lambda>(i, v, p). v) (map (entry_at xs) K) = map (\<lambda>i. v_of (xs ! i)) K"
    "map (\<lambda>(i, v, p). p) (map (entry_at xs) K) = map (\<lambda>i. p_of (xs ! i)) K"
    by (simp_all add: entry_at_def comp_def)
  from build_hoist_parent_store_seeds [OF fin br K] obtain st where st: "build_hoist_parent_store (op_layer p) bridge K = Inr st"
    "seeds st ?S (\<lambda>k. h_of (xs ! (K ! k)) |` ?S) (length K)"
    "dom (map_of (case st of None \<Rightarrow> [] | Some cols \<Rightarrow> cols)) \<subseteq> ?S" by blast
  let ?parents = "map (\<lambda>i. v_of (xs ! i)) K" and ?paths = "map (\<lambda>i. p_of (xs ! i)) K"
  have "list_all plain ?parents" using pl K by (simp add: list_all_iff)
  moreover have "\<forall>k. dom (h_of (xs ! (K ! k)) |` ?S) \<subseteq> ?S" by auto
  ultimately have "agrees (execute_object_plan ctx p ?parents ?paths st)
      (map (\<lambda>k. one_object ctx f p (?parents ! k) (?paths ! k) (h_of (xs ! (K ! k)) |` ?S)) [0..<length ?parents])"
    using ok [unfolded bucket_ok_def, rule_format, of ?parents ?paths st "\<lambda>k. h_of (xs ! (K ! k)) |` ?S"] st(2,3)
    by (simp only: length_map)
  moreover have "map (\<lambda>k. one_object ctx f p (?parents ! k) (?paths ! k) (h_of (xs ! (K ! k)) |` ?S)) [0..<length ?parents]
      = map (\<lambda>i. one_object ctx f p (v_of (xs ! i)) (p_of (xs ! i)) (h_of (xs ! i) |` ?S)) K"
    by (intro nth_equalityI) simp_all
  ultimately have "agrees (execute_object_plan ctx p ?parents ?paths st)
      (map (\<lambda>i. one_object ctx f p (v_of (xs ! i)) (p_of (xs ! i)) (h_of (xs ! i) |` ?S)) K)" by (simp only:)
  with st(1) show ?thesis unfolding cols by blast
qed

lemma agrees_scatter:
  assumes rs: "length results = length ds" "\<forall>i < length ds. \<forall>c. ds ! i = Inl c \<longrightarrow> results ! i = c"
    and K: "K = filter (\<lambda>i. \<not> isl (ds ! i)) [0..<length ds]"
    and ag: "agrees w (map (\<lambda>i. ask g (ds ! i)) K)"
  shows "agrees (bind_work w (\<lambda>children. ret (scatter_results results K children))) (map (ask g) ds)"
proof (cases "None \<in> set (map (\<lambda>i. ask g (ds ! i)) K)")
  case True
  then obtain i where "i < length ds" "ask g (ds ! i) = None" by (auto simp: K)
  then have "None \<in> set (map (ask g) ds)" by (metis length_map nth_map nth_mem)
  with agrees_raised [OF ag True] show ?thesis by (auto simp: agrees_def)
next
  case False
  with ag obtain es where w: "w = Now es (Inr (map one_result (map (\<lambda>i. ask g (ds ! i)) K)))"
    and es: "mset es = sum_list (map one_errors (map (\<lambda>i. ask g (ds ! i)) K))" by (rule agrees_done)
  have part: "set (concat [K]) = {i. i < length ds \<and> \<not> isl (ds ! i)}" "distinct (concat [K])" by (auto simp: K)
  have "None \<notin> set (map (ask g) ds)"
  proof
    assume "None \<in> set (map (ask g) ds)"
    then obtain i where i: "i < length ds" "ask g (ds ! i) = None" by (auto simp: in_set_conv_nth)
    then have "\<not> isl (ds ! i)" by (cases "ds ! i") auto
    with i part(1) have "i \<in> set K" by simp
    with i(2) False show False by (metis (no_types, lifting) image_eqI list.set_map)
  qed
  moreover have "scatter_results results K (map one_result (map (\<lambda>i. ask g (ds ! i)) K)) = map one_result (map (ask g) ds)"
    using scatter_groups [OF rs part(1), of g] by (simp add: comp_def)
  moreover have "mset es = sum_list (map one_errors (map (ask g) ds))"
  proof -
    have "one_errors (ask g (ds ! i)) = {#}" if "\<not> \<not> isl (ds ! i)" for i using that by (cases "ds ! i") auto
    from group_errors [OF part(2,1), of "\<lambda>i. one_errors (ask g (ds ! i))"] this
    have "mset es = sum_list (map (\<lambda>i. one_errors (ask g (ds ! i))) [0..<length ds])"
      by (simp add: es comp_def)
    also have "map (\<lambda>i. one_errors (ask g (ds ! i))) [0..<length ds] = map one_errors (map (ask g) ds)"
      by (intro nth_equalityI) simp_all
    finally show ?thesis .
  qed
  ultimately show ?thesis unfolding w by (simp add: agrees_def ret_def)
qed

definition child_one :: "'e exec_context \<Rightarrow> meaning \<Rightarrow> object_plan option \<Rightarrow> item \<Rightarrow> 'e one" where
  "child_one ctx f child x =
     (case child of None \<Rightarrow> None | Some p \<Rightarrow> one_object ctx f p (v_of x) (p_of x) (h_of x |` l_hoisted_out (op_layer p)))"

lemma one_of_object:
  "one_of ctx f (Object_C t child) label x =
     (if asks x \<and> (\<exists>e. guarded ctx t (v_of x) (p_of x) = Inl e) then None
      else ask (child_one ctx f child) (object_ask ctx t x))"
  by (auto simp: asks_def object_ask_def guarded_def child_one_def split: option.splits sum.splits)

lemma batch_object:
  assumes guards: "\<And>g v p w. type_guard ctx t = Some g \<Longrightarrow> g v p = Inr w \<Longrightarrow> \<not> is_awaitable w"
    and child: "\<And>p. child = Some p \<Longrightarrow> bucket_ok ctx f p \<and> finite (l_hoisted_out (op_layer p))"
  shows "batch_ok ctx f (Object_C t child)"
  unfolding batch_ok_def
proof (intro allI impI)
  fix xs :: "item list" and label bridge
  assume pl: "list_all plain (map v_of xs)" and br: "bridged bridge (hoist_ids (Object_C t child)) xs"
  let ?G = "one_of ctx f (Object_C t child) label"
  let ?K = "filter (\<lambda>i. \<not> isl (object_ask ctx t (xs ! i))) [0..<length xs]"
  have items: "if \<exists>x \<in> set xs. asks x \<and> (\<exists>e. guarded ctx t (v_of x) (p_of x) = Inl e)
    then \<exists>e. run_object_bucket ctx t (map v_of xs) (map p_of xs) = Now [] (Inl e)
    else \<exists>results. run_object_bucket ctx t (map v_of xs) (map p_of xs) = ret (results, map (entry_at xs) ?K)
      \<and> length results = length xs \<and> (\<forall>i < length xs. \<forall>c. object_ask ctx t (xs ! i) = Inl c \<longrightarrow> results ! i = c)"
    by (rule run_object_bucket_items) (rule guards)
  have w: "complete_values ctx (Object_C t child) (map v_of xs) (map p_of xs) (map i_of xs) label bridge
      = bind_work (run_object_bucket ctx t (map v_of xs) (map p_of xs)) (\<lambda>(results, keep).
          run_object_children ctx child results keep bridge)"
    using plain_ret(1) [OF pl, where ?'a = 'a] by simp
  show "agrees (complete_values ctx (Object_C t child) (map v_of xs) (map p_of xs) (map i_of xs) label bridge) (map ?G xs)"
  proof (cases "\<exists>x \<in> set xs. asks x \<and> (\<exists>e. guarded ctx t (v_of x) (p_of x) = Inl e)")
    case True
    then obtain x where x: "x \<in> set xs" "?G x = None" unfolding one_of_object by meson
    from x(1) have "?G x \<in> set (map ?G xs)" unfolding set_map by (rule imageI)
    then have "None \<in> set (map ?G xs)" unfolding x(2) .
    moreover obtain e where "run_object_bucket ctx t (map v_of xs) (map p_of xs) = Now [] (Inl e)"
      using items True by auto
    ultimately show ?thesis unfolding w by (simp add: agrees_def)
  next
    case False
    with items obtain results where
      run: "run_object_bucket ctx t (map v_of xs) (map p_of xs) = ret (results, map (entry_at xs) ?K)"
      and rs: "length results = length xs" "\<forall>i < length xs. \<forall>c. object_ask ctx t (xs ! i) = Inl c \<longrightarrow> results ! i = c"
      by (simp only: if_False) blast
    let ?ds = "map (object_ask ctx t) xs" and ?g = "child_one ctx f child"
    have G: "map ?G xs = map (ask ?g) ?ds"
      unfolding map_map comp_def using False by (intro map_cong refl) (subst one_of_object, rule if_not_P, blast)
    have K: "?K = filter (\<lambda>i. \<not> isl (?ds ! i)) [0..<length ?ds]"
      by (simp only: length_map) (rule filter_cong [OF refl], simp)
    have asked: "ask ?g (?ds ! i) = ?g (xs ! i)" if "i \<in> set ?K" for i
      using that by (auto simp: object_ask_def split: if_splits sum.splits)
    have rs': "length results = length ?ds" "\<forall>i < length ?ds. \<forall>c. ?ds ! i = Inl c \<longrightarrow> results ! i = c"
      using rs by simp_all
    have done_already: "agrees (ret results) (map (ask ?g) ?ds)" if "?K = []"
    proof -
      have "agrees (bind_work (ret []) (\<lambda>children. ret (scatter_results results ?K children))) (map (ask ?g) ?ds)"
        by (rule agrees_scatter [OF rs' K]) (simp add: that agrees_def ret_def)
      then show ?thesis by (simp add: that scatter_results_def)
    qed
    show ?thesis
    proof (cases "?K = []")
      case True
      with done_already show ?thesis unfolding w run G by simp
    next
      case nonempty: False
      show ?thesis
      proof (cases child)
        case None
        obtain i where i: "i \<in> set ?K" using nonempty by (cases ?K) auto
        then have "i < length ?ds" "ask ?g (?ds ! i) = None" using asked [OF i] None by (simp_all add: child_one_def)
        then have "None \<in> set (map (ask ?g) ?ds)" by (metis length_map nth_map nth_mem)
        then show ?thesis unfolding w run G using None nonempty by (simp add: agrees_def of_res_def)
      next
        case (Some p)
        have "bridged bridge (l_hoisted_out (op_layer p)) xs" using br Some by simp
        with bucket_of_entries [of ctx f p xs bridge ?K] child [OF Some] pl obtain st where
          st: "build_hoist_parent_store (op_layer p) bridge (map fst (map (entry_at xs) ?K)) = Inr st"
          and ag: "agrees (execute_object_plan ctx p (map (\<lambda>(i, v, p). v) (map (entry_at xs) ?K))
                (map (\<lambda>(i, v, p). p) (map (entry_at xs) ?K)) st)
              (map (\<lambda>i. one_object ctx f p (v_of (xs ! i)) (p_of (xs ! i)) (h_of (xs ! i) |` l_hoisted_out (op_layer p))) ?K)"
          by auto
        have "map (\<lambda>i. one_object ctx f p (v_of (xs ! i)) (p_of (xs ! i)) (h_of (xs ! i) |` l_hoisted_out (op_layer p))) ?K
            = map (\<lambda>i. ask ?g (?ds ! i)) ?K"
          using asked Some by (intro map_cong refl) (simp add: child_one_def)
        from agrees_scatter [OF rs' K ag [unfolded this]]
        have "agrees (bind_work (execute_object_plan ctx p (map (\<lambda>(i, v, p). v) (map (entry_at xs) ?K))
                (map (\<lambda>(i, v, p). p) (map (entry_at xs) ?K)) st)
              (\<lambda>children. ret (scatter_results results (map fst (map (entry_at xs) ?K)) children))) (map (ask ?g) ?ds)"
          by (simp add: entry_at_def comp_def)
        moreover have "map (entry_at xs) ?K \<noteq> []" using nonempty by simp
        ultimately show ?thesis
          unfolding w run G unfolding bind_ret prod.case Some run_object_children.simps option.case st bind_of_res
          by (simp only: if_False)
      qed
    qed
  qed
qed

text \<open>The buckets of several groups, gathered and scattered back.\<close>

lemma gather_work_raises:
  assumes "\<forall>w \<in> set ws. \<exists>es x. w = Now es x" and "\<exists>w \<in> set ws. \<exists>es e. w = Now es (Inl e)"
  shows "\<exists>es e. gather_work ws = Now es (Inl e)"
  using assms
proof (induction ws)
  case (Cons w ws)
  then obtain es x where w: "w = Now es x" by auto
  show ?case
  proof (cases x)
    case (Inr y)
    with Cons w obtain fs e where "gather_work ws = Now fs (Inl e)" by auto
    with w Inr show ?thesis by simp
  qed (use w in simp)
qed simp

lemma agrees_now: "agrees w refs \<Longrightarrow> \<exists>es x. w = Now es x"
  by (auto simp: agrees_def split: if_splits)

lemma agrees_groups:
  assumes rs: "length results = length ds" "\<forall>i < length ds. \<forall>c. ds ! i = Inl c \<longrightarrow> results ! i = c"
    and part: "distinct (concat (map N ts))" "set (concat (map N ts)) = {i. i < length ds \<and> \<not> isl (ds ! i)}"
    and W: "\<And>t. t \<in> set ts \<Longrightarrow> agrees (W t) (map (\<lambda>i. ask g (ds ! i)) (N t))"
  shows "agrees (bind_work (gather_work (map (\<lambda>t. bind_work (W t) (\<lambda>children. ret (N t, children))) ts))
      (\<lambda>groups. ret (foldl (\<lambda>rs (origin, children). scatter_results rs origin children) results groups))) (map (ask g) ds)"
proof (cases "None \<in> set (map (\<lambda>i. ask g (ds ! i)) (concat (map N ts)))")
  case True
  then obtain t i where K: "t \<in> set ts" "i \<in> set (N t)" "ask g (ds ! i) = None" by auto
  then have "i \<in> set (concat (map N ts))" by auto
  then have "i < length ds" unfolding part(2) by simp
  with K(3) have "None \<in> set (map (ask g) ds)" by (metis length_map nth_map nth_mem)
  moreover have "\<exists>es e. gather_work (map (\<lambda>t. bind_work (W t) (\<lambda>children. ret (N t, children))) ts) = Now es (Inl e)"
  proof (rule gather_work_raises)
    have "\<exists>es x. bind_work w (\<lambda>children. ret (K, children)) = Now es x" if "w = Now fs y" for w fs y and K :: "nat list"
      using that by (cases y) (simp_all add: ret_def)
    then show "\<forall>w \<in> set (map (\<lambda>t. bind_work (W t) (\<lambda>children. ret (N t, children))) ts). \<exists>es x. w = Now es x"
      using agrees_now [OF W] by fastforce
    have "None \<in> set (map (\<lambda>i. ask g (ds ! i)) (N t))" using K(2,3) by force
    from agrees_raised [OF W [OF K(1)] this] obtain es e where "W t = Now es (Inl e)" by blast
    then have "bind_work (W t) (\<lambda>children. ret (N t, children)) = Now es (Inl e)" by simp
    with K(1) show "\<exists>w \<in> set (map (\<lambda>t. bind_work (W t) (\<lambda>children. ret (N t, children))) ts). \<exists>es e. w = Now es (Inl e)"
      by force
  qed
  ultimately show ?thesis by (auto simp: agrees_def)
next
  case False
  have "\<exists>es. W t = Now es (Inr (map one_result (map (\<lambda>i. ask g (ds ! i)) (N t))))
      \<and> mset es = sum_list (map one_errors (map (\<lambda>i. ask g (ds ! i)) (N t)))" if "t \<in> set ts" for t
  proof -
    have "None \<notin> set (map (\<lambda>i. ask g (ds ! i)) (N t))" using False that by force
    from agrees_done [OF W [OF that] this] show ?thesis by blast
  qed
  then obtain E where E: "\<And>t. t \<in> set ts \<Longrightarrow> W t = Now (E t) (Inr (map one_result (map (\<lambda>i. ask g (ds ! i)) (N t))))"
    "\<And>t. t \<in> set ts \<Longrightarrow> mset (E t) = sum_list (map one_errors (map (\<lambda>i. ask g (ds ! i)) (N t)))" by metis
  let ?\<phi> = "\<lambda>i. one_result (ask g (ds ! i))" and ?\<psi> = "\<lambda>i. one_errors (ask g (ds ! i))"
  let ?P = "map (\<lambda>t. (E t, (N t, map ?\<phi> (N t)))) ts"
  have "gather_work (map (\<lambda>t. bind_work (W t) (\<lambda>children. ret (N t, children))) ts)
      = Now (concat (map fst ?P)) (Inr (map snd ?P))"
    by (rule gather_work_now) (simp add: list_all2_conv_all_nth E(1) ret_def comp_def)
  then have "gather_work (map (\<lambda>t. bind_work (W t) (\<lambda>children. ret (N t, children))) ts)
      = Now (concat (map E ts)) (Inr (map (\<lambda>K. (K, map ?\<phi> K)) (map N ts)))" by (simp add: comp_def)
  moreover have "foldl (\<lambda>rs (origin, children). scatter_results rs origin children) results (map (\<lambda>K. (K, map ?\<phi> K)) (map N ts))
      = map one_result (map (ask g) ds)"
    using scatter_groups [OF rs part(2), of g] by (simp add: comp_def)
  moreover have "mset (concat (map E ts)) = sum_list (map one_errors (map (ask g) ds))"
  proof -
    have "mset (concat (map E ts)) = sum_list (map (\<lambda>K. sum_list (map ?\<psi> K)) (map N ts))"
      unfolding mset_concat map_map by (intro arg_cong [where f = sum_list] map_cong refl) (simp add: E(2) comp_def)
    also have "\<dots> = sum_list (map ?\<psi> [0..<length ds])"
    proof (rule group_errors [OF part])
      show "?\<psi> i = {#}" if "\<not> \<not> isl (ds ! i)" for i using that by (cases "ds ! i") auto
    qed
    also have "map ?\<psi> [0..<length ds] = map one_errors (map (ask g) ds)"
      by (intro nth_equalityI) simp_all
    finally show ?thesis .
  qed
  moreover have "None \<notin> set (map (ask g) ds)"
  proof
    assume "None \<in> set (map (ask g) ds)"
    then obtain i where i: "i < length ds" "ask g (ds ! i) = None" by (auto simp: in_set_conv_nth)
    then have "\<not> isl (ds ! i)" by (cases "ds ! i") auto
    with i(1) have "i \<in> set (concat (map N ts))" unfolding part(2) by simp
    with i(2) False show False by (metis (no_types, lifting) image_eqI list.set_map)
  qed
  ultimately show ?thesis by (simp add: agrees_def ret_def)
qed

section \<open>Abstract fields\<close>

text \<open>The type each entry goes to, and what its plan gives it.\<close>

definition abstract_dispatch :: "'e exec_context \<Rightarrow> string \<Rightarrow> item \<Rightarrow> ('e completed + string) res" where
  "abstract_dispatch ctx t x = dispatch_entry ctx t (v_of x) (p_of x) (i_of x) (runtime_of ctx t (v_of x, i_of x))"

definition typed_one :: "'e exec_context \<Rightarrow> meaning \<Rightarrow> (string \<times> object_plan) list \<Rightarrow> string \<times> item \<Rightarrow> 'e one" where
  "typed_one ctx f plans tx = child_one ctx f (map_of plans (fst tx)) (snd tx)"

definition typed :: "'e completed + string \<Rightarrow> item \<Rightarrow> 'e completed + string \<times> item" where
  "typed d x = (case d of Inl c \<Rightarrow> Inl c | Inr name \<Rightarrow> Inr (name, x))"

lemma typed_simps [simp]:
  "typed (Inl c) x = Inl c" "typed (Inr name) x = Inr (name, x)" "isl (typed d x) = isl d"
  by (auto simp: typed_def split: sum.splits)

lemma one_of_abstract:
  "one_of ctx f (Abstract_C t plans) label x =
     (case abstract_dispatch ctx t x of Inl e \<Rightarrow> None | Inr d \<Rightarrow> ask (typed_one ctx f plans) (typed d x))"
  by (auto simp: abstract_dispatch_def typed_one_def child_one_def split: option.splits sum.splits)

lemma batch_abstract:
  assumes resolvers: "\<And>v info w. type_resolver ctx t v info = Inr w \<Longrightarrow> \<not> is_awaitable w"
    and child: "\<And>name p. (name, p) \<in> set plans \<Longrightarrow> bucket_ok ctx f p \<and> l_hoisted_out (op_layer p) = {}"
  shows "batch_ok ctx f (Abstract_C t plans)"
  unfolding batch_ok_def
proof (intro allI impI)
  fix xs :: "item list" and label bridge
  assume pl: "list_all plain (map v_of xs)"
  let ?G = "one_of ctx f (Abstract_C t plans) label" and ?D = "abstract_dispatch ctx t"
  let ?W = "\<lambda>(name, group). case map_of plans name of
            None \<Rightarrow> of_res (Inl (HostError ''no plan for the type''))
          | Some p \<Rightarrow>
              bind_work (of_res (build_hoist_parent_store (op_layer p) bridge (map fst group))) (\<lambda>parent_store.
              bind_work
                (execute_object_plan ctx p (map (\<lambda>(i, v, p). v) group) (map (\<lambda>(i, v, p). p) group) parent_store)
                (\<lambda>children. ret (map fst group, children)))"
  let ?entries = "map (entry_at xs) [0..<length xs]"
  let ?runtimes = "map (\<lambda>x. runtime_of ctx t (v_of x, i_of x)) xs"
  have zips: "zip (map v_of xs) (map i_of xs) = map (\<lambda>x. (v_of x, i_of x)) xs"
    "zip (map v_of xs) (zip (map p_of xs) (zip (map i_of xs) ?runtimes))
      = map (\<lambda>x. (v_of x, p_of x, i_of x, runtime_of ctx t (v_of x, i_of x))) xs"
    by (induction xs) simp_all
  have "\<not> is_awaitable (runtime_of ctx t (v, info))" for v info
    using resolvers by (auto simp: runtime_of_def split: sum.splits)
  then have runtimes: "resolve_abstract_bucket ctx t (map v_of xs) (map i_of xs) = ret ?runtimes"
    by (simp add: resolve_abstract_bucket_def resolve_awaitable_values_def zips(1) list_ex_iff comp_def)
  have mr: "map_res (\<lambda>(v, p, i, r). dispatch_entry ctx t v p i r)
      (zip (map v_of xs) (zip (map p_of xs) (zip (map i_of xs) ?runtimes))) = map_res ?D xs"
    unfolding zips(2) by (induction xs) (simp_all add: abstract_dispatch_def)
  have w: "complete_values ctx (Abstract_C t plans) (map v_of xs) (map p_of xs) (map i_of xs) label bridge
      = bind_work (of_res (map_res ?D xs)) (\<lambda>dispatched.
          bind_work (gather_work (map ?W (group_entries dispatched ?entries))) (\<lambda>done_groups.
            ret (foldl (\<lambda>rs (origin, children). scatter_results rs origin children)
                   (map own_dispatched dispatched) done_groups)))"
    using plain_ret(1) [OF pl, where ?'a = 'a] by (simp add: runtimes mr entries_of_items)
  show "agrees (complete_values ctx (Abstract_C t plans) (map v_of xs) (map p_of xs) (map i_of xs) label bridge) (map ?G xs)"
  proof (cases "\<exists>x \<in> set xs. \<exists>e. ?D x = Inl e")
    case True
    then obtain x e where x: "x \<in> set xs" "?D x = Inl e" by blast
    then have "?G x = None" unfolding one_of_abstract by simp
    from x(1) have "?G x \<in> set (map ?G xs)" unfolding set_map by (rule imageI)
    then have "None \<in> set (map ?G xs)" unfolding \<open>?G x = None\<close> .
    moreover obtain e' where "map_res ?D xs = Inl e'" using map_res_raises [OF True] by blast
    ultimately show ?thesis unfolding w by (simp add: agrees_def)
  next
    case False
    then have "\<exists>d. ?D x = Inr d" if "x \<in> set xs" for x using that by (cases "?D x") auto
    then obtain d where d: "\<And>x. x \<in> set xs \<Longrightarrow> ?D x = Inr (d x)" by metis
    let ?ds = "map d xs" and ?tds = "map (\<lambda>x. typed (d x) x) xs" and ?g = "typed_one ctx f plans"
    have G: "map ?G xs = map (ask ?g) ?tds"
      unfolding map_map comp_def by (intro map_cong refl) (subst one_of_abstract, simp add: d)
    have dispatched: "map_res ?D xs = Inr ?ds" using d by (rule map_res_Inr)
    define ts where "ts = map fst (group_entries ?ds ?entries)"
    have ts: "ts = map fst (group_entries ?ds (map (entry_at xs) [0..<length ?ds]))" by (simp add: ts_def)
    have part: "distinct (concat (map (group_of ?ds) ts))"
      "set (concat (map (group_of ?ds) ts)) = {i. i < length ?tds \<and> \<not> isl (?tds ! i)}"
    proof -
      show "distinct (concat (map (group_of ?ds) ts))" by (rule groups_partition(1) [OF ts])
      show "set (concat (map (group_of ?ds) ts)) = {i. i < length ?tds \<and> \<not> isl (?tds ! i)}"
        unfolding groups_partition(2) [OF ts] by (rule Collect_cong) (simp cong: conj_cong)
    qed
    have groups: "group_entries ?ds ?entries = map (\<lambda>t. (t, map (entry_at xs) (group_of ?ds t))) ts"
      unfolding ts_def map_map comp_def using group_entries_set(1) [of _ _ ?ds "entry_at xs"]
      by (intro map_idI [symmetric]) auto
    have own: "length (map own_dispatched ?ds) = length ?tds"
      "\<forall>i < length ?tds. \<forall>c. ?tds ! i = Inl c \<longrightarrow> map own_dispatched ?ds ! i = c"
      by (auto simp: own_dispatched_def typed_def split: sum.splits)
    let ?w = "\<lambda>name. case map_of plans name of
        None \<Rightarrow> of_res (Inl (HostError ''no plan for the type''))
      | Some p \<Rightarrow> execute_object_plan ctx p (map (\<lambda>(i, v, p). v) (map (entry_at xs) (group_of ?ds name)))
                   (map (\<lambda>(i, v, p). p) (map (entry_at xs) (group_of ?ds name))) None"
    have W: "?W (name, map (entry_at xs) (group_of ?ds name)) = bind_work (?w name) (\<lambda>children. ret (group_of ?ds name, children))" for name
    proof (cases "map_of plans name")
      case None
      then show ?thesis by (simp add: of_res_def)
    next
      case (Some p)
      then have "l_hoisted_out (op_layer p) = {}" using child map_of_SomeD by fast
      then show ?thesis by (simp add: Some build_hoist_parent_store_def entry_at_def comp_def)
    qed
    have "agrees (?w name) (map (\<lambda>i. ask ?g (?tds ! i)) (group_of ?ds name))" if "name \<in> set ts" for name
    proof -
      have K: "i < length xs \<and> ?tds ! i = Inr (name, xs ! i)" if "i \<in> set (group_of ?ds name)" for i
        using that by (auto simp: group_of_def)
      show ?thesis
      proof (cases "map_of plans name")
        case None
        from \<open>name \<in> set ts\<close> obtain group where "(name, group) \<in> set (group_entries ?ds (map (entry_at xs) [0..<length ?ds]))"
          by (auto simp: ts)
        from group_entries_set(2) [OF this] obtain i where "i < length ?ds" "?ds ! i = Inr name"
          unfolding in_set_conv_nth by blast
        then have i: "i \<in> set (group_of ?ds name)" by (simp add: group_of_def)
        then have "?tds ! i = Inr (name, xs ! i)" using K by blast
        then have "ask ?g (?tds ! i) = None" by (simp only: ask_simps) (simp add: None typed_one_def child_one_def)
        with i have "None \<in> set (map (\<lambda>i. ask ?g (?tds ! i)) (group_of ?ds name))"
          unfolding set_map by (intro image_eqI [where f = "\<lambda>i. ask ?g (?tds ! i)" and x = i]) (simp_all only:)
        with None show ?thesis by (simp add: agrees_def of_res_def)
      next
        case (Some p)
        then have p: "bucket_ok ctx f p" "l_hoisted_out (op_layer p) = {}" using child map_of_SomeD by fast+
        have "bridged bridge (l_hoisted_out (op_layer p)) xs" by (simp add: p(2) bridged_def)
        moreover have "\<forall>i \<in> set (group_of ?ds name). i < length xs" using K by blast
        ultimately obtain st where "build_hoist_parent_store (op_layer p) bridge (map fst (map (entry_at xs) (group_of ?ds name))) = Inr st"
          and ag: "agrees (execute_object_plan ctx p (map (\<lambda>(i, v, p). v) (map (entry_at xs) (group_of ?ds name)))
              (map (\<lambda>(i, v, p). p) (map (entry_at xs) (group_of ?ds name))) st)
            (map (\<lambda>i. one_object ctx f p (v_of (xs ! i)) (p_of (xs ! i)) (h_of (xs ! i) |` l_hoisted_out (op_layer p))) (group_of ?ds name))"
          using bucket_of_entries [OF p(1) _ pl, of bridge "group_of ?ds name"] by (simp only: p(2) finite.emptyI) blast
        then have "st = None" by (simp add: build_hoist_parent_store_def p(2))
        moreover have "map (\<lambda>i. one_object ctx f p (v_of (xs ! i)) (p_of (xs ! i)) (h_of (xs ! i) |` l_hoisted_out (op_layer p))) (group_of ?ds name)
            = map (\<lambda>i. ask ?g (?tds ! i)) (group_of ?ds name)"
        proof (rule map_cong [OF refl])
          fix i
          assume "i \<in> set (group_of ?ds name)"
          then have "?tds ! i = Inr (name, xs ! i)" using K by blast
          then show "one_object ctx f p (v_of (xs ! i)) (p_of (xs ! i)) (h_of (xs ! i) |` l_hoisted_out (op_layer p)) = ask ?g (?tds ! i)"
            by (simp only: ask_simps) (simp add: typed_one_def child_one_def Some)
        qed
        ultimately show ?thesis using ag by (simp only: Some option.case)
      qed
    qed
    from agrees_groups [OF own part this]
    show ?thesis unfolding w dispatched bind_of_res groups map_map comp_def W G .
  qed
qed

section \<open>Object buckets\<close>

lemma field_agrees:
  assumes ok: "batch_ok ctx f (fp_completer fp)" and cols: "columns_of n cols vals"
    and ids: "layer_ids (step_heap ctx) l \<subseteq> dom cols"
    and ready: "completer_ready (step_heap ctx) R (layer_ids (step_heap ctx) l) (fp_completer fp)"
    and st: "fp_step fp = Some s" "sid (obj (step_heap ctx) s) \<in> layer_ids (step_heap ctx) l"
    and ixs: "set ixs \<subseteq> {..<n}"
  shows "agrees (complete_field ctx fp paths (Some cols) ixs)
    (map (\<lambda>i. one_completed ctx f (fp_completer fp) (one_value (step_heap ctx) (vals i) fp)
        (paths ! i @ [SKey (fp_name fp)]) (paths ! i @ [SKey (fp_name fp)]) (fp_label fp) (vals i)) ixs)"
proof -
  let ?h = "step_heap ctx"
  from st(2) ids obtain c where c: "cols (sid (obj ?h s)) = Some c" by blast
  note col = columns_of_Some [OF cols c]
  have in_n: "\<forall>i \<in> set ixs. i < n" using ixs by auto
  let ?xs = "map (\<lambda>i. (c ! i, paths ! i @ [SKey (fp_name fp)], paths ! i @ [SKey (fp_name fp)], vals i)) ixs"
  have vs: "plan_field_outcome ?h fp ixs cols = Inr (map (nth c) ixs)"
    using st(1) c by (rule plan_field_outcome_columns) (use col in_n in simp)
  have hoist: "hoist_ids (fp_completer fp) \<subseteq> dom cols" using completer_ready_hoist [OF ready] ids by blast
  obtain bridge where br: "hoist_bridge_for_field fp cols ixs = Inr bridge" "bridged bridge (hoist_ids (fp_completer fp)) ?xs"
    using hoist_bridge_columns [OF cols hoist completer_ready_finite [OF ready] in_n refl, of "nth c"
        "\<lambda>i. paths ! i @ [SKey (fp_name fp)]" "\<lambda>i. paths ! i @ [SKey (fp_name fp)]"] by blast
  have "list_all plain (map v_of ?xs)" using col in_n by (simp add: list_all_iff)
  with ok br(2) have "agrees (complete_values ctx (fp_completer fp) (map v_of ?xs) (map p_of ?xs) (map i_of ?xs) (fp_label fp) bridge)
      (map (one_of ctx f (fp_completer fp) (fp_label fp)) ?xs)" unfolding batch_ok_def by blast
  moreover have "one_value ?h (vals i) fp = c ! i" if "i \<in> set ixs" for i
    using col in_n that by (simp add: one_value_def st(1))
  then have "map (\<lambda>i. one_completed ctx f (fp_completer fp) (one_value ?h (vals i) fp)
        (paths ! i @ [SKey (fp_name fp)]) (paths ! i @ [SKey (fp_name fp)]) (fp_label fp) (vals i)) ixs
      = map (one_of ctx f (fp_completer fp) (fp_label fp)) ?xs" by simp
  moreover have "complete_field ctx fp paths (Some cols) ixs
      = complete_values ctx (fp_completer fp) (map v_of ?xs) (map p_of ?xs) (map i_of ?xs) (fp_label fp) bridge"
    by (simp add: complete_field.simps vs br(1) field_paths_def comp_def)
  ultimately show ?thesis by (simp only:)
qed

lemma bucket_object:
  assumes sync: "pointwise_steps ctx f R" and ready: "plan_ready (step_heap ctx) R (Object_Plan t fs l)"
    and ok: "\<And>fp. fp \<in> set fs \<Longrightarrow> batch_ok ctx f (fp_completer fp)"
  shows "bucket_ok ctx f (Object_Plan t fs l)"
  unfolding bucket_ok_def
proof (intro allI impI)
  fix parents :: "pyval list" and paths :: "seg list list" and parent_store and hs :: "nat \<Rightarrow> int \<rightharpoonup> pyval"
  let ?l = "l_hoisted_out (op_layer (Object_Plan t fs l))" and ?n = "length parents"
  assume pl: "list_all plain parents" and len: "length paths = length parents" and seed: "seeds parent_store ?l hs ?n"
    and dom: "\<forall>k. dom (hs k) \<subseteq> ?l" "dom (map_of (case parent_store of None \<Rightarrow> [] | Some cols \<Rightarrow> cols)) \<subseteq> ?l"
  let ?goal = "agrees (execute_object_plan ctx (Object_Plan t fs l) parents paths parent_store)
      (map (\<lambda>k. one_object ctx f (Object_Plan t fs l) (parents ! k) (paths ! k) (hs k)) [0..<?n])"
  show ?goal
  proof (cases "fs = [] \<and> l_run l = []")
    case True
    then have "run_layer ctx l parents paths parent_store = ret None"
      by (simp add: run_layer_def split: option.splits)
    with True have "execute_object_plan ctx (Object_Plan t fs l) parents paths parent_store
        = finish_walk ctx paths [] (Inr (new_completion ?n, []))" by (simp add: walk_output_fields walk_fields_def)
    moreover have "agrees (finish_walk ctx paths [] (Inr (new_completion ?n, []))) (map (\<lambda>i. Some ([], Value (VDict []))) [0..<?n])"
      using walk_agrees [of "[]" ?n "\<lambda>fp ixs. undefined" "\<lambda>fp i. undefined" ctx paths] by (simp add: walk_fields_def)
    moreover have "one_object ctx f (Object_Plan t fs l) v p h = Some ([], Value (VDict []))" for v p h
      using True by simp
    ultimately show ?thesis by simp
  next
    case False
    with ready have l: "layer_ready (step_heap ctx) R l"
      and fps: "\<forall>fp \<in> set fs. (case fp_step fp of None \<Rightarrow> False | Some s \<Rightarrow> sid (obj (step_heap ctx) s) \<in> layer_ids (step_heap ctx) l)
             \<and> completer_ready (step_heap ctx) R (layer_ids (step_heap ctx) l) (fp_completer fp)" by auto
    let ?vals = "\<lambda>k. one_store ctx f l (parents ! k) (paths ! k) (hs k)"
    obtain cols where cols: "run_layer ctx l parents paths parent_store = Now [] (Inr (Some cols))"
      "columns_of ?n cols ?vals" "layer_ids (step_heap ctx) l \<subseteq> dom cols"
      using run_layer_pointwise [OF sync l len pl, of parent_store hs] seed dom by auto
    let ?R = "\<lambda>fp i. one_completed ctx f (fp_completer fp) (one_value (step_heap ctx) (?vals i) fp)
        (paths ! i @ [SKey (fp_name fp)]) (paths ! i @ [SKey (fp_name fp)]) (fp_label fp) (?vals i)"
    have "\<forall>fp \<in> set fs. \<forall>ixs. ixs \<noteq> [] \<longrightarrow> set ixs \<subseteq> {..<?n} \<longrightarrow>
        agrees (complete_field ctx fp paths (Some cols) ixs) (map (?R fp) ixs)"
    proof (intro ballI allI impI)
      fix fp ixs
      assume fp: "fp \<in> set fs" and ixs: "set ixs \<subseteq> {..<?n}"
      from fps fp obtain s where s: "fp_step fp = Some s" "sid (obj (step_heap ctx) s) \<in> layer_ids (step_heap ctx) l"
        by (cases "fp_step fp") auto
      from fps fp have "completer_ready (step_heap ctx) R (layer_ids (step_heap ctx) l) (fp_completer fp)" by blast
      from field_agrees [OF ok [OF fp] cols(2,3) this s ixs]
      show "agrees (complete_field ctx fp paths (Some cols) ixs) (map (?R fp) ixs)" .
    qed
    from walk_agrees [OF this, of ctx paths]
    have "agrees (walk_output ctx (Object_Plan t fs l) parents paths (Some cols))
      (map (\<lambda>i. map_option (\<lambda>(es, x). (es, cell_result x))
            (foldl (\<lambda>acc fp. field_one fp (?R fp i) acc) (Some ([], (Some [], None))) fs)) [0..<?n])"
      unfolding walk_output_fields .
    moreover have "execute_object_plan ctx (Object_Plan t fs l) parents paths parent_store
        = walk_output ctx (Object_Plan t fs l) parents paths (Some cols)"
      by (cases "walk_output ctx (Object_Plan t fs l) parents paths (Some cols)") (simp_all add: cols(1))
    ultimately show ?thesis by (simp only: one_object.simps Let_def)
  qed
qed

section \<open>The agreement\<close>

lemma batched_agrees:
  assumes sync: "synchronous ctx f R"
  shows "completer_ready (step_heap ctx) R have c \<Longrightarrow> batch_ok ctx f c"
    and "completer_ready (step_heap ctx) R have (fp_completer fp) \<Longrightarrow> batch_ok ctx f (fp_completer fp)"
    and "plan_ready (step_heap ctx) R p \<Longrightarrow> bucket_ok ctx f p"
proof (induction c and fp and p arbitrary: "have" and "have")
  case (Leaf_C t)
  show ?case by (rule batch_leaf)
next
  case (Object_C t child)
  show ?case
  proof (rule batch_object)
    show "\<not> is_awaitable w" if "type_guard ctx t = Some g" "g v p = Inr w" for g v p w
      using sync that unfolding synchronous_def by blast
    show "bucket_ok ctx f p \<and> finite (l_hoisted_out (op_layer p))" if "child = Some p" for p
      using Object_C that plan_ready_finite by auto
  qed
next
  case (List_C c)
  from List_C.prems show ?case by (intro batch_list List_C.IH) simp
next
  case (Abstract_C t plans)
  show ?case
  proof (rule batch_abstract)
    show "\<not> is_awaitable w" if "type_resolver ctx t v info = Inr w" for v info w
      using sync that unfolding synchronous_def by blast
    show "bucket_ok ctx f p \<and> l_hoisted_out (op_layer p) = {}" if "(name, p) \<in> set plans" for name p
    proof -
      have "l_hoisted_out (op_layer p) = {}" "plan_ready (step_heap ctx) R p"
        using Abstract_C.prems that by auto
      then show ?thesis using Abstract_C.IH that by (auto simp: snds.simps)
    qed
  qed
next
  case (NonNull_C c)
  from NonNull_C.prems show ?case by (intro batch_non_null NonNull_C.IH) simp
next
  case (Field_Plan name label st c)
  from Field_Plan.prems show ?case unfolding field_plan.sel by (rule Field_Plan.IH)
next
  case (Object_Plan t fs l)
  show ?case
  proof (rule bucket_object)
    show "pointwise_steps ctx f R" using sync by (simp add: synchronous_def)
    show "batch_ok ctx f (fp_completer fp)" if "fp \<in> set fs" for fp
    proof (cases "fs = [] \<and> l_run l = []")
      case True
      with that show ?thesis by simp
    next
      case False
      with Object_Plan.prems that have "completer_ready (step_heap ctx) R (layer_ids (step_heap ctx) l) (fp_completer fp)" by auto
      with Object_Plan.IH that show ?thesis by blast
    qed
  qed (rule Object_Plan.prems)
qed

text \<open>
  A batched execution over any bucket gives each parent what the depth-first specification gives it
  alone, and the errors of all of them together.
\<close>

lemma execute_object_plan_agrees:
  assumes "synchronous ctx f R" and "plan_ready (step_heap ctx) R p" and "l_hoisted_out (op_layer p) = {}"
    and "list_all plain parents" and "length paths = length parents"
  shows "agrees (execute_object_plan ctx p parents paths None)
    (map2 (\<lambda>v path. one_object ctx f p v path Map.empty) parents paths)"
proof -
  have "bucket_ok ctx f p" using assms(1,2) by (rule batched_agrees(3))
  moreover have "seeds None (l_hoisted_out (op_layer p)) (\<lambda>k. Map.empty) (length parents)"
    by (simp add: seeds_def columns_of_def assms(3))
  ultimately have "agrees (execute_object_plan ctx p parents paths None)
      (map (\<lambda>k. one_object ctx f p (parents ! k) (paths ! k) Map.empty) [0..<length parents])"
    using assms(4,5) unfolding bucket_ok_def by auto
  moreover have "map (\<lambda>k. one_object ctx f p (parents ! k) (paths ! k) Map.empty) [0..<length parents]
      = map2 (\<lambda>v path. one_object ctx f p v path Map.empty) parents paths"
    using assms(5) by (intro nth_equalityI) simp_all
  ultimately show ?thesis by (simp only:)
qed

declare execute_object_plan.simps [simp del]

text \<open>Batching parents together is not observable: each gets what it gets when executed alone.\<close>

lemma execute_alone:
  assumes "synchronous ctx f R" and "plan_ready (step_heap ctx) R p" and "l_hoisted_out (op_layer p) = {}"
    and "plain v" and "outcome_of (execute_object_plan ctx p [v] [path] None) = Inr [c]"
  shows "\<exists>es. one_object ctx f p v path Map.empty = Some (es, c)
    \<and> mset (errors_of (execute_object_plan ctx p [v] [path] None)) = mset es"
proof (cases "one_object ctx f p v path Map.empty")
  case None
  with execute_object_plan_agrees [OF assms(1-3), of "[v]" "[path]"] assms(4,5) show ?thesis by (auto simp: agrees_def)
next
  case (Some r)
  then obtain es c' where r: "one_object ctx f p v path Map.empty = Some (es, c')" by (cases r) auto
  have "agrees (execute_object_plan ctx p [v] [path] None) [Some (es, c')]"
    using execute_object_plan_agrees [OF assms(1-3), of "[v]" "[path]"] assms(4) by (simp add: r)
  with assms(5) show ?thesis unfolding r by (auto simp: agrees_def)
qed

lemma execute_together:
  assumes ctx: "synchronous ctx f R" "plan_ready (step_heap ctx) R p" "l_hoisted_out (op_layer p) = {}"
    and pl: "list_all plain parents" and len: "length paths = length parents"
    and alone: "\<And>k. k < length parents \<Longrightarrow> outcome_of (execute_object_plan ctx p [parents ! k] [paths ! k] None) = Inr [c k]"
  shows "outcome_of (execute_object_plan ctx p parents paths None) = Inr (map c [0..<length parents])
    \<and> mset (errors_of (execute_object_plan ctx p parents paths None))
        = (\<Sum>k < length parents. mset (errors_of (execute_object_plan ctx p [parents ! k] [paths ! k] None)))"
proof -
  let ?o = "\<lambda>k. one_object ctx f p (parents ! k) (paths ! k) Map.empty"
  have "\<exists>es. ?o k = Some (es, c k) \<and> mset (errors_of (execute_object_plan ctx p [parents ! k] [paths ! k] None)) = mset es"
    if "k < length parents" for k
    using execute_alone [OF ctx _ alone [OF that]] pl that by (auto simp: list_all_length)
  then obtain E where E: "\<And>k. k < length parents \<Longrightarrow> ?o k = Some (E k, c k)"
    "\<And>k. k < length parents \<Longrightarrow> mset (errors_of (execute_object_plan ctx p [parents ! k] [paths ! k] None)) = mset (E k)"
    by metis
  have "map2 (\<lambda>v path. one_object ctx f p v path Map.empty) parents paths = map (\<lambda>k. Some (E k, c k)) [0..<length parents]"
    using len by (intro nth_equalityI) (simp_all add: E(1))
  with execute_object_plan_agrees [OF ctx pl len]
  have "agrees (execute_object_plan ctx p parents paths None) (map (\<lambda>k. Some (E k, c k)) [0..<length parents])" by simp
  then obtain es where es: "execute_object_plan ctx p parents paths None = Now es (Inr (map c [0..<length parents]))"
    "mset es = sum_list (map (\<lambda>k. mset (E k)) [0..<length parents])" by (auto simp: agrees_def comp_def image_iff split: if_splits)
  have "sum_list (map (\<lambda>k. mset (E k)) [0..<length parents])
      = (\<Sum>k < length parents. mset (errors_of (execute_object_plan ctx p [parents ! k] [paths ! k] None)))"
    unfolding interv_sum_list_conv_sum_set_nat atLeast0LessThan set_upt using E(2) by simp
  with es show ?thesis by simp
qed

text \<open>The errors of a response.\<close>

definition response_errors :: "'e list option \<Rightarrow> 'e list" where
  "response_errors errs = (case errs of None \<Rightarrow> [] | Some es \<Rightarrow> es)"

lemma make_result_errors: "snd (make_result key d es) = errs \<Longrightarrow> mset (response_errors errs) = mset es"
  by (auto simp: make_result_def response_errors_def)

lemma respond_depth_first:
  assumes ctx: "synchronous ctx f R" "plan_ready (step_heap ctx) R p" "l_hoisted_out (op_layer p) = {}" and root: "plain root"
  shows "case one_object ctx f p root [] Map.empty of
      None \<Rightarrow> (\<exists>e. respond key ctx False p root = Inl e) \<or> (\<exists>errs. respond key ctx False p root = Inr (VNone, Some errs))
    | Some (es, r) \<Rightarrow> \<exists>errs. respond key ctx False p root = Inr (case r of Value d \<Rightarrow> d | Bubble e \<Rightarrow> VNone, errs)
        \<and> mset (response_errors errs) = mset es + (case r of Value d \<Rightarrow> {#} | Bubble e \<Rightarrow> {#e#})"
proof -
  have ag: "agrees (execute_object_plan ctx p [root] [[]] None) [one_object ctx f p root [] Map.empty]"
    using execute_object_plan_agrees [OF ctx, of "[root]" "[[]]"] root by simp
  show ?thesis
  proof (cases "one_object ctx f p root [] Map.empty")
    case None
    with ag obtain es e where "execute_object_plan ctx p [root] [[]] None = Now es (Inl e)" by (auto simp: agrees_def)
    then have "run_planned_operation ctx False p root = Now es (Inl e)"
      by (simp add: run_planned_operation_def)
    with None show ?thesis by (cases e) (simp_all add: respond_def make_result_def)
  next
    case (Some x)
    obtain es r where x: "x = (es, r)" by fastforce
    with ag Some obtain es' where w: "execute_object_plan ctx p [root] [[]] None = Now es' (Inr [r])" "mset es' = mset es"
      by (auto simp: agrees_def)
    then have "run_planned_operation ctx False p root = Now es' (Inr r)"
      by (simp add: run_planned_operation_def of_res_def seq_index_def)
    with Some x w(2) show ?thesis
      by (cases r) (auto simp: respond_def make_result_def response_errors_def)
  qed
qed

end
