(* ===== verification/Execution_Properties.thy ===== *)
theory Execution_Properties
  imports Batch_Execution
begin

text \<open>
  The correctness properties of completion and of the bucket executor, with an instance on a query
  for a user's name and friends.
\<close>

section \<open>A small plan\<close>

text \<open>
  Steps 0 and 3 are the boundaries of the two layers, steps 1, 2 and 4 read a key of their parent; the
  friends are a nullable list of non-null users whose name is non-null.
\<close>

definition look :: "string \<Rightarrow> pyval \<Rightarrow> pyval" where
  "look k v = (case v of VDict d \<Rightarrow> (case map_of d k of None \<Rightarrow> VNone | Some x \<Rightarrow> x) | _ \<Rightarrow> VNone)"

definition demo_key :: "ref \<Rightarrow> string" where
  "demo_key r = (if r = 2 then ''friends'' else ''name'')"

definition demo_step :: "int \<Rightarrow> ref list \<Rightarrow> step_obj" where
  "demo_step i ds = \<lparr>sid = i, deps = ds, sclass = ''AccessStep'', peer_key = '''', dedup_params = [],
     dedupable = True, hoistable = True, wants_extra = False, unary = False, sync_safe = True\<rparr>"

definition demo_heap :: heap where
  "demo_heap = [demo_step 0 [], demo_step 1 [0], demo_step 2 [0], demo_step 3 [2], demo_step 4 [3]]"

definition demo_layer :: "ref \<Rightarrow> ref list \<Rightarrow> layer_plan" where
  "demo_layer b rs = (new_layer Root (Some b))\<lparr>l_run := rs, l_ordered := Some rs\<rparr>"

definition demo_child :: object_plan where
  "demo_child = Object_Plan ''User'' [Field_Plan ''name'' ''User.name'' (Some 4) (NonNull_C (Leaf_C ''String''))] (demo_layer 3 [4])"

definition demo_plan :: object_plan where
  "demo_plan = Object_Plan ''Query''
     [Field_Plan ''name'' ''Query.name'' (Some 1) (Leaf_C ''String''),
      Field_Plan ''friends'' ''Query.friends'' (Some 2) (List_C (NonNull_C (Object_C ''User'' (Some demo_child))))]
     (demo_layer 0 [1, 2])"

definition demo_ctx :: "(exn \<times> seg list) exec_context" where
  "demo_ctx = \<lparr>located = Pair, bare = (\<lambda>e. (e, [])), serialize = (\<lambda>t v. Inr v), type_guard = (\<lambda>t. None),
     type_resolver = (\<lambda>t v p. Inr (VStr ''User'')), ensure_valid = (\<lambda>r t p v. Inr ''User''), step_heap = demo_heap,
     behave = (\<lambda>r x n cols. Returned (map (\<lambda>i. look (demo_key r) (cols ! 0 ! i)) [0..<n])),
     traced_steps = (\<lambda>r. False), field_resolver = (\<lambda>v k x. Returned VNone), middleware_wrap = None,
     schedule = (\<lambda>ps n. [0..<n])\<rparr>"

definition demo_meaning :: meaning where
  "demo_meaning r path vs = (case vs of [] \<Rightarrow> VNone | v # vs \<Rightarrow> look (demo_key r) v)"

definition demo_user :: "pyval list \<Rightarrow> pyval" where
  "demo_user friends = VDict [(''name'', VStr ''Ann''), (''friends'', VList friends)]"

lemma demo_objects [simp]:
  "deps_of demo_heap 0 = []" "deps_of demo_heap (Suc 0) = [0]" "deps_of demo_heap 2 = [0]" "deps_of demo_heap 3 = [2]"
  "deps_of demo_heap 4 = [3]" "sid (obj demo_heap 0) = 0" "sid (obj demo_heap (Suc 0)) = 1" "sid (obj demo_heap 2) = 2"
  "sid (obj demo_heap 3) = 3" "sid (obj demo_heap 4) = 4"
  by (simp_all add: demo_heap_def demo_step_def deps_of_def obj_def eval_nat_numeral)

lemma plain_look: "plain v \<Longrightarrow> plain (look k v)"
  by (fastforce simp: look_def list_all_iff split: pyval.split option.split dest: map_of_SomeD)

lemma demo_synchronous: "synchronous demo_ctx demo_meaning {1, 2, 4}"
proof -
  have one: "length (deps_of demo_heap r) = 1" "\<not> unary (obj demo_heap r)" if "r \<in> {1, 2, 4}" for r
    using that by (auto simp: demo_heap_def demo_step_def deps_of_def obj_def)
  have "look (demo_key r) (cols ! 0 ! i) = demo_meaning r path (row cols i)" if "length cols = 1" for r cols i path
    using that by (cases cols) (auto simp: demo_meaning_def row_def)
  moreover have "plain (demo_meaning r path vs)" if "list_all plain vs" for r path vs
    using that plain_look by (cases vs) (auto simp: demo_meaning_def)
  ultimately show ?thesis
    unfolding synchronous_def pointwise_steps_def using one
    by (simp add: demo_ctx_def call_step_def)
qed

lemma demo_ready: "plan_ready (step_heap demo_ctx) {1, 2, 4} demo_plan"
  by (simp add: demo_plan_def demo_child_def demo_ctx_def layer_ready_def demo_layer_def new_layer_def parent_ids_def layer_ids_def)

lemma demo_top: "l_hoisted_out (op_layer demo_plan) = {}"
  by (simp add: demo_plan_def demo_layer_def new_layer_def)

definition demo_root :: pyval where
  "demo_root = demo_user [VDict [(''name'', VStr ''Bob'')], VDict []]"

definition demo_error :: "exn \<times> seg list" where
  "demo_error = (non_null_error ''User.name'', [SKey ''friends'', SIdx 1, SKey ''name''])"

lemma demo_one:
  "one_object demo_ctx demo_meaning demo_plan demo_root [] Map.empty =
     Some ([demo_error], Value (VDict [(''name'', VStr ''Ann''), (''friends'', VNone)]))"
  by (simp add: demo_plan_def demo_child_def demo_ctx_def demo_root_def demo_user_def demo_layer_def new_layer_def
      one_store_def run_one_def one_value_def demo_meaning_def look_def demo_key_def field_one_def numbered_def
      complete_single_leaf_def serialize_leaf_def enforce_non_null_def is_non_null_field_def demo_error_def)

lemma demo_root_plain: "plain demo_root"
  by (simp add: demo_root_def demo_user_def)

lemma demo_respond:
  "\<exists>errs. respond (length \<circ> snd) demo_ctx False demo_plan demo_root
      = Inr (VDict [(''name'', VStr ''Ann''), (''friends'', VNone)], errs) \<and> response_errors errs = [demo_error]"
  using respond_depth_first [OF demo_synchronous demo_ready demo_top demo_root_plain, of "length \<circ> snd"] demo_one by simp

section \<open>The shape of the response\<close>

text \<open>C2: whatever the resolvers return, raise or await, and in whatever order the event loop ends the pending
  fields of each bucket, a response that is produced has the shape of the output plan: every object has
  exactly its selected fields, lists are lists, a non-null position never holds a null. The only other
  response is null data, and it comes with errors.\<close>

lemma response_conforms:
  assumes "fair_schedule ctx" and "plan_named p" and "respond key ctx is_mutation p root = Inr (d, errs)"
  shows "object_conforms p d \<or> (d = VNone \<and> errs \<noteq> None)"
  using assms by (rule respond_conforms)

lemma response_conforms_witness:
  "object_conforms demo_plan (VDict [(''name'', VStr ''Ann''), (''friends'', VNone)])"
proof -
  have "fair_schedule demo_ctx" by (simp add: fair_schedule_def demo_ctx_def)
  moreover have "plan_named demo_plan" by (simp add: demo_plan_def demo_child_def)
  moreover obtain errs where "respond (length \<circ> snd) demo_ctx False demo_plan demo_root
      = Inr (VDict [(''name'', VStr ''Ann''), (''friends'', VNone)], errs)" using demo_respond by blast
  ultimately show ?thesis using response_conforms by fastforce
qed

section \<open>Batching\<close>

text \<open>C1: a synchronous batched execution of a bucket gives each parent exactly the value that depth-first
  execution of that parent alone specifies, with no batches, no flattened lists, no groups by type and no
  hoisted columns, and the bucket's errors are those of its parents; an exception escapes exactly when one
  escapes for some parent.\<close>

lemma batched_execution_is_depth_first:
  assumes "synchronous ctx f R" and "plan_ready (step_heap ctx) R p" and "l_hoisted_out (op_layer p) = {}"
    and "list_all plain parents" and "length paths = length parents"
  shows "agrees (execute_object_plan ctx p parents paths None)
    (map2 (\<lambda>v path. one_object ctx f p v path Map.empty) parents paths)"
  using assms by (rule execute_object_plan_agrees)

lemma batched_execution_is_depth_first_witness:
  "execute_object_plan demo_ctx demo_plan [demo_root, demo_root] [[], []] None
     = Now [demo_error, demo_error] (Inr (replicate 2 (Value (VDict [(''name'', VStr ''Ann''), (''friends'', VNone)]))))"
proof -
  from batched_execution_is_depth_first [OF demo_synchronous demo_ready demo_top, of "[demo_root, demo_root]" "[[], []]"]
  have "agrees (execute_object_plan demo_ctx demo_plan [demo_root, demo_root] [[], []] None)
    (replicate 2 (Some ([demo_error], Value (VDict [(''name'', VStr ''Ann''), (''friends'', VNone)]))))"
    by (simp add: demo_root_plain demo_one eval_nat_numeral)
  then obtain es where es: "mset es = {#demo_error, demo_error#}"
    "execute_object_plan demo_ctx demo_plan [demo_root, demo_root] [[], []] None
      = Now es (Inr (replicate 2 (Value (VDict [(''name'', VStr ''Ann''), (''friends'', VNone)]))))"
    by (auto simp: agrees_def eval_nat_numeral)
  from es(1) have "length es = size {#demo_error, demo_error#}" "set es = set_mset {#demo_error, demo_error#}"
    by (metis size_mset, metis set_mset_mset)
  then have "es = replicate 2 demo_error" by (intro replicate_eqI) auto
  with es(2) show ?thesis by (simp add: eval_nat_numeral)
qed

text \<open>Executing parents in one bucket is not observable: each gets the result it gets when it is executed
  alone, and the errors are those of the separate executions.\<close>

lemma batching_is_not_observable:
  assumes "synchronous ctx f R" and "plan_ready (step_heap ctx) R p" and "l_hoisted_out (op_layer p) = {}"
    and "list_all plain parents" and "length paths = length parents"
    and "\<And>k. k < length parents \<Longrightarrow> outcome_of (execute_object_plan ctx p [parents ! k] [paths ! k] None) = Inr [c k]"
  shows "outcome_of (execute_object_plan ctx p parents paths None) = Inr (map c [0..<length parents])
    \<and> mset (errors_of (execute_object_plan ctx p parents paths None))
        = (\<Sum>k < length parents. mset (errors_of (execute_object_plan ctx p [parents ! k] [paths ! k] None)))"
  using assms by (rule execute_together)

lemma batching_is_not_observable_witness:
  "outcome_of (execute_object_plan demo_ctx demo_plan [demo_root, demo_root] [[], []] None)
     = Inr (replicate 2 (Value (VDict [(''name'', VStr ''Ann''), (''friends'', VNone)])))"
proof -
  let ?v = "Value (VDict [(''name'', VStr ''Ann''), (''friends'', VNone)]) :: (exn \<times> seg list) completed"
  have "outcome_of (execute_object_plan demo_ctx demo_plan [demo_root] [[]] None) = Inr [?v]"
    using execute_object_plan_agrees [OF demo_synchronous demo_ready demo_top, of "[demo_root]" "[[]]"]
    by (auto simp: agrees_def demo_root_plain demo_one)
  then have alone: "outcome_of (execute_object_plan demo_ctx demo_plan [[demo_root, demo_root] ! k] [[[], []] ! k] None) = Inr [?v]"
    if "k < length [demo_root, demo_root]" for k
    using that by (cases k) auto
  from batching_is_not_observable [OF demo_synchronous demo_ready demo_top, where parents = "[demo_root, demo_root]"
      and paths = "[[], []]" and c = "\<lambda>k. ?v", OF _ _ alone]
  show ?thesis by (simp add: demo_root_plain eval_nat_numeral)
qed

text \<open>C7: the response of a synchronous query is the one depth-first execution specifies: its data, null when the
  root bubbles, and its errors, with the bubble that reached the root; when an exception escapes the
  specification, no data is returned.\<close>

lemma response_is_depth_first:
  assumes "synchronous ctx f R" and "plan_ready (step_heap ctx) R p" and "l_hoisted_out (op_layer p) = {}" and "plain root"
  shows "case one_object ctx f p root [] Map.empty of
      None \<Rightarrow> (\<exists>e. respond key ctx False p root = Inl e) \<or> (\<exists>errs. respond key ctx False p root = Inr (VNone, Some errs))
    | Some (es, r) \<Rightarrow> \<exists>errs. respond key ctx False p root = Inr (case r of Value d \<Rightarrow> d | Bubble e \<Rightarrow> VNone, errs)
        \<and> mset (response_errors errs) = mset es + (case r of Value d \<Rightarrow> {#} | Bubble e \<Rightarrow> {#e#})"
  using assms by (rule respond_depth_first)

lemma response_is_depth_first_witness:
  "\<exists>errs. respond (length \<circ> snd) demo_ctx False demo_plan demo_root
      = Inr (VDict [(''name'', VStr ''Ann''), (''friends'', VNone)], errs) \<and> response_errors errs = [demo_error]"
  using response_is_depth_first [OF demo_synchronous demo_ready demo_top demo_root_plain, of "length \<circ> snd"] demo_one by simp

end
