(* ===== verification/Output_Laws.thy ===== *)
theory Output_Laws
  imports Depth_First
begin

text \<open>
  What the passes of \<open>finalize_plan\<close> guarantee the executor: after hoisting and populating, every
  layer's steps can run in their order from the columns its bucket is seeded with, and a column a
  child gave up is one its parent's bucket has. The selection is what it was.
\<close>

section \<open>The steps of one bucket\<close>

abbreviation ids_of :: "heap \<Rightarrow> ref list \<Rightarrow> int set" where
  "ids_of h rs \<equiv> (\<lambda>r. sid (obj h r)) ` set rs"

text \<open>The steps of a finished plan: closed under dependencies, each with its own id.\<close>

definition planned :: "heap \<Rightarrow> ref set \<Rightarrow> bool" where
  "planned h S \<longleftrightarrow> acyclic_heap h \<and> (\<forall>r \<in> S. set (deps_of h r) \<subseteq> S) \<and> inj_on (\<lambda>r. sid (obj h r)) S"

lemma planned_acyclic: "planned h S \<Longrightarrow> acyclic_heap h"
  by (simp add: planned_def)

lemma ordered_planned:
  assumes "planned h S" and "set ts \<subseteq> S"
  shows "set (order_steps_within h ts B) \<subseteq> S"
proof -
  have "r \<in> S" if "r \<in> reach h (\<lambda>r. sid (obj h r) \<in> B) (set ts)" for r
    using that assms by induction (auto simp: planned_def)
  moreover have "set (order_steps_within h ts B) = reach h (\<lambda>r. sid (obj h r) \<in> B) (set ts)"
    using assms(1) by (simp add: planned_acyclic bucket_order.order_set)
  ultimately show ?thesis by auto
qed

lemma same_id: "planned h S \<Longrightarrow> r \<in> S \<Longrightarrow> s \<in> S \<Longrightarrow> sid (obj h r) = sid (obj h s) \<Longrightarrow> r = s"
  by (auto simp: planned_def inj_on_def)

lemma topo_runnable:
  "topo h (\<lambda>r. sid (obj h r) \<in> B) D rs \<Longrightarrow> B \<subseteq> have \<Longrightarrow> (\<lambda>r. sid (obj h r)) ` D \<subseteq> have \<Longrightarrow> runnable h have rs"
proof (induction rs arbitrary: D "have")
  case (Cons r rs)
  have "runnable h (insert (sid (obj h r)) have) rs"
    by (rule Cons.IH [of "insert r D"]) (use Cons.prems in auto)
  with Cons.prems show ?case by auto
qed simp

lemma populated_ready:
  assumes h: "planned h S" and l: "l_parent l \<noteq> None" "finite (l_hoisted_out l)" "run \<noteq> []" "set run \<subseteq> S"
  shows "layer_ready h S
    (l\<lparr>l_run := run, l_ordered := Some (order_steps_within h run (parent_ids h l \<union> l_hoisted_out l))\<rparr>)"
proof -
  let ?B = "parent_ids h l \<union> l_hoisted_out l"
  let ?rs = "order_steps_within h run ?B"
  have ac: "acyclic_heap h" using h by (rule planned_acyclic)
  have rs: "set ?rs \<subseteq> S" using ordered_planned [OF h l(4)] by simp
  have "inj_on (\<lambda>r. sid (obj h r)) (set ?rs)"
    using h rs unfolding planned_def by (blast intro: inj_on_subset)
  then have "distinct (map (\<lambda>r. sid (obj h r)) ?rs)"
    using bucket_order.order_distinct [OF ac] by (simp add: distinct_map)
  moreover have "?B \<inter> ids_of h ?rs = {}" using bucket_order.order_not_stop [OF ac] by blast
  moreover have "runnable h ?B ?rs" by (rule topo_runnable [OF bucket_order.order_topo [OF ac]]) auto
  ultimately show ?thesis using l rs by (simp add: layer_ready_def parent_ids_def)
qed

section \<open>Trees that can be populated\<close>

text \<open>The columns a populated bucket has.\<close>

definition layer_columns :: "heap \<Rightarrow> field_plan list \<Rightarrow> layer_plan \<Rightarrow> int set" where
  "layer_columns h fs l = parent_ids h l \<union> l_hoisted_out l
     \<union> ids_of h (order_steps_within h (field_steps fs @ l_effects l @ l_hoisted_in l) (parent_ids h l \<union> l_hoisted_out l))"

fun abstract_ready :: "heap \<Rightarrow> ref set \<Rightarrow> completer \<Rightarrow> bool" where
  "abstract_ready h S (NonNull_C c) = abstract_ready h S c"
| "abstract_ready h S (List_C c) = abstract_ready h S c"
| "abstract_ready h S (Abstract_C t plans) =
     (\<forall>tp \<in> set plans. l_hoisted_out (op_layer (snd tp)) = {} \<and> plan_ready h S (snd tp))"
| "abstract_ready h S c = True"

text \<open>\<open>tree_ok hoisted\<close>: with \<open>hoisted\<close> false, no step was moved yet.\<close>

function tree_ok :: "bool \<Rightarrow> heap \<Rightarrow> ref set \<Rightarrow> object_plan \<Rightarrow> bool" where
  "tree_ok hoisted h S (Object_Plan t fs l) =
     (l_parent l \<noteq> None \<and> set (l_effects l) \<subseteq> S \<and> set (l_hoisted_in l) \<subseteq> S \<and> finite (l_hoisted_out l)
      \<and> (\<not> hoisted \<longrightarrow> l_hoisted_in l = [] \<and> l_hoisted_out l = {})
      \<and> (\<forall>fp \<in> set fs. (case fp_step fp of None \<Rightarrow> False | Some s \<Rightarrow> s \<in> S)
           \<and> abstract_ready h S (fp_completer fp)
           \<and> (case child_plan fp of
                None \<Rightarrow> True
              | Some q \<Rightarrow> l_hoisted_out (op_layer q) \<subseteq> layer_columns h fs l \<and> tree_ok hoisted h S q)))"
  by pat_completeness auto
termination by (relation "measure (\<lambda>(b, h, S, p). size p)") (auto intro: child_plan_in_size)

lemma tree_ok_layer:
  assumes "tree_ok b h S (Object_Plan t fs l)"
  shows "l_parent l \<noteq> None" "set (l_effects l) \<subseteq> S" "set (l_hoisted_in l) \<subseteq> S" "finite (l_hoisted_out l)"
    "\<not> b \<Longrightarrow> l_hoisted_in l = [] \<and> l_hoisted_out l = {}"
  using assms by auto

lemma tree_ok_field:
  assumes "tree_ok b h S (Object_Plan t fs l)" and "fp \<in> set fs"
  shows "(case fp_step fp of None \<Rightarrow> False | Some s \<Rightarrow> s \<in> S) \<and> abstract_ready h S (fp_completer fp)"
    and "child_plan fp = Some q \<Longrightarrow> l_hoisted_out (op_layer q) \<subseteq> layer_columns h fs l \<and> tree_ok b h S q"
proof -
  have all: "(case fp_step fp of None \<Rightarrow> False | Some s \<Rightarrow> s \<in> S) \<and> abstract_ready h S (fp_completer fp)
      \<and> (case child_plan fp of None \<Rightarrow> True
         | Some q \<Rightarrow> l_hoisted_out (op_layer q) \<subseteq> layer_columns h fs l \<and> tree_ok b h S q)"
    using assms unfolding tree_ok.simps by blast
  then show "(case fp_step fp of None \<Rightarrow> False | Some s \<Rightarrow> s \<in> S) \<and> abstract_ready h S (fp_completer fp)" by simp
  show "l_hoisted_out (op_layer q) \<subseteq> layer_columns h fs l \<and> tree_ok b h S q" if "child_plan fp = Some q"
    using all that by simp
qed

lemma completer_ready_split:
  "completer_ready h S have c \<longleftrightarrow> abstract_ready h S c
     \<and> (case find_object_completer c of
          Some (n, Some p) \<Rightarrow> l_hoisted_out (op_layer p) \<subseteq> have \<and> plan_ready h S p | _ \<Rightarrow> True)"
  by (induction c rule: find_object_completer.induct) (auto split: option.splits)

lemma abstract_ready_attach [simp]: "abstract_ready h S (attach_child_plan c q) = abstract_ready h S c"
  by (induction c q rule: attach_child_plan.induct) auto

lemma child_plan_completer: "child_plan fp = Some p \<longleftrightarrow> (\<exists>n. find_object_completer (fp_completer fp) = Some (n, Some p))"
  by (auto simp: child_plan_def split: option.splits)

lemma with_child_completer [simp]: "fp_completer (with_child fp q) = attach_child_plan (fp_completer fp) q"
  by (simp add: with_child_def)

lemma completer_ready_child:
  assumes "abstract_ready h S (fp_completer fp)"
    and "\<And>p. child_plan fp = Some p \<Longrightarrow> l_hoisted_out (op_layer p) \<subseteq> have \<and> plan_ready h S p"
  shows "completer_ready h S have (fp_completer fp)"
  using assms unfolding completer_ready_split child_plan_completer by (auto split: option.splits)

lemma field_steps_map:
  "(\<And>fp. fp \<in> set fs \<Longrightarrow> fp_step (g fp) = fp_step fp) \<Longrightarrow> field_steps (map g fs) = field_steps fs"
  unfolding field_steps_def map_map comp_def by (intro arg_cong [where f = concat] map_cong refl) simp

lemma field_steps_planned:
  "\<forall>fp \<in> set fs. (case fp_step fp of None \<Rightarrow> False | Some s \<Rightarrow> s \<in> S) \<Longrightarrow> set (field_steps fs) \<subseteq> S"
  by (fastforce simp: field_steps_def split: option.splits)

lemma field_step_member: "fp \<in> set fs \<Longrightarrow> fp_step fp = Some s \<Longrightarrow> s \<in> set (field_steps fs)"
  by (force simp: field_steps_def)

section \<open>Populating\<close>

lemma populate_keeps_out [simp]: "l_hoisted_out (op_layer (populate_layers h p)) = l_hoisted_out (op_layer p)"
  by (cases p) (simp add: Let_def)

lemma populate_ready:
  "planned h S \<Longrightarrow> tree_ok b h S p \<Longrightarrow> plan_ready h S (populate_layers h p)"
proof (induction h p rule: populate_layers.induct)
  case (1 h t fs l)
  let ?g = "\<lambda>fp. case child_plan fp of None \<Rightarrow> fp | Some p \<Rightarrow> with_child fp (populate_layers h p)"
  let ?run = "field_steps fs @ l_effects l @ l_hoisted_in l" and ?B = "parent_ids h l \<union> l_hoisted_out l"
  have h: "planned h S" by (rule "1.prems"(1))
  note l = tree_ok_layer [OF "1.prems"(2)]
  note fps = tree_ok_field(1) [OF "1.prems"(2)] and children = tree_ok_field(2) [OF "1.prems"(2)]
  have step: "fp_step (?g fp) = fp_step fp" for fp by (simp split: option.split)
  then have steps: "field_steps (map ?g fs) = field_steps fs" by (rule field_steps_map)
  have populated: "populate_layers h (Object_Plan t fs l) = Object_Plan t (map ?g fs)
      (l\<lparr>l_run := ?run, l_ordered := (if ?run \<noteq> [] then Some (order_steps_within h ?run ?B) else None)\<rparr>)"
    unfolding populate_layers.simps Let_def steps using l(1) by (simp only: not_False_eq_True simp_thms if_True if_False refl)
  show ?case
  proof (cases "?run = []")
    case True
    have "fs = []"
    proof (rule ccontr)
      assume "fs \<noteq> []"
      then obtain fp where "fp \<in> set fs" by (cases fs) auto
      with fps [OF this] have "field_steps fs \<noteq> []" using field_step_member by (fastforce split: option.splits)
      with True show False by simp
    qed
    with True l(4) show ?thesis unfolding populated by simp
  next
    case False
    let ?l = "l\<lparr>l_run := ?run, l_ordered := Some (order_steps_within h ?run ?B)\<rparr>"
    have "set (field_steps fs) \<subseteq> S" using fps by (intro field_steps_planned) blast
    with l(2,3) have heap: "set ?run \<subseteq> S" by simp
    have ready: "layer_ready h S ?l" using h l(1,4) False heap by (rule populated_ready)
    have cols: "layer_ids h ?l = layer_columns h fs l"
      by (simp add: layer_ids_def layer_columns_def parent_ids_def)
    have ac: "acyclic_heap h" using h by (rule planned_acyclic)
    have "(case fp_step fp of None \<Rightarrow> False | Some s \<Rightarrow> sid (obj h s) \<in> layer_columns h fs l)
        \<and> completer_ready h S (layer_columns h fs l) (fp_completer (?g fp))" if fp: "fp \<in> set fs" for fp
    proof
      from fps [OF fp] obtain s where s: "fp_step fp = Some s" by (auto split: option.splits)
      with fp have "s \<in> set ?run" using field_step_member by fastforce
      with bucket_order.order_targets [OF ac, of s ?run ?B] have "sid (obj h s) \<in> layer_columns h fs l"
        by (auto simp: layer_columns_def)
      with s show "case fp_step fp of None \<Rightarrow> False | Some s \<Rightarrow> sid (obj h s) \<in> layer_columns h fs l" by simp
      show "completer_ready h S (layer_columns h fs l) (fp_completer (?g fp))"
      proof (rule completer_ready_child)
        show "abstract_ready h S (fp_completer (?g fp))" using fps [OF fp] by (simp split: option.split)
        fix q
        assume q: "child_plan (?g fp) = Some q"
        show "l_hoisted_out (op_layer q) \<subseteq> layer_columns h fs l \<and> plan_ready h S q"
        proof (cases "child_plan fp")
          case (Some p)
          with q have "q = populate_layers h p" using child_plan_with_child by simp
          with children [OF fp Some] "1.IH" [OF fp Some h] show ?thesis by simp
        qed (use q in simp)
      qed
    qed
    then have "\<forall>fp \<in> set (map ?g fs). (case fp_step fp of None \<Rightarrow> False | Some s \<Rightarrow> sid (obj h s) \<in> layer_ids h ?l)
        \<and> completer_ready h S (layer_ids h ?l) (fp_completer fp)"
      unfolding cols by (simp only: set_map ball_simps step) blast
    with ready False l(4) show ?thesis unfolding populated by (simp only: plan_ready.simps if_True if_False not_False_eq_True) simp
  qed
qed

section \<open>Lifting\<close>

text \<open>Own steps are keyed by their ids.\<close>

definition keyed :: "heap \<Rightarrow> ref set \<Rightarrow> steps_by_id \<Rightarrow> bool" where
  "keyed h S own \<longleftrightarrow> (\<forall>(i, s) \<in> set own. i = sid (obj h s) \<and> s \<in> S)"

lemma set_dict_set: "set (dict_set d k v) \<subseteq> insert (k, v) (set d)"
  by (induction d k v rule: dict_set.induct) auto

lemma own_steps_keyed:
  assumes "set rs \<subseteq> S"
  shows "keyed h S (foldl (add_by_id h) d rs) \<or> \<not> keyed h S d" and "fst ` set (foldl (add_by_id h) d rs) = fst ` set d \<union> ids_of h rs"
    and "snd ` set (foldl (add_by_id h) d rs) \<subseteq> snd ` set d \<union> set rs"
proof -
  have "(keyed h S d \<longrightarrow> keyed h S (foldl (add_by_id h) d rs))
    \<and> fst ` set (foldl (add_by_id h) d rs) = fst ` set d \<union> ids_of h rs
    \<and> snd ` set (foldl (add_by_id h) d rs) \<subseteq> snd ` set d \<union> set rs"
    using assms
  proof (induction rs arbitrary: d)
    case (Cons r rs)
    have d': "set (add_by_id h d r) \<subseteq> insert (sid (obj h r), r) (set d)"
      unfolding add_by_id_def by (rule set_dict_set)
    have "fst ` set (add_by_id h d r) = insert (sid (obj h r)) (fst ` set d)"
      using keys_dict_set [of d "sid (obj h r)" r] by (simp add: add_by_id_def)
    note keys = this
    have keep: "keyed h S (add_by_id h d r)" if "keyed h S d"
      using that d' Cons.prems by (auto simp: keyed_def)
    have vals: "snd ` set (add_by_id h d r) \<subseteq> insert r (snd ` set d)" using d' by force
    have "set rs \<subseteq> S" using Cons.prems by simp
    note IH = Cons.IH [OF this, of "add_by_id h d r"]
    show ?case
    proof (intro conjI impI)
      show "keyed h S (foldl (add_by_id h) d (r # rs))" if "keyed h S d" using IH keep [OF that] by simp
      show "fst ` set (foldl (add_by_id h) d (r # rs)) = fst ` set d \<union> ids_of h (r # rs)"
        using IH keys by simp
      have "snd ` set (foldl (add_by_id h) d (r # rs)) \<subseteq> snd ` set (add_by_id h d r) \<union> set rs" using IH by simp
      also have "\<dots> \<subseteq> snd ` set d \<union> set (r # rs)" using vals by auto
      finally show "snd ` set (foldl (add_by_id h) d (r # rs)) \<subseteq> snd ` set d \<union> set (r # rs)" .
    qed
  qed simp
  then show "keyed h S (foldl (add_by_id h) d rs) \<or> \<not> keyed h S d" "fst ` set (foldl (add_by_id h) d rs) = fst ` set d \<union> ids_of h rs"
    "snd ` set (foldl (add_by_id h) d rs) \<subseteq> snd ` set d \<union> set rs" by blast+
qed

text \<open>What has been lifted so far: own steps, with every dependency above or lifted too.\<close>

definition lifted_ok :: "heap \<Rightarrow> int set \<Rightarrow> steps_by_id \<Rightarrow> ref list \<Rightarrow> int set \<Rightarrow> bool" where
  "lifted_ok h avail own out ids \<longleftrightarrow>
     ids = ids_of h out \<and> set out \<subseteq> snd ` set own \<and> (\<forall>s \<in> set out. is_hoistable h s (avail \<union> ids))"

lemma hoistable_mono: "is_hoistable h s A \<Longrightarrow> A \<subseteq> B \<Longrightarrow> is_hoistable h s B"
  by (auto simp: is_hoistable_def split: if_splits)

lemma lift_pass_ok:
  assumes "keyed h S own" and "lifted_ok h avail own out ids" and "lift_pass h avail own out ids = (out', ids')"
  shows "lifted_ok h avail own out' ids'"
proof -
  have "lifted_ok h avail own out' ids'"
    if "foldl (\<lambda>(out, ids) (i, s). if i \<in> ids then (out, ids)
           else if is_hoistable h s (avail \<union> ids0) then (out @ [s], insert i ids) else (out, ids)) (out, ids) xs = (out', ids')"
      and "set xs \<subseteq> set own" and "lifted_ok h avail own out ids" and "ids0 \<subseteq> ids" for ids0 out ids xs
    using that
  proof (induction xs arbitrary: out ids)
    case (Cons x xs)
    obtain i s where x: "x = (i, s)" by fastforce
    with Cons.prems(2) assms(1) have i: "i = sid (obj h s)" "(i, s) \<in> set own" by (auto simp: keyed_def)
    show ?case
    proof (cases "i \<notin> ids \<and> is_hoistable h s (avail \<union> ids0)")
      case True
      have hst: "is_hoistable h r (avail \<union> insert i ids)" if "r \<in> set (out @ [s])" for r
      proof (cases "r = s")
        case True
        from \<open>i \<notin> ids \<and> _\<close> have "is_hoistable h s (avail \<union> ids0)" by simp
        then show ?thesis unfolding True by (rule hoistable_mono) (use Cons.prems(4) in blast)
      next
        case False
        with that have "r \<in> set out" by simp
        with Cons.prems(3) have "is_hoistable h r (avail \<union> ids)" unfolding lifted_ok_def by blast
        then show ?thesis by (rule hoistable_mono) blast
      qed
      have "lifted_ok h avail own (out @ [s]) (insert i ids)"
      proof -
        have prev: "ids = ids_of h out" "set out \<subseteq> snd ` set own"
          using Cons.prems(3) unfolding lifted_ok_def by blast+
        have "s \<in> snd ` set own" using imageI [OF i(2), of snd] by simp
        with prev(2) have "set (out @ [s]) \<subseteq> snd ` set own" by simp
        moreover have "insert i ids = ids_of h (out @ [s])" unfolding prev(1) i(1) by simp
        ultimately show ?thesis using hst unfolding lifted_ok_def by (intro conjI ballI)
      qed
      with Cons.IH [of "out @ [s]" "insert i ids"] Cons.prems True show ?thesis by (auto simp: x)
    next
      case False
      with Cons.IH [of out ids] Cons.prems show ?thesis by (auto simp: x split: if_splits)
    qed
  qed simp
  from this [of ids out ids own] assms(2,3) show ?thesis by (simp add: lift_pass_def Let_def)
qed

lemma lift_loop_ok:
  "keyed h S own \<Longrightarrow> lifted_ok h avail own out ids \<Longrightarrow> lift_loop h avail own out ids = (out', ids') \<Longrightarrow> lifted_ok h avail own out' ids'"
proof (induction h avail own out ids rule: lift_loop.induct)
  case (1 h avail own out ids)
  obtain out1 ids1 where p: "lift_pass h avail own out ids = (out1, ids1)" by fastforce
  have ok: "lifted_ok h avail own out1 ids1" using "1.prems"(1,2) p by (rule lift_pass_ok)
  show ?case
  proof (cases "ids1 = ids")
    case True
    with "1.prems"(3) p ok show ?thesis by (subst (asm) lift_loop.simps) simp
  next
    case False
    from "1.prems"(3) p False have "lift_loop h avail own out1 ids1 = (out', ids')"
      by (subst (asm) lift_loop.simps) simp
    with "1.IH" [OF p [symmetric]] False "1.prems"(1) ok show ?thesis by simp
  qed
qed

lemma take_lifted_spec:
  "\<exists>new. take_lifted h (own, hin) lifted = (own @ map (\<lambda>s. (sid (obj h s), s)) new, hin @ new)
     \<and> set new \<subseteq> set lifted \<and> ids_of h lifted \<subseteq> fst ` set own \<union> ids_of h new"
proof (induction lifted arbitrary: own hin)
  case (Cons s lifted)
  show ?case
  proof (cases "sid (obj h s) \<in> fst ` set own")
    case True
    then have "take_lifted h (own, hin) (s # lifted) = take_lifted h (own, hin) lifted" by (simp add: take_lifted_def)
    moreover obtain new where "take_lifted h (own, hin) lifted = (own @ map (\<lambda>s. (sid (obj h s), s)) new, hin @ new)"
      "set new \<subseteq> set lifted" "ids_of h lifted \<subseteq> fst ` set own \<union> ids_of h new" using Cons by blast
    ultimately show ?thesis using True by (intro exI [of _ new]) auto
  next
    case False
    let ?own = "own @ [(sid (obj h s), s)]" and ?hin = "hin @ [s]"
    from False have "take_lifted h (own, hin) (s # lifted) = take_lifted h (?own, ?hin) lifted" by (simp add: take_lifted_def)
    moreover obtain new where "take_lifted h (?own, ?hin) lifted = (?own @ map (\<lambda>s. (sid (obj h s), s)) new, ?hin @ new)"
      "set new \<subseteq> set lifted" "ids_of h lifted \<subseteq> fst ` set ?own \<union> ids_of h new" using Cons by blast
    ultimately show ?thesis by (intro exI [of _ "s # new"]) auto
  qed
qed (simp add: take_lifted_def)

text \<open>The children, one after the other.\<close>

definition take_children ::
  "heap \<Rightarrow> (field_plan \<Rightarrow> (object_plan \<times> ref list) option) \<Rightarrow> field_plan list
   \<Rightarrow> field_plan list \<times> steps_by_id \<times> ref list \<Rightarrow> field_plan list \<times> steps_by_id \<times> ref list" where
  "take_children h hoisted fs acc =
     foldl (\<lambda>acc fp. case acc of (new_fields, st) \<Rightarrow>
        case hoisted fp of
          None \<Rightarrow> (new_fields @ [fp], st)
        | Some (rebuilt, lifted) \<Rightarrow> (new_fields @ [with_child fp rebuilt], take_lifted h st lifted)) acc fs"

definition rebuilt_field :: "(field_plan \<Rightarrow> (object_plan \<times> ref list) option) \<Rightarrow> field_plan \<Rightarrow> field_plan" where
  "rebuilt_field hoisted fp = (case hoisted fp of None \<Rightarrow> fp | Some (rebuilt, lifted) \<Rightarrow> with_child fp rebuilt)"

lemma take_children_spec:
  "\<exists>new. take_children h hoisted fs (nf, own, hin)
       = (nf @ map (rebuilt_field hoisted) fs, own @ map (\<lambda>s. (sid (obj h s), s)) new, hin @ new)
     \<and> (\<forall>s \<in> set new. \<exists>fp \<in> set fs. \<exists>r ls. hoisted fp = Some (r, ls) \<and> s \<in> set ls)
     \<and> (\<forall>fp \<in> set fs. \<forall>r ls. hoisted fp = Some (r, ls) \<longrightarrow> ids_of h ls \<subseteq> fst ` set own \<union> ids_of h new)"
proof (induction fs arbitrary: nf own hin)
  case (Cons fp fs)
  show ?case
  proof (cases "hoisted fp")
    case None
    then have "take_children h hoisted (fp # fs) (nf, own, hin) = take_children h hoisted fs (nf @ [fp], own, hin)"
      by (simp add: take_children_def)
    moreover obtain new where "take_children h hoisted fs (nf @ [fp], own, hin)
       = ((nf @ [fp]) @ map (rebuilt_field hoisted) fs, own @ map (\<lambda>s. (sid (obj h s), s)) new, hin @ new)"
      "\<forall>s \<in> set new. \<exists>fp \<in> set fs. \<exists>r ls. hoisted fp = Some (r, ls) \<and> s \<in> set ls"
      "\<forall>fp \<in> set fs. \<forall>r ls. hoisted fp = Some (r, ls) \<longrightarrow> ids_of h ls \<subseteq> fst ` set own \<union> ids_of h new"
      using Cons by blast
    ultimately show ?thesis using None by (intro exI [of _ new]) (auto simp: rebuilt_field_def)
  next
    case (Some x)
    then obtain r ls where x: "hoisted fp = Some (r, ls)" by (cases x) auto
    obtain new1 where n1: "take_lifted h (own, hin) ls = (own @ map (\<lambda>s. (sid (obj h s), s)) new1, hin @ new1)"
      "set new1 \<subseteq> set ls" "ids_of h ls \<subseteq> fst ` set own \<union> ids_of h new1" using take_lifted_spec by blast
    let ?own = "own @ map (\<lambda>s. (sid (obj h s), s)) new1" and ?hin = "hin @ new1" and ?nf = "nf @ [with_child fp r]"
    have "take_children h hoisted (fp # fs) (nf, own, hin) = take_children h hoisted fs (?nf, ?own, ?hin)"
      using x n1(1) by (simp add: take_children_def)
    moreover obtain new2 where n2: "take_children h hoisted fs (?nf, ?own, ?hin)
       = (?nf @ map (rebuilt_field hoisted) fs, ?own @ map (\<lambda>s. (sid (obj h s), s)) new2, ?hin @ new2)"
      "\<forall>s \<in> set new2. \<exists>fp \<in> set fs. \<exists>r ls. hoisted fp = Some (r, ls) \<and> s \<in> set ls"
      "\<forall>fp \<in> set fs. \<forall>r ls. hoisted fp = Some (r, ls) \<longrightarrow> ids_of h ls \<subseteq> fst ` set ?own \<union> ids_of h new2"
      using Cons by blast
    ultimately have "take_children h hoisted (fp # fs) (nf, own, hin)
       = (nf @ map (rebuilt_field hoisted) (fp # fs), own @ map (\<lambda>s. (sid (obj h s), s)) (new1 @ new2), hin @ new1 @ new2)"
      using x by (simp add: rebuilt_field_def)
    moreover have "\<forall>s \<in> set (new1 @ new2). \<exists>fp' \<in> set (fp # fs). \<exists>r ls. hoisted fp' = Some (r, ls) \<and> s \<in> set ls"
      using x n1(2) n2(2) by auto
    moreover have "\<forall>fp' \<in> set (fp # fs). \<forall>r ls. hoisted fp' = Some (r, ls) \<longrightarrow> ids_of h ls \<subseteq> fst ` set own \<union> ids_of h (new1 @ new2)"
    proof (intro ballI allI impI)
      fix fp' r' ls'
      assume fp': "fp' \<in> set (fp # fs)" and h': "hoisted fp' = Some (r', ls')"
      have own: "fst ` set ?own = fst ` set own \<union> ids_of h new1" by (auto simp: image_Un image_image)
      show "ids_of h ls' \<subseteq> fst ` set own \<union> ids_of h (new1 @ new2)"
      proof (cases "fp' \<in> set fs")
        case True
        with n2(3) h' have "ids_of h ls' \<subseteq> fst ` set ?own \<union> ids_of h new2" by blast
        then show ?thesis unfolding own by auto
      next
        case False
        with fp' h' x n1(3) show ?thesis by auto
      qed
    qed
    ultimately show ?thesis by blast
  qed
qed (simp add: take_children_def)

text \<open>A step the layer owned is lifted out or still reached without crossing what was.\<close>

lemma lifted_or_here:
  assumes h: "planned h S" and own: "keyed h S own" and ok: "lifted_ok h avail own out ids"
    and r: "r \<in> reach h (\<lambda>r. sid (obj h r) \<in> avail \<union> P) ts" and ts: "ts \<subseteq> ts'" "ts' \<subseteq> S"
  shows "r \<in> S \<and> (sid (obj h r) \<in> ids \<or> r \<in> reach h (\<lambda>r. sid (obj h r) \<in> P \<union> ids) ts')"
  using r
proof induction
  case (reach_target r)
  then show ?case using ts by (auto intro: reach.reach_target)
next
  case (reach_dep r d)
  have d: "d \<in> S" using h reach_dep.hyps(2) reach_dep.IH unfolding planned_def by blast
  show ?case
  proof (cases "sid (obj h d) \<in> ids")
    case False
    have "sid (obj h r) \<notin> ids"
    proof
      assume "sid (obj h r) \<in> ids"
      with ok obtain s where s: "s \<in> set out" "sid (obj h r) = sid (obj h s)" by (auto simp: lifted_ok_def)
      with ok own have "s \<in> S" by (fastforce simp: lifted_ok_def keyed_def)
      with same_id [OF h, of r s] s(2) reach_dep.IH have "r = s" by simp
      with ok s(1) have "is_hoistable h r (avail \<union> ids)" unfolding lifted_ok_def by blast
      with reach_dep.hyps(2,3) False show False by (auto simp: is_hoistable_def split: if_splits)
    qed
    with reach_dep.IH have "r \<in> reach h (\<lambda>r. sid (obj h r) \<in> P \<union> ids) ts'" by blast
    with reach_dep.hyps(2,3) False d show ?thesis by (auto intro: reach.reach_dep)
  qed (use d in simp)
qed

lemma hoist_layer_children:
  "hoist_layer h available_above is_top (Object_Plan t fs l) =
     (let here_boundary = available_above \<union> parent_ids h l;
          own0 = own_steps h fs l here_boundary;
          hoisted = (\<lambda>fp. map_option (\<lambda>p. hoist_layer h
            ((here_boundary \<union> fst ` set own0) - parent_ids h (op_layer p)) False p) (child_plan fp))
      in case take_children h hoisted fs ([], own0, l_hoisted_in l) of
           (new_fields, own, hoisted_in) \<Rightarrow>
             (case (if is_top then ([], {}) else lift_loop h available_above own [] {}) of
                (lift_out, lift_out_ids) \<Rightarrow>
                  (Object_Plan t new_fields
                     (l\<lparr>l_hoisted_in := filter (\<lambda>s. sid (obj h s) \<notin> lift_out_ids) hoisted_in,
                        l_hoisted_out := l_hoisted_out l \<union> lift_out_ids\<rparr>), lift_out)))"
proof -
  have "(\<lambda>acc fp. case acc of (new_fields, st) \<Rightarrow>
             case child_plan fp of
               None \<Rightarrow> (new_fields @ [fp], st)
             | Some p \<Rightarrow>
                 (case hoist_layer h (A - parent_ids h (op_layer p)) False p of
                    (rebuilt, lifted) \<Rightarrow> (new_fields @ [with_child fp rebuilt], take_lifted h st lifted)))
      = (\<lambda>acc fp. case acc of (new_fields, st) \<Rightarrow>
        case map_option (\<lambda>p. hoist_layer h (A - parent_ids h (op_layer p)) False p) (child_plan fp) of
          None \<Rightarrow> (new_fields @ [fp], st)
        | Some (rebuilt, lifted) \<Rightarrow> (new_fields @ [with_child fp rebuilt], take_lifted h st lifted))" for A
    by (intro ext) (simp split: option.split prod.split)
  then show ?thesis unfolding hoist_layer.simps take_children_def Let_def by (simp only:)
qed

definition hoisted_ok :: "heap \<Rightarrow> ref set \<Rightarrow> bool \<Rightarrow> object_plan \<times> ref list \<Rightarrow> bool" where
  "hoisted_ok h S is_top r \<longleftrightarrow> tree_ok True h S (fst r) \<and> l_hoisted_out (op_layer (fst r)) = ids_of h (snd r)
     \<and> set (snd r) \<subseteq> S \<and> (is_top \<longrightarrow> snd r = [])"

lemma hoist_layer_ok:
  "planned h S \<Longrightarrow> tree_ok False h S p \<Longrightarrow> hoisted_ok h S is_top (hoist_layer h avail is_top p)"
proof (induction h avail is_top p rule: hoist_layer.induct)
  case (1 h avail is_top t fs l)
  note h = "1.prems"(1)
  note l = tree_ok_layer [OF "1.prems"(2)] and fps = tree_ok_field(1) [OF "1.prems"(2)]
    and children = tree_ok_field(2) [OF "1.prems"(2)]
  let ?P = "parent_ids h l"
  let ?B = "avail \<union> ?P"
  let ?targets = "field_steps fs @ l_effects l"
  let ?base = "own_steps h fs l ?B"
  let ?hoisted = "\<lambda>fp. map_option (\<lambda>p. hoist_layer h ((?B \<union> fst ` set ?base) - parent_ids h (op_layer p)) False p) (child_plan fp)"
  let ?fs = "map (rebuilt_field ?hoisted) fs"
  have IH: "hoisted_ok h S False r" if "fp \<in> set fs" "?hoisted fp = Some r" for fp r
  proof -
    from that(2) obtain p where p: "child_plan fp = Some p"
      "r = hoist_layer h ((?B \<union> fst ` set ?base) - parent_ids h (op_layer p)) False p" by auto
    have "tree_ok False h S p" using children [OF that(1) p(1)] by blast
    with "1.IH" [OF refl refl refl that(1) refl p(1) h] show ?thesis unfolding p(2) .
  qed
  obtain new where tc: "take_children h ?hoisted fs ([], ?base, []) = (?fs, ?base @ map (\<lambda>s. (sid (obj h s), s)) new, new)"
    and new: "\<forall>s \<in> set new. \<exists>fp \<in> set fs. \<exists>r ls. ?hoisted fp = Some (r, ls) \<and> s \<in> set ls"
    and lifts: "\<forall>fp \<in> set fs. \<forall>r ls. ?hoisted fp = Some (r, ls) \<longrightarrow> ids_of h ls \<subseteq> fst ` set ?base \<union> ids_of h new"
    using take_children_spec [of h ?hoisted fs "[]" ?base "[]"] by (elim exE conjE) (simp only: append_Nil)
  let ?own = "?base @ map (\<lambda>s. (sid (obj h s), s)) new"
  have fh: "set (field_steps fs) \<subseteq> S" using fps by (intro field_steps_planned) blast
  then have th: "set ?targets \<subseteq> S" using l(2) by simp
  note oh = ordered_planned [OF h th, of ?B]
  have own0: "keyed h S ?base" "fst ` set ?base = ids_of h (order_steps_within h ?targets ?B)"
    using own_steps_keyed [OF oh, where d = "[]" and h = h] l(1) by (auto simp: own_steps_def keyed_def)
  have nh: "set new \<subseteq> S"
  proof
    fix s
    assume "s \<in> set new"
    with new obtain fp r ls where "fp \<in> set fs" "?hoisted fp = Some (r, ls)" "s \<in> set ls" by blast
    with IH [of fp "(r, ls)"] show "s \<in> S" by (auto simp: hoisted_ok_def)
  qed
  have own: "keyed h S ?own" using own0(1) nh by (auto simp: keyed_def)
  obtain out ids where lo: "(if is_top then ([], {}) else lift_loop h avail ?own [] {}) = (out, ids)" by fastforce
  have ok: "lifted_ok h avail ?own out ids" and top: "is_top \<Longrightarrow> out = []"
    using lo lift_loop_ok [OF own, of avail "[]" "{}" out ids] by (auto simp: lifted_ok_def split: if_splits)
  have ids: "ids = ids_of h out" using ok by (simp add: lifted_ok_def)
  have outh: "set out \<subseteq> S"
    using ok own unfolding lifted_ok_def keyed_def by fastforce
  let ?l = "l\<lparr>l_hoisted_in := filter (\<lambda>s. sid (obj h s) \<notin> ids) new, l_hoisted_out := ids\<rparr>"
  have res: "hoist_layer h avail is_top (Object_Plan t fs l) = (Object_Plan t ?fs ?l, out)"
    unfolding hoist_layer_children Let_def using l(5) tc lo by simp
  have step: "fp_step (rebuilt_field ?hoisted fp) = fp_step fp" for fp
    by (simp add: rebuilt_field_def split: option.split prod.split)
  then have steps: "field_steps ?fs = field_steps fs" by (rule field_steps_map)
  let ?run = "field_steps fs @ l_effects l @ filter (\<lambda>s. sid (obj h s) \<notin> ids) new"
  have runh: "set ?run \<subseteq> S" using fh l(2) nh by auto
  have ac: "acyclic_heap h" using h by (rule planned_acyclic)
  have cols: "layer_columns h ?fs ?l = ?P \<union> ids \<union> ids_of h (order_steps_within h ?run (?P \<union> ids))"
    unfolding layer_columns_def steps by (simp add: parent_ids_def)
  have has: "i \<in> layer_columns h ?fs ?l" if i: "i \<in> fst ` set ?base \<union> ids_of h new" for i
    using i
  proof
    assume "i \<in> fst ` set ?base"
    then obtain r where r: "r \<in> reach h (\<lambda>r. sid (obj h r) \<in> ?B) (set ?targets)" "i = sid (obj h r)"
      unfolding own0(2) bucket_order.order_set [OF ac] by blast
    have "set ?targets \<subseteq> set ?run" by auto
    from lifted_or_here [OF h own ok r(1) this runh]
    show ?thesis unfolding cols bucket_order.order_set [OF ac] r(2) by blast
  next
    assume "i \<in> ids_of h new"
    then obtain s where s: "s \<in> set new" "i = sid (obj h s)" by blast
    show ?thesis
    proof (cases "i \<in> ?P \<union> ids")
      case False
      with s have "s \<in> set ?run" by simp
      from bucket_order.order_targets [OF ac this, of "?P \<union> ids"] False s(2) show ?thesis unfolding cols by blast
    qed (use cols in blast)
  qed
  have fields: "(case fp_step (rebuilt_field ?hoisted fp) of None \<Rightarrow> False | Some s \<Rightarrow> s \<in> S)
      \<and> abstract_ready h S (fp_completer (rebuilt_field ?hoisted fp))
      \<and> (case child_plan (rebuilt_field ?hoisted fp) of
           None \<Rightarrow> True
         | Some q \<Rightarrow> l_hoisted_out (op_layer q) \<subseteq> layer_columns h ?fs ?l \<and> tree_ok True h S q)" if fp: "fp \<in> set fs" for fp
  proof (cases "child_plan fp")
    case None
    then have "rebuilt_field ?hoisted fp = fp" by (simp add: rebuilt_field_def)
    with None fps [OF fp] show ?thesis by simp
  next
    case (Some p)
    then obtain x where x: "?hoisted fp = Some x" by simp
    obtain r ls where "x = (r, ls)" by (rule prod.exhaust)
    with x have rl: "?hoisted fp = Some (r, ls)" by (simp only:)
    then have g: "rebuilt_field ?hoisted fp = with_child fp r" unfolding rebuilt_field_def by (simp only: option.case prod.case)
    have r: "tree_ok True h S r" "l_hoisted_out (op_layer r) = ids_of h ls" using IH [OF fp rl] by (simp_all add: hoisted_ok_def)
    have "ids_of h ls \<subseteq> fst ` set ?base \<union> ids_of h new" using lifts [rule_format, OF fp rl] .
    then have "l_hoisted_out (op_layer r) \<subseteq> layer_columns h ?fs ?l"
      unfolding r(2) by (intro subsetI) (rule has, erule (1) subsetD)
    with r(1) fps [OF fp] child_plan_with_child [OF Some, of r] show ?thesis unfolding g by simp
  qed
  have "\<forall>fp \<in> set ?fs. (case fp_step fp of None \<Rightarrow> False | Some s \<Rightarrow> s \<in> S)
      \<and> abstract_ready h S (fp_completer fp)
      \<and> (case child_plan fp of
           None \<Rightarrow> True
         | Some q \<Rightarrow> l_hoisted_out (op_layer q) \<subseteq> layer_columns h ?fs ?l \<and> tree_ok True h S q)"
  proof
    fix fp'
    assume "fp' \<in> set ?fs"
    then obtain fp where fp: "fp \<in> set fs" and eq: "fp' = rebuilt_field ?hoisted fp" unfolding set_map by (rule imageE)
    show "(case fp_step fp' of None \<Rightarrow> False | Some s \<Rightarrow> s \<in> S) \<and> abstract_ready h S (fp_completer fp')
      \<and> (case child_plan fp' of
           None \<Rightarrow> True
         | Some q \<Rightarrow> l_hoisted_out (op_layer q) \<subseteq> layer_columns h ?fs ?l \<and> tree_ok True h S q)"
      unfolding eq by (rule fields [OF fp])
  qed
  moreover have "set (filter (\<lambda>s. sid (obj h s) \<notin> ids) new) \<subseteq> S" using nh by auto
  moreover have "finite ids" by (simp add: ids)
  ultimately have "tree_ok True h S (Object_Plan t ?fs ?l)" using l(1,2) by (simp only: tree_ok.simps) simp
  with ids outh top show ?case unfolding res by (simp add: hoisted_ok_def)
qed

section \<open>The planner's tree\<close>

fun no_plans :: "completer \<Rightarrow> bool" where
  "no_plans (NonNull_C c) = no_plans c"
| "no_plans (List_C c) = no_plans c"
| "no_plans (Abstract_C t plans) = (plans = [])"
| "no_plans c = True"

text \<open>
  The tree as the planner leaves it, its steps satisfying \<open>P\<close>: every layer has its boundary, every
  field its step, no pass has run and no concrete type was met yet.
\<close>

function planner_tree :: "(ref \<Rightarrow> bool) \<Rightarrow> object_plan \<Rightarrow> bool" where
  "planner_tree P (Object_Plan t fs l) =
     ((case l_parent l of None \<Rightarrow> False | Some b \<Rightarrow> P b) \<and> l_effects l = [] \<and> l_hoisted_in l = [] \<and> l_hoisted_out l = {}
      \<and> (\<forall>fp \<in> set fs. (case fp_step fp of None \<Rightarrow> False | Some s \<Rightarrow> P s) \<and> no_plans (fp_completer fp)
           \<and> (case child_plan fp of None \<Rightarrow> True | Some q \<Rightarrow> planner_tree P q)))"
  by pat_completeness auto
termination by (relation "measure (\<lambda>(P, p). size p)") (auto intro: child_plan_in_size)

lemma planner_tree_layer:
  assumes "planner_tree P (Object_Plan t fs l)"
  shows "\<exists>b. l_parent l = Some b \<and> P b" "l_effects l = []" "l_hoisted_in l = []" "l_hoisted_out l = {}"
  using assms by (auto split: option.splits)

lemma planner_tree_field:
  assumes "planner_tree P (Object_Plan t fs l)" and "fp \<in> set fs"
  shows "\<exists>s. fp_step fp = Some s \<and> P s" "no_plans (fp_completer fp)" "child_plan fp = Some q \<Longrightarrow> planner_tree P q"
proof -
  have all: "(case fp_step fp of None \<Rightarrow> False | Some s \<Rightarrow> P s) \<and> no_plans (fp_completer fp)
      \<and> (case child_plan fp of None \<Rightarrow> True | Some q \<Rightarrow> planner_tree P q)"
    using assms unfolding planner_tree.simps by blast
  then show "\<exists>s. fp_step fp = Some s \<and> P s" by (cases "fp_step fp") simp_all
  show "no_plans (fp_completer fp)" using all by blast
  show "planner_tree P q" if "child_plan fp = Some q" using all that by simp
qed

lemma planner_tree_intro:
  assumes "l_parent l = Some b" "P b" "l_effects l = []" "l_hoisted_in l = []" "l_hoisted_out l = {}"
    and "\<And>fp. fp \<in> set fs \<Longrightarrow> \<exists>s. fp_step fp = Some s \<and> P s"
    and "\<And>fp. fp \<in> set fs \<Longrightarrow> no_plans (fp_completer fp)"
    and "\<And>fp q. fp \<in> set fs \<Longrightarrow> child_plan fp = Some q \<Longrightarrow> planner_tree P q"
  shows "planner_tree P (Object_Plan t fs l)"
  using assms(1-5) assms(6-8) by (fastforce split: option.split)

declare planner_tree.simps [simp del]

lemma plan_size_induct [case_names plan]:
  assumes "\<And>t fs l. (\<And>fp q. fp \<in> set fs \<Longrightarrow> child_plan fp = Some q \<Longrightarrow> P q) \<Longrightarrow> P (Object_Plan t fs l)"
  shows "P p"
proof (induction p rule: measure_induct_rule [of size])
  case (less p)
  obtain t fs l where p: "p = Object_Plan t fs l" by (rule object_plan.exhaust)
  show ?case unfolding p
    by (rule assms) (use less child_plan_in_size p in simp)
qed

lemma planner_tree_mono: "planner_tree P p \<Longrightarrow> (\<And>r. P r \<Longrightarrow> Q r) \<Longrightarrow> planner_tree Q p"
proof (induction p rule: plan_size_induct)
  case (plan t fs l)
  from planner_tree_layer(1) [OF plan.prems(1)] obtain b where "l_parent l = Some b" "P b" by blast
  then show ?case
    using planner_tree_layer(2-4) [OF plan.prems(1)] planner_tree_field [OF plan.prems(1)] plan
    by (intro planner_tree_intro [of l b]) blast+
qed

lemma planner_tree_both: "planner_tree P p \<Longrightarrow> planner_tree Q p \<Longrightarrow> planner_tree (\<lambda>r. P r \<and> Q r) p"
proof (induction p rule: plan_size_induct)
  case (plan t fs l)
  from planner_tree_layer(1) [OF plan.prems(1)] planner_tree_layer(1) [OF plan.prems(2)]
  obtain b where "l_parent l = Some b" "P b \<and> Q b" by auto
  then show ?case
    using planner_tree_layer(2-4) [OF plan.prems(1)] planner_tree_field [OF plan.prems(1)] planner_tree_field [OF plan.prems(2)] plan.IH
    by (intro planner_tree_intro [of l b]) (blast | force)+
qed

lemma no_plans_attach [simp]: "no_plans (attach_child_plan c q) = no_plans c"
  by (induction c q rule: attach_child_plan.induct) auto

lemma no_plans_ready: "no_plans c \<Longrightarrow> abstract_ready h S c"
  by (induction c rule: no_plans.induct) auto

lemma child_plan_with_step [simp]:
  "child_plan (with_step fp s) = child_plan fp" "fp_step (with_step fp s) = s" "fp_name (with_step fp s) = fp_name fp"
  "fp_completer (with_step fp s) = fp_completer fp" "fp_label (with_step fp s) = fp_label fp"
  by (simp_all add: child_plan_def with_step_def)

lemma planner_tree_ok: "planner_tree (\<lambda>r. r \<in> S) p \<Longrightarrow> tree_ok False h S p"
proof (induction p rule: plan_size_induct)
  case (plan t fs l)
  have "tree_ok False h S q \<and> l_hoisted_out (op_layer q) = {}" if "fp \<in> set fs" "child_plan fp = Some q" for fp q
    using plan.IH [OF that] planner_tree_field(3) [OF plan.prems that] planner_tree_layer(4) by (cases q) fastforce
  then show ?case
    using planner_tree_layer [OF plan.prems] planner_tree_field(1,2) [OF plan.prems] no_plans_ready
    by (fastforce split: option.split)
qed

section \<open>Remapping\<close>

lemma remap_planner_tree:
  assumes "\<And>r. P r \<Longrightarrow> Q (case map_of m (sid (obj h r)) of None \<Rightarrow> r | Some s \<Rightarrow> s)"
  shows "planner_tree P p \<Longrightarrow> planner_tree Q (remap_object_plan h m p)"
proof (induction p rule: plan_size_induct)
  case (plan t fs l)
  let ?child = "\<lambda>fp. case child_plan fp of None \<Rightarrow> fp | Some p \<Rightarrow> with_child fp (remap_object_plan h m p)"
  let ?g = "\<lambda>fp. with_step (?child fp) (remap_ref h m (fp_step fp))"
  obtain b where b: "l_parent l = Some b" "P b" using planner_tree_layer(1) [OF plan.prems] by blast
  note layer = planner_tree_layer(2-4) [OF plan.prems]
  have "planner_tree Q (Object_Plan t (map ?g fs) (l\<lparr>l_parent := remap_ref h m (l_parent l)\<rparr>))"
  proof (rule planner_tree_intro)
    show "l_parent (l\<lparr>l_parent := remap_ref h m (l_parent l)\<rparr>) = Some (case map_of m (sid (obj h b)) of None \<Rightarrow> b | Some s \<Rightarrow> s)"
      by (simp add: b)
    show "Q (case map_of m (sid (obj h b)) of None \<Rightarrow> b | Some s \<Rightarrow> s)" using b(2) by (rule assms)
    fix fp'
    assume "fp' \<in> set (map ?g fs)"
    then obtain fp where fp: "fp \<in> set fs" and fp': "fp' = ?g fp" unfolding set_map by (rule imageE)
    from planner_tree_field(1) [OF plan.prems fp] obtain s where s: "fp_step fp = Some s" "P s" by blast
    show "\<exists>s. fp_step fp' = Some s \<and> Q s"
      unfolding fp' using assms [OF s(2)] by (simp add: s(1))
    show "no_plans (fp_completer fp')"
      unfolding fp' using planner_tree_field(2) [OF plan.prems fp] by (simp split: option.split)
    fix q
    assume q: "child_plan fp' = Some q"
    show "planner_tree Q q"
    proof (cases "child_plan fp")
      case None
      with q fp' show ?thesis by simp
    next
      case (Some p)
      with q have "q = remap_object_plan h m p" unfolding fp' using child_plan_with_child by simp
      with plan.IH [OF fp Some] planner_tree_field(3) [OF plan.prems fp Some] show ?thesis by simp
    qed
  qed (simp_all add: layer)
  then show ?case by (simp add: Let_def)
qed

section \<open>Consumption roots\<close>

lemma add_by_id_keyed:
  "keyed h S d \<Longrightarrow> s \<in> S \<Longrightarrow> keyed h S (add_by_id h d s) \<and> fst ` set (add_by_id h d s) = insert (sid (obj h s)) (fst ` set d)"
  using set_dict_set [of d "sid (obj h s)" s] keys_dict_set [of d "sid (obj h s)" s]
  by (auto simp: keyed_def add_by_id_def)

lemma collect_roots_spec:
  assumes "keyed h S seen" and "planner_tree (\<lambda>r. r \<in> S) p"
  shows "keyed h S (collect_roots h p seen) \<and> fst ` set seen \<subseteq> fst ` set (collect_roots h p seen)
    \<and> planner_tree (\<lambda>r. sid (obj h r) \<in> fst ` set (collect_roots h p seen)) p"
  using assms
proof (induction p arbitrary: seen rule: plan_size_induct)
  case (plan t fs l)
  let ?ids = "\<lambda>d. fst ` set d"
  let ?f = "\<lambda>seen fp. let seen' = (case fp_step fp of None \<Rightarrow> seen | Some s \<Rightarrow> add_by_id h seen s)
         in case child_plan fp of None \<Rightarrow> seen' | Some p \<Rightarrow> collect_roots h p seen'"
  have fold: "keyed h S (foldl ?f d gs) \<and> ?ids d \<subseteq> ?ids (foldl ?f d gs)
      \<and> (\<forall>fp \<in> set gs. (\<forall>s. fp_step fp = Some s \<longrightarrow> sid (obj h s) \<in> ?ids (foldl ?f d gs))
           \<and> (\<forall>q. child_plan fp = Some q \<longrightarrow> planner_tree (\<lambda>r. sid (obj h r) \<in> ?ids (foldl ?f d gs)) q))"
    if "keyed h S d" "set gs \<subseteq> set fs" for d gs
    using that
  proof (induction gs arbitrary: d)
    case (Cons fp gs)
    then have fp: "fp \<in> set fs" by simp
    from planner_tree_field(1) [OF plan.prems(2) fp] obtain s where s: "fp_step fp = Some s" "s \<in> S" by blast
    note d1 = add_by_id_keyed [OF Cons.prems(1) s(2)]
    have d2: "keyed h S (?f d fp) \<and> ?ids (add_by_id h d s) \<subseteq> ?ids (?f d fp)
        \<and> (\<forall>q. child_plan fp = Some q \<longrightarrow> planner_tree (\<lambda>r. sid (obj h r) \<in> ?ids (?f d fp)) q)"
    proof (cases "child_plan fp")
      case None
      with d1 s(1) show ?thesis by simp
    next
      case (Some q)
      with plan.IH [OF fp Some, of "add_by_id h d s"] d1 planner_tree_field(3) [OF plan.prems(2) fp Some] s(1)
      show ?thesis by simp
    qed
    have "set gs \<subseteq> set fs" using Cons.prems(2) by simp
    note d3 = Cons.IH [OF conjunct1 [OF d2] this]
    have sub: "?ids (?f d fp) \<subseteq> ?ids (foldl ?f d (fp # gs))" using d3 by (simp only: foldl_Cons)
    have up: "planner_tree (\<lambda>r. sid (obj h r) \<in> ?ids (foldl ?f d (fp # gs))) q" if "child_plan fp = Some q" for q
    proof -
      from d2 that have "planner_tree (\<lambda>r. sid (obj h r) \<in> ?ids (?f d fp)) q" by blast
      then show ?thesis by (rule planner_tree_mono) (rule subsetD [OF sub])
    qed
    have "sid (obj h s) \<in> ?ids (foldl ?f d (fp # gs))" and "?ids d \<subseteq> ?ids (foldl ?f d (fp # gs))"
    proof -
      have "?ids (add_by_id h d s) \<subseteq> ?ids (foldl ?f d (fp # gs))"
        using conjunct1 [OF conjunct2 [OF d2]] sub by (rule subset_trans)
      moreover have "?ids (add_by_id h d s) = insert (sid (obj h s)) (?ids d)" using d1 by (rule conjunct2)
      ultimately show "sid (obj h s) \<in> ?ids (foldl ?f d (fp # gs))" and "?ids d \<subseteq> ?ids (foldl ?f d (fp # gs))"
        by (simp_all only: insert_subset)
    qed
    note head = this
    show ?case
    proof (intro conjI ballI)
      show "keyed h S (foldl ?f d (fp # gs))" using d3 unfolding foldl_Cons by blast
      show "?ids d \<subseteq> ?ids (foldl ?f d (fp # gs))" by (rule head(2))
      fix fp'
      assume fp': "fp' \<in> set (fp # gs)"
      have tail: "(\<forall>s. fp_step fp' = Some s \<longrightarrow> sid (obj h s) \<in> ?ids (foldl ?f d (fp # gs)))
          \<and> (\<forall>q. child_plan fp' = Some q \<longrightarrow> planner_tree (\<lambda>r. sid (obj h r) \<in> ?ids (foldl ?f d (fp # gs))) q)"
        if "fp' \<in> set gs"
        unfolding foldl_Cons using d3 that by blast
      show "\<forall>s. fp_step fp' = Some s \<longrightarrow> sid (obj h s) \<in> ?ids (foldl ?f d (fp # gs))"
        using fp' tail head(1) s(1) by (cases "fp' \<in> set gs") (blast, force)
      show "\<forall>q. child_plan fp' = Some q \<longrightarrow> planner_tree (\<lambda>r. sid (obj h r) \<in> ?ids (foldl ?f d (fp # gs))) q"
        using fp' tail up by (cases "fp' \<in> set gs") (blast, force)
    qed
  qed simp
  obtain b where b: "l_parent l = Some b" "b \<in> S" using planner_tree_layer(1) [OF plan.prems(2)] by blast
  note d0 = add_by_id_keyed [OF plan.prems(1) b(2)]
  let ?d = "foldl ?f (add_by_id h seen b) fs"
  note all = fold [OF conjunct1 [OF d0] subset_refl]
  have sub: "?ids (add_by_id h seen b) \<subseteq> ?ids ?d" using all by (rule conjunct1 [OF conjunct2])
  have fps: "(\<forall>s. fp_step fp = Some s \<longrightarrow> sid (obj h s) \<in> ?ids ?d)
      \<and> (\<forall>q. child_plan fp = Some q \<longrightarrow> planner_tree (\<lambda>r. sid (obj h r) \<in> ?ids ?d) q)" if "fp \<in> set fs" for fp
    using conjunct2 [OF conjunct2 [OF all]] that by (rule bspec)
  have res: "collect_roots h (Object_Plan t fs l) seen = ?d" by (simp add: b(1))
  have "planner_tree (\<lambda>r. sid (obj h r) \<in> ?ids ?d) (Object_Plan t fs l)"
  proof (rule planner_tree_intro [OF b(1)])
    show "sid (obj h b) \<in> ?ids ?d" using d0 sub by (simp only: insert_subset)
    fix fp
    assume fp: "fp \<in> set fs"
    from planner_tree_field(1) [OF plan.prems(2) fp] fps [OF fp]
    show "\<exists>s. fp_step fp = Some s \<and> sid (obj h s) \<in> ?ids ?d" by blast
    show "no_plans (fp_completer fp)" by (rule planner_tree_field(2) [OF plan.prems(2) fp])
    show "planner_tree (\<lambda>r. sid (obj h r) \<in> ?ids ?d) q" if "child_plan fp = Some q" for q
      using conjunct2 [OF fps [OF fp]] that by simp
  qed (rule planner_tree_layer(2-4) [OF plan.prems(2)])+
  moreover have "?ids seen \<subseteq> ?ids ?d" using d0 sub by (simp only: insert_subset)
  ultimately show ?case using all unfolding res by (intro conjI) (rule conjunct1, assumption+)
qed

section \<open>The selection is kept\<close>

text \<open>Two plans that make the same responses.\<close>

definition same_selection :: "object_plan \<Rightarrow> object_plan \<Rightarrow> bool" where
  "same_selection p q \<longleftrightarrow> (\<forall>v. object_conforms p v = object_conforms q v) \<and> plan_named p = plan_named q"

lemma same_selection_refl [simp]: "same_selection p p"
  by (simp add: same_selection_def)

lemma same_selection_trans: "same_selection p q \<Longrightarrow> same_selection q r \<Longrightarrow> same_selection p r"
  by (simp add: same_selection_def)

lemma attach_same:
  assumes "same_selection q p"
  shows "find_object_completer c = Some (n, Some p) \<Longrightarrow> conforms (attach_child_plan c q) v = conforms c v"
    and "find_object_completer c = Some (n, Some p) \<Longrightarrow> completer_named (attach_child_plan c q) = completer_named c"
  using assms
  by (induction c arbitrary: v rule: find_object_completer.induct) (auto simp: same_selection_def split: pyval.splits)

lemma same_fields:
  assumes "\<And>fp. fp \<in> set fs \<Longrightarrow> fp_name (g fp) = fp_name fp"
    and "\<And>fp v. fp \<in> set fs \<Longrightarrow> conforms (fp_completer (g fp)) v = conforms (fp_completer fp) v"
    and "\<And>fp. fp \<in> set fs \<Longrightarrow> completer_named (fp_completer (g fp)) = completer_named (fp_completer fp)"
  shows "same_selection (Object_Plan t (map g fs) l') (Object_Plan t fs l)"
proof -
  have names: "map fp_name (map g fs) = map fp_name fs" using assms(1) by simp
  then have "fp_name ` set (map g fs) = fp_name ` set fs" by (metis list.set_map)
  moreover have "(\<forall>fp \<in> set (map g fs). case map_of d (fp_name fp) of None \<Rightarrow> False | Some w \<Rightarrow> conforms (fp_completer fp) w)
      = (\<forall>fp \<in> set fs. case map_of d (fp_name fp) of None \<Rightarrow> False | Some w \<Rightarrow> conforms (fp_completer fp) w)" for d
    unfolding set_map ball_simps using assms(1,2) by (intro ball_cong refl) (simp split: option.split)
  ultimately have "object_conforms (Object_Plan t (map g fs) l') v = object_conforms (Object_Plan t fs l) v" for v
    by (simp only: object_conforms.simps)
  moreover have "plan_named (Object_Plan t (map g fs) l') = plan_named (Object_Plan t fs l)"
    unfolding plan_named.simps names using assms(3) by simp
  ultimately show ?thesis by (simp add: same_selection_def)
qed

lemma same_children:
  assumes "\<And>fp q. fp \<in> set fs \<Longrightarrow> child_plan fp = Some q \<Longrightarrow> same_selection (r q) q"
    and "\<And>fp. fp \<in> set fs \<Longrightarrow> fp_name (k fp) = fp_name fp \<and> fp_completer (k fp)
           = fp_completer (case child_plan fp of None \<Rightarrow> fp | Some q \<Rightarrow> with_child fp (r q))"
  shows "same_selection (Object_Plan t (map k fs) l') (Object_Plan t fs l)"
proof (rule same_fields)
  fix fp v
  assume fp: "fp \<in> set fs"
  then show "fp_name (k fp) = fp_name fp" using assms(2) by blast
  show "conforms (fp_completer (k fp)) v = conforms (fp_completer fp) v"
  proof (cases "child_plan fp")
    case (Some q)
    then obtain n where "find_object_completer (fp_completer fp) = Some (n, Some q)" using child_plan_completer by blast
    from attach_same(1) [OF assms(1) [OF fp Some] this, of v] show ?thesis using assms(2) [OF fp] Some by simp
  qed (use assms(2) [OF fp] in simp)
  show "completer_named (fp_completer (k fp)) = completer_named (fp_completer fp)"
  proof (cases "child_plan fp")
    case (Some q)
    then obtain n where "find_object_completer (fp_completer fp) = Some (n, Some q)" using child_plan_completer by blast
    from attach_same(2) [OF assms(1) [OF fp Some] this] show ?thesis using assms(2) [OF fp] Some by simp
  qed (use assms(2) [OF fp] in simp)
qed

lemma remap_same: "same_selection (remap_object_plan h m p) p"
proof (induction p rule: plan_size_induct)
  case (plan t fs l)
  show ?case unfolding remap_object_plan.simps
    by (rule same_children [of _ "remap_object_plan h m"]) (use plan in \<open>simp_all add: Let_def split: option.split\<close>)
qed

lemma rebuild_same: "same_selection (rebuild_effects h owners p) p"
proof (induction p rule: plan_size_induct)
  case (plan t fs l)
  show ?case unfolding rebuild_effects.simps Let_def
    by (rule same_children [of _ "rebuild_effects h owners"]) (use plan in \<open>simp_all split: option.split\<close>)
qed

lemma populate_same: "same_selection (populate_layers h p) p"
proof (induction p rule: plan_size_induct)
  case (plan t fs l)
  show ?case unfolding populate_layers.simps Let_def
    by (rule same_children [of _ "populate_layers h"]) (use plan in \<open>simp_all split: option.split\<close>)
qed

lemma hoist_same: "same_selection (fst (hoist_layer h avail is_top p)) p"
proof (induction p arbitrary: avail is_top rule: plan_size_induct)
  case (plan t fs l)
  let ?base = "own_steps h fs l (avail \<union> parent_ids h l)"
  let ?above = "(avail \<union> parent_ids h l) \<union> fst ` set ?base"
  let ?hoisted = "\<lambda>fp. map_option (\<lambda>p. hoist_layer h (?above - parent_ids h (op_layer p)) False p) (child_plan fp)"
  obtain own hin where tc: "take_children h ?hoisted fs ([], ?base, l_hoisted_in l) = (map (rebuilt_field ?hoisted) fs, own, hin)"
    using take_children_spec [of h ?hoisted fs "[]" ?base "l_hoisted_in l"] by (elim exE conjE) (simp only: append_Nil)
  have "\<exists>l'. fst (hoist_layer h avail is_top (Object_Plan t fs l)) = Object_Plan t (map (rebuilt_field ?hoisted) fs) l'"
    unfolding hoist_layer_children Let_def tc by (simp split: prod.split)
  then obtain l' where res: "fst (hoist_layer h avail is_top (Object_Plan t fs l)) = Object_Plan t (map (rebuilt_field ?hoisted) fs) l'" by blast
  show ?case unfolding res
  proof (rule same_children [of _ "\<lambda>p. fst (hoist_layer h (?above - parent_ids h (op_layer p)) False p)"])
    fix fp
    show "fp_name (rebuilt_field ?hoisted fp) = fp_name fp \<and> fp_completer (rebuilt_field ?hoisted fp)
        = fp_completer (case child_plan fp of None \<Rightarrow> fp
            | Some q \<Rightarrow> with_child fp (fst (hoist_layer h (?above - parent_ids h (op_layer q)) False q)))"
      by (simp add: rebuilt_field_def case_prod_unfold split: option.split)
  qed (use plan in blast)
qed

section \<open>Orphaned effects\<close>

lemma rebuild_ok:
  assumes "\<forall>(e, i) \<in> set owners. e \<in> S"
  shows "planner_tree (\<lambda>r. r \<in> S) p \<Longrightarrow> tree_ok False h S (rebuild_effects h owners p)
    \<and> l_hoisted_out (op_layer (rebuild_effects h owners p)) = {}"
proof (induction p rule: plan_size_induct)
  case (plan t fs l)
  let ?g = "\<lambda>fp. case child_plan fp of None \<Rightarrow> fp | Some p \<Rightarrow> with_child fp (rebuild_effects h owners p)"
  note layer = planner_tree_layer [OF plan.prems]
  let ?mine = "map fst (filter (\<lambda>(e, i). case l_parent l of None \<Rightarrow> False | Some s \<Rightarrow> i = sid (obj h s)) owners)"
  let ?l = "if ?mine \<noteq> [] then l\<lparr>l_effects := l_effects l @ ?mine\<rparr> else l"
  have mine: "set ?mine \<subseteq> S" using assms by auto
  have res: "rebuild_effects h owners (Object_Plan t fs l) = Object_Plan t (map ?g fs) ?l" by (simp only: rebuild_effects.simps Let_def)
  have l: "l_parent ?l \<noteq> None" "set (l_effects ?l) \<subseteq> S" "l_hoisted_in ?l = []" "l_hoisted_out ?l = {}"
    using layer mine by auto
  have fields: "(case fp_step (?g fp) of None \<Rightarrow> False | Some s \<Rightarrow> s \<in> S) \<and> abstract_ready h S (fp_completer (?g fp))
      \<and> (case child_plan (?g fp) of
           None \<Rightarrow> True
         | Some q \<Rightarrow> l_hoisted_out (op_layer q) \<subseteq> layer_columns h (map ?g fs) ?l \<and> tree_ok False h S q)" if fp: "fp \<in> set fs" for fp
  proof -
    from planner_tree_field(1) [OF plan.prems fp] obtain s where s: "fp_step fp = Some s" "s \<in> S" by blast
    have ar: "abstract_ready h S (fp_completer fp)" using planner_tree_field(2) [OF plan.prems fp] by (rule no_plans_ready)
    show ?thesis
    proof (cases "child_plan fp")
      case None
      with s ar show ?thesis by simp
    next
      case (Some q)
      with plan.IH [OF fp Some planner_tree_field(3) [OF plan.prems fp Some]] s ar child_plan_with_child [OF Some]
      show ?thesis by simp
    qed
  qed
  have "\<forall>fp \<in> set (map ?g fs). (case fp_step fp of None \<Rightarrow> False | Some s \<Rightarrow> s \<in> S) \<and> abstract_ready h S (fp_completer fp)
      \<and> (case child_plan fp of
           None \<Rightarrow> True
         | Some q \<Rightarrow> l_hoisted_out (op_layer q) \<subseteq> layer_columns h (map ?g fs) ?l \<and> tree_ok False h S q)"
  proof
    fix fp'
    assume "fp' \<in> set (map ?g fs)"
    then obtain fp where fp: "fp \<in> set fs" and eq: "fp' = ?g fp" unfolding set_map by (rule imageE)
    show "(case fp_step fp' of None \<Rightarrow> False | Some s \<Rightarrow> s \<in> S) \<and> abstract_ready h S (fp_completer fp')
      \<and> (case child_plan fp' of
           None \<Rightarrow> True
         | Some q \<Rightarrow> l_hoisted_out (op_layer q) \<subseteq> layer_columns h (map ?g fs) ?l \<and> tree_ok False h S q)"
      unfolding eq by (rule fields [OF fp])
  qed
  then have "tree_ok False h S (Object_Plan t (map ?g fs) ?l)"
    unfolding tree_ok.simps using l by (simp only: finite.emptyI empty_subsetI list.set) simp
  with l(4) show ?case unfolding res by simp
qed

lemma owners_total:
  assumes "l_parent (op_layer p) = Some b"
  shows "\<exists>owners. map_res (\<lambda>e. bind_res (deepest_owner_parent_id h p (dependency_ids h e)) (\<lambda>i. Inr (e, i))) es = Inr owners
    \<and> map fst owners = es"
proof (induction es)
  case (Cons e es)
  have "\<exists>i. deepest_owner_parent_id h p (dependency_ids h e) = Inr i" by (simp add: deepest_owner_parent_id_def assms Let_def)
  with Cons show ?case by auto
qed simp

section \<open>Finalizing\<close>

lemma deduplicate_no_dead: "deduplicate p = Some (p', out) \<Longrightarrow> p_dead_ids p' = {}"
  by (auto simp: deduplicate_def Let_def split: option.splits prod.splits)

lemma plan_planned: "plan_inv p \<Longrightarrow> planned (p_heap p) (set (p_steps p))"
  unfolding planned_def plan_inv_def step_id_def [abs_def] by blast

text \<open>A step of the tree is a step of the optimized plan, or the optimizer replaced it by one.\<close>

definition tracked :: "plan \<Rightarrow> remap \<Rightarrow> ref \<Rightarrow> bool" where
  "tracked p m r \<longleftrightarrow> r < length (p_heap p) \<and> (map_of m (step_id p r) \<noteq> None \<or> r \<in> set (p_steps p))"

lemma finalize_spec:
  assumes opt: "optimize depth hook p = Some (Inr (p1, m))" and inv: "plan_inv p1" "p_dead_ids p1 = {}"
    and m: "distinct (map fst m)" "snd ` set m \<subseteq> set (p_steps p1)" and tree: "planner_tree (tracked p1 m) op"
  shows "\<exists>p' op'. finalize_plan depth hook p op = Some (Inr (p', op')) \<and> plan_inv p' \<and> same_selection op' op
    \<and> plan_ready (p_heap p') (set (p_steps p')) op' \<and> l_hoisted_out (op_layer op') = {}"
proof -
  let ?sem = "\<lambda>r vs. ()" and ?val = "\<lambda>r. ()"
  have "key_determines (p_heap p1) ?sem" "consistent ?sem ?val p1" by (simp_all add: key_determines_def consistent_def)
  from deduplicate_spec [OF inv this] obtain p2 out where dd: "deduplicate p1 = Some (p2, out)" and inv2: "plan_inv p2"
    and out: "\<forall>r \<in> set (p_steps p1). \<exists>f \<in> set (p_steps p2). map_of out (step_id p1 r) = Some f"
    and attrs: "\<forall>r < length (p_heap p1). same_attrs (obj (p_heap p2) r) (obj (p_heap p1) r)" by blast
  have dead2: "p_dead_ids p2 = {}" by (rule deduplicate_no_dead [OF dd])
  have id: "sid (obj (p_heap p2) r) = step_id p1 r" if "r < length (p_heap p1)" for r
    using attrs that by (simp add: same_attrs_def step_id_def)
  have in_heap: "set (p_steps p1) \<subseteq> {..<length (p_heap p1)}" using inv(1) by (simp add: plan_inv_def)
  let ?h = "p_heap p2" and ?S2 = "set (p_steps p2)" and ?m = "compose_remaps p2 m out"
  let ?remapped = "remap_object_plan ?h ?m op"
  have "planner_tree (\<lambda>r. r \<in> ?S2) ?remapped"
  proof (rule remap_planner_tree [OF _ tree])
    fix r
    assume r: "tracked p1 m r"
    then have lt: "r < length (p_heap p1)" by (simp add: tracked_def)
    show "(case map_of ?m (sid (obj ?h r)) of None \<Rightarrow> r | Some s \<Rightarrow> s) \<in> ?S2"
    proof (cases "map_of m (step_id p1 r)")
      case None
      with r out obtain f where "f \<in> ?S2" "map_of out (step_id p1 r) = Some f" by (auto simp: tracked_def)
      with None show ?thesis by (simp add: compose_remaps_spec [OF m(1)] id [OF lt])
    next
      case (Some mid)
      then have mid: "mid \<in> set (p_steps p1)" using m(2) map_of_SomeD by force
      with in_heap have "sid (obj ?h mid) = step_id p1 mid" by (intro id) blast
      moreover from mid out obtain f where "f \<in> ?S2" "map_of out (step_id p1 mid) = Some f" by blast
      ultimately show ?thesis using Some by (simp add: compose_remaps_spec [OF m(1)] id [OF lt] step_id_def [of p2])
    qed
  qed
  note remapped = this
  define roots where "roots = collect_consumption_root_steps ?h ?remapped"
  have "keyed ?h ?S2 []" by (simp add: keyed_def)
  note collected = collect_roots_spec [OF this remapped]
  have roots: "set roots \<subseteq> ?S2" using collected by (fastforce simp: roots_def collect_consumption_root_steps_def keyed_def)
  have sub: "r \<in> set roots" if "r \<in> ?S2" "sid (obj ?h r) \<in> fst ` set (collect_roots ?h ?remapped [])" for r
  proof -
    from that(2) collected obtain s where s: "(sid (obj ?h r), s) \<in> set (collect_roots ?h ?remapped [])" "sid (obj ?h r) = sid (obj ?h s)" "s \<in> ?S2"
      by (fastforce simp: keyed_def)
    with same_id [OF plan_planned [OF inv2] that(1) s(3)] have "r = s" by simp
    with s(1) show ?thesis by (force simp: roots_def collect_consumption_root_steps_def)
  qed
  obtain p3 orphans where shake: "tree_shake p2 roots = (p3, orphans)" by fastforce
  note sh = tree_shake_spec [OF inv2 dead2 roots shake]
  let ?S3 = "set (p_steps p3)"
  have "planner_tree (\<lambda>r. r \<in> ?S2 \<and> sid (obj ?h r) \<in> fst ` set (collect_roots ?h ?remapped [])) ?remapped"
    by (rule planner_tree_both [OF remapped]) (use collected in simp)
  then have tree3: "planner_tree (\<lambda>r. r \<in> ?S3) ?remapped"
  proof (rule planner_tree_mono)
    fix r
    assume "r \<in> ?S2 \<and> sid (obj ?h r) \<in> fst ` set (collect_roots ?h ?remapped [])"
    then have "r \<in> set roots" using sub by simp
    then show "r \<in> ?S3" unfolding sh(4) by (auto intro: reach.reach_target)
  qed
  have orphans: "set orphans \<subseteq> ?S3" unfolding sh(4,5) by (auto intro: reach.reach_target)
  obtain b where b: "l_parent (op_layer ?remapped) = Some b"
    using planner_tree_layer(1) tree3 by (cases ?remapped) fastforce
  obtain attached where att: "(if orphans = [] then Inr ?remapped else attach_effect_steps ?h ?remapped orphans) = Inr attached"
    and ok: "tree_ok False ?h ?S3 attached" and top: "l_hoisted_out (op_layer attached) = {}" and same: "same_selection attached ?remapped"
  proof (cases "orphans = []")
    case True
    have "l_hoisted_out (op_layer ?remapped) = {}" using planner_tree_layer(4) tree3 by (cases ?remapped) fastforce
    then show thesis using that [of ?remapped] True planner_tree_ok [OF tree3] by simp
  next
    case False
    from owners_total [OF b, of ?h orphans] obtain owners where
      o: "map_res (\<lambda>e. bind_res (deepest_owner_parent_id ?h ?remapped (dependency_ids ?h e)) (\<lambda>i. Inr (e, i))) orphans = Inr owners"
        "map fst owners = orphans" by blast
    have "\<forall>(e, i) \<in> set owners. e \<in> ?S3"
    proof
      fix x
      assume "x \<in> set owners"
      then have "fst x \<in> set orphans" unfolding o(2) [symmetric] by simp
      with orphans show "case x of (e, i) \<Rightarrow> e \<in> ?S3" by (cases x) auto
    qed
    from rebuild_ok [OF this tree3, of ?h] show thesis
      using that [of "rebuild_effects ?h owners ?remapped"] False o(1) rebuild_same by (simp add: attach_effect_steps_def)
  qed
  let ?hoisted = "if p_hoist p3 \<and> \<not> p_is_mutation p3 then hoist_steps ?h attached else attached"
  have inv3: "plan_inv p3" by (rule sh(1))
  have pl3: "planned ?h ?S3" using plan_planned [OF inv3] unfolding sh(2) .
  have "hoisted_ok ?h ?S3 True (hoist_layer ?h {} True attached)" using pl3 ok by (rule hoist_layer_ok)
  then have "(\<exists>b. tree_ok b ?h ?S3 ?hoisted) \<and> l_hoisted_out (op_layer ?hoisted) = {}"
    using ok top by (auto simp: hoisted_ok_def hoist_steps_def)
  then have "plan_ready ?h ?S3 (populate_layers ?h ?hoisted)" "l_hoisted_out (op_layer (populate_layers ?h ?hoisted)) = {}"
    using populate_ready [OF pl3] by auto
  moreover have "same_selection (populate_layers ?h ?hoisted) op"
  proof -
    have "same_selection ?hoisted attached" using hoist_same by (simp add: hoist_steps_def)
    with populate_same same remap_same show ?thesis by (metis same_selection_trans)
  qed
  moreover have "finalize_plan depth hook p op = Some (Inr (p3, populate_layers ?h ?hoisted))"
    unfolding finalize_plan_def Let_def opt option.case sum.case prod.case dd roots_def [symmetric] shake sh(2) att by simp
  ultimately show ?thesis using inv3 sh(2) by auto
qed

section \<open>Where the orphaned effects run\<close>

text \<open>The effect steps of all the layers, and the ids of their boundaries.\<close>

function all_effects :: "object_plan \<Rightarrow> ref list" where
  "all_effects (Object_Plan t fs l) =
     l_effects l @ concat (map (\<lambda>fp. case child_plan fp of None \<Rightarrow> [] | Some q \<Rightarrow> all_effects q) fs)"
  by pat_completeness auto
termination by (relation "measure size") (auto intro: child_plan_in_size)

function boundaries :: "heap \<Rightarrow> object_plan \<Rightarrow> int list" where
  "boundaries h (Object_Plan t fs l) =
     (case l_parent l of None \<Rightarrow> [] | Some b \<Rightarrow> [sid (obj h b)])
       @ concat (map (\<lambda>fp. case child_plan fp of None \<Rightarrow> [] | Some q \<Rightarrow> boundaries h q) fs)"
  by pat_completeness auto
termination by (relation "measure (\<lambda>(h, p). size p)") (auto intro: child_plan_in_size)

definition owned :: "(ref \<times> int) list \<Rightarrow> int \<Rightarrow> ref multiset" where
  "owned owners i = mset (map fst (filter (\<lambda>(e, j). j = i) owners))"

lemma rebuild_effects_mset:
  "mset (all_effects (rebuild_effects h owners p)) = mset (all_effects p) + sum_list (map (owned owners) (boundaries h p))"
proof (induction p rule: plan_size_induct)
  case (plan t fs l)
  let ?g = "\<lambda>fp. case child_plan fp of None \<Rightarrow> fp | Some p \<Rightarrow> with_child fp (rebuild_effects h owners p)"
  let ?c = "\<lambda>fp. case child_plan fp of None \<Rightarrow> [] | Some q \<Rightarrow> all_effects q"
  let ?b = "\<lambda>fp. case child_plan fp of None \<Rightarrow> [] | Some q \<Rightarrow> boundaries h q"
  have one: "mset (?c (?g fp)) = mset (?c fp) + sum_list (map (owned owners) (?b fp))" if "fp \<in> set fs" for fp
  proof (cases "child_plan fp")
    case (Some q)
    with plan.IH [OF that Some] child_plan_with_child [OF Some] show ?thesis by simp
  qed simp
  have "mset (concat (map ?c (map ?g fs))) = mset (concat (map ?c fs)) + sum_list (map (owned owners) (concat (map ?b fs)))"
    using one by (induction fs) (simp_all del: map_map)
  moreover have "all_effects (rebuild_effects h owners (Object_Plan t fs l)) = (l_effects l @
      map fst (filter (\<lambda>(e, i). case l_parent l of None \<Rightarrow> False | Some s \<Rightarrow> i = sid (obj h s)) owners)) @ concat (map ?c (map ?g fs))"
    unfolding rebuild_effects.simps Let_def all_effects.simps by simp
  moreover have "mset (map fst (filter (\<lambda>(e, i). case l_parent l of None \<Rightarrow> False | Some s \<Rightarrow> i = sid (obj h s)) owners))
      = sum_list (map (owned owners) (case l_parent l of None \<Rightarrow> [] | Some b \<Rightarrow> [sid (obj h b)]))"
    by (cases "l_parent l") (simp_all add: owned_def)
  ultimately show ?case by (simp only: mset_append all_effects.simps boundaries.simps map_append sum_list_append ac_simps)
qed

lemma owned_partition:
  assumes "distinct is" and "snd ` set owners \<subseteq> set is"
  shows "sum_list (map (owned owners) is) = mset (map fst owners)"
  using assms(2)
proof (induction owners)
  case Nil
  then show ?case by (induction "is") (simp_all add: owned_def)
next
  case (Cons x owners)
  obtain e i where x: "x = (e, i)" by fastforce
  with Cons.prems have i: "i \<in> set is" by auto
  have "owned (x # owners) j = (if j = i then {#e#} else {#}) + owned owners j" for j by (simp add: owned_def x)
  then have "owned (x # owners) = (\<lambda>j. (if j = i then {#e#} else {#}) + owned owners j)" by (rule ext)
  then have "sum_list (map (owned (x # owners)) is) = sum_list (map (\<lambda>j. if j = i then {#e#} else {#}) is) + sum_list (map (owned owners) is)"
    by (simp add: sum_list_addf)
  moreover have "sum_list (map (\<lambda>j. if j = i then {#e#} else {#}) is) = {#e#}"
    using assms(1) i by (simp add: sum_list_distinct_conv_sum_set)
  ultimately show ?case using Cons by (simp add: x)
qed

lemma deepest_owner_boundary:
  "fst (deepest_owner h B p depth best) \<in> insert (fst best) (set (boundaries h p))"
proof (induction p arbitrary: depth best rule: plan_size_induct)
  case (plan t fs l)
  let ?f = "\<lambda>best fp. case child_plan fp of None \<Rightarrow> best | Some p \<Rightarrow> deepest_owner h B p (Suc depth) best"
  have fold: "fst (foldl ?f b gs) \<in> insert (fst b) (set (concat (map (\<lambda>fp. case child_plan fp of None \<Rightarrow> [] | Some q \<Rightarrow> boundaries h q) gs)))"
    if "set gs \<subseteq> set fs" for gs b
    using that
  proof (induction gs arbitrary: b)
    case (Cons fp gs)
    have "fst (?f b fp) \<in> insert (fst b) (set (case child_plan fp of None \<Rightarrow> [] | Some q \<Rightarrow> boundaries h q))"
      using plan.IH [of fp _ "Suc depth" b] Cons.prems by (cases "child_plan fp") auto
    with Cons.IH [of "?f b fp"] Cons.prems show ?case by auto
  qed simp
  show ?case
  proof (cases "l_parent l")
    case None
    with fold [OF subset_refl, of best] show ?thesis by simp
  next
    case (Some b)
    have "fst (if sid (obj h b) \<in> B \<and> snd best < int depth then (sid (obj h b), int depth) else best)
        \<in> {fst best, sid (obj h b)}" by simp
    with Some fold [OF subset_refl, of "if sid (obj h b) \<in> B \<and> snd best < int depth then (sid (obj h b), int depth) else best"]
    show ?thesis by auto
  qed
qed

lemma attach_effects_once:
  assumes "distinct (boundaries h p)" and "attach_effect_steps h p orphaned = Inr p'"
  shows "mset (all_effects p') = mset (all_effects p) + mset orphaned"
proof -
  from assms(2) obtain owners where o: "map_res (\<lambda>e. bind_res (deepest_owner_parent_id h p (dependency_ids h e)) (\<lambda>i. Inr (e, i))) orphaned = Inr owners"
    "p' = rebuild_effects h owners p" by (auto simp: attach_effect_steps_def bind_res_Inr_iff)
  have owner: "i \<in> set (boundaries h p)" if "deepest_owner_parent_id h p B = Inr i" for B i
  proof -
    have "fst (deepest_owner h B p 0 (-1, -1)) \<in> insert (-1) (set (boundaries h p))"
      using deepest_owner_boundary [of h B p 0 "(-1, -1)"] by simp
    with that show ?thesis
      by (cases p) (auto simp: deepest_owner_parent_id_def Let_def split: if_splits option.splits)
  qed
  have "map fst owners = orphaned \<and> snd ` set owners \<subseteq> set (boundaries h p)"
    using o(1)
  proof (induction orphaned arbitrary: owners)
    case (Cons e es)
    then obtain i rest where "deepest_owner_parent_id h p (dependency_ids h e) = Inr i" "owners = (e, i) # rest"
      "map_res (\<lambda>e. bind_res (deepest_owner_parent_id h p (dependency_ids h e)) (\<lambda>i. Inr (e, i))) es = Inr rest"
      by (auto simp: bind_res_Inr_iff)
    with Cons.IH owner show ?case by auto
  qed simp
  with owned_partition [OF assms(1), of owners] show ?thesis
    unfolding o(2) rebuild_effects_mset by simp
qed

end
