(* ===== verification/Dag_Optimize.thy ===== *)
theory Dag_Optimize
  imports Dag_Passes
begin

text \<open>
  The optimize pass of \<open>dag.py\<close> for any hook that keeps to what \<open>Plan.optimize\<close> expects of it: it returns,
  with a consistent plan and a remap that sends every step it removed to one that is left, or it raises what
  a hook raised.
\<close>

section \<open>A plan between two hooks\<close>

text \<open>
  Ids are positions, a step outside the plan has the id -1, nothing is indexed under the id of no step, and
  references stay in the heap. Unlike in the growth phase steps may be dead.
\<close>

definition reg_inv :: "plan \<Rightarrow> bool" where
  "reg_inv p \<longleftrightarrow>
     plan_inv p \<and> p_seen p = set (p_steps p) \<and> closed_heap (p_heap p)
     \<and> (\<forall>i < length (p_steps p). step_id p (p_steps p ! i) = int i)
     \<and> (\<forall>r < length (p_heap p). r \<notin> p_seen p \<longrightarrow> step_id p r = -1)
     \<and> (\<forall>i. (\<forall>d \<in> p_seen p. step_id p d \<noteq> i) \<longrightarrow> edges p i = [])
     \<and> p_dead_ids p \<subseteq> step_id p ` set (p_steps p)"

lemma reg_invD:
  assumes "reg_inv p"
  shows "plan_inv p" "p_seen p = set (p_steps p)" "closed_heap (p_heap p)"
    "\<And>i. i < length (p_steps p) \<Longrightarrow> step_id p (p_steps p ! i) = int i"
    "\<And>r. r < length (p_heap p) \<Longrightarrow> r \<notin> p_seen p \<Longrightarrow> step_id p r = -1"
    "\<And>i. \<forall>d \<in> p_seen p. step_id p d \<noteq> i \<Longrightarrow> edges p i = []"
    "p_dead_ids p \<subseteq> step_id p ` set (p_steps p)"
  using assms by (auto simp: reg_inv_def)

lemma grow_reg: "grow_inv p \<Longrightarrow> closed_heap (p_heap p) \<Longrightarrow> reg_inv p"
  using grow_invD [of p] grow_plan_inv [of p] by (simp add: reg_inv_def)

lemma reg_id_bounds:
  assumes "reg_inv p" and "r \<in> set (p_steps p)"
  shows "0 \<le> step_id p r" and "step_id p r < int (length (p_steps p))"
proof -
  obtain i where "i < length (p_steps p)" "p_steps p ! i = r" using assms(2) by (metis in_set_conv_nth)
  with reg_invD(4) [OF assms(1)] show "0 \<le> step_id p r" "step_id p r < int (length (p_steps p))" by auto
qed

lemma reg_side [simp]: "reg_inv (p\<lparr>p_side_replacements := es\<rparr>) = reg_inv p"
  "live (p\<lparr>p_side_replacements := es\<rparr>) = live p" "step_id (p\<lparr>p_side_replacements := es\<rparr>) = step_id p"
proof -
  show ids: "step_id (p\<lparr>p_side_replacements := es\<rparr>) = step_id p" by (simp add: step_id_def [abs_def])
  then show l: "live (p\<lparr>p_side_replacements := es\<rparr>) = live p" by (simp add: live_def)
  have "edges (p\<lparr>p_side_replacements := es\<rparr>) = edges p" "slots (p\<lparr>p_side_replacements := es\<rparr>) = slots p"
    by (simp_all add: edges_def [abs_def] slots_def [abs_def] l)
  then show "reg_inv (p\<lparr>p_side_replacements := es\<rparr>) = reg_inv p"
    by (simp add: reg_inv_def plan_inv_def ids l)
qed

section \<open>Registering a new step\<close>

lemma enroll_live:
  assumes "reg_inv p" and "r \<notin> p_seen p" and "r < length (p_heap p)"
  shows "live (enroll p r) = live p @ [r]"
proof -
  note I = reg_invD [OF assms(1)]
  have "int (length (p_steps p)) \<notin> p_dead_ids p"
    using I(7) reg_id_bounds(2) [OF assms(1)] by fastforce
  moreover have "step_id (enroll p r) x = step_id p x" if "x \<in> set (p_steps p)" for x
    using that assms(2) I(2) plan_invD(2) [OF I(1) that] by (auto simp: enroll_step_id)
  then have "filter (\<lambda>x. step_id (enroll p r) x \<notin> p_dead_ids p) (p_steps p) = live p"
    unfolding live_def by (intro filter_cong) auto
  ultimately show ?thesis using assms(3) by (simp add: live_def enroll_step_id)
qed

lemma enroll_reg:
  assumes inv: "reg_inv p" and new: "r \<notin> p_seen p" and deps: "set (deps_of (p_heap p) r) \<subseteq> set (live p)"
    and r: "r < length (p_heap p)"
  shows "reg_inv (enroll p r)"
proof -
  let ?q = "enroll p r" and ?n = "int (length (p_steps p))"
  note I = reg_invD [OF inv] and J = plan_invD [OF reg_invD(1) [OF inv]]
  note live_q = enroll_live [OF inv new r]
  have sub: "set (live p) \<subseteq> set (p_steps p)" by (auto simp: set_live)
  have id_r: "step_id ?q r = ?n" using r by (simp add: enroll_step_id)
  have id_seen: "step_id ?q d = step_id p d" if "d \<in> set (p_steps p)" for d
    using that new I(2) J(2) by (auto simp: enroll_step_id)
  have ids_lt: "step_id p d \<noteq> ?n" if "d \<in> set (p_steps p)" for d
    using reg_id_bounds [OF inv that] by simp
  have ids: "step_id ?q (deps_of (p_heap p) r ! i) = step_id p (deps_of (p_heap p) r ! i)"
    "deps_of (p_heap p) r ! i \<in> set (live p)" if "i < length (deps_of (p_heap p) r)" for i
    using id_seen deps that sub by (auto dest: nth_mem)
  have new_edges: "set (edges ?q j) = set (edges p j)
      \<union> {(r, i) | i. i < length (deps_of (p_heap p) r) \<and> step_id p (deps_of (p_heap p) r ! i) = j}" for j
    using ids by (auto simp: enroll_edges image_iff)
  have slots_q: "slots ?q d = slots p d
     \<union> {(r, i) | i. i < length (deps_of (p_heap p) r) \<and> deps_of (p_heap p) r ! i = d}" for d
    by (auto simp: slots_def live_q)
  have e1: "set (edges ?q (step_id ?q d)) = slots ?q d" if "d \<in> insert r (set (live p))" for d
  proof (cases "d = r")
    case True
    have "r \<notin> set (deps_of (p_heap p) x)" if "x \<in> set (live p)" for x
      using J(6) [OF that] sub new I(2) by blast
    then have "slots p r = {}" by (auto simp: slots_def dest: nth_mem)
    moreover have "deps_of (p_heap p) r ! i \<noteq> r \<and> step_id p (deps_of (p_heap p) r ! i) \<noteq> ?n"
      if "i < length (deps_of (p_heap p) r)" for i
    proof -
      have "deps_of (p_heap p) r ! i \<in> set (p_steps p)" using ids(2) [OF that] sub by blast
      with ids_lt new I(2) show ?thesis by auto
    qed
    moreover have "edges p ?n = []" by (rule I(6)) (use ids_lt I(2) in blast)
    ultimately show ?thesis unfolding True id_r new_edges slots_q by auto
  next
    case False
    with that have d: "d \<in> set (live p)" by simp
    have "step_id p (deps_of (p_heap p) r ! i) = step_id p d \<longleftrightarrow> deps_of (p_heap p) r ! i = d"
      if "i < length (deps_of (p_heap p) r)" for i
      using ids(2) [OF that] d sub J(3) by (auto dest: inj_onD)
    moreover have "step_id ?q d = step_id p d" using d sub id_seen by blast
    ultimately show ?thesis unfolding new_edges slots_q using J(7) [OF d] by auto
  qed
  have e2: "edges ?q i = []" if "\<forall>d \<in> insert r (set (p_steps p)). step_id ?q d \<noteq> i" for i
  proof -
    have none: "\<forall>d \<in> p_seen p. step_id p d \<noteq> i" using that id_seen I(2) by auto
    have "step_id p (deps_of (p_heap p) r ! k) \<noteq> i" if "k < length (deps_of (p_heap p) r)" for k
      using ids(2) [OF that] sub none I(2) by auto
    with I(6) [OF none] new_edges [of i] have "set (edges ?q i) = {}" by auto
    then show ?thesis by simp
  qed
  have e3: "step_id ?q ((p_steps p @ [r]) ! i) = int i" if "i < Suc (length (p_steps p))" for i
  proof (cases "i = length (p_steps p)")
    case False
    with that have i: "i < length (p_steps p)" by simp
    then have "step_id ?q (p_steps p ! i) = int i" using I(4) [OF i] id_seen by simp
    with i show ?thesis by (simp only: nth_append if_True)
  qed (simp add: id_r)
  have inj: "inj_on (step_id ?q) (insert r (set (p_steps p)))"
  proof -
    have "step_id ?q ` set (p_steps p) = step_id p ` set (p_steps p)" using id_seen by (intro image_cong) auto
    moreover have "?n \<notin> step_id p ` set (p_steps p)" using ids_lt by force
    moreover have "inj_on (step_id ?q) (set (p_steps p))" using J(3) id_seen by (simp add: inj_on_def)
    ultimately show ?thesis using id_r new I(2) by simp
  qed
  have "plan_inv ?q"
    unfolding plan_inv_def enroll_simps live_q
  proof (intro conjI)
    show "distinct (p_steps p @ [r])" "set (p_steps p @ [r]) \<subseteq> {..<length (p_heap p)}"
      using J(1,2) new I(2) r by auto
    show "inj_on (step_id ?q) (set (p_steps p @ [r]))" using inj by simp
    show "\<forall>x \<in> set (p_steps p @ [r]). 0 \<le> step_id ?q x" using J(4) by (simp add: id_seen id_r)
    show "\<forall>x \<in> set (p_steps p @ [r]). set (deps_of (p_heap p) x) \<subseteq> set (p_steps p @ [r])"
      using J(5) deps sub by fastforce
    show "\<forall>x \<in> set (live p @ [r]). set (deps_of (p_heap p) x) \<subseteq> set (live p @ [r])"
      using J(6) deps by fastforce
    show "\<forall>d \<in> set (live p @ [r]). set (edges ?q (step_id ?q d)) = slots ?q d" using e1 by simp
    show "acyclic_heap (p_heap ?q)"
      using J(8) acyclic_same_deps [of "p_heap ?q" "p_heap p"] by simp
  qed
  moreover have "p_dead_ids p \<subseteq> step_id ?q ` set (p_steps p @ [r])"
  proof
    fix i assume "i \<in> p_dead_ids p"
    with I(7) obtain x where "x \<in> set (p_steps p)" "i = step_id p x" by auto
    with id_seen show "i \<in> step_id ?q ` set (p_steps p @ [r])" by force
  qed
  moreover have "closed_heap (p_heap ?q)" using I(3) by (simp add: closed_heap_def)
  moreover have "\<forall>x < length (p_heap p). x \<notin> insert r (p_seen p) \<longrightarrow> step_id ?q x = -1"
    using I(5) by (auto simp: enroll_step_id)
  moreover have "\<forall>i. (\<forall>d \<in> insert r (p_seen p). step_id ?q d \<noteq> i) \<longrightarrow> edges ?q i = []"
    using e2 I(2) by simp
  ultimately show ?thesis
    unfolding reg_inv_def enroll_simps using e3 I(2) by simp
qed


text \<open>Registering \<open>rs\<close> keeps the invariant and the live steps, and brings in only what \<open>rs\<close> reaches, when what it
  reaches of the plan is live. It goes as deep as steps outside the plan hang on each other: \<open>rank\<close> measures it.\<close>

definition fresh_rank :: "plan \<Rightarrow> (ref \<Rightarrow> nat) \<Rightarrow> bool" where
  "fresh_rank p rank \<longleftrightarrow>
     (\<forall>x d. x \<notin> p_seen p \<longrightarrow> d \<in> set (deps_of (p_heap p) x) \<longrightarrow> d \<notin> p_seen p \<longrightarrow> rank d < rank x)"

definition registered_live :: "plan \<Rightarrow> ref list \<Rightarrow> plan \<Rightarrow> bool" where
  "registered_live p rs q \<longleftrightarrow> reg_inv q \<and> (\<forall>x. deps_of (p_heap q) x = deps_of (p_heap p) x)
     \<and> length (p_heap q) = length (p_heap p) \<and> prefix (p_steps p) (p_steps q) \<and> p_dead_ids q = p_dead_ids p
     \<and> p_side_replacements q = p_side_replacements p
     \<and> (\<forall>x \<in> set (p_steps p). step_id q x = step_id p x)
     \<and> set (live p) \<subseteq> set (live q) \<and> set rs \<subseteq> set (live q)
     \<and> p_seen q \<subseteq> p_seen p \<union> reach (p_heap p) (\<lambda>r. False) (set rs)
     \<and> (\<forall>x \<in> p_seen q. x \<in> p_seen p \<or> x \<in> set (live q))"

definition registrable :: "plan \<Rightarrow> ref list \<Rightarrow> bool" where
  "registrable p rs \<longleftrightarrow> set rs \<subseteq> {..<length (p_heap p)}
     \<and> reach (p_heap p) (\<lambda>r. False) (set rs) \<inter> p_seen p \<subseteq> set (live p)"

lemma registered_live_refl: "reg_inv p \<Longrightarrow> set rs \<subseteq> set (live p) \<Longrightarrow> registered_live p rs p"
  by (auto simp: registered_live_def reg_inv_def)

lemma enroll_registered:
  assumes "reg_inv p" and "r \<notin> p_seen p" and "set (deps_of (p_heap p) r) \<subseteq> set (live p)" and "r < length (p_heap p)"
  shows "registered_live p [r] (enroll p r)"
proof -
  note I = reg_invD [OF assms(1)]
  have "step_id (enroll p r) x = step_id p x" if "x \<in> set (p_steps p)" for x
    using that assms(2) I(2) plan_invD(2) [OF I(1) that] by (auto simp: enroll_step_id)
  then show ?thesis
    using enroll_reg [OF assms] enroll_live [OF assms(1,2,4)] reach_target [of r "{r}"]
    by (auto simp: registered_live_def) (simp add: enroll_def Let_def)
qed

lemma registered_live_trans:
  assumes a: "registered_live p rs q" and b: "registered_live q ts s"
    and sub: "reach (p_heap p) (\<lambda>r. False) (set rs) \<union> reach (p_heap p) (\<lambda>r. False) (set ts)
       \<subseteq> reach (p_heap p) (\<lambda>r. False) (set us)"
    and us: "set us \<subseteq> set rs \<union> set ts"
  shows "registered_live p us s"
proof -
  have steps: "set (p_steps p) \<subseteq> set (p_steps q)" using a by (auto simp: registered_live_def dest: set_mono_prefix)
  have "reach (p_heap q) (\<lambda>r. False) (set ts) = reach (p_heap p) (\<lambda>r. False) (set ts)"
    using a by (intro reach_same_deps) (simp add: registered_live_def)
  moreover have "prefix (p_steps p) (p_steps s)"
    using a b prefix_order.order_trans unfolding registered_live_def by blast
  moreover have "step_id s x = step_id p x" if "x \<in> set (p_steps p)" for x
    using a b that steps by (auto simp: registered_live_def)
  ultimately show ?thesis
    using a b sub us unfolding registered_live_def by (simp add: subset_iff) blast
qed

lemma register_all_live:
  assumes "reg_inv p" and "registrable p rs" and "fresh_rank p rank" and "\<forall>r \<in> set rs. r \<notin> p_seen p \<longrightarrow> rank r < n"
  shows "\<exists>q. register_all n p rs = Inr q \<and> registered_live p rs q"
  using assms
proof (induction n p rs rule: register_all.induct)
  case (1 n p)
  then show ?case by (simp add: registered_live_refl)
next
  case (2 n p r rs)
  let ?h = "p_heap p" and ?reach = "reach (p_heap p) (\<lambda>r. False)"
  have sub: "?reach (set rs) \<subseteq> ?reach (set (r # rs))" "?reach {r} \<subseteq> ?reach (set (r # rs))"
    by (auto intro: reach_mono)
  show ?case
  proof (cases "r \<in> p_seen p")
    case True
    have live: "r \<in> set (live p)" using True "2.prems"(2) by (auto simp: registrable_def intro: reach_target)
    have "registrable p rs" using "2.prems"(2) sub by (auto simp: registrable_def)
    with "2.IH"(1) [OF True "2.prems"(1)] "2.prems"(3,4) obtain q where
      q: "register_all n p rs = Inr q" "registered_live p rs q" by auto
    have "registered_live p (r # rs) q"
      by (rule registered_live_trans [OF registered_live_refl [OF \<open>reg_inv p\<close>, of "[r]"] q(2)])
        (use live sub in auto)
    with q True show ?thesis by simp
  next
    case False
    obtain m where Suc: "n = Suc m" using "2.prems"(4) False by (cases n) auto
    let ?ds = "deps_of ?h r"
    have r: "r < length ?h" using "2.prems"(2) by (simp add: registrable_def)
    have ds: "?reach (set ?ds) \<subseteq> ?reach (set (r # rs))" by (auto intro: reach_from_deps)
    have "registrable p ?ds"
      using "2.prems" ds r reg_invD(3) [OF "2.prems"(1)] by (auto simp: registrable_def closed_heap_def)
    moreover have "\<forall>d \<in> set ?ds. d \<notin> p_seen p \<longrightarrow> rank d < m"
      using "2.prems"(3,4) False Suc unfolding fresh_rank_def by fastforce
    ultimately obtain q where q0: "register_all m p ?ds = Inr q" "registered_live p ?ds q"
      using "2.IH"(2) [OF False Suc "2.prems"(1)] "2.prems"(3) by blast
    note q = q0(2) [unfolded registered_live_def]
    obtain hrank where "ranked ?h hrank"
      using reg_invD(1) [OF "2.prems"(1)] by (auto simp: plan_inv_def acyclic_heap_def)
    then have "r \<notin> ?reach (set ?ds)"
      using reach_rank [of ?h hrank r "\<lambda>r. False" "set ?ds"] rankedD [of ?h hrank _ r] by fastforce
    with False q have new: "r \<notin> p_seen q" by blast
    have "registered_live q [r] (enroll q r)"
      using q new r by (intro enroll_registered) auto
    then have qr: "registered_live p [r] (enroll q r)"
      by (rule registered_live_trans [OF q0(2)]) (use ds sub reach_from_deps [of _ ?h r "{r}"] in auto)
    note e = qr [unfolded registered_live_def]
    have same: "reach (p_heap (enroll q r)) (\<lambda>r. False) ts = ?reach ts" for ts
      using e by (intro reach_same_deps) blast
    have "registrable (enroll q r) rs"
      using "2.prems"(2) e sub(1) unfolding registrable_def same by auto
    moreover have seen: "p_seen p \<subseteq> p_seen (enroll q r)"
      using e reg_invD(2) [OF "2.prems"(1)] reg_invD(2) [of "enroll q r"] by (auto dest: set_mono_prefix)
    then have "fresh_rank (enroll q r) rank"
      using "2.prems"(3) e unfolding fresh_rank_def by (metis subsetD)
    moreover have "\<forall>x \<in> set rs. x \<notin> p_seen (enroll q r) \<longrightarrow> rank x < n" using "2.prems"(4) seen by auto
    moreover have "reg_inv (enroll q r)" using e by blast
    ultimately obtain s where s: "register_all n (enroll q r) rs = Inr s" "registered_live (enroll q r) rs s"
      using "2.IH"(3) [OF False Suc q0(1)] by blast
    have "registered_live p (r # rs) s"
      by (rule registered_live_trans [OF qr s(2)]) (use sub in auto)
    with s False Suc q0(1) show ?thesis by simp
  qed
qed

section \<open>Replacing a step\<close>

lemma eradicate_side [simp]: "p_side_replacements (eradicate p d s) = p_side_replacements p"
  by (simp add: eradicate_def Let_def)

lemma eradicate_reg:
  assumes inv: "reg_inv p" and d: "d \<in> set (live p)" and s: "s \<in> set (live p)" and ne: "d \<noteq> s"
    and "d \<notin> reach (p_heap p) (\<lambda>r. False) {s}"
  shows "reg_inv (eradicate p d s)"
proof -
  let ?q = "eradicate p d s"
  note I = reg_invD [OF inv]
  have steps: "set (live p) \<subseteq> set (p_steps p)" by (auto simp: set_live)
  note lt = plan_invD(2) [OF I(1)]
  have ids: "step_id ?q r = step_id p r" if "r < length (p_heap p)" for r using that by (rule eradicate_step_id)
  have "set (deps_of (p_heap ?q) x) \<subseteq> {..<length (p_heap p)}" if "x < length (p_heap p)" for x
    using eradicate_deps [OF I(1) d ne that] I(3) that s steps lt by (auto simp: closed_heap_def)
  then have "set (deps_of (p_heap ?q) x) \<subseteq> {..<length (p_heap ?q)}" for x
    using deps_of_out [of x "p_heap ?q"] by (cases "x < length (p_heap p)") auto
  then have "closed_heap (p_heap ?q)" unfolding closed_heap_def by blast
  moreover have "edges ?q i = []" if "\<forall>x \<in> p_seen p. step_id ?q x \<noteq> i" for i
  proof -
    have none: "\<forall>x \<in> p_seen p. step_id p x \<noteq> i" using that ids lt I(2) by auto
    have "step_id p d \<noteq> i" "step_id p s \<noteq> i" using none d s steps I(2) by auto
    then show ?thesis using I(6) [OF none] unfolding eradicate_edges_raw [OF ne] by (simp add: edges_def)
  qed
  moreover have "insert (step_id p d) (p_dead_ids p) \<subseteq> step_id ?q ` set (p_steps p)"
  proof -
    have "step_id ?q ` set (p_steps p) = step_id p ` set (p_steps p)" using ids lt by (intro image_cong) auto
    then show ?thesis using I(7) d steps by auto
  qed
  moreover have "step_id ?q (p_steps p ! i) = int i" if "i < length (p_steps p)" for i
    using I(4) [OF that] ids lt that by simp
  ultimately show ?thesis
    using eradicate_inv [OF I(1) d s ne assms(5)] I(2,5) ids ne unfolding reg_inv_def
    by (simp add: eradicate_dead)
qed

text \<open>What \<open>optimize\<close> needs of one replacement: the old step is live, the new one is a step of the heap that does
  not depend on the old one, and what it reaches of the plan is live.\<close>

definition replaceable :: "nat \<Rightarrow> plan \<Rightarrow> ref \<Rightarrow> ref \<Rightarrow> bool" where
  "replaceable depth p old new \<longleftrightarrow>
     old \<in> set (live p) \<and> registrable p [new] \<and> old \<notin> reach (p_heap p) (\<lambda>r. False) {new}
     \<and> (\<exists>rank. fresh_rank p rank \<and> (new \<notin> p_seen p \<longrightarrow> rank new < depth))"

text \<open>Every replacement in its turn, then what comes after.\<close>

fun drains_ok :: "nat \<Rightarrow> (plan \<Rightarrow> bool) \<Rightarrow> plan \<Rightarrow> (ref \<times> ref) list \<Rightarrow> bool" where
  "drains_ok depth after p [] = after p"
| "drains_ok depth after p ((old, new) # rest) =
     (replaceable depth p old new \<and>
      (\<forall>q. ensure_registered depth p new = Inr q \<longrightarrow> drains_ok depth after (eradicate q old new) rest))"

text \<open>The contract of one call of a hook, then of the hook: it raises, or leaves a plan between hooks in which the steps there were are as live
  as before, and the side replacements it recorded and the step it returns can replace.\<close>

definition extends :: "plan \<Rightarrow> plan \<Rightarrow> bool" where
  "extends p q \<longleftrightarrow> set (p_steps p) \<subseteq> set (p_steps q) \<and> p_dead_ids q = p_dead_ids p
     \<and> (\<forall>x \<in> set (p_steps p). step_id q x = step_id p x)"

definition call_ok :: "nat \<Rightarrow> plan \<Rightarrow> ref \<Rightarrow> plan \<Rightarrow> ref \<Rightarrow> bool" where
  "call_ok depth p r q new \<longleftrightarrow> reg_inv q \<and> extends p q
     \<and> drains_ok depth (\<lambda>s. new \<noteq> r \<longrightarrow> replaceable depth s r new) q (p_side_replacements q)"

definition hook_ok :: "nat \<Rightarrow> optimizer \<Rightarrow> bool" where
  "hook_ok depth hook \<longleftrightarrow>
     (\<forall>p r q new. reg_inv p \<longrightarrow> p_side_replacements p = [] \<longrightarrow> r \<in> set (live p) \<longrightarrow> hook p r = Inr (q, new)
        \<longrightarrow> call_ok depth p r q new)"

definition raises :: "optimizer \<Rightarrow> exn \<Rightarrow> bool" where
  "raises hook e \<longleftrightarrow> (\<exists>p r. hook p r = Inl e)"

text \<open>What holds between two replacements; \<open>p0\<close> is the plan \<open>optimize\<close> started with.\<close>

definition opt_inv :: "plan \<Rightarrow> plan \<Rightarrow> remap \<Rightarrow> bool" where
  "opt_inv p0 p merged \<longleftrightarrow> reg_inv p \<and> distinct (map fst merged) \<and> fst ` set merged = p_dead_ids p
     \<and> chain_ok (step_id p) merged \<and> snd ` set merged \<subseteq> set (p_steps p)
     \<and> set (p_steps p0) \<subseteq> set (p_steps p) \<and> (\<forall>x \<in> set (p_steps p0). step_id p x = step_id p0 x)"

lemma opt_inv_side: "opt_inv p0 (p\<lparr>p_side_replacements := es\<rparr>) merged = opt_inv p0 p merged"
  by (simp add: opt_inv_def)

lemma opt_inv_extends:
  assumes "opt_inv p0 p merged" and "reg_inv q" and "extends p q"
  shows "opt_inv p0 q merged"
proof -
  have "chain_ok (step_id q) merged = chain_ok (step_id p) merged"
    by (rule chain_ok_cong) (use assms in \<open>auto simp: opt_inv_def extends_def\<close>)
  then show ?thesis using assms by (auto simp: opt_inv_def extends_def)
qed

lemma replace_registered:
  assumes inv: "opt_inv p0 p merged" and d: "d \<in> set (live p)" and s: "s \<in> set (live p)"
    and "d \<notin> reach (p_heap p) (\<lambda>r. False) {s}"
  shows "opt_inv p0 (eradicate p d s) (dict_set merged (step_id (eradicate p d s) d) s)"
proof -
  let ?q = "eradicate p d s"
  have ne: "d \<noteq> s" using assms(4) by (auto intro: reach_target)
  have reg: "reg_inv p" using inv by (simp add: opt_inv_def)
  note lt = plan_invD(2) [OF reg_invD(1) [OF reg]]
  have steps: "d \<in> set (p_steps p)" "s \<in> set (p_steps p)" using d s by (auto simp: set_live)
  have ids: "step_id ?q x = step_id p x" if "x \<in> set (p_steps p)" for x using lt [OF that] by (rule eradicate_step_id)
  have fresh: "step_id p d \<notin> fst ` set merged" "step_id p s \<notin> fst ` set merged"
    using inv d s by (auto simp: opt_inv_def set_live)
  then have app: "dict_set merged (step_id ?q d) s = merged @ [(step_id p d, s)]"
    using ids [OF steps(1)] by (simp add: dict_set_fresh)
  have "step_id p s \<noteq> step_id p d"
    using ne steps plan_invD(3) [OF reg_invD(1) [OF reg]] by (auto dest: inj_onD)
  then have "chain_ok (step_id ?q) (merged @ [(step_id p d, s)])"
    using inv fresh(2) steps ids chain_ok_cong [of merged "step_id ?q" "step_id p"]
    by (auto simp: chain_ok_snoc opt_inv_def)
  then show ?thesis
    unfolding app using inv eradicate_reg [OF reg d s ne assms(4)] ids steps fresh(1) ne
    by (auto simp: opt_inv_def eradicate_dead)
qed

lemma ensure_live:
  assumes "reg_inv p" and "replaceable depth p old r"
  shows "\<exists>q. ensure_registered depth p r = Inr q \<and> registered_live p [r] q"
proof (cases "step_id p r < 0")
  case True
  then show ?thesis
    using register_all_live [OF assms(1), of "[r]" _ depth] assms(2)
    by (auto simp: ensure_registered_def add_step_def replaceable_def)
next
  case False
  have "r < length (p_heap p)" using assms(2) by (simp add: replaceable_def registrable_def)
  then have "r \<in> p_seen p" using False reg_invD(5) [OF assms(1)] by force
  then have "r \<in> set (live p)" using assms(2) by (auto simp: replaceable_def registrable_def intro: reach_target)
  then show ?thesis using False registered_live_refl [OF assms(1), of "[r]"] by (simp add: ensure_registered_def)
qed

lemma replace_step:
  assumes inv: "opt_inv p0 p merged" and rep: "replaceable depth p old new"
  shows "\<exists>q. ensure_registered depth p new = Inr q \<and> p_side_replacements q = p_side_replacements p
        \<and> set (p_steps p) \<subseteq> set (p_steps (eradicate q old new))
        \<and> opt_inv p0 (eradicate q old new) (dict_set merged (step_id (eradicate q old new) old) new)"
proof -
  have reg: "reg_inv p" using inv by (simp add: opt_inv_def)
  obtain q where q0: "ensure_registered depth p new = Inr q" "registered_live p [new] q"
    using ensure_live [OF reg rep] by blast
  note q = q0(2) [unfolded registered_live_def]
  have sub: "set (p_steps p) \<subseteq> set (p_steps q)" using q by (auto dest: set_mono_prefix)
  have "opt_inv p0 q merged" by (rule opt_inv_extends [OF inv]) (use q sub in \<open>auto simp: extends_def\<close>)
  moreover have "reach (p_heap q) (\<lambda>r. False) {new} = reach (p_heap p) (\<lambda>r. False) {new}"
    using q by (intro reach_same_deps) blast
  ultimately have "opt_inv p0 (eradicate q old new) (dict_set merged (step_id (eradicate q old new) old) new)"
    using q rep by (intro replace_registered) (auto simp: replaceable_def)
  with q0(1) q sub show ?thesis by auto
qed

section \<open>The passes\<close>

lemma drain_side_spec:
  assumes "opt_inv p0 p merged" and "drains_ok depth after p es"
  shows "\<exists>q merged'. drain_side depth p merged es = Inr (q, merged') \<and> opt_inv p0 q merged' \<and> after q
        \<and> set (p_steps p) \<subseteq> set (p_steps q)"
  using assms
proof (induction es arbitrary: p merged)
  case (Cons e es)
  obtain old new where e: "e = (old, new)" by (cases e)
  have rep: "replaceable depth p old new" using Cons.prems(2) e by simp
  obtain q where q: "ensure_registered depth p new = Inr q" "set (p_steps p) \<subseteq> set (p_steps (eradicate q old new))"
      "opt_inv p0 (eradicate q old new) (dict_set merged (step_id (eradicate q old new) old) new)"
    using replace_step [OF Cons.prems(1) rep] by blast
  have "drains_ok depth after (eradicate q old new) es" using Cons.prems(2) e q(1) by simp
  from Cons.IH [OF q(3) this] q(1,2) e show ?case by (auto simp: Let_def)
qed simp

definition pass_ends :: "plan \<Rightarrow> optimizer \<Rightarrow> ref set \<Rightarrow> (plan \<times> remap \<times> bool) res \<Rightarrow> bool" where
  "pass_ends p0 hook S res \<longleftrightarrow>
     (case res of
        Inl e \<Rightarrow> raises hook e
      | Inr (q, merged, changed) \<Rightarrow> opt_inv p0 q merged \<and> p_side_replacements q = [] \<and> S \<subseteq> set (p_steps q))"

lemma pass_ends_mono: "pass_ends p0 hook T res \<Longrightarrow> S \<subseteq> T \<Longrightarrow> pass_ends p0 hook S res"
  by (auto simp: pass_ends_def split: sum.splits prod.splits)

lemma optimize_pass_ends:
  assumes ok: "hook_ok depth hook"
    and "opt_inv p0 p merged" and "p_side_replacements p = []" and "set rs \<subseteq> set (p_steps p)"
  shows "pass_ends p0 hook (set (p_steps p)) (optimize_pass depth hook rs p merged changed)"
  using assms(2-4)
proof (induction rs arbitrary: p merged changed)
  case Nil
  then show ?case by (simp add: pass_ends_def)
next
  case (Cons r rs)
  show ?case
  proof (cases "step_id p r \<in> p_dead_ids p")
    case False
    have reg: "reg_inv p" and r: "r \<in> set (live p)"
      using Cons.prems False by (simp_all add: opt_inv_def set_live)
    show ?thesis
    proof (cases "hook p r")
      case (Inl e)
      with False show ?thesis by (auto simp: pass_ends_def raises_def)
    next
      case (Inr out)
      obtain p1 new where out: "out = (p1, new)" by (cases out)
      have hook: "reg_inv p1" "extends p p1"
        and drains: "drains_ok depth (\<lambda>s. new \<noteq> r \<longrightarrow> replaceable depth s r new) p1 (p_side_replacements p1)"
        using ok Inr out reg r Cons.prems(2) unfolding hook_ok_def call_ok_def by blast+
      have inv1: "opt_inv p0 p1 merged" by (rule opt_inv_extends [OF Cons.prems(1) hook])
      have sub1: "set (p_steps p) \<subseteq> set (p_steps p1)" using hook(2) by (simp add: extends_def)
      obtain p2 merged2 where p2: "drain_side depth p1 merged (p_side_replacements p1) = Inr (p2, merged2)"
          "opt_inv p0 p2 merged2" "new \<noteq> r \<longrightarrow> replaceable depth p2 r new" "set (p_steps p1) \<subseteq> set (p_steps p2)"
        using drain_side_spec [OF inv1 drains] by blast
      let ?p3 = "p2\<lparr>p_side_replacements := []\<rparr>" and ?changed = "changed \<or> p_side_replacements p1 \<noteq> []"
      have sub3: "set (p_steps p) \<subseteq> set (p_steps ?p3)" using sub1 p2(4) by auto
      have inv3: "opt_inv p0 ?p3 merged2" using p2(2) by (simp add: opt_inv_side)
      show ?thesis
      proof (cases "new = r")
        case True
        have "pass_ends p0 hook (set (p_steps ?p3)) (optimize_pass depth hook rs ?p3 merged2 ?changed)"
          by (rule Cons.IH [OF inv3]) (use Cons.prems(3) sub3 in auto)
        from pass_ends_mono [OF this sub3] True False Inr out p2(1) show ?thesis by (simp add: Let_def)
      next
        case no: False
        then have "replaceable depth ?p3 r new" using p2(3) by (simp add: replaceable_def registrable_def fresh_rank_def)
        from replace_step [OF inv3 this] obtain p4 where
          p4: "ensure_registered depth ?p3 new = Inr p4" "p_side_replacements p4 = []"
            "set (p_steps ?p3) \<subseteq> set (p_steps (eradicate p4 r new))"
            "opt_inv p0 (eradicate p4 r new) (dict_set merged2 (step_id (eradicate p4 r new) r) new)"
          by auto
        have sub5: "set (p_steps p) \<subseteq> set (p_steps (eradicate p4 r new))" using sub3 p4(3) by blast
        have "pass_ends p0 hook (set (p_steps (eradicate p4 r new)))
            (optimize_pass depth hook rs (eradicate p4 r new) (dict_set merged2 (step_id (eradicate p4 r new) r) new) True)"
          by (rule Cons.IH [OF p4(4)]) (use Cons.prems(3) sub5 p4(2) in auto)
        from pass_ends_mono [OF this sub5] no False Inr out p4(1) p2(1) show ?thesis by (simp add: Let_def)
      qed
    qed
  qed (use Cons in simp)
qed

lemma optimize_loop_ends:
  assumes ok: "hook_ok depth hook" and "opt_inv p0 p merged" and "p_side_replacements p = []"
  shows "case optimize_loop n depth hook p merged of
      Inl e \<Rightarrow> raises hook e
    | Inr (q, merged') \<Rightarrow> opt_inv p0 q merged'"
  using assms(2,3)
proof (induction n arbitrary: p merged)
  case (Suc n)
  have inv: "plan_inv p" using Suc.prems(1) by (simp add: opt_inv_def reg_inv_def)
  let ?pass = "optimize_pass depth hook (order_refs (p_heap p) (p_steps p)) p merged False"
  have ends: "pass_ends p0 hook (set (p_steps p)) ?pass"
    by (rule optimize_pass_ends [OF ok Suc.prems]) (simp add: order_refs_steps [OF inv])
  show ?case
  proof (cases ?pass)
    case (Inl e)
    with ends show ?thesis by (simp add: topo_order_inv [OF inv] pass_ends_def)
  next
    case (Inr out)
    obtain q merged' changed where out: "out = (q, merged', changed)" by (cases out)
    with ends Inr have q: "opt_inv p0 q merged'" "p_side_replacements q = []" by (simp_all add: pass_ends_def)
    show ?thesis
      using Suc.IH [OF q] q(1) Inr out by (cases changed) (simp_all add: topo_order_inv [OF inv])
  qed
qed simp

lemma resolve_entries_spec:
  assumes "\<And>e. e \<in> set es \<Longrightarrow> \<exists>f. follow (step_id p) merged (snd e) = Some f \<and> Q f"
  shows "\<exists>out. resolve_entries p merged es = Some out \<and> map fst out = map fst es \<and> (\<forall>e \<in> set out. Q (snd e))"
  using assms
proof (induction es)
  case (Cons e es)
  obtain i r where e: "e = (i, r)" by (cases e)
  from Cons obtain out where "resolve_entries p merged es = Some out" "map fst out = map fst es" "\<forall>e \<in> set out. Q (snd e)"
    by auto
  moreover from Cons.prems [of e] e obtain f where "follow (step_id p) merged r = Some f" "Q f" by auto
  ultimately show ?case using e by auto
qed simp

text \<open>\<open>Plan.optimize\<close> returns.\<close>

lemma optimize_returns:
  assumes reg: "reg_inv p" and none: "p_dead_ids p = {}" "p_side_replacements p = []" and ok: "hook_ok depth hook"
  shows "(\<exists>e. optimize depth hook p = Some (Inl e) \<and> raises hook e)
    \<or> (\<exists>q m. optimize depth hook p = Some (Inr (q, m)) \<and> plan_inv q \<and> p_dead_ids q = {}
        \<and> distinct (map fst m) \<and> snd ` set m \<subseteq> set (p_steps q)
        \<and> (\<forall>r \<in> set (p_steps p). r < length (p_heap q) \<and> (map_of m (step_id q r) \<noteq> None \<or> r \<in> set (p_steps q))))"
proof -
  have "opt_inv p p []" using reg none by (simp add: opt_inv_def)
  note ends = optimize_loop_ends [OF ok this none(2), of max_optimization_loops]
  show ?thesis
  proof (cases "optimize_loop max_optimization_loops depth hook p []")
    case (Inl e)
    with ends show ?thesis by (simp add: optimize_def)
  next
    case (Inr out)
    then obtain q merged where loop: "optimize_loop max_optimization_loops depth hook p [] = Inr (q, merged)"
      and inv: "opt_inv p q merged" using ends by (cases out) auto
    note I = inv [unfolded opt_inv_def]
    let ?q = "sweep_dead q"
    have target: "\<exists>f. follow (step_id ?q) merged (snd e) = Some f \<and> f \<in> set (live q)" if "e \<in> set merged" for e
      using follow_ends [of q "[]" merged "snd e" "\<lambda>x. x \<in> set (p_steps q)" "\<lambda>x y. True"] I that
      by (auto simp: set_live)
    obtain m where m: "resolve_entries ?q merged merged = Some m" "map fst m = map fst merged"
      "\<forall>e \<in> set m. snd e \<in> set (live q)"
      using resolve_entries_spec [of merged ?q merged "\<lambda>f. f \<in> set (live q)"] target by blast
    have plan: "plan_inv q" using I by (simp add: reg_inv_def)
    have "r < length (p_heap ?q) \<and> (map_of m (step_id ?q r) \<noteq> None \<or> r \<in> set (p_steps ?q))"
      if "r \<in> set (p_steps p)" for r
    proof -
      have r: "r \<in> set (p_steps q)" using that I by blast
      have "fst ` set m = p_dead_ids q" using I m(2) by (metis list.set_map)
      then have "map_of m (step_id q r) = None \<longleftrightarrow> step_id q r \<notin> p_dead_ids q" by (simp add: map_of_eq_None_iff)
      with r plan_invD(2) [OF plan r] show ?thesis by (auto simp: set_live)
    qed
    with m loop sweep_inv [OF plan] I show ?thesis
      by (intro disjI2 exI [of _ ?q] exI [of _ m]) (auto simp: optimize_def Let_def resolve_merged_def)
  qed
qed


section \<open>Keeping the contract\<close>

text \<open>A step object is allocated outside the plan.\<close>

definition alloc :: "plan \<Rightarrow> step_obj \<Rightarrow> plan" where
  "alloc p c = p\<lparr>p_heap := p_heap p @ [c]\<rparr>"

lemma alloc_simps [simp]:
  "p_steps (alloc p c) = p_steps p" "p_seen (alloc p c) = p_seen p" "p_dead_ids (alloc p c) = p_dead_ids p"
  "p_heap (alloc p c) = p_heap p @ [c]" "p_side_replacements (alloc p c) = p_side_replacements p"
  "edges (alloc p c) = edges p"
  by (simp_all add: alloc_def edges_def [abs_def])

lemma alloc_deps: "deps_of (h @ [c]) x = (if x = length h then deps c else deps_of h x)"
  by (auto simp: deps_of_def obj_def nth_append)

lemma alloc_step_id: "x < length (p_heap p) \<Longrightarrow> step_id (alloc p c) x = step_id p x"
  "step_id (alloc p c) (length (p_heap p)) = sid c"
  by (simp_all add: step_id_def obj_def nth_append)

lemma alloc_live: "reg_inv p \<Longrightarrow> live (alloc p c) = live p"
  unfolding live_def using plan_invD(2) [OF reg_invD(1)] by (auto intro!: filter_cong simp: alloc_step_id)

lemma alloc_acyclic:
  assumes "acyclic_heap h" and "closed_heap h" and "set (deps c) \<subseteq> {..<length h}"
  shows "acyclic_heap (h @ [c])"
proof -
  obtain rank where rank: "ranked h rank" using assms(1) by (auto simp: acyclic_heap_def)
  define rank' where "rank' x = (if x = length h then Suc (sum_list (map rank (deps c))) else rank x)" for x
  have "rank' d < rank' x" if "d \<in> set (deps_of (h @ [c]) x)" for x d
  proof (cases "x = length h")
    case True
    with that assms(3) have "d \<in> set (deps c)" "d < length h" by (auto simp: alloc_deps)
    then show ?thesis using True member_le_sum_list [of "rank d" "map rank (deps c)"] by (simp add: rank'_def)
  next
    case False
    with that have d: "d \<in> set (deps_of h x)" by (simp add: alloc_deps)
    then have "d < length h" using assms(2) by (auto simp: closed_heap_def)
    with False rankedD [OF rank d] show ?thesis by (simp add: rank'_def)
  qed
  then show ?thesis unfolding acyclic_heap_def ranked_def by blast
qed

lemma alloc_reg:
  assumes inv: "reg_inv p" and c: "sid c = -1" "set (deps c) \<subseteq> {..<length (p_heap p)}"
  shows "reg_inv (alloc p c)"
proof -
  note I = reg_invD [OF inv] and J = plan_invD [OF reg_invD(1) [OF inv]]
  have ids: "step_id (alloc p c) x = step_id p x" if "x \<in> set (p_steps p)" for x
    using J(2) [OF that] by (simp add: alloc_step_id)
  have deps: "deps_of (p_heap p @ [c]) x = deps_of (p_heap p) x" if "x \<in> set (p_steps p)" for x
    using J(2) [OF that] by (simp add: alloc_deps)
  have sub: "set (live p) \<subseteq> set (p_steps p)" by (auto simp: set_live)
  have slots: "slots (alloc p c) d = slots p d" for d
    using deps sub by (auto simp: slots_def alloc_live [OF inv])
  have "plan_inv (alloc p c)"
    unfolding plan_inv_def alloc_simps alloc_live [OF inv] slots
  proof (intro conjI ballI)
    show "distinct (p_steps p)" "acyclic_heap (p_heap p @ [c])"
      using J(1,8) alloc_acyclic [OF J(8) I(3) c(2)] by auto
    show "set (p_steps p) \<subseteq> {..<length (p_heap p @ [c])}" using J(2) by (auto simp: less_Suc_eq)
    show "inj_on (step_id (alloc p c)) (set (p_steps p))" using J(3) ids by (simp add: inj_on_def)
    fix x
    show "0 \<le> step_id (alloc p c) x" "set (deps_of (p_heap p @ [c]) x) \<subseteq> set (p_steps p)" if "x \<in> set (p_steps p)"
      using that J(4,5) ids deps by auto
    show "set (deps_of (p_heap p @ [c]) x) \<subseteq> set (live p)" "set (edges p (step_id (alloc p c) x)) = slots p x"
      if "x \<in> set (live p)"
    proof -
      have "x \<in> set (p_steps p)" using that sub by blast
      then show "set (deps_of (p_heap p @ [c]) x) \<subseteq> set (live p)" "set (edges p (step_id (alloc p c) x)) = slots p x"
        using J(6,7) [OF that] by (simp_all only: ids deps)
    qed
  qed
  moreover have "closed_heap (p_heap p @ [c])"
    using I(3) c(2) by (fastforce simp: closed_heap_def alloc_deps)
  moreover have "step_id (alloc p c) (p_steps p ! i) = int i" if "i < length (p_steps p)" for i
    using ids I(4) [OF that] that by simp
  moreover have "step_id (alloc p c) x = -1" if "x < Suc (length (p_heap p))" "x \<notin> p_seen p" for x
    using that I(5) c(1) alloc_step_id by (cases "x = length (p_heap p)") auto
  moreover have "p_dead_ids p \<subseteq> step_id (alloc p c) ` set (p_steps p)"
    using I(7) ids by (simp add: image_def)
  ultimately show ?thesis using I(2,6) ids unfolding reg_inv_def by simp
qed

text \<open>A step allocated over live steps can replace one that none of them needs.\<close>

lemma alloc_replaceable:
  assumes inv: "reg_inv p" and c: "sid c = -1" "set (deps c) \<subseteq> set (live p)" and old: "old \<in> set (live p)"
    and "old \<notin> reach (p_heap p) (\<lambda>r. False) (set (deps c))" and "0 < depth"
  shows "replaceable depth (alloc p c) old (length (p_heap p))"
proof -
  let ?n = "length (p_heap p)"
  note I = reg_invD [OF inv] and J = plan_invD [OF reg_invD(1) [OF inv]]
  have sub: "set (live p) \<subseteq> set (p_steps p)" by (auto simp: set_live)
  have n: "?n \<notin> set (p_steps p)" using J(2) by fastforce
  have reach: "x = ?n \<or> x \<in> reach (p_heap p) (\<lambda>r. False) (set (deps c))"
    if "x \<in> reach (p_heap p @ [c]) (\<lambda>r. False) {?n}" for x
    using that
  proof (induction rule: reach.induct)
    case (reach_dep x d)
    then show ?case by (auto simp: alloc_deps intro: reach.intros split: if_splits)
  qed simp
  have live: "x \<in> set (live p)" if "x \<in> reach (p_heap p) (\<lambda>r. False) (set (deps c))" for x
    using that by (rule reach_closed) (use c J(6) in blast)+
  obtain rank where rank: "ranked (p_heap p) rank" using J(8) by (auto simp: acyclic_heap_def)
  define rank' where "rank' x = (if x = ?n then 0 else rank x)" for x
  have "d < ?n" if "d \<in> set (deps_of (p_heap p) x)" for x d using that I(3) by (auto simp: closed_heap_def)
  then have "fresh_rank (alloc p c) rank'"
    using c(2) sub I(2) rankedD [OF rank] by (fastforce simp: fresh_rank_def rank'_def alloc_deps)
  moreover have "rank' ?n < depth" using assms(6) by (simp add: rank'_def)
  moreover have "old \<noteq> ?n" using old sub n by blast
  ultimately show ?thesis
    using assms(5) reach live I(2) n old
    by (auto simp: replaceable_def registrable_def alloc_live [OF inv])
qed


text \<open>Replacements that hang on one set of live steps, closed under dependencies and free of the steps to be
  replaced, can be made one after the other.\<close>

definition island :: "plan \<Rightarrow> ref set \<Rightarrow> bool" where
  "island p U \<longleftrightarrow> reg_inv p \<and> U \<subseteq> set (live p) \<and> (\<forall>x \<in> U. set (deps_of (p_heap p) x) \<subseteq> U)"

lemma island_replaceable:
  assumes "island p U" and "new \<in> U" and "old \<in> set (live p)" and "old \<notin> U" and "0 < depth"
  shows "replaceable depth p old new"
proof -
  have I: "reg_inv p" "U \<subseteq> set (live p)" using assms(1) by (simp_all add: island_def)
  have reach: "reach (p_heap p) (\<lambda>r. False) {new} \<subseteq> U"
  proof
    fix x assume "x \<in> reach (p_heap p) (\<lambda>r. False) {new}"
    then show "x \<in> U" by (rule reach_closed) (use assms(1,2) in \<open>auto simp: island_def\<close>)
  qed
  have live: "set (live p) \<subseteq> {..<length (p_heap p)}" "set (live p) \<subseteq> p_seen p"
    using plan_invD(2) [OF reg_invD(1) [OF I(1)]] reg_invD(2) [OF I(1)] by (auto simp: set_live)
  obtain rank where "ranked (p_heap p) rank"
    using plan_invD(8) [OF reg_invD(1) [OF I(1)]] by (auto simp: acyclic_heap_def)
  then have "fresh_rank p rank" using rankedD by (auto simp: fresh_rank_def)
  then have "\<exists>rank. fresh_rank p rank \<and> (new \<notin> p_seen p \<longrightarrow> rank new < depth)"
    using assms(2) I(2) live(2) by blast
  then show ?thesis using assms(2-4) reach I live unfolding replaceable_def registrable_def by auto
qed

lemma drains_island:
  assumes "island p U" and "distinct (map fst es)" and "fst ` set es \<subseteq> set (live p) - U" and "snd ` set es \<subseteq> U"
    and "0 < depth" and "r \<in> set (live p) - U - fst ` set es"
    and after: "\<And>s. island s U \<Longrightarrow> r \<in> set (live s) - U \<Longrightarrow> after s"
  shows "drains_ok depth after p es"
  using assms(1-4,6)
proof (induction es arbitrary: p)
  case Nil
  then show ?case using after by simp
next
  case (Cons e es)
  obtain old new where e: "e = (old, new)" by (cases e)
  have I: "reg_inv p" "U \<subseteq> set (live p)" "new \<in> U" "old \<in> set (live p)" "old \<notin> U"
    using Cons.prems e by (auto simp: island_def)
  have rep: "replaceable depth p old new" by (rule island_replaceable [OF Cons.prems(1) I(3-5) assms(5)])
  have new: "new \<in> set (live p)" "old \<noteq> new" using I by auto
  then have "\<not> step_id p new < 0"
    using plan_invD(4) [OF reg_invD(1) [OF I(1)], of new] by (auto simp: set_live)
  then have reg: "ensure_registered depth p new = Inr p" by (simp add: ensure_registered_def)
  let ?q = "eradicate p old new"
  have live: "set (live ?q) = set (live p) - {old}"
    using live_eradicate [OF reg_invD(1) [OF I(1)] I(4) new(2)] by auto
  have "reg_inv ?q"
    by (rule eradicate_reg [OF I(1,4) new]) (use rep in \<open>simp add: replaceable_def\<close>)
  moreover have "set (deps_of (p_heap ?q) x) \<subseteq> U" if "x \<in> U" for x
  proof -
    have "x < length (p_heap p)"
      using that I(2) plan_invD(2) [OF reg_invD(1) [OF I(1)], of x] by (auto simp: set_live)
    then show ?thesis
      using eradicate_deps [OF reg_invD(1) [OF I(1)] I(4) new(2)] Cons.prems(1) that I(3) by (auto simp: island_def)
  qed
  ultimately have "island ?q U" using I(2,5) live by (auto simp: island_def)
  moreover have "distinct (map fst es)" "snd ` set es \<subseteq> U" using Cons.prems(2,4) e by auto
  moreover have "fst ` set es \<subseteq> set (live ?q) - U" using Cons.prems(2,3) e live by auto
  moreover have "r \<in> set (live ?q) - U - fst ` set es" using Cons.prems(5) e live by auto
  ultimately have "drains_ok depth after ?q es" using Cons.IH [of ?q] by blast
  with rep reg e show ?case by simp
qed

end
