(* ===== verification/Output_Properties.thy ===== *)
theory Output_Properties
  imports Execution_Properties Output_Laws Dag_Optimize Dag_Properties
begin

text \<open>
  The correctness properties of the finished output plan, with an instance on the example DAG: a field
  over the list of the two constants, and a step of effect nothing consumes.
\<close>

section \<open>Finalizing\<close>


definition example_tree :: object_plan where
  "example_tree = Object_Plan ''Query'' [Field_Plan ''all'' ''Query.all'' (Some 2) (Leaf_C ''Int'')] (new_layer Root (Some 0))"





section \<open>Orphaned effects\<close>

text \<open>C9: when the layers have different boundaries, each side-effecting step that no field consumes is attached
  to exactly one layer, so that its effect happens once per entry of one bucket.\<close>

lemma orphaned_effects_run_once:
  assumes "distinct (boundaries h p)" and "attach_effect_steps h p orphaned = Inr p'"
  shows "mset (all_effects p') = mset (all_effects p) + mset orphaned"
  using assms by (rule attach_effects_once)

lemma example_attached:
  "\<exists>op'. attach_effect_steps (p_heap example_plan) example_tree [3] = Inr op'"
  by (simp add: attach_effect_steps_def deepest_owner_parent_id_def example_tree_def new_layer_def Let_def)

lemma orphaned_effects_run_once_witness:
  "\<exists>op'. attach_effect_steps (p_heap example_plan) example_tree [3] = Inr op' \<and> all_effects op' = [3]"
proof -
  obtain op' where op': "attach_effect_steps (p_heap example_plan) example_tree [3] = Inr op'"
    using example_attached by blast
  have "distinct (boundaries (p_heap example_plan) example_tree)"
    by (simp add: example_tree_def new_layer_def child_plan_def)
  from orphaned_effects_run_once [OF this op'] have "mset (all_effects op') = {#3#}"
    by (simp add: example_tree_def new_layer_def child_plan_def)
  with op' show ?thesis by simp
qed

text \<open>
  Two fields whose steps deduplication merged give their children one boundary, and then an effect of
  that boundary is attached to both.
\<close>

definition twin_tree :: object_plan where
  "twin_tree = Object_Plan ''Query''
     (map (\<lambda>name. Field_Plan name ''Query.it'' (Some 1) (Object_C ''It''
        (Some (Object_Plan ''It'' [Field_Plan ''x'' ''It.x'' (Some 2) (Leaf_C ''Int'')] (new_layer Nested (Some 1))))))
       [''a'', ''b'']) (new_layer Root (Some 0))"

lemma shared_boundary_duplicates_effect:
  "\<exists>op'. attach_effect_steps (p_heap example_plan) twin_tree [3] = Inr op' \<and> all_effects op' = [3, 3]"
proof -
  have ids: "sid (obj (p_heap example_plan) 0) = 0" "sid (obj (p_heap example_plan) 1) = 1"
    "sid (obj (p_heap example_plan) 2) = 2" "sid (obj (p_heap example_plan) 3) = 3"
    by (simp_all add: example_plan_simps obj_def)
  have "dependency_ids (p_heap example_plan) 3 = {1, 3}"
    using order_steps_inv(1) [OF example_inv, of "[3]"]
    by (simp add: dependency_ids_def example_plan_simps(2) order_refs_def ids ids(2) [unfolded One_nat_def])
  then show ?thesis
    by (simp add: attach_effect_steps_def deepest_owner_parent_id_def twin_tree_def new_layer_def child_plan_def Let_def
        with_child_def ids ids(2) [unfolded One_nat_def])
qed

end
