(* ===== verification/Pg_Resource.thy ===== *)
theory Pg_Resource
  imports Pg_Cursor
begin

text \<open>
  Resources (\<open>src/src/grafast_py/pg/resource.py\<close>): the attributes of a table with their codecs, its
  relations, and how a fetched row is decoded. A reference to a resource object is its index. A computed
  attribute's expression is opaque SQL text; a type of the query builder is its name with the generic
  base class it derives from.
\<close>

type_synonym row = "(string \<times> pyval) list"

section \<open>Codecs and attributes\<close>

datatype sql_class = Integer_Class | Boolean_Class | String_Class | Json_Class | Other_Class

record type_engine =
  te_class :: sql_class
  te_name :: string

definition is_json_stable_native_type :: "type_engine \<Rightarrow> bool" where
  "is_json_stable_native_type t = (te_class t \<in> {Integer_Class, Boolean_Class, String_Class, Json_Class})"

record pg_codec =
  co_to_py :: "(pyval \<Rightarrow> pyval res) option"
  co_to_pg :: "(pyval \<Rightarrow> pyval res) option"
  co_sql_type :: "type_engine option"
  co_json_stable :: "bool option"

definition is_json_stable :: "pg_codec \<Rightarrow> bool" where
  "is_json_stable c = (case co_json_stable c of Some b \<Rightarrow> b | None \<Rightarrow> co_sql_type c = None)"

record pg_column =
  pc_name :: string
  pc_codec :: "pg_codec option"
  pc_not_null :: bool
  pc_has_default :: bool
  pc_sql_type :: "type_engine option"
  pc_expression :: "string option"

definition is_computed :: "pg_column \<Rightarrow> bool" where
  "is_computed a = (pc_expression a \<noteq> None)"

definition as_column :: "string + pg_column \<Rightarrow> pg_column" where
  "as_column entry =
     (case entry of
        Inr a \<Rightarrow> a
      | Inl name \<Rightarrow> \<lparr>pc_name = name, pc_codec = None, pc_not_null = False, pc_has_default = False,
                     pc_sql_type = None, pc_expression = None\<rparr>)"

definition to_py :: "pg_column \<Rightarrow> (pyval \<Rightarrow> pyval res) option" where
  "to_py a = (case pc_codec a of None \<Rightarrow> None | Some c \<Rightarrow> co_to_py c)"

section \<open>Key columns and relations\<close>

text \<open>Exactly one of the single name and the tuple.\<close>

definition match_columns_tuple :: "string option \<Rightarrow> string list option \<Rightarrow> string list res" where
  "match_columns_tuple match_column match_columns =
     (case match_columns of
        Some cols \<Rightarrow>
          (if match_column \<noteq> None then Inl (ValueError ''pass match_column OR match_columns, not both'')
           else if cols = [] then Inl (ValueError ''match_columns must be non-empty'')
           else Inr cols)
      | None \<Rightarrow>
          (case match_column of
             None \<Rightarrow> Inl (ValueError ''pass a match_column or match_columns'')
           | Some c \<Rightarrow> Inr [c]))"

definition relation_columns_pair ::
  "string option \<Rightarrow> string option \<Rightarrow> string list option \<Rightarrow> string list option
   \<Rightarrow> (string list \<times> string list) res" where
  "relation_columns_pair local_column remote_column local_columns remote_columns =
     (if local_columns \<noteq> None \<or> remote_columns \<noteq> None then
        (if local_column \<noteq> None \<or> remote_column \<noteq> None
         then Inl (ValueError ''declare a relation with single columns OR column tuples, not both'')
         else (case (local_columns, remote_columns) of
                 (Some ls, Some rs) \<Rightarrow> Inr (ls, rs)
               | _ \<Rightarrow> Inl (ValueError ''a composite relation needs BOTH local_columns and remote_columns'')))
      else (case (local_column, remote_column) of
              (Some l, Some r) \<Rightarrow> Inr ([l], [r])
            | _ \<Rightarrow> Inl (ValueError ''a relation needs local_column and remote_column'')))"

datatype relation_kind = Has_One | Has_Many

record pg_relation =
  rl_name :: string
  rl_target :: nat
  rl_local :: "string list"
  rl_remote :: "string list"
  rl_kind :: relation_kind

definition make_relation ::
  "string \<Rightarrow> nat \<Rightarrow> string list \<Rightarrow> string list \<Rightarrow> relation_kind \<Rightarrow> pg_relation res" where
  "make_relation name target ls rs kind =
     (if ls = [] \<or> length ls \<noteq> length rs
      then Inl (ValueError ''relation needs matching non-empty local/remote column tuples'')
      else Inr \<lparr>rl_name = name, rl_target = target, rl_local = ls, rl_remote = rs, rl_kind = kind\<rparr>)"

definition local_column :: "pg_relation \<Rightarrow> string res" where
  "local_column r = (if length (rl_local r) > 1 then Inl (ValueError ''relation is composite'') else Inr (hd (rl_local r)))"

definition remote_column :: "pg_relation \<Rightarrow> string res" where
  "remote_column r =
     (if length (rl_local r) > 1 then Inl (ValueError ''relation is composite'') else Inr (hd (rl_remote r)))"

section \<open>Resources\<close>

record pg_resource =
  rs_name :: string
  rs_schema :: string
  rs_table :: string
  rs_attributes :: "(string \<times> pg_column) list"
  rs_primary_key :: string
  rs_column_types :: "(string \<times> type_engine) list"
  rs_relations :: "(string \<times> pg_relation) list"
  rs_opt_out_inline :: bool
  rs_customizer_arity :: "nat option"

text \<open>A duplicate attribute name is refused, not collapsed.\<close>

fun add_attributes :: "pg_column list \<Rightarrow> (string \<times> pg_column) list \<Rightarrow> (string \<times> pg_column) list res" where
  "add_attributes [] attributes = Inr attributes"
| "add_attributes (a # as) attributes =
     (if pc_name a \<in> fst ` set attributes
      then Inl (ValueError ''attribute names must be unique'')
      else add_attributes as (attributes @ [(pc_name a, a)]))"

fun codec_column_types :: "(string \<times> pg_column) list \<Rightarrow> (string \<times> type_engine) list" where
  "codec_column_types [] = []"
| "codec_column_types ((name, a) # attributes) =
     (case (case pc_codec a of None \<Rightarrow> None | Some c \<Rightarrow> co_sql_type c) of
        Some t \<Rightarrow> [(name, t)]
      | None \<Rightarrow>
          (case pc_sql_type a of
             Some t \<Rightarrow> (if is_json_stable_native_type t then [] else [(name, t)])
           | None \<Rightarrow> [])) @ codec_column_types attributes"

text \<open>The constructor: the customizer is given by the number of its positional parameters.\<close>

definition new_resource ::
  "string \<Rightarrow> string \<Rightarrow> string \<Rightarrow> (string + pg_column) list \<Rightarrow> string \<Rightarrow> nat option
   \<Rightarrow> (string \<times> type_engine) list \<Rightarrow> bool \<Rightarrow> pg_resource res" where
  "new_resource name schema tab columns primary_key customizer_params column_types opt_out =
     bind_res (add_attributes (map as_column columns) []) (\<lambda>attributes.
       if customizer_params \<noteq> None \<and> the customizer_params \<notin> {1, 2}
       then Inl (TypeError ''select_customizer must take 1 positional arg (context) or 2 (context, sources)'')
       else Inr \<lparr>rs_name = name, rs_schema = schema, rs_table = tab, rs_attributes = attributes,
                 rs_primary_key = primary_key,
                 rs_column_types = dict_update (codec_column_types attributes) column_types,
                 rs_relations = [], rs_opt_out_inline = opt_out,
                 rs_customizer_arity = customizer_params\<rparr>)"

definition qualified_table :: "pg_resource \<Rightarrow> string" where
  "qualified_table rs = rs_schema rs @ ''.'' @ rs_table rs"

definition stored_columns :: "pg_resource \<Rightarrow> string list" where
  "stored_columns rs = map pc_name (filter (\<lambda>a. \<not> is_computed a) (map snd (rs_attributes rs)))"

definition computed_columns :: "pg_resource \<Rightarrow> string list" where
  "computed_columns rs = map pc_name (filter is_computed (map snd (rs_attributes rs)))"

definition computed_projections :: "pg_resource \<Rightarrow> (string \<times> string) list" where
  "computed_projections rs =
     map (\<lambda>a. (the (pc_expression a), pc_name a)) (filter is_computed (map snd (rs_attributes rs)))"

fun assert_order_terms_stored :: "pg_resource \<Rightarrow> order_term list \<Rightarrow> unit res" where
  "assert_order_terms_stored rs [] = Inr ()"
| "assert_order_terms_stored rs (t # ts) =
     (case map_of (rs_attributes rs) (ot_column t) of
        Some a \<Rightarrow> (if is_computed a then Inl (ValueError ''cannot order by computed column'')
                   else assert_order_terms_stored rs ts)
      | None \<Rightarrow> assert_order_terms_stored rs ts)"

section \<open>Decoding rows\<close>

definition has_decoders :: "pg_resource \<Rightarrow> bool" where
  "has_decoders rs = (\<exists>a \<in> set (map snd (rs_attributes rs)). to_py a \<noteq> None)"

text \<open>One attribute of \<open>decode_row\<close>'s loop.\<close>

definition decode_attribute :: "string \<times> pg_column \<Rightarrow> row \<Rightarrow> row res" where
  "decode_attribute na out =
     (case (to_py (snd na), map_of out (fst na)) of
        (Some f, Some v) \<Rightarrow> bind_res (f v) (\<lambda>w. Inr (dict_set out (fst na) w))
      | _ \<Rightarrow> Inr out)"

fun decode_attributes :: "(string \<times> pg_column) list \<Rightarrow> row \<Rightarrow> row res" where
  "decode_attributes [] out = Inr out"
| "decode_attributes (na # attributes) out = bind_res (decode_attribute na out) (decode_attributes attributes)"

definition decode_row :: "pg_resource \<Rightarrow> row \<Rightarrow> row res" where
  "decode_row rs r = (if \<not> has_decoders rs then Inr r else decode_attributes (rs_attributes rs) r)"

definition decode_rows :: "pg_resource \<Rightarrow> row list \<Rightarrow> row list res" where
  "decode_rows rs rows = (if \<not> has_decoders rs then Inr rows else map_res (decode_row rs) rows)"

definition decode_value :: "pg_resource \<Rightarrow> string \<Rightarrow> pyval \<Rightarrow> pyval res" where
  "decode_value rs name v =
     (case map_of (rs_attributes rs) name of
        None \<Rightarrow> Inr v
      | Some a \<Rightarrow> (case to_py a of None \<Rightarrow> Inr v | Some f \<Rightarrow> f v))"

section \<open>Foldability of an attribute\<close>

definition attribute_inline_json_safe :: "pg_resource \<Rightarrow> string \<Rightarrow> bool res" where
  "attribute_inline_json_safe rs name =
     (case map_of (rs_attributes rs) name of
        None \<Rightarrow> Inl (KeyError name)
      | Some a \<Rightarrow>
          (case pc_codec a of
             Some c \<Rightarrow> Inr (is_json_stable c)
           | None \<Rightarrow>
               (case (case pc_sql_type a of Some t \<Rightarrow> Some t | None \<Rightarrow> map_of (rs_column_types rs) name) of
                  Some t \<Rightarrow> Inr (is_json_stable_native_type t)
                | None \<Rightarrow> Inr False)))"

definition is_inline_json_safe :: "pg_resource \<Rightarrow> bool" where
  "is_inline_json_safe rs = (\<forall>name \<in> fst ` set (rs_attributes rs). attribute_inline_json_safe rs name = Inr True)"

section \<open>Declaring relations\<close>

definition declare_relation ::
  "relation_kind \<Rightarrow> string \<Rightarrow> nat \<Rightarrow> string option \<Rightarrow> string option \<Rightarrow> string list option \<Rightarrow> string list option
   \<Rightarrow> pg_resource \<Rightarrow> (pg_relation \<times> pg_resource) res" where
  "declare_relation kind name target lc rc lcs rcs rs =
     bind_res (relation_columns_pair lc rc lcs rcs) (\<lambda>(l, r).
     bind_res (make_relation name target l r kind) (\<lambda>relation.
     Inr (relation, rs\<lparr>rs_relations := dict_set (rs_relations rs) name relation\<rparr>)))"

definition has_one ::
  "string \<Rightarrow> nat \<Rightarrow> string option \<Rightarrow> string option \<Rightarrow> string list option \<Rightarrow> string list option
   \<Rightarrow> pg_resource \<Rightarrow> (pg_relation \<times> pg_resource) res" where
  "has_one = declare_relation Has_One"

definition has_many ::
  "string \<Rightarrow> nat \<Rightarrow> string option \<Rightarrow> string option \<Rightarrow> string list option \<Rightarrow> string list option
   \<Rightarrow> pg_resource \<Rightarrow> (pg_relation \<times> pg_resource) res" where
  "has_many = declare_relation Has_Many"

definition get_relation :: "pg_resource \<Rightarrow> string \<Rightarrow> pg_relation res" where
  "get_relation rs name =
     (case map_of (rs_relations rs) name of None \<Rightarrow> Inl (KeyError name) | Some r \<Rightarrow> Inr r)"

text \<open>The registry: the last resource added under a name is the one it resolves to.\<close>

definition registry_add :: "nat \<Rightarrow> pg_resource \<Rightarrow> (string \<times> nat) list \<Rightarrow> (string \<times> nat) list" where
  "registry_add ref rs registry = dict_set registry (rs_name rs) ref"

definition registry_get :: "(string \<times> nat) list \<Rightarrow> string \<Rightarrow> nat res" where
  "registry_get registry name = (case map_of registry name of None \<Rightarrow> Inl (KeyError name) | Some ref \<Rightarrow> Inr ref)"

section \<open>Laws\<close>

text \<open>The attributes are keyed by their own, distinct names.\<close>

definition resource_ok :: "pg_resource \<Rightarrow> bool" where
  "resource_ok rs \<longleftrightarrow> distinct (map fst (rs_attributes rs)) \<and> (\<forall>(n, a) \<in> set (rs_attributes rs). n = pc_name a)"

lemma add_attributes_ok:
  assumes "add_attributes as attributes = Inr out" and "distinct (map fst attributes)"
    and "\<forall>(n, a) \<in> set attributes. n = pc_name a"
  shows "distinct (map fst out) \<and> (\<forall>(n, a) \<in> set out. n = pc_name a) \<and> map snd out = map snd attributes @ as"
  using assms
proof (induction as attributes rule: add_attributes.induct)
  case (2 a as attributes)
  then have new: "pc_name a \<notin> fst ` set attributes" by (simp split: if_splits)
  with 2 show ?case by (auto simp: image_iff)
qed simp

lemma new_resource_ok:
  assumes "new_resource name schema tab columns pk params types opt = Inr rs"
  shows "resource_ok rs" and "map snd (rs_attributes rs) = map as_column columns"
    and "rs_primary_key rs = pk"
  using assms add_attributes_ok [of "map as_column columns" "[]"]
  by (auto simp: new_resource_def bind_res_Inr_iff resource_ok_def split: if_splits)

lemma names_of_attributes:
  "resource_ok rs \<Longrightarrow> map fst (rs_attributes rs) = map pc_name (map snd (rs_attributes rs))"
  by (auto simp: resource_ok_def)

lemma columns_partition:
  assumes "resource_ok rs"
  shows "set (stored_columns rs @ computed_columns rs) = fst ` set (rs_attributes rs)"
    and "distinct (stored_columns rs @ computed_columns rs)"
proof -
  let ?as = "map snd (rs_attributes rs)"
  have names: "map fst (rs_attributes rs) = map pc_name ?as" by (rule names_of_attributes [OF assms])
  then have "fst ` set (rs_attributes rs) = pc_name ` set ?as" by (metis set_map)
  then show "set (stored_columns rs @ computed_columns rs) = fst ` set (rs_attributes rs)"
    by (auto simp: stored_columns_def computed_columns_def)
  have "distinct (map pc_name ?as)" using assms names by (simp add: resource_ok_def)
  then show "distinct (stored_columns rs @ computed_columns rs)"
    unfolding stored_columns_def computed_columns_def by (induction ?as arbitrary: rs) (auto simp: distinct_map inj_on_def)
qed

lemma order_terms_stored_iff:
  "assert_order_terms_stored rs ts = Inr ()
     \<longleftrightarrow> (\<forall>t \<in> set ts. \<forall>a. map_of (rs_attributes rs) (ot_column t) = Some a \<longrightarrow> \<not> is_computed a)"
  by (induction ts) (auto split: option.splits)

text \<open>Decoding keeps the columns in their order and applies each codec to its own column.\<close>

lemma dict_set_keys: "map_of d k \<noteq> None \<Longrightarrow> map fst (dict_set d k v) = map fst d"
  by (induction d k v rule: dict_set.induct) (auto split: if_splits)

lemma decode_attribute_keys: "decode_attribute na out = Inr out' \<Longrightarrow> map fst out' = map fst out"
  by (auto simp: decode_attribute_def bind_res_Inr_iff dict_set_keys split: option.splits)

lemma decode_attributes_keys: "decode_attributes as out = Inr out' \<Longrightarrow> map fst out' = map fst out"
proof (induction as arbitrary: out)
  case (Cons na as)
  then obtain mid where "decode_attribute na out = Inr mid" "decode_attributes as mid = Inr out'"
    by (auto simp: bind_res_Inr_iff)
  with Cons.IH [of mid] show ?case by (simp add: decode_attribute_keys)
qed simp

lemma decode_row_keys: "decode_row rs r = Inr r' \<Longrightarrow> map fst r' = map fst r"
  by (auto simp: decode_row_def decode_attributes_keys split: if_splits)

definition decoded_cell :: "(string \<times> pg_column) list \<Rightarrow> string \<Rightarrow> pyval \<Rightarrow> pyval res" where
  "decoded_cell attributes c v =
     (case map_of attributes c of
        None \<Rightarrow> Inr v
      | Some a \<Rightarrow> (case to_py a of None \<Rightarrow> Inr v | Some f \<Rightarrow> f v))"

lemma decode_attributes_cell:
  assumes "decode_attributes as out = Inr out'" and "distinct (map fst as)" and "map_of out c = Some v"
  shows "\<exists>w. map_of out' c = Some w \<and> decoded_cell as c v = Inr w"
  using assms
proof (induction as arbitrary: out v)
  case (Cons na as)
  obtain n a where na: "na = (n, a)" by (cases na)
  from Cons.prems(1) obtain mid where mid: "decode_attribute na out = Inr mid" "decode_attributes as mid = Inr out'"
    by (auto simp: bind_res_Inr_iff)
  show ?case
  proof (cases "n = c")
    case True
    then have notin: "map_of as c = None" using Cons.prems(2) na by (auto simp: map_of_eq_None_iff)
    obtain w where w: "map_of mid c = Some w" "decoded_cell (na # as) c v = Inr w"
      using mid(1) True na Cons.prems(3)
      by (auto simp: decode_attribute_def decoded_cell_def bind_res_Inr_iff split: option.splits)
    from Cons.IH [OF mid(2) _ w(1)] Cons.prems(2) obtain w' where
      "map_of out' c = Some w'" "decoded_cell as c w = Inr w'" by auto
    with w(2) notin show ?thesis by (auto simp: decoded_cell_def)
  next
    case False
    then have "map_of mid c = Some v"
      using mid(1) na Cons.prems(3)
      by (auto simp: decode_attribute_def bind_res_Inr_iff split: option.splits)
    from Cons.IH [OF mid(2) _ this] Cons.prems(2) show ?thesis
      using False na by (auto simp: decoded_cell_def)
  qed
qed (simp add: decoded_cell_def)

lemma decode_row_cell:
  assumes "decode_row rs r = Inr r'" and "resource_ok rs" and "map_of r c = Some v"
  shows "\<exists>w. map_of r' c = Some w \<and> decode_value rs c v = Inr w"
proof (cases "has_decoders rs")
  case True
  with assms decode_attributes_cell [of "rs_attributes rs" r r' c v] show ?thesis
    by (auto simp: decode_row_def resource_ok_def decoded_cell_def decode_value_def)
next
  case False
  have "to_py a = None" if "map_of (rs_attributes rs) c = Some a" for a
    using False map_of_SomeD [OF that] by (force simp: has_decoders_def)
  with False assms show ?thesis by (auto simp: decode_row_def decode_value_def split: option.splits)
qed

end
