(* ===== verification/Pg_Database.thy ===== *)
theory Pg_Database
  imports Pg_Resource Pg_Page Core_Steps
begin

text \<open>
  What PostgreSQL answers to the statements of the pg steps. A statement is the record of its clauses; a
  table is a list of rows, each with the Python value the driver returns for a column or a computed
  label, and a view of the cells those values stand for. The binds of a predicate take their values from
  the parameters of the execution. Where SQL leaves an order open, the order of the table is used.
\<close>

section \<open>Statements\<close>

text \<open>\<open>= ANY(:keys)\<close> with the keys among the parameters, or a tuple-IN with its keys in the statement.\<close>

datatype key_clause = Any_Param string | In_Values "string list" "pyval list"

text \<open>A LEFT JOIN LATERAL that folds a child relation into one JSON column.\<close>

record lateral =
  la_alias :: string
  la_table :: "string \<times> string"
  la_columns :: "string list"
  la_computed :: "(string \<times> string) list"
  la_correlation :: "(string \<times> string) list"
  la_where :: "predicate list"
  la_order :: "order_clause list"
  la_many :: bool

record select_statement =
  st_table :: "string \<times> string"
  st_columns :: "string list"
  st_computed :: "(string \<times> string) list"
  st_match :: "key_clause option"
  st_where :: "predicate list"
  st_order :: "order_clause list"
  st_offset :: "(pyval + string) option"
  st_limit :: "(pyval + string) option"
  st_laterals :: "lateral list"

text \<open>The keyset page: rows numbered per partition, the numbers up to \<open>:page_limit\<close> kept when bounded.\<close>

record page_statement =
  ps_table :: "string \<times> string"
  ps_columns :: "string list"
  ps_computed :: "(string \<times> string) list"
  ps_match :: key_clause
  ps_where :: "predicate list"
  ps_partition :: "string list"
  ps_order :: "order_clause list"
  ps_bounded :: bool

text \<open>A projected aggregate: the function, its column (none for \<open>count(*)\<close>) and its label.\<close>

type_synonym agg_projection = "string \<times> string option \<times> string"

record group_statement =
  gs_table :: "string \<times> string"
  gs_match :: key_clause
  gs_where :: "predicate list"
  gs_keys :: "string list"
  gs_projections :: "agg_projection list"

datatype statement =
    Select select_statement
  | Window window_query "pyval list"
  | Page page_statement
  | Group group_statement

section \<open>Parameters\<close>

fun bind_expr :: "row \<Rightarrow> sql_expr \<Rightarrow> sql_expr" where
  "bind_expr params (Bind name v ty) = Bind name (case map_of params name of None \<Rightarrow> v | Some w \<Rightarrow> w) ty"
| "bind_expr params e = e"

fun bind_params :: "row \<Rightarrow> predicate \<Rightarrow> predicate" where
  "bind_params params (Cmp op a b) = Cmp op (bind_expr params a) (bind_expr params b)"
| "bind_params params (Is_Null a) = Is_Null (bind_expr params a)"
| "bind_params params (Not_Null a) = Not_Null (bind_expr params a)"
| "bind_params params (Not_Distinct a b) = Not_Distinct (bind_expr params a) (bind_expr params b)"
| "bind_params params (In_List a vs) = In_List (bind_expr params a) vs"
| "bind_params params (Like ci a v) = Like ci (bind_expr params a) v"
| "bind_params params (And_All ps) = And_All (map (bind_params params) ps)"
| "bind_params params (Or_Any ps) = Or_Any (map (bind_params params) ps)"
| "bind_params params (Negate p) = Negate (bind_params params p)"
| "bind_params params True_Const = True_Const"
| "bind_params params False_Const = False_Const"

fun expr_binds :: "sql_expr \<Rightarrow> string set" where
  "expr_binds (Bind name v ty) = {name}"
| "expr_binds e = {}"

fun bind_names :: "predicate \<Rightarrow> string set" where
  "bind_names (Cmp op a b) = expr_binds a \<union> expr_binds b"
| "bind_names (Is_Null a) = expr_binds a"
| "bind_names (Not_Null a) = expr_binds a"
| "bind_names (Not_Distinct a b) = expr_binds a \<union> expr_binds b"
| "bind_names (In_List a vs) = expr_binds a"
| "bind_names (Like ci a v) = expr_binds a"
| "bind_names (And_All ps) = (\<Union>p \<in> set ps. bind_names p)"
| "bind_names (Or_Any ps) = (\<Union>p \<in> set ps. bind_names p)"
| "bind_names (Negate p) = bind_names p"
| "bind_names True_Const = {}"
| "bind_names False_Const = {}"

text \<open>Only the parameters a predicate names reach it.\<close>

lemma bind_expr_cong:
  "(\<And>n. n \<in> expr_binds e \<Longrightarrow> map_of params n = map_of params' n) \<Longrightarrow> bind_expr params e = bind_expr params' e"
  by (cases e) simp_all

lemma bind_params_cong:
  "(\<And>n. n \<in> bind_names p \<Longrightarrow> map_of params n = map_of params' n) \<Longrightarrow> bind_params params p = bind_params params' p"
proof (induction p)
  case (And_All ps)
  have "bind_params params p = bind_params params' p" if "p \<in> set ps" for p
    by (rule And_All.IH [OF that]) (use And_All.prems that in auto)
  then show ?case by simp
next
  case (Or_Any ps)
  have "bind_params params p = bind_params params' p" if "p \<in> set ps" for p
    by (rule Or_Any.IH [OF that]) (use Or_Any.prems that in auto)
  then show ?case by simp
next
  case (Cmp op a b)
  then show ?case using bind_expr_cong [of a params params'] bind_expr_cong [of b params params'] by simp
next
  case (Not_Distinct a b)
  then show ?case using bind_expr_cong [of a params params'] bind_expr_cong [of b params params'] by simp
qed (auto intro!: bind_expr_cong)

section \<open>The server\<close>

record 'v server =
  sv_db :: "'v database"
  sv_view :: "row \<Rightarrow> 'v cells"
  sv_tables :: "string \<times> string \<Rightarrow> row list"
  sv_fold :: "string \<Rightarrow> string \<Rightarrow> row list \<Rightarrow> pyval"
  sv_json :: "string \<times> string \<Rightarrow> string \<Rightarrow> pyval \<Rightarrow> pyval"

text \<open>\<open>sv_fold\<close> is the aggregates other than the count; \<open>sv_json\<close> is what a column's value becomes on its way
  through \<open>to_jsonb\<close> and the driver's JSON decoding.\<close>

definition bindable :: "'v database \<Rightarrow> pyval \<Rightarrow> bool" where
  "bindable db v = (v = VNone \<or> coerce db None v \<noteq> None)"

definition clause_columns :: "key_clause \<Rightarrow> string list" where
  "clause_columns m = (case m of Any_Param c \<Rightarrow> [c] | In_Values cs ks \<Rightarrow> cs)"

text \<open>The components of a key: a scalar against one column, a tuple against several.\<close>

definition key_parts :: "key_clause \<Rightarrow> pyval \<Rightarrow> pyval list res" where
  "key_parts m k =
     (case m of
        Any_Param c \<Rightarrow> Inr [k]
      | In_Values cs ks \<Rightarrow>
          (case k of
             VTuple vs \<Rightarrow> (if length vs = length cs then Inr vs else Inl (HostError ''DataError''))
           | _ \<Rightarrow> Inl (HostError ''DataError'')))"

definition bound_keys :: "'v database \<Rightarrow> key_clause \<Rightarrow> row \<Rightarrow> pyval list list res" where
  "bound_keys db m params =
     bind_res (case m of
        In_Values cs ks \<Rightarrow> Inr ks
      | Any_Param c \<Rightarrow> (case map_of params ''keys'' of Some (VList ks) \<Rightarrow> Inr ks | _ \<Rightarrow> Inl (HostError ''StatementError'')))
     (\<lambda>ks. bind_res (map_res (key_parts m) ks) (\<lambda>pss.
        if \<forall>ps \<in> set pss. \<forall>v \<in> set ps. bindable db v then Inr pss else Inl (HostError ''DataError'')))"

definition parts_match :: "'v database \<Rightarrow> string list \<Rightarrow> pyval list \<Rightarrow> 'v cells \<Rightarrow> bool" where
  "parts_match db cols ps r = (\<forall>(v, c) \<in> set (zip ps cols). coerce db None v \<noteq> None \<and> coerce db None v = r c)"

definition where_true :: "('v::linorder) server \<Rightarrow> row \<Rightarrow> predicate list \<Rightarrow> row \<Rightarrow> bool" where
  "where_true sv params ps r = (\<forall>p \<in> set ps. sql_true (sv_db sv) (sv_view sv r) (bind_params params p))"

definition matched_rows ::
  "('v::linorder) server \<Rightarrow> row \<Rightarrow> string \<times> string \<Rightarrow> key_clause option \<Rightarrow> predicate list \<Rightarrow> row list res" where
  "matched_rows sv params tab m ps =
     bind_res (case m of None \<Rightarrow> Inr None | Some c \<Rightarrow> bind_res (bound_keys (sv_db sv) c params) (\<lambda>pss. Inr (Some (clause_columns c, pss))))
       (\<lambda>ks. Inr (filter (\<lambda>r. (case ks of None \<Rightarrow> True
                                | Some (cols, pss) \<Rightarrow> \<exists>qs \<in> set pss. parts_match (sv_db sv) cols qs (sv_view sv r))
                             \<and> where_true sv params ps r) (sv_tables sv tab)))"

definition project :: "string list \<Rightarrow> row \<Rightarrow> row" where
  "project cols r = map (\<lambda>c. (c, case map_of r c of None \<Rightarrow> VNone | Some v \<Rightarrow> v)) cols"

definition partition_cells :: "'v server \<Rightarrow> string list \<Rightarrow> row \<Rightarrow> 'v option list" where
  "partition_cells sv cols r = map (sv_view sv r) cols"

definition number_in ::
  "('v::linorder) server \<Rightarrow> string list \<Rightarrow> order_clause list \<Rightarrow> row list \<Rightarrow> row \<Rightarrow> nat" where
  "number_in sv cols clauses rows r =
     Suc (length (filter (\<lambda>s. partition_cells sv cols s = partition_cells sv cols r
       \<and> row_before clauses (sv_view sv s) (sv_view sv r)) rows))"

definition order_rows :: "('v::linorder) server \<Rightarrow> order_clause list \<Rightarrow> row list \<Rightarrow> row list" where
  "order_rows sv clauses rows = sort_key (number_in sv [] clauses rows) rows"

text \<open>An integer parameter, \<open>None\<close> being NULL.\<close>

definition int_param :: "row \<Rightarrow> string \<Rightarrow> int option res" where
  "int_param params name =
     (case map_of params name of
        Some VNone \<Rightarrow> Inr None
      | Some (VInt i) \<Rightarrow> Inr (Some i)
      | Some _ \<Rightarrow> Inl (HostError ''DataError'')
      | None \<Rightarrow> Inl (HostError ''StatementError''))"

text \<open>A LIMIT or OFFSET: absent, inlined, or a parameter; NULL is none, a negative one an error.\<close>

definition row_bound :: "row \<Rightarrow> (pyval + string) option \<Rightarrow> nat option res" where
  "row_bound params b =
     (case b of
        None \<Rightarrow> Inr None
      | Some x \<Rightarrow> bind_res (case x of Inr name \<Rightarrow> int_param params name | Inl v \<Rightarrow> int_param [(''n'', v)] ''n'')
          (\<lambda>i. case i of None \<Rightarrow> Inr None
             | Some n \<Rightarrow> (if n < 0 then Inl (HostError ''DataError'') else Inr (Some (nat n)))))"

text \<open>The JSON of the child rows a parent row is correlated with: all of them in order, or the first.\<close>

definition lateral_rows :: "('v::linorder) server \<Rightarrow> row \<Rightarrow> lateral \<Rightarrow> row \<Rightarrow> row list" where
  "lateral_rows sv params la parent =
     order_rows sv (la_order la)
       (filter (\<lambda>r. (\<forall>(l, rm) \<in> set (la_correlation la).
                       sv_view sv parent l \<noteq> None \<and> sv_view sv parent l = sv_view sv r rm)
                    \<and> where_true sv params (la_where la) r) (sv_tables sv (la_table la)))"

definition json_row :: "'v server \<Rightarrow> lateral \<Rightarrow> row \<Rightarrow> pyval" where
  "json_row sv la r =
     VDict (map (\<lambda>(c, v). (c, sv_json sv (la_table la) c v)) (project (la_columns la @ map snd (la_computed la)) r))"

definition lateral_value :: "('v::linorder) server \<Rightarrow> row \<Rightarrow> row \<Rightarrow> lateral \<Rightarrow> string \<times> pyval" where
  "lateral_value sv params parent la =
     (la_alias la,
      (let rows = lateral_rows sv params la parent
       in if la_many la then VList (map (json_row sv la) rows)
          else case rows of [] \<Rightarrow> VNone | r # _ \<Rightarrow> json_row sv la r))"

definition answer_select :: "('v::linorder) server \<Rightarrow> select_statement \<Rightarrow> row \<Rightarrow> row list res" where
  "answer_select sv q params =
     bind_res (matched_rows sv params (st_table q) (st_match q) (st_where q)) (\<lambda>rows.
     bind_res (row_bound params (st_offset q)) (\<lambda>off.
     bind_res (row_bound params (st_limit q)) (\<lambda>lim.
     Inr (map (\<lambda>r. project (st_columns q @ map snd (st_computed q)) r
                   @ map (lateral_value sv params r) (st_laterals q))
       (let ordered = drop (case off of None \<Rightarrow> 0 | Some n \<Rightarrow> n) (order_rows sv (st_order q) rows)
        in case lim of None \<Rightarrow> ordered | Some n \<Rightarrow> take n ordered)))))"

definition answer_window :: "('v::linorder) server \<Rightarrow> window_query \<Rightarrow> pyval list \<Rightarrow> row \<Rightarrow> row list res" where
  "answer_window sv q in_keys params =
     bind_res (matched_rows sv params (wq_table q)
        (Some (case wq_match q of Any_Key c \<Rightarrow> Any_Param c | Tuple_In cs \<Rightarrow> In_Values cs in_keys)) (wq_where q)) (\<lambda>rows.
     bind_res (int_param params ''offset'') (\<lambda>off.
     bind_res (if wq_bounded q then int_param params ''first'' else Inr (Some 0)) (\<lambda>lim.
     Inr (map (project (wq_columns q))
       (case (off, lim) of
          (Some m, Some n) \<Rightarrow>
            (let rn = number_in sv (wq_partition q) (wq_order q) rows
             in sort_key rn (filter (\<lambda>r. m < int (rn r) \<and> (wq_bounded q \<longrightarrow> int (rn r) \<le> m + n)) rows))
        | _ \<Rightarrow> [])))))"

text \<open>The rows that match are not NULL in the partition columns, the first sort keys of the page.\<close>

definition answer_page :: "('v::linorder) server \<Rightarrow> page_statement \<Rightarrow> row \<Rightarrow> row list res" where
  "answer_page sv q params =
     bind_res (matched_rows sv params (ps_table q) (Some (ps_match q)) (ps_where q)) (\<lambda>rows.
     bind_res (if ps_bounded q then int_param params ''page_limit'' else Inr (Some 0)) (\<lambda>lim.
     Inr (map (project (ps_columns q @ map snd (ps_computed q)))
       (case lim of
          None \<Rightarrow> []
        | Some n \<Rightarrow>
            (let rn = number_in sv (ps_partition q) (ps_order q) rows
             in sort_key (\<lambda>r. map (\<lambda>c. the (sv_view sv r c)) (ps_partition q))
                  (sort_key rn (filter (\<lambda>r. ps_bounded q \<longrightarrow> int (rn r) \<le> n) rows)))))))"

definition projected :: "'v server \<Rightarrow> row list \<Rightarrow> agg_projection \<Rightarrow> string \<times> pyval" where
  "projected sv rows p =
     (case p of (f, c, alias) \<Rightarrow>
        (alias, if f = ''count''
                then VInt (int (length (case c of None \<Rightarrow> rows | Some x \<Rightarrow> filter (\<lambda>r. sv_view sv r x \<noteq> None) rows)))
                else sv_fold sv f (the c) rows))"

definition answer_group :: "('v::linorder) server \<Rightarrow> group_statement \<Rightarrow> row \<Rightarrow> row list res" where
  "answer_group sv q params =
     bind_res (matched_rows sv params (gs_table q) (Some (gs_match q)) (gs_where q)) (\<lambda>rows.
     Inr (map (\<lambda>cells. let members = filter (\<lambda>r. partition_cells sv (gs_keys q) r = cells) rows
                       in project (gs_keys q) (hd members) @ map (projected sv members) (gs_projections q))
       (remdups (map (partition_cells sv (gs_keys q)) rows))))"

definition answer :: "('v::linorder) server \<Rightarrow> statement \<Rightarrow> row \<Rightarrow> row list res" where
  "answer sv q params =
     (case q of
        Select s \<Rightarrow> answer_select sv s params
      | Window w ks \<Rightarrow> answer_window sv w ks params
      | Page p \<Rightarrow> answer_page sv p params
      | Group g \<Rightarrow> answer_group sv g params)"

section \<open>Laws of the answers\<close>

lemma order_rows_sorted:
  assumes d: "distinct rows" and xs: "set xs = set rows" "distinct xs"
    and srt: "sorted_wrt (\<lambda>a b. row_before clauses (sv_view sv a) (sv_view sv b)) xs"
  shows "order_rows sv clauses rows = xs"
proof -
  have all: "set xs = {r \<in> set rows. True}" using xs(1) by simp
  have "number_in sv [] clauses rows (xs ! i) = Suc i" if "i < length xs" for i
    using partition_number [OF d all xs(2) srt row_before_irrefl row_before_trans that]
    by (simp add: number_in_def partition_cells_def)
  then have "sorted_wrt (\<lambda>a b. number_in sv [] clauses rows a < number_in sv [] clauses rows b) xs"
    by (simp add: sorted_wrt_iff_nth_less)
  with d xs show ?thesis unfolding order_rows_def by (intro sort_key_unique) auto
qed

lemma sort_key_const: "(\<And>x. x \<in> set xs \<Longrightarrow> f x = c) \<Longrightarrow> sort_key f xs = xs"
proof (induction xs)
  case (Cons x xs)
  then have "sort_key f xs = xs" "f x = c" by simp_all
  moreover have "insort_key f x xs = x # xs"
    using Cons.prems by (cases xs) auto
  ultimately show ?case by simp
qed simp

text \<open>One partition of the page: its rows in order, cut at the limit.\<close>

lemma page_partition:
  assumes d: "distinct rows"
    and xs: "set xs = {r \<in> set rows. partition_cells sv cols r = cells}" "distinct xs"
    and srt: "sorted_wrt (\<lambda>a b. row_before clauses (sv_view sv a) (sv_view sv b)) xs" and n: "0 \<le> n"
  shows "filter (\<lambda>r. partition_cells sv cols r = cells)
      (sort_key (\<lambda>r. map (\<lambda>c. the (sv_view sv r c)) cols)
        (sort_key (number_in sv cols clauses rows)
          (filter (\<lambda>r. bounded \<longrightarrow> int (number_in sv cols clauses rows r) \<le> n) rows)))
    = (if bounded then take (nat n) xs else xs)" (is "filter ?P (sort_key ?key (sort_key ?rn _)) = ?ys")
proof -
  have rn: "?rn (xs ! i) = Suc i" if "i < length xs" for i
  proof -
    have "partition_cells sv cols (xs ! i) = cells" using xs(1) that nth_mem by blast
    then show ?thesis
      using partition_number [OF d xs srt row_before_irrefl row_before_trans that] by (simp add: number_in_def)
  qed
  have pos: "0 < ?rn r" for r by (simp add: number_in_def)
  have *: "filter ?P (sort_key ?rn (filter (\<lambda>r. bounded \<longrightarrow> int (?rn r) \<le> n) rows)) = ?ys"
    using numbered_slice [OF rn xs d, of 0 n bounded] n by (simp add: pos)
  have "set ?ys \<subseteq> set xs" by (auto dest: in_set_takeD)
  then have "cells = map (sv_view sv r) cols" if "r \<in> set ?ys" for r
    using that xs(1) by (auto simp: partition_cells_def)
  then have "?key r = map the cells" if "r \<in> set ?ys" for r using that by simp
  with * show ?thesis by (simp add: filter_sort_key sort_key_const)
qed

lemma project_map_fst: "map fst (project cols r) = cols"
  by (simp add: project_def o_def)

lemma project_id: "map fst r = cols \<Longrightarrow> distinct cols \<Longrightarrow> project cols r = r"
proof -
  assume r: "map fst r = cols" and d: "distinct cols"
  have "project cols r = map (\<lambda>kv. (fst kv, snd kv)) r"
    unfolding project_def r [symmetric] map_map o_def
    using d r by (intro map_cong) (auto simp: map_of_is_SomeI)
  then show ?thesis by simp
qed

end
