(* ===== verification/Pg_Select.thy ===== *)
theory Pg_Select
  imports Pg_Database
begin

text \<open>
  The select steps of \<open>src/src/grafast_py/pg/steps.py\<close>: many rows per key, one row per key, and a root
  collection, with the folded child relations (\<open>InlineSpec\<close> and \<open>build_lateral\<close> of \<open>inline.py\<close>) their
  statement carries. The executor is a parameter: it answers a statement and its parameters.
\<close>

section \<open>Keys\<close>

definition as_match_columns :: "string + string list \<Rightarrow> string list res" where
  "as_match_columns m =
     (case m of
        Inl c \<Rightarrow> Inr [c]
      | Inr cols \<Rightarrow> (if cols = [] then Inl (ValueError ''a pg step needs at least one match column'') else Inr cols))"

definition row_get :: "row \<Rightarrow> string \<Rightarrow> pyval res" where
  "row_get r c = (case map_of r c of None \<Rightarrow> Inl (KeyError c) | Some v \<Rightarrow> Inr v)"

definition grouping_key :: "row \<Rightarrow> string list \<Rightarrow> pyval res" where
  "grouping_key r cols =
     (case cols of
        [c] \<Rightarrow> row_get r c
      | _ \<Rightarrow> bind_res (map_res (row_get r) cols) (\<lambda>vs. Inr (VTuple vs)))"

definition normalize_lookup_key :: "pyval \<Rightarrow> bool \<Rightarrow> pyval res" where
  "normalize_lookup_key raw_key composite =
     (if \<not> composite then Inr raw_key
      else if raw_key = VNone then Inr VNone
      else bind_res (iter_items raw_key) (\<lambda>key. Inr (if VNone \<in> set key then VNone else VTuple key)))"

text \<open>One key of \<open>_coalesce_keys\<close>: None looks nothing up, an unhashable key cannot be looked up.\<close>

fun coalesce_keys_from ::
  "pyval list \<Rightarrow> (pyval \<times> nat) list \<Rightarrow> nat option list \<Rightarrow> pyval list \<Rightarrow> (pyval list \<times> nat option list) res" where
  "coalesce_keys_from unique_keys slot_for_key entry_slot [] = Inr (unique_keys, entry_slot)"
| "coalesce_keys_from unique_keys slot_for_key entry_slot (key # keys) =
     (if key = VNone then coalesce_keys_from unique_keys slot_for_key (entry_slot @ [None]) keys
      else if \<not> hashable key then Inl (TypeError ''unhashable type'')
      else (case slot_get slot_for_key key of
              Some slot \<Rightarrow> coalesce_keys_from unique_keys slot_for_key (entry_slot @ [Some slot]) keys
            | None \<Rightarrow> coalesce_keys_from (unique_keys @ [key]) (slot_for_key @ [(key, length unique_keys)])
                        (entry_slot @ [Some (length unique_keys)]) keys))"

definition coalesce_keys :: "pyval list \<Rightarrow> nat \<Rightarrow> (pyval list \<times> nat option list) res" where
  "coalesce_keys keys count = coalesce_keys_from [] [] [] (take count keys)"

section \<open>Folded children\<close>

record inline_spec =
  in_resource :: pg_resource
  in_kind :: relation_kind
  in_alias :: string
  in_local :: "string list"
  in_remote :: "string list"
  in_order :: "order_term list"
  in_where :: "predicate list"
  in_computed :: "(string \<times> string) list"

definition make_inline_spec ::
  "pg_resource \<Rightarrow> relation_kind \<Rightarrow> string \<Rightarrow> string list \<Rightarrow> string list \<Rightarrow> order_term list \<Rightarrow> predicate list
   \<Rightarrow> (string \<times> string) list \<Rightarrow> inline_spec res" where
  "make_inline_spec rs kind alias ls rms order_by wps computed =
     (if ls = [] \<or> length ls \<noteq> length rms
      then Inl (ValueError ''InlineSpec needs matching non-empty local/remote column tuples'')
      else Inr \<lparr>in_resource = rs, in_kind = kind, in_alias = alias, in_local = ls, in_remote = rms,
                in_order = order_by, in_where = wps, in_computed = computed\<rparr>)"

definition lateral_correlation :: "string list \<Rightarrow> string list \<Rightarrow> (string \<times> string) list" where
  "lateral_correlation ls rms = zip ls rms"

definition build_lateral :: "inline_spec \<Rightarrow> lateral" where
  "build_lateral spec =
     \<lparr>la_alias = in_alias spec, la_table = (rs_schema (in_resource spec), rs_table (in_resource spec)),
      la_columns = stored_columns (in_resource spec), la_computed = in_computed spec,
      la_correlation = lateral_correlation (in_local spec) (in_remote spec), la_where = in_where spec,
      la_order = order_clauses (in_order spec), la_many = (in_kind spec = Has_Many)\<rparr>"

definition apply_laterals :: "select_statement \<Rightarrow> inline_spec list \<Rightarrow> select_statement" where
  "apply_laterals q specs = (if specs = [] then q else q\<lparr>st_laterals := map build_lateral specs\<rparr>)"

section \<open>Keyed selects\<close>

text \<open>A page bound that is not given is the plain value None.\<close>

record 'f pg_select =
  sl_resource :: pg_resource
  sl_match :: "string list"
  sl_unique :: bool
  sl_order :: "order_term list"
  sl_first :: page_value
  sl_offset :: page_value
  sl_inline :: "inline_spec list"
  sl_where :: "predicate list"
  sl_custom :: "'f customization"

definition make_select ::
  "pg_resource \<Rightarrow> string + string list \<Rightarrow> (string + order_term) list \<Rightarrow> bool \<Rightarrow> page_value \<Rightarrow> page_value
   \<Rightarrow> inline_spec list \<Rightarrow> predicate list \<Rightarrow> 'f customization \<Rightarrow> 'f pg_select res" where
  "make_select rs m order_by unique first offset specs wps custom =
     bind_res (as_match_columns m) (\<lambda>cols.
       let order = normalize_order order_by (rs_primary_key rs) unique
       in bind_res (assert_order_terms_stored rs order) (\<lambda>_.
          Inr \<lparr>sl_resource = rs, sl_match = cols, sl_unique = unique, sl_order = order, sl_first = first,
               sl_offset = offset, sl_inline = specs, sl_where = wps, sl_custom = custom\<rparr>))"

fun is_placeholder :: "page_value \<Rightarrow> bool" where
  "is_placeholder (Placeholder s) = True"
| "is_placeholder (Plain v) = False"

definition is_limited :: "'f pg_select \<Rightarrow> bool" where
  "is_limited sl =
     (if is_placeholder (sl_first sl) \<or> is_placeholder (sl_offset sl) then True
      else sl_first sl \<noteq> Plain VNone
        \<or> (case sl_offset sl of Plain v \<Rightarrow> \<not> py_eq v (VInt 0) | Placeholder s \<Rightarrow> True))"

definition is_composite :: "'f pg_select \<Rightarrow> bool" where
  "is_composite sl = (length (sl_match sl) > 1)"

definition sl_match_column :: "'f pg_select \<Rightarrow> string res" where
  "sl_match_column sl = (if is_composite sl then Inl (ValueError ''select is composite'') else Inr (hd (sl_match sl)))"

definition sl_add_order_term :: "string + order_term \<Rightarrow> 'f pg_select \<Rightarrow> 'f pg_select res" where
  "sl_add_order_term t sl =
     (let order = normalize_order (map Inr (sl_order sl) @ [t]) (rs_primary_key (sl_resource sl)) (sl_unique sl)
      in bind_res (assert_order_terms_stored (sl_resource sl) order) (\<lambda>_. Inr (sl\<lparr>sl_order := order\<rparr>)))"

definition sl_set_first :: "page_value \<Rightarrow> 'f pg_select \<Rightarrow> 'f pg_select" where
  "sl_set_first first sl = sl\<lparr>sl_first := first\<rparr>"

definition sl_set_offset :: "page_value \<Rightarrow> 'f pg_select \<Rightarrow> 'f pg_select" where
  "sl_set_offset offset sl = sl\<lparr>sl_offset := offset\<rparr>"

definition match_predicate :: "string list \<Rightarrow> pyval list \<Rightarrow> key_clause" where
  "match_predicate cols unique_keys = (if length cols > 1 then In_Values cols unique_keys else Any_Param (hd cols))"

definition as_bound :: "pyval \<Rightarrow> pyval option" where
  "as_bound v = (if v = VNone then None else Some v)"

definition sl_build_query :: "'f pg_select \<Rightarrow> pyval list \<Rightarrow> pyval \<Rightarrow> row \<Rightarrow> statement res" where
  "sl_build_query sl unique_keys context source_values =
     (let rs = sl_resource sl
      in if \<not> is_limited sl then
           Inr (Select (apply_laterals
             \<lparr>st_table = (rs_schema rs, rs_table rs), st_columns = stored_columns rs,
              st_computed = computed_projections rs, st_match = Some (match_predicate (sl_match sl) unique_keys),
              st_where = sl_where sl, st_order = order_clauses (sl_order sl), st_offset = None, st_limit = None,
              st_laterals = []\<rparr> (sl_inline sl)))
         else if sl_inline sl \<noteq> [] then Inl (AssertionError ''inline_specs on a window-sliced pg select'')
         else bind_res (resolve_placeholder (sl_first sl) context source_values) (\<lambda>first.
              bind_res (resolve_placeholder (sl_offset sl) context source_values) (\<lambda>offset.
              Inr (Window (window_slice (rs_schema rs) (rs_table rs) (stored_columns rs) (sl_match sl) (sl_order sl)
                     (as_bound first) (sl_where sl) (computed_columns rs)) unique_keys))))"

text \<open>The parameters of the execution: the keys of a single-column match, the page bounds, the values of
  the host predicates' placeholders.\<close>

definition sl_params ::
  "('f \<Rightarrow> pyval \<Rightarrow> pyval res) \<Rightarrow> 'f pg_select \<Rightarrow> pyval list \<Rightarrow> pyval \<Rightarrow> row \<Rightarrow> row res" where
  "sl_params call_transform sl unique_keys context source_values =
     (let keyed = (if is_composite sl then [] else [(''keys'', VList unique_keys)])
      in bind_res (if is_limited sl
             then bind_res (resolve_placeholder (sl_first sl) context source_values) (\<lambda>first.
                  bind_res (resolve_placeholder (sl_offset sl) context source_values) (\<lambda>offset.
                  Inr (dict_update keyed (window_slice_params (as_bound first) offset))))
             else Inr keyed)
         (\<lambda>paged. bind_res (where_params call_transform context source_values (sl_custom sl))
           (\<lambda>host. Inr (dict_update paged host))))"

definition sl_run_query ::
  "(statement \<Rightarrow> row \<Rightarrow> row list res) \<Rightarrow> ('f \<Rightarrow> pyval \<Rightarrow> pyval res) \<Rightarrow> 'f pg_select \<Rightarrow> pyval list \<Rightarrow> pyval \<Rightarrow> row
   \<Rightarrow> row list res" where
  "sl_run_query exec call_transform sl unique_keys context source_values =
     bind_res (sl_params call_transform sl unique_keys context source_values) (\<lambda>params.
     bind_res (sl_build_query sl unique_keys context source_values) (\<lambda>q. exec q params))"

section \<open>Grouping and scattering\<close>

text \<open>\<open>grouped.setdefault(key, []).append(row)\<close>.\<close>

fun dict_append :: "(pyval \<times> 'a list) list \<Rightarrow> pyval \<Rightarrow> 'a \<Rightarrow> (pyval \<times> 'a list) list" where
  "dict_append [] k x = [(k, [x])]"
| "dict_append ((k', xs) # d) k x = (if py_eq k' k then (k', xs @ [x]) # d else (k', xs) # dict_append d k x)"

fun group_into :: "string list \<Rightarrow> row list \<Rightarrow> (pyval \<times> row list) list \<Rightarrow> (pyval \<times> row list) list res" where
  "group_into cols [] grouped = Inr grouped"
| "group_into cols (r # rows) grouped =
     bind_res (grouping_key r cols) (\<lambda>k.
       if \<not> hashable k then Inl (TypeError ''unhashable type'')
       else group_into cols rows (dict_append grouped k r))"

definition group_rows :: "string list \<Rightarrow> row list \<Rightarrow> (pyval \<times> row list) list res" where
  "group_rows cols rows = group_into cols rows []"

definition group_and_decode :: "'f pg_select \<Rightarrow> row list \<Rightarrow> (pyval \<times> row list) list res" where
  "group_and_decode sl rows =
     bind_res (group_rows (sl_match sl) rows) (\<lambda>grouped.
       if \<not> has_decoders (sl_resource sl) then Inr grouped
       else map_res (\<lambda>(k, group). bind_res (decode_rows (sl_resource sl) group) (\<lambda>rs. Inr (k, rs))) grouped)"

text \<open>\<open>grouped.get(key, [])\<close>.\<close>

definition rows_of_key :: "(pyval \<times> 'a list) list \<Rightarrow> pyval \<Rightarrow> 'a list" where
  "rows_of_key grouped k = (case slot_get grouped k of None \<Rightarrow> [] | Some xs \<Rightarrow> xs)"

definition scatter_many :: "(pyval \<times> row list) list \<Rightarrow> pyval list \<Rightarrow> nat \<Rightarrow> pyval list" where
  "scatter_many grouped keys count =
     map (\<lambda>i. VList (map VDict (rows_of_key grouped (keys ! i)))) [0..<count]"

definition scatter_single :: "(pyval \<times> row list) list \<Rightarrow> pyval list \<Rightarrow> nat \<Rightarrow> pyval list" where
  "scatter_single grouped keys count =
     map (\<lambda>i. case slot_get grouped (keys ! i) of None \<Rightarrow> VNone | Some rows \<Rightarrow> (case rows of [] \<Rightarrow> VNone | r # _ \<Rightarrow> VDict r))
       [0..<count]"

text \<open>\<open>execute\<close> of the two classes: they differ in the scatter and in what a bucket with no key gives.\<close>

definition sl_execute ::
  "((pyval \<times> row list) list \<Rightarrow> pyval list \<Rightarrow> nat \<Rightarrow> pyval list) \<Rightarrow> pyval
   \<Rightarrow> (statement \<Rightarrow> row \<Rightarrow> row list res) \<Rightarrow> ('f \<Rightarrow> pyval \<Rightarrow> pyval res) \<Rightarrow> 'f pg_select \<Rightarrow> pyval \<Rightarrow> row
   \<Rightarrow> nat \<Rightarrow> column list \<Rightarrow> column call" where
  "sl_execute scatter_rows missing exec call_transform sl context source_values count values =
     (case map_res (\<lambda>k. normalize_lookup_key k (is_composite sl)) (values ! 0) of
        Inl e \<Rightarrow> Raised e
      | Inr keys \<Rightarrow>
          (case coalesce_keys keys count of
             Inl e \<Rightarrow> Raised e
           | Inr (unique_keys, _) \<Rightarrow>
               (if unique_keys = [] then Returned (replicate count missing)
                else Awaitable (
                  bind_res (sl_run_query exec call_transform sl unique_keys context source_values) (\<lambda>rows.
                  bind_res (group_and_decode sl rows) (\<lambda>grouped. Inr (scatter_rows grouped keys count)))))))"

definition select_execute ::
  "(statement \<Rightarrow> row \<Rightarrow> row list res) \<Rightarrow> ('f \<Rightarrow> pyval \<Rightarrow> pyval res) \<Rightarrow> 'f pg_select \<Rightarrow> pyval \<Rightarrow> row
   \<Rightarrow> nat \<Rightarrow> column list \<Rightarrow> column call" where
  "select_execute = sl_execute scatter_many (VList [])"

definition select_single_execute ::
  "(statement \<Rightarrow> row \<Rightarrow> row list res) \<Rightarrow> ('f \<Rightarrow> pyval \<Rightarrow> pyval res) \<Rightarrow> 'f pg_select \<Rightarrow> pyval \<Rightarrow> row
   \<Rightarrow> nat \<Rightarrow> column list \<Rightarrow> column call" where
  "select_single_execute = sl_execute scatter_single VNone"

section \<open>Root collections\<close>

record 'f pg_select_all =
  sa_resource :: pg_resource
  sa_unique :: bool
  sa_order :: "order_term list"
  sa_first :: page_value
  sa_offset :: page_value
  sa_inline :: "inline_spec list"
  sa_where :: "predicate list"
  sa_custom :: "'f customization"

definition make_select_all ::
  "pg_resource \<Rightarrow> (string + order_term) list \<Rightarrow> bool \<Rightarrow> page_value \<Rightarrow> page_value \<Rightarrow> inline_spec list
   \<Rightarrow> predicate list \<Rightarrow> 'f customization \<Rightarrow> 'f pg_select_all res" where
  "make_select_all rs order_by unique first offset specs wps custom =
     (let order = normalize_order order_by (rs_primary_key rs) unique
      in bind_res (assert_order_terms_stored rs order) (\<lambda>_.
         Inr \<lparr>sa_resource = rs, sa_unique = unique, sa_order = order, sa_first = first, sa_offset = offset,
              sa_inline = specs, sa_where = wps, sa_custom = custom\<rparr>))"

definition sa_add_order_term :: "string + order_term \<Rightarrow> 'f pg_select_all \<Rightarrow> 'f pg_select_all res" where
  "sa_add_order_term t sa =
     (let order = normalize_order (map Inr (sa_order sa) @ [t]) (rs_primary_key (sa_resource sa)) (sa_unique sa)
      in bind_res (assert_order_terms_stored (sa_resource sa) order) (\<lambda>_. Inr (sa\<lparr>sa_order := order\<rparr>)))"

text \<open>A literal bound is inlined, a zero or absent one left out; a placeholder is a parameter.\<close>

definition sa_build_query :: "'f pg_select_all \<Rightarrow> statement" where
  "sa_build_query sa =
     (let rs = sa_resource sa
      in Select (apply_laterals
        \<lparr>st_table = (rs_schema rs, rs_table rs), st_columns = stored_columns rs,
         st_computed = computed_projections rs, st_match = None, st_where = sa_where sa,
         st_order = order_clauses (sa_order sa),
         st_offset = (case sa_offset sa of Placeholder s \<Rightarrow> Some (Inr ''root_offset'')
                      | Plain v \<Rightarrow> (if truthy v then Some (Inl v) else None)),
         st_limit = (case sa_first sa of Placeholder s \<Rightarrow> Some (Inr ''root_first'')
                     | Plain v \<Rightarrow> (if v \<noteq> VNone then Some (Inl v) else None)),
         st_laterals = []\<rparr> (sa_inline sa)))"

definition sa_run_params ::
  "('f \<Rightarrow> pyval \<Rightarrow> pyval res) \<Rightarrow> 'f pg_select_all \<Rightarrow> pyval \<Rightarrow> row \<Rightarrow> row res" where
  "sa_run_params call_transform sa context source_values =
     bind_res (if is_placeholder (sa_first sa)
         then bind_res (resolve_placeholder (sa_first sa) context source_values) (\<lambda>v. Inr [(''root_first'', v)])
         else Inr []) (\<lambda>limit.
     bind_res (if is_placeholder (sa_offset sa)
         then bind_res (resolve_placeholder (sa_offset sa) context source_values) (\<lambda>v. Inr [(''root_offset'', v)])
         else Inr []) (\<lambda>off.
     bind_res (where_params call_transform context source_values (sa_custom sa)) (\<lambda>host.
     Inr (dict_update (limit @ off) host))))"

definition select_all_execute ::
  "(statement \<Rightarrow> row \<Rightarrow> row list res) \<Rightarrow> ('f \<Rightarrow> pyval \<Rightarrow> pyval res) \<Rightarrow> 'f pg_select_all \<Rightarrow> pyval \<Rightarrow> row
   \<Rightarrow> nat \<Rightarrow> column list \<Rightarrow> column call" where
  "select_all_execute exec call_transform sa context source_values count values =
     Awaitable (
       bind_res (sa_run_params call_transform sa context source_values) (\<lambda>params.
       bind_res (exec (sa_build_query sa) params) (\<lambda>rows.
       bind_res (decode_rows (sa_resource sa) rows) (\<lambda>decoded.
       Inr (replicate count (VList (map VDict decoded)))))))"

end
