(* ===== verification/Pg_Connection.thy ===== *)
theory Pg_Connection
  imports Pg_Select Directives
begin

text \<open>
  Relay connections (\<open>src/src/grafast_py/pg/connection.py\<close>): every parent's page in one keyset-sliced
  statement, with an optional count and an optional aggregate statement beside it.
\<close>

section \<open>What the selection asks for\<close>

text \<open>The walks follow fragment spreads without marking them; the fuel is the depth of spreads the
  interpreter's stack allows.\<close>

fun selects_total :: "nat \<Rightarrow> (string \<times> selection list) list \<Rightarrow> selection list \<Rightarrow> bool res" where
  "selects_total d frags [] = Inr False"
| "selects_total d frags (FieldSel n ds args sub # rest) =
     (if n = ''totalCount'' then Inr True else selects_total d frags rest)"
| "selects_total d frags (InlineSel ds sub # rest) =
     bind_res (selects_total d frags sub) (\<lambda>b. if b then Inr True else selects_total d frags rest)"
| "selects_total d frags (SpreadSel n ds # rest) =
     bind_res (case map_of frags n of
                 None \<Rightarrow> Inr False
               | Some body \<Rightarrow> (case d of 0 \<Rightarrow> Inl RecursionError | Suc d' \<Rightarrow> selects_total d' frags body))
       (\<lambda>b. if b then Inr True else selects_total d frags rest)"

fun connection_needs_total :: "nat \<Rightarrow> (string \<times> selection list) list \<Rightarrow> selection list list \<Rightarrow> bool res" where
  "connection_needs_total d frags [] = Inr False"
| "connection_needs_total d frags (sel # nodes) =
     bind_res (selects_total d frags sel) (\<lambda>b. if b then Inr True else connection_needs_total d frags nodes)"

fun collect_aggregate_fields ::
  "nat \<Rightarrow> (string \<times> selection list) list \<Rightarrow> selection list \<Rightarrow> string set \<Rightarrow> string set res" where
  "collect_aggregate_fields d frags [] selected = Inr selected"
| "collect_aggregate_fields d frags (FieldSel n ds args sub # rest) selected =
     collect_aggregate_fields d frags rest (insert n selected)"
| "collect_aggregate_fields d frags (InlineSel ds sub # rest) selected =
     bind_res (collect_aggregate_fields d frags sub selected) (collect_aggregate_fields d frags rest)"
| "collect_aggregate_fields d frags (SpreadSel n ds # rest) selected =
     bind_res (case map_of frags n of
                 None \<Rightarrow> Inr selected
               | Some body \<Rightarrow> (case d of 0 \<Rightarrow> Inl RecursionError | Suc d' \<Rightarrow> collect_aggregate_fields d' frags body selected))
       (collect_aggregate_fields d frags rest)"

section \<open>Aggregates\<close>

record pg_aggregate =
  ag_function :: string
  ag_column :: "string option"
  ag_alias :: string

definition aggregate_functions :: "string list" where
  "aggregate_functions = [''sum'', ''avg'', ''min'', ''max'', ''count'']"

definition make_aggregate :: "string \<Rightarrow> string option \<Rightarrow> string \<Rightarrow> pg_aggregate res" where
  "make_aggregate f c alias =
     (if f \<notin> set aggregate_functions then Inl (ValueError ''unsupported aggregate function'')
      else if c = None \<and> f \<noteq> ''count'' then Inl (ValueError ''aggregate needs a column'')
      else if alias = [] then Inl (ValueError ''aggregate needs an output alias'')
      else Inr \<lparr>ag_function = f, ag_column = c, ag_alias = alias\<rparr>)"

definition projection :: "pg_aggregate \<Rightarrow> agg_projection" where
  "projection a = (case ag_column a of None \<Rightarrow> (''count'', None, ag_alias a)
                   | Some c \<Rightarrow> (ag_function a, Some c, ag_alias a))"

fun collect_nodes :: "nat \<Rightarrow> (string \<times> selection list) list \<Rightarrow> selection list list \<Rightarrow> string set \<Rightarrow> string set res" where
  "collect_nodes d frags [] selected = Inr selected"
| "collect_nodes d frags (sel # nodes) selected =
     bind_res (collect_aggregate_fields d frags sel selected) (collect_nodes d frags nodes)"

definition connection_aggregates ::
  "nat \<Rightarrow> (string \<times> selection list) list \<Rightarrow> selection list list \<Rightarrow> (string \<times> pg_aggregate) list \<Rightarrow> pg_aggregate list res" where
  "connection_aggregates d frags nodes aggregate_fields =
     bind_res (collect_nodes d frags nodes {}) (\<lambda>selected.
       Inr (map snd (filter (\<lambda>(name, agg). name \<in> selected) aggregate_fields)))"

section \<open>The step\<close>

record 'f pg_connection =
  cn_resource :: pg_resource
  cn_match :: "string list"
  cn_unique :: bool
  cn_order :: "order_term list"
  cn_first :: page_value
  cn_after :: page_value
  cn_last :: page_value
  cn_before :: page_value
  cn_needs_total :: bool
  cn_after_source :: "string option"
  cn_before_source :: "string option"
  cn_aggregates :: "pg_aggregate list"
  cn_group_by :: "string list"
  cn_reverse :: bool
  cn_after_values :: "pyval list option"
  cn_before_values :: "pyval list option"
  cn_where :: "predicate list"
  cn_custom :: "'f customization"

text \<open>A literal cursor is a non-empty string; it is decoded when the step is planned.\<close>

definition decode_literal_cursor ::
  "(string \<Rightarrow> string) \<Rightarrow> page_value \<Rightarrow> order_term list \<Rightarrow> pyval list option res" where
  "decode_literal_cursor sha256 v order =
     (case v of
        Plain (VStr c) \<Rightarrow> (if c \<noteq> [] then bind_res (decode_keyset_cursor sha256 c order) (\<lambda>vs. Inr (Some vs)) else Inr None)
      | _ \<Rightarrow> Inr None)"

definition decode_literal_cursors ::
  "(string \<Rightarrow> string) \<Rightarrow> 'f pg_connection \<Rightarrow> (pyval list option \<times> pyval list option) res" where
  "decode_literal_cursors sha256 cn =
     bind_res (decode_literal_cursor sha256 (cn_after cn) (cn_order cn)) (\<lambda>a.
     bind_res (decode_literal_cursor sha256 (cn_before cn) (cn_order cn)) (\<lambda>b. Inr (a, b)))"

definition make_connection ::
  "(string \<Rightarrow> string) \<Rightarrow> pg_resource \<Rightarrow> string + string list \<Rightarrow> (string + order_term) list \<Rightarrow> page_value \<Rightarrow> page_value
   \<Rightarrow> page_value \<Rightarrow> page_value \<Rightarrow> bool \<Rightarrow> bool \<Rightarrow> pg_aggregate list \<Rightarrow> string list \<Rightarrow> predicate list
   \<Rightarrow> 'f customization \<Rightarrow> 'f pg_connection res" where
  "make_connection sha256 rs m order_by first after last_n before unique needs_total aggs group_by wps custom =
     bind_res (as_match_columns m) (\<lambda>cols.
       let order = normalize_order order_by (rs_primary_key rs) unique in
       bind_res (assert_order_terms_stored rs order) (\<lambda>_.
         let forward_arg = (first \<noteq> Plain VNone \<or> after \<noteq> Plain VNone);
             reverse_arg = (last_n \<noteq> Plain VNone \<or> before \<noteq> Plain VNone)
         in if forward_arg \<and> reverse_arg then Inl (ValueError ''ambiguous Relay pagination'')
            else let cn = \<lparr>cn_resource = rs, cn_match = cols, cn_unique = unique, cn_order = order, cn_first = first,
                   cn_after = after, cn_last = last_n, cn_before = before, cn_needs_total = needs_total,
                   cn_after_source = placeholder_source_tag after, cn_before_source = placeholder_source_tag before,
                   cn_aggregates = aggs, cn_group_by = group_by, cn_reverse = reverse_arg,
                   cn_after_values = None, cn_before_values = None, cn_where = wps, cn_custom = custom\<rparr>
                 in bind_res (decode_literal_cursors sha256 cn) (\<lambda>(a, b).
                    Inr (cn\<lparr>cn_after_values := a, cn_before_values := b\<rparr>))))"

definition cn_composite :: "'f pg_connection \<Rightarrow> bool" where
  "cn_composite cn = (length (cn_match cn) > 1)"

definition cn_match_column :: "'f pg_connection \<Rightarrow> string res" where
  "cn_match_column cn = (if cn_composite cn then Inl (ValueError ''connection is composite'') else Inr (hd (cn_match cn)))"

text \<open>The seek values of this request: a placeholder's cursor is resolved and decoded afresh.\<close>

definition request_cursor ::
  "(string \<Rightarrow> string) \<Rightarrow> page_value \<Rightarrow> pyval list option \<Rightarrow> order_term list \<Rightarrow> pyval \<Rightarrow> row \<Rightarrow> pyval list option res" where
  "request_cursor sha256 v planned order ctx source_values =
     (case v of
        Plain w \<Rightarrow> Inr planned
      | Placeholder s \<Rightarrow>
          bind_res (resolve_placeholder v ctx source_values) (\<lambda>c.
            if \<not> truthy c then Inr None
            else (case c of
                    VStr t \<Rightarrow> bind_res (decode_keyset_cursor sha256 t order) (\<lambda>vs. Inr (Some vs))
                  | _ \<Rightarrow> Inl (AttributeError ''encode''))))"

definition resolve_cursor_values ::
  "(string \<Rightarrow> string) \<Rightarrow> 'f pg_connection \<Rightarrow> pyval \<Rightarrow> row \<Rightarrow> (pyval list option \<times> pyval list option) res" where
  "resolve_cursor_values sha256 cn ctx source_values =
     bind_res (request_cursor sha256 (cn_after cn) (cn_after_values cn) (cn_order cn) ctx source_values) (\<lambda>a.
     bind_res (request_cursor sha256 (cn_before cn) (cn_before_values cn) (cn_order cn) ctx source_values) (\<lambda>b.
     Inr (a, b)))"

definition cn_add_order_term :: "(string \<Rightarrow> string) \<Rightarrow> string + order_term \<Rightarrow> 'f pg_connection \<Rightarrow> 'f pg_connection res" where
  "cn_add_order_term sha256 t cn =
     (let order = normalize_order (map Inr (cn_order cn) @ [t]) (rs_primary_key (cn_resource cn)) (cn_unique cn);
          cn' = cn\<lparr>cn_order := order\<rparr>
      in bind_res (assert_order_terms_stored (cn_resource cn) order) (\<lambda>_.
         bind_res (decode_literal_cursors sha256 cn') (\<lambda>(a, b).
         Inr (cn'\<lparr>cn_after_values := a, cn_before_values := b\<rparr>))))"

definition cn_set_first :: "page_value \<Rightarrow> 'f pg_connection \<Rightarrow> 'f pg_connection" where
  "cn_set_first first cn = cn\<lparr>cn_first := first\<rparr>"

section \<open>Statements\<close>

definition reverse_nulls :: "order_term \<Rightarrow> string option" where
  "reverse_nulls t = Some (if effective_nulls t = ''first'' then ''last'' else ''first'')"

definition effective_order :: "'f pg_connection \<Rightarrow> order_term list" where
  "effective_order cn =
     (if \<not> cn_reverse cn then cn_order cn
      else map (\<lambda>t. \<lparr>ot_column = ot_column t, ot_descending = \<not> ot_descending t, ot_nulls = reverse_nulls t\<rparr>) (cn_order cn))"

definition page_size :: "'f pg_connection \<Rightarrow> pyval \<Rightarrow> row \<Rightarrow> pyval res" where
  "page_size cn ctx source_values = resolve_placeholder (if cn_reverse cn then cn_last cn else cn_first cn) ctx source_values"

text \<open>A page size as the arithmetic takes it: none, or an integer (a bool is one).\<close>

definition size_of_value :: "pyval \<Rightarrow> int option res" where
  "size_of_value v =
     (case v of
        VNone \<Rightarrow> Inr None
      | VInt n \<Rightarrow> Inr (Some n)
      | VBool b \<Rightarrow> Inr (Some (if b then 1 else 0))
      | _ \<Rightarrow> Inl (TypeError ''page size''))"

definition int_page_size :: "'f pg_connection \<Rightarrow> pyval \<Rightarrow> row \<Rightarrow> int option res" where
  "int_page_size cn ctx source_values = bind_res (page_size cn ctx source_values) size_of_value"

definition page_limit :: "'f pg_connection \<Rightarrow> pyval \<Rightarrow> row \<Rightarrow> int option res" where
  "page_limit cn ctx source_values =
     bind_res (int_page_size cn ctx source_values) (\<lambda>size. Inr (case size of None \<Rightarrow> None | Some n \<Rightarrow> Some (n + 1)))"

definition column_type :: "pg_resource \<Rightarrow> string \<Rightarrow> string option" where
  "column_type rs c = map_option te_name (map_of (rs_column_types rs) c)"

definition cursor_predicate ::
  "'f pg_connection \<Rightarrow> pyval list option \<Rightarrow> pyval list option \<Rightarrow> predicate option res" where
  "cursor_predicate cn after_values before_values =
     (case (if cn_reverse cn then before_values else after_values) of
        None \<Rightarrow> Inr None
      | Some vals \<Rightarrow>
          bind_res (keyset_where (cn_order cn) vals (\<not> cn_reverse cn) (column_type (cn_resource cn)) (\<lambda>c. None))
            (\<lambda>p. Inr (Some p)))"

definition inner_predicates ::
  "'f pg_connection \<Rightarrow> pyval list option \<Rightarrow> pyval list option \<Rightarrow> predicate list res" where
  "inner_predicates cn after_values before_values =
     bind_res (cursor_predicate cn after_values before_values) (\<lambda>cursor.
       Inr (cn_where cn @ (case cursor of None \<Rightarrow> [] | Some p \<Rightarrow> [p])))"

definition build_page_query ::
  "'f pg_connection \<Rightarrow> pyval list \<Rightarrow> pyval \<Rightarrow> row \<Rightarrow> pyval list option \<Rightarrow> pyval list option \<Rightarrow> statement res" where
  "build_page_query cn unique_keys ctx source_values after_values before_values =
     (let rs = cn_resource cn in
      bind_res (inner_predicates cn after_values before_values) (\<lambda>predicates.
      bind_res (page_limit cn ctx source_values) (\<lambda>limit.
      Inr (Page \<lparr>ps_table = (rs_schema rs, rs_table rs), ps_columns = stored_columns rs,
                 ps_computed = computed_projections rs, ps_match = match_predicate (cn_match cn) unique_keys,
                 ps_where = predicates, ps_partition = cn_match cn,
                 ps_order = order_clauses (effective_order cn), ps_bounded = (limit \<noteq> None)\<rparr>))))"

definition build_count_query :: "'f pg_connection \<Rightarrow> pyval list \<Rightarrow> statement" where
  "build_count_query cn unique_keys =
     Group \<lparr>gs_table = (rs_schema (cn_resource cn), rs_table (cn_resource cn)),
            gs_match = match_predicate (cn_match cn) unique_keys, gs_where = cn_where cn,
            gs_keys = cn_match cn, gs_projections = [(''count'', None, ''__total'')]\<rparr>"

definition has_aggregates :: "'f pg_connection \<Rightarrow> bool" where
  "has_aggregates cn = (cn_aggregates cn \<noteq> [])"

definition aggregate_spec :: "'f pg_connection \<Rightarrow> (string \<times> string option \<times> string) list" where
  "aggregate_spec cn = map (\<lambda>a. (ag_function a, ag_column a, ag_alias a)) (cn_aggregates cn)"

definition build_aggregate_query :: "'f pg_connection \<Rightarrow> pyval list \<Rightarrow> statement" where
  "build_aggregate_query cn unique_keys =
     Group \<lparr>gs_table = (rs_schema (cn_resource cn), rs_table (cn_resource cn)),
            gs_match = match_predicate (cn_match cn) unique_keys, gs_where = cn_where cn,
            gs_keys = cn_match cn @ cn_group_by cn, gs_projections = map projection (cn_aggregates cn)\<rparr>"

section \<open>Running the statements\<close>

definition count_row_key :: "'f pg_connection \<Rightarrow> row \<Rightarrow> pyval res" where
  "count_row_key cn r = grouping_key r (cn_match cn)"

text \<open>\<open>{key: row["__total"]}\<close>.\<close>

fun dict_put :: "(pyval \<times> 'a) list \<Rightarrow> pyval \<Rightarrow> 'a \<Rightarrow> (pyval \<times> 'a) list" where
  "dict_put [] k x = [(k, x)]"
| "dict_put ((k', y) # d) k x = (if py_eq k' k then (k', x) # d else (k', y) # dict_put d k x)"

fun totals_of :: "'f pg_connection \<Rightarrow> row list \<Rightarrow> (pyval \<times> pyval) list \<Rightarrow> (pyval \<times> pyval) list res" where
  "totals_of cn [] totals = Inr totals"
| "totals_of cn (r # rows) totals =
     bind_res (count_row_key cn r) (\<lambda>k.
     bind_res (row_get r ''__total'') (\<lambda>n.
       if \<not> hashable k then Inl (TypeError ''unhashable type'') else totals_of cn rows (dict_put totals k n)))"

definition run_queries ::
  "(statement \<Rightarrow> row \<Rightarrow> row list res) \<Rightarrow> ('f \<Rightarrow> pyval \<Rightarrow> pyval res) \<Rightarrow> (string \<Rightarrow> string) \<Rightarrow> 'f pg_connection
   \<Rightarrow> pyval list \<Rightarrow> pyval \<Rightarrow> row \<Rightarrow> (row list \<times> (pyval \<times> pyval) list \<times> (pyval \<times> row list) list) res" where
  "run_queries exec call_transform sha256 cn unique_keys ctx source_values =
     bind_res (resolve_cursor_values sha256 cn ctx source_values) (\<lambda>(after_values, before_values).
     bind_res (where_params call_transform ctx source_values (cn_custom cn)) (\<lambda>host.
     bind_res (page_limit cn ctx source_values) (\<lambda>limit.
       let keyed = (if cn_composite cn then host else dict_set host ''keys'' (VList unique_keys));
           params = (case limit of None \<Rightarrow> keyed | Some n \<Rightarrow> dict_set keyed ''page_limit'' (VInt n)) in
       bind_res (build_page_query cn unique_keys ctx source_values after_values before_values) (\<lambda>q.
       bind_res (exec q params) (\<lambda>rows.
       bind_res (if cn_needs_total cn
           then bind_res (exec (build_count_query cn unique_keys) keyed) (\<lambda>count_rows. totals_of cn count_rows [])
           else Inr []) (\<lambda>totals.
       bind_res (if has_aggregates cn
           then bind_res (exec (build_aggregate_query cn unique_keys) keyed) (\<lambda>agg_rows. group_rows (cn_match cn) agg_rows)
           else Inr []) (\<lambda>aggregates.
       Inr (rows, totals, aggregates))))))))"

section \<open>Assembling a connection\<close>

text \<open>\<open>rows[:size]\<close>; a negative size counts from the end.\<close>

definition py_take :: "int \<Rightarrow> 'a list \<Rightarrow> 'a list" where
  "py_take n xs = (if n < 0 then take (nat (int (length xs) + n)) xs else take (nat n) xs)"

definition connection_edge ::
  "(string \<Rightarrow> string) \<Rightarrow> (pyval \<Rightarrow> string) \<Rightarrow> 'f pg_connection \<Rightarrow> row \<Rightarrow> (row \<times> string) res" where
  "connection_edge sha256 to_text cn r =
     (let rs = cn_resource cn in
      bind_res (encode_keyset_cursor sha256 to_text (cn_order cn) r) (\<lambda>cursor.
      bind_res (decode_row rs r) (\<lambda>decoded.
      bind_res (map_res (\<lambda>c. bind_res (row_get decoded c) (\<lambda>v. Inr (c, v))) (stored_columns rs @ computed_columns rs))
        (\<lambda>node. Inr (node, cursor)))))"

definition aggregate_value :: "'f pg_connection \<Rightarrow> row \<Rightarrow> pg_aggregate \<Rightarrow> (string \<times> pyval) res" where
  "aggregate_value cn r a =
     bind_res (row_get r (ag_alias a)) (\<lambda>v.
       if ag_function a \<in> {''min'', ''max''} \<and> ag_column a \<noteq> None
       then bind_res (decode_value (cn_resource cn) (the (ag_column a)) v) (\<lambda>w. Inr (ag_alias a, w))
       else Inr (ag_alias a, v))"

definition aggregate_values :: "'f pg_connection \<Rightarrow> row \<Rightarrow> row res" where
  "aggregate_values cn r =
     bind_res (map_res (aggregate_value cn r) (cn_aggregates cn)) (\<lambda>kvs. Inr (dict_update [] kvs))"

definition empty_aggregates :: "'f pg_connection \<Rightarrow> row" where
  "empty_aggregates cn =
     dict_update [] (map (\<lambda>a. (ag_alias a, if ag_function a = ''count'' then VInt 0 else VNone)) (cn_aggregates cn))"

definition group_entry :: "'f pg_connection \<Rightarrow> row \<Rightarrow> pyval res" where
  "group_entry cn r =
     bind_res (map_res (\<lambda>c. bind_res (row_get r c) (\<lambda>v.
                 bind_res (decode_value (cn_resource cn) c v) (\<lambda>w. Inr (c, w)))) (cn_group_by cn)) (\<lambda>ks.
     bind_res (aggregate_values cn r) (\<lambda>vs. Inr (VDict (dict_update (dict_update [] ks) vs))))"

definition connection_extras :: "'f pg_connection \<Rightarrow> row list \<Rightarrow> row res" where
  "connection_extras cn aggregate_rows =
     (if \<not> has_aggregates cn then Inr []
      else if cn_group_by cn \<noteq> [] then
        bind_res (map_res (group_entry cn) aggregate_rows) (\<lambda>gs. Inr [(''aggregateGroups'', VList gs)])
      else (case aggregate_rows of
              [] \<Rightarrow> Inr [(''aggregates'', VDict (empty_aggregates cn))]
            | r # _ \<Rightarrow> bind_res (aggregate_values cn r) (\<lambda>vs. Inr [(''aggregates'', VDict vs)])))"

definition page_info :: "bool \<Rightarrow> bool \<Rightarrow> string list \<Rightarrow> pyval" where
  "page_info has_next has_previous cursors =
     VDict [(''hasNextPage'', VBool has_next), (''hasPreviousPage'', VBool has_previous),
            (''startCursor'', if cursors = [] then VNone else VStr (hd cursors)),
            (''endCursor'', if cursors = [] then VNone else VStr (last cursors))]"

definition connection_fields :: "(row \<times> string) list \<Rightarrow> pyval \<Rightarrow> bool \<Rightarrow> bool \<Rightarrow> row" where
  "connection_fields edges n_total has_next has_previous =
     [(''edges'', VList (map (\<lambda>(node, cursor). VDict [(''node'', VDict node), (''cursor'', VStr cursor)]) edges)),
      (''nodes'', VList (map (\<lambda>e. VDict (fst e)) edges)),
      (''totalCount'', n_total),
      (''pageInfo'', page_info has_next has_previous (map snd edges))]"

definition build_connection ::
  "(string \<Rightarrow> string) \<Rightarrow> (pyval \<Rightarrow> string) \<Rightarrow> 'f pg_connection \<Rightarrow> row list \<Rightarrow> pyval \<Rightarrow> row list \<Rightarrow> pyval \<Rightarrow> row
   \<Rightarrow> pyval list option \<Rightarrow> pyval list option \<Rightarrow> pyval res" where
  "build_connection sha256 to_text cn rows n_total aggregate_rows ctx source_values after_values before_values =
     bind_res (int_page_size cn ctx source_values) (\<lambda>size.
       let has_extra = (case size of None \<Rightarrow> False | Some n \<Rightarrow> int (length rows) > n);
           cut = (case size of Some n \<Rightarrow> (if has_extra then py_take n rows else rows) | None \<Rightarrow> rows);
           page = (if cn_reverse cn then rev cut else cut)
       in bind_res (map_res (connection_edge sha256 to_text cn) page) (\<lambda>edges.
          let has_next = (if cn_reverse cn then before_values \<noteq> None else has_extra);
              has_previous = (if cn_reverse cn then has_extra else after_values \<noteq> None)
          in bind_res (connection_extras cn aggregate_rows) (\<lambda>extras.
             Inr (VDict (connection_fields edges n_total has_next has_previous @ extras)))))"

text \<open>\<open>dict.fromkeys\<close> keeps the first of equal keys, as coalescing does.\<close>

definition connection_execute ::
  "(statement \<Rightarrow> row \<Rightarrow> row list res) \<Rightarrow> ('f \<Rightarrow> pyval \<Rightarrow> pyval res) \<Rightarrow> (string \<Rightarrow> string) \<Rightarrow> (pyval \<Rightarrow> string)
   \<Rightarrow> 'f pg_connection \<Rightarrow> pyval \<Rightarrow> row \<Rightarrow> nat \<Rightarrow> column list \<Rightarrow> column call" where
  "connection_execute exec call_transform sha256 to_text cn ctx source_values count values =
     (case bind_res (map_res (\<lambda>k. normalize_lookup_key k (cn_composite cn)) (values ! 0)) (\<lambda>keys.
           bind_res (coalesce_keys keys (length keys)) (\<lambda>(unique_keys, _). Inr (keys, unique_keys))) of
        Inl e \<Rightarrow> Raised e
      | Inr (keys, unique_keys) \<Rightarrow>
          (if unique_keys = [] then
             (case bind_res (resolve_cursor_values sha256 cn ctx source_values) (\<lambda>(after_values, before_values).
                   build_connection sha256 to_text cn [] (VInt 0) [] ctx source_values after_values before_values) of
                Inl e \<Rightarrow> Raised e
              | Inr empty_connection \<Rightarrow> Returned (replicate count empty_connection))
           else Awaitable (
             bind_res (run_queries exec call_transform sha256 cn unique_keys ctx source_values) (\<lambda>(rows, totals, aggregates).
             bind_res (resolve_cursor_values sha256 cn ctx source_values) (\<lambda>(after_values, before_values).
             bind_res (group_rows (cn_match cn) rows) (\<lambda>by_key.
             map_res (\<lambda>i. build_connection sha256 to_text cn (rows_of_key by_key (keys ! i))
                 (case slot_get totals (keys ! i) of None \<Rightarrow> VInt 0 | Some n \<Rightarrow> n) (rows_of_key aggregates (keys ! i))
                 ctx source_values after_values before_values) [0..<count]))))))"

section \<open>Deduplication identity\<close>

definition cursor_key :: "string option \<Rightarrow> pyval list option \<Rightarrow> pyval" where
  "cursor_key source vals =
     (case source of
        Some s \<Rightarrow> VTuple [VStr ''var'', VStr s]
      | None \<Rightarrow> (case vals of None \<Rightarrow> VNone | Some vs \<Rightarrow> VTuple vs))"

end
