(* ===== verification/Pg_Select_Laws.thy ===== *)
theory Pg_Select_Laws
  imports Pg_Select Core_Laws
begin

text \<open>
  What a batched select gives each entry: the rows a query for its key alone would give, in order. The
  statement asks for all keys at once and the rows are scattered by key, so the laws say that coalescing
  and grouping lose nothing and that one sorted result cuts into the sorted results of the keys.
\<close>

section \<open>Coalescing and grouping\<close>

lemma coalesce_keys_from_spec:
  assumes "coalesce_keys_from uk seen es keys = Inr (uk', es')" and "\<forall>(k, i) \<in> set seen. k \<in> set uk"
  shows "set uk \<subseteq> set uk' \<and> set uk' \<subseteq> set uk \<union> {k \<in> set keys. k \<noteq> VNone}
    \<and> (\<forall>k \<in> set keys. k \<noteq> VNone \<longrightarrow> py_wf k \<longrightarrow> (\<exists>u \<in> set uk'. py_eq u k))"
  using assms
proof (induction uk seen es keys rule: coalesce_keys_from.induct)
  case (2 uk seen es key keys)
  note IH = "2.IH" and prems = "2.prems"
  consider (none) "key = VNone"
    | (known) slot where "key \<noteq> VNone" "hashable key" "slot_get seen key = Some slot"
    | (new) "key \<noteq> VNone" "hashable key" "slot_get seen key = None"
    using prems(1) by (auto split: if_splits option.splits)
  then show ?case
  proof cases
    case none
    with prems(1) have "coalesce_keys_from uk seen (es @ [None]) keys = Inr (uk', es')" by simp
    from IH(1) [OF none this prems(2)] none show ?thesis by auto
  next
    case known
    from slot_get_Some [OF known(3)] obtain k' where k': "(k', slot) \<in> set seen" "py_eq k' key" by blast
    have mem: "k' \<in> set uk" using k'(1) prems(2) by auto
    have r: "coalesce_keys_from uk seen (es @ [Some slot]) keys = Inr (uk', es')" using known prems(1) by simp
    have "\<not> \<not> hashable key" using known(2) by simp
    from IH(3) [OF known(1) this known(3) r prems(2)] known(1) k'(2) mem show ?thesis by auto
  next
    case new
    then have r: "coalesce_keys_from (uk @ [key]) (seen @ [(key, length uk)]) (es @ [Some (length uk)]) keys = Inr (uk', es')"
      using prems(1) by simp
    have seen: "\<forall>(k, i) \<in> set (seen @ [(key, length uk)]). k \<in> set (uk @ [key])" using prems(2) by auto
    have "\<not> \<not> hashable key" using new(2) by simp
    from IH(2) [OF new(1) this new(3) r seen] new(1) py_eq_refl [of key] show ?thesis by auto
  qed
qed simp

lemma coalesce_keys_from_total:
  "\<forall>k \<in> set keys. hashable k \<Longrightarrow> \<exists>uk' es'. coalesce_keys_from uk seen es keys = Inr (uk', es')"
  by (induction uk seen es keys rule: coalesce_keys_from.induct) (auto split: option.split)

lemma coalesce_keys_spec:
  assumes "\<forall>k \<in> set keys. hashable k \<and> py_wf k"
  obtains uk es where "coalesce_keys keys (length keys) = Inr (uk, es)"
    and "set uk \<subseteq> {k \<in> set keys. k \<noteq> VNone}" and "\<forall>k \<in> set keys. k \<noteq> VNone \<longrightarrow> (\<exists>u \<in> set uk. py_eq u k)"
proof -
  have "\<forall>k \<in> set keys. hashable k" using assms by blast
  then obtain uk es where c: "coalesce_keys_from [] [] [] keys = Inr (uk, es)"
    using coalesce_keys_from_total by blast
  from coalesce_keys_from_spec [OF this] assms show thesis
    by (intro that [of uk es]) (auto simp: coalesce_keys_def c)
qed

lemma py_eq_cong_left:
  "py_wf a \<Longrightarrow> py_wf b \<Longrightarrow> py_eq a b \<Longrightarrow> py_eq a c = py_eq b c"
  using py_eq_sym py_eq_trans by blast

lemma group_of_append:
  assumes "py_wf k" and "py_wf k'" and "\<forall>(j, xs) \<in> set grouped. py_wf j"
  shows "rows_of_key (dict_append grouped k x) k' = (if py_eq k k' then rows_of_key grouped k' @ [x] else rows_of_key grouped k')"
  using assms
proof (induction grouped k x rule: dict_append.induct)
  case (2 j xs d k x)
  show ?case
  proof (cases "py_eq j k")
    case True
    then have "py_eq j k' = py_eq k k'" using 2 by (intro py_eq_cong_left) auto
    with True show ?thesis by (simp add: rows_of_key_def)
  next
    case False
    have IH: "rows_of_key (dict_append d k x) k' = (if py_eq k k' then rows_of_key d k' @ [x] else rows_of_key d k')"
      using 2 False by simp
    show ?thesis
    proof (cases "py_eq j k'")
      case True
      with False have "\<not> py_eq k k'" using 2 py_eq_sym py_eq_trans by (metis case_prodD list.set_intros(1))
      with True False show ?thesis by (simp add: rows_of_key_def)
    next
      case False
      with IH \<open>\<not> py_eq j k\<close> show ?thesis by (simp add: rows_of_key_def)
    qed
  qed
qed (simp add: rows_of_key_def)

lemma dict_append_wf:
  "py_wf k \<Longrightarrow> \<forall>(j, xs) \<in> set grouped. py_wf j \<Longrightarrow> \<forall>(j, xs) \<in> set (dict_append grouped k x). py_wf j"
  by (induction grouped k x rule: dict_append.induct) auto

lemma dict_append_nonempty:
  "\<forall>(j, xs) \<in> set grouped. xs \<noteq> [] \<Longrightarrow> \<forall>(j, xs) \<in> set (dict_append grouped k x). xs \<noteq> []"
  by (induction grouped k x rule: dict_append.induct) auto

lemma group_into_spec:
  assumes "\<forall>r \<in> set rows. \<exists>g. grouping_key r cols = Inr g \<and> hashable g \<and> py_wf g"
    and "\<forall>(j, xs) \<in> set grouped. py_wf j"
  shows "\<exists>grouped'. group_into cols rows grouped = Inr grouped' \<and> (\<forall>(j, xs) \<in> set grouped'. py_wf j)
    \<and> ((\<forall>(j, xs) \<in> set grouped. xs \<noteq> []) \<longrightarrow> (\<forall>(j, xs) \<in> set grouped'. xs \<noteq> []))
    \<and> (\<forall>k. py_wf k \<longrightarrow> rows_of_key grouped' k
          = rows_of_key grouped k @ filter (\<lambda>r. \<exists>g. grouping_key r cols = Inr g \<and> py_eq g k) rows)"
  using assms
proof (induction cols rows grouped rule: group_into.induct)
  case (2 cols r rows grouped)
  then obtain g where g: "grouping_key r cols = Inr g" "hashable g" "py_wf g" by auto
  have wf: "\<forall>(j, xs) \<in> set (dict_append grouped g r). py_wf j"
    using g(3) 2(3) by (rule dict_append_wf)
  have rest: "\<forall>r \<in> set rows. \<exists>g. grouping_key r cols = Inr g \<and> hashable g \<and> py_wf g" using 2(2) by simp
  from "2.IH" [OF g(1) _ rest wf] g(2) obtain grouped' where
    g': "group_into cols rows (dict_append grouped g r) = Inr grouped'" "\<forall>(j, xs) \<in> set grouped'. py_wf j"
    "(\<forall>(j, xs) \<in> set (dict_append grouped g r). xs \<noteq> []) \<longrightarrow> (\<forall>(j, xs) \<in> set grouped'. xs \<noteq> [])"
    "\<And>k. py_wf k \<Longrightarrow> rows_of_key grouped' k
       = rows_of_key (dict_append grouped g r) k @ filter (\<lambda>r. \<exists>g. grouping_key r cols = Inr g \<and> py_eq g k) rows"
    by blast
  have of: "rows_of_key grouped' k = rows_of_key grouped k @ filter (\<lambda>r. \<exists>g. grouping_key r cols = Inr g \<and> py_eq g k) (r # rows)"
    if "py_wf k" for k
    using g'(4) [OF that] group_of_append [OF g(3) that 2(3)] g(1) by simp
  have ne: "(\<forall>(j, xs) \<in> set grouped. xs \<noteq> []) \<longrightarrow> (\<forall>(j, xs) \<in> set grouped'. xs \<noteq> [])"
    by (intro impI) (rule mp [OF g'(3) dict_append_nonempty])
  have "group_into cols (r # rows) grouped = Inr grouped'" using g(1,2) g'(1) by simp
  then show ?case
    by (intro exI [of _ grouped'] conjI) (assumption, rule g'(2), rule ne, intro allI impI, rule of)
qed simp

lemma group_rows_spec:
  assumes "\<forall>r \<in> set rows. \<exists>g. grouping_key r cols = Inr g \<and> hashable g \<and> py_wf g"
  obtains grouped where "group_rows cols rows = Inr grouped" and "\<forall>(j, xs) \<in> set grouped. xs \<noteq> []"
    and "\<And>k. py_wf k \<Longrightarrow> rows_of_key grouped k = filter (\<lambda>r. \<exists>g. grouping_key r cols = Inr g \<and> py_eq g k) rows"
  using group_into_spec [OF assms, of "[]"] by (auto simp: group_rows_def rows_of_key_def)

section \<open>Sorting\<close>

lemma row_before_cong: "(\<And>c. c \<in> oc_column ` set cs \<Longrightarrow> r c = s c) \<Longrightarrow> row_before cs r x = row_before cs s x"
  "(\<And>c. c \<in> oc_column ` set cs \<Longrightarrow> r c = s c) \<Longrightarrow> row_before cs x r = row_before cs x s"
  by (induction cs) auto

lemma row_before_total:
  "(\<forall>c \<in> oc_column ` set cs. r c = s c) \<or> row_before cs r s \<or> row_before cs s r"
proof (induction cs)
  case (Cons c cs)
  then show ?case
    using cell_before_total [of "r (oc_column c)" "s (oc_column c)" "oc_desc c"
        "case oc_nulls_first c of None \<Rightarrow> oc_desc c | Some b \<Rightarrow> b"] by auto
qed simp

lemma length_filter_mono: "(\<And>s. P s \<Longrightarrow> Q s) \<Longrightarrow> length (filter P xs) \<le> length (filter Q xs)"
  by (induction xs) auto

lemma length_filter_less:
  "(\<And>s. P s \<Longrightarrow> Q s) \<Longrightarrow> b \<in> set xs \<Longrightarrow> Q b \<Longrightarrow> \<not> P b \<Longrightarrow> length (filter P xs) < length (filter Q xs)"
proof (induction xs)
  case (Cons x xs)
  have "length (filter P xs) \<le> length (filter Q xs)" using Cons.prems(1) by (rule length_filter_mono)
  with Cons show ?case by (cases "x = b") auto
qed simp

lemma number_in_le:
  assumes "a \<in> set rows" and "b \<in> set rows" and "partition_cells sv cols a = partition_cells sv cols b"
  shows "number_in sv cols clauses rows a \<le> number_in sv cols clauses rows b
    \<longleftrightarrow> \<not> row_before clauses (sv_view sv b) (sv_view sv a)"
proof -
  let ?P = "\<lambda>x s. partition_cells sv cols s = partition_cells sv cols x \<and> row_before clauses (sv_view sv s) (sv_view sv x)"
  have less: "number_in sv cols clauses rows b < number_in sv cols clauses rows a"
    if "row_before clauses (sv_view sv b) (sv_view sv a)" "b \<in> set rows"
      "partition_cells sv cols a = partition_cells sv cols b" for a b
  proof -
    have "length (filter (?P b) rows) < length (filter (?P a) rows)"
      using that row_before_trans by (intro length_filter_less [OF _ that(2)]) auto
    then show ?thesis by (simp add: number_in_def)
  qed
  show ?thesis
  proof (cases "row_before clauses (sv_view sv a) (sv_view sv b)")
    case True
    then have "\<not> row_before clauses (sv_view sv b) (sv_view sv a)"
      using row_before_trans row_before_irrefl by blast
    with less [OF True assms(1)] assms(3) show ?thesis by simp
  next
    case False
    show ?thesis
    proof (cases "row_before clauses (sv_view sv b) (sv_view sv a)")
      case True
      with less [OF True assms(2,3)] show ?thesis by simp
    next
      case tie: False
      with False row_before_total [of clauses "sv_view sv a" "sv_view sv b"]
      have "\<forall>c \<in> oc_column ` set clauses. sv_view sv a c = sv_view sv b c" by blast
      then have "row_before clauses (sv_view sv s) (sv_view sv a) = row_before clauses (sv_view sv s) (sv_view sv b)" for s
        by (intro row_before_cong(2)) blast
      with tie assms(3) show ?thesis by (simp add: number_in_def)
    qed
  qed
qed

lemma insort_key_cong:
  "(\<And>y. y \<in> set xs \<Longrightarrow> (f x \<le> f y) = (g x \<le> g y)) \<Longrightarrow> insort_key f x xs = insort_key g x xs"
  by (induction xs) auto

lemma sort_key_cong_le:
  "(\<And>x y. x \<in> set xs \<Longrightarrow> y \<in> set xs \<Longrightarrow> (f x \<le> f y) = (g x \<le> g y)) \<Longrightarrow> sort_key f xs = sort_key g xs"
proof (induction xs)
  case (Cons x xs)
  then have "sort_key f xs = sort_key g xs" by simp
  moreover have "insort_key f x (sort_key g xs) = insort_key g x (sort_key g xs)"
    using Cons.prems by (intro insort_key_cong) simp
  ultimately show ?case by simp
qed simp

text \<open>Sorting the rows of one key is cutting the sorted rows of all.\<close>

lemma filter_order_rows: "filter P (order_rows sv clauses rows) = order_rows sv clauses (filter P rows)"
  unfolding order_rows_def filter_sort_key
  by (rule sort_key_cong_le) (simp add: number_in_le partition_cells_def)

lemma set_order_rows [simp]: "set (order_rows sv clauses rows) = set rows"
  by (simp add: order_rows_def)

text \<open>On distinct rows any two of which the ordering separates, the result is strictly sorted.\<close>

lemma order_rows_strict:
  assumes d: "distinct rows"
    and tot: "\<And>a b. a \<in> set rows \<Longrightarrow> b \<in> set rows \<Longrightarrow> a \<noteq> b
      \<Longrightarrow> row_before clauses (sv_view sv a) (sv_view sv b) \<or> row_before clauses (sv_view sv b) (sv_view sv a)"
  shows "sorted_wrt (\<lambda>a b. row_before clauses (sv_view sv a) (sv_view sv b)) (order_rows sv clauses rows)"
    and "distinct (order_rows sv clauses rows)"
proof -
  let ?xs = "order_rows sv clauses rows" and ?f = "number_in sv [] clauses rows"
  show dist: "distinct ?xs" using d by (simp add: order_rows_def)
  have "sorted (map ?f ?xs)" by (simp add: order_rows_def)
  then have le: "?f (?xs ! i) \<le> ?f (?xs ! j)" if "i < j" "j < length ?xs" for i j
    using that by (simp add: sorted_iff_nth_mono_less)
  show "sorted_wrt (\<lambda>a b. row_before clauses (sv_view sv a) (sv_view sv b)) ?xs"
    unfolding sorted_wrt_iff_nth_less
  proof (intro allI impI)
    fix i j assume ij: "i < j" "j < length ?xs"
    then have mem: "?xs ! i \<in> set rows" "?xs ! j \<in> set rows"
      using nth_mem [of i ?xs] nth_mem [of j ?xs] by simp_all
    have "?xs ! i \<noteq> ?xs ! j" using ij dist by (simp add: nth_eq_iff_index_eq)
    moreover have "\<not> row_before clauses (sv_view sv (?xs ! j)) (sv_view sv (?xs ! i))"
      using le [OF ij] number_in_le [OF mem, of sv "[]" clauses] by (simp add: partition_cells_def)
    ultimately show "row_before clauses (sv_view sv (?xs ! i)) (sv_view sv (?xs ! j))"
      using tot [OF mem] by blast
  qed
qed

section \<open>Keys and rows\<close>

definition has_key :: "string list \<Rightarrow> pyval \<Rightarrow> row \<Rightarrow> bool" where
  "has_key cols k r \<longleftrightarrow> (\<exists>g. grouping_key r cols = Inr g \<and> py_eq g k)"

text \<open>A table as a resource declares it: its rows carry the columns, with usable values in the key's.\<close>

definition table_ok :: "'v server \<Rightarrow> pg_resource \<Rightarrow> string list \<Rightarrow> bool" where
  "table_ok sv rs cols \<longleftrightarrow> resource_ok rs \<and> cols \<noteq> [] \<and>
     (\<forall>r \<in> set (sv_tables sv (rs_schema rs, rs_table rs)).
        map fst r = stored_columns rs @ computed_columns rs
        \<and> (\<forall>c \<in> set cols. \<exists>v. map_of r c = Some v \<and> hashable v \<and> py_wf v))"

text \<open>A lookup key the driver can bind, for which the database and Python agree on the rows that have it.\<close>

definition key_ok :: "('v::linorder) server \<Rightarrow> pg_resource \<Rightarrow> string list \<Rightarrow> pyval \<Rightarrow> bool" where
  "key_ok sv rs cols k \<longleftrightarrow> hashable k \<and> py_wf k \<and>
     (k \<noteq> VNone \<longrightarrow> (\<exists>ps. key_parts (match_predicate cols []) k = Inr ps \<and> length ps = length cols
        \<and> (\<forall>v \<in> set ps. bindable (sv_db sv) v)
        \<and> (\<forall>r \<in> set (sv_tables sv (rs_schema rs, rs_table rs)).
              parts_match (sv_db sv) cols ps (sv_view sv r) = has_key cols k r)))"

lemma row_get_Some: "map_of r c = Some v \<Longrightarrow> row_get r c = Inr v"
  by (simp add: row_get_def)

lemma grouping_key_total:
  assumes "\<forall>c \<in> set cols. \<exists>v. map_of r c = Some v \<and> hashable v \<and> py_wf v"
  shows "\<exists>g. grouping_key r cols = Inr g \<and> hashable g \<and> py_wf g"
proof -
  have vals: "map_res (row_get r) cols = Inr (map (\<lambda>c. the (map_of r c)) cols)"
    using assms by (intro map_res_Inr) (auto simp: row_get_def)
  have "\<exists>g. (if length cols = 1 then row_get r (hd cols)
      else bind_res (map_res (row_get r) cols) (\<lambda>vs. Inr (VTuple vs))) = Inr g \<and> hashable g \<and> py_wf g"
    using assms vals by (cases cols) (auto simp: row_get_Some)
  moreover have "grouping_key r cols = (if length cols = 1 then row_get r (hd cols)
      else bind_res (map_res (row_get r) cols) (\<lambda>vs. Inr (VTuple vs)))"
    by (cases cols; cases "tl cols") (simp_all add: grouping_key_def)
  ultimately show ?thesis by simp
qed

lemma has_key_eq:
  assumes "py_eq u k" and "py_wf u" and "py_wf k"
  shows "has_key cols u r = has_key cols k r"
  unfolding has_key_def using assms py_eq_sym py_eq_trans by blast

text \<open>The rows the statement matches are those with one of the keys.\<close>

lemma bound_keys_match:
  assumes ok: "\<forall>u \<in> set uk. u \<noteq> VNone \<and> key_ok sv rs cols u" and cols: "cols \<noteq> []"
    and params: "length cols = 1 \<Longrightarrow> map_of params ''keys'' = Some (VList uk)"
  obtains pss where "bound_keys (sv_db sv) (match_predicate cols uk) params = Inr pss"
    and "\<And>r. r \<in> set (sv_tables sv (rs_schema rs, rs_table rs))
      \<Longrightarrow> (\<exists>ps \<in> set pss. parts_match (sv_db sv) cols ps (sv_view sv r)) = (\<exists>u \<in> set uk. has_key cols u r)"
proof -
  let ?m = "match_predicate cols uk"
  define f where "f u = (SOME ps. key_parts (match_predicate cols []) u = Inr ps \<and> length ps = length cols
        \<and> (\<forall>v \<in> set ps. bindable (sv_db sv) v)
        \<and> (\<forall>r \<in> set (sv_tables sv (rs_schema rs, rs_table rs)).
              parts_match (sv_db sv) cols ps (sv_view sv r) = has_key cols u r))" for u
  have f: "key_parts (match_predicate cols []) u = Inr (f u) \<and> length (f u) = length cols
        \<and> (\<forall>v \<in> set (f u). bindable (sv_db sv) v)
        \<and> (\<forall>r \<in> set (sv_tables sv (rs_schema rs, rs_table rs)).
              parts_match (sv_db sv) cols (f u) (sv_view sv r) = has_key cols u r)" if "u \<in> set uk" for u
    unfolding f_def by (rule someI_ex) (use ok that in \<open>auto simp: key_ok_def\<close>)
  have same: "key_parts ?m u = key_parts (match_predicate cols []) u" for u
    by (simp add: key_parts_def match_predicate_def)
  have "map_res (key_parts ?m) uk = Inr (map f uk)" using f same by (intro map_res_Inr) simp
  moreover have "length cols = 1 \<or> length cols > 1" using cols by (cases cols; cases "tl cols") auto
  ultimately have "bound_keys (sv_db sv) ?m params = Inr (map f uk)"
    using f params by (auto simp: bound_keys_def match_predicate_def)
  moreover have "(\<exists>ps \<in> set (map f uk). parts_match (sv_db sv) cols ps (sv_view sv r)) = (\<exists>u \<in> set uk. has_key cols u r)"
    if "r \<in> set (sv_tables sv (rs_schema rs, rs_table rs))" for r
    using f that by auto
  ultimately show thesis by (rule that)
qed

lemma where_true_cong:
  assumes "\<And>p n. p \<in> set ps \<Longrightarrow> n \<in> bind_names p \<Longrightarrow> map_of params n = map_of params' n"
  shows "where_true sv params ps r = where_true sv params' ps r"
proof -
  have "bind_params params p = bind_params params' p" if "p \<in> set ps" for p
    by (rule bind_params_cong) (rule assms [OF that])
  then show ?thesis by (simp add: where_true_def)
qed

text \<open>The rows of one key under the host predicates, in order.\<close>

definition key_rows ::
  "('v::linorder) server \<Rightarrow> pg_resource \<Rightarrow> string list \<Rightarrow> order_term list \<Rightarrow> row \<Rightarrow> predicate list \<Rightarrow> pyval \<Rightarrow> row list" where
  "key_rows sv rs cols ts params wps k =
     (if k = VNone then []
      else order_rows sv (order_clauses ts)
             (filter (\<lambda>r. has_key cols k r \<and> where_true sv params wps r)
                (sv_tables sv (rs_schema rs, rs_table rs))))"

lemma has_key_VNone: "has_key cols VNone r \<Longrightarrow> grouping_key r cols = Inr VNone"
  unfolding has_key_def
proof (elim exE conjE)
  fix g assume "grouping_key r cols = Inr g" "py_eq g VNone"
  then show ?thesis by (cases g) auto
qed

lemma matched_rows_keys:
  assumes ok: "\<forall>u \<in> set uk. u \<noteq> VNone \<and> key_ok sv rs cols u" and cols: "cols \<noteq> []"
    and params: "length cols = 1 \<Longrightarrow> map_of params ''keys'' = Some (VList uk)"
  shows "matched_rows sv params (rs_schema rs, rs_table rs) (Some (match_predicate cols uk)) wps
    = Inr (filter (\<lambda>r. (\<exists>u \<in> set uk. has_key cols u r) \<and> where_true sv params wps r)
        (sv_tables sv (rs_schema rs, rs_table rs)))"
proof -
  obtain pss where pss: "bound_keys (sv_db sv) (match_predicate cols uk) params = Inr pss"
    "\<And>r. r \<in> set (sv_tables sv (rs_schema rs, rs_table rs))
      \<Longrightarrow> (\<exists>ps \<in> set pss. parts_match (sv_db sv) cols ps (sv_view sv r)) = (\<exists>u \<in> set uk. has_key cols u r)"
    using bound_keys_match [OF ok cols params] by blast
  have "clause_columns (match_predicate cols uk) = cols"
    using cols by (cases cols; cases "tl cols") (simp_all add: clause_columns_def match_predicate_def)
  with pss show ?thesis by (simp add: matched_rows_def cong: filter_cong)
qed

text \<open>Of the matched rows, those of one of the keys are the rows a query for it alone would give.\<close>

lemma filter_matched:
  assumes "k \<noteq> VNone" and "u \<in> set uk" and "py_eq u k" and "py_wf u" and "py_wf k"
  shows "filter (has_key cols k) (filter (\<lambda>r. (\<exists>u \<in> set uk. has_key cols u r) \<and> W r) rows)
    = filter (\<lambda>r. has_key cols k r \<and> W r) rows"
  using has_key_eq [OF assms(3,4,5)] assms(2) by (auto intro!: filter_cong)

section \<open>Grouping decoded rows\<close>

lemma map_res_groups:
  assumes "\<And>j xs. (j, xs) \<in> set grouped \<Longrightarrow> F xs = Inr (f xs)"
  shows "map_res (\<lambda>(k, g). bind_res (F g) (\<lambda>rs. Inr (k, rs))) grouped = Inr (map (\<lambda>(k, g). (k, f g)) grouped)"
  using assms by (intro map_res_Inr) (auto simp: bind_res_Inr_iff)

lemma group_of_map: "f [] = [] \<Longrightarrow> rows_of_key (map (\<lambda>(k, g). (k, f g)) grouped) k = f (rows_of_key grouped k)"
  unfolding rows_of_key_def by (induction grouped k rule: slot_get.induct) auto

lemma dict_append_members: "(j, xs) \<in> set (dict_append grouped k x) \<Longrightarrow> y \<in> set xs
    \<Longrightarrow> y = x \<or> (\<exists>(i, ys) \<in> set grouped. y \<in> set ys)"
  by (induction grouped k x rule: dict_append.induct) (auto split: if_splits)

lemma group_into_members:
  "group_into cols rows grouped = Inr grouped' \<Longrightarrow> (j, xs) \<in> set grouped' \<Longrightarrow> y \<in> set xs
    \<Longrightarrow> y \<in> set rows \<or> (\<exists>(i, ys) \<in> set grouped. y \<in> set ys)"
proof (induction cols rows grouped rule: group_into.induct)
  case (2 cols r rows grouped)
  then obtain g where g: "grouping_key r cols = Inr g" "hashable g"
    "group_into cols rows (dict_append grouped g r) = Inr grouped'"
    by (auto simp: bind_res_Inr_iff split: if_splits)
  have "y \<in> set rows \<or> (\<exists>(i, ys) \<in> set (dict_append grouped g r). y \<in> set ys)"
    using 2(1) [OF g(1) _ g(3) 2(3,4)] g(2) by simp
  then show ?case using dict_append_members [of _ _ grouped g r y] by fastforce
qed force

lemma group_rows_members: "group_rows cols rows = Inr grouped \<Longrightarrow> (j, xs) \<in> set grouped \<Longrightarrow> y \<in> set xs \<Longrightarrow> y \<in> set rows"
  unfolding group_rows_def by (drule (2) group_into_members) simp

lemma decode_rows_map: "\<forall>r \<in> set rows. decode_row rs r = Inr (dec r) \<Longrightarrow> decode_rows rs rows = Inr (map dec rows)"
proof (cases "has_decoders rs")
  case False
  assume "\<forall>r \<in> set rows. decode_row rs r = Inr (dec r)"
  with False have "map dec rows = rows" by (simp add: decode_row_def map_idI)
  with False show ?thesis by (simp add: decode_rows_def)
qed (simp add: decode_rows_def map_res_Inr)

lemma group_and_decode_spec:
  assumes keys: "\<forall>r \<in> set rows. \<exists>g. grouping_key r (sl_match sl) = Inr g \<and> hashable g \<and> py_wf g"
    and dec: "\<forall>r \<in> set rows. decode_row (sl_resource sl) r = Inr (dec r)"
  obtains grouped where "group_and_decode sl rows = Inr grouped"
    and "\<And>k. py_wf k \<Longrightarrow> rows_of_key grouped k = map dec (filter (has_key (sl_match sl) k) rows)"
proof -
  obtain raw where raw: "group_rows (sl_match sl) rows = Inr raw" "\<forall>(j, xs) \<in> set raw. xs \<noteq> []"
    "\<And>k. py_wf k \<Longrightarrow> rows_of_key raw k = filter (\<lambda>r. \<exists>g. grouping_key r (sl_match sl) = Inr g \<and> py_eq g k) rows"
    by (rule group_rows_spec [OF keys], rule that)
  have of: "rows_of_key raw k = filter (has_key (sl_match sl) k) rows" if "py_wf k" for k
    using raw(3) [OF that] by (simp add: has_key_def [abs_def])
  show thesis
  proof (cases "has_decoders (sl_resource sl)")
    case True
    have "decode_rows (sl_resource sl) xs = Inr (map dec xs)" if "(j, xs) \<in> set raw" for j xs
      using dec group_rows_members [OF raw(1) that] by (intro decode_rows_map) blast
    then have "map_res (\<lambda>(k, g). bind_res (decode_rows (sl_resource sl) g) (\<lambda>rs. Inr (k, rs))) raw
        = Inr (map (\<lambda>(k, g). (k, map dec g)) raw)" by (rule map_res_groups)
    with raw(1) True have "group_and_decode sl rows = Inr (map (\<lambda>(k, g). (k, map dec g)) raw)"
      by (simp add: group_and_decode_def)
    then show thesis by (rule that) (simp add: group_of_map of)
  next
    case False
    with dec have "\<forall>r \<in> set rows. dec r = r" by (auto simp: decode_row_def)
    then have "map dec (filter P rows) = filter P rows" for P by (intro map_idI) auto
    with False raw(1) of show thesis by (intro that [of raw]) (simp_all add: group_and_decode_def)
  qed
qed

lemma scatter_many_eq: "length keys = n \<Longrightarrow> scatter_many grouped keys n = map (\<lambda>k. VList (map VDict (rows_of_key grouped k))) keys"
  unfolding scatter_many_def by (rule map_nth_upt_comp)

definition first_or_none :: "row list \<Rightarrow> pyval" where
  "first_or_none rows = (case rows of [] \<Rightarrow> VNone | r # _ \<Rightarrow> VDict r)"

lemma scatter_single_eq: "length keys = n \<Longrightarrow> scatter_single grouped keys n = map (\<lambda>k. first_or_none (rows_of_key grouped k)) keys"
proof -
  assume n: "length keys = n"
  let ?f = "\<lambda>k. case slot_get grouped k of None \<Rightarrow> VNone | Some rows \<Rightarrow> (case rows of [] \<Rightarrow> VNone | r # _ \<Rightarrow> VDict r)"
  have "?f k = first_or_none (rows_of_key grouped k)" for k
    by (simp add: rows_of_key_def first_or_none_def split: option.split)
  moreover have "scatter_single grouped keys n = map ?f keys"
    unfolding scatter_single_def by (rule map_nth_upt_comp [OF n])
  ultimately show ?thesis by simp
qed

section \<open>The entries of a select\<close>

text \<open>Given what the statement returns for the unique keys, cut by key, the columns of the entries.\<close>

lemma sl_execute_core:
  assumes keys: "map_res (\<lambda>k. normalize_lookup_key k (is_composite sl)) (values ! 0) = Inr keys"
      "length keys = n" "\<forall>k \<in> set keys. hashable k \<and> py_wf k"
    and scat: "\<And>grouped. scatter_rows grouped keys n = map (\<lambda>k. out (rows_of_key grouped k)) keys" "out [] = missing"
    and T: "\<And>r. r \<in> T \<Longrightarrow> \<exists>g. grouping_key (wide r) (sl_match sl) = Inr g \<and> hashable g \<and> py_wf g"
      "\<And>r k. r \<in> T \<Longrightarrow> has_key (sl_match sl) k (wide r) = has_key (sl_match sl) k r"
      "\<And>r. r \<in> T \<Longrightarrow> decode_row (sl_resource sl) (wide r) = Inr (dec (wide r))"
    and none: "page VNone = []"
    and run: "\<And>uk. set uk \<subseteq> {k \<in> set keys. k \<noteq> VNone} \<Longrightarrow> \<forall>k \<in> set keys. k \<noteq> VNone \<longrightarrow> (\<exists>u \<in> set uk. py_eq u k)
      \<Longrightarrow> \<exists>ys. sl_run_query exec ct sl uk context source_values = Inr (map wide ys) \<and> set ys \<subseteq> T
          \<and> (\<forall>k \<in> set keys. filter (has_key (sl_match sl) k) ys = page k)"
  shows "settle (sl_execute scatter_rows missing exec ct sl context source_values n values)
    = Inr (map (\<lambda>k. out (map (dec \<circ> wide) (page k))) keys)"
proof -
  obtain uk es where uk: "coalesce_keys keys (length keys) = Inr (uk, es)"
    "set uk \<subseteq> {k \<in> set keys. k \<noteq> VNone}" "\<forall>k \<in> set keys. k \<noteq> VNone \<longrightarrow> (\<exists>u \<in> set uk. py_eq u k)"
    using coalesce_keys_spec [OF keys(3)] by blast
  show ?thesis
  proof (cases "uk = []")
    case True
    with uk(3) have "k = VNone" if "k \<in> set keys" for k using that by auto
    then have "page (keys ! i) = []" if "i < n" for i using none keys(2) that by (metis nth_mem)
    then have "map (\<lambda>k. out (map (dec \<circ> wide) (page k))) keys = replicate n missing"
      using scat(2) keys(2) by (intro nth_equalityI) auto
    with True uk(1) keys(1,2) show ?thesis by (simp add: sl_execute_def)
  next
    case False
    from run [OF uk(2,3)] obtain ys where ys: "sl_run_query exec ct sl uk context source_values = Inr (map wide ys)"
      "set ys \<subseteq> T" "\<And>k. k \<in> set keys \<Longrightarrow> filter (has_key (sl_match sl) k) ys = page k" by blast
    have a: "\<forall>r \<in> set (map wide ys). \<exists>g. grouping_key r (sl_match sl) = Inr g \<and> hashable g \<and> py_wf g"
      using T(1) ys(2) by auto
    have b: "\<forall>r \<in> set (map wide ys). decode_row (sl_resource sl) r = Inr (dec r)" using T(3) ys(2) by auto
    obtain grouped where g: "group_and_decode sl (map wide ys) = Inr grouped"
      "\<And>k. py_wf k \<Longrightarrow> rows_of_key grouped k = map dec (filter (has_key (sl_match sl) k) (map wide ys))"
      by (rule group_and_decode_spec [OF a b], rule that)
    have "rows_of_key grouped k = map (dec \<circ> wide) (page k)" if k: "k \<in> set keys" for k
    proof -
      have "filter (has_key (sl_match sl) k) (map wide ys) = map wide (filter (has_key (sl_match sl) k) ys)"
        using T(2) ys(2) by (simp add: filter_map o_def) (rule arg_cong [where f = "map wide"], rule filter_cong, auto)
      with g(2) [of k] keys(3) k ys(3) [OF k] show ?thesis by simp
    qed
    with False uk(1) keys(1,2) ys(1) g(1) scat(1) show ?thesis by (simp add: sl_execute_def cong: map_cong)
  qed
qed

definition widened :: "('v::linorder) server \<Rightarrow> row \<Rightarrow> inline_spec list \<Rightarrow> row \<Rightarrow> row" where
  "widened sv params specs r = r @ map (\<lambda>spec. lateral_value sv params r (build_lateral spec)) specs"

lemma map_of_widened: "map_of r c = Some v \<Longrightarrow> map_of (widened sv params specs r) c = Some v"
  by (simp add: widened_def map_add_Some_iff)

lemma widened_key:
  assumes "\<forall>c \<in> set cols. \<exists>v. map_of r c = Some v"
  shows "grouping_key (widened sv params specs r) cols = grouping_key r cols"
proof -
  have "row_get (widened sv params specs r) c = row_get r c" if c: "c \<in> set cols" for c
  proof -
    obtain v where "map_of r c = Some v" using assms c by blast
    then show ?thesis using map_of_widened [of r c v sv params specs] by (simp add: row_get_def)
  qed
  then have "map_res (row_get (widened sv params specs r)) cols = map_res (row_get r) cols"
      "length cols = 1 \<Longrightarrow> row_get (widened sv params specs r) (hd cols) = row_get r (hd cols)"
    by (auto intro!: map_res_cong) (cases cols; simp)
  then show ?thesis by (cases cols; cases "tl cols") (simp_all add: grouping_key_def)
qed

lemma table_ok_row:
  assumes "table_ok sv rs cols" and "r \<in> set (sv_tables sv (rs_schema rs, rs_table rs))"
  shows "project (stored_columns rs @ computed_columns rs) r = r"
    and "\<exists>g. grouping_key r cols = Inr g \<and> hashable g \<and> py_wf g"
    and "\<forall>c \<in> set cols. \<exists>v. map_of r c = Some v"
proof -
  show *: "\<forall>c \<in> set cols. \<exists>v. map_of r c = Some v" using assms by (fastforce simp: table_ok_def)
  show "project (stored_columns rs @ computed_columns rs) r = r"
    using assms columns_partition(2) [of rs] by (intro project_id) (auto simp: table_ok_def)
  show "\<exists>g. grouping_key r cols = Inr g \<and> hashable g \<and> py_wf g"
    using assms by (intro grouping_key_total) (simp add: table_ok_def)
qed

lemma map_snd_computed: "map snd (computed_projections rs) = computed_columns rs"
  by (simp add: computed_projections_def computed_columns_def o_def)

lemma widened_params:
  assumes "\<And>n. n \<noteq> ''keys'' \<Longrightarrow> map_of params n = map_of params' n"
    and "\<forall>spec \<in> set specs. \<forall>p \<in> set (in_where spec). ''keys'' \<notin> bind_names p"
  shows "widened sv params specs r = widened sv params' specs r"
proof -
  have "lateral_value sv params r (build_lateral spec) = lateral_value sv params' r (build_lateral spec)"
    if "spec \<in> set specs" for spec
  proof -
    have "where_true sv params (in_where spec) x = where_true sv params' (in_where spec) x" for x
      using assms that by (intro where_true_cong) metis
    then show ?thesis by (simp add: lateral_value_def lateral_rows_def build_lateral_def json_row_def Let_def)
  qed
  then show ?thesis by (simp add: widened_def)
qed

lemma st_laterals_apply:
  "st_laterals q = [] \<Longrightarrow> st_laterals (apply_laterals q specs) = map build_lateral specs"
  "st_table (apply_laterals q specs) = st_table q" "st_match (apply_laterals q specs) = st_match q"
  "st_where (apply_laterals q specs) = st_where q" "st_offset (apply_laterals q specs) = st_offset q"
  "st_limit (apply_laterals q specs) = st_limit q" "st_order (apply_laterals q specs) = st_order q"
  "st_columns (apply_laterals q specs) = st_columns q" "st_computed (apply_laterals q specs) = st_computed q"
  by (simp_all add: apply_laterals_def)

lemma answer_plain:
  assumes plain: "\<not> is_limited sl" and tab: "table_ok sv (sl_resource sl) (sl_match sl)"
    and ok: "\<forall>u \<in> set uk. u \<noteq> VNone \<and> key_ok sv (sl_resource sl) (sl_match sl) u"
    and params: "length (sl_match sl) = 1 \<Longrightarrow> map_of params ''keys'' = Some (VList uk)"
  shows "\<exists>q. sl_build_query sl uk context source_values = Inr q
    \<and> answer sv q params = Inr (map (widened sv params (sl_inline sl))
        (order_rows sv (order_clauses (sl_order sl))
          (filter (\<lambda>r. (\<exists>u \<in> set uk. has_key (sl_match sl) u r) \<and> where_true sv params (sl_where sl) r)
            (sv_tables sv (rs_schema (sl_resource sl), rs_table (sl_resource sl))))))"
proof -
  let ?rs = "sl_resource sl" and ?cols = "sl_match sl"
  let ?matched = "filter (\<lambda>r. (\<exists>u \<in> set uk. has_key ?cols u r) \<and> where_true sv params (sl_where sl) r)
    (sv_tables sv (rs_schema ?rs, rs_table ?rs))"
  have m: "matched_rows sv params (rs_schema ?rs, rs_table ?rs) (Some (match_predicate ?cols uk)) (sl_where sl) = Inr ?matched"
    using tab by (intro matched_rows_keys [OF ok _ params]) (simp_all add: table_ok_def)
  have "map (\<lambda>r. project (stored_columns ?rs @ computed_columns ?rs) r
        @ map (lateral_value sv params r) (map build_lateral (sl_inline sl))) (order_rows sv (order_clauses (sl_order sl)) ?matched)
      = map (widened sv params (sl_inline sl)) (order_rows sv (order_clauses (sl_order sl)) ?matched)"
    using table_ok_row(1) [OF tab] by (intro map_cong) (simp_all add: widened_def o_def)
  with plain m show ?thesis
    by (simp add: sl_build_query_def Let_def answer_def answer_select_def st_laterals_apply row_bound_def map_snd_computed)
qed

text \<open>A batched select gives each entry the rows of its own key, decoded, in the order of the statement; an
  entry with no key gets no rows.\<close>

theorem select_entries:
  assumes tab: "table_ok sv (sl_resource sl) (sl_match sl)" and plain: "\<not> is_limited sl"
    and keys: "map_res (\<lambda>k. normalize_lookup_key k (is_composite sl)) (values ! 0) = Inr keys" "length keys = n"
      "\<forall>k \<in> set keys. key_ok sv (sl_resource sl) (sl_match sl) k"
    and host: "where_params ct context source_values (sl_custom sl) = Inr host" "distinct (map fst host)"
      "''keys'' \<notin> fst ` set host"
    and names: "\<forall>p \<in> set (sl_where sl). ''keys'' \<notin> bind_names p"
      "\<forall>spec \<in> set (sl_inline sl). \<forall>p \<in> set (in_where spec). ''keys'' \<notin> bind_names p"
    and dec: "\<forall>r \<in> set (sv_tables sv (rs_schema (sl_resource sl), rs_table (sl_resource sl))).
      decode_row (sl_resource sl) (widened sv host (sl_inline sl) r) = Inr (dec (widened sv host (sl_inline sl) r))"
    and scat: "\<And>grouped. scatter_rows grouped keys n = map (\<lambda>k. out (rows_of_key grouped k)) keys" "out [] = missing"
  shows "settle (sl_execute scatter_rows missing (answer sv) ct sl context source_values n values)
    = Inr (map (\<lambda>k. out (map (dec \<circ> widened sv host (sl_inline sl))
        (key_rows sv (sl_resource sl) (sl_match sl) (sl_order sl) host (sl_where sl) k))) keys)"
proof (rule sl_execute_core [where out = out and wide = "widened sv host (sl_inline sl)" and dec = dec
      and T = "set (sv_tables sv (rs_schema (sl_resource sl), rs_table (sl_resource sl)))"
      and page = "key_rows sv (sl_resource sl) (sl_match sl) (sl_order sl) host (sl_where sl)"])
  let ?rs = "sl_resource sl" and ?cols = "sl_match sl"
  let ?T = "set (sv_tables sv (rs_schema ?rs, rs_table ?rs))"
  show "map_res (\<lambda>k. normalize_lookup_key k (is_composite sl)) (values ! 0) = Inr keys" "length keys = n"
    by (rule keys)+
  show "scatter_rows grouped keys n = map (\<lambda>k. out (rows_of_key grouped k)) keys" "out [] = missing" for grouped
    by (rule scat)+
  show "\<forall>k \<in> set keys. hashable k \<and> py_wf k" using keys(3) by (simp add: key_ok_def)
  fix r assume r: "r \<in> ?T"
  have g: "grouping_key (widened sv host (sl_inline sl) r) ?cols = grouping_key r ?cols"
    by (rule widened_key [OF table_ok_row(3) [OF tab r]])
  show "\<exists>g. grouping_key (widened sv host (sl_inline sl) r) ?cols = Inr g \<and> hashable g \<and> py_wf g"
    using table_ok_row(2) [OF tab r] g by simp
  show "has_key ?cols k (widened sv host (sl_inline sl) r) = has_key ?cols k r" for k by (simp add: has_key_def g)
  show "decode_row ?rs (widened sv host (sl_inline sl) r) = Inr (dec (widened sv host (sl_inline sl) r))"
    using dec r by blast
next
  let ?rs = "sl_resource sl" and ?cols = "sl_match sl"
  let ?T = "set (sv_tables sv (rs_schema ?rs, rs_table ?rs))"
  show "key_rows sv ?rs ?cols (sl_order sl) host (sl_where sl) VNone = []" by (simp add: key_rows_def)
  fix uk assume uk: "set uk \<subseteq> {k \<in> set keys. k \<noteq> VNone}" "\<forall>k \<in> set keys. k \<noteq> VNone \<longrightarrow> (\<exists>u \<in> set uk. py_eq u k)"
  define params where "params = dict_update (if is_composite sl then [] else [(''keys'', VList uk)]) host"
  have p: "sl_params ct sl uk context source_values = Inr params"
    using host(1) plain by (simp add: sl_params_def params_def Let_def)
  have other: "map_of params x = map_of host x" if "x \<noteq> ''keys''" for x
    using that host(2) by (simp add: params_def map_of_dict_update map_add_def split: option.split)
  have keyed: "length ?cols = 1 \<Longrightarrow> map_of params ''keys'' = Some (VList uk)"
    using host(2,3) by (simp add: params_def map_of_dict_update is_composite_def map_add_dom_app_simps dom_map_of_conv_image_fst)
  have ok: "\<forall>u \<in> set uk. u \<noteq> VNone \<and> key_ok sv ?rs ?cols u" using uk(1) keys(3) by auto
  let ?W = "where_true sv host (sl_where sl)"
  have W: "where_true sv params (sl_where sl) r = ?W r" for r
    using names(1) other by (intro where_true_cong) metis
  let ?matched = "filter (\<lambda>r. (\<exists>u \<in> set uk. has_key ?cols u r) \<and> ?W r) (sv_tables sv (rs_schema ?rs, rs_table ?rs))"
  let ?ys = "order_rows sv (order_clauses (sl_order sl)) ?matched"
  have wide: "widened sv params (sl_inline sl) = widened sv host (sl_inline sl)"
    using widened_params [OF other names(2)] by (intro ext)
  obtain q where "sl_build_query sl uk context source_values = Inr q"
    "answer sv q params = Inr (map (widened sv host (sl_inline sl)) ?ys)"
    using answer_plain [OF plain tab ok keyed, of "context" source_values] by (auto simp: W wide)
  then have "sl_run_query (answer sv) ct sl uk context source_values = Inr (map (widened sv host (sl_inline sl)) ?ys)"
    by (simp add: sl_run_query_def p)
  moreover have "filter (has_key ?cols k) ?ys = key_rows sv ?rs ?cols (sl_order sl) host (sl_where sl) k" if k: "k \<in> set keys" for k
  proof (cases "k = VNone")
    case True
    have "\<not> has_key ?cols VNone r" if "u \<in> set uk" "has_key ?cols u r" for u r
    proof
      assume "has_key ?cols VNone r"
      then have "grouping_key r ?cols = Inr VNone" by (rule has_key_VNone)
      with that(2) have "py_eq VNone u" by (simp add: has_key_def)
      with that(1) uk(1) show False by auto
    qed
    with True show ?thesis by (auto simp: key_rows_def filter_empty_conv)
  next
    case False
    then obtain u where u: "u \<in> set uk" "py_eq u k" using uk(2) k by blast
    have "filter (has_key ?cols k) ?matched = filter (\<lambda>r. has_key ?cols k r \<and> ?W r) (sv_tables sv (rs_schema ?rs, rs_table ?rs))"
      using ok u keys(3) k by (intro filter_matched [OF False u]) (auto simp: key_ok_def)
    with False show ?thesis by (simp add: filter_order_rows key_rows_def)
  qed
  ultimately show "\<exists>ys. sl_run_query (answer sv) ct sl uk context source_values = Inr (map (widened sv host (sl_inline sl)) ys)
      \<and> set ys \<subseteq> ?T \<and> (\<forall>k \<in> set keys. filter (has_key ?cols k) ys = key_rows sv ?rs ?cols (sl_order sl) host (sl_where sl) k)"
    by (intro exI [of _ ?ys]) auto
qed

end
