(* ===== verification/Pg_Connection_Laws.thy ===== *)
theory Pg_Connection_Laws
  imports Pg_Connection Pg_Select_Laws
begin

text \<open>
  The laws of connections: a parent's page is the Relay slice of its own ordered rows, forwards and
  backwards, whatever the other parents of the bucket are, and the totals are those of the whole sets.
\<close>

section \<open>The reference: one parent's page\<close>

text \<open>The rows a cursor leaves, and the page cut from them: from the front, or from the back.\<close>

definition seek_rows :: "bool \<Rightarrow> order_term list \<Rightarrow> (row \<Rightarrow> ('v::linorder) cells) \<Rightarrow> 'v cells option \<Rightarrow> row list \<Rightarrow> row list" where
  "seek_rows reverse ts view s xs =
     (case s of
        None \<Rightarrow> xs
      | Some c \<Rightarrow> filter (\<lambda>r. if reverse then terms_before ts (view r) c else terms_before ts c (view r)) xs)"

definition relay_page :: "bool \<Rightarrow> nat option \<Rightarrow> 'a list \<Rightarrow> 'a list" where
  "relay_page reverse len xs =
     (case len of None \<Rightarrow> xs | Some n \<Rightarrow> if reverse then drop (length xs - n) xs else take n xs)"

definition more_rows :: "nat option \<Rightarrow> 'a list \<Rightarrow> bool" where
  "more_rows len xs = (case len of None \<Rightarrow> False | Some n \<Rightarrow> n < length xs)"

text \<open>A table whose rows the ordering of the connection separates, with order columns a cursor carries; the
  label of the count is no key column.\<close>

definition paged_table ::
  "('v::linorder) server \<Rightarrow> (pyval \<Rightarrow> string) \<Rightarrow> 'f pg_connection \<Rightarrow> bool" where
  "paged_table sv to_text cn \<longleftrightarrow>
     (let rs = cn_resource cn; rows = sv_tables sv (rs_schema rs, rs_table rs); ts = cn_order cn in
      table_ok sv rs (cn_match cn) \<and> ''__total'' \<notin> set (cn_match cn) \<and> distinct rows \<and> (\<forall>t \<in> set ts. valid_term t) \<and> ts \<noteq> []
      \<and> (\<forall>a \<in> set rows. \<forall>b \<in> set rows. a \<noteq> b \<longrightarrow>
            terms_before ts (sv_view sv a) (sv_view sv b) \<or> terms_before ts (sv_view sv b) (sv_view sv a))
      \<and> (\<forall>r \<in> set rows. lossless (sv_db sv) (column_type rs) to_text ts (sv_view sv) r))"

lemma flipped_term:
  "\<lparr>ot_column = ot_column t, ot_descending = \<not> ot_descending t, ot_nulls = reverse_nulls t\<rparr> = flip_term t"
  by (simp add: flip_term_def reverse_nulls_def flip_nulls_def)

lemma effective_order_flip: "effective_order cn = (if cn_reverse cn then map flip_term (cn_order cn) else cn_order cn)"
  by (simp add: effective_order_def flipped_term)

lemma flip_valid: "valid_term (flip_term t)"
  by (simp add: flip_term_def valid_term_def flip_nulls_def)

lemma effective_before:
  assumes "\<forall>t \<in> set (cn_order cn). valid_term t"
  shows "row_before (order_clauses (effective_order cn)) a b
    = (if cn_reverse cn then terms_before (cn_order cn) b a else terms_before (cn_order cn) a b)"
proof (cases "cn_reverse cn")
  case True
  have "\<forall>t \<in> set (map flip_term (cn_order cn)). valid_term t" by (simp add: flip_valid)
  then have "row_before (order_clauses (map flip_term (cn_order cn))) a b = terms_before (map flip_term (cn_order cn)) a b"
    by (rule row_before_terms)
  with True assms show ?thesis by (simp add: effective_order_flip flip_terms_before)
next
  case False
  with assms show ?thesis by (simp add: effective_order_flip row_before_terms)
qed

section \<open>The predicate of the cursor\<close>

text \<open>The cells a seek stands for.\<close>

definition cursor_cells ::
  "('v::linorder) server \<Rightarrow> 'f pg_connection \<Rightarrow> pyval list option \<Rightarrow> 'v cells option \<Rightarrow> bool" where
  "cursor_cells sv cn vals s \<longleftrightarrow>
     (case (vals, s) of
        (None, None) \<Rightarrow> True
      | (Some vs, Some c) \<Rightarrow> cursor_row (sv_db sv) (column_type (cn_resource cn)) (cn_order cn) vs c
      | _ \<Rightarrow> False)"

text \<open>The names of the binds a keyset predicate makes.\<close>

definition cursor_binds :: "string set" where
  "cursor_binds = range (\<lambda>i. ''__ks_'' @ show_nat i)"

lemma column_after_binds:
  "(\<And>x. e = Some x \<Longrightarrow> expr_binds x = {}) \<Longrightarrow> bind_names (column_after t b v e) \<subseteq> expr_binds b"
  by (cases e) (auto simp: column_after_def Let_def split: if_splits)

lemma recursive_after_binds:
  "recursive_after xs exprs = Inr p \<Longrightarrow> (\<And>c e. exprs c = Some e \<Longrightarrow> expr_binds e = {})
    \<Longrightarrow> bind_names p \<subseteq> (\<Union>(t, v, b) \<in> set xs. expr_binds b)"
proof (induction xs exprs arbitrary: p rule: recursive_after.induct)
  case (2 t v b exprs)
  then show ?case using column_after_binds [of "exprs (ot_column t)" t b v] by auto
next
  case (3 t v b x xs exprs)
  then obtain rest where rest: "recursive_after (x # xs) exprs = Inr rest"
    and p: "p = Or_Any [column_after t b v (exprs (ot_column t)),
      And_All [Not_Distinct (case exprs (ot_column t) of None \<Rightarrow> Column (ot_column t) | Some e \<Rightarrow> e) b, rest]]"
    by (auto simp: bind_res_Inr_iff Let_def)
  have "bind_names rest \<subseteq> (\<Union>(t, v, b) \<in> set (x # xs). expr_binds b)" using 3 rest by (simp add: Let_def)
  moreover have "bind_names (column_after t b v (exprs (ot_column t))) \<subseteq> expr_binds b"
    using 3(3) by (intro column_after_binds)
  moreover have "expr_binds (case exprs (ot_column t) of None \<Rightarrow> Column (ot_column t) | Some e \<Rightarrow> e) = {}"
    using 3(3) by (cases "exprs (ot_column t)") auto
  ultimately show ?case using p by auto
qed simp

lemma keyset_binds:
  assumes "keyset_where ts vals after types exprs = Inr p" and ex: "\<And>c e. exprs c = Some e \<Longrightarrow> expr_binds e = {}"
  shows "bind_names p \<subseteq> cursor_binds"
proof -
  from assms(1) obtain xs where xs: "map_res (\<lambda>(i, t). if i < length vals
              then Inr (t, vals ! i, bind_value (vals ! i) i (types (ot_column t)))
              else Inl (IndexError ''list index out of range'')) (enumerate 0 (if after then ts else map flip_term ts)) = Inr xs"
    and p: "recursive_after xs exprs = Inr p"
    by (auto simp: keyset_where_def Let_def bind_res_Inr_iff)
  have "expr_binds b \<subseteq> cursor_binds" if "(t, v, b) \<in> set xs" for t v b
    using map_res_mem [OF xs that] by (auto simp: bind_value_def cursor_binds_def split: if_splits)
  with recursive_after_binds [OF p ex] show ?thesis by fastforce
qed

text \<open>The predicate a request adds keeps exactly the rows the cursor leaves.\<close>

lemma cursor_predicate_seeks:
  assumes cells: "cursor_cells sv cn (if cn_reverse cn then bv else av) s"
    and ts: "\<forall>t \<in> set (cn_order cn). valid_term t" "cn_order cn \<noteq> []"
  shows "\<exists>p. cursor_predicate cn av bv = Inr p \<and> (case p of None \<Rightarrow> s = None
      | Some q \<Rightarrow> s \<noteq> None \<and> bind_names q \<subseteq> cursor_binds
          \<and> (\<forall>r. sql_true (sv_db sv) r q = (if cn_reverse cn then terms_before (cn_order cn) r (the s)
                                           else terms_before (cn_order cn) (the s) r)))"
proof (cases "if cn_reverse cn then bv else av")
  case None
  with cells show ?thesis by (auto simp: cursor_predicate_def cursor_cells_def split: option.splits)
next
  case (Some vs)
  with cells obtain c where c: "s = Some c"
    and row: "cursor_row (sv_db sv) (column_type (cn_resource cn)) (cn_order cn) vs c"
    by (auto simp: cursor_cells_def split: option.splits)
  have ex: "exprs_ok (sv_db sv) r (\<lambda>c. None)" for r by (simp add: exprs_ok_def)
  obtain p where p: "keyset_where (cn_order cn) vs (\<not> cn_reverse cn) (column_type (cn_resource cn)) (\<lambda>c. None) = Inr p"
    using keyset_true [OF row ts ex, of "\<not> cn_reverse cn"] by blast
  have "sql_true (sv_db sv) r p = (if \<not> cn_reverse cn then terms_before (cn_order cn) c r else terms_before (cn_order cn) r c)" for r
    using keyset_true [OF row ts ex, of "\<not> cn_reverse cn" r] p by (metis sum.inject(2))
  with Some c p keyset_binds [OF p, simplified] show ?thesis by (simp add: cursor_predicate_def)
qed

section \<open>The rows of the page statement\<close>

lemma bind_params_nil [simp]: "bind_params [] p = p"
proof -
  have "bind_expr [] e = e" for e by (cases e) simp_all
  then show ?thesis by (induction p) (simp_all add: map_idI)
qed

lemma bind_params_fresh:
  assumes "bind_names p \<inter> fst ` set params = {}"
  shows "bind_params params p = p"
proof -
  have "bind_params params p = bind_params [] p"
  proof (rule bind_params_cong)
    fix n assume "n \<in> bind_names p"
    with assms have "n \<notin> fst ` set params" by blast
    then show "map_of params n = map_of [] n" by (simp add: map_of_eq_None_iff)
  qed
  then show ?thesis by simp
qed

text \<open>A key some row has is one partition.\<close>

lemma parts_match_cells:
  assumes "length ps = length cols" and "parts_match db cols ps r0"
  shows "parts_match db cols ps r = (map r cols = map (coerce db None) ps)"
proof -
  have some: "coerce db None (ps ! i) \<noteq> None" if "i < length cols" for i
    using assms that by (auto simp: parts_match_def set_zip)
  have "parts_match db cols ps r = (\<forall>i < length cols. coerce db None (ps ! i) = r (cols ! i))"
    using assms(1) some by (auto simp: parts_match_def set_zip)
  also have "\<dots> = (map r cols = map (coerce db None) ps)"
    using assms(1) by (auto simp: list_eq_iff_nth_eq)
  finally show ?thesis .
qed

lemma key_partition:
  assumes k: "key_ok sv rs cols k" "k \<noteq> VNone"
    and r0: "r0 \<in> set (sv_tables sv (rs_schema rs, rs_table rs))" "has_key cols k r0"
  obtains cells where "\<And>r. r \<in> set (sv_tables sv (rs_schema rs, rs_table rs))
      \<Longrightarrow> has_key cols k r = (partition_cells sv cols r = cells)"
proof -
  from k obtain ps where len: "length ps = length cols" and ps: "\<And>r. r \<in> set (sv_tables sv (rs_schema rs, rs_table rs))
      \<Longrightarrow> parts_match (sv_db sv) cols ps (sv_view sv r) = has_key cols k r"
    by (auto simp: key_ok_def)
  have "parts_match (sv_db sv) cols ps (sv_view sv r0)" using ps r0 by simp
  from parts_match_cells [OF len this] ps show thesis
    by (intro that [of "map (coerce (sv_db sv) None) ps"]) (auto simp: partition_cells_def)
qed

lemma paged_tableD:
  assumes "paged_table sv to_text cn"
  shows "table_ok sv (cn_resource cn) (cn_match cn)"
    and "distinct (sv_tables sv (rs_schema (cn_resource cn), rs_table (cn_resource cn)))"
    and "\<forall>t \<in> set (cn_order cn). valid_term t" and "cn_order cn \<noteq> []"
    and "a \<in> set (sv_tables sv (rs_schema (cn_resource cn), rs_table (cn_resource cn)))
      \<Longrightarrow> b \<in> set (sv_tables sv (rs_schema (cn_resource cn), rs_table (cn_resource cn))) \<Longrightarrow> a \<noteq> b
      \<Longrightarrow> terms_before (cn_order cn) (sv_view sv a) (sv_view sv b) \<or> terms_before (cn_order cn) (sv_view sv b) (sv_view sv a)"
    and "r \<in> set (sv_tables sv (rs_schema (cn_resource cn), rs_table (cn_resource cn)))
      \<Longrightarrow> lossless (sv_db sv) (column_type (cn_resource cn)) to_text (cn_order cn) (sv_view sv) r"
  using assms by (simp_all add: paged_table_def Let_def)

text \<open>The rows of one key, in the order of the connection: strictly sorted.\<close>

lemma key_rows_sorted:
  fixes params :: row and wps :: "predicate list" and k :: pyval
  assumes pt: "paged_table sv to_text cn"
  defines "X \<equiv> key_rows sv (cn_resource cn) (cn_match cn) (cn_order cn) params wps k"
  shows "sorted_wrt (\<lambda>a b. terms_before (cn_order cn) (sv_view sv a) (sv_view sv b)) X" and "distinct X"
    and "set X = (if k = VNone then {} else {r \<in> set (sv_tables sv (rs_schema (cn_resource cn), rs_table (cn_resource cn))).
        has_key (cn_match cn) k r \<and> where_true sv params wps r})"
proof -
  let ?rows = "filter (\<lambda>r. has_key (cn_match cn) k r \<and> where_true sv params wps r)
    (sv_tables sv (rs_schema (cn_resource cn), rs_table (cn_resource cn)))"
  note D = paged_tableD [OF pt]
  have eq: "row_before (order_clauses (cn_order cn)) a b = terms_before (cn_order cn) a b" for a b
    by (rule row_before_terms [OF D(3)])
  have d: "distinct ?rows" using D(2) by simp
  have tot: "row_before (order_clauses (cn_order cn)) (sv_view sv a) (sv_view sv b)
      \<or> row_before (order_clauses (cn_order cn)) (sv_view sv b) (sv_view sv a)"
    if "a \<in> set ?rows" "b \<in> set ?rows" "a \<noteq> b" for a b
    using D(5) that by (simp add: eq)
  note st = order_rows_strict [OF d tot]
  show "sorted_wrt (\<lambda>a b. terms_before (cn_order cn) (sv_view sv a) (sv_view sv b)) X"
    using st(1) by (cases "k = VNone") (simp_all add: X_def key_rows_def eq)
  show "distinct X" using st(2) by (cases "k = VNone") (simp_all add: X_def key_rows_def)
  show "set X = (if k = VNone then {} else {r \<in> set (sv_tables sv (rs_schema (cn_resource cn), rs_table (cn_resource cn))).
        has_key (cn_match cn) k r \<and> where_true sv params wps r})"
    by (simp add: X_def key_rows_def)
qed

lemma page_of_key:
  assumes pt: "paged_table sv to_text cn" and k: "key_ok sv (cn_resource cn) (cn_match cn) k" "k \<noteq> VNone"
    and M: "M = filter (\<lambda>r. (\<exists>u \<in> set uk. has_key (cn_match cn) u r) \<and> where_true sv params wps r \<and> seeks r)
        (sv_tables sv (rs_schema (cn_resource cn), rs_table (cn_resource cn)))"
    and u: "u \<in> set uk" "py_eq u k" "py_wf u"
    and seek: "\<And>r. seeks r = (case s of None \<Rightarrow> True | Some c \<Rightarrow>
        if cn_reverse cn then terms_before (cn_order cn) (sv_view sv r) c else terms_before (cn_order cn) c (sv_view sv r))"
    and n: "0 \<le> n"
  shows "filter (has_key (cn_match cn) k)
      (sort_key (\<lambda>r. map (\<lambda>c. the (sv_view sv r c)) (cn_match cn))
        (sort_key (number_in sv (cn_match cn) (order_clauses (effective_order cn)) M)
          (filter (\<lambda>r. bounded \<longrightarrow> int (number_in sv (cn_match cn) (order_clauses (effective_order cn)) M r) \<le> n) M)))
    = (let Y = seek_rows (cn_reverse cn) (cn_order cn) (sv_view sv) s
                 (key_rows sv (cn_resource cn) (cn_match cn) (cn_order cn) params wps k);
           Z = (if cn_reverse cn then rev Y else Y)
       in if bounded then take (nat n) Z else Z)"
proof -
  let ?rows = "sv_tables sv (rs_schema (cn_resource cn), rs_table (cn_resource cn))"
  let ?X = "key_rows sv (cn_resource cn) (cn_match cn) (cn_order cn) params wps k"
  let ?Y = "seek_rows (cn_reverse cn) (cn_order cn) (sv_view sv) s ?X"
  let ?Z = "if cn_reverse cn then rev ?Y else ?Y"
  let ?out = "sort_key (\<lambda>r. map (\<lambda>c. the (sv_view sv r c)) (cn_match cn))
        (sort_key (number_in sv (cn_match cn) (order_clauses (effective_order cn)) M)
          (filter (\<lambda>r. bounded \<longrightarrow> int (number_in sv (cn_match cn) (order_clauses (effective_order cn)) M r) \<le> n) M))"
  note X = key_rows_sorted [OF pt, of params wps k] and D = paged_tableD [OF pt]
  have "seeks = (\<lambda>r. case s of None \<Rightarrow> True | Some c \<Rightarrow>
        if cn_reverse cn then terms_before (cn_order cn) (sv_view sv r) c else terms_before (cn_order cn) c (sv_view sv r))"
    by (rule ext) (rule seek)
  then have Y: "?Y = filter seeks ?X" by (cases s) (simp_all add: seek_rows_def)
  have wf: "py_wf k" using k(1) by (simp add: key_ok_def)
  have setM: "{r \<in> set M. has_key (cn_match cn) k r} = set ?Z"
    unfolding Y using X(3) k(2) has_key_eq [OF u(2,3) wf] u(1) by (auto simp: M)
  have outM: "set ?out \<subseteq> set M" by auto
  have MT: "set M \<subseteq> set ?rows" by (auto simp: M)
  show ?thesis
  proof (cases "\<exists>r0 \<in> set M. has_key (cn_match cn) k r0")
    case False
    then have "set ?Z = {}" unfolding setM [symmetric] by blast
    then have "?Z = []" by (simp only: set_empty)
    moreover have "filter (has_key (cn_match cn) k) ?out = []" using False outM by (auto simp: filter_empty_conv)
    ultimately show ?thesis unfolding Let_def by simp
  next
    case True
    then obtain r0 where r0: "r0 \<in> set ?rows" "has_key (cn_match cn) k r0" using MT by blast
    obtain cells where cells: "\<And>r. r \<in> set ?rows
        \<Longrightarrow> has_key (cn_match cn) k r = (partition_cells sv (cn_match cn) r = cells)"
      by (rule key_partition [OF k r0], rule that)
    have "filter (has_key (cn_match cn) k) ?out = filter (\<lambda>r. partition_cells sv (cn_match cn) r = cells) ?out"
      using cells outM MT by (intro filter_cong) auto
    also have "\<dots> = (if bounded then take (nat n) ?Z else ?Z)"
    proof (rule page_partition)
      show "distinct M" using D(2) by (simp add: M)
      show "set ?Z = {r \<in> set M. partition_cells sv (cn_match cn) r = cells}"
        unfolding setM [symmetric] using cells MT by blast
      show "distinct ?Z" unfolding Y using X(2) by simp
      have "sorted_wrt (\<lambda>a b. terms_before (cn_order cn) (sv_view sv a) (sv_view sv b)) ?Y"
        unfolding Y using X(1) by (rule sorted_wrt_filter)
      then show "sorted_wrt (\<lambda>a b. row_before (order_clauses (effective_order cn)) (sv_view sv a) (sv_view sv b)) ?Z"
        by (cases "cn_reverse cn") (simp_all add: effective_before [OF D(3)] sorted_wrt_rev)
      show "0 \<le> n" by (rule n)
    qed
    finally show ?thesis unfolding Let_def .
  qed
qed

section \<open>Counts and aggregates\<close>

text \<open>The rows of a key that the host predicates keep, in table order: what its aggregates range over.\<close>

definition key_members ::
  "('v::linorder) server \<Rightarrow> pg_resource \<Rightarrow> string list \<Rightarrow> row \<Rightarrow> predicate list \<Rightarrow> pyval \<Rightarrow> row list" where
  "key_members sv rs cols params wps k =
     (if k = VNone then []
      else filter (\<lambda>r. has_key cols k r \<and> where_true sv params wps r) (sv_tables sv (rs_schema rs, rs_table rs)))"

lemma length_key_rows: "length (key_rows sv rs cols ts params wps k) = length (key_members sv rs cols params wps k)"
  by (simp add: key_rows_def key_members_def order_rows_def)

definition group_row :: "'v server \<Rightarrow> string list \<Rightarrow> agg_projection list \<Rightarrow> row list \<Rightarrow> row" where
  "group_row sv cols ps members = project cols (hd members) @ map (projected sv members) ps"

lemma project_key:
  assumes "\<forall>c \<in> set cols. \<exists>v. map_of r c = Some v"
  shows "grouping_key (project cols r @ xs) cols = grouping_key r cols"
proof -
  have get: "row_get (project cols r @ xs) c = row_get r c" if c: "c \<in> set cols" for c
  proof -
    obtain v where v: "map_of r c = Some v" using assms c by blast
    have "map_of (project cols r) c = Some v"
      using c v by (induction cols) (auto simp: project_def)
    with v show ?thesis by (simp add: row_get_def map_add_def)
  qed
  then have "map_res (row_get (project cols r @ xs)) cols = map_res (row_get r) cols" by (intro map_res_cong) auto
  with get show ?thesis by (cases cols; cases "tl cols") (simp_all add: grouping_key_def)
qed

lemma filter_distinct_point:
  "distinct xs \<Longrightarrow> (\<And>x. x \<in> set xs \<Longrightarrow> P x = (x = a)) \<Longrightarrow> filter P xs = (if a \<in> set xs then [a] else [])"
proof (induction xs)
  case (Cons x xs)
  then have "filter P xs = (if a \<in> set xs then [a] else [])" by simp
  with Cons.prems show ?case by auto
qed simp

text \<open>A grouped statement has one row for a key with rows, and none for a key without.\<close>

lemma group_of_key:
  assumes tab: "table_ok sv rs cols"
    and M: "M = filter (\<lambda>r. (\<exists>u \<in> set uk. has_key cols u r) \<and> W r) (sv_tables sv (rs_schema rs, rs_table rs))"
    and k: "key_ok sv rs cols k" "k \<noteq> VNone" and u: "u \<in> set uk" "py_eq u k" "py_wf u"
  defines "members \<equiv> filter (\<lambda>r. has_key cols k r \<and> W r) (sv_tables sv (rs_schema rs, rs_table rs))"
  shows "filter (has_key cols k) (map (\<lambda>cells. group_row sv cols ps (filter (\<lambda>r. partition_cells sv cols r = cells) M))
           (remdups (map (partition_cells sv cols) M)))
    = (if members = [] then [] else [group_row sv cols ps members])"
proof -
  let ?rows = "sv_tables sv (rs_schema rs, rs_table rs)"
  let ?F = "\<lambda>cells. group_row sv cols ps (filter (\<lambda>r. partition_cells sv cols r = cells) M)"
  let ?cs = "remdups (map (partition_cells sv cols) M)"
  have wf: "py_wf k" using k(1) by (simp add: key_ok_def)
  have MT: "set M \<subseteq> set ?rows" by (auto simp: M)
  have mem: "members = filter (has_key cols k) M"
    unfolding members_def M using filter_matched [OF k(2) u wf] by simp
  have key: "has_key cols k (?F c) = (\<exists>r \<in> set M. partition_cells sv cols r = c \<and> has_key cols k r)"
    if c: "c \<in> set ?cs" for c
  proof -
    let ?ms = "filter (\<lambda>r. partition_cells sv cols r = c) M"
    from c have "?ms \<noteq> []" by (auto simp: filter_empty_conv)
    then have h: "hd ?ms \<in> set ?rows" "hd ?ms \<in> set M" "partition_cells sv cols (hd ?ms) = c"
      using hd_in_set [of ?ms] MT by auto
    have "has_key cols k (?F c) = has_key cols k (hd ?ms)"
      using project_key [OF table_ok_row(3) [OF tab h(1)]] by (simp add: has_key_def group_row_def)
    moreover have "has_key cols k (hd ?ms)" if r: "r \<in> set M" "partition_cells sv cols r = c" "has_key cols k r" for r
    proof -
      obtain cells where "\<And>r. r \<in> set ?rows \<Longrightarrow> has_key cols k r = (partition_cells sv cols r = cells)"
        by (rule key_partition [OF k _ r(3)], use r(1) MT in blast, rule that)
      with r h MT show ?thesis by blast
    qed
    ultimately show ?thesis using h by blast
  qed
  show ?thesis
  proof (cases "members = []")
    case True
    then have "\<not> has_key cols k r" if "r \<in> set M" for r using that by (auto simp: mem filter_empty_conv)
    then have "filter (\<lambda>c. has_key cols k (?F c)) ?cs = []" using key by (auto simp: filter_empty_conv)
    with True show ?thesis by (simp add: filter_map o_def)
  next
    case False
    then obtain r0 where r0: "r0 \<in> set M" "has_key cols k r0" by (auto simp: mem filter_empty_conv)
    obtain cells where cells: "\<And>r. r \<in> set ?rows \<Longrightarrow> has_key cols k r = (partition_cells sv cols r = cells)"
      by (rule key_partition [OF k _ r0(2)], use r0(1) MT in blast, rule that)
    have "has_key cols k (?F c) = (c = cells)" if "c \<in> set ?cs" for c
      using key [OF that] that cells MT by auto
    then have "filter (\<lambda>c. has_key cols k (?F c)) ?cs = [cells]"
      using r0 cells MT by (subst filter_distinct_point [where a = cells]) auto
    moreover have "filter (\<lambda>r. partition_cells sv cols r = cells) M = members"
      unfolding mem using cells MT by (intro filter_cong) auto
    ultimately show ?thesis using False by (simp add: filter_map o_def)
  qed
qed

lemma slot_get_put:
  assumes "py_wf k" and "py_wf k'" and "\<forall>(j, x) \<in> set d. py_wf j"
  shows "slot_get (dict_put d k x) k' = (if py_eq k k' then Some x else slot_get d k')"
  using assms
proof (induction d k x rule: dict_put.induct)
  case (2 j y d k x)
  have "py_eq j k' = py_eq k k'" if "py_eq j k" using 2 that by (intro py_eq_cong_left) auto
  moreover have "\<not> py_eq k k'" if "py_eq j k'" "\<not> py_eq j k"
  proof
    assume "py_eq k k'"
    with 2 that show False using py_eq_sym [of k k'] py_eq_trans by blast
  qed
  ultimately show ?case using 2 by auto
qed simp

lemma dict_put_wf: "py_wf k \<Longrightarrow> \<forall>(j, x) \<in> set d. py_wf j \<Longrightarrow> \<forall>(j, x) \<in> set (dict_put d k y). py_wf j"
  by (induction d k y rule: dict_put.induct) auto

lemma totals_of_spec:
  assumes "\<forall>r \<in> set rows. (\<exists>g. grouping_key r (cn_match cn) = Inr g \<and> hashable g \<and> py_wf g) \<and> (\<exists>n. map_of r ''__total'' = Some n)"
    and "\<forall>(j, x) \<in> set totals. py_wf j"
  shows "\<exists>totals'. totals_of cn rows totals = Inr totals' \<and> (\<forall>k. py_wf k \<longrightarrow> slot_get totals' k
      = fold (\<lambda>r acc. map_of r ''__total'') (filter (has_key (cn_match cn) k) rows) (slot_get totals k))"
  using assms
proof (induction cn rows totals rule: totals_of.induct)
  case (2 cn r rows totals)
  then obtain g n where g: "grouping_key r (cn_match cn) = Inr g" "hashable g" "py_wf g" and n: "map_of r ''__total'' = Some n"
    by auto
  have wf: "\<forall>(j, x) \<in> set (dict_put totals g n). py_wf j" using g(3) 2(3) by (rule dict_put_wf)
  have key: "count_row_key cn r = Inr g" by (simp add: count_row_key_def g(1))
  have get: "row_get r ''__total'' = Inr n" by (simp add: row_get_def n)
  have rest: "\<forall>r \<in> set rows. (\<exists>g. grouping_key r (cn_match cn) = Inr g \<and> hashable g \<and> py_wf g) \<and> (\<exists>n. map_of r ''__total'' = Some n)"
    using 2(2) by simp
  have "\<not> \<not> hashable g" using g(2) by simp
  from 2(1) [OF key get this rest wf] obtain totals' where t: "totals_of cn rows (dict_put totals g n) = Inr totals'"
    "\<And>k. py_wf k \<Longrightarrow> slot_get totals' k
      = fold (\<lambda>r acc. map_of r ''__total'') (filter (has_key (cn_match cn) k) rows) (slot_get (dict_put totals g n) k)"
    by blast
  have "slot_get totals' k
      = fold (\<lambda>r acc. map_of r ''__total'') (filter (has_key (cn_match cn) k) (r # rows)) (slot_get totals k)"
    if "py_wf k" for k
    using t(2) [OF that] slot_get_put [OF g(3) that 2(3)] g(1) n by (simp add: has_key_def)
  with t(1) key get g(2) show ?case by auto
qed simp

section \<open>The entries of a connection\<close>

definition host_ok :: "row \<Rightarrow> predicate list \<Rightarrow> bool" where
  "host_ok host wps \<longleftrightarrow> distinct (map fst host)
     \<and> fst ` set host \<inter> ({''keys'', ''page_limit''} \<union> cursor_binds) = {}
     \<and> (\<forall>p \<in> set wps. bind_names p \<inter> {''keys'', ''page_limit''} = {})"

definition conn_params :: "'f pg_connection \<Rightarrow> row \<Rightarrow> pyval list \<Rightarrow> row" where
  "conn_params cn host uk = (if cn_composite cn then host else dict_set host ''keys'' (VList uk))"

definition paged_params :: "'f pg_connection \<Rightarrow> row \<Rightarrow> pyval list \<Rightarrow> int option \<Rightarrow> row" where
  "paged_params cn host uk limit =
     (case limit of None \<Rightarrow> conn_params cn host uk | Some n \<Rightarrow> dict_set (conn_params cn host uk) ''page_limit'' (VInt n))"

lemma params_lookup:
  "length (cn_match cn) = 1 \<Longrightarrow> map_of (conn_params cn host uk) ''keys'' = Some (VList uk)"
  "length (cn_match cn) = 1 \<Longrightarrow> map_of (paged_params cn host uk limit) ''keys'' = Some (VList uk)"
  "map_of (paged_params cn host uk (Some n)) ''page_limit'' = Some (VInt n)"
  "x \<notin> {''keys'', ''page_limit''} \<Longrightarrow> map_of (conn_params cn host uk) x = map_of host x"
  "x \<notin> {''keys'', ''page_limit''} \<Longrightarrow> map_of (paged_params cn host uk limit) x = map_of host x"
  "fst ` set (paged_params cn host uk limit) \<subseteq> fst ` set host \<union> {''keys'', ''page_limit''}"
  using keys_dict_set [of host "''keys''" "VList uk"]
    keys_dict_set [of "dict_set host ''keys'' (VList uk)" "''page_limit''"] keys_dict_set [of host "''page_limit''"]
  by (auto simp: conn_params_def paged_params_def cn_composite_def split: option.split)

lemma host_where:
  assumes "host_ok host wps"
  shows "where_true sv (conn_params cn host uk) wps r = where_true sv host wps r"
    and "where_true sv (paged_params cn host uk limit) wps r = where_true sv host wps r"
  using assms by (intro where_true_cong params_lookup; auto simp: host_ok_def)+

lemma has_key_not_None: "has_key cols u r \<Longrightarrow> u \<noteq> VNone \<Longrightarrow> \<not> has_key cols VNone r"
proof
  assume u: "has_key cols u r" "u \<noteq> VNone" and "has_key cols VNone r"
  then have "grouping_key r cols = Inr VNone" by (simp add: has_key_VNone)
  with u show False by (simp add: has_key_def)
qed

lemma disjoint_cover: "A \<inter> B = {} \<Longrightarrow> H \<inter> A = {} \<Longrightarrow> P \<subseteq> H \<union> B \<Longrightarrow> A \<inter> P = {}"
  by blast

lemma disjoint_Un_right: "H \<inter> (B \<union> A) = {} \<Longrightarrow> H \<inter> A = {}"
  by blast

text \<open>The page statement.\<close>

lemma page_run:
  assumes pt: "paged_table sv to_text cn" and host: "host_ok host (cn_where cn)"
    and ok: "\<forall>u \<in> set uk. u \<noteq> VNone \<and> key_ok sv (cn_resource cn) (cn_match cn) u"
    and cells: "cursor_cells sv cn (if cn_reverse cn then bv else av) s"
    and limit: "page_limit cn ctx source_values = Inr limit" "case limit of None \<Rightarrow> True | Some n \<Rightarrow> 0 \<le> n"
  obtains q out where "build_page_query cn uk ctx source_values av bv = Inr q"
    and "answer sv q (paged_params cn host uk limit) = Inr out"
    and "set out \<subseteq> {r \<in> set (sv_tables sv (rs_schema (cn_resource cn), rs_table (cn_resource cn))).
          \<exists>u \<in> set uk. has_key (cn_match cn) u r}"
    and "\<And>k u. key_ok sv (cn_resource cn) (cn_match cn) k \<Longrightarrow> k \<noteq> VNone \<Longrightarrow> u \<in> set uk \<Longrightarrow> py_eq u k
      \<Longrightarrow> filter (has_key (cn_match cn) k) out
        = (let Y = seek_rows (cn_reverse cn) (cn_order cn) (sv_view sv) s
                     (key_rows sv (cn_resource cn) (cn_match cn) (cn_order cn) host (cn_where cn) k);
               Z = (if cn_reverse cn then rev Y else Y)
           in case limit of None \<Rightarrow> Z | Some n \<Rightarrow> take (nat n) Z)"
proof -
  let ?rs = "cn_resource cn" and ?cols = "cn_match cn" and ?params = "paged_params cn host uk limit"
  let ?rows = "sv_tables sv (rs_schema ?rs, rs_table ?rs)"
  note D = paged_tableD [OF pt]
  define seeks where "seeks r = (case s of None \<Rightarrow> True | Some c \<Rightarrow>
        if cn_reverse cn then terms_before (cn_order cn) (sv_view sv r) c else terms_before (cn_order cn) c (sv_view sv r))" for r
  obtain p where p: "cursor_predicate cn av bv = Inr p" "case p of None \<Rightarrow> s = None
      | Some q \<Rightarrow> s \<noteq> None \<and> bind_names q \<subseteq> cursor_binds
          \<and> (\<forall>r. sql_true (sv_db sv) r q = (if cn_reverse cn then terms_before (cn_order cn) r (the s)
                                           else terms_before (cn_order cn) (the s) r))"
    using cursor_predicate_seeks [OF cells D(3,4)] by blast
  define ps where "ps = cn_where cn @ (case p of None \<Rightarrow> [] | Some q \<Rightarrow> [q])"
  have W: "where_true sv ?params ps r = (where_true sv host (cn_where cn) r \<and> seeks r)" for r
  proof -
    have "where_true sv ?params ps r
        = (where_true sv ?params (cn_where cn) r \<and> where_true sv ?params (case p of None \<Rightarrow> [] | Some q \<Rightarrow> [q]) r)"
      by (auto simp: where_true_def ps_def)
    moreover have "where_true sv ?params (case p of None \<Rightarrow> [] | Some q \<Rightarrow> [q]) r = seeks r"
    proof (cases p)
      case None
      with p(2) show ?thesis by (simp add: where_true_def seeks_def)
    next
      case (Some q)
      have "cursor_binds \<inter> {''keys'', ''page_limit''} = {}" by (auto simp: cursor_binds_def)
      moreover have "fst ` set host \<inter> cursor_binds = {}"
        using host unfolding host_ok_def by (elim conjE) (rule disjoint_Un_right)
      ultimately have "cursor_binds \<inter> fst ` set ?params = {}"
        by (rule disjoint_cover [OF _ _ params_lookup(6)])
      moreover have "bind_names q \<subseteq> cursor_binds" using p(2) Some by simp
      ultimately have "bind_names q \<inter> fst ` set ?params = {}" by blast
      then have "bind_params ?params q = q" by (rule bind_params_fresh)
      with Some p(2) show ?thesis by (auto simp: where_true_def seeks_def split: option.splits)
    qed
    ultimately show ?thesis by (simp add: host_where [OF host])
  qed
  define M where "M = filter (\<lambda>r. (\<exists>u \<in> set uk. has_key ?cols u r) \<and> where_true sv host (cn_where cn) r \<and> seeks r) ?rows"
  have m: "matched_rows sv ?params (rs_schema ?rs, rs_table ?rs) (Some (match_predicate ?cols uk)) ps = Inr M"
    using D(1) by (subst matched_rows_keys [OF ok _ params_lookup(2)]) (simp_all add: table_ok_def W M_def)
  define n where "n = (case limit of None \<Rightarrow> 0 | Some n \<Rightarrow> n)"
  define sorted_page where "sorted_page = sort_key (\<lambda>r. map (\<lambda>c. the (sv_view sv r c)) ?cols)
        (sort_key (number_in sv ?cols (order_clauses (effective_order cn)) M)
          (filter (\<lambda>r. limit \<noteq> None \<longrightarrow> int (number_in sv ?cols (order_clauses (effective_order cn)) M r) \<le> n) M))"
  have sub: "set sorted_page \<subseteq> set M" by (auto simp: sorted_page_def)
  have "map (project (stored_columns ?rs @ computed_columns ?rs)) sorted_page = sorted_page"
    using sub table_ok_row(1) [OF D(1)] by (intro map_idI) (auto simp: M_def)
  moreover define q where "q = Page \<lparr>ps_table = (rs_schema ?rs, rs_table ?rs), ps_columns = stored_columns ?rs,
                 ps_computed = computed_projections ?rs, ps_match = match_predicate ?cols uk,
                 ps_where = ps, ps_partition = ?cols,
                 ps_order = order_clauses (effective_order cn), ps_bounded = (limit \<noteq> None)\<rparr>"
  moreover have "(if limit \<noteq> None then int_param ?params ''page_limit'' else Inr (Some 0)) = Inr (Some n)"
    using params_lookup(3) [of cn host uk] by (auto simp: int_param_def n_def)
  ultimately have a: "answer sv q ?params = Inr sorted_page"
    using m by (simp add: answer_def answer_page_def map_snd_computed sorted_page_def Let_def)
  have b: "build_page_query cn uk ctx source_values av bv = Inr q"
    by (simp add: build_page_query_def inner_predicates_def p(1) limit(1) q_def ps_def Let_def)
  have n0: "0 \<le> n" using limit(2) by (simp add: n_def split: option.splits)
  show thesis
  proof (rule that [OF b a])
    show "set sorted_page \<subseteq> {r \<in> set ?rows. \<exists>u \<in> set uk. has_key ?cols u r}" using sub by (auto simp: M_def)
    fix k u assume k: "key_ok sv ?rs ?cols k" "k \<noteq> VNone" and u: "u \<in> set uk" "py_eq u k"
    have "py_wf u" using ok u(1) by (simp add: key_ok_def)
    from page_of_key [OF pt k M_def u this seeks_def n0, of "limit \<noteq> None"]
    show "filter (has_key ?cols k) sorted_page
        = (let Y = seek_rows (cn_reverse cn) (cn_order cn) (sv_view sv) s
                     (key_rows sv ?rs ?cols (cn_order cn) host (cn_where cn) k);
               Z = (if cn_reverse cn then rev Y else Y)
           in case limit of None \<Rightarrow> Z | Some n \<Rightarrow> take (nat n) Z)"
      unfolding sorted_page_def by (cases limit) (simp_all add: n_def Let_def)
  qed
qed

text \<open>The grouped statements, on the rows of one key.\<close>

lemma group_run:
  assumes tab: "table_ok sv (cn_resource cn) (cn_match cn)" and host: "host_ok host (cn_where cn)"
    and ok: "\<forall>u \<in> set uk. u \<noteq> VNone \<and> key_ok sv (cn_resource cn) (cn_match cn) u"
  obtains out where "answer sv (Group \<lparr>gs_table = (rs_schema (cn_resource cn), rs_table (cn_resource cn)),
        gs_match = match_predicate (cn_match cn) uk, gs_where = cn_where cn, gs_keys = cn_match cn,
        gs_projections = ps\<rparr>) (conn_params cn host uk) = Inr out"
    and "\<forall>r \<in> set out. (\<exists>g. grouping_key r (cn_match cn) = Inr g \<and> hashable g \<and> py_wf g)
        \<and> (\<exists>m. r = group_row sv (cn_match cn) ps m)"
    and "filter (has_key (cn_match cn) VNone) out = []"
    and "\<And>k u. key_ok sv (cn_resource cn) (cn_match cn) k \<Longrightarrow> k \<noteq> VNone \<Longrightarrow> u \<in> set uk \<Longrightarrow> py_eq u k
      \<Longrightarrow> filter (has_key (cn_match cn) k) out
        = (let m = key_members sv (cn_resource cn) (cn_match cn) host (cn_where cn) k
           in if m = [] then [] else [group_row sv (cn_match cn) ps m])"
proof -
  let ?rs = "cn_resource cn" and ?cols = "cn_match cn" and ?params = "conn_params cn host uk"
  let ?rows = "sv_tables sv (rs_schema ?rs, rs_table ?rs)"
  define M where "M = filter (\<lambda>r. (\<exists>u \<in> set uk. has_key ?cols u r) \<and> where_true sv host (cn_where cn) r) ?rows"
  have m: "matched_rows sv ?params (rs_schema ?rs, rs_table ?rs) (Some (match_predicate ?cols uk)) (cn_where cn) = Inr M"
    using tab by (subst matched_rows_keys [OF ok _ params_lookup(1)]) (simp_all add: table_ok_def host_where [OF host] M_def)
  define out where "out = map (\<lambda>cells. group_row sv ?cols ps (filter (\<lambda>r. partition_cells sv ?cols r = cells) M))
           (remdups (map (partition_cells sv ?cols) M))"
  have key: "\<exists>r \<in> set M. grouping_key g ?cols = grouping_key r ?cols" if g: "g \<in> set out" for g
  proof -
    from g obtain c where c: "c \<in> partition_cells sv ?cols ` set M"
      "g = group_row sv ?cols ps (filter (\<lambda>r. partition_cells sv ?cols r = c) M)" by (auto simp: out_def)
    let ?ms = "filter (\<lambda>r. partition_cells sv ?cols r = c) M"
    from c(1) have "?ms \<noteq> []" by (auto simp: filter_empty_conv)
    then have h: "hd ?ms \<in> set M" using hd_in_set [of ?ms] by auto
    then have "hd ?ms \<in> set ?rows" by (simp add: M_def)
    from project_key [OF table_ok_row(3) [OF tab this]] h c(2) show ?thesis by (auto simp: group_row_def)
  qed
  show thesis
  proof (rule that [of out])
    show "answer sv (Group \<lparr>gs_table = (rs_schema ?rs, rs_table ?rs), gs_match = match_predicate ?cols uk,
        gs_where = cn_where cn, gs_keys = ?cols, gs_projections = ps\<rparr>) ?params = Inr out"
      by (simp add: answer_def answer_group_def m out_def group_row_def Let_def)
    show "\<forall>r \<in> set out. (\<exists>g. grouping_key r ?cols = Inr g \<and> hashable g \<and> py_wf g)
        \<and> (\<exists>m. r = group_row sv ?cols ps m)"
    proof
      fix g assume g: "g \<in> set out"
      obtain r where "r \<in> set M" "grouping_key g ?cols = grouping_key r ?cols" using key [OF g] by blast
      moreover from this have "r \<in> set ?rows" by (simp add: M_def)
      ultimately show "(\<exists>k. grouping_key g ?cols = Inr k \<and> hashable k \<and> py_wf k) \<and> (\<exists>m. g = group_row sv ?cols ps m)"
        using table_ok_row(2) [OF tab] g by (auto simp: out_def)
    qed
    have "\<not> has_key ?cols VNone g" if g: "g \<in> set out" for g
    proof -
      obtain r where r: "r \<in> set M" "grouping_key g ?cols = grouping_key r ?cols" using key [OF g] by blast
      then obtain u where "u \<in> set uk" "has_key ?cols u r" by (auto simp: M_def)
      with ok have "\<not> has_key ?cols VNone r" by (intro has_key_not_None) auto
      with r(2) show ?thesis by (simp add: has_key_def)
    qed
    then show "filter (has_key ?cols VNone) out = []" by (simp add: filter_empty_conv)
    fix k u assume k: "key_ok sv ?rs ?cols k" "k \<noteq> VNone" and u: "u \<in> set uk" "py_eq u k"
    have "py_wf u" using ok u(1) by (simp add: key_ok_def)
    from group_of_key [OF tab M_def k u this, of ps] k(2)
    show "filter (has_key ?cols k) out = (let m = key_members sv ?rs ?cols host (cn_where cn) k
           in if m = [] then [] else [group_row sv ?cols ps m])"
      by (simp add: out_def key_members_def Let_def)
  qed
qed

text \<open>What an entry gets: the page of its key as a connection.\<close>

definition key_connection ::
  "('v::linorder) server \<Rightarrow> (row \<Rightarrow> row \<times> string) \<Rightarrow> 'f pg_connection \<Rightarrow> row \<Rightarrow> nat option \<Rightarrow> 'v cells option
   \<Rightarrow> (pyval \<Rightarrow> row) \<Rightarrow> pyval \<Rightarrow> pyval" where
  "key_connection sv edge cn host len s extra k =
     (let X = key_rows sv (cn_resource cn) (cn_match cn) (cn_order cn) host (cn_where cn) k;
          Y = seek_rows (cn_reverse cn) (cn_order cn) (sv_view sv) s X;
          more = more_rows len Y; given = (s \<noteq> None)
      in VDict (connection_fields (map edge (relay_page (cn_reverse cn) len Y))
                  (VInt (if cn_needs_total cn then int (length X) else 0))
                  (if cn_reverse cn then given else more) (if cn_reverse cn then more else given) @ extra k))"

definition key_aggregates :: "('v::linorder) server \<Rightarrow> 'f pg_connection \<Rightarrow> row \<Rightarrow> pyval \<Rightarrow> row list" where
  "key_aggregates sv cn host k =
     (let m = key_members sv (cn_resource cn) (cn_match cn) host (cn_where cn) k
      in if m = [] then [] else [group_row sv (cn_match cn) (map projection (cn_aggregates cn)) m])"

lemma map_res_map: "(\<And>x. x \<in> set xs \<Longrightarrow> f x = Inr (g x)) \<Longrightarrow> map_res f xs = Inr (map g xs)"
  by (rule map_res_Inr)

text \<open>The rows of a page with the row that tells of more, cut and turned round.\<close>

lemma cut_page:
  fixes Y :: "'a list"
  assumes rows: "rows = (let Z = (if reverse then rev Y else Y) in case len of None \<Rightarrow> Z | Some n \<Rightarrow> take (Suc n) Z)"
  defines "extra \<equiv> (case map_option int len of None \<Rightarrow> False | Some n \<Rightarrow> int (length rows) > n)"
  defines "kept \<equiv> (case map_option int len of Some n \<Rightarrow> (if extra then py_take n rows else rows) | None \<Rightarrow> rows)"
  shows "extra = more_rows len Y" and "(if reverse then rev kept else kept) = relay_page reverse len Y"
proof -
  show extra: "extra = more_rows len Y"
    by (cases len; cases reverse) (simp_all add: extra_def rows more_rows_def Let_def min_def)
  have "kept = (let Z = (if reverse then rev Y else Y) in case len of None \<Rightarrow> Z | Some n \<Rightarrow> take n Z)"
    unfolding kept_def extra by (cases len; cases reverse) (auto simp: rows more_rows_def Let_def py_take_def min_def)
  then show "(if reverse then rev kept else kept) = relay_page reverse len Y"
    by (cases len; cases reverse) (simp_all add: relay_page_def Let_def rev_take)
qed

lemma relay_page_subset: "set (relay_page reverse len Y) \<subseteq> set Y"
  by (cases len) (auto simp: relay_page_def dest: in_set_takeD in_set_dropD)

lemma build_connection_page:
  assumes size: "int_page_size cn ctx source_values = Inr (map_option int len)"
    and rows: "rows = (let Z = (if cn_reverse cn then rev Y else Y) in case len of None \<Rightarrow> Z | Some n \<Rightarrow> take (Suc n) Z)"
    and edges: "\<And>r. r \<in> set Y \<Longrightarrow> connection_edge sha256 to_text cn r = Inr (edge r)"
    and extras: "connection_extras cn aggs = Inr ex"
  shows "build_connection sha256 to_text cn rows tot aggs ctx source_values av bv
    = Inr (VDict (connection_fields (map edge (relay_page (cn_reverse cn) len Y)) tot
        (if cn_reverse cn then bv \<noteq> None else more_rows len Y) (if cn_reverse cn then more_rows len Y else av \<noteq> None) @ ex))"
proof -
  have "map_res (connection_edge sha256 to_text cn) (relay_page (cn_reverse cn) len Y)
      = Inr (map edge (relay_page (cn_reverse cn) len Y))"
    using edges relay_page_subset [of "cn_reverse cn" len Y] by (intro map_res_map) auto
  then show ?thesis
    unfolding build_connection_def size bind_res_simps Let_def cut_page(2) [OF rows]
    unfolding cut_page(1) [OF rows] extras by (simp only: bind_res_simps)
qed

lemma key_aggregates_None: "key_aggregates sv cn host VNone = []"
  by (simp add: key_aggregates_def key_members_def Let_def)

lemma cursor_given: "cursor_cells sv cn vals s \<Longrightarrow> (s \<noteq> None) = (vals \<noteq> None)"
  by (auto simp: cursor_cells_def split: option.splits)

text \<open>The count of a key, and its aggregate row.\<close>

lemma project_none: "c \<notin> set cols \<Longrightarrow> map_of (project cols r) c = None"
  by (simp add: map_of_eq_None_iff image_image project_def)

lemma totals_run:
  assumes tab: "table_ok sv (cn_resource cn) (cn_match cn)" and label: "''__total'' \<notin> set (cn_match cn)" and host: "host_ok host (cn_where cn)"
    and ok: "\<forall>u \<in> set uk. u \<noteq> VNone \<and> key_ok sv (cn_resource cn) (cn_match cn) u"
    and uk: "\<forall>k \<in> set keys. k \<noteq> VNone \<longrightarrow> (\<exists>u \<in> set uk. py_eq u k)"
    and keys: "\<forall>k \<in> set keys. key_ok sv (cn_resource cn) (cn_match cn) k"
  obtains totals where "bind_res (answer sv (build_count_query cn uk) (conn_params cn host uk)) (\<lambda>rows. totals_of cn rows []) = Inr totals"
    and "\<And>k. k \<in> set keys \<Longrightarrow> (case slot_get totals k of None \<Rightarrow> VInt 0 | Some n \<Rightarrow> n)
      = VInt (int (length (key_rows sv (cn_resource cn) (cn_match cn) (cn_order cn) host (cn_where cn) k)))"
proof -
  let ?ps = "[(''count'', None, ''__total'')] :: agg_projection list"
  obtain out where out: "answer sv (build_count_query cn uk) (conn_params cn host uk) = Inr out"
    "\<forall>r \<in> set out. (\<exists>g. grouping_key r (cn_match cn) = Inr g \<and> hashable g \<and> py_wf g)
        \<and> (\<exists>m. r = group_row sv (cn_match cn) ?ps m)"
    "filter (has_key (cn_match cn) VNone) out = []"
    "\<And>k u. key_ok sv (cn_resource cn) (cn_match cn) k \<Longrightarrow> k \<noteq> VNone \<Longrightarrow> u \<in> set uk \<Longrightarrow> py_eq u k
      \<Longrightarrow> filter (has_key (cn_match cn) k) out
        = (let m = key_members sv (cn_resource cn) (cn_match cn) host (cn_where cn) k
           in if m = [] then [] else [group_row sv (cn_match cn) ?ps m])"
    by (rule group_run [OF tab host ok, of "?ps", folded build_count_query_def], rule that)
  have tot: "\<exists>n. map_of (group_row sv (cn_match cn) ?ps m) ''__total'' = Some n" for m
    by (auto simp: group_row_def projected_def map_add_def split: option.split)
  obtain totals where t: "totals_of cn out [] = Inr totals"
    "\<And>k. py_wf k \<Longrightarrow> slot_get totals k = fold (\<lambda>r acc. map_of r ''__total'') (filter (has_key (cn_match cn) k) out) None"
    using totals_of_spec [of out cn "[]"] out(2) tot by fastforce
  show thesis
  proof (rule that [of totals])
    show "bind_res (answer sv (build_count_query cn uk) (conn_params cn host uk)) (\<lambda>rows. totals_of cn rows []) = Inr totals"
      by (simp add: out(1) t(1))
    fix k assume k: "k \<in> set keys"
    let ?m = "key_members sv (cn_resource cn) (cn_match cn) host (cn_where cn) k"
    have wf: "py_wf k" using keys k by (simp add: key_ok_def)
    have "filter (has_key (cn_match cn) k) out = (if ?m = [] then [] else [group_row sv (cn_match cn) ?ps ?m])"
    proof (cases "k = VNone")
      case True
      with out(3) show ?thesis by (simp add: key_members_def)
    next
      case False
      then obtain u where "u \<in> set uk" "py_eq u k" using uk k by blast
      with out(4) [OF _ False this] keys k show ?thesis by (simp add: Let_def)
    qed
    moreover have "?m \<noteq> [] \<Longrightarrow> map_of (group_row sv (cn_match cn) ?ps ?m) ''__total'' = Some (VInt (int (length ?m)))"
      using label by (simp add: group_row_def projected_def map_add_Some_iff project_none)
    ultimately show "(case slot_get totals k of None \<Rightarrow> VInt 0 | Some n \<Rightarrow> n)
      = VInt (int (length (key_rows sv (cn_resource cn) (cn_match cn) (cn_order cn) host (cn_where cn) k)))"
      using t(2) [OF wf] by (auto simp: length_key_rows)
  qed
qed

lemma paged_table_label: "paged_table sv to_text cn \<Longrightarrow> ''__total'' \<notin> set (cn_match cn)"
  by (simp add: paged_table_def Let_def)

text \<open>The statements of a bucket together: each key's page rows, total and aggregate row.\<close>

lemma run_queries_keys:
  assumes pt: "paged_table sv to_text cn" and group: "cn_group_by cn = []"
    and keys: "\<forall>k \<in> set keys. key_ok sv (cn_resource cn) (cn_match cn) k"
    and host: "where_params ct ctx source_values (cn_custom cn) = Inr host" "host_ok host (cn_where cn)"
    and cursor: "resolve_cursor_values sha256 cn ctx source_values = Inr (av, bv)"
      "cursor_cells sv cn (if cn_reverse cn then bv else av) s"
    and size: "int_page_size cn ctx source_values = Inr (map_option int len)"
    and uk: "set uk \<subseteq> {k \<in> set keys. k \<noteq> VNone}" "\<forall>k \<in> set keys. k \<noteq> VNone \<longrightarrow> (\<exists>u \<in> set uk. py_eq u k)"
  obtains rows totals aggs by_key where
    "run_queries (answer sv) ct sha256 cn uk ctx source_values = Inr (rows, totals, aggs)"
    and "group_rows (cn_match cn) rows = Inr by_key"
    and "\<And>k. k \<in> set keys \<Longrightarrow> rows_of_key by_key k
      = (let Y = seek_rows (cn_reverse cn) (cn_order cn) (sv_view sv) s
                   (key_rows sv (cn_resource cn) (cn_match cn) (cn_order cn) host (cn_where cn) k);
             Z = (if cn_reverse cn then rev Y else Y)
         in case len of None \<Rightarrow> Z | Some n \<Rightarrow> take (Suc n) Z)"
    and "\<And>k. k \<in> set keys \<Longrightarrow> (case slot_get totals k of None \<Rightarrow> VInt 0 | Some n \<Rightarrow> n)
      = VInt (if cn_needs_total cn
              then int (length (key_rows sv (cn_resource cn) (cn_match cn) (cn_order cn) host (cn_where cn) k)) else 0)"
    and "\<And>k. k \<in> set keys \<Longrightarrow> rows_of_key aggs k = (if has_aggregates cn then key_aggregates sv cn host k else [])"
proof -
  let ?rs = "cn_resource cn" and ?cols = "cn_match cn"
  let ?rows = "sv_tables sv (rs_schema ?rs, rs_table ?rs)"
  let ?page = "\<lambda>k. let Y = seek_rows (cn_reverse cn) (cn_order cn) (sv_view sv) s
                   (key_rows sv ?rs ?cols (cn_order cn) host (cn_where cn) k);
             Z = (if cn_reverse cn then rev Y else Y)
         in case len of None \<Rightarrow> Z | Some n \<Rightarrow> take (Suc n) Z"
  note D = paged_tableD [OF pt]
  have ok: "\<forall>u \<in> set uk. u \<noteq> VNone \<and> key_ok sv ?rs ?cols u" using uk(1) keys by auto
  have wf: "py_wf k" if "k \<in> set keys" for k using keys that by (simp add: key_ok_def)
  define limit where "limit = map_option (\<lambda>n. int n + 1) len"
  have lim: "page_limit cn ctx source_values = Inr limit" "case limit of None \<Rightarrow> True | Some n \<Rightarrow> 0 \<le> n"
    by (cases len; simp add: page_limit_def size limit_def)+
  obtain q out where q: "build_page_query cn uk ctx source_values av bv = Inr q"
    and out: "answer sv q (paged_params cn host uk limit) = Inr out"
    and sub: "set out \<subseteq> {r \<in> set ?rows. \<exists>u \<in> set uk. has_key ?cols u r}"
    and page: "\<And>k u. key_ok sv ?rs ?cols k \<Longrightarrow> k \<noteq> VNone \<Longrightarrow> u \<in> set uk \<Longrightarrow> py_eq u k
      \<Longrightarrow> filter (has_key ?cols k) out
        = (let Y = seek_rows (cn_reverse cn) (cn_order cn) (sv_view sv) s
                     (key_rows sv ?rs ?cols (cn_order cn) host (cn_where cn) k);
               Z = (if cn_reverse cn then rev Y else Y)
           in case limit of None \<Rightarrow> Z | Some n \<Rightarrow> take (nat n) Z)"
    by (rule page_run [OF pt host(2) ok cursor(2) lim], rule that)
  have cut: "filter (has_key ?cols k) out = ?page k" if k: "k \<in> set keys" for k
  proof (cases "k = VNone")
    case True
    have "\<not> has_key ?cols VNone r" if r: "r \<in> set out" for r
    proof -
      obtain u where "u \<in> set uk" "has_key ?cols u r" using sub r by blast
      with ok show ?thesis by (intro has_key_not_None) auto
    qed
    then have "filter (has_key ?cols VNone) out = []" by (simp add: filter_empty_conv)
    with True show ?thesis by (cases len; cases s) (simp_all add: key_rows_def seek_rows_def Let_def)
  next
    case False
    then obtain u where u: "u \<in> set uk" "py_eq u k" using uk(2) k by blast
    have "key_ok sv ?rs ?cols k" using keys k by blast
    from page [OF this False u] show ?thesis
      by (cases len) (simp_all add: limit_def Let_def nat_add_distrib)
  qed
  have rk: "\<forall>r \<in> set out. \<exists>g. grouping_key r ?cols = Inr g \<and> hashable g \<and> py_wf g"
    using sub table_ok_row(2) [OF D(1)] by blast
  obtain by_key where bk: "group_rows ?cols out = Inr by_key" "\<forall>(j, xs) \<in> set by_key. xs \<noteq> []"
    "\<And>k. py_wf k \<Longrightarrow> rows_of_key by_key k = filter (\<lambda>r. \<exists>g. grouping_key r ?cols = Inr g \<and> py_eq g k) out"
    by (rule group_rows_spec [OF rk], rule that)
  have of: "rows_of_key by_key k = ?page k" if k: "k \<in> set keys" for k
    using bk(3) [OF wf [OF k]] cut [OF k] by (simp add: has_key_def [abs_def])
  obtain counts where counts: "bind_res (answer sv (build_count_query cn uk) (conn_params cn host uk)) (\<lambda>rows. totals_of cn rows []) = Inr counts"
    "\<And>k. k \<in> set keys \<Longrightarrow> (case slot_get counts k of None \<Rightarrow> VInt 0 | Some n \<Rightarrow> n)
      = VInt (int (length (key_rows sv ?rs ?cols (cn_order cn) host (cn_where cn) k)))"
    by (rule totals_run [OF D(1) paged_table_label [OF pt] host(2) ok uk(2) keys], rule that)
  obtain arows where arows: "answer sv (Group \<lparr>gs_table = (rs_schema ?rs, rs_table ?rs),
        gs_match = match_predicate ?cols uk, gs_where = cn_where cn, gs_keys = ?cols,
        gs_projections = map projection (cn_aggregates cn)\<rparr>) (conn_params cn host uk) = Inr arows"
    "\<forall>r \<in> set arows. (\<exists>g. grouping_key r ?cols = Inr g \<and> hashable g \<and> py_wf g)
        \<and> (\<exists>m. r = group_row sv ?cols (map projection (cn_aggregates cn)) m)"
    "filter (has_key ?cols VNone) arows = []"
    "\<And>k u. key_ok sv ?rs ?cols k \<Longrightarrow> k \<noteq> VNone \<Longrightarrow> u \<in> set uk \<Longrightarrow> py_eq u k
      \<Longrightarrow> filter (has_key ?cols k) arows
        = (let m = key_members sv ?rs ?cols host (cn_where cn) k
           in if m = [] then [] else [group_row sv ?cols (map projection (cn_aggregates cn)) m])"
    by (rule group_run [OF D(1) host(2) ok], rule that)
  have aq: "answer sv (build_aggregate_query cn uk) (conn_params cn host uk) = Inr arows"
    using arows(1) by (simp add: build_aggregate_query_def group)
  have ak: "\<forall>r \<in> set arows. \<exists>g. grouping_key r ?cols = Inr g \<and> hashable g \<and> py_wf g" using arows(2) by blast
  obtain grouped where gr: "group_rows ?cols arows = Inr grouped" "\<forall>(j, xs) \<in> set grouped. xs \<noteq> []"
    "\<And>k. py_wf k \<Longrightarrow> rows_of_key grouped k = filter (\<lambda>r. \<exists>g. grouping_key r ?cols = Inr g \<and> py_eq g k) arows"
    by (rule group_rows_spec [OF ak], rule that)
  have agg: "rows_of_key grouped k = key_aggregates sv cn host k" if k: "k \<in> set keys" for k
  proof (cases "k = VNone")
    case True
    with arows(3) gr(3) [OF wf [OF k]] show ?thesis by (simp add: has_key_def [abs_def] key_aggregates_None)
  next
    case False
    then obtain u where u: "u \<in> set uk" "py_eq u k" using uk(2) k by blast
    have "key_ok sv ?rs ?cols k" using keys k by blast
    from arows(4) [OF this False u] gr(3) [OF wf [OF k]] show ?thesis
      by (simp add: has_key_def [abs_def] key_aggregates_def)
  qed
  have params: "paged_params cn host uk limit = (case limit of None \<Rightarrow> conn_params cn host uk
      | Some n \<Rightarrow> dict_set (conn_params cn host uk) ''page_limit'' (VInt n))" by (simp add: paged_params_def)
  show thesis
  proof (rule that [of out "if cn_needs_total cn then counts else []" "if has_aggregates cn then grouped else []" by_key])
    show "run_queries (answer sv) ct sha256 cn uk ctx source_values
        = Inr (out, if cn_needs_total cn then counts else [], if has_aggregates cn then grouped else [])"
      unfolding run_queries_def cursor(1) host(1) lim(1) bind_res_simps prod.case Let_def q
        conn_params_def [symmetric] params [symmetric] out
      using counts(1) aq gr(1) by simp
    show "group_rows ?cols out = Inr by_key" by (rule bk(1))
    show "rows_of_key by_key k = ?page k" if "k \<in> set keys" for k using that by (rule of)
    show "(case slot_get (if cn_needs_total cn then counts else []) k of None \<Rightarrow> VInt 0 | Some n \<Rightarrow> n)
      = VInt (if cn_needs_total cn then int (length (key_rows sv ?rs ?cols (cn_order cn) host (cn_where cn) k)) else 0)"
      if "k \<in> set keys" for k using counts(2) [OF that] by simp
    show "rows_of_key (if has_aggregates cn then grouped else []) k = (if has_aggregates cn then key_aggregates sv cn host k else [])"
      if "k \<in> set keys" for k using agg [OF that] by (simp add: rows_of_key_def)
  qed
qed

theorem connection_entries:
  assumes pt: "paged_table sv to_text cn" and group: "cn_group_by cn = []"
    and keys: "map_res (\<lambda>k. normalize_lookup_key k (cn_composite cn)) (values ! 0) = Inr keys" "length keys = n"
      "\<forall>k \<in> set keys. key_ok sv (cn_resource cn) (cn_match cn) k"
    and host: "where_params ct ctx source_values (cn_custom cn) = Inr host" "host_ok host (cn_where cn)"
    and cursor: "resolve_cursor_values sha256 cn ctx source_values = Inr (av, bv)"
      "cursor_cells sv cn (if cn_reverse cn then bv else av) s"
    and size: "int_page_size cn ctx source_values = Inr (map_option int len)"
    and edges: "\<And>r. r \<in> set (sv_tables sv (rs_schema (cn_resource cn), rs_table (cn_resource cn)))
      \<Longrightarrow> connection_edge sha256 to_text cn r = Inr (edge r)"
    and extras: "\<And>k. k \<in> set keys \<Longrightarrow> connection_extras cn (key_aggregates sv cn host k) = Inr (extra k)"
  shows "settle (connection_execute (answer sv) ct sha256 to_text cn ctx source_values n values)
    = Inr (map (key_connection sv edge cn host len s extra) keys)"
proof -
  let ?rs = "cn_resource cn" and ?cols = "cn_match cn"
  let ?X = "\<lambda>k. key_rows sv ?rs ?cols (cn_order cn) host (cn_where cn) k"
  let ?Y = "\<lambda>k. seek_rows (cn_reverse cn) (cn_order cn) (sv_view sv) s (?X k)"
  have edgeY: "connection_edge sha256 to_text cn r = Inr (edge r)" if "r \<in> set (?Y k)" for r k
  proof -
    have "set (?Y k) \<subseteq> set (?X k)" by (cases s) (auto simp: seek_rows_def)
    then show ?thesis using that key_rows_sorted(3) [OF pt, of host "cn_where cn" k]
      by (intro edges) (auto split: if_splits)
  qed
  have given: "(if cn_reverse cn then bv \<noteq> None else more_rows len Y) = (if cn_reverse cn then s \<noteq> None else more_rows len Y)"
      "(if cn_reverse cn then more_rows len Y else av \<noteq> None) = (if cn_reverse cn then more_rows len Y else s \<noteq> None)" for Y :: "row list"
    using cursor_given [OF cursor(2)] by auto
  have "\<forall>k \<in> set keys. hashable k \<and> py_wf k" using keys(3) by (simp add: key_ok_def)
  then obtain uk es where c: "coalesce_keys keys (length keys) = Inr (uk, es)"
    and uk: "set uk \<subseteq> {k \<in> set keys. k \<noteq> VNone}" "\<forall>k \<in> set keys. k \<noteq> VNone \<longrightarrow> (\<exists>u \<in> set uk. py_eq u k)"
    using coalesce_keys_spec by blast
  show ?thesis
  proof (cases "uk = []")
    case True
    with uk(2) have none: "k = VNone" if "k \<in> set keys" for k using that by auto
    obtain ex0 where ex0: "connection_extras cn [] = Inr ex0"
      by (cases "has_aggregates cn") (simp_all add: connection_extras_def group)
    have b: "build_connection sha256 to_text cn [] (VInt 0) [] ctx source_values av bv
        = Inr (VDict (connection_fields [] (VInt 0) (if cn_reverse cn then bv \<noteq> None else more_rows len ([] :: row list))
            (if cn_reverse cn then more_rows len ([] :: row list) else av \<noteq> None) @ ex0))"
      using build_connection_page [OF size, of "[]" "[]" sha256 to_text edge "[]" ex0 "VInt 0" av bv] ex0
      by (simp add: relay_page_def split: option.split)
    have "key_connection sv edge cn host len s extra k = VDict (connection_fields [] (VInt 0)
        (if cn_reverse cn then bv \<noteq> None else more_rows len ([] :: row list))
        (if cn_reverse cn then more_rows len ([] :: row list) else av \<noteq> None) @ ex0)" if k: "k \<in> set keys" for k
    proof -
      have "extra k = ex0" using extras [OF k] none [OF k] ex0 by (simp add: key_aggregates_None)
      moreover have "?X k = []" using none [OF k] by (simp add: key_rows_def)
      ultimately show ?thesis unfolding given
        by (cases s; cases len) (simp_all add: key_connection_def seek_rows_def relay_page_def Let_def)
    qed
    then have "map (key_connection sv edge cn host len s extra) keys = replicate n (VDict (connection_fields [] (VInt 0)
        (if cn_reverse cn then bv \<noteq> None else more_rows len ([] :: row list))
        (if cn_reverse cn then more_rows len ([] :: row list) else av \<noteq> None) @ ex0))"
      using keys(2) by (intro nth_equalityI) auto
    with True c keys(1) cursor(1) b show ?thesis by (simp add: connection_execute_def)
  next
    case False
    obtain rows totals aggs by_key where
      rq: "run_queries (answer sv) ct sha256 cn uk ctx source_values = Inr (rows, totals, aggs)"
      and bk: "group_rows ?cols rows = Inr by_key"
      and page: "\<And>k. k \<in> set keys \<Longrightarrow> rows_of_key by_key k
        = (let Y = ?Y k; Z = (if cn_reverse cn then rev Y else Y) in case len of None \<Rightarrow> Z | Some n \<Rightarrow> take (Suc n) Z)"
      and tot: "\<And>k. k \<in> set keys \<Longrightarrow> (case slot_get totals k of None \<Rightarrow> VInt 0 | Some n \<Rightarrow> n)
        = VInt (if cn_needs_total cn then int (length (?X k)) else 0)"
      and agg: "\<And>k. k \<in> set keys \<Longrightarrow> rows_of_key aggs k = (if has_aggregates cn then key_aggregates sv cn host k else [])"
      by (rule run_queries_keys [OF pt group keys(3) host cursor size uk], rule that)
    have entry: "build_connection sha256 to_text cn (rows_of_key by_key k) (case slot_get totals k of None \<Rightarrow> VInt 0 | Some n \<Rightarrow> n)
        (rows_of_key aggs k) ctx source_values av bv = Inr (key_connection sv edge cn host len s extra k)" if k: "k \<in> set keys" for k
    proof -
      have "connection_extras cn (rows_of_key aggs k) = Inr (extra k)"
        using extras [OF k] agg [OF k] by (simp add: connection_extras_def split: if_splits)
      moreover have "rows_of_key by_key k = (let Z = (if cn_reverse cn then rev (?Y k) else ?Y k)
          in case len of None \<Rightarrow> Z | Some n \<Rightarrow> take (Suc n) Z)"
        using page [OF k] by (simp add: Let_def)
      ultimately have "build_connection sha256 to_text cn (rows_of_key by_key k) t (rows_of_key aggs k) ctx source_values av bv
          = Inr (VDict (connection_fields (map edge (relay_page (cn_reverse cn) len (?Y k))) t
              (if cn_reverse cn then bv \<noteq> None else more_rows len (?Y k))
              (if cn_reverse cn then more_rows len (?Y k) else av \<noteq> None) @ extra k))" for t
        by (intro build_connection_page [OF size] edgeY)
      with tot [OF k]
      show ?thesis unfolding given by (simp add: key_connection_def Let_def)
    qed
    have "map_res (\<lambda>i. build_connection sha256 to_text cn (rows_of_key by_key (keys ! i))
           (case slot_get totals (keys ! i) of None \<Rightarrow> VInt 0 | Some n \<Rightarrow> n) (rows_of_key aggs (keys ! i))
           ctx source_values av bv) [0..<n] = Inr (map (\<lambda>i. key_connection sv edge cn host len s extra (keys ! i)) [0..<n])"
      using entry keys(2) by (intro map_res_Inr) simp
    moreover have "map (\<lambda>i. key_connection sv edge cn host len s extra (keys ! i)) [0..<n]
        = map (key_connection sv edge cn host len s extra) keys" by (rule map_nth_upt_comp [OF keys(2)])
    ultimately show ?thesis using False c keys(1) cursor(1) rq bk by (simp add: connection_execute_def)
  qed
qed

end
