(* ===== verification/Pg_Paging.thy ===== *)
theory Pg_Paging
  imports Pg_Connection_Laws
begin

text \<open>
  Paging through a connection: a client that repeats a request with the \<open>endCursor\<close> of the last page
  until there is no next page, and what it has then seen.
\<close>

section \<open>The client\<close>

definition field_of :: "pyval \<Rightarrow> string \<Rightarrow> pyval" where
  "field_of v name = (case v of VDict d \<Rightarrow> (case map_of d name of None \<Rightarrow> VNone | Some w \<Rightarrow> w) | _ \<Rightarrow> VNone)"

text \<open>The fuel is the number of requests the client is ready to make.\<close>

fun walk_pages :: "nat \<Rightarrow> (pyval \<Rightarrow> pyval res) \<Rightarrow> pyval \<Rightarrow> pyval list res" where
  "walk_pages 0 fetch cursor = Inl RecursionError"
| "walk_pages (Suc fuel) fetch cursor =
     bind_res (fetch cursor) (\<lambda>conn.
       case (field_of conn ''nodes'', field_of (field_of conn ''pageInfo'') ''hasNextPage'') of
         (VList nodes, VBool True) \<Rightarrow>
           bind_res (walk_pages fuel fetch (field_of (field_of conn ''pageInfo'') ''endCursor'')) (\<lambda>rest. Inr (nodes @ rest))
       | (VList nodes, _) \<Rightarrow> Inr nodes
       | _ \<Rightarrow> Inl (TypeError ''nodes''))"

text \<open>One request for the page of one parent: the variable \<open>s\<close> carries the cursor.\<close>

definition page_request ::
  "(statement \<Rightarrow> row \<Rightarrow> row list res) \<Rightarrow> ('f \<Rightarrow> pyval \<Rightarrow> pyval res) \<Rightarrow> (string \<Rightarrow> string) \<Rightarrow> (pyval \<Rightarrow> string)
   \<Rightarrow> 'f pg_connection \<Rightarrow> pyval \<Rightarrow> row \<Rightarrow> string \<Rightarrow> pyval \<Rightarrow> pyval \<Rightarrow> pyval res" where
  "page_request exec ct sha256 to_text cn ctx src s k cursor =
     bind_res (settle (connection_execute exec ct sha256 to_text cn ctx ((s, cursor) # src) 1 [[k]])) (\<lambda>col. Inr (hd col))"

section \<open>What the cursors stand for\<close>

lemma connection_edge_cursor:
  "connection_edge sha256 to_text cn r = Inr e \<Longrightarrow> encode_keyset_cursor sha256 to_text (cn_order cn) r = Inr (snd e)"
  by (auto simp: connection_edge_def Let_def bind_res_Inr_iff)

lemma decode_empty: "decode_keyset_cursor sha256 [] ts = Inl (ValueError ''malformed keyset cursor'')"
  by (simp add: decode_keyset_cursor_def unwrap_json_def json_loads_def skip_ws_def)

text \<open>An end cursor is a non-empty text that decodes to the cells of its row.\<close>

lemma edge_cursor_decodes:
  assumes ll: "lossless db types to_text ts view r"
    and e: "encode_keyset_cursor sha256 to_text ts r = Inr c"
  obtains vals where "decode_keyset_cursor sha256 c ts = Inr vals" "cursor_row db types ts vals (view r)" "c \<noteq> []"
proof -
  have "encodable to_text ts r" using ll by (force simp: encodable_def lossless_def)
  then have d: "decode_keyset_cursor sha256 c ts = Inr (cursor_values to_text ts r)"
    using cursor_round_trip [of to_text ts r sha256] e by auto
  moreover have "c \<noteq> []" using d by (auto simp: decode_empty)
  ultimately show thesis using lossless_cursor_row [OF ll] that by blast
qed

text \<open>Seeking after the last row of a prefix leaves the rest.\<close>

lemma seek_rest:
  assumes "sorted_wrt (\<lambda>a b. terms_before ts (view a) (view b)) (pre @ [r] @ post)"
  shows "seek_rows False ts view (Some (view r)) (pre @ [r] @ post) = post"
proof -
  have "filter (\<lambda>x. terms_before ts (view r) (view x)) pre = []"
    using assms terms_before_trans terms_before_irrefl by (force simp: filter_empty_conv sorted_wrt_append)
  moreover have "filter (\<lambda>x. terms_before ts (view r) (view x)) post = post"
    using assms by (simp add: filter_id_conv sorted_wrt_append)
  ultimately show ?thesis by (simp add: seek_rows_def terms_before_irrefl)
qed

section \<open>One page, and all of them\<close>

lemma connection_parts:
  "field_of (VDict (connection_fields es t n p @ extra)) ''nodes'' = VList (map (\<lambda>e. VDict (fst e)) es)"
  "field_of (VDict (connection_fields es t n p @ extra)) ''pageInfo'' = page_info n p (map snd es)"
  "field_of (page_info n p cs) ''hasNextPage'' = VBool n"
  "field_of (page_info n p cs) ''endCursor'' = (if cs = [] then VNone else VStr (last cs))"
  by (simp_all add: field_of_def connection_fields_def page_info_def)

text \<open>What a cursor the client sends stands for: the rows of a suffix.\<close>

definition cursor_at :: "(string \<Rightarrow> string) \<Rightarrow> (pyval \<Rightarrow> string) \<Rightarrow> order_term list \<Rightarrow> row list \<Rightarrow> pyval \<Rightarrow> bool" where
  "cursor_at sha256 to_text ts pre c \<longleftrightarrow>
     (if pre = [] then c = VNone
      else \<exists>t. c = VStr t \<and> encode_keyset_cursor sha256 to_text ts (last pre) = Inr t)"

text \<open>What a client relies on: without a cursor the first page of the sorted rows, with one the page of the rows
  it leaves, and the edges' cursors.\<close>

locale paged_source =
  fixes fetch :: "pyval \<Rightarrow> pyval res" and sha256 :: "string \<Rightarrow> string" and to_text :: "pyval \<Rightarrow> string"
    and db :: "('v::linorder) database" and types :: "string \<Rightarrow> string option" and ts :: "order_term list"
    and view :: "row \<Rightarrow> 'v cells" and X :: "row list" and edge :: "row \<Rightarrow> row \<times> string" and len :: nat
  assumes len: "0 < len"
    and sorted: "sorted_wrt (\<lambda>a b. terms_before ts (view a) (view b)) X"
    and rows_lossless: "r \<in> set X \<Longrightarrow> lossless db types to_text ts view r"
    and edge_cursor: "r \<in> set X \<Longrightarrow> encode_keyset_cursor sha256 to_text ts r = Inr (snd (edge r))"
    and first_page: "\<exists>t p extra. fetch VNone = Inr (VDict (connection_fields (map edge (take len X)) t (len < length X) p @ extra))"
    and page_of_cursor: "decode_keyset_cursor sha256 c ts = Inr vals \<Longrightarrow> c \<noteq> [] \<Longrightarrow> cursor_row db types ts vals z
      \<Longrightarrow> Y = seek_rows False ts view (Some z) X
      \<Longrightarrow> \<exists>t p extra. fetch (VStr c) = Inr (VDict (connection_fields (map edge (take len Y)) t (len < length Y) p @ extra))"
begin

lemma page_after:
  assumes X: "X = pre @ post" and cur: "cursor_at sha256 to_text ts pre c"
  shows "\<exists>t p extra. fetch c = Inr (VDict (connection_fields (map edge (take len post)) t (len < length post) p @ extra))"
proof (cases "pre = []")
  case True
  with X cur first_page show ?thesis by (simp add: cursor_at_def)
next
  case False
  then obtain t where t: "c = VStr t" "encode_keyset_cursor sha256 to_text ts (last pre) = Inr t"
    using cur by (auto simp: cursor_at_def)
  have "last pre \<in> set X" using X False by simp
  then obtain vals where v: "decode_keyset_cursor sha256 t ts = Inr vals" "cursor_row db types ts vals (view (last pre))" "t \<noteq> []"
    using edge_cursor_decodes [OF rows_lossless t(2)] by blast
  have split: "X = butlast pre @ [last pre] @ post" using X False by simp
  have "seek_rows False ts view (Some (view (last pre))) X = post"
    unfolding split by (rule seek_rest) (use sorted split in simp)
  from page_of_cursor [OF v(1,3,2) this [symmetric]] show ?thesis by (simp add: t(1))
qed

lemma walk_from:
  assumes "X = pre @ post" and "cursor_at sha256 to_text ts pre c" and "length post < fuel"
  shows "walk_pages fuel fetch c = Inr (map (\<lambda>r. VDict (fst (edge r))) post)"
  using assms
proof (induction fuel arbitrary: pre post c)
  case (Suc fuel)
  obtain t p extra where pg: "fetch c = Inr (VDict (connection_fields (map edge (take len post)) t (len < length post) p @ extra))"
    using page_after [OF Suc.prems(1,2)] by blast
  show ?case
  proof (cases "len < length post")
    case False
    then show ?thesis by (simp add: pg connection_parts comp_def)
  next
    case True
    let ?pre = "pre @ take len post" and ?post = "drop len post"
    have ne: "take len post \<noteq> []" using True len by auto
    have "last (take len post) \<in> set (take len post)" using ne by (rule last_in_set)
    then have "last (take len post) \<in> set X" using Suc.prems(1) by (auto dest: in_set_takeD)
    from edge_cursor [OF this] ne
    have cur: "cursor_at sha256 to_text ts ?pre (VStr (snd (edge (last (take len post)))))"
      by (simp add: cursor_at_def)
    have "walk_pages fuel fetch (VStr (snd (edge (last (take len post))))) = Inr (map (\<lambda>r. VDict (fst (edge r))) ?post)"
    proof (rule Suc.IH [OF _ cur])
      show "X = ?pre @ ?post" using Suc.prems(1) by simp
      show "length ?post < fuel" using Suc.prems(3) True len by simp
    qed
    moreover have "map (\<lambda>r. VDict (fst (edge r))) (take len post) @ map (\<lambda>r. VDict (fst (edge r))) ?post
        = map (\<lambda>r. VDict (fst (edge r))) post"
      by (simp flip: map_append)
    ultimately show ?thesis
      using True ne by (simp add: pg connection_parts comp_def last_map)
  qed
qed simp

lemma walk_all: "walk_pages (Suc (length X)) fetch VNone = Inr (map (\<lambda>r. VDict (fst (edge r))) X)"
  by (rule walk_from [of "[]"]) (simp_all add: cursor_at_def)

end

section \<open>A connection is such a source\<close>

text \<open>The cursor a request variable carries.\<close>

lemma request_cursor_variable:
  assumes "\<not> is_ctx_source s"
  shows "request_cursor sha256 (Placeholder s) planned ts ctx ((s, VNone) # src) = Inr None"
    and "t \<noteq> [] \<Longrightarrow> decode_keyset_cursor sha256 t ts = Inr vals
      \<Longrightarrow> request_cursor sha256 (Placeholder s) planned ts ctx ((s, VStr t) # src) = Inr (Some vals)"
  using assms by (simp_all add: request_cursor_def resolve_placeholder_def source_value_def)

lemma connection_source:
  assumes pt: "paged_table sv to_text cn" and group: "cn_group_by cn = []"
    and fwd: "\<not> cn_reverse cn" "cn_after cn = Placeholder s" "cn_before cn = Plain w" "\<not> is_ctx_source s"
    and key: "normalize_lookup_key k0 (cn_composite cn) = Inr k" "key_ok sv (cn_resource cn) (cn_match cn) k"
    and host: "\<And>c. where_params ct ctx ((s, c) # src) (cn_custom cn) = Inr host" "host_ok host (cn_where cn)"
    and size: "\<And>c. int_page_size cn ctx ((s, c) # src) = Inr (Some (int len))" "0 < len"
    and edges: "\<And>r. r \<in> set (sv_tables sv (rs_schema (cn_resource cn), rs_table (cn_resource cn)))
      \<Longrightarrow> connection_edge sha256 to_text cn r = Inr (edge r)"
    and extras: "connection_extras cn (key_aggregates sv cn host k) = Inr extra"
  shows "paged_source (page_request (answer sv) ct sha256 to_text cn ctx src s k0) sha256 to_text (sv_db sv)
    (column_type (cn_resource cn)) (cn_order cn) (sv_view sv)
    (key_rows sv (cn_resource cn) (cn_match cn) (cn_order cn) host (cn_where cn) k) edge len"
proof -
  let ?X = "key_rows sv (cn_resource cn) (cn_match cn) (cn_order cn) host (cn_where cn) k"
  note X = key_rows_sorted [OF pt, of host "cn_where cn" k]
  have mem: "r \<in> set (sv_tables sv (rs_schema (cn_resource cn), rs_table (cn_resource cn)))" if "r \<in> set ?X" for r
    using that X(3) by (simp split: if_splits)
  have page: "\<exists>t p extra. page_request (answer sv) ct sha256 to_text cn ctx src s k0 c
      = Inr (VDict (connection_fields (map edge (take len Y)) t (len < length Y) p @ extra))"
    if av: "request_cursor sha256 (Placeholder s) (cn_after_values cn) (cn_order cn) ctx ((s, c) # src) = Inr av"
      and cells: "cursor_cells sv cn av z" and Y: "Y = seek_rows False (cn_order cn) (sv_view sv) z ?X" for c av z Y
  proof -
    have rc: "resolve_cursor_values sha256 cn ctx ((s, c) # src) = Inr (av, cn_before_values cn)"
      using av fwd(2,3) by (simp add: resolve_cursor_values_def request_cursor_def)
    have keys: "map_res (\<lambda>k. normalize_lookup_key k (cn_composite cn)) ([[k0]] ! 0) = Inr [k]" using key(1) by simp
    have "settle (connection_execute (answer sv) ct sha256 to_text cn ctx ((s, c) # src) 1 [[k0]])
        = Inr (map (key_connection sv edge cn host (Some len) z (\<lambda>_. extra)) [k])"
      by (rule connection_entries [OF pt group keys _ _ host(1) host(2) rc _ _ edges])
        (use key(2) fwd(1) cells size extras in simp_all)
    then have "page_request (answer sv) ct sha256 to_text cn ctx src s k0 c = Inr (VDict (connection_fields (map edge (take len Y))
        (VInt (if cn_needs_total cn then int (length ?X) else 0)) (len < length Y) (z \<noteq> None) @ extra))"
      using fwd(1) by (simp add: Y page_request_def key_connection_def Let_def relay_page_def more_rows_def)
    then show ?thesis by blast
  qed
  show ?thesis
  proof
    show "0 < len" by (rule size(2))
    show "sorted_wrt (\<lambda>a b. terms_before (cn_order cn) (sv_view sv a) (sv_view sv b)) ?X" by (rule X(1))
    show "lossless (sv_db sv) (column_type (cn_resource cn)) to_text (cn_order cn) (sv_view sv) r" if "r \<in> set ?X" for r
      by (rule paged_tableD(6) [OF pt mem [OF that]])
    show "encode_keyset_cursor sha256 to_text (cn_order cn) r = Inr (snd (edge r))" if "r \<in> set ?X" for r
      by (rule connection_edge_cursor [OF edges [OF mem [OF that]]])
    show "\<exists>t p extra. page_request (answer sv) ct sha256 to_text cn ctx src s k0 VNone
        = Inr (VDict (connection_fields (map edge (take len ?X)) t (len < length ?X) p @ extra))"
      by (rule page [OF request_cursor_variable(1) [OF fwd(4)], of None]) (simp_all add: cursor_cells_def seek_rows_def)
    show "\<exists>t p extra. page_request (answer sv) ct sha256 to_text cn ctx src s k0 (VStr c)
        = Inr (VDict (connection_fields (map edge (take len Y)) t (len < length Y) p @ extra))"
      if "decode_keyset_cursor sha256 c (cn_order cn) = Inr vals" "c \<noteq> []"
        "cursor_row (sv_db sv) (column_type (cn_resource cn)) (cn_order cn) vals z"
        "Y = seek_rows False (cn_order cn) (sv_view sv) (Some z) ?X" for c vals z Y
      by (rule page [OF request_cursor_variable(2) [OF fwd(4) that(2,1)] _ that(4)]) (simp add: cursor_cells_def that(3))
  qed
qed

end
