(* ===== verification/Connection_Properties.thy ===== *)
theory Connection_Properties
  imports Pg_Paging Pg_Properties
begin

text \<open>
  The correctness properties of the Postgres selects and connections, each with an instance on a small
  table of books.
\<close>

section \<open>An instance: the books of an author\<close>

definition book :: "int \<Rightarrow> int \<Rightarrow> row" where
  "book i a = [(''id'', VInt i), (''author'', VInt a)]"

definition books_server :: "pg_value server" where
  "books_server = \<lparr>sv_db = small_db, sv_view = view_row,
     sv_tables = \<lambda>t. if t = (''public'', ''books'') then [book 3 1, book 2 2, book 1 1, book 4 1] else [],
     sv_fold = \<lambda>f c rows. VNone, sv_json = \<lambda>t c v. v\<rparr>"

definition plain_column :: "string \<Rightarrow> pg_column" where
  "plain_column n = as_column (Inl n)"

definition books :: pg_resource where
  "books = \<lparr>rs_name = ''books'', rs_schema = ''public'', rs_table = ''books'',
     rs_attributes = [(''id'', plain_column ''id''), (''author'', plain_column ''author'')],
     rs_primary_key = ''id'', rs_column_types = [], rs_relations = [], rs_opt_out_inline = False,
     rs_customizer_arity = None\<rparr>"

definition no_custom :: "unit customization" where
  "no_custom = \<lparr>cz_binds = [], cz_transforms = []\<rparr>"

definition books_select :: "unit pg_select" where
  "books_select = \<lparr>sl_resource = books, sl_match = [''author''], sl_unique = False, sl_order = [ascending ''id''],
     sl_first = Plain VNone, sl_offset = Plain (VInt 0), sl_inline = [], sl_where = [], sl_custom = no_custom\<rparr>"

text \<open>The pages of two books, newest cursor first asked for by the variable \<open>after\<close>.\<close>

definition books_connection :: "int \<Rightarrow> unit pg_connection" where
  "books_connection n = \<lparr>cn_resource = books, cn_match = [''author''], cn_unique = False, cn_order = [ascending ''id''],
     cn_first = Plain (VInt n), cn_after = Placeholder ''var:after'', cn_last = Plain VNone, cn_before = Plain VNone,
     cn_needs_total = True, cn_after_source = Some ''var:after'', cn_before_source = None, cn_aggregates = [],
     cn_group_by = [], cn_reverse = False, cn_after_values = None, cn_before_values = None, cn_where = [],
     cn_custom = no_custom\<rparr>"

lemma books_made:
  "new_resource ''books'' ''public'' ''books'' [Inl ''id'', Inl ''author''] ''id'' None [] False = Inr books"
  "make_select books (Inl ''author'') [] False (Plain VNone) (Plain (VInt 0)) [] [] no_custom = Inr books_select"
  "make_connection sha256 books (Inl ''author'') [] (Plain (VInt n)) (Placeholder ''var:after'') (Plain VNone) (Plain VNone)
     False True [] [] [] no_custom = Inr (books_connection n)"
  by (simp_all add: new_resource_def books_def plain_column_def as_column_def make_select_def books_select_def
      make_connection_def books_connection_def as_match_columns_def normalize_order_def Let_def is_computed_def
      placeholder_source_tag_def decode_literal_cursors_def decode_literal_cursor_def ascending_def)

lemma books_select_fields:
  "sl_resource books_select = books" "sl_match books_select = [''author'']" "sl_order books_select = [ascending ''id'']"
  "sl_first books_select = Plain VNone" "sl_offset books_select = Plain (VInt 0)" "sl_inline books_select = []"
  "sl_where books_select = []" "cz_binds (sl_custom books_select) = []"
  by (simp_all add: books_select_def no_custom_def)

lemma books_decoders: "\<forall>a \<in> snd ` set (rs_attributes books). to_py a = None"
  by (simp add: books_def plain_column_def as_column_def to_py_def)

lemma books_columns: "stored_columns books = [''id'', ''author'']" "computed_columns books = []"
    "rs_schema books = ''public''" "rs_table books = ''books''"
  by (simp_all add: books_def stored_columns_def computed_columns_def plain_column_def as_column_def is_computed_def)

lemma books_rows: "sv_tables books_server (''public'', ''books'') = [book 3 1, book 2 2, book 1 1, book 4 1]"
  by (simp add: books_server_def)

lemma books_cells: "view_row (book i a) ''id'' = Some (PgInt i)" "view_row (book i a) ''author'' = Some (PgInt a)"
    "map_of (book i a) ''id'' = Some (VInt i)" "map_of (book i a) ''author'' = Some (VInt a)"
    "map fst (book i a) = [''id'', ''author'']"
  by (simp_all add: view_row_def book_def)

lemma books_table: "table_ok books_server books [''author'']"
  unfolding table_ok_def books_columns books_rows
  by (auto simp: books_cells resource_ok_def books_def plain_column_def as_column_def)

lemma books_key: "key_ok books_server books [''author''] (VInt a)" "key_ok books_server books [''author''] VNone"
  unfolding key_ok_def books_columns books_rows
  by (simp_all add: match_predicate_def key_parts_def bindable_def parts_match_def has_key_def grouping_key_def
      row_get_def books_cells books_server_def small_db_def)

lemma book_before: "row_before (order_clauses [ascending ''id'']) (view_row (book i a)) (view_row (book j b)) \<longleftrightarrow> i < j"
  by (simp add: row_before_terms valid_term_def ascending_def term_before_def cell_before_def books_cells
      less_pg_value_def less_le_not_le)

lemma books_key_rows:
  "key_rows books_server books [''author''] [ascending ''id''] [] [] (VInt 1) = [book 1 1, book 3 1, book 4 1]"
  "key_rows books_server books [''author''] [ascending ''id''] [] [] (VInt 2) = [book 2 2]"
  "key_rows books_server books [''author''] [ascending ''id''] [] [] VNone = []"
  unfolding key_rows_def books_columns books_rows order_rows_def number_in_def
  by (simp_all add: has_key_def grouping_key_def row_get_def books_cells where_true_def partition_cells_def
      book_before books_server_def)

section \<open>Selects\<close>

text \<open>C12: a batched select gives each entry the decoded rows of its own key, in the step's order and with
  their folded children, as a list or as the first of them; the other keys of the bucket, repeated keys and
  NULL keys are not observable.\<close>

theorem select_is_pointwise:
  assumes "table_ok sv (sl_resource sl) (sl_match sl)" and "\<not> is_limited sl"
    and "map_res (\<lambda>k. normalize_lookup_key k (is_composite sl)) (values ! 0) = Inr keys" and "length keys = n"
    and "\<forall>k \<in> set keys. key_ok sv (sl_resource sl) (sl_match sl) k"
    and "where_params ct context source_values (sl_custom sl) = Inr host" and "distinct (map fst host)"
    and "''keys'' \<notin> fst ` set host"
    and "\<forall>p \<in> set (sl_where sl). ''keys'' \<notin> bind_names p"
    and "\<forall>spec \<in> set (sl_inline sl). \<forall>p \<in> set (in_where spec). ''keys'' \<notin> bind_names p"
    and "\<forall>r \<in> set (sv_tables sv (rs_schema (sl_resource sl), rs_table (sl_resource sl))).
      decode_row (sl_resource sl) (widened sv host (sl_inline sl) r) = Inr (dec (widened sv host (sl_inline sl) r))"
  shows "settle (select_execute (answer sv) ct sl context source_values n values)
      = Inr (map (\<lambda>k. VList (map (\<lambda>r. VDict (dec (widened sv host (sl_inline sl) r)))
          (key_rows sv (sl_resource sl) (sl_match sl) (sl_order sl) host (sl_where sl) k))) keys)
    \<and> settle (select_single_execute (answer sv) ct sl context source_values n values)
      = Inr (map (\<lambda>k. case key_rows sv (sl_resource sl) (sl_match sl) (sl_order sl) host (sl_where sl) k of
          [] \<Rightarrow> VNone | r # _ \<Rightarrow> VDict (dec (widened sv host (sl_inline sl) r))) keys)"
proof
  note entries = select_entries [OF assms]
  show "settle (select_execute (answer sv) ct sl context source_values n values)
      = Inr (map (\<lambda>k. VList (map (\<lambda>r. VDict (dec (widened sv host (sl_inline sl) r)))
          (key_rows sv (sl_resource sl) (sl_match sl) (sl_order sl) host (sl_where sl) k))) keys)"
    unfolding select_execute_def
    using entries [of scatter_many "\<lambda>rows. VList (map VDict rows)" "VList []"] assms(4)
    by (simp add: scatter_many_eq comp_def)
  show "settle (select_single_execute (answer sv) ct sl context source_values n values)
      = Inr (map (\<lambda>k. case key_rows sv (sl_resource sl) (sl_match sl) (sl_order sl) host (sl_where sl) k of
          [] \<Rightarrow> VNone | r # _ \<Rightarrow> VDict (dec (widened sv host (sl_inline sl) r))) keys)"
    unfolding select_single_execute_def
    using entries [of scatter_single first_or_none VNone] assms(4)
    by (simp add: scatter_single_eq first_or_none_def list.case_eq_if hd_map cong: if_cong)
qed

lemma select_is_pointwise_witness:
  "settle (select_execute (answer books_server) (\<lambda>f. Inr) books_select VNone [] 4 [[VInt 1, VNone, VInt 2, VInt 1]])
    = Inr [VList [VDict (book 1 1), VDict (book 3 1), VDict (book 4 1)], VList [], VList [VDict (book 2 2)],
           VList [VDict (book 1 1), VDict (book 3 1), VDict (book 4 1)]]"
proof -
  note fields = books_select_fields
  have "settle (select_execute (answer books_server) (\<lambda>f. Inr) books_select VNone [] 4 [[VInt 1, VNone, VInt 2, VInt 1]])
      = Inr (map (\<lambda>k. VList (map (\<lambda>r. VDict (id (widened books_server [] (sl_inline books_select) r)))
          (key_rows books_server (sl_resource books_select) (sl_match books_select) (sl_order books_select) []
            (sl_where books_select) k))) [VInt 1, VNone, VInt 2, VInt 1])"
    by (rule select_is_pointwise [THEN conjunct1])
      (simp_all add: fields is_limited_def is_composite_def books_table books_key normalize_lookup_key_def
        where_params_def decode_row_def has_decoders_def books_decoders)
  then show ?thesis by (simp add: fields books_key_rows widened_def)
qed

section \<open>Connections\<close>

lemma books_connection_fields:
  "cn_resource (books_connection n) = books" "cn_match (books_connection n) = [''author'']"
  "cn_order (books_connection n) = [ascending ''id'']" "cn_reverse (books_connection n) = False"
  "cn_after (books_connection n) = Placeholder ''var:after''" "cn_before (books_connection n) = Plain VNone"
  "cn_first (books_connection n) = Plain (VInt n)" "cn_before_values (books_connection n) = None"
  "cn_group_by (books_connection n) = []" "cn_aggregates (books_connection n) = []" "cn_where (books_connection n) = []"
  "cn_needs_total (books_connection n) = True" "cz_binds (cn_custom (books_connection n)) = []"
  "cn_composite (books_connection n) = False"
  by (simp_all add: books_connection_def no_custom_def cn_composite_def)

lemma books_paged: "paged_table books_server to_text (books_connection n)"
  unfolding paged_table_def Let_def books_connection_fields books_columns books_rows
  by (simp add: books_table) (auto simp: books_server_def valid_term_def ascending_def term_before_def
      cell_before_def books_cells less_pg_value_def lossless_def small_db_def book_def view_row_def)

lemma books_size: "int_page_size (books_connection n) ctx src = Inr (Some n)"
  by (simp add: int_page_size_def page_size_def size_of_value_def books_connection_fields resolve_placeholder_def)

lemma books_host: "where_params ct ctx src (cn_custom (books_connection n)) = Inr []"
  by (simp add: where_params_def books_connection_fields)

definition book_edge :: "(string \<Rightarrow> string) \<Rightarrow> (pyval \<Rightarrow> string) \<Rightarrow> row \<Rightarrow> row \<times> string" where
  "book_edge sha256 to_text r = projr (connection_edge sha256 to_text (books_connection 0) r)"

lemma book_edge: "connection_edge sha256 to_text (books_connection n) (book i a) = Inr (book_edge sha256 to_text (book i a))"
    "fst (book_edge sha256 to_text (book i a)) = book i a"
proof -
  have "encodable to_text [ascending ''id''] (book i a)" by (simp add: encodable_def ascending_def books_cells)
  then obtain c where c: "encode_keyset_cursor sha256 to_text [ascending ''id''] (book i a) = Inr c"
    using cursor_round_trip [of to_text "[ascending ''id'']" "book i a" sha256] by blast
  have "connection_edge sha256 to_text (books_connection m) (book i a) = Inr (book i a, c)" for m
    by (simp add: connection_edge_def books_connection_fields c decode_row_def has_decoders_def books_decoders
        books_columns row_get_def books_cells) (simp add: book_def)
  then show "connection_edge sha256 to_text (books_connection n) (book i a) = Inr (book_edge sha256 to_text (book i a))"
    "fst (book_edge sha256 to_text (book i a)) = book i a" by (simp_all add: book_edge_def)
qed

lemma books_edges:
  assumes "r \<in> set (sv_tables books_server (rs_schema (cn_resource (books_connection n)), rs_table (cn_resource (books_connection n))))"
  shows "connection_edge sha256 to_text (books_connection n) r = Inr (book_edge sha256 to_text r)"
  using assms by (auto simp: books_connection_fields books_columns books_rows book_edge)

text \<open>C10: every parent of a bucket gets the Relay page of its own rows: the rows the cursor leaves, cut to the
  page size from the front for \<open>first\<close> and from the back for \<open>last\<close>, in the connection's order, with
  \<open>hasNextPage\<close> exact in the direction of the walk, the whole set counted, and its own aggregates.\<close>

theorem connection_pages_are_relay:
  assumes "paged_table sv to_text cn" and "cn_group_by cn = []"
    and "map_res (\<lambda>k. normalize_lookup_key k (cn_composite cn)) (values ! 0) = Inr keys" and "length keys = n"
    and "\<forall>k \<in> set keys. key_ok sv (cn_resource cn) (cn_match cn) k"
    and "where_params ct ctx source_values (cn_custom cn) = Inr host" and "host_ok host (cn_where cn)"
    and "resolve_cursor_values sha256 cn ctx source_values = Inr (av, bv)"
    and "cursor_cells sv cn (if cn_reverse cn then bv else av) s"
    and "int_page_size cn ctx source_values = Inr (map_option int len)"
    and "\<And>r. r \<in> set (sv_tables sv (rs_schema (cn_resource cn), rs_table (cn_resource cn)))
      \<Longrightarrow> connection_edge sha256 to_text cn r = Inr (edge r)"
    and "\<And>k. k \<in> set keys \<Longrightarrow> connection_extras cn (key_aggregates sv cn host k) = Inr (extra k)"
  shows "settle (connection_execute (answer sv) ct sha256 to_text cn ctx source_values n values)
    = Inr (map (key_connection sv edge cn host len s extra) keys)"
  using assms by (rule connection_entries)

lemma connection_pages_are_relay_witness:
  "\<exists>c1 c2 c3. settle (connection_execute (answer books_server) (\<lambda>f. Inr) id (\<lambda>v. []) (books_connection 2) VNone [] 3
        [[VInt 1, VNone, VInt 2]])
    = Inr [VDict (connection_fields [(book 1 1, c1), (book 3 1, c3)] (VInt 3) True False),
           VDict (connection_fields [] (VInt 0) False False),
           VDict (connection_fields [(book 2 2, c2)] (VInt 1) False False)]"
proof -
  let ?cn = "books_connection 2" and ?edge = "book_edge id (\<lambda>v. [])"
  have "settle (connection_execute (answer books_server) (\<lambda>f. Inr) id (\<lambda>v. []) ?cn VNone [] 3 [[VInt 1, VNone, VInt 2]])
      = Inr (map (key_connection books_server ?edge ?cn [] (Some 2) None (\<lambda>k. [])) [VInt 1, VNone, VInt 2])"
    by (rule connection_pages_are_relay [where av = None and bv = None, OF books_paged _ _ _ _ books_host _ _ _ _ books_edges])
      (simp_all add: books_connection_fields books_key normalize_lookup_key_def host_ok_def resolve_cursor_values_def
        request_cursor_def resolve_placeholder_def source_value_def is_ctx_source_def cursor_cells_def books_size
        connection_extras_def has_aggregates_def)
  moreover have "map (key_connection books_server ?edge ?cn [] (Some 2) None (\<lambda>k. [])) [VInt 1, VNone, VInt 2]
      = [VDict (connection_fields [?edge (book 1 1), ?edge (book 3 1)] (VInt 3) True False),
         VDict (connection_fields [] (VInt 0) False False),
         VDict (connection_fields [?edge (book 2 2)] (VInt 1) False False)]"
    by (simp add: key_connection_def books_connection_fields books_key_rows seek_rows_def relay_page_def more_rows_def
        Let_def)
  moreover have "?edge (book i a) = (book i a, snd (?edge (book i a)))" for i a
    using book_edge(2) by (metis prod.collapse)
  ultimately show ?thesis by metis
qed

text \<open>C11: a client that repeats a forward request with the \<open>endCursor\<close> of the last page, while there is a next
  one, has seen every row of the parent exactly once, in order, after at most one request per row and one.\<close>

theorem paging_visits_every_row:
  assumes "paged_table sv to_text cn" and "cn_group_by cn = []"
    and "\<not> cn_reverse cn" and "cn_after cn = Placeholder s" and "cn_before cn = Plain w" and "\<not> is_ctx_source s"
    and "normalize_lookup_key k0 (cn_composite cn) = Inr k" and "key_ok sv (cn_resource cn) (cn_match cn) k"
    and "\<And>c. where_params ct ctx ((s, c) # src) (cn_custom cn) = Inr host" and "host_ok host (cn_where cn)"
    and "\<And>c. int_page_size cn ctx ((s, c) # src) = Inr (Some (int len))" and "0 < len"
    and "\<And>r. r \<in> set (sv_tables sv (rs_schema (cn_resource cn), rs_table (cn_resource cn)))
      \<Longrightarrow> connection_edge sha256 to_text cn r = Inr (edge r)"
    and "connection_extras cn (key_aggregates sv cn host k) = Inr extra"
    and "X = key_rows sv (cn_resource cn) (cn_match cn) (cn_order cn) host (cn_where cn) k"
  shows "walk_pages (Suc (length X)) (page_request (answer sv) ct sha256 to_text cn ctx src s k0) VNone
    = Inr (map (\<lambda>r. VDict (fst (edge r))) X) \<and> distinct X"
proof
  show "walk_pages (Suc (length X)) (page_request (answer sv) ct sha256 to_text cn ctx src s k0) VNone
      = Inr (map (\<lambda>r. VDict (fst (edge r))) X)"
    unfolding assms(15) by (rule paged_source.walk_all [OF connection_source [OF assms(1-14)]])
  show "distinct X" unfolding assms(15) by (rule key_rows_sorted(2) [OF assms(1)])
qed

lemma paging_visits_every_row_witness:
  "walk_pages 4 (page_request (answer books_server) (\<lambda>f. Inr) id (\<lambda>v. []) (books_connection 2) VNone [] ''var:after'' (VInt 1)) VNone
    = Inr [VDict (book 1 1), VDict (book 3 1), VDict (book 4 1)]"
proof -
  let ?X = "key_rows books_server books [''author''] [ascending ''id''] [] [] (VInt 1)"
  have "walk_pages (Suc (length ?X)) (page_request (answer books_server) (\<lambda>f. Inr) id (\<lambda>v. []) (books_connection 2) VNone []
        ''var:after'' (VInt 1)) VNone = Inr (map (\<lambda>r. VDict (fst (book_edge id (\<lambda>v. []) r))) ?X)"
    by (rule paging_visits_every_row [where len = 2 and k = "VInt 1", THEN conjunct1, OF books_paged _ _ _ _ _ _ _ books_host _ _ _ books_edges])
      (simp_all add: books_connection_fields books_key normalize_lookup_key_def host_ok_def is_ctx_source_def books_size
        connection_extras_def has_aggregates_def)
  then show ?thesis by (simp add: books_key_rows book_edge eval_nat_numeral)
qed

text \<open>The books of author 1, in pages of two.\<close>

interpretation book_pages: paged_source "page_request (answer books_server) (\<lambda>f. Inr) id (\<lambda>v. []) (books_connection 2) VNone [] ''var:after'' (VInt 1)"
  id "\<lambda>v. []" small_db "column_type books" "[ascending ''id'']" view_row "[book 1 1, book 3 1, book 4 1]" "book_edge id (\<lambda>v. [])" 2
proof -
  have "paged_source (page_request (answer books_server) (\<lambda>f. Inr) id (\<lambda>v. []) (books_connection 2) VNone [] ''var:after'' (VInt 1))
      id (\<lambda>v. []) (sv_db books_server) (column_type (cn_resource (books_connection 2))) (cn_order (books_connection 2)) (sv_view books_server)
      (key_rows books_server (cn_resource (books_connection 2)) (cn_match (books_connection 2)) (cn_order (books_connection 2)) []
        (cn_where (books_connection 2)) (VInt 1)) (book_edge id (\<lambda>v. [])) 2"
    by (rule connection_source [where extra = "[]", OF books_paged _ _ _ _ _ _ _ books_host _ _ _ books_edges])
      (simp_all add: books_connection_fields books_key normalize_lookup_key_def host_ok_def is_ctx_source_def books_size
        connection_extras_def has_aggregates_def)
  then show "paged_source (page_request (answer books_server) (\<lambda>f. Inr) id (\<lambda>v. []) (books_connection 2) VNone [] ''var:after'' (VInt 1))
      id (\<lambda>v. []) small_db (column_type books) [ascending ''id''] view_row [book 1 1, book 3 1, book 4 1] (book_edge id (\<lambda>v. [])) 2"
    by (simp add: books_connection_fields books_key_rows) (simp add: books_server_def)
qed

text \<open>A connection is planned in one direction: arguments of both are refused, and the direction of a
  planned one is that of its arguments.\<close>

theorem forward_and_reverse_refused:
  assumes "as_match_columns m = Inr cols"
    and "assert_order_terms_stored rs (normalize_order order_by (rs_primary_key rs) unique) = Inr ()"
  shows "((first \<noteq> Plain VNone \<or> after \<noteq> Plain VNone) \<and> (last_n \<noteq> Plain VNone \<or> before \<noteq> Plain VNone)
      \<longrightarrow> make_connection sha256 rs m order_by first after last_n before unique with_total aggs group_by wps custom
        = Inl (ValueError ''ambiguous Relay pagination''))
    \<and> (\<forall>cn. make_connection sha256 rs m order_by first after last_n before unique with_total aggs group_by wps custom = Inr cn
      \<longrightarrow> cn_reverse cn = (last_n \<noteq> Plain VNone \<or> before \<noteq> Plain VNone)
        \<and> (cn_reverse cn \<longrightarrow> cn_first cn = Plain VNone \<and> cn_after cn = Plain VNone))"
  using assms by (auto simp: make_connection_def Let_def bind_res_Inr_iff)

lemma forward_and_reverse_refused_witness:
  "make_connection id books (Inl ''author'') [] (Plain (VInt 2)) (Plain VNone) (Plain VNone) (Placeholder ''var:b'') False
      True [] [] [] no_custom = Inl (ValueError ''ambiguous Relay pagination'')"
proof -
  have "assert_order_terms_stored books (normalize_order [] (rs_primary_key books) False) = Inr ()"
    by (simp add: normalize_order_def books_def plain_column_def as_column_def is_computed_def ascending_def)
  moreover have "as_match_columns (Inl ''author'') = Inr [''author'']" by (simp add: as_match_columns_def)
  ultimately show ?thesis
    by (intro forward_and_reverse_refused [THEN conjunct1, THEN mp]) simp_all
qed

text \<open>A negative page size is not refused: the page is empty and there is still a next one, with no cursor
  to go on from, so that a client that pages on never ends.\<close>

theorem negative_first_never_ends:
  assumes "n < 0"
  shows "walk_pages fuel (page_request (answer books_server) (\<lambda>f. Inr) sha256 to_text (books_connection n) VNone []
    ''var:after'' (VInt 1)) VNone = Inl RecursionError"
proof -
  let ?cn = "books_connection n" and ?src = "[(''var:after'', VNone)]"
  let ?params = "[(''keys'', VList [VInt 1]), (''page_limit'', VInt (n + 1))]"
  have rc: "resolve_cursor_values sha256 ?cn VNone ?src = Inr (None, None)"
    by (simp add: resolve_cursor_values_def request_cursor_def books_connection_fields resolve_placeholder_def
        source_value_def is_ctx_source_def)
  obtain q where q: "build_page_query ?cn [VInt 1] VNone ?src None None = Inr (Page q)" "ps_bounded q"
      "ps_match q = Any_Param ''author''" "ps_where q = []"
    by (simp add: build_page_query_def inner_predicates_def cursor_predicate_def books_connection_fields page_limit_def
        books_size match_predicate_def Let_def)
  have matched: "\<exists>rows. matched_rows books_server ps tab (Some (Any_Param ''author'')) [] = Inr rows"
    if "map_of ps ''keys'' = Some (VList [VInt 1])" for ps tab
    using that by (simp add: matched_rows_def bound_keys_def key_parts_def bindable_def books_server_def small_db_def)
  obtain rows where "matched_rows books_server ?params (ps_table q) (Some (ps_match q)) (ps_where q) = Inr rows"
    using matched [of ?params "ps_table q"] q(3,4) by auto
  then have page: "answer books_server (Page q) ?params = Inr []"
    using q(2) assms by (simp add: answer_def answer_page_def int_param_def number_in_def Let_def)
  obtain t where count: "bind_res (answer books_server (build_count_query ?cn [VInt 1]) [(''keys'', VList [VInt 1])])
      (\<lambda>rows. totals_of ?cn rows []) = Inr t"
    using totals_run [of books_server ?cn "[]" "[VInt 1]" "[VInt 1]"] books_table books_key
    by (auto simp: books_connection_fields host_ok_def conn_params_def)
  have run: "run_queries (answer books_server) (\<lambda>f. Inr) sha256 ?cn [VInt 1] VNone ?src = Inr ([], t, [])"
    using page count by (simp add: run_queries_def rc books_host page_limit_def books_size q books_connection_fields
        has_aggregates_def Let_def)
  have build: "build_connection sha256 to_text ?cn [] tot [] VNone ?src None None
      = Inr (VDict (connection_fields [] tot True False))" for tot
    using assms by (simp add: build_connection_def books_size py_take_def books_connection_fields connection_extras_def
        has_aggregates_def Let_def)
  obtain es where co: "coalesce_keys [VInt 1] (Suc 0) = Inr ([VInt 1], es)"
    by (simp add: coalesce_keys_def)
  have req: "page_request (answer books_server) (\<lambda>f. Inr) sha256 to_text ?cn VNone [] ''var:after'' (VInt 1) VNone
      = Inr (VDict (connection_fields [] (case slot_get t (VInt 1) of None \<Rightarrow> VInt 0 | Some n \<Rightarrow> n) True False))"
    by (simp add: page_request_def connection_execute_def books_connection_fields normalize_lookup_key_def co rc run build
        group_rows_def rows_of_key_def)
  show ?thesis
    by (induction fuel) (simp_all add: req connection_parts(1,2) [of _ _ _ _ "[]", simplified] connection_parts(3,4))
qed

section \<open>The identity of a cursor\<close>

text \<open>A literal cursor of two values has the identity of a placeholder's: the tag of the variable form is no
  reserved value.\<close>

lemma cursor_key_collides: "cursor_key (Some s) vals = cursor_key None (Some [VStr ''var'', VStr s])"
  by (simp add: cursor_key_def)

end
