(* ===== verification/Pg_Inline.thy ===== *)
theory Pg_Inline
  imports Pg_Connection Dag Step_Model
begin

text \<open>
  Relation inlining (\<open>src/src/grafast_py/pg/inline.py\<close> and the optimize hooks of \<open>pg/steps.py\<close>): which child
  relations a select may absorb into its own statement, the fold that does it, and the step that reads a
  folded child back off the parent's rows.
\<close>

section \<open>Reading a folded child\<close>

text \<open>The nested rows as the driver decoded them from JSON.\<close>

fun as_row :: "pyval \<Rightarrow> row res" where
  "as_row (VDict d) = Inr d"
| "as_row v = Inl (TypeError ''row'')"

fun as_rows :: "pyval \<Rightarrow> row list res" where
  "as_rows (VList vs) = map_res as_row vs"
| "as_rows v = Inl (TypeError ''rows'')"

definition nested_column :: "pyval \<Rightarrow> string \<Rightarrow> pyval" where
  "nested_column v alias =
     (case v of VDict d \<Rightarrow> (case map_of d alias of None \<Rightarrow> VNone | Some w \<Rightarrow> w) | _ \<Rightarrow> VNone)"

definition extract_many :: "string \<Rightarrow> pg_resource \<Rightarrow> pyval \<Rightarrow> pyval res" where
  "extract_many alias rs v =
     (let nested = nested_column v alias in
      if nested = VNone then Inr (VList [])
      else bind_res (as_rows nested) (\<lambda>rows.
           bind_res (decode_rows rs rows) (\<lambda>decoded. Inr (VList (map VDict decoded)))))"

definition extract_one :: "string \<Rightarrow> pg_resource \<Rightarrow> pyval \<Rightarrow> pyval res" where
  "extract_one alias rs v =
     (let nested = nested_column v alias in
      if nested = VNone then Inr VNone
      else bind_res (as_row nested) (\<lambda>r.
           bind_res (decode_rows rs [r]) (\<lambda>decoded. Inr (VDict (hd decoded)))))"

definition extract_execute ::
  "string \<Rightarrow> pg_resource \<Rightarrow> relation_kind \<Rightarrow> nat \<Rightarrow> column list \<Rightarrow> column call" where
  "extract_execute alias rs kind count values =
     (case map_res (\<lambda>i. (if kind = Has_Many then extract_many else extract_one) alias rs (values ! 0 ! i)) [0..<count] of
        Inl e \<Rightarrow> Raised e
      | Inr out \<Rightarrow> Returned out)"

section \<open>The classes of the steps\<close>

text \<open>What \<open>isinstance\<close> and the attributes of the pg classes tell the predicate about a step object. A path
  of an access to a column is a single name; a fallback that is not given is None.\<close>

datatype 'f step_class =
    Access_Of "string list" pyval
  | Select_Of "'f pg_select"
  | Single_Of "'f pg_select"
  | Select_All_Of "'f pg_select_all"
  | Connection_Of "'f pg_connection"
  | Extract_Of string pg_resource relation_kind
  | Plain_Of

type_synonym 'f classes = "ref \<Rightarrow> 'f step_class"

text \<open>The resource of a parent: the hook that looks for candidates runs on a select.\<close>

fun parent_resource :: "'f step_class \<Rightarrow> pg_resource option" where
  "parent_resource (Select_Of sl) = Some (sl_resource sl)"
| "parent_resource (Single_Of sl) = Some (sl_resource sl)"
| "parent_resource (Select_All_Of sa) = Some (sa_resource sa)"
| "parent_resource c = None"

text \<open>The child selects, with whether they take one row.\<close>

fun relation_select :: "'f step_class \<Rightarrow> ('f pg_select \<times> bool) option" where
  "relation_select (Select_Of sl) = Some (sl, False)"
| "relation_select (Single_Of sl) = Some (sl, True)"
| "relation_select c = None"

section \<open>The safety predicate\<close>

fun join_names :: "string list \<Rightarrow> string" where
  "join_names [] = []"
| "join_names [x] = x"
| "join_names (x # xs) = x @ ''_'' @ join_names xs"

definition nested_alias_for :: "pg_resource \<Rightarrow> string list \<Rightarrow> string" where
  "nested_alias_for rs remote_columns = ''__inline_'' @ rs_table rs @ ''_'' @ join_names remote_columns"

definition access_column_path :: "'f step_class \<Rightarrow> string list option" where
  "access_column_path c =
     (case c of Access_Of path fallback \<Rightarrow> (if length path = 1 \<and> fallback = VNone then Some path else None) | _ \<Rightarrow> None)"

definition fresh_alias :: "string \<Rightarrow> string set \<Rightarrow> string" where
  "fresh_alias alias used = (if alias \<in> used then alias @ ''_'' @ show_nat (card used) else alias)"

definition inline_candidate_for ::
  "plan \<Rightarrow> 'f classes \<Rightarrow> pg_resource \<Rightarrow> ref \<Rightarrow> ref \<Rightarrow> string list \<Rightarrow> string set \<Rightarrow> inline_spec option res" where
  "inline_candidate_for p cl parent_rs child access local_path used_aliases =
     (case relation_select (cl child) of
        None \<Rightarrow> Inr None
      | Some (sl, is_has_one) \<Rightarrow>
          (let rs = sl_resource sl in
           if deps_of (p_heap p) child ! 0 \<noteq> access then Inr None
           else if is_composite sl then Inr None
           else if rs_schema rs \<noteq> rs_schema parent_rs then Inr None
           else if rs_table rs = rs_table parent_rs then Inr None
           else if rs_opt_out_inline rs then Inr None
           else if \<not> dedupable (obj (p_heap p) child) then Inr None
           else if is_limited sl then Inr None
           else if rs_customizer_arity rs \<noteq> None then Inr None
           else if sl_where sl \<noteq> [] then Inr None
           else if \<not> is_inline_json_safe rs then Inr None
           else bind_res (assert_order_terms_stored rs (sl_order sl)) (\<lambda>_.
             Inr (Some \<lparr>in_resource = rs, in_kind = (if is_has_one then Has_One else Has_Many),
                        in_alias = fresh_alias (nested_alias_for rs (sl_match sl)) used_aliases,
                        in_local = local_path, in_remote = sl_match sl, in_order = sl_order sl, in_where = [],
                        in_computed = computed_projections rs\<rparr>))))"

text \<open>The two loops: over the key accesses of the parent, over the consumers of each.\<close>

fun candidates_of ::
  "plan \<Rightarrow> 'f classes \<Rightarrow> pg_resource \<Rightarrow> ref \<Rightarrow> string list \<Rightarrow> ref list \<Rightarrow> (ref \<times> inline_spec) list
   \<Rightarrow> (ref \<times> inline_spec) list res" where
  "candidates_of p cl parent_rs access local_path [] candidates = Inr candidates"
| "candidates_of p cl parent_rs access local_path (child # rest) candidates =
     bind_res (inline_candidate_for p cl parent_rs child access local_path ((\<lambda>c. in_alias (snd c)) ` set candidates)) (\<lambda>spec.
       candidates_of p cl parent_rs access local_path rest
         (case spec of None \<Rightarrow> candidates | Some s \<Rightarrow> candidates @ [(child, s)]))"

fun candidates_over ::
  "plan \<Rightarrow> 'f classes \<Rightarrow> pg_resource \<Rightarrow> ref list \<Rightarrow> (ref \<times> inline_spec) list \<Rightarrow> (ref \<times> inline_spec) list res" where
  "candidates_over p cl parent_rs [] candidates = Inr candidates"
| "candidates_over p cl parent_rs (access # rest) candidates =
     bind_res (case access_column_path (cl access) of
         None \<Rightarrow> Inr candidates
       | Some path \<Rightarrow> candidates_of p cl parent_rs access path (dependents_of p access) candidates)
       (candidates_over p cl parent_rs rest)"

definition find_inline_candidates :: "plan \<Rightarrow> 'f classes \<Rightarrow> ref \<Rightarrow> (ref \<times> inline_spec) list res" where
  "find_inline_candidates p cl parent =
     (case parent_resource (cl parent) of
        None \<Rightarrow> Inl (AttributeError ''resource'')
      | Some rs \<Rightarrow>
          (if \<not> p_inline_relations p then Inr []
           else if rs_opt_out_inline rs then Inr []
           else if \<not> dedupable (obj (p_heap p) parent) then Inr []
           else candidates_over p cl rs (dependents_of p parent) []))"

text \<open>A window-sliced parent hosts no LATERAL; a root collection does, paged or not.\<close>

definition inline_candidates :: "plan \<Rightarrow> 'f classes \<Rightarrow> ref \<Rightarrow> (ref \<times> inline_spec) list res" where
  "inline_candidates p cl r =
     (case relation_select (cl r) of
        Some (sl, _) \<Rightarrow> (if is_limited sl then Inr [] else find_inline_candidates p cl r)
      | None \<Rightarrow> find_inline_candidates p cl r)"

section \<open>The fold\<close>

text \<open>A step object is allocated with the flags of its class; what it renders for deduplication (\<open>peer_key\<close>,
  \<open>dedup_params\<close>) is a function of its class and attributes.\<close>

definition class_name :: "'f step_class \<Rightarrow> string" where
  "class_name c =
     (case c of Access_Of _ _ \<Rightarrow> ''AccessStep'' | Select_Of _ \<Rightarrow> ''PgSelectStep'' | Single_Of _ \<Rightarrow> ''PgSelectSingleStep''
      | Select_All_Of _ \<Rightarrow> ''PgSelectAllStep'' | Connection_Of _ \<Rightarrow> ''PgConnectionStep''
      | Extract_Of _ _ _ \<Rightarrow> ''NestedExtractStep'' | Plain_Of \<Rightarrow> ''Step'')"

definition pg_object :: "('f step_class \<Rightarrow> string \<times> pyval list) \<Rightarrow> 'f step_class \<Rightarrow> step_obj" where
  "pg_object ident c =
     \<lparr>sid = -1, deps = [], sclass = class_name c, peer_key = fst (ident c), dedup_params = snd (ident c),
      dedupable = True, hoistable = True,
      wants_extra = (case c of Extract_Of _ _ _ \<Rightarrow> False | _ \<Rightarrow> True), unary = False,
      sync_safe = (case c of Extract_Of _ _ _ \<Rightarrow> True | _ \<Rightarrow> False)\<rparr>"

text \<open>A constructor that ends with \<open>self.add_dependency(dep)\<close>.\<close>

definition new_pg_step ::
  "('f step_class \<Rightarrow> string \<times> pyval list) \<Rightarrow> 'f step_class \<Rightarrow> ref \<Rightarrow> plan \<times> 'f classes \<Rightarrow> ref \<times> plan \<times> 'f classes" where
  "new_pg_step ident c dep st =
     (case st of (p, cl) \<Rightarrow>
        let r = length (p_heap p) in
        (r, p\<lparr>p_heap := fst (add_dependency (p_heap p @ [pg_object ident c]) r dep)\<rparr>, cl(r := c)))"

text \<open>The clone's constructor gets the new specs alone; the predicates are copied over.\<close>

fun with_specs :: "inline_spec list \<Rightarrow> 'f step_class \<Rightarrow> 'f step_class" where
  "with_specs specs (Select_Of sl) = Select_Of (sl\<lparr>sl_inline := specs\<rparr>)"
| "with_specs specs (Single_Of sl) = Single_Of (sl\<lparr>sl_inline := specs\<rparr>)"
| "with_specs specs (Select_All_Of sa) = Select_All_Of (sa\<lparr>sa_inline := specs\<rparr>)"
| "with_specs specs c = c"

definition clone_with_inline_specs ::
  "('f step_class \<Rightarrow> string \<times> pyval list) \<Rightarrow> inline_spec list \<Rightarrow> ref \<Rightarrow> plan \<times> 'f classes \<Rightarrow> ref \<times> plan \<times> 'f classes" where
  "clone_with_inline_specs ident specs r st =
     (case st of (p, cl) \<Rightarrow> new_pg_step ident (with_specs specs (cl r)) (deps_of (p_heap p) r ! 0) st)"

fun fold_children ::
  "nat \<Rightarrow> ('f step_class \<Rightarrow> string \<times> pyval list) \<Rightarrow> ref \<Rightarrow> (ref \<times> inline_spec) list \<Rightarrow> plan \<times> 'f classes
   \<Rightarrow> (plan \<times> 'f classes) res" where
  "fold_children depth ident replacement [] st = Inr st"
| "fold_children depth ident replacement ((child, spec) # rest) st =
     (case new_pg_step ident (Extract_Of (in_alias spec) (in_resource spec) (in_kind spec)) replacement st of
        (extract, p, cl) \<Rightarrow>
          bind_res (add_step depth p extract) (\<lambda>p1.
            fold_children depth ident replacement rest (record_replacement p1 child extract, cl)))"

definition fold_inline_candidates ::
  "nat \<Rightarrow> ('f step_class \<Rightarrow> string \<times> pyval list) \<Rightarrow> ref \<Rightarrow> (ref \<times> inline_spec) list \<Rightarrow> plan \<times> 'f classes
   \<Rightarrow> (ref \<times> plan \<times> 'f classes) res" where
  "fold_inline_candidates depth ident parent candidates st =
     (case clone_with_inline_specs ident (map snd candidates) parent st of
        (replacement, p, cl) \<Rightarrow>
          bind_res (add_step depth p replacement) (\<lambda>p1.
          bind_res (fold_children depth ident replacement candidates (p1, cl)) (\<lambda>(p2, cl2).
          Inr (replacement, p2, cl2))))"

text \<open>The \<open>optimize\<close> of the three select classes.\<close>

definition select_optimize ::
  "nat \<Rightarrow> ('f step_class \<Rightarrow> string \<times> pyval list) \<Rightarrow> ref \<Rightarrow> plan \<times> 'f classes \<Rightarrow> (ref \<times> plan \<times> 'f classes) res" where
  "select_optimize depth ident r st =
     (case st of (p, cl) \<Rightarrow>
        bind_res (inline_candidates p cl r) (\<lambda>candidates.
          if candidates = [] then Inr (r, p, cl) else fold_inline_candidates depth ident r candidates st))"

end
