(* ===== verification/Pg_Inline_Laws.thy ===== *)
theory Pg_Inline_Laws
  imports Pg_Inline Pg_Select_Laws
begin

text \<open>
  What inlining relies on and what it gives: the conditions a candidate meets, and that the rows a folded
  child is read from are those its own batched statement would have returned.
\<close>

section \<open>What a candidate is\<close>

lemma inline_candidateD:
  assumes "inline_candidate_for p cl parent_rs child access local_path used = Inr (Some spec)"
  obtains sl one where "relation_select (cl child) = Some (sl, one)" "deps_of (p_heap p) child ! 0 = access"
    "length (sl_match sl) \<le> 1" "\<not> is_limited sl" "sl_where sl = []" "is_inline_json_safe (sl_resource sl)"
    "rs_schema (sl_resource sl) = rs_schema parent_rs" "rs_table (sl_resource sl) \<noteq> rs_table parent_rs"
    "dedupable (obj (p_heap p) child)" "rs_customizer_arity (sl_resource sl) = None"
    "spec = \<lparr>in_resource = sl_resource sl, in_kind = (if one then Has_One else Has_Many),
       in_alias = fresh_alias (nested_alias_for (sl_resource sl) (sl_match sl)) used,
       in_local = local_path, in_remote = sl_match sl, in_order = sl_order sl, in_where = [],
       in_computed = computed_projections (sl_resource sl)\<rparr>"
proof -
  obtain sl one where c: "relation_select (cl child) = Some (sl, one)"
    using assms by (cases "relation_select (cl child)") (auto simp: inline_candidate_for_def)
  show thesis
    by (rule that [OF c]) (use assms c in \<open>simp_all add: inline_candidate_for_def Let_def is_composite_def res_iffs split: if_splits\<close>)
qed

section \<open>The rows of a fold\<close>

text \<open>The columns the predicate takes for stable come through JSON as the driver gives them.\<close>

definition json_faithful :: "'v server \<Rightarrow> pg_resource \<Rightarrow> bool" where
  "json_faithful sv rs \<longleftrightarrow>
     (\<forall>c v. attribute_inline_json_safe rs c = Inr True
        \<and> (\<exists>r \<in> set (sv_tables sv (rs_schema rs, rs_table rs)). map_of r c = Some v)
        \<longrightarrow> sv_json sv (rs_schema rs, rs_table rs) c v = v)"

text \<open>The value of the parent's key column stands for its cell.\<close>

definition key_cell :: "'v server \<Rightarrow> row \<Rightarrow> string \<Rightarrow> pyval \<Rightarrow> bool" where
  "key_cell sv q col k \<longleftrightarrow>
     (if k = VNone then sv_view sv q col = None else coerce (sv_db sv) None k = sv_view sv q col)"

lemma where_true_nil [simp]: "where_true sv params [] r"
  by (simp add: where_true_def)

lemma lateral_rows_of_key:
  assumes key: "key_ok sv rs [remote] k" and cell: "key_cell sv q col k"
    and la: "la_table la = (rs_schema rs, rs_table rs)" "la_correlation la = [(col, remote)]" "la_where la = []"
      "la_order la = order_clauses ts"
  shows "lateral_rows sv params la q = key_rows sv rs [remote] ts [] [] k"
proof (cases "k = VNone")
  case True
  with cell show ?thesis by (simp add: lateral_rows_def la key_rows_def key_cell_def order_rows_def)
next
  case False
  have "parts_match (sv_db sv) [remote] [k] (sv_view sv r) = has_key [remote] k r"
    if "r \<in> set (sv_tables sv (rs_schema rs, rs_table rs))" for r
    using key False that by (simp add: key_ok_def match_predicate_def key_parts_def)
  with False cell show ?thesis
    by (auto simp: lateral_rows_def la key_rows_def key_cell_def parts_match_def cong: filter_cong intro!: arg_cong [where f = "order_rows sv (order_clauses ts)"] filter_cong)
qed

lemma json_row_id:
  assumes tab: "table_ok sv rs cols" and safe: "is_inline_json_safe rs" and js: "json_faithful sv rs"
    and la: "la_table la = (rs_schema rs, rs_table rs)" "la_columns la = stored_columns rs"
      "map snd (la_computed la) = computed_columns rs"
    and r: "r \<in> set (sv_tables sv (rs_schema rs, rs_table rs))"
  shows "json_row sv la r = VDict r"
proof -
  have keys: "map fst r = stored_columns rs @ computed_columns rs" using tab r by (simp add: table_ok_def)
  have ok: "resource_ok rs" using tab by (simp add: table_ok_def)
  have r_id: "project (stored_columns rs @ computed_columns rs) r = r"
    using keys columns_partition(2) [OF ok] by (rule project_id)
  have "sv_json sv (rs_schema rs, rs_table rs) c v = v" if cv: "(c, v) \<in> set r" for c v
  proof -
    have "c \<in> set (map fst r)" using cv by force
    then have "c \<in> fst ` set (rs_attributes rs)" using columns_partition(1) [OF ok] keys by (metis)
    then have "attribute_inline_json_safe rs c = Inr True"
      using safe unfolding is_inline_json_safe_def by (rule bspec [rotated])
    moreover have "map_of r c = Some v"
      using cv keys columns_partition(2) [OF ok] by (simp add: map_of_is_SomeI)
    ultimately show ?thesis using js r by (auto simp: json_faithful_def)
  qed
  then have "map (\<lambda>(c, v). (c, sv_json sv (rs_schema rs, rs_table rs) c v)) r = r"
    by (intro map_idI) auto
  then show ?thesis by (simp add: json_row_def la r_id)
qed

lemma as_rows_map: "as_rows (VList (map VDict rows)) = Inr rows"
  by (induction rows) simp_all

lemma computed_labels: "map snd (computed_projections rs) = computed_columns rs"
  by (simp add: computed_projections_def computed_columns_def)

lemma key_rows_in_table: "set (key_rows sv rs cols ts params wps k) \<subseteq> set (sv_tables sv (rs_schema rs, rs_table rs))"
  by (auto simp: key_rows_def order_rows_def)

text \<open>What a parent's row holds for a candidate: the rows of its key, in the child's order.\<close>

lemma lateral_value_of_key:
  assumes tab: "table_ok sv rs [remote]" and key: "key_ok sv rs [remote] k" and cell: "key_cell sv q col k"
    and safe: "is_inline_json_safe rs" and js: "json_faithful sv rs"
    and spec: "spec = \<lparr>in_resource = rs, in_kind = kind, in_alias = alias, in_local = [col], in_remote = [remote],
       in_order = ts, in_where = [], in_computed = computed_projections rs\<rparr>"
  shows "lateral_value sv params q (build_lateral spec)
    = (alias, let rows = key_rows sv rs [remote] ts [] [] k
              in if kind = Has_Many then VList (map VDict rows) else first_or_none rows)"
proof -
  let ?la = "build_lateral spec"
  have rows: "lateral_rows sv params ?la q = key_rows sv rs [remote] ts [] [] k"
    by (rule lateral_rows_of_key [OF key cell]) (simp_all add: spec build_lateral_def lateral_correlation_def)
  have id: "json_row sv ?la r = VDict r" if "r \<in> set (key_rows sv rs [remote] ts [] [] k)" for r
    by (rule json_row_id [OF tab safe js _ _ _ subsetD [OF key_rows_in_table that]])
      (simp_all add: spec build_lateral_def computed_labels)
  then have "map (json_row sv ?la) (key_rows sv rs [remote] ts [] [] k) = map VDict (key_rows sv rs [remote] ts [] [] k)"
    by (intro map_cong) simp_all
  moreover have "(case key_rows sv rs [remote] ts [] [] k of [] \<Rightarrow> VNone | r # _ \<Rightarrow> json_row sv ?la r)
      = first_or_none (key_rows sv rs [remote] ts [] [] k)"
    using id by (cases "key_rows sv rs [remote] ts [] [] k") (simp_all add: first_or_none_def)
  ultimately show ?thesis
    using rows by (simp add: lateral_value_def Let_def) (simp add: spec build_lateral_def)
qed

section \<open>The step that reads it\<close>

lemma extract_decodes:
  assumes dec: "\<And>r. r \<in> set rows \<Longrightarrow> decode_row rs r = Inr (dec r)"
  shows "nested_column v alias = VList (map VDict rows) \<Longrightarrow> extract_many alias rs v = Inr (VList (map VDict (map dec rows)))"
    and "nested_column v alias = first_or_none rows \<Longrightarrow> extract_one alias rs v = Inr (first_or_none (map dec rows))"
proof -
  show "nested_column v alias = VList (map VDict rows) \<Longrightarrow> extract_many alias rs v = Inr (VList (map VDict (map dec rows)))"
    by (simp add: extract_many_def as_rows_map decode_rows_map [OF ballI, OF dec] del: as_rows.simps)
  show "nested_column v alias = first_or_none rows \<Longrightarrow> extract_one alias rs v = Inr (first_or_none (map dec rows))"
  proof (cases rows)
    case (Cons r rest)
    moreover have "decode_rows rs [r] = Inr (map dec [r])" by (rule decode_rows_map) (use dec Cons in simp)
    ultimately show "nested_column v alias = first_or_none rows \<Longrightarrow> ?thesis"
      by (simp add: extract_one_def first_or_none_def)
  qed (simp add: extract_one_def first_or_none_def)
qed

text \<open>A row of a parent that carries the column of a fold: what is read off it, and what the batched child
  looks up.\<close>

definition carries_fold :: "('v::linorder) server \<Rightarrow> row \<Rightarrow> inline_spec \<Rightarrow> string \<Rightarrow> pyval \<Rightarrow> row \<Rightarrow> row \<Rightarrow> bool" where
  "carries_fold sv params spec col k q d \<longleftrightarrow>
     map_of d (in_alias spec) = Some (snd (lateral_value sv params q (build_lateral spec)))
     \<and> map_of d col = Some k \<and> key_cell sv q col k \<and> key_ok sv (in_resource spec) (in_remote spec) k"

theorem folded_child:
  assumes cand: "inline_candidate_for p cl parent_rs child access [col] used = Inr (Some spec)"
    and cls: "relation_select (cl child) = Some (sl, one)" and flat: "sl_inline sl = []" "cz_binds (sl_custom sl) = []"
    and tab: "table_ok sv (sl_resource sl) (sl_match sl)" and js: "json_faithful sv (sl_resource sl)"
    and dec: "\<And>r. r \<in> set (sv_tables sv (rs_schema (sl_resource sl), rs_table (sl_resource sl)))
      \<Longrightarrow> decode_row (sl_resource sl) r = Inr (dec r)"
    and rows: "list_all2 (\<lambda>(q, k) d. carries_fold sv params spec col k q d) qs ds"
  shows "settle (extract_execute (in_alias spec) (in_resource spec) (in_kind spec) (length ds) [map VDict ds])
    = bind_res (settle (access_execute [SKey col] VNone (length ds) [map VDict ds])) (\<lambda>keys.
        settle ((if one then select_single_execute else select_execute) (answer sv) ct sl context source_values
          (length ds) [keys]))"
proof -
  let ?rs = "sl_resource sl"
  obtain sl' one' where D: "relation_select (cl child) = Some (sl', one')" "length (sl_match sl') \<le> 1" "\<not> is_limited sl'"
      "sl_where sl' = []" "is_inline_json_safe (sl_resource sl')"
    and spec': "spec = \<lparr>in_resource = sl_resource sl', in_kind = (if one' then Has_One else Has_Many),
       in_alias = fresh_alias (nested_alias_for (sl_resource sl') (sl_match sl')) used,
       in_local = [col], in_remote = sl_match sl', in_order = sl_order sl', in_where = [],
       in_computed = computed_projections (sl_resource sl')\<rparr>"
    by (rule inline_candidateD [OF cand]) (rule that)
  have same: "sl' = sl" "one' = one" using D(1) cls by simp_all
  have "sl_match sl \<noteq> []" using tab by (simp add: table_ok_def)
  then obtain remote where m: "sl_match sl = [remote]" using D(2) same by (cases "sl_match sl") auto
  define al where "al = in_alias spec"
  have spec: "spec = \<lparr>in_resource = ?rs, in_kind = (if one then Has_One else Has_Many), in_alias = al,
     in_local = [col], in_remote = [remote], in_order = sl_order sl, in_where = [],
     in_computed = computed_projections ?rs\<rparr>"
    unfolding al_def by (simp add: spec' same m)
  define X where "X = key_rows sv ?rs [remote] (sl_order sl) [] []"
  have XT: "set (X k) \<subseteq> set (sv_tables sv (rs_schema ?rs, rs_table ?rs))" for k
    unfolding X_def by (rule key_rows_in_table)
  define keys where "keys = map (\<lambda>d. the (map_of d col)) ds"
  have row: "carries_fold sv params spec col (keys ! i) (fst (qs ! i)) (ds ! i)" if "i < length ds" for i
    using list_all2_nthD2 [OF rows that] that by (auto simp: keys_def carries_fold_def split: prod.splits)
  have access: "settle (access_execute [SKey col] VNone (length ds) [map VDict ds]) = Inr keys"
    unfolding access_execute_def Let_def settle.simps sum.inject
  proof (rule nth_equalityI)
    fix i assume "i < length (map (\<lambda>i. if is_exc ([map VDict ds] ! 0 ! i) then [map VDict ds] ! 0 ! i
      else get_in ([map VDict ds] ! 0 ! i) [SKey col] VNone) [0..<length ds])"
    then have i: "i < length ds" by simp
    obtain k where "map_of (ds ! i) col = Some k" using row [OF i] by (auto simp: carries_fold_def)
    with i show "map (\<lambda>i. if is_exc ([map VDict ds] ! 0 ! i) then [map VDict ds] ! 0 ! i
        else get_in ([map VDict ds] ! 0 ! i) [SKey col] VNone) [0..<length ds] ! i = keys ! i"
      by (simp add: keys_def)
  qed (simp add: keys_def)
  have kok: "\<forall>k \<in> set keys. key_ok sv ?rs [remote] k"
    using row by (auto simp: in_set_conv_nth keys_def carries_fold_def spec)
  have nested: "nested_column (VDict (ds ! i)) al
      = (if one then first_or_none (X (keys ! i)) else VList (map VDict (X (keys ! i))))" if i: "i < length ds" for i
  proof -
    have "key_ok sv ?rs [remote] (keys ! i)" "key_cell sv (fst (qs ! i)) col (keys ! i)"
      using row [OF i] by (simp_all add: carries_fold_def spec)
    note val = lateral_value_of_key [OF tab [unfolded m] this D(5) [unfolded same] js spec, of params]
    have "map_of (ds ! i) al = Some (snd (lateral_value sv params (fst (qs ! i)) (build_lateral spec)))"
      using row [OF i] by (simp add: carries_fold_def al_def)
    then show ?thesis unfolding val by (simp add: nested_column_def X_def Let_def)
  qed
  have dX: "decode_row ?rs r = Inr (dec r)" if "r \<in> set (X k)" for r k using that XT dec by blast
  have ex: "settle (extract_execute al ?rs (if one then Has_One else Has_Many) (length ds) [map VDict ds])
    = Inr (map (\<lambda>k. if one then first_or_none (map dec (X k)) else VList (map VDict (map dec (X k)))) keys)"
  proof -
    have "map_res (\<lambda>i. (if (if one then Has_One else Has_Many) = Has_Many then extract_many else extract_one) al ?rs
          ([map VDict ds] ! 0 ! i)) [0..<length ds]
        = Inr (map (\<lambda>i. if one then first_or_none (map dec (X (keys ! i))) else VList (map VDict (map dec (X (keys ! i)))))
            [0..<length ds])"
    proof (rule map_res_Inr)
      fix i assume "i \<in> set [0..<length ds]"
      then have i: "i < length ds" by simp
      show "(if (if one then Has_One else Has_Many) = Has_Many then extract_many else extract_one) al ?rs
          ([map VDict ds] ! 0 ! i)
        = Inr (if one then first_or_none (map dec (X (keys ! i))) else VList (map VDict (map dec (X (keys ! i)))))"
        using nested [OF i] i extract_decodes [of "X (keys ! i)" ?rs dec "VDict (ds ! i)" al, OF dX]
        by (cases one) simp_all
    qed
    moreover have "map (\<lambda>i. if one then first_or_none (map dec (X (keys ! i))) else VList (map VDict (map dec (X (keys ! i)))))
        [0..<length ds] = map (\<lambda>k. if one then first_or_none (map dec (X k)) else VList (map VDict (map dec (X k)))) keys"
      by (rule map_nth_upt_comp) (simp add: keys_def)
    ultimately show ?thesis by (simp add: extract_execute_def)
  qed
  have w: "widened sv params [] r = r" for params r by (simp add: widened_def)
  have kk: "map_res (\<lambda>k. normalize_lookup_key k (is_composite sl)) ([keys] ! 0) = Inr keys"
    using map_res_Inr [of keys "\<lambda>k. normalize_lookup_key k (is_composite sl)" id]
    by (simp add: is_composite_def m normalize_lookup_key_def)
  have host: "where_params ct context source_values (sl_custom sl) = Inr []" by (simp add: where_params_def flat(2))
  have lens: "length keys = length ds" by (simp add: keys_def)
  note entries = select_entries [OF tab D(3) [unfolded same] kk lens kok [folded m] host, of dec]
  have sel: "settle ((if one then select_single_execute else select_execute) (answer sv) ct sl context source_values
      (length ds) [keys])
    = Inr (map (\<lambda>k. if one then first_or_none (map dec (X k)) else VList (map VDict (map dec (X k)))) keys)"
  proof (cases one)
    case True
    have "settle (select_single_execute (answer sv) ct sl context source_values (length ds) [keys])
      = Inr (map (\<lambda>k. first_or_none (map dec (X k))) keys)"
      unfolding select_single_execute_def
      using entries [of scatter_single first_or_none VNone] dec D(4) same flat(1) lens m
      by (simp add: w X_def scatter_single_eq comp_def) (simp add: first_or_none_def)
    with True show ?thesis by simp
  next
    case False
    have "settle (select_execute (answer sv) ct sl context source_values (length ds) [keys])
      = Inr (map (\<lambda>k. VList (map VDict (map dec (X k)))) keys)"
      unfolding select_execute_def
      using entries [of scatter_many "\<lambda>rows. VList (map VDict rows)" "VList []"] dec D(4) same flat(1) lens m
      by (simp add: w X_def scatter_many_eq comp_def)
    with False show ?thesis by simp
  qed
  show ?thesis unfolding access bind_res_simps sel by (simp add: spec ex)
qed

end
