(* ===== verification/Inline_Properties.thy ===== *)
theory Inline_Properties
  imports Pg_Inline_Laws Connection_Properties
begin

text \<open>
  The correctness properties of relation inlining, with an instance on authors and their books.
\<close>

section \<open>The rows of a parent that absorbed its children\<close>

lemma map_of_lateral:
  assumes "spec \<in> set specs" and "distinct (map in_alias specs)"
  shows "map_of (map (\<lambda>spec. lateral_value sv params q (build_lateral spec)) specs) (in_alias spec)
    = Some (snd (lateral_value sv params q (build_lateral spec)))"
proof (rule map_of_is_SomeI)
  have fst: "fst (lateral_value sv params q (build_lateral spec)) = in_alias spec" for spec
    by (simp add: lateral_value_def build_lateral_def)
  with assms(2) show "distinct (map fst (map (\<lambda>spec. lateral_value sv params q (build_lateral spec)) specs))"
    by (simp add: comp_def)
  have "(in_alias spec, snd (lateral_value sv params q (build_lateral spec))) = lateral_value sv params q (build_lateral spec)"
    using fst [of spec] by (metis prod.collapse)
  with assms(1) show "(in_alias spec, snd (lateral_value sv params q (build_lateral spec)))
      \<in> set (map (\<lambda>spec. lateral_value sv params q (build_lateral spec)) specs)" by simp
qed

lemma parent_carries:
  assumes tab: "table_ok sv prs cols" and q: "q \<in> set (sv_tables sv (rs_schema prs, rs_table prs))"
    and specs: "spec \<in> set specs" "distinct (map in_alias specs)" "in_alias spec \<notin> fst ` set (rs_attributes prs)"
    and d: "decode_row prs (widened sv params specs q) = Inr d"
    and k: "map_of d col = Some k" "key_cell sv q col k" "key_ok sv (in_resource spec) (in_remote spec) k"
  shows "carries_fold sv params spec col k q d"
proof -
  have ok: "resource_ok prs" using tab by (simp add: table_ok_def)
  have "set (map fst q) = fst ` set (rs_attributes prs)"
    using tab q columns_partition(1) [OF ok] by (simp add: table_ok_def)
  then have "map_of q (in_alias spec) = None" using specs(3) by (simp add: map_of_eq_None_iff)
  then have wide: "map_of (widened sv params specs q) (in_alias spec) = Some (snd (lateral_value sv params q (build_lateral spec)))"
    using map_of_lateral [OF specs(1,2)] by (simp add: widened_def map_add_def)
  have "map_of (rs_attributes prs) (in_alias spec) = None" using specs(3) by (simp add: map_of_eq_None_iff)
  with decode_row_cell [OF d ok wide]
  have "map_of d (in_alias spec) = Some (snd (lateral_value sv params q (build_lateral spec)))"
    by (auto simp: decode_value_def)
  with k show ?thesis by (simp add: carries_fold_def)
qed

text \<open>C13: folding a relation into its parent is not observable: read off the parent's rows, every entry gets
  exactly the child rows that the child's own batched statement gives for the key on the row.\<close>

theorem inlining_is_not_observable:
  assumes "inline_candidate_for p cl prs child access [col] used = Inr (Some spec)"
    and "relation_select (cl child) = Some (sl, one)" and "sl_inline sl = []" and "cz_binds (sl_custom sl) = []"
    and "table_ok sv prs pcols" and "table_ok sv (sl_resource sl) (sl_match sl)" and "json_faithful sv (sl_resource sl)"
    and "spec \<in> set specs" and "distinct (map in_alias specs)" and "in_alias spec \<notin> fst ` set (rs_attributes prs)"
    and "\<And>r. r \<in> set (sv_tables sv (rs_schema (sl_resource sl), rs_table (sl_resource sl)))
      \<Longrightarrow> decode_row (sl_resource sl) r = Inr (dec r)"
    and "list_all2 (\<lambda>q d. q \<in> set (sv_tables sv (rs_schema prs, rs_table prs))
        \<and> decode_row prs (widened sv params specs q) = Inr d
        \<and> (\<exists>k. map_of d col = Some k \<and> key_cell sv q col k \<and> key_ok sv (in_resource spec) (in_remote spec) k)) qs ds"
  shows "settle (extract_execute (in_alias spec) (in_resource spec) (in_kind spec) (length ds) [map VDict ds])
    = bind_res (settle (access_execute [SKey col] VNone (length ds) [map VDict ds])) (\<lambda>keys.
        settle ((if one then select_single_execute else select_execute) (answer sv) ct sl context source_values
          (length ds) [keys]))"
proof (rule folded_child [OF assms(1-4,6,7)])
  show "list_all2 (\<lambda>(q, k) d. carries_fold sv params spec col k q d) (zip qs (map (\<lambda>d. the (map_of d col)) ds)) ds"
  proof (rule list_all2_all_nthI)
    show "length (zip qs (map (\<lambda>d. the (map_of d col)) ds)) = length ds" using list_all2_lengthD [OF assms(12)] by simp
  next
    fix i assume i: "i < length (zip qs (map (\<lambda>d. the (map_of d col)) ds))"
    with list_all2_nthD [OF assms(12), of i] parent_carries [OF assms(5) _ assms(8-10)]
    show "(case zip qs (map (\<lambda>d. the (map_of d col)) ds) ! i of (q, k) \<Rightarrow> \<lambda>d. carries_fold sv params spec col k q d) (ds ! i)"
      by (auto simp: list_all2_lengthD [OF assms(12)])
  qed
qed (fact assms(11))

section \<open>An instance: the books of the authors\<close>

definition int_column :: "string \<Rightarrow> pg_column" where
  "int_column n = (plain_column n)\<lparr>pc_sql_type := Some \<lparr>te_class = Integer_Class, te_name = ''int4''\<rparr>\<rparr>"

definition typed_books :: pg_resource where
  "typed_books = books\<lparr>rs_attributes := [(''id'', int_column ''id''), (''author'', int_column ''author'')]\<rparr>"

definition authors :: pg_resource where
  "authors = books\<lparr>rs_name := ''authors'', rs_table := ''authors'', rs_attributes := [(''id'', int_column ''id'')]\<rparr>"

definition library :: "pg_value server" where
  "library = books_server\<lparr>sv_tables := \<lambda>t. if t = (''public'', ''books'') then [book 3 1, book 2 2, book 1 1, book 4 1]
     else if t = (''public'', ''authors'') then [[(''id'', VInt 1)], [(''id'', VInt 9)]] else []\<rparr>"

definition books_of :: "unit pg_select" where
  "books_of = books_select\<lparr>sl_resource := typed_books\<rparr>"

text \<open>Step 0 is the select of the authors, step 1 the access to their key, step 2 the select of the books.\<close>

definition library_classes :: "unit classes" where
  "library_classes r = (if r = 1 then Access_Of [''id''] VNone else if r = 2 then Select_Of books_of else Plain_Of)"

definition library_plan :: plan where
  "library_plan = new_plan (map (\<lambda>ds. (pg_object (\<lambda>c. ([], [])) (Plain_Of :: unit step_class))\<lparr>deps := ds\<rparr>) [[], [0], [1]])"

definition books_spec :: inline_spec where
  "books_spec = \<lparr>in_resource = typed_books, in_kind = Has_Many, in_alias = ''__inline_books_author'', in_local = [''id''],
     in_remote = [''author''], in_order = [ascending ''id''], in_where = [], in_computed = []\<rparr>"

lemma int_columns: "\<not> is_computed (int_column n)" "pc_name (int_column n) = n" "to_py (int_column n) = None"
    "pc_codec (int_column n) = None"
  by (simp_all add: int_column_def plain_column_def as_column_def is_computed_def to_py_def)

lemma typed_fields:
  "rs_attributes typed_books = [(''id'', int_column ''id''), (''author'', int_column ''author'')]"
  "rs_schema typed_books = ''public''" "rs_table typed_books = ''books''" "rs_customizer_arity typed_books = None"
  "\<not> rs_opt_out_inline typed_books" "stored_columns typed_books = [''id'', ''author'']" "computed_columns typed_books = []"
  "computed_projections typed_books = []" "\<not> has_decoders typed_books" "resource_ok typed_books"
  "rs_attributes authors = [(''id'', int_column ''id'')]" "rs_schema authors = ''public''" "rs_table authors = ''authors''"
  "stored_columns authors = [''id'']" "computed_columns authors = []" "\<not> has_decoders authors" "resource_ok authors"
  by (simp_all add: typed_books_def authors_def books_def stored_columns_def computed_columns_def
      computed_projections_def has_decoders_def resource_ok_def int_columns)

lemma books_of_fields:
  "sl_resource books_of = typed_books" "sl_match books_of = [''author'']" "sl_order books_of = [ascending ''id'']"
  "sl_inline books_of = []" "sl_where books_of = []" "cz_binds (sl_custom books_of) = []" "\<not> is_limited books_of"
  "\<not> is_composite books_of"
  by (simp_all add: books_of_def books_select_fields is_limited_def is_composite_def)

lemma typed_safe: "is_inline_json_safe typed_books"
  by (simp add: is_inline_json_safe_def attribute_inline_json_safe_def typed_fields int_columns)
    (simp add: int_column_def is_json_stable_native_type_def)

lemma books_candidate:
  "inline_candidate_for library_plan library_classes authors 2 1 [''id''] {} = Inr (Some books_spec)"
  by (simp add: inline_candidate_for_def library_classes_def books_of_fields typed_fields typed_safe library_plan_def
      new_plan_def deps_of_def obj_def pg_object_def books_spec_def Let_def ascending_def int_columns
      fresh_alias_def nested_alias_for_def)

lemma library_rows: "sv_tables library (''public'', ''books'') = [book 3 1, book 2 2, book 1 1, book 4 1]"
    "sv_tables library (''public'', ''authors'') = [[(''id'', VInt 1)], [(''id'', VInt 9)]]"
    "sv_db library = small_db" "sv_view library = view_row" "sv_json library t c v = v"
  by (simp_all add: library_def books_server_def)

lemma library_tables: "table_ok library typed_books [''author'']" "table_ok library authors [''id'']"
    "json_faithful library typed_books"
  by (auto simp: table_ok_def typed_fields library_rows books_cells json_faithful_def)

lemma library_key: "key_ok library typed_books [''author''] (VInt a)"
  unfolding key_ok_def typed_fields library_rows
  by (simp add: match_predicate_def key_parts_def bindable_def parts_match_def has_key_def grouping_key_def
      row_get_def books_cells small_db_def)

text \<open>The rows of the two authors with the folded column.\<close>

definition author_row :: "int \<Rightarrow> row" where
  "author_row a = widened library [] [books_spec] [(''id'', VInt a)]"

lemma inlining_is_not_observable_witness:
  "settle (extract_execute ''__inline_books_author'' typed_books Has_Many 2 [map VDict [author_row 1, author_row 9]])
    = bind_res (settle (access_execute [SKey ''id''] VNone 2 [map VDict [author_row 1, author_row 9]])) (\<lambda>keys.
        settle (select_execute (answer library) (\<lambda>f. Inr) books_of VNone [] 2 [keys]))"
proof -
  let ?ds = "[author_row 1, author_row 9]" and ?qs = "[[(''id'', VInt 1)], [(''id'', VInt 9)]]"
  have cls: "relation_select (library_classes 2) = Some (books_of, False)" by (simp add: library_classes_def)
  have dec: "decode_row (sl_resource books_of) r = Inr (id r)" for r
    by (simp add: decode_row_def books_of_fields typed_fields)
  have cell: "key_cell library [(''id'', VInt a)] ''id'' (VInt a)" for a
    by (simp add: key_cell_def library_rows small_db_def view_row_def)
  have "list_all2 (\<lambda>q d. q \<in> set (sv_tables library (rs_schema authors, rs_table authors))
        \<and> decode_row authors (widened library [] [books_spec] q) = Inr d
        \<and> (\<exists>k. map_of d ''id'' = Some k \<and> key_cell library q ''id'' k
            \<and> key_ok library (in_resource books_spec) (in_remote books_spec) k)) ?qs ?ds"
    using cell library_key
    by (simp add: decode_row_def typed_fields library_rows author_row_def widened_def books_spec_def)
  from inlining_is_not_observable [OF books_candidate cls _ _ library_tables(2) _ _ _ _ _ dec this, of "\<lambda>f. Inr" VNone "[]"]
  have "settle (extract_execute (in_alias books_spec) (in_resource books_spec) (in_kind books_spec) (length ?ds) [map VDict ?ds])
    = bind_res (settle (access_execute [SKey ''id''] VNone (length ?ds) [map VDict ?ds])) (\<lambda>keys.
        settle ((if False then select_single_execute else select_execute) (answer library) (\<lambda>f. Inr) books_of VNone []
          (length ?ds) [keys]))"
    using library_tables by (simp add: books_of_fields typed_fields books_spec_def)
  then show ?thesis by (simp add: books_spec_def numeral_2_eq_2)
qed

section \<open>The names of the folds\<close>

text \<open>The suffix that is to keep two folds apart counts the names in use, and can give one of them.\<close>

lemma fold_names_collide:
  "let a = nested_alias_for books [''author'']; b = nested_alias_for books [''author_2'']
   in fresh_alias a {a, b} = b \<and> fresh_alias b {a} = b"
  by (simp add: nested_alias_for_def fresh_alias_def books_def Let_def numeral_2_eq_2 [symmetric])
    (simp add: show_nat.simps digit_char_def char_of_def bit_0)

end
