(* ===== verification/Inline_Hook.thy ===== *)
theory Inline_Hook
  imports Pg_Inline Dag_Optimize
begin

text \<open>
  The optimize hook of the selects (\<open>select_optimize\<close>, the fold of \<open>pg/inline.py\<close>) keeps the contract
  \<open>Plan.optimize\<close> asks of a hook, so that a plan of selects is finalized.
\<close>

section \<open>The inliner keeps the contract of a hook\<close>

lemma new_pg_step_alloc:
  "new_pg_step ident c dep (p, cl) =
     (length (p_heap p),
      alloc p ((pg_object ident c)\<lparr>deps := [dep]\<rparr>), cl(length (p_heap p) := c))"
proof -
  have "pg_object ident c\<lparr>deps := [dep], unary := False\<rparr> = (pg_object ident c)\<lparr>deps := [dep]\<rparr>"
    by (simp add: pg_object_def)
  moreover have "deps (pg_object ident c) = []" by (simp add: pg_object_def)
  ultimately show ?thesis
    by (simp add: new_pg_step_def alloc_def add_dependency_def Let_def obj_def nth_append)
qed


text \<open>Children are consumers of consumers of the parent, each found once: a candidate's first dependency is the
  access it was found through.\<close>

lemma candidate_access: "inline_candidate_for p cl rs child access path used = Inr (Some spec) \<Longrightarrow> deps_of (p_heap p) child ! 0 = access"
  by (auto simp: inline_candidate_for_def Let_def split: option.splits prod.splits if_splits)

lemma candidates_of_found:
  assumes "candidates_of p cl rs access path cs acc = Inr out" and "distinct cs"
  shows "\<exists>more. out = acc @ more \<and> distinct (map fst more)
    \<and> (\<forall>c \<in> fst ` set more. c \<in> set cs \<and> deps_of (p_heap p) c ! 0 = access)"
  using assms
proof (induction cs arbitrary: acc)
  case (Cons c cs)
  then obtain spec where spec: "inline_candidate_for p cl rs c access path ((\<lambda>c. in_alias (snd c)) ` set acc) = Inr spec"
    and rest: "candidates_of p cl rs access path cs (case spec of None \<Rightarrow> acc | Some s \<Rightarrow> acc @ [(c, s)]) = Inr out"
    by (auto simp: bind_res_Inr_iff)
  from Cons.IH [OF rest] Cons.prems(2) obtain more where
    more: "out = (case spec of None \<Rightarrow> acc | Some s \<Rightarrow> acc @ [(c, s)]) @ more" "distinct (map fst more)"
      "\<forall>c \<in> fst ` set more. c \<in> set cs \<and> deps_of (p_heap p) c ! 0 = access" by auto
  show ?case
  proof (cases spec)
    case None
    with more show ?thesis by auto
  next
    case (Some sp)
    have "c \<notin> fst ` set more" using more(3) Cons.prems(2) by auto
    with more Some candidate_access [of p cl rs c access path _ sp] spec show ?thesis
      by (intro exI [of _ "(c, sp) # more"]) auto
  qed
qed simp

lemma candidates_over_found:
  assumes "candidates_over p cl rs accesses acc = Inr out" and "distinct accesses"
    and "\<forall>a \<in> set accesses. distinct (dependents_of p a)"
    and "distinct (map fst acc)" and "\<forall>c \<in> fst ` set acc. deps_of (p_heap p) c ! 0 \<notin> set accesses"
  shows "distinct (map fst out)
    \<and> (\<forall>c \<in> fst ` set out. c \<in> fst ` set acc \<or> (\<exists>a \<in> set accesses. c \<in> set (dependents_of p a)))"
  using assms
proof (induction accesses arbitrary: acc)
  case (Cons a accesses)
  obtain acc' where acc': "(case access_column_path (cl a) of None \<Rightarrow> Inr acc
       | Some path \<Rightarrow> candidates_of p cl rs a path (dependents_of p a) acc) = Inr acc'"
    and rest: "candidates_over p cl rs accesses acc' = Inr out"
    using Cons.prems(1) by (auto simp: bind_res_Inr_iff)
  obtain more where more: "acc' = acc @ more" "distinct (map fst more)"
    "\<forall>c \<in> fst ` set more. c \<in> set (dependents_of p a) \<and> deps_of (p_heap p) c ! 0 = a"
  proof (cases "access_column_path (cl a)")
    case (Some path)
    with acc' have "candidates_of p cl rs a path (dependents_of p a) acc = Inr acc'" by simp
    from candidates_of_found [OF this] Cons.prems(3) that show thesis by auto
  qed (use acc' that [of "[]"] in simp)
  have "distinct (map fst acc')" using more Cons.prems(4,5) by fastforce
  moreover have "\<forall>c \<in> fst ` set acc'. deps_of (p_heap p) c ! 0 \<notin> set accesses"
    using more Cons.prems(2,5) by fastforce
  ultimately have out: "distinct (map fst out)"
      "\<forall>c \<in> fst ` set out. c \<in> fst ` set acc' \<or> (\<exists>a \<in> set accesses. c \<in> set (dependents_of p a))"
    using Cons.IH [OF rest] Cons.prems(2,3) by simp_all
  have "c \<in> fst ` set acc \<or> (\<exists>b \<in> set (a # accesses). c \<in> set (dependents_of p b))" if "c \<in> fst ` set out" for c
  proof (cases "c \<in> fst ` set acc'")
    case True
    then have "c \<in> fst ` set acc \<or> c \<in> fst ` set more" unfolding more(1) by auto
    then show ?thesis using more(3) by auto
  next
    case False
    with out(2) that show ?thesis by auto
  qed
  with out(1) show ?case by blast
qed simp

lemma inline_candidates_found:
  assumes inv: "plan_inv p" and r: "r \<in> set (live p)" and found: "inline_candidates p cl r = Inr candidates"
  shows "distinct (map fst candidates)
    \<and> (\<forall>c \<in> fst ` set candidates. c \<in> set (live p) \<and> (\<exists>a. a \<in> set (deps_of (p_heap p) c) \<and> r \<in> set (deps_of (p_heap p) a)))"
proof -
  have "candidates = [] \<or> (\<exists>rs. candidates_over p cl rs (dependents_of p r) [] = Inr candidates)"
    using found by (auto simp: inline_candidates_def find_inline_candidates_def split: option.splits if_splits)
  then show ?thesis
  proof
    assume "\<exists>rs. candidates_over p cl rs (dependents_of p r) [] = Inr candidates"
    then obtain rs where over: "candidates_over p cl rs (dependents_of p r) [] = Inr candidates" by blast
    note deps = dependents_exact [OF inv]
    have "distinct (map fst candidates)
      \<and> (\<forall>c \<in> fst ` set candidates. c \<in> fst ` set ([] :: (ref \<times> inline_spec) list)
          \<or> (\<exists>a \<in> set (dependents_of p r). c \<in> set (dependents_of p a)))"
      by (rule candidates_over_found [OF over]) (use deps [OF r] deps in auto)
    with deps [OF r] deps show ?thesis by fastforce
  qed simp
qed

text \<open>One allocation and registration on an island.\<close>

definition stage :: "plan \<Rightarrow> plan \<Rightarrow> ref set \<Rightarrow> bool" where
  "stage p s U \<longleftrightarrow> island s U \<and> extends p s \<and> set (live p) \<subseteq> set (live s)
     \<and> length (p_heap p) \<le> length (p_heap s)"

lemma stage_add:
  assumes st: "stage p s U" and c: "sid c = -1" "deps c = [d]" and d: "d \<in> U"
    and add: "add_step depth (alloc s c) (length (p_heap s)) = Inr t" and "0 < depth"
  shows "stage p t (insert (length (p_heap s)) U)" and "p_side_replacements t = p_side_replacements s"
proof -
  let ?n = "length (p_heap s)" and ?a = "alloc s c"
  have I: "reg_inv s" "U \<subseteq> set (live s)" "\<And>x. x \<in> U \<Longrightarrow> set (deps_of (p_heap s) x) \<subseteq> U"
    using st by (auto simp: stage_def island_def)
  note inv = reg_invD(1) [OF I(1)]
  have lt: "x < ?n" if "x \<in> set (live s)" for x using that plan_invD(2) [OF inv] by (auto simp: set_live)
  have reg: "reg_inv ?a" using alloc_reg [OF I(1) c(1)] c(2) d I(2) lt by auto
  have live: "live ?a = live s" by (rule alloc_live [OF I(1)])
  have deps: "deps_of (p_heap ?a) x = (if x = ?n then [d] else deps_of (p_heap s) x)" for x by (simp add: alloc_deps c(2))
  have reach: "reach (p_heap ?a) (\<lambda>r. False) {?n} \<subseteq> insert ?n U"
  proof
    fix x assume "x \<in> reach (p_heap ?a) (\<lambda>r. False) {?n}"
    then show "x \<in> insert ?n U" by (rule reach_closed) (use I(3) d deps in \<open>auto split: if_splits\<close>)
  qed
  have new: "?n \<notin> p_seen s" using plan_invD(2) [OF inv] reg_invD(2) [OF I(1)] by fastforce
  obtain rank where "ranked (p_heap ?a) rank"
    using plan_invD(8) [OF reg_invD(1) [OF reg]] by (auto simp: acyclic_heap_def)
  define rank' where "rank' x = (if x = ?n then 0 else rank x)" for x
  have "x = ?n" if "?n \<in> set (deps_of (p_heap s) x)" for x
    using that reg_invD(3) [OF I(1)] by (auto simp: closed_heap_def)
  moreover have "d \<in> p_seen s" using d I(2) reg_invD(2) [OF I(1)] by (auto simp: set_live)
  ultimately have "fresh_rank ?a rank'"
    using rankedD [OF \<open>ranked (p_heap ?a) rank\<close>] unfolding fresh_rank_def deps rank'_def by fastforce
  moreover have "registrable ?a [?n]"
    using reach I(2) new live by (auto simp: registrable_def)
  ultimately obtain q where "register_all depth ?a [?n] = Inr q" "registered_live ?a [?n] q"
    using register_all_live [OF reg, of "[?n]" rank' depth] assms(6) by (auto simp: rank'_def)
  with add have q: "registered_live ?a [?n] t" by (simp add: add_step_def)
  note Q = q [unfolded registered_live_def]
  have isle: "island t (insert ?n U)"
    using Q I(2,3) d live deps unfolding island_def by auto
  have "step_id t x = step_id s x" if "x \<in> set (p_steps s)" for x
    using Q that alloc_step_id(1) plan_invD(2) [OF inv that] by simp
  moreover have "set (p_steps s) \<subseteq> set (p_steps t)" using Q by (intro set_mono_prefix) simp
  ultimately have "extends p t" using st Q by (auto simp: stage_def extends_def)
  then show "stage p t (insert ?n U)"
    using isle st Q live by (auto simp: stage_def)
  show "p_side_replacements t = p_side_replacements s" using Q by simp
qed

lemma record_stage: "stage p (record_replacement s old new) U = stage p s U"
proof -
  have "record_replacement s old new = s\<lparr>p_side_replacements := p_side_replacements s @ [(old, new)]\<rparr>"
    by (simp add: record_replacement_def)
  then show ?thesis by (simp add: stage_def island_def extends_def)
qed

lemma fold_children_stage:
  assumes "fold_children depth ident clone es (s, cl) = Inr (t, cl')" and "stage p s U" and "clone \<in> U"
    and "0 < depth" and "snd ` set (p_side_replacements s) \<subseteq> U" and "U \<subseteq> W \<union> {length (p_heap p)..}"
  shows "\<exists>V. stage p t V \<and> U \<subseteq> V \<and> V \<subseteq> W \<union> {length (p_heap p)..} \<and> snd ` set (p_side_replacements t) \<subseteq> V
    \<and> map fst (p_side_replacements t) = map fst (p_side_replacements s) @ map fst es"
  using assms(1-3,5,6)
proof (induction es arbitrary: s cl U)
  case Nil
  then show ?case by auto
next
  case (Cons e es)
  obtain child spec where e: "e = (child, spec)" by (cases e)
  let ?n = "length (p_heap s)"
  let ?c = "(pg_object ident (Extract_Of (in_alias spec) (in_resource spec) (in_kind spec)))\<lparr>deps := [clone]\<rparr>"
  obtain s1 cl1 where s1: "add_step depth (alloc s ?c) ?n = Inr s1"
    and rest: "fold_children depth ident clone es (record_replacement s1 child ?n, cl1) = Inr (t, cl')"
    using Cons.prems(1) e by (auto simp: new_pg_step_alloc bind_res_Inr_iff)
  have st: "stage p s1 (insert ?n U)" "p_side_replacements s1 = p_side_replacements s"
    using stage_add [OF Cons.prems(2) _ _ Cons.prems(3) s1 assms(4)] by (simp_all add: pg_object_def)
  let ?s2 = "record_replacement s1 child ?n"
  have side: "p_side_replacements ?s2 = p_side_replacements s @ [(child, ?n)]"
    by (simp add: record_replacement_def st(2))
  have "length (p_heap p) \<le> ?n" using Cons.prems(2) by (simp add: stage_def)
  then have W: "insert ?n U \<subseteq> W \<union> {length (p_heap p)..}" using Cons.prems(5) by auto
  have snds: "snd ` set (p_side_replacements ?s2) \<subseteq> insert ?n U" using side Cons.prems(4) by auto
  have "stage p ?s2 (insert ?n U)" using st(1) by (simp add: record_stage)
  from Cons.IH [OF rest this _ snds W] Cons.prems(3) obtain V where
    "stage p t V" "insert ?n U \<subseteq> V" "V \<subseteq> W \<union> {length (p_heap p)..}" "snd ` set (p_side_replacements t) \<subseteq> V"
    "map fst (p_side_replacements t) = map fst (p_side_replacements ?s2) @ map fst es" by blast
  then show ?case using side e by (intro exI [of _ V]) auto
qed

text \<open>The optimize hook of the selects keeps the contract: its clone and the steps that read the folded children
  hang on what the parent itself hangs on.\<close>

lemma select_optimize_ok:
  assumes inv: "reg_inv p" and side: "p_side_replacements p = []" and r: "r \<in> set (live p)" and depth: "0 < depth"
    and deps: "deps_of (p_heap p) r \<noteq> []" and hook: "select_optimize depth ident r (p, cl) = Inr (new, q, cl')"
  shows "call_ok depth p r q new"
proof -
  obtain candidates where found: "inline_candidates p cl r = Inr candidates"
    and go: "(if candidates = [] then Inr (r, p, cl) else fold_inline_candidates depth ident r candidates (p, cl)) = Inr (new, q, cl')"
    using hook by (auto simp: select_optimize_def bind_res_Inr_iff)
  show ?thesis
  proof (cases "candidates = []")
    case True
    with go show ?thesis using inv side by (auto simp: call_ok_def extends_def)
  next
    case False
    note plan = reg_invD(1) [OF inv]
    let ?n = "length (p_heap p)" and ?d = "deps_of (p_heap p) r ! 0"
    let ?c = "(pg_object ident (with_specs (map snd candidates) (cl r)))\<lparr>deps := [?d]\<rparr>"
    define R where "R = reach (p_heap p) (\<lambda>r. False) {?d}"
    have d: "?d \<in> set (deps_of (p_heap p) r)" using deps by simp
    obtain p1 cl1 where p1: "add_step depth (alloc p ?c) ?n = Inr p1"
      and rest: "fold_children depth ident ?n candidates (p1, cl1) = Inr (q, cl')" and new: "new = ?n"
      using go False by (auto simp: fold_inline_candidates_def clone_with_inline_specs_def new_pg_step_alloc bind_res_Inr_iff)
    have "R \<subseteq> set (live p)"
    proof
      fix x assume "x \<in> R"
      then show "x \<in> set (live p)" unfolding R_def
        by (rule reach_closed) (use d r plan_invD(6) [OF plan] in blast)+
    qed
    then have "stage p p R" using inv by (auto simp: stage_def island_def extends_def R_def intro: reach_dep)
    from stage_add [OF this _ _ _ p1 depth, of ?d] have st: "stage p p1 (insert ?n R)" "p_side_replacements p1 = []"
      using side by (simp_all add: pg_object_def R_def reach_target)
    obtain V where V: "stage p q V" "insert ?n R \<subseteq> V" "V \<subseteq> R \<union> {?n..}" "snd ` set (p_side_replacements q) \<subseteq> V"
      "map fst (p_side_replacements q) = map fst candidates"
      using fold_children_stage [OF rest st(1) _ depth, of R] st(2) by auto
    obtain rank where "ranked (p_heap p) rank" using plan_invD(8) [OF plan] by (auto simp: acyclic_heap_def)
    note rank = rankedD [OF this] and low = reach_rank [OF this]
    have R_low: "rank x < rank r" if "x \<in> R" for x
      using low [of x "\<lambda>r. False" "{?d}"] that rank [OF d] by (auto simp: R_def)
    have child: "distinct (map fst candidates)" "c \<in> set (live p) \<and> rank r < rank c" if "c \<in> fst ` set candidates" for c
      using inline_candidates_found [OF plan r found] that rank by (meson order.strict_trans)+
    have small: "x < ?n" if "x \<in> set (live p)" for x using that plan_invD(2) [OF plan] by (auto simp: set_live)
    have out: "x \<in> set (live q) - V" if "x \<in> set (live p)" "rank r \<le> rank x" for x
      using that V(1,3) R_low small [OF that(1)] by (force simp: stage_def)
    have fsts: "fst ` set (p_side_replacements q) = fst ` set candidates" using V(5) by (metis list.set_map)
    have "drains_ok depth (\<lambda>s. new \<noteq> r \<longrightarrow> replaceable depth s r new) q (p_side_replacements q)"
    proof (rule drains_island [of q V _ depth r])
      show "island q V" using V(1) by (simp add: stage_def)
      show "distinct (map fst (p_side_replacements q))" using inline_candidates_found [OF plan r found] V(5) by simp
      show "fst ` set (p_side_replacements q) \<subseteq> set (live q) - V" using fsts child(2) out by (auto dest: less_imp_le)
      show "r \<in> set (live q) - V - fst ` set (p_side_replacements q)" using fsts child(2) out [OF r] by auto
      fix s assume "island s V" "r \<in> set (live s) - V"
      then show "new \<noteq> r \<longrightarrow> replaceable depth s r new"
        using island_replaceable [of s V new r depth] V(2) depth new by auto
    qed (use V(4) depth in auto)
    then show ?thesis using V(1) by (simp add: call_ok_def stage_def island_def)
  qed
qed

end
