(* ===== verification/Pg_Mutation.thy ===== *)
theory Pg_Mutation
  imports Pg_Database
begin

text \<open>
  The single-row writes (\<open>src/src/grafast_py/pg/mutations.py\<close>): insert, update and delete steps, the
  statements they build with every value as a parameter, and what a PostgreSQL server does with them. The
  tables are the state; every statement commits before the next entry's is built.
\<close>

section \<open>The steps\<close>

text \<open>A value comes from the mutation's literal arguments or from a step.\<close>

type_synonym value_source = "pyval + nat"

datatype write_op = Insert_Op | Update_Op value_source | Delete_Op value_source

text \<open>\<open>pw_deps\<close> are the steps depended on; a column's dependency index points into them. In \<open>pw_op\<close> the
  primary key's source is a literal or its dependency index.\<close>

record pg_write =
  pw_resource :: pg_resource
  pw_deps :: "nat list"
  pw_dep_index :: "(string \<times> nat) list"
  pw_literals :: row
  pw_op :: write_op

fun add_sources :: "(string \<times> value_source) list \<Rightarrow> pg_write \<Rightarrow> pg_write" where
  "add_sources [] w = w"
| "add_sources ((name, Inl v) # sources) w =
     add_sources sources (w\<lparr>pw_literals := dict_set (pw_literals w) name v\<rparr>)"
| "add_sources ((name, Inr step) # sources) w =
     add_sources sources (w\<lparr>pw_dep_index := dict_set (pw_dep_index w) name (length (pw_deps w)), pw_deps := pw_deps w @ [step]\<rparr>)"

definition new_write :: "pg_resource \<Rightarrow> (string \<times> value_source) list \<Rightarrow> pg_write" where
  "new_write rs sources =
     add_sources sources \<lparr>pw_resource = rs, pw_deps = [], pw_dep_index = [], pw_literals = [], pw_op = Insert_Op\<rparr>"

text \<open>The key of an update or delete, wired after the values.\<close>

definition with_key :: "(value_source \<Rightarrow> write_op) \<Rightarrow> value_source \<Rightarrow> pg_write \<Rightarrow> pg_write" where
  "with_key op pk w =
     (case pk of
        Inl v \<Rightarrow> w\<lparr>pw_op := op (Inl v)\<rparr>
      | Inr step \<Rightarrow> w\<lparr>pw_op := op (Inr (length (pw_deps w))), pw_deps := pw_deps w @ [step]\<rparr>)"

definition pg_insert_single :: "pg_resource \<Rightarrow> (string \<times> value_source) list \<Rightarrow> pg_write" where
  "pg_insert_single rs sources = new_write rs sources"

definition pg_update_single :: "pg_resource \<Rightarrow> value_source \<Rightarrow> (string \<times> value_source) list \<Rightarrow> pg_write" where
  "pg_update_single rs pk sources = with_key Update_Op pk (new_write rs sources)"

definition pg_delete_single :: "pg_resource \<Rightarrow> value_source \<Rightarrow> pg_write" where
  "pg_delete_single rs pk = with_key Delete_Op pk (new_write rs [])"

definition write_peer_key :: "pg_write \<Rightarrow> string" where
  "write_peer_key w =
     (case pw_op w of
        Insert_Op \<Rightarrow> ''pg_insert_single|'' | Update_Op k \<Rightarrow> ''pg_update_single|'' | Delete_Op k \<Rightarrow> ''pg_delete_single|'')
     @ qualified_table (pw_resource w)"

section \<open>The values of an entry\<close>

definition encode_column :: "pg_resource \<Rightarrow> string \<Rightarrow> pyval \<Rightarrow> pyval res" where
  "encode_column rs name v =
     (case map_of (rs_attributes rs) name of
        None \<Rightarrow> Inr v
      | Some a \<Rightarrow>
          (case (case pc_codec a of None \<Rightarrow> None | Some c \<Rightarrow> co_to_pg c) of
             Some f \<Rightarrow> (if v \<noteq> VNone then f v else Inr v)
           | None \<Rightarrow> Inr v))"

fun required_missing :: "pg_resource \<Rightarrow> string set \<Rightarrow> (string \<times> pg_column) list \<Rightarrow> string option" where
  "required_missing rs provided [] = None"
| "required_missing rs provided ((name, a) # attributes) =
     (if is_computed a \<or> name = rs_primary_key rs then required_missing rs provided attributes
      else if pc_not_null a \<and> \<not> pc_has_default a \<and> name \<notin> provided then Some name
      else required_missing rs provided attributes)"

text \<open>An update leaves the columns it does not name, so only an insert checks.\<close>

definition assert_required_columns_present :: "pg_write \<Rightarrow> row \<Rightarrow> unit res" where
  "assert_required_columns_present w provided =
     (case pw_op w of
        Update_Op k \<Rightarrow> Inr ()
      | _ \<Rightarrow> (case required_missing (pw_resource w) (fst ` set provided) (rs_attributes (pw_resource w)) of
               None \<Rightarrow> Inr ()
             | Some name \<Rightarrow> Inl (ValueError (name @ '' is NOT NULL with no default''))))"

definition merged_values :: "pg_write \<Rightarrow> column list \<Rightarrow> nat \<Rightarrow> row" where
  "merged_values w vals i = dict_update (pw_literals w) (map (\<lambda>(name, j). (name, vals ! j ! i)) (pw_dep_index w))"

definition values_for_entry :: "pg_write \<Rightarrow> column list \<Rightarrow> nat \<Rightarrow> row res" where
  "values_for_entry w vals i =
     bind_res (map_res (\<lambda>(name, v). bind_res (encode_column (pw_resource w) name v) (\<lambda>u. Inr (name, u))) (merged_values w vals i))
       (\<lambda>encoded. bind_res (assert_required_columns_present w encoded) (\<lambda>_. Inr encoded))"

definition pk_for_entry :: "value_source \<Rightarrow> column list \<Rightarrow> nat \<Rightarrow> pyval" where
  "pk_for_entry pk vals i = (case pk of Inr j \<Rightarrow> vals ! j ! i | Inl v \<Rightarrow> v)"

section \<open>Statements\<close>

text \<open>A statement holds the names of its binds, never a value.\<close>

datatype write_statement =
    Insert_Stmt "string \<times> string" "(string \<times> string) list" "string list"
  | Update_Stmt "string \<times> string" "string \<times> string" "(string \<times> string) list" "string list"
  | Delete_Stmt "string \<times> string" "string \<times> string" "string list"

definition core_table :: "pg_resource \<Rightarrow> string \<times> string" where
  "core_table rs = (rs_schema rs, rs_table rs)"

definition bound :: "row \<Rightarrow> (string \<times> string) list" where
  "bound entry = map (\<lambda>(name, v). (name, name @ ''__v'')) entry"

definition bound_params :: "row \<Rightarrow> row" where
  "bound_params entry = map (\<lambda>(name, v). (name @ ''__v'', v)) entry"

definition key_column :: "pg_resource \<Rightarrow> string res" where
  "key_column rs =
     (if rs_primary_key rs \<in> set (stored_columns rs) then Inr (rs_primary_key rs) else Inl (KeyError (rs_primary_key rs)))"

definition build_statement :: "pg_write \<Rightarrow> column list \<Rightarrow> nat \<Rightarrow> (write_statement \<times> row) res" where
  "build_statement w vals i =
     (let rs = pw_resource w; ret = stored_columns rs in
      case pw_op w of
        Insert_Op \<Rightarrow>
          bind_res (values_for_entry w vals i) (\<lambda>entry.
            Inr (Insert_Stmt (core_table rs) (bound entry) ret, bound_params entry))
      | Update_Op pk \<Rightarrow>
          bind_res (values_for_entry w vals i) (\<lambda>entry.
            if entry = [] then Inl (ValueError ''pg_update_single requires at least one column to set'')
            else bind_res (key_column rs) (\<lambda>k.
              Inr (Update_Stmt (core_table rs) (k, ''pk'') (bound entry) ret,
                   dict_set (bound_params entry) ''pk'' (pk_for_entry pk vals i))))
      | Delete_Op pk \<Rightarrow>
          bind_res (key_column rs) (\<lambda>k.
            Inr (Delete_Stmt (core_table rs) (k, ''pk'') ret, [(''pk'', pk_for_entry pk vals i)])))"

section \<open>The server\<close>

type_synonym tables = "string \<times> string \<Rightarrow> row list"

text \<open>Per table and column: whether a bound value is accepted, the value it reads back as, the default of an
  omitted one (which may depend on the tables, as a sequence does), equality with a bound value; and the
  constraints of the whole.\<close>

record write_server =
  ws_columns :: "string \<times> string \<Rightarrow> string list"
  ws_accepts :: "string \<times> string \<Rightarrow> string \<Rightarrow> pyval \<Rightarrow> bool"
  ws_store :: "string \<times> string \<Rightarrow> string \<Rightarrow> pyval \<Rightarrow> pyval"
  ws_default :: "tables \<Rightarrow> string \<times> string \<Rightarrow> string \<Rightarrow> pyval"
  ws_equal :: "string \<times> string \<Rightarrow> string \<Rightarrow> pyval \<Rightarrow> pyval \<Rightarrow> bool"
  ws_check :: "tables \<Rightarrow> bool"

text \<open>A column the statement's table does not declare is refused by the compiler, one the database does not have
  by the server.\<close>

definition assigned :: "write_server \<Rightarrow> string \<times> string \<Rightarrow> string list \<Rightarrow> row \<Rightarrow> (string \<times> string) list \<Rightarrow> row res" where
  "assigned ws tab declared params binds =
     map_res (\<lambda>(c, b).
       if c \<notin> set declared then Inl (HostError ''CompileError'')
       else if c \<notin> set (ws_columns ws tab) then Inl (HostError ''ProgrammingError'')
       else (case map_of params b of
               None \<Rightarrow> Inl (HostError ''StatementError'')
             | Some v \<Rightarrow> (if ws_accepts ws tab c v then Inr (c, ws_store ws tab c v) else Inl (HostError ''DataError'')))) binds"

definition cell :: "row \<Rightarrow> string \<Rightarrow> pyval" where
  "cell r c = (case map_of r c of None \<Rightarrow> VNone | Some v \<Rightarrow> v)"

definition commit :: "write_server \<Rightarrow> string \<times> string \<Rightarrow> string list \<Rightarrow> row list \<Rightarrow> tables \<Rightarrow> (row list \<times> tables) res" where
  "commit ws tab ret touched T =
     (if \<not> set ret \<subseteq> set (ws_columns ws tab) then Inl (HostError ''ProgrammingError'')
      else if ws_check ws T then Inr (map (project ret) touched, T) else Inl (HostError ''IntegrityError''))"

definition set_columns :: "row \<Rightarrow> row \<Rightarrow> row" where
  "set_columns vs r = map (\<lambda>(c, v). (c, case map_of vs c of None \<Rightarrow> v | Some u \<Rightarrow> u)) r"

definition key_matches :: "write_server \<Rightarrow> string \<times> string \<Rightarrow> string \<Rightarrow> pyval \<Rightarrow> row \<Rightarrow> bool" where
  "key_matches ws tab pk k r = ws_equal ws tab pk (cell r pk) k"

fun perform :: "write_server \<Rightarrow> write_statement \<Rightarrow> row \<Rightarrow> tables \<Rightarrow> (row list \<times> tables) res" where
  "perform ws (Insert_Stmt tab binds ret) params T =
     bind_res (assigned ws tab ret params binds) (\<lambda>vs.
       let r = map (\<lambda>c. (c, case map_of vs c of None \<Rightarrow> ws_default ws T tab c | Some v \<Rightarrow> v)) (ws_columns ws tab)
       in commit ws tab ret [r] (T(tab := T tab @ [r])))"
| "perform ws (Update_Stmt tab (pk, b) binds ret) params T =
     bind_res (assigned ws tab ret params binds) (\<lambda>vs.
       let hit = key_matches ws tab pk (cell params b)
       in commit ws tab ret (map (set_columns vs) (filter hit (T tab)))
            (T(tab := map (\<lambda>r. if hit r then set_columns vs r else r) (T tab))))"
| "perform ws (Delete_Stmt tab (pk, b) ret) params T =
     (let hit = key_matches ws tab pk (cell params b)
      in commit ws tab ret (filter hit (T tab)) (T(tab := filter (\<lambda>r. \<not> hit r) (T tab))))"

section \<open>Executing a step\<close>

definition decode_returned :: "pg_resource \<Rightarrow> row list \<Rightarrow> pyval res" where
  "decode_returned rs rows =
     (case rows of [] \<Rightarrow> Inr VNone | r # _ \<Rightarrow> bind_res (decode_row rs r) (\<lambda>d. Inr (VDict d)))"

text \<open>The entries in turn, each committed on its own: what they give, and the tables afterwards. An error ends
  the bucket and leaves what was committed before it.\<close>

fun write_entries :: "write_server \<Rightarrow> pg_write \<Rightarrow> column list \<Rightarrow> nat list \<Rightarrow> tables \<Rightarrow> pyval list res \<times> tables" where
  "write_entries ws w vals [] T = (Inr [], T)"
| "write_entries ws w vals (i # is) T =
     (case bind_res (build_statement w vals i) (\<lambda>(stmt, params). perform ws stmt params T) of
        Inl e \<Rightarrow> (Inl e, T)
      | Inr (rows, T1) \<Rightarrow>
          (case decode_returned (pw_resource w) rows of
             Inl e \<Rightarrow> (Inl e, T1)
           | Inr out \<Rightarrow> (case write_entries ws w vals is T1 of
                            (r, T2) \<Rightarrow> (bind_res r (\<lambda>outs. Inr (out # outs)), T2))))"

definition write_execute :: "write_server \<Rightarrow> pg_write \<Rightarrow> nat \<Rightarrow> column list \<Rightarrow> tables \<Rightarrow> pyval list res \<times> tables" where
  "write_execute ws w count vals T = write_entries ws w vals [0..<count] T"

end
