(* ===== verification/Pg_Mutation_Laws.thy ===== *)
theory Pg_Mutation_Laws
  imports Pg_Mutation
begin

text \<open>
  The laws of the writes: no value reaches the text of a statement, an update or delete leaves every row
  under another key as it is, the entries of a bucket under different keys are independent, and a written
  row reads back as it was returned.
\<close>

section \<open>Statements do not depend on values\<close>

lemma map_res_names:
  "map_res (\<lambda>(name, v). bind_res (f name v) (\<lambda>u. Inr (name, u))) xs = Inr ys \<Longrightarrow> map fst ys = map fst xs"
  by (induction xs arbitrary: ys) (auto simp: res_iffs)

lemma dict_set_names: "map fst (dict_set d k v) = (if k \<in> fst ` set d then map fst d else map fst d @ [k])"
  by (induction d k v rule: dict_set.induct) auto

lemma dict_update_names: "map fst d = map fst d' \<Longrightarrow> map fst kvs = map fst kvs' \<Longrightarrow> map fst (dict_update d kvs) = map fst (dict_update d' kvs')"
proof (induction kvs arbitrary: d d' kvs')
  case Nil
  then show ?case by simp
next
  case (Cons kv kvs)
  then obtain kv' r where kvs': "kvs' = kv' # r" "fst kv' = fst kv" "map fst r = map fst kvs" by (cases kvs') auto
  have "fst ` set d = fst ` set d'" using Cons.prems(1) by (metis set_map)
  then have "map fst (dict_set d (fst kv) (snd kv)) = map fst (dict_set d' (fst kv') (snd kv'))"
    using Cons.prems(1) kvs'(2) by (simp add: dict_set_names)
  from Cons.IH [OF this, of r] show ?case using kvs' by (cases kv; cases kv') simp
qed

lemma values_for_entry_names:
  assumes "values_for_entry w vals i = Inr entry"
  shows "map fst entry = map fst (merged_values w vals i)"
proof -
  obtain e where "map_res (\<lambda>(name, v). bind_res (encode_column (pw_resource w) name v) (\<lambda>u. Inr (name, u))) (merged_values w vals i) = Inr e"
    "e = entry" using assms by (auto simp: values_for_entry_def res_iffs)
  then show ?thesis using map_res_names by blast
qed

lemma merged_names: "map fst (merged_values w vals i) = map fst (merged_values w vals' j)"
  unfolding merged_values_def by (rule dict_update_names) (simp_all add: comp_def case_prod_beta)

lemma bound_names: "bound e = map (\<lambda>n. (n, n @ ''__v'')) (map fst e)"
  by (simp add: bound_def case_prod_beta)

lemma build_statement_parts:
  assumes "build_statement w vals i = Inr (stmt, ps)"
  shows "case pw_op w of
      Insert_Op \<Rightarrow> (\<exists>e. values_for_entry w vals i = Inr e \<and> ps = bound_params e
        \<and> stmt = Insert_Stmt (core_table (pw_resource w)) (bound e) (stored_columns (pw_resource w)))
    | Update_Op pk \<Rightarrow> (\<exists>e. values_for_entry w vals i = Inr e \<and> e \<noteq> [] \<and> ps = dict_set (bound_params e) ''pk'' (pk_for_entry pk vals i)
        \<and> stmt = Update_Stmt (core_table (pw_resource w)) (rs_primary_key (pw_resource w), ''pk'') (bound e) (stored_columns (pw_resource w)))
    | Delete_Op pk \<Rightarrow> ps = [(''pk'', pk_for_entry pk vals i)]
        \<and> stmt = Delete_Stmt (core_table (pw_resource w)) (rs_primary_key (pw_resource w), ''pk'') (stored_columns (pw_resource w))"
proof (cases "pw_op w")
  case Insert_Op
  with assms show ?thesis by (auto simp: build_statement_def Let_def res_iffs)
next
  case (Update_Op pk)
  then obtain e where "values_for_entry w vals i = Inr e" "e \<noteq> []"
    and "bind_res (key_column (pw_resource w)) (\<lambda>k.
        Inr (Update_Stmt (core_table (pw_resource w)) (k, ''pk'') (bound e) (stored_columns (pw_resource w)),
          dict_set (bound_params e) ''pk'' (pk_for_entry pk vals i))) = Inr (stmt, ps)"
    using assms by (auto simp: build_statement_def Let_def res_iffs split: if_splits)
  with Update_Op show ?thesis by (simp add: key_column_def split: if_splits)
next
  case (Delete_Op pk)
  with assms show ?thesis by (auto simp: build_statement_def key_column_def Let_def split: if_splits)
qed

lemma statement_of_names:
  assumes "build_statement w vals i = Inr (stmt, ps)" and "build_statement w vals' j = Inr (stmt', ps')"
  shows "stmt = stmt'"
proof -
  have b: "bound e = bound e'" if "values_for_entry w vals i = Inr e" "values_for_entry w vals' j = Inr e'" for e e'
    using that by (simp only: bound_names values_for_entry_names merged_names [of w vals i vals' j])
  show ?thesis
  proof (cases "pw_op w")
    case Insert_Op
    then show ?thesis using build_statement_parts [OF assms(1)] build_statement_parts [OF assms(2)] b by force
  next
    case (Update_Op pk)
    then show ?thesis using build_statement_parts [OF assms(1)] build_statement_parts [OF assms(2)] b by force
  next
    case (Delete_Op pk)
    then show ?thesis using build_statement_parts [OF assms(1)] build_statement_parts [OF assms(2)] by simp
  qed
qed

section \<open>What a statement touches\<close>

text \<open>The key of an entry, and whether a row is under it.\<close>

definition entry_key :: "pg_write \<Rightarrow> column list \<Rightarrow> nat \<Rightarrow> pyval" where
  "entry_key w vals i =
     (case pw_op w of Insert_Op \<Rightarrow> VNone | Update_Op pk \<Rightarrow> pk_for_entry pk vals i | Delete_Op pk \<Rightarrow> pk_for_entry pk vals i)"

abbreviation write_table :: "pg_write \<Rightarrow> string \<times> string" where "write_table w \<equiv> core_table (pw_resource w)"

definition under_key :: "write_server \<Rightarrow> pg_write \<Rightarrow> column list \<Rightarrow> nat \<Rightarrow> row \<Rightarrow> bool" where
  "under_key ws w vals i = key_matches ws (write_table w) (rs_primary_key (pw_resource w)) (entry_key w vals i)"

definition written_columns :: "pg_write \<Rightarrow> string set" where
  "written_columns w = fst ` set (pw_literals w) \<union> fst ` set (pw_dep_index w)"

lemma dict_update_keys: "fst ` set (dict_update d kvs) = fst ` set d \<union> fst ` set kvs"
proof (induction kvs arbitrary: d)
  case (Cons kv kvs)
  have "fst ` set (dict_set d k v) = insert k (fst ` set d)" for k v
    using arg_cong [OF dict_set_names [of d k v], of set] by (auto split: if_splits)
  then show ?case by (cases kv) (simp add: Cons.IH)
qed simp

lemma values_for_entry_columns: "values_for_entry w vals i = Inr e \<Longrightarrow> fst ` set e = written_columns w"
proof -
  assume "values_for_entry w vals i = Inr e"
  then have "set (map fst e) = set (map fst (merged_values w vals i))" by (simp only: values_for_entry_names)
  moreover have "fst ` set (map (\<lambda>(name, j). (name, vals ! j ! i)) (pw_dep_index w)) = fst ` set (pw_dep_index w)" by force
  ultimately show ?thesis unfolding merged_values_def set_map dict_update_keys written_columns_def by simp
qed

lemma assigned_columns: "assigned ws tab declared ps binds = Inr vs \<Longrightarrow> map fst vs = map fst binds"
  by (induction binds arbitrary: vs) (auto simp: assigned_def res_iffs split: if_splits option.splits)

lemma map_of_set_columns:
  "map_of (set_columns vs r) c = (case map_of r c of None \<Rightarrow> None | Some v \<Rightarrow> Some (case map_of vs c of None \<Rightarrow> v | Some u \<Rightarrow> u))"
proof (induction r)
  case (Cons kv r)
  then show ?case by (cases kv) (simp add: set_columns_def)
qed (simp add: set_columns_def)

lemma set_columns_keeps: "c \<notin> fst ` set vs \<Longrightarrow> cell (set_columns vs r) c = cell r c"
proof -
  assume "c \<notin> fst ` set vs"
  then have "map_of vs c = None" by (simp add: map_of_eq_None_iff)
  then show ?thesis by (simp add: cell_def map_of_set_columns split: option.splits)
qed

text \<open>The effect of one update or delete: the values it sets do not depend on the tables.\<close>

definition after_write :: "write_op \<Rightarrow> row \<Rightarrow> row \<Rightarrow> row list" where
  "after_write op vs r = (case op of Delete_Op k \<Rightarrow> [] | _ \<Rightarrow> [set_columns vs r])"

definition returned_rows :: "write_op \<Rightarrow> row \<Rightarrow> row list \<Rightarrow> row list" where
  "returned_rows op vs rows = (case op of Delete_Op k \<Rightarrow> rows | _ \<Rightarrow> map (set_columns vs) rows)"

lemma keyed_effect:
  assumes b: "build_statement w vals i = Inr (stmt, ps)" and op: "pw_op w \<noteq> Insert_Op"
  shows "\<exists>vs. \<forall>T rows T1. perform ws stmt ps T = Inr (rows, T1) \<longrightarrow>
     fst ` set vs \<subseteq> written_columns w
     \<and> T1 = T(write_table w := concat (map (\<lambda>r. if under_key ws w vals i r then after_write (pw_op w) vs r else [r]) (T (write_table w))))
     \<and> rows = map (project (stored_columns (pw_resource w))) (returned_rows (pw_op w) vs (filter (under_key ws w vals i) (T (write_table w))))"
proof (cases "pw_op w")
  case Insert_Op
  then show ?thesis using op by simp
next
  case (Update_Op pk)
  obtain e where e: "values_for_entry w vals i = Inr e" and ps: "ps = dict_set (bound_params e) ''pk'' (pk_for_entry pk vals i)"
    and stmt: "stmt = Update_Stmt (write_table w) (rs_primary_key (pw_resource w), ''pk'') (bound e) (stored_columns (pw_resource w))"
    using build_statement_parts [OF b] Update_Op by auto
  have hit: "key_matches ws (write_table w) (rs_primary_key (pw_resource w)) (cell ps ''pk'') = under_key ws w vals i"
    by (simp add: under_key_def entry_key_def Update_Op ps cell_def)
  have one: "concat (map (\<lambda>r. if P r then [f r] else [r]) rs) = map (\<lambda>r. if P r then f r else r) rs" for P f and rs :: "row list"
    by (induction rs) auto
  show ?thesis
  proof (cases "assigned ws (write_table w) (stored_columns (pw_resource w)) ps (bound e)")
    case (Inl x)
    then show ?thesis by (simp add: stmt)
  next
    case (Inr vs)
    have aw: "(\<lambda>r. if under_key ws w vals i r then after_write (pw_op w) vs r else [r])
        = (\<lambda>r. if under_key ws w vals i r then [set_columns vs r] else [r])"
      by (rule ext) (simp add: after_write_def Update_Op split del: if_split cong: if_cong)
    have "map fst vs = map fst e" using assigned_columns [OF Inr] by (simp add: bound_names comp_def)
    then have "set (map fst vs) = written_columns w" using values_for_entry_columns [OF e] by (metis set_map)
    then have "fst ` set vs \<subseteq> written_columns w" by simp
    then show ?thesis using Inr
      by (intro exI [of _ vs]) (auto simp: stmt hit commit_def aw returned_rows_def Update_Op one Let_def split: if_splits)
  qed
next
  case (Delete_Op pk)
  have ps: "ps = [(''pk'', pk_for_entry pk vals i)]"
    and stmt: "stmt = Delete_Stmt (write_table w) (rs_primary_key (pw_resource w), ''pk'') (stored_columns (pw_resource w))"
    using build_statement_parts [OF b] Delete_Op by auto
  have hit: "key_matches ws (write_table w) (rs_primary_key (pw_resource w)) (cell ps ''pk'') = under_key ws w vals i"
    by (simp add: under_key_def entry_key_def Delete_Op ps cell_def)
  have gone: "concat (map (\<lambda>r. if P r then [] else [r]) rs) = filter (\<lambda>r. \<not> P r) rs" for P and rs :: "row list"
    by (induction rs) auto
  have aw: "(\<lambda>r. if under_key ws w vals i r then after_write (pw_op w) [] r else [r])
      = (\<lambda>r. if under_key ws w vals i r then [] else [r])"
    by (rule ext) (simp add: after_write_def Delete_Op split del: if_split cong: if_cong)
  show ?thesis
    by (intro exI [of _ "[]"]) (auto simp: stmt hit commit_def aw returned_rows_def Delete_Op gone Let_def split: if_splits)
qed

text \<open>A property of rows that only reads the primary key.\<close>

definition of_key :: "string \<Rightarrow> (row \<Rightarrow> bool) \<Rightarrow> bool" where
  "of_key pk P = (\<forall>r r'. cell r pk = cell r' pk \<longrightarrow> P r = P r')"

lemma under_key_of_key: "of_key (rs_primary_key (pw_resource w)) (under_key ws w vals i)"
  by (simp add: of_key_def under_key_def key_matches_def)

lemma keyed_frame:
  assumes P: "of_key (rs_primary_key (pw_resource w)) P" and pk: "rs_primary_key (pw_resource w) \<notin> written_columns w"
    and apart: "\<And>r. r \<in> set rs \<Longrightarrow> P r \<Longrightarrow> \<not> under_key ws w vals i r" and vs: "fst ` set vs \<subseteq> written_columns w"
  shows "filter P (concat (map (\<lambda>r. if under_key ws w vals i r then after_write (pw_op w) vs r else [r]) rs)) = filter P rs"
  using apart
proof (induction rs)
  case (Cons r rs)
  have "cell (set_columns vs r) (rs_primary_key (pw_resource w)) = cell r (rs_primary_key (pw_resource w))"
    using pk vs by (intro set_columns_keeps) blast
  then have "P (set_columns vs r) = P r" using P unfolding of_key_def by blast
  then show ?case using Cons by (auto simp: after_write_def split: write_op.splits)
qed simp

section \<open>A bucket of writes\<close>

lemma write_entries_step:
  assumes "write_entries ws w vals (i # is) T = (res, T')"
  obtains (failed) e where "res = Inl e" "T' = T"
  | (stopped) stmt ps rows e where "build_statement w vals i = Inr (stmt, ps)" "perform ws stmt ps T = Inr (rows, T')" "res = Inl e"
  | (passed) stmt ps rows T1 out r where "build_statement w vals i = Inr (stmt, ps)" "perform ws stmt ps T = Inr (rows, T1)"
      "decode_returned (pw_resource w) rows = Inr out" "write_entries ws w vals is T1 = (r, T')" "res = bind_res r (\<lambda>outs. Inr (out # outs))"
proof (cases "bind_res (build_statement w vals i) (\<lambda>(stmt, params). perform ws stmt params T)")
  case (Inl e)
  then show ?thesis using assms failed [of e] by simp
next
  case (Inr x)
  then obtain stmt ps rows T1 where b: "build_statement w vals i = Inr (stmt, ps)" "perform ws stmt ps T = Inr (rows, T1)" "x = (rows, T1)"
    by (cases x) (auto simp: res_iffs)
  show ?thesis
  proof (cases "decode_returned (pw_resource w) rows")
    case (Inl e)
    then show ?thesis using assms Inr b stopped [of stmt ps rows e] by simp
  next
    case d: (Inr out)
    obtain r T2 where "write_entries ws w vals is T1 = (r, T2)" by fastforce
    then show ?thesis using assms Inr b d passed by simp
  qed
qed

lemma write_entries_frame:
  assumes op: "pw_op w \<noteq> Insert_Op" and P: "of_key (rs_primary_key (pw_resource w)) P"
    and pk: "rs_primary_key (pw_resource w) \<notin> written_columns w"
  shows "write_entries ws w vals is T = (res, T') \<Longrightarrow> (\<And>i r. i \<in> set is \<Longrightarrow> P r \<Longrightarrow> \<not> under_key ws w vals i r)
    \<Longrightarrow> filter P (T' (write_table w)) = filter P (T (write_table w)) \<and> (\<forall>t. t \<noteq> write_table w \<longrightarrow> T' t = T t)"
proof (induction "is" arbitrary: T res)
  case (Cons i "is")
  have one: "filter P (T1 (write_table w)) = filter P (T (write_table w)) \<and> (\<forall>t. t \<noteq> write_table w \<longrightarrow> T1 t = T t)"
    if b: "build_statement w vals i = Inr (stmt, ps)" and p: "perform ws stmt ps T = Inr (rows, T1)" for stmt ps rows T1
  proof -
    from keyed_effect [OF b op, of ws] p obtain vs where vs: "fst ` set vs \<subseteq> written_columns w"
      and T1: "T1 = T(write_table w := concat (map (\<lambda>r. if under_key ws w vals i r then after_write (pw_op w) vs r else [r]) (T (write_table w))))"
      by blast
    have "filter P (T1 (write_table w)) = filter P (T (write_table w))"
      unfolding T1 fun_upd_same by (rule keyed_frame [OF P pk _ vs]) (use Cons.prems(2) in auto)
    then show ?thesis by (simp add: T1)
  qed
  from Cons.prems(1) show ?case
  proof (cases rule: write_entries_step)
    case (passed stmt ps rows T1 out r)
    then show ?thesis using Cons.IH [OF passed(4)] Cons.prems(2) one [OF passed(1,2)] by simp
  qed (use one in auto)
qed simp

text \<open>Entries under different keys do not see each other: each gives what it gives alone.\<close>

lemma alone_cong:
  assumes op: "pw_op w \<noteq> Insert_Op" and pk: "rs_primary_key (pw_resource w) \<notin> written_columns w"
    and i: "build_statement w vals i = Inr (stmt, ps)" "perform ws stmt ps T = Inr (rows, T1)"
    and apart: "\<And>r. \<not> (under_key ws w vals i r \<and> under_key ws w vals j r)" and check: "\<And>T. ws_check ws T"
  shows "fst (write_entries ws w vals [j] T1) = fst (write_entries ws w vals [j] T)"
proof (cases "build_statement w vals j")
  case (Inl e)
  then show ?thesis by simp
next
  case (Inr x)
  then obtain stmt' ps' where j: "build_statement w vals j = Inr (stmt', ps')" by (cases x) auto
  from keyed_effect [OF i(1) op, of ws] i(2) obtain vs where vs: "fst ` set vs \<subseteq> written_columns w"
    and T1: "T1 = T(write_table w := concat (map (\<lambda>r. if under_key ws w vals i r then after_write (pw_op w) vs r else [r]) (T (write_table w))))"
    by blast
  have same: "filter (under_key ws w vals j) (T1 (write_table w)) = filter (under_key ws w vals j) (T (write_table w))"
    unfolding T1 fun_upd_same by (rule keyed_frame [OF under_key_of_key pk _ vs]) (use apart in blast)
  have total: "perform ws stmt' ps' T1 = Inl e \<longleftrightarrow> perform ws stmt' ps' T = Inl e" for e
  proof (cases "pw_op w")
    case (Update_Op k)
    then obtain binds where "stmt' = Update_Stmt (write_table w) (rs_primary_key (pw_resource w), ''pk'') binds (stored_columns (pw_resource w))"
      using build_statement_parts [OF j] by auto
    then show ?thesis using check
      by (cases "assigned ws (write_table w) (stored_columns (pw_resource w)) ps' binds") (simp_all add: commit_def Let_def)
  next
    case (Delete_Op k)
    then show ?thesis using build_statement_parts [OF j] check by (simp add: commit_def Let_def)
  qed (use op in simp)
  from keyed_effect [OF j op, of ws] obtain us where us: "\<And>T rows T1. perform ws stmt' ps' T = Inr (rows, T1) \<Longrightarrow>
      rows = map (project (stored_columns (pw_resource w))) (returned_rows (pw_op w) us (filter (under_key ws w vals j) (T (write_table w))))"
    by blast
  show ?thesis
  proof (cases "perform ws stmt' ps' T")
    case (Inl e)
    then show ?thesis using total [of e] j by simp
  next
    case (Inr y)
    obtain rows' T' where y: "y = (rows', T')" by (cases y)
    then obtain rows'' T'' where y': "perform ws stmt' ps' T1 = Inr (rows'', T'')"
      using Inr total by (cases "perform ws stmt' ps' T1") auto
    have "rows'' = rows'" using us [OF y'] us [OF Inr [unfolded y]] same by simp
    then show ?thesis using Inr y y' j by (simp split: sum.splits)
  qed
qed

lemma write_entries_alone:
  assumes op: "pw_op w \<noteq> Insert_Op" and pk: "rs_primary_key (pw_resource w) \<notin> written_columns w"
  shows "write_entries ws w vals is T = (Inr outs, T') \<Longrightarrow> distinct is
    \<Longrightarrow> (\<And>i j r. i \<in> set is \<Longrightarrow> j \<in> set is \<Longrightarrow> i \<noteq> j \<Longrightarrow> \<not> (under_key ws w vals i r \<and> under_key ws w vals j r))
    \<Longrightarrow> (\<And>T. ws_check ws T)
    \<Longrightarrow> map_res (\<lambda>i. fst (write_entries ws w vals [i] T)) is = Inr (map (\<lambda>out. [out]) outs)"
proof (induction "is" arbitrary: T outs)
  case (Cons i "is")
  from Cons.prems(1) show ?case
  proof (cases rule: write_entries_step)
    case (passed stmt ps rows T1 out r)
    then obtain outs' where r: "r = Inr outs'" "outs = out # outs'" by (cases r) auto
    have IH: "map_res (\<lambda>i. fst (write_entries ws w vals [i] T1)) is = Inr (map (\<lambda>out. [out]) outs')"
      by (rule Cons.IH) (use passed(4) r Cons.prems in auto)
    have "fst (write_entries ws w vals [j] T1) = fst (write_entries ws w vals [j] T)" if j: "j \<in> set is" for j
      by (rule alone_cong [OF op pk passed(1,2)]) (use j Cons.prems in auto)
    then have "map_res (\<lambda>j. fst (write_entries ws w vals [j] T)) is = map_res (\<lambda>j. fst (write_entries ws w vals [j] T1)) is"
      by (intro map_res_cong) simp_all
    moreover have "fst (write_entries ws w vals [i] T) = Inr [out]" using passed by simp
    ultimately show ?thesis using IH r by simp
  qed auto
qed simp

section \<open>Reading a written row back\<close>

lemma encoded_value:
  "map_res (\<lambda>(name, v). bind_res (f name v) (\<lambda>u. Inr (name, u))) xs = Inr ys \<Longrightarrow> map_of xs c = Some v
     \<Longrightarrow> \<exists>u. map_of ys c = Some u \<and> f c v = Inr u"
  by (induction xs arbitrary: ys) (auto simp: res_iffs split: if_splits)

lemma suffix_params: "map_of (bound_params e) (c @ ''__v'') = map_of e c"
  by (induction e) (auto simp: bound_params_def)

lemma assigned_value:
  "assigned ws tab declared ps (bound e) = Inr vs \<Longrightarrow> c \<in> fst ` set e
     \<Longrightarrow> c \<in> set declared \<and> c \<in> set (ws_columns ws tab)
       \<and> (\<exists>u. map_of ps (c @ ''__v'') = Some u \<and> map_of vs c = Some (ws_store ws tab c u))"
proof (induction e arbitrary: vs)
  case (Cons kv e)
  obtain k v where kv: "kv = (k, v)" by (cases kv)
  have "bound (kv # e) = (k, k @ ''__v'') # bound e" by (simp add: bound_def kv)
  then obtain u us where k: "k \<in> set declared" "k \<in> set (ws_columns ws tab)" "map_of ps (k @ ''__v'') = Some u"
    and us: "assigned ws tab declared ps (bound e) = Inr us" "vs = (k, ws_store ws tab k u) # us"
    using Cons.prems(1) by (auto simp: assigned_def res_iffs split: if_splits option.splits)
  show ?case
  proof (cases "c = k")
    case False
    then have "c \<in> fst ` set e" using Cons.prems(2) kv by auto
    from Cons.IH [OF us(1) this] False show ?thesis by (simp add: us(2))
  qed (use k us in auto)
qed simp

lemma map_of_columns: "c \<in> set cs \<Longrightarrow> map_of (map (\<lambda>c. (c, f c)) cs) c = Some (f c)"
  by (induction cs) auto

lemma project_cell: "c \<in> set cols \<Longrightarrow> map_of (project cols r) c = Some (cell r c)"
  unfolding project_def cell_def by (rule map_of_columns)

text \<open>The values given, as a read decodes what the server stored of their encoding.\<close>

definition codecs_invert :: "write_server \<Rightarrow> pg_write \<Rightarrow> row \<Rightarrow> bool" where
  "codecs_invert ws w given = (\<forall>c v u. map_of given c = Some v \<longrightarrow> encode_column (pw_resource w) c v = Inr u
     \<longrightarrow> decode_value (pw_resource w) c (ws_store ws (write_table w) c u) = Inr v)"

lemma stored_values:
  assumes e: "values_for_entry w vals i = Inr e" and a: "assigned ws tab (stored_columns (pw_resource w)) ps (bound e) = Inr vs"
    and ps: "\<And>c. map_of ps (c @ ''__v'') = map_of e c" and c: "map_of (merged_values w vals i) c = Some v"
  shows "c \<in> set (stored_columns (pw_resource w)) \<and> c \<in> set (ws_columns ws tab)
     \<and> (\<exists>u. encode_column (pw_resource w) c v = Inr u \<and> map_of vs c = Some (ws_store ws tab c u))"
proof -
  have "map_res (\<lambda>(name, v). bind_res (encode_column (pw_resource w) name v) (\<lambda>u. Inr (name, u))) (merged_values w vals i) = Inr e"
    using e by (auto simp: values_for_entry_def res_iffs)
  from encoded_value [OF this c] obtain u where u: "map_of e c = Some u" "encode_column (pw_resource w) c v = Inr u" by blast
  have "c \<in> fst ` set e" using map_of_SomeD [OF u(1)] by force
  from assigned_value [OF a this] show ?thesis using u ps by auto
qed

lemma decoded_values:
  assumes d: "decode_row (pw_resource w) (project (stored_columns (pw_resource w)) r) = Inr d" and ok: "resource_ok (pw_resource w)"
    and inv: "codecs_invert ws w given" and c: "map_of given c = Some v" "c \<in> set (stored_columns (pw_resource w))"
    and r: "encode_column (pw_resource w) c v = Inr u" "map_of r c = Some (ws_store ws (write_table w) c u)"
  shows "map_of d c = Some v"
proof -
  have "map_of (project (stored_columns (pw_resource w)) r) c = Some (ws_store ws (write_table w) c u)"
    using project_cell [OF c(2), of r] r(2) by (simp add: cell_def)
  from decode_row_cell [OF d ok this] obtain x where
    "map_of d c = Some x" "decode_value (pw_resource w) c (ws_store ws (write_table w) c u) = Inr x" by blast
  moreover have "decode_value (pw_resource w) c (ws_store ws (write_table w) c u) = Inr v"
    using inv c(1) r(1) by (auto simp: codecs_invert_def)
  ultimately show ?thesis by simp
qed

lemma suffix_not_pk: "c @ ''__v'' \<noteq> ''pk''"
proof
  assume "c @ ''__v'' = ''pk''"
  then have "length (c @ ''__v'') = length ''pk''" by (rule arg_cong)
  then show False by simp
qed

lemma write_reads_back:
  assumes run: "write_entries ws w vals [i] T = (Inr [VDict d], T')" and op: "\<And>k. pw_op w \<noteq> Delete_Op k"
    and ok: "resource_ok (pw_resource w)" and inv: "codecs_invert ws w (merged_values w vals i)"
    and cols: "\<And>r. r \<in> set (T (write_table w)) \<Longrightarrow> map fst r = ws_columns ws (write_table w)"
  shows "\<exists>r \<in> set (T' (write_table w)). decode_row (pw_resource w) (project (stored_columns (pw_resource w)) r) = Inr d
     \<and> (\<forall>c v. map_of (merged_values w vals i) c = Some v \<longrightarrow> map_of d c = Some v)"
  using run
proof (cases rule: write_entries_step)
  case (passed stmt ps rows T1 out x)
  let ?rs = "pw_resource w"
  have T': "T1 = T'" "out = VDict d" using passed(4,5) by auto
  obtain r where hd: "rows \<noteq> []" "hd rows = r" "decode_row ?rs r = Inr d"
    using passed(3) T'(2) by (cases rows) (auto simp: decode_returned_def res_iffs)
  have "\<exists>r'. r = project (stored_columns ?rs) r' \<and> r' \<in> set (T1 (write_table w))
     \<and> (\<forall>c v. map_of (merged_values w vals i) c = Some v \<longrightarrow> c \<in> set (stored_columns ?rs)
           \<and> (\<exists>u. encode_column ?rs c v = Inr u \<and> map_of r' c = Some (ws_store ws (write_table w) c u)))"
  proof (cases "pw_op w")
    case Insert_Op
    obtain e where e: "values_for_entry w vals i = Inr e" "ps = bound_params e"
      "stmt = Insert_Stmt (write_table w) (bound e) (stored_columns ?rs)"
      using build_statement_parts [OF passed(1)] Insert_Op by auto
    obtain vs where vs: "assigned ws (write_table w) (stored_columns ?rs) ps (bound e) = Inr vs"
      using passed(2) by (auto simp: e(3) res_iffs)
    let ?r = "map (\<lambda>c. (c, case map_of vs c of None \<Rightarrow> ws_default ws T (write_table w) c | Some v \<Rightarrow> v)) (ws_columns ws (write_table w))"
    have "rows = [project (stored_columns ?rs) ?r]" "T1 = T(write_table w := T (write_table w) @ [?r])"
      using passed(2) vs by (auto simp: e(3) commit_def Let_def split: if_splits)
    moreover have "map_of ?r c = Some x" if "map_of vs c = Some x" "c \<in> set (ws_columns ws (write_table w))" for c x
      using map_of_columns [OF that(2), of "\<lambda>c. case map_of vs c of None \<Rightarrow> ws_default ws T (write_table w) c | Some v \<Rightarrow> v"] that(1) by simp
    moreover have "map_of ps (c @ ''__v'') = map_of e c" for c by (simp add: e(2) suffix_params)
    ultimately show ?thesis using stored_values [OF e(1) vs] hd by (intro exI [of _ ?r]) fastforce
  next
    case (Update_Op k)
    obtain e where e: "values_for_entry w vals i = Inr e" "ps = dict_set (bound_params e) ''pk'' (pk_for_entry k vals i)"
      "stmt = Update_Stmt (write_table w) (rs_primary_key ?rs, ''pk'') (bound e) (stored_columns ?rs)"
      using build_statement_parts [OF passed(1)] Update_Op by auto
    obtain vs where vs: "assigned ws (write_table w) (stored_columns ?rs) ps (bound e) = Inr vs"
      using passed(2) by (auto simp: e(3) res_iffs)
    let ?hit = "key_matches ws (write_table w) (rs_primary_key ?rs) (cell ps ''pk'')"
    have out: "rows = map (project (stored_columns ?rs)) (map (set_columns vs) (filter ?hit (T (write_table w))))"
      "T1 = T(write_table w := map (\<lambda>r. if ?hit r then set_columns vs r else r) (T (write_table w)))"
      using passed(2) vs by (auto simp: e(3) commit_def Let_def split: if_splits)
    have "r \<in> set rows" using hd(1,2) by auto
    then obtain r0 where r0: "r0 \<in> set (T (write_table w))" "?hit r0" "r = project (stored_columns ?rs) (set_columns vs r0)"
      by (auto simp: out(1))
    have "set_columns vs r0 \<in> set (T1 (write_table w))" using r0 by (auto simp: out(2))
    moreover have "map_of (set_columns vs r0) c = Some x" if "map_of vs c = Some x" "c \<in> set (ws_columns ws (write_table w))" for c x
    proof -
      have "c \<in> fst ` set r0" using cols [OF r0(1)] that(2) by (metis set_map)
      then show ?thesis using that(1) by (cases "map_of r0 c") (auto simp: map_of_set_columns map_of_eq_None_iff)
    qed
    moreover have "map_of ps (c @ ''__v'') = map_of e c" for c using suffix_not_pk by (simp add: e(2) suffix_params)
    ultimately show ?thesis using stored_values [OF e(1) vs] r0(3) by (intro exI [of _ "set_columns vs r0"]) fastforce
  next
    case (Delete_Op k)
    then show ?thesis using op by simp
  qed
  then obtain r' where r': "r = project (stored_columns ?rs) r'" "r' \<in> set (T1 (write_table w))"
    and st: "\<And>c v. map_of (merged_values w vals i) c = Some v \<Longrightarrow> c \<in> set (stored_columns ?rs)
       \<and> (\<exists>u. encode_column ?rs c v = Inr u \<and> map_of r' c = Some (ws_store ws (write_table w) c u))" by blast
  have "map_of d c = Some v" if "map_of (merged_values w vals i) c = Some v" for c v
    using decoded_values [OF hd(3) [unfolded r'(1)] ok inv that] st [OF that] by blast
  then show ?thesis using r' hd(3) T'(1) by blast
qed auto

end
