(* ===== verification/Mutation_Properties.thy ===== *)
theory Mutation_Properties
  imports Pg_Mutation_Laws
begin

text \<open>
  The correctness properties of the writes, with a table of users as their instance, and two cases of
  entries that fail.
\<close>

section \<open>An example\<close>

text \<open>A user's email is kept in a list by its codec, as an encrypting codec keeps a text in another.\<close>

definition boxed_codec :: pg_codec where
  "boxed_codec = \<lparr>co_to_py = Some (\<lambda>v. case v of VList [x] \<Rightarrow> Inr x | _ \<Rightarrow> Inl (ValueError ''box'')),
     co_to_pg = Some (\<lambda>v. Inr (VList [v])), co_sql_type = None, co_json_stable = None\<rparr>"

definition users :: pg_resource where
  "users = \<lparr>rs_name = ''users'', rs_schema = ''public'', rs_table = ''users'',
     rs_attributes = [(''id'', as_column (Inl ''id'')),
       (''name'', (as_column (Inl ''name''))\<lparr>pc_not_null := True\<rparr>),
       (''email'', (as_column (Inl ''email''))\<lparr>pc_codec := Some boxed_codec\<rparr>)],
     rs_primary_key = ''id'', rs_column_types = [], rs_relations = [], rs_opt_out_inline = False, rs_customizer_arity = None\<rparr>"

definition plain_server :: write_server where
  "plain_server = \<lparr>ws_columns = (\<lambda>t. [''id'', ''name'', ''email'']), ws_accepts = (\<lambda>t c v. \<not> is_exc v), ws_store = (\<lambda>t c v. v),
     ws_default = (\<lambda>T t c. if c = ''id'' then VInt (int (length (T t))) else VNone), ws_equal = (\<lambda>t c v u. v = u \<and> u \<noteq> VNone),
     ws_check = (\<lambda>T. True)\<rparr>"

definition two_users :: tables where
  "two_users = (\<lambda>t. if t = (''public'', ''users'')
     then [[(''id'', VInt 0), (''name'', VStr ''ann''), (''email'', VNone)], [(''id'', VInt 1), (''name'', VStr ''bob''), (''email'', VNone)]]
     else [])"

definition rename :: pg_write where
  "rename = pg_update_single users (Inr 0) [(''name'', Inr 1), (''email'', Inl (VStr ''x@y''))]"

definition rename_values :: "column list" where
  "rename_values = [[VStr ''cy'', VStr ''di''], [VInt 1, VInt 7]]"

lemma rename_resource: "pw_resource rename = users"
  by (simp add: rename_def pg_update_single_def with_key_def new_write_def)

section \<open>Values are parameters\<close>

text \<open>C22: the text of the statement a write step builds is the same for every entry and every value; values reach
  the database only as parameters, so none can be read as SQL.\<close>

theorem values_never_in_statement:
  assumes "build_statement w vals i = Inr (stmt, params)" and "build_statement w vals' j = Inr (stmt', params')"
  shows "stmt = stmt'"
  by (rule statement_of_names [OF assms])

lemma values_never_in_statement_witness:
  "fst (projr (build_statement rename rename_values 0)) = fst (projr (build_statement rename [[VStr ''x); DROP TABLE users; --''], [VInt 1]] 0))"
proof -
  have "\<not> isl (build_statement rename rename_values 0)" "\<not> isl (build_statement rename [[VStr ''x); DROP TABLE users; --''], [VInt 1]] 0)"
    by code_simp+
  then obtain s p s' p' where 1: "build_statement rename rename_values 0 = Inr (s, p)"
    and 2: "build_statement rename [[VStr ''x); DROP TABLE users; --''], [VInt 1]] 0 = Inr (s', p')"
    by (metis prod.collapse sum.collapse(2))
  from values_never_in_statement [OF 1 2] show ?thesis by (simp add: 1 2)
qed

section \<open>A write touches its rows only\<close>

text \<open>C20: whatever becomes of a bucket of updates or deletes whose written columns do not include the primary key, the
  tables keep the rows whose key is none of the entries', unchanged and in their order, and the other tables.\<close>

theorem writes_keep_other_rows:
  assumes "write_execute ws w n vals T = (res, T')" and "pw_op w \<noteq> Insert_Op"
    and "rs_primary_key (pw_resource w) \<notin> written_columns w"
  shows "filter (\<lambda>r. \<not> (\<exists>i < n. under_key ws w vals i r)) (T' (write_table w))
      = filter (\<lambda>r. \<not> (\<exists>i < n. under_key ws w vals i r)) (T (write_table w))
    \<and> (t \<noteq> write_table w \<longrightarrow> T' t = T t)"
proof -
  have "of_key (rs_primary_key (pw_resource w)) (\<lambda>r. \<not> (\<exists>i < n. under_key ws w vals i r))"
    using under_key_of_key unfolding of_key_def by blast
  note frame = write_entries_frame [OF assms(2) this assms(3) assms(1) [unfolded write_execute_def]]
  have "filter (\<lambda>r. \<not> (\<exists>i < n. under_key ws w vals i r)) (T' (write_table w))
      = filter (\<lambda>r. \<not> (\<exists>i < n. under_key ws w vals i r)) (T (write_table w))
    \<and> (\<forall>t. t \<noteq> write_table w \<longrightarrow> T' t = T t)"
    by (rule frame) auto
  then show ?thesis by blast
qed

lemma writes_keep_other_rows_witness:
  "filter (\<lambda>r. \<not> (\<exists>i < 2. under_key plain_server rename rename_values i r)) (snd (write_execute plain_server rename 2 rename_values two_users) (''public'', ''users''))
     = [[(''id'', VInt 0), (''name'', VStr ''ann''), (''email'', VNone)]]"
proof -
  have hit: "(\<exists>i < 2. under_key plain_server rename rename_values i r) \<longleftrightarrow>
      under_key plain_server rename rename_values 0 r \<or> under_key plain_server rename rename_values 1 r" for r
    by (auto simp: less_2_cases_iff)
  have tab: "write_table rename = (''public'', ''users'')" and op: "pw_op rename \<noteq> Insert_Op"
    and pk: "rs_primary_key (pw_resource rename) \<notin> written_columns rename" by code_simp+
  have run: "write_execute plain_server rename 2 rename_values two_users = (fst (write_execute plain_server rename 2 rename_values two_users),
      snd (write_execute plain_server rename 2 rename_values two_users))" by simp
  have "filter (\<lambda>r. \<not> (\<exists>i < 2. under_key plain_server rename rename_values i r)) (snd (write_execute plain_server rename 2 rename_values two_users) (''public'', ''users''))
      = filter (\<lambda>r. \<not> (\<exists>i < 2. under_key plain_server rename rename_values i r)) (two_users (''public'', ''users''))"
    using writes_keep_other_rows [OF run op pk] unfolding tab by (rule conjunct1)
  also have "\<dots> = [[(''id'', VInt 0), (''name'', VStr ''ann''), (''email'', VNone)]]"
    unfolding hit by code_simp
  finally show ?thesis .
qed

section \<open>A written row reads back\<close>

text \<open>C21: the row an insert or update returns is in the table afterwards, as a read of the table decodes it, and has
  the given value in every column that was given one, when the server and the codecs give back what they are
  given.\<close>

theorem written_row_reads_back:
  assumes "write_entries ws w vals [i] T = (Inr [VDict d], T')" and "\<And>k. pw_op w \<noteq> Delete_Op k"
    and "resource_ok (pw_resource w)" and "codecs_invert ws w (merged_values w vals i)"
    and "\<And>r. r \<in> set (T (write_table w)) \<Longrightarrow> map fst r = ws_columns ws (write_table w)"
  shows "\<exists>r \<in> set (T' (write_table w)). decode_row (pw_resource w) (project (stored_columns (pw_resource w)) r) = Inr d
     \<and> (\<forall>c v. map_of (merged_values w vals i) c = Some v \<longrightarrow> map_of d c = Some v)"
  by (rule write_reads_back [OF assms])

lemma rename_returns:
  "fst (write_entries plain_server rename rename_values [0] two_users)
     = Inr [VDict [(''id'', VInt 1), (''name'', VStr ''cy''), (''email'', VStr ''x@y'')]]"
  by code_simp

lemma rename_codecs: "codecs_invert plain_server rename (merged_values rename rename_values 0)"
proof -
  have m: "merged_values rename rename_values 0 = [(''email'', VStr ''x@y''), (''name'', VStr ''cy'')]" by code_simp
  show ?thesis
    unfolding codecs_invert_def m rename_resource
    by (auto simp: users_def encode_column_def decode_value_def boxed_codec_def as_column_def to_py_def plain_server_def split: if_splits)
qed

lemma written_row_reads_back_witness:
  "\<exists>r \<in> set (snd (write_entries plain_server rename rename_values [0] two_users) (''public'', ''users'')).
     decode_row users (project [''id'', ''name'', ''email''] r) = Inr [(''id'', VInt 1), (''name'', VStr ''cy''), (''email'', VStr ''x@y'')]"
proof -
  let ?run = "write_entries plain_server rename rename_values [0] two_users"
  have run: "?run = (Inr [VDict [(''id'', VInt 1), (''name'', VStr ''cy''), (''email'', VStr ''x@y'')]], snd ?run)"
    using rename_returns by (metis prod.collapse)
  note rs = rename_resource
  have tab: "write_table rename = (''public'', ''users'')" "stored_columns users = [''id'', ''name'', ''email'']"
    by code_simp+
  have op: "pw_op rename \<noteq> Delete_Op k" for k by (simp add: rename_def pg_update_single_def with_key_def)
  have ok: "resource_ok (pw_resource rename)" unfolding rs by (simp add: resource_ok_def users_def as_column_def)
  have cols: "map fst r = ws_columns plain_server (write_table rename)" if "r \<in> set (two_users (write_table rename))" for r
    using that unfolding tab by (auto simp: two_users_def plain_server_def)
  show ?thesis using written_row_reads_back [OF run op ok rename_codecs cols] unfolding tab unfolding rs tab by blast
qed

section \<open>Entries that fail\<close>

text \<open>A dependency that failed is an exception in its column, and is bound as any value is.\<close>

lemma failed_value_is_bound:
  "map_of (snd (projr (build_statement rename [[VExc (ValueError ''no name'')], [VInt 1]] 0))) ''name__v'' = Some (VExc (ValueError ''no name''))"
  "map_of (snd (projr (build_statement rename [[VStr ''cy''], [VExc (ValueError ''no id'')]] 0))) ''pk'' = Some (VExc (ValueError ''no id''))"
  by code_simp+

text \<open>The second entry fails: the bucket raises, and the first entry's row stays renamed.\<close>

lemma failed_bucket_is_committed:
  "fst (write_execute plain_server rename 2 [[VStr ''cy'', VExc (ValueError ''no name'')], [VInt 1, VInt 0]] two_users) = Inl (HostError ''DataError'')"
  "map (\<lambda>r. cell r ''name'') (snd (write_execute plain_server rename 2 [[VStr ''cy'', VExc (ValueError ''no name'')], [VInt 1, VInt 0]] two_users)
      (''public'', ''users'')) = [VStr ''ann'', VStr ''cy'']"
  by code_simp+

end
