(* ===== verification/Pg_Union.thy ===== *)
theory Pg_Union
  imports Pg_Connection
begin

text \<open>
  Keyset-paged connections over several tables (\<open>src/src/grafast_py/pg/union.py\<close>): one \<open>UNION ALL\<close> statement
  whose legs project a shared, NULL-padded list of columns and tag each row with its concrete type, a
  separate count, and what a server answers to both.
\<close>

section \<open>Members\<close>

definition typename_column :: string where
  "typename_column = ''__typename''"

text \<open>\<open>um_where\<close> are the validated predicates, \<open>um_binds\<close> their binds in the order of a walk.\<close>

record 'f union_member =
  um_resource :: pg_resource
  um_type :: string
  um_match :: "(string + string list) option"
  um_where :: "predicate list"
  um_binds :: "'f bind_param list"

definition member_match_columns :: "'f union_member \<Rightarrow> string list res" where
  "member_match_columns m = (case um_match m of None \<Rightarrow> Inr [] | Some c \<Rightarrow> as_match_columns c)"

definition where_signature :: "(predicate \<Rightarrow> string) \<Rightarrow> 'f union_member \<Rightarrow> string list" where
  "where_signature predicate_key m = map predicate_key (um_where m)"

section \<open>The step\<close>

record 'f pg_union =
  un_members :: "'f union_member list"
  un_shared :: "string list"
  un_member_columns :: "string list"
  un_order :: "order_term list"
  un_first :: page_value
  un_after :: page_value
  un_last :: page_value
  un_before :: page_value
  un_needs_total :: bool
  un_after_source :: "string option"
  un_before_source :: "string option"
  un_reverse :: bool
  un_after_values :: "pyval list option"
  un_before_values :: "pyval list option"
  un_per_parent :: bool
  un_match :: "string list"

fun first_seen :: "string list \<Rightarrow> string list \<Rightarrow> string list" where
  "first_seen seen [] = seen"
| "first_seen seen (c # cs) = first_seen (if c \<in> set seen then seen else seen @ [c]) cs"

definition compute_member_columns :: "'f union_member list \<Rightarrow> string list \<Rightarrow> string list" where
  "compute_member_columns members shared =
     first_seen [] (filter (\<lambda>c. c \<notin> set shared) (concat (map (\<lambda>m. stored_columns (um_resource m)) members)))"

fun assert_order_columns_shared :: "string list \<Rightarrow> order_term list \<Rightarrow> unit res" where
  "assert_order_columns_shared shared [] = Inr ()"
| "assert_order_columns_shared shared (t # ts) =
     (if ot_column t \<notin> insert typename_column (set shared)
      then Inl (ValueError ''pgUnionAll order column is not a shared column'')
      else assert_order_columns_shared shared ts)"

fun members_agree :: "string list \<Rightarrow> 'f union_member list \<Rightarrow> unit res" where
  "members_agree expected [] = Inr ()"
| "members_agree expected (m # members) =
     bind_res (member_match_columns m) (\<lambda>cols.
       if length cols \<noteq> length expected then Inl (ValueError ''pgUnionAll members disagree on match arity'')
       else if cols \<noteq> expected then Inl (ValueError ''pgUnionAll members disagree on match columns'')
       else members_agree expected members)"

text \<open>Gives the columns the members agree on.\<close>

definition assert_members_have_match :: "string list \<Rightarrow> 'f union_member list \<Rightarrow> string list res" where
  "assert_members_have_match shared members =
     bind_res (member_match_columns (hd members)) (\<lambda>expected.
       if expected = [] then Inl (ValueError ''per-parent pgUnionAll needs each member to declare a match column'')
       else if \<not> set expected \<subseteq> set shared then Inl (ValueError ''pgUnionAll match column is not a shared column'')
       else bind_res (members_agree expected members) (\<lambda>_. Inr expected))"

fun assert_members_have_no_match :: "'f union_member list \<Rightarrow> unit res" where
  "assert_members_have_no_match [] = Inr ()"
| "assert_members_have_no_match (m # members) =
     bind_res (member_match_columns m) (\<lambda>cols.
       if cols \<noteq> [] then Inl (ValueError ''root pgUnionAll must not declare a member match'')
       else assert_members_have_no_match members)"

definition union_literal_cursors ::
  "(string \<Rightarrow> string) \<Rightarrow> 'f pg_union \<Rightarrow> (pyval list option \<times> pyval list option) res" where
  "union_literal_cursors sha256 u =
     bind_res (decode_literal_cursor sha256 (un_after u) (un_order u)) (\<lambda>a.
     bind_res (decode_literal_cursor sha256 (un_before u) (un_order u)) (\<lambda>b. Inr (a, b)))"

definition pg_union_all ::
  "(string \<Rightarrow> string) \<Rightarrow> 'f union_member list \<Rightarrow> string list \<Rightarrow> (string + order_term) list \<Rightarrow> bool \<Rightarrow> page_value
   \<Rightarrow> page_value \<Rightarrow> page_value \<Rightarrow> page_value \<Rightarrow> bool \<Rightarrow> bool \<Rightarrow> 'f pg_union res" where
  "pg_union_all sha256 members shared order_by keyed first after last_n before unique needs_total =
     (if members = [] then Inl (ValueError ''a pgUnionAll needs at least one member'')
      else if shared = [] then Inl (ValueError ''a pgUnionAll needs at least one shared column'')
      else
        let order = normalize_order order_by (rs_primary_key (um_resource (hd members))) unique @ [ascending typename_column];
            forward_arg = (first \<noteq> Plain VNone \<or> after \<noteq> Plain VNone);
            reverse_arg = (last_n \<noteq> Plain VNone \<or> before \<noteq> Plain VNone)
        in bind_res (assert_order_columns_shared shared order) (\<lambda>_.
           if forward_arg \<and> reverse_arg then Inl (ValueError ''ambiguous Relay pagination'')
           else let u = \<lparr>un_members = members, un_shared = shared,
                  un_member_columns = compute_member_columns members shared, un_order = order, un_first = first,
                  un_after = after, un_last = last_n, un_before = before, un_needs_total = needs_total,
                  un_after_source = placeholder_source_tag after, un_before_source = placeholder_source_tag before,
                  un_reverse = reverse_arg, un_after_values = None, un_before_values = None,
                  un_per_parent = keyed, un_match = []\<rparr>
                in bind_res (union_literal_cursors sha256 u) (\<lambda>(a, b).
                   bind_res (if keyed then assert_members_have_match shared members
                             else bind_res (assert_members_have_no_match members) (\<lambda>_. Inr [])) (\<lambda>cols.
                   Inr (u\<lparr>un_after_values := a, un_before_values := b, un_match := cols\<rparr>)))))"

text \<open>The helper that counts only when the selection asks for \<open>totalCount\<close>.\<close>

definition union_all_connection ::
  "nat \<Rightarrow> (string \<times> selection list) list \<Rightarrow> selection list list \<Rightarrow> (string \<Rightarrow> string) \<Rightarrow> 'f union_member list
   \<Rightarrow> string list \<Rightarrow> (string + order_term) list \<Rightarrow> bool \<Rightarrow> page_value \<Rightarrow> page_value \<Rightarrow> page_value \<Rightarrow> page_value
   \<Rightarrow> bool \<Rightarrow> 'f pg_union res" where
  "union_all_connection d frags nodes sha256 members shared order_by keyed first after last_n before unique =
     bind_res (connection_needs_total d frags nodes) (\<lambda>needs_total.
       pg_union_all sha256 members shared order_by keyed first after last_n before unique needs_total)"

definition un_composite :: "'f pg_union \<Rightarrow> bool" where
  "un_composite u = (length (un_match u) > 1)"

section \<open>What a request brings\<close>

definition union_cursor_values ::
  "(string \<Rightarrow> string) \<Rightarrow> 'f pg_union \<Rightarrow> pyval \<Rightarrow> row \<Rightarrow> (pyval list option \<times> pyval list option) res" where
  "union_cursor_values sha256 u ctx source_values =
     bind_res (request_cursor sha256 (un_after u) (un_after_values u) (un_order u) ctx source_values) (\<lambda>a.
     bind_res (request_cursor sha256 (un_before u) (un_before_values u) (un_order u) ctx source_values) (\<lambda>b.
     Inr (a, b)))"

text \<open>A bind without a source tag carries its value; a placeholder's is resolved and transformed.\<close>

fun placeholder_params ::
  "('f \<Rightarrow> pyval \<Rightarrow> pyval res) \<Rightarrow> pyval \<Rightarrow> row \<Rightarrow> 'f bind_param list \<Rightarrow> row \<Rightarrow> row res" where
  "placeholder_params call_transform ctx source_values [] params = Inr params"
| "placeholder_params call_transform ctx source_values (b # binds) params =
     (case bp_source b of
        None \<Rightarrow> placeholder_params call_transform ctx source_values binds params
      | Some s \<Rightarrow>
          bind_res (source_value ctx source_values s) (\<lambda>v.
          bind_res (case bp_transform b of None \<Rightarrow> Inr v | Some f \<Rightarrow> call_transform f v) (\<lambda>w.
          placeholder_params call_transform ctx source_values binds (dict_set params (bp_name b) w))))"

definition member_where_params ::
  "('f \<Rightarrow> pyval \<Rightarrow> pyval res) \<Rightarrow> 'f pg_union \<Rightarrow> pyval \<Rightarrow> row \<Rightarrow> row res" where
  "member_where_params call_transform u ctx source_values =
     placeholder_params call_transform ctx source_values (concat (map um_binds (un_members u))) []"

definition union_effective_order :: "'f pg_union \<Rightarrow> order_term list" where
  "union_effective_order u =
     (if \<not> un_reverse u then un_order u
      else map (\<lambda>t. \<lparr>ot_column = ot_column t, ot_descending = \<not> ot_descending t, ot_nulls = reverse_nulls t\<rparr>) (un_order u))"

definition union_page_size :: "'f pg_union \<Rightarrow> pyval \<Rightarrow> row \<Rightarrow> int option res" where
  "union_page_size u ctx source_values =
     bind_res (resolve_placeholder (if un_reverse u then un_last u else un_first u) ctx source_values) size_of_value"

definition union_page_limit :: "'f pg_union \<Rightarrow> pyval \<Rightarrow> row \<Rightarrow> int option res" where
  "union_page_limit u ctx source_values =
     bind_res (union_page_size u ctx source_values) (\<lambda>size. Inr (case size of None \<Rightarrow> None | Some n \<Rightarrow> Some (n + 1)))"

section \<open>Statements\<close>

text \<open>A leg: its table, its columns (its own, or NULL), its labelled literals and its clauses.\<close>

record union_leg =
  ul_table :: "string \<times> string"
  ul_columns :: "(string \<times> bool) list"
  ul_literals :: row
  ul_match :: "key_clause option"
  ul_where :: "predicate list"

datatype union_statement =
    Union_Rows "union_leg list" "string list" "order_clause list" bool
  | Union_Window "union_leg list" "string list" "string list" "order_clause list" bool
  | Union_Total "union_leg list"
  | Union_Totals "union_leg list" "string list"

text \<open>The type tag is compared as this member's literal: a leg has no such column.\<close>

definition member_exprs :: "'f union_member \<Rightarrow> string \<Rightarrow> sql_expr option" where
  "member_exprs m c = (if c = typename_column then Some (Literal (VStr (um_type m))) else None)"

definition union_cursor_predicate ::
  "'f pg_union \<Rightarrow> 'f union_member \<Rightarrow> pyval list option \<Rightarrow> pyval list option \<Rightarrow> predicate option res" where
  "union_cursor_predicate u m after_values before_values =
     (case (if un_reverse u then before_values else after_values) of
        None \<Rightarrow> Inr None
      | Some vals \<Rightarrow>
          bind_res (keyset_where (un_order u) vals (\<not> un_reverse u) (column_type (um_resource (hd (un_members u))))
              (member_exprs m))
            (\<lambda>p. Inr (Some p)))"

definition member_match_clause :: "'f pg_union \<Rightarrow> 'f union_member \<Rightarrow> pyval list \<Rightarrow> key_clause option res" where
  "member_match_clause u m unique_keys =
     (if un_per_parent u
      then bind_res (member_match_columns m) (\<lambda>cols. Inr (Some (match_predicate cols unique_keys)))
      else Inr None)"

definition branch_columns :: "'f pg_union \<Rightarrow> 'f union_member \<Rightarrow> (string \<times> bool) list" where
  "branch_columns u m =
     map (\<lambda>c. (c, True)) (un_shared u)
     @ map (\<lambda>c. (c, c \<in> set (stored_columns (um_resource m)))) (un_member_columns u)"

definition branch_select ::
  "'f pg_union \<Rightarrow> 'f union_member \<Rightarrow> pyval list \<Rightarrow> pyval list option \<Rightarrow> pyval list option \<Rightarrow> union_leg res" where
  "branch_select u m unique_keys after_values before_values =
     bind_res (member_match_clause u m unique_keys) (\<lambda>match.
     bind_res (union_cursor_predicate u m after_values before_values) (\<lambda>cursor.
     Inr \<lparr>ul_table = (rs_schema (um_resource m), rs_table (um_resource m)), ul_columns = branch_columns u m,
          ul_literals = [(typename_column, VStr (um_type m))], ul_match = match,
          ul_where = (case cursor of None \<Rightarrow> [] | Some p \<Rightarrow> [p]) @ um_where m\<rparr>))"

definition union_subquery ::
  "'f pg_union \<Rightarrow> pyval list \<Rightarrow> pyval list option \<Rightarrow> pyval list option \<Rightarrow> union_leg list res" where
  "union_subquery u unique_keys after_values before_values =
     map_res (\<lambda>m. branch_select u m unique_keys after_values before_values) (un_members u)"

definition projected_columns :: "'f pg_union \<Rightarrow> string list" where
  "projected_columns u = un_shared u @ un_member_columns u @ [typename_column]"

definition order_clauses_over :: "order_term list \<Rightarrow> order_clause list" where
  "order_clauses_over terms =
     map (\<lambda>t. \<lparr>oc_column = ot_column t, oc_desc = ot_descending t,
               oc_nulls_first = (if ot_nulls t = Some ''first'' then Some True
                                 else if ot_nulls t = Some ''last'' then Some False else None)\<rparr>) terms"

definition union_page_query ::
  "'f pg_union \<Rightarrow> pyval list \<Rightarrow> pyval \<Rightarrow> row \<Rightarrow> pyval list option \<Rightarrow> pyval list option \<Rightarrow> union_statement res" where
  "union_page_query u unique_keys ctx source_values after_values before_values =
     bind_res (union_subquery u unique_keys after_values before_values) (\<lambda>legs.
     bind_res (union_page_limit u ctx source_values) (\<lambda>limit.
       let order = order_clauses_over (union_effective_order u) in
       Inr (if \<not> un_per_parent u then Union_Rows legs (projected_columns u) order (limit \<noteq> None)
            else Union_Window legs (projected_columns u) (un_match u) order (limit \<noteq> None))))"

definition count_branch_select :: "'f pg_union \<Rightarrow> 'f union_member \<Rightarrow> pyval list \<Rightarrow> union_leg res" where
  "count_branch_select u m unique_keys =
     bind_res (member_match_clause u m unique_keys) (\<lambda>match.
     Inr \<lparr>ul_table = (rs_schema (um_resource m), rs_table (um_resource m)),
          ul_columns = (if un_per_parent u then map (\<lambda>c. (c, True)) (un_match u) else []),
          ul_literals = (if un_per_parent u then [] else [(''__one'', VInt 1)]), ul_match = match,
          ul_where = um_where m\<rparr>)"

definition union_count_query :: "'f pg_union \<Rightarrow> pyval list \<Rightarrow> union_statement res" where
  "union_count_query u unique_keys =
     bind_res (map_res (\<lambda>m. count_branch_select u m unique_keys) (un_members u)) (\<lambda>legs.
       Inr (if \<not> un_per_parent u then Union_Total legs else Union_Totals legs (un_match u)))"

section \<open>The server\<close>

text \<open>A row of the union with the cells it stands for.\<close>

type_synonym 'v union_row = "row \<times> 'v cells"

definition leg_row :: "(string \<times> bool) list \<Rightarrow> row \<Rightarrow> row \<Rightarrow> row" where
  "leg_row columns literals r =
     map (\<lambda>(c, own). (c, if own then (case map_of r c of None \<Rightarrow> VNone | Some v \<Rightarrow> v) else VNone)) columns @ literals"

definition leg_cells :: "'v server \<Rightarrow> (string \<times> bool) list \<Rightarrow> row \<Rightarrow> row \<Rightarrow> 'v cells" where
  "leg_cells sv columns literals r c =
     (case map_of columns c of
        Some own \<Rightarrow> (if own then sv_view sv r c else None)
      | None \<Rightarrow> (case map_of literals c of None \<Rightarrow> None | Some v \<Rightarrow> coerce (sv_db sv) None v))"

definition leg_rows :: "('v::linorder) server \<Rightarrow> row \<Rightarrow> union_leg \<Rightarrow> 'v union_row list res" where
  "leg_rows sv params l =
     bind_res (matched_rows sv params (ul_table l) (ul_match l) (ul_where l)) (\<lambda>rows.
       Inr (map (\<lambda>r. (leg_row (ul_columns l) (ul_literals l) r, leg_cells sv (ul_columns l) (ul_literals l) r)) rows))"

definition union_rows :: "('v::linorder) server \<Rightarrow> row \<Rightarrow> union_leg list \<Rightarrow> 'v union_row list res" where
  "union_rows sv params legs = bind_res (map_res (leg_rows sv params) legs) (\<lambda>rss. Inr (concat rss))"

definition union_number ::
  "string list \<Rightarrow> order_clause list \<Rightarrow> ('v::linorder) union_row list \<Rightarrow> 'v union_row \<Rightarrow> nat" where
  "union_number cols clauses rows x =
     Suc (length (filter (\<lambda>y. map (snd y) cols = map (snd x) cols \<and> row_before clauses (snd y) (snd x)) rows))"

fun answer_union :: "('v::linorder) server \<Rightarrow> union_statement \<Rightarrow> row \<Rightarrow> row list res" where
  "answer_union sv (Union_Rows legs columns clauses bounded) params =
     bind_res (union_rows sv params legs) (\<lambda>rows.
     bind_res (row_bound params (if bounded then Some (Inr ''page_limit'') else None)) (\<lambda>lim.
       let ordered = sort_key (union_number [] clauses rows) rows
       in Inr (map (\<lambda>x. project columns (fst x)) (case lim of None \<Rightarrow> ordered | Some n \<Rightarrow> take n ordered))))"
| "answer_union sv (Union_Window legs columns cols clauses bounded) params =
     bind_res (union_rows sv params legs) (\<lambda>rows.
     bind_res (if bounded then int_param params ''page_limit'' else Inr (Some 0)) (\<lambda>lim.
       Inr (map (\<lambda>x. project columns (fst x))
         (case lim of
            None \<Rightarrow> []
          | Some n \<Rightarrow>
              (let rn = union_number cols clauses rows
               in sort_key (\<lambda>x. map (\<lambda>c. the (snd x c)) cols)
                    (sort_key rn (filter (\<lambda>x. bounded \<longrightarrow> int (rn x) \<le> n) rows)))))))"
| "answer_union sv (Union_Total legs) params =
     bind_res (union_rows sv params legs) (\<lambda>rows. Inr [[(''__total'', VInt (int (length rows)))]])"
| "answer_union sv (Union_Totals legs cols) params =
     bind_res (union_rows sv params legs) (\<lambda>rows.
       Inr (map (\<lambda>cells. let members = filter (\<lambda>x. map (snd x) cols = cells) rows
                         in project cols (fst (hd members)) @ [(''__total'', VInt (int (length members)))])
         (remdups (map (\<lambda>x. map (snd x) cols) rows))))"

section \<open>Running the statements\<close>

definition union_row_key :: "'f pg_union \<Rightarrow> row \<Rightarrow> pyval res" where
  "union_row_key u r = grouping_key r (un_match u)"

fun union_totals :: "'f pg_union \<Rightarrow> row list \<Rightarrow> (pyval \<times> pyval) list \<Rightarrow> (pyval \<times> pyval) list res" where
  "union_totals u [] totals = Inr totals"
| "union_totals u (r # rows) totals =
     bind_res (union_row_key u r) (\<lambda>k.
     bind_res (row_get r ''__total'') (\<lambda>n.
       if \<not> hashable k then Inl (TypeError ''unhashable type'') else union_totals u rows (dict_put totals k n)))"

definition root_total :: "row list \<Rightarrow> (pyval \<times> pyval) list res" where
  "root_total count_rows =
     (case count_rows of [] \<Rightarrow> Inr [(VNone, VInt 0)] | r # _ \<Rightarrow> bind_res (row_get r ''__total'') (\<lambda>n. Inr [(VNone, n)]))"

definition union_run_queries ::
  "(union_statement \<Rightarrow> row \<Rightarrow> row list res) \<Rightarrow> ('f \<Rightarrow> pyval \<Rightarrow> pyval res) \<Rightarrow> (string \<Rightarrow> string) \<Rightarrow> 'f pg_union
   \<Rightarrow> pyval list \<Rightarrow> pyval \<Rightarrow> row \<Rightarrow> (row list \<times> (pyval \<times> pyval) list) res" where
  "union_run_queries exec call_transform sha256 u unique_keys ctx source_values =
     bind_res (union_cursor_values sha256 u ctx source_values) (\<lambda>(after_values, before_values).
     bind_res (member_where_params call_transform u ctx source_values) (\<lambda>member_params.
     bind_res (union_page_limit u ctx source_values) (\<lambda>limit.
       let keyed = (if un_per_parent u \<and> \<not> un_composite u then dict_set member_params ''keys'' (VList unique_keys)
                    else member_params);
           params = (case limit of None \<Rightarrow> keyed | Some n \<Rightarrow> dict_set keyed ''page_limit'' (VInt n)) in
       bind_res (union_page_query u unique_keys ctx source_values after_values before_values) (\<lambda>q.
       bind_res (exec q params) (\<lambda>rows.
       bind_res (if un_needs_total u
           then bind_res (union_count_query u unique_keys) (\<lambda>cq.
                bind_res (exec cq keyed) (\<lambda>count_rows.
                if un_per_parent u then union_totals u count_rows [] else root_total count_rows))
           else Inr []) (\<lambda>totals.
       Inr (rows, totals)))))))"

section \<open>Assembling a connection\<close>

text \<open>Of two members with one type name the last is found.\<close>

definition member_by_type :: "'f pg_union \<Rightarrow> string \<Rightarrow> 'f union_member option" where
  "member_by_type u = map_of (rev (map (\<lambda>m. (um_type m, m)) (un_members u)))"

definition decode_member_row :: "'f pg_union \<Rightarrow> row \<Rightarrow> row res" where
  "decode_member_row u r =
     bind_res (row_get r typename_column) (\<lambda>tag.
       case tag of
         VStr name \<Rightarrow> (case member_by_type u name of
                         None \<Rightarrow> Inl (KeyError ''union row carries unknown __typename'')
                       | Some m \<Rightarrow> decode_row (um_resource m) r)
       | _ \<Rightarrow> Inl (if hashable tag then KeyError ''union row carries unknown __typename'' else TypeError ''unhashable type''))"

definition union_edge ::
  "(string \<Rightarrow> string) \<Rightarrow> (pyval \<Rightarrow> string) \<Rightarrow> 'f pg_union \<Rightarrow> row \<Rightarrow> (row \<times> string) res" where
  "union_edge sha256 to_text u r =
     bind_res (encode_keyset_cursor sha256 to_text (un_order u) r) (\<lambda>cursor.
     bind_res (decode_member_row u r) (\<lambda>decoded.
     bind_res (map_res (\<lambda>c. bind_res (row_get decoded c) (\<lambda>v. Inr (c, v))) (projected_columns u))
       (\<lambda>node. Inr (dict_update [] node, cursor))))"

definition union_build_connection ::
  "(string \<Rightarrow> string) \<Rightarrow> (pyval \<Rightarrow> string) \<Rightarrow> 'f pg_union \<Rightarrow> row list \<Rightarrow> pyval \<Rightarrow> pyval \<Rightarrow> row
   \<Rightarrow> pyval list option \<Rightarrow> pyval list option \<Rightarrow> pyval res" where
  "union_build_connection sha256 to_text u rows n_total ctx source_values after_values before_values =
     bind_res (union_page_size u ctx source_values) (\<lambda>size.
       let has_extra = (case size of None \<Rightarrow> False | Some n \<Rightarrow> int (length rows) > n);
           cut = (case size of Some n \<Rightarrow> (if has_extra then py_take n rows else rows) | None \<Rightarrow> rows);
           page = (if un_reverse u then rev cut else cut)
       in bind_res (map_res (union_edge sha256 to_text u) page) (\<lambda>edges.
          let has_next = (if un_reverse u then before_values \<noteq> None else has_extra);
              has_previous = (if un_reverse u then has_extra else after_values \<noteq> None)
          in Inr (VDict (connection_fields edges n_total has_next has_previous))))"

definition union_execute ::
  "(union_statement \<Rightarrow> row \<Rightarrow> row list res) \<Rightarrow> ('f \<Rightarrow> pyval \<Rightarrow> pyval res) \<Rightarrow> (string \<Rightarrow> string) \<Rightarrow> (pyval \<Rightarrow> string)
   \<Rightarrow> 'f pg_union \<Rightarrow> pyval \<Rightarrow> row \<Rightarrow> nat \<Rightarrow> column list \<Rightarrow> column call" where
  "union_execute exec call_transform sha256 to_text u ctx source_values count values =
     (if \<not> un_per_parent u then Awaitable (
        bind_res (union_run_queries exec call_transform sha256 u [] ctx source_values) (\<lambda>(rows, totals).
        bind_res (union_cursor_values sha256 u ctx source_values) (\<lambda>(after_values, before_values).
        bind_res (union_build_connection sha256 to_text u rows
            (case slot_get totals VNone of None \<Rightarrow> VInt 0 | Some n \<Rightarrow> n) ctx source_values after_values before_values)
          (\<lambda>conn. Inr (replicate count conn)))))
      else
        (case bind_res (map_res (\<lambda>k. normalize_lookup_key k (un_composite u)) (values ! 0)) (\<lambda>keys.
              bind_res (coalesce_keys keys (length keys)) (\<lambda>(unique_keys, _). Inr (keys, unique_keys))) of
           Inl e \<Rightarrow> Raised e
         | Inr (keys, unique_keys) \<Rightarrow>
             (if unique_keys = [] then
                (case bind_res (union_cursor_values sha256 u ctx source_values) (\<lambda>(after_values, before_values).
                      union_build_connection sha256 to_text u [] (VInt 0) ctx source_values after_values before_values) of
                   Inl e \<Rightarrow> Raised e
                 | Inr empty_connection \<Rightarrow> Returned (replicate count empty_connection))
              else Awaitable (
                bind_res (union_run_queries exec call_transform sha256 u unique_keys ctx source_values) (\<lambda>(rows, totals).
                bind_res (union_cursor_values sha256 u ctx source_values) (\<lambda>(after_values, before_values).
                bind_res (group_rows (un_match u) rows) (\<lambda>by_key.
                map_res (\<lambda>i. union_build_connection sha256 to_text u (rows_of_key by_key (keys ! i))
                    (case slot_get totals (keys ! i) of None \<Rightarrow> VInt 0 | Some n \<Rightarrow> n)
                    ctx source_values after_values before_values) [0..<count])))))))"

section \<open>Deduplication identity\<close>

definition member_signature ::
  "(predicate \<Rightarrow> string) \<Rightarrow> 'f pg_union \<Rightarrow> (string \<times> string \<times> string list \<times> string list) list res" where
  "member_signature predicate_key u =
     map_res (\<lambda>m. bind_res (member_match_columns m) (\<lambda>cols.
       Inr (qualified_table (um_resource m), um_type m, cols, where_signature predicate_key m))) (un_members u)"

definition union_cursor_key :: "string option \<Rightarrow> pyval list option \<Rightarrow> pyval" where
  "union_cursor_key source vals =
     (case source of
        Some s \<Rightarrow> VTuple [VStr ''var'', VStr s]
      | None \<Rightarrow> (case vals of None \<Rightarrow> VNone | Some vs \<Rightarrow> VTuple vs))"

record union_identity =
  ui_members :: "(string \<times> string \<times> string list \<times> string list) list"
  ui_columns :: "string list \<times> string list \<times> string list \<times> bool"
  ui_order :: "order_term list"
  ui_sizes :: "page_value \<times> page_value"
  ui_cursors :: "pyval \<times> pyval"
  ui_needs_total :: bool

definition union_dedup_params :: "(predicate \<Rightarrow> string) \<Rightarrow> 'f pg_union \<Rightarrow> union_identity res" where
  "union_dedup_params predicate_key u =
     bind_res (member_signature predicate_key u) (\<lambda>sig.
       Inr \<lparr>ui_members = sig, ui_columns = (un_shared u, un_member_columns u, un_match u, un_per_parent u),
            ui_order = un_order u, ui_sizes = (un_first u, un_last u),
            ui_cursors = (union_cursor_key (un_after_source u) (un_after_values u),
                          union_cursor_key (un_before_source u) (un_before_values u)),
            ui_needs_total = un_needs_total u\<rparr>)"

end
