(* ===== verification/Pg_Union_Laws.thy ===== *)
theory Pg_Union_Laws
  imports Pg_Union Pg_Connection_Laws
begin

text \<open>
  A union is a connection over one table, the members' rows put together: its statements answer what the
  connection's would, so each parent gets the Relay page of its rows in all the members' tables.
\<close>

section \<open>The members as one table\<close>

definition member_table :: "'v server \<Rightarrow> 'f union_member \<Rightarrow> row list" where
  "member_table sv m = sv_tables sv (rs_schema (um_resource m), rs_table (um_resource m))"

definition member_row :: "'f pg_union \<Rightarrow> 'f union_member \<Rightarrow> row \<Rightarrow> row" where
  "member_row u m r = leg_row (branch_columns u m) [(typename_column, VStr (um_type m))] r"

definition member_cells :: "'v server \<Rightarrow> 'f pg_union \<Rightarrow> 'f union_member \<Rightarrow> row \<Rightarrow> 'v cells" where
  "member_cells sv u m r = leg_cells sv (branch_columns u m) [(typename_column, VStr (um_type m))] r"

definition all_rows :: "'v server \<Rightarrow> 'f pg_union \<Rightarrow> ('f union_member \<times> row) list" where
  "all_rows sv u = concat (map (\<lambda>m. map (Pair m) (member_table sv m)) (un_members u))"

text \<open>What a row of the union stands for: the cells of the row it comes from.\<close>

definition merged_view :: "'v server \<Rightarrow> 'f pg_union \<Rightarrow> row \<Rightarrow> 'v cells" where
  "merged_view sv u x =
     (case find (\<lambda>(m, r). member_row u m r = x) (all_rows sv u) of
        None \<Rightarrow> (\<lambda>c. None)
      | Some (m, r) \<Rightarrow> member_cells sv u m r)"

definition union_server :: "('v::linorder) server \<Rightarrow> 'f pg_union \<Rightarrow> row \<Rightarrow> 'v server" where
  "union_server sv u host = sv\<lparr>sv_view := merged_view sv u,
     sv_tables := (\<lambda>t. concat (map (\<lambda>m. map (member_row u m) (filter (where_true sv host (um_where m)) (member_table sv m)))
       (un_members u)))\<rparr>"

definition union_resource :: "'f pg_union \<Rightarrow> pg_resource" where
  "union_resource u = \<lparr>rs_name = [], rs_schema = [], rs_table = [],
     rs_attributes = map (\<lambda>c. (c, as_column (Inl c))) (projected_columns u), rs_primary_key = [],
     rs_column_types = rs_column_types (um_resource (hd (un_members u))), rs_relations = [],
     rs_opt_out_inline = False, rs_customizer_arity = None\<rparr>"

definition as_connection :: "'f pg_union \<Rightarrow> unit pg_connection" where
  "as_connection u = \<lparr>cn_resource = union_resource u, cn_match = un_match u, cn_unique = True, cn_order = un_order u,
     cn_first = un_first u, cn_after = un_after u, cn_last = un_last u, cn_before = un_before u,
     cn_needs_total = un_needs_total u, cn_after_source = un_after_source u, cn_before_source = un_before_source u,
     cn_aggregates = [], cn_group_by = [], cn_reverse = un_reverse u, cn_after_values = un_after_values u,
     cn_before_values = un_before_values u, cn_where = [], cn_custom = \<lparr>cz_binds = [], cz_transforms = []\<rparr>\<rparr>"

text \<open>The members of a union the step was made for: type names the database tells apart, tables whose rows
  the ordering separates and a cursor carries.\<close>

definition tag_cell :: "'v database \<Rightarrow> 'f union_member \<Rightarrow> 'v option" where
  "tag_cell db m = coerce db None (VStr (um_type m))"

definition member_ok :: "('v::linorder) server \<Rightarrow> (pyval \<Rightarrow> string) \<Rightarrow> 'f pg_union \<Rightarrow> 'f union_member \<Rightarrow> bool" where
  "member_ok sv to_text u m \<longleftrightarrow> distinct (map (member_row u m) (member_table sv m)) \<and> tag_cell (sv_db sv) m \<noteq> None
     \<and> (\<forall>a \<in> set (member_table sv m). \<forall>b \<in> set (member_table sv m). a \<noteq> b \<longrightarrow>
          (\<exists>t \<in> set (un_order u). ot_column t \<noteq> typename_column \<and> sv_view sv a (ot_column t) \<noteq> sv_view sv b (ot_column t)))
     \<and> (\<forall>r \<in> set (member_table sv m). lossless (sv_db sv) (column_type (um_resource (hd (un_members u)))) to_text
          (filter (\<lambda>t. ot_column t \<noteq> typename_column) (un_order u)) (sv_view sv) r)"

definition union_ok :: "('v::linorder) server \<Rightarrow> (pyval \<Rightarrow> string) \<Rightarrow> 'f pg_union \<Rightarrow> bool" where
  "union_ok sv to_text u \<longleftrightarrow> un_members u \<noteq> [] \<and> distinct (projected_columns u)
     \<and> distinct (map (tag_cell (sv_db sv)) (un_members u))
     \<and> (\<forall>t \<in> set (un_order u). valid_term t \<and> ot_column t \<in> insert typename_column (set (un_shared u)))
     \<and> typename_column \<in> ot_column ` set (un_order u)
     \<and> column_type (um_resource (hd (un_members u))) typename_column = None
     \<and> (\<forall>m \<in> set (un_members u). member_ok sv to_text u m)"

lemma as_connection_simps [simp]:
  "cn_resource (as_connection u) = union_resource u" "cn_match (as_connection u) = un_match u"
  "cn_order (as_connection u) = un_order u" "cn_reverse (as_connection u) = un_reverse u"
  "cn_where (as_connection u) = []" "cn_aggregates (as_connection u) = []" "cn_group_by (as_connection u) = []"
  "cn_needs_total (as_connection u) = un_needs_total u"
  by (simp_all add: as_connection_def)

lemma union_resource_columns:
  "stored_columns (union_resource u) = projected_columns u" "computed_columns (union_resource u) = []"
  "column_type (union_resource u) = column_type (um_resource (hd (un_members u)))"
  by (simp_all add: union_resource_def stored_columns_def computed_columns_def as_column_def is_computed_def o_def
      column_type_def fun_eq_iff)

lemma union_table: "sv_tables (union_server sv u host) t
    = map (\<lambda>(m, r). member_row u m r) (filter (\<lambda>(m, r). where_true sv host (um_where m) r) (all_rows sv u))"
  by (simp add: union_server_def all_rows_def map_concat filter_concat filter_map o_def)

lemma union_server_simps [simp]:
  "sv_db (union_server sv u host) = sv_db sv" "sv_view (union_server sv u host) = merged_view sv u"
  by (simp_all add: union_server_def)

lemma mem_all_rows: "(m, r) \<in> set (all_rows sv u) \<longleftrightarrow> m \<in> set (un_members u) \<and> r \<in> set (member_table sv m)"
  by (auto simp: all_rows_def)

section \<open>Rows and cells\<close>

lemma branch_columns_names: "map fst (branch_columns u m) = un_shared u @ un_member_columns u"
  by (simp add: branch_columns_def o_def)

lemma member_row_names: "map fst (member_row u m r) = projected_columns u"
  using branch_columns_names [of u m]
  by (simp add: member_row_def leg_row_def projected_columns_def o_def case_prod_beta')

lemma shared_own: "c \<in> set (un_shared u) \<Longrightarrow> map_of (branch_columns u m) c = Some True"
proof -
  assume c: "c \<in> set (un_shared u)"
  have "map_of (map (\<lambda>c. (c, True)) xs) c = Some True" if "c \<in> set xs" for xs
    using that by (induction xs) auto
  with c show ?thesis by (simp add: branch_columns_def map_add_def)
qed

lemma member_cells_shared: "c \<in> set (un_shared u) \<Longrightarrow> member_cells sv u m r c = sv_view sv r c"
  by (simp add: member_cells_def leg_cells_def shared_own)

lemma typename_fresh:
  assumes "distinct (projected_columns u)"
  shows "map_of (branch_columns u m) typename_column = None" and "typename_column \<notin> set (un_shared u)"
proof -
  have n: "typename_column \<notin> set (un_shared u @ un_member_columns u)" using assms by (auto simp: projected_columns_def)
  then show "map_of (branch_columns u m) typename_column = None"
    using branch_columns_names [of u m] by (metis map_of_eq_None_iff set_map)
  show "typename_column \<notin> set (un_shared u)" using n by simp
qed

lemma member_cells_typename:
  "distinct (projected_columns u) \<Longrightarrow> member_cells sv u m r typename_column = tag_cell (sv_db sv) m"
  by (simp add: member_cells_def leg_cells_def typename_fresh tag_cell_def)

lemma leg_row_lookup:
  "map_of (leg_row columns literals r) c
    = (case map_of columns c of
         None \<Rightarrow> map_of literals c
       | Some own \<Rightarrow> Some (if own then (case map_of r c of None \<Rightarrow> VNone | Some v \<Rightarrow> v) else VNone))"
  unfolding leg_row_def by (induction columns) auto

lemma member_row_lookup:
  shows "c \<in> set (un_shared u) \<Longrightarrow> map_of r c = Some v \<Longrightarrow> map_of (member_row u m r) c = Some v"
    and "distinct (projected_columns u) \<Longrightarrow> map_of (member_row u m r) typename_column = Some (VStr (um_type m))"
  by (simp_all add: member_row_def leg_row_lookup shared_own typename_fresh)

lemma find_distinct:
  "distinct (map f xs) \<Longrightarrow> x \<in> set xs \<Longrightarrow> find (\<lambda>y. f y = f x) xs = Some x"
  by (induction xs) (auto simp: image_iff split: if_splits)

lemma all_rows_distinct:
  assumes ok: "union_ok sv to_text u"
  shows "distinct (map (\<lambda>(m, r). member_row u m r) (all_rows sv u))"
proof -
  have d: "distinct (projected_columns u)" using ok by (simp add: union_ok_def)
  have "distinct (map (\<lambda>(m, r). member_row u m r) (concat (map (\<lambda>m. map (Pair m) (member_table sv m)) ms)))"
    if "set ms \<subseteq> set (un_members u)" "distinct (map (tag_cell (sv_db sv)) ms)" for ms
    using that
  proof (induction ms)
    case (Cons m ms)
    have m: "distinct (map (member_row u m) (member_table sv m))" using ok Cons.prems(1) by (auto simp: union_ok_def member_ok_def)
    have other: "member_row u m r \<noteq> member_row u m' r'" if "m' \<in> set ms" for r m' r'
    proof
      assume eq: "member_row u m r = member_row u m' r'"
      have "um_type m = um_type m'"
        using member_row_lookup(2) [OF d, of m r] member_row_lookup(2) [OF d, of m' r'] by (simp add: eq)
      then have "tag_cell (sv_db sv) m = tag_cell (sv_db sv) m'" by (simp add: tag_cell_def)
      with Cons.prems(2) that show False by auto
    qed
    let ?rest = "map (\<lambda>(m, r). member_row u m r) (concat (map (\<lambda>m. map (Pair m) (member_table sv m)) ms))"
    have "distinct ?rest" using Cons by simp
    moreover have "set (map (member_row u m) (member_table sv m)) \<inter> set ?rest = {}" using other by auto
    moreover have "map (\<lambda>(m, r). member_row u m r) (map (Pair m) (member_table sv m)) = map (member_row u m) (member_table sv m)"
      by simp
    ultimately show ?case unfolding list.map concat.simps map_append distinct_append using m by metis
  qed simp
  with ok show ?thesis by (simp add: all_rows_def union_ok_def)
qed

lemma merged_view_row:
  assumes "union_ok sv to_text u" and "m \<in> set (un_members u)" and "r \<in> set (member_table sv m)"
  shows "merged_view sv u (member_row u m r) = member_cells sv u m r"
proof -
  have "(m, r) \<in> set (all_rows sv u)" using assms(2,3) by (simp add: mem_all_rows)
  from find_distinct [OF all_rows_distinct [OF assms(1)] this] show ?thesis
    by (simp add: merged_view_def case_prod_beta')
qed

lemma mem_union_table:
  "x \<in> set (sv_tables (union_server sv u host) t) \<longleftrightarrow>
     (\<exists>m r. m \<in> set (un_members u) \<and> r \<in> set (member_table sv m) \<and> where_true sv host (um_where m) r \<and> x = member_row u m r)"
  by (fastforce simp: union_table mem_all_rows)

lemma union_distinct: "union_ok sv to_text u \<Longrightarrow> distinct (sv_tables (union_server sv u host) t)"
  unfolding union_table by (rule distinct_map_filter [OF all_rows_distinct])

lemma union_separated:
  assumes ok: "union_ok sv to_text u" and x: "x \<in> set (sv_tables (union_server sv u host) t)"
    and y: "y \<in> set (sv_tables (union_server sv u host) t)" and xy: "x \<noteq> y"
  shows "terms_before (un_order u) (merged_view sv u x) (merged_view sv u y)
    \<or> terms_before (un_order u) (merged_view sv u y) (merged_view sv u x)"
proof (rule ccontr)
  assume n: "\<not> ?thesis"
  obtain m r where m: "m \<in> set (un_members u)" "r \<in> set (member_table sv m)" "x = member_row u m r"
    using x by (auto simp: mem_union_table)
  obtain m' r' where m': "m' \<in> set (un_members u)" "r' \<in> set (member_table sv m')" "y = member_row u m' r'"
    using y by (auto simp: mem_union_table)
  have d: "distinct (projected_columns u)" and tags: "distinct (map (tag_cell (sv_db sv)) (un_members u))"
    and cols: "\<forall>t \<in> set (un_order u). ot_column t \<in> insert typename_column (set (un_shared u))"
    and tn: "typename_column \<in> ot_column ` set (un_order u)" using ok by (auto simp: union_ok_def)
  have eq: "member_cells sv u m r (ot_column t) = member_cells sv u m' r' (ot_column t)" if "t \<in> set (un_order u)" for t
    using terms_before_total [of "un_order u" "merged_view sv u x" "merged_view sv u y"] n that
    by (simp add: m m' merged_view_row [OF ok])
  obtain t where t: "t \<in> set (un_order u)" "ot_column t = typename_column" using tn by force
  have "tag_cell (sv_db sv) m = tag_cell (sv_db sv) m'" using eq [OF t(1)] by (simp add: t(2) member_cells_typename [OF d])
  then have mm: "m = m'" using tags m(1) m'(1) by (auto simp: distinct_map dest: inj_onD)
  have "sv_view sv r (ot_column t) = sv_view sv r' (ot_column t)"
    if t: "t \<in> set (un_order u)" "ot_column t \<noteq> typename_column" for t
  proof -
    have "ot_column t \<in> set (un_shared u)" using cols t by auto
    with eq [OF t(1)] show ?thesis by (simp add: member_cells_shared)
  qed
  moreover have "r \<noteq> r'" using xy mm m(3) m'(3) by auto
  moreover have "member_ok sv to_text u m" "r' \<in> set (member_table sv m)" using ok m(1) m'(2) mm by (auto simp: union_ok_def)
  ultimately show False using m(2) unfolding member_ok_def by blast
qed

lemma union_lossless:
  assumes ok: "union_ok sv to_text u" and x: "x \<in> set (sv_tables (union_server sv u host) t)"
  shows "lossless (sv_db sv) (column_type (union_resource u)) to_text (un_order u) (merged_view sv u) x"
proof -
  obtain m r where m: "m \<in> set (un_members u)" "r \<in> set (member_table sv m)" "x = member_row u m r"
    using x by (auto simp: mem_union_table)
  let ?type = "column_type (um_resource (hd (un_members u)))"
  have d: "distinct (projected_columns u)" and ty: "?type typename_column = None"
    and mok: "member_ok sv to_text u m" using ok m(1) by (auto simp: union_ok_def)
  have "\<exists>v. map_of x (ot_column t) = Some v \<and> coerce (sv_db sv) (?type (ot_column t)) (encode_value to_text v) = member_cells sv u m r (ot_column t)
      \<and> (encode_value to_text v = VNone) = (member_cells sv u m r (ot_column t) = None)" if t: "t \<in> set (un_order u)" for t
  proof (cases "ot_column t = typename_column")
    case True
    then show ?thesis using mok
      by (simp add: m(3) member_row_lookup(2) [OF d] member_cells_typename [OF d] ty tag_cell_def member_ok_def)
  next
    case False
    then have c: "ot_column t \<in> set (un_shared u)" using ok t by (auto simp: union_ok_def)
    have "lossless (sv_db sv) ?type to_text (filter (\<lambda>t. ot_column t \<noteq> typename_column) (un_order u)) (sv_view sv) r"
      using mok m(2) by (simp add: member_ok_def)
    then obtain v where v: "map_of r (ot_column t) = Some v" "coerce (sv_db sv) (?type (ot_column t)) (encode_value to_text v) = sv_view sv r (ot_column t)"
      "(encode_value to_text v = VNone) = (sv_view sv r (ot_column t) = None)" using t False by (auto simp: lossless_def)
    with member_row_lookup(1) [OF c v(1), of m] show ?thesis by (simp add: m(3) member_cells_shared [OF c])
  qed
  then show ?thesis by (simp add: lossless_def union_resource_columns m(3) merged_view_row [OF ok m(1,2)])
qed

section \<open>Keys\<close>

definition keyed_ok :: "'v server \<Rightarrow> 'f pg_union \<Rightarrow> bool" where
  "keyed_ok sv u \<longleftrightarrow> un_per_parent u \<and> un_match u \<noteq> [] \<and> set (un_match u) \<subseteq> set (un_shared u) \<and> ''__total'' \<notin> set (un_match u)
     \<and> (\<forall>m \<in> set (un_members u). member_match_columns m = Inr (un_match u)
          \<and> (\<forall>r \<in> set (member_table sv m). \<forall>c \<in> set (un_match u). \<exists>v. map_of r c = Some v \<and> hashable v \<and> py_wf v))"

lemma grouping_key_agree: "(\<And>c. c \<in> set cols \<Longrightarrow> map_of r c = map_of s c) \<Longrightarrow> cols \<noteq> [] \<Longrightarrow> grouping_key r cols = grouping_key s cols"
proof -
  assume c: "\<And>c. c \<in> set cols \<Longrightarrow> map_of r c = map_of s c" and cols: "cols \<noteq> []"
  then have get: "row_get r c = row_get s c" if "c \<in> set cols" for c using that by (simp add: row_get_def)
  then have "map_res (row_get r) cols = map_res (row_get s) cols" by (intro map_res_cong) auto
  with get cols show ?thesis by (cases cols; cases "tl cols") (simp_all add: grouping_key_def)
qed

lemma keyed_row:
  assumes "keyed_ok sv u" and "m \<in> set (un_members u)" and "r \<in> set (member_table sv m)"
  shows "c \<in> set (un_match u) \<Longrightarrow> \<exists>v. map_of r c = Some v \<and> map_of (member_row u m r) c = Some v \<and> hashable v \<and> py_wf v"
    and "has_key (un_match u) k (member_row u m r) = has_key (un_match u) k r"
    and "map (member_cells sv u m r) (un_match u) = map (sv_view sv r) (un_match u)"
    and "parts_match db (un_match u) ps (member_cells sv u m r) = parts_match db (un_match u) ps (sv_view sv r)"
proof -
  have sh: "c \<in> set (un_shared u)" if "c \<in> set (un_match u)" for c using assms(1) that by (auto simp: keyed_ok_def)
  have *: "\<exists>v. map_of r c = Some v \<and> map_of (member_row u m r) c = Some v \<and> hashable v \<and> py_wf v" if c: "c \<in> set (un_match u)" for c
  proof -
    obtain v where "map_of r c = Some v" "hashable v" "py_wf v" using assms c by (fastforce simp: keyed_ok_def)
    with member_row_lookup(1) [OF sh [OF c] this(1), of m] show ?thesis by simp
  qed
  then show "c \<in> set (un_match u) \<Longrightarrow> \<exists>v. map_of r c = Some v \<and> map_of (member_row u m r) c = Some v \<and> hashable v \<and> py_wf v" .
  have "grouping_key (member_row u m r) (un_match u) = grouping_key r (un_match u)"
    using * assms(1) by (intro grouping_key_agree) (force simp: keyed_ok_def)+
  then show "has_key (un_match u) k (member_row u m r) = has_key (un_match u) k r" by (simp add: has_key_def)
  show "map (member_cells sv u m r) (un_match u) = map (sv_view sv r) (un_match u)" using sh by (simp add: member_cells_shared)
  have "parts_match db (un_match u) ps (member_cells sv u m r) = parts_match db (un_match u) ps (sv_view sv r)" for ps
  proof -
    have "member_cells sv u m r c = sv_view sv r c" if "(v, c) \<in> set (zip ps (un_match u))" for v c
      using sh set_zip_rightD [OF that] by (simp add: member_cells_shared)
    then show ?thesis by (auto simp: parts_match_def)
  qed
  then show "parts_match db (un_match u) ps (member_cells sv u m r) = parts_match db (un_match u) ps (sv_view sv r)" .
qed

lemma union_key_ok:
  assumes ok: "union_ok sv to_text u" and keyed: "keyed_ok sv u"
    and k: "\<forall>m \<in> set (un_members u). key_ok sv (um_resource m) (un_match u) k"
  shows "key_ok (union_server sv u host) (union_resource u) (un_match u) k"
proof -
  have ne: "un_members u \<noteq> []" using ok by (simp add: union_ok_def)
  then have hd: "hd (un_members u) \<in> set (un_members u)" by simp
  have base: "hashable k \<and> py_wf k" using k hd by (auto simp: key_ok_def)
  have "\<exists>ps. key_parts (match_predicate (un_match u) []) k = Inr ps \<and> length ps = length (un_match u)
        \<and> (\<forall>v \<in> set ps. bindable (sv_db sv) v)
        \<and> (\<forall>x \<in> set (sv_tables (union_server sv u host) (rs_schema (union_resource u), rs_table (union_resource u))).
              parts_match (sv_db sv) (un_match u) ps (merged_view sv u x) = has_key (un_match u) k x)" if nn: "k \<noteq> VNone"
  proof -
    have each: "\<exists>ps. key_parts (match_predicate (un_match u) []) k = Inr ps \<and> length ps = length (un_match u)
        \<and> (\<forall>v \<in> set ps. bindable (sv_db sv) v)
        \<and> (\<forall>r \<in> set (member_table sv m). parts_match (sv_db sv) (un_match u) ps (sv_view sv r) = has_key (un_match u) k r)"
      if "m \<in> set (un_members u)" for m using k that nn by (simp add: key_ok_def member_table_def)
    then obtain ps where ps: "key_parts (match_predicate (un_match u) []) k = Inr ps" "length ps = length (un_match u)"
      "\<forall>v \<in> set ps. bindable (sv_db sv) v" using hd by blast
    have "parts_match (sv_db sv) (un_match u) ps (merged_view sv u (member_row u m r)) = has_key (un_match u) k (member_row u m r)"
      if mr: "m \<in> set (un_members u)" "r \<in> set (member_table sv m)" for m r
      using each [OF mr(1)] mr ps(1) by (auto simp: merged_view_row [OF ok] keyed_row [OF keyed])
    with ps show ?thesis by (auto simp: mem_union_table)
  qed
  with base show ?thesis by (simp add: key_ok_def)
qed

lemma union_paged:
  assumes ok: "union_ok sv to_text u" and keyed: "keyed_ok sv u"
  shows "paged_table (union_server sv u host) to_text (as_connection u)"
proof -
  let ?T = "sv_tables (union_server sv u host) (rs_schema (union_resource u), rs_table (union_resource u))"
  have d: "distinct (projected_columns u)" using ok by (simp add: union_ok_def)
  then have "resource_ok (union_resource u)"
    by (auto simp: resource_ok_def union_resource_def as_column_def o_def)
  moreover have "map fst x = projected_columns u \<and> (\<forall>c \<in> set (un_match u). \<exists>v. map_of x c = Some v \<and> hashable v \<and> py_wf v)"
    if x: "x \<in> set ?T" for x
  proof -
    obtain m r where m: "m \<in> set (un_members u)" "r \<in> set (member_table sv m)" "x = member_row u m r"
      using x by (auto simp: mem_union_table)
    with keyed_row(1) [OF keyed m(1,2)] show ?thesis by (auto simp: member_row_names)
  qed
  ultimately have "table_ok (union_server sv u host) (union_resource u) (un_match u)"
    using keyed by (simp add: table_ok_def union_resource_columns keyed_ok_def)
  moreover have "\<forall>t \<in> set (un_order u). valid_term t" "un_order u \<noteq> []" using ok by (auto simp: union_ok_def)
  ultimately show ?thesis
    using keyed union_distinct [OF ok] union_separated [OF ok] union_lossless [OF ok]
    unfolding paged_table_def Let_def by (simp add: keyed_ok_def)
qed

section \<open>What the legs answer\<close>

definition union_seeks :: "'f pg_union \<Rightarrow> ('v::linorder) cells option \<Rightarrow> 'v cells \<Rightarrow> bool" where
  "union_seeks u s r =
     (case s of
        None \<Rightarrow> True
      | Some c \<Rightarrow> if un_reverse u then terms_before (un_order u) r c else terms_before (un_order u) c r)"

text \<open>Each leg's cursor predicate, on the columns the leg has, is the seek on the row of the union.\<close>

lemma union_predicate_seeks:
  assumes ok: "union_ok sv to_text u" and m: "m \<in> set (un_members u)"
    and cells: "cursor_cells sv (as_connection u) (if un_reverse u then bv else av) s"
  shows "\<exists>p. union_cursor_predicate u m av bv = Inr p
    \<and> (\<forall>q \<in> set (case p of None \<Rightarrow> [] | Some q \<Rightarrow> [q]). bind_names q \<subseteq> cursor_binds)
    \<and> (\<forall>r. (\<forall>q \<in> set (case p of None \<Rightarrow> [] | Some q \<Rightarrow> [q]). sql_true (sv_db sv) (sv_view sv r) q)
          = union_seeks u s (member_cells sv u m r))"
proof (cases "if un_reverse u then bv else av")
  case None
  with cells have "s = None" by (auto simp: cursor_cells_def split: option.splits)
  with None show ?thesis by (simp add: union_cursor_predicate_def union_seeks_def)
next
  case (Some vs)
  with cells obtain c where c: "s = Some c"
    and row: "cursor_row (sv_db sv) (column_type (um_resource (hd (un_members u)))) (un_order u) vs c"
    by (auto simp: cursor_cells_def union_resource_columns split: option.splits)
  have d: "distinct (projected_columns u)" and ts: "\<forall>t \<in> set (un_order u). valid_term t" "un_order u \<noteq> []"
    and cols: "\<forall>t \<in> set (un_order u). ot_column t \<in> insert typename_column (set (un_shared u))"
    using ok by (auto simp: union_ok_def)
  have ex: "exprs_give (sv_db sv) (sv_view sv r) (member_exprs m) (ot_column ` set (un_order u)) (member_cells sv u m r)" for r
    unfolding exprs_give_def
  proof
    fix c assume c: "c \<in> ot_column ` set (un_order u)"
    show "eval_expr (sv_db sv) (sv_view sv r) (case member_exprs m c of None \<Rightarrow> Column c | Some x \<Rightarrow> x) = member_cells sv u m r c"
    proof (cases "c = typename_column")
      case True
      then show ?thesis by (simp add: member_exprs_def member_cells_typename [OF d]) (simp add: tag_cell_def)
    next
      case False
      then have "c \<in> set (un_shared u)" using cols c by auto
      then show ?thesis using False by (simp add: member_exprs_def member_cells_shared)
    qed
  qed
  obtain p where p: "keyset_where (un_order u) vs (\<not> un_reverse u) (column_type (um_resource (hd (un_members u)))) (member_exprs m) = Inr p"
    using keyset_gives [OF row ts ex, of "\<not> un_reverse u"] by blast
  have "sql_true (sv_db sv) (sv_view sv r) p = union_seeks u s (member_cells sv u m r)" for r
  proof -
    obtain p' where "keyset_where (un_order u) vs (\<not> un_reverse u) (column_type (um_resource (hd (un_members u)))) (member_exprs m) = Inr p'"
      "sql_true (sv_db sv) (sv_view sv r) p' = (if \<not> un_reverse u then terms_before (un_order u) c (member_cells sv u m r)
          else terms_before (un_order u) (member_cells sv u m r) c)"
      by (rule keyset_gives [OF row ts ex, of "\<not> un_reverse u" r])
    with p c show ?thesis by (simp add: union_seeks_def)
  qed
  moreover have "bind_names p \<subseteq> cursor_binds"
    by (rule keyset_binds [OF p]) (auto simp: member_exprs_def split: if_splits)
  ultimately show ?thesis using Some p by (simp add: union_cursor_predicate_def)
qed

text \<open>The parameters of a request: the members' placeholders, the keys and the page size.\<close>

definition request_ok :: "'f pg_union \<Rightarrow> row \<Rightarrow> pyval list \<Rightarrow> row \<Rightarrow> bool" where
  "request_ok u host uk params \<longleftrightarrow> (\<forall>x. x \<notin> {''keys'', ''page_limit''} \<longrightarrow> map_of params x = map_of host x)
     \<and> fst ` set params \<subseteq> fst ` set host \<union> {''keys'', ''page_limit''}
     \<and> (un_per_parent u \<and> length (un_match u) = 1 \<longrightarrow> map_of params ''keys'' = Some (VList uk))"

definition keys_ok :: "('v::linorder) server \<Rightarrow> 'f pg_union \<Rightarrow> pyval list \<Rightarrow> bool" where
  "keys_ok sv u uk \<longleftrightarrow> (un_per_parent u \<longrightarrow> keyed_ok sv u \<and>
     (\<forall>k \<in> set uk. k \<noteq> VNone \<and> (\<forall>m \<in> set (un_members u). key_ok sv (um_resource m) (un_match u) k)))"

definition members_where :: "'f pg_union \<Rightarrow> predicate list" where
  "members_where u = concat (map um_where (un_members u))"

definition in_keys :: "'f pg_union \<Rightarrow> pyval list \<Rightarrow> row \<Rightarrow> bool" where
  "in_keys u uk r \<longleftrightarrow> (un_per_parent u \<longrightarrow> (\<exists>k \<in> set uk. has_key (un_match u) k r))"

lemma where_true_append: "where_true sv params (ps @ qs) r = (where_true sv params ps r \<and> where_true sv params qs r)"
  by (auto simp: where_true_def)

lemma leg_where:
  assumes host: "host_ok host (members_where u)" and m: "m \<in> set (un_members u)" and req: "request_ok u host uk params"
    and ps: "\<forall>q \<in> set ps. bind_names q \<subseteq> cursor_binds"
  shows "where_true sv params (ps @ um_where m) r
    = (where_true sv host (um_where m) r \<and> (\<forall>q \<in> set ps. sql_true (sv_db sv) (sv_view sv r) q))"
proof -
  have "cursor_binds \<inter> {''keys'', ''page_limit''} = {}" by (auto simp: cursor_binds_def)
  moreover have "fst ` set host \<inter> cursor_binds = {}"
    using host unfolding host_ok_def by (elim conjE) (rule disjoint_Un_right)
  moreover have "fst ` set params \<subseteq> fst ` set host \<union> {''keys'', ''page_limit''}" using req by (simp add: request_ok_def)
  ultimately have fresh: "cursor_binds \<inter> fst ` set params = {}" by (rule disjoint_cover)
  have "bind_params params q = q" if "q \<in> set ps" for q
    using ps that fresh by (intro bind_params_fresh) blast
  moreover have "where_true sv params (um_where m) r = where_true sv host (um_where m) r"
  proof (rule where_true_cong)
    fix p n assume "p \<in> set (um_where m)" "n \<in> bind_names p"
    then have "n \<notin> {''keys'', ''page_limit''}" using host m by (auto simp: host_ok_def members_where_def)
    then show "map_of params n = map_of host n" using req by (simp add: request_ok_def)
  qed
  ultimately show ?thesis by (auto simp: where_true_append) (auto simp: where_true_def)
qed

lemma leg_rows_run:
  assumes host: "host_ok host (members_where u)" and m: "m \<in> set (un_members u)" and req: "request_ok u host uk params"
    and ps: "\<forall>q \<in> set ps. bind_names q \<subseteq> cursor_binds" and keys: "keys_ok sv u uk"
    and S: "\<And>r. (\<forall>q \<in> set ps. sql_true (sv_db sv) (sv_view sv r) q) = S r"
  shows "\<exists>mc. member_match_clause u m uk = Inr mc \<and> leg_rows sv params
      \<lparr>ul_table = (rs_schema (um_resource m), rs_table (um_resource m)), ul_columns = cols, ul_literals = lits, ul_match = mc,
       ul_where = ps @ um_where m\<rparr>
    = Inr (map (\<lambda>r. (leg_row cols lits r, leg_cells sv cols lits r))
        (filter (\<lambda>r. in_keys u uk r \<and> where_true sv host (um_where m) r \<and> S r) (member_table sv m)))"
proof (cases "un_per_parent u")
  case True
  then have keyed: "keyed_ok sv u" and uk: "\<forall>k \<in> set uk. k \<noteq> VNone \<and> key_ok sv (um_resource m) (un_match u) k"
    using keys m by (auto simp: keys_ok_def)
  have params: "length (un_match u) = 1 \<Longrightarrow> map_of params ''keys'' = Some (VList uk)" using req True by (simp add: request_ok_def)
  have cols: "un_match u \<noteq> []" "member_match_columns m = Inr (un_match u)" using keyed m by (auto simp: keyed_ok_def)
  then show ?thesis
    using True by (simp add: member_match_clause_def leg_rows_def matched_rows_keys [OF uk cols(1) params]
        leg_where [OF host m req ps] S in_keys_def conj_assoc member_table_def)
next
  case False
  then show ?thesis
    by (simp add: member_match_clause_def leg_rows_def matched_rows_def leg_where [OF host m req ps] S in_keys_def member_table_def)
qed

text \<open>The rows of all the legs, in the order of the members.\<close>

definition picked ::
  "('v::linorder) server \<Rightarrow> 'f pg_union \<Rightarrow> row \<Rightarrow> pyval list \<Rightarrow> 'v cells option \<Rightarrow> ('f union_member \<times> row) list" where
  "picked sv u host uk s =
     filter (\<lambda>(m, r). in_keys u uk r \<and> where_true sv host (um_where m) r \<and> union_seeks u s (member_cells sv u m r)) (all_rows sv u)"

lemma map_res_of_map: "map_res f (map g xs) = map_res (\<lambda>x. f (g x)) xs"
  by (induction xs) simp_all

lemma concat_members:
  "concat (map (\<lambda>m. map (f m) (filter (P m) (member_table sv m))) (un_members u))
    = map (\<lambda>(m, r). f m r) (filter (\<lambda>(m, r). P m r) (all_rows sv u))"
  by (simp add: all_rows_def map_concat filter_concat filter_map o_def)

lemma page_legs_run:
  assumes ok: "union_ok sv to_text u" and host: "host_ok host (members_where u)" and req: "request_ok u host uk params"
    and keys: "keys_ok sv u uk" and cells: "cursor_cells sv (as_connection u) (if un_reverse u then bv else av) s"
  obtains legs where "union_subquery u uk av bv = Inr legs"
    and "union_rows sv params legs = Inr (map (\<lambda>(m, r). (member_row u m r, member_cells sv u m r)) (picked sv u host uk s))"
proof -
  have "\<exists>l. branch_select u m uk av bv = Inr l \<and> leg_rows sv params l
      = Inr (map (\<lambda>r. (member_row u m r, member_cells sv u m r)) (filter (\<lambda>r. in_keys u uk r \<and> where_true sv host (um_where m) r
          \<and> union_seeks u s (member_cells sv u m r)) (member_table sv m)))" if m: "m \<in> set (un_members u)" for m
  proof -
    obtain p where p: "union_cursor_predicate u m av bv = Inr p"
      "\<forall>q \<in> set (case p of None \<Rightarrow> [] | Some q \<Rightarrow> [q]). bind_names q \<subseteq> cursor_binds"
      "\<And>r. (\<forall>q \<in> set (case p of None \<Rightarrow> [] | Some q \<Rightarrow> [q]). sql_true (sv_db sv) (sv_view sv r) q)
          = union_seeks u s (member_cells sv u m r)"
      using union_predicate_seeks [OF ok m cells] by blast
    from leg_rows_run [OF host m req p(2) keys p(3), of "branch_columns u m" "[(typename_column, VStr (um_type m))]"]
    show ?thesis using p(1) by (auto simp: branch_select_def member_row_def member_cells_def)
  qed
  then have leg: "branch_select u m uk av bv = Inr (projr (branch_select u m uk av bv))"
    "leg_rows sv params (projr (branch_select u m uk av bv))
      = Inr (map (\<lambda>r. (member_row u m r, member_cells sv u m r)) (filter (\<lambda>r. in_keys u uk r \<and> where_true sv host (um_where m) r
          \<and> union_seeks u s (member_cells sv u m r)) (member_table sv m)))" if "m \<in> set (un_members u)" for m
    using that by fastforce+
  have sub: "union_subquery u uk av bv = Inr (map (\<lambda>m. projr (branch_select u m uk av bv)) (un_members u))"
    unfolding union_subquery_def using leg(1) by (rule map_res_Inr)
  have run: "map_res (leg_rows sv params) (map (\<lambda>m. projr (branch_select u m uk av bv)) (un_members u))
      = Inr (map (\<lambda>m. map (\<lambda>r. (member_row u m r, member_cells sv u m r)) (filter (\<lambda>r. in_keys u uk r \<and> where_true sv host (um_where m) r
          \<and> union_seeks u s (member_cells sv u m r)) (member_table sv m))) (un_members u))"
    unfolding map_res_of_map using leg(2) by (intro map_res_Inr) simp
  have rows: "union_rows sv params (map (\<lambda>m. projr (branch_select u m uk av bv)) (un_members u))
      = Inr (map (\<lambda>(m, r). (member_row u m r, member_cells sv u m r)) (picked sv u host uk s))"
    unfolding union_rows_def run bind_res_simps concat_members picked_def by (rule refl)
  show thesis by (rule that [OF sub rows])
qed

section \<open>The union's rows as rows of one table\<close>

definition merged_rows :: "('v::linorder) server \<Rightarrow> 'f pg_union \<Rightarrow> row \<Rightarrow> pyval list \<Rightarrow> 'v cells option \<Rightarrow> row list" where
  "merged_rows sv u host uk s = map (\<lambda>(m, r). member_row u m r) (picked sv u host uk s)"

lemma in_keys_row:
  assumes "keys_ok sv u uk" and "m \<in> set (un_members u)" and "r \<in> set (member_table sv m)"
  shows "in_keys u uk (member_row u m r) = in_keys u uk r"
  using assms keyed_row(2) [OF _ assms(2,3)] by (auto simp: in_keys_def keys_ok_def)

lemma merged_rows_filter:
  assumes ok: "union_ok sv to_text u" and keys: "keys_ok sv u uk"
  shows "merged_rows sv u host uk s
    = filter (\<lambda>x. in_keys u uk x \<and> union_seeks u s (merged_view sv u x)) (sv_tables (union_server sv u host) t)"
proof -
  have "picked sv u host uk s = filter (\<lambda>(m, r). in_keys u uk (member_row u m r) \<and> union_seeks u s (merged_view sv u (member_row u m r)))
      (filter (\<lambda>(m, r). where_true sv host (um_where m) r) (all_rows sv u))"
    unfolding picked_def filter_filter
    by (rule filter_cong) (auto simp: mem_all_rows in_keys_row [OF keys] merged_view_row [OF ok])
  then show ?thesis by (simp add: merged_rows_def union_table filter_map o_def case_prod_beta')
qed

lemma merged_pairs:
  assumes ok: "union_ok sv to_text u"
  shows "map (\<lambda>(m, r). (member_row u m r, member_cells sv u m r)) (picked sv u host uk s)
    = map (\<lambda>x. (x, merged_view sv u x)) (merged_rows sv u host uk s)"
  by (auto simp: merged_rows_def picked_def mem_all_rows merged_view_row [OF ok])

lemma merged_row_names: "x \<in> set (merged_rows sv u host uk s) \<Longrightarrow> map fst x = projected_columns u"
  by (auto simp: merged_rows_def member_row_names)

lemma sort_key_map: "sort_key f (map g xs) = map g (sort_key (\<lambda>x. f (g x)) xs)"
proof -
  have ins: "insort_key f (g x) (map g xs) = map g (insort_key (\<lambda>x. f (g x)) x xs)" for x xs
    by (induction xs) auto
  show ?thesis by (induction xs) (simp_all add: ins)
qed

lemma union_number_map:
  "union_number cols clauses (map (\<lambda>x. (x, sv_view sv x)) M) (x, sv_view sv x) = number_in sv cols clauses M x"
  by (simp add: union_number_def number_in_def partition_cells_def filter_map o_def)

lemma clauses_over: "order_clauses_over ts = order_clauses ts"
  by (simp add: order_clauses_over_def order_clauses_def)

lemma connection_order: "effective_order (as_connection u) = union_effective_order u"
  by (simp add: effective_order_def union_effective_order_def)

text \<open>The windowed page.\<close>

lemma union_window_answer:
  assumes ok: "union_ok sv to_text u"
    and rows: "union_rows sv params legs = Inr (map (\<lambda>x. (x, merged_view sv u x)) (merged_rows sv u host uk s))"
    and lim: "(if bounded then int_param params ''page_limit'' else Inr (Some 0)) = Inr (Some n)"
  shows "answer_union sv (Union_Window legs (projected_columns u) cols clauses bounded) params
    = Inr (let M = merged_rows sv u host uk s; rn = number_in (union_server sv u host) cols clauses M
           in sort_key (\<lambda>r. map (\<lambda>c. the (merged_view sv u r c)) cols)
                (sort_key rn (filter (\<lambda>r. bounded \<longrightarrow> int (rn r) \<le> n) M)))"
proof -
  let ?M = "merged_rows sv u host uk s" and ?V = "merged_view sv u"
  let ?rn = "number_in (union_server sv u host) cols clauses ?M"
  let ?out = "sort_key (\<lambda>r. map (\<lambda>c. the (?V r c)) cols) (sort_key ?rn (filter (\<lambda>r. bounded \<longrightarrow> int (?rn r) \<le> n) ?M))"
  have num: "union_number cols clauses (map (\<lambda>x. (x, ?V x)) ?M) (x, ?V x) = ?rn x" for x
    using union_number_map [of cols clauses "union_server sv u host" ?M x] by simp
  have "project (projected_columns u) x = x" if "x \<in> set ?out" for x
    using that merged_row_names [of x sv u host uk s] ok by (intro project_id) (auto simp: union_ok_def)
  then have "map (project (projected_columns u)) ?out = ?out" by (rule map_idI)
  then show ?thesis
    by (simp only: answer_union.simps rows lim bind_res_simps option.case Let_def filter_map o_def num sort_key_map snd_conv
        fst_conv map_map)
qed

text \<open>The unwindowed page of a root collection.\<close>

lemma union_rows_answer:
  assumes ok: "union_ok sv to_text u"
    and rows: "union_rows sv params legs = Inr (map (\<lambda>x. (x, merged_view sv u x)) (merged_rows sv u host uk s))"
    and lim: "row_bound params (if bounded then Some (Inr ''page_limit'') else None) = Inr lim"
  shows "answer_union sv (Union_Rows legs (projected_columns u) clauses bounded) params
    = Inr (let xs = order_rows (union_server sv u host) clauses (merged_rows sv u host uk s)
           in case lim of None \<Rightarrow> xs | Some n \<Rightarrow> take n xs)"
proof -
  let ?M = "merged_rows sv u host uk s" and ?V = "merged_view sv u"
  let ?xs = "order_rows (union_server sv u host) clauses ?M"
  have num: "union_number [] clauses (map (\<lambda>x. (x, ?V x)) ?M) (x, ?V x) = number_in (union_server sv u host) [] clauses ?M x" for x
    using union_number_map [of "[]" clauses "union_server sv u host" ?M x] by simp
  have "project (projected_columns u) x = x" if "x \<in> set ?xs" for x
    using that merged_row_names [of x sv u host uk s] ok by (intro project_id) (auto simp: union_ok_def)
  then have id: "map (project (projected_columns u)) ?xs = ?xs" by (rule map_idI)
  have srt: "sort_key (union_number [] clauses (map (\<lambda>x. (x, ?V x)) ?M)) (map (\<lambda>x. (x, ?V x)) ?M) = map (\<lambda>x. (x, ?V x)) ?xs"
    by (simp only: sort_key_map num order_rows_def)
  show ?thesis
    by (cases lim) (simp_all only: answer_union.simps rows lim bind_res_simps option.case Let_def srt take_map map_map o_def fst_conv,
      simp_all only: id take_map [symmetric])
qed

section \<open>Counts\<close>

lemma count_legs_run:
  fixes sv :: "('v::linorder) server"
  assumes host: "host_ok host (members_where u)" and req: "request_ok u host uk params" and keys: "keys_ok sv u uk"
  defines "cols \<equiv> (if un_per_parent u then map (\<lambda>c. (c, True)) (un_match u) else [])"
    and "lits \<equiv> (if un_per_parent u then [] else [(''__one'', VInt 1)])"
  obtains legs where "map_res (\<lambda>m. count_branch_select u m uk) (un_members u) = Inr legs"
    and "union_rows sv params legs = Inr (map (\<lambda>(m, r). (leg_row cols lits r, leg_cells sv cols lits r)) (picked sv u host uk None))"
proof -
  have leg: "\<exists>l. count_branch_select u m uk = Inr l \<and> leg_rows sv params l
      = Inr (map (\<lambda>r. (leg_row cols lits r, leg_cells sv cols lits r)) (filter (\<lambda>r. in_keys u uk r \<and> where_true sv host (um_where m) r
          \<and> union_seeks u (None :: 'v cells option) (member_cells sv u m r)) (member_table sv m)))" if m: "m \<in> set (un_members u)" for m
  proof -
    have S: "(\<forall>q \<in> set []. sql_true (sv_db sv) (sv_view sv r) q) = union_seeks u (None :: 'v cells option) (member_cells sv u m r)" for r
      by (simp add: union_seeks_def)
    from leg_rows_run [OF host m req _ keys S, of cols lits] show ?thesis
      by (auto simp: count_branch_select_def cols_def lits_def)
  qed
  have leg1: "count_branch_select u m uk = Inr (projr (count_branch_select u m uk))" if "m \<in> set (un_members u)" for m
    using leg [OF that] by auto
  have leg2: "leg_rows sv params (projr (count_branch_select u m uk))
      = Inr (map (\<lambda>r. (leg_row cols lits r, leg_cells sv cols lits r)) (filter (\<lambda>r. in_keys u uk r \<and> where_true sv host (um_where m) r
          \<and> union_seeks u (None :: 'v cells option) (member_cells sv u m r)) (member_table sv m)))" if "m \<in> set (un_members u)" for m
    using leg [OF that] by auto
  have sub: "map_res (\<lambda>m. count_branch_select u m uk) (un_members u) = Inr (map (\<lambda>m. projr (count_branch_select u m uk)) (un_members u))"
    using leg1 by (rule map_res_Inr)
  have run: "map_res (leg_rows sv params) (map (\<lambda>m. projr (count_branch_select u m uk)) (un_members u))
      = Inr (map (\<lambda>m. map (\<lambda>r. (leg_row cols lits r, leg_cells sv cols lits r)) (filter (\<lambda>r. in_keys u uk r \<and> where_true sv host (um_where m) r
          \<and> union_seeks u (None :: 'v cells option) (member_cells sv u m r)) (member_table sv m))) (un_members u))"
    unfolding map_res_of_map using leg2 by (rule map_res_Inr)
  have "union_rows sv params (map (\<lambda>m. projr (count_branch_select u m uk)) (un_members u))
      = Inr (map (\<lambda>(m, r). (leg_row cols lits r, leg_cells sv cols lits r)) (picked sv u host uk None))"
    unfolding union_rows_def run bind_res_simps concat_members picked_def by (rule refl)
  with sub show thesis by (rule that)
qed

lemma member_row_project:
  assumes "keyed_ok sv u" and "m \<in> set (un_members u)" and "r \<in> set (member_table sv m)"
  shows "project (un_match u) (leg_row (map (\<lambda>c. (c, True)) (un_match u)) [] r) = project (un_match u) (member_row u m r)"
    and "map (leg_cells sv (map (\<lambda>c. (c, True)) (un_match u)) [] r) (un_match u) = map (member_cells sv u m r) (un_match u)"
proof -
  have own: "map_of (map (\<lambda>c. (c, True)) cols) c = (if c \<in> set cols then Some True else None)" for c :: string and cols
    by (induction cols) auto
  show "project (un_match u) (leg_row (map (\<lambda>c. (c, True)) (un_match u)) [] r) = project (un_match u) (member_row u m r)"
    unfolding project_def
  proof (intro map_cong refl)
    fix c assume c: "c \<in> set (un_match u)"
    obtain v where "map_of r c = Some v" "map_of (member_row u m r) c = Some v" using keyed_row(1) [OF assms c] by blast
    with c show "(c, case map_of (leg_row (map (\<lambda>c. (c, True)) (un_match u)) [] r) c of None \<Rightarrow> VNone | Some v \<Rightarrow> v)
        = (c, case map_of (member_row u m r) c of None \<Rightarrow> VNone | Some v \<Rightarrow> v)" by (simp add: leg_row_lookup own)
  qed
  show "map (leg_cells sv (map (\<lambda>c. (c, True)) (un_match u)) [] r) (un_match u) = map (member_cells sv u m r) (un_match u)"
    unfolding keyed_row(3) [OF assms] by (simp add: leg_cells_def own)
qed

text \<open>The count statement answers what the connection's count does on the merged table.\<close>

lemma union_count_answer:
  assumes ok: "union_ok sv to_text u" and host: "host_ok host (members_where u)" and req: "request_ok u host uk params"
    and keys: "keys_ok sv u uk" and keyed: "un_per_parent u"
  obtains q where "union_count_query u uk = Inr q"
    and "answer_union sv q params
      = answer (union_server sv u host) (build_count_query (as_connection u) uk) (conn_params (as_connection u) [] uk)"
proof -
  let ?cols = "un_match u" and ?sv = "union_server sv u host" and ?P = "picked sv u host uk None"
  let ?C = "map (\<lambda>c. (c, True)) (un_match u)" and ?M = "merged_rows sv u host uk None"
  let ?g = "\<lambda>(m, r). (leg_row ?C [] r, leg_cells sv ?C [] r)" and ?f = "\<lambda>(m, r). member_row u m r"
  have kok: "keyed_ok sv u" using keys keyed by (simp add: keys_ok_def)
  obtain legs where legs: "map_res (\<lambda>m. count_branch_select u m uk) (un_members u) = Inr legs"
    "union_rows sv params legs = Inr (map ?g ?P)"
    using count_legs_run [OF host req keys] keyed by auto
  have cells: "map (snd (?g p)) ?cols = partition_cells ?sv ?cols (?f p)"
    and proj: "project ?cols (fst (?g p)) = project ?cols (?f p)" if "p \<in> set ?P" for p
  proof -
    obtain m r where p1: "p = (m, r)" by (cases p)
    then have "(m, r) \<in> set (all_rows sv u)" using \<open>p \<in> set ?P\<close> by (simp add: picked_def)
    with p1 have p: "p = (m, r)" "m \<in> set (un_members u)" "r \<in> set (member_table sv m)" by (simp_all add: mem_all_rows)
    note rows = member_row_project [OF kok p(2,3)]
    show "map (snd (?g p)) ?cols = partition_cells ?sv ?cols (?f p)"
      unfolding p(1) prod.case snd_conv rows(2) partition_cells_def union_server_simps merged_view_row [OF ok p(2,3)] by (rule refl)
    show "project ?cols (fst (?g p)) = project ?cols (?f p)"
      unfolding p(1) prod.case fst_conv rows(1) by (rule refl)
  qed
  have groups: "map (\<lambda>x. map (snd x) ?cols) (map ?g ?P) = map (partition_cells ?sv ?cols) ?M"
    using cells by (simp add: merged_rows_def)
  have group: "(let ms = filter (\<lambda>x. map (snd x) ?cols = cs) (map ?g ?P)
        in project ?cols (fst (hd ms)) @ [(''__total'', VInt (int (length ms)))])
      = (let ms = filter (\<lambda>x. partition_cells ?sv ?cols x = cs) ?M
         in project ?cols (hd ms) @ map (projected ?sv ms) [(''count'', None, ''__total'')])"
    if cs: "cs \<in> set (remdups (map (partition_cells ?sv ?cols) ?M))" for cs
  proof -
    let ?Q = "filter (\<lambda>p. partition_cells ?sv ?cols (?f p) = cs) ?P"
    have 1: "filter (\<lambda>x. map (snd x) ?cols = cs) (map ?g ?P) = map ?g ?Q"
      unfolding filter_map o_def using cells by (intro arg_cong [where f = "map ?g"] filter_cong) auto
    have 2: "filter (\<lambda>x. partition_cells ?sv ?cols x = cs) ?M = map ?f ?Q" by (simp add: merged_rows_def filter_map o_def)
    have "?Q \<noteq> []" using cs by (force simp: merged_rows_def filter_empty_conv)
    moreover from this have "hd ?Q \<in> set ?P" using hd_in_set by force
    ultimately show ?thesis unfolding 1 2 Let_def using proj by (simp add: hd_map projected_def del: filter.simps)
  qed
  have uk: "\<forall>k \<in> set uk. k \<noteq> VNone \<and> key_ok ?sv (union_resource u) ?cols k"
    using keys keyed union_key_ok [OF ok kok] by (auto simp: keys_ok_def)
  have ne: "?cols \<noteq> []" using kok by (simp add: keyed_ok_def)
  have lookup: "length ?cols = 1 \<Longrightarrow> map_of (conn_params (as_connection u) [] uk) ''keys'' = Some (VList uk)"
    using params_lookup(1) [of "as_connection u"] by simp
  have M: "matched_rows ?sv (conn_params (as_connection u) [] uk) (rs_schema (union_resource u), rs_table (union_resource u))
      (Some (match_predicate ?cols uk)) [] = Inr ?M"
    using matched_rows_keys [OF uk ne lookup, of "[]"]
      merged_rows_filter [OF ok keys, of host None "(rs_schema (union_resource u), rs_table (union_resource u))"]
    by (simp add: where_true_def in_keys_def keyed union_seeks_def)
  have "answer_union sv (Union_Totals legs ?cols) params
      = Inr (map (\<lambda>cs. let ms = filter (\<lambda>x. map (snd x) ?cols = cs) (map ?g ?P)
            in project ?cols (fst (hd ms)) @ [(''__total'', VInt (int (length ms)))]) (remdups (map (partition_cells ?sv ?cols) ?M)))"
    unfolding answer_union.simps legs(2) bind_res_simps groups by (rule refl)
  also have "\<dots> = Inr (map (\<lambda>cs. let ms = filter (\<lambda>x. partition_cells ?sv ?cols x = cs) ?M
            in project ?cols (hd ms) @ map (projected ?sv ms) [(''count'', None, ''__total'')]) (remdups (map (partition_cells ?sv ?cols) ?M)))"
    using group by (intro arg_cong [where f = Inr] map_cong refl)
  also have "\<dots> = answer ?sv (build_count_query (as_connection u) uk) (conn_params (as_connection u) [] uk)"
    by (simp add: answer_def answer_group_def build_count_query_def M)
  finally have "answer_union sv (Union_Totals legs ?cols) params
      = answer ?sv (build_count_query (as_connection u) uk) (conn_params (as_connection u) [] uk)" .
  moreover have "union_count_query u uk = Inr (Union_Totals legs ?cols)" using legs(1) keyed by (simp add: union_count_query_def)
  ultimately show thesis by (intro that)
qed

lemma union_totals_of: "union_totals u rows totals = totals_of (as_connection u) rows totals"
  by (induction u rows totals rule: union_totals.induct)
    (auto simp: union_row_key_def count_row_key_def bind_res_def split: sum.split)

end
