(* ===== verification/Pg_Union_Pages.thy ===== *)
theory Pg_Union_Pages
  imports Pg_Union_Laws Pg_Paging
begin

text \<open>
  What a union gives its entries: to each parent the Relay page of its rows in the merged table, to a root
  collection the page of all of them.
\<close>

section \<open>Parameters\<close>

definition union_params :: "'f pg_union \<Rightarrow> row \<Rightarrow> pyval list \<Rightarrow> int option \<Rightarrow> row" where
  "union_params u host uk limit =
     (let keyed = (if un_per_parent u \<and> \<not> un_composite u then dict_set host ''keys'' (VList uk) else host)
      in case limit of None \<Rightarrow> keyed | Some n \<Rightarrow> dict_set keyed ''page_limit'' (VInt n))"

lemma union_params_ok: "request_ok u host uk (union_params u host uk limit)"
  using keys_dict_set [of host "''keys''" "VList uk"]
    keys_dict_set [of "dict_set host ''keys'' (VList uk)" "''page_limit''"] keys_dict_set [of host "''page_limit''"]
  by (auto simp: request_ok_def union_params_def un_composite_def Let_def split: option.split)

lemma union_params_limit: "map_of (union_params u host uk (Some n)) ''page_limit'' = Some (VInt n)"
  by (simp add: union_params_def Let_def)

lemma limit_of_size:
  assumes "union_page_size u ctx src = Inr (map_option int len)"
  shows "union_page_limit u ctx src = Inr (map_option (\<lambda>n. int n + 1) len)"
  using assms by (cases len) (simp_all add: union_page_limit_def)

section \<open>Building a connection\<close>

lemma union_build_page:
  assumes size: "union_page_size u ctx src = Inr (map_option int len)"
    and rows: "rows = (let Z = (if un_reverse u then rev Y else Y) in case len of None \<Rightarrow> Z | Some n \<Rightarrow> take (Suc n) Z)"
    and edges: "\<And>r. r \<in> set Y \<Longrightarrow> union_edge sha256 to_text u r = Inr (edge r)"
  shows "union_build_connection sha256 to_text u rows tot ctx src av bv
    = Inr (VDict (connection_fields (map edge (relay_page (un_reverse u) len Y)) tot
        (if un_reverse u then bv \<noteq> None else more_rows len Y) (if un_reverse u then more_rows len Y else av \<noteq> None)))"
proof -
  have "map_res (union_edge sha256 to_text u) (relay_page (un_reverse u) len Y) = Inr (map edge (relay_page (un_reverse u) len Y))"
    using edges relay_page_subset [of "un_reverse u" len Y] by (intro map_res_map) auto
  then show ?thesis
    unfolding union_build_connection_def size bind_res_simps Let_def cut_page(2) [OF rows]
    unfolding cut_page(1) [OF rows] by (simp only: bind_res_simps)
qed

section \<open>Per parent\<close>

lemma union_queries_keys:
  assumes ok: "union_ok sv to_text u" and keyed: "keyed_ok sv u"
    and keys: "\<forall>k \<in> set keys. \<forall>m \<in> set (un_members u). key_ok sv (um_resource m) (un_match u) k"
    and host: "member_where_params ct u ctx src = Inr host" "host_ok host (members_where u)"
    and cursor: "union_cursor_values sha256 u ctx src = Inr (av, bv)"
      "cursor_cells sv (as_connection u) (if un_reverse u then bv else av) s"
    and size: "union_page_size u ctx src = Inr (map_option int len)"
    and uk: "set uk \<subseteq> {k \<in> set keys. k \<noteq> VNone}" "\<forall>k \<in> set keys. k \<noteq> VNone \<longrightarrow> (\<exists>u \<in> set uk. py_eq u k)"
  obtains rows totals by_key where
    "union_run_queries (answer_union sv) ct sha256 u uk ctx src = Inr (rows, totals)"
    and "group_rows (un_match u) rows = Inr by_key"
    and "\<And>k. k \<in> set keys \<Longrightarrow> rows_of_key by_key k
      = (let Y = seek_rows (un_reverse u) (un_order u) (merged_view sv u) s
                   (key_rows (union_server sv u host) (union_resource u) (un_match u) (un_order u) [] [] k);
             Z = (if un_reverse u then rev Y else Y)
         in case len of None \<Rightarrow> Z | Some n \<Rightarrow> take (Suc n) Z)"
    and "\<And>k. k \<in> set keys \<Longrightarrow> (case slot_get totals k of None \<Rightarrow> VInt 0 | Some n \<Rightarrow> n)
      = VInt (if un_needs_total u
              then int (length (key_rows (union_server sv u host) (union_resource u) (un_match u) (un_order u) [] [] k)) else 0)"
proof -
  let ?sv = "union_server sv u host" and ?rs = "union_resource u" and ?cols = "un_match u" and ?cn = "as_connection u"
  let ?tab = "(rs_schema (union_resource u), rs_table (union_resource u))"
  let ?X = "\<lambda>k. key_rows ?sv ?rs ?cols (un_order u) [] [] k"
  let ?page = "\<lambda>k. let Y = seek_rows (un_reverse u) (un_order u) (merged_view sv u) s (?X k);
        Z = (if un_reverse u then rev Y else Y) in case len of None \<Rightarrow> Z | Some n \<Rightarrow> take (Suc n) Z"
  define limit where "limit = map_option (\<lambda>n. int n + 1) len"
  note pt = union_paged [OF ok keyed, of host]
  have tab: "table_ok ?sv ?rs ?cols" using paged_tableD(1) [OF pt] by simp
  have per: "un_per_parent u" using keyed by (simp add: keyed_ok_def)
  have vkeys: "\<forall>k \<in> set keys. key_ok ?sv ?rs ?cols k" using union_key_ok [OF ok keyed] keys by blast
  have kok: "keys_ok sv u uk" using keyed keys uk(1) by (auto simp: keys_ok_def)
  have vok: "\<forall>k \<in> set uk. k \<noteq> VNone \<and> key_ok ?sv ?rs ?cols k" using uk(1) vkeys by auto
  have lim: "union_page_limit u ctx src = Inr limit" unfolding limit_def by (rule limit_of_size [OF size])
  obtain legs where legs: "union_subquery u uk av bv = Inr legs"
    "union_rows sv (union_params u host uk limit) legs
      = Inr (map (\<lambda>(m, r). (member_row u m r, member_cells sv u m r)) (picked sv u host uk s))"
    by (rule page_legs_run [OF ok host(2) union_params_ok kok cursor(2)], rule that)
  define q where "q = Union_Window legs (projected_columns u) ?cols (order_clauses (effective_order ?cn)) (limit \<noteq> None)"
  have q: "union_page_query u uk ctx src av bv = Inr q"
    by (simp add: union_page_query_def legs(1) lim per q_def clauses_over connection_order Let_def)
  define n where "n = (case limit of None \<Rightarrow> 0 | Some n \<Rightarrow> n)"
  have n0: "0 \<le> n" by (cases len) (simp_all add: n_def limit_def)
  have nlim: "(if limit \<noteq> None then int_param (union_params u host uk limit) ''page_limit'' else Inr (Some 0)) = Inr (Some n)"
    by (cases limit) (simp_all add: n_def int_param_def union_params_limit)
  define M where "M = merged_rows sv u host uk s"
  define out where "out = sort_key (\<lambda>r. map (\<lambda>c. the (sv_view ?sv r c)) ?cols)
      (sort_key (number_in ?sv ?cols (order_clauses (effective_order ?cn)) M)
        (filter (\<lambda>r. limit \<noteq> None \<longrightarrow> int (number_in ?sv ?cols (order_clauses (effective_order ?cn)) M r) \<le> n) M))"
  have out: "answer_union sv q (union_params u host uk limit) = Inr out"
    unfolding q_def union_window_answer [OF ok legs(2) [unfolded merged_pairs [OF ok]] nlim]
    by (simp add: out_def M_def Let_def)
  have M: "M = filter (\<lambda>r. (\<exists>u \<in> set uk. has_key ?cols u r) \<and> where_true ?sv [] [] r \<and> union_seeks u s (sv_view ?sv r))
      (sv_tables ?sv ?tab)"
    unfolding M_def using merged_rows_filter [OF ok kok, of host s ?tab] per
    by (simp add: in_keys_def where_true_def)
  have M2: "M = filter (\<lambda>r. (\<exists>u \<in> set uk. has_key (cn_match ?cn) u r) \<and> where_true ?sv [] [] r \<and> union_seeks u s (sv_view ?sv r))
      (sv_tables ?sv (rs_schema (cn_resource ?cn), rs_table (cn_resource ?cn)))"
    unfolding as_connection_simps by (rule M)
  have seek: "union_seeks u s (sv_view ?sv r) = (case s of None \<Rightarrow> True | Some c \<Rightarrow>
      if cn_reverse ?cn then terms_before (cn_order ?cn) (sv_view ?sv r) c else terms_before (cn_order ?cn) c (sv_view ?sv r))" for r
    unfolding as_connection_simps union_seeks_def by (rule refl)
  have sub: "set out \<subseteq> {r \<in> set (sv_tables ?sv ?tab). \<exists>u \<in> set uk. has_key ?cols u r}" by (auto simp: out_def M)
  have wf: "py_wf k" if "k \<in> set keys" for k using vkeys that by (simp add: key_ok_def)
  have cut: "filter (has_key ?cols k) out = ?page k" if k: "k \<in> set keys" for k
  proof (cases "k = VNone")
    case True
    have "\<not> has_key ?cols VNone r" if r: "r \<in> set out" for r
    proof -
      obtain u where "u \<in> set uk" "has_key ?cols u r" using sub r by blast
      with vok show ?thesis by (intro has_key_not_None) auto
    qed
    then have "filter (has_key ?cols VNone) out = []" by (simp add: filter_empty_conv)
    with True show ?thesis by (cases len; cases s) (simp_all add: key_rows_def seek_rows_def Let_def)
  next
    case False
    then obtain j where j: "j \<in> set uk" "py_eq j k" using uk(2) k by blast
    have kk: "key_ok ?sv (cn_resource ?cn) (cn_match ?cn) k" using vkeys k by simp
    have "py_wf j" using vok j(1) by (simp add: key_ok_def)
    note at_key = page_of_key [OF pt kk False M2 j this seek n0, of "limit \<noteq> None"]
    have "filter (has_key ?cols k) out = (let Y = seek_rows (un_reverse u) (un_order u) (merged_view sv u) s (?X k);
          Z = (if un_reverse u then rev Y else Y) in if limit \<noteq> None then take (nat n) Z else Z)"
      unfolding out_def using at_key unfolding as_connection_simps union_server_simps .
    then show ?thesis by (cases len) (simp_all add: limit_def n_def Let_def nat_add_distrib)
  qed
  have rk: "\<forall>r \<in> set out. \<exists>g. grouping_key r ?cols = Inr g \<and> hashable g \<and> py_wf g"
    using sub table_ok_row(2) [OF tab] by blast
  obtain by_key where bk: "group_rows ?cols out = Inr by_key"
    "\<And>k. py_wf k \<Longrightarrow> rows_of_key by_key k = filter (\<lambda>r. \<exists>g. grouping_key r ?cols = Inr g \<and> py_eq g k) out"
    by (rule group_rows_spec [OF rk], rule that)
  have of: "rows_of_key by_key k = ?page k" if k: "k \<in> set keys" for k
    using bk(2) [OF wf [OF k]] cut [OF k] by (simp add: has_key_def [abs_def])
  obtain cq where cq: "union_count_query u uk = Inr cq"
    "answer_union sv cq (union_params u host uk None) = answer ?sv (build_count_query ?cn uk) (conn_params ?cn [] uk)"
    by (rule union_count_answer [OF ok host(2) union_params_ok kok per], rule that)
  have h0: "host_ok [] (cn_where ?cn)" by (simp add: host_ok_def)
  obtain counts where counts: "bind_res (answer ?sv (build_count_query ?cn uk) (conn_params ?cn [] uk)) (\<lambda>rows. totals_of ?cn rows []) = Inr counts"
    "\<And>k. k \<in> set keys \<Longrightarrow> (case slot_get counts k of None \<Rightarrow> VInt 0 | Some n \<Rightarrow> n) = VInt (int (length (?X k)))"
    using totals_run [of ?sv ?cn "[]" uk keys] tab keyed vok uk(2) vkeys by (auto simp: keyed_ok_def host_ok_def)
  have keyed_params: "union_params u host uk None = (if un_per_parent u \<and> \<not> un_composite u then dict_set host ''keys'' (VList uk) else host)"
    "union_params u host uk limit = (case limit of None \<Rightarrow> union_params u host uk None
        | Some n \<Rightarrow> dict_set (union_params u host uk None) ''page_limit'' (VInt n))"
    by (cases limit; simp add: union_params_def Let_def)+
  show thesis
  proof (rule that [of out "if un_needs_total u then counts else []" by_key])
    show "union_run_queries (answer_union sv) ct sha256 u uk ctx src = Inr (out, if un_needs_total u then counts else [])"
      unfolding union_run_queries_def cursor(1) host(1) lim bind_res_simps prod.case Let_def q
        keyed_params(1) [symmetric] keyed_params(2) [symmetric] out
      using counts(1) by (simp add: cq per union_totals_of)
    show "group_rows ?cols out = Inr by_key" by (rule bk(1))
    show "rows_of_key by_key k = ?page k" if "k \<in> set keys" for k using that by (rule of)
    show "(case slot_get (if un_needs_total u then counts else []) k of None \<Rightarrow> VInt 0 | Some n \<Rightarrow> n)
      = VInt (if un_needs_total u then int (length (?X k)) else 0)" if "k \<in> set keys" for k using counts(2) [OF that] by simp
  qed
qed

text \<open>Each parent of a bucket gets the connection of its own rows.\<close>

definition union_connection ::
  "('v::linorder) server \<Rightarrow> 'f pg_union \<Rightarrow> row \<Rightarrow> (row \<Rightarrow> row \<times> string) \<Rightarrow> nat option \<Rightarrow> 'v cells option \<Rightarrow> row list \<Rightarrow> pyval" where
  "union_connection sv u host edge len s X =
     (let Y = seek_rows (un_reverse u) (un_order u) (merged_view sv u) s X; more = more_rows len Y; given = (s \<noteq> None)
      in VDict (connection_fields (map edge (relay_page (un_reverse u) len Y))
                  (VInt (if un_needs_total u then int (length X) else 0))
                  (if un_reverse u then given else more) (if un_reverse u then more else given)))"

definition parent_rows :: "('v::linorder) server \<Rightarrow> 'f pg_union \<Rightarrow> row \<Rightarrow> pyval \<Rightarrow> row list" where
  "parent_rows sv u host k = key_rows (union_server sv u host) (union_resource u) (un_match u) (un_order u) [] [] k"

definition root_rows :: "('v::linorder) server \<Rightarrow> 'f pg_union \<Rightarrow> row \<Rightarrow> row list" where
  "root_rows sv u host = order_rows (union_server sv u host) (order_clauses (un_order u))
     (sv_tables (union_server sv u host) (rs_schema (union_resource u), rs_table (union_resource u)))"

lemma seek_subset: "set (seek_rows reverse ts view s X) \<subseteq> set X"
  by (cases s) (auto simp: seek_rows_def)

lemma parent_rows_members:
  assumes ok: "union_ok sv to_text u" and keyed: "keyed_ok sv u" and k: "k \<noteq> VNone"
  shows "set (parent_rows sv u host k)
      = {member_row u m r | m r. m \<in> set (un_members u) \<and> r \<in> set (member_table sv m)
           \<and> where_true sv host (um_where m) r \<and> has_key (un_match u) k r}"
    and "sorted_wrt (\<lambda>a b. terms_before (un_order u) (merged_view sv u a) (merged_view sv u b)) (parent_rows sv u host k)"
proof -
  note X = key_rows_sorted [OF union_paged [OF ok keyed, of host], of "[]" "[]" k, unfolded as_connection_simps union_server_simps]
  show "set (parent_rows sv u host k)
      = {member_row u m r | m r. m \<in> set (un_members u) \<and> r \<in> set (member_table sv m)
           \<and> where_true sv host (um_where m) r \<and> has_key (un_match u) k r}"
  proof -
    have "has_key (un_match u) k (member_row u m r) = has_key (un_match u) k r"
      if "m \<in> set (un_members u)" "r \<in> set (member_table sv m)" for m r using keyed_row(2) [OF keyed that] .
    then show ?thesis
      unfolding parent_rows_def X(3) if_not_P [OF k] mem_union_table where_true_def [of _ _ "[]"] by fastforce
  qed
  show "sorted_wrt (\<lambda>a b. terms_before (un_order u) (merged_view sv u a) (merged_view sv u b)) (parent_rows sv u host k)"
    unfolding parent_rows_def by (rule X(1))
qed

lemma parent_rows_distinct: "union_ok sv to_text u \<Longrightarrow> keyed_ok sv u \<Longrightarrow> distinct (parent_rows sv u host k)"
  using key_rows_sorted(2) [OF union_paged] by (simp add: parent_rows_def)

lemma parent_rows_edges:
  assumes ok: "union_ok sv to_text u" and keyed: "keyed_ok sv u"
    and edges: "\<And>m r. m \<in> set (un_members u) \<Longrightarrow> r \<in> set (member_table sv m)
      \<Longrightarrow> union_edge sha256 to_text u (member_row u m r) = Inr (edge (member_row u m r))"
    and x: "x \<in> set (parent_rows sv u host k)"
  shows "union_edge sha256 to_text u x = Inr (edge x)"
proof (cases "k = VNone")
  case True
  with x show ?thesis by (simp add: parent_rows_def key_rows_def)
next
  case False
  with x parent_rows_members(1) [OF ok keyed False, of host] edges show ?thesis by auto
qed

lemma parent_rows_none: "parent_rows sv u host VNone = []"
  by (simp add: parent_rows_def key_rows_def)

theorem union_entries:
  assumes ok: "union_ok sv to_text u" and keyed: "keyed_ok sv u"
    and keys: "map_res (\<lambda>k. normalize_lookup_key k (un_composite u)) (values ! 0) = Inr keys" "length keys = n"
      "\<forall>k \<in> set keys. \<forall>m \<in> set (un_members u). key_ok sv (um_resource m) (un_match u) k"
    and host: "member_where_params ct u ctx src = Inr host" "host_ok host (members_where u)"
    and cursor: "union_cursor_values sha256 u ctx src = Inr (av, bv)"
      "cursor_cells sv (as_connection u) (if un_reverse u then bv else av) s"
    and size: "union_page_size u ctx src = Inr (map_option int len)"
    and edges: "\<And>m r. m \<in> set (un_members u) \<Longrightarrow> r \<in> set (member_table sv m)
      \<Longrightarrow> union_edge sha256 to_text u (member_row u m r) = Inr (edge (member_row u m r))"
  shows "settle (union_execute (answer_union sv) ct sha256 to_text u ctx src n values)
    = Inr (map (\<lambda>k. union_connection sv u host edge len s (parent_rows sv u host k)) keys)"
proof -
  let ?X = "\<lambda>k. parent_rows sv u host k"
  let ?Y = "\<lambda>k. seek_rows (un_reverse u) (un_order u) (merged_view sv u) s (?X k)"
  have per: "un_per_parent u" using keyed by (simp add: keyed_ok_def)
  have edgeY: "union_edge sha256 to_text u r = Inr (edge r)" if "r \<in> set (?Y k)" for r k
    using that seek_subset by (intro parent_rows_edges [OF ok keyed edges]) blast+
  have given: "(s \<noteq> None) = ((if un_reverse u then bv else av) \<noteq> None)" by (rule cursor_given [OF cursor(2)])
  have build: "union_build_connection sha256 to_text u rows (VInt (if un_needs_total u then int (length (?X k)) else 0)) ctx src av bv
      = Inr (union_connection sv u host edge len s (?X k))"
    if "rows = (let Z = (if un_reverse u then rev (?Y k) else ?Y k) in case len of None \<Rightarrow> Z | Some n \<Rightarrow> take (Suc n) Z)" for rows k
  proof -
    have at: "(if un_reverse u then bv \<noteq> None else more) = (if un_reverse u then s \<noteq> None else more)"
      "(if un_reverse u then more else av \<noteq> None) = (if un_reverse u then more else s \<noteq> None)" for more
      using given by auto
    show ?thesis
      unfolding union_connection_def Let_def
      by (rule trans [OF union_build_page [OF size that edgeY]]) (simp_all only: at)
  qed
  have ne: "un_members u \<noteq> []" using ok by (simp add: union_ok_def)
  have "\<forall>k \<in> set keys. hashable k \<and> py_wf k" using keys(3) ne by (auto simp: key_ok_def dest: bspec [OF _ hd_in_set])
  then obtain uk es where c: "coalesce_keys keys (length keys) = Inr (uk, es)"
    and uk: "set uk \<subseteq> {k \<in> set keys. k \<noteq> VNone}" "\<forall>k \<in> set keys. k \<noteq> VNone \<longrightarrow> (\<exists>u \<in> set uk. py_eq u k)"
    using coalesce_keys_spec by blast
  show ?thesis
  proof (cases "uk = []")
    case True
    with uk(2) have none: "k = VNone" if "k \<in> set keys" for k using that by auto
    have none_rows: "?X VNone = []" "?Y VNone = []" by (cases s; simp add: parent_rows_none seek_rows_def)+
    have "[] = (let Z = (if un_reverse u then rev (?Y VNone) else ?Y VNone) in case len of None \<Rightarrow> Z | Some n \<Rightarrow> take (Suc n) Z)"
      unfolding none_rows(2) by (cases len) (simp_all add: Let_def)
    from build [OF this]
    have b: "union_build_connection sha256 to_text u [] (VInt 0) ctx src av bv = Inr (union_connection sv u host edge len s (?X VNone))"
      unfolding none_rows(1) by (simp cong: if_cong)
    have "map (\<lambda>k. union_connection sv u host edge len s (?X k)) keys = replicate n (union_connection sv u host edge len s (?X VNone))"
    proof -
      have "map (\<lambda>k. union_connection sv u host edge len s (?X k)) keys = map (\<lambda>k. union_connection sv u host edge len s (?X VNone)) keys"
        using none by (intro map_cong refl) blast
      then show ?thesis by (simp add: map_replicate_const keys(2))
    qed
    with True c keys(1) cursor(1) b per show ?thesis by (simp add: union_execute_def)
  next
    case False
    obtain rows totals by_key where
      rq: "union_run_queries (answer_union sv) ct sha256 u uk ctx src = Inr (rows, totals)"
      and bk: "group_rows (un_match u) rows = Inr by_key"
      and page: "\<And>k. k \<in> set keys \<Longrightarrow> rows_of_key by_key k
        = (let Y = ?Y k; Z = (if un_reverse u then rev Y else Y) in case len of None \<Rightarrow> Z | Some n \<Rightarrow> take (Suc n) Z)"
      and tot: "\<And>k. k \<in> set keys \<Longrightarrow> (case slot_get totals k of None \<Rightarrow> VInt 0 | Some n \<Rightarrow> n)
        = VInt (if un_needs_total u then int (length (?X k)) else 0)"
      by (rule union_queries_keys [OF ok keyed keys(3) host cursor size uk, folded parent_rows_def], rule that)
    have entry: "union_build_connection sha256 to_text u (rows_of_key by_key k) (case slot_get totals k of None \<Rightarrow> VInt 0 | Some n \<Rightarrow> n)
        ctx src av bv = Inr (union_connection sv u host edge len s (?X k))" if k: "k \<in> set keys" for k
      unfolding tot [OF k] by (rule build) (simp add: page [OF k] Let_def)
    have "map_res (\<lambda>i. union_build_connection sha256 to_text u (rows_of_key by_key (keys ! i))
           (case slot_get totals (keys ! i) of None \<Rightarrow> VInt 0 | Some n \<Rightarrow> n) ctx src av bv) [0..<n]
        = Inr (map (\<lambda>i. union_connection sv u host edge len s (?X (keys ! i))) [0..<n])"
      using entry keys(2) by (intro map_res_Inr) simp
    moreover have "map (\<lambda>i. union_connection sv u host edge len s (?X (keys ! i))) [0..<n]
        = map (\<lambda>k. union_connection sv u host edge len s (?X k)) keys" by (rule map_nth_upt_comp [OF keys(2)])
    ultimately show ?thesis using False c keys(1) cursor(1) rq bk per by (simp add: union_execute_def)
  qed
qed

section \<open>A root collection\<close>

lemma effective_before_union:
  assumes "union_ok sv to_text u"
  shows "row_before (order_clauses (union_effective_order u)) a b
    = (if un_reverse u then terms_before (un_order u) b a else terms_before (un_order u) a b)"
  using effective_before [of "as_connection u" a b] assms by (auto simp: union_ok_def connection_order)

lemma root_rows_sorted:
  assumes ok: "union_ok sv to_text u"
  shows "sorted_wrt (\<lambda>a b. terms_before (un_order u) (merged_view sv u a) (merged_view sv u b)) (root_rows sv u host)"
    and "distinct (root_rows sv u host)" and "set (root_rows sv u host) = set (sv_tables (union_server sv u host) t)"
proof -
  have ts: "\<forall>t \<in> set (un_order u). valid_term t" using ok by (simp add: union_ok_def)
  note st = order_rows_strict [OF union_distinct [OF ok], where sv = "union_server sv u host" and clauses = "order_clauses (un_order u)",
      unfolded union_server_simps row_before_terms [OF ts], OF union_separated [OF ok]]
  show "sorted_wrt (\<lambda>a b. terms_before (un_order u) (merged_view sv u a) (merged_view sv u b)) (root_rows sv u host)"
    unfolding root_rows_def by (rule st(1))
  show "distinct (root_rows sv u host)" unfolding root_rows_def by (rule st(2))
  show "set (root_rows sv u host) = set (sv_tables (union_server sv u host) t)"
    by (simp add: root_rows_def union_table)
qed

lemma root_rows_members:
  assumes "union_ok sv to_text u"
  shows "set (root_rows sv u host)
      = {member_row u m r | m r. m \<in> set (un_members u) \<and> r \<in> set (member_table sv m) \<and> where_true sv host (um_where m) r}"
  unfolding root_rows_sorted(3) [OF assms, of host "([], [])"] mem_union_table set_eq_iff mem_Collect_eq by blast

theorem union_root_entries:
  assumes ok: "union_ok sv to_text u" and root: "\<not> un_per_parent u"
    and host: "member_where_params ct u ctx src = Inr host" "host_ok host (members_where u)"
    and cursor: "union_cursor_values sha256 u ctx src = Inr (av, bv)"
      "cursor_cells sv (as_connection u) (if un_reverse u then bv else av) s"
    and size: "union_page_size u ctx src = Inr (map_option int len)"
    and edges: "\<And>m r. m \<in> set (un_members u) \<Longrightarrow> r \<in> set (member_table sv m)
      \<Longrightarrow> union_edge sha256 to_text u (member_row u m r) = Inr (edge (member_row u m r))"
  shows "settle (union_execute (answer_union sv) ct sha256 to_text u ctx src n values)
    = Inr (replicate n (union_connection sv u host edge len s (root_rows sv u host)))"
proof -
  let ?sv = "union_server sv u host" and ?X = "root_rows sv u host"
  let ?tab = "(rs_schema (union_resource u), rs_table (union_resource u))"
  let ?Y = "seek_rows (un_reverse u) (un_order u) (merged_view sv u) s ?X"
  let ?Z = "if un_reverse u then rev ?Y else ?Y"
  define limit where "limit = map_option (\<lambda>n. int n + 1) len"
  have lim: "union_page_limit u ctx src = Inr limit" unfolding limit_def by (rule limit_of_size [OF size])
  have kok: "keys_ok sv u []" using root by (simp add: keys_ok_def)
  obtain legs where legs: "union_subquery u [] av bv = Inr legs"
    "union_rows sv (union_params u host [] limit) legs
      = Inr (map (\<lambda>(m, r). (member_row u m r, member_cells sv u m r)) (picked sv u host [] s))"
    by (rule page_legs_run [OF ok host(2) union_params_ok kok cursor(2)], rule that)
  define q where "q = Union_Rows legs (projected_columns u) (order_clauses (union_effective_order u)) (limit \<noteq> None)"
  have q: "union_page_query u [] ctx src av bv = Inr q"
    by (simp add: union_page_query_def legs(1) lim root q_def clauses_over Let_def)
  have bound: "row_bound (union_params u host [] limit) (if limit \<noteq> None then Some (Inr ''page_limit'') else None) = Inr (map_option Suc len)"
    by (cases len) (simp_all add: limit_def row_bound_def int_param_def union_params_limit nat_add_distrib)
  define M where "M = merged_rows sv u host [] s"
  have M: "M = filter (\<lambda>x. union_seeks u s (merged_view sv u x)) (sv_tables ?sv ?tab)"
    unfolding M_def using merged_rows_filter [OF ok kok, of host s ?tab] root by (simp add: in_keys_def)
  have Y: "?Y = filter (\<lambda>x. union_seeks u s (merged_view sv u x)) ?X"
    by (cases s) (simp_all add: seek_rows_def union_seeks_def)
  have ordered: "order_rows ?sv (order_clauses (union_effective_order u)) M = ?Z"
  proof (rule order_rows_sorted)
    show "distinct M" unfolding M using union_distinct [OF ok] by simp
    show "set ?Z = set M" unfolding Y M using root_rows_sorted(3) [OF ok, of host ?tab] by auto
    show "distinct ?Z" unfolding Y using root_rows_sorted(2) [OF ok, of host] by simp
    have "sorted_wrt (\<lambda>a b. terms_before (un_order u) (merged_view sv u a) (merged_view sv u b)) ?Y"
      unfolding Y using root_rows_sorted(1) [OF ok, of host] by (rule sorted_wrt_filter)
    then show "sorted_wrt (\<lambda>a b. row_before (order_clauses (union_effective_order u)) (sv_view ?sv a) (sv_view ?sv b)) ?Z"
      by (cases "un_reverse u") (simp_all add: effective_before_union [OF ok] sorted_wrt_rev)
  qed
  define out where "out = (let Z = ?Z in case len of None \<Rightarrow> Z | Some n \<Rightarrow> take (Suc n) Z)"
  have out: "answer_union sv q (union_params u host [] limit) = Inr out"
    unfolding q_def union_rows_answer [OF ok legs(2) [unfolded merged_pairs [OF ok]] bound]
    by (cases len) (simp_all add: ordered [unfolded M_def] out_def Let_def)
  obtain clegs where clegs: "map_res (\<lambda>m. count_branch_select u m []) (un_members u) = Inr clegs"
    "union_rows sv (union_params u host [] None) clegs = Inr (map (\<lambda>(m, r). (leg_row [] [(''__one'', VInt 1)] r,
        leg_cells sv [] [(''__one'', VInt 1)] r)) (picked sv u host [] None))"
    using count_legs_run [OF host(2) union_params_ok [of u host "[]" None] kok] root by auto
  have len: "length (picked sv u host [] None) = length ?X"
  proof -
    have "length (picked sv u host [] None) = length (merged_rows sv u host [] None)" by (simp add: merged_rows_def)
    also have "\<dots> = length (sv_tables ?sv ?tab)"
      unfolding merged_rows_filter [OF ok kok, of host None ?tab] using root by (simp add: in_keys_def union_seeks_def)
    finally show ?thesis by (simp add: root_rows_def order_rows_def)
  qed
  have count: "union_count_query u [] = Inr (Union_Total clegs)"
    "answer_union sv (Union_Total clegs) (union_params u host [] None) = Inr [[(''__total'', VInt (int (length ?X)))]]"
    using clegs root len by (simp_all add: union_count_query_def)
  have params: "union_params u host [] None = host"
    "union_params u host [] limit = (case limit of None \<Rightarrow> host | Some n \<Rightarrow> dict_set host ''page_limit'' (VInt n))"
    using root by (cases limit; simp add: union_params_def Let_def)+
  have run: "union_run_queries (answer_union sv) ct sha256 u [] ctx src
      = Inr (out, if un_needs_total u then [(VNone, VInt (int (length ?X)))] else [])"
    unfolding union_run_queries_def cursor(1) host(1) lim bind_res_simps prod.case Let_def q
    using out count root by (simp add: params root_total_def row_get_def)
  have given: "(s \<noteq> None) = ((if un_reverse u then bv else av) \<noteq> None)" by (rule cursor_given [OF cursor(2)])
  have edgeY: "union_edge sha256 to_text u x = Inr (edge x)" if "x \<in> set ?Y" for x
  proof -
    have "x \<in> set ?X" using that seek_subset by blast
    then show ?thesis using edges unfolding root_rows_members [OF ok] by blast
  qed
  have at: "(if un_reverse u then bv \<noteq> None else more) = (if un_reverse u then s \<noteq> None else more)"
    "(if un_reverse u then more else av \<noteq> None) = (if un_reverse u then more else s \<noteq> None)" for more
    using given by auto
  have build: "union_build_connection sha256 to_text u out (VInt (if un_needs_total u then int (length ?X) else 0)) ctx src av bv
      = Inr (union_connection sv u host edge len s ?X)"
    unfolding union_connection_def Let_def
    by (rule trans [OF union_build_page [OF size out_def edgeY]]) (simp_all only: at)
  have total: "(case slot_get (if un_needs_total u then [(VNone, VInt (int (length ?X)))] else []) VNone of None \<Rightarrow> VInt 0 | Some n \<Rightarrow> n)
      = VInt (if un_needs_total u then int (length ?X) else 0)" by simp
  show ?thesis using root by (simp only: union_execute_def run bind_res_simps cursor(1) prod.case total build settle.simps if_True not_False_eq_True simp_thms)
qed

section \<open>Paging through a union\<close>

definition union_page_request ::
  "(union_statement \<Rightarrow> row \<Rightarrow> row list res) \<Rightarrow> ('f \<Rightarrow> pyval \<Rightarrow> pyval res) \<Rightarrow> (string \<Rightarrow> string) \<Rightarrow> (pyval \<Rightarrow> string)
   \<Rightarrow> 'f pg_union \<Rightarrow> pyval \<Rightarrow> row \<Rightarrow> string \<Rightarrow> pyval \<Rightarrow> pyval \<Rightarrow> pyval res" where
  "union_page_request exec ct sha256 to_text u ctx src s k cursor =
     bind_res (settle (union_execute exec ct sha256 to_text u ctx ((s, cursor) # src) 1 [[k]])) (\<lambda>col. Inr (hd col))"

lemma union_edge_cursor: "union_edge sha256 to_text u r = Inr e \<Longrightarrow> encode_keyset_cursor sha256 to_text (un_order u) r = Inr (snd e)"
  by (auto simp: union_edge_def bind_res_Inr_iff)

lemma union_source:
  assumes ok: "union_ok sv to_text u"
    and fwd: "\<not> un_reverse u" "un_after u = Placeholder s" "un_before u = Plain w" "\<not> is_ctx_source s"
    and run: "\<And>c av z. union_cursor_values sha256 u ctx ((s, c) # src) = Inr (av, un_before_values u)
      \<Longrightarrow> cursor_cells sv (as_connection u) av z
      \<Longrightarrow> fetch c = Inr (union_connection sv u host edge (Some len) z X)"
    and X: "sorted_wrt (\<lambda>a b. terms_before (un_order u) (merged_view sv u a) (merged_view sv u b)) X"
      "set X \<subseteq> set (sv_tables (union_server sv u host) t)"
    and edges: "\<And>x. x \<in> set X \<Longrightarrow> union_edge sha256 to_text u x = Inr (edge x)"
    and len: "0 < len"
  shows "paged_source fetch sha256 to_text (sv_db sv) (column_type (union_resource u)) (un_order u) (merged_view sv u) X edge len"
proof -
  have page: "\<exists>t p extra. fetch c = Inr (VDict (connection_fields (map edge (take len Y)) t (len < length Y) p @ extra))"
    if av: "request_cursor sha256 (Placeholder s) (un_after_values u) (un_order u) ctx ((s, c) # src) = Inr av"
      and cells: "cursor_cells sv (as_connection u) av z" and Y: "Y = seek_rows False (un_order u) (merged_view sv u) z X" for c av z Y
  proof -
    have "union_cursor_values sha256 u ctx ((s, c) # src) = Inr (av, un_before_values u)"
      using av fwd(2,3) by (simp add: union_cursor_values_def request_cursor_def)
    from run [OF this cells] have "fetch c = Inr (VDict (connection_fields (map edge (take len Y))
        (VInt (if un_needs_total u then int (length X) else 0)) (len < length Y) (z \<noteq> None) @ []))"
      using fwd(1) by (simp add: Y union_connection_def Let_def relay_page_def more_rows_def)
    then show ?thesis by blast
  qed
  show ?thesis
  proof
    show "0 < len" by (rule len)
    show "sorted_wrt (\<lambda>a b. terms_before (un_order u) (merged_view sv u a) (merged_view sv u b)) X" by (rule X(1))
    show "lossless (sv_db sv) (column_type (union_resource u)) to_text (un_order u) (merged_view sv u) x" if "x \<in> set X" for x
      using X(2) that by (intro union_lossless [OF ok]) blast
    show "encode_keyset_cursor sha256 to_text (un_order u) x = Inr (snd (edge x))" if "x \<in> set X" for x
      by (rule union_edge_cursor [OF edges [OF that]])
    show "\<exists>t p extra. fetch VNone = Inr (VDict (connection_fields (map edge (take len X)) t (len < length X) p @ extra))"
      by (rule page [OF request_cursor_variable(1) [OF fwd(4)], of None]) (simp_all add: cursor_cells_def seek_rows_def)
    show "\<exists>t p extra. fetch (VStr c) = Inr (VDict (connection_fields (map edge (take len Y)) t (len < length Y) p @ extra))"
      if "decode_keyset_cursor sha256 c (un_order u) = Inr vals" "c \<noteq> []"
        "cursor_row (sv_db sv) (column_type (union_resource u)) (un_order u) vals z"
        "Y = seek_rows False (un_order u) (merged_view sv u) (Some z) X" for c vals z Y
      by (rule page [OF request_cursor_variable(2) [OF fwd(4) that(2,1)] _ that(4)]) (simp add: cursor_cells_def that(3))
  qed
qed

lemma parent_source:
  assumes ok: "union_ok sv to_text u" and keyed: "keyed_ok sv u"
    and fwd: "\<not> un_reverse u" "un_after u = Placeholder s" "un_before u = Plain w" "\<not> is_ctx_source s"
    and key: "normalize_lookup_key k0 (un_composite u) = Inr k" "\<forall>m \<in> set (un_members u). key_ok sv (um_resource m) (un_match u) k"
    and host: "\<And>c. member_where_params ct u ctx ((s, c) # src) = Inr host" "host_ok host (members_where u)"
    and size: "\<And>c. union_page_size u ctx ((s, c) # src) = Inr (Some (int len))" "0 < len"
    and edges: "\<And>m r. m \<in> set (un_members u) \<Longrightarrow> r \<in> set (member_table sv m)
      \<Longrightarrow> union_edge sha256 to_text u (member_row u m r) = Inr (edge (member_row u m r))"
  shows "paged_source (union_page_request (answer_union sv) ct sha256 to_text u ctx src s k0) sha256 to_text (sv_db sv)
    (column_type (union_resource u)) (un_order u) (merged_view sv u) (parent_rows sv u host k) edge len"
proof (rule union_source [OF ok fwd])
  fix c av z assume rc: "union_cursor_values sha256 u ctx ((s, c) # src) = Inr (av, un_before_values u)"
    and cells: "cursor_cells sv (as_connection u) av z"
  have keys: "map_res (\<lambda>k. normalize_lookup_key k (un_composite u)) ([[k0]] ! 0) = Inr [k]" using key(1) by simp
  have "settle (union_execute (answer_union sv) ct sha256 to_text u ctx ((s, c) # src) 1 [[k0]])
      = Inr (map (\<lambda>k. union_connection sv u host edge (Some len) z (parent_rows sv u host k)) [k])"
    by (rule union_entries [OF ok keyed keys _ _ host(1) host(2) rc _ _ edges]) (use key(2) fwd(1) cells size in simp_all)
  then show "union_page_request (answer_union sv) ct sha256 to_text u ctx src s k0 c
      = Inr (union_connection sv u host edge (Some len) z (parent_rows sv u host k))" by (simp add: union_page_request_def)
next
  show "sorted_wrt (\<lambda>a b. terms_before (un_order u) (merged_view sv u a) (merged_view sv u b)) (parent_rows sv u host k)"
    using parent_rows_members(2) [OF ok keyed] by (cases "k = VNone") (simp_all add: parent_rows_none)
  show "set (parent_rows sv u host k) \<subseteq> set (sv_tables (union_server sv u host) ([], []))"
    by (auto simp: parent_rows_def key_rows_def union_resource_def)
  show "union_edge sha256 to_text u x = Inr (edge x)" if "x \<in> set (parent_rows sv u host k)" for x
    by (rule parent_rows_edges [OF ok keyed edges that])
  show "0 < len" by (rule size(2))
qed

end
