(* ===== verification/Union_Properties.thy ===== *)
theory Union_Properties
  imports Pg_Union_Pages Connection_Properties
begin

text \<open>
  The correctness properties of unions, with the posts and comments of an author as their instance, and a
  union whose members share a type name.
\<close>

section \<open>What a planned union is\<close>

lemma first_seen_spec: "distinct seen \<Longrightarrow> distinct (first_seen seen cs) \<and> set (first_seen seen cs) = set seen \<union> set cs"
  by (induction seen cs rule: first_seen.induct) auto

lemma member_columns_spec:
  "distinct (compute_member_columns members shared)"
  "set (compute_member_columns members shared) = (\<Union>m \<in> set members. set (stored_columns (um_resource m))) - set shared"
  using first_seen_spec [of "[]"] by (auto simp: compute_member_columns_def)

lemma order_shared: "assert_order_columns_shared shared ts = Inr () \<Longrightarrow> t \<in> set ts \<Longrightarrow> ot_column t \<in> insert typename_column (set shared)"
  by (induction ts) (auto split: if_splits)

lemma agree_all: "members_agree expected members = Inr () \<Longrightarrow> m \<in> set members \<Longrightarrow> member_match_columns m = Inr expected"
  by (induction members) (auto simp: bind_res_Inr_iff split: if_splits)

lemma made_union:
  assumes made: "pg_union_all sha256 members shared order_by keyed first after last_n before unique needs_total = Inr u"
    and valid: "\<forall>t. Inr t \<in> set order_by \<longrightarrow> valid_term t"
  shows "un_members u = members \<and> members \<noteq> [] \<and> un_shared u = shared \<and> un_member_columns u = compute_member_columns members shared"
    and "\<forall>t \<in> set (un_order u). valid_term t \<and> ot_column t \<in> insert typename_column (set (un_shared u))"
    and "typename_column \<in> ot_column ` set (un_order u)"
    and "un_per_parent u = keyed \<and> un_reverse u = (last_n \<noteq> Plain VNone \<or> before \<noteq> Plain VNone)
      \<and> un_after u = after \<and> un_before u = before"
    and "keyed \<Longrightarrow> un_match u \<noteq> [] \<and> set (un_match u) \<subseteq> set shared \<and> (\<forall>m \<in> set members. member_match_columns m = Inr (un_match u))"
proof -
  let ?order = "normalize_order order_by (rs_primary_key (um_resource (hd members))) unique @ [ascending typename_column]"
  from made obtain a b cols where shape: "members \<noteq> []" "shared \<noteq> []" "assert_order_columns_shared shared ?order = Inr ()"
    and u: "un_members u = members" "un_shared u = shared" "un_member_columns u = compute_member_columns members shared"
      "un_order u = ?order" "un_per_parent u = keyed" "un_reverse u = (last_n \<noteq> Plain VNone \<or> before \<noteq> Plain VNone)" "un_match u = cols"
      "un_after u = after" "un_before u = before"
    and cols: "(if keyed then assert_members_have_match shared members
                else bind_res (assert_members_have_no_match members) (\<lambda>_. Inr [])) = Inr cols"
    by (auto simp: pg_union_all_def Let_def bind_res_Inr_iff split: if_splits)
  show "un_members u = members \<and> members \<noteq> [] \<and> un_shared u = shared \<and> un_member_columns u = compute_member_columns members shared"
    using shape u by simp
  show "\<forall>t \<in> set (un_order u). valid_term t \<and> ot_column t \<in> insert typename_column (set (un_shared u))"
    using order_shared [OF shape(3)] normalize_order_valid [OF valid] by (auto simp: u ascending_def valid_term_def)
  show "typename_column \<in> ot_column ` set (un_order u)" by (simp add: u ascending_def)
  show "un_per_parent u = keyed \<and> un_reverse u = (last_n \<noteq> Plain VNone \<or> before \<noteq> Plain VNone)
      \<and> un_after u = after \<and> un_before u = before" by (simp add: u)
  show "un_match u \<noteq> [] \<and> set (un_match u) \<subseteq> set shared \<and> (\<forall>m \<in> set members. member_match_columns m = Inr (un_match u))" if keyed
    using cols that agree_all by (auto simp: assert_members_have_match_def bind_res_Inr_iff u split: if_splits)
qed

text \<open>What is left to the host and the database.\<close>

definition union_tables_ok ::
  "('v::linorder) server \<Rightarrow> (pyval \<Rightarrow> string) \<Rightarrow> 'f pg_union \<Rightarrow> bool" where
  "union_tables_ok sv to_text u \<longleftrightarrow> distinct (un_shared u) \<and> typename_column \<notin> set (un_shared u)
     \<and> (\<forall>m \<in> set (un_members u). typename_column \<notin> set (stored_columns (um_resource m)))
     \<and> distinct (map (tag_cell (sv_db sv)) (un_members u))
     \<and> column_type (um_resource (hd (un_members u))) typename_column = None
     \<and> (\<forall>m \<in> set (un_members u). member_ok sv to_text u m)"

definition match_values_ok :: "'v server \<Rightarrow> 'f pg_union \<Rightarrow> bool" where
  "match_values_ok sv u \<longleftrightarrow> ''__total'' \<notin> set (un_match u)
     \<and> (\<forall>m \<in> set (un_members u). \<forall>r \<in> set (member_table sv m). \<forall>c \<in> set (un_match u). \<exists>v. map_of r c = Some v \<and> hashable v \<and> py_wf v)"

lemma made_union_ok:
  assumes made: "pg_union_all sha256 members shared order_by keyed first after last_n before unique needs_total = Inr u"
    and valid: "\<forall>t. Inr t \<in> set order_by \<longrightarrow> valid_term t" and tables: "union_tables_ok sv to_text u"
  shows "union_ok sv to_text u"
  using tables made_union [OF made valid] member_columns_spec [of members shared]
  by (auto simp: union_ok_def union_tables_ok_def projected_columns_def)

lemma made_keyed_ok:
  assumes made: "pg_union_all sha256 members shared order_by True first after last_n before unique needs_total = Inr u"
    and valid: "\<forall>t. Inr t \<in> set order_by \<longrightarrow> valid_term t" and vals: "match_values_ok sv u"
  shows "keyed_ok sv u"
  using vals made_union [OF made valid] by (auto simp: keyed_ok_def match_values_ok_def)

section \<open>Per parent\<close>

text \<open>C17: every parent of a bucket gets the Relay page of its rows in all the members' tables, merged in the
  union's order, with its total: the rows that have its key and pass their member's predicates, tagged with
  the member's type and padded with NULLs.\<close>

theorem union_pages_are_relay:
  assumes "pg_union_all sha256 members shared order_by True first after last_n before unique needs_total = Inr u"
    and "\<forall>t. Inr t \<in> set order_by \<longrightarrow> valid_term t" and "union_tables_ok sv to_text u" and "match_values_ok sv u"
    and "map_res (\<lambda>k. normalize_lookup_key k (un_composite u)) (values ! 0) = Inr keys" and "length keys = n"
    and "\<forall>k \<in> set keys. \<forall>m \<in> set members. key_ok sv (um_resource m) (un_match u) k"
    and "member_where_params ct u ctx src = Inr host" and "host_ok host (members_where u)"
    and "union_cursor_values sha256 u ctx src = Inr (av, bv)"
    and "cursor_cells sv (as_connection u) (if un_reverse u then bv else av) s"
    and "union_page_size u ctx src = Inr (map_option int len)"
    and "\<And>m r. m \<in> set members \<Longrightarrow> r \<in> set (member_table sv m)
      \<Longrightarrow> union_edge sha256 to_text u (member_row u m r) = Inr (edge (member_row u m r))"
  shows "settle (union_execute (answer_union sv) ct sha256 to_text u ctx src n values)
      = Inr (map (\<lambda>k. union_connection sv u host edge len s (parent_rows sv u host k)) keys)
    \<and> (\<forall>k. k \<noteq> VNone \<longrightarrow>
         sorted_wrt (\<lambda>a b. terms_before (un_order u) (merged_view sv u a) (merged_view sv u b)) (parent_rows sv u host k)
         \<and> set (parent_rows sv u host k) = {member_row u m r | m r. m \<in> set members \<and> r \<in> set (member_table sv m)
             \<and> where_true sv host (um_where m) r \<and> has_key (un_match u) k r})"
proof -
  note ok = made_union_ok [OF assms(1-3)] and keyed = made_keyed_ok [OF assms(1,2,4)]
  have m: "un_members u = members" using made_union(1) [OF assms(1,2)] by blast
  show ?thesis
    using union_entries [OF ok keyed assms(5,6) assms(7-) [folded m]] parent_rows_members [OF ok keyed, of _ host] unfolding m by blast
qed

section \<open>An instance: the posts and comments of an author\<close>

definition post :: "int \<Rightarrow> int \<Rightarrow> string \<Rightarrow> row" where
  "post i a t = [(''id'', VInt i), (''author'', VInt a), (''title'', VStr t)]"

definition comment :: "int \<Rightarrow> int \<Rightarrow> row" where
  "comment i a = [(''id'', VInt i), (''author'', VInt a)]"

definition feed_server :: "pg_value server" where
  "feed_server = \<lparr>sv_db = small_db, sv_view = view_row,
     sv_tables = \<lambda>t. if t = (''public'', ''posts'') then [post 1 1 ''a'', post 2 2 ''b'']
                     else if t = (''public'', ''comments'') then [comment 3 1, comment 1 1] else [],
     sv_fold = \<lambda>f c rows. VNone, sv_json = \<lambda>t c v. v\<rparr>"

definition posts :: pg_resource where
  "posts = \<lparr>rs_name = ''posts'', rs_schema = ''public'', rs_table = ''posts'',
     rs_attributes = [(''id'', plain_column ''id''), (''author'', plain_column ''author''), (''title'', plain_column ''title'')],
     rs_primary_key = ''id'', rs_column_types = [], rs_relations = [], rs_opt_out_inline = False, rs_customizer_arity = None\<rparr>"

definition comments :: pg_resource where
  "comments = \<lparr>rs_name = ''comments'', rs_schema = ''public'', rs_table = ''comments'',
     rs_attributes = [(''id'', plain_column ''id''), (''author'', plain_column ''author'')],
     rs_primary_key = ''id'', rs_column_types = [], rs_relations = [], rs_opt_out_inline = False, rs_customizer_arity = None\<rparr>"

definition feed_members :: "bool \<Rightarrow> unit union_member list" where
  "feed_members keyed =
     [\<lparr>um_resource = posts, um_type = ''Post'', um_match = (if keyed then Some (Inl ''author'') else None), um_where = [], um_binds = []\<rparr>,
      \<lparr>um_resource = comments, um_type = ''Comment'', um_match = (if keyed then Some (Inl ''author'') else None), um_where = [], um_binds = []\<rparr>]"

definition feed :: "bool \<Rightarrow> int \<Rightarrow> unit pg_union" where
  "feed keyed n = \<lparr>un_members = feed_members keyed, un_shared = [''id'', ''author''], un_member_columns = [''title''],
     un_order = [ascending ''id'', ascending typename_column], un_first = Plain (VInt n), un_after = Placeholder ''var:after'',
     un_last = Plain VNone, un_before = Plain VNone, un_needs_total = True, un_after_source = Some ''var:after'',
     un_before_source = None, un_reverse = False, un_after_values = None, un_before_values = None, un_per_parent = keyed,
     un_match = (if keyed then [''author''] else [])\<rparr>"

lemma feed_columns: "stored_columns posts = [''id'', ''author'', ''title'']" "stored_columns comments = [''id'', ''author'']"
  by (simp_all add: posts_def comments_def stored_columns_def plain_column_def as_column_def is_computed_def)

lemma feed_made:
  "pg_union_all sha256 (feed_members keyed) [''id'', ''author''] [] keyed (Plain (VInt n)) (Placeholder ''var:after'') (Plain VNone) (Plain VNone)
     False True = Inr (feed keyed n)"
proof -
  have "compute_member_columns (feed_members keyed) [''id'', ''author''] = [''title'']"
    by (simp add: compute_member_columns_def feed_members_def feed_columns)
  moreover have "assert_members_have_match [''id'', ''author''] (feed_members True) = Inr [''author'']"
    "assert_members_have_no_match (feed_members False) = Inr ()"
    by (simp_all add: assert_members_have_match_def feed_members_def member_match_columns_def as_match_columns_def)
  moreover have "feed_members keyed \<noteq> []" "rs_primary_key (um_resource (hd (feed_members keyed))) = ''id''"
    by (simp_all add: feed_members_def posts_def)
  ultimately show ?thesis
    by (cases keyed) (simp_all add: pg_union_all_def feed_def normalize_order_def Let_def placeholder_source_tag_def ascending_def
        typename_column_def union_literal_cursors_def decode_literal_cursor_def)
qed

lemma feed_fields:
  "un_members (feed keyed n) = feed_members keyed" "un_shared (feed keyed n) = [''id'', ''author'']"
  "un_member_columns (feed keyed n) = [''title'']" "un_order (feed keyed n) = [ascending ''id'', ascending typename_column]"
  "un_after (feed keyed n) = Placeholder ''var:after''" "un_before (feed keyed n) = Plain VNone"
  "un_first (feed keyed n) = Plain (VInt n)" "un_reverse (feed keyed n) = False" "un_needs_total (feed keyed n) = True"
  "un_match (feed keyed n) = (if keyed then [''author''] else [])" "un_before_values (feed keyed n) = None"
  "un_per_parent (feed keyed n) = keyed"
  by (simp_all add: feed_def)

definition posts_member :: "bool \<Rightarrow> unit union_member" where
  "posts_member keyed = hd (feed_members keyed)"

definition comments_member :: "bool \<Rightarrow> unit union_member" where
  "comments_member keyed = last (feed_members keyed)"

lemma feed_members_are: "feed_members keyed = [posts_member keyed, comments_member keyed]"
  by (simp add: posts_member_def comments_member_def feed_members_def)

lemma feed_member_fields:
  "um_resource (posts_member keyed) = posts" "um_type (posts_member keyed) = ''Post''" "um_where (posts_member keyed) = []"
  "um_binds (posts_member keyed) = []" "um_resource (comments_member keyed) = comments" "um_type (comments_member keyed) = ''Comment''"
  "um_where (comments_member keyed) = []" "um_binds (comments_member keyed) = []"
  by (simp_all add: posts_member_def comments_member_def feed_members_def)

lemma feed_tables:
  "member_table feed_server (posts_member keyed) = [post 1 1 ''a'', post 2 2 ''b'']"
  "member_table feed_server (comments_member keyed) = [comment 3 1, comment 1 1]"
  by (simp_all add: member_table_def feed_member_fields posts_def comments_def feed_server_def)

text \<open>The rows of the union.\<close>

definition feed_row :: "int \<Rightarrow> int \<Rightarrow> pyval \<Rightarrow> string \<Rightarrow> row" where
  "feed_row i a t name = [(''id'', VInt i), (''author'', VInt a), (''title'', t), (typename_column, VStr name)]"

lemma feed_rows:
  "member_row (feed keyed n) (posts_member keyed) (post i a t) = feed_row i a (VStr t) ''Post''"
  "member_row (feed keyed n) (comments_member keyed) (comment i a) = feed_row i a VNone ''Comment''"
  by (simp_all add: member_row_def leg_row_def branch_columns_def feed_fields feed_member_fields feed_columns post_def comment_def
      feed_row_def)

lemma feed_cells: "view_row (post i a t) ''id'' = Some (PgInt i)" "view_row (post i a t) ''author'' = Some (PgInt a)"
  "view_row (comment i a) ''id'' = Some (PgInt i)" "view_row (comment i a) ''author'' = Some (PgInt a)"
  by (simp_all add: view_row_def post_def comment_def)

lemma feed_simps: "sv_db feed_server = small_db" "sv_view feed_server = view_row" "coerce small_db ty v = pg_cell v"
  by (simp_all add: feed_server_def small_db_def)

lemma feed_member_ok: "member_ok feed_server to_text (feed keyed n) m" if "m \<in> set (feed_members keyed)"
proof -
  note defs = member_ok_def feed_tables feed_rows feed_fields feed_simps tag_cell_def feed_member_fields ascending_def
    typename_column_def feed_cells lossless_def feed_members_are
  have "member_ok feed_server to_text (feed keyed n) (posts_member keyed)"
    unfolding defs list.map feed_rows by (simp add: feed_row_def post_def) (simp add: view_row_def)
  moreover have "member_ok feed_server to_text (feed keyed n) (comments_member keyed)"
    unfolding defs list.map feed_rows by (simp add: feed_row_def comment_def) (simp add: view_row_def)
  ultimately show ?thesis using that by (auto simp: feed_members_are)
qed

lemma feed_tables_ok: "union_tables_ok feed_server to_text (feed keyed n)"
  unfolding union_tables_ok_def feed_fields
  using feed_member_ok by (simp add: feed_members_are feed_member_fields feed_columns typename_column_def tag_cell_def
      feed_simps) (simp add: column_type_def posts_def)

lemma feed_match_values: "match_values_ok feed_server (feed keyed n)"
  unfolding match_values_ok_def feed_fields feed_members_are by (auto simp: feed_tables post_def comment_def)

lemma feed_ok: "union_ok feed_server to_text (feed keyed n)"
  by (rule made_union_ok [OF feed_made _ feed_tables_ok]) simp

lemma feed_keyed: "keyed_ok feed_server (feed True n)"
  by (rule made_keyed_ok [OF feed_made [of _ True] _ feed_match_values]) simp

lemma feed_key: "\<forall>m \<in> set (feed_members True). key_ok feed_server (um_resource m) [''author''] (VInt a)"
    "\<forall>m \<in> set (feed_members True). key_ok feed_server (um_resource m) [''author''] VNone"
proof -
  have "sv_tables feed_server (rs_schema posts, rs_table posts) = [post 1 1 ''a'', post 2 2 ''b'']"
    "sv_tables feed_server (rs_schema comments, rs_table comments) = [comment 3 1, comment 1 1]"
    by (simp_all add: posts_def comments_def feed_server_def)
  note tabs = this
  show "\<forall>m \<in> set (feed_members True). key_ok feed_server (um_resource m) [''author''] (VInt a)"
    "\<forall>m \<in> set (feed_members True). key_ok feed_server (um_resource m) [''author''] VNone"
    by (simp_all add: feed_members_are feed_member_fields key_ok_def tabs match_predicate_def key_parts_def bindable_def parts_match_def
        has_key_def grouping_key_def row_get_def feed_cells feed_simps) (simp_all add: post_def comment_def)
qed

lemma feed_all_rows: "all_rows feed_server (feed keyed n) = [(posts_member keyed, post 1 1 ''a''), (posts_member keyed, post 2 2 ''b''),
    (comments_member keyed, comment 3 1), (comments_member keyed, comment 1 1)]"
  by (simp add: all_rows_def feed_fields feed_members_are feed_tables)

lemma feed_table: "sv_tables (union_server feed_server (feed keyed n) host) t
    = [feed_row 1 1 (VStr ''a'') ''Post'', feed_row 2 2 (VStr ''b'') ''Post'', feed_row 3 1 VNone ''Comment'', feed_row 1 1 VNone ''Comment'']"
  unfolding union_table feed_all_rows by (simp add: feed_rows feed_member_fields where_true_def)

lemma feed_view:
  assumes "x \<in> {feed_row 1 1 (VStr ''a'') ''Post'', feed_row 2 2 (VStr ''b'') ''Post'', feed_row 3 1 VNone ''Comment'', feed_row 1 1 VNone ''Comment''}"
  shows "c \<in> {''id'', ''author'', typename_column} \<Longrightarrow> merged_view feed_server (feed keyed n) x c = view_row x c"
proof -
  obtain m r where m: "(m, r) \<in> set (all_rows feed_server (feed keyed n))" "x = member_row (feed keyed n) m r"
  proof -
    have "x \<in> set (map (\<lambda>(m, r). member_row (feed keyed n) m r) (all_rows feed_server (feed keyed n)))"
      unfolding feed_all_rows using assms by (simp add: feed_rows)
    with that show thesis by auto
  qed
  have d: "distinct (projected_columns (feed keyed n))" using feed_ok by (simp add: union_ok_def)
  have v: "merged_view feed_server (feed keyed n) x = member_cells feed_server (feed keyed n) m r"
    using m by (simp add: merged_view_row [OF feed_ok] mem_all_rows)
  show "merged_view feed_server (feed keyed n) x c = view_row x c" if c: "c \<in> {''id'', ''author'', typename_column}"
  proof (cases "c = typename_column")
    case True
    then show ?thesis
      using member_row_lookup(2) [OF d, of m r] by (simp add: v [unfolded m(2)] member_cells_typename [OF d] tag_cell_def feed_simps view_row_def m(2))
  next
    case False
    then have sh: "c \<in> set (un_shared (feed keyed n))" using c by (auto simp: feed_fields)
    have "\<exists>w. map_of r c = Some w" using m(1) False c by (auto simp: feed_all_rows post_def comment_def)
    then obtain w where w: "map_of r c = Some w" by blast
    then show ?thesis using member_row_lookup(1) [OF sh w, of m]
      by (simp add: v [unfolded m(2)] member_cells_shared [OF sh] feed_simps view_row_def m(2))
  qed
qed

lemma feed_before:
  assumes "x \<in> {feed_row 1 1 (VStr ''a'') ''Post'', feed_row 2 2 (VStr ''b'') ''Post'', feed_row 3 1 VNone ''Comment'', feed_row 1 1 VNone ''Comment''}"
    and "y \<in> {feed_row 1 1 (VStr ''a'') ''Post'', feed_row 2 2 (VStr ''b'') ''Post'', feed_row 3 1 VNone ''Comment'', feed_row 1 1 VNone ''Comment''}"
  shows "row_before (order_clauses [ascending ''id'', ascending typename_column]) (merged_view feed_server (feed keyed n) x)
      (merged_view feed_server (feed keyed n) y)
    = terms_before [ascending ''id'', ascending typename_column] (view_row x) (view_row y)"
proof -
  have "\<forall>t \<in> set [ascending ''id'', ascending typename_column]. valid_term t" by (simp add: valid_term_def ascending_def)
  then show ?thesis
    using feed_view [OF assms(1), of "''id''"] feed_view [OF assms(1), of typename_column] feed_view [OF assms(2), of "''id''"]
      feed_view [OF assms(2), of typename_column]
    by (simp add: row_before_terms ascending_def term_before_def)
qed

lemma feed_row_cells: "view_row (feed_row i a t name) ''id'' = Some (PgInt i)" "view_row (feed_row i a t name) ''author'' = Some (PgInt a)"
    "view_row (feed_row i a t name) typename_column = Some (PgText name)"
  by (simp_all add: view_row_def feed_row_def typename_column_def)

lemma feed_less:
  "terms_before [ascending ''id'', ascending typename_column] (view_row (feed_row i a t name)) (view_row (feed_row j b s name'))
    = (i < j \<or> i = j \<and> name < name')"
proof -
  have lt: "(PgInt i < PgInt j) = (i < j)" "(PgText v < PgText w) = (v < w)" for i j v w
    by (auto simp: less_pg_value_def less_le_not_le)
  show ?thesis by (auto simp: term_before_def cell_before_def feed_row_cells ascending_def lt)
qed

lemma feed_names: "''Comment'' < ''Post''" "\<not> ''Post'' < ''Comment''"
  by code_simp+

lemma feed_parent_rows:
  "parent_rows feed_server (feed True n) [] (VInt 1)
     = [feed_row 1 1 VNone ''Comment'', feed_row 1 1 (VStr ''a'') ''Post'', feed_row 3 1 VNone ''Comment'']"
  "parent_rows feed_server (feed True n) [] (VInt 2) = [feed_row 2 2 (VStr ''b'') ''Post'']"
proof -
  have key: "has_key [''author''] (VInt k) (feed_row i a t name) = (a = k)" for k i a t name
    by (auto simp: has_key_def grouping_key_def row_get_def feed_row_def)
  have tab: "filter (\<lambda>r. has_key [''author''] k r \<and> where_true sv [] [] r) rows = filter (has_key [''author''] k) rows" for k sv rows
    by (simp add: where_true_def)
  have parent: "parent_rows feed_server (feed True n) [] (VInt k) = order_rows (union_server feed_server (feed True n) [])
      (order_clauses [ascending ''id'', ascending typename_column]) (filter (has_key [''author''] (VInt k))
        [feed_row 1 1 (VStr ''a'') ''Post'', feed_row 2 2 (VStr ''b'') ''Post'', feed_row 3 1 VNone ''Comment'', feed_row 1 1 VNone ''Comment''])" for k
    unfolding parent_rows_def key_rows_def feed_fields if_True feed_table tab by simp
  let ?rows = "[feed_row 1 1 VNone ''Comment'', feed_row 1 1 (VStr ''a'') ''Post'', feed_row 3 1 VNone ''Comment'']"
  have sorted: "sorted_wrt (\<lambda>a b. row_before (order_clauses [ascending ''id'', ascending typename_column])
      (merged_view feed_server (feed True n) a) (merged_view feed_server (feed True n) b)) ?rows"
    using feed_before [of "feed_row 1 1 VNone ''Comment''" "feed_row 1 1 (VStr ''a'') ''Post''" True n]
      feed_before [of "feed_row 1 1 VNone ''Comment''" "feed_row 3 1 VNone ''Comment''" True n]
      feed_before [of "feed_row 1 1 (VStr ''a'') ''Post''" "feed_row 3 1 VNone ''Comment''" True n]
    unfolding feed_less by (simp add: feed_names)
  have distinct: "distinct ?rows" by (simp add: feed_row_def)
  have f1: "filter (has_key [''author''] (VInt 1)) [feed_row 1 1 (VStr ''a'') ''Post'', feed_row 2 2 (VStr ''b'') ''Post'',
      feed_row 3 1 VNone ''Comment'', feed_row 1 1 VNone ''Comment'']
      = [feed_row 1 1 (VStr ''a'') ''Post'', feed_row 3 1 VNone ''Comment'', feed_row 1 1 VNone ''Comment'']" by (simp add: key)
  show "parent_rows feed_server (feed True n) [] (VInt 1) = ?rows"
    unfolding parent f1 by (rule order_rows_sorted) (use distinct sorted in auto)
  have f2: "filter (has_key [''author''] (VInt 2)) [feed_row 1 1 (VStr ''a'') ''Post'', feed_row 2 2 (VStr ''b'') ''Post'',
      feed_row 3 1 VNone ''Comment'', feed_row 1 1 VNone ''Comment''] = [feed_row 2 2 (VStr ''b'') ''Post'']" by (simp add: key)
  show "parent_rows feed_server (feed True n) [] (VInt 2) = [feed_row 2 2 (VStr ''b'') ''Post'']"
    unfolding parent f2 by (rule order_rows_sorted) simp_all
qed

definition feed_edge :: "(string \<Rightarrow> string) \<Rightarrow> (pyval \<Rightarrow> string) \<Rightarrow> row \<Rightarrow> row \<times> string" where
  "feed_edge sha256 to_text x = projr (union_edge sha256 to_text (feed True 0) x)"

lemma feed_decoders: "decode_row posts r = Inr r" "decode_row comments r = Inr r"
  by (simp_all add: decode_row_def has_decoders_def posts_def comments_def plain_column_def as_column_def to_py_def)

lemma feed_edge:
  assumes "name \<in> {''Post'', ''Comment''}"
  shows "union_edge sha256 to_text (feed keyed n) (feed_row i a t name) = Inr (feed_edge sha256 to_text (feed_row i a t name))"
    and "fst (feed_edge sha256 to_text (feed_row i a t name)) = feed_row i a t name"
proof -
  let ?x = "feed_row i a t name" and ?ts = "[ascending ''id'', ascending typename_column]"
  have "encodable to_text ?ts ?x" by (simp add: encodable_def ascending_def feed_row_def typename_column_def)
  then obtain c where c: "encode_keyset_cursor sha256 to_text ?ts ?x = Inr c"
    using cursor_round_trip [of to_text ?ts ?x sha256] by blast
  have dec: "decode_member_row (feed keyed n) ?x = Inr ?x" for keyed n
    using assms by (auto simp: decode_member_row_def row_get_def feed_row_def typename_column_def member_by_type_def feed_fields
        feed_members_are feed_member_fields feed_decoders)
  have cols: "projected_columns (feed keyed n) = [''id'', ''author'', ''title'', typename_column]" for keyed n
    by (simp add: projected_columns_def feed_fields)
  have "map_res (\<lambda>c. bind_res (row_get ?x c) (\<lambda>v. Inr (c, v))) [''id'', ''author'', ''title'', typename_column] = Inr ?x"
    by (simp add: row_get_def feed_row_def typename_column_def)
  moreover have "dict_update [] ?x = ?x" by (simp add: feed_row_def typename_column_def dict_update_def)
  ultimately have "union_edge sha256 to_text (feed keyed n) ?x = Inr (?x, c)" for keyed n
    by (simp only: union_edge_def feed_fields c dec cols bind_res_simps)
  then show "union_edge sha256 to_text (feed keyed n) ?x = Inr (feed_edge sha256 to_text ?x)" "fst (feed_edge sha256 to_text ?x) = ?x"
    by (simp_all add: feed_edge_def)
qed

lemma feed_edges:
  assumes "m \<in> set (feed_members keyed)" and "r \<in> set (member_table feed_server m)"
  shows "union_edge sha256 to_text (feed keyed n) (member_row (feed keyed n) m r) = Inr (feed_edge sha256 to_text (member_row (feed keyed n) m r))"
  using assms by (auto simp: feed_members_are feed_tables feed_rows feed_edge)

lemma feed_request:
  "member_where_params ct (feed keyed n) ctx src = Inr []" "members_where (feed keyed n) = []"
  "union_page_size (feed keyed n) ctx src = Inr (Some n)"
  by (simp_all add: member_where_params_def feed_fields feed_members_are feed_member_fields members_where_def union_page_size_def
      resolve_placeholder_def size_of_value_def)

lemma union_pages_are_relay_witness:
  "\<exists>c1 c2 c3. settle (union_execute (answer_union feed_server) (\<lambda>f. Inr) id (\<lambda>v. []) (feed True 2) VNone [] 3 [[VInt 1, VNone, VInt 2]])
    = Inr [VDict (connection_fields [(feed_row 1 1 VNone ''Comment'', c1), (feed_row 1 1 (VStr ''a'') ''Post'', c2)] (VInt 3) True False),
           VDict (connection_fields [] (VInt 0) False False),
           VDict (connection_fields [(feed_row 2 2 (VStr ''b'') ''Post'', c3)] (VInt 1) False False)]"
proof -
  let ?u = "feed True 2" and ?edge = "feed_edge id (\<lambda>v. [])"
  have "settle (union_execute (answer_union feed_server) (\<lambda>f. Inr) id (\<lambda>v. []) ?u VNone [] 3 [[VInt 1, VNone, VInt 2]])
      = Inr (map (\<lambda>k. union_connection feed_server ?u [] ?edge (Some 2) None (parent_rows feed_server ?u [] k)) [VInt 1, VNone, VInt 2])"
    by (rule union_pages_are_relay [where av = None and bv = None, THEN conjunct1,
          OF feed_made [of id True 2] _ feed_tables_ok feed_match_values _ _ _ feed_request(1) _ _ _ _ feed_edges])
      (use feed_key in \<open>simp_all add: feed_fields feed_request normalize_lookup_key_def un_composite_def host_ok_def
        union_cursor_values_def request_cursor_def resolve_placeholder_def source_value_def is_ctx_source_def cursor_cells_def\<close>)
  moreover have "map (\<lambda>k. union_connection feed_server ?u [] ?edge (Some 2) None (parent_rows feed_server ?u [] k)) [VInt 1, VNone, VInt 2]
      = [VDict (connection_fields [?edge (feed_row 1 1 VNone ''Comment''), ?edge (feed_row 1 1 (VStr ''a'') ''Post'')] (VInt 3) True False),
         VDict (connection_fields [] (VInt 0) False False),
         VDict (connection_fields [?edge (feed_row 2 2 (VStr ''b'') ''Post'')] (VInt 1) False False)]"
    by (simp add: union_connection_def feed_fields feed_parent_rows parent_rows_none seek_rows_def relay_page_def more_rows_def Let_def)
  moreover have "?edge (feed_row i a t name) = (feed_row i a t name, snd (?edge (feed_row i a t name)))"
    if "name \<in> {''Post'', ''Comment''}" for i a t name using feed_edge(2) [OF that] by (metis prod.collapse)
  ultimately show ?thesis by (metis insertCI)
qed

section \<open>A root collection\<close>

text \<open>C19: a union without a key gives every entry of its bucket the Relay page of all the rows of its members'
  tables that pass their member's predicates, in the union's order, with their number.\<close>

theorem union_root_is_relay:
  assumes "pg_union_all sha256 members shared order_by False first after last_n before unique needs_total = Inr u"
    and "\<forall>t. Inr t \<in> set order_by \<longrightarrow> valid_term t" and "union_tables_ok sv to_text u"
    and "member_where_params ct u ctx src = Inr host" and "host_ok host (members_where u)"
    and "union_cursor_values sha256 u ctx src = Inr (av, bv)"
    and "cursor_cells sv (as_connection u) (if un_reverse u then bv else av) s"
    and "union_page_size u ctx src = Inr (map_option int len)"
    and "\<And>m r. m \<in> set members \<Longrightarrow> r \<in> set (member_table sv m)
      \<Longrightarrow> union_edge sha256 to_text u (member_row u m r) = Inr (edge (member_row u m r))"
  shows "settle (union_execute (answer_union sv) ct sha256 to_text u ctx src n values)
      = Inr (replicate n (union_connection sv u host edge len s (root_rows sv u host)))
    \<and> sorted_wrt (\<lambda>a b. terms_before (un_order u) (merged_view sv u a) (merged_view sv u b)) (root_rows sv u host)
    \<and> distinct (root_rows sv u host)
    \<and> set (root_rows sv u host) = {member_row u m r | m r. m \<in> set members \<and> r \<in> set (member_table sv m)
        \<and> where_true sv host (um_where m) r}"
proof -
  note ok = made_union_ok [OF assms(1-3)]
  have m: "un_members u = members" and root: "\<not> un_per_parent u"
    using made_union(1) [OF assms(1,2)] made_union(4) [OF assms(1,2)] by blast+
  show ?thesis
    using union_root_entries [OF ok root assms(4-) [folded m]] root_rows_sorted(1,2) [OF ok] root_rows_members [OF ok]
    unfolding m by blast
qed

lemma feed_root_rows:
  "root_rows feed_server (feed False n) []
     = [feed_row 1 1 VNone ''Comment'', feed_row 1 1 (VStr ''a'') ''Post'', feed_row 2 2 (VStr ''b'') ''Post'', feed_row 3 1 VNone ''Comment'']"
proof -
  let ?a = "feed_row 1 1 VNone ''Comment''" and ?b = "feed_row 1 1 (VStr ''a'') ''Post''"
    and ?c = "feed_row 2 2 (VStr ''b'') ''Post''" and ?d = "feed_row 3 1 VNone ''Comment''"
  have sorted: "sorted_wrt (\<lambda>x y. row_before (order_clauses [ascending ''id'', ascending typename_column])
      (merged_view feed_server (feed False n) x) (merged_view feed_server (feed False n) y)) [?a, ?b, ?c, ?d]"
    using feed_before [of ?a ?b False n] feed_before [of ?a ?c False n] feed_before [of ?a ?d False n]
      feed_before [of ?b ?c False n] feed_before [of ?b ?d False n] feed_before [of ?c ?d False n]
    unfolding feed_less by (simp add: feed_names)
  have "distinct [?a, ?b, ?c, ?d]" by (simp add: feed_row_def)
  moreover have "distinct [?b, ?c, ?d, ?a]" by (simp add: feed_row_def)
  ultimately show ?thesis
    unfolding root_rows_def feed_table feed_fields by (intro order_rows_sorted) (use sorted in auto)
qed

lemma union_root_is_relay_witness:
  "\<exists>c1 c2. settle (union_execute (answer_union feed_server) (\<lambda>f. Inr) id (\<lambda>v. []) (feed False 2) VNone [] 1 [])
    = Inr [VDict (connection_fields [(feed_row 1 1 VNone ''Comment'', c1), (feed_row 1 1 (VStr ''a'') ''Post'', c2)] (VInt 4) True False)]"
proof -
  let ?u = "feed False 2" and ?edge = "feed_edge id (\<lambda>v. [])"
  have "settle (union_execute (answer_union feed_server) (\<lambda>f. Inr) id (\<lambda>v. []) ?u VNone [] 1 [])
      = Inr (replicate 1 (union_connection feed_server ?u [] ?edge (Some 2) None (root_rows feed_server ?u [])))"
    by (rule union_root_is_relay [where av = None and bv = None, THEN conjunct1,
          OF feed_made [of id False 2] _ feed_tables_ok feed_request(1) _ _ _ _ feed_edges])
      (simp_all add: feed_fields feed_request host_ok_def union_cursor_values_def request_cursor_def resolve_placeholder_def
        source_value_def is_ctx_source_def cursor_cells_def)
  moreover have "union_connection feed_server ?u [] ?edge (Some 2) None (root_rows feed_server ?u [])
      = VDict (connection_fields [?edge (feed_row 1 1 VNone ''Comment''), ?edge (feed_row 1 1 (VStr ''a'') ''Post'')] (VInt 4) True False)"
    by (simp add: union_connection_def feed_fields feed_root_rows seek_rows_def relay_page_def more_rows_def Let_def)
  moreover have "?edge (feed_row i a t name) = (feed_row i a t name, snd (?edge (feed_row i a t name)))"
    if "name \<in> {''Post'', ''Comment''}" for i a t name using feed_edge(2) [OF that] by (metis prod.collapse)
  ultimately show ?thesis by (metis insertCI One_nat_def replicate_0 replicate_Suc)
qed

section \<open>Paging through a union\<close>

text \<open>C18: a client that follows \<open>endCursor\<close> through a parent's union sees each of its rows in all the members'
  tables exactly once, in order: rows of two members that tie on the ordering's columns are told apart by
  their type.\<close>

theorem union_paging_visits_every_row:
  assumes "pg_union_all sha256 members shared order_by True first (Placeholder s) (Plain VNone) (Plain VNone) unique needs_total = Inr u"
    and "\<forall>t. Inr t \<in> set order_by \<longrightarrow> valid_term t" and "union_tables_ok sv to_text u" and "match_values_ok sv u"
    and "\<not> is_ctx_source s"
    and "normalize_lookup_key k0 (un_composite u) = Inr k" and "\<forall>m \<in> set members. key_ok sv (um_resource m) (un_match u) k"
    and "\<And>c. member_where_params ct u ctx ((s, c) # src) = Inr host" and "host_ok host (members_where u)"
    and "\<And>c. union_page_size u ctx ((s, c) # src) = Inr (Some (int len))" and "0 < len"
    and "\<And>m r. m \<in> set members \<Longrightarrow> r \<in> set (member_table sv m)
      \<Longrightarrow> union_edge sha256 to_text u (member_row u m r) = Inr (edge (member_row u m r))"
    and "X = parent_rows sv u host k"
  shows "walk_pages (Suc (length X)) (union_page_request (answer_union sv) ct sha256 to_text u ctx src s k0) VNone
    = Inr (map (\<lambda>r. VDict (fst (edge r))) X) \<and> distinct X"
proof -
  note ok = made_union_ok [OF assms(1-3)] and keyed = made_keyed_ok [OF assms(1,2,4)]
  have m: "un_members u = members" and fwd: "\<not> un_reverse u" "un_after u = Placeholder s" "un_before u = Plain VNone"
    using made_union(1) [OF assms(1,2)] made_union(4) [OF assms(1,2)] by blast+
  show ?thesis
    unfolding assms(13)
    using paged_source.walk_all [OF parent_source [OF ok keyed fwd assms(5,6) assms(7-12) [folded m]]]
      parent_rows_distinct [OF ok keyed] by blast
qed

lemma feed_source:
  "paged_source (union_page_request (answer_union feed_server) (\<lambda>f. Inr) id (\<lambda>v. []) (feed True 2) VNone [] ''var:after'' (VInt 1))
     id (\<lambda>v. []) (sv_db feed_server) (column_type (union_resource (feed True 2))) (un_order (feed True 2))
     (merged_view feed_server (feed True 2)) (parent_rows feed_server (feed True 2) [] (VInt 1)) (feed_edge id (\<lambda>v. [])) 2"
  by (rule parent_source [where k = "VInt 1", OF feed_ok feed_keyed _ _ _ _ _ _ feed_request(1) _ _ _ feed_edges])
    (use feed_key in \<open>simp_all add: feed_fields feed_request normalize_lookup_key_def un_composite_def host_ok_def is_ctx_source_def\<close>)

text \<open>The posts and comments of author 1, in pages of two.\<close>

interpretation feed_pages: paged_source "union_page_request (answer_union feed_server) (\<lambda>f. Inr) id (\<lambda>v. []) (feed True 2) VNone [] ''var:after'' (VInt 1)"
  id "\<lambda>v. []" "sv_db feed_server" "column_type (union_resource (feed True 2))" "un_order (feed True 2)"
  "merged_view feed_server (feed True 2)" "parent_rows feed_server (feed True 2) [] (VInt 1)" "feed_edge id (\<lambda>v. [])" 2
  by (rule feed_source)

lemma union_paging_visits_every_row_witness:
  "walk_pages 4 (union_page_request (answer_union feed_server) (\<lambda>f. Inr) id (\<lambda>v. []) (feed True 2) VNone [] ''var:after'' (VInt 1)) VNone
    = Inr [VDict (feed_row 1 1 VNone ''Comment''), VDict (feed_row 1 1 (VStr ''a'') ''Post''), VDict (feed_row 3 1 VNone ''Comment'')]"
proof -
  let ?X = "parent_rows feed_server (feed True 2) [] (VInt 1)"
  have "walk_pages (Suc (length ?X)) (union_page_request (answer_union feed_server) (\<lambda>f. Inr) id (\<lambda>v. []) (feed True 2) VNone []
        ''var:after'' (VInt 1)) VNone = Inr (map (\<lambda>r. VDict (fst (feed_edge id (\<lambda>v. []) r))) ?X)"
    by (rule union_paging_visits_every_row [where len = 2 and k = "VInt 1", THEN conjunct1,
          OF feed_made [of id True 2] _ feed_tables_ok feed_match_values _ _ _ feed_request(1) _ _ _ feed_edges])
      (use feed_key in \<open>simp_all add: feed_fields feed_request normalize_lookup_key_def un_composite_def host_ok_def is_ctx_source_def\<close>)
  then show ?thesis by (simp add: feed_parent_rows feed_edge eval_nat_numeral)
qed

section \<open>Members that share a type name\<close>

text \<open>Nothing refuses two members with one type name, and then the order is not total: after the first of two
  rows with one key the second is skipped, though the total counts it.\<close>

definition twins :: "unit pg_union" where
  "twins = (feed False 1)\<lparr>un_members := map (\<lambda>m. m\<lparr>um_type := ''Item''\<rparr>) (feed_members False), un_after := Plain VNone, un_after_source := None\<rparr>"

lemma twins_made:
  "pg_union_all sha256 (map (\<lambda>m. m\<lparr>um_type := ''Item''\<rparr>) (feed_members False)) [''id'', ''author''] [] False (Plain (VInt 1))
     (Plain VNone) (Plain VNone) (Plain VNone) False True = Inr twins"
proof -
  have "compute_member_columns (map (\<lambda>m. m\<lparr>um_type := ''Item''\<rparr>) (feed_members False)) [''id'', ''author''] = [''title'']"
    by (simp add: compute_member_columns_def feed_members_def feed_columns)
  moreover have "assert_members_have_no_match (map (\<lambda>m. m\<lparr>um_type := ''Item''\<rparr>) (feed_members False)) = Inr ()"
    by (simp add: feed_members_def member_match_columns_def)
  moreover have "feed_members False \<noteq> []" "rs_primary_key (um_resource (hd (map (\<lambda>m. m\<lparr>um_type := ''Item''\<rparr>) (feed_members False)))) = ''id''"
    by (simp_all add: feed_members_def posts_def)
  ultimately show ?thesis
    by (simp add: pg_union_all_def twins_def feed_def normalize_order_def Let_def placeholder_source_tag_def ascending_def
        typename_column_def union_literal_cursors_def decode_literal_cursor_def)
qed

lemma shared_type_name_skips_row:
  "bind_res (union_page_query twins [] VNone [] None None) (\<lambda>q. answer_union feed_server q [(''page_limit'', VInt 2)])
     = Inr [feed_row 1 1 (VStr ''a'') ''Item'', feed_row 1 1 VNone ''Item'']"
  "bind_res (union_page_query twins [] VNone [] (Some [VInt 1, VStr ''Item'']) None) (\<lambda>q. answer_union feed_server q [(''page_limit'', VInt 2)])
     = Inr [feed_row 2 2 (VStr ''b'') ''Item'', feed_row 3 1 VNone ''Item'']"
  by code_simp+

end
