(* ===== verification/Pg_Customize.thy ===== *)
theory Pg_Customize
  imports Pg_Page "HOL-Library.Char_ord" "HOL-Library.List_Lexorder"
begin

text \<open>
  The customization of a batched select by its host (\<open>src/src/grafast_py/pg/customize.py\<close>, and
  \<open>transform_key\<close> of \<open>pg/placeholders.py\<close>): the predicates a resource's \<open>select_customizer\<close> and a
  plan's \<open>.where()\<close> add to its WHERE, their checks, the keys by which steps are merged and cached plans
  are validated, and the builder the host is handed.

  A predicate is SQLAlchemy's expression tree: binds, text spliced verbatim (\<open>literal_column\<close>), and
  clauses named by what they print of themselves. The compiler that prints a tree, the \<open>repr\<close> of values
  and what a callable shows of itself are the parameters of a \<open>compiler\<close> record; host code is a function.
\<close>

section \<open>Expressions\<close>

datatype 'f core =
    Bind_Param "'f bind_param"
  | Literal_Column string
  | Clause string "'f core list"

fun children :: "'f core \<Rightarrow> 'f core list" where
  "children (Clause c es) = es"
| "children _ = []"

text \<open>\<open>visitors.iterate\<close>: every element of the tree, breadth first.\<close>

function iterate :: "'f core list \<Rightarrow> 'f core list" where
  "iterate [] = []"
| "iterate (e # es) = e # iterate (es @ children e)"
  by pat_completeness auto
termination
proof (relation "measure (\<lambda>es. sum_list (map size es))")
  fix e :: "'f core" and es
  have "sum_list (map size (children e)) < size e"
    by (cases e) (simp_all add: size_list_conv_sum_list)
  then show "(es @ children e, e # es) \<in> measure (\<lambda>es. sum_list (map size es))" by simp
qed simp

fun as_bind :: "'f core \<Rightarrow> 'f bind_param option" where
  "as_bind (Bind_Param b) = Some b"
| "as_bind _ = None"

definition core_binds :: "'f core \<Rightarrow> 'f bind_param list" where
  "core_binds e = List.map_filter as_bind (iterate [e])"

text \<open>What a host may hand in as a predicate.\<close>

datatype 'f host_value = Raw_Sql string | Other_Value string | Core_Expr "'f core"

definition reserved_bind_names :: "string list" where
  "reserved_bind_names = [''keys'', ''first'', ''offset'']"

fun check_binds :: "'f bind_param list \<Rightarrow> unit res" where
  "check_binds [] = Inr ()"
| "check_binds (b # bs) =
     (if bp_name b \<in> set reserved_bind_names
      then Inl (ValueError (''collides with a reserved skeleton bind: '' @ bp_name b))
      else if bp_required b then Inl (ValueError (''unbound bindparam '' @ bp_name b))
      else check_binds bs)"

fun check_predicate :: "'f host_value \<Rightarrow> 'f core res" where
  "check_predicate (Raw_Sql s) = Inl (TypeError ''pg where() takes a predicate, never a raw string'')"
| "check_predicate (Other_Value t) = Inl (TypeError (''pg where() takes a ColumnElement; got '' @ t))"
| "check_predicate (Core_Expr e) = bind_res (check_binds (core_binds e)) (\<lambda>_. Inr e)"

section \<open>Keys\<close>

text \<open>What a callable shows of itself: a function its bytecode, constants, defaults, keyword defaults and
  closure cells, as \<open>repr\<close> prints them, and the names its bytecode refers to; a builtin its qualified
  name; an instance its class and state.\<close>

datatype py_callable =
    Function (fn_code: string) (fn_consts: string) (fn_names: "string list") (fn_defaults: string)
      (fn_kwdefaults: string) (fn_closure: "string list")
  | Named_Callable string string
  | Instance string string "(string \<times> pyval) list"

text \<open>\<open>literal_sql\<close> prints a tree with its values inline, or raises CompileError; \<open>plain_sql\<close> gives the text
  with named parameters, and the parameters.\<close>

record 'f compiler =
  literal_sql :: "'f core \<Rightarrow> string option"
  plain_sql :: "'f core \<Rightarrow> string \<times> (string \<times> pyval) list"
  repr_value :: "pyval \<Rightarrow> string"
  repr_strings :: "string list \<Rightarrow> string"
  repr_pairs :: "(string \<times> string) list \<Rightarrow> string"
  inspect :: "'f \<Rightarrow> py_callable"

definition transform_key :: "'f compiler \<Rightarrow> 'f \<Rightarrow> string" where
  "transform_key D f =
     (case inspect D f of
        Function co consts names defaults kwdefaults closure \<Rightarrow>
          ''code:'' @ co @ '':'' @ consts @ '':'' @ defaults @ '':'' @ kwdefaults @ '':'' @ repr_strings D closure
      | Named_Callable m q \<Rightarrow> ''named:'' @ m @ ''.'' @ q
      | Instance m q state \<Rightarrow>
          ''obj:'' @ m @ ''.'' @ q @ '':''
            @ repr_pairs D (sort_key fst (map (\<lambda>(k, v). (k, repr_value D v)) state)))"

definition sentinel_token :: "'f compiler \<Rightarrow> string \<Rightarrow> 'f option \<Rightarrow> string" where
  "sentinel_token D source transform =
     (case transform of
        None \<Rightarrow> ''<<ph:'' @ source @ ''>>''
      | Some f \<Rightarrow> ''<<ph:'' @ source @ ''|t='' @ transform_key D f @ ''>>'')"

fun sentinel_placeholders :: "'f compiler \<Rightarrow> 'f core \<Rightarrow> 'f core" where
  "sentinel_placeholders D (Bind_Param b) =
     (case bp_source b of
        None \<Rightarrow> Bind_Param b
      | Some s \<Rightarrow> Literal_Column (sentinel_token D s (bp_transform b)))"
| "sentinel_placeholders D (Literal_Column t) = Literal_Column t"
| "sentinel_placeholders D (Clause c es) = Clause c (map (sentinel_placeholders D) es)"

definition bound_reprs :: "'f compiler \<Rightarrow> (string \<times> pyval) list \<Rightarrow> string" where
  "bound_reprs D params = repr_pairs D (sort_key fst (map (\<lambda>(k, v). (k, repr_value D v)) params))"

definition structural_predicate_key :: "'f compiler \<Rightarrow> 'f core \<Rightarrow> string" where
  "structural_predicate_key D e = (let (sql, params) = plain_sql D e in sql @ ''|'' @ bound_reprs D params)"

definition structural_placeholder_predicate_key :: "'f compiler \<Rightarrow> 'f core \<Rightarrow> string list \<Rightarrow> string" where
  "structural_placeholder_predicate_key D sentinelled sources =
     (let (sql, params) = plain_sql D sentinelled
      in sql @ ''|'' @ bound_reprs D params @ ''|ph='' @ repr_strings D sources)"

definition placeholder_sources :: "'f core \<Rightarrow> string list" where
  "placeholder_sources e = sort (List.map_filter bp_source (core_binds e))"

definition placeholder_predicate_key :: "'f compiler \<Rightarrow> 'f core \<Rightarrow> string" where
  "placeholder_predicate_key D e =
     (let sentinelled = sentinel_placeholders D e; sources = placeholder_sources e
      in case literal_sql D sentinelled of
           None \<Rightarrow> structural_placeholder_predicate_key D sentinelled sources
         | Some sql \<Rightarrow> sql @ ''|ph='' @ repr_strings D sources)"

text \<open>An absent registry and an empty one take the literal path.\<close>

definition predicate_key :: "'f compiler \<Rightarrow> 'f core \<Rightarrow> (string \<times> string) list option \<Rightarrow> string" where
  "predicate_key D e binds =
     (if binds \<noteq> None \<and> binds \<noteq> Some [] then placeholder_predicate_key D e
      else case literal_sql D e of None \<Rightarrow> structural_predicate_key D e | Some sql \<Rightarrow> sql)"

definition placeholder_binds_in :: "'f core \<Rightarrow> (string \<times> string) list" where
  "placeholder_binds_in e =
     foldl (\<lambda>m b. case bp_source b of None \<Rightarrow> m | Some s \<Rightarrow> dict_set m (bp_name b) s) [] (core_binds e)"

definition non_empty :: "'a list \<Rightarrow> 'a list option" where
  "non_empty xs = (if xs = [] then None else Some xs)"

definition own_key :: "'f compiler \<Rightarrow> 'f core \<Rightarrow> string" where
  "own_key D e = predicate_key D e (non_empty (placeholder_binds_in e))"

definition predicate_bakes_literal :: "'f core \<Rightarrow> bool" where
  "predicate_bakes_literal e = (\<exists>b \<in> set (core_binds e). bp_source b = None)"

section \<open>Customizers\<close>

text \<open>A customizer is host code: it reads the request's context, makes placeholders from the process-wide
  counter (threaded through), and gives its predicates or raises. The two forms differ in the factory they
  are handed.\<close>

type_synonym 'f factory = "string \<Rightarrow> string option \<Rightarrow> 'f option \<Rightarrow> nat \<Rightarrow> 'f bind_param \<times> nat"

definition context_placeholder :: "'f factory" where
  "context_placeholder key ty transform counter = pg_placeholder counter (''ctx:'' @ key) ty transform"

datatype 'f customizer =
    One_Arg "pyval \<Rightarrow> nat \<Rightarrow> 'f host_value list res \<times> nat"
  | Two_Arg "pyval \<Rightarrow> 'f factory \<Rightarrow> nat \<Rightarrow> 'f host_value list res \<times> nat"

fun produce :: "'f customizer \<Rightarrow> pyval \<Rightarrow> nat \<Rightarrow> 'f host_value list res \<times> nat" where
  "produce (One_Arg f) context counter = f context counter"
| "produce (Two_Arg f) context counter = f context context_placeholder counter"

fun resolve_customizer_predicates ::
  "'f customizer option \<Rightarrow> pyval \<Rightarrow> nat \<Rightarrow> ('f core list \<times> bool) res \<times> nat" where
  "resolve_customizer_predicates None context counter = (Inr ([], False), counter)"
| "resolve_customizer_predicates (Some cz) context counter =
     (let (produced, counter') = produce cz context counter
      in (bind_res produced (\<lambda>hs. bind_res (map_res check_predicate hs)
            (\<lambda>ps. Inr (ps, \<exists>p \<in> set ps. predicate_bakes_literal p))), counter'))"

section \<open>The customizable step\<close>

text \<open>The part of a select or connection step \<open>PgCustomizable\<close> owns. The resource's customizer has an
  identity; \<open>_signature_cache\<close> is the signature once it has been asked for.\<close>

type_synonym signature = "nat option \<times> string list"

record 'f customizable =
  cu_customizer :: "(nat \<times> 'f customizer) option"
  cu_predicates :: "'f core list"
  cu_bakes_literal :: bool
  cu_count :: nat
  cu_registry :: "'f customization"
  cu_signature :: "signature option"

definition register_predicate :: "'f customizable \<Rightarrow> 'f core \<Rightarrow> 'f customizable" where
  "register_predicate st e = st\<lparr>cu_registry := register_placeholder_binds (core_binds e) (cu_registry st)\<rparr>"

definition init_customization ::
  "(nat \<times> 'f customizer) option \<Rightarrow> 'f core list \<Rightarrow> bool \<Rightarrow> nat \<Rightarrow> 'f customizable" where
  "init_customization cz predicates bakes count =
     foldl register_predicate
       \<lparr>cu_customizer = cz, cu_predicates = predicates, cu_bakes_literal = bakes, cu_count = count,
        cu_registry = \<lparr>cz_binds = [], cz_transforms = []\<rparr>, cu_signature = None\<rparr> predicates"

fun seed_resource_customization ::
  "(nat \<times> 'f customizer) option \<Rightarrow> pyval \<Rightarrow> nat \<Rightarrow> 'f customizable res \<times> nat" where
  "seed_resource_customization None context counter = (Inr (init_customization None [] False 0), counter)"
| "seed_resource_customization (Some (i, cz)) context counter =
     (let (resolved, counter') = resolve_customizer_predicates (Some cz) context counter
      in (bind_res resolved (\<lambda>(ps, bakes). Inr (init_customization (Some (i, cz)) ps bakes (length ps))), counter'))"

definition add_where :: "'f host_value \<Rightarrow> 'f customizable \<Rightarrow> 'f customizable res" where
  "add_where h st =
     bind_res (check_predicate h) (\<lambda>e.
       Inr ((register_predicate (st\<lparr>cu_predicates := cu_predicates st @ [e]\<rparr>) e)\<lparr>cu_signature := None\<rparr>))"

text \<open>The query builder's expression for a compiled filter is a parameter.\<close>

definition where_tree :: "(predicate \<Rightarrow> 'f core) \<Rightarrow> condition \<Rightarrow> 'f customizable \<Rightarrow> 'f customizable res" where
  "where_tree expression c st = bind_res (compile_condition c) (\<lambda>p. add_where (Core_Expr (expression p)) st)"

definition copy_customization_from :: "'f customizable \<Rightarrow> 'f customizable \<Rightarrow> 'f customizable" where
  "copy_customization_from other st =
     st\<lparr>cu_predicates := cu_predicates other, cu_registry := cu_registry other,
        cu_bakes_literal := cu_bakes_literal other, cu_count := cu_count other, cu_signature := None\<rparr>"

definition customizer_predicates :: "'f customizable \<Rightarrow> 'f core list" where
  "customizer_predicates st = take (cu_count st) (cu_predicates st)"

definition has_literal_customization :: "'f customizable \<Rightarrow> bool" where
  "has_literal_customization st = (\<exists>e \<in> set (customizer_predicates st). predicate_bakes_literal e)"

definition placeholder_binds_for :: "'f customizable \<Rightarrow> 'f core \<Rightarrow> (string \<times> string) list option" where
  "placeholder_binds_for st e =
     (if cz_binds (cu_registry st) = [] then None
      else non_empty (foldl (\<lambda>m b. case map_of (cz_binds (cu_registry st)) (bp_name b) of
                                      None \<Rightarrow> m | Some s \<Rightarrow> dict_set m (bp_name b) s) [] (core_binds e)))"

definition compute_signature :: "'f compiler \<Rightarrow> 'f customizable \<Rightarrow> signature" where
  "compute_signature D st =
     (map_option fst (cu_customizer st),
      map (\<lambda>e. predicate_key D e (placeholder_binds_for st e)) (cu_predicates st))"

definition customization_signature :: "'f compiler \<Rightarrow> 'f customizable \<Rightarrow> signature \<times> 'f customizable" where
  "customization_signature D st =
     (case cu_signature st of
        Some s \<Rightarrow> (s, st)
      | None \<Rightarrow> (compute_signature D st, st\<lparr>cu_signature := Some (compute_signature D st)\<rparr>))"

section \<open>Validating a cached plan\<close>

definition fresh_keys :: "'f compiler \<Rightarrow> 'f customizer \<Rightarrow> pyval \<Rightarrow> nat \<Rightarrow> string list res \<times> nat" where
  "fresh_keys D cz context counter =
     (let (resolved, counter') = resolve_customizer_predicates (Some cz) context counter
      in (bind_res resolved (\<lambda>(ps, bakes). Inr (map (own_key D) ps)), counter'))"

definition customizer_structure_matches ::
  "'f compiler \<Rightarrow> pyval \<Rightarrow> nat \<Rightarrow> 'f customizable \<Rightarrow> bool res \<times> nat" where
  "customizer_structure_matches D context counter st =
     (case cu_customizer st of
        None \<Rightarrow> (Inr True, counter)
      | Some (i, cz) \<Rightarrow>
          (let (fresh, counter') = fresh_keys D cz context counter
           in (bind_res fresh (\<lambda>ks. Inr (ks = map (own_key D) (customizer_predicates st))), counter')))"

record 'f shape_constraint =
  cc_customizer :: "'f customizer"
  cc_keys :: "string list"

definition customizer_constraint :: "'f compiler \<Rightarrow> 'f customizable \<Rightarrow> 'f shape_constraint option" where
  "customizer_constraint D st =
     (case cu_customizer st of
        None \<Rightarrow> None
      | Some (i, cz) \<Rightarrow>
          Some \<lparr>cc_customizer = cz, cc_keys = map (own_key D) (customizer_predicates st)\<rparr>)"

definition constraint_matches ::
  "'f compiler \<Rightarrow> pyval \<Rightarrow> nat \<Rightarrow> 'f shape_constraint \<Rightarrow> bool res \<times> nat" where
  "constraint_matches D context counter c =
     (let (fresh, counter') = fresh_keys D (cc_customizer c) context counter
      in (bind_res fresh (\<lambda>ks. Inr (ks = cc_keys c)), counter'))"

end
