(* ===== verification/Pg_Customize_Laws.thy ===== *)
theory Pg_Customize_Laws
  imports Pg_Customize
begin

text \<open>
  What the keys of predicates stand for. A predicate has a value under the parameters of an execution; its
  key is the text of the tree in which every placeholder is a token of its source and transform. Two
  predicates with one key have one value for every request, each under its own bind names.
\<close>

section \<open>Binds\<close>

fun tree_binds :: "'f core \<Rightarrow> 'f bind_param set" where
  "tree_binds (Bind_Param b) = {b}"
| "tree_binds (Literal_Column t) = {}"
| "tree_binds (Clause c es) = (\<Union>e \<in> set es. tree_binds e)"

lemma iterate_binds: "set (List.map_filter as_bind (iterate es)) = (\<Union>e \<in> set es. tree_binds e)"
proof (induction es rule: iterate.induct)
  case (2 e es)
  then show ?case by (cases e) auto
qed simp

lemma set_core_binds [simp]: "set (core_binds e) = tree_binds e"
  using iterate_binds [of "[e]"] by (simp add: core_binds_def)

text \<open>A dict filled from a list of binds.\<close>

definition note_binds ::
  "('f bind_param \<Rightarrow> 'a option) \<Rightarrow> (string \<times> 'a) list \<Rightarrow> 'f bind_param list \<Rightarrow> (string \<times> 'a) list" where
  "note_binds f = foldl (\<lambda>m b. case f b of None \<Rightarrow> m | Some x \<Rightarrow> dict_set m (bp_name b) x)"

lemma note_binds_simps [simp]:
  "note_binds f m [] = m"
  "note_binds f m (b # bs) = note_binds f (case f b of None \<Rightarrow> m | Some x \<Rightarrow> dict_set m (bp_name b) x) bs"
  "note_binds f m (bs @ cs) = note_binds f (note_binds f m bs) cs"
  by (simp_all add: note_binds_def)

lemma note_binds_keys:
  "fst ` set (note_binds f m bs) = fst ` set m \<union> bp_name ` {b \<in> set bs. f b \<noteq> None}"
proof (induction bs arbitrary: m)
  case (Cons b bs)
  show ?case
  proof (cases "f b")
    case None
    with Cons show ?thesis by auto
  next
    case (Some x)
    then show ?thesis using keys_dict_set [of m "bp_name b" x] by (auto simp: Cons image_iff)
  qed
qed simp

lemma note_binds_distinct: "distinct (map fst m) \<Longrightarrow> distinct (map fst (note_binds f m bs))"
  by (induction bs arbitrary: m) (simp_all add: distinct_dict_set split: option.split)

lemma note_binds_from:
  "map_of (note_binds f m bs) n = Some x \<Longrightarrow> map_of m n = Some x \<or> (\<exists>b \<in> set bs. bp_name b = n \<and> f b = Some x)"
proof (induction bs arbitrary: m)
  case (Cons b bs)
  then show ?case by (cases "f b") (auto split: if_splits dest!: Cons.IH)
qed simp

text \<open>The name of a placeholder is its own, as the process-wide counter makes it.\<close>

definition names_own :: "'f bind_param set \<Rightarrow> bool" where
  "names_own B = (\<forall>b \<in> B. \<forall>b' \<in> B. bp_source b \<noteq> None \<and> bp_name b' = bp_name b \<longrightarrow> b' = b)"

lemma names_own_mono: "names_own B \<Longrightarrow> A \<subseteq> B \<Longrightarrow> names_own A"
  by (auto simp: names_own_def)

lemma names_ownD: "names_own B \<Longrightarrow> b \<in> B \<Longrightarrow> b' \<in> B \<Longrightarrow> bp_source b \<noteq> None \<Longrightarrow> bp_name b' = bp_name b \<Longrightarrow> b' = b"
  by (auto simp: names_own_def)

lemma note_binds_lookup:
  assumes own: "names_own (set bs)" and b: "b \<in> set bs" and src: "bp_source b \<noteq> None"
  shows "map_of (note_binds f [] bs) (bp_name b) = f b"
proof (cases "map_of (note_binds f [] bs) (bp_name b)")
  case None
  then have "bp_name b \<notin> fst ` set (note_binds f [] bs)" by (simp add: map_of_eq_None_iff)
  with b have "f b = None" by (auto simp: note_binds_keys)
  with None show ?thesis by simp
next
  case (Some x)
  from note_binds_from [OF this] obtain b' where "b' \<in> set bs" "bp_name b' = bp_name b" "f b' = Some x" by auto
  with names_ownD [OF own b _ src] have "b' = b" by blast
  with \<open>f b' = Some x\<close> Some show ?thesis by simp
qed

lemma note_binds_other:
  assumes own: "names_own (set bs)" and b: "b \<in> set bs" and src: "bp_source b = None"
    and f: "\<And>b. bp_source b = None \<Longrightarrow> f b = None"
  shows "map_of (note_binds f [] bs) (bp_name b) = None"
proof (rule ccontr)
  assume "map_of (note_binds f [] bs) (bp_name b) \<noteq> None"
  then obtain x where "map_of (note_binds f [] bs) (bp_name b) = Some x" by auto
  from note_binds_from [OF this] obtain b' where b': "b' \<in> set bs" "bp_name b' = bp_name b" "f b' = Some x" by auto
  with f [of b'] have "bp_source b' \<noteq> None" by auto
  from names_ownD [OF own b'(1) b this] b'(2) src \<open>bp_source b' \<noteq> None\<close> show False by simp
qed

section \<open>The registry of a step\<close>

definition all_binds :: "'f core list \<Rightarrow> 'f bind_param list" where
  "all_binds ps = concat (map core_binds ps)"

definition registry_of :: "'f core list \<Rightarrow> 'f customization" where
  "registry_of ps = \<lparr>cz_binds = note_binds bp_source [] (all_binds ps),
     cz_transforms = note_binds bp_transform [] (all_binds ps)\<rparr>"

lemma set_all_binds [simp]: "set (all_binds ps) = (\<Union>e \<in> set ps. tree_binds e)"
  by (auto simp: all_binds_def)

lemma register_note:
  "register_placeholder_binds bs cz =
     cz\<lparr>cz_binds := note_binds bp_source (cz_binds cz) bs, cz_transforms := note_binds bp_transform (cz_transforms cz) bs\<rparr>"
  by (simp add: register_placeholder_binds_def note_binds_def)

lemma registry_of_nil: "registry_of [] = \<lparr>cz_binds = [], cz_transforms = []\<rparr>"
  by (simp add: registry_of_def all_binds_def)

lemma registry_of_snoc: "register_placeholder_binds (core_binds e) (registry_of ps) = registry_of (ps @ [e])"
  by (simp add: register_note registry_of_def all_binds_def)

lemma placeholder_binds_in_note: "placeholder_binds_in e = note_binds bp_source [] (core_binds e)"
  by (simp add: placeholder_binds_in_def note_binds_def)

lemma note_binds_empty: "note_binds f [] bs = [] \<longleftrightarrow> (\<forall>b \<in> set bs. f b = None)"
proof -
  have "note_binds f [] bs = [] \<longleftrightarrow> fst ` set (note_binds f [] bs) = {}" by simp
  also have "\<dots> \<longleftrightarrow> (\<forall>b \<in> set bs. f b = None)" by (auto simp: note_binds_keys)
  finally show ?thesis .
qed

lemma foldl_register:
  "foldl register_predicate st ps
     = st\<lparr>cu_registry := foldl (\<lambda>r e. register_placeholder_binds (core_binds e) r) (cu_registry st) ps\<rparr>"
  by (induction ps arbitrary: st) (simp_all add: register_predicate_def)

lemma foldl_registry:
  "foldl (\<lambda>r e. register_placeholder_binds (core_binds e) r) (registry_of qs) ps = registry_of (qs @ ps)"
  by (induction ps arbitrary: qs) (simp_all add: registry_of_snoc)

lemma init_customization_eq:
  "init_customization cz ps bakes count =
     \<lparr>cu_customizer = cz, cu_predicates = ps, cu_bakes_literal = bakes, cu_count = count,
      cu_registry = registry_of ps, cu_signature = None\<rparr>"
  using foldl_registry [of "[]" ps] by (simp add: init_customization_def foldl_register registry_of_nil)

section \<open>The parameters of a request\<close>

text \<open>The value a request gives a bind: the one it carries, or its source's, transformed.\<close>

definition bind_result ::
  "('f \<Rightarrow> pyval \<Rightarrow> pyval res) \<Rightarrow> pyval \<Rightarrow> (string \<times> pyval) list \<Rightarrow> 'f bind_param \<Rightarrow> pyval res" where
  "bind_result call context source_values b =
     (case bp_source b of
        None \<Rightarrow> Inr (bp_value b)
      | Some s \<Rightarrow> bind_res (source_value context source_values s)
          (\<lambda>v. case bp_transform b of None \<Rightarrow> Inr v | Some f \<Rightarrow> call f v))"

text \<open>The value an execution gives it.\<close>

definition executed_value :: "(string \<times> pyval) list \<Rightarrow> 'f bind_param \<Rightarrow> pyval" where
  "executed_value params b = (case map_of params (bp_name b) of None \<Rightarrow> bp_value b | Some v \<Rightarrow> v)"

lemma bind_res_pair: "bind_res r (\<lambda>w. Inr (n, w)) = Inr q \<longleftrightarrow> fst q = n \<and> r = Inr (snd q)"
  by (cases r; cases q) auto

lemma where_params_registry:
  assumes own: "names_own (\<Union>e \<in> set ps. tree_binds e)"
  shows "where_params call context source_values (registry_of ps) = Inr params \<longleftrightarrow>
     list_all2 (\<lambda>(n, s) (m, v). m = n
       \<and> (\<exists>e \<in> set ps. \<exists>b \<in> tree_binds e. bp_name b = n \<and> bp_source b = Some s
            \<and> bind_result call context source_values b = Inr v))
       (cz_binds (registry_of ps)) params"
proof -
  let ?T = "cz_transforms (registry_of ps)"
  have T: "map_of ?T (bp_name b) = bp_transform b" if "e \<in> set ps" "b \<in> tree_binds e" "bp_source b = Some s" for e b s
    using that own by (auto simp: registry_of_def intro!: note_binds_lookup)
  have one: "(bind_res (source_value context source_values s) (\<lambda>v.
         bind_res (case map_of ?T n of None \<Rightarrow> Inr v | Some f \<Rightarrow> call f v) (\<lambda>w. Inr (n, w))) = Inr (m, v))
     \<longleftrightarrow> m = n \<and> (\<exists>e \<in> set ps. \<exists>b \<in> tree_binds e. bp_name b = n \<and> bp_source b = Some s
            \<and> bind_result call context source_values b = Inr v)"
    if ns: "(n, s) \<in> set (cz_binds (registry_of ps))" for n s m v
  proof -
    have d: "distinct (map fst (cz_binds (registry_of ps)))" by (simp add: registry_of_def note_binds_distinct)
    with ns have "map_of (note_binds bp_source [] (all_binds ps)) n = Some s" by (simp add: registry_of_def)
    from note_binds_from [OF this] obtain e b where
      b: "e \<in> set ps" "b \<in> tree_binds e" "bp_name b = n" "bp_source b = Some s" by auto
    have uniq: "b' = b" if "e' \<in> set ps" "b' \<in> tree_binds e'" "bp_name b' = n" for e' b'
      by (rule names_ownD [OF own]) (use b that in auto)
    have "(\<exists>e \<in> set ps. \<exists>b \<in> tree_binds e. bp_name b = n \<and> bp_source b = Some s
        \<and> bind_result call context source_values b = Inr v) \<longleftrightarrow> bind_result call context source_values b = Inr v"
      using b uniq by blast
    moreover have "(bind_res (source_value context source_values s) (\<lambda>v.
         bind_res (case map_of ?T n of None \<Rightarrow> Inr v | Some f \<Rightarrow> call f v) (\<lambda>w. Inr (n, w))) = Inr (m, v))
       \<longleftrightarrow> m = n \<and> bind_result call context source_values b = Inr v"
      using T [OF b(1,2,4)] b(3,4)
      by (cases "source_value context source_values s") (auto simp: bind_result_def bind_res_pair)
    ultimately show ?thesis by simp
  qed
  show ?thesis
    unfolding where_params_def map_res_list_all2
  proof (rule list.rel_cong [OF refl refl])
    fix x y assume "x \<in> set (cz_binds (registry_of ps))"
    with one [of "fst x" "snd x" "fst y" "snd y"]
    show "(case x of (n, s) \<Rightarrow> bind_res (source_value context source_values s) (\<lambda>v.
         bind_res (case map_of ?T n of None \<Rightarrow> Inr v | Some f \<Rightarrow> call f v) (\<lambda>w. Inr (n, w)))) = Inr y
     \<longleftrightarrow> (case x of (n, s) \<Rightarrow> \<lambda>(m, v). m = n \<and> (\<exists>e \<in> set ps. \<exists>b \<in> tree_binds e. bp_name b = n \<and> bp_source b = Some s
            \<and> bind_result call context source_values b = Inr v)) y"
      by (simp only: case_prod_beta' prod.collapse)
  qed
qed

text \<open>An execution gives every bind of the predicates its request's value, and there are parameters whenever
  every placeholder has one.\<close>

lemma where_params_values:
  assumes own: "names_own (\<Union>e \<in> set ps. tree_binds e)"
    and params: "where_params call context source_values (registry_of ps) = Inr params"
    and e: "e \<in> set ps" and b: "b \<in> tree_binds e"
  shows "bind_result call context source_values b = Inr (executed_value params b)"
proof -
  let ?binds = "cz_binds (registry_of ps)"
  have all2: "list_all2 (\<lambda>(n, s) (m, v). m = n
       \<and> (\<exists>e \<in> set ps. \<exists>b \<in> tree_binds e. bp_name b = n \<and> bp_source b = Some s
            \<and> bind_result call context source_values b = Inr v)) ?binds params"
    using params by (simp only: where_params_registry [OF own])
  then have names: "map fst params = map fst ?binds"
    by (intro nth_equalityI) (auto simp: list_all2_conv_all_nth case_prod_beta')
  have dist: "distinct (map fst ?binds)" by (simp add: registry_of_def note_binds_distinct)
  show ?thesis
  proof (cases "bp_source b")
    case None
    have "map_of ?binds (bp_name b) = None"
      using own e b None by (auto simp: registry_of_def intro!: note_binds_other)
    then have "bp_name b \<notin> set (map fst params)" by (simp add: map_of_eq_None_iff names)
    then have "map_of params (bp_name b) = None" by (simp add: map_of_eq_None_iff)
    with None show ?thesis by (simp add: bind_result_def executed_value_def)
  next
    case (Some s)
    have "map_of ?binds (bp_name b) = Some s"
      using own e b Some note_binds_lookup [of "all_binds ps" b bp_source] by (auto simp: registry_of_def)
    then obtain i where i: "i < length ?binds" "?binds ! i = (bp_name b, s)"
      by (meson map_of_SomeD in_set_conv_nth)
    with all2 obtain v e' b' where v: "i < length params" "params ! i = (bp_name b, v)" "e' \<in> set ps"
      "b' \<in> tree_binds e'" "bp_name b' = bp_name b" "bind_result call context source_values b' = Inr v"
      by (cases "params ! i") (auto simp: list_all2_conv_all_nth)
    have "b' = b" by (rule names_ownD [OF own]) (use e b Some v in auto)
    moreover have "map_of params (bp_name b) = Some v"
      using v(1,2) dist names by (intro map_of_is_SomeI) (auto simp: in_set_conv_nth)
    ultimately show ?thesis using v(6) by (simp add: executed_value_def)
  qed
qed

lemma where_params_exist:
  assumes own: "names_own (\<Union>e \<in> set ps. tree_binds e)"
    and all: "\<And>e b. e \<in> set ps \<Longrightarrow> b \<in> tree_binds e \<Longrightarrow> bp_source b \<noteq> None
      \<Longrightarrow> \<exists>v. bind_result call context source_values b = Inr v"
  shows "\<exists>params. where_params call context source_values (registry_of ps) = Inr params"
proof -
  let ?binds = "cz_binds (registry_of ps)"
  have dist: "distinct (map fst ?binds)" by (simp add: registry_of_def note_binds_distinct)
  let ?P = "\<lambda>(n, s) (m, v). m = n
       \<and> (\<exists>e \<in> set ps. \<exists>b \<in> tree_binds e. bp_name b = n \<and> bp_source b = Some s
            \<and> bind_result call context source_values b = Inr v)"
  have "\<forall>x \<in> set ?binds. \<exists>q. ?P x q"
  proof
    fix x assume x: "x \<in> set ?binds"
    obtain n s where ns: "x = (n, s)" by (cases x)
    with x dist have "map_of (note_binds bp_source [] (all_binds ps)) n = Some s" by (simp add: registry_of_def)
    from note_binds_from [OF this] obtain e b where
      b: "e \<in> set ps" "b \<in> tree_binds e" "bp_name b = n" "bp_source b = Some s" by auto
    with all [of e b] obtain v where "bind_result call context source_values b = Inr v" by auto
    with b have "?P (n, s) (n, v)" unfolding prod.case by blast
    with ns show "\<exists>q. ?P x q" by blast
  qed
  from bchoice [OF this] obtain q where "\<forall>x \<in> set ?binds. ?P x (q x)" ..
  then have "list_all2 ?P ?binds (map q ?binds)" by (simp add: list_all2_conv_all_nth)
  then have "where_params call context source_values (registry_of ps) = Inr (map q ?binds)"
    by (simp only: where_params_registry [OF own])
  then show ?thesis ..
qed

section \<open>The value of a predicate\<close>

text \<open>What a database makes of a tree on one row, clause by clause; a bind is cast to its type.\<close>

record 'v meaning =
  clause_value :: "string \<Rightarrow> 'v list \<Rightarrow> 'v"
  text_value :: "string \<Rightarrow> 'v"
  bound_value :: "string option \<Rightarrow> pyval \<Rightarrow> 'v"

fun core_value :: "'v meaning \<Rightarrow> ('f bind_param \<Rightarrow> pyval) \<Rightarrow> 'f core \<Rightarrow> 'v" where
  "core_value m \<beta> (Bind_Param b) = bound_value m (bp_type b) (\<beta> b)"
| "core_value m \<beta> (Literal_Column t) = text_value m t"
| "core_value m \<beta> (Clause c es) = clause_value m c (map (core_value m \<beta>) es)"

fun texts :: "'f core \<Rightarrow> string set" where
  "texts (Bind_Param b) = {}"
| "texts (Literal_Column t) = {t}"
| "texts (Clause c es) = (\<Union>e \<in> set es. texts e)"

definition token_of :: "'f compiler \<Rightarrow> 'f bind_param \<Rightarrow> string option" where
  "token_of D b = map_option (\<lambda>s. sentinel_token D s (bp_transform b)) (bp_source b)"

definition tokens :: "'f compiler \<Rightarrow> 'f core \<Rightarrow> string set" where
  "tokens D e = {t. \<exists>b \<in> tree_binds e. token_of D b = Some t}"

text \<open>Text whose tokens stand for given values.\<close>

definition with_tokens :: "(string \<rightharpoonup> 'v) \<Rightarrow> 'v meaning \<Rightarrow> 'v meaning" where
  "with_tokens tok m = m\<lparr>text_value := \<lambda>t. case tok t of None \<Rightarrow> text_value m t | Some v \<Rightarrow> v\<rparr>"

lemma core_value_sentinels:
  assumes "\<And>b t. b \<in> tree_binds e \<Longrightarrow> token_of D b = Some t \<Longrightarrow> tok t = Some (bound_value m (bp_type b) (\<beta> b))"
    and "\<And>b. b \<in> tree_binds e \<Longrightarrow> bp_source b = None \<Longrightarrow> \<beta> b = bp_value b"
    and "\<And>t. t \<in> texts e \<Longrightarrow> tok t = None"
  shows "core_value (with_tokens tok m) bp_value (sentinel_placeholders D e) = core_value m \<beta> e"
  using assms
proof (induction e)
  case (Bind_Param b)
  then show ?case by (cases "bp_source b") (simp_all add: with_tokens_def token_of_def)
next
  case (Clause c es)
  have "core_value (with_tokens tok m) bp_value (sentinel_placeholders D e) = core_value m \<beta> e" if "e \<in> set es" for e
  proof (rule Clause.IH [OF that])
    show "tok t = Some (bound_value m (bp_type b) (\<beta> b))" if "b \<in> tree_binds e" "token_of D b = Some t" for b t
      using Clause.prems(1) [of b t] that \<open>e \<in> set es\<close> by auto
    show "\<beta> b = bp_value b" if "b \<in> tree_binds e" "bp_source b = None" for b
      using Clause.prems(2) [of b] that \<open>e \<in> set es\<close> by auto
    show "tok t = None" if "t \<in> texts e" for t
      using Clause.prems(3) [of t] that \<open>e \<in> set es\<close> by auto
  qed
  then have "map (\<lambda>e. core_value (with_tokens tok m) bp_value (sentinel_placeholders D e)) es = map (core_value m \<beta>) es"
    by simp
  then show ?case by (simp add: with_tokens_def o_def cong: map_cong)
qed (simp add: with_tokens_def)

lemma sentinel_id: "(\<And>b. b \<in> tree_binds e \<Longrightarrow> bp_source b = None) \<Longrightarrow> sentinel_placeholders D e = e"
proof (induction e)
  case (Clause c es)
  then have "map (sentinel_placeholders D) es = es" by (intro map_idI) auto
  then show ?case by simp
qed auto

section \<open>Keys are printed trees\<close>

text \<open>What is printed of a tree without placeholders, and the suffix its sources add.\<close>

definition printed :: "'f compiler \<Rightarrow> 'f core \<Rightarrow> string" where
  "printed D e = (case literal_sql D e of None \<Rightarrow> structural_predicate_key D e | Some sql \<Rightarrow> sql)"

definition suffix_of :: "'f compiler \<Rightarrow> 'f core \<Rightarrow> string" where
  "suffix_of D e = ''|ph='' @ repr_strings D (placeholder_sources e)"

lemma placeholder_binds_in_empty: "placeholder_binds_in e = [] \<longleftrightarrow> (\<forall>b \<in> tree_binds e. bp_source b = None)"
  by (simp add: placeholder_binds_in_note note_binds_empty)

lemma own_key_printed:
  "own_key D e =
     printed D (sentinel_placeholders D e) @ (if \<forall>b \<in> tree_binds e. bp_source b = None then [] else suffix_of D e)"
proof (cases "\<forall>b \<in> tree_binds e. bp_source b = None")
  case True
  then have "sentinel_placeholders D e = e" by (intro sentinel_id) auto
  with True show ?thesis
    by (simp add: own_key_def non_empty_def placeholder_binds_in_empty predicate_key_def printed_def)
next
  case False
  then show ?thesis
    by (auto simp: own_key_def non_empty_def placeholder_binds_in_empty predicate_key_def printed_def suffix_of_def
      placeholder_predicate_key_def structural_placeholder_predicate_key_def structural_predicate_key_def
      split: option.split prod.split)
qed

text \<open>The registry's share of a predicate takes the same path as the predicate's own binds.\<close>

lemma placeholder_binds_for_own:
  assumes reg: "cu_registry st = registry_of (cu_predicates st)"
    and own: "names_own (\<Union>e \<in> set (cu_predicates st). tree_binds e)" and e: "e \<in> set (cu_predicates st)"
  shows "predicate_key D e (placeholder_binds_for st e) = own_key D e"
proof -
  let ?m = "map_of (cz_binds (cu_registry st))"
  have look: "?m (bp_name b) = bp_source b" if b: "b \<in> tree_binds e" for b
  proof (cases "bp_source b")
    case None
    with own e b show ?thesis by (auto simp: reg registry_of_def intro!: note_binds_other)
  next
    case (Some s)
    with own e b note_binds_lookup [of "all_binds (cu_predicates st)" b bp_source]
    show ?thesis by (auto simp: reg registry_of_def)
  qed
  have "foldl (\<lambda>m b. case ?m (bp_name b) of None \<Rightarrow> m | Some s \<Rightarrow> dict_set m (bp_name b) s) [] (core_binds e)
      = placeholder_binds_in e"
    unfolding placeholder_binds_in_def by (rule foldl_cong) (simp_all add: look)
  moreover have "placeholder_binds_in e = []" if "cz_binds (cu_registry st) = []"
    using that look by (simp add: placeholder_binds_in_empty)
  ultimately show ?thesis by (auto simp: placeholder_binds_for_def own_key_def non_empty_def)
qed

section \<open>Equal keys, equal values\<close>

text \<open>Source tags are \<open>var:\<close> and a variable's name or \<open>ctx:\<close> and a key, without a bar.\<close>

definition plain_tags :: "'f bind_param set \<Rightarrow> bool" where
  "plain_tags B = (\<forall>b \<in> B. \<forall>s. bp_source b = Some s \<longrightarrow> CHR ''|'' \<notin> set s)"

text \<open>Transforms of one key do the same, and placeholders of one token have one type: what the key leaves
  out of its text.\<close>

definition tokens_faithful ::
  "'f compiler \<Rightarrow> ('f \<Rightarrow> pyval \<Rightarrow> pyval res) \<Rightarrow> 'f bind_param set \<Rightarrow> bool" where
  "tokens_faithful D call B =
     (\<forall>b \<in> B. \<forall>b' \<in> B.
        (\<forall>f f'. bp_transform b = Some f \<and> bp_transform b' = Some f' \<and> transform_key D f = transform_key D f'
           \<longrightarrow> call f = call f')
      \<and> (bp_source b \<noteq> None \<and> token_of D b = token_of D b' \<longrightarrow> bp_type b = bp_type b'))"

lemma tokens_faithfulD:
  assumes "tokens_faithful D call B" and "b \<in> B" and "b' \<in> B"
  shows "bp_transform b = Some f \<Longrightarrow> bp_transform b' = Some f' \<Longrightarrow> transform_key D f = transform_key D f' \<Longrightarrow> call f = call f'"
    and "bp_source b \<noteq> None \<Longrightarrow> token_of D b = token_of D b' \<Longrightarrow> bp_type b = bp_type b'"
  using bspec [OF bspec [OF assms(1) [unfolded tokens_faithful_def] assms(2)] assms(3)] by blast+

text \<open>What the compiler's text decides, of two trees: equal text, equal tokens and, whatever the tokens stand
  for, one value; and no text of SQL ends like the suffix of a placeholder key.\<close>

definition text_decides :: "'f compiler \<Rightarrow> 'v meaning \<Rightarrow> 'f core \<Rightarrow> 'f core \<Rightarrow> bool" where
  "text_decides D m e e' =
     ((printed D (sentinel_placeholders D e) = printed D (sentinel_placeholders D e') \<longrightarrow>
         tokens D e = tokens D e'
       \<and> (\<forall>tok. dom tok = tokens D e \<longrightarrow>
            core_value (with_tokens tok m) bp_value (sentinel_placeholders D e)
              = core_value (with_tokens tok m) bp_value (sentinel_placeholders D e')))
      \<and> printed D (sentinel_placeholders D e) \<noteq> printed D (sentinel_placeholders D e') @ suffix_of D e'
      \<and> printed D (sentinel_placeholders D e') \<noteq> printed D (sentinel_placeholders D e) @ suffix_of D e
      \<and> CHR ''|'' \<notin> set (repr_strings D (placeholder_sources e))
      \<and> CHR ''|'' \<notin> set (repr_strings D (placeholder_sources e'))
      \<and> texts e \<inter> tokens D e = {} \<and> texts e' \<inter> tokens D e' = {})"

lemma last_bar:
  assumes "x @ c # y = x' @ c # y'" and "c \<notin> set y" and "c \<notin> set y'"
  shows "x = x' \<and> y = y'"
proof -
  from assms(1) have "rev y @ c # rev x = rev y' @ c # rev x'"
    by (metis append.assoc append_Cons append_Nil rev.simps(2) rev_append)
  moreover have "takeWhile (\<lambda>d. d \<noteq> c) (rev z @ c # w) = rev z" if "c \<notin> set z" for z w :: "'a list"
    using that by (subst takeWhile_append2) auto
  ultimately have "rev y = rev y'" using assms(2,3) by metis
  with assms(1) show ?thesis by simp
qed

lemma own_key_split:
  assumes dec: "text_decides D m e e'" and key: "own_key D e = own_key D e'"
  shows "printed D (sentinel_placeholders D e) = printed D (sentinel_placeholders D e')"
proof -
  let ?p = "printed D (sentinel_placeholders D e)" and ?p' = "printed D (sentinel_placeholders D e')"
  have bars: "CHR ''|'' \<notin> set (''ph='' @ repr_strings D (placeholder_sources e))"
    "CHR ''|'' \<notin> set (''ph='' @ repr_strings D (placeholder_sources e'))"
    using dec by (simp_all add: text_decides_def)
  have "?p @ suffix_of D e = ?p' @ suffix_of D e' \<Longrightarrow> ?p = ?p'"
    using last_bar [OF _ bars] by (simp add: suffix_of_def)
  with dec key show ?thesis by (auto simp: own_key_printed text_decides_def split: if_splits)
qed

lemma bar_split:
  assumes "s @ c # u = s' @ c # u'" and "c \<notin> set s" and "c \<notin> set s'"
  shows "s = s' \<and> u = u'"
proof -
  have "takeWhile (\<lambda>d. d \<noteq> c) (z @ c # w) = z" if "c \<notin> set z" for z w :: "'a list"
    using that by (subst takeWhile_append2) auto
  with assms have "s = s'" by metis
  with assms(1) show ?thesis by simp
qed

lemma no_bar_split: "s @ u = s' @ c # u' \<Longrightarrow> c \<notin> set s \<Longrightarrow> c \<notin> set u \<Longrightarrow> False"
  by (metis Un_iff in_set_conv_decomp set_append)

lemma same_token:
  assumes B: "plain_tags B" "tokens_faithful D call B" and b: "b \<in> B" "b' \<in> B"
    and t: "token_of D b = Some t" "token_of D b' = Some t"
  shows "bp_source b = bp_source b'" and "bp_type b = bp_type b'"
    and "bind_result call context source_values b = bind_result call context source_values b'"
proof -
  obtain s s' where s: "bp_source b = Some s" "bp_source b' = Some s'" using t by (auto simp: token_of_def)
  then have bars: "CHR ''|'' \<notin> set s" "CHR ''|'' \<notin> set s'" using B(1) b by (auto simp: plain_tags_def)
  have tok: "sentinel_token D s (bp_transform b) = sentinel_token D s' (bp_transform b')"
    using t s by (simp add: token_of_def)
  show "bp_type b = bp_type b'" using t s by (intro tokens_faithfulD(2) [OF B(2) b]) simp_all
  have "s = s' \<and> (case (bp_transform b, bp_transform b') of
      (None, None) \<Rightarrow> True | (Some f, Some f') \<Rightarrow> transform_key D f = transform_key D f' | _ \<Rightarrow> False)"
  proof (cases "bp_transform b")
    case None
    show ?thesis
    proof (cases "bp_transform b'")
      case (Some f')
      with None tok show ?thesis
        using no_bar_split [of s "''>>''" s' "CHR ''|''"] bars by (auto simp: sentinel_token_def)
    qed (use None tok in \<open>simp add: sentinel_token_def\<close>)
  next
    case (Some f)
    show ?thesis
    proof (cases "bp_transform b'")
      case None
      with Some tok show ?thesis
        using no_bar_split [of s' "''>>''" s "CHR ''|''", OF sym] bars by (auto simp: sentinel_token_def)
    next
      case (Some f')
      with \<open>bp_transform b = Some f\<close> tok
      have "s @ CHR ''|'' # ''t='' @ transform_key D f @ ''>>'' = s' @ CHR ''|'' # ''t='' @ transform_key D f' @ ''>>''"
        by (simp add: sentinel_token_def)
      from bar_split [OF this bars] Some \<open>bp_transform b = Some f\<close> show ?thesis by simp
    qed
  qed
  note * = this
  with s show "bp_source b = bp_source b'" by simp
  show "bind_result call context source_values b = bind_result call context source_values b'"
  proof (cases "bp_transform b")
    case None
    with * s show ?thesis by (cases "bp_transform b'") (simp_all add: bind_result_def)
  next
    case (Some f)
    with * obtain f' where f': "bp_transform b' = Some f'" "transform_key D f = transform_key D f'"
      by (cases "bp_transform b'") auto
    with tokens_faithfulD(1) [OF B(2) b Some] have "call f = call f'" by blast
    with * s Some f' show ?thesis by (simp add: bind_result_def)
  qed
qed

lemma same_key_same_value:
  assumes dec: "text_decides D m e e'" and key: "own_key D e = own_key D e'"
    and B: "plain_tags (tree_binds e \<union> tree_binds e')" "tokens_faithful D call (tree_binds e \<union> tree_binds e')"
    and \<beta>: "\<And>b. b \<in> tree_binds e \<Longrightarrow> bind_result call context source_values b = Inr (\<beta> b)"
    and \<beta>': "\<And>b. b \<in> tree_binds e' \<Longrightarrow> bind_result call context source_values b = Inr (\<beta>' b)"
  shows "core_value m \<beta> e = core_value m \<beta>' e'"
proof -
  define pick where "pick t = (SOME b. b \<in> tree_binds e \<and> token_of D b = Some t)" for t
  define tok where "tok t = (if t \<in> tokens D e then Some (bound_value m (bp_type (pick t)) (\<beta> (pick t))) else None)" for t
  have pick: "pick t \<in> tree_binds e \<and> token_of D (pick t) = Some t" if "t \<in> tokens D e" for t
    unfolding pick_def by (rule someI_ex) (use that in \<open>auto simp: tokens_def\<close>)
  have toks: "tokens D e = tokens D e'"
    and eq: "dom tok = tokens D e \<Longrightarrow> core_value (with_tokens tok m) bp_value (sentinel_placeholders D e)
               = core_value (with_tokens tok m) bp_value (sentinel_placeholders D e')"
    using dec own_key_split [OF dec key] by (auto simp: text_decides_def)
  have side: "core_value (with_tokens tok m) bp_value (sentinel_placeholders D x) = core_value m \<gamma> x"
    if x: "tree_binds x \<subseteq> tree_binds e \<union> tree_binds e'" "tokens D x = tokens D e" "texts x \<inter> tokens D x = {}"
      and \<gamma>: "\<And>b. b \<in> tree_binds x \<Longrightarrow> bind_result call context source_values b = Inr (\<gamma> b)" for x \<gamma>
  proof (rule core_value_sentinels)
    fix b t assume b: "b \<in> tree_binds x" "token_of D b = Some t"
    then have "t \<in> tokens D x" by (auto simp: tokens_def)
    then have t: "t \<in> tokens D e" by (simp add: x)
    note p = pick [OF t]
    have "bp_type (pick t) = bp_type b" by (rule same_token(2) [OF B]) (use p b x in auto)
    moreover have "Inr (\<beta> (pick t)) = (Inr (\<gamma> b) :: pyval res)"
      unfolding \<gamma> [OF b(1), symmetric] \<beta> [OF conjunct1 [OF p], symmetric]
      by (rule same_token(3) [OF B]) (use p b x in auto)
    ultimately show "tok t = Some (bound_value m (bp_type b) (\<gamma> b))" using t by (simp add: tok_def)
  next
    show "\<gamma> b = bp_value b" if "b \<in> tree_binds x" "bp_source b = None" for b
      using \<gamma> [OF that(1)] that(2) by (simp add: bind_result_def)
    show "tok t = None" if "t \<in> texts x" for t using x that by (auto simp: tok_def)
  qed
  have "dom tok = tokens D e" by (auto simp: tok_def split: if_splits)
  note eq [OF this]
  moreover have "core_value (with_tokens tok m) bp_value (sentinel_placeholders D e) = core_value m \<beta> e"
    by (rule side) (use dec \<beta> in \<open>auto simp: text_decides_def\<close>)
  moreover have "core_value (with_tokens tok m) bp_value (sentinel_placeholders D e') = core_value m \<beta>' e'"
    by (rule side) (use dec \<beta>' toks in \<open>auto simp: text_decides_def\<close>)
  ultimately show ?thesis by simp
qed

text \<open>What a request can give one of them it can give the other.\<close>

lemma same_key_same_binds:
  assumes dec: "text_decides D m e e'" and key: "own_key D e = own_key D e'"
    and B: "plain_tags (tree_binds e \<union> tree_binds e')" "tokens_faithful D call (tree_binds e \<union> tree_binds e')"
    and b: "b \<in> tree_binds e" "bp_source b \<noteq> None"
  shows "\<exists>b' \<in> tree_binds e'. bind_result call context source_values b = bind_result call context source_values b'"
proof -
  obtain t where t: "token_of D b = Some t" using b(2) by (auto simp: token_of_def)
  then have "t \<in> tokens D e" using b by (auto simp: tokens_def)
  then have "t \<in> tokens D e'" using dec own_key_split [OF dec key] by (auto simp: text_decides_def)
  then obtain b' where b': "b' \<in> tree_binds e'" "token_of D b' = Some t" by (auto simp: tokens_def)
  have "bind_result call context source_values b = bind_result call context source_values b'"
    by (rule same_token(3) [OF B _ _ t b'(2)]) (use b b' in auto)
  with b' show ?thesis by blast
qed

section \<open>What a step has been made by\<close>

inductive customized :: "'f compiler \<Rightarrow> 'f customizable \<Rightarrow> bool" for D where
  Seeded: "seed_resource_customization cz context n = (Inr st, n') \<Longrightarrow> customized D st"
| Where_Added: "customized D st \<Longrightarrow> add_where h st = Inr st' \<Longrightarrow> customized D st'"
| Tree_Added: "customized D st \<Longrightarrow> where_tree expression c st = Inr st' \<Longrightarrow> customized D st'"
| Signed: "customized D st \<Longrightarrow> customized D (snd (customization_signature D st))"
| Copied: "customized D st \<Longrightarrow> customized D other \<Longrightarrow> cu_customizer other = cu_customizer st
    \<Longrightarrow> customized D (copy_customization_from other st)"

definition safe_predicate :: "'f core \<Rightarrow> bool" where
  "safe_predicate e = (\<forall>b \<in> tree_binds e. bp_name b \<notin> set reserved_bind_names \<and> \<not> bp_required b)"

definition customizable_ok :: "'f compiler \<Rightarrow> 'f customizable \<Rightarrow> bool" where
  "customizable_ok D st =
     (cu_registry st = registry_of (cu_predicates st) \<and> cu_count st \<le> length (cu_predicates st)
      \<and> cu_bakes_literal st = has_literal_customization st
      \<and> (\<forall>s. cu_signature st = Some s \<longrightarrow> s = compute_signature D st)
      \<and> (\<forall>e \<in> set (cu_predicates st). safe_predicate e))"

lemma check_binds_iff: "check_binds bs = Inr () \<longleftrightarrow> (\<forall>b \<in> set bs. bp_name b \<notin> set reserved_bind_names \<and> \<not> bp_required b)"
  by (induction bs) auto

lemma check_predicate_iff: "check_predicate h = Inr e \<longleftrightarrow> h = Core_Expr e \<and> safe_predicate e"
  by (cases h) (auto simp: bind_res_Inr_iff safe_predicate_def check_binds_iff)

lemma checked_safe: "map_res check_predicate hs = Inr ps \<Longrightarrow> \<forall>e \<in> set ps. safe_predicate e"
  by (induction hs arbitrary: ps) (auto simp: bind_res_Inr_iff check_predicate_iff)

lemma resolve_Inr:
  assumes "resolve_customizer_predicates cz context n = (Inr (ps, bakes), n')"
  shows "bakes \<longleftrightarrow> (\<exists>e \<in> set ps. predicate_bakes_literal e)" and "\<forall>e \<in> set ps. safe_predicate e"
proof -
  have "(bakes \<longleftrightarrow> (\<exists>e \<in> set ps. predicate_bakes_literal e)) \<and> (\<forall>e \<in> set ps. safe_predicate e)"
  proof (cases cz)
    case (Some c)
    obtain p k where "produce c context n = (p, k)" by (cases "produce c context n")
    with Some assms show ?thesis by (auto simp: bind_res_Inr_iff dest: checked_safe)
  qed (use assms in simp)
  then show "bakes \<longleftrightarrow> (\<exists>e \<in> set ps. predicate_bakes_literal e)" and "\<forall>e \<in> set ps. safe_predicate e" by blast+
qed

lemma seed_Inr:
  assumes "seed_resource_customization cz context n = (Inr st, n')"
  shows "\<exists>ps bakes. resolve_customizer_predicates (map_option snd cz) context n = (Inr (ps, bakes), n')
     \<and> st = \<lparr>cu_customizer = cz, cu_predicates = ps, cu_bakes_literal = bakes, cu_count = length ps,
          cu_registry = registry_of ps, cu_signature = None\<rparr>"
proof (cases cz)
  case (Some ic)
  obtain i c where "ic = (i, c)" by (cases ic)
  obtain r k where "resolve_customizer_predicates (Some c) context n = (r, k)"
    by (cases "resolve_customizer_predicates (Some c) context n")
  with Some \<open>ic = (i, c)\<close> assms show ?thesis
    by (auto simp: bind_res_Inr_iff init_customization_eq simp del: resolve_customizer_predicates.simps)
qed (use assms in \<open>auto simp: init_customization_eq\<close>)

lemma seeded_ok: "seed_resource_customization cz context n = (Inr st, n') \<Longrightarrow> customizable_ok D st"
  using seed_Inr [of cz "context" n st n'] resolve_Inr
  by (fastforce simp: customizable_ok_def has_literal_customization_def customizer_predicates_def)

lemma add_where_Inr:
  "add_where h st = Inr st' \<longleftrightarrow> (\<exists>e. h = Core_Expr e \<and> safe_predicate e
     \<and> st' = st\<lparr>cu_predicates := cu_predicates st @ [e],
          cu_registry := register_placeholder_binds (core_binds e) (cu_registry st), cu_signature := None\<rparr>)"
  by (auto simp: add_where_def bind_res_Inr_iff check_predicate_iff register_predicate_def)

lemma add_where_ok: "customizable_ok D st \<Longrightarrow> add_where h st = Inr st' \<Longrightarrow> customizable_ok D st'"
  by (auto simp: add_where_Inr customizable_ok_def registry_of_snoc has_literal_customization_def customizer_predicates_def)

lemma where_tree_Inr: "where_tree expression c st = Inr st' \<Longrightarrow> \<exists>h. add_where h st = Inr st'"
  by (auto simp: where_tree_def bind_res_Inr_iff)

lemma signature_of_signed: "compute_signature D (st\<lparr>cu_signature := s\<rparr>) = compute_signature D st"
  by (simp add: compute_signature_def placeholder_binds_for_def)

lemma signed_ok: "customizable_ok D st \<Longrightarrow> customizable_ok D (snd (customization_signature D st))"
  by (auto simp: customization_signature_def customizable_ok_def signature_of_signed has_literal_customization_def
    customizer_predicates_def split: option.split)

lemma customized_ok: "customized D st \<Longrightarrow> customizable_ok D st"
proof (induction rule: customized.induct)
  case (Copied st other)
  then show ?case
    by (auto simp: copy_customization_from_def customizable_ok_def has_literal_customization_def customizer_predicates_def)
qed (auto intro: seeded_ok add_where_ok signed_ok dest!: where_tree_Inr)

text \<open>The signature a step reports is that of its present predicates, each keyed by its own binds.\<close>

lemma signature_is_current:
  assumes "customized D st"
  shows "fst (customization_signature D st) = compute_signature D st"
  using customized_ok [OF assms] by (auto simp: customization_signature_def customizable_ok_def split: option.split)

lemma signature_keys:
  assumes st: "customized D st" and own: "names_own (\<Union>e \<in> set (cu_predicates st). tree_binds e)"
  shows "compute_signature D st = (map_option fst (cu_customizer st), map (own_key D) (cu_predicates st))"
  using placeholder_binds_for_own [OF _ own] customized_ok [OF st]
  by (simp add: compute_signature_def customizable_ok_def)

text \<open>The two guards of a cache hit agree, and a step's later \<open>.where()\<close>s do not change them.\<close>

lemma constraint_is_structure_guard:
  "customizer_constraint D st = Some c \<Longrightarrow> constraint_matches D context n c = customizer_structure_matches D context n st"
  by (auto simp: customizer_constraint_def constraint_matches_def customizer_structure_matches_def split: option.splits)

lemma guard_is_stable:
  assumes "customized D st" and "add_where h st = Inr st'"
  shows "customizer_constraint D st' = customizer_constraint D st"
  using customized_ok [OF assms(1)] assms(2)
  by (auto simp: add_where_Inr customizer_constraint_def customizer_predicates_def customizable_ok_def split: option.split)

section \<open>Lists of predicates\<close>

definition binds_of :: "'f core list \<Rightarrow> 'f bind_param set" where
  "binds_of ps = (\<Union>e \<in> set ps. tree_binds e)"

lemma tokens_faithful_mono: "tokens_faithful D call B \<Longrightarrow> A \<subseteq> B \<Longrightarrow> tokens_faithful D call A"
  unfolding tokens_faithful_def by (meson subsetD)

lemma plain_tags_mono: "plain_tags B \<Longrightarrow> A \<subseteq> B \<Longrightarrow> plain_tags A"
  unfolding plain_tags_def by (meson subsetD)

text \<open>Two lists of predicates the keys of which agree, and whose texts and tags decide what they should.\<close>

definition same_shape ::
  "'f compiler \<Rightarrow> ('f \<Rightarrow> pyval \<Rightarrow> pyval res) \<Rightarrow> 'v meaning \<Rightarrow> 'f core list \<Rightarrow> 'f core list \<Rightarrow> bool" where
  "same_shape D call m ps ps' =
     (list_all2 (text_decides D m) ps ps' \<and> plain_tags (binds_of ps \<union> binds_of ps')
      \<and> tokens_faithful D call (binds_of ps \<union> binds_of ps'))"

lemma same_shape_nth:
  assumes "same_shape D call m ps ps'" and "i < length ps"
  shows "text_decides D m (ps ! i) (ps' ! i)"
    and "plain_tags (tree_binds (ps ! i) \<union> tree_binds (ps' ! i))"
    and "tokens_faithful D call (tree_binds (ps ! i) \<union> tree_binds (ps' ! i))"
proof -
  have len: "i < length ps'" using assms by (auto simp: same_shape_def list_all2_conv_all_nth)
  have sub: "tree_binds (ps ! i) \<union> tree_binds (ps' ! i) \<subseteq> binds_of ps \<union> binds_of ps'"
    using nth_mem [OF assms(2)] nth_mem [OF len] unfolding binds_of_def by blast
  show "text_decides D m (ps ! i) (ps' ! i)" using assms by (simp add: same_shape_def list_all2_conv_all_nth)
  show "plain_tags (tree_binds (ps ! i) \<union> tree_binds (ps' ! i))"
    by (rule plain_tags_mono [OF _ sub]) (use assms(1) in \<open>simp add: same_shape_def\<close>)
  show "tokens_faithful D call (tree_binds (ps ! i) \<union> tree_binds (ps' ! i))"
    by (rule tokens_faithful_mono [OF _ sub]) (use assms(1) in \<open>simp add: same_shape_def\<close>)
qed

lemma same_keys_same_values:
  assumes keys: "map (own_key D) ps = map (own_key D) ps'" and shape: "same_shape D call m ps ps'"
    and \<beta>: "\<And>b. b \<in> binds_of ps \<Longrightarrow> bind_result call context source_values b = Inr (\<beta> b)"
    and \<beta>': "\<And>b. b \<in> binds_of ps' \<Longrightarrow> bind_result call context source_values b = Inr (\<beta>' b)"
  shows "map (core_value m \<beta>) ps = map (core_value m \<beta>') ps'"
proof (rule nth_equalityI)
  have len: "length ps = length ps'" using keys by (rule map_eq_imp_length_eq)
  show "length (map (core_value m \<beta>) ps) = length (map (core_value m \<beta>') ps')" using len by simp
  fix i assume "i < length (map (core_value m \<beta>) ps)"
  then have i: "i < length ps" "i < length ps'" using len by simp_all
  have "own_key D (ps ! i) = own_key D (ps' ! i)" using keys i by (metis nth_map)
  note same_key_same_value [OF same_shape_nth(1) [OF shape i(1)] this same_shape_nth(2,3) [OF shape i(1)]]
  then have "core_value m \<beta> (ps ! i) = core_value m \<beta>' (ps' ! i)"
    using \<beta> \<beta>' i by (force simp: binds_of_def)
  with i show "map (core_value m \<beta>) ps ! i = map (core_value m \<beta>') ps' ! i" by simp
qed

lemma same_keys_same_binds:
  assumes keys: "map (own_key D) ps = map (own_key D) ps'" and shape: "same_shape D call m ps ps'"
    and b: "b \<in> binds_of ps" "bp_source b \<noteq> None"
  shows "\<exists>b' \<in> binds_of ps'. bind_result call context source_values b = bind_result call context source_values b'"
proof -
  have len: "length ps = length ps'" using keys by (rule map_eq_imp_length_eq)
  from b(1) obtain i where i: "i < length ps" "b \<in> tree_binds (ps ! i)" by (auto simp: binds_of_def in_set_conv_nth)
  have "own_key D (ps ! i) = own_key D (ps' ! i)" using keys i(1) len by (metis nth_map)
  from same_key_same_binds [OF same_shape_nth(1) [OF shape i(1)] this same_shape_nth(2,3) [OF shape i(1)] i(2) b(2)]
  show ?thesis using i(1) len by (force simp: binds_of_def)
qed

end
