(* ===== verification/Pg_Builder.thy ===== *)
theory Pg_Builder
  imports Pg_Connection Pg_Customize_Laws
begin

text \<open>
  The builder a host is handed (\<open>PgSelectQueryBuilder\<close> in \<open>src/src/grafast_py/pg/customize.py\<close>), over the
  three steps it wraps. A step is its select or connection part beside the customization
  \<open>PgCustomizable\<close> owns; the query builder's expression for a compiled filter, and the predicate an
  expression stands for in a statement, are parameters.
\<close>

section \<open>The surfaces of a step\<close>

text \<open>The methods the builder calls; an optional one may be missing from a class.\<close>

record ('s, 'f) step_surface =
  su_class :: string
  su_add_where :: "'f host_value \<Rightarrow> 's \<Rightarrow> 's res"
  su_where_tree :: "condition \<Rightarrow> 's \<Rightarrow> 's res"
  su_add_order_term :: "string + order_term \<Rightarrow> 's \<Rightarrow> 's res"
  su_set_first :: "(page_value \<Rightarrow> 's \<Rightarrow> 's) option"
  su_set_offset :: "(page_value \<Rightarrow> 's \<Rightarrow> 's) option"

definition require_capability :: "string \<Rightarrow> string \<Rightarrow> 'm option \<Rightarrow> 'm res" where
  "require_capability cls name method =
     (case method of None \<Rightarrow> Inl (TypeError (cls @ '' does not support '' @ name)) | Some m \<Rightarrow> Inr m)"

section \<open>The builder\<close>

definition builder_where :: "('s, 'f) step_surface \<Rightarrow> 'f host_value \<Rightarrow> 's \<Rightarrow> 's res" where
  "builder_where C h st = bind_res (check_predicate h) (\<lambda>e. su_add_where C (Core_Expr e) st)"

definition builder_where_tree :: "('s, 'f) step_surface \<Rightarrow> condition \<Rightarrow> 's \<Rightarrow> 's res" where
  "builder_where_tree C c st = su_where_tree C c st"

definition builder_order_by :: "('s, 'f) step_surface \<Rightarrow> string + order_term \<Rightarrow> 's \<Rightarrow> 's res" where
  "builder_order_by C t st = su_add_order_term C t st"

definition builder_set_first :: "('s, 'f) step_surface \<Rightarrow> page_value \<Rightarrow> 's \<Rightarrow> 's res" where
  "builder_set_first C v st =
     bind_res (require_capability (su_class C) ''set_first'' (su_set_first C)) (\<lambda>f. Inr (f v st))"

definition builder_set_offset :: "('s, 'f) step_surface \<Rightarrow> page_value \<Rightarrow> 's \<Rightarrow> 's res" where
  "builder_set_offset C v st =
     bind_res (require_capability (su_class C) ''set_offset'' (su_set_offset C)) (\<lambda>f. Inr (f v st))"

text \<open>A host callback is the calls it makes; the first that raises ends it.\<close>

datatype 'f host_call =
    Where_Call "'f host_value"
  | Tree_Call condition
  | Order_Call "string + order_term"
  | First_Call page_value
  | Offset_Call page_value

fun builder_call :: "('s, 'f) step_surface \<Rightarrow> 'f host_call \<Rightarrow> 's \<Rightarrow> 's res" where
  "builder_call C (Where_Call h) st = builder_where C h st"
| "builder_call C (Tree_Call c) st = builder_where_tree C c st"
| "builder_call C (Order_Call t) st = builder_order_by C t st"
| "builder_call C (First_Call v) st = builder_set_first C v st"
| "builder_call C (Offset_Call v) st = builder_set_offset C v st"

fun builder_apply :: "('s, 'f) step_surface \<Rightarrow> 'f host_call list \<Rightarrow> 's \<Rightarrow> 's res" where
  "builder_apply C [] st = Inr st"
| "builder_apply C (c # cs) st = bind_res (builder_call C c st) (builder_apply C cs)"

section \<open>The three steps\<close>

text \<open>A new predicate reaches the statement and its placeholders the registry the parameters are taken
  from: the select's WHERE list and registry are those of its customization.\<close>

definition sl_fold :: "('f core \<Rightarrow> predicate) \<Rightarrow> 'f pg_select \<Rightarrow> 'f customizable \<Rightarrow> 'f customizable \<times> 'f pg_select" where
  "sl_fold compiled sl cu = (cu, sl\<lparr>sl_where := map compiled (cu_predicates cu), sl_custom := cu_registry cu\<rparr>)"

definition select_surface ::
  "('f core \<Rightarrow> predicate) \<Rightarrow> (predicate \<Rightarrow> 'f core) \<Rightarrow> ('f customizable \<times> 'f pg_select, 'f) step_surface" where
  "select_surface compiled expression =
     \<lparr>su_class = ''PgSelectStep'',
      su_add_where = (\<lambda>h (cu, sl). map_sum id (sl_fold compiled sl) (add_where h cu)),
      su_where_tree = (\<lambda>c (cu, sl). map_sum id (sl_fold compiled sl) (where_tree expression c cu)),
      su_add_order_term = (\<lambda>t (cu, sl). map_sum id (Pair cu) (sl_add_order_term t sl)),
      su_set_first = Some (\<lambda>v (cu, sl). (cu, sl_set_first v sl)),
      su_set_offset = Some (\<lambda>v (cu, sl). (cu, sl_set_offset v sl))\<rparr>"

definition sa_set_first :: "page_value \<Rightarrow> 'f pg_select_all \<Rightarrow> 'f pg_select_all" where
  "sa_set_first first sa = sa\<lparr>sa_first := first\<rparr>"

definition sa_set_offset :: "page_value \<Rightarrow> 'f pg_select_all \<Rightarrow> 'f pg_select_all" where
  "sa_set_offset offset sa = sa\<lparr>sa_offset := offset\<rparr>"

definition sa_fold :: "('f core \<Rightarrow> predicate) \<Rightarrow> 'f pg_select_all \<Rightarrow> 'f customizable \<Rightarrow> 'f customizable \<times> 'f pg_select_all" where
  "sa_fold compiled sa cu = (cu, sa\<lparr>sa_where := map compiled (cu_predicates cu), sa_custom := cu_registry cu\<rparr>)"

definition select_all_surface ::
  "('f core \<Rightarrow> predicate) \<Rightarrow> (predicate \<Rightarrow> 'f core) \<Rightarrow> ('f customizable \<times> 'f pg_select_all, 'f) step_surface" where
  "select_all_surface compiled expression =
     \<lparr>su_class = ''PgSelectAllStep'',
      su_add_where = (\<lambda>h (cu, sa). map_sum id (sa_fold compiled sa) (add_where h cu)),
      su_where_tree = (\<lambda>c (cu, sa). map_sum id (sa_fold compiled sa) (where_tree expression c cu)),
      su_add_order_term = (\<lambda>t (cu, sa). map_sum id (Pair cu) (sa_add_order_term t sa)),
      su_set_first = Some (\<lambda>v (cu, sa). (cu, sa_set_first v sa)),
      su_set_offset = Some (\<lambda>v (cu, sa). (cu, sa_set_offset v sa))\<rparr>"

definition cn_fold :: "('f core \<Rightarrow> predicate) \<Rightarrow> 'f pg_connection \<Rightarrow> 'f customizable \<Rightarrow> 'f customizable \<times> 'f pg_connection" where
  "cn_fold compiled cn cu = (cu, cn\<lparr>cn_where := map compiled (cu_predicates cu), cn_custom := cu_registry cu\<rparr>)"

text \<open>A connection has no offset: its paging is the cursor it was made with.\<close>

definition connection_surface ::
  "(string \<Rightarrow> string) \<Rightarrow> ('f core \<Rightarrow> predicate) \<Rightarrow> (predicate \<Rightarrow> 'f core)
   \<Rightarrow> ('f customizable \<times> 'f pg_connection, 'f) step_surface" where
  "connection_surface sha256 compiled expression =
     \<lparr>su_class = ''PgConnectionStep'',
      su_add_where = (\<lambda>h (cu, cn). map_sum id (cn_fold compiled cn) (add_where h cu)),
      su_where_tree = (\<lambda>c (cu, cn). map_sum id (cn_fold compiled cn) (where_tree expression c cu)),
      su_add_order_term = (\<lambda>t (cu, cn). map_sum id (Pair cu) (cn_add_order_term sha256 t cn)),
      su_set_first = Some (\<lambda>v (cu, cn). (cu, cn_set_first v cn)),
      su_set_offset = None\<rparr>"

section \<open>What a host can reach through the builder\<close>

text \<open>A surface whose every method keeps a reflexive and transitive relation between the step before and
  after; then so does every callback.\<close>

locale kept_surface =
  fixes C :: "('s, 'f) step_surface" and keeps :: "'s \<Rightarrow> 's \<Rightarrow> bool"
  assumes keeps_refl: "keeps s s"
    and keeps_trans: "keeps s t \<Longrightarrow> keeps t u \<Longrightarrow> keeps s u"
    and keeps_where: "su_add_where C h s = Inr t \<Longrightarrow> keeps s t"
    and keeps_tree: "su_where_tree C c s = Inr t \<Longrightarrow> keeps s t"
    and keeps_order: "su_add_order_term C o' s = Inr t \<Longrightarrow> keeps s t"
    and keeps_first: "su_set_first C = Some f \<Longrightarrow> keeps s (f v s)"
    and keeps_offset: "su_set_offset C = Some f \<Longrightarrow> keeps s (f v s)"
begin

lemma call_keeps: "builder_call C call s = Inr t \<Longrightarrow> keeps s t"
  by (cases call) (auto simp: builder_where_def builder_where_tree_def builder_order_by_def builder_set_first_def
    builder_set_offset_def require_capability_def bind_res_Inr_iff
    intro: keeps_where keeps_tree keeps_order keeps_first keeps_offset split: option.splits)

lemma apply_keeps: "builder_apply C calls s = Inr t \<Longrightarrow> keeps s t"
  by (induction calls arbitrary: s) (auto simp: bind_res_Inr_iff intro: keeps_refl keeps_trans call_keeps)

end

text \<open>The customization only grows, by checked predicates, behind the customizer's own.\<close>

definition host_extends :: "'f customizable \<Rightarrow> 'f customizable \<Rightarrow> bool" where
  "host_extends cu cu' =
     (\<exists>es. cu_predicates cu' = cu_predicates cu @ es \<and> (\<forall>e \<in> set es. safe_predicate e)
        \<and> cu_customizer cu' = cu_customizer cu \<and> cu_count cu' = cu_count cu
        \<and> cu_bakes_literal cu' = cu_bakes_literal cu
        \<and> (cu_registry cu = registry_of (cu_predicates cu) \<longrightarrow> cu_registry cu' = registry_of (cu_predicates cu')))"

lemma host_extends_refl: "host_extends cu cu"
  by (simp add: host_extends_def)

lemma host_extends_trans: "host_extends a b \<Longrightarrow> host_extends b c \<Longrightarrow> host_extends a c"
  unfolding host_extends_def by (elim exE conjE) (rule_tac x = "es @ esa" in exI, auto)

lemma add_where_extends: "add_where h cu = Inr cu' \<Longrightarrow> host_extends cu cu'"
  by (auto simp: add_where_Inr host_extends_def registry_of_snoc)

lemma where_tree_extends: "where_tree expression c cu = Inr cu' \<Longrightarrow> host_extends cu cu'"
  by (auto dest: where_tree_Inr add_where_extends)

lemma map_sum_Inr: "map_sum id f r = Inr y \<longleftrightarrow> (\<exists>x. r = Inr x \<and> y = f x)"
  by (cases r) auto

text \<open>The skeleton of a step: all but the surfaces a host may set. The WHERE list and the registry stay those
  of the customization.\<close>

definition sl_skeleton :: "'f pg_select \<Rightarrow> 'f pg_select" where
  "sl_skeleton sl = sl\<lparr>sl_order := [], sl_first := Plain VNone, sl_offset := Plain VNone, sl_where := [],
     sl_custom := \<lparr>cz_binds = [], cz_transforms = []\<rparr>\<rparr>"

definition sa_skeleton :: "'f pg_select_all \<Rightarrow> 'f pg_select_all" where
  "sa_skeleton sa = sa\<lparr>sa_order := [], sa_first := Plain VNone, sa_offset := Plain VNone, sa_where := [],
     sa_custom := \<lparr>cz_binds = [], cz_transforms = []\<rparr>\<rparr>"

definition cn_skeleton :: "'f pg_connection \<Rightarrow> 'f pg_connection" where
  "cn_skeleton cn = cn\<lparr>cn_order := [], cn_first := Plain VNone, cn_after_values := None, cn_before_values := None,
     cn_where := [], cn_custom := \<lparr>cz_binds = [], cz_transforms = []\<rparr>\<rparr>"

definition select_kept ::
  "('f core \<Rightarrow> predicate) \<Rightarrow> 'f customizable \<times> 'f pg_select \<Rightarrow> 'f customizable \<times> 'f pg_select \<Rightarrow> bool" where
  "select_kept compiled s t =
     (host_extends (fst s) (fst t) \<and> sl_skeleton (snd t) = sl_skeleton (snd s)
      \<and> ((sl_where (snd s), sl_custom (snd s)) = (map compiled (cu_predicates (fst s)), cu_registry (fst s))
          \<longrightarrow> (sl_where (snd t), sl_custom (snd t)) = (map compiled (cu_predicates (fst t)), cu_registry (fst t))))"

definition select_all_kept ::
  "('f core \<Rightarrow> predicate) \<Rightarrow> 'f customizable \<times> 'f pg_select_all \<Rightarrow> 'f customizable \<times> 'f pg_select_all \<Rightarrow> bool" where
  "select_all_kept compiled s t =
     (host_extends (fst s) (fst t) \<and> sa_skeleton (snd t) = sa_skeleton (snd s)
      \<and> ((sa_where (snd s), sa_custom (snd s)) = (map compiled (cu_predicates (fst s)), cu_registry (fst s))
          \<longrightarrow> (sa_where (snd t), sa_custom (snd t)) = (map compiled (cu_predicates (fst t)), cu_registry (fst t))))"

definition connection_kept ::
  "('f core \<Rightarrow> predicate) \<Rightarrow> 'f customizable \<times> 'f pg_connection \<Rightarrow> 'f customizable \<times> 'f pg_connection \<Rightarrow> bool" where
  "connection_kept compiled s t =
     (host_extends (fst s) (fst t) \<and> cn_skeleton (snd t) = cn_skeleton (snd s)
      \<and> ((cn_where (snd s), cn_custom (snd s)) = (map compiled (cu_predicates (fst s)), cu_registry (fst s))
          \<longrightarrow> (cn_where (snd t), cn_custom (snd t)) = (map compiled (cu_predicates (fst t)), cu_registry (fst t))))"

lemmas fold_defs = sl_fold_def sa_fold_def cn_fold_def
lemmas skeleton_defs = sl_skeleton_def sa_skeleton_def cn_skeleton_def

interpretation select_builder: kept_surface "select_surface compiled expression" "select_kept compiled"
  for compiled :: "'f core \<Rightarrow> predicate" and expression
proof
  show "select_kept compiled s s" for s by (simp add: select_kept_def host_extends_refl)
  show "select_kept compiled s t \<Longrightarrow> select_kept compiled t u \<Longrightarrow> select_kept compiled s u" for s t u
    by (auto simp: select_kept_def intro: host_extends_trans)
qed (auto simp: select_surface_def select_kept_def map_sum_Inr fold_defs skeleton_defs sl_add_order_term_def sl_set_first_def
    sl_set_offset_def bind_res_Inr_iff Let_def host_extends_refl dest: add_where_extends where_tree_extends)

interpretation select_all_builder: kept_surface "select_all_surface compiled expression" "select_all_kept compiled"
  for compiled :: "'f core \<Rightarrow> predicate" and expression
proof
  show "select_all_kept compiled s s" for s by (simp add: select_all_kept_def host_extends_refl)
  show "select_all_kept compiled s t \<Longrightarrow> select_all_kept compiled t u \<Longrightarrow> select_all_kept compiled s u" for s t u
    by (auto simp: select_all_kept_def intro: host_extends_trans)
qed (auto simp: select_all_surface_def select_all_kept_def map_sum_Inr fold_defs skeleton_defs sa_add_order_term_def
    sa_set_first_def sa_set_offset_def bind_res_Inr_iff Let_def host_extends_refl dest: add_where_extends where_tree_extends)

interpretation connection_builder: kept_surface "connection_surface sha256 compiled expression" "connection_kept compiled"
  for sha256 and compiled :: "'f core \<Rightarrow> predicate" and expression
proof
  show "connection_kept compiled s s" for s by (simp add: connection_kept_def host_extends_refl)
  show "connection_kept compiled s t \<Longrightarrow> connection_kept compiled t u \<Longrightarrow> connection_kept compiled s u" for s t u
    by (auto simp: connection_kept_def intro: host_extends_trans)
qed (auto simp: connection_surface_def connection_kept_def map_sum_Inr fold_defs skeleton_defs cn_add_order_term_def
    cn_set_first_def bind_res_Inr_iff Let_def host_extends_refl dest: add_where_extends where_tree_extends)

section \<open>What a callback makes of a select\<close>

text \<open>The predicates a call adds, and whether a step takes it: a predicate has to pass the check, a filter to
  compile to one that does, an ordering not to go by a computed column.\<close>

fun call_predicates :: "(predicate \<Rightarrow> 'f core) \<Rightarrow> 'f host_call \<Rightarrow> 'f core list" where
  "call_predicates expression (Where_Call (Core_Expr e)) = [e]"
| "call_predicates expression (Tree_Call c) =
     (case compile_condition c of Inr p \<Rightarrow> [expression p] | Inl err \<Rightarrow> [])"
| "call_predicates expression call = []"

fun call_allowed :: "pg_resource \<Rightarrow> (predicate \<Rightarrow> 'f core) \<Rightarrow> 'f host_call \<Rightarrow> bool" where
  "call_allowed rs expression (Where_Call h) = (\<exists>e. h = Core_Expr e \<and> safe_predicate e)"
| "call_allowed rs expression (Tree_Call c) = (\<exists>p. compile_condition c = Inr p \<and> safe_predicate (expression p))"
| "call_allowed rs expression (Order_Call t) =
     (\<forall>a. map_of (rs_attributes rs) (ot_column (case_sum ascending id t)) = Some a \<longrightarrow> \<not> is_computed a)"
| "call_allowed rs expression call = True"

definition added_predicates :: "(predicate \<Rightarrow> 'f core) \<Rightarrow> 'f host_call list \<Rightarrow> 'f core list" where
  "added_predicates expression calls = concat (map (call_predicates expression) calls)"

definition added_terms :: "'f host_call list \<Rightarrow> order_term list" where
  "added_terms calls = [case_sum ascending id t. Order_Call t \<leftarrow> calls]"

definition cu_effect :: "(predicate \<Rightarrow> 'f core) \<Rightarrow> 'f host_call list \<Rightarrow> 'f customizable \<Rightarrow> 'f customizable" where
  "cu_effect expression calls cu =
     cu\<lparr>cu_predicates := cu_predicates cu @ added_predicates expression calls,
        cu_registry := registry_of (cu_predicates cu @ added_predicates expression calls),
        cu_signature := (if added_predicates expression calls = [] then cu_signature cu else None)\<rparr>"

definition sl_effect ::
  "('f core \<Rightarrow> predicate) \<Rightarrow> (predicate \<Rightarrow> 'f core) \<Rightarrow> 'f host_call list \<Rightarrow> 'f customizable \<Rightarrow> 'f pg_select \<Rightarrow> 'f pg_select" where
  "sl_effect compiled expression calls cu sl =
     sl\<lparr>sl_where := sl_where sl @ map compiled (added_predicates expression calls),
        sl_custom := registry_of (cu_predicates cu @ added_predicates expression calls),
        sl_order := sl_order sl @ added_terms calls,
        sl_first := last (sl_first sl # [v. First_Call v \<leftarrow> calls]),
        sl_offset := last (sl_offset sl # [v. Offset_Call v \<leftarrow> calls])\<rparr>"

text \<open>What the constructor establishes, and every call keeps.\<close>

definition sl_built :: "('f core \<Rightarrow> predicate) \<Rightarrow> 'f customizable \<Rightarrow> 'f pg_select \<Rightarrow> bool" where
  "sl_built compiled cu sl \<longleftrightarrow>
     cu_registry cu = registry_of (cu_predicates cu)
     \<and> sl_where sl = map compiled (cu_predicates cu) \<and> sl_custom sl = cu_registry cu
     \<and> sl_order sl \<noteq> []
     \<and> (sl_unique sl \<or> (\<exists>t \<in> set (sl_order sl). ot_column t = rs_primary_key (sl_resource sl)))
     \<and> assert_order_terms_stored (sl_resource sl) (sl_order sl) = Inr ()"

lemma normalized_order:
  "normalize_order order_by pk unique \<noteq> []"
  "unique \<or> (\<exists>t \<in> set (normalize_order order_by pk unique). ot_column t = pk)"
  by (auto simp: normalize_order_def Let_def ascending_def)

lemma make_select_built:
  assumes "make_select rs m order_by unique first offset specs (map compiled (cu_predicates cu)) (cu_registry cu) = Inr sl"
    and "cu_registry cu = registry_of (cu_predicates cu)"
  shows "sl_built compiled cu sl" and "sl_resource sl = rs"
  using assms normalized_order(1) normalized_order(2) [of unique order_by "rs_primary_key rs"]
  by (auto simp: make_select_def sl_built_def Let_def bind_res_Inr_iff)

lemma normalize_order_extended:
  assumes "ts \<noteq> []" and "unique \<or> (\<exists>t \<in> set ts. ot_column t = pk)"
  shows "normalize_order (map Inr ts @ [t]) pk unique = ts @ [case_sum ascending id t]"
  using assms by (auto simp: normalize_order_def o_def Let_def)

lemma tree_call_iff: "where_tree expression c st = Inr st' \<longleftrightarrow>
    (\<exists>p. compile_condition c = Inr p \<and> add_where (Core_Expr (expression p)) st = Inr st')"
  by (auto simp: where_tree_def bind_res_Inr_iff)

lemmas effect_defs = cu_effect_def sl_effect_def added_predicates_def added_terms_def

lemma select_call_iff:
  assumes "sl_built compiled cu sl"
  shows "builder_call (select_surface compiled expression) call (cu, sl) = Inr st
    \<longleftrightarrow> call_allowed (sl_resource sl) expression call
      \<and> st = (cu_effect expression [call] cu, sl_effect compiled expression [call] cu sl)"
proof (cases call)
  case (Order_Call t)
  have "normalize_order (map Inr (sl_order sl) @ [t]) (rs_primary_key (sl_resource sl)) (sl_unique sl)
      = sl_order sl @ [case_sum ascending id t]"
    using assms by (intro normalize_order_extended) (auto simp: sl_built_def)
  with Order_Call assms show ?thesis
    by (cases cu; cases sl)
      (auto simp: builder_order_by_def select_surface_def sl_add_order_term_def map_sum_Inr bind_res_Inr_iff Let_def
        order_terms_stored_iff sl_built_def effect_defs)
next
  case (Where_Call h)
  with assms show ?thesis
    by (cases cu; cases sl) (auto simp: builder_where_def select_surface_def map_sum_Inr bind_res_Inr_iff check_predicate_iff add_where_Inr
        sl_fold_def effect_defs registry_of_snoc sl_built_def simp del: check_predicate.simps)
next
  case (Tree_Call c)
  with assms show ?thesis
    by (cases cu; cases sl) (auto simp: builder_where_tree_def select_surface_def map_sum_Inr tree_call_iff add_where_Inr
        sl_fold_def effect_defs registry_of_snoc sl_built_def)
next
  case (First_Call v)
  with assms show ?thesis
    by (cases cu; cases sl) (auto simp: builder_set_first_def require_capability_def select_surface_def sl_set_first_def
        effect_defs sl_built_def)
next
  case (Offset_Call v)
  with assms show ?thesis
    by (cases cu; cases sl) (auto simp: builder_set_offset_def require_capability_def select_surface_def sl_set_offset_def
        effect_defs sl_built_def)
qed

lemma effect_built:
  assumes "sl_built compiled cu sl" and "call_allowed (sl_resource sl) expression call"
  shows "sl_built compiled (cu_effect expression [call] cu) (sl_effect compiled expression [call] cu sl)"
    and "sl_resource (sl_effect compiled expression [call] cu sl) = sl_resource sl"
  using assms by (cases call; auto simp: sl_built_def effect_defs order_terms_stored_iff)+

lemma effect_chain:
  "cu_effect expression calls (cu_effect expression [call] cu) = cu_effect expression (call # calls) cu"
  "sl_effect compiled expression calls (cu_effect expression [call] cu) (sl_effect compiled expression [call] cu sl)
     = sl_effect compiled expression (call # calls) cu sl"
  by (cases call; simp add: effect_defs)+

lemma select_calls_iff:
  assumes "sl_built compiled cu sl"
  shows "builder_apply (select_surface compiled expression) calls (cu, sl) = Inr st
    \<longleftrightarrow> list_all (call_allowed (sl_resource sl) expression) calls
      \<and> st = (cu_effect expression calls cu, sl_effect compiled expression calls cu sl)"
  using assms
proof (induction calls arbitrary: cu sl)
  case Nil
  then show ?case by (cases st) (auto simp: effect_defs sl_built_def)
next
  case (Cons call calls)
  show ?case
  proof (cases "call_allowed (sl_resource sl) expression call")
    case True
    then have "builder_call (select_surface compiled expression) call (cu, sl)
        = Inr (cu_effect expression [call] cu, sl_effect compiled expression [call] cu sl)"
      using select_call_iff [OF Cons.prems] by blast
    with True Cons.IH [OF effect_built(1) [OF Cons.prems True]] effect_built(2) [OF Cons.prems True]
    show ?thesis by (simp add: effect_chain)
  next
    case False
    then show ?thesis using select_call_iff [OF Cons.prems, of expression call] by (auto simp: bind_res_Inr_iff)
  qed
qed

text \<open>The primary key decides between any two rows, so a term behind it never does.\<close>

lemma terms_behind_the_key:
  assumes "t \<in> set ts" and "r (ot_column t) \<noteq> s (ot_column t)"
  shows "terms_before (ts @ us) r s = terms_before ts r s"
  using assms
proof (induction ts)
  case (Cons u ts)
  then show ?case by (cases "u = t") (auto simp: term_before_def cell_before_def split: option.splits)
qed simp

end
