(* ===== verification/Customize_Properties.thy ===== *)
theory Customize_Properties
  imports Pg_Builder Connection_Properties
begin

text \<open>
  The customization of a select by its host: a cached plan is filtered by each request's own customizer,
  merged steps filter alike, and what a host's builder makes of a step is what its calls say. What the keys that
  tell plans and steps apart leave out is shown by example.
\<close>

section \<open>Cached and merged steps\<close>

lemma matched_keys:
  assumes hit: "customizer_structure_matches D context n st = (Inr True, n1)"
    and cz: "cu_customizer st = Some (ident, cz)"
    and own: "seed_resource_customization (Some (ident, cz)) context n = (Inr own, n2)"
  shows "map (own_key D) (customizer_predicates st) = map (own_key D) (cu_predicates own)"
    and "cu_registry own = registry_of (cu_predicates own)"
  using seed_Inr [OF own] hit cz
  by (auto simp: customizer_structure_matches_def fresh_keys_def simp del: resolve_customizer_predicates.simps)

text \<open>C23: a request that is served a cached plan is filtered by its own customizer. Let a step have been built
  for some request, whatever \<open>.where()\<close>s and signatures came after, and let the hit guard accept it for another
  request. Then that request's execution has a value for every placeholder of the step, and on every row each of the
  step's customizer predicates has the value of the predicate the request's own customizer gives, under the parameters
  of a step planned for it. The texts the compiler prints decide what they mean, placeholder tags are plain, transforms
  of one key do one thing and placeholders of one token have one type.\<close>

theorem cached_scope_is_own:
  assumes st: "customized D st" and cz: "cu_customizer st = Some (ident, cz)"
    and hit: "customizer_structure_matches D context n st = (Inr True, n1)"
    and own: "seed_resource_customization (Some (ident, cz)) context n = (Inr own, n2)"
    and params': "where_params call context source_values (cu_registry own) = Inr params'"
    and extra: "\<forall>b \<in> binds_of (drop (cu_count st) (cu_predicates st)). bp_source b \<noteq> None
      \<longrightarrow> (\<exists>v. bind_result call context source_values b = Inr v)"
    and names: "names_own (binds_of (cu_predicates st))" "names_own (binds_of (cu_predicates own))"
    and shape: "same_shape D call m (customizer_predicates st) (cu_predicates own)"
  shows "\<exists>params. where_params call context source_values (cu_registry st) = Inr params
    \<and> map (core_value m (executed_value params)) (customizer_predicates st)
      = map (core_value m (executed_value params')) (cu_predicates own)"
proof -
  note keys = matched_keys(1) [OF hit cz own] and reg' = matched_keys(2) [OF hit cz own]
  have reg: "cu_registry st = registry_of (cu_predicates st)"
    using customized_ok [OF st] by (simp add: customizable_ok_def)
  have all': "bind_result call context source_values b = Inr (executed_value params' b)"
    if "b \<in> binds_of (cu_predicates own)" for b
    using where_params_values [OF names(2) [unfolded binds_of_def] params' [unfolded reg']] that
    by (auto simp: binds_of_def)
  have "\<exists>params. where_params call context source_values (registry_of (cu_predicates st)) = Inr params"
  proof (rule where_params_exist [OF names(1) [unfolded binds_of_def]])
    fix e b assume e: "e \<in> set (cu_predicates st)" "b \<in> tree_binds e" "bp_source b \<noteq> None"
    have "e \<in> set (customizer_predicates st) \<or> e \<in> set (drop (cu_count st) (cu_predicates st))"
      using e(1) by (metis Un_iff append_take_drop_id customizer_predicates_def set_append)
    then consider "b \<in> binds_of (customizer_predicates st)" | "b \<in> binds_of (drop (cu_count st) (cu_predicates st))"
      using e(2) by (auto simp: binds_of_def)
    then show "\<exists>v. bind_result call context source_values b = Inr v"
    proof cases
      case 1
      from same_keys_same_binds [OF keys shape 1 e(3)] obtain b' where b': "b' \<in> binds_of (cu_predicates own)"
        "bind_result call context source_values b = bind_result call context source_values b'" by blast
      from b'(2) all' [OF b'(1)] show ?thesis by simp
    next
      case 2
      with extra e(3) show ?thesis by blast
    qed
  qed
  then obtain params where params: "where_params call context source_values (registry_of (cu_predicates st)) = Inr params" ..
  have "bind_result call context source_values b = Inr (executed_value params b)"
    if "b \<in> binds_of (customizer_predicates st)" for b
    using where_params_values [OF names(1) [unfolded binds_of_def] params] that
    by (auto simp: binds_of_def customizer_predicates_def dest: in_set_takeD)
  from same_keys_same_values [OF keys shape this all'] params show ?thesis by (auto simp: reg)
qed

text \<open>Two steps of one request that are merged, by equal signatures, filter every row alike.\<close>

lemma merged_steps_filter_alike:
  assumes "customized D st" and "customized D st'"
    and sig: "fst (customization_signature D st) = fst (customization_signature D st')"
    and params: "where_params call context source_values (cu_registry st) = Inr params"
      "where_params call context source_values (cu_registry st') = Inr params'"
    and names: "names_own (binds_of (cu_predicates st))" "names_own (binds_of (cu_predicates st'))"
    and shape: "same_shape D call m (cu_predicates st) (cu_predicates st')"
  shows "map (core_value m (executed_value params)) (cu_predicates st)
       = map (core_value m (executed_value params')) (cu_predicates st')"
proof (rule same_keys_same_values [OF _ shape])
  show "map (own_key D) (cu_predicates st) = map (own_key D) (cu_predicates st')"
    using sig names assms(1,2) by (simp add: signature_is_current signature_keys binds_of_def)
  show "bind_result call context source_values b = Inr (executed_value params b)" if "b \<in> binds_of (cu_predicates st)" for b
    using where_params_values [OF names(1) [unfolded binds_of_def]] params(1) that customized_ok [OF assms(1)]
    by (auto simp: binds_of_def customizable_ok_def)
  show "bind_result call context source_values b = Inr (executed_value params' b)" if "b \<in> binds_of (cu_predicates st')" for b
    using where_params_values [OF names(2) [unfolded binds_of_def]] params(2) that customized_ok [OF assms(2)]
    by (auto simp: binds_of_def customizable_ok_def)
qed

section \<open>A small compiler\<close>

text \<open>It prints a string quoted, other values as \<open>?\<close>; the callables are three functions: two that differ in
  the method they name and one in its constants.\<close>

fun show_core :: "'f core \<Rightarrow> string" where
  "show_core (Bind_Param b) = (case bp_value b of VStr s \<Rightarrow> CHR 0x27 # s @ [CHR 0x27] | _ \<Rightarrow> ''?'')"
| "show_core (Literal_Column t) = t"
| "show_core (Clause c es) = c @ ''('' @ concat (map (\<lambda>e. show_core e @ '','') es) @ '')''"

definition small_compiler :: "nat compiler" where
  "small_compiler =
     \<lparr>literal_sql = (\<lambda>e. Some (show_core e)), plain_sql = (\<lambda>e. (show_core e, [])), repr_value = (\<lambda>v. ''?''),
      repr_strings = (\<lambda>ss. ''['' @ concat (map (\<lambda>s. s @ '','') ss) @ '']''), repr_pairs = (\<lambda>ps. ''()''),
      inspect = (\<lambda>f. Function ''load call return'' ''(None,)'' [if f = 0 then ''upper'' else ''lower''] ''None'' ''None'' [])\<rparr>"

text \<open>A row of tenant 2: equality of the two sides, the column's value, a bind as it is.\<close>

definition tenant_row :: "pyval meaning" where
  "tenant_row =
     \<lparr>clause_value = (\<lambda>c vs. VBool (case vs of [a, b] \<Rightarrow> py_eq a b | _ \<Rightarrow> False)), text_value = (\<lambda>t. VInt 2),
      bound_value = (\<lambda>ty v. v)\<rparr>"

definition tenant_predicate :: "string option \<Rightarrow> nat option \<Rightarrow> nat \<Rightarrow> nat core" where
  "tenant_predicate ty f n =
     Clause ''='' [Literal_Column ''tenant'', Bind_Param (fst (context_placeholder ''tenant'' ty f n))]"

definition tenant_scope :: "nat customizer" where
  "tenant_scope = Two_Arg (\<lambda>context placeholder n.
     (Inr [Core_Expr (Clause ''='' [Literal_Column ''tenant'', Bind_Param (fst (placeholder ''tenant'' None None n))])], n + 1))"

lemma tenant_binds [simp]:
  "tree_binds (tenant_predicate ty f n) = {fst (context_placeholder ''tenant'' ty f n)}"
  "core_binds (tenant_predicate ty f n) = [fst (context_placeholder ''tenant'' ty f n)]"
  by (simp_all add: tenant_predicate_def core_binds_def)

lemma tenant_placeholder:
  "fst (context_placeholder ''tenant'' ty f n) =
     \<lparr>bp_name = ''grafast_ph_'' @ show_nat n, bp_type = ty, bp_source = Some ''ctx:tenant'', bp_transform = f,
      bp_value = VNone, bp_required = False\<rparr>"
  by (simp add: context_placeholder_def pg_placeholder_def)

lemma tenant_safe: "safe_predicate (tenant_predicate ty f n)"
  by (simp add: safe_predicate_def reserved_bind_names_def tenant_placeholder)

lemma tenant_sources: "placeholder_sources (tenant_predicate ty f n) = [''ctx:tenant'']"
  by (simp add: placeholder_sources_def tenant_placeholder)

lemma tenant_sentinels:
  "sentinel_placeholders D (tenant_predicate ty f n) =
     Clause ''='' [Literal_Column ''tenant'', Literal_Column (sentinel_token D ''ctx:tenant'' f)]"
  by (simp add: tenant_predicate_def tenant_placeholder)

lemma tenant_seed:
  "seed_resource_customization (Some (0, tenant_scope)) c n =
     (Inr \<lparr>cu_customizer = Some (0, tenant_scope), cu_predicates = [tenant_predicate None None n],
        cu_bakes_literal = False, cu_count = 1, cu_registry = registry_of [tenant_predicate None None n],
        cu_signature = None\<rparr>, n + 1)"
proof -
  have "produce tenant_scope c n = (Inr [Core_Expr (tenant_predicate None None n)], n + 1)"
    by (simp add: tenant_scope_def tenant_predicate_def)
  moreover have "check_predicate (Core_Expr (tenant_predicate None None n)) = Inr (tenant_predicate None None n)"
    by (simp only: check_predicate_iff tenant_safe)
  moreover have "\<not> predicate_bakes_literal (tenant_predicate None None n)"
    by (simp add: predicate_bakes_literal_def tenant_placeholder)
  ultimately show ?thesis by (simp add: init_customization_eq del: check_predicate.simps)
qed

lemma tenant_key: "own_key D (tenant_predicate ty f n) = own_key D (tenant_predicate ty' f n')"
  by (simp add: own_key_printed tenant_sentinels suffix_of_def tenant_sources tenant_placeholder)

lemma tenant_matches:
  assumes "cu_customizer st = Some (0, tenant_scope)" and "customizer_predicates st = [tenant_predicate None None k]"
  shows "customizer_structure_matches D c n st = (Inr True, n + 1)"
proof -
  have "resolve_customizer_predicates (Some tenant_scope) c n = (Inr ([tenant_predicate None None n], False), n + 1)"
    using seed_Inr [OF tenant_seed [of c n]] by auto
  with assms tenant_key [of D None None n None k] show ?thesis
    by (simp add: customizer_structure_matches_def fresh_keys_def del: resolve_customizer_predicates.simps)
qed

lemma tenant_texts: "texts (tenant_predicate ty f n) = {''tenant''}"
  by (simp add: tenant_predicate_def)

lemma tenant_tokens: "tokens D (tenant_predicate ty f n) = {sentinel_token D ''ctx:tenant'' f}"
  by (auto simp: tokens_def token_of_def tenant_placeholder)

lemma tenant_decides: "text_decides small_compiler m (tenant_predicate ty None k) (tenant_predicate ty' None n)"
  unfolding text_decides_def tenant_sentinels tenant_sources tenant_texts tenant_tokens suffix_of_def
  by (simp add: small_compiler_def printed_def sentinel_token_def)

lemma tenant_shape:
  "same_shape small_compiler call m [tenant_predicate ty None k] [tenant_predicate ty None n]"
  by (simp add: same_shape_def tenant_decides binds_of_def plain_tags_def tokens_faithful_def tenant_placeholder)

text \<open>A step planned for tenant 1 serves tenant 2, and keeps tenant 2's row.\<close>

lemma cached_scope_is_own_witness:
  "\<exists>st own params params'.
     seed_resource_customization (Some (0, tenant_scope)) (VDict [(''tenant'', VInt 1)]) 0 = (Inr st, 1)
   \<and> seed_resource_customization (Some (0, tenant_scope)) (VDict [(''tenant'', VInt 2)]) 7 = (Inr own, 8)
   \<and> where_params (\<lambda>f v. Inr v) (VDict [(''tenant'', VInt 2)]) [] (cu_registry st) = Inr params
   \<and> where_params (\<lambda>f v. Inr v) (VDict [(''tenant'', VInt 2)]) [] (cu_registry own) = Inr params'
   \<and> map (core_value tenant_row (executed_value params)) (customizer_predicates st)
     = map (core_value tenant_row (executed_value params')) (cu_predicates own)
   \<and> map (core_value tenant_row (executed_value params')) (cu_predicates own) = [VBool True]"
proof -
  let ?c = "VDict [(''tenant'', VInt 2)]" and ?call = "\<lambda>(f :: nat) v. Inr v :: pyval res"
  obtain st where st: "seed_resource_customization (Some (0, tenant_scope)) (VDict [(''tenant'', VInt 1)]) 0 = (Inr st, 1)"
    and st': "cu_customizer st = Some (0, tenant_scope)" "cu_predicates st = [tenant_predicate None None 0]"
      "customizer_predicates st = [tenant_predicate None None 0]" "cu_count st = 1"
    using tenant_seed [of _ 0] by (auto simp: customizer_predicates_def)
  obtain own where own: "seed_resource_customization (Some (0, tenant_scope)) ?c 7 = (Inr own, 8)"
    and own': "cu_predicates own = [tenant_predicate None None 7]" "cu_registry own = registry_of [tenant_predicate None None 7]"
    using tenant_seed [of ?c 7] by auto
  let ?p = "[(''grafast_ph_'' @ show_nat 7, VInt 2)]"
  have p: "where_params ?call ?c [] (cu_registry own) = Inr ?p"
    by (simp add: own' registry_of_def all_binds_def tenant_placeholder where_params_def source_value_def is_ctx_source_def)
  have "customized small_compiler st" by (rule Seeded [OF st])
  moreover have "customizer_structure_matches small_compiler ?c 7 st = (Inr True, 7 + 1)"
    by (rule tenant_matches [OF st'(1,3)])
  moreover have "same_shape small_compiler ?call tenant_row (customizer_predicates st) (cu_predicates own)"
    unfolding st' own' by (rule tenant_shape)
  ultimately obtain params where params: "where_params ?call ?c [] (cu_registry st) = Inr params"
      "map (core_value tenant_row (executed_value params)) (customizer_predicates st)
        = map (core_value tenant_row (executed_value ?p)) (cu_predicates own)"
    using cached_scope_is_own [OF _ st'(1) _ own p] by (simp add: st' own' binds_of_def names_own_def) blast
  have kept: "map (core_value tenant_row (executed_value ?p)) (cu_predicates own) = [VBool True]"
    by (simp add: own' tenant_predicate_def tenant_placeholder tenant_row_def executed_value_def)
  show ?thesis
    by (rule exI [of _ st], rule exI [of _ own], rule exI [of _ params], rule exI [of _ ?p])
      (intro conjI st own p params kept)
qed

section \<open>What the keys leave out\<close>

text \<open>The bytecode of a function holds the positions of the names it refers to: \<open>lambda v: v.upper()\<close> and
  \<open>lambda v: v.lower()\<close> have one bytecode and one tuple of constants. Their keys are equal, and with them the
  keys of two predicates that bind different values.\<close>

definition change_case :: "nat \<Rightarrow> pyval \<Rightarrow> pyval res" where
  "change_case f v = Inr (VStr (if f = 0 then ''AB'' else ''ab''))"

lemma transform_keys_collide:
  "inspect small_compiler 0 \<noteq> inspect small_compiler 1
   \<and> transform_key small_compiler 0 = transform_key small_compiler 1
   \<and> own_key small_compiler (tenant_predicate None (Some 0) m) = own_key small_compiler (tenant_predicate None (Some 1) n)
   \<and> map (\<lambda>f. bind_result change_case (VDict [(''tenant'', VStr ''Ab'')]) []
           (fst (context_placeholder ''tenant'' None (Some f) 0))) [0, 1] = [Inr (VStr ''AB''), Inr (VStr ''ab'')]"
proof (intro conjI)
  show "own_key small_compiler (tenant_predicate None (Some 0) m) = own_key small_compiler (tenant_predicate None (Some 1) n)"
    by (simp add: own_key_printed tenant_sentinels suffix_of_def tenant_sources tenant_placeholder sentinel_token_def
      small_compiler_def transform_key_def)
qed (simp_all add: small_compiler_def transform_key_def bind_result_def tenant_placeholder source_value_def is_ctx_source_def
    change_case_def)

text \<open>The type of a placeholder is not part of its token.\<close>

lemma placeholder_type_not_in_key:
  "own_key D (tenant_predicate (Some ''Integer'') f m) = own_key D (tenant_predicate (Some ''String'') f n)
   \<and> bp_type (fst (context_placeholder ''tenant'' (Some ''Integer'') f m))
       \<noteq> bp_type (fst (context_placeholder ''tenant'' (Some ''String'') f n))"
  using tenant_key by (simp add: tenant_placeholder)

text \<open>A bind named like a parameter of the connection's skeleton passes the check, and is executed with the
  skeleton's value.\<close>

lemma skeleton_bind_is_taken:
  fixes b :: "'f bind_param"
  assumes "b = \<lparr>bp_name = ''page_limit'', bp_type = None, bp_source = None, bp_transform = None, bp_value = v,
      bp_required = False\<rparr>"
  shows "check_predicate (Core_Expr (Bind_Param b)) = Inr (Bind_Param b)
    \<and> executed_value ((''page_limit'', w) # params) b = w"
  by (simp add: assms check_predicate_iff safe_predicate_def reserved_bind_names_def executed_value_def
    del: check_predicate.simps)

section \<open>The builder\<close>

lemma both_where: "where_true sv params (ps @ qs) r \<longleftrightarrow> where_true sv params ps r \<and> where_true sv params qs r"
  by (auto simp: where_true_def)

lemma allowed_safe:
  "list_all (call_allowed rs expression) calls \<Longrightarrow> e \<in> set (added_predicates expression calls) \<Longrightarrow> safe_predicate e"
proof (induction calls)
  case (Cons call calls)
  then show ?case by (cases call) (auto simp: added_predicates_def split: sum.splits)
qed (simp add: added_predicates_def)

text \<open>C24: what a host's callback makes of a select it is handed as built. It goes through exactly when every
  predicate it adds passes the check, every filter compiles to one that does and no ordering is by a computed
  column. Then, whatever the order of its calls: its predicates follow the WHERE list in call order, so a row is
  kept when the old list and all of them are true; its orderings follow the old ones, behind the tie-break; the
  page size and the offset are those of its last calls that set them; the registry of parameters is the new
  list's; the customizer's own predicates stay in front; the cached signature is dropped when a predicate was
  added, and nothing else of the step or of its customization changes.\<close>

theorem host_callback_effect:
  assumes "customized D cu"
    and "make_select rs m order_by unique first offset specs (map compiled (cu_predicates cu)) (cu_registry cu) = Inr sl"
    and "es = added_predicates expression calls"
  shows "(builder_apply (select_surface compiled expression) calls (cu, sl) = Inr (cu', sl')
      \<longleftrightarrow> list_all (call_allowed rs expression) calls
        \<and> cu' = cu\<lparr>cu_predicates := cu_predicates cu @ es, cu_registry := registry_of (cu_predicates cu @ es),
                   cu_signature := (if es = [] then cu_signature cu else None)\<rparr>
        \<and> sl' = sl\<lparr>sl_where := sl_where sl @ map compiled es, sl_custom := registry_of (cu_predicates cu @ es),
                   sl_order := sl_order sl @ [case_sum ascending id t. Order_Call t \<leftarrow> calls],
                   sl_first := last (first # [v. First_Call v \<leftarrow> calls]),
                   sl_offset := last (offset # [v. Offset_Call v \<leftarrow> calls])\<rparr>)
    \<and> (builder_apply (select_surface compiled expression) calls (cu, sl) = Inr (cu', sl')
      \<longrightarrow> customizer_predicates cu' = customizer_predicates cu \<and> (\<forall>e \<in> set es. safe_predicate e)
        \<and> (\<forall>sv params r. where_true sv params (sl_where sl') r
              \<longleftrightarrow> where_true sv params (sl_where sl) r \<and> where_true sv params (map compiled es) r))"
proof -
  have ok: "cu_registry cu = registry_of (cu_predicates cu)" "cu_count cu \<le> length (cu_predicates cu)"
    using customized_ok [OF assms(1)] by (simp_all add: customizable_ok_def)
  note built = make_select_built [OF assms(2) ok(1)]
  have sl: "sl_first sl = first" "sl_offset sl = offset"
    using assms(2) by (auto simp: make_select_def Let_def bind_res_Inr_iff)
  have effect: "builder_apply (select_surface compiled expression) calls (cu, sl) = Inr (cu', sl')
      \<longleftrightarrow> list_all (call_allowed rs expression) calls
        \<and> cu' = cu_effect expression calls cu \<and> sl' = sl_effect compiled expression calls cu sl"
    using select_calls_iff [OF built(1)] built(2) by simp
  have "customizer_predicates (cu_effect expression calls cu) = customizer_predicates cu"
    using ok(2) by (simp add: customizer_predicates_def cu_effect_def)
  moreover have "\<forall>e \<in> set es. safe_predicate e" if "list_all (call_allowed rs expression) calls"
    using allowed_safe [OF that] assms(3) by blast
  ultimately show ?thesis
    unfolding effect by (auto simp: cu_effect_def sl_effect_def added_terms_def both_where assms(3) sl)
qed

definition tenant_select :: "nat pg_select" where
  "tenant_select = \<lparr>sl_resource = books, sl_match = [''author''], sl_unique = False, sl_order = [ascending ''id''],
     sl_first = Plain (VInt 9), sl_offset = Plain (VInt 0), sl_inline = [], sl_where = [True_Const],
     sl_custom = registry_of [tenant_predicate None None 0]\<rparr>"

text \<open>Calls in any order: the last page size stands, also when it is none, and the offset is the offset.\<close>

lemma host_callback_effect_witness:
  "\<exists>cu cu' sl'. customized small_compiler cu
     \<and> builder_apply (select_surface (\<lambda>e. True_Const) (\<lambda>p. Literal_Column ''false''))
         [First_Call (Plain (VInt 3)), Where_Call (Core_Expr (tenant_predicate None None 5)), Offset_Call (Plain (VInt 1)),
          Order_Call (Inl ''author''), First_Call (Plain VNone)]
         (cu, tenant_select) = Inr (cu', sl')
     \<and> cu_predicates cu' = [tenant_predicate None None 0, tenant_predicate None None 5]
     \<and> sl_first sl' = Plain VNone \<and> sl_offset sl' = Plain (VInt 1) \<and> sl_order sl' = [ascending ''id'', ascending ''author'']
     \<and> sl_where sl' = [True_Const, True_Const]"
proof -
  let ?cu = "\<lparr>cu_customizer = Some (0, tenant_scope), cu_predicates = [tenant_predicate None None 0],
        cu_bakes_literal = False, cu_count = 1, cu_registry = registry_of [tenant_predicate None None 0],
        cu_signature = None\<rparr>"
  let ?calls = "[First_Call (Plain (VInt 3)), Where_Call (Core_Expr (tenant_predicate None None 5)), Offset_Call (Plain (VInt 1)),
      Order_Call (Inl ''author''), First_Call (Plain VNone)]"
  have cu: "customized small_compiler ?cu" by (rule Seeded [OF tenant_seed])
  have sl: "make_select books (Inl ''author'') [] False (Plain (VInt 9)) (Plain (VInt 0)) []
      (map (\<lambda>e. True_Const) (cu_predicates ?cu)) (cu_registry ?cu) = Inr tenant_select"
    by (simp add: make_select_def as_match_columns_def normalize_order_def tenant_select_def books_def plain_column_def as_column_def is_computed_def ascending_def)
  have allowed: "list_all (call_allowed books (\<lambda>p. Literal_Column ''false'')) ?calls"
    by (simp add: tenant_safe books_def plain_column_def as_column_def is_computed_def ascending_def)
  have "added_predicates (\<lambda>p. Literal_Column ''false'') ?calls = [tenant_predicate None None 5]"
    by (simp add: added_predicates_def)
  from host_callback_effect [OF cu sl this [symmetric], THEN conjunct1, THEN iffD2, OF conjI [OF allowed conjI [OF refl refl]]] cu
  show ?thesis by (intro exI conjI) (assumption | simp add: tenant_select_def)+
qed

text \<open>An ordering a host adds comes behind the primary key the step's own ordering ends with, and so never
  decides: the rows are ordered as without it.\<close>

lemma host_order_never_decides:
  fixes r s :: "string \<Rightarrow> 'v::linorder option"
  assumes "make_select rs m order_by False first offset specs wps custom = Inr sl"
    and "sl_add_order_term t sl = Inr sl'" and "\<forall>u \<in> set (sl_order sl'). valid_term u"
    and "r (rs_primary_key rs) \<noteq> s (rs_primary_key rs)"
  shows "row_before (order_clauses (sl_order sl')) r s = row_before (order_clauses (sl_order sl)) r s"
proof -
  have sl: "sl_resource sl = rs" "sl_unique sl = False" "sl_order sl = normalize_order order_by (rs_primary_key rs) False"
    using assms(1) by (auto simp: make_select_def Let_def bind_res_Inr_iff)
  then obtain k where k: "k \<in> set (sl_order sl)" "ot_column k = rs_primary_key rs"
    using normalized_order(2) [of False order_by "rs_primary_key rs"] by auto
  have "sl_order sl' = sl_order sl @ [case_sum ascending id t]"
  proof -
    have "normalize_order (map Inr (sl_order sl) @ [t]) (rs_primary_key rs) False = sl_order sl @ [case_sum ascending id t]"
      using k by (intro normalize_order_extended) auto
    then show ?thesis using assms(2) sl(1,2) by (auto simp: sl_add_order_term_def Let_def bind_res_Inr_iff)
  qed
  with assms(3,4) k terms_behind_the_key [OF k(1), of r s] show ?thesis by (simp add: row_before_terms)
qed

lemma host_order_never_decides_witness:
  "row_before (order_clauses [ascending ''id'', ascending ''author'']) (\<lambda>c. Some (if c = ''id'' then 2 else 1 :: nat)) (\<lambda>c. Some (if c = ''id'' then 1 else 2))
   = row_before (order_clauses [ascending ''id'']) (\<lambda>c. Some (if c = ''id'' then 2 else 1 :: nat)) (\<lambda>c. Some (if c = ''id'' then 1 else 2))"
proof -
  have sl: "make_select books (Inl ''author'') [] False (Plain VNone) (Plain (VInt 0)) [] [] (registry_of [tenant_predicate None None 0])
      = Inr (tenant_select\<lparr>sl_first := Plain VNone, sl_where := []\<rparr>)"
    by (simp add: make_select_def as_match_columns_def normalize_order_def tenant_select_def books_def plain_column_def as_column_def is_computed_def ascending_def)
  have order: "sl_add_order_term (Inl ''author'') (tenant_select\<lparr>sl_first := Plain VNone, sl_where := []\<rparr>)
      = Inr (tenant_select\<lparr>sl_first := Plain VNone, sl_where := [], sl_order := [ascending ''id'', ascending ''author'']\<rparr>)"
    by (simp add: sl_add_order_term_def normalize_order_def tenant_select_def books_def plain_column_def as_column_def is_computed_def ascending_def)
  from host_order_never_decides [OF sl order, of "\<lambda>c. Some (if c = ''id'' then 2 else 1 :: nat)" "\<lambda>c. Some (if c = ''id'' then 1 else 2)"]
  show ?thesis by (simp add: tenant_select_def books_def ascending_def valid_term_def)
qed

text \<open>A root collection and a connection also keep all but their ordering, page, WHERE list and registry, and
  extend the list; a connection's builder refuses an offset.\<close>

lemma root_host_keeps_the_rest:
  assumes "builder_apply (select_all_surface compiled expression) calls s = Inr t"
  shows "select_all_kept compiled s t"
  by (rule select_all_builder.apply_keeps) (rule assms)

lemma connection_host_keeps_the_rest:
  assumes "builder_apply (connection_surface sha256 compiled expression) calls s = Inr t"
  shows "connection_kept compiled s t \<and> (\<forall>v. Offset_Call v \<notin> set calls)"
proof
  show "connection_kept compiled s t" by (rule connection_builder.apply_keeps) (rule assms)
  show "\<forall>v. Offset_Call v \<notin> set calls"
    using assms
    by (induction calls arbitrary: s)
      (auto simp: bind_res_Inr_iff builder_set_offset_def require_capability_def connection_surface_def)
qed

end
