(* ===== verification/Incremental.thy ===== *)
theory Incremental
  imports Execute
begin

text \<open>
  Incremental delivery (\<open>src/src/grafast_py/incremental.py\<close>): the record graph \<open>IncGraph\<close> of deferred
  fragments, execution groups and streams, the publisher that turns completed records into payloads, and
  the pump of a stream. Early execution is off. What a record never changes (its parent, path, label,
  a group's fragments and its batch) is a function of its reference, the world; what the records and the
  graph change is state. A node's \<open>id\<close> is the number the publisher gave it.
\<close>

section \<open>Records\<close>

datatype inc_node = Frag nat | Strm nat

datatype inc_record = Group_Rec nat | Stream_Rec nat

record inc_world =
  w_parent :: "nat \<Rightarrow> nat option"
  w_path :: "inc_node \<Rightarrow> seg list"
  w_label :: "inc_node \<Rightarrow> string option"
  w_members :: "nat \<Rightarrow> nat list"
  w_spec :: "nat \<Rightarrow> nat"

text \<open>\<open>gr_ref\<close> is the identity of the result object.\<close>

record 'e group_result =
  gr_ref :: nat
  gr_group :: nat
  gr_path :: "seg list"
  gr_data :: pyval
  gr_errors :: "'e list"
  gr_failed :: bool
  gr_children :: "inc_record list"

record 'e stream_batch =
  sb_stream :: nat
  sb_items :: "pyval list"
  sb_errors :: "'e list"
  sb_children :: "inc_record list"
  sb_done :: bool

datatype 'e inc_completed = Group_Done "'e group_result" | Batch_Done "'e stream_batch"

section \<open>The graph\<close>

text \<open>The dicts used as ordered sets are lists; the attributes of the fragments are kept by reference.\<close>

record 'e inc_graph =
  ig_roots :: "inc_node list"
  ig_queue :: "'e inc_completed list"
  ig_runs :: "nat list"
  ig_tasks :: "nat list list"
  ig_pumps :: "nat list"
  ig_children :: "(nat \<times> inc_node list) list"
  ig_pending :: "(nat \<times> nat list) list"
  ig_success :: "(nat \<times> 'e group_result list) list"

definition new_graph :: "'e inc_graph" where
  "new_graph = \<lparr>ig_roots = [], ig_queue = [], ig_runs = [], ig_tasks = [], ig_pumps = [], ig_children = [],
     ig_pending = [], ig_success = []\<rparr>"

definition add_key :: "'a \<Rightarrow> 'a list \<Rightarrow> 'a list" where
  "add_key k ks = (if k \<in> set ks then ks else ks @ [k])"

fun at_ref :: "(nat \<times> 'a list) list \<Rightarrow> nat \<Rightarrow> 'a list" where
  "at_ref [] r = []"
| "at_ref ((r', xs) # m) r = (if r' = r then xs else at_ref m r)"

fun put_ref :: "(nat \<times> 'a list) list \<Rightarrow> nat \<Rightarrow> 'a list \<Rightarrow> (nat \<times> 'a list) list" where
  "put_ref [] r xs = [(r, xs)]"
| "put_ref ((r', ys) # m) r xs = (if r' = r then (r', xs) # m else (r', ys) # put_ref m r xs)"

abbreviation kids :: "'e inc_graph \<Rightarrow> nat \<Rightarrow> inc_node list" where "kids g r \<equiv> at_ref (ig_children g) r"
abbreviation pend :: "'e inc_graph \<Rightarrow> nat \<Rightarrow> nat list" where "pend g r \<equiv> at_ref (ig_pending g) r"
abbreviation successes :: "'e inc_graph \<Rightarrow> nat \<Rightarrow> 'e group_result list" where "successes g r \<equiv> at_ref (ig_success g) r"

definition add_child :: "nat \<Rightarrow> inc_node \<Rightarrow> 'e inc_graph \<Rightarrow> 'e inc_graph" where
  "add_child p n g = g\<lparr>ig_children := put_ref (ig_children g) p (add_key n (kids g p))\<rparr>"

definition add_pending :: "nat \<Rightarrow> nat \<Rightarrow> 'e inc_graph \<Rightarrow> 'e inc_graph" where
  "add_pending x r g = g\<lparr>ig_pending := put_ref (ig_pending g) r (add_key x (pend g r))\<rparr>"

definition completes_root_node :: "inc_world \<Rightarrow> 'e inc_graph \<Rightarrow> nat \<Rightarrow> bool" where
  "completes_root_node w g x = (\<exists>r \<in> set (w_members w x). Frag r \<in> set (ig_roots g))"

definition on_execution_group :: "nat \<Rightarrow> 'e inc_graph \<Rightarrow> 'e inc_graph" where
  "on_execution_group x g = g\<lparr>ig_runs := ig_runs g @ [x]\<rparr>"

text \<open>\<open>_add_deferred_fragment_node\<close>: the depth is the recursion the interpreter allows; there is no dict of
  initial children when a group's revealed records are added.\<close>

fun add_fragment_node ::
  "nat \<Rightarrow> inc_world \<Rightarrow> nat \<Rightarrow> 'e inc_graph \<times> inc_node list option \<Rightarrow> ('e inc_graph \<times> inc_node list option) res" where
  "add_fragment_node depth w r (g, init) =
     (if Frag r \<in> set (ig_roots g) then Inr (g, init)
      else (case w_parent w r of
              None \<Rightarrow> (case init of
                  None \<Rightarrow> Inl (TypeError ''NoneType does not support item assignment'')
                | Some ks \<Rightarrow> Inr (g, Some (add_key (Frag r) ks)))
            | Some p \<Rightarrow> (case depth of
                  0 \<Rightarrow> Inl RecursionError
                | Suc d \<Rightarrow> add_fragment_node d w p (add_child p (Frag r) g, init))))"

declare add_fragment_node.simps [simp del]

fun add_group_to ::
  "nat \<Rightarrow> inc_world \<Rightarrow> nat \<Rightarrow> nat list \<Rightarrow> 'e inc_graph \<times> inc_node list option \<Rightarrow> ('e inc_graph \<times> inc_node list option) res" where
  "add_group_to depth w x [] st = Inr st"
| "add_group_to depth w x (r # rs) st =
     bind_res (add_fragment_node depth w r st) (\<lambda>(g, init). add_group_to depth w x rs (add_pending x r g, init))"

fun add_stream_to ::
  "nat \<Rightarrow> inc_world \<Rightarrow> nat \<Rightarrow> nat list \<Rightarrow> 'e inc_graph \<times> inc_node list option \<Rightarrow> ('e inc_graph \<times> inc_node list option) res" where
  "add_stream_to depth w s [] st = Inr st"
| "add_stream_to depth w s (p # ps) st =
     bind_res (add_fragment_node depth w p st) (\<lambda>(g, init). add_stream_to depth w s ps (add_child p (Strm s) g, init))"

definition add_record ::
  "nat \<Rightarrow> inc_world \<Rightarrow> nat list option \<Rightarrow> inc_record \<Rightarrow> 'e inc_graph \<times> inc_node list option
   \<Rightarrow> ('e inc_graph \<times> inc_node list option) res" where
  "add_record depth w parents rec st =
     (case rec of
        Group_Rec x \<Rightarrow> bind_res (add_group_to depth w x (w_members w x) st) (\<lambda>(g, init).
          Inr (if completes_root_node w g x then on_execution_group x g else g, init))
      | Stream_Rec s \<Rightarrow> (case parents of
          None \<Rightarrow> (case st of
              (g, Some ks) \<Rightarrow> Inr (g, Some (add_key (Strm s) ks))
            | (g, None) \<Rightarrow> Inl (TypeError ''NoneType does not support item assignment''))
        | Some ps \<Rightarrow> add_stream_to depth w s ps st))"

fun add_incremental_records ::
  "nat \<Rightarrow> inc_world \<Rightarrow> nat list option \<Rightarrow> inc_record list \<Rightarrow> 'e inc_graph \<times> inc_node list option
   \<Rightarrow> ('e inc_graph \<times> inc_node list option) res" where
  "add_incremental_records depth w parents [] st = Inr st"
| "add_incremental_records depth w parents (rec # recs) st =
     bind_res (add_record depth w parents rec st) (add_incremental_records depth w parents recs)"

section \<open>Promotion\<close>

text \<open>The pending groups of a promoted fragment that no root node has started.\<close>

fun start_groups :: "inc_world \<Rightarrow> nat list \<Rightarrow> 'e inc_graph \<Rightarrow> 'e inc_graph" where
  "start_groups w [] g = g"
| "start_groups w (x # xs) g =
     start_groups w xs (if completes_root_node w g x then g else on_execution_group x g)"

definition add_root :: "inc_node \<Rightarrow> 'e inc_graph \<Rightarrow> 'e inc_graph" where
  "add_root n g = g\<lparr>ig_roots := add_key n (ig_roots g)\<rparr>"

definition fresh_nodes :: "inc_node list \<Rightarrow> inc_node list \<Rightarrow> inc_node list" where
  "fresh_nodes maybe ns = foldl (\<lambda>acc c. if c \<in> set maybe \<or> c \<in> set acc then acc else acc @ [c]) [] ns"

text \<open>The deque of unprocessed nodes; \<open>maybe\<close> is the caller's dict, which collects the nodes seen.\<close>

lemma at_ref_in: "xs = at_ref m r \<Longrightarrow> xs \<noteq> [] \<Longrightarrow> xs \<in> snd ` set m"
  by (induction m r rule: at_ref.induct) (auto split: if_splits)

lemma start_groups_fields [simp]:
  "ig_children (start_groups w xs g) = ig_children g" "ig_pending (start_groups w xs g) = ig_pending g"
  "ig_success (start_groups w xs g) = ig_success g" "ig_roots (start_groups w xs g) = ig_roots g"
  "ig_queue (start_groups w xs g) = ig_queue g" "ig_tasks (start_groups w xs g) = ig_tasks g"
  "ig_pumps (start_groups w xs g) = ig_pumps g"
  by (induction xs arbitrary: g) (simp_all add: on_execution_group_def)

lemma fresh_nodes_spec: "distinct (fresh_nodes maybe ns)" "set (fresh_nodes maybe ns) = set ns - set maybe"
proof -
  have "distinct acc \<Longrightarrow> set acc \<inter> set maybe = {} \<Longrightarrow>
      distinct (foldl (\<lambda>acc c. if c \<in> set maybe \<or> c \<in> set acc then acc else acc @ [c]) acc ns)
      \<and> set (foldl (\<lambda>acc c. if c \<in> set maybe \<or> c \<in> set acc then acc else acc @ [c]) acc ns) = set acc \<union> (set ns - set maybe)" for acc
    by (induction ns arbitrary: acc) auto
  from this [of "[]"] show "distinct (fresh_nodes maybe ns)" "set (fresh_nodes maybe ns) = set ns - set maybe"
    by (simp_all add: fresh_nodes_def)
qed

function promote_loop ::
  "inc_world \<Rightarrow> inc_node list \<Rightarrow> inc_node list \<Rightarrow> inc_node list \<Rightarrow> 'e inc_graph
   \<Rightarrow> inc_node list \<times> inc_node list \<times> 'e inc_graph" where
  "promote_loop w [] maybe new_roots g = (maybe, new_roots, g)"
| "promote_loop w (Strm s # unprocessed) maybe new_roots g =
     promote_loop w unprocessed maybe (new_roots @ [Strm s]) ((add_root (Strm s) g)\<lparr>ig_pumps := ig_pumps g @ [s]\<rparr>)"
| "promote_loop w (Frag r # unprocessed) maybe new_roots g =
     (if pend g r \<noteq> [] then
        promote_loop w unprocessed maybe (new_roots @ [Frag r]) (add_root (Frag r) (start_groups w (pend g r) g))
      else let more = fresh_nodes maybe (kids g r)
           in promote_loop w (unprocessed @ more) (maybe @ more) new_roots g)"
  by pat_completeness auto
termination
proof (relation "measure (\<lambda>(w, un, maybe, new, g). length un + card (\<Union> (set ` snd ` set (ig_children g)) - set maybe))", goal_cases)
  case (4 w r un maybe new g more)
  let ?all = "\<Union> (set ` snd ` set (ig_children g))"
  have "set more \<subseteq> ?all"
    using at_ref_in [of "kids g r" "ig_children g" r] 4 by (cases "kids g r = []") (auto simp: fresh_nodes_spec)
  moreover have "set more \<inter> set maybe = {}" using 4 by (auto simp: fresh_nodes_spec)
  ultimately have "card (?all - set maybe) = card (?all - set (maybe @ more)) + card (set more)"
    by (subst card_Un_disjoint [symmetric]) (auto intro!: arg_cong [where f = card])
  moreover have "card (set more) = length more" by (rule distinct_card) (simp add: 4 fresh_nodes_spec)
  ultimately show ?case by simp
qed (simp_all add: add_root_def)

definition promote_non_empty_to_root ::
  "inc_world \<Rightarrow> inc_node list \<Rightarrow> 'e inc_graph \<Rightarrow> inc_node list \<times> inc_node list \<times> 'e inc_graph" where
  "promote_non_empty_to_root w maybe_empty g = promote_loop w maybe_empty maybe_empty [] g"

section \<open>Running the collected groups\<close>

text \<open>Groups of one plan and parent type run in one batch, in the order their batches were first met. What
  running a batch gives is a parameter: its results, or nothing yet when it has to be awaited.\<close>

fun first_of :: "'a list \<Rightarrow> 'a list" where
  "first_of [] = []"
| "first_of (x # xs) = x # filter (\<lambda>y. y \<noteq> x) (first_of xs)"

definition batch_runs :: "inc_world \<Rightarrow> nat list \<Rightarrow> nat list list" where
  "batch_runs w runs = map (\<lambda>k. filter (\<lambda>x. w_spec w x = k) runs) (first_of (map (w_spec w) runs))"

fun run_batches :: "(nat list \<Rightarrow> 'e group_result list option) \<Rightarrow> nat list list \<Rightarrow> 'e inc_graph \<Rightarrow> 'e inc_graph" where
  "run_batches run [] g = g"
| "run_batches run (b # bs) g =
     run_batches run bs (case run b of
        Some results \<Rightarrow> g\<lparr>ig_queue := ig_queue g @ map Group_Done results\<rparr>
      | None \<Rightarrow> g\<lparr>ig_tasks := ig_tasks g @ [b]\<rparr>)"

definition flush_runs :: "inc_world \<Rightarrow> (nat list \<Rightarrow> 'e group_result list option) \<Rightarrow> 'e inc_graph \<Rightarrow> 'e inc_graph" where
  "flush_runs w run g = run_batches run (batch_runs w (ig_runs g)) (g\<lparr>ig_runs := []\<rparr>)"

definition get_new_root_nodes ::
  "nat \<Rightarrow> inc_world \<Rightarrow> (nat list \<Rightarrow> 'e group_result list option) \<Rightarrow> inc_record list \<Rightarrow> 'e inc_graph
   \<Rightarrow> (inc_node list \<times> 'e inc_graph) res" where
  "get_new_root_nodes depth w run recs g =
     bind_res (add_incremental_records depth w None recs (g, Some [])) (\<lambda>(g1, init).
       case promote_non_empty_to_root w (case init of None \<Rightarrow> [] | Some ks \<Rightarrow> ks) g1 of
         (_, new_roots, g2) \<Rightarrow> Inr (new_roots, flush_runs w run g2))"

definition settle_group :: "'e group_result \<Rightarrow> nat list \<Rightarrow> 'e inc_graph \<Rightarrow> 'e inc_graph" where
  "settle_group res ms g =
     foldl (\<lambda>g r. g\<lparr>ig_pending := put_ref (ig_pending g) r (filter (\<lambda>x. x \<noteq> gr_group res) (pend g r)),
                     ig_success := put_ref (ig_success g) r (successes g r @ [res])\<rparr>) g ms"

definition add_completed_group ::
  "nat \<Rightarrow> inc_world \<Rightarrow> (nat list \<Rightarrow> 'e group_result list option) \<Rightarrow> 'e group_result \<Rightarrow> 'e inc_graph \<Rightarrow> 'e inc_graph res" where
  "add_completed_group depth w run res g =
     (let ms = w_members w (gr_group res); g1 = settle_group res ms g
      in if gr_children res = [] then Inr g1
         else bind_res (add_incremental_records depth w (Some ms) (gr_children res) (g1, None)) (\<lambda>(g2, _).
              Inr (flush_runs w run g2)))"

definition remove_root :: "inc_node \<Rightarrow> 'e inc_graph \<Rightarrow> 'e inc_graph" where
  "remove_root n g = g\<lparr>ig_roots := filter (\<lambda>m. m \<noteq> n) (ig_roots g)\<rparr>"

text \<open>The results a completed fragment delivers leave the other fragments they belong to.\<close>

definition drop_results :: "inc_world \<Rightarrow> 'e group_result list \<Rightarrow> 'e inc_graph \<Rightarrow> 'e inc_graph" where
  "drop_results w rs g =
     foldl (\<lambda>g (res, r). g\<lparr>ig_success := put_ref (ig_success g) r (filter (\<lambda>x. gr_ref x \<noteq> gr_ref res) (successes g r))\<rparr>)
       g (concat (map (\<lambda>res. map (\<lambda>r. (res, r)) (w_members w (gr_group res))) rs))"

definition complete_deferred_fragment ::
  "inc_world \<Rightarrow> (nat list \<Rightarrow> 'e group_result list option) \<Rightarrow> nat \<Rightarrow> 'e inc_graph
   \<Rightarrow> (inc_node list \<times> 'e group_result list \<times> 'e inc_graph) option" where
  "complete_deferred_fragment w run r g =
     (if Frag r \<notin> set (ig_roots g) \<or> pend g r \<noteq> [] then None
      else let results = successes g r;
               g1 = drop_results w results (remove_root (Frag r) g)
           in (case promote_non_empty_to_root w (kids g1 r) g1 of
                 (maybe, new_roots, g2) \<Rightarrow> Some (new_roots, results,
                   flush_runs w run (g2\<lparr>ig_children := put_ref (ig_children g2) r maybe\<rparr>))))"

definition remove_deferred_fragment :: "nat \<Rightarrow> 'e inc_graph \<Rightarrow> bool \<times> 'e inc_graph" where
  "remove_deferred_fragment r g =
     (if Frag r \<notin> set (ig_roots g) then (False, g) else (True, remove_root (Frag r) g))"

definition remove_stream :: "nat \<Rightarrow> 'e inc_graph \<Rightarrow> 'e inc_graph res" where
  "remove_stream s g = (if Strm s \<in> set (ig_roots g) then Inr (remove_root (Strm s) g) else Inl (KeyError ''stream''))"

definition has_next :: "'e inc_graph \<Rightarrow> bool" where
  "has_next g = (ig_roots g \<noteq> [])"

end
