(* ===== verification/Inc_Publisher.thy ===== *)
theory Inc_Publisher
  imports Incremental
begin

text \<open>
  The publisher of \<open>src/src/grafast_py/incremental.py\<close>: ids, the handling of a completed group or stream
  batch, the payloads, and the steps by which a response goes on: a batch of groups ends, a stream's pump
  hands over a batch, the publisher handles the next record or sends what it has.
\<close>

section \<open>Records whose parent was nulled\<close>

text \<open>\<open>Inl\<close> decides the answer before the path ends.\<close>

fun walk_path :: "pyval \<Rightarrow> seg list \<Rightarrow> bool + pyval" where
  "walk_path v [] = Inr v"
| "walk_path v (k # ks) =
     (if v = VNone then Inl True
      else (case getitem v k of Inl e \<Rightarrow> Inl False | Inr u \<Rightarrow> walk_path u ks))"

definition path_nulled :: "pyval \<Rightarrow> seg list \<Rightarrow> bool" where
  "path_nulled data path =
     (case walk_path data (butlast path) of Inl b \<Rightarrow> b | Inr v \<Rightarrow> v = VNone \<and> path \<noteq> [])"

definition record_path :: "inc_world \<Rightarrow> inc_record \<Rightarrow> seg list" where
  "record_path w rec =
     (case rec of
        Stream_Rec s \<Rightarrow> w_path w (Strm s)
      | Group_Rec x \<Rightarrow> foldl (\<lambda>deepest r. if length (w_path w (Frag r)) > length deepest then w_path w (Frag r) else deepest)
          [] (w_members w x))"

definition filter_nulled_records :: "inc_world \<Rightarrow> inc_record list \<Rightarrow> pyval \<Rightarrow> inc_record list" where
  "filter_nulled_records w recs data = filter (\<lambda>rec. \<not> path_nulled data (record_path w rec)) recs"

definition filter_group_children :: "inc_world \<Rightarrow> 'e group_result \<Rightarrow> inc_record list" where
  "filter_group_children w res =
     filter (\<lambda>rec. \<not> path_nulled (gr_data res) (drop (length (gr_path res)) (record_path w rec))) (gr_children res)"

section \<open>The publisher\<close>

text \<open>\<open>pb_ids\<close> is the attribute \<open>id\<close> of the nodes; an entry names a node by it, and \<open>None\<close> is the attribute not
  yet set.\<close>

record 'e publisher =
  pb_graph :: "'e inc_graph"
  pb_next :: nat
  pb_ids :: "(inc_node \<times> nat) list"

type_synonym pending_entry = "nat \<times> seg list \<times> string option"

datatype 'e inc_entry =
    Defer_Entry "nat option" "seg list" pyval "'e list"
  | Stream_Entry "nat option" "pyval list" "'e list"

type_synonym 'e completed_entry = "nat option \<times> 'e list"

fun set_id :: "(inc_node \<times> nat) list \<Rightarrow> inc_node \<Rightarrow> nat \<Rightarrow> (inc_node \<times> nat) list" where
  "set_id [] n i = [(n, i)]"
| "set_id ((m, j) # ids) n i = (if m = n then (m, i) # ids else (m, j) # set_id ids n i)"

fun to_pending :: "inc_world \<Rightarrow> inc_node list \<Rightarrow> 'e publisher \<Rightarrow> pending_entry list \<times> 'e publisher" where
  "to_pending w [] pb = ([], pb)"
| "to_pending w (n # ns) pb =
     (let i = pb_next pb;
          (rest, pb') = to_pending w ns (pb\<lparr>pb_next := i + 1, pb_ids := set_id (pb_ids pb) n i\<rparr>)
      in ((i, w_path w n, w_label w n) # rest, pb'))"

definition best_id_and_sub_path :: "inc_world \<Rightarrow> 'e publisher \<Rightarrow> nat \<Rightarrow> 'e group_result \<Rightarrow> nat option \<times> seg list" where
  "best_id_and_sub_path w pb r res =
     (let (best, len) = foldl (\<lambda>(best, len) r'.
            if r' = r then (best, len)
            else (case map_of (pb_ids pb) (Frag r') of
                    None \<Rightarrow> (best, len)
                  | Some i \<Rightarrow> (if length (w_path w (Frag r')) > len then (Some i, length (w_path w (Frag r'))) else (best, len))))
          (map_of (pb_ids pb) (Frag r), length (w_path w (Frag r))) (w_members w (gr_group res))
      in (best, drop len (gr_path res)))"

definition defer_entry :: "inc_world \<Rightarrow> 'e publisher \<Rightarrow> nat \<Rightarrow> 'e group_result \<Rightarrow> 'e inc_entry" where
  "defer_entry w pb r res =
     (case best_id_and_sub_path w pb r res of (i, sub_path) \<Rightarrow> Defer_Entry i sub_path (gr_data res) (gr_errors res))"

text \<open>The fragments of a failed group that are still root nodes end with its errors.\<close>

fun fail_members :: "nat list \<Rightarrow> 'e list \<Rightarrow> 'e publisher \<Rightarrow> 'e completed_entry list \<times> 'e publisher" where
  "fail_members [] errs pb = ([], pb)"
| "fail_members (r # rs) errs pb =
     (case remove_deferred_fragment r (pb_graph pb) of (was_root, g) \<Rightarrow>
        case fail_members rs errs (pb\<lparr>pb_graph := g\<rparr>) of (rest, pb') \<Rightarrow>
          ((if was_root then [(map_of (pb_ids pb) (Frag r), errs)] else []) @ rest, pb'))"

fun complete_members ::
  "inc_world \<Rightarrow> (nat list \<Rightarrow> 'e group_result list option) \<Rightarrow> nat list \<Rightarrow> 'e publisher
   \<Rightarrow> pending_entry list \<times> 'e inc_entry list \<times> 'e completed_entry list \<times> 'e publisher" where
  "complete_members w run [] pb = ([], [], [], pb)"
| "complete_members w run (r # rs) pb =
     (case complete_deferred_fragment w run r (pb_graph pb) of
        None \<Rightarrow> complete_members w run rs pb
      | Some (new_roots, results, g) \<Rightarrow>
          (case to_pending w new_roots (pb\<lparr>pb_graph := g\<rparr>) of (pending, pb1) \<Rightarrow>
           case complete_members w run rs pb1 of (pending', incremental', completed', pb2) \<Rightarrow>
             (pending @ pending', map (defer_entry w pb1 r) results @ incremental',
              (map_of (pb_ids pb1) (Frag r), []) # completed', pb2)))"

definition handle_execution_group ::
  "nat \<Rightarrow> inc_world \<Rightarrow> (nat list \<Rightarrow> 'e group_result list option) \<Rightarrow> 'e group_result \<Rightarrow> 'e publisher
   \<Rightarrow> (pending_entry list \<times> 'e inc_entry list \<times> 'e completed_entry list \<times> 'e publisher) res" where
  "handle_execution_group depth w run res pb =
     (let ms = w_members w (gr_group res) in
      if gr_failed res then
        (case fail_members ms (gr_errors res) pb of (completed, pb') \<Rightarrow> Inr ([], [], completed, pb'))
      else bind_res (add_completed_group depth w run (res\<lparr>gr_children := filter_group_children w res\<rparr>) (pb_graph pb))
             (\<lambda>g. Inr (complete_members w run ms (pb\<lparr>pb_graph := g\<rparr>))))"

definition handle_stream_batch ::
  "nat \<Rightarrow> inc_world \<Rightarrow> (nat list \<Rightarrow> 'e group_result list option) \<Rightarrow> 'e stream_batch \<Rightarrow> 'e publisher
   \<Rightarrow> (pending_entry list \<times> 'e inc_entry list \<times> 'e completed_entry list \<times> 'e publisher) res" where
  "handle_stream_batch depth w run b pb =
     (let i = map_of (pb_ids pb) (Strm (sb_stream b)) in
      if sb_done b then
        bind_res (remove_stream (sb_stream b) (pb_graph pb)) (\<lambda>g. Inr ([], [], [(i, sb_errors b)], pb\<lparr>pb_graph := g\<rparr>))
      else if sb_children b = [] then Inr ([], [Stream_Entry i (sb_items b) (sb_errors b)], [], pb)
      else bind_res (get_new_root_nodes depth w run (sb_children b) (pb_graph pb)) (\<lambda>(new_roots, g).
             case to_pending w new_roots (pb\<lparr>pb_graph := g\<rparr>) of (pending, pb') \<Rightarrow>
               Inr (pending, [Stream_Entry i (sb_items b) (sb_errors b)], [], pb')))"

definition handle_completed ::
  "nat \<Rightarrow> inc_world \<Rightarrow> (nat list \<Rightarrow> 'e group_result list option) \<Rightarrow> 'e inc_completed \<Rightarrow> 'e publisher
   \<Rightarrow> (pending_entry list \<times> 'e inc_entry list \<times> 'e completed_entry list \<times> 'e publisher) res" where
  "handle_completed depth w run c pb =
     (case c of Batch_Done b \<Rightarrow> handle_stream_batch depth w run b pb
      | Group_Done res \<Rightarrow> handle_execution_group depth w run res pb)"

section \<open>Payloads\<close>

record 'e inc_payload =
  pl_pending :: "pending_entry list"
  pl_incremental :: "'e inc_entry list"
  pl_completed :: "'e completed_entry list"
  pl_has_next :: bool

text \<open>A response under way: what the current payload has gathered, the payloads sent, and where the
  generator stands: it drains the queue, is suspended after a payload until the consumer asks for the next
  one, waits on the future of the next completed batch, or has returned.\<close>

datatype dl_mode = Draining | Yielded | Waiting | Ended

record 'e delivery =
  dl_pub :: "'e publisher"
  dl_now :: "'e inc_payload"
  dl_sent :: "'e inc_payload list"
  dl_mode :: dl_mode

abbreviation dl_closed :: "'e delivery \<Rightarrow> bool" where "dl_closed d \<equiv> dl_mode d = Ended"

definition nothing_yet :: "'e inc_payload" where
  "nothing_yet = \<lparr>pl_pending = [], pl_incremental = [], pl_completed = [], pl_has_next = True\<rparr>"

definition build_response ::
  "nat \<Rightarrow> inc_world \<Rightarrow> (nat list \<Rightarrow> 'e group_result list option) \<Rightarrow> inc_record list \<Rightarrow> 'e delivery res" where
  "build_response depth w run recs =
     bind_res (get_new_root_nodes depth w run recs new_graph) (\<lambda>(new_roots, g).
       case to_pending w new_roots \<lparr>pb_graph = g, pb_next = 0, pb_ids = []\<rparr> of (pending, pb) \<Rightarrow>
         Inr \<lparr>dl_pub = pb, dl_now = nothing_yet, dl_sent = [nothing_yet\<lparr>pl_pending := pending\<rparr>], dl_mode = Draining\<rparr>)"

abbreviation dl_graph :: "'e delivery \<Rightarrow> 'e inc_graph" where "dl_graph d \<equiv> pb_graph (dl_pub d)"

definition with_graph :: "'e inc_graph \<Rightarrow> 'e delivery \<Rightarrow> 'e delivery" where
  "with_graph g d = d\<lparr>dl_pub := (dl_pub d)\<lparr>pb_graph := g\<rparr>\<rparr>"

definition gather_payload ::
  "pending_entry list \<Rightarrow> 'e inc_entry list \<Rightarrow> 'e completed_entry list \<Rightarrow> 'e inc_payload \<Rightarrow> 'e inc_payload" where
  "gather_payload p i c pl = pl\<lparr>pl_pending := pl_pending pl @ p, pl_incremental := pl_incremental pl @ i,
     pl_completed := pl_completed pl @ c\<rparr>"

text \<open>The publisher handles the record at the head of the queue.\<close>

definition handle_next ::
  "nat \<Rightarrow> inc_world \<Rightarrow> (nat list \<Rightarrow> 'e group_result list option) \<Rightarrow> 'e delivery \<Rightarrow> 'e delivery res" where
  "handle_next depth w run d =
     (case ig_queue (dl_graph d) of
        [] \<Rightarrow> Inr d
      | c # rest \<Rightarrow>
          bind_res (handle_completed depth w run c ((dl_pub d)\<lparr>pb_graph := (dl_graph d)\<lparr>ig_queue := rest\<rparr>\<rparr>)) (\<lambda>(p, i, c, pb).
            Inr (d\<lparr>dl_pub := pb, dl_now := gather_payload p i c (dl_now d)\<rparr>)))"

text \<open>When the queue is empty a payload with data is sent, and the response ends with the last root node; with
  no data the generator waits.\<close>

definition send :: "'e delivery \<Rightarrow> 'e delivery" where
  "send d =
     (if pl_incremental (dl_now d) = [] \<and> pl_completed (dl_now d) = [] then d\<lparr>dl_now := nothing_yet, dl_mode := Waiting\<rparr>
      else d\<lparr>dl_sent := dl_sent d @ [(dl_now d)\<lparr>pl_has_next := has_next (dl_graph d)\<rparr>],
             dl_now := nothing_yet, dl_mode := (if has_next (dl_graph d) then Yielded else Ended)\<rparr>)"

text \<open>Records that end resolve the future of a generator that waits, and are otherwise only queued.\<close>

definition arrive :: "'e inc_completed list \<Rightarrow> 'e inc_graph \<Rightarrow> 'e delivery \<Rightarrow> 'e delivery" where
  "arrive cs g d =
     (with_graph (g\<lparr>ig_queue := ig_queue g @ cs\<rparr>) d)\<lparr>dl_mode := (if dl_mode d = Waiting \<and> cs \<noteq> [] then Draining else dl_mode d)\<rparr>"

text \<open>The steps; \<open>ok\<close> says in which of the generator's modes records may end.\<close>

inductive dl_step ::
  "nat \<Rightarrow> inc_world \<Rightarrow> (nat list \<Rightarrow> 'e group_result list option) \<Rightarrow> (dl_mode \<Rightarrow> bool) \<Rightarrow> 'e delivery \<Rightarrow> 'e delivery \<Rightarrow> bool"
  for depth w run ok where
  dl_task: "ok (dl_mode d) \<Longrightarrow> ig_tasks (dl_graph d) = bs1 @ b # bs2 \<Longrightarrow> map gr_group results = b
    \<Longrightarrow> dl_step depth w run ok d (arrive (map Group_Done results) ((dl_graph d)\<lparr>ig_tasks := bs1 @ bs2\<rparr>) d)"
| dl_pump: "ok (dl_mode d) \<Longrightarrow> ig_pumps (dl_graph d) = ss1 @ sb_stream b # ss2
    \<Longrightarrow> dl_step depth w run ok d
          (arrive [Batch_Done b] ((dl_graph d)\<lparr>ig_pumps := ss1 @ (if sb_done b then [] else [sb_stream b]) @ ss2\<rparr>) d)"
| dl_handle: "dl_mode d = Draining \<Longrightarrow> handle_next depth w run d = Inr d' \<Longrightarrow> dl_step depth w run ok d d'"
| dl_send: "dl_mode d = Draining \<Longrightarrow> ig_queue (dl_graph d) = [] \<Longrightarrow> dl_step depth w run ok d (send d)"
| dl_resume: "dl_mode d = Yielded \<Longrightarrow> dl_step depth w run ok d (d\<lparr>dl_mode := Waiting\<rparr>)"

inductive dl_steps ::
  "nat \<Rightarrow> inc_world \<Rightarrow> (nat list \<Rightarrow> 'e group_result list option) \<Rightarrow> (dl_mode \<Rightarrow> bool) \<Rightarrow> 'e delivery \<Rightarrow> 'e delivery \<Rightarrow> bool"
  for depth w run ok where
  dl_here: "dl_steps depth w run ok d d"
| dl_next: "dl_steps depth w run ok d d1 \<Longrightarrow> dl_step depth w run ok d1 d2 \<Longrightarrow> dl_steps depth w run ok d d2"

end
