(* ===== verification/Inc_Laws.thy ===== *)
theory Inc_Laws
  imports Inc_Publisher
begin

text \<open>
  Laws of the record graph and of the publisher. The protocol invariant says that ids are handed out in
  order, that every entry names an id that was handed out, that an id is completed at most once and that
  root nodes are the ids still open; the progress invariant that whatever is open has work under way.
  Neither asks anything of the records a completed record reveals.
\<close>

section \<open>Dicts and references\<close>

lemma at_put_ref [simp]: "at_ref (put_ref m r xs) r' = (if r' = r then xs else at_ref m r')"
  by (induction m r xs rule: put_ref.induct) auto

lemma set_add_key [simp]: "set (add_key k ks) = insert k (set ks)"
  by (auto simp: add_key_def)

lemma distinct_add_key [simp]: "distinct (add_key k ks) = distinct ks"
  by (auto simp: add_key_def)

lemma map_of_set_id [simp]: "map_of (set_id ids n i) m = (if m = n then Some i else map_of ids m)"
  by (induction ids n i rule: set_id.induct) auto

lemma set_id_keys: "map fst (set_id ids n i) = (if n \<in> fst ` set ids then map fst ids else map fst ids @ [n])"
  by (induction ids n i rule: set_id.induct) auto

lemma set_id_values: "set (map snd (set_id ids n i)) \<subseteq> insert i (set (map snd ids))"
  by (induction ids n i rule: set_id.induct) auto

lemma distinct_set_id: "distinct (map snd ids) \<Longrightarrow> i \<notin> snd ` set ids \<Longrightarrow> distinct (map snd (set_id ids n i))"
proof (induction ids n i rule: set_id.induct)
  case (2 m j ids n i)
  then show ?case using set_id_values [of ids n i] by auto
qed auto

section \<open>What the operations of the graph leave alone\<close>

lemmas graph_ops = add_child_def add_pending_def on_execution_group_def add_root_def remove_root_def

lemma add_fragment_node_fields:
  "add_fragment_node d w r (g, init) = Inr (g', init') \<Longrightarrow>
     \<exists>cs. g' = g\<lparr>ig_children := cs\<rparr>"
proof (induction d arbitrary: r g)
  case 0
  then have "g' = g" by (subst (asm) add_fragment_node.simps) (auto split: if_splits option.splits)
  then show ?case by (intro exI [of _ "ig_children g"]) simp
next
  case (Suc d)
  show ?case
  proof (cases "Frag r \<in> set (ig_roots g) \<or> w_parent w r = None")
    case True
    then have "g' = g" using Suc.prems by (subst (asm) add_fragment_node.simps) (auto split: if_splits option.splits)
    then show ?thesis by (intro exI [of _ "ig_children g"]) simp
  next
    case False
    then obtain p where "add_fragment_node d w p (add_child p (Frag r) g, init) = Inr (g', init')"
      using Suc.prems by (subst (asm) add_fragment_node.simps) auto
    from Suc.IH [OF this] show ?thesis by (auto simp: add_child_def)
  qed
qed

lemma add_group_to_fields:
  "add_group_to d w x rs (g, init) = Inr (g', init') \<Longrightarrow>
     \<exists>cs ps. g' = g\<lparr>ig_children := cs, ig_pending := ps\<rparr>
       \<and> (\<forall>r. set (at_ref ps r) = set (pend g r) \<union> (if r \<in> set rs then {x} else {}))"
proof (induction rs arbitrary: g init)
  case Nil
  then show ?case by (intro exI [of _ "ig_children g"] exI [of _ "ig_pending g"]) simp
next
  case (Cons r rs)
  then obtain g1 i1 where 1: "add_fragment_node d w r (g, init) = Inr (g1, i1)"
    and 2: "add_group_to d w x rs (add_pending x r g1, i1) = Inr (g', init')"
    by (auto simp: res_iffs)
  from add_fragment_node_fields [OF 1] obtain cs where g1: "g1 = g\<lparr>ig_children := cs\<rparr>" by blast
  from Cons.IH [OF 2] obtain cs' ps where "g' = add_pending x r g1\<lparr>ig_children := cs', ig_pending := ps\<rparr>"
    and P: "\<And>r'. set (at_ref ps r') = set (pend (add_pending x r g1) r') \<union> (if r' \<in> set rs then {x} else {})" by blast
  then have "g' = g\<lparr>ig_children := cs', ig_pending := ps\<rparr>" by (simp add: g1 add_pending_def)
  moreover have "set (at_ref ps r') = set (pend g r') \<union> (if r' \<in> set (r # rs) then {x} else {})" for r'
    using P [of r'] by (auto simp: g1 add_pending_def)
  ultimately show ?case by blast
qed

lemma add_stream_to_fields:
  "add_stream_to d w s ps (g, init) = Inr (g', init') \<Longrightarrow> \<exists>cs. g' = g\<lparr>ig_children := cs\<rparr>"
proof (induction ps arbitrary: g init)
  case Nil
  then show ?case by (intro exI [of _ "ig_children g"]) simp
next
  case (Cons p ps)
  then obtain g1 i1 where 1: "add_fragment_node d w p (g, init) = Inr (g1, i1)"
    and 2: "add_stream_to d w s ps (add_child p (Strm s) g1, i1) = Inr (g', init')"
    by (auto simp: res_iffs)
  from add_fragment_node_fields [OF 1] obtain cs where g1: "g1 = g\<lparr>ig_children := cs\<rparr>" by blast
  from Cons.IH [OF 2] show ?case by (auto simp: g1 add_child_def)
qed

section \<open>Work under way\<close>

text \<open>A group flies until its result is handled; a stream pumps until its terminal batch is. \<open>going\<close> lets the
  fragments \<open>M\<close> be open with nothing pending, as they are while the publisher goes through them.\<close>

fun ended_groups :: "'e inc_completed \<Rightarrow> nat list" where
  "ended_groups (Group_Done res) = [gr_group res]"
| "ended_groups (Batch_Done b) = []"

fun ended_streams :: "'e inc_completed \<Rightarrow> nat list" where
  "ended_streams (Batch_Done b) = (if sb_done b then [sb_stream b] else [])"
| "ended_streams (Group_Done res) = []"

definition flying :: "'e inc_graph \<Rightarrow> nat \<Rightarrow> bool" where
  "flying g x = (x \<in> set (ig_runs g) \<or> x \<in> set (concat (ig_tasks g)) \<or> x \<in> set (concat (map ended_groups (ig_queue g))))"

definition pumping :: "'e inc_graph \<Rightarrow> nat \<Rightarrow> bool" where
  "pumping g s = (s \<in> set (ig_pumps g) \<or> s \<in> set (concat (map ended_streams (ig_queue g))))"

definition shared_pending :: "inc_world \<Rightarrow> 'e inc_graph \<Rightarrow> bool" where
  "shared_pending w g = (\<forall>r x. x \<in> set (pend g r) \<longrightarrow> r \<in> set (w_members w x) \<and> (\<forall>r' \<in> set (w_members w x). x \<in> set (pend g r')))"

definition going :: "nat set \<Rightarrow> inc_world \<Rightarrow> 'e inc_graph \<Rightarrow> bool" where
  "going M w g = (shared_pending w g
     \<and> (\<forall>r. Frag r \<in> set (ig_roots g) \<longrightarrow> (pend g r \<noteq> [] \<or> r \<in> M) \<and> (\<forall>x \<in> set (pend g r). flying g x))
     \<and> (\<forall>s. Strm s \<in> set (ig_roots g) \<longrightarrow> pumping g s))"

lemma live_children [simp]: "going M w (g\<lparr>ig_children := cs\<rparr>) = going M w g"
  and live_success [simp]: "going M w (g\<lparr>ig_success := ss\<rparr>) = going M w g"
  by (simp_all add: going_def flying_def pumping_def shared_pending_def)

text \<open>What the additions leave as it is: open nodes, the queue, tasks and pumps.\<close>

definition same_work :: "'e inc_graph \<Rightarrow> 'e inc_graph \<Rightarrow> bool" where
  "same_work g g' = (ig_roots g' = ig_roots g \<and> ig_queue g' = ig_queue g \<and> ig_tasks g' = ig_tasks g \<and> ig_pumps g' = ig_pumps g)"

lemma add_record_work:
  assumes "add_record d w parents rec (g, init) = Inr (g', init')"
  shows "same_work g g'" and "going M w g \<Longrightarrow> going M w g'"
proof -
  have "same_work g g' \<and> (going M w g \<longrightarrow> going M w g')"
  proof (cases rec)
    case (Group_Rec x)
    then obtain g1 where add: "add_group_to d w x (w_members w x) (g, init) = Inr (g1, init')"
      and g': "g' = (if completes_root_node w g1 x then on_execution_group x g1 else g1)"
      using assms by (auto simp: add_record_def res_iffs)
    from add_group_to_fields [OF add] obtain cs ps
      where g1: "g1 = g\<lparr>ig_children := cs, ig_pending := ps\<rparr>"
      and P: "\<And>r. set (at_ref ps r) = set (pend g r) \<union> (if r \<in> set (w_members w x) then {x} else {})"
      by blast
    have fly: "flying g' y" if "flying g y" for y using that by (auto simp: g' g1 flying_def on_execution_group_def)
    have pmp: "pumping g' y = pumping g y" for y by (auto simp: g' g1 pumping_def on_execution_group_def)
    have roots: "ig_roots g' = ig_roots g" and pend: "pend g' r = at_ref ps r" for r
      by (simp_all add: g' g1 on_execution_group_def)
    have new: "flying g' x" if "Frag r \<in> set (ig_roots g)" "r \<in> set (w_members w x)" for r
      using that by (auto simp: g' g1 flying_def on_execution_group_def completes_root_node_def)
    have ne: "at_ref ps r \<noteq> []" if "pend g r \<noteq> []" for r using P [of r] that by force
    have "going M w g'" if l: "going M w g"
    proof -
      have old: "r \<in> set (w_members w y) \<and> (\<forall>r' \<in> set (w_members w y). y \<in> set (pend g r'))" if "y \<in> set (pend g r)" for r y
        using l that unfolding going_def shared_pending_def by blast
      have mem: "y \<in> set (pend g' r) \<longleftrightarrow> y \<in> set (pend g r) \<or> y = x \<and> r \<in> set (w_members w x)" for r y
        unfolding pend P by simp
      have sh: "shared_pending w g'"
        unfolding shared_pending_def mem using old by blast
      have fr: "(pend g' r \<noteq> [] \<or> r \<in> M) \<and> (\<forall>y \<in> set (pend g' r). flying g' y)" if "Frag r \<in> set (ig_roots g)" for r
      proof -
        have "pend g r \<noteq> [] \<or> r \<in> M" and "\<forall>y \<in> set (pend g r). flying g y" using l that by (auto simp: going_def)
        then show ?thesis unfolding pend using ne [of r] fly new [OF that] P [of r] by (auto split: if_splits)
      qed
      show ?thesis using l sh fr by (simp add: going_def roots pmp)
    qed
    then show ?thesis by (auto simp: same_work_def g' g1 on_execution_group_def)
  next
    case (Stream_Rec s)
    have "\<exists>cs. g' = g\<lparr>ig_children := cs\<rparr>"
    proof (cases parents)
      case None
      then have "g' = g" using assms Stream_Rec by (auto simp: add_record_def split: option.splits)
      then show ?thesis by (intro exI [of _ "ig_children g"]) simp
    next
      case (Some ps)
      then show ?thesis using assms Stream_Rec by (auto simp: add_record_def dest: add_stream_to_fields)
    qed
    then show ?thesis by (auto simp: same_work_def)
  qed
  then show "same_work g g'" and "going M w g \<Longrightarrow> going M w g'" by auto
qed

lemma add_incremental_records_work:
  assumes "add_incremental_records d w parents recs (g, init) = Inr (g', init')"
  shows "same_work g g'" and "going M w g \<Longrightarrow> going M w g'"
proof -
  have "same_work g g' \<and> (going M w g \<longrightarrow> going M w g')"
    using assms
  proof (induction recs arbitrary: g init)
    case (Cons rec recs)
    then obtain g1 i1 where 1: "add_record d w parents rec (g, init) = Inr (g1, i1)"
      and 2: "add_incremental_records d w parents recs (g1, i1) = Inr (g', init')" by (auto simp: res_iffs)
    from Cons.IH [OF 2] add_record_work [OF 1] show ?case by (simp add: same_work_def)
  qed (simp add: same_work_def)
  then show "same_work g g'" and "going M w g \<Longrightarrow> going M w g'" by auto
qed

section \<open>Promotion and the runs it starts\<close>

lemma start_groups_runs:
  "set (ig_runs (start_groups w xs g)) = set (ig_runs g) \<union> {x \<in> set xs. \<not> completes_root_node w g x}"
proof (induction xs arbitrary: g)
  case (Cons y ys)
  have "completes_root_node w (on_execution_group y g) x = completes_root_node w g x" for x
    by (simp add: completes_root_node_def on_execution_group_def)
  then show ?case by (auto simp: Cons.IH on_execution_group_def)
qed simp

lemma promote_loop_grows:
  "promote_loop w un maybe new g = (maybe', new', g') \<Longrightarrow>
     (\<exists>ns. new' = new @ ns \<and> set (ig_roots g') = set (ig_roots g) \<union> set ns
        \<and> set (ig_pumps g') = set (ig_pumps g) \<union> {s. Strm s \<in> set ns} \<and> (\<forall>r. Frag r \<in> set ns \<longrightarrow> pend g r \<noteq> []))
     \<and> (distinct (ig_roots g) \<longrightarrow> distinct (ig_roots g')) \<and> ig_queue g' = ig_queue g \<and> ig_tasks g' = ig_tasks g
     \<and> ig_pending g' = ig_pending g \<and> ig_success g' = ig_success g \<and> ig_children g' = ig_children g"
proof (induction w un maybe new g rule: promote_loop.induct)
  case (2 w s un maybe new g)
  from 2(1) [OF 2(2) [unfolded promote_loop.simps]] obtain ns where "new' = (new @ [Strm s]) @ ns"
    "set (ig_roots g') = insert (Strm s) (set (ig_roots g)) \<union> set ns"
    "set (ig_pumps g') = insert s (set (ig_pumps g)) \<union> {s. Strm s \<in> set ns}"
    "\<forall>r. Frag r \<in> set ns \<longrightarrow> pend g r \<noteq> []" by (auto simp: add_root_def)
  then show ?case using 2(1) [OF 2(2) [unfolded promote_loop.simps]]
    by (intro conjI exI [of _ "Strm s # ns"]) (auto simp: add_root_def)
next
  case (3 w r un maybe new g)
  show ?case
  proof (cases "pend g r = []")
    case True
    then show ?thesis using 3(2) [OF _ refl] 3(3) by (simp add: Let_def)
  next
    case False
    then have run: "promote_loop w un maybe (new @ [Frag r]) (add_root (Frag r) (start_groups w (pend g r) g)) = (maybe', new', g')"
      using 3(3) by simp
    from 3(1) [OF False run] obtain ns where "new' = (new @ [Frag r]) @ ns"
      "set (ig_roots g') = insert (Frag r) (set (ig_roots g)) \<union> set ns"
      "set (ig_pumps g') = set (ig_pumps g) \<union> {s. Strm s \<in> set ns}"
      "\<forall>r. Frag r \<in> set ns \<longrightarrow> pend g r \<noteq> []" by (auto simp: add_root_def)
    then show ?thesis using 3(1) [OF False run] False
      by (intro conjI exI [of _ "Frag r # ns"]) (auto simp: add_root_def)
  qed
qed simp

lemma live_add_stream:
  assumes "going M w g"
  shows "going M w ((add_root (Strm s) g)\<lparr>ig_pumps := ig_pumps g @ [s]\<rparr>)"
proof -
  let ?g = "(add_root (Strm s) g)\<lparr>ig_pumps := ig_pumps g @ [s]\<rparr>"
  have 1: "shared_pending w ?g = shared_pending w g" "flying ?g x = flying g x" "pend ?g r = pend g r" for x r
    by (simp_all add: shared_pending_def flying_def add_root_def)
  have 2: "pumping ?g s' \<longleftrightarrow> s' = s \<or> pumping g s'" for s' by (auto simp: pumping_def add_root_def)
  have 3: "n \<in> set (ig_roots ?g) \<longleftrightarrow> n = Strm s \<or> n \<in> set (ig_roots g)" for n by (simp add: add_root_def)
  show ?thesis unfolding going_def 1 2 3 using assms unfolding going_def by blast
qed

lemma live_add_fragment:
  assumes "going M w g" "pend g r \<noteq> []"
  shows "going M w (add_root (Frag r) (start_groups w (pend g r) g))"
proof -
  let ?g = "add_root (Frag r) (start_groups w (pend g r) g)"
  have sh: "shared_pending w g" using assms(1) by (simp add: going_def)
  have fly: "flying ?g x" if "flying g x" for x
    using that by (auto simp: flying_def add_root_def start_groups_runs)
  have new: "flying ?g x" if x: "x \<in> set (pend g r)" for x
  proof (cases "completes_root_node w g x")
    case True
    then obtain r' where r': "r' \<in> set (w_members w x)" "Frag r' \<in> set (ig_roots g)" by (auto simp: completes_root_node_def)
    then have "x \<in> set (pend g r')" using sh x unfolding shared_pending_def by blast
    then have "flying g x" using assms(1) r'(2) unfolding going_def by blast
    then show ?thesis by (rule fly)
  next
    case False
    then show ?thesis using x by (simp add: flying_def add_root_def start_groups_runs)
  qed
  have "shared_pending w ?g = shared_pending w g" by (simp add: shared_pending_def add_root_def)
  then have sh': "shared_pending w ?g" using sh by simp
  have pmp: "pumping ?g s = pumping g s" for s by (simp add: pumping_def add_root_def)
  have pend: "pend ?g r' = pend g r'" for r' by (simp add: add_root_def)
  have roots: "n \<in> set (ig_roots ?g) \<longleftrightarrow> n = Frag r \<or> n \<in> set (ig_roots g)" for n by (simp add: add_root_def)
  show ?thesis
    unfolding going_def pend roots pmp using assms fly new sh' unfolding going_def by blast
qed

lemma promote_loop_live: "promote_loop w un maybe new g = (maybe', new', g') \<Longrightarrow> going M w g \<Longrightarrow> going M w g'"
proof (induction w un maybe new g rule: promote_loop.induct)
  case (2 w s un maybe new g)
  then show ?case by (simp add: live_add_stream)
next
  case (3 w r un maybe new g)
  show ?case
  proof (cases "pend g r = []")
    case True
    then show ?thesis using 3(2) [OF _ refl] 3(3,4) by (simp add: Let_def)
  next
    case False
    then show ?thesis using 3(1) [OF False _ live_add_fragment [OF 3(4) False]] 3(3) by simp
  qed
qed simp

lemma set_first_of [simp]: "set (first_of xs) = set xs"
  by (induction xs) auto

lemma set_batch_runs: "set (concat (batch_runs w runs)) = set runs"
  by (auto simp: batch_runs_def)

lemma ended_groups_done [simp]: "map (ended_groups \<circ> Group_Done) rs = map (\<lambda>res. [gr_group res]) rs"
  and ended_streams_done [simp]: "concat (map (ended_streams \<circ> Group_Done) rs) = []"
  by simp_all

text \<open>The streams of the batches in the queue.\<close>

fun batch_streams :: "'e inc_completed \<Rightarrow> nat list" where
  "batch_streams (Batch_Done b) = [sb_stream b]"
| "batch_streams (Group_Done res) = []"

lemma run_batches_fields:
  "ig_roots (run_batches run bs g) = ig_roots g \<and> ig_pumps (run_batches run bs g) = ig_pumps g
   \<and> ig_children (run_batches run bs g) = ig_children g \<and> ig_pending (run_batches run bs g) = ig_pending g
   \<and> ig_success (run_batches run bs g) = ig_success g
   \<and> set (concat (map ended_streams (ig_queue (run_batches run bs g)))) = set (concat (map ended_streams (ig_queue g)))
   \<and> set (concat (map batch_streams (ig_queue (run_batches run bs g)))) = set (concat (map batch_streams (ig_queue g)))"
proof (induction bs arbitrary: g)
  case (Cons b bs)
  show ?case
  proof (cases "run b")
    case None
    then show ?thesis using Cons.IH [of "g\<lparr>ig_tasks := ig_tasks g @ [b]\<rparr>"] by simp
  next
    case (Some rs)
    then show ?thesis using Cons.IH [of "g\<lparr>ig_queue := ig_queue g @ map Group_Done rs\<rparr>"] by simp
  qed
qed simp

text \<open>What is asked of running a batch: one result for each of its groups.\<close>

definition runs_its_batch :: "(nat list \<Rightarrow> 'e group_result list option) \<Rightarrow> bool" where
  "runs_its_batch run = (\<forall>b rs. run b = Some rs \<longrightarrow> map gr_group rs = b)"

lemma run_batches_flying:
  assumes "runs_its_batch run"
  shows "flying g x \<or> x \<in> set (concat bs) \<Longrightarrow> flying (run_batches run bs g) x"
proof (induction bs arbitrary: g)
  case (Cons b bs)
  show ?case
  proof (cases "run b")
    case None
    have "flying (g\<lparr>ig_tasks := ig_tasks g @ [b]\<rparr>) x \<or> x \<in> set (concat bs)"
      using Cons.prems by (auto simp: flying_def)
    then show ?thesis using Cons.IH None by simp
  next
    case (Some rs)
    then have "map gr_group rs = b" using assms by (simp add: runs_its_batch_def)
    then have "flying (g\<lparr>ig_queue := ig_queue g @ map Group_Done rs\<rparr>) x \<or> x \<in> set (concat bs)"
      using Cons.prems by (auto simp: flying_def)
    then show ?thesis using Cons.IH Some by simp
  qed
qed simp

lemma flush_runs_fields:
  "ig_roots (flush_runs w run g) = ig_roots g" "ig_pumps (flush_runs w run g) = ig_pumps g"
  "ig_children (flush_runs w run g) = ig_children g" "ig_pending (flush_runs w run g) = ig_pending g"
  "ig_success (flush_runs w run g) = ig_success g"
  "set (concat (map ended_streams (ig_queue (flush_runs w run g)))) = set (concat (map ended_streams (ig_queue g)))"
  "set (concat (map batch_streams (ig_queue (flush_runs w run g)))) = set (concat (map batch_streams (ig_queue g)))"
  using run_batches_fields [of run "batch_runs w (ig_runs g)" "g\<lparr>ig_runs := []\<rparr>"]
  by (simp_all add: flush_runs_def)

lemma flush_runs_live:
  assumes "runs_its_batch run" "going M w g"
  shows "going M w (flush_runs w run g)"
proof -
  have fly: "flying (flush_runs w run g) x" if "flying g x" for x
    unfolding flush_runs_def
    by (rule run_batches_flying [OF assms(1)]) (use that in \<open>auto simp: flying_def set_batch_runs [unfolded set_concat]\<close>)
  have pmp: "pumping (flush_runs w run g) s = pumping g s" for s unfolding pumping_def flush_runs_fields ..
  have sh: "shared_pending w (flush_runs w run g) = shared_pending w g" by (simp add: shared_pending_def flush_runs_fields)
  show ?thesis unfolding going_def flush_runs_fields pmp sh using assms(2) fly unfolding going_def by blast
qed

section \<open>The handlers' changes of the graph\<close>

text \<open>How a change that opens the nodes \<open>ns\<close> and closes \<open>gone\<close> shows in what the publisher reads.\<close>

definition opens :: "inc_node list \<Rightarrow> inc_node set \<Rightarrow> 'e inc_graph \<Rightarrow> 'e inc_graph \<Rightarrow> bool" where
  "opens ns gone g g' = (set (ig_roots g') = (set (ig_roots g) - gone) \<union> set ns
     \<and> (distinct (ig_roots g) \<longrightarrow> distinct (ig_roots g'))
     \<and> set (ig_pumps g') = set (ig_pumps g) \<union> {s. Strm s \<in> set ns}
     \<and> set (concat (map batch_streams (ig_queue g'))) = set (concat (map batch_streams (ig_queue g))))"

lemma promotes:
  assumes "promote_non_empty_to_root w ks g = (maybe, ns, g')"
  shows "opens ns {} g g'" "going M w g \<Longrightarrow> going M w g'" "ig_pending g' = ig_pending g" "Frag r \<in> set ns \<Longrightarrow> pend g r \<noteq> []"
  using promote_loop_grows [OF assms [unfolded promote_non_empty_to_root_def]]
    promote_loop_live [OF assms [unfolded promote_non_empty_to_root_def]]
  by (auto simp: opens_def)

lemma opens_flush [simp]: "opens ns gone g (flush_runs w run g') = opens ns gone g g'"
  unfolding opens_def flush_runs_fields ..

lemma opens_children [simp]: "opens ns gone g (g'\<lparr>ig_children := cs\<rparr>) = opens ns gone g g'"
  by (simp add: opens_def)

lemma same_work_opens: "same_work g g1 \<Longrightarrow> opens ns gone g1 g' \<Longrightarrow> opens ns gone g g'"
  by (simp add: same_work_def opens_def)

lemma same_work_opens_nothing: "same_work g g' \<Longrightarrow> opens [] {} g g'"
  by (simp add: same_work_def opens_def)

lemma get_new_root_nodes_opens:
  assumes "get_new_root_nodes d w run recs g = Inr (ns, g')"
  shows "opens ns {} g g'" and "runs_its_batch run \<Longrightarrow> going M w g \<Longrightarrow> going M w g'"
proof -
  from assms obtain g1 init where add: "add_incremental_records d w None recs (g, Some []) = Inr (g1, init)"
    and rest: "(case promote_non_empty_to_root w (case init of None \<Rightarrow> [] | Some ks \<Rightarrow> ks) g1 of
       (_, new_roots, g2) \<Rightarrow> Inr (new_roots, flush_runs w run g2)) = (Inr (ns, g') :: _ res)"
    by (auto simp: get_new_root_nodes_def res_iffs)
  obtain maybe ns' g2 where pro: "promote_non_empty_to_root w (case init of None \<Rightarrow> [] | Some ks \<Rightarrow> ks) g1 = (maybe, ns', g2)"
    by (cases "promote_non_empty_to_root w (case init of None \<Rightarrow> [] | Some ks \<Rightarrow> ks) g1") auto
  have g': "ns = ns'" "g' = flush_runs w run g2" using rest by (simp_all add: pro)
  show "opens ns {} g g'"
    using same_work_opens [OF add_incremental_records_work(1) [OF add] promotes(1) [OF pro]] by (simp add: g')
  show "going M w g'" if "runs_its_batch run" "going M w g"
    unfolding g' by (rule flush_runs_live [OF that(1) promotes(2) [OF pro add_incremental_records_work(2) [OF add that(2)]]])
qed

lemma drop_results_success: "\<exists>ss. drop_results w rs g = g\<lparr>ig_success := ss\<rparr>"
proof -
  have "\<exists>ss. foldl (\<lambda>g (res, r). g\<lparr>ig_success := put_ref (ig_success g) r (filter (\<lambda>x. gr_ref x \<noteq> gr_ref res) (successes g r))\<rparr>) g ps
      = g\<lparr>ig_success := ss\<rparr>" for ps :: "('a group_result \<times> nat) list"
  proof (induction ps rule: rev_induct)
    case Nil
    show ?case by (rule exI [of _ "ig_success g"]) simp
  next
    case (snoc p ps)
    then show ?case by (auto split: prod.splits)
  qed
  then show ?thesis by (simp add: drop_results_def)
qed

lemma settle_group_fields:
  "\<exists>ps ss. settle_group res ms g = g\<lparr>ig_pending := ps, ig_success := ss\<rparr>
     \<and> (\<forall>r. at_ref ps r = (if r \<in> set ms then filter (\<lambda>x. x \<noteq> gr_group res) (pend g r) else pend g r))"
proof (induction ms rule: rev_induct)
  case Nil
  show ?case by (intro exI [of _ "ig_pending g"] exI [of _ "ig_success g"]) (simp add: settle_group_def)
next
  case (snoc r ms)
  then obtain ps ss where IH: "settle_group res ms g = g\<lparr>ig_pending := ps, ig_success := ss\<rparr>"
    and at: "\<And>r. at_ref ps r = (if r \<in> set ms then filter (\<lambda>x. x \<noteq> gr_group res) (pend g r) else pend g r)" by blast
  show ?case
    by (intro exI [of _ "put_ref ps r (filter (\<lambda>x. x \<noteq> gr_group res) (at_ref ps r))"] exI [of _ "put_ref ss r (at_ref ss r @ [res])"])
      (use IH in \<open>auto simp: settle_group_def at\<close>)
qed

lemma opens_removed:
  assumes "opens ns {} ((remove_root n g)\<lparr>ig_success := ss\<rparr>) g'"
  shows "opens ns {n} g g'"
proof -
  have "set (filter (\<lambda>m. m \<noteq> n) (ig_roots g)) = set (ig_roots g) - {n}" by auto
  then show ?thesis using assms by (simp add: opens_def remove_root_def)
qed

lemma in_roots_removed [simp]: "n \<in> set (ig_roots (remove_root m g)) \<longleftrightarrow> n \<noteq> m \<and> n \<in> set (ig_roots g)"
  by (auto simp: remove_root_def)

lemma live_remove_root:
  assumes "going M w g"
  shows "going M w (remove_root m g)"
proof -
  have 1: "shared_pending w (remove_root n g) = shared_pending w g" "flying (remove_root n g) x = flying g x"
    "pumping (remove_root n g) s = pumping g s" "pend (remove_root n g) p = pend g p" for n x s p
    by (simp_all add: shared_pending_def flying_def pumping_def remove_root_def)
  show ?thesis unfolding going_def 1 in_roots_removed using assms unfolding going_def by blast
qed

lemma complete_deferred_fragment_opens:
  assumes "complete_deferred_fragment w run r g = Some (ns, results, g')"
  shows "opens ns {Frag r} g g'" "Frag r \<in> set (ig_roots g)" "pend g r = []" "Frag r \<notin> set ns" "ig_pending g' = ig_pending g"
    and "runs_its_batch run \<Longrightarrow> going M w g \<Longrightarrow> going M w g'"
proof -
  let ?g1 = "drop_results w (successes g r) (remove_root (Frag r) g)"
  obtain maybe ns' g2 where pro: "promote_non_empty_to_root w (kids ?g1 r) ?g1 = (maybe, ns', g2)"
    by (cases "promote_non_empty_to_root w (kids ?g1 r) ?g1") auto
  have root: "Frag r \<in> set (ig_roots g)" and none_left: "pend g r = []"
    and g': "ns = ns'" "g' = flush_runs w run (g2\<lparr>ig_children := put_ref (ig_children g2) r maybe\<rparr>)"
    using assms by (auto simp: complete_deferred_fragment_def pro split: if_splits)
  obtain ss where g1: "?g1 = (remove_root (Frag r) g)\<lparr>ig_success := ss\<rparr>" using drop_results_success by blast
  show "Frag r \<in> set (ig_roots g)" by (fact root)
  show "pend g r = []" by (fact none_left)
  show "opens ns {Frag r} g g'" 
    using opens_removed [OF promotes(1) [OF pro, unfolded g1]] by (simp add: g')
  show "ig_pending g' = ig_pending g" using promotes(3) [OF pro] unfolding g' g1 by (simp add: flush_runs_fields remove_root_def)
  show "Frag r \<notin> set ns" 
  proof
    assume "Frag r \<in> set ns"
    then have "pend ?g1 r \<noteq> []" using promotes(4) [OF pro] by (simp add: g')
    moreover have "pend ?g1 r = pend g r" unfolding g1 by (simp add: remove_root_def)
    ultimately show False using none_left by simp
  qed
  show "going M w g'" if run: "runs_its_batch run" and l: "going M w g"
  proof -
    have "going M w ?g1" unfolding g1 using live_remove_root [OF l] by simp
    then show ?thesis unfolding g' using promotes(2) [OF pro] by (intro flush_runs_live [OF run]) simp
  qed
qed

section \<open>Ids\<close>

text \<open>\<open>cs\<close> are the ids completed so far and \<open>R\<close> the open nodes. An announced id is open, completed, or lost to
  a second announcement of its node, and then there are fewer nodes with an id than ids.\<close>

definition ids_ok :: "(inc_node \<times> nat) list \<Rightarrow> nat \<Rightarrow> inc_node set \<Rightarrow> nat list \<Rightarrow> bool" where
  "ids_ok ids next_id R cs = (distinct (map fst ids) \<and> distinct (map snd ids) \<and> snd ` set ids \<subseteq> {..<next_id}
     \<and> R \<subseteq> fst ` set ids \<and> distinct cs \<and> set cs \<subseteq> {..<next_id}
     \<and> (\<forall>n i. n \<in> R \<longrightarrow> map_of ids n = Some i \<longrightarrow> i \<notin> set cs)
     \<and> (length ids = next_id \<longrightarrow> {..<next_id} \<subseteq> set cs \<union> {i. \<exists>n \<in> R. map_of ids n = Some i}))"

lemma ids_ok_length: "ids_ok ids k R cs \<Longrightarrow> length ids \<le> k"
  using distinct_card [of "map snd ids"] card_mono [of "{..<k}" "snd ` set ids"]
  by (simp add: ids_ok_def)

lemma ids_ok_injective:
  assumes "ids_ok ids k R cs" "map_of ids n = Some i" "map_of ids m = Some i"
  shows "m = n"
proof -
  have "(n, i) \<in> set ids" "(m, i) \<in> set ids" using assms(2,3) by (auto dest: map_of_SomeD)
  moreover have "distinct (map snd ids)" using assms(1) by (simp add: ids_ok_def)
  ultimately show ?thesis by (force simp: distinct_map inj_on_def)
qed

lemma ids_ok_announce:
  assumes "ids_ok ids k R cs"
  shows "ids_ok (set_id ids n k) (k + 1) (insert n R) cs"
proof -
  have len: "length ids \<le> k" by (rule ids_ok_length [OF assms])
  have old: "distinct (map fst ids)" "distinct (map snd ids)" "snd ` set ids \<subseteq> {..<k}" "R \<subseteq> fst ` set ids"
    "distinct cs" "set cs \<subseteq> {..<k}" "\<And>n i. n \<in> R \<Longrightarrow> map_of ids n = Some i \<Longrightarrow> i \<notin> set cs"
    "length ids = k \<Longrightarrow> {..<k} \<subseteq> set cs \<union> {i. \<exists>n \<in> R. map_of ids n = Some i}"
    using assms by (auto simp: ids_ok_def)
  have keys: "fst ` set (set_id ids n k) = insert n (fst ` set ids)"
    using arg_cong [OF set_id_keys [of ids n k], of set] by (auto split: if_splits)
  have "distinct (map fst (set_id ids n k))" using old(1) unfolding set_id_keys by (auto simp: image_iff)
  moreover have "distinct (map snd (set_id ids n k))" using old(2,3) by (intro distinct_set_id) auto
  moreover have "snd ` set (set_id ids n k) \<subseteq> {..<k + 1}" using set_id_values [of ids n k] old(3) by force
  moreover have "insert n R \<subseteq> fst ` set (set_id ids n k)" using old(4) keys by auto
  moreover have "i \<notin> set cs" if "m \<in> insert n R" "map_of (set_id ids n k) m = Some i" for m i
    using that old(6,7) by (auto split: if_splits)
  moreover have "{..<k + 1} \<subseteq> set cs \<union> {i. \<exists>m \<in> insert n R. map_of (set_id ids n k) m = Some i}"
    if l: "length (set_id ids n k) = k + 1"
  proof -
    have "length (map fst (set_id ids n k)) = k + 1" using l by simp
    then have new: "n \<notin> fst ` set ids" "length ids = k" using len unfolding set_id_keys by (auto split: if_splits)
    then have "n \<notin> R" using old(4) by auto
    have "{..<k} \<subseteq> set cs \<union> {i. \<exists>n \<in> R. map_of ids n = Some i}" using old(8) new(2) by blast
    have "i \<in> set cs \<union> {i. \<exists>m \<in> insert n R. map_of (set_id ids n k) m = Some i}" if "i < k + 1" for i
    proof (cases "i = k")
      case False
      then have "i \<in> set cs \<union> {i. \<exists>n \<in> R. map_of ids n = Some i}" using that \<open>{..<k} \<subseteq> _\<close> by (auto simp: less_Suc_eq)
      then show ?thesis using \<open>n \<notin> R\<close> by fastforce
    qed simp
    then show ?thesis by blast
  qed
  ultimately show ?thesis using old(5,6) unfolding ids_ok_def by fastforce
qed

lemma ids_ok_close:
  assumes "ids_ok ids k R cs" "n \<in> R"
  shows "\<exists>i. map_of ids n = Some i \<and> i < k \<and> ids_ok ids k (R - {n}) (cs @ [i])"
proof -
  have "n \<in> fst ` set ids" using assms by (auto simp: ids_ok_def)
  then obtain i where i: "map_of ids n = Some i" by (cases "map_of ids n") (auto simp: map_of_eq_None_iff)
  then have k: "i < k" using assms(1) by (auto simp: ids_ok_def dest: map_of_SomeD)
  have fresh: "i \<notin> set cs" using assms i by (auto simp: ids_ok_def)
  have other: "j \<noteq> i" if "m \<noteq> n" "map_of ids m = Some j" for m j
    using ids_ok_injective [OF assms(1) i] that by blast
  have cover: "{..<k} \<subseteq> set (cs @ [i]) \<union> {j. \<exists>m \<in> R - {n}. map_of ids m = Some j}"
    if "{..<k} \<subseteq> set cs \<union> {j. \<exists>m \<in> R. map_of ids m = Some j}"
    using that i by fastforce
  have "ids_ok ids k (R - {n}) (cs @ [i])"
    using assms(1) fresh k other cover unfolding ids_ok_def by auto
  then show ?thesis using i k by blast
qed

section \<open>The publisher\<close>

definition known_streams :: "'e publisher \<Rightarrow> bool" where
  "known_streams pb = (\<forall>s. s \<in> set (ig_pumps (pb_graph pb)) \<or> s \<in> set (concat (map batch_streams (ig_queue (pb_graph pb))))
     \<longrightarrow> Strm s \<in> fst ` set (pb_ids pb))"

definition pub_ok :: "'e publisher \<Rightarrow> nat list \<Rightarrow> bool" where
  "pub_ok pb cs = (ids_ok (pb_ids pb) (pb_next pb) (set (ig_roots (pb_graph pb))) cs \<and> distinct (ig_roots (pb_graph pb)) \<and> known_streams pb)"

lemma to_pending_ids:
  assumes "to_pending w ns pb = (p, pb')" "ids_ok (pb_ids pb) (pb_next pb) R cs"
  shows "ids_ok (pb_ids pb') (pb_next pb') (R \<union> set ns) cs \<and> map fst p = [pb_next pb..<pb_next pb'] \<and> pb_next pb \<le> pb_next pb'
    \<and> pb_graph pb' = pb_graph pb \<and> fst ` set (pb_ids pb') = fst ` set (pb_ids pb) \<union> set ns
    \<and> (\<forall>n. n \<notin> set ns \<longrightarrow> map_of (pb_ids pb') n = map_of (pb_ids pb) n)"
  using assms
proof (induction ns arbitrary: p pb R)
  case (Cons n ns)
  let ?pb = "pb\<lparr>pb_next := pb_next pb + 1, pb_ids := set_id (pb_ids pb) n (pb_next pb)\<rparr>"
  obtain rest where run: "to_pending w ns ?pb = (rest, pb')" and p: "p = (pb_next pb, w_path w n, w_label w n) # rest"
    using Cons.prems(1) by (auto simp: Let_def split: prod.splits)
  have "ids_ok (pb_ids ?pb) (pb_next ?pb) (insert n R) cs" using ids_ok_announce [OF Cons.prems(2)] by simp
  note IH = Cons.IH [OF run this]
  have keys: "fst ` set (set_id (pb_ids pb) n (pb_next pb)) = insert n (fst ` set (pb_ids pb))"
    using arg_cong [OF set_id_keys [of "pb_ids pb" n "pb_next pb"], of set] by (auto split: if_splits)
  have "map fst p = [pb_next pb..<pb_next pb']" using IH p upt_conv_Cons [of "pb_next pb" "pb_next pb'"] by simp
  moreover have "R \<union> set (n # ns) = insert n R \<union> set ns" by auto
  ultimately show ?case using IH keys by (auto simp: Un_insert_left)
qed simp

lemma to_pending_graph: "to_pending w ns pb = (p, pb') \<Longrightarrow> pb_graph pb' = pb_graph pb"
  by (induction ns arbitrary: pb p) (auto simp: Let_def split: prod.splits)

text \<open>What a handler gives the payload and leaves in the publisher.\<close>

fun entry_id :: "'e inc_entry \<Rightarrow> nat option" where
  "entry_id (Defer_Entry i sub_path data errs) = i"
| "entry_id (Stream_Entry i items errs) = i"

definition handled ::
  "'e publisher \<Rightarrow> nat list \<Rightarrow> pending_entry list \<Rightarrow> 'e inc_entry list \<Rightarrow> 'e completed_entry list \<Rightarrow> 'e publisher \<Rightarrow> bool" where
  "handled pb cs p i c pb' = (\<exists>new. map fst c = map Some new \<and> pub_ok pb' (cs @ new)
     \<and> pb_next pb \<le> pb_next pb' \<and> map fst p = [pb_next pb..<pb_next pb']
     \<and> entry_id ` set i \<subseteq> Some ` {..<pb_next pb'} \<and> (p \<noteq> [] \<longrightarrow> i \<noteq> [] \<or> c \<noteq> []))"

lemma handled_nothing: "pub_ok pb cs \<Longrightarrow> handled pb cs [] [] [] pb"
  by (auto simp: handled_def)

lemma handled_trans:
  assumes "handled pb cs p i c pb1" "handled pb1 (cs @ map (the \<circ> fst) c) p' i' c' pb2"
  shows "handled pb cs (p @ p') (i @ i') (c @ c') pb2"
proof -
  obtain new where new: "map fst c = map Some new" "pb_next pb \<le> pb_next pb1" "map fst p = [pb_next pb..<pb_next pb1]"
    "entry_id ` set i \<subseteq> Some ` {..<pb_next pb1}" "p \<noteq> [] \<longrightarrow> i \<noteq> [] \<or> c \<noteq> []" using assms(1) by (auto simp: handled_def)
  have "map (the \<circ> fst) c = map the (map fst c)" by simp
  also have "\<dots> = new" unfolding new(1) by (simp add: comp_def)
  finally have c: "map (the \<circ> fst) c = new" .
  obtain new' where new': "map fst c' = map Some new'" "pub_ok pb2 ((cs @ new) @ new')" "pb_next pb1 \<le> pb_next pb2"
    "map fst p' = [pb_next pb1..<pb_next pb2]" "entry_id ` set i' \<subseteq> Some ` {..<pb_next pb2}" "p' \<noteq> [] \<longrightarrow> i' \<noteq> [] \<or> c' \<noteq> []"
    using assms(2) by (auto simp: handled_def c)
  have "[pb_next pb..<pb_next pb1] @ [pb_next pb1..<pb_next pb2] = [pb_next pb..<pb_next pb2]"
    using new(2) new'(3) by (metis le_add_diff_inverse upt_add_eq_append)
  moreover have "Some ` {..<pb_next pb1} \<subseteq> Some ` {..<pb_next pb2}" using new'(3) by auto
  ultimately show ?thesis
    unfolding handled_def using new new' by (intro exI [of _ "new @ new'"]) auto
qed

text \<open>Announcing the nodes a change of the graph opened.\<close>

lemma pub_ok_opens:
  assumes pb: "ids_ok (pb_ids pb) (pb_next pb) (set (ig_roots g0) - gone) cs" "distinct (ig_roots g0)"
      "known_streams (pb\<lparr>pb_graph := g0\<rparr>)"
    and g: "opens ns gone g0 g" and p: "to_pending w ns (pb\<lparr>pb_graph := g\<rparr>) = (p, pb')"
  shows "pub_ok pb' cs" "map fst p = [pb_next pb..<pb_next pb']" "pb_next pb \<le> pb_next pb'" "pb_graph pb' = g"
    and "n \<notin> set ns \<Longrightarrow> map_of (pb_ids pb') n = map_of (pb_ids pb) n"
proof -
  have "ids_ok (pb_ids (pb\<lparr>pb_graph := g\<rparr>)) (pb_next (pb\<lparr>pb_graph := g\<rparr>)) (set (ig_roots g0) - gone) cs" using pb(1) by simp
  note ids = to_pending_ids [OF p this]
  have "(set (ig_roots g0) - gone) \<union> set ns = set (ig_roots g)" "distinct (ig_roots g)" using g pb(2) by (auto simp: opens_def)
  moreover have "known_streams pb'"
    using pb(3) g ids unfolding known_streams_def opens_def by auto
  ultimately show "pub_ok pb' cs" using ids by (auto simp: pub_ok_def)
  show "map fst p = [pb_next pb..<pb_next pb']" "pb_next pb \<le> pb_next pb'" "pb_graph pb' = g" using ids by auto
  show "n \<notin> set ns \<Longrightarrow> map_of (pb_ids pb') n = map_of (pb_ids pb) n" using ids by auto
qed

lemma best_id_known:
  assumes "map_of (pb_ids pb) (Frag r) = Some i"
  shows "\<exists>j. fst (best_id_and_sub_path w pb r res) = Some j \<and> j \<in> snd ` set (pb_ids pb)"
proof -
  let ?f = "\<lambda>(best, len) r'. if r' = r then (best, len)
     else (case map_of (pb_ids pb) (Frag r') of None \<Rightarrow> (best, len)
       | Some i \<Rightarrow> (if length (w_path w (Frag r')) > len then (Some i, length (w_path w (Frag r'))) else (best, len)))"
  define K where "K = snd ` set (pb_ids pb)"
  let ?known = "\<lambda>b :: nat option \<times> nat. \<exists>j. fst b = Some j \<and> j \<in> K"
  have known: "map_of (pb_ids pb) n = Some j \<Longrightarrow> j \<in> K" for n j by (force simp: K_def dest: map_of_SomeD)
  have step: "?known (?f b m)" if "?known b" for b m
    using that known [of "Frag m"] by (auto split: option.splits prod.splits)
  have "?known b \<Longrightarrow> ?known (foldl ?f b ms)" for b ms
    by (induction ms arbitrary: b) (simp_all only: foldl_Nil foldl_Cons step)
  moreover have "i \<in> K" using known assms by blast
  ultimately have "?known (foldl ?f (map_of (pb_ids pb) (Frag r), length (w_path w (Frag r))) (w_members w (gr_group res)))"
    using assms by simp
  then show ?thesis unfolding K_def [symmetric] by (auto simp: best_id_and_sub_path_def split: prod.splits)
qed

lemma pub_ok_member:
  assumes "pub_ok pb cs" "Frag r \<in> set (ig_roots (pb_graph pb))"
  shows "\<exists>i. map_of (pb_ids pb) (Frag r) = Some i \<and> i < pb_next pb
    \<and> ids_ok (pb_ids pb) (pb_next pb) (set (ig_roots (pb_graph pb)) - {Frag r}) (cs @ [i])"
  using ids_ok_close [of "pb_ids pb" "pb_next pb" "set (ig_roots (pb_graph pb))" cs "Frag r"] assms by (simp add: pub_ok_def)

lemma set_roots_removed: "set (ig_roots (remove_root n g)) = set (ig_roots g) - {n}"
  by auto

lemma handled_single:
  assumes "pub_ok pb' (cs @ [i])" "pb_next pb \<le> pb_next pb'" "map fst p = [pb_next pb..<pb_next pb']"
    "entry_id ` set es \<subseteq> Some ` {..<pb_next pb'}"
  shows "handled pb cs p es [(Some i, errs)] pb'"
  using assms by (auto simp: handled_def intro!: exI [of _ "[i]"])

lemma fail_members_handled:
  "pub_ok pb cs \<Longrightarrow> fail_members ms errs pb = (c, pb') \<Longrightarrow> handled pb cs [] [] c pb'"
proof (induction ms arbitrary: pb cs c)
  case (Cons r ms)
  obtain was_root g where rm: "remove_deferred_fragment r (pb_graph pb) = (was_root, g)" by fastforce
  obtain rest where run: "fail_members ms errs (pb\<lparr>pb_graph := g\<rparr>) = (rest, pb')"
    and c: "c = (if was_root then [(map_of (pb_ids pb) (Frag r), errs)] else []) @ rest"
    using Cons.prems(2) rm by (auto split: prod.splits)
  show ?case
  proof (cases "Frag r \<in> set (ig_roots (pb_graph pb))")
    case True
    then have g: "was_root" "g = remove_root (Frag r) (pb_graph pb)" using rm by (auto simp: remove_deferred_fragment_def)
    from pub_ok_member [OF Cons.prems(1) True] obtain i where i: "map_of (pb_ids pb) (Frag r) = Some i"
      "ids_ok (pb_ids pb) (pb_next pb) (set (ig_roots (pb_graph pb)) - {Frag r}) (cs @ [i])" by blast
    have "known_streams (pb\<lparr>pb_graph := g\<rparr>) = known_streams pb" by (simp add: known_streams_def g remove_root_def)
    then have ok: "pub_ok (pb\<lparr>pb_graph := g\<rparr>) (cs @ [i])"
      using i(2) Cons.prems(1) by (simp add: pub_ok_def g set_roots_removed) (simp add: remove_root_def)
    have "handled pb cs [] [] [(Some i, errs)] (pb\<lparr>pb_graph := g\<rparr>)"
      by (rule handled_single [OF ok]) simp_all
    from handled_trans [OF this, of "[]" "[]" rest pb'] Cons.IH [OF ok run]
    show ?thesis by (simp add: c g(1) i(1))
  next
    case False
    then have "\<not> was_root" "g = pb_graph pb" using rm by (auto simp: remove_deferred_fragment_def)
    then show ?thesis using Cons.IH [OF Cons.prems(1)] run c by simp
  qed
qed (simp add: handled_nothing)

lemma complete_members_handled:
  "pub_ok pb cs \<Longrightarrow> complete_members w run ms pb = (p, i, c, pb') \<Longrightarrow> handled pb cs p i c pb'"
proof (induction ms arbitrary: pb cs p i c)
  case (Cons r ms)
  show ?case
  proof (cases "complete_deferred_fragment w run r (pb_graph pb)")
    case None
    then show ?thesis using Cons.IH [OF Cons.prems(1)] Cons.prems(2) by simp
  next
    case (Some done')
    obtain ns results g where done': "done' = (ns, results, g)" by (cases done')
    obtain p1 pb1 where pend1: "to_pending w ns (pb\<lparr>pb_graph := g\<rparr>) = (p1, pb1)" by fastforce
    obtain p2 i2 c2 where run: "complete_members w run ms pb1 = (p2, i2, c2, pb')"
      and out: "p = p1 @ p2" "i = map (defer_entry w pb1 r) results @ i2" "c = (map_of (pb_ids pb1) (Frag r), []) # c2"
      using Cons.prems(2) Some done' pend1 by (auto split: prod.splits)
    note opened = complete_deferred_fragment_opens [OF Some [unfolded done']]
    from pub_ok_member [OF Cons.prems(1) opened(2)] obtain j where j: "map_of (pb_ids pb) (Frag r) = Some j"
      "ids_ok (pb_ids pb) (pb_next pb) (set (ig_roots (pb_graph pb)) - {Frag r}) (cs @ [j])" by blast
    have pre: "distinct (ig_roots (pb_graph pb))" "known_streams (pb\<lparr>pb_graph := pb_graph pb\<rparr>)"
      using Cons.prems(1) by (simp_all add: pub_ok_def known_streams_def)
    note ann = pub_ok_opens [OF j(2) pre opened(1) pend1]
    have j1: "map_of (pb_ids pb1) (Frag r) = Some j" using ann(5) [OF opened(4)] j(1) by simp
    have ids: "snd ` set (pb_ids pb1) \<subseteq> {..<pb_next pb1}" using ann(1) by (simp add: pub_ok_def ids_ok_def)
    have entries: "entry_id (defer_entry w pb1 r res) \<in> Some ` {..<pb_next pb1}" for res
      using best_id_known [OF j1, of w res] ids by (auto simp: defer_entry_def split: prod.splits)
    have "handled pb cs p1 (map (defer_entry w pb1 r) results) [(Some j, [])] pb1"
      by (rule handled_single [OF ann(1) ann(3,2)]) (use entries in auto)
    from handled_trans [OF this] Cons.IH [OF ann(1) run]
    show ?thesis by (simp add: out j1)
  qed
qed (simp add: handled_nothing)

lemma opens_nothing_ok:
  assumes "opens [] {} g0 g" "pub_ok (pb\<lparr>pb_graph := g0\<rparr>) cs"
  shows "pub_ok (pb\<lparr>pb_graph := g\<rparr>) cs"
  using assms by (auto simp: opens_def pub_ok_def known_streams_def)

lemma opens_nothing_trans: "opens [] {} g g1 \<Longrightarrow> opens [] {} g1 g2 \<Longrightarrow> opens [] {} g g2"
  by (simp add: opens_def)

lemma settle_group_opens: "opens [] {} g (settle_group res ms g)"
  using settle_group_fields [of res ms g] by (auto simp: opens_def)

lemma add_completed_group_opens:
  assumes "add_completed_group d w run res g = Inr g'"
  shows "opens [] {} g g'"
proof (cases "gr_children res = []")
  case True
  then show ?thesis using assms settle_group_opens by (auto simp: add_completed_group_def Let_def)
next
  case False
  then obtain g2 init where add: "add_incremental_records d w (Some (w_members w (gr_group res))) (gr_children res)
      (settle_group res (w_members w (gr_group res)) g, None) = Inr (g2, init)" and g': "g' = flush_runs w run g2"
    using assms by (auto simp: add_completed_group_def Let_def res_iffs)
  show ?thesis unfolding g' opens_flush
    by (rule opens_nothing_trans [OF settle_group_opens same_work_opens_nothing [OF add_incremental_records_work(1) [OF add]]])
qed

lemma handle_completed_handled:
  assumes ok: "pub_ok pb cs" and known: "\<And>s. s \<in> set (batch_streams c) \<Longrightarrow> Strm s \<in> fst ` set (pb_ids pb)"
    and run: "handle_completed d w run c pb = Inr (p, i, cd, pb')"
  shows "handled pb cs p i cd pb'"
proof (cases c)
  case (Group_Done res)
  show ?thesis
  proof (cases "gr_failed res")
    case True
    then obtain pb1 where "fail_members (w_members w (gr_group res)) (gr_errors res) pb = (cd, pb')" "p = []" "i = []"
      using run Group_Done by (auto simp: handle_completed_def handle_execution_group_def Let_def split: prod.splits)
    then show ?thesis using fail_members_handled [OF ok] by simp
  next
    case False
    then obtain g where add: "add_completed_group d w run (res\<lparr>gr_children := filter_group_children w res\<rparr>) (pb_graph pb) = Inr g"
      and cm: "complete_members w run (w_members w (gr_group res)) (pb\<lparr>pb_graph := g\<rparr>) = (p, i, cd, pb')"
      using run Group_Done by (auto simp: handle_completed_def handle_execution_group_def Let_def res_iffs)
    have "pub_ok (pb\<lparr>pb_graph := g\<rparr>) cs"
      by (rule opens_nothing_ok [OF add_completed_group_opens [OF add]]) (use ok in simp)
    from complete_members_handled [OF this cm] show ?thesis by (simp add: handled_def)
  qed
next
  case (Batch_Done b)
  let ?id = "map_of (pb_ids pb) (Strm (sb_stream b))"
  have "Strm (sb_stream b) \<in> fst ` set (pb_ids pb)" using known Batch_Done by simp
  then obtain j where j: "?id = Some j" by (cases ?id) (auto simp: map_of_eq_None_iff)
  have jk: "j < pb_next pb" using ok map_of_SomeD [OF j] by (auto simp: pub_ok_def ids_ok_def)
  show ?thesis
  proof (cases "sb_done b")
    case True
    let ?g = "remove_root (Strm (sb_stream b)) (pb_graph pb)"
    have root: "Strm (sb_stream b) \<in> set (ig_roots (pb_graph pb))"
      and out: "p = []" "i = []" "cd = [(Some j, sb_errors b)]" "pb' = pb\<lparr>pb_graph := ?g\<rparr>"
      using run Batch_Done True j
      by (auto simp: handle_completed_def handle_stream_batch_def Let_def remove_stream_def res_iffs split: if_splits)
    have "ids_ok (pb_ids pb) (pb_next pb) (set (ig_roots (pb_graph pb)) - {Strm (sb_stream b)}) (cs @ [j])"
      using ids_ok_close [of "pb_ids pb" "pb_next pb" _ cs, OF _ root] ok j by (auto simp: pub_ok_def)
    then have "pub_ok pb' (cs @ [j])" using ok unfolding out pub_ok_def known_streams_def
      by (simp add: set_roots_removed) (simp add: remove_root_def)
    then show ?thesis unfolding out(1,2,3) by (rule handled_single) (simp_all add: out(4))
  next
    case False
    show ?thesis
    proof (cases "sb_children b = []")
      case True
      then have "p = []" "i = [Stream_Entry (Some j) (sb_items b) (sb_errors b)]" "cd = []" "pb' = pb"
        using run Batch_Done False j by (auto simp: handle_completed_def handle_stream_batch_def Let_def)
      then show ?thesis using ok jk by (auto simp: handled_def)
    next
      case ch: False
      have "bind_res (get_new_root_nodes d w run (sb_children b) (pb_graph pb)) (\<lambda>(ns, g).
          case to_pending w ns (pb\<lparr>pb_graph := g\<rparr>) of (pending, pb') \<Rightarrow>
            Inr (pending, [Stream_Entry (Some j) (sb_items b) (sb_errors b)], [], pb')) = Inr (p, i, cd, pb')"
        using run Batch_Done False j ch by (simp add: handle_completed_def handle_stream_batch_def)
      then obtain ns g where new: "get_new_root_nodes d w run (sb_children b) (pb_graph pb) = Inr (ns, g)"
        and rest: "(case to_pending w ns (pb\<lparr>pb_graph := g\<rparr>) of (pending, pb') \<Rightarrow>
            Inr (pending, [Stream_Entry (Some j) (sb_items b) (sb_errors b)], [], pb')) = (Inr (p, i, cd, pb') :: _ res)"
        by (auto simp: res_iffs)
      have pend: "to_pending w ns (pb\<lparr>pb_graph := g\<rparr>) = (p, pb')"
        and out: "i = [Stream_Entry (Some j) (sb_items b) (sb_errors b)]" "cd = []"
        using rest by (auto split: prod.splits)
      have pre: "ids_ok (pb_ids pb) (pb_next pb) (set (ig_roots (pb_graph pb)) - {}) cs" "distinct (ig_roots (pb_graph pb))"
        "known_streams (pb\<lparr>pb_graph := pb_graph pb\<rparr>)" using ok by (simp_all add: pub_ok_def known_streams_def)
      note ann = pub_ok_opens [OF pre get_new_root_nodes_opens(1) [OF new] pend]
      show ?thesis unfolding handled_def out using ann jk by (intro exI [of _ "[]"]) auto
    qed
  qed
qed

end
