(* ===== verification/Inc_Progress.thy ===== *)
theory Inc_Progress
  imports Inc_Laws
begin

text \<open>
  The steps of a delivery keep the protocol invariant and the progress invariant of the record graph.
\<close>

section \<open>Progress through the handlers\<close>

lemma live_settle:
  assumes l: "going {} w g" and q: "ig_queue g = Group_Done res # rest" and ms: "ms = w_members w (gr_group res)"
    and same: "gr_group res' = gr_group res"
  shows "going (set ms) w (settle_group res' ms (g\<lparr>ig_queue := rest\<rparr>))"
proof -
  let ?x = "gr_group res"
  obtain ps ss where g': "settle_group res' ms (g\<lparr>ig_queue := rest\<rparr>) = g\<lparr>ig_queue := rest, ig_pending := ps, ig_success := ss\<rparr>"
    and at: "\<And>r. at_ref ps r = (if r \<in> set ms then filter (\<lambda>x. x \<noteq> ?x) (pend g r) else pend g r)"
    using same settle_group_fields [of res' ms "g\<lparr>ig_queue := rest\<rparr>"] by auto
  let ?g = "g\<lparr>ig_queue := rest, ig_pending := ps\<rparr>"
  have old: "r \<in> set (w_members w y) \<and> (\<forall>r' \<in> set (w_members w y). y \<in> set (pend g r'))" if "y \<in> set (pend g r)" for r y
    using l that unfolding going_def shared_pending_def by blast
  have mem: "y \<in> set (pend ?g r) \<longleftrightarrow> y \<in> set (pend g r) \<and> y \<noteq> ?x" for r y
    using old [of ?x r] by (auto simp: at ms)
  have sh: "shared_pending w ?g" unfolding shared_pending_def mem using old by blast
  have fly: "flying ?g y" if "flying g y" "y \<noteq> ?x" for y using that by (auto simp: flying_def q)
  have pmp: "pumping ?g s = pumping g s" for s by (simp add: pumping_def q)
  have ne: "pend ?g r \<noteq> [] \<or> r \<in> set ms" if "pend g r \<noteq> []" for r using that by (simp add: at)
  have roots: "ig_roots ?g = ig_roots g" by simp
  have "going (set ms) w ?g"
    unfolding going_def roots pmp
  proof (intro conjI allI impI ballI)
    show "shared_pending w ?g" by (rule sh)
  next
    fix r assume "Frag r \<in> set (ig_roots g)"
    then show "pend ?g r \<noteq> [] \<or> r \<in> set ms" using l ne unfolding going_def by blast
  next
    fix r y assume r: "Frag r \<in> set (ig_roots g)" and y: "y \<in> set (pend ?g r)"
    then have "flying g y" using l unfolding mem going_def by blast
    then show "flying ?g y" using y fly unfolding mem by blast
  next
    fix s assume "Strm s \<in> set (ig_roots g)"
    then show "pumping g s" using l unfolding going_def by blast
  qed
  then show ?thesis unfolding g' using live_success [of "set ms" w ss ?g] by simp
qed

lemma live_shrink:
  assumes "going M w g" "\<And>r. r \<in> M \<Longrightarrow> Frag r \<in> set (ig_roots g) \<Longrightarrow> pend g r = [] \<Longrightarrow> r \<in> M'"
  shows "going M' w g"
  using assms unfolding going_def by blast

lemma complete_members_live:
  assumes run: "runs_its_batch run"
  shows "going M w (pb_graph pb) \<Longrightarrow> complete_members w run ms pb = (p, i, c, pb') \<Longrightarrow> going (M - set ms) w (pb_graph pb')"
proof (induction ms arbitrary: M pb p i c)
  case (Cons r ms)
  have "going (M - {r} - set ms) w (pb_graph pb')"
  proof (cases "complete_deferred_fragment w run r (pb_graph pb)")
    case None
    have "going (M - {r}) w (pb_graph pb)"
      by (rule live_shrink [OF Cons.prems(1)]) (use None in \<open>auto simp: complete_deferred_fragment_def Let_def split: if_splits prod.splits\<close>)
    then show ?thesis using Cons.IH None Cons.prems(2) by simp
  next
    case (Some done')
    obtain ns results g where done': "done' = (ns, results, g)" by (cases done')
    obtain p1 pb1 where pend1: "to_pending w ns (pb\<lparr>pb_graph := g\<rparr>) = (p1, pb1)" by fastforce
    obtain p2 i2 c2 where rest: "complete_members w run ms pb1 = (p2, i2, c2, pb')"
      using Cons.prems(2) Some done' pend1 by (auto split: prod.splits)
    note opened = complete_deferred_fragment_opens [OF Some [unfolded done']]
    have "pb_graph pb1 = g" using to_pending_graph [OF pend1] by simp
    moreover have "going (M - {r}) w g"
      by (rule live_shrink [OF opened(6) [OF run Cons.prems(1)]]) (use opened(1,4) in \<open>auto simp: opens_def\<close>)
    ultimately show ?thesis using Cons.IH [OF _ rest, of "M - {r}"] by simp
  qed
  moreover have "M - {r} - set ms = M - set (r # ms)" by auto
  ultimately show ?case by simp
qed simp

lemma fail_members_graph:
  "fail_members ms errs pb = (c, pb') \<Longrightarrow>
     pb_graph pb' = (pb_graph pb)\<lparr>ig_roots := filter (\<lambda>n. n \<notin> Frag ` set ms) (ig_roots (pb_graph pb))\<rparr>"
proof (induction ms arbitrary: pb c)
  case (Cons r ms)
  obtain was_root g where rm: "remove_deferred_fragment r (pb_graph pb) = (was_root, g)" by fastforce
  obtain rest where run: "fail_members ms errs (pb\<lparr>pb_graph := g\<rparr>) = (rest, pb')"
    using Cons.prems rm by (auto split: prod.splits)
  have "filter (\<lambda>m. m \<noteq> Frag r) (ig_roots (pb_graph pb)) = ig_roots (pb_graph pb)" if "Frag r \<notin> set (ig_roots (pb_graph pb))"
    using that by (auto simp: filter_id_conv)
  then have "g = (pb_graph pb)\<lparr>ig_roots := filter (\<lambda>m. m \<noteq> Frag r) (ig_roots (pb_graph pb))\<rparr>"
    using rm by (auto simp: remove_deferred_fragment_def remove_root_def split: if_splits)
  moreover have "filter (\<lambda>n. n \<notin> Frag ` set ms) (filter (\<lambda>m. m \<noteq> Frag r) ns) = filter (\<lambda>n. n \<notin> Frag ` set (r # ms)) ns" for ns
    by (induction ns) auto
  ultimately show ?case using Cons.IH [OF run] by simp
qed simp

lemma live_failed:
  assumes l: "going {} w g" and q: "ig_queue g = Group_Done res # rest" and ms: "ms = w_members w (gr_group res)"
  shows "going {} w (g\<lparr>ig_queue := rest, ig_roots := filter (\<lambda>n. n \<notin> Frag ` set ms) (ig_roots g)\<rparr>)"
proof -
  let ?g = "g\<lparr>ig_queue := rest, ig_roots := filter (\<lambda>n. n \<notin> Frag ` set ms) (ig_roots g)\<rparr>"
  have 1: "shared_pending w ?g = shared_pending w g" "pend ?g r = pend g r" "pumping ?g s = pumping g s" for r s
    by (simp_all add: shared_pending_def pumping_def q)
  have 2: "n \<in> set (ig_roots ?g) \<longleftrightarrow> n \<in> set (ig_roots g) \<and> n \<notin> Frag ` set ms" for n by auto
  have fly: "flying ?g y" if "flying g y" "y \<noteq> gr_group res" for y using that by (auto simp: flying_def q)
  have out: "r \<in> set ms" if "gr_group res \<in> set (pend g r)" for r
    using l that ms unfolding going_def shared_pending_def by blast
  show ?thesis unfolding going_def 1 2 using l fly out unfolding going_def by blast
qed

lemma live_batch:
  assumes l: "going {} w g" and q: "ig_queue g = Batch_Done b # rest"
  shows "sb_done b \<Longrightarrow> going {} w (remove_root (Strm (sb_stream b)) (g\<lparr>ig_queue := rest\<rparr>))"
    and "\<not> sb_done b \<Longrightarrow> going {} w (g\<lparr>ig_queue := rest\<rparr>)"
proof -
  let ?g = "g\<lparr>ig_queue := rest\<rparr>" and ?r = "remove_root (Strm (sb_stream b)) (g\<lparr>ig_queue := rest\<rparr>)"
  have 1: "shared_pending w ?g = shared_pending w g" "pend ?g r = pend g r" "flying ?g x = flying g x" "ig_roots ?g = ig_roots g" for r x
    by (simp_all add: shared_pending_def flying_def q)
  have 2: "shared_pending w ?r = shared_pending w g" "pend ?r r = pend g r" "flying ?r x = flying g x" for r x
    by (simp_all add: shared_pending_def flying_def q remove_root_def)
  have 3: "n \<in> set (ig_roots ?r) \<longleftrightarrow> n \<noteq> Strm (sb_stream b) \<and> n \<in> set (ig_roots g)" for n by simp
  have pmp: "pumping ?r s" if "pumping g s" "s \<noteq> sb_stream b" for s using that by (auto simp: pumping_def q remove_root_def split: if_splits)
  show "going {} w ?r" unfolding going_def 2 3 using l pmp unfolding going_def by blast
  show "going {} w ?g" if "\<not> sb_done b"
  proof -
    have "pumping ?g s = pumping g s" for s using that by (simp add: pumping_def q)
    then show ?thesis using l unfolding going_def 1 by simp
  qed
qed

lemma handle_next_live:
  assumes run: "runs_its_batch run" and l: "going {} w (dl_graph d)" and h: "handle_next depth w run d = Inr d'"
  shows "going {} w (dl_graph d')"
proof (cases "ig_queue (dl_graph d)")
  case Nil
  then show ?thesis using h l by (simp add: handle_next_def)
next
  case (Cons c rest)
  let ?pb = "(dl_pub d)\<lparr>pb_graph := (dl_graph d)\<lparr>ig_queue := rest\<rparr>\<rparr>"
  obtain p i cd pb' where hc: "handle_completed depth w run c ?pb = Inr (p, i, cd, pb')" and d': "dl_pub d' = pb'"
    using h Cons by (auto simp: handle_next_def res_iffs)
  have "going {} w (pb_graph pb')"
  proof (cases c)
    case (Group_Done res)
    note q = Cons [unfolded Group_Done]
    let ?ms = "w_members w (gr_group res)"
    show ?thesis
    proof (cases "gr_failed res")
      case True
      then have "fail_members ?ms (gr_errors res) ?pb = (cd, pb')"
        using hc Group_Done by (auto simp: handle_completed_def handle_execution_group_def Let_def split: prod.splits)
      from fail_members_graph [OF this] show ?thesis using live_failed [OF l q refl] by simp
    next
      case False
      let ?res = "res\<lparr>gr_children := filter_group_children w res\<rparr>"
      obtain g where add: "add_completed_group depth w run ?res ((dl_graph d)\<lparr>ig_queue := rest\<rparr>) = Inr g"
        and cm: "complete_members w run ?ms (?pb\<lparr>pb_graph := g\<rparr>) = (p, i, cd, pb')"
        using hc False Group_Done by (auto simp: handle_completed_def handle_execution_group_def Let_def res_iffs)
      have s: "going (set ?ms) w (settle_group ?res ?ms ((dl_graph d)\<lparr>ig_queue := rest\<rparr>))"
        by (rule live_settle [OF l q refl]) simp
      have "going (set ?ms) w g"
      proof (cases "gr_children ?res = []")
        case True
        then show ?thesis using add s by (simp add: add_completed_group_def Let_def)
      next
        case False
        then obtain g2 init where a: "add_incremental_records depth w (Some ?ms) (gr_children ?res)
            (settle_group ?res ?ms ((dl_graph d)\<lparr>ig_queue := rest\<rparr>), None) = Inr (g2, init)" and g: "g = flush_runs w run g2"
          using add by (auto simp: add_completed_group_def Let_def res_iffs)
        show ?thesis unfolding g by (rule flush_runs_live [OF run add_incremental_records_work(2) [OF a s]])
      qed
      then show ?thesis using complete_members_live [OF run _ cm, of "set ?ms"] by simp
    qed
  next
    case (Batch_Done b)
    note lb = live_batch [OF l Cons [unfolded Batch_Done]]
    show ?thesis
    proof (cases "sb_done b")
      case True
      then have "pb_graph pb' = remove_root (Strm (sb_stream b)) ((dl_graph d)\<lparr>ig_queue := rest\<rparr>)"
        using hc Batch_Done
        by (auto simp: handle_completed_def handle_stream_batch_def Let_def remove_stream_def res_iffs split: if_splits)
      then show ?thesis using lb(1) True by simp
    next
      case False
      show ?thesis
      proof (cases "sb_children b = []")
        case True
        then show ?thesis using hc Batch_Done False lb(2) by (auto simp: handle_completed_def handle_stream_batch_def Let_def)
      next
        case ch: False
        have "bind_res (get_new_root_nodes depth w run (sb_children b) ((dl_graph d)\<lparr>ig_queue := rest\<rparr>)) (\<lambda>(ns, g).
            case to_pending w ns (?pb\<lparr>pb_graph := g\<rparr>) of (pending, pb') \<Rightarrow>
              Inr (pending, [Stream_Entry (map_of (pb_ids (dl_pub d)) (Strm (sb_stream b))) (sb_items b) (sb_errors b)], [], pb')) = Inr (p, i, cd, pb')"
          using hc Batch_Done False ch by (simp add: handle_completed_def handle_stream_batch_def)
        then obtain ns g where new: "get_new_root_nodes depth w run (sb_children b) ((dl_graph d)\<lparr>ig_queue := rest\<rparr>) = Inr (ns, g)"
          and out: "(case to_pending w ns (?pb\<lparr>pb_graph := g\<rparr>) of (pending, pb') \<Rightarrow>
              Inr (pending, [Stream_Entry (map_of (pb_ids (dl_pub d)) (Strm (sb_stream b))) (sb_items b) (sb_errors b)], [], pb')) = (Inr (p, i, cd, pb') :: _ res)"
          by (auto simp: res_iffs)
        have pend: "to_pending w ns (?pb\<lparr>pb_graph := g\<rparr>) = (p, pb')" using out by (auto split: prod.splits)
        show ?thesis using get_new_root_nodes_opens(2) [OF new run lb(2) [OF False]] to_pending_graph [OF pend] by simp
      qed
    qed
  qed
  then show ?thesis by (simp add: d')
qed

section \<open>What the consumer has been sent\<close>

definition announced_ids :: "'e inc_payload list \<Rightarrow> nat list" where
  "announced_ids ps = concat (map (\<lambda>pl. map fst (pl_pending pl)) ps)"

definition completed_ids :: "'e inc_payload list \<Rightarrow> nat option list" where
  "completed_ids ps = concat (map (\<lambda>pl. map fst (pl_completed pl)) ps)"

definition data_ids :: "'e inc_payload list \<Rightarrow> nat option list" where
  "data_ids ps = concat (map (\<lambda>pl. map entry_id (pl_incremental pl)) ps)"

text \<open>What the first payloads name, they have announced.\<close>

definition announces_first :: "'e inc_payload list \<Rightarrow> bool" where
  "announces_first ps = (\<forall>k. set (data_ids (take k ps)) \<union> set (completed_ids (take k ps)) \<subseteq> Some ` set (announced_ids (take k ps)))"

lemmas sent_ids = announced_ids_def completed_ids_def data_ids_def

text \<open>\<open>hasNext\<close> is true of every payload but the last of a closed response.\<close>

definition ends_with_last :: "bool \<Rightarrow> 'e inc_payload list \<Rightarrow> bool" where
  "ends_with_last closed ps = (ps \<noteq> [] \<and> (\<forall>pl \<in> set (butlast ps). pl_has_next pl) \<and> pl_has_next (last ps) = (\<not> closed))"

definition payloads :: "'e delivery \<Rightarrow> 'e inc_payload list" where
  "payloads d = dl_sent d @ [dl_now d]"

definition in_order :: "'e delivery \<Rightarrow> bool" where
  "in_order d = ((\<exists>cs. completed_ids (payloads d) = map Some cs \<and> pub_ok (dl_pub d) cs)
     \<and> announced_ids (payloads d) = [0..<pb_next (dl_pub d)] \<and> set (data_ids (payloads d)) \<subseteq> Some ` {..<pb_next (dl_pub d)}
     \<and> announces_first (dl_sent d) \<and> (pl_pending (dl_now d) \<noteq> [] \<longrightarrow> pl_incremental (dl_now d) \<noteq> [] \<or> pl_completed (dl_now d) \<noteq> [])
     \<and> ends_with_last (dl_closed d) (dl_sent d) \<and> (dl_closed d \<longrightarrow> \<not> has_next (dl_graph d) \<and> dl_now d = nothing_yet))"

lemma announces_first_snoc:
  assumes "announces_first ps" "set (data_ids (ps @ [pl])) \<union> set (completed_ids (ps @ [pl])) \<subseteq> Some ` set (announced_ids (ps @ [pl]))"
  shows "announces_first (ps @ [pl])"
  unfolding announces_first_def
proof
  fix k
  show "set (data_ids (take k (ps @ [pl]))) \<union> set (completed_ids (take k (ps @ [pl]))) \<subseteq> Some ` set (announced_ids (take k (ps @ [pl])))"
    using assms by (cases "k \<le> length ps") (auto simp: announces_first_def)
qed

lemma in_order_sent:
  assumes "in_order d"
  shows "set (data_ids (payloads d)) \<union> set (completed_ids (payloads d)) \<subseteq> Some ` set (announced_ids (payloads d))"
proof -
  obtain cs where cs: "completed_ids (payloads d) = map Some cs" "pub_ok (dl_pub d) cs" using assms by (auto simp: in_order_def)
  then have "set cs \<subseteq> {..<pb_next (dl_pub d)}" by (simp add: pub_ok_def ids_ok_def)
  then have "set (completed_ids (payloads d)) \<subseteq> Some ` {..<pb_next (dl_pub d)}" using cs(1) by auto
  moreover have "set (announced_ids (payloads d)) = {..<pb_next (dl_pub d)}" using assms by (auto simp: in_order_def)
  ultimately show ?thesis using assms by (simp add: in_order_def)
qed

lemma known_streams_new: "known_streams \<lparr>pb_graph = new_graph, pb_next = 0, pb_ids = []\<rparr>"
  by (simp add: known_streams_def new_graph_def)

lemma build_response_in_order:
  assumes "build_response depth w run recs = Inr d"
  shows "in_order d" and "runs_its_batch run \<Longrightarrow> going {} w (dl_graph d)"
proof -
  let ?pb0 = "\<lparr>pb_graph = new_graph, pb_next = 0, pb_ids = []\<rparr> :: 'a publisher"
  obtain ns g where new: "get_new_root_nodes depth w run recs new_graph = Inr (ns, g)"
    and out: "(case to_pending w ns \<lparr>pb_graph = g, pb_next = 0, pb_ids = []\<rparr> of (pending, pb) \<Rightarrow>
         Inr \<lparr>dl_pub = pb, dl_now = nothing_yet, dl_sent = [nothing_yet\<lparr>pl_pending := pending\<rparr>], dl_mode = Draining\<rparr>) = (Inr d :: _ res)"
    using assms by (auto simp: build_response_def res_iffs)
  obtain p pb where pend: "to_pending w ns (?pb0\<lparr>pb_graph := g\<rparr>) = (p, pb)" by fastforce
  have d: "d = \<lparr>dl_pub = pb, dl_now = nothing_yet, dl_sent = [nothing_yet\<lparr>pl_pending := p\<rparr>], dl_mode = Draining\<rparr>"
    using out pend by simp
  have pre: "ids_ok (pb_ids ?pb0) (pb_next ?pb0) (set (ig_roots (new_graph :: 'a inc_graph)) - {}) []" "distinct (ig_roots (new_graph :: 'a inc_graph))"
    "known_streams (?pb0\<lparr>pb_graph := new_graph\<rparr>)"
    using known_streams_new by (simp_all add: ids_ok_def new_graph_def)
  note ann = pub_ok_opens [OF pre get_new_root_nodes_opens(1) [OF new] pend]
  have "announces_first [nothing_yet\<lparr>pl_pending := p\<rparr>]"
    by (rule announces_first_snoc [of "[]", simplified]) (simp_all add: announces_first_def sent_ids nothing_yet_def)
  then show "in_order d" using ann
    by (simp add: in_order_def d payloads_def sent_ids nothing_yet_def ends_with_last_def)
  show "going {} w (dl_graph d)" if "runs_its_batch run"
  proof -
    have "going {} w (new_graph :: 'a inc_graph)" by (simp add: going_def shared_pending_def new_graph_def)
    from get_new_root_nodes_opens(2) [OF new that this] show ?thesis using ann(4) by (simp add: d)
  qed
qed

section \<open>The steps\<close>

lemma handle_next_in_order:
  assumes i: "in_order d" and h: "handle_next depth w run d = Inr d'" and open': "dl_mode d = Draining"
  shows "in_order d'"
proof (cases "ig_queue (dl_graph d)")
  case Nil
  then show ?thesis using h i by (simp add: handle_next_def)
next
  case (Cons c rest)
  let ?pb = "(dl_pub d)\<lparr>pb_graph := (dl_graph d)\<lparr>ig_queue := rest\<rparr>\<rparr>"
  obtain p es cd pb' where hc: "handle_completed depth w run c ?pb = Inr (p, es, cd, pb')"
    and d': "d' = d\<lparr>dl_pub := pb', dl_now := gather_payload p es cd (dl_now d)\<rparr>"
    using h Cons by (auto simp: handle_next_def res_iffs)
  obtain cs where cs: "completed_ids (payloads d) = map Some cs" "pub_ok (dl_pub d) cs" using i by (auto simp: in_order_def)
  have ok: "pub_ok ?pb cs" using cs(2) by (auto simp: pub_ok_def known_streams_def Cons)
  have "Strm s \<in> fst ` set (pb_ids ?pb)" if "s \<in> set (batch_streams c)" for s
    using cs(2) that by (auto simp: pub_ok_def known_streams_def Cons)
  from handle_completed_handled [OF ok this hc] obtain new where new: "map fst cd = map Some new" "pub_ok pb' (cs @ new)"
    "pb_next (dl_pub d) \<le> pb_next pb'" "map fst p = [pb_next (dl_pub d)..<pb_next pb']"
    "entry_id ` set es \<subseteq> Some ` {..<pb_next pb'}" "p \<noteq> [] \<longrightarrow> es \<noteq> [] \<or> cd \<noteq> []" by (auto simp: handled_def)
  have c: "completed_ids (payloads d') = map Some (cs @ new)"
    using cs(1) new(1) by (simp add: payloads_def d' completed_ids_def gather_payload_def)
  have a: "announced_ids (payloads d') = [0..<pb_next (dl_pub d)] @ map fst p"
    using i by (simp add: in_order_def payloads_def d' announced_ids_def gather_payload_def)
  then have a': "announced_ids (payloads d') = [0..<pb_next pb']"
    using new(3) unfolding new(4) by (metis le_add_diff_inverse upt_add_eq_append zero_le)
  have "set (data_ids (payloads d')) = set (data_ids (payloads d)) \<union> entry_id ` set es"
    by (simp add: payloads_def d' data_ids_def gather_payload_def Un_ac)
  moreover have "Some ` {..<pb_next (dl_pub d)} \<subseteq> Some ` {..<pb_next pb'}" using new(3) by auto
  ultimately have e: "set (data_ids (payloads d')) \<subseteq> Some ` {..<pb_next pb'}"
    using i new(5) unfolding in_order_def by blast
  have n: "pl_pending (dl_now d') \<noteq> [] \<longrightarrow> pl_incremental (dl_now d') \<noteq> [] \<or> pl_completed (dl_now d') \<noteq> []"
    using i new(6) by (auto simp: in_order_def d' gather_payload_def)
  show ?thesis
    unfolding in_order_def
  proof (intro conjI)
    show "\<exists>cs. completed_ids (payloads d') = map Some cs \<and> pub_ok (dl_pub d') cs"
      by (intro exI [of _ "cs @ new"] conjI c) (simp add: d' new(2))
    show "announced_ids (payloads d') = [0..<pb_next (dl_pub d')]" using a' by (simp add: d')
    show "set (data_ids (payloads d')) \<subseteq> Some ` {..<pb_next (dl_pub d')}" using e by (simp add: d')
  qed (use i n open' in \<open>simp_all add: in_order_def d'\<close>)
qed

lemma send_in_order:
  assumes i: "in_order d" and open': "dl_mode d = Draining"
  shows "in_order (send d)"
proof (cases "pl_incremental (dl_now d) = [] \<and> pl_completed (dl_now d) = []")
  case True
  then have "pl_pending (dl_now d) = []" using i by (auto simp: in_order_def)
  then have "announced_ids (payloads (send d)) = announced_ids (payloads d)" "completed_ids (payloads (send d)) = completed_ids (payloads d)"
    "data_ids (payloads (send d)) = data_ids (payloads d)"
    using True by (simp_all add: send_def payloads_def sent_ids nothing_yet_def)
  then show ?thesis using i True open' by (simp add: in_order_def send_def nothing_yet_def)
next
  case False
  let ?pl = "(dl_now d)\<lparr>pl_has_next := has_next (dl_graph d)\<rparr>"
  have s: "send d = d\<lparr>dl_sent := dl_sent d @ [?pl], dl_now := nothing_yet, dl_mode := (if has_next (dl_graph d) then Yielded else Ended)\<rparr>"
    using False by (auto simp: send_def)
  have ids: "announced_ids (payloads (send d)) = announced_ids (payloads d)" "completed_ids (payloads (send d)) = completed_ids (payloads d)"
    "data_ids (payloads (send d)) = data_ids (payloads d)"
    "announced_ids (dl_sent (send d)) = announced_ids (payloads d)" "completed_ids (dl_sent (send d)) = completed_ids (payloads d)"
    "data_ids (dl_sent (send d)) = data_ids (payloads d)"
    by (simp_all add: s payloads_def sent_ids nothing_yet_def)
  have "announces_first (dl_sent (send d))"
    using announces_first_snoc [of "dl_sent d" ?pl] i in_order_sent [OF i] ids(4-6) by (simp add: s in_order_def)
  moreover have "ends_with_last (dl_closed (send d)) (dl_sent (send d))"
  proof -
    have "ends_with_last False (dl_sent d)" using i open' by (simp add: in_order_def)
    then obtain pls pl where "dl_sent d = pls @ [pl]" "\<forall>x \<in> set pls. pl_has_next x" "pl_has_next pl"
      by (cases "dl_sent d" rule: rev_cases) (auto simp: ends_with_last_def)
    then show ?thesis by (simp add: ends_with_last_def s butlast_append)
  qed
  ultimately show ?thesis using i ids unfolding in_order_def by (simp add: s) (simp add: nothing_yet_def)
qed

lemma in_order_graph:
  assumes "in_order d" "ig_roots g = ig_roots (dl_graph d)"
    "set (ig_pumps g) \<union> set (concat (map batch_streams (ig_queue g)))
       \<subseteq> set (ig_pumps (dl_graph d)) \<union> set (concat (map batch_streams (ig_queue (dl_graph d))))"
    and m: "m = Ended \<longleftrightarrow> dl_closed d"
  shows "in_order ((with_graph g d)\<lparr>dl_mode := m\<rparr>)"
proof -
  obtain cs where cs: "completed_ids (payloads d) = map Some cs" "pub_ok (dl_pub d) cs" using assms(1) by (auto simp: in_order_def)
  have "known_streams (dl_pub (with_graph g d))"
    unfolding known_streams_def
  proof (intro allI impI)
    fix s
    assume "s \<in> set (ig_pumps (dl_graph (with_graph g d))) \<or> s \<in> set (concat (map batch_streams (ig_queue (dl_graph (with_graph g d)))))"
    then have "s \<in> set (ig_pumps g) \<union> set (concat (map batch_streams (ig_queue g)))" by (simp add: with_graph_def)
    then have "s \<in> set (ig_pumps (dl_graph d)) \<or> s \<in> set (concat (map batch_streams (ig_queue (dl_graph d))))"
      using assms(3) by blast
    then show "Strm s \<in> fst ` set (pb_ids (dl_pub (with_graph g d)))"
      using cs(2) unfolding pub_ok_def known_streams_def with_graph_def by fastforce
  qed
  then have "pub_ok (dl_pub (with_graph g d)) cs" using cs(2) assms(2) by (simp add: pub_ok_def with_graph_def)
  moreover have "payloads ((with_graph g d)\<lparr>dl_mode := m\<rparr>) = payloads d" by (simp add: payloads_def with_graph_def)
  ultimately show ?thesis using assms(1,2) cs(1) m by (auto simp: in_order_def with_graph_def has_next_def)
qed

lemma dl_step_in_order: "dl_step depth w run ok d d' \<Longrightarrow> in_order d \<Longrightarrow> in_order d'"
proof (induction rule: dl_step.induct)
  case (dl_task d bs1 b bs2 results)
  show ?case unfolding arrive_def by (rule in_order_graph [OF dl_task(4)]) simp_all
next
  case (dl_pump d ss1 b ss2)
  show ?case unfolding arrive_def
    by (rule in_order_graph [OF dl_pump(3)]) (use dl_pump(2) in \<open>auto split: if_splits\<close>)
next
  case (dl_handle d d')
  show ?case by (rule handle_next_in_order [OF dl_handle(3,2,1)])
next
  case (dl_send d)
  then show ?case using send_in_order by blast
next
  case (dl_resume d)
  then show ?case by (auto simp: in_order_def payloads_def)
qed

lemma dl_step_going:
  assumes run: "runs_its_batch run"
  shows "dl_step depth w run ok d d' \<Longrightarrow> going {} w (dl_graph d) \<Longrightarrow> going {} w (dl_graph d')"
proof (induction rule: dl_step.induct)
  case (dl_task d bs1 b bs2 results)
  let ?g = "(dl_graph d)\<lparr>ig_tasks := bs1 @ bs2, ig_queue := ig_queue (dl_graph d) @ map Group_Done results\<rparr>"
  have 1: "shared_pending w ?g = shared_pending w (dl_graph d)" "pend ?g r = pend (dl_graph d) r" "pumping ?g s = pumping (dl_graph d) s"
    "ig_roots ?g = ig_roots (dl_graph d)" for r s
    by (simp_all add: shared_pending_def pumping_def)
  have fly: "flying ?g x" if "flying (dl_graph d) x" for x
    using that dl_task(2,3) by (auto simp: flying_def)
  have "going {} w ?g" unfolding going_def 1 using dl_task(4) fly unfolding going_def by blast
  then show ?case by (simp add: with_graph_def arrive_def)
next
  case (dl_pump d ss1 b ss2)
  let ?g = "(dl_graph d)\<lparr>ig_pumps := ss1 @ (if sb_done b then [] else [sb_stream b]) @ ss2, ig_queue := ig_queue (dl_graph d) @ [Batch_Done b]\<rparr>"
  have 1: "shared_pending w ?g = shared_pending w (dl_graph d)" "pend ?g r = pend (dl_graph d) r" "flying ?g x = flying (dl_graph d) x"
    "ig_roots ?g = ig_roots (dl_graph d)" for r x
    by (simp_all add: shared_pending_def flying_def)
  have pmp: "pumping ?g s" if "pumping (dl_graph d) s" for s
  proof (cases "s \<in> set (ig_pumps (dl_graph d))")
    case True
    then show ?thesis using dl_pump(2) by (cases "sb_done b") (auto simp: pumping_def)
  next
    case False
    then show ?thesis using that by (auto simp: pumping_def)
  qed
  have "going {} w ?g" unfolding going_def 1 using dl_pump(3) pmp unfolding going_def by blast
  then show ?case by (simp add: with_graph_def arrive_def)
next
  case (dl_handle d d')
  show ?case by (rule handle_next_live [OF run dl_handle(3,2)])
qed (simp_all add: send_def)

text \<open>A consumer that asks for the next payload at once: no record ends while the generator is suspended. Then
  a generator that waits has an empty queue.\<close>

definition prompt :: "dl_mode \<Rightarrow> bool" where
  "prompt m = (m \<noteq> Yielded)"

lemma dl_step_prompt:
  "dl_step depth w run prompt d d' \<Longrightarrow> (dl_mode d \<noteq> Draining \<and> dl_mode d \<noteq> Ended \<longrightarrow> ig_queue (dl_graph d) = [])
     \<Longrightarrow> (dl_mode d' \<noteq> Draining \<and> dl_mode d' \<noteq> Ended \<longrightarrow> ig_queue (dl_graph d') = [])"
proof (induction rule: dl_step.induct)
  case (dl_handle d d')
  then have "dl_mode d' = Draining" by (auto simp: handle_next_def res_iffs split: list.splits)
  then show ?case by simp
next
  case (dl_task d bs1 b bs2 results)
  then show ?case by (cases "dl_mode d") (auto simp: arrive_def prompt_def with_graph_def)
next
  case (dl_pump d ss1 b ss2)
  then show ?case by (cases "dl_mode d") (auto simp: arrive_def prompt_def with_graph_def)
qed (auto simp: send_def)

lemma delivers_in_order: "dl_steps depth w run ok d d' \<Longrightarrow> in_order d \<Longrightarrow> in_order d'"
  by (induction rule: dl_steps.induct) (auto intro: dl_step_in_order)

lemma delivers_going:
  "dl_steps depth w run ok d d' \<Longrightarrow> runs_its_batch run \<Longrightarrow> going {} w (dl_graph d) \<Longrightarrow> going {} w (dl_graph d')"
  by (induction rule: dl_steps.induct) (auto intro: dl_step_going)

lemma delivers_prompt:
  "dl_steps depth w run prompt d d' \<Longrightarrow> dl_mode d = Draining \<Longrightarrow>
     dl_mode d' \<noteq> Draining \<and> dl_mode d' \<noteq> Ended \<longrightarrow> ig_queue (dl_graph d') = []"
  by (induction rule: dl_steps.induct) (auto dest: dl_step_prompt)

lemma going_work:
  assumes "going {} w g" "has_next g"
  shows "ig_queue g \<noteq> [] \<or> ig_tasks g \<noteq> [] \<or> ig_pumps g \<noteq> [] \<or> ig_runs g \<noteq> []"
proof -
  obtain n where n: "n \<in> set (ig_roots g)" using assms(2) by (cases "ig_roots g") (auto simp: has_next_def)
  show ?thesis
  proof (cases n)
    case (Frag r)
    then have "pend g r \<noteq> []" "\<forall>x \<in> set (pend g r). flying g x" using assms(1) n unfolding going_def by auto
    then obtain x where "flying g x" by (cases "pend g r") auto
    then show ?thesis by (auto simp: flying_def)
  next
    case (Strm s)
    then have "pumping g s" using assms(1) n unfolding going_def by blast
    then show ?thesis by (auto simp: pumping_def)
  qed
qed

section \<open>Nothing collected is left unstarted\<close>

lemma run_batches_runs [simp]: "ig_runs (run_batches run bs g) = ig_runs g"
  by (induction bs arbitrary: g) (simp_all split: option.splits)

lemma flush_runs_runs [simp]: "ig_runs (flush_runs w run g) = []"
  by (simp add: flush_runs_def)

lemma get_new_root_nodes_runs:
  assumes "get_new_root_nodes d w run recs g = Inr (ns, g')"
  shows "ig_runs g' = []"
proof -
  obtain g1 init where out: "(case promote_non_empty_to_root w (case init of None \<Rightarrow> [] | Some ks \<Rightarrow> ks) g1 of
       (_, new_roots, g2) \<Rightarrow> Inr (new_roots, flush_runs w run g2)) = (Inr (ns, g') :: (_ \<times> 'a inc_graph) res)"
    using assms by (auto simp: get_new_root_nodes_def res_iffs)
  obtain maybe ns' g2 where "promote_non_empty_to_root w (case init of None \<Rightarrow> [] | Some ks \<Rightarrow> ks) g1 = (maybe, ns', g2)"
    by (rule prod_cases3)
  then show ?thesis using out by auto
qed

lemma settle_group_runs [simp]: "ig_runs (settle_group res ms g) = ig_runs g"
  using settle_group_fields [of res ms g] by auto

lemma add_completed_group_runs: "add_completed_group d w run res g = Inr g' \<Longrightarrow> ig_runs g = [] \<Longrightarrow> ig_runs g' = []"
  by (auto simp: add_completed_group_def Let_def res_iffs split: if_splits)

lemma complete_members_runs:
  "complete_members w run ms pb = (p, i, c, pb') \<Longrightarrow> ig_runs (pb_graph pb) = [] \<Longrightarrow> ig_runs (pb_graph pb') = []"
proof (induction ms arbitrary: pb p i c)
  case (Cons r ms)
  show ?case
  proof (cases "complete_deferred_fragment w run r (pb_graph pb)")
    case None
    then show ?thesis using Cons by simp
  next
    case (Some done')
    obtain ns results g where done': "done' = (ns, results, g)" by (cases done')
    obtain p1 pb1 where pend1: "to_pending w ns (pb\<lparr>pb_graph := g\<rparr>) = (p1, pb1)" by fastforce
    obtain p2 i2 c2 where rest: "complete_members w run ms pb1 = (p2, i2, c2, pb')"
      using Cons.prems(1) Some done' pend1 by (auto split: prod.splits)
    have "ig_runs g = []" using Some done' by (auto simp: complete_deferred_fragment_def Let_def split: if_splits prod.splits)
    then show ?thesis using Cons.IH [OF rest] to_pending_graph [OF pend1] by simp
  qed
qed simp

lemma handle_next_runs:
  assumes h: "handle_next depth w run d = Inr d'" and e: "ig_runs (dl_graph d) = []"
  shows "ig_runs (dl_graph d') = []"
proof (cases "ig_queue (dl_graph d)")
  case Nil
  then show ?thesis using h e by (simp add: handle_next_def)
next
  case (Cons c rest)
  let ?pb = "(dl_pub d)\<lparr>pb_graph := (dl_graph d)\<lparr>ig_queue := rest\<rparr>\<rparr>"
  obtain p i cd pb' where hc: "handle_completed depth w run c ?pb = Inr (p, i, cd, pb')" and d': "dl_pub d' = pb'"
    using h Cons by (auto simp: handle_next_def res_iffs)
  have "ig_runs (pb_graph pb') = []"
  proof (cases c)
    case (Group_Done res)
    show ?thesis
    proof (cases "gr_failed res")
      case True
      then have "fail_members (w_members w (gr_group res)) (gr_errors res) ?pb = (cd, pb')"
        using hc Group_Done by (auto simp: handle_completed_def handle_execution_group_def Let_def split: prod.splits)
      from fail_members_graph [OF this] e show ?thesis by simp
    next
      case False
      then obtain g where "add_completed_group depth w run (res\<lparr>gr_children := filter_group_children w res\<rparr>) ((dl_graph d)\<lparr>ig_queue := rest\<rparr>) = Inr g"
        and cm: "complete_members w run (w_members w (gr_group res)) (?pb\<lparr>pb_graph := g\<rparr>) = (p, i, cd, pb')"
        using hc Group_Done by (auto simp: handle_completed_def handle_execution_group_def Let_def res_iffs)
      then have "ig_runs g = []" using add_completed_group_runs e by fastforce
      then show ?thesis using complete_members_runs [OF cm] by simp
    qed
  next
    case (Batch_Done b)
    show ?thesis
    proof (cases "sb_done b \<or> sb_children b = []")
      case True
      then show ?thesis using hc e Batch_Done
        by (auto simp: handle_completed_def handle_stream_batch_def Let_def remove_stream_def remove_root_def res_iffs split: if_splits)
    next
      case False
      then obtain ns g where new: "get_new_root_nodes depth w run (sb_children b) ((dl_graph d)\<lparr>ig_queue := rest\<rparr>) = Inr (ns, g)"
        and out: "(case to_pending w ns (?pb\<lparr>pb_graph := g\<rparr>) of (pending, pb') \<Rightarrow>
              Inr (pending, [Stream_Entry (map_of (pb_ids (dl_pub d)) (Strm (sb_stream b))) (sb_items b) (sb_errors b)], [], pb')) = (Inr (p, i, cd, pb') :: _ res)"
        using hc Batch_Done by (auto simp: handle_completed_def handle_stream_batch_def Let_def res_iffs)
      have pend: "to_pending w ns (?pb\<lparr>pb_graph := g\<rparr>) = (p, pb')" using out by (auto split: prod.splits)
      show ?thesis using get_new_root_nodes_runs [OF new] to_pending_graph [OF pend] by simp
    qed
  qed
  then show ?thesis by (simp add: d')
qed

lemma dl_step_runs: "dl_step depth w run ok d d' \<Longrightarrow> ig_runs (dl_graph d) = [] \<Longrightarrow> ig_runs (dl_graph d') = []"
  by (induction rule: dl_step.induct) (auto simp: with_graph_def arrive_def send_def handle_next_runs)

lemma delivers_runs: "dl_steps depth w run ok d d' \<Longrightarrow> ig_runs (dl_graph d) = [] \<Longrightarrow> ig_runs (dl_graph d') = []"
  by (induction rule: dl_steps.induct) (auto intro: dl_step_runs)

lemma build_response_runs:
  assumes "build_response depth w run recs = Inr d"
  shows "ig_runs (dl_graph d) = []"
proof -
  obtain ns g where new: "get_new_root_nodes depth w run recs new_graph = Inr (ns, g)"
    and out: "(case to_pending w ns \<lparr>pb_graph = g, pb_next = 0, pb_ids = []\<rparr> of (pending, pb) \<Rightarrow>
         Inr \<lparr>dl_pub = pb, dl_now = nothing_yet, dl_sent = [nothing_yet\<lparr>pl_pending := pending\<rparr>], dl_mode = Draining\<rparr>) = (Inr d :: _ res)"
    using assms by (auto simp: build_response_def res_iffs)
  obtain p pb where pend: "to_pending w ns \<lparr>pb_graph = g, pb_next = 0, pb_ids = []\<rparr> = (p, pb)" by fastforce
  then have "dl_graph d = g" using out to_pending_graph [OF pend] by auto
  then show ?thesis using get_new_root_nodes_runs [OF new] by simp
qed

lemma build_response_mode: "build_response depth w run recs = Inr d \<Longrightarrow> dl_mode d = Draining"
  by (cases "get_new_root_nodes depth w run recs (new_graph :: 'a inc_graph)") (auto simp: build_response_def split: prod.splits)

end
