(* ===== verification/Inc_Properties.thy ===== *)
theory Inc_Properties
  imports Inc_Progress
begin

text \<open>
  The correctness properties of incremental delivery, with a response of a deferred fragment, a nested one
  and a stream as their instance, and the cases where the record graph goes wrong.
\<close>

section \<open>An example\<close>

text \<open>Fragment 0 hangs off the root and fragment 1 inside it, at \<open>a\<close>; group \<open>n\<close> belongs to fragment \<open>n\<close>, and
  stream 0 is the list \<open>items\<close> of the initial result.\<close>

definition example_world :: inc_world where
  "example_world = \<lparr>w_parent = (\<lambda>r. if r = 1 then Some 0 else None),
     w_path = (\<lambda>n. case n of Frag r \<Rightarrow> if r = 0 then [] else [SKey ''a''] | Strm s \<Rightarrow> [SKey ''items'']),
     w_label = (\<lambda>n. None), w_members = (\<lambda>x. [x]), w_spec = (\<lambda>x. x)\<rparr>"

definition example_result :: "nat \<Rightarrow> nat group_result" where
  "example_result x = \<lparr>gr_ref = x, gr_group = x, gr_path = (if x = 0 then [] else [SKey ''a'']),
     gr_data = VDict [(''a'', VDict [])], gr_errors = [], gr_failed = False, gr_children = (if x = 0 then [Group_Rec 1] else [])\<rparr>"

definition example_run :: "nat list \<Rightarrow> nat group_result list option" where
  "example_run b = Some (map example_result b)"

lemma example_runs: "runs_its_batch example_run"
  by (simp add: runs_its_batch_def example_run_def example_result_def comp_def)

definition example_start :: "nat delivery" where
  "example_start = (case build_response 9 example_world example_run [Group_Rec 0, Stream_Rec 0] of Inr d \<Rightarrow> d)"

definition stream_end :: "nat stream_batch" where
  "stream_end = \<lparr>sb_stream = 0, sb_items = [], sb_errors = [], sb_children = [], sb_done = True\<rparr>"

definition example_ended :: "nat delivery" where
  "example_ended = arrive [Batch_Done stream_end] ((dl_graph example_start)\<lparr>ig_pumps := []\<rparr>) example_start"

text \<open>The publisher handling the records at the head of the queue.\<close>

fun handle_times ::
  "nat \<Rightarrow> inc_world \<Rightarrow> (nat list \<Rightarrow> 'e group_result list option) \<Rightarrow> nat \<Rightarrow> 'e delivery \<Rightarrow> 'e delivery res" where
  "handle_times depth w run 0 d = Inr d"
| "handle_times depth w run (Suc k) d = bind_res (handle_next depth w run d) (handle_times depth w run k)"

lemma handle_times_delivers:
  "handle_times depth w run k d = Inr d' \<Longrightarrow> dl_mode d = Draining \<Longrightarrow> dl_steps depth w run prompt d0 d
     \<Longrightarrow> dl_steps depth w run prompt d0 d'"
proof (induction k arbitrary: d)
  case (Suc k)
  then obtain d1 where 1: "handle_next depth w run d = Inr d1" and k: "handle_times depth w run k d1 = Inr d'"
    by (auto simp: res_iffs)
  have "dl_steps depth w run prompt d0 d1" by (rule dl_next [OF Suc.prems(3) dl_handle [OF Suc.prems(2) 1]])
  moreover have "dl_mode d1 = Draining" using 1 Suc.prems(2) by (auto simp: handle_next_def res_iffs split: list.splits)
  ultimately show ?case using Suc.IH k by blast
qed simp

definition example_handled :: "nat delivery" where
  "example_handled = (case handle_times 9 example_world example_run 3 example_ended of Inr d \<Rightarrow> d)"

lemma example_build: "build_response 9 example_world example_run [Group_Rec 0, Stream_Rec 0] = Inr example_start"
  by code_simp

lemma example_half: "dl_steps 9 example_world example_run prompt example_start example_ended"
proof -
  have "prompt (dl_mode example_start)" "ig_pumps (dl_graph example_start) = [] @ sb_stream stream_end # []" by code_simp+
  from dl_next [OF dl_here dl_pump [where ok = prompt, OF this]] show ?thesis by (simp add: example_ended_def stream_end_def)
qed

lemma example_whole: "dl_steps 9 example_world example_run prompt example_start (send example_handled)"
proof -
  have "handle_times 9 example_world example_run 3 example_ended = Inr example_handled" "dl_mode example_ended = Draining" by code_simp+
  from handle_times_delivers [OF this example_half]
  have "dl_steps 9 example_world example_run prompt example_start example_handled" .
  moreover have "dl_mode example_handled = Draining" "ig_queue (dl_graph example_handled) = []" by code_simp+
  ultimately show ?thesis by (intro dl_next [OF _ dl_send])
qed

section \<open>The protocol\<close>

text \<open>C14: whatever the order in which groups and stream batches end, the payloads announce the ids 0, 1, 2 in
  order, each once; what a payload carries data for or completes it or an earlier one has announced; no id is
  completed twice; and \<open>hasNext\<close> is true of every payload but the last of a response that has ended.\<close>

theorem delivery_follows_protocol:
  assumes "build_response depth w run recs = Inr d0" and "dl_steps depth w run ok d0 d"
  shows "announced_ids (payloads d) = [0..<pb_next (dl_pub d)] \<and> announces_first (dl_sent d)
     \<and> distinct (completed_ids (payloads d)) \<and> ends_with_last (dl_closed d) (dl_sent d)"
proof -
  have "in_order d" by (rule delivers_in_order [OF assms(2) build_response_in_order(1) [OF assms(1)]])
  then show ?thesis by (auto simp: in_order_def pub_ok_def ids_ok_def distinct_map)
qed

lemma delivery_follows_protocol_witness:
  "announces_first (dl_sent (send example_handled)) \<and> dl_closed (send example_handled)
     \<and> completed_ids (dl_sent (send example_handled)) = [Some 0, Some 1, Some 2]"
proof -
  have "dl_closed (send example_handled)" "completed_ids (dl_sent (send example_handled)) = [Some 0, Some 1, Some 2]"
    by code_simp+
  then show ?thesis using delivery_follows_protocol [OF example_build example_whole] by simp
qed

text \<open>C16: when a response has ended and no node was announced twice, every announced id has been completed.\<close>

theorem ended_delivery_is_complete:
  assumes "build_response depth w run recs = Inr d0" and "dl_steps depth w run ok d0 d"
    and "dl_closed d" and "length (pb_ids (dl_pub d)) = pb_next (dl_pub d)"
  shows "set (completed_ids (dl_sent d)) = Some ` set (announced_ids (dl_sent d))"
proof -
  have d: "in_order d" by (rule delivers_in_order [OF assms(2) build_response_in_order(1) [OF assms(1)]])
  then have now: "dl_now d = nothing_yet" "ig_roots (dl_graph d) = []" using assms(3) by (auto simp: in_order_def has_next_def)
  then have sent: "completed_ids (payloads d) = completed_ids (dl_sent d)" "announced_ids (payloads d) = announced_ids (dl_sent d)"
    by (simp_all add: payloads_def sent_ids nothing_yet_def)
  obtain cs where cs: "completed_ids (payloads d) = map Some cs" "pub_ok (dl_pub d) cs" using d by (auto simp: in_order_def)
  then have "set cs = {..<pb_next (dl_pub d)}" using assms(4) now(2) by (auto simp: pub_ok_def ids_ok_def)
  moreover have "set (announced_ids (payloads d)) = {..<pb_next (dl_pub d)}" using d by (auto simp: in_order_def)
  ultimately show ?thesis using cs(1) by (simp add: sent)
qed

lemma ended_delivery_is_complete_witness:
  "set (completed_ids (dl_sent (send example_handled))) = Some ` {0, 1, 2}"
proof -
  have "dl_closed (send example_handled)" "length (pb_ids (dl_pub (send example_handled))) = pb_next (dl_pub (send example_handled))"
    "announced_ids (dl_sent (send example_handled)) = [0, 1, 2]" by code_simp+
  then show ?thesis using ended_delivery_is_complete [OF example_build example_whole] by simp
qed

section \<open>Progress\<close>

text \<open>C15: with a consumer that asks for the next payload at once, a generator that waits while \<open>hasNext\<close> is true
  waits for a group that was started and has not ended or for a stream that is being drained, whose end wakes
  it: no response hangs.\<close>

theorem waiting_delivery_has_work:
  assumes "build_response depth w run recs = Inr d0" and "dl_steps depth w run prompt d0 d" and "runs_its_batch run"
    and "dl_mode d = Waiting" and "has_next (dl_graph d)"
  shows "ig_tasks (dl_graph d) \<noteq> [] \<or> ig_pumps (dl_graph d) \<noteq> []"
proof -
  have "dl_mode d0 = Draining" using build_response_mode [OF assms(1)] .
  then have "ig_queue (dl_graph d) = []" using delivers_prompt [OF assms(2)] assms(4) by simp
  then show ?thesis
    using going_work [of w "dl_graph d"] delivers_going [OF assms(2,3) build_response_in_order(2) [OF assms(1,3)]]
      delivers_runs [OF assms(2) build_response_runs [OF assms(1)]] assms(5) by blast
qed

definition half_handled :: "nat delivery" where
  "half_handled = (case handle_times 9 example_world example_run 2 example_start of Inr d \<Rightarrow> send d)"

lemma half_handled_delivers: "dl_steps 9 example_world example_run prompt example_start (half_handled\<lparr>dl_mode := Waiting\<rparr>)"
proof -
  let ?d = "case handle_times 9 example_world example_run 2 example_start of Inr d \<Rightarrow> d"
  have "handle_times 9 example_world example_run 2 example_start = Inr ?d" "dl_mode example_start = Draining"
    "dl_mode ?d = Draining" "ig_queue (dl_graph ?d) = []" "dl_mode half_handled = Yielded" "half_handled = send ?d" by code_simp+
  then show ?thesis using handle_times_delivers [OF _ _ dl_here] by (metis dl_next dl_send dl_resume)
qed

lemma waiting_delivery_has_work_witness: "ig_pumps (dl_graph half_handled) = [0]"
proof -
  have "dl_mode (half_handled\<lparr>dl_mode := Waiting\<rparr>) = Waiting" "has_next (dl_graph (half_handled\<lparr>dl_mode := Waiting\<rparr>))"
    "ig_tasks (dl_graph half_handled) = []" "set (ig_pumps (dl_graph half_handled)) \<subseteq> {0}" "length (ig_pumps (dl_graph half_handled)) \<le> 1"
    by code_simp+
  then show ?thesis using waiting_delivery_has_work [OF example_build half_handled_delivers example_runs]
    by (cases "ig_pumps (dl_graph half_handled)") auto
qed

text \<open>A consumer that is slow: the stream's end is queued while the generator is suspended after a payload, and
  the future the generator then waits on is never resolved.\<close>

definition lost_wake_up :: "nat delivery" where
  "lost_wake_up = (arrive [Batch_Done stream_end] ((dl_graph half_handled)\<lparr>ig_pumps := []\<rparr>) half_handled)\<lparr>dl_mode := Waiting\<rparr>"

lemma slow_consumer_waits_forever:
  "dl_mode half_handled = Yielded"
  "dl_step 9 example_world example_run ok lost_wake_up d \<Longrightarrow> False" "has_next (dl_graph lost_wake_up)" "ig_queue (dl_graph lost_wake_up) \<noteq> []"
proof -
  show "dl_mode half_handled = Yielded" "has_next (dl_graph lost_wake_up)" "ig_queue (dl_graph lost_wake_up) \<noteq> []" by code_simp+
  have stuck: "dl_mode lost_wake_up = Waiting" "ig_tasks (dl_graph lost_wake_up) = []" "ig_pumps (dl_graph lost_wake_up) = []" by code_simp+
  show "False" if "dl_step 9 example_world example_run ok lost_wake_up d"
    using that by (cases rule: dl_step.cases) (simp_all add: stuck)
qed

lemma slow_consumer_reaches:
  "dl_steps 9 example_world example_run (\<lambda>m. True) half_handled lost_wake_up"
proof -
  have "ig_pumps (dl_graph half_handled) = [] @ sb_stream stream_end # []" "dl_mode half_handled = Yielded" by code_simp+
  note p = dl_next [OF dl_here dl_pump [where ok = "\<lambda>m. True", OF TrueI this(1)]]
  have "dl_mode (arrive [Batch_Done stream_end] ((dl_graph half_handled)\<lparr>ig_pumps := []\<rparr>) half_handled) = Yielded" by code_simp
  from dl_next [OF _ dl_resume [OF this]] p show ?thesis by (simp add: lost_wake_up_def stream_end_def)
qed

section \<open>Where the record graph goes wrong\<close>

text \<open>Runs of a response: the publisher handles the next record, or a stream's pump hands over a batch.\<close>

datatype 'e act = Handle_Next | Pump_Batch "'e stream_batch"

fun play ::
  "inc_world \<Rightarrow> (nat list \<Rightarrow> 'e group_result list option) \<Rightarrow> 'e act list \<Rightarrow> 'e delivery \<Rightarrow> 'e delivery res" where
  "play w run [] d = Inr d"
| "play w run (Handle_Next # acts) d = bind_res (handle_next 9 w run d) (play w run acts)"
| "play w run (Pump_Batch b # acts) d =
     (if sb_stream b \<notin> set (ig_pumps (dl_graph d)) then Inl (KeyError ''pump'')
      else play w run acts (arrive [Batch_Done b] ((dl_graph d)\<lparr>ig_pumps := (if sb_done b then remove1 (sb_stream b) else id) (ig_pumps (dl_graph d))\<rparr>) d))"

definition play_response ::
  "inc_world \<Rightarrow> (nat list \<Rightarrow> 'e group_result list option) \<Rightarrow> inc_record list \<Rightarrow> 'e act list \<Rightarrow> 'e delivery res" where
  "play_response w run recs acts = bind_res (build_response 9 w run recs) (play w run acts)"

definition announced_paths :: "'e delivery res \<Rightarrow> seg list list" where
  "announced_paths d = (case d of Inl e \<Rightarrow> [] | Inr d \<Rightarrow> concat (map (\<lambda>pl. map (\<lambda>p. fst (snd p)) (pl_pending pl)) (payloads d)))"

text \<open>A group of fragment 0 reveals the stream; an item of the stream reveals a group of fragment 1, whose parent,
  fragment 0, has completed.\<close>

definition revealing_run :: "nat list \<Rightarrow> nat group_result list option" where
  "revealing_run b = Some (map (\<lambda>x. (example_result x)\<lparr>gr_children := (if x = 0 then [Stream_Rec 0] else [])\<rparr>) b)"

definition stream_item :: "nat stream_batch" where
  "stream_item = \<lparr>sb_stream = 0, sb_items = [VInt 1], sb_errors = [], sb_children = [Group_Rec 1], sb_done = False\<rparr>"

lemma nested_defer_repeats_stream:
  "announced_paths (play_response example_world revealing_run [Group_Rec 0] [Handle_Next, Pump_Batch stream_item, Handle_Next])
     = [[], [SKey ''items''], [SKey ''items''], [SKey ''a'']]"
  "play_response example_world revealing_run [Group_Rec 0]
     [Handle_Next, Pump_Batch stream_item, Handle_Next, Pump_Batch stream_end, Pump_Batch stream_end, Handle_Next, Handle_Next, Handle_Next]
     = Inl (KeyError ''stream'')"
  by code_simp+

text \<open>Group 2 belongs to two fragments and reveals a stream, which becomes a child of both.\<close>

definition shared_world :: inc_world where
  "shared_world = example_world\<lparr>w_parent := (\<lambda>r. None), w_members := (\<lambda>x. if x = 2 then [0, 1] else [x])\<rparr>"

definition shared_run :: "nat list \<Rightarrow> nat group_result list option" where
  "shared_run b = Some (map (\<lambda>x. (example_result x)\<lparr>gr_children := (if x = 2 then [Stream_Rec 0] else [])\<rparr>) b)"

lemma shared_group_repeats_stream:
  "announced_paths (play_response shared_world shared_run [Group_Rec 2] [Handle_Next])
     = [[], [SKey ''a''], [SKey ''items''], [SKey ''items'']]"
  "play_response shared_world shared_run [Group_Rec 2]
     [Handle_Next, Pump_Batch stream_end, Pump_Batch stream_end, Handle_Next, Handle_Next] = Inl (KeyError ''stream'')"
  by code_simp+

text \<open>Groups 0 and 2 belong to fragment 0; group 2 fails, and group 0 then reveals the nested fragment 1.\<close>

definition failing_world :: inc_world where
  "failing_world = example_world\<lparr>w_members := (\<lambda>x. if x = 1 then [1] else [0])\<rparr>"

definition failing_run :: "nat list \<Rightarrow> nat group_result list option" where
  "failing_run b = Some (map (\<lambda>x. (example_result x)\<lparr>gr_failed := (x = 2)\<rparr>) b)"

lemma failed_sibling_breaks_response:
  "play_response failing_world failing_run [Group_Rec 2, Group_Rec 0] [Handle_Next, Handle_Next]
     = Inl (TypeError ''NoneType does not support item assignment'')"
  by code_simp

text \<open>Group 2 belongs to fragment 0 and to fragment 1, which lies deeper; fragment 1's own group fails first,
  and the data is then delivered under the id with which fragment 1 completed.\<close>

definition deep_world :: inc_world where
  "deep_world = example_world\<lparr>w_parent := (\<lambda>r. None), w_members := (\<lambda>x. if x = 2 then [0, 1] else [x])\<rparr>"

definition deep_run :: "nat list \<Rightarrow> nat group_result list option" where
  "deep_run b = Some (map (\<lambda>x. (example_result x)\<lparr>gr_failed := (x = 1), gr_children := []\<rparr>) b)"

lemma data_under_failed_fragment:
  "(case play_response deep_world deep_run [Group_Rec 1, Group_Rec 2] [Handle_Next] of
      Inr d \<Rightarrow> (completed_ids (payloads d), data_ids (payloads d)) | Inl e \<Rightarrow> ([], [])) = ([Some 0], [])"
  "(case play_response deep_world deep_run [Group_Rec 1, Group_Rec 2] [Handle_Next, Handle_Next] of
      Inr d \<Rightarrow> (completed_ids (payloads d), data_ids (payloads d)) | Inl e \<Rightarrow> ([], [])) = ([Some 0, Some 1], [Some 0])"
  by code_simp+

end
