(* ===== verification/Spec2Isabelle.thy ===== *)
theory Spec2Isabelle
  imports Dag_Properties Core_Properties Request_Properties Pg_Properties Execution_Properties
    Output_Properties Connection_Properties Inline_Properties Inline_Hook Mutation_Properties
    Union_Properties Customize_Properties Inc_Properties
begin

text \<open>
  A verification development for grafast-py, a planning GraphQL executor (\<open>src/src/grafast_py\<close>). A request
  is planned once: the resolvers build a DAG of steps, the planner optimizes it, and the finished operation
  plan is cached for every request the plan's recorded observations accept. It is then executed in batches:
  each step runs once per bucket of parents over columns of values, and the completers turn the columns into
  the response. Postgres steps turn a bucket into one statement.

  \<^bold>\<open>How the model is written.\<close> A Python value is a \<open>pyval\<close>, an exception is a value of \<open>exn\<close>, and code that may
  raise returns \<open>exn + 'a\<close> (\<open>Prelude\<close>, \<open>Py_Values\<close>). What a callable gives back is \<open>Raised\<close>, \<open>Returned\<close> or
  \<open>Awaitable\<close>. A dict is an association list in insertion order. Mutable objects the code shares (steps) live
  in an explicit heap and are named by references; all other state is passed and returned. Code outside the
  repository is a parameter: the resolvers and optimize hooks of a host, the hash, graphql-core's serialisers
  and error location, and the database.

  \<^bold>\<open>Theories.\<close>
  \<^item> The step DAG. \<open>Dag_Order\<close>: step objects and the two orders; \<open>Dag\<close>: class \<open>Plan\<close> of \<open>dag.py\<close> (registration,
    reverse index, optimize loop, deduplication, tree shaking, remaps); \<open>Dag_Laws\<close>: the invariant and what each
    operation keeps of it; \<open>Dag_Passes\<close>: the deduplication pass ends and merges exactly equal computations;
    \<open>Dag_Optimize\<close>: the optimize pass returns for every hook that keeps its contract, which is stated there;
    \<open>Dag_Properties\<close>.
  \<^item> Steps and their bucket executor. \<open>Step_Model\<close>: \<open>step_model.py\<close>; \<open>Core_Steps\<close>: every step of \<open>core_steps.py\<close>
    and the resolver adapter of \<open>steps.py\<close>; \<open>Text_Codec\<close>: JSON and base64 as far as ids and cursors use them;
    \<open>Core_Laws\<close>, \<open>Step_Properties\<close>, \<open>Core_Properties\<close>. The locales \<open>step_contract\<close> and \<open>uniform_contract\<close> are
    what the executor asks of a step, \<open>token_codec\<close> what a client may do with an opaque token.
  \<^item> Request inputs and the plan cache. \<open>Constraints\<close>: \<open>constraints.py\<close>; \<open>Field_Args\<close>, \<open>Directives\<close>: the argument
    accessor of \<open>schema.py\<close> and the directive scan; \<open>Plan_Cache\<close>, \<open>Cache_Laws\<close>: \<open>cache.py\<close>; \<open>Plan_Serving\<close>,
    \<open>Serving_Laws\<close>: \<open>plan_operation\<close> around the cache, over the locale \<open>plan_store\<close>; \<open>Request_Properties\<close>. Threads
    interleave between the critical sections of the cache's lock.
  \<^item> The output plan and its execution. \<open>Output_Plan\<close>: the plan tree and \<open>finalize_plan\<close> of \<open>plan.py\<close>;
    \<open>Output_Laws\<close>, \<open>Output_Properties\<close>; \<open>Completion\<close>: the completers of \<open>completion.py\<close> and \<open>bubble.py\<close>; \<open>Execute\<close>:
    \<open>execute.py\<close> and the response of \<open>entry.py\<close>, the schedule of the pending fields being a parameter;
    \<open>Conformance\<close>: the shape of what is completed; \<open>Depth_First\<close>: the specification, one value at a time;
    \<open>Batch_Laws\<close>, \<open>Batch_Objects\<close>, \<open>Batch_Execution\<close>: the batched execution refines it; \<open>Execution_Properties\<close>.
  \<^item> Postgres. \<open>Pg_Sql\<close>: predicates in three-valued logic and the filters of \<open>pg/conditions.py\<close>; \<open>Pg_Order\<close>,
    \<open>Pg_Cursor\<close>: \<open>pg/ordering.py\<close> and \<open>pg/cursor.py\<close>; \<open>Pg_Page\<close>: \<open>pg/pagination.py\<close>, \<open>pg/placeholders.py\<close> and the
    registry of \<open>pg/customize.py\<close>; \<open>Pg_Resource\<close>: \<open>pg/resource.py\<close>; \<open>Pg_Database\<close>: the statements as records of
    their clauses and what a relational server answers; \<open>Pg_Select\<close>, \<open>Pg_Select_Laws\<close>: \<open>pg/steps.py\<close>;
    \<open>Pg_Connection\<close>, \<open>Pg_Connection_Laws\<close>, \<open>Pg_Paging\<close>: \<open>pg/connection.py\<close> and a client that pages through it;
    \<open>Pg_Inline\<close>, \<open>Pg_Inline_Laws\<close>: \<open>pg/inline.py\<close> and the optimize hooks of the selects; \<open>Inline_Hook\<close>: that these keep
    the contract of a hook; \<open>Pg_Mutation\<close>, \<open>Pg_Mutation_Laws\<close>:
    \<open>pg/mutations.py\<close>, with the database's tables as the state; \<open>Pg_Union\<close>: \<open>pg/union.py\<close>, its statements and
    what a server answers to them; \<open>Pg_Union_Laws\<close>, \<open>Pg_Union_Pages\<close>: a union is a connection over its members'
    rows as one table, per parent and at the root; \<open>Pg_Properties\<close>, \<open>Connection_Properties\<close>,
    \<open>Inline_Properties\<close>, \<open>Mutation_Properties\<close>, \<open>Union_Properties\<close>. \<open>Pg_Customize\<close>: \<open>pg/customize.py\<close>, a predicate
    being SQLAlchemy's expression tree; \<open>Pg_Customize_Laws\<close>: what keys and parameters stand for; \<open>Pg_Builder\<close>: the
    builder over the three steps it wraps, by the locale \<open>kept_surface\<close>; \<open>Customize_Properties\<close>. The locale \<open>paged_source\<close> of \<open>Pg_Paging\<close> is what
    a client that follows cursors relies on; connections and unions are instances.
  \<^item> Incremental delivery. \<open>Incremental\<close>: the record graph \<open>IncGraph\<close> of \<open>incremental.py\<close>; \<open>Inc_Publisher\<close>: the
    publisher and the generator of payloads as a step relation; \<open>Inc_Laws\<close>: the protocol invariant through the
    handlers; \<open>Inc_Progress\<close>: the progress invariant, and both through the steps; \<open>Inc_Properties\<close>.

  \<^bold>\<open>What is shown.\<close> The DAG passes keep the plan invariant, end, and never change what a step computes. A bucket
  run gives every entry its step's entrywise semantics. What runs once for a bucket reads only what is the same for all its entries.
  A cached plan is served exactly to requests that
  would have built it, under every interleaving, and a request is answered within three steps of its own. A plan is finalized for every such hook, and the finished plan is ready: each layer finds its inputs in
  its own columns, its boundary or the columns hoisted to it. Batched completion equals depth-first completion
  of each parent alone, errors included, and any produced response has the shape of the plan. A keyset cursor
  seeks exactly the rows after its own; a batched select or connection gives each key the rows, page, page
  info and total that a query for it alone would give, and following \<open>endCursor\<close> visits every row once; a
  relation folded into its parent's statement gives the same rows as its own statement. A union over several
  tables gives each parent the page of its rows in all of them, and pages through them without loss. A request served
  a cached plan is filtered by its own customizer with its own values, and what a host's builder makes of a select
  is what its calls say. A structured filter has its own three-valued verdict in SQL, and a cursor is refused under
  every other ordering. A write passes values
  as parameters only, changes no row but those under its entries' keys, and returns the row the table has.
  The payloads of a deferred response announce, carry and complete each id in order and at most once, and
  what is announced has work under way until it is completed; five cases in which the record graph or a slow
  consumer breaks this are exhibited.

  \<^bold>\<open>Bounds and fuel.\<close> \<open>optimize\<close> makes at most the passes the source allows. The contract of its hooks bounds how deep
  steps outside the plan hang on each other by the depth the interpreter allows. A loop of the code that
  need not end (the deduplication loop, the chain of replacements) is a partial function whose \<open>None\<close> is not
  returning; that it does return is part of what is proved. \<open>json_loads\<close> starts with more fuel than characters, each call consuming
  one. Walks that follow fragment spreads carry the depth the interpreter's stack allows and give
  \<open>RecursionError\<close> beyond it, as the code does. \<open>walk_pages\<close> has as fuel the requests a client makes; the number
  of rows and one is shown to be enough. Integers are Python's, so unbounded.

  \<^bold>\<open>Not modelled.\<close> The stream fields of \<open>execute.py\<close>, and of \<open>incremental.py\<close> the
  capture of deferred groups, early execution, and how a group or a stream item is computed (parameters of
  \<open>Incremental\<close> and arbitrary batches in the steps); the building of the plan tree from a selection set. Left out for good: the event loop's scheduling beyond the order in which pending
  work ends, the database driver and its pool (\<open>pg/executor.py\<close>, \<open>pg/engine.py\<close>), SQLAlchemy's rendering and
  reflection, the glue to graphql-core (\<open>context.py\<close>, \<open>_compat.py\<close>), configuration, logging, tracing back ends and
  the examples.
\<close>

end
